(* ===== verification/Csqtt_Prelude.thy ===== *)
theory Csqtt_Prelude
  imports "HOL-Library.Word" "HOL-Library.Multiset" "HOL-Library.Monad_Syntax"
begin

text \<open>
  Shared vocabulary of the development: the machine integers of the engine, big-endian byte
  codecs (\<open>to_be_bytes\<close>, \<open>from_be_bytes\<close>), slices and index reads that may
  panic, hash maps as association lists, the clock, and the generic lemmas on lists, words and
  maps that the component theories use.
\<close>

named_theorems codec_simps "byte codec round trips and widths"
named_theorems slice_simps "slices, index reads and in-place writes"

section \<open>Machine integers and bytes\<close>

type_synonym u8 = "8 word"
type_synonym u16 = "16 word"
type_synonym u32 = "32 word"
type_synonym u64 = "64 word"
type_synonym bytes = "u8 list"

text \<open>Big-endian conversion through the value of the byte string, most significant byte first.\<close>

definition nat_of_be :: "bytes \<Rightarrow> nat" where
  "nat_of_be bs = foldl (\<lambda>acc b. acc * 256 + unat b) 0 bs"

fun be_of_nat :: "nat \<Rightarrow> nat \<Rightarrow> bytes" where
  "be_of_nat 0 x = []"
| "be_of_nat (Suc n) x = be_of_nat n (x div 256) @ [word_of_nat (x mod 256)]"

definition to_be16 :: "u16 \<Rightarrow> bytes" where
  "to_be16 w = be_of_nat 2 (unat w)"

definition to_be32 :: "u32 \<Rightarrow> bytes" where
  "to_be32 w = be_of_nat 4 (unat w)"

definition to_be64 :: "u64 \<Rightarrow> bytes" where
  "to_be64 w = be_of_nat 8 (unat w)"

definition from_be16 :: "bytes \<Rightarrow> u16" where
  "from_be16 bs = word_of_nat (nat_of_be bs)"

definition from_be32 :: "bytes \<Rightarrow> u32" where
  "from_be32 bs = word_of_nat (nat_of_be bs)"

definition from_be64 :: "bytes \<Rightarrow> u64" where
  "from_be64 bs = word_of_nat (nat_of_be bs)"

lemma nat_of_be_Nil [simp]: "nat_of_be [] = 0"
  by (simp add: nat_of_be_def)

lemma nat_of_be_snoc [simp]: "nat_of_be (bs @ [b]) = nat_of_be bs * 256 + unat b"
  by (simp add: nat_of_be_def)

lemma unat_byte_less [simp]: "unat (b :: u8) < 256"
  using unsigned_less [of b] by simp

lemma nat_of_be_bound: "nat_of_be bs < 256 ^ length bs"
proof (induction bs rule: rev_induct)
  case Nil
  then show ?case by simp
next
  case (snoc b bs)
  then have "Suc (nat_of_be bs) * 256 \<le> 256 ^ length bs * 256"
    by (intro mult_le_mono1) simp
  then have "nat_of_be bs * 256 + 256 \<le> 256 ^ length bs * 256"
    by (simp only: mult_Suc add.commute)
  moreover have "unat b < 256" by (rule unat_byte_less)
  ultimately have "nat_of_be bs * 256 + unat b < 256 ^ length bs * 256"
    by linarith
  then show ?case by (simp add: mult.commute)
qed

lemma length_be_of_nat [simp]: "length (be_of_nat n x) = n"
  by (induction n arbitrary: x) auto

lemma be_of_nat_2: "be_of_nat 2 x = [word_of_nat (x div 256 mod 256), word_of_nat (x mod 256)]"
  by (simp add: numeral_2_eq_2)

lemma nat_of_be_of_nat: "nat_of_be (be_of_nat n x) = x mod 256 ^ n"
proof (induction n arbitrary: x)
  case 0
  then show ?case by simp
next
  case (Suc n)
  have "unat (word_of_nat (x mod 256) :: u8) = x mod 256"
    by (simp add: unat_of_nat)
  with Suc show ?case
    by (simp add: mod_mult2_eq mult.commute)
qed

lemma be_of_nat_of_be: "be_of_nat (length bs) (nat_of_be bs) = bs"
  by (induction bs rule: rev_induct) (simp_all add: mod_add_eq)

lemma length_to_be [simp, codec_simps]:
  "length (to_be16 a) = 2" "length (to_be32 b) = 4" "length (to_be64 c) = 8"
  by (simp_all add: to_be16_def to_be32_def to_be64_def)

lemma from_to_be16 [simp, codec_simps]: "from_be16 (to_be16 w) = w"
  using unsigned_less [of w, where ?'a = nat] by (simp add: from_be16_def to_be16_def nat_of_be_of_nat)

lemma from_to_be32 [simp, codec_simps]: "from_be32 (to_be32 w) = w"
  using unsigned_less [of w, where ?'a = nat] by (simp add: from_be32_def to_be32_def nat_of_be_of_nat)

lemma from_to_be64 [simp, codec_simps]: "from_be64 (to_be64 w) = w"
  using unsigned_less [of w, where ?'a = nat] by (simp add: from_be64_def to_be64_def nat_of_be_of_nat)

lemma to_from_be16: "length bs = 2 \<Longrightarrow> to_be16 (from_be16 bs) = bs"
  using nat_of_be_bound [of bs] be_of_nat_of_be [of bs]
  by (simp add: from_be16_def to_be16_def unat_of_nat)

lemma to_from_be32: "length bs = 4 \<Longrightarrow> to_be32 (from_be32 bs) = bs"
  using nat_of_be_bound [of bs] be_of_nat_of_be [of bs]
  by (simp add: from_be32_def to_be32_def unat_of_nat)

lemma to_from_be64: "length bs = 8 \<Longrightarrow> to_be64 (from_be64 bs) = bs"
  using nat_of_be_bound [of bs] be_of_nat_of_be [of bs]
  by (simp add: from_be64_def to_be64_def unat_of_nat)

lemma to_be16_inj [simp]: "to_be16 a = to_be16 b \<longleftrightarrow> a = b"
  by (metis from_to_be16)

lemma to_be32_inj [simp]: "to_be32 a = to_be32 b \<longleftrightarrow> a = b"
  by (metis from_to_be32)

lemma to_be64_inj [simp]: "to_be64 a = to_be64 b \<longleftrightarrow> a = b"
  by (metis from_to_be64)

text \<open>Rust's saturating addition on the two widths the engine uses it at.\<close>

definition sat_add64 :: "u64 \<Rightarrow> u64 \<Rightarrow> u64" where
  "sat_add64 a b = (if unat a + unat b < 2 ^ 64 then a + b else - 1)"

lemma unat_sat_add64: "unat (sat_add64 a b) = min (unat a + unat b) (2 ^ 64 - 1)"
proof (cases "unat a + unat b < 2 ^ 64")
  case True
  then show ?thesis by (simp add: sat_add64_def unat_word_ariths)
next
  case False
  then show ?thesis by (simp add: sat_add64_def unsigned_minus_1_eq_mask mask_eq_exp_minus_1)
qed

section \<open>Slices, index reads and in-place writes\<close>

text \<open>
  \<open>sub xs a b\<close> is the Rust slice \<open>xs[a..b]\<close> where the code has checked the
  bounds; \<open>idx\<close> and \<open>slice\<close> keep the check, \<open>None\<close> standing for the panic
  of an index expression, or for the \<open>None\<close> of the \<open>get\<close> method.
\<close>

definition sub :: "'a list \<Rightarrow> nat \<Rightarrow> nat \<Rightarrow> 'a list" where
  "sub xs a b = take (b - a) (drop a xs)"

definition idx :: "'a list \<Rightarrow> nat \<Rightarrow> 'a option" where
  "idx xs i = (if i < length xs then Some (xs ! i) else None)"

definition slice :: "'a list \<Rightarrow> nat \<Rightarrow> nat \<Rightarrow> 'a list option" where
  "slice xs a b = (if a \<le> b \<and> b \<le> length xs then Some (sub xs a b) else None)"

text \<open>\<open>put off bs out\<close> is \<open>out[off..off + bs.len()].copy_from_slice(bs)\<close>.\<close>

definition put :: "nat \<Rightarrow> 'a list \<Rightarrow> 'a list \<Rightarrow> 'a list" where
  "put off bs out = take off out @ bs @ drop (off + length bs) out"

definition starts_with :: "'a list \<Rightarrow> 'a list \<Rightarrow> bool" where
  "starts_with xs p \<longleftrightarrow> take (length p) xs = p"

definition strip_prefix :: "'a list \<Rightarrow> 'a list \<Rightarrow> 'a list option" where
  "strip_prefix xs p = (if starts_with xs p then Some (drop (length p) xs) else None)"

lemma length_sub [simp, slice_simps]: "b \<le> length xs \<Longrightarrow> length (sub xs a b) = b - a"
  by (simp add: sub_def)

lemma sub_append_left [slice_simps]: "b \<le> length xs \<Longrightarrow> sub (xs @ ys) a b = sub xs a b"
  by (simp add: sub_def)

lemma sub_append_right [slice_simps]:
  "length xs \<le> a \<Longrightarrow> sub (xs @ ys) a b = sub ys (a - length xs) (b - length xs)"
  by (simp add: sub_def)

lemma sub_all [simp, slice_simps]: "sub xs 0 (length xs) = xs"
  by (simp add: sub_def)

lemma sub_0 [slice_simps]: "sub xs 0 b = take b xs"
  by (simp add: sub_def)

lemma take_sub [slice_simps]: "a \<le> b \<Longrightarrow> take a xs @ sub xs a b = take b xs"
  by (simp add: sub_def flip: take_add)

lemma sub_drop [slice_simps]: "a \<le> b \<Longrightarrow> sub xs a b @ drop b xs = drop a xs"
  by (simp add: sub_def) (metis add_diff_inverse_nat append_take_drop_id drop_drop add.commute
      linorder_not_less)

lemma sub_split: "a \<le> b \<Longrightarrow> b \<le> c \<Longrightarrow> sub xs a c = sub xs a b @ sub xs b c"
  using take_add [of "b - a" "c - b" "drop a xs"] by (simp add: sub_def)

lemma sub_empty [simp]: "b \<le> a \<Longrightarrow> sub xs a b = []"
  by (simp add: sub_def)

lemma sub_sub: "b \<le> c - s \<Longrightarrow> sub (sub xs s c) a b = sub xs (s + a) (s + b)"
  by (auto simp: sub_def drop_take min_def add.commute)

lemma nth_sub: "i < b - a \<Longrightarrow> b \<le> length xs \<Longrightarrow> sub xs a b ! i = xs ! (a + i)"
  by (simp add: sub_def)

lemma idx_Some [simp, slice_simps]: "i < length xs \<Longrightarrow> idx xs i = Some (xs ! i)"
  by (simp add: idx_def)

lemma slice_Some [simp, slice_simps]: "a \<le> b \<Longrightarrow> b \<le> length xs \<Longrightarrow> slice xs a b = Some (sub xs a b)"
  by (simp add: slice_def)

lemma length_put [simp, slice_simps]:
  "off + length bs \<le> length out \<Longrightarrow> length (put off bs out) = length out"
  by (simp add: put_def)

lemma sub_put_same [slice_simps]:
  "off + length bs \<le> length out \<Longrightarrow> sub (put off bs out) off (off + length bs) = bs"
  by (simp add: put_def sub_def)

lemma take_put_before [slice_simps]:
  "n \<le> off \<Longrightarrow> off + length bs \<le> length out \<Longrightarrow> take n (put off bs out) = take n out"
  by (simp add: put_def min_def)

lemma drop_put_after [slice_simps]:
  "off + length bs \<le> n \<Longrightarrow> off + length bs \<le> length out \<Longrightarrow> drop n (put off bs out) = drop n out"
  by (simp add: put_def)

text \<open>Reading and writing inside a list taken apart.\<close>

lemma put_append [slice_simps]:
  "off = length xs \<Longrightarrow> length ys = length bs \<Longrightarrow> put off bs (xs @ ys @ zs) = xs @ bs @ zs"
  by (simp add: put_def)

lemma sub_append [slice_simps]:
  "a = length xs \<Longrightarrow> b = length xs + length ys \<Longrightarrow> sub (xs @ ys @ zs) a b = ys"
  by (simp add: sub_def)

lemma sub_inner:
  "b \<le> length ys \<Longrightarrow> sub (xs @ ys @ zs) (length xs + a) (length xs + b) = sub ys a b"
  by (auto simp: sub_def)

lemma nth_inner: "i < length ys \<Longrightarrow> (xs @ ys @ zs) ! (length xs + i) = ys ! i"
  by (simp add: nth_append)

lemma split_at_two:
  assumes "a \<le> b" "b \<le> length xs"
  shows "xs = take a xs @ sub xs a b @ drop b xs"
  using assms by (simp add: sub_drop)

text \<open>Checked subtraction on \<open>usize\<close>: \<open>None\<close> stands for the overflow panic.\<close>

definition usub :: "nat \<Rightarrow> nat \<Rightarrow> nat option" where
  "usub a b = (if b \<le> a then Some (a - b) else None)"

lemma usub_Some [simp, slice_simps]: "b \<le> a \<Longrightarrow> usub a b = Some (a - b)"
  by (simp add: usub_def)

lemma starts_with_append [simp]: "starts_with (p @ xs) p"
  by (simp add: starts_with_def)

lemma strip_prefix_append [simp]: "strip_prefix (p @ xs) p = Some xs"
  by (simp add: strip_prefix_def)

lemma strip_prefix_Some: "strip_prefix xs p = Some ys \<longleftrightarrow> xs = p @ ys"
  by (auto simp: strip_prefix_def starts_with_def) (metis append_take_drop_id)

text \<open>ASCII text as the bytes the code compares against.\<close>

definition ascii :: "string \<Rightarrow> bytes" where
  "ascii s = map (\<lambda>c. word_of_nat (of_char c)) s"

lemma length_ascii [simp]: "length (ascii s) = length s"
  by (simp add: ascii_def)

lemma length_2: "length xs = 2 \<Longrightarrow> \<exists>a b. xs = [a, b]"
  by (auto simp: length_Suc_conv numeral_eq_Suc)

lemma length_4: "length xs = 4 \<Longrightarrow> \<exists>a b c d. xs = [a, b, c, d]"
  by (auto simp: length_Suc_conv numeral_eq_Suc)

section \<open>Vectors\<close>

text \<open>\<open>Vec::swap_remove\<close>: the last element takes the place of the removed one.\<close>

definition swap_remove :: "nat \<Rightarrow> 'a list \<Rightarrow> 'a list" where
  "swap_remove i xs = (if i = length xs - 1 then butlast xs else (butlast xs)[i := last xs])"

lemma length_swap_remove [simp]: "length (swap_remove i xs) = length xs - 1"
  by (simp add: swap_remove_def)

lemma mset_swap_remove:
  assumes "i < length xs"
  shows "add_mset (xs ! i) (mset (swap_remove i xs)) = mset xs"
proof -
  obtain ys y where xs: "xs = ys @ [y]"
    using assms by (cases xs rule: rev_cases) auto
  show ?thesis
  proof (cases "i < length ys")
    case True
    then have "swap_remove i xs = ys[i := y]"
      by (simp add: swap_remove_def xs)
    moreover have "ys ! i \<in># mset ys" using True by simp
    ultimately show ?thesis
      using True by (simp add: xs mset_update nth_append)
  next
    case False
    with assms have "i = length ys" by (simp add: xs)
    then show ?thesis by (simp add: swap_remove_def xs)
  qed
qed

lemma set_swap_remove_subset: "i < length xs \<Longrightarrow> set (swap_remove i xs) \<subseteq> set xs"
  by (metis mset_swap_remove mset_subset_eq_add_mset_cancel set_mset_mono set_mset_mset
      set_mset_add_mset_insert subset_insertI)

lemma distinct_swap_remove:
  assumes "distinct xs" "i < length xs"
  shows "distinct (swap_remove i xs)" "set (swap_remove i xs) = set xs - {xs ! i}"
proof -
  have m: "add_mset (xs ! i) (mset (swap_remove i xs)) = mset xs"
    by (rule mset_swap_remove [OF assms(2)])
  have "distinct (xs ! i # swap_remove i xs)"
    using assms(1) m by (metis mset.simps(2) mset_eq_imp_distinct_iff)
  moreover have "insert (xs ! i) (set (swap_remove i xs)) = set xs"
    using m by (metis set_mset_add_mset_insert set_mset_mset)
  ultimately show "distinct (swap_remove i xs)" "set (swap_remove i xs) = set xs - {xs ! i}"
    by auto
qed

lemma swap_remove_map: "i < length xs \<Longrightarrow> swap_remove i (map f xs) = map f (swap_remove i xs)"
  by (cases "xs = []") (simp_all add: swap_remove_def map_butlast last_map map_update)

text \<open>\<open>Vec::remove\<close> keeps the order.\<close>

definition remove_nth :: "nat \<Rightarrow> 'a list \<Rightarrow> 'a list" where
  "remove_nth i xs = take i xs @ drop (Suc i) xs"

lemma length_remove_nth: "i < length xs \<Longrightarrow> length (remove_nth i xs) = length xs - 1"
  by (simp add: remove_nth_def)

lemma set_remove_nth: "set (remove_nth i xs) \<subseteq> set xs"
  by (auto simp: remove_nth_def dest: in_set_takeD in_set_dropD)

lemma distinct_remove_nth: "distinct xs \<Longrightarrow> distinct (remove_nth i xs)"
  by (simp add: remove_nth_def set_take_disj_set_drop_if_distinct)

lemma map_remove_nth: "map f (remove_nth i xs) = remove_nth i (map f xs)"
  by (simp add: remove_nth_def take_map drop_map)

text \<open>\<open>Iterator::position\<close>: the first index that satisfies the predicate.\<close>

fun position :: "('a \<Rightarrow> bool) \<Rightarrow> 'a list \<Rightarrow> nat option" where
  "position p [] = None"
| "position p (x # xs) = (if p x then Some 0 else map_option Suc (position p xs))"

lemma position_Some:
  "position p xs = Some i \<Longrightarrow> i < length xs \<and> p (xs ! i) \<and> (\<forall>j<i. \<not> p (xs ! j))"
proof (induction xs arbitrary: i)
  case Nil
  then show ?case by simp
next
  case (Cons x xs)
  then show ?case
    by (cases i) (auto split: if_splits simp: less_Suc_eq_0_disj)
qed

lemma position_map: "position p (map f xs) = position (p \<circ> f) xs"
  by (induction xs) auto

lemma position_None: "position p xs = None \<longleftrightarrow> (\<forall>x\<in>set xs. \<not> p x)"
  by (induction xs) auto

text \<open>\<open>Iterator::min_by_key\<close>: the first of the elements with the least key.\<close>

fun min_by_key :: "('a \<Rightarrow> 'k::linorder) \<Rightarrow> 'a list \<Rightarrow> 'a option" where
  "min_by_key f [] = None"
| "min_by_key f (x # xs) =
     (case min_by_key f xs of
        None \<Rightarrow> Some x
      | Some y \<Rightarrow> if f x \<le> f y then Some x else Some y)"

lemma min_by_key_None [simp]: "min_by_key f xs = None \<longleftrightarrow> xs = []"
  by (cases xs) (auto split: option.splits)

lemma min_by_key_Some:
  "min_by_key f xs = Some x \<Longrightarrow> x \<in> set xs \<and> (\<forall>y\<in>set xs. f x \<le> f y)"
proof (induction xs arbitrary: x)
  case Nil
  then show ?case by simp
next
  case (Cons a xs)
  show ?case
  proof (cases "min_by_key f xs")
    case None
    with Cons.prems show ?thesis by simp
  next
    case (Some y)
    with Cons.IH have "y \<in> set xs" "\<forall>z\<in>set xs. f y \<le> f z" by auto
    with Cons.prems Some show ?thesis by (fastforce split: if_splits)
  qed
qed

section \<open>Hash maps\<close>

text \<open>
  A \<open>HashMap\<close> is an association list with distinct keys; the code never depends on the
  order of its entries.
\<close>

type_synonym ('k, 'v) hash_map = "('k \<times> 'v) list"

definition wf_map :: "('k, 'v) hash_map \<Rightarrow> bool" where
  "wf_map m \<longleftrightarrow> distinct (map fst m)"

fun map_insert :: "'k \<Rightarrow> 'v \<Rightarrow> ('k, 'v) hash_map \<Rightarrow> ('k, 'v) hash_map" where
  "map_insert k v [] = [(k, v)]"
| "map_insert k v ((k', v') # m) =
     (if k = k' then (k, v) # m else (k', v') # map_insert k v m)"

lemma map_of_insert [simp]: "map_of (map_insert k v m) = (map_of m)(k \<mapsto> v)"
  by (induction k v m rule: map_insert.induct) (auto simp: fun_eq_iff)

lemma keys_insert [simp]: "fst ` set (map_insert k v m) = insert k (fst ` set m)"
  by (induction k v m rule: map_insert.induct) auto

lemma wf_map_Nil [simp]: "wf_map []"
  by (simp add: wf_map_def)

lemma wf_map_insert [simp]: "wf_map m \<Longrightarrow> wf_map (map_insert k v m)"
  unfolding wf_map_def
proof (induction k v m rule: map_insert.induct)
  case (2 k v k' v' m)
  have "k' \<notin> fst ` set (map_insert k v m)" if "k \<noteq> k'" using that 2(2) by auto
  with 2 show ?case by auto
qed simp

lemma length_map_insert:
  "length (map_insert k v m) = (if k \<in> fst ` set m then length m else Suc (length m))"
  by (induction k v m rule: map_insert.induct) auto

lemma map_insert_set:
  "wf_map m \<Longrightarrow> (k', v') \<in> set (map_insert k v m) \<longleftrightarrow>
     (if k' = k then v' = v else (k', v') \<in> set m)"
proof (induction k v m rule: map_insert.induct)
  case (2 k v k1 v1 m)
  then show ?case by (auto simp: wf_map_def) (metis image_eqI fst_conv)+
qed auto

text \<open>Sums over the values of a map, one entry replaced.\<close>

lemma sum_list_map_insert:
  fixes f :: "'v \<Rightarrow> nat"
  assumes "wf_map m"
  shows "sum_list (map (f \<circ> snd) (map_insert k v m)) + (case map_of m k of None \<Rightarrow> 0 | Some w \<Rightarrow> f w)
       = sum_list (map (f \<circ> snd) m) + f v"
  using assms
proof (induction k v m rule: map_insert.induct)
  case (2 k v k' v' m)
  then show ?case by (auto simp: wf_map_def split: option.splits)
qed simp

lemma map_of_sum_le:
  fixes f :: "'v \<Rightarrow> nat"
  shows "map_of m k = Some v \<Longrightarrow> f v \<le> sum_list (map (f \<circ> snd) m)"
  by (induction m) (auto split: if_splits)

section \<open>Time\<close>

text \<open>
  \<open>Instant\<close> and \<open>Duration\<close> are natural numbers of nanoseconds: \<open>saturating_sub\<close> on
  them is subtraction on the naturals.
\<close>

type_synonym instant = nat
type_synonym duration = nat

definition from_millis :: "nat \<Rightarrow> duration" where
  "from_millis n = n * 1000000"

definition from_secs :: "nat \<Rightarrow> duration" where
  "from_secs n = n * 1000000000"

definition as_millis :: "duration \<Rightarrow> nat" where
  "as_millis d = d div 1000000"

lemma as_from_millis [simp]: "as_millis (from_millis n) = n"
  by (simp add: as_millis_def from_millis_def)

lemma from_millis_mono: "a \<le> b \<Longrightarrow> from_millis a \<le> from_millis b"
  by (simp add: from_millis_def)

end
