(* ===== verification/Interfaces.thy ===== *)
theory Interfaces
  imports Csqtt_Prelude
begin

text \<open>
  The contracts that several components share, as locales: a self-delimiting byte codec
  (\<open>byte_codec\<close>), a handler that keeps an invariant (\<open>invariant_machine\<close>), a
  handler that never exceeds a resource limit (\<open>bounded_machine\<close>), a labelled step relation
  with an invariant (\<open>step_invariant\<close>) and the bounded queue of the \<open>crossbeam\<close>
  library (\<open>array_queue\<close>), which the engine only calls. The component that
  provides a contract interprets its locale on the model of its code.
\<close>

section \<open>Self-delimiting byte codecs\<close>

text \<open>
  \<open>encode\<close> writes a value, \<open>decode\<close> reads one off the front of a byte string and
  returns the rest. A decoder of this kind accepts exactly what the encoder writes.
\<close>

locale byte_codec =
  fixes encode :: "'a \<Rightarrow> bytes"
    and decode :: "bytes \<Rightarrow> ('a \<times> bytes) option"
    and valid :: "'a \<Rightarrow> bool"
  assumes decode_encode: "valid x \<Longrightarrow> decode (encode x @ rest) = Some (x, rest)"
    and decode_Some: "decode bs = Some (x, rest) \<Longrightarrow> valid x \<and> bs = encode x @ rest"
begin

lemma decode_iff: "decode bs = Some (x, rest) \<longleftrightarrow> valid x \<and> bs = encode x @ rest"
  using decode_encode decode_Some by blast

lemma encode_inject:
  assumes "valid x" "valid y" "encode x @ a = encode y @ b"
  shows "x = y" "a = b"
proof -
  have "decode (encode x @ a) = Some (x, a)" using assms(1) by (rule decode_encode)
  moreover have "decode (encode x @ a) = Some (y, b)"
    unfolding assms(3) using assms(2) by (rule decode_encode)
  ultimately show "x = y" "a = b" by simp_all
qed

text \<open>A stream of encoded values splits in one way only.\<close>

lemma concat_inject:
  assumes "\<forall>x\<in>set xs. valid x" "\<forall>y\<in>set ys. valid y" "length xs = length ys"
    and "concat (map encode xs) @ a = concat (map encode ys) @ b"
  shows "xs = ys \<and> a = b"
  using assms(3,1,2,4)
proof (induction xs ys rule: list_induct2)
  case Nil
  then show ?case by simp
next
  case (Cons x xs y ys)
  from Cons.prems have eq: "encode x @ (concat (map encode xs) @ a) = encode y @ (concat (map encode ys) @ b)"
    by simp
  have v: "valid x" "valid y" using Cons.prems by auto
  have "x = y" "concat (map encode xs) @ a = concat (map encode ys) @ b"
    using encode_inject [OF v eq] by auto
  with Cons show ?case by auto
qed

end

section \<open>Handlers that keep an invariant\<close>

locale invariant_machine =
  fixes handle :: "'i \<Rightarrow> 's \<Rightarrow> 's"
    and inv :: "'s \<Rightarrow> bool"
  assumes handle_inv: "inv s \<Longrightarrow> inv (handle i s)"
begin

lemma run_inv: "inv s \<Longrightarrow> inv (fold handle is s)"
  by (induction "is" arbitrary: s) (auto intro: handle_inv)

end

text \<open>
  A handler with a resource: \<open>used\<close> never exceeds \<open>limit\<close> in an invariant state,
  hence never after any run.
\<close>

locale bounded_machine = invariant_machine handle inv
  for handle :: "'i \<Rightarrow> 's \<Rightarrow> 's" and inv :: "'s \<Rightarrow> bool" +
  fixes used :: "'s \<Rightarrow> nat" and limit :: nat
  assumes inv_bound: "inv s \<Longrightarrow> used s \<le> limit"
begin

lemma run_bounded: "inv s \<Longrightarrow> used (fold handle is s) \<le> limit"
  by (rule inv_bound) (rule run_inv)

lemma run_prefix_bounded: "inv s \<Longrightarrow> used (fold handle (take n is) s) \<le> limit"
  by (rule run_bounded)

end

section \<open>Step relations that keep an invariant\<close>

inductive steps :: "('s \<Rightarrow> 'l \<Rightarrow> 's \<Rightarrow> bool) \<Rightarrow> 's \<Rightarrow> 'l list \<Rightarrow> 's \<Rightarrow> bool"
  for step :: "'s \<Rightarrow> 'l \<Rightarrow> 's \<Rightarrow> bool" where
  steps_Nil: "steps step s [] s"
| steps_Cons: "step s l s' \<Longrightarrow> steps step s' ls s'' \<Longrightarrow> steps step s (l # ls) s''"

inductive_cases steps_NilE [elim!]: "steps step s [] s'"
inductive_cases steps_ConsE: "steps step s (l # ls) s'"

lemma steps_append:
  "steps step s ls s' \<Longrightarrow> steps step s' ms s'' \<Longrightarrow> steps step s (ls @ ms) s''"
  by (induction rule: steps.induct) (auto intro: steps_Cons)

locale step_invariant =
  fixes step :: "'s \<Rightarrow> 'l \<Rightarrow> 's \<Rightarrow> bool"
    and inv :: "'s \<Rightarrow> bool"
  assumes step_inv: "step s l s' \<Longrightarrow> inv s \<Longrightarrow> inv s'"
begin

lemma steps_inv: "steps step s ls s' \<Longrightarrow> inv s \<Longrightarrow> inv s'"
  by (induction rule: steps.induct) (auto dest: step_inv)

end

section \<open>Bounded queues\<close>

text \<open>
  The operations of \<open>crossbeam_queue::ArrayQueue\<close> the engine calls, and the view its
  documentation gives of a queue: its elements, oldest first, and its fixed capacity. \<open>q_push\<close>
  answers \<open>None\<close> for the \<open>Err\<close> of a full queue.
\<close>

record ('a, 'q) queue_ops =
  q_new :: "nat \<Rightarrow> 'q"
  q_push :: "'a \<Rightarrow> 'q \<Rightarrow> 'q option"
  q_pop :: "'q \<Rightarrow> ('a \<times> 'q) option"
  q_items :: "'q \<Rightarrow> 'a list"
  q_capacity :: "'q \<Rightarrow> nat"

definition array_queue_ok :: "('a, 'q) queue_ops \<Rightarrow> bool" where
  "array_queue_ok Q \<longleftrightarrow>
     (\<forall>n. q_items Q (q_new Q n) = [] \<and> q_capacity Q (q_new Q n) = n)
     \<and> (\<forall>a q. length (q_items Q q) < q_capacity Q q \<longrightarrow>
          (\<exists>q'. q_push Q a q = Some q' \<and> q_items Q q' = q_items Q q @ [a]
                \<and> q_capacity Q q' = q_capacity Q q))
     \<and> (\<forall>a q. q_capacity Q q \<le> length (q_items Q q) \<longrightarrow> q_push Q a q = None)
     \<and> (\<forall>q. case q_items Q q of
            [] \<Rightarrow> q_pop Q q = None
          | a # as \<Rightarrow> \<exists>q'. q_pop Q q = Some (a, q') \<and> q_items Q q' = as
                        \<and> q_capacity Q q' = q_capacity Q q)"

locale array_queue =
  fixes Q :: "('a, 'q) queue_ops"
  assumes ok: "array_queue_ok Q"
begin

lemma new_items: "q_items Q (q_new Q n) = []" "q_capacity Q (q_new Q n) = n"
  using ok by (auto simp: array_queue_ok_def)

lemma push_Some:
  assumes "q_push Q a q = Some q'"
  shows "q_items Q q' = q_items Q q @ [a]" "q_capacity Q q' = q_capacity Q q"
    "length (q_items Q q) < q_capacity Q q"
proof -
  have "\<not> q_capacity Q q \<le> length (q_items Q q)"
    using ok assms by (auto simp: array_queue_ok_def)
  then show l: "length (q_items Q q) < q_capacity Q q" by simp
  have "\<exists>q'. q_push Q a q = Some q' \<and> q_items Q q' = q_items Q q @ [a] \<and> q_capacity Q q' = q_capacity Q q"
    using ok l by (simp add: array_queue_ok_def)
  then show "q_items Q q' = q_items Q q @ [a]" "q_capacity Q q' = q_capacity Q q"
    using assms by auto
qed

lemma push_None: "q_push Q a q = None \<longleftrightarrow> q_capacity Q q \<le> length (q_items Q q)"
  using ok unfolding array_queue_ok_def by (metis not_le option.distinct(1))

lemma pop_Some:
  assumes "q_pop Q q = Some (a, q')"
  shows "q_items Q q = a # q_items Q q'" "q_capacity Q q' = q_capacity Q q"
proof -
  have pop: "case q_items Q q of
      [] \<Rightarrow> q_pop Q q = None
    | a # as \<Rightarrow> \<exists>q'. q_pop Q q = Some (a, q') \<and> q_items Q q' = as \<and> q_capacity Q q' = q_capacity Q q"
    using ok by (simp add: array_queue_ok_def)
  then show "q_items Q q = a # q_items Q q'" "q_capacity Q q' = q_capacity Q q"
    using assms by (auto split: list.splits)
qed

lemma pop_None: "q_pop Q q = None \<longleftrightarrow> q_items Q q = []"
proof -
  have pop: "case q_items Q q of
      [] \<Rightarrow> q_pop Q q = None
    | a # as \<Rightarrow> \<exists>q'. q_pop Q q = Some (a, q') \<and> q_items Q q' = as \<and> q_capacity Q q' = q_capacity Q q"
    using ok by (simp add: array_queue_ok_def)
  then show ?thesis by (auto split: list.splits)
qed

end

text \<open>The laws with the contract as a premise, for use outside the locale.\<close>

lemmas queue_new = array_queue.new_items [OF array_queue.intro]
lemmas queue_push_Some = array_queue.push_Some [OF array_queue.intro]
lemmas queue_push_None = array_queue.push_None [OF array_queue.intro]
lemmas queue_pop_Some = array_queue.pop_Some [OF array_queue.intro]
lemmas queue_pop_None = array_queue.pop_None [OF array_queue.intro]

text \<open>A queue of that kind: a list with its capacity.\<close>

definition list_queue :: "('a, nat \<times> 'a list) queue_ops" where
  "list_queue =
     \<lparr>q_new = (\<lambda>n. (n, [])),
      q_push = (\<lambda>a (n, xs). if length xs < n then Some (n, xs @ [a]) else None),
      q_pop = (\<lambda>(n, xs). case xs of [] \<Rightarrow> None | a # as \<Rightarrow> Some (a, (n, as))),
      q_items = snd,
      q_capacity = fst\<rparr>"

lemma list_queue_ok: "array_queue_ok list_queue"
  by (auto simp: array_queue_ok_def list_queue_def split: list.splits)

interpretation list_queue: array_queue list_queue
  by unfold_locales (rule list_queue_ok)

end
