(* ===== verification/Flow_Frame.thy ===== *)
theory Flow_Frame
  imports Interfaces
begin

unbundle bit_operations_syntax

text \<open>
  Per-flow framing of TCP packets, \<open>shared/flow_frame.rs\<close>: the 24-byte frame header, the
  flow identifier hashed from a TCP packet, the sequencer that numbers the packets of each flow,
  and the reassembler that restores their order on the receiving side. The \<open>HashMap\<close>s are
  association lists, the \<open>VecDeque\<close> the reassembler writes to is a list that grows at its
  end, and the clock reading of \<open>push\<close> is the argument \<open>now_ms\<close> of \<open>push_at\<close>.
\<close>

section \<open>The frame header\<close>

definition FRAME_LEN :: nat where
  "FRAME_LEN = 24"

definition FRAME_MAGIC :: bytes where
  "FRAME_MAGIC = ascii ''CQF1''"

definition MAX_TRACKED_FLOWS :: nat where
  "MAX_TRACKED_FLOWS = 4096"

definition MAX_PENDING_PER_FLOW :: nat where
  "MAX_PENDING_PER_FLOW = 96"

definition MAX_PENDING_TOTAL :: nat where
  "MAX_PENDING_TOTAL = 4096"

definition GAP_RELEASE_AFTER_MS :: nat where
  "GAP_RELEASE_AFTER_MS = 12"

record frame_header =
  fh_sender :: u64
  fh_flow :: u64
  fh_sequence :: u32

definition encode_header :: "frame_header \<Rightarrow> bytes \<Rightarrow> bool \<times> bytes" where
  "encode_header h out =
     (if length out < FRAME_LEN then (False, out)
      else
        let out = put 0 FRAME_MAGIC out;
            out = put 4 (to_be64 (fh_sender h)) out;
            out = put 12 (to_be64 (fh_flow h)) out;
            out = put 20 (to_be32 (fh_sequence h)) out
        in (True, out))"

definition decode_header :: "bytes \<Rightarrow> (frame_header \<times> bytes) option" where
  "decode_header packet =
     (if length packet < FRAME_LEN \<or> sub packet 0 4 \<noteq> FRAME_MAGIC then None
      else Some (\<lparr>fh_sender = from_be64 (sub packet 4 12),
                  fh_flow = from_be64 (sub packet 12 20),
                  fh_sequence = from_be32 (sub packet 20 24)\<rparr>,
                 drop FRAME_LEN packet))"

definition frame_payload :: "bytes \<Rightarrow> bytes" where
  "frame_payload packet =
     (case decode_header packet of None \<Rightarrow> packet | Some (_, payload) \<Rightarrow> payload)"

lemma length_FRAME_MAGIC [simp]: "length FRAME_MAGIC = 4"
  by (simp add: FRAME_MAGIC_def)

lemma encode_header_bytes:
  assumes "FRAME_LEN \<le> length out"
  shows "encode_header h out =
    (True, FRAME_MAGIC @ to_be64 (fh_sender h) @ to_be64 (fh_flow h) @ to_be32 (fh_sequence h)
           @ drop FRAME_LEN out)"
  using assms
  by (simp add: encode_header_def FRAME_LEN_def put_def Let_def min_def)

lemma decode_header_bytes:
  "decode_header (FRAME_MAGIC @ to_be64 s @ to_be64 f @ to_be32 n @ rest) =
     Some (\<lparr>fh_sender = s, fh_flow = f, fh_sequence = n\<rparr>, rest)"
  by (simp add: decode_header_def FRAME_LEN_def sub_def)

lemma decode_header_None_short: "length packet < FRAME_LEN \<Longrightarrow> decode_header packet = None"
  by (simp add: decode_header_def)

lemma decode_header_Some:
  assumes "decode_header packet = Some (h, rest)"
  shows "packet = FRAME_MAGIC @ to_be64 (fh_sender h) @ to_be64 (fh_flow h)
                  @ to_be32 (fh_sequence h) @ rest"
proof -
  from assms have len: "24 \<le> length packet" and magic: "take 4 packet = FRAME_MAGIC"
    and h: "h = \<lparr>fh_sender = from_be64 (sub packet 4 12), fh_flow = from_be64 (sub packet 12 20),
                 fh_sequence = from_be32 (sub packet 20 24)\<rparr>"
    and rest: "rest = drop 24 packet"
    by (auto simp: decode_header_def FRAME_LEN_def sub_0 split: if_splits)
  have "packet = take 4 packet @ sub packet 4 12 @ sub packet 12 20 @ sub packet 20 24 @ drop 24 packet"
    by (simp add: sub_drop)
  then show ?thesis
    using len by (simp add: h rest magic to_from_be64 to_from_be32)
qed

text \<open>The header is a self-delimiting codec: its bytes in front of the payload.\<close>

definition header_bytes :: "frame_header \<Rightarrow> bytes" where
  "header_bytes h = FRAME_MAGIC @ to_be64 (fh_sender h) @ to_be64 (fh_flow h) @ to_be32 (fh_sequence h)"

interpretation frame_codec: byte_codec header_bytes decode_header "\<lambda>_. True"
proof unfold_locales
  show "decode_header (header_bytes h @ rest) = Some (h, rest)" for h rest
    by (simp add: header_bytes_def decode_header_bytes)
  show "True \<and> packet = header_bytes h @ rest" if "decode_header packet = Some (h, rest)"
    for packet h rest
    using decode_header_Some [OF that] by (simp add: header_bytes_def)
qed

lemma encode_header_eq:
  "FRAME_LEN \<le> length out \<Longrightarrow> encode_header h out = (True, header_bytes h @ drop FRAME_LEN out)"
  by (simp add: encode_header_bytes header_bytes_def)

lemma length_header_bytes [simp]: "length (header_bytes h) = FRAME_LEN"
  by (simp add: header_bytes_def FRAME_LEN_def)

text \<open>
  A frame header written over the first 24 bytes of a buffer decodes to itself and leaves the
  rest of the buffer as payload; conversely a packet decodes only when its first 24 bytes are
  exactly what \<open>encode\<close> writes for the header read.
\<close>

theorem frame_header_roundtrip:
  assumes "FRAME_LEN \<le> length out"
  shows "decode_header (snd (encode_header h out)) = Some (h, drop FRAME_LEN out)
    \<and> (decode_header out = Some (h', rest) \<longleftrightarrow>
           encode_header h' out = (True, out) \<and> rest = drop FRAME_LEN out)"
proof
  show "decode_header (snd (encode_header h out)) = Some (h, drop FRAME_LEN out)"
    using assms by (simp add: encode_header_eq frame_codec.decode_encode)
  have "out = header_bytes h' @ rest \<longleftrightarrow> header_bytes h' @ drop FRAME_LEN out = out \<and> rest = drop FRAME_LEN out"
    by (metis append_eq_conv_conj append_take_drop_id length_header_bytes)
  then show "decode_header out = Some (h', rest) \<longleftrightarrow>
      encode_header h' out = (True, out) \<and> rest = drop FRAME_LEN out"
    using assms by (simp add: encode_header_eq frame_codec.decode_iff)
qed

lemma frame_header_roundtrip_witness:
  "decode_header (snd (encode_header \<lparr>fh_sender = 7, fh_flow = 9, fh_sequence = 1\<rparr> (replicate 26 0))) =
     Some (\<lparr>fh_sender = 7, fh_flow = 9, fh_sequence = 1\<rparr>, [0, 0])"
  using frame_header_roundtrip [of "replicate 26 0" "\<lparr>fh_sender = 7, fh_flow = 9, fh_sequence = 1\<rparr>"]
  by (simp add: FRAME_LEN_def numeral_eq_Suc)

section \<open>The flow identifier\<close>

definition hash_bytes :: "u64 \<Rightarrow> bytes \<Rightarrow> u64" where
  "hash_bytes hash bs = foldl (\<lambda>h b. (h XOR ucast b) * 0x100000001b3) hash bs"

definition mix64 :: "u64 \<Rightarrow> u64" where
  "mix64 value =
     (let value = value XOR drop_bit 30 value;
          value = value * 0xbf58476d1ce4e5b9;
          value = value XOR drop_bit 27 value;
          value = value * 0x94d049bb133111eb
      in value XOR drop_bit 31 value)"

text \<open>
  The reads of \<open>tcp_flow_id\<close> keep their bound checks: the outer \<open>None\<close> is a panic, the
  inner one the function's own \<open>None\<close>. \<open>flow_fields\<close> is the \<open>match\<close> on the IP
  version that opens the function.
\<close>

definition flow_fields :: "bytes \<Rightarrow> (nat \<times> u8 \<times> bytes \<times> bytes) option option" where
  "flow_fields packet =
     (case packet of
        [] \<Rightarrow> Some None
      | first # _ \<Rightarrow>
          if drop_bit 4 first = 4 then
            if length packet < 20 then Some None
            else do {
              b0 \<leftarrow> idx packet 0;
              let header_len = unat (b0 AND 0x0f) * 4;
              if header_len < 20 \<or> length packet < header_len + 20 then Some None
              else do {
                protocol \<leftarrow> idx packet 9;
                source \<leftarrow> slice packet 12 16;
                destination \<leftarrow> slice packet 16 20;
                Some (Some (header_len, protocol, source, destination))
              }
            }
          else if drop_bit 4 first = 6 then
            if length packet < 60 then Some None
            else do {
              protocol \<leftarrow> idx packet 6;
              source \<leftarrow> slice packet 8 24;
              destination \<leftarrow> slice packet 24 40;
              Some (Some (40, protocol, source, destination))
            }
          else Some None)"

definition flow_hash :: "u8 \<Rightarrow> bytes \<Rightarrow> bytes \<Rightarrow> bytes \<Rightarrow> u64" where
  "flow_hash protocol source destination ports =
     mix64 (hash_bytes (hash_bytes (hash_bytes (hash_bytes 0xcbf29ce484222325
       [protocol]) source) destination) ports)"

definition tcp_flow_id_checked :: "bytes \<Rightarrow> u64 option option" where
  "tcp_flow_id_checked packet = do {
     fields \<leftarrow> flow_fields packet;
     case fields of
       None \<Rightarrow> Some None
     | Some (header_len, protocol, source, destination) \<Rightarrow>
         if protocol \<noteq> 6 then Some None
         else do {
           tcp \<leftarrow> slice packet header_len (length packet);
           b12 \<leftarrow> idx tcp 12;
           let data_offset = unat (drop_bit 4 b12) * 4;
           if data_offset < 20 \<or> length tcp < data_offset then Some None
           else do {
             flags \<leftarrow> idx tcp 13;
             if length tcp = data_offset \<and> flags AND 0x03 = 0 then Some None
             else do {
               ports \<leftarrow> slice tcp 0 4;
               Some (Some (flow_hash protocol source destination ports))
             }
           }
         }
   }"

definition tcp_flow_id :: "bytes \<Rightarrow> u64 option" where
  "tcp_flow_id packet = Option.bind (tcp_flow_id_checked packet) (\<lambda>r. r)"

lemma flow_fields_total:
  "\<exists>r. flow_fields packet = Some r \<and>
     (\<forall>hl p s d. r = Some (hl, p, s, d) \<longrightarrow> hl + 20 \<le> length packet)"
  by (cases packet) (auto simp: flow_fields_def Let_def)

lemma tcp_flow_id_no_panic: "tcp_flow_id_checked packet \<noteq> None"
proof -
  obtain r where r: "flow_fields packet = Some r"
    and hl: "\<And>hl p s d. r = Some (hl, p, s, d) \<Longrightarrow> hl + 20 \<le> length packet"
    using flow_fields_total [of packet] by blast
  show ?thesis
  proof (cases r)
    case None
    with r show ?thesis by (simp add: tcp_flow_id_checked_def)
  next
    case (Some f)
    obtain hl p s d where f: "f = (hl, p, s, d)" by (cases f)
    with hl Some have "hl + 20 \<le> length packet" by simp
    with r Some f show ?thesis
      by (auto simp: tcp_flow_id_checked_def Let_def)
  qed
qed

text \<open>A framed packet is one whose fields parse; its identifier is the hash of the 5-tuple.\<close>

lemma tcp_flow_id_Some:
  assumes "tcp_flow_id packet = Some f"
  obtains hl s d where "flow_fields packet = Some (Some (hl, 6, s, d))"
    and "hl + 20 \<le> length packet" and "f = flow_hash 6 s d (sub packet hl (hl + 4))"
proof -
  obtain r where r: "flow_fields packet = Some r"
    and hl: "\<And>hl p s d. r = Some (hl, p, s, d) \<Longrightarrow> hl + 20 \<le> length packet"
    using flow_fields_total [of packet] by blast
  from assms r obtain hl p s d where f: "r = Some (hl, p, s, d)"
    by (cases r) (auto simp: tcp_flow_id_def tcp_flow_id_checked_def)
  with hl have "hl + 20 \<le> length packet" by simp
  moreover from this have "sub (sub packet hl (length packet)) 0 4 = sub packet hl (hl + 4)"
    by (simp add: sub_def)
  ultimately show ?thesis
    using assms r f
    by (intro that [of hl s d])
       (auto simp: tcp_flow_id_def tcp_flow_id_checked_def Let_def split: if_splits)
qed

section \<open>The sequencer\<close>

record flow_sequencer =
  fs_sender :: u64
  fs_sequences :: "(u64, u32) hash_map"

definition with_sender_id :: "u64 \<Rightarrow> flow_sequencer" where
  "with_sender_id sender = \<lparr>fs_sender = max sender 1, fs_sequences = []\<rparr>"

text \<open>\<open>new\<close>: the wall clock in nanoseconds and the address of a local, both from outside.\<close>

definition new_sequencer :: "u64 \<Rightarrow> u64 \<Rightarrow> flow_sequencer" where
  "new_sequencer now address = with_sender_id (mix64 (now XOR address))"

definition next_header :: "flow_sequencer \<Rightarrow> bytes \<Rightarrow> frame_header option \<times> flow_sequencer" where
  "next_header fs packet =
     (case tcp_flow_id packet of
        None \<Rightarrow> (None, fs)
      | Some flow_id \<Rightarrow>
          let fs =
                (if length (fs_sequences fs) = MAX_TRACKED_FLOWS
                    \<and> map_of (fs_sequences fs) flow_id = None
                 then fs\<lparr>fs_sequences := [],
                         fs_sender := max (mix64 (fs_sender fs + 0x9e3779b97f4a7c15)) 1\<rparr>
                 else fs);
              sequence = (case map_of (fs_sequences fs) flow_id of None \<Rightarrow> 0 | Some n \<Rightarrow> n);
              header = \<lparr>fh_sender = fs_sender fs, fh_flow = flow_id, fh_sequence = sequence\<rparr>
          in (Some header,
              fs\<lparr>fs_sequences := map_insert flow_id (sequence + 1) (fs_sequences fs)\<rparr>))"

definition wf_sequencer :: "flow_sequencer \<Rightarrow> bool" where
  "wf_sequencer fs \<longleftrightarrow> wf_map (fs_sequences fs) \<and> fs_sender fs \<noteq> 0
     \<and> length (fs_sequences fs) \<le> MAX_TRACKED_FLOWS"

lemma max_1_neq_0: "max (x :: u64) 1 \<noteq> 0"
  by (simp add: max_def) (use word_gt_0 in fastforce)

lemma wf_with_sender_id: "wf_sequencer (with_sender_id s)"
  by (simp add: wf_sequencer_def with_sender_id_def max_1_neq_0)

lemma map_of_None_key: "map_of m k = None \<longleftrightarrow> k \<notin> fst ` set m"
  by (rule map_of_eq_None_iff)

lemma wf_next_header: "wf_sequencer fs \<Longrightarrow> wf_sequencer (snd (next_header fs packet))"
  by (auto simp: next_header_def wf_sequencer_def Let_def max_1_neq_0 length_map_insert
      map_of_None_key MAX_TRACKED_FLOWS_def split: option.splits)

text \<open>A run of the sequencer over the packets a reader hands it.\<close>

fun sequence_all :: "flow_sequencer \<Rightarrow> bytes list \<Rightarrow> frame_header option list" where
  "sequence_all fs [] = []"
| "sequence_all fs (p # ps) =
     (let (h, fs) = next_header fs p in h # sequence_all fs ps)"

definition next_sequence :: "flow_sequencer \<Rightarrow> u64 \<Rightarrow> u32" where
  "next_sequence fs f = (case map_of (fs_sequences fs) f of None \<Rightarrow> 0 | Some n \<Rightarrow> n)"

text \<open>The flows a run adds to the table; while they fit, the table is never cleared.\<close>

definition flows_of :: "bytes list \<Rightarrow> u64 set" where
  "flows_of ps = {f. \<exists>p\<in>set ps. tcp_flow_id p = Some f}"

definition room_for :: "flow_sequencer \<Rightarrow> bytes list \<Rightarrow> bool" where
  "room_for fs ps \<longleftrightarrow> card (fst ` set (fs_sequences fs) \<union> flows_of ps) \<le> MAX_TRACKED_FLOWS"

lemma finite_flows_of [simp]: "finite (flows_of ps)"
proof -
  have "flows_of ps = (\<lambda>p. the (tcp_flow_id p)) ` {p \<in> set ps. tcp_flow_id p \<noteq> None}"
    by (force simp: flows_of_def)
  then show ?thesis by simp
qed

lemma flows_of_Cons:
  "flows_of (p # ps) = (case tcp_flow_id p of None \<Rightarrow> flows_of ps | Some f \<Rightarrow> insert f (flows_of ps))"
  by (auto simp: flows_of_def split: option.splits)

lemma next_header_in_room:
  assumes "wf_sequencer fs" "room_for fs (p # ps)" "tcp_flow_id p = Some f"
  shows "next_header fs p =
     (Some \<lparr>fh_sender = fs_sender fs, fh_flow = f, fh_sequence = next_sequence fs f\<rparr>,
      fs\<lparr>fs_sequences := map_insert f (next_sequence fs f + 1) (fs_sequences fs)\<rparr>)"
proof -
  have "\<not> (length (fs_sequences fs) = MAX_TRACKED_FLOWS \<and> map_of (fs_sequences fs) f = None)"
  proof
    assume full: "length (fs_sequences fs) = MAX_TRACKED_FLOWS \<and> map_of (fs_sequences fs) f = None"
    let ?K = "fst ` set (fs_sequences fs)"
    have "card ?K = MAX_TRACKED_FLOWS" "f \<notin> ?K"
      using full assms(1) distinct_card [of "map fst (fs_sequences fs)"]
      by (auto simp: wf_sequencer_def wf_map_def map_of_None_key)
    then have "card (insert f ?K) = Suc MAX_TRACKED_FLOWS" by simp
    moreover have "card (insert f ?K) \<le> card (?K \<union> flows_of (p # ps))"
      using assms(3) by (intro card_mono) (auto simp: flows_of_Cons)
    ultimately show False using assms(2) by (simp add: room_for_def)
  qed
  then show ?thesis
    using assms(3) by (auto simp: next_header_def next_sequence_def Let_def)
qed

lemma room_for_step:
  assumes "room_for fs (p # ps)" "tcp_flow_id p = Some f"
  shows "room_for (fs\<lparr>fs_sequences := map_insert f n (fs_sequences fs)\<rparr>) ps"
  using assms by (simp add: room_for_def flows_of_Cons)

text \<open>How many packets of a flow come before position \<open>i\<close>.\<close>

definition flow_count :: "u64 \<Rightarrow> bytes list \<Rightarrow> nat" where
  "flow_count f ps = length (filter (\<lambda>p. tcp_flow_id p = Some f) ps)"

lemma sequence_all_nth:
  assumes "wf_sequencer fs" "room_for fs ps" "i < length ps" "tcp_flow_id (ps ! i) = Some f"
  shows "sequence_all fs ps ! i =
    Some \<lparr>fh_sender = fs_sender fs, fh_flow = f,
          fh_sequence = next_sequence fs f + of_nat (flow_count f (take i ps))\<rparr>"
  using assms
proof (induction ps arbitrary: fs i)
  case Nil
  then show ?case by simp
next
  case (Cons p ps)
  show ?case
  proof (cases i)
    case 0
    with Cons.prems show ?thesis
      by (simp add: next_header_in_room flow_count_def)
  next
    case (Suc j)
    show ?thesis
    proof (cases "tcp_flow_id p")
      case None
      then have "next_header fs p = (None, fs)" by (simp add: next_header_def)
      with Cons.prems Suc None show ?thesis
        by (simp add: Cons.IH room_for_def flows_of_Cons flow_count_def)
    next
      case (Some g)
      let ?fs = "fs\<lparr>fs_sequences := map_insert g (next_sequence fs g + 1) (fs_sequences fs)\<rparr>"
      have step: "next_header fs p =
          (Some \<lparr>fh_sender = fs_sender fs, fh_flow = g, fh_sequence = next_sequence fs g\<rparr>, ?fs)"
        using Cons.prems(1,2) Some by (rule next_header_in_room)
      have wf: "wf_sequencer ?fs"
        using wf_next_header [OF Cons.prems(1), of p] step by simp
      have "sequence_all ?fs ps ! j = Some \<lparr>fh_sender = fs_sender ?fs, fh_flow = f,
          fh_sequence = next_sequence ?fs f + of_nat (flow_count f (take j ps))\<rparr>"
        using Cons.prems Suc by (intro Cons.IH wf room_for_step [OF _ Some]) auto
      with Suc Some step show ?thesis
        by (simp add: next_sequence_def flow_count_def)
    qed
  qed
qed

text \<open>
  The sequencer numbers the packets of every TCP flow consecutively: as long as the flows of
  a run fit into the table, the header of the \<open>i\<close>-th packet carries the table's sender, the
  packet's flow and the number the flow had at the start plus the number of its earlier packets.
\<close>

theorem sequencer_numbers_flows:
  assumes "wf_sequencer fs" "room_for fs ps" "i < length ps" "tcp_flow_id (ps ! i) = Some f"
  shows "sequence_all fs ps ! i =
    Some \<lparr>fh_sender = fs_sender fs, fh_flow = f,
          fh_sequence = next_sequence fs f + of_nat (flow_count f (take i ps))\<rparr>"
  using assms by (rule sequence_all_nth)

definition example_packet :: bytes where
  "example_packet =
     [0x45, 0, 0, 41, 0, 0, 0, 0, 64, 6, 0, 0, 10, 0, 0, 2, 1, 1, 1, 1,
      0x30, 0x39, 0x01, 0xbb, 0, 0, 0, 0, 0, 0, 0, 0, 0x50, 0x18, 0, 0, 0, 0, 0, 0, 42]"

lemma example_flow: "\<exists>f. tcp_flow_id example_packet = Some f"
  by (simp add: example_packet_def tcp_flow_id_def tcp_flow_id_checked_def flow_fields_def
      idx_def slice_def sub_def Let_def)

lemma example_sender [simp]: "fs_sender (with_sender_id 5) = 5" "fs_sequences (with_sender_id 5) = []"
  by (simp_all add: with_sender_id_def max_def word_le_nat_alt)

lemma sequencer_numbers_flows_witness:
  "\<exists>f. sequence_all (with_sender_id 5) [example_packet, [], example_packet] ! 2 =
     Some \<lparr>fh_sender = 5, fh_flow = f, fh_sequence = 1\<rparr>"
proof -
  obtain f where f: "tcp_flow_id example_packet = Some f" using example_flow by blast
  have nil: "tcp_flow_id [] = None"
    by (simp add: tcp_flow_id_def tcp_flow_id_checked_def flow_fields_def)
  have "flows_of [example_packet, [], example_packet] = {f}"
    using f nil by (simp add: flows_of_Cons) (simp add: flows_of_def)
  then have room: "room_for (with_sender_id 5) [example_packet, [], example_packet]"
    by (simp add: room_for_def MAX_TRACKED_FLOWS_def)
  have "sequence_all (with_sender_id 5) [example_packet, [], example_packet] ! 2 =
      Some \<lparr>fh_sender = fs_sender (with_sender_id 5), fh_flow = f,
        fh_sequence = next_sequence (with_sender_id 5) f
          + of_nat (flow_count f (take 2 [example_packet, [], example_packet]))\<rparr>"
    by (rule sequencer_numbers_flows [OF wf_with_sender_id room]) (simp_all add: f)
  then show ?thesis
    using f nil by (simp add: next_sequence_def flow_count_def)
qed

end
