(* ===== verification/Striped_Scheduler.thy ===== *)
theory Striped_Scheduler
  imports Flow_Frame
begin

unbundle bit_operations_syntax

text \<open>
  Packet classes of the dispatcher, \<open>shared/striped_scheduler.rs\<close>: the walk over IPv6
  extension headers, the transport of an IP packet, and the class by which the dispatcher sizes
  its batches and chooses what to evict. \<open>checked_add\<close> and \<open>checked_mul\<close> on
  \<open>usize\<close> cannot overflow on a packet in memory, so lengths are natural numbers.
\<close>

section \<open>Classes\<close>

definition SMALL_PACKET_MAX :: nat where
  "SMALL_PACKET_MAX = 164"

definition MEDIUM_PACKET_MAX :: nat where
  "MEDIUM_PACKET_MAX = 999"

datatype packet_class = Small | Medium | Bulk

definition class_index :: "packet_class \<Rightarrow> nat" where
  "class_index c = (case c of Small \<Rightarrow> 0 | Medium \<Rightarrow> 1 | Bulk \<Rightarrow> 2)"

definition stream_chunk :: "packet_class \<Rightarrow> nat" where
  "stream_chunk c = (case c of Small \<Rightarrow> 4 | Medium \<Rightarrow> 16 | Bulk \<Rightarrow> 32)"

definition datagram_batch :: "packet_class \<Rightarrow> nat" where
  "datagram_batch c = (case c of Small \<Rightarrow> 16 | Medium \<Rightarrow> 64 | Bulk \<Rightarrow> 128)"

text \<open>Classes are ordered by their index.\<close>

instantiation packet_class :: linorder
begin

definition less_eq_packet_class :: "packet_class \<Rightarrow> packet_class \<Rightarrow> bool" where
  "less_eq_packet_class a b \<longleftrightarrow> class_index a \<le> class_index b"

definition less_packet_class :: "packet_class \<Rightarrow> packet_class \<Rightarrow> bool" where
  "less_packet_class a b \<longleftrightarrow> class_index a < class_index b"

instance
  by standard
    (auto simp: less_eq_packet_class_def less_packet_class_def class_index_def split: packet_class.splits)

end

definition size_class :: "nat \<Rightarrow> packet_class" where
  "size_class len =
     (if len \<le> SMALL_PACKET_MAX then Small
      else if len \<le> MEDIUM_PACKET_MAX then Medium
      else Bulk)"

lemma size_class_mono: "a \<le> b \<Longrightarrow> size_class a \<le> size_class b"
  by (simp add: size_class_def less_eq_packet_class_def class_index_def)

section \<open>The transport of an IP packet\<close>

text \<open>
  One pass of the extension-header loop: \<open>Walk_next\<close> goes on, \<open>Walk_done\<close> is the
  catch-all arm, \<open>Walk_fail\<close> the early \<open>None\<close>.
\<close>

datatype walk = Walk_next u8 nat | Walk_done | Walk_fail

definition ipv6_header :: "bytes \<Rightarrow> u8 \<Rightarrow> nat \<Rightarrow> walk" where
  "ipv6_header packet protocol off =
     (if protocol \<in> {0, 43, 60} then
        (case slice packet off (off + 2) of
           None \<Rightarrow> Walk_fail
         | Some header \<Rightarrow> Walk_next (header ! 0) (off + (unat (header ! 1) + 1) * 8))
      else if protocol = 44 then
        (case slice packet off (off + 8) of
           None \<Rightarrow> Walk_fail
         | Some header \<Rightarrow>
             if from_be16 [header ! 2, header ! 3] AND 0xfff8 \<noteq> 0 then Walk_fail
             else Walk_next (header ! 0) (off + 8))
      else if protocol = 51 then
        (case slice packet off (off + 2) of
           None \<Rightarrow> Walk_fail
         | Some header \<Rightarrow> Walk_next (header ! 0) (off + (unat (header ! 1) + 2) * 4))
      else Walk_done)"

primrec ipv6_walk :: "nat \<Rightarrow> bytes \<Rightarrow> u8 \<Rightarrow> nat \<Rightarrow> (u8 \<times> nat) option" where
  "ipv6_walk 0 packet protocol off = Some (protocol, off)"
| "ipv6_walk (Suc n) packet protocol off =
     (case ipv6_header packet protocol off of
        Walk_fail \<Rightarrow> None
      | Walk_done \<Rightarrow> Some (protocol, off)
      | Walk_next protocol' off' \<Rightarrow>
          if off' > length packet then None else ipv6_walk n packet protocol' off')"

definition ipv6_transport :: "bytes \<Rightarrow> (u8 \<times> nat) option" where
  "ipv6_transport packet = ipv6_walk 8 packet (packet ! 6) 40"

definition internet_transport :: "bytes \<Rightarrow> (u8 \<times> nat) option" where
  "internet_transport packet =
     (case packet of
        [] \<Rightarrow> None
      | first # _ \<Rightarrow>
          if drop_bit 4 first = 4 then
            let header_len = unat (first AND 0x0f) * 4
            in if 20 \<le> header_len \<and> header_len \<le> length packet
               then Some (packet ! 9, header_len) else None
          else if drop_bit 4 first = 6 \<and> 40 \<le> length packet then ipv6_transport packet
          else None)"

definition is_dns :: "bytes \<Rightarrow> u8 \<Rightarrow> nat \<Rightarrow> bool" where
  "is_dns packet transport off \<longleftrightarrow>
     transport \<in> {6, 17} \<and>
     (case slice packet off (off + 4) of
        None \<Rightarrow> False
      | Some ports \<Rightarrow>
          from_be16 [ports ! 0, ports ! 1] = 53 \<or> from_be16 [ports ! 2, ports ! 3] = 53)"

definition is_tcp_control :: "bytes \<Rightarrow> nat \<Rightarrow> bool" where
  "is_tcp_control packet off =
     (case slice packet off (off + 14) of
        None \<Rightarrow> False
      | Some header \<Rightarrow>
          let flags = header ! 13 in
          if flags AND (0x02 OR 0x01 OR 0x04) \<noteq> 0 then True
          else if flags AND 0x10 = 0 then False
          else
            let header_len = unat (drop_bit 4 (header ! 12)) * 4
            in 20 \<le> header_len \<and> length packet \<le> off + header_len)"

definition classify :: "bytes \<Rightarrow> packet_class" where
  "classify packet =
     (case internet_transport packet of
        None \<Rightarrow> size_class (length packet)
      | Some (transport, off) \<Rightarrow>
          if transport \<in> {1, 58} \<or> is_dns packet transport off then Small
          else if transport = 6 \<and> is_tcp_control packet off then Small
          else if transport = 17 then
            (case size_class (length packet) of Bulk \<Rightarrow> Medium | c \<Rightarrow> c)
          else size_class (length packet))"

definition packet_class_of :: "bytes \<Rightarrow> packet_class" where
  "packet_class_of packet = classify (frame_payload packet)"

definition keep_under_pressure :: "bytes \<Rightarrow> bool" where
  "keep_under_pressure packet =
     (let packet = frame_payload packet in
      if packet_class_of packet = Small then True
      else (case internet_transport packet of
              None \<Rightarrow> False
            | Some (protocol, _) \<Rightarrow> protocol = 17))"

section \<open>Bounds\<close>

lemma ipv6_header_grows:
  "ipv6_header packet protocol off = Walk_next p off' \<Longrightarrow> off < off' \<and> off \<le> length packet"
  by (auto simp: ipv6_header_def slice_def split: if_splits option.splits)

lemma ipv6_walk_bounds:
  "ipv6_walk n packet protocol off = Some (p, off') \<Longrightarrow> off \<le> length packet \<Longrightarrow>
     off \<le> off' \<and> off' \<le> length packet"
proof (induction n arbitrary: protocol off)
  case 0
  then show ?case by simp
next
  case (Suc n)
  then show ?case
    by (fastforce split: walk.splits if_splits dest: ipv6_header_grows)
qed

text \<open>Only a walk of eight extension headers stops at a protocol that is one.\<close>

definition extension_headers :: "u8 set" where
  "extension_headers = {0, 43, 60, 44, 51}"

lemma ipv6_walk_protocol:
  "ipv6_walk n packet protocol off = Some (p, off') \<Longrightarrow> p \<in> extension_headers \<Longrightarrow>
     off + 8 * n \<le> off'"
proof (induction n arbitrary: protocol off)
  case 0
  then show ?case by simp
next
  case (Suc n)
  have grow: "off + 8 \<le> o'" if "ipv6_header packet protocol off = Walk_next q o'" for q o'
    using that by (auto simp: ipv6_header_def split: if_splits option.splits)
  have "ipv6_header packet protocol off \<noteq> Walk_done" if "protocol \<in> extension_headers"
    using that by (auto simp: ipv6_header_def extension_headers_def split: option.splits)
  with Suc grow show ?case
    by (fastforce split: walk.splits if_splits)
qed

lemma internet_transport_bounds:
  assumes "internet_transport packet = Some (p, off)"
  shows "20 \<le> off \<and> off \<le> length packet"
  using assms ipv6_walk_bounds [of 8 packet "packet ! 6" 40 p off]
  by (auto simp: internet_transport_def ipv6_transport_def Let_def split: list.splits if_splits)

text \<open>A frame is not an IP packet: its first byte would announce a 12-byte header.\<close>

lemma frame_payload_internet:
  assumes "internet_transport packet \<noteq> None"
  shows "frame_payload packet = packet"
proof (cases "decode_header packet")
  case None
  then show ?thesis by (simp add: frame_payload_def)
next
  case (Some r)
  then obtain rest where "packet = FRAME_MAGIC @ rest"
    using decode_header_Some [of packet "fst r" "snd r"] by (cases r) auto
  moreover have "FRAME_MAGIC = [0x43, 0x51, 0x46, 0x31]"
    by (simp add: FRAME_MAGIC_def ascii_def)
  ultimately obtain rest' where "packet = 0x43 # rest'" by (metis append_Cons)
  then have "internet_transport packet = None"
    by (simp add: internet_transport_def)
  with assms show ?thesis by simp
qed

end
