(* ===== verification/Selective_Fec.thy ===== *)
theory Selective_Fec
  imports Striped_Scheduler
begin

unbundle bit_operations_syntax

text \<open>
  Same-socket duplication of small packets, \<open>shared/selective_fec.rs\<close>: which packets are
  worth a second copy, which look like a QUIC client Initial, and the token bucket that limits the
  copies. The bucket's clock reading is an argument; the token count, a \<open>u32\<close>, is a
  natural number with the saturation of \<open>saturating_add\<close> written out. The module's
  \<open>ipv6_transport\<close> has the scheduler's loop over again; its model shares the scheduler's
  \<open>ipv6_header\<close> for one header and repeats the loop.
\<close>

section \<open>Which packets are duplicated\<close>

definition MAX_SMALL_UDP_PAYLOAD :: nat where
  "MAX_SMALL_UDP_PAYLOAD = 256"

definition QUIC_INITIAL_UDP_MIN :: nat where
  "QUIC_INITIAL_UDP_MIN = 1200"

definition QUIC_INITIAL_UDP_MAX :: nat where
  "QUIC_INITIAL_UDP_MAX = 1280"

record transport =
  tp_protocol :: u8
  tp_bytes :: bytes

definition is_control :: "bytes \<Rightarrow> bool" where
  "is_control packet \<longleftrightarrow>
     starts_with packet (ascii ''GETCONF:'')
     \<or> starts_with packet (ascii ''TUNCONF:'')
     \<or> packet = ascii ''READY''
     \<or> packet = ascii ''READY_OK''
     \<or> starts_with packet (ascii ''DENIED:'')
     \<or> starts_with packet (ascii ''DISCONNECT:'')"

definition classify_transport :: "transport \<Rightarrow> bool" where
  "classify_transport t =
     (let b = tp_bytes t in
      if tp_protocol t = 6 \<and> 14 \<le> length b then
        from_be16 [b ! 0, b ! 1] = 53 \<or> from_be16 [b ! 2, b ! 3] = 53 \<or> b ! 13 AND 0x02 \<noteq> 0
      else if tp_protocol t = 17 \<and> 8 \<le> length b then
        from_be16 [b ! 0, b ! 1] = 53 \<or> from_be16 [b ! 2, b ! 3] = 53
        \<or> length b - 8 \<le> MAX_SMALL_UDP_PAYLOAD
      else False)"

definition fec_ipv4_transport :: "bytes \<Rightarrow> transport option" where
  "fec_ipv4_transport packet =
     (if length packet < 20 \<or> drop_bit 4 (packet ! 0) \<noteq> 4 then None
      else
        let header_len = unat (packet ! 0 AND 0x0f) * 4 in
        if header_len < 20 \<or> length packet < header_len then None
        else if from_be16 [packet ! 6, packet ! 7] AND 0x1fff \<noteq> 0 then None
        else Some \<lparr>tp_protocol = packet ! 9, tp_bytes = drop header_len packet\<rparr>)"

primrec fec_ipv6_walk :: "nat \<Rightarrow> bytes \<Rightarrow> u8 \<Rightarrow> nat \<Rightarrow> (u8 \<times> nat) option" where
  "fec_ipv6_walk 0 packet protocol off = Some (protocol, off)"
| "fec_ipv6_walk (Suc n) packet protocol off =
     (case ipv6_header packet protocol off of
        Walk_fail \<Rightarrow> None
      | Walk_done \<Rightarrow> Some (protocol, off)
      | Walk_next protocol' off' \<Rightarrow>
          if off' > length packet then None else fec_ipv6_walk n packet protocol' off')"

definition fec_ipv6_transport :: "bytes \<Rightarrow> transport option" where
  "fec_ipv6_transport packet =
     (if length packet < 40 \<or> drop_bit 4 (packet ! 0) \<noteq> 6 then None
      else
        (case fec_ipv6_walk 8 packet (packet ! 6) 40 of
           None \<Rightarrow> None
         | Some (protocol, off) \<Rightarrow>
             (case slice packet off (length packet) of
                None \<Rightarrow> None
              | Some rest \<Rightarrow> Some \<lparr>tp_protocol = protocol, tp_bytes = rest\<rparr>)))"

definition quic_initial_transport :: "transport \<Rightarrow> bool" where
  "quic_initial_transport t =
     (let b = tp_bytes t in
      if tp_protocol t \<noteq> 17 \<or> length b < 8 then False
      else if from_be16 [b ! 2, b ! 3] \<noteq> 443 then False
      else QUIC_INITIAL_UDP_MIN \<le> length b - 8 \<and> length b - 8 \<le> QUIC_INITIAL_UDP_MAX)"

text \<open>
  The \<open>match\<close> on the IP version that \<open>should_duplicate\<close> and
  \<open>is_quic_initial_sized\<close> have in common.
\<close>

definition fec_transport :: "bytes \<Rightarrow> transport option" where
  "fec_transport packet =
     (case packet of
        [] \<Rightarrow> None
      | first # _ \<Rightarrow>
          if drop_bit 4 first = 4 then fec_ipv4_transport packet
          else if drop_bit 4 first = 6 then fec_ipv6_transport packet
          else None)"

definition should_duplicate :: "bytes \<Rightarrow> bool" where
  "should_duplicate packet =
     (let packet = frame_payload packet in
      if is_control packet then True
      else (case fec_transport packet of None \<Rightarrow> False | Some t \<Rightarrow> classify_transport t))"

definition is_quic_initial_sized :: "bytes \<Rightarrow> bool" where
  "is_quic_initial_sized packet =
     (case fec_transport (frame_payload packet) of
        None \<Rightarrow> False
      | Some t \<Rightarrow> quic_initial_transport t)"

section \<open>The two parsers agree\<close>

lemma fec_ipv6_walk_eq: "fec_ipv6_walk n packet protocol off = ipv6_walk n packet protocol off"
  by (induction n arbitrary: protocol off) (auto split: walk.splits)

lemma fec_transport_located:
  assumes "fec_transport packet = Some t"
  shows "\<exists>off. internet_transport packet = Some (tp_protocol t, off)
    \<and> off \<le> length packet \<and> tp_bytes t = drop off packet"
proof -
  obtain first rest where packet: "packet = first # rest"
    using assms by (cases packet) (auto simp: fec_transport_def)
  consider (v4) "drop_bit 4 first = 4" | (v6) "drop_bit 4 first = 6"
    using assms packet by (auto simp: fec_transport_def split: if_splits)
  then show ?thesis
  proof cases
    case v4
    with assms packet show ?thesis
      by (auto simp: fec_transport_def fec_ipv4_transport_def internet_transport_def Let_def
          split: if_splits)
  next
    case v6
    then have ne4: "drop_bit 4 first \<noteq> 4" by simp
    from assms packet v6 obtain p off where w: "ipv6_walk 8 packet (packet ! 6) 40 = Some (p, off)"
      "slice packet off (length packet) = Some (tp_bytes t)" "p = tp_protocol t"
      and len: "\<not> length packet < 40"
      by (auto simp: fec_transport_def fec_ipv6_transport_def fec_ipv6_walk_eq
          split: if_splits option.splits)
    then have "off \<le> length packet \<and> tp_bytes t = drop off packet"
      by (auto simp: slice_def sub_def split: if_splits)
    moreover have "internet_transport packet = Some (tp_protocol t, off)"
      using w v6 ne4 packet len by (simp add: internet_transport_def ipv6_transport_def)
    ultimately show ?thesis by blast
  qed
qed

text \<open>
  A packet that earns a duplicate by its transport header is one the dispatcher never evicts:
  whatever \<open>should_duplicate\<close> accepts, the control messages aside,
  \<open>keep_under_pressure\<close> keeps.
\<close>

theorem duplicated_packets_are_kept:
  assumes "should_duplicate packet" "\<not> is_control (frame_payload packet)"
  shows "keep_under_pressure packet"
proof -
  let ?p = "frame_payload packet"
  obtain t where t: "fec_transport ?p = Some t" and c: "classify_transport t"
    using assms by (auto simp: should_duplicate_def Let_def split: option.splits)
  obtain off where it: "internet_transport ?p = Some (tp_protocol t, off)"
    and off: "off \<le> length ?p" and tb: "tp_bytes t = drop off ?p"
    using fec_transport_located [OF t] by blast
  have again: "packet_class_of ?p = classify ?p"
    using it frame_payload_internet [of ?p] by (simp add: packet_class_of_def)
  show ?thesis
  proof (cases "tp_protocol t = 17")
    case True
    with it show ?thesis by (simp add: keep_under_pressure_def Let_def)
  next
    case False
    with c have tcp: "tp_protocol t = 6" and len: "off + 14 \<le> length ?p"
      using tb off by (auto simp: classify_transport_def Let_def split: if_splits)
    have "is_dns ?p 6 off \<or> is_tcp_control ?p off"
    proof (cases "?p ! (off + 13) AND 0x02 \<noteq> 0")
      case True
      have or: "x AND (0x02 OR 0x01 OR 0x04) \<noteq> 0" if "x AND 0x02 \<noteq> 0" for x :: u8
      proof
        assume zero: "x AND (0x02 OR 0x01 OR 0x04) = 0"
        have "(x AND 7) AND 2 = x AND 2" by (simp add: and.assoc)
        then have "x AND 2 = 0" using zero by simp
        with that show False by simp
      qed
      have "is_tcp_control ?p off"
        using len or [OF True] by (simp add: is_tcp_control_def sub_def Let_def)
      then show ?thesis by blast
    next
      case no_syn: False
      have d: "drop off ?p ! i = ?p ! (off + i)" for i using off by simp
      have "length (drop off ?p) \<ge> 14" using len by simp
      with c tcp no_syn have "from_be16 [?p ! off, ?p ! (off + 1)] = 53
          \<or> from_be16 [?p ! (off + 2), ?p ! (off + 3)] = 53"
        unfolding classify_transport_def tb Let_def d by simp
      then have "is_dns ?p 6 off"
        using len by (simp add: is_dns_def sub_def)
      then show ?thesis by blast
    qed
    then have "classify ?p = Small"
      using it tcp by (auto simp: classify_def)
    then show ?thesis by (simp add: keep_under_pressure_def again Let_def)
  qed
qed

definition example_dns_query :: bytes where
  "example_dns_query =
     [0x45, 0, 0, 32, 0, 0, 0, 0, 64, 17, 0, 0, 10, 0, 0, 2, 1, 1, 1, 1,
      0x30, 0x39, 0, 53, 0, 12, 0, 0, 1, 2, 3, 4]"

lemma duplicated_packets_are_kept_witness: "keep_under_pressure example_dns_query"
proof (rule duplicated_packets_are_kept)
  have p: "frame_payload example_dns_query = example_dns_query"
    by (intro frame_payload_internet) (simp add: internet_transport_def example_dns_query_def Let_def)
  show "should_duplicate example_dns_query"
    unfolding should_duplicate_def p
    by (simp add: example_dns_query_def fec_transport_def fec_ipv4_transport_def
        classify_transport_def from_be16_def nat_of_be_def MAX_SMALL_UDP_PAYLOAD_def Let_def)
  show "\<not> is_control (frame_payload example_dns_query)"
    unfolding p
    by (simp add: example_dns_query_def is_control_def starts_with_def ascii_def)
qed

section \<open>The token bucket\<close>

definition DUPLICATES_PER_SECOND :: nat where
  "DUPLICATES_PER_SECOND = 80"

definition DUPLICATE_BURST :: nat where
  "DUPLICATE_BURST = 16"

text \<open>The interval is an integer number of milliseconds: 1000 / 80 rounds down to 12.\<close>

definition REFILL_INTERVAL :: duration where
  "REFILL_INTERVAL = from_millis (1000 div DUPLICATES_PER_SECOND)"

record budget =
  bu_tokens :: nat
  bu_updated :: instant

definition new_budget :: "instant \<Rightarrow> budget" where
  "new_budget now = \<lparr>bu_tokens = DUPLICATE_BURST, bu_updated = now\<rparr>"

definition allow :: "instant \<Rightarrow> budget \<Rightarrow> bool \<times> budget" where
  "allow now b =
     (let elapsed = now - bu_updated b;
          refill = elapsed div REFILL_INTERVAL;
          b = (if refill \<noteq> 0 then
                 let refill = min refill (2 ^ 32 - 1)
                 in b\<lparr>bu_tokens := min (min (bu_tokens b + refill) (2 ^ 32 - 1)) DUPLICATE_BURST,
                      bu_updated := bu_updated b + REFILL_INTERVAL * refill\<rparr>
               else b)
      in if bu_tokens b = 0 then (False, b)
         else (True, b\<lparr>bu_tokens := bu_tokens b - 1\<rparr>))"

lemma REFILL_INTERVAL_12ms: "REFILL_INTERVAL = 12000000"
  by (simp add: REFILL_INTERVAL_def DUPLICATES_PER_SECOND_def from_millis_def)

primrec allow_all :: "instant list \<Rightarrow> budget \<Rightarrow> bool list \<times> budget" where
  "allow_all [] b = ([], b)"
| "allow_all (now # ts) b =
     (let (g, b) = allow now b; (gs, b) = allow_all ts b in (g # gs, b))"

definition grants :: "bool list \<Rightarrow> nat" where
  "grants gs = length (filter (\<lambda>g. g) gs)"

text \<open>The refills credited so far, in intervals since \<open>start\<close>.\<close>

definition bucket_ok :: "instant \<Rightarrow> nat \<Rightarrow> budget \<Rightarrow> bool" where
  "bucket_ok start granted b \<longleftrightarrow>
     bu_tokens b \<le> DUPLICATE_BURST
     \<and> (\<exists>k. bu_updated b = start + REFILL_INTERVAL * k \<and> granted + bu_tokens b \<le> DUPLICATE_BURST + k)"

lemma allow_bucket:
  assumes "bucket_ok start granted b" "allow now b = (g, b')" "bu_updated b \<le> now"
  shows "bucket_ok start (granted + of_bool g) b' \<and> bu_updated b' \<le> now"
proof -
  obtain k where k: "bu_updated b = start + REFILL_INTERVAL * k"
    "granted + bu_tokens b \<le> DUPLICATE_BURST + k" and t: "bu_tokens b \<le> DUPLICATE_BURST"
    using assms(1) by (auto simp: bucket_ok_def)
  define r where "r = min ((now - bu_updated b) div REFILL_INTERVAL) (2 ^ 32 - 1)"
  define c where "c = b\<lparr>bu_tokens := min (min (bu_tokens b + r) (2 ^ 32 - 1)) DUPLICATE_BURST,
    bu_updated := bu_updated b + REFILL_INTERVAL * r\<rparr>"
  have "r = 0 \<Longrightarrow> c = b" using t by (simp add: c_def DUPLICATE_BURST_def)
  moreover have "r = 0 \<longleftrightarrow> (now - bu_updated b) div REFILL_INTERVAL = 0" by (simp add: r_def min_def)
  ultimately have step: "(g, b') = (if bu_tokens c = 0 then (False, c) else (True, c\<lparr>bu_tokens := bu_tokens c - 1\<rparr>))"
    unfolding assms(2) [symmetric] allow_def Let_def r_def [symmetric] c_def [symmetric]
    by (simp split: if_splits)
  have "REFILL_INTERVAL * r \<le> now - bu_updated b"
    by (rule order_trans [OF mult_le_mono2 [of r "(now - bu_updated b) div REFILL_INTERVAL"]])
       (simp_all add: r_def)
  then have upd: "bu_updated c \<le> now" using assms(3) by (simp add: c_def)
  have c: "bu_updated c = start + REFILL_INTERVAL * (k + r)" "bu_tokens c \<le> DUPLICATE_BURST"
    "granted + bu_tokens c \<le> DUPLICATE_BURST + (k + r)"
    using k by (auto simp: c_def distrib_left)
  then have "bucket_ok start (granted + of_bool g) b'"
    using step unfolding bucket_ok_def by (intro conjI exI [of _ "k + r"]) (auto split: if_splits)
  then show ?thesis using step upd by (simp split: if_splits)
qed

lemma allow_all_bucket:
  assumes "bucket_ok start granted b" "allow_all ts b = (gs, b')" "sorted ts"
    and "\<forall>t\<in>set ts. bu_updated b \<le> t"
  shows "bucket_ok start (granted + grants gs) b' \<and> (ts \<noteq> [] \<longrightarrow> bu_updated b' \<le> last ts)"
  using assms
proof (induction ts arbitrary: granted b gs)
  case Nil
  then show ?case by (simp add: grants_def)
next
  case (Cons now ts)
  obtain g c where g: "allow now b = (g, c)" by fastforce
  obtain hs where hs: "allow_all ts c = (hs, b')" and gs: "gs = g # hs"
    using Cons.prems(2) g by (cases "allow_all ts c") auto
  have one: "bucket_ok start (granted + of_bool g) c" "bu_updated c \<le> now"
    using allow_bucket [OF Cons.prems(1) g] Cons.prems(4) by auto
  have "\<forall>t\<in>set ts. bu_updated c \<le> t" using one(2) Cons.prems(3) by auto
  then have "bucket_ok start (granted + of_bool g + grants hs) b' \<and> (ts \<noteq> [] \<longrightarrow> bu_updated b' \<le> last ts)"
    using Cons.IH [OF one(1) hs] Cons.prems(3) by auto
  moreover have "ts = [] \<Longrightarrow> b' = c" using hs by simp
  ultimately show ?case using one(2) by (auto simp: gs grants_def)
qed

text \<open>
  The bucket bounds the copies: from a fresh bucket, any run of calls at non-decreasing times
  is granted at most 16 copies plus one for every full 12 milliseconds since the start.
\<close>

theorem budget_rate_bound:
  assumes "sorted (start # ts)" "ts \<noteq> []" "allow_all ts (new_budget start) = (gs, b)"
  shows "grants gs \<le> DUPLICATE_BURST + (last ts - start) div REFILL_INTERVAL"
proof -
  have "bucket_ok start 0 (new_budget start)"
    by (auto simp: bucket_ok_def new_budget_def intro: exI [of _ 0])
  then have ok: "bucket_ok start (0 + grants gs) b \<and> (ts \<noteq> [] \<longrightarrow> bu_updated b \<le> last ts)"
    using assms by (intro allow_all_bucket [where b = "new_budget start"]) (auto simp: new_budget_def)
  then obtain k where k: "bu_updated b = start + REFILL_INTERVAL * k" "grants gs + bu_tokens b \<le> DUPLICATE_BURST + k"
    by (auto simp: bucket_ok_def)
  have "start + REFILL_INTERVAL * k \<le> last ts" using ok k(1) assms(2) by simp
  then have "REFILL_INTERVAL * k \<le> last ts - start" by linarith
  then have "k \<le> (last ts - start) div REFILL_INTERVAL"
    by (simp add: less_eq_div_iff_mult_less_eq REFILL_INTERVAL_12ms mult.commute)
  with k(2) show ?thesis by simp
qed

lemma budget_rate_bound_witness:
  "grants (fst (allow_all [5, 6, 7] (new_budget 0))) \<le> 16"
  using budget_rate_bound [of 0 "[5, 6, 7]", OF _ _ surjective_pairing]
  by (simp add: DUPLICATE_BURST_def REFILL_INTERVAL_12ms)

text \<open>
  A call at least 12 milliseconds after the last refill is always granted, so an empty bucket
  sustains one copy every 12 milliseconds: 83 per second, not the 80 of
  \<open>DUPLICATES_PER_SECOND\<close>, because the interval rounds down.
\<close>

theorem budget_sustains_83_per_second:
  assumes "bu_tokens b = 0" "n < 2 ^ 32 - 1"
  shows "fst (allow_all (map (\<lambda>i. bu_updated b + REFILL_INTERVAL * Suc i) [0..<n]) b) = replicate n True
    \<and> (n = 83 \<longrightarrow> DUPLICATES_PER_SECOND < n \<and> REFILL_INTERVAL * n \<le> from_secs 1)"
proof -
  have "fst (allow_all (map (\<lambda>i. u + REFILL_INTERVAL * Suc i) [j..<j + m])
      \<lparr>bu_tokens = 0, bu_updated = u + REFILL_INTERVAL * j\<rparr>) = replicate m True" for u j m
  proof (induction m arbitrary: j)
    case 0
    then show ?case by simp
  next
    case (Suc m)
    have "allow (u + REFILL_INTERVAL * Suc j) \<lparr>bu_tokens = 0, bu_updated = u + REFILL_INTERVAL * j\<rparr>
        = (True, \<lparr>bu_tokens = 0, bu_updated = u + REFILL_INTERVAL * Suc j\<rparr>)"
      by (simp add: allow_def Let_def REFILL_INTERVAL_12ms DUPLICATE_BURST_def)
    with Suc [of "Suc j"] show ?case
      by (simp add: upt_conv_Cons split_beta del: upt_Suc mult_Suc_right)
  qed
  from this [of "bu_updated b" 0 n] show ?thesis
    using assms(1) by (cases b) (auto simp: DUPLICATES_PER_SECOND_def REFILL_INTERVAL_12ms from_secs_def)
qed

lemma budget_sustains_83_per_second_witness:
  "fst (allow_all (map (\<lambda>i. 7 + REFILL_INTERVAL * Suc i) [0..<83]) \<lparr>bu_tokens = 0, bu_updated = 7\<rparr>)
     = replicate 83 True"
  using budget_sustains_83_per_second [of "\<lparr>bu_tokens = 0, bu_updated = 7\<rparr>" 83] by simp

end
