(* ===== verification/Packet_Buf.thy ===== *)
theory Packet_Buf
  imports Interfaces
begin

text \<open>
  Packet buffers and their pool, \<open>packet.rs\<close>. A \<open>PacketBuf\<close> is a 2304-byte storage
  with a range of valid bytes; every operation checks its length and answers an error value. The
  pool keeps released storages in an \<open>ArrayQueue\<close>, whose operations are a parameter, and
  counts the storages in existence in an atomic; the pool's functions are compositions of its
  atomic steps, and the step relation \<open>pool_step\<close> interleaves the steps of any number of
  threads. What a fresh, uninitialised storage contains is the parameter \<open>fresh\<close>.
\<close>

section \<open>Buffers\<close>

definition PACKET_HEADROOM :: nat where
  "PACKET_HEADROOM = 64"

definition PACKET_CAPACITY :: nat where
  "PACKET_CAPACITY = 2304"

definition PACKET_POOL_PER_WORKER :: nat where
  "PACKET_POOL_PER_WORKER = 256"

definition PACKET_POOL_SHARED :: nat where
  "PACKET_POOL_SHARED = 512"

definition PACKET_POOL_RETAINED_MAX :: nat where
  "PACKET_POOL_RETAINED_MAX = 2048"

definition packet_pool_size :: "nat \<Rightarrow> nat" where
  "packet_pool_size workers =
     min (min (workers * PACKET_POOL_PER_WORKER) (2 ^ 64 - 1) + PACKET_POOL_SHARED) (2 ^ 64 - 1)"

record packet_buf =
  pb_storage :: bytes
  pb_start :: nat
  pb_end :: nat

datatype packet_error =
    Read_exceeds_capacity
  | Prepend_exceeds_headroom
  | Tail_length_overflow
  | Tail_exceeds_capacity
  | Trim_exceeds_length
  | Truncate_exceeds_length
  | Range_invalid

definition pb_len :: "packet_buf \<Rightarrow> nat" where
  "pb_len p = pb_end p - pb_start p"

definition pb_is_empty :: "packet_buf \<Rightarrow> bool" where
  "pb_is_empty p \<longleftrightarrow> \<not> pb_start p < pb_end p"

definition pb_slice :: "packet_buf \<Rightarrow> bytes" where
  "pb_slice p = sub (pb_storage p) (pb_start p) (pb_end p)"

text \<open>The caller writes what it read into the read area and then sets its length.\<close>

definition read_area_len :: nat where
  "read_area_len = PACKET_CAPACITY - PACKET_HEADROOM"

definition write_read_area :: "bytes \<Rightarrow> packet_buf \<Rightarrow> packet_buf" where
  "write_read_area bs p = p\<lparr>pb_storage := put PACKET_HEADROOM bs (pb_storage p)\<rparr>"

definition set_read_len :: "nat \<Rightarrow> packet_buf \<Rightarrow> packet_error + packet_buf" where
  "set_read_len len p =
     (if len > PACKET_CAPACITY - PACKET_HEADROOM then Inl Read_exceeds_capacity
      else Inr (p\<lparr>pb_start := PACKET_HEADROOM, pb_end := PACKET_HEADROOM + len\<rparr>))"

definition prepend :: "nat \<Rightarrow> packet_buf \<Rightarrow> packet_error + packet_buf" where
  "prepend len p =
     (if len > pb_start p then Inl Prepend_exceeds_headroom
      else Inr (p\<lparr>pb_start := pb_start p - len\<rparr>))"

definition extend_tail :: "nat \<Rightarrow> packet_buf \<Rightarrow> packet_error + packet_buf" where
  "extend_tail len p =
     (if 2 ^ 64 \<le> pb_end p + len then Inl Tail_length_overflow
      else if pb_end p + len > PACKET_CAPACITY then Inl Tail_exceeds_capacity
      else Inr (p\<lparr>pb_end := pb_end p + len\<rparr>))"

definition trim_front :: "nat \<Rightarrow> packet_buf \<Rightarrow> packet_error + packet_buf" where
  "trim_front len p =
     (if len > pb_len p then Inl Trim_exceeds_length
      else Inr (p\<lparr>pb_start := pb_start p + len\<rparr>))"

definition pb_truncate :: "nat \<Rightarrow> packet_buf \<Rightarrow> packet_error + packet_buf" where
  "pb_truncate len p =
     (if len > pb_len p then Inl Truncate_exceeds_length
      else Inr (p\<lparr>pb_end := pb_start p + len\<rparr>))"

definition set_range :: "nat \<Rightarrow> nat \<Rightarrow> packet_buf \<Rightarrow> packet_error + packet_buf" where
  "set_range a b p =
     (if a > b \<or> b > PACKET_CAPACITY then Inl Range_invalid
      else Inr (p\<lparr>pb_start := a, pb_end := b\<rparr>))"

definition wf_packet :: "packet_buf \<Rightarrow> bool" where
  "wf_packet p \<longleftrightarrow> length (pb_storage p) = PACKET_CAPACITY
     \<and> pb_start p \<le> pb_end p \<and> pb_end p \<le> PACKET_CAPACITY"

lemma pb_len_slice [simp]: "wf_packet p \<Longrightarrow> length (pb_slice p) = pb_len p"
  by (simp add: wf_packet_def pb_slice_def pb_len_def)

text \<open>Every operation keeps the range inside the storage, whatever length it is given.\<close>

lemma wf_packet_ops:
  assumes "wf_packet p"
  shows "set_read_len n p = Inr q \<Longrightarrow> wf_packet q"
    and "prepend n p = Inr q \<Longrightarrow> wf_packet q"
    and "extend_tail n p = Inr q \<Longrightarrow> wf_packet q"
    and "trim_front n p = Inr q \<Longrightarrow> wf_packet q"
    and "pb_truncate n p = Inr q \<Longrightarrow> wf_packet q"
    and "set_range a b p = Inr q \<Longrightarrow> wf_packet q"
    and "length bs \<le> read_area_len \<Longrightarrow> wf_packet (write_read_area bs p)"
  using assms
  by (auto simp: wf_packet_def set_read_len_def prepend_def extend_tail_def trim_front_def
      pb_truncate_def set_range_def pb_len_def write_read_area_def read_area_len_def
      PACKET_CAPACITY_def PACKET_HEADROOM_def split: if_splits)

text \<open>What the operations do to the bytes in range.\<close>

lemma prepend_slice:
  assumes "wf_packet p" "prepend n p = Inr q"
  shows "pb_slice q = sub (pb_storage p) (pb_start p - n) (pb_start p) @ pb_slice p"
  using assms sub_split [of "pb_start p - n" "pb_start p" "pb_end p" "pb_storage p"]
  by (auto simp: prepend_def pb_slice_def wf_packet_def split: if_splits)

lemma extend_tail_slice:
  assumes "wf_packet p" "extend_tail n p = Inr q"
  shows "pb_slice q = pb_slice p @ sub (pb_storage p) (pb_end p) (pb_end p + n)"
  using assms sub_split [of "pb_start p" "pb_end p" "pb_end p + n" "pb_storage p"]
  by (auto simp: extend_tail_def pb_slice_def wf_packet_def split: if_splits)

lemma trim_front_slice: "trim_front n p = Inr q \<Longrightarrow> pb_slice q = drop n (pb_slice p)"
  by (auto simp: trim_front_def pb_slice_def sub_def pb_len_def drop_take add.commute split: if_splits)

lemma truncate_slice: "pb_truncate n p = Inr q \<Longrightarrow> pb_slice q = take n (pb_slice p)"
  by (auto simp: pb_truncate_def pb_slice_def sub_def pb_len_def min_def split: if_splits)

lemma read_slice:
  assumes "wf_packet p" "length bs \<le> read_area_len"
    "set_read_len (length bs) (write_read_area bs p) = Inr q"
  shows "pb_slice q = bs"
  using assms sub_put_same [of PACKET_HEADROOM bs "pb_storage p"]
  by (auto simp: set_read_len_def pb_slice_def write_read_area_def wf_packet_def read_area_len_def
      PACKET_CAPACITY_def PACKET_HEADROOM_def split: if_splits)

section \<open>The pool\<close>

record 'q packet_pool =
  po_queue :: 'q
  po_allocated :: nat
  po_limit :: nat

definition new_pool :: "(bytes, 'q) queue_ops \<Rightarrow> nat \<Rightarrow> 'q packet_pool" where
  "new_pool Q buffers =
     (let capacity = max buffers 1;
          retained_limit = min capacity PACKET_POOL_RETAINED_MAX
      in \<lparr>po_queue = q_new Q retained_limit, po_allocated = 0, po_limit = capacity\<rparr>)"

text \<open>The atomic steps: one queue operation or one update of the counter each.\<close>

definition pool_pop :: "(bytes, 'q) queue_ops \<Rightarrow> 'q packet_pool \<Rightarrow> (bytes \<times> 'q packet_pool) option" where
  "pool_pop Q po =
     (case q_pop Q (po_queue po) of
        None \<Rightarrow> None
      | Some (storage, q) \<Rightarrow> Some (storage, po\<lparr>po_queue := q\<rparr>))"

definition pool_reserve :: "'q packet_pool \<Rightarrow> 'q packet_pool option" where
  "pool_reserve po =
     (if po_allocated po < po_limit po then Some (po\<lparr>po_allocated := po_allocated po + 1\<rparr>) else None)"

definition pool_push :: "(bytes, 'q) queue_ops \<Rightarrow> bytes \<Rightarrow> 'q packet_pool \<Rightarrow> 'q packet_pool option" where
  "pool_push Q storage po = map_option (\<lambda>q. po\<lparr>po_queue := q\<rparr>) (q_push Q storage (po_queue po))"

definition pool_forget :: "'q packet_pool \<Rightarrow> 'q packet_pool" where
  "pool_forget po = po\<lparr>po_allocated := po_allocated po - 1\<rparr>"

definition new_packet :: "bytes \<Rightarrow> packet_buf" where
  "new_packet storage = \<lparr>pb_storage = storage, pb_start = PACKET_HEADROOM, pb_end = PACKET_HEADROOM\<rparr>"

definition try_acquire ::
  "(bytes, 'q) queue_ops \<Rightarrow> bytes \<Rightarrow> 'q packet_pool \<Rightarrow> packet_buf option \<times> 'q packet_pool" where
  "try_acquire Q fresh po =
     (case pool_pop Q po of
        Some (storage, po) \<Rightarrow> (Some (new_packet storage), po)
      | None \<Rightarrow>
          (case pool_reserve po of
             None \<Rightarrow> (None, po)
           | Some po \<Rightarrow> (Some (new_packet fresh), po)))"

definition release :: "(bytes, 'q) queue_ops \<Rightarrow> bytes \<Rightarrow> 'q packet_pool \<Rightarrow> 'q packet_pool" where
  "release Q storage po =
     (if length storage \<noteq> PACKET_CAPACITY then pool_forget po
      else (case pool_push Q storage po of
              None \<Rightarrow> pool_forget po
            | Some po \<Rightarrow> po))"

text \<open>Dropping a \<open>PacketBuf\<close> releases its storage.\<close>

definition drop_packet :: "(bytes, 'q) queue_ops \<Rightarrow> packet_buf \<Rightarrow> 'q packet_pool \<Rightarrow> 'q packet_pool" where
  "drop_packet Q p po = release Q (pb_storage p) po"

definition try_duplicate ::
  "(bytes, 'q) queue_ops \<Rightarrow> bytes \<Rightarrow> packet_buf \<Rightarrow> 'q packet_pool \<Rightarrow> packet_buf option \<times> 'q packet_pool" where
  "try_duplicate Q fresh p po =
     (let src = pb_slice p in
      case try_acquire Q fresh po of
        (None, po) \<Rightarrow> (None, po)
      | (Some copy, po) \<Rightarrow>
          if length src > read_area_len then (None, drop_packet Q copy po)
          else
            let copy = write_read_area src copy in
            (case set_read_len (length src) copy of
               Inl _ \<Rightarrow> (None, drop_packet Q copy po)
             | Inr copy \<Rightarrow> (Some copy, po)))"

section \<open>Interleaved use\<close>

text \<open>
  The pool with the buffers its users hold: \<open>pw_held\<close> counts the live \<open>PacketBuf\<close>s,
  \<open>pw_doomed\<close> the storages already given up whose decrement of the counter is still to come.
\<close>

record 'q pool_world =
  pw_pool :: "'q packet_pool"
  pw_held :: nat
  pw_doomed :: nat

datatype pool_label = L_pop | L_reserve | L_push bytes | L_reject bytes | L_forget

inductive pool_step :: "(bytes, 'q) queue_ops \<Rightarrow> 'q pool_world \<Rightarrow> pool_label \<Rightarrow> 'q pool_world \<Rightarrow> bool"
  for Q :: "(bytes, 'q) queue_ops" where
  step_pop: "pool_pop Q (pw_pool w) = Some (storage, po) \<Longrightarrow>
    pool_step Q w L_pop (w\<lparr>pw_pool := po, pw_held := pw_held w + 1\<rparr>)"
| step_reserve: "pool_reserve (pw_pool w) = Some po \<Longrightarrow>
    pool_step Q w L_reserve (w\<lparr>pw_pool := po, pw_held := pw_held w + 1\<rparr>)"
| step_push: "0 < pw_held w \<Longrightarrow> length storage = PACKET_CAPACITY \<Longrightarrow>
    pool_push Q storage (pw_pool w) = Some po \<Longrightarrow>
    pool_step Q w (L_push storage) (w\<lparr>pw_pool := po, pw_held := pw_held w - 1\<rparr>)"
| step_reject: "0 < pw_held w \<Longrightarrow>
    length storage \<noteq> PACKET_CAPACITY \<or> pool_push Q storage (pw_pool w) = None \<Longrightarrow>
    pool_step Q w (L_reject storage) (w\<lparr>pw_held := pw_held w - 1, pw_doomed := pw_doomed w + 1\<rparr>)"
| step_forget: "0 < pw_doomed w \<Longrightarrow>
    pool_step Q w L_forget (w\<lparr>pw_pool := pool_forget (pw_pool w), pw_doomed := pw_doomed w - 1\<rparr>)"

inductive_cases pool_stepE: "pool_step Q w l w'"

definition pool_inv :: "(bytes, 'q) queue_ops \<Rightarrow> 'q pool_world \<Rightarrow> bool" where
  "pool_inv Q w \<longleftrightarrow>
     po_allocated (pw_pool w) = length (q_items Q (po_queue (pw_pool w))) + pw_held w + pw_doomed w
     \<and> po_allocated (pw_pool w) \<le> po_limit (pw_pool w)
     \<and> (\<forall>s\<in>set (q_items Q (po_queue (pw_pool w))). length s = PACKET_CAPACITY)"

lemma pool_inv_step:
  assumes ok: "array_queue_ok Q" and step: "pool_step Q w l w'" and inv: "pool_inv Q w"
  shows "pool_inv Q w'"
  using step
proof cases
  case (step_pop storage po)
  then show ?thesis
    using inv queue_pop_Some [OF ok]
    by (auto simp: pool_inv_def pool_pop_def split: option.splits)
next
  case (step_reserve po)
  then show ?thesis
    using inv by (auto simp: pool_inv_def pool_reserve_def split: if_splits)
next
  case (step_push storage po)
  then show ?thesis
    using inv queue_push_Some [OF ok] by (auto simp: pool_inv_def pool_push_def)
next
  case (step_reject storage)
  then show ?thesis using inv by (simp add: pool_inv_def)
next
  case step_forget
  then show ?thesis using inv by (auto simp: pool_inv_def pool_forget_def)
qed

lemma pool_step_keeps:
  assumes "array_queue_ok Q" "pool_step Q w l w'"
  shows "po_limit (pw_pool w') = po_limit (pw_pool w)
    \<and> q_capacity Q (po_queue (pw_pool w')) = q_capacity Q (po_queue (pw_pool w))
    \<and> (length (q_items Q (po_queue (pw_pool w))) \<le> q_capacity Q (po_queue (pw_pool w)) \<longrightarrow>
       length (q_items Q (po_queue (pw_pool w'))) \<le> q_capacity Q (po_queue (pw_pool w')))"
  using assms(2)
proof cases
  case (step_pop storage po)
  then obtain q where "q_pop Q (po_queue (pw_pool w)) = Some (storage, q)" "po = (pw_pool w)\<lparr>po_queue := q\<rparr>"
    by (auto simp: pool_pop_def split: option.splits)
  with step_pop queue_pop_Some [OF assms(1) this(1)] show ?thesis by simp
next
  case (step_push storage po)
  then obtain q where "q_push Q storage (po_queue (pw_pool w)) = Some q" "po = (pw_pool w)\<lparr>po_queue := q\<rparr>"
    by (auto simp: pool_push_def)
  with step_push queue_push_Some [OF assms(1) this(1)] show ?thesis by simp
qed (auto simp: pool_reserve_def pool_forget_def split: if_splits)

definition pool_safe :: "(bytes, 'q) queue_ops \<Rightarrow> nat \<Rightarrow> 'q pool_world \<Rightarrow> bool" where
  "pool_safe Q buffers w \<longleftrightarrow> pool_inv Q w \<and> po_limit (pw_pool w) = max buffers 1
     \<and> q_capacity Q (po_queue (pw_pool w)) = min (max buffers 1) PACKET_POOL_RETAINED_MAX
     \<and> length (q_items Q (po_queue (pw_pool w))) \<le> q_capacity Q (po_queue (pw_pool w))"

definition new_world :: "(bytes, 'q) queue_ops \<Rightarrow> nat \<Rightarrow> 'q pool_world" where
  "new_world Q buffers = \<lparr>pw_pool = new_pool Q buffers, pw_held = 0, pw_doomed = 0\<rparr>"

text \<open>A pool over a queue that keeps its contract is safe under every interleaving.\<close>

locale byte_queue = array_queue Q for Q :: "(bytes, 'q) queue_ops"

sublocale byte_queue \<subseteq> pool: step_invariant "pool_step Q" "pool_safe Q buffers" for buffers
proof unfold_locales
  show "pool_safe Q buffers w'" if "pool_step Q w l w'" "pool_safe Q buffers w" for w l w'
    using that pool_inv_step [OF ok, of w l w'] pool_step_keeps [OF ok, of w l w']
    unfolding pool_safe_def by metis
qed

context byte_queue
begin

lemma pool_safe_run: "pool_safe Q buffers w \<Longrightarrow> steps (pool_step Q) w ls w' \<Longrightarrow> pool_safe Q buffers w'"
  by (rule pool.steps_inv)

end

interpretation list_pool: byte_queue list_queue
  by unfold_locales

lemma pool_safe_new: "array_queue_ok Q \<Longrightarrow> pool_safe Q buffers (new_world Q buffers)"
  by (simp add: pool_safe_def pool_inv_def new_world_def new_pool_def queue_new Let_def)

lemma pool_safe_steps:
  assumes "array_queue_ok Q" "steps (pool_step Q) (new_world Q buffers) ls w"
  shows "pool_safe Q buffers w"
  using byte_queue.pool_safe_run [OF byte_queue.intro [OF array_queue.intro]]
    assms pool_safe_new by blast

text \<open>The functions of the pool are runs of its atomic steps.\<close>

lemma try_acquire_steps:
  assumes "try_acquire Q fresh (pw_pool w) = (r, po)"
  obtains (got) p l where "r = Some p" "pool_step Q w l (w\<lparr>pw_pool := po, pw_held := pw_held w + 1\<rparr>)"
  | (none) "r = None" "po = pw_pool w"
proof -
  consider (pop) storage where "pool_pop Q (pw_pool w) = Some (storage, po)" "r = Some (new_packet storage)"
    | (fresh) "pool_reserve (pw_pool w) = Some po" "r = Some (new_packet fresh)"
    | (empty) "r = None" "po = pw_pool w"
    using assms by (auto simp: try_acquire_def split: option.splits)
  then show ?thesis
  proof cases
    case pop
    then show ?thesis using step_pop got by blast
  next
    case fresh
    then show ?thesis using step_reserve got by blast
  qed (rule none)
qed

lemma release_steps:
  assumes "0 < pw_held w" "pw_doomed w = 0" "release Q storage (pw_pool w) = po"
  shows "\<exists>ls. steps (pool_step Q) w ls (w\<lparr>pw_pool := po, pw_held := pw_held w - 1\<rparr>)"
proof -
  let ?w = "w\<lparr>pw_held := pw_held w - 1, pw_doomed := pw_doomed w + 1\<rparr>"
  consider (kept) po' where "length storage = PACKET_CAPACITY" "pool_push Q storage (pw_pool w) = Some po'" "po = po'"
    | (gone) "length storage \<noteq> PACKET_CAPACITY \<or> pool_push Q storage (pw_pool w) = None"
        "po = pool_forget (pw_pool w)"
    using assms(3) by (auto simp: release_def split: if_splits option.splits)
  then show ?thesis
  proof cases
    case kept
    have "pool_step Q w (L_push storage) (w\<lparr>pw_pool := po, pw_held := pw_held w - 1\<rparr>)"
      unfolding kept(3) by (rule step_push [OF assms(1) kept(1,2)])
    then show ?thesis by (meson steps.intros)
  next
    case gone
    have "pool_step Q w (L_reject storage) ?w"
      using assms(1) gone(1) by (rule step_reject)
    moreover have "pool_step Q ?w L_forget (?w\<lparr>pw_pool := pool_forget (pw_pool ?w), pw_doomed := pw_doomed ?w - 1\<rparr>)"
      by (rule step_forget) simp
    moreover have "?w\<lparr>pw_pool := pool_forget (pw_pool ?w), pw_doomed := pw_doomed ?w - 1\<rparr>
        = w\<lparr>pw_pool := po, pw_held := pw_held w - 1\<rparr>"
      using gone(2) by simp
    ultimately show ?thesis by (metis steps.intros)
  qed
qed

section \<open>Properties\<close>

text \<open>
  C8: The pool never over-commits. Under every interleaving of the threads' atomic steps, from a
  new pool on, the counter is the number of storages that are queued, held or about to be given
  up; at most \<open>max(buffers, 1)\<close> exist, at most 2048 are retained, and every retained one has
  the full capacity.
\<close>

theorem pool_never_overcommits:
  assumes "array_queue_ok Q" "steps (pool_step Q) (new_world Q buffers) ls w"
  shows "po_allocated (pw_pool w) = length (q_items Q (po_queue (pw_pool w))) + pw_held w + pw_doomed w
    \<and> pw_held w \<le> max buffers 1
    \<and> po_allocated (pw_pool w) \<le> max buffers 1
    \<and> length (q_items Q (po_queue (pw_pool w))) \<le> PACKET_POOL_RETAINED_MAX
    \<and> (\<forall>s\<in>set (q_items Q (po_queue (pw_pool w))). length s = PACKET_CAPACITY)"
  using pool_safe_steps [OF assms] unfolding pool_safe_def pool_inv_def by auto

lemma pool_never_overcommits_witness:
  "\<exists>w. steps (pool_step list_queue) (new_world list_queue 1)
         [L_reserve, L_push (replicate 2304 0), L_pop] w
     \<and> pw_held w = 1 \<and> pw_held w \<le> max 1 1"
proof -
  let ?w0 = "new_world list_queue 1 :: (nat \<times> bytes list) pool_world"
  let ?s = "replicate 2304 (0 :: u8)"
  define mk where "mk q a h = \<lparr>pw_pool = \<lparr>po_queue = (1 :: nat, q), po_allocated = a, po_limit = 1\<rparr>,
    pw_held = h, pw_doomed = 0\<rparr>" for q :: "bytes list" and a h
  have w0: "?w0 = mk [] 0 0"
    by (simp add: mk_def new_world_def new_pool_def list_queue_def PACKET_POOL_RETAINED_MAX_def)
  have 1: "pool_step list_queue (mk [] 0 0) L_reserve (mk [] 1 1)"
    using step_reserve [of "mk [] 0 0" "pw_pool (mk [] 1 1)" list_queue]
    by (simp add: mk_def pool_reserve_def)
  have 2: "pool_step list_queue (mk [] 1 1) (L_push ?s) (mk [?s] 1 0)"
    using step_push [of "mk [] 1 1" ?s list_queue "pw_pool (mk [?s] 1 0)"]
    by (simp add: mk_def pool_push_def list_queue_def PACKET_CAPACITY_def)
  have 3: "pool_step list_queue (mk [?s] 1 0) L_pop (mk [] 1 1)"
    using step_pop [of list_queue "mk [?s] 1 0" ?s "pw_pool (mk [] 1 1)"]
    by (simp add: mk_def pool_pop_def list_queue_def)
  have run: "steps (pool_step list_queue) ?w0 [L_reserve, L_push ?s, L_pop] (mk [] 1 1)"
    unfolding w0 using 1 2 3 by (meson steps.intros)
  have "pw_held (mk [] 1 1) \<le> max 1 1"
    using pool_never_overcommits [OF list_queue_ok run] by blast
  with run show ?thesis by (intro exI [of _ "mk [] 1 1"]) (simp add: mk_def)
qed

text \<open>
  A duplicate carries the same bytes in a buffer of its own: \<open>try_duplicate\<close> of a
  well-formed packet yields a well-formed packet with the same slice, or nothing.
\<close>

theorem duplicate_same_bytes:
  assumes "array_queue_ok Q" "wf_packet p" "length fresh = PACKET_CAPACITY"
    and "\<forall>s\<in>set (q_items Q (po_queue po)). length s = PACKET_CAPACITY"
    and "try_duplicate Q fresh p po = (Some copy, po')"
  shows "wf_packet copy \<and> pb_slice copy = pb_slice p"
proof -
  have new: "wf_packet (new_packet s)" if "length s = PACKET_CAPACITY" for s
    using that by (simp add: wf_packet_def new_packet_def PACKET_CAPACITY_def PACKET_HEADROOM_def)
  obtain c0 po1 where acq: "try_acquire Q fresh po = (Some c0, po1)"
    using assms(5) by (cases "try_acquire Q fresh po") (auto simp: try_duplicate_def Let_def split: option.splits)
  have "wf_packet c0"
  proof (cases "pool_pop Q po")
    case None
    then show ?thesis using acq assms(3) new
      by (auto simp: try_acquire_def split: option.splits)
  next
    case (Some r)
    then obtain s q where "q_pop Q (po_queue po) = Some (s, q)" "c0 = new_packet s"
      using acq by (auto simp: try_acquire_def pool_pop_def split: option.splits)
    then show ?thesis
      using queue_pop_Some [OF assms(1)] assms(4) new by (metis list.set_intros(1))
  qed
  moreover have len: "length (pb_slice p) \<le> read_area_len"
    "set_read_len (length (pb_slice p)) (write_read_area (pb_slice p) c0) = Inr copy"
    using assms(5) acq by (auto simp: try_duplicate_def Let_def split: if_splits sum.splits)
  ultimately show ?thesis
    using read_slice [OF _ len] wf_packet_ops(1) [OF _ len(2)] wf_packet_ops(7) [OF _ len(1)] by blast
qed

lemma duplicate_same_bytes_witness:
  "\<exists>copy po'. try_duplicate list_queue (replicate 2304 0)
       \<lparr>pb_storage = replicate 2304 7, pb_start = 64, pb_end = 66\<rparr> (new_pool list_queue 1) = (Some copy, po')
     \<and> pb_slice copy = [7, 7]"
proof -
  let ?p = "\<lparr>pb_storage = replicate 2304 7, pb_start = 64, pb_end = 66\<rparr>"
  have slice: "pb_slice ?p = [7, 7]" by (simp add: pb_slice_def sub_def numeral_eq_Suc)
  obtain copy po' where d: "try_duplicate list_queue (replicate 2304 0) ?p (new_pool list_queue 1) = (Some copy, po')"
    using slice by (simp add: try_duplicate_def try_acquire_def pool_pop_def pool_reserve_def new_pool_def
        list_queue_def read_area_len_def set_read_len_def PACKET_CAPACITY_def PACKET_HEADROOM_def Let_def)
  have "wf_packet copy \<and> pb_slice copy = pb_slice ?p"
    by (rule duplicate_same_bytes [OF list_queue_ok _ _ _ d])
      (simp_all add: wf_packet_def PACKET_CAPACITY_def new_pool_def list_queue_def Let_def)
  with d slice show ?thesis by auto
qed

end
