(* ===== verification/Obfs.thy ===== *)
theory Obfs
  imports Packet_Buf
begin

unbundle bit_operations_syntax

text \<open>
  The RTP disguise of \<open>obfs.rs\<close>: \<open>wrap\<close> turns a payload into an RTP packet with a
  24-byte header, encrypted and authenticated in SRTP style (video) or with ChaCha20-Poly1305
  (audio), \<open>unwrap\<close> undoes it. The ciphers, the MAC and the random generator are third-party
  code: the records \<open>obfs_cipher\<close> and \<open>rng_ops\<close> of operations, with their documented
  laws \<open>cipher_ok\<close> and \<open>rng_ok\<close>. \<open>unwrap\<close> reads untrusted bytes, so its model
  keeps every bound check: the outer \<open>None\<close> is a panic.
\<close>

section \<open>Configuration and state\<close>

datatype obfs_mode = Audio | Video

definition parse_mode :: "string \<Rightarrow> obfs_mode option" where
  "parse_mode value =
     (if value = ''audio'' then Some Audio else if value = ''video'' then Some Video else None)"

record obfs_config =
  oc_padding_max :: nat
  oc_ssrc :: u32
  oc_payload_type :: u8
  oc_mode :: obfs_mode

definition new_config :: "obfs_mode \<Rightarrow> u32 \<Rightarrow> obfs_config" where
  "new_config mode ssrc =
     (let (payload_type, padding_max) = (case mode of Audio \<Rightarrow> (111, 24) | Video \<Rightarrow> (96, 60))
      in \<lparr>oc_padding_max = padding_max, oc_ssrc = ssrc, oc_payload_type = payload_type, oc_mode = mode\<rparr>)"

record 'r rng_ops =
  rg_u32 :: "'r \<Rightarrow> u32 \<times> 'r"
  rg_range :: "nat \<Rightarrow> 'r \<Rightarrow> nat \<times> 'r"
  rg_fill :: "nat \<Rightarrow> 'r \<Rightarrow> bytes \<times> 'r"

definition rng_ok :: "'r rng_ops \<Rightarrow> bool" where
  "rng_ok R \<longleftrightarrow> (\<forall>n r. 0 < n \<longrightarrow> fst (rg_range R n r) < n) \<and> (\<forall>n r. length (fst (rg_fill R n r)) = n)"

record 'r obfs_state =
  os_count :: u64
  os_initial_timestamp :: u32
  os_initial_abs_send_time :: u32
  os_initial_sequence :: u16
  os_transport_sequence :: u16
  os_started :: instant
  os_rng :: 'r

definition new_obfs_state :: "'r rng_ops \<Rightarrow> u64 \<Rightarrow> instant \<Rightarrow> 'r \<Rightarrow> 'r obfs_state" where
  "new_obfs_state R wall_ms now rng =
     (let (timestamp, rng) = rg_u32 R rng;
          (seq, rng) = rg_u32 R rng;
          (tseq, rng) = rg_u32 R rng
      in \<lparr>os_count = 0, os_initial_timestamp = timestamp,
          os_initial_abs_send_time = ucast ((wall_ms * 262144) div 1000) AND 0x00ffffff,
          os_initial_sequence = ucast seq, os_transport_sequence = ucast tseq,
          os_started = now, os_rng = rng\<rparr>)"

definition next_count :: "'r obfs_state \<Rightarrow> (u64 \<times> u16) \<times> 'r obfs_state" where
  "next_count st =
     ((os_count st, os_transport_sequence st),
      st\<lparr>os_count := os_count st + 1, os_transport_sequence := os_transport_sequence st + 1\<rparr>)"

definition rtp_clock_rate :: "u8 \<Rightarrow> nat" where
  "rtp_clock_rate payload_type = (if payload_type = 96 then 90000 else 48000)"

text \<open>
  The sum is taken modulo \<open>2 ^ 64\<close> and cut to 32 bits, which is the natural number modulo
  \<open>2 ^ 32\<close>.
\<close>

definition duration_ticks :: "duration \<Rightarrow> nat \<Rightarrow> u32" where
  "duration_ticks elapsed rate =
     word_of_nat (elapsed div 1000000000 * rate + elapsed mod 1000000000 * rate div 1000000000)"

definition initial_sequence :: "'r obfs_state \<Rightarrow> u64 \<Rightarrow> u16" where
  "initial_sequence st n = os_initial_sequence st + ucast n"

definition rtp_nonce :: "u32 \<Rightarrow> u16 \<Rightarrow> u32 \<Rightarrow> bytes" where
  "rtp_nonce ssrc seq timestamp =
     (let value = replicate 12 0;
          value = put 0 (to_be32 ssrc) value;
          value = put 4 (to_be16 seq) value
      in put 8 (to_be32 timestamp) value)"

definition srtp_iv :: "u32 \<Rightarrow> u16 \<Rightarrow> u32 \<Rightarrow> bytes" where
  "srtp_iv ssrc seq timestamp =
     (let value = replicate 16 0;
          value = put 0 (to_be32 ssrc) value;
          value = put 4 (to_be16 seq) value
      in put 8 (to_be32 timestamp) value)"

definition is_rtp_packet :: "bytes \<Rightarrow> bool" where
  "is_rtp_packet wire \<longleftrightarrow>
     13 \<le> length wire \<and> drop_bit 6 (wire ! 0) = 2 \<and> (wire ! 1) AND 0x7f \<in> {111, 96, 6}"

section \<open>Ciphers\<close>

record obfs_cipher =
  ci_ctr :: "bytes \<Rightarrow> bytes \<Rightarrow> bytes"
  ci_mac :: "bytes \<Rightarrow> bytes"
  ci_seal :: "bytes \<Rightarrow> bytes \<Rightarrow> bytes \<Rightarrow> (bytes \<times> bytes) option"
  ci_open :: "bytes \<Rightarrow> bytes \<Rightarrow> bytes \<Rightarrow> bytes \<Rightarrow> bytes option"

definition cipher_ok :: "obfs_cipher \<Rightarrow> bool" where
  "cipher_ok C \<longleftrightarrow>
     (\<forall>iv m. length (ci_ctr C iv m) = length m \<and> ci_ctr C iv (ci_ctr C iv m) = m)
     \<and> (\<forall>m. length (ci_mac C m) = 20)
     \<and> (\<forall>n a m c t. ci_seal C n a m = Some (c, t) \<longrightarrow>
          length c = length m \<and> length t = 16 \<and> ci_open C n a t c = Some m)
     \<and> (\<forall>n a t c m. ci_open C n a t c = Some m \<longrightarrow> length m = length c)"

datatype obfs_error =
    Empty_payload
  | Exceeds_buffer
  | Packet_error packet_error
  | Encrypt_failed
  | Not_rtp
  | Unsupported_payload_type
  | Too_short_extension
  | Too_short_header
  | Missing_tag
  | Auth_failed
  | Invalid_padding
  | Expected_audio
  | Empty_encrypted

section \<open>Wrapping\<close>

definition rtp_header :: "u8 \<Rightarrow> u16 \<Rightarrow> u32 \<Rightarrow> u32 \<Rightarrow> u32 \<Rightarrow> u16 \<Rightarrow> bytes" where
  "rtp_header second seq timestamp ssrc abs_time tseq =
     (let header = replicate 24 0;
          header = header[0 := 0xb0 OR 0x20];
          header = header[1 := second];
          header = put 2 (to_be16 seq) header;
          header = put 4 (to_be32 timestamp) header;
          header = put 8 (to_be32 ssrc) header;
          header = put 12 (to_be16 0xbede) header;
          header = put 14 (to_be16 2) header;
          header = header[16 := 0x32];
          header = header[17 := ucast (drop_bit 16 abs_time)];
          header = header[18 := ucast (drop_bit 8 abs_time)];
          header = header[19 := ucast abs_time];
          header = header[20 := 0x51]
      in put 21 (to_be16 tseq) header)"

text \<open>
  The two bodies work in place on the storage; \<open>s\<close> is the start of the header,
  \<open>padding\<close> the random bytes, which one length byte follows.
\<close>

definition seal_video :: "obfs_cipher \<Rightarrow> bytes \<Rightarrow> bytes \<Rightarrow> nat \<Rightarrow> nat \<Rightarrow> bytes \<Rightarrow> bytes" where
  "seal_video C iv padding s payload_len storage =
     (let payload_start = s + 24;
          payload_end = payload_start + payload_len;
          padding_total = length padding + 1;
          storage = put payload_start (ci_ctr C iv (sub storage payload_start payload_end)) storage;
          storage = put payload_end padding storage;
          storage = put (payload_end + padding_total - 1) [word_of_nat padding_total] storage;
          tag_start = payload_end + padding_total;
          tag = ci_mac C (sub storage s tag_start)
      in put tag_start (take 10 tag) storage)"

definition seal_audio :: "obfs_cipher \<Rightarrow> bytes \<Rightarrow> bytes \<Rightarrow> nat \<Rightarrow> nat \<Rightarrow> bytes \<Rightarrow> bytes option" where
  "seal_audio C nonce padding s payload_len storage =
     (let payload_start = s + 24;
          payload_end = payload_start + payload_len;
          padding_total = length padding + 1
      in case ci_seal C nonce (sub storage s payload_start) (sub storage payload_start payload_end) of
           None \<Rightarrow> None
         | Some (ciphertext, tag) \<Rightarrow>
             let storage = put payload_start ciphertext storage;
                 storage = put payload_end tag storage;
                 padding_start = payload_end + 16;
                 storage = put padding_start padding storage
             in Some (put (padding_start + padding_total - 1) [word_of_nat padding_total] storage))"

text \<open>From the header on: the checks are done, the counters taken.\<close>

definition wrap_body ::
  "'r rng_ops \<Rightarrow> obfs_cipher \<Rightarrow> obfs_config \<Rightarrow> u16 \<Rightarrow> u32 \<Rightarrow> u32 \<Rightarrow> u16 \<Rightarrow> nat \<Rightarrow>
   packet_buf \<Rightarrow> 'r obfs_state \<Rightarrow> (obfs_error + packet_buf) \<times> 'r obfs_state" where
  "wrap_body R C config seq timestamp abs_time tseq padding_random p st =
     (case prepend 24 p of
        Inl e \<Rightarrow> (Inl (Packet_error e), st)
      | Inr q \<Rightarrow>
          let payload_len = pb_len p;
              padding_total = padding_random + 1;
              (draw, rng) = (if oc_payload_type config = 96 then rg_range R 5 (os_rng st) else (1, os_rng st));
              second = (oc_payload_type config AND 0x7f) OR (if draw = 0 then 0x80 else 0);
              q = q\<lparr>pb_storage := put (pb_start q)
                     (rtp_header second seq timestamp (oc_ssrc config) abs_time tseq) (pb_storage q)\<rparr>;
              tail = (if oc_mode config = Video then padding_total + 10 else 16 + padding_total)
          in (case extend_tail tail q of
                Inl e \<Rightarrow> (Inl (Packet_error e), st\<lparr>os_rng := rng\<rparr>)
              | Inr q \<Rightarrow>
                  let (padding, rng) = (if 0 < padding_random then rg_fill R padding_random rng else ([], rng));
                      st = st\<lparr>os_rng := rng\<rparr>
                  in if oc_mode config = Video then
                       (Inr (q\<lparr>pb_storage :=
                          seal_video C (srtp_iv (oc_ssrc config) seq timestamp) padding
                            (pb_start q) payload_len (pb_storage q)\<rparr>), st)
                     else
                       (case seal_audio C (rtp_nonce (oc_ssrc config) seq timestamp) padding
                               (pb_start q) payload_len (pb_storage q) of
                          None \<Rightarrow> (Inl Encrypt_failed, st)
                        | Some storage \<Rightarrow> (Inr (q\<lparr>pb_storage := storage\<rparr>), st))))"

definition wrap ::
  "'r rng_ops \<Rightarrow> obfs_cipher \<Rightarrow> packet_buf \<Rightarrow> obfs_config \<Rightarrow> instant \<Rightarrow> 'r obfs_state \<Rightarrow>
   (obfs_error + packet_buf) \<times> 'r obfs_state" where
  "wrap R C p config now st =
     (if pb_is_empty p then (Inl Empty_payload, st)
      else
        let ((n, tseq), st) = next_count st;
            seq = initial_sequence st n;
            elapsed = now - os_started st;
            timestamp = os_initial_timestamp st + duration_ticks elapsed (rtp_clock_rate (oc_payload_type config));
            (padding_random, rng) =
              (if oc_padding_max config = 0 then (0, os_rng st)
               else rg_range R (oc_padding_max config) (os_rng st));
            st = st\<lparr>os_rng := rng\<rparr>;
            padding_total = padding_random + 1;
            tail = (if oc_mode config = Video then padding_total + 10 else padding_total + 16)
        in if pb_start p < 24 \<or> pb_end p + tail > PACKET_CAPACITY then (Inl Exceeds_buffer, st)
           else
             let abs_time = (os_initial_abs_send_time st + duration_ticks elapsed 262144) AND 0x00ffffff
             in wrap_body R C config seq timestamp abs_time tseq padding_random p st)"

section \<open>Unwrapping\<close>

text \<open>\<open>unwrap_padding\<close> is the padding arithmetic both modes repeat: the new end of the payload.\<close>

definition unwrap_padding :: "bytes \<Rightarrow> nat \<Rightarrow> nat \<Rightarrow> nat \<Rightarrow> (obfs_error + nat) option" where
  "unwrap_padding storage s header_len payload_end = do {
     b0 \<leftarrow> idx storage s;
     if b0 AND 0x20 \<noteq> 0 then do {
       last \<leftarrow> usub payload_end 1;
       b \<leftarrow> idx storage last;
       let padding = unat b;
       body \<leftarrow> usub payload_end s;
       room \<leftarrow> usub body header_len;
       if padding = 0 \<or> padding > room then Some (Inl Invalid_padding)
       else do {
         e \<leftarrow> usub payload_end padding;
         Some (Inr e)
       }
     } else Some (Inr payload_end)
   }"

definition unwrap_video ::
  "obfs_cipher \<Rightarrow> u16 \<Rightarrow> u32 \<Rightarrow> u32 \<Rightarrow> nat \<Rightarrow> packet_buf \<Rightarrow> (obfs_error + u16 \<times> packet_buf) option" where
  "unwrap_video C seq timestamp ssrc header_len p =
     (let s = pb_start p; storage = pb_storage p in
      if pb_len p < header_len + 10 then Some (Inl Missing_tag)
      else do {
        tag_start \<leftarrow> usub (pb_end p) 10;
        body \<leftarrow> slice storage s tag_start;
        tag \<leftarrow> slice storage tag_start (pb_end p);
        if take 10 (ci_mac C body) \<noteq> tag then Some (Inl Auth_failed)
        else do {
          r \<leftarrow> unwrap_padding storage s header_len tag_start;
          case r of
            Inl e \<Rightarrow> Some (Inl e)
          | Inr payload_end \<Rightarrow> do {
              let payload_start = s + header_len;
              m \<leftarrow> slice storage payload_start payload_end;
              let p = p\<lparr>pb_storage := put payload_start (ci_ctr C (srtp_iv ssrc seq timestamp) m) storage\<rparr>;
              Some (case set_range payload_start payload_end p of
                      Inl e \<Rightarrow> Inl (Packet_error e)
                    | Inr p \<Rightarrow> Inr (seq, p))
            }
        }
      })"

definition unwrap_audio ::
  "obfs_cipher \<Rightarrow> u8 \<Rightarrow> u16 \<Rightarrow> u32 \<Rightarrow> u32 \<Rightarrow> nat \<Rightarrow> packet_buf \<Rightarrow> (obfs_error + u16 \<times> packet_buf) option" where
  "unwrap_audio C payload_type seq timestamp ssrc header_len p =
     (let s = pb_start p; storage = pb_storage p in
      if payload_type \<noteq> 111 then Some (Inl Expected_audio)
      else do {
        r \<leftarrow> unwrap_padding storage s header_len (pb_end p);
        case r of
          Inl e \<Rightarrow> Some (Inl e)
        | Inr payload_end \<Rightarrow> do {
            let payload_start = s + header_len;
            if payload_end \<le> payload_start + 16 then Some (Inl Empty_encrypted)
            else do {
              tag_start \<leftarrow> usub payload_end 16;
              tag \<leftarrow> slice storage tag_start payload_end;
              aad \<leftarrow> slice storage s payload_start;
              ciphertext \<leftarrow> slice storage payload_start tag_start;
              Some (case ci_open C (rtp_nonce ssrc seq timestamp) aad tag ciphertext of
                      None \<Rightarrow> Inl Auth_failed
                    | Some m \<Rightarrow>
                        (case set_range payload_start tag_start
                                (p\<lparr>pb_storage := put payload_start m storage\<rparr>) of
                           Inl e \<Rightarrow> Inl (Packet_error e)
                         | Inr p \<Rightarrow> Inr (seq, p)))
            }
          }
      })"

definition unwrap :: "obfs_cipher \<Rightarrow> packet_buf \<Rightarrow> obfs_mode \<Rightarrow> (obfs_error + u16 \<times> packet_buf) option" where
  "unwrap C p mode =
     (let wire = pb_slice p in
      if length wire < 13 then Some (Inl Not_rtp)
      else do {
        b0 \<leftarrow> idx wire 0;
        if drop_bit 6 b0 \<noteq> 2 then Some (Inl Not_rtp)
        else do {
          b1 \<leftarrow> idx wire 1;
          let payload_type = b1 AND 0x7f;
          if payload_type \<notin> {111, 96, 6} then Some (Inl Unsupported_payload_type)
          else do {
            seq \<leftarrow> map_option from_be16 (slice wire 2 4);
            timestamp \<leftarrow> map_option from_be32 (slice wire 4 8);
            ssrc \<leftarrow> map_option from_be32 (slice wire 8 12);
            if b0 AND 0x10 \<noteq> 0 \<and> length wire < 16 then Some (Inl Too_short_extension)
            else do {
              header_len \<leftarrow>
                (if b0 AND 0x10 \<noteq> 0
                 then map_option (\<lambda>bs. 12 + (4 + unat (from_be16 bs) * 4)) (slice wire 14 16)
                 else Some 12);
              if length wire < header_len then Some (Inl Too_short_header)
              else if mode = Video then unwrap_video C seq timestamp ssrc header_len p
              else unwrap_audio C payload_type seq timestamp ssrc header_len p
            }
          }
        }
      })"

section \<open>What the header carries\<close>

lemma rtp_header_bytes:
  "rtp_header second seq timestamp ssrc abs_time tseq =
     [0xb0, second] @ to_be16 seq @ to_be32 timestamp @ to_be32 ssrc @ [0xbe, 0xde] @ [0, 2]
     @ [0x32, ucast (drop_bit 16 abs_time), ucast (drop_bit 8 abs_time), ucast abs_time, 0x51]
     @ to_be16 tseq @ [0]"
proof -
  obtain a b where 1: "to_be16 seq = [a, b]" using length_2 length_to_be by metis
  obtain c d where 2: "to_be16 tseq = [c, d]" using length_2 length_to_be by metis
  obtain e f g h where 3: "to_be32 timestamp = [e, f, g, h]" using length_4 length_to_be by metis
  obtain i j k l where 4: "to_be32 ssrc = [i, j, k, l]" using length_4 length_to_be by metis
  have 5: "to_be16 0xbede = [0xbe, 0xde]" "to_be16 2 = [0, 2]"
    by (simp_all add: to_be16_def be_of_nat_2)
  show ?thesis
    unfolding rtp_header_def 1 2 3 4 5 Let_def
    by (simp add: put_def numeral_eq_Suc)
qed

lemma length_rtp_header [simp]:
  "length (rtp_header second seq timestamp ssrc abs_time tseq) = 24"
  by (simp add: rtp_header_bytes)

lemma unwrap_header:
  assumes wire: "pb_slice p = rtp_header second seq timestamp ssrc abs_time tseq @ rest"
    and pt: "second AND 0x7f \<in> {111, 96, 6}"
  shows "unwrap C p mode =
    (if mode = Video then unwrap_video C seq timestamp ssrc 24 p
     else unwrap_audio C (second AND 0x7f) seq timestamp ssrc 24 p)"
proof -
  let ?w = "pb_slice p"
  have len: "24 \<le> length ?w" unfolding wire by simp
  then have ne: "?w \<noteq> []" by auto
  have i: "?w ! 0 = 0xb0" "?w ! 1 = second"
    unfolding wire rtp_header_bytes by simp_all
  have s: "sub ?w 2 4 = to_be16 seq" "sub ?w 4 8 = to_be32 timestamp" "sub ?w 8 12 = to_be32 ssrc"
    "sub ?w 14 16 = [0, 2]"
    unfolding wire rtp_header_bytes by (simp_all add: sub_def)
  have two: "unat (from_be16 [0, 2]) = 2"
    by (simp add: from_be16_def nat_of_be_def)
  show ?thesis
    using len pt ne unfolding unwrap_def Let_def
    by (auto simp: i i(2) [unfolded One_nat_def] s two)
qed

section \<open>Round trip\<close>

lemma seal_video_bytes:
  fixes iv P :: bytes
  assumes ok: "cipher_ok C" and H: "length H = 24" and T: "length T = length padding + 11"
  defines "W \<equiv> H @ ci_ctr C iv P @ padding @ [word_of_nat (length padding + 1)]"
  shows "seal_video C iv padding (length A) (length P) (A @ H @ P @ T @ B)
    = A @ (W @ take 10 (ci_mac C W)) @ B"
proof -
  have ctr: "length (ci_ctr C iv P) = length P" and mac: "length (take 10 (ci_mac C W)) = 10"
    using ok by (auto simp: cipher_ok_def)
  obtain T1 x T2 where T': "T = T1 @ [x] @ T2" "length T1 = length padding" "length T2 = 10"
  proof
    show "T = take (length padding) T @ [T ! length padding] @ drop (Suc (length padding)) T"
      using T by (simp add: Cons_nth_drop_Suc)
  qed (use T in auto)
  let ?ps = "length A + 24" and ?pe = "length A + 24 + length P"
  have "sub (A @ H @ P @ T @ B) ?ps ?pe = P"
    using sub_append [of ?ps "A @ H" ?pe P "T @ B"] H by simp
  moreover have "put ?ps (ci_ctr C iv P) (A @ H @ P @ T @ B) = A @ H @ ci_ctr C iv P @ T @ B"
    using put_append [of ?ps "A @ H" P "ci_ctr C iv P" "T @ B"] H ctr by simp
  moreover have "put ?pe padding (A @ H @ ci_ctr C iv P @ T @ B)
      = A @ H @ ci_ctr C iv P @ padding @ [x] @ T2 @ B"
    using put_append [of ?pe "A @ H @ ci_ctr C iv P" T1 padding "[x] @ T2 @ B"] H T' ctr by simp
  moreover have "put (?pe + (length padding + 1) - 1) [word_of_nat (length padding + 1)]
      (A @ H @ ci_ctr C iv P @ padding @ [x] @ T2 @ B) = A @ W @ T2 @ B"
    using put_append [of "?pe + length padding" "A @ H @ ci_ctr C iv P @ padding" "[x]"
        "[word_of_nat (length padding + 1)]" "T2 @ B"] H ctr by (simp add: W_def add_ac)
  moreover have "sub (A @ W @ T2 @ B) (length A) (?pe + (length padding + 1)) = W"
    using H ctr by (intro sub_append) (auto simp: W_def)
  moreover have "put (?pe + (length padding + 1)) (take 10 (ci_mac C W)) (A @ W @ T2 @ B)
      = A @ (W @ take 10 (ci_mac C W)) @ B"
    using put_append [of "?pe + (length padding + 1)" "A @ W" T2 "take 10 (ci_mac C W)" B] H T' ctr mac
    by (simp add: W_def)
  ultimately show ?thesis unfolding seal_video_def Let_def by simp
qed

lemma seal_audio_bytes:
  assumes ok: "cipher_ok C" and H: "length H = 24" and T: "length T = length padding + 17"
    and seal: "seal_audio C nonce padding (length A) (length P) (A @ H @ P @ T @ B) = Some storage"
  obtains c tag where "ci_seal C nonce H P = Some (c, tag)"
    "storage = A @ (H @ c @ tag @ padding @ [word_of_nat (length padding + 1)]) @ B"
proof -
  let ?ps = "length A + 24" and ?pe = "length A + 24 + length P"
  have s: "sub (A @ H @ P @ T @ B) (length A) ?ps = H" "sub (A @ H @ P @ T @ B) ?ps ?pe = P"
    using sub_append [of ?ps "A @ H" ?pe P "T @ B"] H by (auto intro: sub_append)
  obtain c tag where ct: "ci_seal C nonce H P = Some (c, tag)"
    using seal by (cases "ci_seal C nonce H P") (auto simp: seal_audio_def s Let_def)
  have len: "length c = length P" "length tag = 16"
    using ok ct unfolding cipher_ok_def by blast+
  obtain T0 T1 x where T': "T = T0 @ T1 @ [x]" "length T0 = 16" "length T1 = length padding"
  proof
    have "drop 16 T \<noteq> []" using T by simp
    then show "T = take 16 T @ butlast (drop 16 T) @ [last (drop 16 T)]"
      by (metis append_take_drop_id append_butlast_last_id)
  qed (use T in auto)
  let ?n = "[word_of_nat (length padding + 1)] :: bytes"
  have "put ?ps c (A @ H @ P @ T @ B) = A @ H @ c @ T0 @ T1 @ [x] @ B"
    using put_append [of ?ps "A @ H" P c "T @ B"] H len T' by simp
  moreover have "put ?pe tag (A @ H @ c @ T0 @ T1 @ [x] @ B) = A @ H @ c @ tag @ T1 @ [x] @ B"
    using put_append [of ?pe "A @ H @ c" T0 tag "T1 @ [x] @ B"] H len T' by simp
  moreover have "put (?pe + 16) padding (A @ H @ c @ tag @ T1 @ [x] @ B)
      = A @ H @ c @ tag @ padding @ [x] @ B"
    using put_append [of "?pe + 16" "A @ H @ c @ tag" T1 padding "[x] @ B"] H len T' by simp
  moreover have "put (?pe + 16 + (length padding + 1) - 1) ?n (A @ H @ c @ tag @ padding @ [x] @ B)
      = A @ (H @ c @ tag @ padding @ ?n) @ B"
    using put_append [of "?pe + 16 + length padding" "A @ H @ c @ tag @ padding" "[x]" ?n B] H len by (simp add: add_ac)
  ultimately have "storage = A @ (H @ c @ tag @ padding @ ?n) @ B"
    using seal unfolding seal_audio_def Let_def s ct by simp
  with ct show ?thesis by (rule that)
qed

lemma padding_byte: "n < 255 \<Longrightarrow> unat (word_of_nat (n + 1) :: u8) = n + 1"
  by (simp add: unat_of_nat del: of_nat_add of_nat_Suc)

text \<open>The padding of a body \<open>H @ X @ padding @ [n]\<close> comes off again.\<close>

lemma unwrap_padding_at:
  assumes H: "H \<noteq> []" "H ! 0 AND 0x20 \<noteq> 0" and n: "unat n = length padding + 1"
  shows "unwrap_padding (A @ (H @ X @ padding @ [n]) @ Z) (length A) (length H)
      (length A + length H + length X + length padding + 1)
    = Some (Inr (length A + length H + length X))"
proof -
  let ?S = "A @ (H @ X @ padding @ [n]) @ Z"
  let ?e = "length A + length H + length X + length padding + 1"
  have b0: "idx ?S (length A) = Some (H ! 0)"
    using H(1) by (simp add: idx_def nth_append)
  have b1: "idx ?S (?e - 1) = Some n"
  proof -
    have "?S = (A @ H @ X @ padding) @ [n] @ Z" by simp
    moreover have "(xs @ [n] @ Z) ! length xs = n" for xs by (simp add: nth_append)
    moreover have "?e - 1 = length (A @ H @ X @ padding)" by simp
    ultimately have "?S ! (?e - 1) = n" by metis
    then show ?thesis by (simp add: idx_def)
  qed
  show ?thesis
    unfolding unwrap_padding_def b0
    using H(2) b1 n by (simp add: Let_def)
qed

lemma unwrap_video_bytes:
  fixes X :: bytes
  assumes ok: "cipher_ok C" and H: "length H = 24" "H ! 0 AND 0x20 \<noteq> 0"
    and pad: "length padding < 255"
  defines "W \<equiv> H @ X @ padding @ [word_of_nat (length padding + 1)]"
  assumes p: "pb_storage p = A @ (W @ take 10 (ci_mac C W)) @ B" "pb_start p = length A"
    "pb_end p = length A + length W + 10" "length (pb_storage p) = PACKET_CAPACITY"
  shows "\<exists>r. unwrap_video C seq timestamp ssrc 24 p = Some (Inr (seq, r)) \<and> wf_packet r
    \<and> pb_slice r = ci_ctr C (srtp_iv ssrc seq timestamp) X"
proof -
  have mac: "length (take 10 (ci_mac C W)) = 10" and ctr: "\<And>iv. length (ci_ctr C iv X) = length X"
    using ok by (auto simp: cipher_ok_def)
  let ?S = "pb_storage p" and ?s = "length A" and ?t = "length A + length W"
  have W: "length W = 24 + length X + length padding + 1" using H by (simp add: W_def)
  have len: "?t + 10 \<le> length ?S" using mac unfolding p(1) by simp
  have body: "slice ?S ?s ?t = Some W"
    using len unfolding p(1) by (simp add: slice_def) (auto intro!: sub_append)
  have tag: "slice ?S ?t (?t + 10) = Some (take 10 (ci_mac C W))"
    using len mac sub_append [of ?t "A @ W" "?t + 10" "take 10 (ci_mac C W)" B]
    unfolding p(1) by (simp add: slice_def)
  have ne: "H \<noteq> []" using H(1) by auto
  have n: "unat (word_of_nat (length padding + 1) :: u8) = length padding + 1"
    using pad by (rule padding_byte)
  have padding: "unwrap_padding ?S ?s 24 ?t = Some (Inr (?s + 24 + length X))"
    using unwrap_padding_at [of H "word_of_nat (length padding + 1)" padding A X "take 10 (ci_mac C W) @ B"]
      H n W ne unfolding p(1) by (simp add: W_def add_ac)
  have X: "slice ?S (?s + 24) (?s + 24 + length X) = Some X"
    using H len W sub_append [of "?s + 24" "A @ H" "?s + 24 + length X" X]
    unfolding p(1) by (simp add: slice_def W_def)
  let ?p = "p\<lparr>pb_storage := put (?s + 24) (ci_ctr C (srtp_iv ssrc seq timestamp) X) ?S\<rparr>"
  have range: "?s + 24 + length X \<le> PACKET_CAPACITY" using len W p(4) by simp
  let ?r = "?p\<lparr>pb_start := ?s + 24, pb_end := ?s + 24 + length X\<rparr>"
  have set: "set_range (?s + 24) (?s + 24 + length X) ?p = Inr ?r"
    using range by (simp add: set_range_def)
  have ge: "\<not> pb_len p < 34" using p(2,3) W by (simp add: pb_len_def)
  have "unwrap_video C seq timestamp ssrc 24 p = Some (Inr (seq, ?r))"
    unfolding unwrap_video_def Let_def p(2,3)
    using ge body tag padding X set by (simp add: add_ac)
  moreover have "wf_packet ?r"
    using range p(4) ctr by (simp add: wf_packet_def)
  moreover have "pb_slice ?r = ci_ctr C (srtp_iv ssrc seq timestamp) X"
    using ctr range p(4) sub_put_same [of "?s + 24" "ci_ctr C (srtp_iv ssrc seq timestamp) X" ?S]
    by (simp add: pb_slice_def)
  ultimately show ?thesis by blast
qed

lemma unwrap_audio_bytes:
  assumes ok: "cipher_ok C" and H: "length H = 24" "H ! 0 AND 0x20 \<noteq> 0"
    and pad: "length padding < 255"
    and seal: "ci_seal C (rtp_nonce ssrc seq timestamp) H m = Some (c, tag)" and m: "m \<noteq> []"
  defines "W \<equiv> H @ c @ tag @ padding @ [word_of_nat (length padding + 1)]"
  assumes p: "pb_storage p = A @ W @ B" "pb_start p = length A"
    "pb_end p = length A + length W" "length (pb_storage p) = PACKET_CAPACITY"
  shows "\<exists>r. unwrap_audio C 111 seq timestamp ssrc 24 p = Some (Inr (seq, r)) \<and> wf_packet r
    \<and> pb_slice r = m"
proof -
  have ct: "length c = length m" "length tag = 16"
    "ci_open C (rtp_nonce ssrc seq timestamp) H tag c = Some m"
    using ok seal unfolding cipher_ok_def by blast+
  let ?S = "pb_storage p" and ?s = "length A"
  have W: "length W = 24 + length c + 16 + length padding + 1" using H ct by (simp add: W_def)
  have len: "?s + length W \<le> length ?S" unfolding p(1) by simp
  have ne: "H \<noteq> []" using H(1) by auto
  have n: "unat (word_of_nat (length padding + 1) :: u8) = length padding + 1"
    using pad by (rule padding_byte)
  have padding: "unwrap_padding ?S ?s 24 (?s + length W) = Some (Inr (?s + 24 + length c + 16))"
    using unwrap_padding_at [of H "word_of_nat (length padding + 1)" padding A "c @ tag" B]
      H n W ct ne unfolding p(1) by (simp add: W_def add_ac)
  have aad: "slice ?S ?s (?s + 24) = Some H"
    using H len W unfolding p(1) W_def by (simp add: slice_def) (simp add: sub_def)
  have cs: "slice ?S (?s + 24) (?s + 24 + length c) = Some c"
    using H len W sub_append [of "?s + 24" "A @ H" "?s + 24 + length c" c]
    unfolding p(1) by (simp add: slice_def W_def)
  have tg: "slice ?S (?s + 24 + length c) (?s + 24 + length c + 16) = Some tag"
    using H len W ct sub_append [of "?s + 24 + length c" "A @ H @ c" "?s + 24 + length c + 16" tag]
    unfolding p(1) by (simp add: slice_def W_def)
  let ?p = "p\<lparr>pb_storage := put (?s + 24) m ?S\<rparr>"
  have range: "?s + 24 + length c \<le> PACKET_CAPACITY" using len W p(4) by simp
  let ?r = "?p\<lparr>pb_start := ?s + 24, pb_end := ?s + 24 + length c\<rparr>"
  have set: "set_range (?s + 24) (?s + 24 + length c) ?p = Inr ?r"
    using range by (simp add: set_range_def)
  have "c \<noteq> []" using ct(1) m by auto
  have "unwrap_audio C 111 seq timestamp ssrc 24 p = Some (Inr (seq, ?r))"
    unfolding unwrap_audio_def Let_def p(2,3)
    using padding aad cs tg ct(3) set \<open>c \<noteq> []\<close> by (simp add: add_ac)
  moreover have "wf_packet ?r"
    using range p(4) ct by (simp add: wf_packet_def)
  moreover have "pb_slice ?r = m"
    using ct range p(4) sub_put_same [of "?s + 24" m ?S]
    by (simp add: pb_slice_def)
  ultimately show ?thesis by blast
qed

text \<open>The storage of a packet to wrap, taken apart around its payload.\<close>

lemma packet_parts:
  assumes "wf_packet p" "24 \<le> pb_start p" "pb_end p + tail \<le> PACKET_CAPACITY" "length H = 24"
  obtains A T B where "length A = pb_start p - 24" "length T = tail"
    "put (pb_start p - 24) H (pb_storage p) = A @ H @ pb_slice p @ T @ B"
proof
  let ?S = "pb_storage p" and ?s = "pb_start p" and ?e = "pb_end p"
  have wf: "?s \<le> ?e" "?e + tail \<le> length ?S" "length ?S = PACKET_CAPACITY"
    using assms by (auto simp: wf_packet_def)
  show "length (take (?s - 24) ?S) = ?s - 24" using wf by simp
  show "length (sub ?S ?e (?e + tail)) = tail" using wf by simp
  have "drop ?s ?S = sub ?S ?s ?e @ sub ?S ?e (?e + tail) @ drop (?e + tail) ?S"
    using wf by (simp add: sub_drop)
  then show "put (?s - 24) H ?S = take (?s - 24) ?S @ H @ pb_slice p @ sub ?S ?e (?e + tail) @ drop (?e + tail) ?S"
    using assms(2,4) by (simp add: put_def pb_slice_def)
qed

lemma wrap_body_roundtrip:
  assumes C: "cipher_ok C" and R: "rng_ok R"
    and p: "wf_packet p" "24 \<le> pb_start p" "\<not> pb_is_empty p"
    and room: "pb_end p + (if oc_mode config = Video then r + 1 + 10 else r + 1 + 16) \<le> PACKET_CAPACITY"
    and config: "config = new_config (oc_mode config) (oc_ssrc config)" and r: "r < 255"
    and w: "wrap_body R C config seq timestamp abs_time tseq r p st = (Inr q, st')"
  shows "wf_packet q \<and> (\<exists>u. unwrap C q (oc_mode config) = Some (Inr (seq, u))
    \<and> wf_packet u \<and> pb_slice u = pb_slice p)"
proof -
  let ?s = "pb_start p - 24"
  let ?tail = "if oc_mode config = Video then r + 1 + 10 else r + 1 + 16"
  define draw where "draw = (if oc_payload_type config = 96 then rg_range R 5 (os_rng st) else (1, os_rng st))"
  define second where "second = (oc_payload_type config AND 0x7f) OR (if fst draw = 0 then 0x80 else 0)"
  define H where "H = rtp_header second seq timestamp (oc_ssrc config) abs_time tseq"
  have H: "length H = 24" "H ! 0 AND 0x20 \<noteq> 0"
    by (simp_all add: H_def rtp_header_bytes)
  have ptv: "oc_payload_type config = (case oc_mode config of Audio \<Rightarrow> 111 | Video \<Rightarrow> 96)"
    by (subst config) (simp add: new_config_def split: obfs_mode.splits)
  then have second: "second AND 0x7f = oc_payload_type config"
    by (simp add: second_def split: obfs_mode.splits)
  have lenS: "length (pb_storage p) = PACKET_CAPACITY" using p(1) by (simp add: wf_packet_def)
  obtain A T B where parts: "length A = ?s" "length T = ?tail"
    "put ?s H (pb_storage p) = A @ H @ pb_slice p @ T @ B"
    by (rule packet_parts [OF p(1,2) room H(1)])
  define padding where "padding = (if 0 < r then fst (rg_fill R r (snd draw)) else [])"
  have padding: "length padding = r" using R by (simp add: padding_def rng_ok_def)
  let ?q = "p\<lparr>pb_start := ?s, pb_storage := A @ H @ pb_slice p @ T @ B, pb_end := pb_end p + ?tail\<rparr>"
  have total: "length (A @ H @ pb_slice p @ T @ B) = PACKET_CAPACITY"
    using parts(3) lenS p H by (metis le_diff_conv2 length_put le_add_diff_inverse2 order_trans
        wf_packet_def)
  have plen: "length (pb_slice p) = pb_len p" using p(1) by simp
  have endp: "pb_end p = length A + 24 + pb_len p"
    using parts(1) p(1,2) by (simp add: pb_len_def wf_packet_def)
  have prep: "prepend 24 p = Inr (p\<lparr>pb_start := ?s\<rparr>)" using p(2) by (simp add: prepend_def)
  have ext: "extend_tail ?tail (p\<lparr>pb_start := ?s, pb_storage := A @ H @ pb_slice p @ T @ B\<rparr>) = Inr ?q"
    using room by (simp add: extend_tail_def PACKET_CAPACITY_def)
  show ?thesis
  proof (cases "oc_mode config")
    case Video
    define W where "W = H @ ci_ctr C (srtp_iv (oc_ssrc config) seq timestamp) (pb_slice p)
      @ padding @ [word_of_nat (length padding + 1)]"
    have sealed: "seal_video C (srtp_iv (oc_ssrc config) seq timestamp) padding ?s (pb_len p)
        (A @ H @ pb_slice p @ T @ B) = A @ (W @ take 10 (ci_mac C W)) @ B"
      using seal_video_bytes [OF C H(1), where T = T and padding = padding and A = A and B = B
          and P = "pb_slice p" and iv = "srtp_iv (oc_ssrc config) seq timestamp"]
        parts padding Video plen by (simp add: W_def)
    have q: "q = ?q\<lparr>pb_storage := A @ (W @ take 10 (ci_mac C W)) @ B\<rparr>"
      using w prep ext Video sealed parts(3)
      unfolding wrap_body_def Let_def
      by (auto simp: split_beta H_def [symmetric] second_def [symmetric] draw_def [symmetric]
          padding_def split: if_splits)
    have lenW: "length W = 24 + pb_len p + r + 1"
      using C H plen padding by (simp add: W_def cipher_ok_def)
    have mac: "length (take 10 (ci_mac C W)) = 10" using C by (simp add: cipher_ok_def)
    have lenq: "length (pb_storage q) = PACKET_CAPACITY"
      using total parts(2) lenW mac H(1) plen by (simp add: q Video)
    have endq: "pb_end q = length A + length W + 10" using endp lenW by (simp add: q Video)
    have wire: "pb_slice q = H @ drop 24 (W @ take 10 (ci_mac C W))"
      using parts(1) endq mac H(1) sub_append [of "length A" A "length A + length W + 10" "W @ take 10 (ci_mac C W)" B]
      by (simp add: q pb_slice_def W_def)
    have "unwrap C q Video = unwrap_video C seq timestamp (oc_ssrc config) 24 q"
      using unwrap_header [OF wire [unfolded H_def]] second ptv Video by simp
    moreover have "\<exists>u. unwrap_video C seq timestamp (oc_ssrc config) 24 q = Some (Inr (seq, u)) \<and> wf_packet u
        \<and> pb_slice u = ci_ctr C (srtp_iv (oc_ssrc config) seq timestamp)
            (ci_ctr C (srtp_iv (oc_ssrc config) seq timestamp) (pb_slice p))"
    proof (rule unwrap_video_bytes [OF C H, where padding = padding and p = q
          and A = A and B = B and X = "ci_ctr C (srtp_iv (oc_ssrc config) seq timestamp) (pb_slice p)",
          folded W_def])
      show "length padding < 255" using padding r by simp
      show "pb_storage q = A @ (W @ take 10 (ci_mac C W)) @ B" by (simp add: q)
      show "pb_start q = length A" using parts(1) by (simp add: q)
      show "pb_end q = length A + length W + 10" by (rule endq)
      show "length (pb_storage q) = PACKET_CAPACITY" by (rule lenq)
    qed
    moreover have "wf_packet q"
      using lenq endq parts(1) total lenW room endp Video by (simp add: wf_packet_def q)
    ultimately show ?thesis
      using C Video by (auto simp: cipher_ok_def)
  next
    case Audio
    then have mode: "oc_mode config \<noteq> Video" by simp
    obtain storage where seal: "seal_audio C (rtp_nonce (oc_ssrc config) seq timestamp) padding ?s (pb_len p)
        (A @ H @ pb_slice p @ T @ B) = Some storage" and q: "q = ?q\<lparr>pb_storage := storage\<rparr>"
      using w prep ext mode parts(3)
      unfolding wrap_body_def Let_def
      by (auto simp: split_beta H_def [symmetric] second_def [symmetric] draw_def [symmetric]
          padding_def split: if_splits option.splits)
    obtain c tag where ct: "ci_seal C (rtp_nonce (oc_ssrc config) seq timestamp) H (pb_slice p) = Some (c, tag)"
      "storage = A @ (H @ c @ tag @ padding @ [word_of_nat (length padding + 1)]) @ B"
      by (rule seal_audio_bytes [OF C H(1), where T = T and padding = padding and A = A and B = B
          and P = "pb_slice p" and nonce = "rtp_nonce (oc_ssrc config) seq timestamp" and storage = storage])
        (use seal parts padding mode plen in simp_all)
    have len: "length c = pb_len p" "length tag = 16"
      using C ct(1) plen unfolding cipher_ok_def by metis+
    let ?W = "H @ c @ tag @ padding @ [word_of_nat (length padding + 1)]"
    have lenW: "length ?W = 24 + pb_len p + 16 + r + 1" using H len padding by simp
    have lenq: "length (pb_storage q) = PACKET_CAPACITY"
      using total parts(2) lenW H(1) plen mode by (simp add: q ct(2))
    have endq: "pb_end q = length A + length ?W" using endp lenW mode by (simp add: q)
    have wire: "pb_slice q = H @ c @ tag @ padding @ [word_of_nat (length padding + 1)]"
      using parts(1) endq sub_append [of "length A" A "length A + length ?W" ?W B]
      by (simp add: q ct(2) pb_slice_def)
    have "unwrap C q Audio = unwrap_audio C 111 seq timestamp (oc_ssrc config) 24 q"
      using unwrap_header [OF wire [unfolded H_def]] second ptv Audio by simp
    moreover have "pb_slice p \<noteq> []"
      using plen p(3) by (auto simp: pb_is_empty_def pb_len_def)
    then have "\<exists>u. unwrap_audio C 111 seq timestamp (oc_ssrc config) 24 q = Some (Inr (seq, u)) \<and> wf_packet u
        \<and> pb_slice u = pb_slice p"
    proof (intro unwrap_audio_bytes [OF C H _ ct(1), of padding q A B])
      show "length padding < 255" using padding r by simp
      show "pb_storage q = A @ ?W @ B" by (simp add: q ct(2))
      show "pb_start q = length A" using parts(1) by (simp add: q)
      show "pb_end q = length A + length ?W" by (rule endq)
      show "length (pb_storage q) = PACKET_CAPACITY" by (rule lenq)
    qed
    moreover have "wf_packet q"
      using lenq endq parts(1) total lenW room endp mode by (simp add: wf_packet_def q)
    ultimately show ?thesis using Audio by simp
  qed
qed

section \<open>No panic, and only authentic packets\<close>

lemma unwrap_padding_total:
  assumes "s < length storage" "s + header_len \<le> e" "0 < header_len" "e \<le> length storage"
  shows "\<exists>r. unwrap_padding storage s header_len e = Some r
    \<and> (\<forall>e'. r = Inr e' \<longrightarrow> s + header_len \<le> e' \<and> e' \<le> e)"
proof (cases "storage ! s AND 0x20 = 0")
  case True
  with assms show ?thesis by (auto simp: unwrap_padding_def)
next
  case False
  let ?n = "unat (storage ! (e - 1))"
  have "unwrap_padding storage s header_len e =
    Some (if ?n = 0 \<or> ?n > e - s - header_len then Inl Invalid_padding else Inr (e - ?n))"
    using assms False by (auto simp: unwrap_padding_def Let_def)
  then show ?thesis using assms by auto
qed

lemma set_range_in: "a \<le> b \<Longrightarrow> b \<le> PACKET_CAPACITY \<Longrightarrow> set_range a b p = Inr (p\<lparr>pb_start := a, pb_end := b\<rparr>)"
  by (simp add: set_range_def)

lemma unwrap_video_total:
  assumes C: "cipher_ok C" and p: "wf_packet p" "header_len \<le> pb_len p" "0 < header_len"
  shows "\<exists>r. unwrap_video C seq timestamp ssrc header_len p = Some r \<and> (\<forall>n q. r = Inr (n, q) \<longrightarrow> wf_packet q
    \<and> (\<exists>body tag. pb_slice p = body @ tag \<and> length tag = 10 \<and> take 10 (ci_mac C body) = tag))"
proof (cases "pb_len p < header_len + 10")
  case True
  then show ?thesis by (simp add: unwrap_video_def Let_def)
next
  case False
  let ?s = "pb_start p" and ?t = "pb_end p - 10" and ?S = "pb_storage p"
  have len: "?s + header_len + 10 \<le> pb_end p" "pb_end p \<le> length ?S" "length ?S = PACKET_CAPACITY"
    using False p(1) by (auto simp: pb_len_def wf_packet_def)
  have split: "pb_slice p = sub ?S ?s ?t @ sub ?S ?t (pb_end p)"
    unfolding pb_slice_def using len by (intro sub_split) auto
  have tag: "length (sub ?S ?t (pb_end p)) = 10" using len by simp
  obtain r where r: "unwrap_padding ?S ?s header_len ?t = Some r"
    "\<And>e. r = Inr e \<Longrightarrow> ?s + header_len \<le> e \<and> e \<le> ?t"
    using unwrap_padding_total [of ?s ?S header_len ?t] len p(3) by force
  have ctr: "length (ci_ctr C iv m) = length m" for iv m using C by (simp add: cipher_ok_def)
  show ?thesis
  proof (cases "take 10 (ci_mac C (sub ?S ?s ?t)) = sub ?S ?t (pb_end p)")
    case auth: True
    show ?thesis
    proof (cases r)
      case (Inl e)
      then have "unwrap_video C seq timestamp ssrc header_len p = Some (Inl e)"
        using False len r(1) auth by (simp add: unwrap_video_def Let_def)
      then show ?thesis by simp
    next
      case (Inr e)
      let ?p = "p\<lparr>pb_storage := put (?s + header_len)
        (ci_ctr C (srtp_iv ssrc seq timestamp) (sub ?S (?s + header_len) e)) ?S\<rparr>"
      have e: "?s + header_len \<le> e" "e \<le> ?t" using r(2) [OF Inr] by auto
      then have set: "set_range (?s + header_len) e ?p = Inr (?p\<lparr>pb_start := ?s + header_len, pb_end := e\<rparr>)"
        using len by (intro set_range_in) auto
      have "unwrap_video C seq timestamp ssrc header_len p
          = Some (Inr (seq, ?p\<lparr>pb_start := ?s + header_len, pb_end := e\<rparr>))"
        using False len r(1) auth Inr e set by (simp add: unwrap_video_def Let_def)
      moreover have "wf_packet (?p\<lparr>pb_start := ?s + header_len, pb_end := e\<rparr>)"
        using len e ctr by (simp add: wf_packet_def)
      ultimately show ?thesis using split tag auth by blast
    qed
  next
    case bad: False
    then have "unwrap_video C seq timestamp ssrc header_len p = Some (Inl Auth_failed)"
      using False len by (simp add: unwrap_video_def Let_def)
    then show ?thesis by simp
  qed
qed

lemma unwrap_audio_total:
  assumes C: "cipher_ok C" and p: "wf_packet p" "header_len \<le> pb_len p" "0 < header_len"
  shows "\<exists>r. unwrap_audio C pt seq timestamp ssrc header_len p = Some r \<and> (\<forall>n q. r = Inr (n, q) \<longrightarrow> wf_packet q
    \<and> (\<exists>nonce aad tag c rest. pb_slice p = aad @ c @ tag @ rest \<and> length tag = 16
         \<and> ci_open C nonce aad tag c = Some (pb_slice q)))"
proof (cases "pt = 111")
  case False
  then show ?thesis by (simp add: unwrap_audio_def Let_def)
next
  case pt: True
  let ?s = "pb_start p" and ?S = "pb_storage p" and ?h = "pb_start p + header_len"
  have len: "?h \<le> pb_end p" "pb_end p \<le> length ?S" "length ?S = PACKET_CAPACITY"
    using p by (auto simp: pb_len_def wf_packet_def)
  obtain r where r: "unwrap_padding ?S ?s header_len (pb_end p) = Some r"
    "\<And>e. r = Inr e \<Longrightarrow> ?h \<le> e \<and> e \<le> pb_end p"
    using unwrap_padding_total [of ?s ?S header_len "pb_end p"] len p(3) by force
  show ?thesis
  proof (cases r)
    case (Inl e)
    then show ?thesis using pt r(1) by (simp add: unwrap_audio_def Let_def)
  next
    case (Inr e)
    have e: "?h \<le> e" "e \<le> pb_end p" using r(2) [OF Inr] by auto
    show ?thesis
    proof (cases "e \<le> ?h + 16")
      case True
      then show ?thesis using pt r(1) Inr by (simp add: unwrap_audio_def Let_def)
    next
      case big: False
      let ?aad = "sub ?S ?s ?h" and ?c = "sub ?S ?h (e - 16)" and ?tag = "sub ?S (e - 16) e"
      let ?n = "rtp_nonce ssrc seq timestamp"
      have "pb_slice p = ?aad @ sub ?S ?h (pb_end p)"
        unfolding pb_slice_def using len by (intro sub_split) auto
      also have "sub ?S ?h (pb_end p) = ?c @ sub ?S (e - 16) (pb_end p)"
        using big e by (intro sub_split) auto
      also have "sub ?S (e - 16) (pb_end p) = ?tag @ sub ?S e (pb_end p)"
        using big e by (intro sub_split) auto
      finally have parts: "pb_slice p = ?aad @ ?c @ ?tag @ sub ?S e (pb_end p)" .
      have eval: "unwrap_audio C pt seq timestamp ssrc header_len p =
          Some (case ci_open C ?n ?aad ?tag ?c of
                  None \<Rightarrow> Inl Auth_failed
                | Some m \<Rightarrow> (case set_range ?h (e - 16) (p\<lparr>pb_storage := put ?h m ?S\<rparr>) of
                     Inl e \<Rightarrow> Inl (Packet_error e) | Inr p \<Rightarrow> Inr (seq, p)))"
        using pt r(1) Inr big e len by (simp add: unwrap_audio_def Let_def)
      show ?thesis
      proof (cases "ci_open C ?n ?aad ?tag ?c")
        case None
        with eval show ?thesis by simp
      next
        case (Some m)
        let ?p = "p\<lparr>pb_storage := put ?h m ?S\<rparr>"
        let ?q = "?p\<lparr>pb_start := ?h, pb_end := e - 16\<rparr>"
        have set: "set_range ?h (e - 16) ?p = Inr ?q"
          using big e len by (intro set_range_in) auto
        have "length m = length ?c" using C Some unfolding cipher_ok_def by blast
        then have m: "?h + length m = e - 16" "length (put ?h m ?S) = PACKET_CAPACITY"
          using big e len by auto
        have wf: "wf_packet ?q"
          using m big e len by (simp add: wf_packet_def)
        have "sub (put ?h m ?S) ?h (?h + length m) = m"
          using m(1) e len by (intro sub_put_same) auto
        then have slice: "pb_slice ?q = m" using m(1) by (simp add: pb_slice_def)
        have tag: "length ?tag = 16" using e len big by simp
        have r: "unwrap_audio C pt seq timestamp ssrc header_len p = Some (Inr (seq, ?q))"
          using eval Some set by simp
        show ?thesis
          using r wf parts tag Some slice by (intro exI [of _ "Inr (seq, ?q)"]) force
      qed
    qed
  qed
qed

section \<open>Properties\<close>

lemma ops_rng [simp]: "st\<lparr>os_rng := r\<rparr>\<lparr>os_rng := r'\<rparr> = st\<lparr>os_rng := r'\<rparr>"
  by (cases st) simp

lemma initial_sequence_next [simp]:
  "initial_sequence (st\<lparr>os_count := c, os_transport_sequence := t\<rparr>) n = initial_sequence st n"
  "initial_sequence (st\<lparr>os_rng := r\<rparr>) n = initial_sequence st n"
  by (simp_all add: initial_sequence_def)

text \<open>Every packet with a payload takes one count, whether it is sent or refused.\<close>

lemma wrap_body_state:
  "os_count (snd (wrap_body R C config seq timestamp abs_time tseq n p st)) = os_count st"
  "os_initial_sequence (snd (wrap_body R C config seq timestamp abs_time tseq n p st)) = os_initial_sequence st"
  by (simp_all add: wrap_body_def Let_def split_beta split: sum.splits option.splits)

lemma wrap_advances:
  "os_count (snd (wrap R C p config now st)) = (if pb_is_empty p then os_count st else os_count st + 1)
   \<and> os_initial_sequence (snd (wrap R C p config now st)) = os_initial_sequence st"
  by (simp add: wrap_def Let_def next_count_def split_beta wrap_body_state)

definition plain_cipher :: obfs_cipher where
  "plain_cipher = \<lparr>ci_ctr = (\<lambda>iv m. m), ci_mac = (\<lambda>m. replicate 20 0),
     ci_seal = (\<lambda>n a m. Some (m, replicate 16 0)), ci_open = (\<lambda>n a t c. Some c)\<rparr>"

definition zero_rng :: "unit rng_ops" where
  "zero_rng = \<lparr>rg_u32 = (\<lambda>r. (0, r)), rg_range = (\<lambda>n r. (0, r)), rg_fill = (\<lambda>n r. (replicate n 0, r))\<rparr>"

lemma plain_cipher_ok: "cipher_ok plain_cipher"
  by (simp add: cipher_ok_def plain_cipher_def)

lemma zero_rng_ok: "rng_ok zero_rng"
  by (simp add: rng_ok_def zero_rng_def)

lemma wrapped_unwraps:
  assumes "cipher_ok C" "rng_ok R" "wf_packet p"
    and "wrap R C p (new_config mode ssrc) now st = (Inr q, st')"
  shows "wf_packet q \<and> (\<exists>u. unwrap C q mode = Some (Inr (initial_sequence st (os_count st), u))
    \<and> pb_slice u = pb_slice p)"
proof -
  let ?c = "new_config mode ssrc"
  have mode: "oc_mode ?c = mode" and ssrc: "oc_ssrc ?c = ssrc"
    by (simp_all add: new_config_def split: obfs_mode.splits)
  have max: "0 < oc_padding_max ?c" "oc_padding_max ?c \<le> 60"
    by (simp_all add: new_config_def split: obfs_mode.splits)
  obtain r rng where r: "rg_range R (oc_padding_max ?c) (os_rng st) = (r, rng)" by fastforce
  have "fst (rg_range R (oc_padding_max ?c) (os_rng st)) < oc_padding_max ?c"
    using assms(2) max(1) unfolding rng_ok_def by blast
  then have r255: "r < 255" using r max(2) by simp
  let ?st = "st\<lparr>os_count := os_count st + 1, os_transport_sequence := os_transport_sequence st + 1, os_rng := rng\<rparr>"
  let ?ts = "os_initial_timestamp st + duration_ticks (now - os_started st) (rtp_clock_rate (oc_payload_type ?c))"
  let ?abs = "(os_initial_abs_send_time st + duration_ticks (now - os_started st) 262144) AND 0x00ffffff"
  have ne: "\<not> pb_is_empty p" using assms(4) by (auto simp: wrap_def)
  let ?full = "pb_start p < 24 \<or> pb_end p + (if mode = Video then r + 1 + 10 else r + 1 + 16) > PACKET_CAPACITY"
  have "wrap R C p ?c now st = (if ?full then (Inl Exceeds_buffer, ?st)
      else wrap_body R C ?c (initial_sequence st (os_count st)) ?ts ?abs (os_transport_sequence st) r p ?st)"
    unfolding wrap_def Let_def next_count_def using ne r max(1)
    by (simp add: mode initial_sequence_def)
  then have "\<not> ?full" "wrap_body R C ?c (initial_sequence st (os_count st)) ?ts ?abs (os_transport_sequence st) r p ?st = (Inr q, st')"
    using assms(4) by (auto split: if_splits)
  then show ?thesis
    using wrap_body_roundtrip [OF assms(1,2,3) _ ne _ _ r255, of ?c "initial_sequence st (os_count st)" ?ts ?abs
        "os_transport_sequence st" ?st q st']
    unfolding mode ssrc by simp blast
qed

text \<open>
  C4: What \<open>wrap\<close> sends, \<open>unwrap\<close> recovers. With ciphers that decrypt what they
  encrypt, any payload the disguise accepts comes back byte for byte, with the sequence number of
  its header, in both modes and for every padding the random generator chooses.
\<close>

theorem unwrap_wrap:
  assumes "cipher_ok C" "rng_ok R" "wf_packet p"
    and "wrap R C p (new_config mode ssrc) now st = (Inr q, st')"
  shows "wf_packet q \<and> (\<exists>u. unwrap C q mode = Some (Inr (initial_sequence st (os_count st), u))
    \<and> pb_slice u = pb_slice p)"
  by (rule wrapped_unwraps [OF assms])

lemma unwrap_wrap_witness:
  "\<exists>q st' u. wrap zero_rng plain_cipher \<lparr>pb_storage = replicate 2304 7, pb_start = 64, pb_end = 66\<rparr>
       (new_config Video 1) 0 (new_obfs_state zero_rng 0 0 ()) = (Inr q, st')
     \<and> unwrap plain_cipher q Video = Some (Inr (0, u)) \<and> pb_slice u = [7, 7]"
proof -
  let ?p = "\<lparr>pb_storage = replicate 2304 7, pb_start = 64, pb_end = 66\<rparr>"
  let ?st = "new_obfs_state zero_rng 0 0 ()"
  have slice: "pb_slice ?p = [7, 7]" by (simp add: pb_slice_def sub_def numeral_eq_Suc)
  obtain q st' where w: "wrap zero_rng plain_cipher ?p (new_config Video 1) 0 ?st = (Inr q, st')"
    by (simp add: wrap_def wrap_body_def next_count_def pb_is_empty_def new_config_def prepend_def
        extend_tail_def zero_rng_def new_obfs_state_def PACKET_CAPACITY_def Let_def)
  have "initial_sequence ?st (os_count ?st) = 0"
    by (simp add: initial_sequence_def new_obfs_state_def zero_rng_def)
  then show ?thesis
    using unwrap_wrap [OF plain_cipher_ok zero_rng_ok _ w] w slice
    by (auto simp: wf_packet_def PACKET_CAPACITY_def)
qed

text \<open>
  C9: \<open>unwrap\<close> is safe on hostile bytes. On any well-formed packet it returns without a
  panic, and when it accepts, the payload range lies inside the buffer and the packet was
  authenticated: in video mode its last ten bytes are the truncated MAC of all the rest, in audio
  mode the AEAD opened the ciphertext, with the header as associated data, to the payload.
\<close>

theorem unwrap_safe:
  assumes "cipher_ok C" "wf_packet p"
  shows "\<exists>r. unwrap C p mode = Some r \<and> (\<forall>n q. r = Inr (n, q) \<longrightarrow> wf_packet q
    \<and> (mode = Video \<longrightarrow> (\<exists>body tag. pb_slice p = body @ tag \<and> length tag = 10 \<and> take 10 (ci_mac C body) = tag))
    \<and> (mode = Audio \<longrightarrow> (\<exists>nonce aad tag c rest. pb_slice p = aad @ c @ tag @ rest \<and> length tag = 16
         \<and> ci_open C nonce aad tag c = Some (pb_slice q))))"
proof -
  let ?w = "pb_slice p"
  define h where "h = (if ?w ! 0 AND 0x10 \<noteq> 0 then 12 + (4 + unat (from_be16 (sub ?w 14 16)) * 4) else 12)"
  show ?thesis
  proof (cases "length ?w < 13 \<or> drop_bit 6 (?w ! 0) \<noteq> 2 \<or> ?w ! 1 AND 0x7f \<notin> {111, 96, 6}
      \<or> (?w ! 0 AND 0x10 \<noteq> 0 \<and> length ?w < 16) \<or> length ?w < h")
    case True
    then have "\<exists>e. unwrap C p mode = Some (Inl e)"
      by (auto simp: unwrap_def Let_def h_def idx_def slice_def)
    then show ?thesis by auto
  next
    case False
    then have len: "13 \<le> length ?w" "h \<le> length ?w" by auto
    let ?seq = "from_be16 (sub ?w 2 4)" and ?ts = "from_be32 (sub ?w 4 8)" and ?ssrc = "from_be32 (sub ?w 8 12)"
    have eq: "unwrap C p mode = (if mode = Video then unwrap_video C ?seq ?ts ?ssrc h p
        else unwrap_audio C (?w ! 1 AND 0x7f) ?seq ?ts ?ssrc h p)"
      using False by (auto simp: unwrap_def Let_def h_def idx_def slice_def)
    have h: "h \<le> pb_len p" "0 < h" using len assms(2) by (auto simp: h_def)
    show ?thesis
    proof (cases mode)
      case Video
      then have "unwrap C p Video = unwrap_video C ?seq ?ts ?ssrc h p" using eq by simp
      then show ?thesis unfolding Video using unwrap_video_total [OF assms h, of ?seq ?ts ?ssrc] by simp
    next
      case Audio
      then have "unwrap C p Audio = unwrap_audio C (?w ! 1 AND 0x7f) ?seq ?ts ?ssrc h p" using eq by simp
      then show ?thesis
        unfolding Audio using unwrap_audio_total [OF assms h, of "?w ! 1 AND 0x7f" ?seq ?ts ?ssrc] by simp
    qed
  qed
qed

lemma unwrap_safe_witness:
  "\<exists>r. unwrap plain_cipher (new_packet (replicate 2304 0)) Audio = Some r"
  using unwrap_safe [OF plain_cipher_ok, of "new_packet (replicate 2304 0)" Audio]
  by (auto simp: wf_packet_def new_packet_def PACKET_CAPACITY_def PACKET_HEADROOM_def)



end
