(* ===== verification/Replay_Window.thy ===== *)
theory Replay_Window
  imports Obfs
begin

text \<open>
  The replay protection of a session (\<open>ReplayWindow\<close>, \<open>authenticate_inbound\<close> in
  \<open>session.rs\<close>): a bitmap of the last 16384 counters, and the reconstruction of a counter from
  the 16-bit RTP sequence number. The specification is the set of the counters accepted so far.
\<close>

unbundle bit_operations_syntax

section \<open>The window\<close>

record replay_window =
  rw_highest :: "u64 option"
  rw_seen :: "u64 list"

definition new_window :: replay_window where
  "new_window = \<lparr>rw_highest = None, rw_seen = replicate 256 0\<rparr>"

definition counter_index :: "u64 \<Rightarrow> nat" where
  "counter_index counter = unat counter mod 16384"

definition window_set :: "u64 \<Rightarrow> u64 list \<Rightarrow> u64 list" where
  "window_set counter seen =
     (let i = counter_index counter
      in seen[i div 64 := (seen ! (i div 64)) OR push_bit (i mod 64) 1])"

definition window_clear :: "u64 \<Rightarrow> u64 list \<Rightarrow> u64 list" where
  "window_clear counter seen =
     (let i = counter_index counter
      in seen[i div 64 := (seen ! (i div 64)) AND NOT (push_bit (i mod 64) 1)])"

definition window_test :: "u64 \<Rightarrow> u64 list \<Rightarrow> bool" where
  "window_test counter seen =
     (let i = counter_index counter
      in (seen ! (i div 64)) AND push_bit (i mod 64) 1 \<noteq> 0)"

definition window_accept :: "u64 \<Rightarrow> replay_window \<Rightarrow> bool \<times> replay_window" where
  "window_accept counter w =
     (case rw_highest w of
        None \<Rightarrow> (True, \<lparr>rw_highest = Some counter, rw_seen = window_set counter (rw_seen w)\<rparr>)
      | Some highest \<Rightarrow>
          if highest < counter then
            let shift = counter - highest;
                seen = (if 16384 \<le> shift then replicate 256 0
                        else fold (\<lambda>i. window_clear (highest + word_of_nat i)) [1..<unat shift + 1] (rw_seen w))
            in (True, \<lparr>rw_highest = Some counter, rw_seen = window_set counter seen\<rparr>)
          else if 16384 \<le> highest - counter then (False, w)
          else if window_test counter (rw_seen w) then (False, w)
          else (True, w\<lparr>rw_seen := window_set counter (rw_seen w)\<rparr>))"

definition extend_sequence :: "u64 \<Rightarrow> u16 \<Rightarrow> u64" where
  "extend_sequence highest sequence =
     (let base = highest AND NOT 0xffff;
          extended = base OR ucast sequence
      in if sat_add64 extended (2 ^ 15) < highest then sat_add64 extended (2 ^ 16)
         else if extended > sat_add64 highest (2 ^ 15) \<and> extended \<ge> 2 ^ 16 then extended - 2 ^ 16
         else extended)"

definition accept_rtp :: "u16 \<Rightarrow> replay_window \<Rightarrow> bool \<times> replay_window" where
  "accept_rtp sequence w =
     (case rw_highest w of
        None \<Rightarrow> window_accept (ucast sequence) w
      | Some highest \<Rightarrow> window_accept (extend_sequence highest sequence) w)"

text \<open>\<open>None\<close> is the panic of \<open>unwrap\<close>; the packet is rewritten even when it is refused.\<close>

definition authenticate_inbound ::
  "obfs_cipher \<Rightarrow> obfs_config \<Rightarrow> replay_window \<Rightarrow> packet_buf \<Rightarrow> (packet_buf option \<times> replay_window) option" where
  "authenticate_inbound C config w p =
     (if \<not> is_rtp_packet (pb_slice p) then Some (None, w)
      else do {
        r \<leftarrow> unwrap C p (oc_mode config);
        Some (case r of
            Inl _ \<Rightarrow> (None, w)
          | Inr (sequence, q) \<Rightarrow>
              let (fresh, w) = accept_rtp sequence w in (if fresh then Some q else None, w))
      })"

section \<open>The bitmap\<close>

definition seen_at :: "u64 list \<Rightarrow> nat \<Rightarrow> bool" where
  "seen_at seen k = bit (seen ! (k div 64)) (k mod 64)"

lemma index_split: "i div 64 = k div 64 \<and> i mod 64 = k mod 64 \<longleftrightarrow> i = (k :: nat)"
  by (metis div_mult_mod_eq)

lemma counter_index_less: "counter_index c < 16384"
  by (simp add: counter_index_def)

lemma length_window [simp]:
  "length (window_set c seen) = length seen" "length (window_clear c seen) = length seen"
  by (simp_all add: window_set_def window_clear_def Let_def)

lemma one_bit: "bit (2 ^ n :: u64) m \<longleftrightarrow> m = n \<and> n < 64"
  by (auto simp: bit_exp_iff)

lemma seen_window_set:
  assumes "length seen = 256" "k < 16384"
  shows "seen_at (window_set c seen) k \<longleftrightarrow> k = counter_index c \<or> seen_at seen k"
proof -
  have "k div 64 < 256" "counter_index c div 64 < 256"
    using assms(2) counter_index_less [of c] by simp_all
  then show ?thesis
    using assms(1) index_split [of "counter_index c" k]
    by (auto simp: seen_at_def window_set_def Let_def nth_list_update bit_or_iff one_bit)
qed

lemma seen_window_clear:
  assumes "length seen = 256" "k < 16384"
  shows "seen_at (window_clear c seen) k \<longleftrightarrow> k \<noteq> counter_index c \<and> seen_at seen k"
proof -
  have "k div 64 < 256" "counter_index c div 64 < 256" "k mod 64 < 64"
    using assms(2) counter_index_less [of c] by simp_all
  then show ?thesis
    using assms(1) index_split [of "counter_index c" k]
    by (auto simp: seen_at_def window_clear_def Let_def nth_list_update bit_and_iff bit_not_iff one_bit)
qed

lemma window_test_iff: "window_test c seen \<longleftrightarrow> seen_at seen (counter_index c)"
  by (simp add: window_test_def seen_at_def Let_def and_exp_eq_0_iff_not_bit)

lemma seen_cleared:
  assumes "length seen = 256" "k < 16384"
  shows "seen_at (fold (\<lambda>i. window_clear (f i)) is seen) k \<longleftrightarrow>
    seen_at seen k \<and> (\<forall>i\<in>set is. k \<noteq> counter_index (f i))"
  using assms(1) by (induction "is" arbitrary: seen) (auto simp: seen_window_clear assms(2))

lemma length_cleared [simp]: "length (fold (\<lambda>i. window_clear (f i)) is seen) = length seen"
  by (induction "is" arbitrary: seen) simp_all

section \<open>The window as a set\<close>

text \<open>The specification: the highest counter and the set of accepted ones.\<close>

type_synonym replay_spec = "nat option \<times> nat set"

definition spec_accept :: "nat \<Rightarrow> replay_spec \<Rightarrow> bool \<times> replay_spec" where
  "spec_accept c = (\<lambda>(highest, seen). case highest of
       None \<Rightarrow> (True, (Some c, insert c seen))
     | Some h \<Rightarrow> if c \<notin> seen \<and> h < c + 16384 then (True, (Some (max h c), insert c seen))
                 else (False, (highest, seen)))"

definition window_rel :: "replay_window \<Rightarrow> replay_spec \<Rightarrow> bool" where
  "window_rel w = (\<lambda>(highest, seen). length (rw_seen w) = 256 \<and> map_option unat (rw_highest w) = highest
     \<and> (case highest of
          None \<Rightarrow> seen = {} \<and> (\<forall>k<16384. \<not> seen_at (rw_seen w) k)
        | Some h \<Rightarrow> (\<forall>c\<in>seen. c \<le> h)
            \<and> (\<forall>c\<le>h. h < c + 16384 \<longrightarrow> (seen_at (rw_seen w) (c mod 16384) \<longleftrightarrow> c \<in> seen))))"

lemma close_mod_eq:
  assumes "a mod 16384 = b mod (16384 :: nat)" "a < b + 16384" "b < a + 16384"
  shows "a = b"
proof -
  have "int 16384 dvd int a - int b"
    using assms(1) by (metis mod_eq_dvd_iff zmod_int)
  moreover have "\<bar>int a - int b\<bar> < 16384" using assms(2,3) by linarith
  ultimately show ?thesis using zdvd_not_zless [of "\<bar>int a - int b\<bar>" 16384] by fastforce
qed

lemma seen_at_zero: "k < 16384 \<Longrightarrow> \<not> seen_at (replicate 256 0) k"
  by (simp add: seen_at_def)

lemma advanced_bitmap:
  assumes len: "length seen = 256" and hc: "h < counter" and c: "c \<le> counter" "counter < c + 16384"
    and le: "\<forall>c\<in>A. c \<le> h"
    and old: "\<And>c. c \<le> h \<Longrightarrow> h < c + 16384 \<Longrightarrow> seen_at seen (c mod 16384) \<longleftrightarrow> c \<in> A"
    and bound: "counter < 2 ^ 64"
  shows "seen_at (if 16384 \<le> counter - h then replicate 256 0
      else fold (\<lambda>i. window_clear (word_of_nat h + word_of_nat i)) [1..<counter - h + 1] seen) (c mod 16384) \<longleftrightarrow> c \<in> A"
proof (cases "16384 \<le> counter - h")
  case True
  then have "c \<notin> A" using le c hc by fastforce
  then show ?thesis using True by (simp add: seen_at_zero)
next
  case False
  have idx: "counter_index (word_of_nat h + word_of_nat i) = (h + i) mod 16384" if "i \<le> counter - h" for i
    using that bound hc by (simp add: counter_index_def unat_of_nat flip: of_nat_add)
  have cleared: "(\<forall>i\<in>set [1..<counter - h + 1]. c mod 16384 \<noteq> counter_index (word_of_nat h + word_of_nat i)) \<longleftrightarrow> c \<le> h"
  proof
    assume all: "\<forall>i\<in>set [1..<counter - h + 1]. c mod 16384 \<noteq> counter_index (word_of_nat h + word_of_nat i)"
    show "c \<le> h"
    proof (rule ccontr)
      assume "\<not> c \<le> h"
      then have "c - h \<in> set [1..<counter - h + 1]" using c(1) by auto
      with all have "c mod 16384 \<noteq> counter_index (word_of_nat h + word_of_nat (c - h))" by blast
      then show False using idx [OF diff_le_mono [OF c(1)]] \<open>\<not> c \<le> h\<close> by simp
    qed
  next
    assume "c \<le> h"
    show "\<forall>i\<in>set [1..<counter - h + 1]. c mod 16384 \<noteq> counter_index (word_of_nat h + word_of_nat i)"
    proof
      fix i assume i: "i \<in> set [1..<counter - h + 1]"
      then have "c \<noteq> h + i" "c < h + i + 16384" "h + i < c + 16384" using \<open>c \<le> h\<close> c hc by auto
      then have "c mod 16384 \<noteq> (h + i) mod 16384" using close_mod_eq by blast
      then show "c mod 16384 \<noteq> counter_index (word_of_nat h + word_of_nat i)" using idx [of i] i by auto
    qed
  qed
  have "c \<le> h \<Longrightarrow> seen_at seen (c mod 16384) \<longleftrightarrow> c \<in> A" using old [of c] c hc by linarith
  then show ?thesis
    using False seen_cleared [OF len, of "c mod 16384" "\<lambda>i. word_of_nat h + word_of_nat i" "[1..<counter - h + 1]"] cleared le
    by fastforce
qed

lemma accept_refines:
  assumes rel: "window_rel w s" and bound: "c < 2 ^ 64"
  shows "fst (window_accept (word_of_nat c) w) = fst (spec_accept c s)
    \<and> window_rel (snd (window_accept (word_of_nat c) w)) (snd (spec_accept c s))"
proof -
  obtain highest A where s: "s = (highest, A)" by fastforce
  have len: "length (rw_seen w) = 256" and hi: "map_option unat (rw_highest w) = highest"
    using rel by (simp_all add: s window_rel_def)
  have u: "unat (word_of_nat c :: u64) = c" using bound by (simp add: unat_of_nat)
  have i: "counter_index (word_of_nat c) = c mod 16384" by (simp add: counter_index_def u)
  show ?thesis
  proof (cases "rw_highest w")
    case None
    then show ?thesis
      using rel len by (auto simp: s window_rel_def window_accept_def spec_accept_def u i seen_window_set
          dest: close_mod_eq)
  next
    case (Some hw)
    define h where "h = unat hw"
    have hw: "hw = word_of_nat h" by (simp add: h_def)
    have h: "highest = Some h" using hi Some by (simp add: h_def)
    have le: "\<forall>c\<in>A. c \<le> h" and old: "\<And>c. c \<le> h \<Longrightarrow> h < c + 16384 \<Longrightarrow> seen_at (rw_seen w) (c mod 16384) \<longleftrightarrow> c \<in> A"
      using rel by (auto simp: s window_rel_def h)
    have less: "hw < word_of_nat c \<longleftrightarrow> h < c" by (simp add: word_less_nat_alt u h_def)
    show ?thesis
    proof (cases "h < c")
      case True
      define seen where "seen = (if 16384 \<le> c - h then replicate 256 0
        else fold (\<lambda>i. window_clear (word_of_nat h + word_of_nat i)) [1..<c - h + 1] (rw_seen w))"
      have hb: "h < 2 ^ 64" using unsigned_less [of hw] by (simp add: h_def)
      have shift: "unat (word_of_nat c - hw) = c - h"
        using True less u by (simp add: unat_sub h_def word_le_nat_alt)
      then have big: "16384 \<le> word_of_nat c - hw \<longleftrightarrow> 16384 \<le> c - h" by (simp add: word_le_nat_alt)
      have acc: "window_accept (word_of_nat c) w =
          (True, \<lparr>rw_highest = Some (word_of_nat c), rw_seen = window_set (word_of_nat c) seen\<rparr>)"
        using True less by (simp add: window_accept_def Some Let_def shift big seen_def hw [symmetric] cong: if_cong)
      have l: "length seen = 256" using len by (simp add: seen_def)
      have b: "seen_at seen (d mod 16384) \<longleftrightarrow> d \<in> A" if "d \<le> c" "c < d + 16384" for d
        unfolding seen_def by (rule advanced_bitmap [OF len True that le old bound]) assumption+
      have "c \<notin> A" using le True by auto
      then have spec: "spec_accept c s = (True, (Some c, insert c A))" using True by (simp add: spec_accept_def s h max_def)
      have "seen_at (window_set (word_of_nat c) seen) (d mod 16384) \<longleftrightarrow> d \<in> insert c A"
        if "d \<le> c" "c < d + 16384" for d
        using that b [OF that] close_mod_eq [of d c] by (auto simp: seen_window_set [OF l] i)
      then show ?thesis using le True by (auto simp: acc spec window_rel_def u l)
    next
      case False
      have age: "unat (hw - word_of_nat c) = h - c"
        using False less u by (simp add: unat_sub h_def word_le_nat_alt not_less)
      then have big: "16384 \<le> hw - word_of_nat c \<longleftrightarrow> 16384 \<le> h - c" by (simp add: word_le_nat_alt)
      have t: "window_test (word_of_nat c) (rw_seen w) \<longleftrightarrow> c \<in> A" if "h < c + 16384"
        using old [of c] that False by (simp add: window_test_iff i)
      have "seen_at (window_set (word_of_nat c) (rw_seen w)) (d mod 16384) \<longleftrightarrow> d \<in> insert c A"
        if "d \<le> h" "h < d + 16384" "h < c + 16384" for d
        using that old [of d] close_mod_eq [of d c] False by (auto simp: seen_window_set [OF len] i)
      then show ?thesis
        using rel False less big t le len
        by (auto simp: window_accept_def spec_accept_def s h Some window_rel_def h_def [symmetric])
    qed
  qed
qed

section \<open>Sequence numbers\<close>

lemma word_of_nat_unat_id: "word_of_nat (unat w) = (w :: u64)"
  by simp

lemma and_not_plus_and: "(h AND NOT m) + (h AND m) = (h :: u64)"
  by (subst disjunctive_add_eq_or) (auto simp: bit_eq_iff bit_simps)

lemma base_of: "unat ((h :: u64) AND NOT 0xffff) = unat h - unat h mod 65536"
proof -
  let ?b = "h AND NOT 0xffff" and ?t = "h AND 0xffff"
  have t: "unat ?t = unat h mod 65536"
  proof -
    have "?t = take_bit 16 h" by (simp add: take_bit_eq_mask mask_eq_exp_minus_1)
    then show ?thesis by (simp only: unsigned_take_bit_eq take_bit_nat_def) simp
  qed
  have sum: "?b + ?t = h" by (rule and_not_plus_and)
  have "?b \<le> h" by (simp add: word_and_le2)
  then have "unat h = unat ?b + unat ?t" using sum
    by (metis add_diff_cancel_left' add.commute le_add_diff_inverse unat_sub word_le_nat_alt)
  then show ?thesis using t by linarith
qed

lemma extended_base:
  "unat ((h AND NOT 0xffff) OR (ucast (q :: u16) :: u64)) = unat h - unat h mod 65536 + unat q"
proof -
  let ?b = "h AND NOT 0xffff"
  have less: "unat q < 65536" using unsigned_less [of q] by simp
  then have q: "unat (ucast q :: u64) = unat q"
    by (simp add: unsigned_ucast_eq take_bit_nat_eq_self)
  have "(h AND NOT m) AND ucast q = 0" if m: "\<And>n. bit m n \<longleftrightarrow> n < 16" for m
    by (rule bit_eqI) (auto simp: bit_and_iff bit_not_iff bit_ucast_iff m dest: bit_imp_le_length)
  moreover have "bit (0xffff :: u64) n \<longleftrightarrow> n < 16" for n
    using bit_mask_iff [of 16 n, where ?'a = u64] by (auto simp: mask_eq_exp_minus_1)
  ultimately have "?b AND ucast q = 0" by blast
  then have "?b OR ucast q = ?b + ucast q" by (simp add: disjunctive_add_eq_or)
  moreover have "unat ?b + unat q < 2 ^ 64"
  proof -
    have "unat h - unat h mod 65536 = unat h div 65536 * 65536" by (simp add: minus_mod_eq_div_mult)
    moreover have "unat h div 65536 < 2 ^ 48" using unsigned_less [of h, where ?'a = nat] by (simp add: less_mult_imp_div_less)
    ultimately show ?thesis unfolding base_of using less by simp
  qed
  ultimately have "unat (?b OR ucast q) = unat ?b + unat q"
    using q by (simp only: unat_word_ariths) simp
  then show ?thesis unfolding base_of .
qed

text \<open>Around the highest counter, half a cycle to each side, a sequence number stands for one counter.\<close>

lemma extend_sequence_exact:
  assumes h: "unat h < 2 ^ 63" and n: "n < unat h + 2 ^ 15" "unat h < n + 2 ^ 15"
  shows "extend_sequence h (word_of_nat n) = word_of_nat n"
proof -
  define e where "e = (h AND NOT 0xffff) OR (ucast (word_of_nat n :: u16) :: u64)"
  define k where "k = unat h div 65536"
  have q: "unat (word_of_nat n :: u16) = n mod 65536" by (simp add: unat_of_nat)
  have e: "unat e = k * 65536 + n mod 65536"
    using extended_base [of h "word_of_nat n"] by (simp add: e_def q k_def minus_mod_eq_div_mult)
  have hk: "unat h = k * 65536 + unat h mod 65536" by (simp add: k_def)
  have hm: "unat h mod 65536 < 65536" "n mod 65536 < 65536" by simp_all
  have nk: "n = n div 65536 * 65536 + n mod 65536" by simp
  have small: "unat e < 2 ^ 63 + 2 ^ 17" using e hk h hm by simp
  have sat: "unat (sat_add64 e 32768) = unat e + 32768" "unat (sat_add64 e 65536) = unat e + 65536"
    "unat (sat_add64 h 32768) = unat h + 32768"
    using small h by (simp_all add: unat_sat_add64)
  let ?r = "extend_sequence h (word_of_nat n)"
  have r: "?r = (if sat_add64 e (2 ^ 15) < h then sat_add64 e (2 ^ 16)
      else if e > sat_add64 h (2 ^ 15) \<and> e \<ge> 2 ^ 16 then e - 2 ^ 16 else e)"
    by (simp add: extend_sequence_def e_def Let_def)
  have cases: "n div 65536 = k \<or> n div 65536 = k + 1 \<or> k = n div 65536 + 1"
  proof (rule ccontr)
    assume "\<not> ?thesis"
    then consider "k + 2 \<le> n div 65536" | "n div 65536 + 2 \<le> k" by linarith
    then show False
    proof cases
      case 1
      then have "(k + 2) * 65536 \<le> n div 65536 * 65536" by (rule mult_le_mono1)
      then show False using n hk nk hm by simp
    next
      case 2
      then have "(n div 65536 + 2) * 65536 \<le> k * 65536" by (rule mult_le_mono1)
      then show False using n hk nk hm by simp
    qed
  qed
  then have "unat ?r = n"
  proof (elim disjE)
    assume "n div 65536 = k"
    then have "unat e = n" using e nk by simp
    then show ?thesis using n by (simp add: r word_less_nat_alt sat)
  next
    assume "n div 65536 = k + 1"
    then have "unat e + 2 ^ 16 = n" using e nk by (simp add: algebra_simps)
    then show ?thesis using n by (simp add: r word_less_nat_alt sat)
  next
    assume "k = n div 65536 + 1"
    then have en: "unat e = n + 2 ^ 16" using e nk by (simp add: algebra_simps)
    then have "\<not> sat_add64 e (2 ^ 15) < h" "e > sat_add64 h (2 ^ 15)" "e \<ge> 2 ^ 16"
      using n by (simp_all add: word_less_nat_alt word_le_nat_alt sat)
    then show ?thesis using en by (simp add: r unat_sub word_le_nat_alt)
  qed
  then show ?thesis by (metis word_of_nat_unat_id)
qed

section \<open>Runs\<close>

fun accept_run :: "('a \<Rightarrow> 's \<Rightarrow> bool \<times> 's) \<Rightarrow> 'a list \<Rightarrow> 's \<Rightarrow> bool list" where
  "accept_run f [] s = []"
| "accept_run f (x # xs) s = (let (b, s) = f x s in b # accept_run f xs s)"

lemma length_accept_run [simp]: "length (accept_run f xs s) = length xs"
  by (induction xs arbitrary: s) (simp_all add: case_prod_unfold Let_def)

text \<open>The counters stay within half a cycle of the highest one before them.\<close>

fun in_reach :: "nat \<Rightarrow> nat list \<Rightarrow> bool" where
  "in_reach h [] = True"
| "in_reach h (n # ns) = (n < h + 2 ^ 15 \<and> h < n + 2 ^ 15 \<and> max h n < 2 ^ 63 \<and> in_reach (max h n) ns)"

lemma new_window_rel: "window_rel new_window (None, {})"
  by (simp add: window_rel_def new_window_def seen_at_zero)

lemma rtp_step:
  assumes "window_rel w (Some h, A)" "n < h + 2 ^ 15" "h < n + 2 ^ 15" "max h n < 2 ^ 63"
  shows "fst (accept_rtp (word_of_nat n) w) = fst (spec_accept n (Some h, A))"
    and "window_rel (snd (accept_rtp (word_of_nat n) w)) (snd (spec_accept n (Some h, A)))"
proof -
  obtain hw where hw: "rw_highest w = Some hw" "unat hw = h"
    using assms(1) by (auto simp: window_rel_def)
  have "accept_rtp (word_of_nat n) w = window_accept (word_of_nat n) w"
    using assms(2-) hw by (simp add: accept_rtp_def extend_sequence_exact)
  then show "fst (accept_rtp (word_of_nat n) w) = fst (spec_accept n (Some h, A))"
    and "window_rel (snd (accept_rtp (word_of_nat n) w)) (snd (spec_accept n (Some h, A)))"
    using accept_refines [OF assms(1), of n] assms(4) by simp_all
qed

lemma spec_highest: "\<exists>A'. snd (spec_accept n (Some h, A)) = (Some (max h n), A') \<or> snd (spec_accept n (Some h, A)) = (Some h, A) \<and> n \<le> h"
  if "\<forall>c\<in>A. c \<le> h"
  using that by (auto simp: spec_accept_def max_def)

lemma rtp_run:
  "window_rel w (Some h, A) \<Longrightarrow> in_reach h ns \<Longrightarrow>
     accept_run accept_rtp (map word_of_nat ns) w = accept_run spec_accept ns (Some h, A)"
proof (induction ns arbitrary: w h A)
  case (Cons n ns)
  have reach: "n < h + 2 ^ 15" "h < n + 2 ^ 15" "max h n < 2 ^ 63" "in_reach (max h n) ns"
    using Cons.prems(2) by simp_all
  note step = rtp_step [OF Cons.prems(1) reach(1-3)]
  have le: "\<forall>c\<in>A. c \<le> h" using Cons.prems(1) by (simp add: window_rel_def)
  obtain A' where A': "snd (spec_accept n (Some h, A)) = (Some (max h n), A')"
    using spec_highest [OF le, of n] by (auto simp: max_def)
  have "accept_run accept_rtp (map word_of_nat ns) (snd (accept_rtp (word_of_nat n) w))
      = accept_run spec_accept ns (snd (spec_accept n (Some h, A)))"
    using Cons.IH [of _ "max h n" A'] step(2) reach(4) A' by simp
  then show ?case using step(1) by (simp add: case_prod_unfold Let_def)
qed simp

text \<open>In closed form: a counter is accepted at its first arrival, unless it is 16384 behind.\<close>

definition fresh_at :: "nat list \<Rightarrow> nat \<Rightarrow> bool" where
  "fresh_at ns i \<longleftrightarrow> ns ! i \<notin> set (take i ns) \<and> (\<forall>m\<in>set (take i ns). m < ns ! i + 16384)"

definition spec_after :: "nat list \<Rightarrow> replay_spec \<Rightarrow> bool" where
  "spec_after ps = (\<lambda>(highest, A). A \<subseteq> set ps \<and> (case highest of None \<Rightarrow> ps = []
     | Some h \<Rightarrow> h \<in> set ps \<and> (\<forall>m\<in>set ps. m \<le> h) \<and> (\<forall>m\<in>set ps. h < m + 16384 \<longrightarrow> m \<in> A)))"

lemma spec_step:
  assumes "spec_after ps s"
  shows "fst (spec_accept n s) \<longleftrightarrow> n \<notin> set ps \<and> (\<forall>m\<in>set ps. m < n + 16384)"
    and "spec_after (ps @ [n]) (snd (spec_accept n s))"
proof -
  obtain highest A where s: "s = (highest, A)" by fastforce
  show "fst (spec_accept n s) \<longleftrightarrow> n \<notin> set ps \<and> (\<forall>m\<in>set ps. m < n + 16384)"
  proof (cases highest)
    case (Some h)
    have h: "h \<in> set ps" "\<forall>m\<in>set ps. m \<le> h" "\<forall>m\<in>set ps. h < m + 16384 \<longrightarrow> m \<in> A" "A \<subseteq> set ps"
      using assms by (simp_all add: spec_after_def s Some)
    have "(\<forall>m\<in>set ps. m < n + 16384) \<longleftrightarrow> h < n + 16384" using h(1,2) by fastforce
    then show ?thesis using h(3,4) by (auto simp: spec_accept_def s Some)
  qed (use assms in \<open>simp add: spec_after_def spec_accept_def s\<close>)
  show "spec_after (ps @ [n]) (snd (spec_accept n s))"
    using assms by (auto simp: spec_after_def spec_accept_def s max_def subset_iff intro: antisym split: option.splits)
qed

lemma spec_run:
  "spec_after ps s \<Longrightarrow> accept_run spec_accept ns s = map (\<lambda>i. fresh_at (ps @ ns) (length ps + i)) [0..<length ns]"
proof (induction ns arbitrary: ps s)
  case (Cons n ns)
  note step = spec_step [OF Cons.prems, of n]
  have "fst (spec_accept n s) = fresh_at (ps @ n # ns) (length ps)"
    using step(1) by (simp add: fresh_at_def)
  then show ?case
    using Cons.IH [OF step(2)] by (simp add: case_prod_unfold Let_def upt_conv_Cons map_Suc_upt [symmetric] comp_def del: upt_Suc)
qed simp

lemma fresh_run:
  assumes "n < 2 ^ 16" "in_reach n ns"
  shows "accept_run accept_rtp (map word_of_nat (n # ns)) new_window = map (fresh_at (n # ns)) [0..<length (n # ns)]"
proof -
  have u: "(ucast (word_of_nat n :: u16) :: u64) = word_of_nat n" using assms(1)
    by (simp add: unsigned_of_nat take_bit_nat_eq_self)
  have first: "accept_rtp (word_of_nat n) new_window = window_accept (word_of_nat n) new_window"
    by (simp add: accept_rtp_def new_window_def u)
  have "fst (spec_accept n (None, {}))" "snd (spec_accept n (None, {})) = (Some n, {n})"
    by (simp_all add: spec_accept_def)
  moreover note accept_refines [OF new_window_rel, of n]
  ultimately have 1: "fst (accept_rtp (word_of_nat n) new_window)" "window_rel (snd (accept_rtp (word_of_nat n) new_window)) (Some n, {n})"
    using assms(1) first by simp_all
  have "accept_run accept_rtp (map word_of_nat (n # ns)) new_window = True # accept_run spec_accept ns (Some n, {n})"
    using 1(1) rtp_run [OF 1(2) assms(2)] by (simp add: case_prod_unfold Let_def)
  also have "\<dots> = accept_run spec_accept (n # ns) (None, {})"
    by (simp add: spec_accept_def)
  also have "\<dots> = map (fresh_at (n # ns)) [0..<length (n # ns)]"
    using spec_run [of "[]" "(None, {})" "n # ns"] by (simp add: spec_after_def)
  finally show ?thesis .
qed

text \<open>
  The replay protection is the set of the counters it accepted: when packets arrive in any order,
  repeated at will, but each within half a cycle of the sequence numbers around the highest one so far, a packet
  is accepted exactly if its counter has not arrived before and is less than 16384 behind, and the
  counter behind the 16-bit sequence number is always recovered.
\<close>

theorem replay_window_is_a_set:
  assumes "n < 2 ^ 16" "in_reach n ns"
  shows "accept_run accept_rtp (map word_of_nat (n # ns)) new_window = map (fresh_at (n # ns)) [0..<length (n # ns)]"
  by (rule fresh_run [OF assms])

lemma replay_window_is_a_set_witness:
  "accept_run accept_rtp (map word_of_nat [65534, 65537, 65535, 65537, 90000, 73000, 73617]) new_window
     = [True, True, True, False, True, False, True]"
  using replay_window_is_a_set [of 65534 "[65537, 65535, 65537, 90000, 73000, 73617]"]
  by (simp add: fresh_at_def upt_rec)

text \<open>
  A recorded packet becomes fresh again: once the sender is more than half a cycle, 32768
  counters, ahead of it, its sequence number is taken for one of the next cycle, so a replay of the
  packet is accepted, and it moves the window so far ahead that the sender's next packets, up to
  16384 short of it, are refused as too old.
\<close>

theorem old_packet_is_accepted_again:
  assumes "rw_highest w = Some h" "unat h < 2 ^ 62" "n + 2 ^ 15 < unat h" "unat h < n + 2 ^ 16"
  shows "\<exists>w'. accept_rtp (word_of_nat n) w = (True, w') \<and> (\<forall>k. unat h < k \<and> k + 16384 \<le> n + 2 ^ 16 \<longrightarrow> fst (accept_rtp (word_of_nat k) w') = False)"
proof -
  define m where "m = n + 2 ^ 16"
  have mw: "(word_of_nat n :: u16) = word_of_nat m" by (simp add: m_def word_eq_iff_unsigned unat_of_nat)
  have e: "extend_sequence h (word_of_nat m) = word_of_nat m"
    using assms by (intro extend_sequence_exact) (simp_all add: m_def)
  have "m < 2 ^ 64" using assms by (simp add: m_def)
  then have um: "unat (word_of_nat m :: u64) = m" by (simp add: unat_of_nat)
  have lt: "h < word_of_nat m" using assms(4) um m_def by (simp add: word_less_nat_alt)
  obtain w' where w': "accept_rtp (word_of_nat n) w = (True, w')" "rw_highest w' = Some (word_of_nat m)"
    using assms(1) e lt by (simp add: accept_rtp_def mw window_accept_def Let_def)
  have "fst (accept_rtp (word_of_nat k) w') = False" if k: "unat h < k" "k + 16384 \<le> m" for k
  proof -
    have ek: "extend_sequence (word_of_nat m) (word_of_nat k) = word_of_nat k"
      using assms k um by (intro extend_sequence_exact) (simp_all add: m_def)
    have uk: "unat (word_of_nat k :: u64) = k" using assms k by (simp add: m_def unat_of_nat)
    have "\<not> (word_of_nat m :: u64) < word_of_nat k" using k um uk by (simp add: word_less_nat_alt)
    moreover have "16384 \<le> (word_of_nat m :: u64) - word_of_nat k"
      using k um uk by (simp add: word_le_nat_alt unat_sub)
    ultimately show ?thesis using w'(2) ek by (simp add: accept_rtp_def window_accept_def)
  qed
  then show ?thesis using w'(1) by (auto simp: m_def)
qed

lemma old_packet_is_accepted_again_witness:
  "\<exists>w'. accept_rtp 7 \<lparr>rw_highest = Some 40000, rw_seen = replicate 256 (- 1)\<rparr> = (True, w')
     \<and> fst (accept_rtp 40001 w') = False"
  using old_packet_is_accepted_again [of "\<lparr>rw_highest = Some 40000, rw_seen = replicate 256 (- 1)\<rparr>" 40000 7]
  by (auto dest!: spec [of _ "40001 :: nat"])

section \<open>The inbound path\<close>

lemma unwrap_is_rtp:
  assumes "unwrap C p mode = Some (Inr r)"
  shows "is_rtp_packet (pb_slice p)"
  using assms by (auto simp: unwrap_def is_rtp_packet_def Let_def idx_def split: if_splits bind_splits)

text \<open>\<open>q\<close> is the datagram that carries the payload \<open>p\<close> under the counter \<open>n\<close>.\<close>

definition sent_as :: "'r rng_ops \<Rightarrow> obfs_cipher \<Rightarrow> obfs_mode \<Rightarrow> nat \<times> bytes \<Rightarrow> packet_buf \<Rightarrow> bool" where
  "sent_as R C mode = (\<lambda>(n, payload) q. \<exists>p ssrc now st st'. wf_packet p \<and> pb_slice p = payload
     \<and> wrap R C p (new_config mode ssrc) now st = (Inr q, st') \<and> initial_sequence st (os_count st) = word_of_nat n)"

fun deliver_run :: "obfs_cipher \<Rightarrow> obfs_config \<Rightarrow> packet_buf list \<Rightarrow> replay_window \<Rightarrow> bytes option list option" where
  "deliver_run C config [] w = Some []"
| "deliver_run C config (q # qs) w = do {
     (r, w) \<leftarrow> authenticate_inbound C config w q;
     rs \<leftarrow> deliver_run C config qs w;
     Some (map_option pb_slice r # rs)
   }"

lemma authenticate_sent:
  assumes "cipher_ok C" "rng_ok R" "sent_as R C (oc_mode config) (n, payload) q"
  shows "\<exists>u. authenticate_inbound C config w q =
    Some (if fst (accept_rtp (word_of_nat n) w) then Some u else None, snd (accept_rtp (word_of_nat n) w))
    \<and> pb_slice u = payload"
proof -
  obtain p ssrc now st st' where p: "wf_packet p" "pb_slice p = payload"
    and w: "wrap R C p (new_config (oc_mode config) ssrc) now st = (Inr q, st')"
    and n: "initial_sequence st (os_count st) = word_of_nat n"
    using assms(3) by (auto simp: sent_as_def)
  obtain u where u: "unwrap C q (oc_mode config) = Some (Inr (word_of_nat n, u))" "pb_slice u = payload"
    using wrapped_unwraps [OF assms(1,2) p(1) w] n p(2) by auto
  then show ?thesis
    using unwrap_is_rtp [OF u(1)] by (auto simp: authenticate_inbound_def case_prod_unfold Let_def)
qed

lemma deliver_run_sent:
  assumes "cipher_ok C" "rng_ok R" "list_all2 (sent_as R C (oc_mode config)) xs qs"
  shows "deliver_run C config qs w = Some (map2 (\<lambda>x b. if b then Some (snd x) else None) xs
    (accept_run accept_rtp (map (\<lambda>x. word_of_nat (fst x)) xs) w))"
  using assms(3)
proof (induction xs qs arbitrary: w rule: list_all2_induct)
  case (Cons x xs q qs)
  obtain u where "authenticate_inbound C config w q =
      Some (if fst (accept_rtp (word_of_nat (fst x)) w) then Some u else None, snd (accept_rtp (word_of_nat (fst x)) w))"
    "pb_slice u = snd x"
    using authenticate_sent [OF assms(1,2), of config "fst x" "snd x" q w] Cons.hyps by auto
  then show ?case using Cons.IH by (simp add: case_prod_unfold Let_def)
qed simp

text \<open>
  C18: The inbound path delivers every packet of the peer once: when its datagrams arrive in any
  order and repeated at will, each within half a cycle of the highest so far, the session hands on
  exactly the payload of each first arrival that is less than 16384 behind, unchanged, and nothing
  for the others.
\<close>

theorem inbound_delivers_once:
  assumes "cipher_ok C" "rng_ok R" "list_all2 (sent_as R C (oc_mode config)) xs qs"
    and "xs \<noteq> []" "fst (hd xs) < 2 ^ 16" "in_reach (fst (hd xs)) (map fst (tl xs))"
  shows "deliver_run C config qs new_window =
    Some (map (\<lambda>i. if fresh_at (map fst xs) i then Some (snd (xs ! i)) else None) [0..<length xs])"
proof -
  obtain x ys where xs: "xs = x # ys" using assms(4) by (cases xs) auto
  have "accept_run accept_rtp (map (\<lambda>x. word_of_nat (fst x)) xs) new_window = map (fresh_at (map fst xs)) [0..<length xs]"
    using fresh_run [of "fst x" "map fst ys"] assms(5,6) by (simp add: xs comp_def)
  then have "deliver_run C config qs new_window =
      Some (map2 (\<lambda>x b. if b then Some (snd x) else None) xs (map (fresh_at (map fst xs)) [0..<length xs]))"
    unfolding deliver_run_sent [OF assms(1-3), of new_window] by simp
  moreover have "map2 (\<lambda>x b. if b then Some (snd x) else None) xs (map f [0..<length xs])
      = map (\<lambda>i. if f i then Some (snd (xs ! i)) else None) [0..<length xs]" for f
    by (rule nth_equalityI) auto
  ultimately show ?thesis by simp
qed

lemma inbound_delivers_once_witness:
  "\<exists>q. deliver_run plain_cipher (new_config Video 1) [q, q] new_window = Some [Some [7, 7], None]"
proof -
  let ?p = "\<lparr>pb_storage = replicate 2304 7, pb_start = 64, pb_end = 66\<rparr>"
  let ?st = "new_obfs_state zero_rng 0 0 ()"
  have slice: "pb_slice ?p = [7, 7]" by (simp add: pb_slice_def sub_def numeral_eq_Suc)
  obtain q st' where w: "wrap zero_rng plain_cipher ?p (new_config Video 1) 0 ?st = (Inr q, st')"
    by (simp add: wrap_def wrap_body_def next_count_def pb_is_empty_def new_config_def prepend_def
        extend_tail_def zero_rng_def new_obfs_state_def PACKET_CAPACITY_def Let_def)
  have "initial_sequence ?st (os_count ?st) = word_of_nat 0"
    by (simp add: initial_sequence_def new_obfs_state_def zero_rng_def)
  moreover have "wf_packet ?p" by (simp add: wf_packet_def PACKET_CAPACITY_def)
  ultimately have "sent_as zero_rng plain_cipher (oc_mode (new_config Video 1)) (0, [7, 7]) q"
    using w slice unfolding sent_as_def prod.case
    by (intro exI [of _ ?p] exI [of _ 1] exI [of _ 0] exI [of _ ?st] exI [of _ st']) (simp add: new_config_def)
  then have "deliver_run plain_cipher (new_config Video 1) [q, q] new_window = Some [Some [7, 7], None]"
    using inbound_delivers_once [OF plain_cipher_ok zero_rng_ok, of "new_config Video 1" "[(0, [7, 7]), (0, [7, 7])]" "[q, q]"]
    by (simp add: fresh_at_def upt_rec)
  then show ?thesis by blast
qed

end
