(* ===== verification/Stun_Codec.thy ===== *)
theory Stun_Codec
  imports Interfaces
begin

unbundle bit_operations_syntax

text \<open>
  The STUN message decoder, \<open>stun_codec.rs\<close>. \<open>decode\<close> validates the header and
  walks the attributes once; the attribute iterator walks them again without checks. Both read
  untrusted bytes, so the reads of the model keep their bound checks: an outer \<open>None\<close> is a
  panic, and the lemmas show that a decoded message never panics. The CRC-32 of the fingerprint is
  a parameter.
\<close>

section \<open>Messages\<close>

definition HEADER_SIZE :: nat where
  "HEADER_SIZE = 20"

definition STUN_MAGIC_COOKIE :: u32 where
  "STUN_MAGIC_COOKIE = 0x2112a442"

definition ATTR_FINGERPRINT :: u16 where
  "ATTR_FINGERPRINT = 0x8028"

definition FINGERPRINT_XOR :: u32 where
  "FINGERPRINT_XOR = 0x5354554e"

datatype stun_class = Request | Indication | Success | Error_class

record stun_attribute =
  at_kind :: u16
  at_value :: bytes
  at_header_start :: nat
  at_value_start :: nat
  at_value_end :: nat

record stun_message =
  sm_raw :: bytes
  sm_kind :: u16
  sm_transaction :: bytes
  sm_end :: nat

datatype stun_error =
    Header_truncated
  | Leading_bits
  | Type_zero
  | Cookie_mismatch
  | Length_not_aligned
  | Length_mismatch
  | Attr_header_truncated
  | Attr_value_truncated

text \<open>\<open>(length + 3) & !3\<close> on a \<open>usize\<close>.\<close>

definition padded_len :: "nat \<Rightarrow> nat" where
  "padded_len n = (n + 3) div 4 * 4"

lemma padded_len_bounds: "n \<le> padded_len n" "padded_len n < n + 4" "4 dvd padded_len n"
  by (auto simp: padded_len_def)

text \<open>A length field read at \<open>i\<close>; \<open>None\<close> is an index out of bounds.\<close>

definition read_be16 :: "bytes \<Rightarrow> nat \<Rightarrow> nat option" where
  "read_be16 raw i = do {
     a \<leftarrow> idx raw i;
     b \<leftarrow> idx raw (i + 1);
     Some (unat (from_be16 [a, b]))
   }"

function check_attributes :: "bytes \<Rightarrow> nat \<Rightarrow> nat \<Rightarrow> stun_error option option" where
  "check_attributes raw stop pos =
     (if pos < stop then
        if stop - pos < 4 then Some (Some Attr_header_truncated)
        else
          (case read_be16 raw (pos + 2) of
             None \<Rightarrow> None
           | Some len \<Rightarrow>
               let value_start = pos + 4;
                   next = value_start + padded_len len
               in if next > stop \<or> value_start + len > stop then Some (Some Attr_value_truncated)
                  else check_attributes raw stop next)
      else Some None)"
  by pat_completeness auto
termination by (relation "measure (\<lambda>(raw, stop, pos). stop - pos)") auto

declare check_attributes.simps [simp del]

definition stun_decode :: "bytes \<Rightarrow> (stun_error + stun_message) option" where
  "stun_decode raw =
     (if length raw < HEADER_SIZE then Some (Inl Header_truncated)
      else do {
        r0 \<leftarrow> idx raw 0;
        r1 \<leftarrow> idx raw 1;
        let kind = from_be16 [r0, r1];
        if kind AND 0xc000 \<noteq> 0 then Some (Inl Leading_bits)
        else if kind = 0 then Some (Inl Type_zero)
        else do {
          cookie \<leftarrow> slice raw 4 8;
          if cookie \<noteq> to_be32 STUN_MAGIC_COOKIE then Some (Inl Cookie_mismatch)
          else do {
            declared \<leftarrow> read_be16 raw 2;
            if declared mod 4 \<noteq> 0 then Some (Inl Length_not_aligned)
            else if length raw \<noteq> HEADER_SIZE + declared then Some (Inl Length_mismatch)
            else do {
              checked \<leftarrow> check_attributes raw (HEADER_SIZE + declared) HEADER_SIZE;
              (case checked of
                 Some e \<Rightarrow> Some (Inl e)
               | None \<Rightarrow> do {
                   transaction \<leftarrow> slice raw 8 20;
                   Some (Inr \<lparr>sm_raw = raw, sm_kind = kind, sm_transaction = transaction,
                              sm_end = HEADER_SIZE + declared\<rparr>)
                 })
            }
          }
        }
      })"

definition message_class :: "stun_message \<Rightarrow> stun_class" where
  "message_class m =
     (let c = (drop_bit 4 (sm_kind m) AND 1) OR (drop_bit 7 (sm_kind m) AND 2) in
      if c = 0 then Request else if c = 1 then Indication
      else if c = 2 then Success else Error_class)"

definition message_method :: "stun_message \<Rightarrow> u16" where
  "message_method m =
     (sm_kind m AND 0x000f) OR (drop_bit 1 (sm_kind m) AND 0x0070) OR (drop_bit 2 (sm_kind m) AND 0x0f80)"

section \<open>The attribute iterator\<close>

text \<open>\<open>next\<close>: \<open>Some None\<close> is the end of the iteration.\<close>

definition next_attribute :: "bytes \<Rightarrow> nat \<Rightarrow> nat \<Rightarrow> (stun_attribute \<times> nat) option option" where
  "next_attribute raw stop pos =
     (if pos \<ge> stop then Some None
      else do {
        kind \<leftarrow> map_option word_of_nat (read_be16 raw pos);
        len \<leftarrow> read_be16 raw (pos + 2);
        let value_start = pos + 4;
        let value_end = value_start + len;
        value \<leftarrow> slice raw value_start value_end;
        Some (Some (\<lparr>at_kind = (if kind = 0x8020 then 0x0020 else kind), at_value = value,
                     at_header_start = pos, at_value_start = value_start,
                     at_value_end = value_end\<rparr>,
                    value_start + padded_len len))
      })"

lemma next_attribute_grows:
  "next_attribute raw stop pos = Some (Some (a, p)) \<Longrightarrow> pos < stop \<and> pos + 4 \<le> p"
  by (auto simp: next_attribute_def Let_def split: if_splits bind_splits)

text \<open>\<open>find\<close> over the iterator stops at the first attribute of the kind.\<close>

function find_attribute :: "bytes \<Rightarrow> nat \<Rightarrow> nat \<Rightarrow> u16 \<Rightarrow> stun_attribute option option" where
  "find_attribute raw stop pos target =
     (case next_attribute raw stop pos of
        None \<Rightarrow> None
      | Some None \<Rightarrow> Some None
      | Some (Some (a, pos')) \<Rightarrow>
          if at_kind a = target then Some (Some a)
          else find_attribute raw stop pos' target)"
  by pat_completeness auto
termination
  by (relation "measure (\<lambda>(raw, stop, pos, target). stop - pos)")
     (auto dest!: next_attribute_grows)

declare find_attribute.simps [simp del]

definition attribute_checked :: "stun_message \<Rightarrow> u16 \<Rightarrow> stun_attribute option option" where
  "attribute_checked m target = find_attribute (sm_raw m) (sm_end m) HEADER_SIZE target"

definition attribute :: "stun_message \<Rightarrow> u16 \<Rightarrow> stun_attribute option" where
  "attribute m target = Option.bind (attribute_checked m target) (\<lambda>r. r)"

definition fingerprint_valid :: "(bytes \<Rightarrow> u32) \<Rightarrow> stun_message \<Rightarrow> bool option" where
  "fingerprint_valid crc32 m =
     (case attribute m ATTR_FINGERPRINT of
        None \<Rightarrow> None
      | Some a \<Rightarrow>
          if length (at_value a) \<noteq> 4 \<or> at_header_start a + 8 \<noteq> sm_end m then Some False
          else Some (from_be32 (at_value a)
                 = crc32 (take (at_header_start a) (sm_raw m)) XOR FINGERPRINT_XOR))"

section \<open>Attribute lists\<close>

text \<open>
  The byte form of an attribute with its zero padding, and a message body as a list of kinds and
  values. This is the abstract view against which decoder and builder are related.
\<close>

definition attribute_bytes :: "u16 \<times> bytes \<Rightarrow> bytes" where
  "attribute_bytes = (\<lambda>(kind, value). to_be16 kind @ to_be16 (word_of_nat (length value)) @ value
     @ replicate (padded_len (length value) - length value) 0)"

definition valid_attribute :: "u16 \<times> bytes \<Rightarrow> bool" where
  "valid_attribute = (\<lambda>(kind, value). length value < 2 ^ 16)"

abbreviation body_bytes :: "(u16 \<times> bytes) list \<Rightarrow> bytes" where
  "body_bytes as \<equiv> concat (map attribute_bytes as)"

lemma length_attribute_bytes [simp]:
  "length (attribute_bytes (k, v)) = 4 + padded_len (length v)"
  using padded_len_bounds(1) [of "length v"] by (simp add: attribute_bytes_def)

lemma read_be16_at:
  assumes "i = length xs" "length ys = 2"
  shows "read_be16 (xs @ ys @ zs) i = Some (unat (from_be16 ys))"
proof -
  obtain a b where "ys = [a, b]" using length_2 [OF assms(2)] by auto
  then show ?thesis using assms(1) by (simp add: read_be16_def idx_def nth_append)
qed

lemma read_be16_less: "read_be16 raw i = Some n \<Longrightarrow> n < 2 ^ 16 \<and> i + 1 < length raw"
proof -
  have "unat w < 2 ^ 16" for w :: u16 using unsigned_less [of w] by simp
  then show "read_be16 raw i = Some n \<Longrightarrow> n < 2 ^ 16 \<and> i + 1 < length raw"
    by (auto simp: read_be16_def idx_def split: if_splits)
qed

lemma unat_word_of_len: "n < 2 ^ 16 \<Longrightarrow> unat (word_of_nat n :: u16) = n"
  by (simp add: unat_of_nat)

text \<open>One step of each walk over a well-formed attribute.\<close>

lemma check_attributes_step:
  assumes v: "length v < 2 ^ 16" and p: "p = length A"
    and stop: "p + 4 + padded_len (length v) \<le> stop"
  shows "check_attributes (A @ attribute_bytes (k, v) @ B) stop p =
    check_attributes (A @ attribute_bytes (k, v) @ B) stop (p + 4 + padded_len (length v))"
proof -
  have "read_be16 (A @ attribute_bytes (k, v) @ B) (p + 2) = Some (length v)"
    using read_be16_at [of "p + 2" "A @ to_be16 k" "to_be16 (word_of_nat (length v))"]
    by (simp add: attribute_bytes_def p unat_word_of_len [OF v])
  moreover have "\<not> stop - p < 4" using stop by linarith
  ultimately show ?thesis
    using stop padded_len_bounds(1) [of "length v"]
    by (subst check_attributes.simps) (simp add: Let_def add.assoc)
qed

lemma next_attribute_step:
  assumes v: "length v < 2 ^ 16" and p: "p = length A" "p < stop"
  shows "next_attribute (A @ attribute_bytes (k, v) @ B) stop p =
    Some (Some (\<lparr>at_kind = (if k = 0x8020 then 0x0020 else k), at_value = v, at_header_start = p,
       at_value_start = p + 4, at_value_end = p + 4 + length v\<rparr>, p + 4 + padded_len (length v)))"
proof -
  let ?raw = "A @ attribute_bytes (k, v) @ B"
  have "read_be16 ?raw p = Some (unat k)"
    using read_be16_at [of p A "to_be16 k"] by (simp add: attribute_bytes_def p)
  moreover have "read_be16 ?raw (p + 2) = Some (length v)"
    using read_be16_at [of "p + 2" "A @ to_be16 k" "to_be16 (word_of_nat (length v))"]
    by (simp add: attribute_bytes_def p unat_word_of_len [OF v])
  moreover have "slice ?raw (p + 4) (p + 4 + length v) = Some v"
    using sub_append [of "p + 4" "A @ to_be16 k @ to_be16 (word_of_nat (length v))" "p + 4 + length v" v]
      padded_len_bounds(1) [of "length v"]
    by (simp add: slice_def p attribute_bytes_def)
  ultimately show ?thesis
    using p by (simp add: next_attribute_def Let_def)
qed

text \<open>The whole body.\<close>

fun view_attribute :: "nat \<Rightarrow> (u16 \<times> bytes) list \<Rightarrow> u16 \<Rightarrow> stun_attribute option" where
  "view_attribute p [] target = None"
| "view_attribute p ((k, v) # as) target =
     (if (if k = 0x8020 then 0x0020 else k) = target
      then Some \<lparr>at_kind = (if k = 0x8020 then 0x0020 else k), at_value = v, at_header_start = p,
                 at_value_start = p + 4, at_value_end = p + 4 + length v\<rparr>
      else view_attribute (p + 4 + padded_len (length v)) as target)"

lemma length_body_Cons:
  "length (body_bytes ((k, v) # as)) = 4 + padded_len (length v) + length (body_bytes as)"
  by simp

lemma check_attributes_body:
  "list_all valid_attribute as \<Longrightarrow>
     check_attributes (A @ body_bytes as) (length (A @ body_bytes as)) (length A) = Some None"
proof (induction as arbitrary: A)
  case Nil
  show ?case by (simp add: check_attributes.simps)
next
  case (Cons a as)
  obtain k v where a: "a = (k, v)" by (cases a)
  with Cons.prems have v: "length v < 2 ^ 16" "list_all valid_attribute as"
    by (auto simp: valid_attribute_def)
  show ?case
    using check_attributes_step [OF v(1) refl, of A "length (A @ body_bytes (a # as))" k "body_bytes as"]
      Cons.IH [OF v(2), of "A @ attribute_bytes (k, v)"]
    by (simp add: a add.assoc)
qed

lemma find_attribute_body:
  "list_all valid_attribute as \<Longrightarrow>
     find_attribute (A @ body_bytes as) (length (A @ body_bytes as)) (length A) target
       = Some (view_attribute (length A) as target)"
proof (induction as arbitrary: A)
  case Nil
  show ?case by (simp add: find_attribute.simps next_attribute_def)
next
  case (Cons a as)
  obtain k v where a: "a = (k, v)" by (cases a)
  with Cons.prems have v: "length v < 2 ^ 16" "list_all valid_attribute as"
    by (auto simp: valid_attribute_def)
  show ?case
    using next_attribute_step [OF v(1) refl, of A "length (A @ body_bytes (a # as))" k "body_bytes as"]
      Cons.IH [OF v(2), of "A @ attribute_bytes (k, v)"]
    by (subst find_attribute.simps) (simp add: a add.assoc)
qed

text \<open>The header in front of a body, with the length field of the whole.\<close>

definition header_bytes_of :: "u16 \<Rightarrow> nat \<Rightarrow> bytes \<Rightarrow> bytes" where
  "header_bytes_of kind len transaction =
     to_be16 kind @ to_be16 (word_of_nat len) @ to_be32 STUN_MAGIC_COOKIE @ transaction"

definition message_bytes :: "u16 \<Rightarrow> bytes \<Rightarrow> (u16 \<times> bytes) list \<Rightarrow> bytes" where
  "message_bytes kind transaction as =
     header_bytes_of kind (length (body_bytes as)) transaction @ body_bytes as"

lemma length_header_bytes_of [simp]:
  "length (header_bytes_of kind len transaction) = 8 + length transaction"
  by (simp add: header_bytes_of_def)

lemma body_aligned: "4 dvd length (body_bytes as)"
proof (induction as)
  case (Cons a as)
  then show ?case using padded_len_bounds(3) [of "length (snd a)"] by (cases a) (simp add: dvd_add)
qed simp

lemma stun_decode_message:
  assumes kind: "kind AND 0xc000 = 0" "kind \<noteq> 0" and t: "length transaction = 12"
    and as: "list_all valid_attribute as" and len: "length (body_bytes as) < 2 ^ 16"
  shows "stun_decode (message_bytes kind transaction as) =
    Some (Inr \<lparr>sm_raw = message_bytes kind transaction as, sm_kind = kind, sm_transaction = transaction,
               sm_end = 20 + length (body_bytes as)\<rparr>)"
proof -
  let ?raw = "message_bytes kind transaction as" and ?n = "length (body_bytes as)"
  let ?l = "to_be16 (word_of_nat ?n) :: bytes"
  have raw: "?raw = to_be16 kind @ ?l @ to_be32 STUN_MAGIC_COOKIE @ transaction @ body_bytes as"
    by (simp add: message_bytes_def header_bytes_of_def)
  obtain a b where ab: "to_be16 kind = [a, b]" using length_2 length_to_be(1) by metis
  have length: "length ?raw = 20 + ?n" using t by (simp add: message_bytes_def)
  have i: "idx ?raw 0 = Some a" "idx ?raw (Suc 0) = Some b"
    by (simp_all add: idx_def raw ab)
  have k: "from_be16 [a, b] = kind" using from_to_be16 [of kind] ab by simp
  have c: "slice ?raw 4 8 = Some (to_be32 STUN_MAGIC_COOKIE)"
    using sub_append [of 4 "to_be16 kind @ ?l" 8 "to_be32 STUN_MAGIC_COOKIE"] length
    by (simp add: slice_def raw)
  have d: "read_be16 ?raw 2 = Some ?n"
    using read_be16_at [of 2 "to_be16 kind" ?l] len by (simp add: raw unat_word_of_len)
  have tr: "slice ?raw 8 20 = Some transaction"
    using sub_append [of 8 "to_be16 kind @ ?l @ to_be32 STUN_MAGIC_COOKIE" 20 transaction "body_bytes as"]
      length t by (simp add: slice_def raw)
  have chk: "check_attributes ?raw (20 + ?n) 20 = Some None"
    using check_attributes_body [OF as, of "header_bytes_of kind ?n transaction"] t
    by (simp add: message_bytes_def)
  have al: "?n mod 4 = 0" using body_aligned [of as] by presburger
  show ?thesis
    unfolding stun_decode_def HEADER_SIZE_def
    using kind length i k c d tr chk al by (simp add: Let_def)
qed

lemma attribute_message:
  assumes "length transaction = 12" "list_all valid_attribute as"
    "sm_raw m = message_bytes kind transaction as" "sm_end m = 20 + length (body_bytes as)"
  shows "attribute m target = view_attribute 20 as target"
  using find_attribute_body [OF assms(2), of "header_bytes_of kind (length (body_bytes as)) transaction" target]
    assms by (simp add: attribute_def attribute_checked_def HEADER_SIZE_def message_bytes_def)

section \<open>Hostile bytes\<close>

lemma check_attributes_total:
  "stop \<le> length raw \<Longrightarrow> check_attributes raw stop pos \<noteq> None"
proof (induction raw stop pos rule: check_attributes.induct)
  case (1 raw stop pos)
  show ?case
  proof (cases "pos < stop \<and> \<not> stop - pos < 4")
    case False
    then show ?thesis by (subst check_attributes.simps) auto
  next
    case True
    then have "pos + 3 < length raw" using 1(2) by linarith
    then obtain n where n: "read_be16 raw (pos + 2) = Some n"
      by (simp add: read_be16_def idx_def)
    show ?thesis
      using 1 True n by (subst check_attributes.simps) (auto simp: Let_def)
  qed
qed

text \<open>A checked stretch of attributes never makes the iterator panic, and every value is in range.\<close>

lemma next_attribute_checked:
  assumes "check_attributes raw stop pos = Some None" "pos < stop" "stop \<le> length raw"
  obtains a p where "next_attribute raw stop pos = Some (Some (a, p))"
    "check_attributes raw stop p = Some None" "p \<le> stop"
    "at_value a = sub raw (at_value_start a) (at_value_end a)"
    "at_value_start a = pos + 4" "at_header_start a = pos" "at_value_end a \<le> p" "pos + 4 \<le> at_value_end a"
proof -
  have ge: "\<not> stop - pos < 4"
    using assms(1,2) by (subst (asm) check_attributes.simps) (auto split: if_splits)
  then have l: "pos + 3 < length raw" using assms(3) by linarith
  obtain k where k: "read_be16 raw pos = Some k" using l by (simp add: read_be16_def idx_def)
  obtain n where n: "read_be16 raw (pos + 2) = Some n" using l by (simp add: read_be16_def idx_def)
  have in_range: "pos + 4 + padded_len n \<le> stop" "check_attributes raw stop (pos + 4 + padded_len n) = Some None"
    using assms(1,2) ge n by (subst (asm) check_attributes.simps, auto simp: Let_def split: if_splits)+
  let ?kind = "word_of_nat k :: u16"
  show ?thesis
  proof (rule that)
    show "next_attribute raw stop pos =
        Some (Some (\<lparr>at_kind = (if ?kind = 0x8020 then 0x0020 else ?kind),
          at_value = sub raw (pos + 4) (pos + 4 + n), at_header_start = pos, at_value_start = pos + 4,
          at_value_end = pos + 4 + n\<rparr>, pos + 4 + padded_len n))"
      using assms k n in_range padded_len_bounds(1) [of n]
      by (simp add: next_attribute_def Let_def)
  qed (use in_range padded_len_bounds(1) [of n] in auto)
qed

lemma find_attribute_checked:
  "check_attributes raw stop pos = Some None \<Longrightarrow> stop \<le> length raw \<Longrightarrow>
     \<exists>r. find_attribute raw stop pos target = Some r \<and> (\<forall>a. r = Some a \<longrightarrow>
       at_value a = sub raw (at_value_start a) (at_value_end a) \<and> at_value_start a \<le> at_value_end a
       \<and> at_value_end a \<le> stop \<and> at_value_start a = at_header_start a + 4 \<and> pos \<le> at_header_start a)"
proof (induction raw stop pos target rule: find_attribute.induct)
  case (1 raw stop pos target)
  show ?case
  proof (cases "pos < stop")
    case False
    then show ?thesis by (simp add: find_attribute.simps [of raw stop pos] next_attribute_def)
  next
    case True
    obtain a p where a: "next_attribute raw stop pos = Some (Some (a, p))"
      "check_attributes raw stop p = Some None" "p \<le> stop"
      "at_value a = sub raw (at_value_start a) (at_value_end a)"
      "at_value_start a = pos + 4" "at_header_start a = pos" "at_value_end a \<le> p" "pos + 4 \<le> at_value_end a"
      by (rule next_attribute_checked [OF 1(2) True 1(3)])
    show ?thesis
    proof (cases "at_kind a = target")
      case True
      with a show ?thesis by (simp add: find_attribute.simps [of raw stop pos])
    next
      case False
      have "pos \<le> p" using next_attribute_grows [OF a(1)] by simp
      moreover have "find_attribute raw stop pos target = find_attribute raw stop p target"
        using a(1) False by (subst find_attribute.simps) simp
      moreover note 1(1) [OF a(1) refl refl False a(2) 1(3)]
      ultimately show ?thesis by (metis order_trans)
    qed
  qed
qed

lemma stun_decode_Inr:
  assumes "stun_decode raw = Some (Inr m)"
  shows "sm_raw m = raw \<and> sm_end m = length raw \<and> 20 \<le> length raw
    \<and> check_attributes raw (sm_end m) HEADER_SIZE = Some None \<and> length (sm_transaction m) = 12
    \<and> sm_transaction m = sub raw 8 20"
  using assms
  by (auto simp: stun_decode_def HEADER_SIZE_def Let_def idx_def slice_def
      split: if_splits option.splits bind_splits)

text \<open>
  C12: The STUN decoder is safe on hostile bytes: on any datagram it returns a message or an error,
  never a panic; and on a decoded message the search for any attribute returns without a panic,
  with the value inside the datagram.
\<close>

theorem stun_decode_safe:
  "\<exists>r. stun_decode raw = Some r \<and> (\<forall>m target. r = Inr m \<longrightarrow>
     (\<exists>found. attribute_checked m target = Some found \<and> (\<forall>a. found = Some a \<longrightarrow>
        at_value a = sub raw (at_value_start a) (at_value_end a) \<and> at_value_start a \<le> at_value_end a
        \<and> at_value_end a \<le> length raw \<and> at_value_start a = at_header_start a + 4)))"
proof -
  have "stun_decode raw \<noteq> None"
  proof (cases "20 \<le> length raw")
    case True
    obtain n where n: "read_be16 raw 2 = Some n" using True by (simp add: read_be16_def idx_def)
    have ne: "raw \<noteq> []" using True by auto
    show ?thesis
      using True n ne check_attributes_total [of "20 + n" raw 20]
      by (auto simp: stun_decode_def HEADER_SIZE_def Let_def split: option.splits)
  qed (simp add: stun_decode_def HEADER_SIZE_def)
  then obtain r where r: "stun_decode raw = Some r" by blast
  show ?thesis
  proof (intro exI [of _ r] conjI r allI impI)
    fix m target assume "r = Inr m"
    with r have m: "stun_decode raw = Some (Inr m)" by simp
    note d = stun_decode_Inr [OF this]
    show "\<exists>found. attribute_checked m target = Some found \<and> (\<forall>a. found = Some a \<longrightarrow>
        at_value a = sub raw (at_value_start a) (at_value_end a) \<and> at_value_start a \<le> at_value_end a
        \<and> at_value_end a \<le> length raw \<and> at_value_start a = at_header_start a + 4)"
      using find_attribute_checked [of raw "length raw" HEADER_SIZE target] d
      by (auto simp: attribute_checked_def)
  qed
qed

lemma stun_decode_safe_witness:
  "\<exists>m found. stun_decode (message_bytes 0x0101 (replicate 12 0) [(9, [0, 0, 4, 1])]) = Some (Inr m)
     \<and> sm_kind m = 0x0101 \<and> attribute_checked m 9 = Some found"
proof -
  have d: "stun_decode (message_bytes 0x0101 (replicate 12 0) [(9, [0, 0, 4, 1])]) =
      Some (Inr \<lparr>sm_raw = message_bytes 0x0101 (replicate 12 0) [(9, [0, 0, 4, 1])], sm_kind = 0x0101,
                 sm_transaction = replicate 12 0, sm_end = 28\<rparr>)"
    by (subst stun_decode_message) (simp_all add: valid_attribute_def padded_len_def)
  then show ?thesis
    using stun_decode_safe [of "message_bytes 0x0101 (replicate 12 0) [(9, [0, 0, 4, 1])]"] by fastforce
qed

end
