(* ===== verification/Stun_Message.thy ===== *)
theory Stun_Message
  imports Stun_Codec
begin

unbundle bit_operations_syntax

text \<open>
  The STUN messages of \<open>turn_core.rs\<close>: the request builder with its MESSAGE-INTEGRITY
  and FINGERPRINT attributes, the verification of responses, XOR addresses, error codes and the
  deadlines derived from a response. HMAC-SHA1 and CRC-32 are parameters. A socket address is its
  IP, four octets as a 32-bit word or sixteen octets, and its port.
\<close>

section \<open>Addresses\<close>

datatype ip_addr = V4 u32 | V6 bytes

record sock_addr =
  sa_ip :: ip_addr
  sa_port :: u16

definition is_ipv4 :: "sock_addr \<Rightarrow> bool" where
  "is_ipv4 a = (case sa_ip a of V4 _ \<Rightarrow> True | V6 _ \<Rightarrow> False)"

definition wf_addr :: "sock_addr \<Rightarrow> bool" where
  "wf_addr a = (case sa_ip a of V4 _ \<Rightarrow> True | V6 bs \<Rightarrow> length bs = 16)"

definition octets :: "ip_addr \<Rightarrow> bytes" where
  "octets ip = (case ip of V4 w \<Rightarrow> to_be32 w | V6 bs \<Rightarrow> bs)"

definition AF_IPV4 :: u8 where "AF_IPV4 = 4"
definition AF_IPV6 :: u8 where "AF_IPV6 = 6"

record native_address =
  na_family :: u8
  na_reserved :: u8
  na_port :: u16
  na_ip :: bytes

definition default_address :: native_address where
  "default_address = \<lparr>na_family = 0, na_reserved = 0, na_port = 0, na_ip = replicate 16 0\<rparr>"

definition from_socket_addr :: "sock_addr \<Rightarrow> native_address" where
  "from_socket_addr a =
     default_address\<lparr>na_family := (if is_ipv4 a then AF_IPV4 else AF_IPV6),
       na_port := sa_port a,
       na_ip := put 0 (octets (sa_ip a)) (na_ip default_address)\<rparr>"

definition to_socket_addr :: "native_address \<Rightarrow> sock_addr option" where
  "to_socket_addr n =
     (if na_family n = AF_IPV4 then Some \<lparr>sa_ip = V4 (from_be32 (take 4 (na_ip n))), sa_port = na_port n\<rparr>
      else if na_family n = AF_IPV6 then Some \<lparr>sa_ip = V6 (na_ip n), sa_port = na_port n\<rparr>
      else None)"

lemma native_address_roundtrip: "wf_addr a \<Longrightarrow> to_socket_addr (from_socket_addr a) = Some a"
  by (cases a) (auto simp: to_socket_addr_def from_socket_addr_def default_address_def wf_addr_def
      is_ipv4_def octets_def AF_IPV4_def AF_IPV6_def put_def split: ip_addr.splits)

text \<open>The two low mask bytes of the port and the mask of an IPv6 address.\<close>

definition xor_mask :: "bytes \<Rightarrow> bytes" where
  "xor_mask transaction = to_be32 STUN_MAGIC_COOKIE @ transaction"

definition xor_bytes :: "bytes \<Rightarrow> bytes \<Rightarrow> bytes" where
  "xor_bytes a b = map2 (XOR) a b"

definition encode_xor_address :: "sock_addr \<Rightarrow> bytes \<Rightarrow> bytes" where
  "encode_xor_address a transaction =
     [0, if is_ipv4 a then 1 else 2]
     @ to_be16 (sa_port a XOR ucast (drop_bit 16 STUN_MAGIC_COOKIE))
     @ (case sa_ip a of
          V4 w \<Rightarrow> to_be32 (w XOR STUN_MAGIC_COOKIE)
        | V6 bs \<Rightarrow> xor_bytes bs (xor_mask transaction))"

definition decode_xor_address :: "bytes \<Rightarrow> bytes \<Rightarrow> sock_addr option" where
  "decode_xor_address value transaction =
     (if length value < 4 \<or> value ! 0 \<noteq> 0 then None
      else
        let port = from_be16 [value ! 2, value ! 3] XOR ucast (drop_bit 16 STUN_MAGIC_COOKIE) in
        if value ! 1 = 1 \<and> length value = 8 then
          Some \<lparr>sa_ip = V4 (from_be32 (sub value 4 8) XOR STUN_MAGIC_COOKIE), sa_port = port\<rparr>
        else if value ! 1 = 2 \<and> length value = 20 then
          Some \<lparr>sa_ip = V6 (xor_bytes (sub value 4 20) (xor_mask transaction)), sa_port = port\<rparr>
        else None)"

lemma xor_bytes_twice: "length a \<le> length m \<Longrightarrow> xor_bytes (xor_bytes a m) m = a"
  by (rule nth_equalityI) (auto simp: xor_bytes_def xor.assoc)

lemma length_xor_bytes [simp]: "length (xor_bytes a m) = min (length a) (length m)"
  by (simp add: xor_bytes_def)

text \<open>
  XOR addresses round-trip: what \<open>encode_xor_address\<close> writes for an IPv4 or IPv6 address
  under a transaction, \<open>decode_xor_address\<close> reads back under the same transaction.
\<close>

theorem xor_address_roundtrip:
  assumes "wf_addr a" "length transaction = 12"
  shows "decode_xor_address (encode_xor_address a transaction) transaction = Some a"
proof -
  let ?p = "sa_port a XOR ucast (drop_bit 16 STUN_MAGIC_COOKIE)"
  obtain x y where xy: "to_be16 ?p = [x, y]" using length_2 length_to_be(1) by metis
  then have port: "from_be16 [x, y] = ?p" by (metis from_to_be16)
  show ?thesis
  proof (cases "sa_ip a")
    case (V4 w)
    have "sub ([0, 1, x, y] @ to_be32 (w XOR STUN_MAGIC_COOKIE)) 4 8 = to_be32 (w XOR STUN_MAGIC_COOKIE)"
      using sub_append [of 4 "[0, 1, x, y]" 8 "to_be32 (w XOR STUN_MAGIC_COOKIE)" "[]"] by simp
    then show ?thesis
      using V4 by (simp add: encode_xor_address_def decode_xor_address_def is_ipv4_def xy port xor.assoc)
  next
    case (V6 bs)
    then have bs: "length bs = 16" "length (xor_mask transaction) = 16"
      using assms by (simp_all add: wf_addr_def xor_mask_def)
    have "sub ([0, 2, x, y] @ xor_bytes bs (xor_mask transaction)) 4 20 = xor_bytes bs (xor_mask transaction)"
      using sub_append [of 4 "[0, 2, x, y]" 20 "xor_bytes bs (xor_mask transaction)" "[]"] bs by simp
    then show ?thesis
      using V6 bs
      by (simp add: encode_xor_address_def decode_xor_address_def is_ipv4_def xy port xor.assoc xor_bytes_twice)
  qed
qed

lemma xor_address_roundtrip_witness:
  "decode_xor_address (encode_xor_address \<lparr>sa_ip = V6 (replicate 16 5), sa_port = 3478\<rparr> (replicate 12 9))
     (replicate 12 9) = Some \<lparr>sa_ip = V6 (replicate 16 5), sa_port = 3478\<rparr>"
  by (rule xor_address_roundtrip) (simp_all add: wf_addr_def)

section \<open>Building requests\<close>

definition ATTR_USERNAME :: u16 where "ATTR_USERNAME = 0x0006"
definition ATTR_MESSAGE_INTEGRITY :: u16 where "ATTR_MESSAGE_INTEGRITY = 0x0008"
definition ATTR_ERROR_CODE :: u16 where "ATTR_ERROR_CODE = 0x0009"
definition ATTR_CHANNEL_NUMBER :: u16 where "ATTR_CHANNEL_NUMBER = 0x000c"
definition ATTR_LIFETIME :: u16 where "ATTR_LIFETIME = 0x000d"
definition ATTR_XOR_PEER_ADDRESS :: u16 where "ATTR_XOR_PEER_ADDRESS = 0x0012"
definition ATTR_REALM :: u16 where "ATTR_REALM = 0x0014"
definition ATTR_NONCE :: u16 where "ATTR_NONCE = 0x0015"
definition ATTR_XOR_RELAYED_ADDRESS :: u16 where "ATTR_XOR_RELAYED_ADDRESS = 0x0016"
definition ATTR_REQUESTED_ADDRESS_FAMILY :: u16 where "ATTR_REQUESTED_ADDRESS_FAMILY = 0x0017"
definition ATTR_REQUESTED_TRANSPORT :: u16 where "ATTR_REQUESTED_TRANSPORT = 0x0019"

lemmas attr_defs = ATTR_USERNAME_def ATTR_MESSAGE_INTEGRITY_def ATTR_ERROR_CODE_def
  ATTR_CHANNEL_NUMBER_def ATTR_LIFETIME_def ATTR_XOR_PEER_ADDRESS_def ATTR_REALM_def ATTR_NONCE_def
  ATTR_XOR_RELAYED_ADDRESS_def ATTR_REQUESTED_ADDRESS_FAMILY_def ATTR_REQUESTED_TRANSPORT_def
  ATTR_FINGERPRINT_def

record message_builder =
  mb_bytes :: bytes
  mb_transaction :: bytes

definition with_transaction :: "u16 \<Rightarrow> bytes \<Rightarrow> message_builder" where
  "with_transaction kind transaction =
     \<lparr>mb_bytes = to_be16 kind @ to_be16 0 @ to_be32 STUN_MAGIC_COOKIE @ transaction,
      mb_transaction = transaction\<rparr>"

text \<open>The loop pushes zeros until the length is a multiple of four.\<close>

definition pad_to_4 :: "bytes \<Rightarrow> bytes" where
  "pad_to_4 bs = bs @ replicate (padded_len (length bs) - length bs) 0"

definition add_attribute :: "u16 \<Rightarrow> bytes \<Rightarrow> message_builder \<Rightarrow> message_builder" where
  "add_attribute kind value b =
     b\<lparr>mb_bytes := pad_to_4 (mb_bytes b @ to_be16 kind @ to_be16 (word_of_nat (length value)) @ value)\<rparr>"

definition add_xor_address :: "u16 \<Rightarrow> sock_addr \<Rightarrow> message_builder \<Rightarrow> message_builder" where
  "add_xor_address kind a b = add_attribute kind (encode_xor_address a (mb_transaction b)) b"

definition set_message_length :: "bytes \<Rightarrow> nat \<Rightarrow> bytes option" where
  "set_message_length bs trailing =
     (let len = length bs - 20 + trailing in
      if 2 ^ 16 \<le> len then None else Some (put 2 (to_be16 (word_of_nat len)) bs))"

definition finish :: "(bytes \<Rightarrow> u32) \<Rightarrow> message_builder \<Rightarrow> bytes option" where
  "finish crc32 b = do {
     bs \<leftarrow> set_message_length (mb_bytes b) 8;
     let fingerprint = crc32 bs XOR FINGERPRINT_XOR;
     Some (mb_bytes (add_attribute ATTR_FINGERPRINT (to_be32 fingerprint) (b\<lparr>mb_bytes := bs\<rparr>)))
   }"

definition finish_authenticated ::
  "(bytes \<Rightarrow> u32) \<Rightarrow> (bytes \<Rightarrow> bytes \<Rightarrow> bytes) \<Rightarrow> bytes \<Rightarrow> message_builder \<Rightarrow> bytes option" where
  "finish_authenticated crc32 hmac key b = do {
     bs \<leftarrow> set_message_length (mb_bytes b) 24;
     finish crc32 (add_attribute ATTR_MESSAGE_INTEGRITY (hmac key bs) (b\<lparr>mb_bytes := bs\<rparr>))
   }"

section \<open>Reading responses\<close>

definition verify_integrity ::
  "(bytes \<Rightarrow> bytes \<Rightarrow> bytes) \<Rightarrow> bytes \<Rightarrow> stun_message \<Rightarrow> bytes option \<Rightarrow> bool" where
  "verify_integrity hmac packet m key =
     (case (key, attribute m ATTR_MESSAGE_INTEGRITY) of
        (Some key, Some integrity) \<Rightarrow>
          if length (at_value integrity) \<noteq> 20 \<or> at_header_start integrity < 20 then False
          else if 2 ^ 16 \<le> at_header_start integrity + 24 - 20 then False
          else
            let signed = put 2 (to_be16 (word_of_nat (at_header_start integrity + 24 - 20)))
                           (take (at_header_start integrity) packet)
            in hmac key signed = at_value integrity
      | _ \<Rightarrow> False)"

definition error_code :: "stun_message \<Rightarrow> u16 option" where
  "error_code m =
     (case attribute m ATTR_ERROR_CODE of
        None \<Rightarrow> None
      | Some a \<Rightarrow>
          let value = at_value a in
          if length value < 4 \<or> value ! 2 > 6 \<or> value ! 3 > 99 then None
          else Some (ucast (value ! 2) * 100 + ucast (value ! 3)))"

definition response_requires_integrity :: "stun_message \<Rightarrow> bool" where
  "response_requires_integrity m =
     (case message_class m of
        Success \<Rightarrow> True
      | Error_class \<Rightarrow> \<not> (case error_code m of None \<Rightarrow> False | Some c \<Rightarrow> c \<in> {400, 401, 420, 438})
      | _ \<Rightarrow> False)"

definition is_fingerprinted_allocation_mismatch :: "(bytes \<Rightarrow> u32) \<Rightarrow> stun_message \<Rightarrow> bool" where
  "is_fingerprinted_allocation_mismatch crc32 m \<longleftrightarrow>
     message_class m = Error_class \<and> error_code m = Some 437 \<and> fingerprint_valid crc32 m = Some True"

definition attribute_u32 :: "stun_message \<Rightarrow> u16 \<Rightarrow> u32 option" where
  "attribute_u32 m kind =
     (case attribute m kind of
        None \<Rightarrow> None
      | Some a \<Rightarrow> if length (at_value a) = 4 then Some (from_be32 (at_value a)) else None)"

definition REQUESTED_ALLOCATION_LIFETIME_SECS :: nat where
  "REQUESTED_ALLOCATION_LIFETIME_SECS = 600"

definition allocation_refresh_deadline :: "instant \<Rightarrow> u32 option \<Rightarrow> duration \<Rightarrow> instant" where
  "allocation_refresh_deadline now lifetime interval =
     (let lifetime = from_secs (case lifetime of None \<Rightarrow> REQUESTED_ALLOCATION_LIFETIME_SECS | Some l \<Rightarrow> unat l)
      in now + max (min interval (lifetime div 2)) (from_millis 500))"

definition keepalive_mix :: "sock_addr \<Rightarrow> u64" where
  "keepalive_mix relay =
     (let port = ucast (sa_port relay) in
      case sa_ip relay of
        V4 w \<Rightarrow> port XOR ucast w
      | V6 bs \<Rightarrow> port XOR from_be64 (sub bs 8 16))"

definition first_keepalive_deadline :: "instant \<Rightarrow> duration \<Rightarrow> sock_addr \<Rightarrow> instant" where
  "first_keepalive_deadline now interval relay =
     (let span_ms = max (as_millis interval div 5) 1;
          mix = unat (keepalive_mix relay)
      in now + from_millis (as_millis interval - span_ms + mix mod (span_ms * 2 + 1)))"

text \<open>The first keepalive is spread over a fifth of the interval on either side.\<close>

lemma first_keepalive_bounds:
  assumes "5 \<le> as_millis interval"
  shows "now + from_millis (as_millis interval - as_millis interval div 5) \<le> first_keepalive_deadline now interval relay"
    and "first_keepalive_deadline now interval relay \<le> now + from_millis (as_millis interval + as_millis interval div 5)"
proof -
  let ?s = "as_millis interval div 5"
  have s: "max ?s 1 = ?s" "?s \<le> as_millis interval" using assms by auto
  let ?m = "unat (keepalive_mix relay) mod (?s * 2 + 1)"
  have m: "?m \<le> ?s * 2" by (simp add: less_Suc_eq_le [symmetric])
  have eq: "first_keepalive_deadline now interval relay = now + from_millis (as_millis interval - ?s + ?m)"
    unfolding first_keepalive_deadline_def Let_def s(1) ..
  have "as_millis interval - ?s \<le> as_millis interval - ?s + ?m"
    "as_millis interval - ?s + ?m \<le> as_millis interval + ?s"
    using s(2) m by linarith+
  then show "now + from_millis (as_millis interval - ?s) \<le> first_keepalive_deadline now interval relay"
    "first_keepalive_deadline now interval relay \<le> now + from_millis (as_millis interval + ?s)"
    unfolding eq by (simp_all only: add_left_mono from_millis_mono)
qed

section \<open>Requests as attribute lists\<close>

text \<open>A builder that holds the attributes \<open>as\<close>, with \<open>len\<close> in its length field.\<close>

definition holds :: "u16 \<Rightarrow> nat \<Rightarrow> bytes \<Rightarrow> (u16 \<times> bytes) list \<Rightarrow> message_builder \<Rightarrow> bool" where
  "holds kind len transaction as b \<longleftrightarrow>
     mb_bytes b = header_bytes_of kind len transaction @ body_bytes as
     \<and> mb_transaction b = transaction \<and> length transaction = 12"

lemma holds_new: "length transaction = 12 \<Longrightarrow> holds kind 0 transaction [] (with_transaction kind transaction)"
  by (simp add: holds_def with_transaction_def header_bytes_of_def)

lemma padded_len_add: "4 dvd m \<Longrightarrow> padded_len (m + n) = m + padded_len n"
  by (auto simp: padded_len_def dvd_def) (metis add.assoc div_mult_self4 distrib_left mult.commute
      zero_neq_numeral)

lemma holds_add:
  assumes "holds kind len transaction as b"
  shows "holds kind len transaction (as @ [(k, v)]) (add_attribute k v b)"
proof -
  have "4 dvd 20 + length (body_bytes as) + 4" using body_aligned [of as] by presburger
  then have "padded_len (20 + length (body_bytes as) + 4 + length v)
      = 20 + length (body_bytes as) + 4 + padded_len (length v)"
    by (rule padded_len_add)
  with assms show ?thesis
    by (simp add: holds_def add_attribute_def pad_to_4_def attribute_bytes_def add_ac)
qed

lemma put_length_field:
  "put 2 (to_be16 (word_of_nat n)) (header_bytes_of kind len transaction @ xs) =
     header_bytes_of kind n transaction @ xs"
  using put_append [of 2 "to_be16 kind" "to_be16 (word_of_nat len)" "to_be16 (word_of_nat n)"]
  by (simp add: header_bytes_of_def)

lemma holds_set_length:
  assumes "holds kind len transaction as b"
  shows "set_message_length (mb_bytes b) n =
    (if 2 ^ 16 \<le> length (body_bytes as) + n then None
     else Some (header_bytes_of kind (length (body_bytes as) + n) transaction @ body_bytes as))"
  using assms put_length_field [of "length (body_bytes as) + n" kind len transaction "body_bytes as"]
  by (simp add: holds_def set_message_length_def)

text \<open>A finished request is the byte form of its attributes, the two check attributes last.\<close>

lemma finish_message:
  assumes "holds kind len transaction as b" "finish crc32 b = Some packet"
  shows "packet = message_bytes kind transaction (as @ [(ATTR_FINGERPRINT,
      to_be32 (crc32 (header_bytes_of kind (length (body_bytes as) + 8) transaction @ body_bytes as)
        XOR FINGERPRINT_XOR))])
    \<and> length (body_bytes as) + 8 < 2 ^ 16"
proof -
  let ?bs = "header_bytes_of kind (length (body_bytes as) + 8) transaction @ body_bytes as"
  have len: "length (body_bytes as) + 8 < 2 ^ 16"
    using assms holds_set_length [OF assms(1), of 8] by (auto simp: finish_def split: if_splits)
  then have set: "set_message_length (mb_bytes b) 8 = Some ?bs"
    using holds_set_length [OF assms(1), of 8] by simp
  let ?f = "to_be32 (crc32 ?bs XOR FINGERPRINT_XOR)"
  have "holds kind (length (body_bytes as) + 8) transaction as (b\<lparr>mb_bytes := ?bs\<rparr>)"
    using assms(1) by (simp add: holds_def)
  then have "mb_bytes (add_attribute ATTR_FINGERPRINT ?f (b\<lparr>mb_bytes := ?bs\<rparr>))
      = header_bytes_of kind (length (body_bytes as) + 8) transaction @ body_bytes (as @ [(ATTR_FINGERPRINT, ?f)])"
    using holds_add unfolding holds_def by blast
  then have "packet = header_bytes_of kind (length (body_bytes as) + 8) transaction
      @ body_bytes (as @ [(ATTR_FINGERPRINT, ?f)])"
    using assms(2) set by (simp add: finish_def Let_def)
  moreover have "length (body_bytes (as @ [(ATTR_FINGERPRINT, ?f)])) = length (body_bytes as) + 8"
    by (simp add: padded_len_def)
  ultimately show ?thesis
    using len by (simp add: message_bytes_def)
qed

lemma finish_authenticated_message:
  assumes "holds kind len transaction as b" "finish_authenticated crc32 hmac key b = Some packet"
    and "\<And>k m. length (hmac k m) = 20"
  shows "\<exists>f. packet = message_bytes kind transaction (as @ [(ATTR_MESSAGE_INTEGRITY,
      hmac key (header_bytes_of kind (length (body_bytes as) + 24) transaction @ body_bytes as)),
      (ATTR_FINGERPRINT, to_be32 f)]) \<and> length (body_bytes as) + 32 < 2 ^ 16
    \<and> f = crc32 (header_bytes_of kind (length (body_bytes as) + 32) transaction @ body_bytes as
        @ attribute_bytes (ATTR_MESSAGE_INTEGRITY,
            hmac key (header_bytes_of kind (length (body_bytes as) + 24) transaction @ body_bytes as)))
        XOR FINGERPRINT_XOR"
proof -
  let ?bs = "header_bytes_of kind (length (body_bytes as) + 24) transaction @ body_bytes as"
  let ?mi = "(ATTR_MESSAGE_INTEGRITY, hmac key ?bs)"
  have set: "set_message_length (mb_bytes b) 24 = Some ?bs"
    and fin: "finish crc32 (add_attribute ATTR_MESSAGE_INTEGRITY (hmac key ?bs) (b\<lparr>mb_bytes := ?bs\<rparr>)) = Some packet"
    using assms holds_set_length [OF assms(1), of 24]
    by (auto simp: finish_authenticated_def split: if_splits)
  have "holds kind (length (body_bytes as) + 24) transaction as (b\<lparr>mb_bytes := ?bs\<rparr>)"
    using assms(1) by (simp add: holds_def)
  then have "holds kind (length (body_bytes as) + 24) transaction (as @ [?mi])
      (add_attribute ATTR_MESSAGE_INTEGRITY (hmac key ?bs) (b\<lparr>mb_bytes := ?bs\<rparr>))"
    by (rule holds_add)
  from finish_message [OF this fin] show ?thesis
    by (simp add: assms(3) padded_len_def add_ac)
qed

lemma finish_total:
  assumes "holds kind len transaction as b" "length (body_bytes as) + 8 < 2 ^ 16"
  shows "finish crc32 b \<noteq> None"
  using assms(2) holds_set_length [OF assms(1), of 8] by (simp add: finish_def Let_def)

lemma finish_authenticated_total:
  assumes "holds kind len transaction as b" "length (body_bytes as) + 32 < 2 ^ 16"
    and "\<And>k m. length (hmac k m) = 20"
  shows "finish_authenticated crc32 hmac key b \<noteq> None"
proof -
  let ?bs = "header_bytes_of kind (length (body_bytes as) + 24) transaction @ body_bytes as"
  have set: "set_message_length (mb_bytes b) 24 = Some ?bs"
    using assms(2) holds_set_length [OF assms(1), of 24] by simp
  have "holds kind (length (body_bytes as) + 24) transaction as (b\<lparr>mb_bytes := ?bs\<rparr>)"
    using assms(1) by (simp add: holds_def)
  then have "holds kind (length (body_bytes as) + 24) transaction
      (as @ [(ATTR_MESSAGE_INTEGRITY, hmac key ?bs)])
      (add_attribute ATTR_MESSAGE_INTEGRITY (hmac key ?bs) (b\<lparr>mb_bytes := ?bs\<rparr>))"
    by (rule holds_add)
  moreover have "length (body_bytes (as @ [(ATTR_MESSAGE_INTEGRITY, hmac key ?bs)])) + 8 < 2 ^ 16"
    using assms(2,3) by (simp add: padded_len_def)
  ultimately show ?thesis
    using set finish_total by (simp add: finish_authenticated_def)
qed

lemma view_attribute_append:
  "view_attribute p as k = None \<Longrightarrow>
     view_attribute p (as @ bs) k = view_attribute (p + length (body_bytes as)) bs k"
proof (induction p as k rule: view_attribute.induct)
  case (2 p k v as target)
  then show ?case by (simp add: add_ac split: if_splits)
qed simp

definition has_kind :: "(u16 \<times> bytes) list \<Rightarrow> u16 \<Rightarrow> bool" where
  "has_kind as k \<longleftrightarrow> (\<exists>a\<in>set as. (if fst a = 0x8020 then 0x0020 else fst a) = k)"

lemma view_attribute_None: "view_attribute p as k = None \<longleftrightarrow> \<not> has_kind as k"
  by (induction p as k rule: view_attribute.induct) (auto simp: has_kind_def)

lemma view_attribute_append_Some:
  "view_attribute p as k = Some a \<Longrightarrow> view_attribute p (as @ bs) k = Some a"
  by (induction p as k rule: view_attribute.induct) (auto split: if_splits)

text \<open>
  Verification looks at the bytes in front of MESSAGE-INTEGRITY and at its value only, with the
  length field as if the message ended there.
\<close>

lemma verify_integrity_message:
  assumes t: "length transaction = 12" and as: "list_all valid_attribute (as @ (ATTR_MESSAGE_INTEGRITY, v) # bs)"
    and raw: "sm_raw m = message_bytes kind transaction (as @ (ATTR_MESSAGE_INTEGRITY, v) # bs)"
    and stop: "sm_end m = length (sm_raw m)"
    and none: "view_attribute 20 as ATTR_MESSAGE_INTEGRITY = None"
    and len: "length (body_bytes as) + 24 < 2 ^ 16"
  shows "verify_integrity hmac (sm_raw m) m (Some key) \<longleftrightarrow>
    length v = 20 \<and> hmac key (header_bytes_of kind (length (body_bytes as) + 24) transaction @ body_bytes as) = v"
proof -
  let ?all = "as @ (ATTR_MESSAGE_INTEGRITY, v) # bs" and ?n = "length (body_bytes as)"
  have "sm_end m = 20 + length (body_bytes ?all)"
    using t stop raw by (simp add: message_bytes_def)
  then have "attribute m ATTR_MESSAGE_INTEGRITY = view_attribute 20 ?all ATTR_MESSAGE_INTEGRITY"
    by (rule attribute_message [OF t as raw])
  then have a: "attribute m ATTR_MESSAGE_INTEGRITY = Some \<lparr>at_kind = ATTR_MESSAGE_INTEGRITY, at_value = v,
      at_header_start = 20 + ?n, at_value_start = 20 + ?n + 4, at_value_end = 20 + ?n + 4 + length v\<rparr>"
    using view_attribute_append [OF none] by (simp add: ATTR_MESSAGE_INTEGRITY_def)
  have "take (20 + ?n) (sm_raw m) = header_bytes_of kind (length (body_bytes ?all)) transaction @ body_bytes as"
    using t by (simp add: raw message_bytes_def)
  then have "put 2 (to_be16 (word_of_nat (?n + 24))) (take (20 + ?n) (sm_raw m))
      = header_bytes_of kind (?n + 24) transaction @ body_bytes as"
    by (simp only: put_length_field)
  then show ?thesis
    using a len by (simp add: verify_integrity_def Let_def add_ac)
qed

end
