(* ===== verification/Turn_Core.thy ===== *)
theory Turn_Core
  imports Stun_Message
begin

unbundle bit_operations_syntax

text \<open>
  The sans-IO TURN client of \<open>turn_core.rs\<close>: \<open>NativeCore\<close> and its \<open>Inner\<close>
  state behind a mutex, so every method is one atomic step on the state. MD5, HMAC-SHA1 and CRC-32
  are parameters, as is the random generator: \<open>te_random env n\<close> is the \<open>n\<close>-th
  transaction identifier drawn, \<open>tc_draws\<close> counts them. The clock does not advance within
  one call: each call has one reading \<open>now\<close>. A \<open>Result<()>\<close> is an error option,
  \<open>None\<close> for \<open>Ok\<close>. Counters of type \<open>u8\<close> are naturals, the saturating
  ones with their bound written out.
\<close>

section \<open>Constants and records\<close>

definition RESULT_BUFFER_TOO_SMALL :: int where "RESULT_BUFFER_TOO_SMALL = -2"
definition RESULT_INVALID_ARGUMENT :: int where "RESULT_INVALID_ARGUMENT = -3"
definition RESULT_NOT_CONTROL :: int where "RESULT_NOT_CONTROL = -5"
definition RESULT_TIMEOUT :: int where "RESULT_TIMEOUT = -6"
definition RESULT_AUTHENTICATION :: int where "RESULT_AUTHENTICATION = -7"
definition RESULT_PROTOCOL :: int where "RESULT_PROTOCOL = -8"

definition EVENT_STATE :: u32 where "EVENT_STATE = 1"
definition EVENT_REQUEST_COMPLETE :: u32 where "EVENT_REQUEST_COMPLETE = 2"
definition EVENT_CHANNEL_BOUND :: u32 where "EVENT_CHANNEL_BOUND = 3"
definition EVENT_RELAY_ADDRESS :: u32 where "EVENT_RELAY_ADDRESS = 4"
definition EVENT_CONTROL_OVERFLOW :: u32 where "EVENT_CONTROL_OVERFLOW = 5"
definition EVENT_FORCED_DESTROY :: u32 where "EVENT_FORCED_DESTROY = 7"
definition EVENT_EVENT_OVERFLOW :: u32 where "EVENT_EVENT_OVERFLOW = 8"
definition EVENT_STUN_RESPONSE_ERROR :: u32 where "EVENT_STUN_RESPONSE_ERROR = 9"
definition EVENT_CHANNEL_REBIND_EXHAUSTED :: u32 where "EVENT_CHANNEL_REBIND_EXHAUSTED = 10"

definition STATE_NULL :: u32 where "STATE_NULL = 0"
definition STATE_ALLOCATING :: u32 where "STATE_ALLOCATING = 3"
definition STATE_READY :: u32 where "STATE_READY = 4"
definition STATE_DEALLOCATING :: u32 where "STATE_DEALLOCATING = 5"
definition STATE_DEALLOCATED :: u32 where "STATE_DEALLOCATED = 6"
definition STATE_DESTROYING :: u32 where "STATE_DESTROYING = 7"

lemmas state_defs = STATE_NULL_def STATE_ALLOCATING_def STATE_READY_def STATE_DEALLOCATING_def
  STATE_DEALLOCATED_def STATE_DESTROYING_def

definition CONTROL_CAPACITY :: nat where "CONTROL_CAPACITY = 16"
definition EVENT_CAPACITY :: nat where "EVENT_CAPACITY = 64"
definition INITIAL_RTO :: duration where "INITIAL_RTO = from_millis 200"
definition MAX_RTO :: duration where "MAX_RTO = from_millis 1600"
definition MAX_TRANSMISSIONS :: nat where "MAX_TRANSMISSIONS = 7"
definition STREAM_TRANSACTION_TIMEOUT :: duration where "STREAM_TRANSACTION_TIMEOUT = from_secs 12"
definition MAINTENANCE_RETRY_BASE :: duration where "MAINTENANCE_RETRY_BASE = from_secs 1"
definition MAINTENANCE_RETRY_MAX :: duration where "MAINTENANCE_RETRY_MAX = from_secs 30"
definition MAX_CHANNEL_MAINTENANCE_FAILURES :: nat where "MAX_CHANNEL_MAINTENANCE_FAILURES = 4"
definition CHANNEL_NUMBER :: u16 where "CHANNEL_NUMBER = 0x4000"

datatype control_transport = Datagram | Stream

record turn_profile =
  pf_allocation_refresh :: duration
  pf_maintenance_refresh :: duration
  pf_keepalive_interval :: duration
  pf_max_nonce_retries :: nat

definition PJNATH_COMPAT :: turn_profile where
  "PJNATH_COMPAT = \<lparr>pf_allocation_refresh = from_secs 300, pf_maintenance_refresh = from_secs 175,
     pf_keepalive_interval = from_secs 10, pf_max_nonce_retries = 3\<rparr>"

record native_event =
  ev_kind :: u32
  ev_method :: u32
  ev_status :: int
  ev_stun_code :: int
  ev_state :: u32
  ev_previous_state :: u32
  ev_dropped :: u32
  ev_channel :: u16
  ev_reserved :: u16
  ev_address :: native_address

definition default_event :: native_event where
  "default_event = \<lparr>ev_kind = 0, ev_method = 0, ev_status = 0, ev_stun_code = 0, ev_state = 0,
     ev_previous_state = 0, ev_dropped = 0, ev_channel = 0, ev_reserved = 0,
     ev_address = default_address\<rparr>"

datatype operation = Allocate | Refresh | Deallocate | Permission | Channel

definition op_method :: "operation \<Rightarrow> u32" where
  "op_method op = (case op of Allocate \<Rightarrow> 3 | Refresh \<Rightarrow> 4 | Deallocate \<Rightarrow> 4 | Permission \<Rightarrow> 8 | Channel \<Rightarrow> 9)"

record pending =
  pn_operation :: operation
  pn_transaction :: bytes
  pn_packet :: bytes
  pn_next_attempt :: instant
  pn_rto :: duration
  pn_transmissions :: nat
  pn_nonce_retries :: nat
  pn_authenticated :: bool

record control =
  ct_packet :: bytes
  ct_destination :: sock_addr

record core =
  tc_server :: sock_addr
  tc_peer :: sock_addr
  tc_username :: bytes
  tc_password :: bytes
  tc_realm :: "bytes option"
  tc_nonce :: "bytes option"
  tc_key :: "bytes option"
  tc_state :: u32
  tc_relay :: "sock_addr option"
  tc_channel :: "u16 option"
  tc_controls :: "control list"
  tc_events :: "native_event list"
  tc_pending :: "pending list"
  tc_allocation_refresh :: "instant option"
  tc_allocation_expires_at :: "instant option"
  tc_maintenance_refresh :: "instant option"
  tc_permission_retry :: "instant option"
  tc_channel_retry :: "instant option"
  tc_refresh_failures :: nat
  tc_permission_failures :: nat
  tc_channel_failures :: nat
  tc_keepalive :: "instant option"
  tc_shutting_down :: bool
  tc_destroyed :: bool
  tc_profile :: turn_profile
  tc_transport :: control_transport
  tc_draws :: nat

record turn_env =
  te_md5 :: "bytes \<Rightarrow> bytes"
  te_hmac :: "bytes \<Rightarrow> bytes \<Rightarrow> bytes"
  te_crc32 :: "bytes \<Rightarrow> u32"
  te_random :: "nat \<Rightarrow> bytes"

datatype core_error =
    Invalid_argument
  | Closed
  | Auth_incomplete
  | Message_too_large
  | Key_missing
  | No_relayed_address
  | Bad_relayed_address
  | Lifetime_zero
  | Lifetime_not_zero
  | Buffer_too_small
  | Relay_unavailable

section \<open>Queues and events\<close>

definition push_event :: "native_event \<Rightarrow> core \<Rightarrow> core" where
  "push_event ev c =
     (if length (tc_events c) = EVENT_CAPACITY then
        c\<lparr>tc_events := tl (tc_events c) @ [default_event\<lparr>ev_kind := EVENT_EVENT_OVERFLOW,
             ev_status := RESULT_BUFFER_TOO_SMALL, ev_dropped := 1\<rparr>]\<rparr>
      else c\<lparr>tc_events := tc_events c @ [ev]\<rparr>)"

definition queue_packet :: "bytes \<Rightarrow> core \<Rightarrow> core" where
  "queue_packet packet c =
     (let c = (if length (tc_controls c) = CONTROL_CAPACITY then
                 push_event (default_event\<lparr>ev_kind := EVENT_CONTROL_OVERFLOW,
                     ev_status := RESULT_BUFFER_TOO_SMALL, ev_dropped := 1\<rparr>)
                   (c\<lparr>tc_controls := tl (tc_controls c)\<rparr>)
               else c)
      in c\<lparr>tc_controls := tc_controls c @ [\<lparr>ct_packet = packet, ct_destination = tc_server c\<rparr>]\<rparr>)"

definition queue_keepalive :: "core \<Rightarrow> core" where
  "queue_keepalive c =
     (case tc_channel c of
        None \<Rightarrow> c
      | Some channel \<Rightarrow> queue_packet (to_be16 channel @ to_be16 1 @ [0xff, 0, 0, 0]) c)"

definition remove_queued_transaction :: "bytes \<Rightarrow> core \<Rightarrow> core" where
  "remove_queued_transaction transaction c =
     c\<lparr>tc_controls := filter (\<lambda>ct. slice (ct_packet ct) 8 20 \<noteq> Some transaction) (tc_controls c)\<rparr>"

definition set_state :: "u32 \<Rightarrow> core \<Rightarrow> core" where
  "set_state st c =
     (if tc_state c = st then c
      else push_event (default_event\<lparr>ev_kind := EVENT_STATE, ev_state := st, ev_previous_state := tc_state c\<rparr>)
             (c\<lparr>tc_state := st\<rparr>))"

definition complete :: "operation \<Rightarrow> int \<Rightarrow> int \<Rightarrow> core \<Rightarrow> core" where
  "complete op status stun_code c =
     push_event (default_event\<lparr>ev_kind := EVENT_REQUEST_COMPLETE, ev_method := op_method op,
         ev_status := status, ev_stun_code := stun_code, ev_state := tc_state c,
         ev_channel := (case tc_channel c of None \<Rightarrow> 0 | Some n \<Rightarrow> n),
         ev_address := (case tc_relay c of None \<Rightarrow> default_address | Some r \<Rightarrow> from_socket_addr r)\<rparr>) c"

definition set_auth :: "turn_env \<Rightarrow> bytes \<Rightarrow> bytes \<Rightarrow> core \<Rightarrow> core" where
  "set_auth env realm nonce c =
     c\<lparr>tc_key := Some (te_md5 env (tc_username c @ ascii '':'' @ realm @ ascii '':'' @ tc_password c)),
       tc_realm := Some realm, tc_nonce := Some nonce\<rparr>"

section \<open>Transactions\<close>

definition has_operation :: "operation \<Rightarrow> core \<Rightarrow> bool" where
  "has_operation op c \<longleftrightarrow> (\<exists>p\<in>set (tc_pending c). pn_operation p = op)"

definition transaction_timeout :: "core \<Rightarrow> duration" where
  "transaction_timeout c =
     (case tc_transport c of Datagram \<Rightarrow> INITIAL_RTO | Stream \<Rightarrow> STREAM_TRANSACTION_TIMEOUT)"

definition opt_bytes :: "bytes option \<Rightarrow> bytes" where
  "opt_bytes b = (case b of None \<Rightarrow> [] | Some b \<Rightarrow> b)"

text \<open>The \<open>match\<close> on the operation that opens \<open>build_request\<close>.\<close>

definition request_attributes :: "operation \<Rightarrow> core \<Rightarrow> message_builder \<Rightarrow> message_builder" where
  "request_attributes op c b =
     (case op of
        Allocate \<Rightarrow>
          add_attribute ATTR_LIFETIME (to_be32 (word_of_nat REQUESTED_ALLOCATION_LIFETIME_SECS))
            (add_attribute ATTR_REQUESTED_ADDRESS_FAMILY [if is_ipv4 (tc_peer c) then 1 else 2, 0, 0, 0]
              (add_attribute ATTR_REQUESTED_TRANSPORT [17, 0, 0, 0] b))
      | Refresh \<Rightarrow> add_attribute ATTR_LIFETIME (to_be32 (word_of_nat REQUESTED_ALLOCATION_LIFETIME_SECS)) b
      | Deallocate \<Rightarrow> add_attribute ATTR_LIFETIME (to_be32 0) b
      | Permission \<Rightarrow> add_xor_address ATTR_XOR_PEER_ADDRESS (tc_peer c) b
      | Channel \<Rightarrow> add_xor_address ATTR_XOR_PEER_ADDRESS (tc_peer c)
                     (add_attribute ATTR_CHANNEL_NUMBER [0x40, 0, 0, 0] b))"

definition build_request :: "turn_env \<Rightarrow> operation \<Rightarrow> bytes \<Rightarrow> bool \<Rightarrow> core \<Rightarrow> core_error + bytes" where
  "build_request env op transaction authenticated c =
     (let b = request_attributes op c (with_transaction (ucast (op_method op)) transaction) in
      if authenticated then
        let b = add_attribute ATTR_NONCE (opt_bytes (tc_nonce c))
                  (add_attribute ATTR_REALM (opt_bytes (tc_realm c))
                    (add_attribute ATTR_USERNAME (tc_username c) b))
        in (case tc_key c of
              None \<Rightarrow> Inl Key_missing
            | Some key \<Rightarrow>
                (case finish_authenticated (te_crc32 env) (te_hmac env) key b of
                   None \<Rightarrow> Inl Message_too_large
                 | Some packet \<Rightarrow> Inr packet))
      else
        (case finish (te_crc32 env) b of
           None \<Rightarrow> Inl Message_too_large
         | Some packet \<Rightarrow> Inr packet))"

definition start_operation ::
  "turn_env \<Rightarrow> instant \<Rightarrow> operation \<Rightarrow> bool \<Rightarrow> nat \<Rightarrow> core \<Rightarrow> core_error option \<times> core" where
  "start_operation env now op authenticated nonce_retries c =
     (if has_operation op c then
        (if op = Channel then
           (case List.find (\<lambda>p. pn_operation p = op) (tc_pending c) of
              Some p \<Rightarrow> (None, queue_packet (pn_packet p) c)
            | None \<Rightarrow> (None, c))
         else (None, c))
      else if authenticated \<and> (tc_realm c = None \<or> tc_nonce c = None \<or> tc_key c = None) then
        (Some Auth_incomplete, c)
      else
        let transaction = te_random env (tc_draws c);
            c = c\<lparr>tc_draws := tc_draws c + 1\<rparr>
        in (case build_request env op transaction authenticated c of
              Inl e \<Rightarrow> (Some e, c)
            | Inr packet \<Rightarrow>
                let c = queue_packet packet c in
                (None, c\<lparr>tc_pending := tc_pending c @
                   [\<lparr>pn_operation = op, pn_transaction = transaction, pn_packet = packet,
                     pn_next_attempt = now + transaction_timeout c, pn_rto = INITIAL_RTO,
                     pn_transmissions = 1, pn_nonce_retries = nonce_retries,
                     pn_authenticated = authenticated\<rparr>]\<rparr>)))"

section \<open>Completion\<close>

definition destroy_allocation :: "operation \<Rightarrow> int \<Rightarrow> int \<Rightarrow> core \<Rightarrow> core" where
  "destroy_allocation op status stun_code c =
     (let c = complete op status stun_code c;
          c = c\<lparr>tc_controls := [], tc_pending := [], tc_channel := None, tc_allocation_refresh := None,
                tc_allocation_expires_at := None, tc_maintenance_refresh := None,
                tc_permission_retry := None, tc_channel_retry := None, tc_keepalive := None,
                tc_relay := None\<rparr>
      in if op = Deallocate then set_state STATE_DEALLOCATED c else set_state STATE_DESTROYING c)"

definition destroy_after_channel_rebind_exhausted :: "core \<Rightarrow> core" where
  "destroy_after_channel_rebind_exhausted c =
     (let c = c\<lparr>tc_controls := [], tc_pending := [], tc_channel := None, tc_maintenance_refresh := None,
                tc_permission_retry := None, tc_channel_retry := None, tc_keepalive := None\<rparr>;
          c = push_event (default_event\<lparr>ev_kind := EVENT_CHANNEL_REBIND_EXHAUSTED,
                ev_status := RESULT_TIMEOUT, ev_state := STATE_DESTROYING\<rparr>) c
      in set_state STATE_DESTROYING c)"

text \<open>\<open>1u32 << shift\<close> with a shift of at most 5.\<close>

definition retry_delay :: "nat \<Rightarrow> duration" where
  "retry_delay failures = min (MAINTENANCE_RETRY_BASE * 2 ^ min (failures - 1) 5) MAINTENANCE_RETRY_MAX"

definition schedule_maintenance_retry :: "operation \<Rightarrow> instant \<Rightarrow> core \<Rightarrow> bool \<times> core" where
  "schedule_maintenance_retry op now c =
     (case op of
        Refresh \<Rightarrow>
          let n = min (tc_refresh_failures c + 1) 255
          in (True, c\<lparr>tc_refresh_failures := n, tc_allocation_refresh := Some (now + retry_delay n)\<rparr>)
      | Permission \<Rightarrow>
          let n = min (tc_permission_failures c + 1) 255
          in (True, c\<lparr>tc_permission_failures := n, tc_permission_retry := Some (now + retry_delay n)\<rparr>)
      | Channel \<Rightarrow>
          let n = min (tc_channel_failures c + 1) 255;
              c = c\<lparr>tc_channel_failures := n\<rparr>
          in if n \<ge> MAX_CHANNEL_MAINTENANCE_FAILURES then (False, c)
             else (True, c\<lparr>tc_channel_retry := Some (now + retry_delay n)\<rparr>)
      | _ \<Rightarrow> (True, c))"

definition complete_failure :: "operation \<Rightarrow> int \<Rightarrow> int \<Rightarrow> instant \<Rightarrow> core \<Rightarrow> core" where
  "complete_failure op status stun_code now c =
     (if op \<in> {Refresh, Permission, Channel} \<and> tc_state c = STATE_READY
         \<and> (case tc_allocation_expires_at c of None \<Rightarrow> False | Some deadline \<Rightarrow> now < deadline) then
        let c = complete op status stun_code c;
            (kept, c) = schedule_maintenance_retry op now c
        in if kept then c else destroy_after_channel_rebind_exhausted c
      else destroy_allocation op status stun_code c)"

text \<open>The \<open>Allocate\<close> arm of \<open>complete_success\<close> after its checks.\<close>

definition allocation_granted ::
  "turn_env \<Rightarrow> sock_addr \<Rightarrow> u32 option \<Rightarrow> nat \<Rightarrow> instant \<Rightarrow> core \<Rightarrow> core_error option \<times> core" where
  "allocation_granted env relay returned_lifetime lifetime now c =
     (let c = c\<lparr>tc_relay := Some relay,
                tc_allocation_refresh := Some (allocation_refresh_deadline now returned_lifetime
                  (pf_allocation_refresh (tc_profile c))),
                tc_allocation_expires_at := Some (now + from_secs lifetime),
                tc_refresh_failures := 0,
                tc_maintenance_refresh := Some (now + pf_maintenance_refresh (tc_profile c)),
                tc_keepalive := Some (first_keepalive_deadline now (pf_keepalive_interval (tc_profile c)) relay)\<rparr>;
          c = push_event (default_event\<lparr>ev_kind := EVENT_RELAY_ADDRESS,
                ev_address := from_socket_addr relay\<rparr>) c
      in if tc_shutting_down c then
           start_operation env now Deallocate True 0 (set_state STATE_DEALLOCATING c)
         else (None, complete Allocate 0 0 (set_state STATE_READY c)))"

definition complete_success ::
  "turn_env \<Rightarrow> operation \<Rightarrow> stun_message \<Rightarrow> instant \<Rightarrow> core \<Rightarrow> core_error option \<times> core" where
  "complete_success env op m now c =
     (case op of
        Allocate \<Rightarrow>
          (case attribute m ATTR_XOR_RELAYED_ADDRESS of
             None \<Rightarrow> (Some No_relayed_address, c)
           | Some a \<Rightarrow>
               (case decode_xor_address (at_value a) (sm_transaction m) of
                  None \<Rightarrow> (Some Bad_relayed_address, c)
                | Some relay \<Rightarrow>
                    if is_ipv4 relay \<noteq> is_ipv4 (tc_peer c) \<or> sa_port relay = 0 then (Some Bad_relayed_address, c)
                    else
                      let returned_lifetime = attribute_u32 m ATTR_LIFETIME;
                          lifetime = (case returned_lifetime of None \<Rightarrow> REQUESTED_ALLOCATION_LIFETIME_SECS | Some l \<Rightarrow> unat l)
                      in if lifetime = 0 then (Some Lifetime_zero, c)
                         else allocation_granted env relay returned_lifetime lifetime now c))
      | Refresh \<Rightarrow>
          let returned_lifetime = attribute_u32 m ATTR_LIFETIME;
              lifetime = (case returned_lifetime of None \<Rightarrow> REQUESTED_ALLOCATION_LIFETIME_SECS | Some l \<Rightarrow> unat l)
          in if lifetime = 0 then (Some Lifetime_zero, c)
             else (None, complete Refresh 0 0
                    (c\<lparr>tc_allocation_refresh := Some (allocation_refresh_deadline now returned_lifetime
                         (pf_allocation_refresh (tc_profile c))),
                       tc_allocation_expires_at := Some (now + from_secs lifetime),
                       tc_refresh_failures := 0\<rparr>))
      | Deallocate \<Rightarrow>
          if (case attribute_u32 m ATTR_LIFETIME of None \<Rightarrow> False | Some l \<Rightarrow> l \<noteq> 0) then (Some Lifetime_not_zero, c)
          else (None, set_state STATE_DEALLOCATED (complete Deallocate 0 0
                 (c\<lparr>tc_relay := None, tc_allocation_refresh := None, tc_allocation_expires_at := None\<rparr>)))
      | Permission \<Rightarrow> (None, complete Permission 0 0 (c\<lparr>tc_permission_failures := 0\<rparr>))
      | Channel \<Rightarrow>
          (None, complete Channel 0 0
             (push_event (default_event\<lparr>ev_kind := EVENT_CHANNEL_BOUND, ev_channel := CHANNEL_NUMBER,
                 ev_address := from_socket_addr (tc_peer c)\<rparr>)
               (c\<lparr>tc_channel := Some CHANNEL_NUMBER, tc_channel_failures := 0\<rparr>))))"

text \<open>No completion of a failure adds a transaction.\<close>

lemma push_event_fields [simp]:
  "tc_pending (push_event ev c) = tc_pending c" "tc_controls (push_event ev c) = tc_controls c"
  "tc_state (push_event ev c) = tc_state c" "tc_server (push_event ev c) = tc_server c"
  "tc_realm (push_event ev c) = tc_realm c" "tc_nonce (push_event ev c) = tc_nonce c"
  "tc_key (push_event ev c) = tc_key c" "tc_relay (push_event ev c) = tc_relay c"
  "tc_allocation_expires_at (push_event ev c) = tc_allocation_expires_at c"
  "tc_shutting_down (push_event ev c) = tc_shutting_down c"
  "tc_destroyed (push_event ev c) = tc_destroyed c" "tc_transport (push_event ev c) = tc_transport c"
  "tc_profile (push_event ev c) = tc_profile c" "tc_draws (push_event ev c) = tc_draws c"
  "tc_peer (push_event ev c) = tc_peer c" "tc_channel (push_event ev c) = tc_channel c"
  "tc_username (push_event ev c) = tc_username c" "tc_password (push_event ev c) = tc_password c"
  by (simp_all add: push_event_def)

lemma complete_failure_pending:
  "tc_pending (complete_failure op status code now c) = tc_pending c
   \<or> tc_pending (complete_failure op status code now c) = []"
  by (auto simp: complete_failure_def destroy_allocation_def destroy_after_channel_rebind_exhausted_def
      schedule_maintenance_retry_def complete_def set_state_def Let_def split: operation.splits)

text \<open>The retransmission loop, \<open>expire_transactions\<close>, from index \<open>i\<close> on.\<close>

definition retransmit :: "instant \<Rightarrow> nat \<Rightarrow> core \<Rightarrow> core" where
  "retransmit now i c =
     (let c = queue_packet (pn_packet (tc_pending c ! i)) c;
          p = tc_pending c ! i;
          rto = min (pn_rto p * 2) MAX_RTO
      in c\<lparr>tc_pending := (tc_pending c)[i := p\<lparr>pn_transmissions := pn_transmissions p + 1, pn_rto := rto,
                                             pn_next_attempt := now + rto\<rparr>]\<rparr>)"

definition drop_expired :: "instant \<Rightarrow> nat \<Rightarrow> core \<Rightarrow> core" where
  "drop_expired now i c =
     (let p = tc_pending c ! i;
          c = remove_queued_transaction (pn_transaction p) (c\<lparr>tc_pending := remove_nth i (tc_pending c)\<rparr>)
      in complete_failure (pn_operation p) RESULT_TIMEOUT 0 now c)"

lemma length_drop_expired:
  "i < length (tc_pending c) \<Longrightarrow> length (tc_pending (drop_expired now i c)) < length (tc_pending c)"
  using complete_failure_pending [of "pn_operation (tc_pending c ! i)" RESULT_TIMEOUT 0 now
      "remove_queued_transaction (pn_transaction (tc_pending c ! i)) (c\<lparr>tc_pending := remove_nth i (tc_pending c)\<rparr>)"]
  by (auto simp: drop_expired_def remove_queued_transaction_def length_remove_nth Let_def)

lemma queue_packet_pending [simp]: "tc_pending (queue_packet packet c) = tc_pending c"
  by (simp add: queue_packet_def Let_def)

lemma length_retransmit [simp]: "length (tc_pending (retransmit now i c)) = length (tc_pending c)"
  by (simp add: retransmit_def Let_def)

function expire_transactions :: "instant \<Rightarrow> nat \<Rightarrow> core \<Rightarrow> core" where
  "expire_transactions now i c =
     (if i < length (tc_pending c) then
        if now < pn_next_attempt (tc_pending c ! i) then expire_transactions now (i + 1) c
        else if pn_transmissions (tc_pending c ! i) \<ge> MAX_TRANSMISSIONS then
          expire_transactions now i (drop_expired now i c)
        else if tc_transport c = Stream then
          expire_transactions now i (drop_expired now i c)
        else expire_transactions now (i + 1) (retransmit now i c)
      else c)"
  by pat_completeness auto
termination
  apply (relation "measure (\<lambda>(now, i, c). length (tc_pending c) - i)")
      apply simp
     apply simp
  subgoal for now i c using length_drop_expired [of i c now] by simp
  subgoal for now i c using length_drop_expired [of i c now] by simp
  apply simp
  done

declare expire_transactions.simps [simp del]

section \<open>The public operations\<close>

definition new_core ::
  "sock_addr \<Rightarrow> bytes \<Rightarrow> bytes \<Rightarrow> sock_addr \<Rightarrow> turn_profile \<Rightarrow> control_transport \<Rightarrow> core" where
  "new_core server username password peer profile transport =
     \<lparr>tc_server = server, tc_peer = peer, tc_username = username, tc_password = password,
      tc_realm = None, tc_nonce = None, tc_key = None, tc_state = STATE_NULL, tc_relay = None,
      tc_channel = None, tc_controls = [], tc_events = [], tc_pending = [],
      tc_allocation_refresh = None, tc_allocation_expires_at = None,
      tc_maintenance_refresh = None, tc_permission_retry = None, tc_channel_retry = None,
      tc_refresh_failures = 0, tc_permission_failures = 0, tc_channel_failures = 0,
      tc_keepalive = None, tc_shutting_down = False, tc_destroyed = False,
      tc_profile = profile, tc_transport = transport, tc_draws = 0\<rparr>"

definition create ::
  "sock_addr \<Rightarrow> bytes \<Rightarrow> bytes \<Rightarrow> sock_addr \<Rightarrow> turn_profile \<Rightarrow> control_transport \<Rightarrow> core_error + core" where
  "create server username password peer profile transport =
     (if sa_port server = 0 \<or> sa_port peer = 0 then Inl Invalid_argument
      else if username = [] \<or> length username > 512 \<or> password = [] \<or> length password > 512 then Inl Invalid_argument
      else Inr (new_core server username password peer profile transport))"

definition require_open :: "core \<Rightarrow> core_error option" where
  "require_open c = (if tc_destroyed c \<or> tc_shutting_down c then Some Closed else None)"

definition require_ready :: "core \<Rightarrow> core_error option" where
  "require_ready c =
     (case require_open c of
        Some e \<Rightarrow> Some e
      | None \<Rightarrow> if tc_state c \<noteq> STATE_READY then Some Invalid_argument else None)"

definition start_allocation :: "turn_env \<Rightarrow> instant \<Rightarrow> core \<Rightarrow> core_error option \<times> core" where
  "start_allocation env now c =
     (case require_open c of
        Some e \<Rightarrow> (Some e, c)
      | None \<Rightarrow>
          if tc_state c \<noteq> STATE_NULL then (Some Invalid_argument, c)
          else start_operation env now Allocate False 0 (set_state STATE_ALLOCATING c))"

definition start_channel :: "turn_env \<Rightarrow> instant \<Rightarrow> core \<Rightarrow> core_error option \<times> core" where
  "start_channel env now c =
     (case require_ready c of
        Some e \<Rightarrow> (Some e, c)
      | None \<Rightarrow> start_operation env now Channel True 0 c)"

definition start_permission :: "turn_env \<Rightarrow> instant \<Rightarrow> core \<Rightarrow> core_error option \<times> core" where
  "start_permission env now c =
     (case require_ready c of
        Some e \<Rightarrow> (Some e, c)
      | None \<Rightarrow> start_operation env now Permission True 0 c)"

definition response_error_event :: "u32 \<Rightarrow> int \<Rightarrow> int \<Rightarrow> core \<Rightarrow> core" where
  "response_error_event mth status stun_code c =
     push_event (default_event\<lparr>ev_kind := EVENT_STUN_RESPONSE_ERROR, ev_method := mth,
         ev_status := status, ev_stun_code := stun_code, ev_state := tc_state c\<rparr>) c"

text \<open>
  \<open>input_stun\<close> in three pieces: \<open>handle_error\<close> is the branch of an error response
  and \<open>handle_response\<close> what follows once the matched transaction is removed.
\<close>

definition handle_error ::
  "turn_env \<Rightarrow> instant \<Rightarrow> pending \<Rightarrow> stun_message \<Rightarrow> core \<Rightarrow> int \<times> core" where
  "handle_error env now p m c =
     (let mth = ucast (message_method m);
          code = (case error_code m of None \<Rightarrow> 0 | Some code \<Rightarrow> code);
          icode = int (unat code)
      in if code = 0 then
           (0, complete_failure (pn_operation p) RESULT_PROTOCOL 0 now
                 (response_error_event mth RESULT_PROTOCOL 0 c))
         else if code = 437 \<or> (pn_operation p = Channel \<and> code = 400) then
           (0, destroy_allocation (pn_operation p) RESULT_PROTOCOL icode (response_error_event mth 0 icode c))
         else
           let realm = (case attribute m ATTR_REALM of
                          Some a \<Rightarrow> Some (at_value a)
                        | None \<Rightarrow> if code = 438 then tc_realm c else None);
               nonce = map_option at_value (attribute m ATTR_NONCE);
               failed = (\<lambda>c'. (0, complete_failure (pn_operation p) RESULT_PROTOCOL icode now
                                  (push_event (default_event\<lparr>ev_kind := EVENT_STUN_RESPONSE_ERROR,
                                      ev_method := mth, ev_stun_code := icode, ev_state := tc_state c\<rparr>) c')))
           in if code \<in> {401, 438} \<and> pn_nonce_retries p < pf_max_nonce_retries (tc_profile c) then
                (case (realm, nonce) of
                   (Some realm, Some nonce) \<Rightarrow>
                     (case start_operation env now (pn_operation p) True (pn_nonce_retries p + 1)
                             (set_auth env realm nonce c) of
                        (None, c) \<Rightarrow> (0, c)
                      | (Some _, c) \<Rightarrow> failed c)
                 | _ \<Rightarrow> failed c)
              else failed c)"

definition handle_response ::
  "turn_env \<Rightarrow> instant \<Rightarrow> pending \<Rightarrow> stun_message \<Rightarrow> core \<Rightarrow> int \<times> core" where
  "handle_response env now p m c =
     (if message_class m = Success \<and> \<not> pn_authenticated p then
        (RESULT_AUTHENTICATION, complete_failure (pn_operation p) RESULT_AUTHENTICATION 0 now c)
      else if message_class m = Error_class then handle_error env now p m c
      else
        (case complete_success env (pn_operation p) m now c of
           (None, c) \<Rightarrow> (0, c)
         | (Some _, c) \<Rightarrow> (RESULT_PROTOCOL, complete_failure (pn_operation p) RESULT_PROTOCOL 0 now c)))"

definition input_stun :: "turn_env \<Rightarrow> instant \<Rightarrow> bytes \<Rightarrow> core \<Rightarrow> int \<times> core" where
  "input_stun env now packet c =
     (case stun_decode packet of
        None \<Rightarrow> (RESULT_INVALID_ARGUMENT, c)
      | Some (Inl _) \<Rightarrow> (RESULT_INVALID_ARGUMENT, c)
      | Some (Inr m) \<Rightarrow>
          if message_class m \<notin> {Success, Error_class} then (RESULT_NOT_CONTROL, c)
          else if fingerprint_valid (te_crc32 env) m = Some False then (RESULT_INVALID_ARGUMENT, c)
          else
            let transaction = sm_transaction m;
                mth = ucast (message_method m)
            in (case position (\<lambda>p. pn_transaction p = transaction \<and> op_method (pn_operation p) = mth) (tc_pending c) of
                  None \<Rightarrow> (RESULT_NOT_CONTROL, c)
                | Some i \<Rightarrow>
                    let p = tc_pending c ! i in
                    if pn_authenticated p \<and> response_requires_integrity m
                       \<and> \<not> verify_integrity (te_hmac env) packet m (tc_key c)
                       \<and> \<not> is_fingerprinted_allocation_mismatch (te_crc32 env) m then
                      (RESULT_AUTHENTICATION,
                       (case (message_class m, error_code m) of
                          (Error_class, Some code) \<Rightarrow>
                            response_error_event mth RESULT_AUTHENTICATION (int (unat code)) c
                        | _ \<Rightarrow> c))
                    else
                      handle_response env now p m
                        (remove_queued_transaction transaction (c\<lparr>tc_pending := remove_nth i (tc_pending c)\<rparr>))))"

definition due :: "instant \<Rightarrow> instant option \<Rightarrow> bool" where
  "due now deadline = (case deadline of None \<Rightarrow> False | Some d \<Rightarrow> d \<le> now)"

definition next_deadline :: "core \<Rightarrow> instant option" where
  "next_deadline c =
     (let ds = map pn_next_attempt (tc_pending c)
             @ concat (map (\<lambda>d. case d of None \<Rightarrow> [] | Some t \<Rightarrow> [t])
                 [tc_allocation_refresh c, tc_maintenance_refresh c, tc_permission_retry c,
                  tc_channel_retry c, tc_keepalive c])
      in case ds of [] \<Rightarrow> None | d # ds \<Rightarrow> Some (fold min ds d))"

text \<open>
  The maintenance block of \<open>poll\<close> in its four parts; an error of one part skips the rest.
\<close>

definition poll_refresh :: "turn_env \<Rightarrow> instant \<Rightarrow> core \<Rightarrow> core_error option \<times> core" where
  "poll_refresh env now c =
     (if due now (tc_allocation_refresh c) \<and> \<not> has_operation Refresh c
      then start_operation env now Refresh True 0 (c\<lparr>tc_allocation_refresh := None\<rparr>)
      else (None, c))"

definition poll_permission :: "turn_env \<Rightarrow> instant \<Rightarrow> bool \<Rightarrow> core \<Rightarrow> core_error option \<times> core" where
  "poll_permission env now is_due c =
     (if is_due \<and> \<not> has_operation Permission c
      then start_operation env now Permission True 0 (c\<lparr>tc_permission_retry := None\<rparr>)
      else (None, c))"

definition poll_channel :: "turn_env \<Rightarrow> instant \<Rightarrow> bool \<Rightarrow> core \<Rightarrow> core_error option \<times> core" where
  "poll_channel env now is_due c =
     (if is_due \<and> \<not> has_operation Channel c
      then start_operation env now Channel True 0 (c\<lparr>tc_channel_retry := None\<rparr>)
      else (None, c))"

definition poll_keepalive :: "instant \<Rightarrow> core \<Rightarrow> core" where
  "poll_keepalive now c =
     (if due now (tc_keepalive c)
      then queue_keepalive (c\<lparr>tc_keepalive := Some (now + pf_keepalive_interval (tc_profile c))\<rparr>)
      else c)"

definition poll_maintenance :: "turn_env \<Rightarrow> instant \<Rightarrow> core \<Rightarrow> core_error option \<times> core" where
  "poll_maintenance env now c =
     (let maintenance_due = due now (tc_maintenance_refresh c);
          permission_due = due now (tc_permission_retry c);
          channel_due = due now (tc_channel_retry c)
      in case poll_refresh env now c of
           (Some e, c) \<Rightarrow> (Some e, c)
         | (None, c) \<Rightarrow>
             let c = (if maintenance_due
                      then c\<lparr>tc_maintenance_refresh := Some (now + pf_maintenance_refresh (tc_profile c))\<rparr> else c)
             in (case poll_permission env now (maintenance_due \<or> permission_due) c of
                   (Some e, c) \<Rightarrow> (Some e, c)
                 | (None, c) \<Rightarrow>
                     (case poll_channel env now (maintenance_due \<or> channel_due) c of
                        (Some e, c) \<Rightarrow> (Some e, c)
                      | (None, c) \<Rightarrow> (None, poll_keepalive now c))))"

definition expire_allocation :: "instant \<Rightarrow> core \<Rightarrow> core" where
  "expire_allocation now c =
     (if \<not> tc_shutting_down c \<and> tc_state c = STATE_READY \<and> due now (tc_allocation_expires_at c)
      then destroy_allocation Refresh RESULT_TIMEOUT 0 c else c)"

definition poll :: "turn_env \<Rightarrow> instant \<Rightarrow> core \<Rightarrow> (core_error + duration option) \<times> core" where
  "poll env now c =
     (if tc_destroyed c then (Inr None, c)
      else
        let c = expire_allocation now (expire_transactions now 0 c);
            (e, c) = (if \<not> tc_shutting_down c \<and> tc_state c = STATE_READY
                      then poll_maintenance env now c else (None, c))
        in (case e of
              Some e \<Rightarrow> (Inl e, c)
            | None \<Rightarrow> (Inr (map_option (\<lambda>d. max (d - now) (from_millis 1)) (next_deadline c)), c)))"

definition resync_after_suspend :: "duration \<Rightarrow> instant \<Rightarrow> core \<Rightarrow> bool \<times> core" where
  "resync_after_suspend gap now c =
     (if tc_destroyed c \<or> tc_shutting_down c \<or> tc_state c \<noteq> STATE_READY then (False, c)
      else
        let probe = (\<lambda>c. (False, c\<lparr>tc_allocation_refresh := Some now, tc_maintenance_refresh := Some now,
                                    tc_keepalive := Some now\<rparr>))
        in (case tc_allocation_expires_at c of
              None \<Rightarrow> probe c
            | Some expires \<Rightarrow>
                if gap \<le> expires \<and> now < expires - gap
                then probe (c\<lparr>tc_allocation_expires_at := Some (expires - gap)\<rparr>)
                else (True, destroy_allocation Refresh RESULT_TIMEOUT 0 c)))"

definition pull_control :: "core \<Rightarrow> (core_error + (bytes \<times> sock_addr) option) \<times> core" where
  "pull_control c =
     (case tc_controls c of
        [] \<Rightarrow> (Inr None, c)
      | ct # cts \<Rightarrow>
          (if length (ct_packet ct) > 1024 then Inl Buffer_too_small
           else Inr (Some (ct_packet ct, ct_destination ct)), c\<lparr>tc_controls := cts\<rparr>))"

definition pull_event :: "core \<Rightarrow> native_event option \<times> core" where
  "pull_event c =
     (case tc_events c of [] \<Rightarrow> (None, c) | ev # evs \<Rightarrow> (Some ev, c\<lparr>tc_events := evs\<rparr>))"

definition relay_address :: "core \<Rightarrow> core_error + sock_addr" where
  "relay_address c = (case tc_relay c of None \<Rightarrow> Inl Relay_unavailable | Some r \<Rightarrow> Inr r)"

definition graceful_shutdown :: "turn_env \<Rightarrow> instant \<Rightarrow> core \<Rightarrow> core_error option \<times> core" where
  "graceful_shutdown env now c =
     (if tc_destroyed c \<or> tc_shutting_down c then (None, c)
      else
        let c = c\<lparr>tc_shutting_down := True, tc_channel := None, tc_maintenance_refresh := None,
                  tc_permission_retry := None, tc_channel_retry := None, tc_keepalive := None,
                  tc_controls := []\<rparr>
        in if tc_state c = STATE_READY
              \<or> (tc_state c = STATE_DESTROYING \<and> tc_allocation_expires_at c \<noteq> None) then
             start_operation env now Deallocate True 0 (set_state STATE_DEALLOCATING (c\<lparr>tc_pending := []\<rparr>))
           else if tc_state c \<noteq> STATE_ALLOCATING then (None, c\<lparr>tc_pending := []\<rparr>)
           else (None, c))"

definition force_destroy :: "int \<Rightarrow> core \<Rightarrow> core" where
  "force_destroy status c =
     (if tc_destroyed c then c
      else
        let c = set_state STATE_DESTROYING (c\<lparr>tc_destroyed := True, tc_controls := [], tc_pending := []\<rparr>)
        in push_event (default_event\<lparr>ev_kind := EVENT_FORCED_DESTROY, ev_status := status,
             ev_state := STATE_DESTROYING\<rparr>) c)"

end
