(* ===== verification/Turn_Request.thy ===== *)
theory Turn_Request
  imports Turn_Core
begin

text \<open>
  The requests the TURN core sends: as attribute lists, decoded by the codec of
  \<open>stun_codec.rs\<close> and verified by the client's own checks; and what a response has to
  carry to be believed.
\<close>

section \<open>Requests as attribute lists\<close>

definition request_list :: "operation \<Rightarrow> core \<Rightarrow> bytes \<Rightarrow> (u16 \<times> bytes) list" where
  "request_list op c transaction =
     (let lifetime = (ATTR_LIFETIME, to_be32 (word_of_nat REQUESTED_ALLOCATION_LIFETIME_SECS));
          peer = (ATTR_XOR_PEER_ADDRESS, encode_xor_address (tc_peer c) transaction)
      in case op of
           Allocate \<Rightarrow> [(ATTR_REQUESTED_TRANSPORT, [17, 0, 0, 0]),
             (ATTR_REQUESTED_ADDRESS_FAMILY, [if is_ipv4 (tc_peer c) then 1 else 2, 0, 0, 0]), lifetime]
         | Refresh \<Rightarrow> [lifetime]
         | Deallocate \<Rightarrow> [(ATTR_LIFETIME, to_be32 0)]
         | Permission \<Rightarrow> [peer]
         | Channel \<Rightarrow> [(ATTR_CHANNEL_NUMBER, [0x40, 0, 0, 0]), peer])"

definition auth_list :: "core \<Rightarrow> (u16 \<times> bytes) list" where
  "auth_list c = [(ATTR_USERNAME, tc_username c), (ATTR_REALM, opt_bytes (tc_realm c)),
     (ATTR_NONCE, opt_bytes (tc_nonce c))]"

lemma length_encode_xor: "length transaction = 12 \<Longrightarrow> length (encode_xor_address a transaction) \<le> 20"
  by (auto simp: encode_xor_address_def xor_mask_def split: ip_addr.splits)

lemma padded_len_4: "padded_len 4 = 4" "padded_len (Suc (Suc (Suc (Suc 0)))) = 4"
  by (simp_all add: padded_len_def)

lemma holds_xor:
  "holds kind len transaction as b \<Longrightarrow>
     holds kind len transaction (as @ [(k, encode_xor_address a transaction)]) (add_xor_address k a b)"
  using holds_add by (simp add: add_xor_address_def holds_def)

lemma holds_request:
  assumes "length transaction = 12"
  shows "holds kind 0 transaction (request_list op c transaction)
    (request_attributes op c (with_transaction kind transaction))"
proof -
  note n = holds_new [OF assms, of kind]
  note a1 = holds_add [OF n, simplified]
  note a2 = holds_add [OF a1, simplified]
  note a3 = holds_add [OF a2, simplified]
  show ?thesis
    using a1 a3 holds_xor [OF n] holds_xor [OF a1]
    by (auto simp: request_list_def request_attributes_def Let_def split: operation.splits)
qed

lemma holds_auth:
  assumes "holds kind len transaction as b"
  shows "holds kind len transaction (as @ auth_list c)
    (add_attribute ATTR_NONCE (opt_bytes (tc_nonce c))
      (add_attribute ATTR_REALM (opt_bytes (tc_realm c)) (add_attribute ATTR_USERNAME (tc_username c) b)))"
  using holds_add [OF holds_add [OF holds_add [OF assms]]] by (simp add: auth_list_def)

lemma request_list_no_checks:
  "\<not> has_kind (request_list op c transaction) ATTR_MESSAGE_INTEGRITY"
  "\<not> has_kind (request_list op c transaction) ATTR_FINGERPRINT"
  "\<not> has_kind (auth_list c) ATTR_MESSAGE_INTEGRITY"
  "\<not> has_kind (auth_list c) ATTR_FINGERPRINT"
  by (auto simp: has_kind_def request_list_def auth_list_def Let_def attr_defs split: operation.splits)

text \<open>What the core keeps of the credentials is small.\<close>

definition AUTH_LIMIT :: nat where
  "AUTH_LIMIT = 16384"

definition small_auth :: "core \<Rightarrow> bool" where
  "small_auth c \<longleftrightarrow> length (tc_username c) \<le> 512 \<and> length (opt_bytes (tc_realm c)) \<le> AUTH_LIMIT
     \<and> length (opt_bytes (tc_nonce c)) \<le> AUTH_LIMIT"

lemma request_list_length:
  assumes "length transaction = 12"
  shows "length (body_bytes (request_list op c transaction)) \<le> 44"
proof -
  have "padded_len (length (encode_xor_address (tc_peer c) transaction)) \<le> 20"
    using length_encode_xor [OF assms, of "tc_peer c"] by (simp add: padded_len_def)
  then show ?thesis
    by (auto simp: request_list_def Let_def padded_len_4 split: operation.splits)
qed

lemma request_valid:
  assumes "small_auth c" "length transaction = 12"
  shows "list_all valid_attribute (request_list op c transaction @ auth_list c)"
    and "length (body_bytes (request_list op c transaction @ auth_list c)) \<le> 40000"
proof -
  show "list_all valid_attribute (request_list op c transaction @ auth_list c)"
    using assms length_encode_xor [OF assms(2), of "tc_peer c"]
    by (auto simp: valid_attribute_def request_list_def auth_list_def small_auth_def AUTH_LIMIT_def Let_def
        split: operation.splits)
  have "length (body_bytes (auth_list c)) \<le> 12 + (512 + 4) + (AUTH_LIMIT + 4) + (AUTH_LIMIT + 4)"
    using assms padded_len_bounds(2) [of "length (tc_username c)"]
      padded_len_bounds(2) [of "length (opt_bytes (tc_realm c))"]
      padded_len_bounds(2) [of "length (opt_bytes (tc_nonce c))"]
    by (simp add: auth_list_def small_auth_def)
  then show "length (body_bytes (request_list op c transaction @ auth_list c)) \<le> 40000"
    using request_list_length [OF assms(2), of op c] by (simp add: AUTH_LIMIT_def)
qed

text \<open>With complete, small credentials an authenticated request can always be built.\<close>

lemma build_request_total:
  assumes "small_auth c" "tc_key c = Some key" "length transaction = 12" "\<And>k m. length (te_hmac env k m) = 20"
  shows "\<exists>packet. build_request env op transaction True c = Inr packet"
proof -
  let ?kind = "ucast (op_method op) :: u16"
  have len: "length (body_bytes (request_list op c transaction @ auth_list c)) + 32 < 2 ^ 16"
    using request_valid(2) [OF assms(1,3), of op] by simp
  have "finish_authenticated (te_crc32 env) (te_hmac env) key
      (add_attribute ATTR_NONCE (opt_bytes (tc_nonce c))
        (add_attribute ATTR_REALM (opt_bytes (tc_realm c)) (add_attribute ATTR_USERNAME (tc_username c)
          (request_attributes op c (with_transaction ?kind transaction))))) \<noteq> None"
    using finish_authenticated_total [OF holds_auth [OF holds_request [OF assms(3)]] len assms(4)] .
  then show ?thesis
    using assms(2) by (auto simp: build_request_def Let_def)
qed

text \<open>The unauthenticated request is the opening Allocate; it always fits.\<close>

lemma build_request_total_plain:
  assumes "length transaction = 12"
  shows "\<exists>packet. build_request env op transaction False c = Inr packet"
proof -
  have "finish (te_crc32 env) (request_attributes op c (with_transaction (ucast (op_method op)) transaction)) \<noteq> None"
    using finish_total [OF holds_request [OF assms, of "ucast (op_method op)" op c]] request_list_length [OF assms, of op c]
    by simp
  then show ?thesis by (auto simp: build_request_def Let_def)
qed

section \<open>What the client sends, its own checks accept\<close>

definition method16 :: "operation \<Rightarrow> u16" where
  "method16 op = ucast (op_method op)"

lemma method16_request:
  "method16 op AND 0xc000 = 0" "method16 op \<noteq> 0"
  "message_class \<lparr>sm_raw = raw, sm_kind = method16 op, sm_transaction = t, sm_end = e\<rparr> = Request"
  "message_method \<lparr>sm_raw = raw, sm_kind = method16 op, sm_transaction = t, sm_end = e\<rparr> = method16 op"
  by (simp_all add: method16_def op_method_def message_class_def message_method_def split: operation.splits)

lemma has_kind_append [simp]: "has_kind (as @ bs) k \<longleftrightarrow> has_kind as k \<or> has_kind bs k"
  by (auto simp: has_kind_def)

text \<open>A sealed message: its attributes, then MESSAGE-INTEGRITY over them, then FINGERPRINT over both.\<close>

definition seal_mac :: "(bytes \<Rightarrow> bytes \<Rightarrow> bytes) \<Rightarrow> bytes \<Rightarrow> u16 \<Rightarrow> bytes \<Rightarrow> (u16 \<times> bytes) list \<Rightarrow> bytes" where
  "seal_mac hmac key kind transaction as =
     hmac key (header_bytes_of kind (length (body_bytes as) + 24) transaction @ body_bytes as)"

definition sealed_part :: "u16 \<Rightarrow> bytes \<Rightarrow> (u16 \<times> bytes) list \<Rightarrow> bytes \<Rightarrow> bytes" where
  "sealed_part kind transaction as mac =
     header_bytes_of kind (length (body_bytes as) + 32) transaction @ body_bytes as @ attribute_bytes (ATTR_MESSAGE_INTEGRITY, mac)"

definition sealed :: "(bytes \<Rightarrow> u32) \<Rightarrow> u16 \<Rightarrow> bytes \<Rightarrow> (u16 \<times> bytes) list \<Rightarrow> bytes \<Rightarrow> (u16 \<times> bytes) list" where
  "sealed crc32 kind transaction as mac =
     as @ [(ATTR_MESSAGE_INTEGRITY, mac), (ATTR_FINGERPRINT, to_be32 (crc32 (sealed_part kind transaction as mac) XOR FINGERPRINT_XOR))]"

definition sealed_message :: "(bytes \<Rightarrow> u32) \<Rightarrow> u16 \<Rightarrow> bytes \<Rightarrow> (u16 \<times> bytes) list \<Rightarrow> bytes \<Rightarrow> stun_message" where
  "sealed_message crc32 kind transaction as mac =
     (let all = sealed crc32 kind transaction as mac
      in \<lparr>sm_raw = message_bytes kind transaction all, sm_kind = kind, sm_transaction = transaction, sm_end = 20 + length (body_bytes all)\<rparr>)"

definition unsealed_ok :: "bytes \<Rightarrow> (u16 \<times> bytes) list \<Rightarrow> bytes \<Rightarrow> bool" where
  "unsealed_ok transaction as mac \<longleftrightarrow> length transaction = 12 \<and> list_all valid_attribute as \<and> length (body_bytes as) \<le> 40000
     \<and> length mac = 20 \<and> \<not> has_kind as ATTR_MESSAGE_INTEGRITY \<and> \<not> has_kind as ATTR_FINGERPRINT"

lemma sealed_facts:
  assumes "unsealed_ok transaction as mac"
  shows "list_all valid_attribute (sealed crc32 kind transaction as mac)"
    "length (body_bytes (sealed crc32 kind transaction as mac)) = length (body_bytes as) + 32"
  using assms by (simp_all add: unsealed_ok_def sealed_def valid_attribute_def padded_len_def)

lemma sealed_decodes:
  assumes "unsealed_ok transaction as mac" "kind AND 0xc000 = 0" "kind \<noteq> 0"
  shows "stun_decode (message_bytes kind transaction (sealed crc32 kind transaction as mac))
    = Some (Inr (sealed_message crc32 kind transaction as mac))"
  using stun_decode_message [OF assms(2,3), of transaction "sealed crc32 kind transaction as mac"] sealed_facts [OF assms(1)] assms(1)
  by (simp add: sealed_message_def unsealed_ok_def Let_def)

lemma sealed_integrity:
  assumes "unsealed_ok transaction as mac" "mac = seal_mac hmac key kind transaction as"
  shows "verify_integrity hmac (sm_raw (sealed_message crc32 kind transaction as mac)) (sealed_message crc32 kind transaction as mac) (Some key)"
proof -
  have valid: "list_all valid_attribute (sealed crc32 kind transaction as mac)" by (rule sealed_facts(1) [OF assms(1)])
  show ?thesis
    by (subst verify_integrity_message [where kind = kind and transaction = transaction and as = as and v = mac,
          OF _ valid [unfolded sealed_def append.simps]])
      (use assms in \<open>simp_all add: unsealed_ok_def sealed_message_def sealed_def seal_mac_def Let_def view_attribute_None message_bytes_def\<close>)
qed

lemma sealed_fingerprint:
  assumes "unsealed_ok transaction as mac"
  shows "fingerprint_valid crc32 (sealed_message crc32 kind transaction as mac) = Some True"
proof -
  let ?m = "sealed_message crc32 kind transaction as mac" and ?n = "length (body_bytes as)"
  let ?f = "crc32 (sealed_part kind transaction as mac) XOR FINGERPRINT_XOR"
  have t: "length transaction = 12" and mac: "length mac = 20" using assms by (simp_all add: unsealed_ok_def)
  have "attribute ?m ATTR_FINGERPRINT = view_attribute 20 (sealed crc32 kind transaction as mac) ATTR_FINGERPRINT"
    by (rule attribute_message [OF t sealed_facts(1) [OF assms], where kind = kind]) (simp_all add: sealed_message_def Let_def)
  also have "\<dots> = view_attribute (20 + ?n) [(ATTR_MESSAGE_INTEGRITY, mac), (ATTR_FINGERPRINT, to_be32 ?f)] ATTR_FINGERPRINT"
    unfolding sealed_def by (rule view_attribute_append) (use assms in \<open>simp add: unsealed_ok_def view_attribute_None\<close>)
  finally have a: "attribute ?m ATTR_FINGERPRINT = Some \<lparr>at_kind = ATTR_FINGERPRINT, at_value = to_be32 ?f,
      at_header_start = 20 + ?n + 24, at_value_start = 20 + ?n + 28, at_value_end = 20 + ?n + 32\<rparr>"
    using mac by (simp add: attr_defs padded_len_def)
  have "sm_raw ?m = sealed_part kind transaction as mac @ attribute_bytes (ATTR_FINGERPRINT, to_be32 ?f)"
    using mac by (simp add: sealed_message_def sealed_def sealed_part_def message_bytes_def padded_len_def Let_def)
  moreover have "length (sealed_part kind transaction as mac) = 20 + ?n + 24"
    using t mac by (simp add: sealed_part_def padded_len_def)
  ultimately have "take (20 + ?n + 24) (sm_raw ?m) = sealed_part kind transaction as mac" by (metis append_eq_conv_conj)
  moreover have "sm_end ?m = 20 + ?n + 32" using sealed_facts(2) [OF assms] by (simp add: sealed_message_def Let_def)
  ultimately show ?thesis using a by (simp add: fingerprint_valid_def)
qed

lemma built_request_is_sealed:
  assumes "build_request env op transaction True c = Inr packet" "length transaction = 12" "\<And>k m. length (te_hmac env k m) = 20"
  obtains key where "tc_key c = Some key"
    "packet = message_bytes (method16 op) transaction (sealed (te_crc32 env) (method16 op) transaction
       (request_list op c transaction @ auth_list c)
       (seal_mac (te_hmac env) key (method16 op) transaction (request_list op c transaction @ auth_list c)))"
proof -
  obtain key where key: "tc_key c = Some key"
    using assms(1) by (cases "tc_key c") (auto simp: build_request_def Let_def)
  have "finish_authenticated (te_crc32 env) (te_hmac env) key
      (add_attribute ATTR_NONCE (opt_bytes (tc_nonce c))
        (add_attribute ATTR_REALM (opt_bytes (tc_realm c)) (add_attribute ATTR_USERNAME (tc_username c)
          (request_attributes op c (with_transaction (method16 op) transaction))))) = Some packet"
    using assms(1) key by (auto simp: build_request_def method16_def Let_def split: option.splits)
  from finish_authenticated_message [OF holds_auth [OF holds_request [OF assms(2)]] this assms(3)]
  show ?thesis by (intro that [OF key]) (simp add: sealed_def sealed_part_def seal_mac_def)
qed

text \<open>
  C10: Every authenticated request the client builds passes its own checks: the packet decodes to a
  Request of the operation's method with the given transaction, MESSAGE-INTEGRITY verifies under
  the key of the core and FINGERPRINT is valid.
\<close>

theorem request_verifies:
  assumes "build_request env op transaction True c = Inr packet" "small_auth c"
    and "length transaction = 12" "\<forall>k m. length (te_hmac env k m) = 20"
  shows "\<exists>m. stun_decode packet = Some (Inr m) \<and> message_class m = Request
    \<and> message_method m = method16 op \<and> sm_transaction m = transaction
    \<and> verify_integrity (te_hmac env) packet m (tc_key c)
    \<and> fingerprint_valid (te_crc32 env) m = Some True"
proof -
  let ?as = "request_list op c transaction @ auth_list c"
  have hmac: "\<And>k m. length (te_hmac env k m) = 20" using assms(4) by blast
  obtain key where key: "tc_key c = Some key" and packet: "packet = message_bytes (method16 op) transaction
      (sealed (te_crc32 env) (method16 op) transaction ?as (seal_mac (te_hmac env) key (method16 op) transaction ?as))"
    using built_request_is_sealed [OF assms(1,3) hmac] by blast
  define mac where "mac = seal_mac (te_hmac env) key (method16 op) transaction ?as"
  have ok: "unsealed_ok transaction ?as mac"
    using request_valid [OF assms(2,3)] assms(3) hmac by (simp add: unsealed_ok_def mac_def seal_mac_def request_list_no_checks)
  let ?m = "sealed_message (te_crc32 env) (method16 op) transaction ?as mac"
  have "sm_raw ?m = packet" by (simp add: sealed_message_def packet mac_def Let_def)
  then have "verify_integrity (te_hmac env) packet ?m (tc_key c)"
    using sealed_integrity [OF ok mac_def, of "te_crc32 env"] key by simp
  moreover have "stun_decode packet = Some (Inr ?m)"
    using sealed_decodes [OF ok method16_request(1,2)] by (simp add: packet mac_def)
  moreover have "message_class ?m = Request" "message_method ?m = method16 op" "sm_transaction ?m = transaction"
    by (simp_all add: sealed_message_def Let_def method16_request(3,4))
  ultimately show ?thesis using sealed_fingerprint [OF ok] by blast
qed

definition example_addr :: "u16 \<Rightarrow> sock_addr" where
  "example_addr port = \<lparr>sa_ip = V4 0x0a000001, sa_port = port\<rparr>"

definition example_env :: turn_env where
  "example_env = \<lparr>te_md5 = (\<lambda>m. replicate 16 1), te_hmac = (\<lambda>k m. replicate 20 2),
     te_crc32 = (\<lambda>m. 3), te_random = (\<lambda>n. replicate 12 (word_of_nat n))\<rparr>"

definition example_core :: core where
  "example_core = set_auth example_env [114] [110]
     (new_core (example_addr 3478) [117] [112] (example_addr 9000) PJNATH_COMPAT Datagram)"

lemma example_core_auth:
  "small_auth example_core" "tc_key example_core = Some (replicate 16 1)"
  by (simp_all add: example_core_def set_auth_def new_core_def small_auth_def opt_bytes_def
      AUTH_LIMIT_def example_env_def)

lemma request_verifies_witness:
  "\<exists>packet m. build_request example_env Refresh (replicate 12 5) True example_core = Inr packet
     \<and> stun_decode packet = Some (Inr m)
     \<and> verify_integrity (te_hmac example_env) packet m (Some (replicate 16 1))"
proof -
  have h: "\<forall>k m. length (te_hmac example_env k m) = 20" by (simp add: example_env_def)
  obtain packet where "build_request example_env Refresh (replicate 12 5) True example_core = Inr packet"
    using build_request_total [OF example_core_auth, of "replicate 12 5" example_env Refresh] h by auto
  then show ?thesis
    using request_verifies [OF _ example_core_auth(1) _ h, of Refresh "replicate 12 5" packet]
      example_core_auth(2) by fastforce
qed

section \<open>What an attacker can append\<close>

text \<open>
  MESSAGE-INTEGRITY does not protect what follows it: a response that verifies still verifies
  with any attributes appended behind it, and the client reads them. An attribute of a kind the
  signed part lacks, such as a LIFETIME of zero, is taken from the unsigned tail.
\<close>

theorem unsigned_tail_is_read:
  assumes "length transaction = 12" "length mac = 20"
    and "list_all valid_attribute (as @ [(ATTR_MESSAGE_INTEGRITY, mac), (k, v)])"
    and "\<not> has_kind as ATTR_MESSAGE_INTEGRITY" "\<not> has_kind as k" "k \<noteq> ATTR_MESSAGE_INTEGRITY" "k \<noteq> 0x8020"
    and "length (body_bytes as) + 28 + padded_len (length v) < 2 ^ 16"
    and "kind AND 0xc000 = 0" "kind \<noteq> 0"
    and "mac = hmac key (header_bytes_of kind (length (body_bytes as) + 24) transaction @ body_bytes as)"
  defines "tail \<equiv> message_bytes kind transaction (as @ [(ATTR_MESSAGE_INTEGRITY, mac), (k, v)])"
  shows "\<exists>m a. stun_decode tail = Some (Inr m) \<and> verify_integrity hmac tail m (Some key)
    \<and> attribute m k = Some a \<and> at_value a = v"
proof -
  let ?all = "as @ [(ATTR_MESSAGE_INTEGRITY, mac), (k, v)]"
  define m where "m = \<lparr>sm_raw = tail, sm_kind = kind, sm_transaction = transaction, sm_end = 20 + length (body_bytes ?all)\<rparr>"
  have total: "length (body_bytes ?all) < 2 ^ 16"
    using assms(2,8) by (simp add: padded_len_def)
  have "stun_decode tail = Some (Inr m)"
    unfolding m_def tail_def by (rule stun_decode_message [OF assms(9,10,1,3) total])
  moreover have "verify_integrity hmac (sm_raw m) m (Some key)"
  proof (subst verify_integrity_message [OF assms(1,3)])
    show "sm_raw m = message_bytes kind transaction ?all" by (simp add: m_def tail_def)
    show "sm_end m = length (sm_raw m)" using assms(1) by (simp add: m_def tail_def message_bytes_def)
    show "view_attribute 20 as ATTR_MESSAGE_INTEGRITY = None"
      using assms(4) by (simp add: view_attribute_None)
    show "length (body_bytes as) + 24 < 2 ^ 16" using assms(8) by simp
    show "length mac = 20 \<and> hmac key (header_bytes_of kind (length (body_bytes as) + 24) transaction @ body_bytes as) = mac"
      using assms(2,11) by simp
  qed
  moreover have "attribute m k = view_attribute (20 + length (body_bytes as)) [(ATTR_MESSAGE_INTEGRITY, mac), (k, v)] k"
    using attribute_message [OF assms(1,3), of m kind k] view_attribute_append [of 20 as k] assms(5)
    by (simp add: m_def tail_def view_attribute_None)
  ultimately show ?thesis
    using assms(6,7) by (auto simp: m_def ATTR_MESSAGE_INTEGRITY_def)
qed

lemma unsigned_tail_is_read_witness:
  "\<exists>m a. stun_decode (message_bytes 0x0104 (replicate 12 5) ([] @ [(ATTR_MESSAGE_INTEGRITY, replicate 20 2), (ATTR_LIFETIME, to_be32 0)]))
      = Some (Inr m)
    \<and> attribute m ATTR_LIFETIME = Some a \<and> at_value a = to_be32 0"
  using unsigned_tail_is_read [where transaction = "replicate 12 5" and mac = "replicate 20 2" and as = "[]"
      and k = ATTR_LIFETIME and v = "to_be32 0" and kind = "0x0104"
      and hmac = "\<lambda>k m. replicate 20 2" and key = "[]"]
  by (auto simp: valid_attribute_def has_kind_def attr_defs padded_len_def)

end
