(* ===== verification/Turn_Invariants.thy ===== *)
theory Turn_Invariants
  imports Turn_Request
begin

text \<open>
  What holds of the TURN core after every public operation: bounded queues, at most one
  transaction per operation on its retransmission ladder, complete credentials wherever they are
  needed, an allocation that is always being refreshed while it is ready, and silence after
  destruction. The step relation \<open>turn_step\<close> has one rule per public method; the packets
  fed to it are at most \<open>AUTH_LIMIT\<close> bytes, above any datagram or frame the engine reads.
\<close>

section \<open>Fields that helpers leave alone\<close>

named_theorems core_frames "fields a helper of the core leaves unchanged"

lemma push_event_more [core_frames]:
  "tc_allocation_refresh (push_event ev c) = tc_allocation_refresh c"
  by (simp add: push_event_def)

lemma queue_packet_fields [core_frames]:
  "tc_state (queue_packet p c) = tc_state c" "tc_realm (queue_packet p c) = tc_realm c"
  "tc_nonce (queue_packet p c) = tc_nonce c" "tc_key (queue_packet p c) = tc_key c"
  "tc_relay (queue_packet p c) = tc_relay c" "tc_username (queue_packet p c) = tc_username c"
  "tc_allocation_expires_at (queue_packet p c) = tc_allocation_expires_at c"
  "tc_allocation_refresh (queue_packet p c) = tc_allocation_refresh c"
  "tc_shutting_down (queue_packet p c) = tc_shutting_down c"
  "tc_destroyed (queue_packet p c) = tc_destroyed c"
  "tc_transport (queue_packet p c) = tc_transport c" "tc_profile (queue_packet p c) = tc_profile c"
  by (simp_all add: queue_packet_def push_event_def Let_def)

lemma set_state_fields [core_frames]:
  "tc_state (set_state st c) = st" "tc_pending (set_state st c) = tc_pending c"
  "tc_controls (set_state st c) = tc_controls c"
  "tc_realm (set_state st c) = tc_realm c" "tc_nonce (set_state st c) = tc_nonce c"
  "tc_key (set_state st c) = tc_key c" "tc_relay (set_state st c) = tc_relay c"
  "tc_username (set_state st c) = tc_username c"
  "tc_allocation_expires_at (set_state st c) = tc_allocation_expires_at c"
  "tc_allocation_refresh (set_state st c) = tc_allocation_refresh c"
  "tc_shutting_down (set_state st c) = tc_shutting_down c"
  "tc_destroyed (set_state st c) = tc_destroyed c"
  "tc_transport (set_state st c) = tc_transport c" "tc_profile (set_state st c) = tc_profile c"
  by (simp_all add: set_state_def push_event_def)

lemma complete_fields [core_frames]:
  "tc_state (complete op s k c) = tc_state c" "tc_pending (complete op s k c) = tc_pending c"
  "tc_controls (complete op s k c) = tc_controls c"
  "tc_realm (complete op s k c) = tc_realm c" "tc_nonce (complete op s k c) = tc_nonce c"
  "tc_key (complete op s k c) = tc_key c" "tc_relay (complete op s k c) = tc_relay c"
  "tc_username (complete op s k c) = tc_username c"
  "tc_allocation_expires_at (complete op s k c) = tc_allocation_expires_at c"
  "tc_allocation_refresh (complete op s k c) = tc_allocation_refresh c"
  "tc_shutting_down (complete op s k c) = tc_shutting_down c"
  "tc_destroyed (complete op s k c) = tc_destroyed c"
  "tc_transport (complete op s k c) = tc_transport c" "tc_profile (complete op s k c) = tc_profile c"
  by (simp_all add: complete_def push_event_def)

lemmas core_simps = core_frames push_event_fields queue_packet_pending

section \<open>The invariant\<close>

definition queues_ok :: "core \<Rightarrow> bool" where
  "queues_ok c \<longleftrightarrow> length (tc_controls c) \<le> CONTROL_CAPACITY \<and> length (tc_events c) \<le> EVENT_CAPACITY"

definition auth_complete :: "core \<Rightarrow> bool" where
  "auth_complete c \<longleftrightarrow> tc_realm c \<noteq> None \<and> tc_nonce c \<noteq> None \<and> tc_key c \<noteq> None"

text \<open>The ladder: after \<open>n\<close> transmissions the timeout is 200 ms doubled \<open>n - 1\<close> times, at most 1.6 s.\<close>

definition ladder :: "nat \<Rightarrow> duration" where
  "ladder n = min (INITIAL_RTO * 2 ^ (n - 1)) MAX_RTO"

definition pending_ok :: "core \<Rightarrow> pending \<Rightarrow> bool" where
  "pending_ok c p \<longleftrightarrow>
     1 \<le> pn_transmissions p \<and> pn_transmissions p \<le> MAX_TRANSMISSIONS
     \<and> pn_rto p = ladder (pn_transmissions p)
     \<and> pn_nonce_retries p \<le> pf_max_nonce_retries (tc_profile c)
     \<and> (if pn_authenticated p then auth_complete c else pn_operation p = Allocate)"

definition transactions_ok :: "core \<Rightarrow> bool" where
  "transactions_ok c \<longleftrightarrow> distinct (map pn_operation (tc_pending c)) \<and> (\<forall>p\<in>set (tc_pending c). pending_ok c p)"

definition auth_ok :: "core \<Rightarrow> bool" where
  "auth_ok c \<longleftrightarrow> small_auth c
     \<and> (tc_state c = STATE_READY \<or> tc_allocation_expires_at c \<noteq> None \<longrightarrow> auth_complete c)"

definition ready_ok :: "core \<Rightarrow> bool" where
  "ready_ok c \<longleftrightarrow> (tc_state c = STATE_READY \<longrightarrow>
     tc_relay c \<noteq> None \<and> tc_allocation_expires_at c \<noteq> None \<and> \<not> tc_shutting_down c
     \<and> (tc_allocation_refresh c \<noteq> None \<or> has_operation Refresh c))"

definition destroyed_ok :: "core \<Rightarrow> bool" where
  "destroyed_ok c \<longleftrightarrow> (tc_destroyed c \<longrightarrow>
     tc_pending c = [] \<and> tc_controls c = [] \<and> tc_state c = STATE_DESTROYING)"

text \<open>An empty state never has a transaction to fail into; only Allocate runs before READY.\<close>

definition core_inv :: "core \<Rightarrow> bool" where
  "core_inv c \<longleftrightarrow> queues_ok c \<and> transactions_ok c \<and> auth_ok c \<and> ready_ok c \<and> destroyed_ok c"

text \<open>The part of the invariant that does not speak of READY's refresh.\<close>

definition base_inv :: "core \<Rightarrow> bool" where
  "base_inv c \<longleftrightarrow> queues_ok c \<and> transactions_ok c \<and> auth_ok c \<and> destroyed_ok c"

lemma core_inv_base: "core_inv c \<longleftrightarrow> base_inv c \<and> ready_ok c"
  by (auto simp: core_inv_def base_inv_def)

lemmas inv_defs = base_inv_def queues_ok_def transactions_ok_def auth_ok_def destroyed_ok_def

section \<open>Helpers\<close>

lemma events_push_event:
  "length (tc_events c) \<le> EVENT_CAPACITY \<Longrightarrow> length (tc_events (push_event ev c)) \<le> EVENT_CAPACITY"
  by (auto simp: push_event_def EVENT_CAPACITY_def)

lemma queues_push_event: "queues_ok c \<Longrightarrow> queues_ok (push_event ev c)"
  using events_push_event by (simp add: queues_ok_def)

lemma queues_queue_packet: "queues_ok c \<Longrightarrow> queues_ok (queue_packet p c)"
  using events_push_event [of c]
  by (auto simp: queues_ok_def queue_packet_def Let_def push_event_def CONTROL_CAPACITY_def EVENT_CAPACITY_def)

text \<open>
  Everything else of the invariant is a matter of the fields it reads: two cores that agree on
  them agree on it.
\<close>

definition same_core :: "core \<Rightarrow> core \<Rightarrow> bool" where
  "same_core c c' \<longleftrightarrow> tc_pending c' = tc_pending c \<and> tc_state c' = tc_state c
     \<and> tc_realm c' = tc_realm c \<and> tc_nonce c' = tc_nonce c \<and> tc_key c' = tc_key c
     \<and> tc_username c' = tc_username c \<and> tc_profile c' = tc_profile c
     \<and> tc_allocation_expires_at c' = tc_allocation_expires_at c
     \<and> tc_destroyed c' = tc_destroyed c"

lemma auth_cong:
  assumes "tc_realm c' = tc_realm c" "tc_nonce c' = tc_nonce c" "tc_key c' = tc_key c"
  shows "auth_complete c' = auth_complete c"
  using assms by (simp add: auth_complete_def)

lemma pending_ok_cong:
  assumes "tc_realm c' = tc_realm c" "tc_nonce c' = tc_nonce c" "tc_key c' = tc_key c"
    "tc_profile c' = tc_profile c"
  shows "pending_ok c' p = pending_ok c p"
  using auth_cong [OF assms(1-3)] assms(4) by (simp add: pending_ok_def)

lemma base_inv_same:
  assumes "base_inv c" "same_core c c'" "queues_ok c'" "tc_destroyed c \<longrightarrow> tc_controls c' = []"
  shows "base_inv c'"
proof -
  have eqs: "tc_pending c' = tc_pending c" "tc_state c' = tc_state c" "tc_username c' = tc_username c"
    "tc_realm c' = tc_realm c" "tc_nonce c' = tc_nonce c" "tc_key c' = tc_key c" "tc_profile c' = tc_profile c"
    "tc_allocation_expires_at c' = tc_allocation_expires_at c" "tc_destroyed c' = tc_destroyed c"
    using assms(2) by (simp_all add: same_core_def)
  have p: "pending_ok c' p = pending_ok c p" for p
    using eqs by (intro pending_ok_cong)
  have a: "auth_complete c' = auth_complete c" using eqs by (intro auth_cong)
  have "transactions_ok c'" using assms(1) unfolding base_inv_def transactions_ok_def eqs p by blast
  moreover have "auth_ok c'"
    using assms(1) unfolding base_inv_def auth_ok_def small_auth_def eqs a by blast
  moreover have "destroyed_ok c'"
    using assms(1,4) unfolding base_inv_def destroyed_ok_def eqs by blast
  ultimately show ?thesis using assms(3) by (simp add: base_inv_def)
qed

lemma base_push_event: "base_inv c \<Longrightarrow> base_inv (push_event ev c)"
  by (rule base_inv_same [of c])
    (auto simp: same_core_def base_inv_def destroyed_ok_def intro: queues_push_event)

lemma base_complete: "base_inv c \<Longrightarrow> base_inv (complete op s k c)"
  unfolding complete_def by (rule base_push_event)

lemma base_queue_packet: "base_inv c \<Longrightarrow> \<not> tc_destroyed c \<Longrightarrow> base_inv (queue_packet p c)"
  by (rule base_inv_same [of c]) (auto simp: same_core_def core_frames base_inv_def intro: queues_queue_packet)

lemma base_set_state:
  assumes "base_inv c" "st = STATE_READY \<longrightarrow> auth_complete c" "tc_destroyed c \<longrightarrow> st = STATE_DESTROYING"
  shows "base_inv (set_state st c)"
proof -
  have "base_inv (c\<lparr>tc_state := st\<rparr>)"
    using assms
    by (auto simp: inv_defs pending_ok_def auth_complete_def small_auth_def)
  then show ?thesis using assms(1) by (simp add: set_state_def base_push_event)
qed

lemma base_remove_queued: "base_inv c \<Longrightarrow> base_inv (remove_queued_transaction t c)"
proof (rule base_inv_same [of c])
  assume c: "base_inv c"
  have "length (filter P (tc_controls c)) \<le> CONTROL_CAPACITY" for P
    using c by (intro order_trans [OF length_filter_le]) (simp add: base_inv_def queues_ok_def)
  then show "queues_ok (remove_queued_transaction t c)"
    using c by (simp add: remove_queued_transaction_def base_inv_def queues_ok_def)
qed (auto simp: same_core_def remove_queued_transaction_def base_inv_def destroyed_ok_def)

text \<open>Fewer transactions, or none.\<close>

lemma base_remove_pending:
  assumes "base_inv c"
  shows "base_inv (c\<lparr>tc_pending := remove_nth i (tc_pending c)\<rparr>)"
proof -
  have p: "pending_ok (c\<lparr>tc_pending := ps\<rparr>) p = pending_ok c p" for ps p
    by (intro pending_ok_cong) simp_all
  have "distinct (map pn_operation (remove_nth i (tc_pending c)))"
    using assms by (simp add: base_inv_def transactions_ok_def map_remove_nth distinct_remove_nth)
  then show ?thesis
    using assms set_remove_nth [of i "tc_pending c"]
    by (auto simp: base_inv_def queues_ok_def transactions_ok_def auth_ok_def destroyed_ok_def p
        auth_complete_def small_auth_def remove_nth_def)
qed

definition env_ok :: "turn_env \<Rightarrow> bool" where
  "env_ok env \<longleftrightarrow> (\<forall>n. length (te_random env n) = 12) \<and> (\<forall>k m. length (te_hmac env k m) = 20)"

lemma ladder_1 [simp]: "ladder 1 = INITIAL_RTO" "ladder (Suc 0) = INITIAL_RTO"
  by (simp_all add: ladder_def INITIAL_RTO_def MAX_RTO_def from_millis_def)

lemma ladder_Suc: "1 \<le> n \<Longrightarrow> min (ladder n * 2) MAX_RTO = ladder (Suc n)"
  by (cases n) (auto simp: ladder_def min_def)

section \<open>Starting an operation\<close>

lemma start_operation_cases:
  assumes "start_operation env now op authenticated retries c = (e, c')"
  obtains (running) "has_operation op c" "e = None" "c' = c \<or> (\<exists>p. c' = queue_packet p c)"
  | (failed) "\<not> has_operation op c" "e \<noteq> None" "c' = c \<or> c' = c\<lparr>tc_draws := tc_draws c + 1\<rparr>"
  | (started) packet where "\<not> has_operation op c" "e = None" "authenticated \<longrightarrow> auth_complete c"
      "c' = (queue_packet packet (c\<lparr>tc_draws := tc_draws c + 1\<rparr>))\<lparr>tc_pending := tc_pending c @
         [\<lparr>pn_operation = op, pn_transaction = te_random env (tc_draws c), pn_packet = packet,
           pn_next_attempt = now + transaction_timeout c, pn_rto = INITIAL_RTO,
           pn_transmissions = 1, pn_nonce_retries = retries, pn_authenticated = authenticated\<rparr>]\<rparr>"
proof (cases "has_operation op c")
  case True
  with assms show ?thesis
    by (intro running) (auto simp: start_operation_def split: if_splits option.splits)
next
  case new: False
  show ?thesis
  proof (cases "authenticated \<and> (tc_realm c = None \<or> tc_nonce c = None \<or> tc_key c = None)")
    case True
    with assms new show ?thesis by (intro failed) (auto simp: start_operation_def)
  next
    case auth: False
    let ?c = "c\<lparr>tc_draws := tc_draws c + 1\<rparr>"
    have timeout: "transaction_timeout (queue_packet p ?c) = transaction_timeout c" for p
      by (simp add: transaction_timeout_def core_frames)
    show ?thesis
    proof (cases "build_request env op (te_random env (tc_draws c)) authenticated ?c")
      case (Inl err)
      with assms new auth show ?thesis
        by (intro failed) (auto simp: start_operation_def Let_def)
    next
      case (Inr packet)
      with assms new auth timeout show ?thesis
        by (intro started [of packet]) (auto simp: start_operation_def Let_def auth_complete_def)
    qed
  qed
qed

text \<open>What starting an operation leaves alone.\<close>

lemma start_operation_frames:
  assumes "start_operation env now op authenticated retries c = (e, c')"
  shows "tc_state c' = tc_state c" "tc_relay c' = tc_relay c" "tc_realm c' = tc_realm c"
    "tc_nonce c' = tc_nonce c" "tc_key c' = tc_key c" "tc_username c' = tc_username c"
    "tc_allocation_expires_at c' = tc_allocation_expires_at c"
    "tc_allocation_refresh c' = tc_allocation_refresh c" "tc_shutting_down c' = tc_shutting_down c"
    "tc_destroyed c' = tc_destroyed c" "tc_profile c' = tc_profile c"
    "has_operation o' c \<Longrightarrow> has_operation o' c'" "e = None \<Longrightarrow> has_operation op c'"
  using assms by (rule start_operation_cases; auto simp: core_simps has_operation_def)+

lemma base_start_operation:
  assumes inv: "base_inv c" and alive: "\<not> tc_destroyed c"
    and plain: "\<not> authenticated \<longrightarrow> op = Allocate" and retries: "retries \<le> pf_max_nonce_retries (tc_profile c)"
    and start: "start_operation env now op authenticated retries c = (e, c')"
  shows "base_inv c'"
  using start
proof (cases rule: start_operation_cases)
  case running
  then show ?thesis using inv alive base_queue_packet by auto
next
  case failed
  have "base_inv (c\<lparr>tc_draws := n\<rparr>)" for n
    using inv by (rule base_inv_same) (auto simp: same_core_def alive base_inv_def queues_ok_def inv [unfolded base_inv_def queues_ok_def])
  with failed inv show ?thesis by auto
next
  case (started packet)
  let ?c = "queue_packet packet (c\<lparr>tc_draws := tc_draws c + 1\<rparr>)"
  let ?p = "\<lparr>pn_operation = op, pn_transaction = te_random env (tc_draws c), pn_packet = packet,
    pn_next_attempt = now + transaction_timeout c, pn_rto = INITIAL_RTO, pn_transmissions = 1,
    pn_nonce_retries = retries, pn_authenticated = authenticated\<rparr>"
  have "base_inv (c\<lparr>tc_draws := tc_draws c + 1\<rparr>)"
    using inv by (rule base_inv_same) (auto simp: same_core_def alive inv [unfolded base_inv_def queues_ok_def] queues_ok_def)
  then have b: "base_inv ?c" using alive by (intro base_queue_packet) auto
  have p: "pending_ok c' q = pending_ok ?c q" for q
    by (rule pending_ok_cong) (simp_all add: started(4))
  have "pending_ok ?c ?p"
    using started(3) plain retries
    by (auto simp: pending_ok_def MAX_TRANSMISSIONS_def core_simps auth_complete_def)
  moreover have "op \<notin> pn_operation ` set (tc_pending c)"
    using started(1) by (auto simp: has_operation_def)
  ultimately have "transactions_ok c'"
    using b by (auto simp: base_inv_def transactions_ok_def p) (auto simp: started(4))
  moreover have "auth_ok c' \<and> queues_ok c' \<and> destroyed_ok c'"
    using b alive by (auto simp: base_inv_def auth_ok_def auth_complete_def small_auth_def queues_ok_def
        destroyed_ok_def core_simps started(4))
  ultimately show ?thesis by (simp add: base_inv_def)
qed

text \<open>With complete credentials an operation always starts.\<close>

lemma start_operation_total:
  assumes "env_ok env" "small_auth c" "authenticated \<longrightarrow> auth_complete c"
  shows "fst (start_operation env now op authenticated retries c) = None"
proof -
  let ?c = "c\<lparr>tc_draws := tc_draws c + 1\<rparr>"
  have len: "length (te_random env (tc_draws c)) = 12" using assms(1) by (simp add: env_ok_def)
  have hmac: "\<And>k m. length (te_hmac env k m) = 20" using assms(1) by (simp add: env_ok_def)
  have small: "small_auth ?c" using assms(2) by (simp add: small_auth_def)
  have "\<exists>packet. build_request env op (te_random env (tc_draws c)) authenticated ?c = Inr packet"
  proof (cases authenticated)
    case True
    then obtain key where "tc_key ?c = Some key" using assms(3) by (auto simp: auth_complete_def)
    with True show ?thesis using build_request_total [OF small _ len hmac] by simp
  next
    case False
    with build_request_total_plain [OF len] show ?thesis by simp
  qed
  then show ?thesis
    using assms(3) by (auto simp: start_operation_def auth_complete_def Let_def split: option.splits)
qed

section \<open>Completion\<close>

text \<open>A core with its transactions and deadlines cleared.\<close>

lemma base_cleared:
  assumes "base_inv c" "tc_realm c' = tc_realm c" "tc_nonce c' = tc_nonce c" "tc_key c' = tc_key c"
    "tc_username c' = tc_username c" "tc_destroyed c' = tc_destroyed c" "tc_state c' = tc_state c"
    "tc_events c' = tc_events c" "tc_controls c' = []" "tc_pending c' = []"
    "tc_allocation_expires_at c' = None \<or> tc_allocation_expires_at c' = tc_allocation_expires_at c"
  shows "base_inv c'"
  using assms
  by (auto simp: base_inv_def queues_ok_def transactions_ok_def auth_ok_def destroyed_ok_def
      small_auth_def auth_complete_def)

lemma destroy_allocation_inv:
  assumes "base_inv c" "\<not> tc_destroyed c"
  shows "base_inv (destroy_allocation op status code c)"
    "ready_ok (destroy_allocation op status code c)"
    "tc_destroyed (destroy_allocation op status code c) = tc_destroyed c"
proof -
  let ?c = "(complete op status code c)\<lparr>tc_controls := [], tc_pending := [], tc_channel := None,
    tc_allocation_refresh := None, tc_allocation_expires_at := None, tc_maintenance_refresh := None,
    tc_permission_retry := None, tc_channel_retry := None, tc_keepalive := None, tc_relay := None\<rparr>"
  have "base_inv ?c"
    by (rule base_cleared [OF base_complete [OF assms(1), of op status code]]) simp_all
  moreover have "\<not> tc_destroyed ?c" using assms(2) by (simp add: core_simps)
  ultimately show "base_inv (destroy_allocation op status code c)"
    unfolding destroy_allocation_def Let_def
    by (auto simp: state_defs intro!: base_set_state split: if_splits)
  show "ready_ok (destroy_allocation op status code c)"
    by (simp add: destroy_allocation_def ready_ok_def core_simps state_defs Let_def)
  show "tc_destroyed (destroy_allocation op status code c) = tc_destroyed c"
    by (simp add: destroy_allocation_def core_simps Let_def)
qed

lemma destroy_exhausted_inv:
  assumes "base_inv c" "\<not> tc_destroyed c"
  shows "base_inv (destroy_after_channel_rebind_exhausted c)"
    "ready_ok (destroy_after_channel_rebind_exhausted c)"
    "tc_destroyed (destroy_after_channel_rebind_exhausted c) = tc_destroyed c"
proof -
  let ?c = "c\<lparr>tc_controls := [], tc_pending := [], tc_channel := None, tc_maintenance_refresh := None,
    tc_permission_retry := None, tc_channel_retry := None, tc_keepalive := None\<rparr>"
  have "base_inv ?c" by (rule base_cleared [OF assms(1)]) simp_all
  then show "base_inv (destroy_after_channel_rebind_exhausted c)"
    unfolding destroy_after_channel_rebind_exhausted_def Let_def using assms(2)
    by (intro base_set_state base_push_event) (auto simp: state_defs)
  show "ready_ok (destroy_after_channel_rebind_exhausted c)"
    by (simp add: destroy_after_channel_rebind_exhausted_def ready_ok_def core_simps state_defs Let_def)
  show "tc_destroyed (destroy_after_channel_rebind_exhausted c) = tc_destroyed c"
    by (simp add: destroy_after_channel_rebind_exhausted_def core_simps Let_def)
qed

text \<open>
  READY with a transaction of \<open>op\<close> just taken out: the refresh is still scheduled or
  running, unless \<open>op\<close> was the refresh.
\<close>

definition ready_except :: "operation \<Rightarrow> core \<Rightarrow> bool" where
  "ready_except op c \<longleftrightarrow> (tc_state c = STATE_READY \<longrightarrow>
     tc_relay c \<noteq> None \<and> tc_allocation_expires_at c \<noteq> None \<and> \<not> tc_shutting_down c
     \<and> (op = Refresh \<or> tc_allocation_refresh c \<noteq> None \<or> has_operation Refresh c))"

lemma ready_ok_except: "ready_ok c \<Longrightarrow> ready_except op c"
  by (auto simp: ready_ok_def ready_except_def)

lemma schedule_fields:
  assumes "schedule_maintenance_retry op now c = (kept, c')"
  shows "same_core c c'" "tc_controls c' = tc_controls c" "tc_events c' = tc_events c"
    "tc_relay c' = tc_relay c" "tc_shutting_down c' = tc_shutting_down c"
    "op = Refresh \<Longrightarrow> tc_allocation_refresh c' \<noteq> None"
    "op \<noteq> Refresh \<Longrightarrow> tc_allocation_refresh c' = tc_allocation_refresh c"
  using assms by (cases op; auto simp: schedule_maintenance_retry_def same_core_def Let_def split: if_splits)+

lemma complete_failure_inv:
  assumes "base_inv c" "\<not> tc_destroyed c" "ready_except op c"
  shows "base_inv (complete_failure op status code now c) \<and> ready_ok (complete_failure op status code now c)
    \<and> tc_destroyed (complete_failure op status code now c) = tc_destroyed c"
proof (cases "op \<in> {Refresh, Permission, Channel} \<and> tc_state c = STATE_READY
         \<and> (case tc_allocation_expires_at c of None \<Rightarrow> False | Some deadline \<Rightarrow> now < deadline)")
  case False
  then have "complete_failure op status code now c = destroy_allocation op status code c"
    unfolding complete_failure_def by (rule if_not_P)
  then show ?thesis using destroy_allocation_inv [OF assms(1,2)] by simp
next
  case True
  obtain kept c' where s: "schedule_maintenance_retry op now (complete op status code c) = (kept, c')"
    by fastforce
  have r: "complete_failure op status code now c
      = (if kept then c' else destroy_after_channel_rebind_exhausted c')"
    using True s by (simp add: complete_failure_def Let_def)
  note f = schedule_fields [OF s]
  have b: "base_inv (complete op status code c)" using assms(1) by (rule base_complete)
  then have "queues_ok c'" using f(2,3) by (simp add: base_inv_def queues_ok_def)
  with b f(1) assms(2) have b': "base_inv c'"
    by (intro base_inv_same [OF b f(1)]) (auto simp: core_simps)
  have d: "tc_destroyed c' = tc_destroyed c" using f(1) by (simp add: same_core_def core_simps)
  show ?thesis
  proof (cases kept)
    case True
    have "ready_ok c'"
      using assms(3) f
      by (cases "op = Refresh")
        (auto simp: ready_ok_def ready_except_def same_core_def core_simps has_operation_def)
    with True r b' d show ?thesis by simp
  next
    case False
    then show ?thesis using r destroy_exhausted_inv [OF b'] d assms(2) by simp
  qed
qed

lemma base_fields:
  assumes "base_inv c"
  shows "base_inv (c\<lparr>tc_relay := r\<rparr>)" "base_inv (c\<lparr>tc_allocation_refresh := t\<rparr>)"
    "base_inv (c\<lparr>tc_maintenance_refresh := t\<rparr>)" "base_inv (c\<lparr>tc_keepalive := t\<rparr>)"
    "base_inv (c\<lparr>tc_refresh_failures := n\<rparr>)" "base_inv (c\<lparr>tc_permission_failures := n\<rparr>)"
    "base_inv (c\<lparr>tc_channel_failures := n\<rparr>)" "base_inv (c\<lparr>tc_channel := ch\<rparr>)"
    "base_inv (c\<lparr>tc_permission_retry := t\<rparr>)" "base_inv (c\<lparr>tc_channel_retry := t\<rparr>)"
    "auth_complete c \<or> t = None \<Longrightarrow> base_inv (c\<lparr>tc_allocation_expires_at := t\<rparr>)"
    "base_inv (c\<lparr>tc_shutting_down := b\<rparr>)"
  using assms
  by (auto simp: base_inv_def queues_ok_def transactions_ok_def auth_ok_def destroyed_ok_def
      small_auth_def pending_ok_def auth_complete_def)

section \<open>Retransmission\<close>

lemma has_operation_map: "has_operation op c \<longleftrightarrow> op \<in> set (map pn_operation (tc_pending c))"
  by (auto simp: has_operation_def)

lemma has_operation_remove:
  assumes "i < length (tc_pending c)" "pn_operation (tc_pending c ! i) \<noteq> op"
  shows "has_operation op (c\<lparr>tc_pending := remove_nth i (tc_pending c)\<rparr>) = has_operation op c"
proof -
  have "set (tc_pending c) = insert (tc_pending c ! i) (set (remove_nth i (tc_pending c)))"
    unfolding remove_nth_def using assms(1)
    by (metis Un_insert_right id_take_nth_drop list.simps(15) set_append)
  then show ?thesis using assms(2) by (auto simp: has_operation_def)
qed

text \<open>The core with the \<open>i\<close>-th transaction and its queued packets taken out.\<close>

lemma removed_inv:
  fixes c i t
  defines "c' \<equiv> remove_queued_transaction t (c\<lparr>tc_pending := remove_nth i (tc_pending c)\<rparr>)"
  assumes "base_inv c" "ready_ok c" "i < length (tc_pending c)"
  shows "base_inv c'" "ready_except (pn_operation (tc_pending c ! i)) c'" "tc_destroyed c' = tc_destroyed c"
    "\<not> has_operation (pn_operation (tc_pending c ! i)) c'"
proof -
  show "base_inv c'" unfolding c'_def using assms(2) by (intro base_remove_queued base_remove_pending)
  show "tc_destroyed c' = tc_destroyed c" by (simp add: c'_def remove_queued_transaction_def)
  have p: "has_operation op c' = has_operation op (c\<lparr>tc_pending := remove_nth i (tc_pending c)\<rparr>)" for op
    by (simp add: c'_def remove_queued_transaction_def has_operation_def)
  show "ready_except (pn_operation (tc_pending c ! i)) c'"
  proof (cases "pn_operation (tc_pending c ! i) = Refresh")
    case False
    then have "has_operation Refresh c' = has_operation Refresh c"
      unfolding p by (rule has_operation_remove [OF assms(4)])
    then show ?thesis
      using assms(3) by (auto simp: ready_except_def ready_ok_def c'_def remove_queued_transaction_def)
  next
    case True
    then show ?thesis
      using assms(3) by (auto simp: ready_except_def ready_ok_def c'_def remove_queued_transaction_def)
  qed
  have dist: "distinct (map pn_operation (tc_pending c))"
    using assms(2) by (simp add: base_inv_def transactions_ok_def)
  have "map pn_operation (tc_pending c) = take i (map pn_operation (tc_pending c))
      @ pn_operation (tc_pending c ! i) # drop (Suc i) (map pn_operation (tc_pending c))"
    using assms(4) by (metis id_take_nth_drop length_map nth_map)
  then have "pn_operation (tc_pending c ! i) \<notin> set (remove_nth i (map pn_operation (tc_pending c)))"
    using dist unfolding remove_nth_def by (metis distinct_append distinct.simps(2) UnE disjoint_iff
        list.set_intros(1) set_append)
  then show "\<not> has_operation (pn_operation (tc_pending c ! i)) c'"
    unfolding p by (simp add: has_operation_map map_remove_nth)
qed

lemma drop_expired_inv:
  assumes "base_inv c" "ready_ok c" "i < length (tc_pending c)" "\<not> tc_destroyed c"
  shows "base_inv (drop_expired now i c) \<and> ready_ok (drop_expired now i c) \<and> \<not> tc_destroyed (drop_expired now i c)"
proof -
  let ?c = "remove_queued_transaction (pn_transaction (tc_pending c ! i)) (c\<lparr>tc_pending := remove_nth i (tc_pending c)\<rparr>)"
  note r = removed_inv [OF assms(1-3), of "pn_transaction (tc_pending c ! i)"]
  show ?thesis
    using complete_failure_inv [OF r(1) _ r(2), of RESULT_TIMEOUT 0 now] r(3) assms(4)
    by (simp add: drop_expired_def Let_def)
qed

text \<open>A transaction changed in place keeps its operation.\<close>

lemma transactions_update:
  assumes "transactions_ok c" "i < length (tc_pending c)" "pending_ok c p"
    and "pn_operation p = pn_operation (tc_pending c ! i)"
  shows "transactions_ok (c\<lparr>tc_pending := (tc_pending c)[i := p]\<rparr>)"
    and "has_operation op (c\<lparr>tc_pending := (tc_pending c)[i := p]\<rparr>) = has_operation op c"
proof -
  have "map pn_operation ((tc_pending c)[i := p]) = (map pn_operation (tc_pending c))[i := map pn_operation (tc_pending c) ! i]"
    using assms(2,4) by (simp add: map_update)
  then have ops: "map pn_operation ((tc_pending c)[i := p]) = map pn_operation (tc_pending c)"
    by (simp only: list_update_id)
  have same: "pending_ok (c\<lparr>tc_pending := ps\<rparr>) x = pending_ok c x" for ps x
    by (rule pending_ok_cong) simp_all
  have "\<forall>q\<in>set ((tc_pending c)[i := p]). pending_ok c q"
    using assms(1,3) by (auto simp: transactions_ok_def dest!: set_update_subset_insert [THEN subsetD])
  then show "transactions_ok (c\<lparr>tc_pending := (tc_pending c)[i := p]\<rparr>)"
    using assms(1) by (simp add: transactions_ok_def same ops)
  show "has_operation op (c\<lparr>tc_pending := (tc_pending c)[i := p]\<rparr>) = has_operation op c"
    unfolding has_operation_map using ops by simp
qed

lemma retransmit_inv:
  assumes "base_inv c" "ready_ok c" "i < length (tc_pending c)" "\<not> tc_destroyed c"
    and "pn_transmissions (tc_pending c ! i) < MAX_TRANSMISSIONS"
  shows "base_inv (retransmit now i c) \<and> ready_ok (retransmit now i c) \<and> \<not> tc_destroyed (retransmit now i c)"
proof -
  let ?q = "queue_packet (pn_packet (tc_pending c ! i)) c"
  let ?p = "tc_pending c ! i"
  define p' where "p' = ?p\<lparr>pn_transmissions := pn_transmissions ?p + 1, pn_rto := min (pn_rto ?p * 2) MAX_RTO,
    pn_next_attempt := now + min (pn_rto ?p * 2) MAX_RTO\<rparr>"
  have r: "retransmit now i c = ?q\<lparr>tc_pending := (tc_pending ?q)[i := p']\<rparr>"
    by (simp add: retransmit_def p'_def Let_def)
  have q: "base_inv ?q" using assms by (intro base_queue_packet)
  have p: "pending_ok ?q ?p" using q assms(3) by (auto simp: base_inv_def transactions_ok_def)
  have p': "pending_ok ?q p'"
    using p assms(5) ladder_Suc [of "pn_transmissions ?p"] by (auto simp: pending_ok_def p'_def)
  have op: "pn_operation p' = pn_operation (tc_pending ?q ! i)" by (simp add: p'_def)
  have i: "i < length (tc_pending ?q)" using assms(3) by simp
  have t: "transactions_ok ?q" using q by (simp add: base_inv_def)
  have "transactions_ok (retransmit now i c)"
    unfolding r by (rule transactions_update [OF t i p' op])
  moreover have "queues_ok (retransmit now i c) \<and> auth_ok (retransmit now i c) \<and> destroyed_ok (retransmit now i c)"
    using q assms(4) by (auto simp: base_inv_def queues_ok_def auth_ok_def destroyed_ok_def small_auth_def
        auth_complete_def core_simps r)
  moreover have "has_operation Refresh (retransmit now i c) = has_operation Refresh ?q"
    unfolding r by (rule transactions_update(2) [OF t i p' op])
  moreover have "has_operation Refresh ?q = has_operation Refresh c" by (simp add: has_operation_def)
  ultimately show ?thesis
    using assms(2,4) by (simp add: base_inv_def ready_ok_def r core_simps)
qed

lemma expire_transactions_inv:
  "base_inv c \<Longrightarrow> ready_ok c \<Longrightarrow> \<not> tc_destroyed c \<Longrightarrow>
     base_inv (expire_transactions now i c) \<and> ready_ok (expire_transactions now i c)
     \<and> \<not> tc_destroyed (expire_transactions now i c)"
proof (induction now i c rule: expire_transactions.induct)
  case (1 now i c)
  show ?case
  proof (cases "i < length (tc_pending c)")
    case False
    with 1 show ?thesis by (simp add: expire_transactions.simps [of now i c])
  next
    case i: True
    note d = drop_expired_inv [OF 1(5,6) i 1(7), of now]
    note r = retransmit_inv [OF 1(5,6) i 1(7), of now]
    show ?thesis
      using 1 i d r by (subst (1 2 3) expire_transactions.simps) auto
  qed
qed

text \<open>After the loop no transaction before the end is overdue.\<close>

lemma take_remove_nth: "i < length xs \<Longrightarrow> take i (remove_nth i xs) = take i xs"
  by (simp add: remove_nth_def)

lemma expire_transactions_waits:
  assumes "\<forall>p\<in>set (take i (tc_pending c)). now < pn_next_attempt p"
    and "\<forall>p\<in>set (tc_pending c). 0 < pn_rto p"
  shows "\<forall>p\<in>set (tc_pending (expire_transactions now i c)). now < pn_next_attempt p"
  using assms
proof (induction now i c rule: expire_transactions.induct)
  case (1 now i c)
  show ?case
  proof (cases "i < length (tc_pending c)")
    case False
    with 1(5) show ?thesis by (simp add: expire_transactions.simps [of now i c])
  next
    case i: True
    let ?p = "tc_pending c ! i"
    have take: "set (take (i + 1) (tc_pending c)) = insert ?p (set (take i (tc_pending c)))"
      using i by (simp add: take_Suc_conv_app_nth)
    have drop: "tc_pending (drop_expired now i c) = remove_nth i (tc_pending c) \<or> tc_pending (drop_expired now i c) = []"
      using complete_failure_pending [of "pn_operation ?p" RESULT_TIMEOUT 0 now
          "remove_queued_transaction (pn_transaction ?p) (c\<lparr>tc_pending := remove_nth i (tc_pending c)\<rparr>)"]
      by (auto simp: drop_expired_def remove_queued_transaction_def Let_def)
    have d: "\<forall>p\<in>set (take i (tc_pending (drop_expired now i c))). now < pn_next_attempt p"
      "\<forall>p\<in>set (tc_pending (drop_expired now i c)). 0 < pn_rto p"
      using drop 1(5,6) set_remove_nth [of i "tc_pending c"] take_remove_nth [OF i] by auto
    have pend: "tc_pending (retransmit now i c) = (tc_pending c)[i := ?p\<lparr>pn_transmissions := pn_transmissions ?p + 1,
        pn_rto := min (pn_rto ?p * 2) MAX_RTO, pn_next_attempt := now + min (pn_rto ?p * 2) MAX_RTO\<rparr>]"
      by (simp add: retransmit_def Let_def)
    have pos: "0 < min (pn_rto ?p * 2) MAX_RTO"
      using 1(6) i by (auto simp: MAX_RTO_def from_millis_def)
    have r: "\<forall>p\<in>set (take (i + 1) (tc_pending (retransmit now i c))). now < pn_next_attempt p"
      "\<forall>p\<in>set (tc_pending (retransmit now i c)). 0 < pn_rto p"
      using 1(5,6) i pos
      by (auto simp: pend take_Suc_conv_app_nth dest!: set_update_subset_insert [THEN subsetD])
    let ?now = "now < pn_next_attempt ?p"
    let ?last = "pn_transmissions ?p \<ge> MAX_TRANSMISSIONS \<or> tc_transport c = Stream"
    consider ?now | "\<not> ?now" ?last | "\<not> ?now" "\<not> ?last" by blast
    then show ?thesis
    proof cases
      case w: 1
      then have e: "expire_transactions now i c = expire_transactions now (i + 1) c"
        using i by (simp add: expire_transactions.simps [of now i c])
      show ?thesis unfolding e by (rule 1(1) [OF i w _ 1(6)]) (use 1(5) w take in auto)
    next
      case w: 2
      then have e: "expire_transactions now i c = expire_transactions now i (drop_expired now i c)"
        using i by (auto simp: expire_transactions.simps [of now i c])
      show ?thesis
      proof (cases "pn_transmissions ?p \<ge> MAX_TRANSMISSIONS")
        case True
        show ?thesis unfolding e by (rule 1(2) [OF i w(1) True d])
      next
        case False
        then have "tc_transport c = Stream" using w(2) by blast
        then show ?thesis unfolding e by (rule 1(3) [OF i w(1) False _ d])
      qed
    next
      case w: 3
      then have e: "expire_transactions now i c = expire_transactions now (i + 1) (retransmit now i c)"
        using i by (simp add: expire_transactions.simps [of now i c])
      show ?thesis unfolding e by (rule 1(4) [OF i w(1) _ _ r]) (use w(2) in blast)+
    qed
  qed
qed

end
