(* ===== verification/Turn_Safety.thy ===== *)
theory Turn_Safety
  imports Turn_Invariants
begin

text \<open>
  The public methods of the TURN core as one labelled step relation \<open>turn_step\<close>, and
  what holds of every core it can reach: the invariant of \<open>Turn_Invariants\<close> through
  responses, polls and shutdown, a \<open>poll\<close> that never fails and leaves nothing overdue,
  and a destroyed core that stays silent. The two invariants are interpretations of
  \<open>step_invariant\<close>.
\<close>

section \<open>Responses\<close>

lemma attribute_length:
  assumes "stun_decode packet = Some (Inr m)" "attribute m k = Some a"
  shows "length (at_value a) \<le> length packet"
proof -
  note m = stun_decode_Inr [OF assms(1)]
  have "attribute_checked m k = Some (Some a)"
    using assms(2) by (auto simp: attribute_def split: bind_splits)
  then have "at_value a = sub packet (at_value_start a) (at_value_end a)"
    using find_attribute_checked [of packet "sm_end m" HEADER_SIZE k] m by (auto simp: attribute_checked_def)
  then show ?thesis by (simp add: sub_def)
qed

lemma ready_exceptI:
  assumes "ready_except op c"
    and "tc_state c' = tc_state c" "tc_relay c' = tc_relay c"
    and "tc_allocation_expires_at c' = tc_allocation_expires_at c" "tc_shutting_down c' = tc_shutting_down c"
    and "tc_allocation_refresh c' = tc_allocation_refresh c"
    and "has_operation Refresh c \<Longrightarrow> has_operation Refresh c'"
  shows "ready_except op c'"
  using assms by (auto simp: ready_except_def)

lemma has_operation_push [simp]: "has_operation op (push_event ev c) = has_operation op c"
  by (simp add: has_operation_def)

lemma has_operation_complete [simp]: "has_operation op (complete op' s k c) = has_operation op c"
  by (simp add: has_operation_def core_simps)

lemma has_operation_state [simp]: "has_operation op (set_state st c) = has_operation op c"
  by (simp add: has_operation_def core_simps)

lemma ready_except_push: "ready_except op c \<Longrightarrow> ready_except op (push_event ev c)"
  by (erule ready_exceptI) (simp_all add: core_simps)

lemma set_auth_inv:
  assumes "base_inv c" "length realm \<le> AUTH_LIMIT" "length nonce \<le> AUTH_LIMIT"
  shows "base_inv (set_auth env realm nonce c)" "auth_complete (set_auth env realm nonce c)"
proof -
  have a: "auth_complete (set_auth env realm nonce c)" by (simp add: set_auth_def auth_complete_def)
  have p: "pending_ok c p \<Longrightarrow> pending_ok (set_auth env realm nonce c) p" for p
    by (auto simp: pending_ok_def set_auth_def auth_complete_def)
  then have "transactions_ok (set_auth env realm nonce c)"
    using assms(1) by (auto simp: base_inv_def transactions_ok_def) (auto simp: set_auth_def)
  moreover have "auth_ok (set_auth env realm nonce c)"
    using assms a by (auto simp: base_inv_def auth_ok_def small_auth_def) (auto simp: set_auth_def opt_bytes_def)
  ultimately show "base_inv (set_auth env realm nonce c)"
    using assms(1) by (auto simp: base_inv_def queues_ok_def destroyed_ok_def set_auth_def)
  show "auth_complete (set_auth env realm nonce c)" by (rule a)
qed

text \<open>
  What the matched transaction's completion leaves: the invariant when it succeeds; when it
  reports an error, what \<open>complete_failure\<close> needs.
\<close>

definition outcome_ok :: "operation \<Rightarrow> core_error option \<Rightarrow> core \<Rightarrow> bool" where
  "outcome_ok op e c \<longleftrightarrow> base_inv c \<and> \<not> tc_destroyed c \<and> (if e = None then ready_ok c else ready_except op c)"

lemma not_ready_outcome:
  "base_inv c \<Longrightarrow> \<not> tc_destroyed c \<Longrightarrow> tc_state c \<noteq> STATE_READY \<Longrightarrow> outcome_ok op e c"
  by (auto simp: outcome_ok_def ready_ok_def ready_except_def)

lemma allocation_granted_outcome:
  assumes "base_inv c" "\<not> tc_destroyed c" "auth_complete c"
    and "allocation_granted env relay returned lifetime now c = (e, c')"
  shows "outcome_ok Allocate e c'"
proof -
  define g where "g = push_event (default_event\<lparr>ev_kind := EVENT_RELAY_ADDRESS, ev_address := from_socket_addr relay\<rparr>)
    (c\<lparr>tc_relay := Some relay,
       tc_allocation_refresh := Some (allocation_refresh_deadline now returned (pf_allocation_refresh (tc_profile c))),
       tc_allocation_expires_at := Some (now + from_secs lifetime), tc_refresh_failures := 0,
       tc_maintenance_refresh := Some (now + pf_maintenance_refresh (tc_profile c)),
       tc_keepalive := Some (first_keepalive_deadline now (pf_keepalive_interval (tc_profile c)) relay)\<rparr>)"
  have eq: "allocation_granted env relay returned lifetime now c =
      (if tc_shutting_down g then start_operation env now Deallocate True 0 (set_state STATE_DEALLOCATING g)
       else (None, complete Allocate 0 0 (set_state STATE_READY g)))"
    unfolding allocation_granted_def Let_def g_def by simp
  have a: "auth_complete g" using assms(3) by (simp add: auth_complete_def g_def)
  have b: "base_inv g" unfolding g_def
    using assms(1) by (intro base_push_event base_fields) (simp_all add: auth_complete_def assms(3)[unfolded auth_complete_def])
  have d: "\<not> tc_destroyed g" using assms(2) by (simp add: g_def)
  show ?thesis
  proof (cases "tc_shutting_down g")
    case True
    have s: "start_operation env now Deallocate True 0 (set_state STATE_DEALLOCATING g) = (e, c')"
      using assms(4) eq True by simp
    have b': "base_inv (set_state STATE_DEALLOCATING g)"
      using b d by (intro base_set_state) (auto simp: state_defs)
    have "base_inv c'" using base_start_operation [OF b' _ _ _ s] d by (simp add: core_simps)
    moreover note start_operation_frames [OF s]
    ultimately show ?thesis
      using d by (intro not_ready_outcome) (simp_all add: core_simps state_defs)
  next
    case False
    then have c': "e = None" "c' = complete Allocate 0 0 (set_state STATE_READY g)"
      using assms(4) eq by simp_all
    have "base_inv c'" unfolding c' using b d a by (intro base_complete base_set_state) auto
    moreover have "ready_ok c'"
      using False by (simp add: ready_ok_def c'(2) core_simps) (simp add: g_def push_event_def)
    ultimately show ?thesis using d c' by (simp add: outcome_ok_def core_simps)
  qed
qed

lemma complete_success_outcome:
  assumes "base_inv c" "\<not> tc_destroyed c" "auth_complete c" "ready_except op c"
    and "complete_success env op m now c = (e, c')"
  shows "outcome_ok op e c'"
proof (cases "e = None")
  case False
  show ?thesis
  proof (cases op)
    case Allocate
    show ?thesis
    proof (cases "c' = c")
      case True
      then show ?thesis using False assms by (auto simp: outcome_ok_def)
    next
      case changed: False
      then obtain relay returned lifetime where "allocation_granted env relay returned lifetime now c = (e, c')"
        using assms(5) Allocate
        by (auto simp: complete_success_def Let_def split: option.splits if_splits)
      then show ?thesis using allocation_granted_outcome [OF assms(1-3)] Allocate by simp
    qed
  qed (use False assms in \<open>auto simp: outcome_ok_def complete_success_def Let_def split: if_splits\<close>)
next
  case ok: True
  show ?thesis
  proof (cases op)
    case Allocate
    then obtain relay returned lifetime where "allocation_granted env relay returned lifetime now c = (e, c')"
      using assms(5) ok
      by (auto simp: complete_success_def Let_def split: option.splits if_splits)
    then show ?thesis using allocation_granted_outcome [OF assms(1-3)] Allocate by simp
  next
    case Refresh
    then obtain r x where "c' = complete Refresh 0 0 (c\<lparr>tc_allocation_refresh := Some r,
        tc_allocation_expires_at := Some x, tc_refresh_failures := 0\<rparr>)"
      using assms(5) ok by (auto simp: complete_success_def Let_def split: if_splits)
    moreover have "base_inv (complete Refresh 0 0 (c\<lparr>tc_allocation_refresh := Some r,
        tc_allocation_expires_at := Some x, tc_refresh_failures := 0\<rparr>))"
      using assms(1,3) by (intro base_complete base_fields) (auto simp: auth_complete_def)
    ultimately show ?thesis
      using assms(2,4) ok by (auto simp: outcome_ok_def ready_ok_def ready_except_def core_simps)
  next
    case Deallocate
    then have "c' = set_state STATE_DEALLOCATED (complete Deallocate 0 0
                 (c\<lparr>tc_relay := None, tc_allocation_refresh := None, tc_allocation_expires_at := None\<rparr>))"
      using assms(5) ok by (auto simp: complete_success_def Let_def split: if_splits)
    moreover have "base_inv (set_state STATE_DEALLOCATED (complete Deallocate 0 0
                 (c\<lparr>tc_relay := None, tc_allocation_refresh := None, tc_allocation_expires_at := None\<rparr>)))"
      using assms(1,2) by (intro base_set_state base_complete base_fields) (auto simp: state_defs core_simps)
    ultimately show ?thesis
      using assms(2) by (intro not_ready_outcome) (simp_all add: core_simps state_defs)
  next
    case Permission
    then have c': "c' = complete Permission 0 0 (c\<lparr>tc_permission_failures := 0\<rparr>)"
      using assms(5) by (simp add: complete_success_def)
    have "base_inv c'" unfolding c' using assms(1) by (intro base_complete base_fields)
    then show ?thesis
      using assms(2,4) ok Permission
      by (auto simp: outcome_ok_def ready_ok_def ready_except_def core_simps c' has_operation_def)
  next
    case Channel
    then have c': "c' = complete Channel 0 0
             (push_event (default_event\<lparr>ev_kind := EVENT_CHANNEL_BOUND, ev_channel := CHANNEL_NUMBER,
                 ev_address := from_socket_addr (tc_peer c)\<rparr>)
               (c\<lparr>tc_channel := Some CHANNEL_NUMBER, tc_channel_failures := 0\<rparr>))"
      using assms(5) by (simp add: complete_success_def)
    have "base_inv c'" unfolding c' using assms(1) by (intro base_complete base_push_event base_fields)
    then show ?thesis
      using assms(2,4) ok Channel
      by (auto simp: outcome_ok_def ready_ok_def ready_except_def core_simps c' has_operation_def)
  qed
qed

text \<open>The three exits of the error branch, each named once.\<close>

definition alive_inv :: "core \<Rightarrow> bool" where
  "alive_inv c \<longleftrightarrow> base_inv c \<and> ready_ok c \<and> \<not> tc_destroyed c"

lemma alive_inv_core: "alive_inv c \<longleftrightarrow> core_inv c \<and> \<not> tc_destroyed c"
  by (auto simp: alive_inv_def core_inv_base)

lemma alive_core: "alive_inv c \<Longrightarrow> core_inv c"
  by (simp add: alive_inv_core)

lemma alive_failure:
  assumes "base_inv c" "\<not> tc_destroyed c" "ready_except op c"
  shows "alive_inv (complete_failure op status code now c)"
  using complete_failure_inv [OF assms] assms(2) by (simp add: alive_inv_def)

lemma alive_destroy:
  assumes "base_inv c" "\<not> tc_destroyed c"
  shows "alive_inv (destroy_allocation op status code c)"
  using destroy_allocation_inv [OF assms] assms(2) by (simp add: alive_inv_def)

lemma retry_start:
  assumes "base_inv c" "\<not> tc_destroyed c" "ready_except op c"
    and "length realm \<le> AUTH_LIMIT" "length nonce \<le> AUTH_LIMIT"
    and "retries < pf_max_nonce_retries (tc_profile c)"
    and "start_operation env now op True (retries + 1) (set_auth env realm nonce c) = (e, c')"
  shows "base_inv c' \<and> \<not> tc_destroyed c' \<and> ready_except op c' \<and> (e = None \<longrightarrow> ready_ok c')"
proof -
  let ?a = "set_auth env realm nonce c"
  note a = set_auth_inv [OF assms(1,4,5), of env]
  have d: "\<not> tc_destroyed ?a" using assms(2) by (simp add: set_auth_def)
  have "ready_except op ?a" using assms(3)
    by (rule ready_exceptI) (simp_all add: set_auth_def has_operation_def)
  moreover note f = start_operation_frames [OF assms(7)]
  ultimately have r: "ready_except op c'"
    by (elim ready_exceptI) (simp_all add: f(1-10) f(12))
  have "base_inv c'"
    by (rule base_start_operation [OF a(1) d _ _ assms(7)]) (use assms(6) in \<open>auto simp: set_auth_def\<close>)
  moreover have "e = None \<longrightarrow> ready_ok c'"
    using r f(13) by (auto simp: ready_ok_def ready_except_def)
  ultimately show ?thesis using r d f(10) by simp
qed

lemma handle_error_alive:
  assumes "base_inv c" "\<not> tc_destroyed c" "ready_except (pn_operation p) c"
    and small: "\<And>k a. attribute m k = Some a \<Longrightarrow> length (at_value a) \<le> AUTH_LIMIT"
  shows "alive_inv (snd (handle_error env now p m c))"
proof -
  let ?op = "pn_operation p"
  have push: "base_inv (push_event ev d) \<and> \<not> tc_destroyed (push_event ev d) \<and> ready_except ?op (push_event ev d)"
    if "base_inv d" "\<not> tc_destroyed d" "ready_except ?op d" for ev d
    using that by (auto intro: base_push_event ready_except_push)
  have fail: "alive_inv (complete_failure ?op status code now (push_event ev d))"
    if "base_inv d" "\<not> tc_destroyed d" "ready_except ?op d" for ev d status code
    using push [OF that, of ev] alive_failure by blast
  have dest: "alive_inv (destroy_allocation op status code (push_event ev c))" for op ev status code
    using push [OF assms(1-3), of ev] alive_destroy by blast
  have fail': "alive_inv (complete_failure op status code now (push_event ev c))" if "?op = op" for op ev status code
    using fail [OF assms(1-3)] that by simp
  have realm_small: "length r \<le> AUTH_LIMIT" if "tc_realm c = Some r" for r
    using assms(1) that by (simp add: base_inv_def auth_ok_def small_auth_def opt_bytes_def)
  have started: "alive_inv c'"
    if "start_operation env now ?op True (Suc (pn_nonce_retries p)) (set_auth env realm nonce c) = (None, c')"
      "pn_nonce_retries p < pf_max_nonce_retries (tc_profile c)" "length realm \<le> AUTH_LIMIT" "length nonce \<le> AUTH_LIMIT"
    for realm nonce c'
    using retry_start [OF assms(1-3) that(3,4,2)] that(1) by (simp add: alive_inv_def)
  have not_started: "alive_inv (complete_failure ?op status code now (push_event ev c'))"
    if "start_operation env now ?op True (Suc (pn_nonce_retries p)) (set_auth env realm nonce c) = (Some e, c')"
      "pn_nonce_retries p < pf_max_nonce_retries (tc_profile c)" "length realm \<le> AUTH_LIMIT" "length nonce \<le> AUTH_LIMIT"
    for realm nonce c' e status code ev
    using retry_start [OF assms(1-3) that(3,4,2)] that(1) by (intro fail) auto
  show ?thesis
    unfolding handle_error_def Let_def response_error_event_def
    by (auto intro: started not_started fail' dest small realm_small split: option.splits prod.splits if_splits)
qed

lemma handle_response_alive:
  assumes "base_inv c" "\<not> tc_destroyed c" "ready_except (pn_operation p) c"
    and "pn_authenticated p \<longrightarrow> auth_complete c" "message_class m \<in> {Success, Error_class}"
    and small: "\<And>k a. attribute m k = Some a \<Longrightarrow> length (at_value a) \<le> AUTH_LIMIT"
  shows "alive_inv (snd (handle_response env now p m c))"
proof (cases "message_class m = Success \<and> pn_authenticated p")
  case False
  then show ?thesis
    using handle_error_alive [OF assms(1-3) small] alive_failure [OF assms(1-3)] assms(5)
    by (auto simp: handle_response_def)
next
  case True
  obtain e c' where s: "complete_success env (pn_operation p) m now c = (e, c')" by fastforce
  have "outcome_ok (pn_operation p) e c'"
    using complete_success_outcome [OF assms(1,2) _ assms(3) s] assms(4) True by simp
  then show ?thesis
    using True s alive_failure [of c' "pn_operation p"]
    by (cases e) (auto simp: handle_response_def outcome_ok_def alive_inv_def)
qed

text \<open>What \<open>input_stun\<close> does with a packet: nothing, an event, or the matched response.\<close>

lemma input_stun_cases:
  obtains (ignored) r where "input_stun env now packet c = (r, c)" "r \<noteq> 0"
  | (reported) mth k where "input_stun env now packet c =
      (RESULT_AUTHENTICATION, response_error_event mth RESULT_AUTHENTICATION k c)"
  | (matched) m i where "stun_decode packet = Some (Inr m)" "i < length (tc_pending c)"
      "message_class m \<in> {Success, Error_class}"
      "pn_transaction (tc_pending c ! i) = sm_transaction m"
      "pn_authenticated (tc_pending c ! i) \<Longrightarrow> response_requires_integrity m \<Longrightarrow>
         verify_integrity (te_hmac env) packet m (tc_key c) \<or> is_fingerprinted_allocation_mismatch (te_crc32 env) m"
      "input_stun env now packet c = handle_response env now (tc_pending c ! i) m
         (remove_queued_transaction (sm_transaction m) (c\<lparr>tc_pending := remove_nth i (tc_pending c)\<rparr>))"
proof (cases "\<exists>m. stun_decode packet = Some (Inr m) \<and> message_class m \<in> {Success, Error_class}
    \<and> fingerprint_valid (te_crc32 env) m \<noteq> Some False")
  case False
  then show ?thesis
    by (intro ignored [of "fst (input_stun env now packet c)"])
      (auto simp: input_stun_def RESULT_INVALID_ARGUMENT_def RESULT_NOT_CONTROL_def split: option.splits sum.splits)
next
  case True
  then obtain m where m: "stun_decode packet = Some (Inr m)" "message_class m \<in> {Success, Error_class}"
    "fingerprint_valid (te_crc32 env) m \<noteq> Some False" by blast
  let ?P = "\<lambda>p. pn_transaction p = sm_transaction m \<and> op_method (pn_operation p) = ucast (message_method m)"
  show ?thesis
  proof (cases "position ?P (tc_pending c)")
    case None
    then show ?thesis using m
      by (intro ignored [of RESULT_NOT_CONTROL]) (auto simp: input_stun_def RESULT_NOT_CONTROL_def Let_def)
  next
    case (Some i)
    let ?bad = "pn_authenticated (tc_pending c ! i) \<and> response_requires_integrity m
       \<and> \<not> verify_integrity (te_hmac env) packet m (tc_key c)
       \<and> \<not> is_fingerprinted_allocation_mismatch (te_crc32 env) m"
    have eq: "input_stun env now packet c = (if ?bad then (RESULT_AUTHENTICATION,
         (case (message_class m, error_code m) of
            (Error_class, Some code) \<Rightarrow>
              response_error_event (ucast (message_method m)) RESULT_AUTHENTICATION (int (unat code)) c
          | _ \<Rightarrow> c))
       else handle_response env now (tc_pending c ! i) m
         (remove_queued_transaction (sm_transaction m) (c\<lparr>tc_pending := remove_nth i (tc_pending c)\<rparr>)))"
      using m Some by (auto simp: input_stun_def Let_def)
    note i = position_Some [OF Some]
    show ?thesis
    proof (cases ?bad)
      case False
      then show ?thesis using eq m(1,2) i by (intro matched [of m i]) auto
    next
      case True
      then show ?thesis
        using eq by (cases "message_class m"; cases "error_code m") (auto intro: ignored reported simp: RESULT_AUTHENTICATION_def)
    qed
  qed
qed

lemma input_stun_alive:
  assumes "alive_inv c" "length packet \<le> AUTH_LIMIT"
  shows "alive_inv (snd (input_stun env now packet c))"
proof (cases rule: input_stun_cases [of env now packet c])
  case ignored
  then show ?thesis using assms(1) by simp
next
  case (reported mth k)
  then show ?thesis using assms(1)
    by (auto simp: response_error_event_def alive_inv_def core_inv_base base_push_event ready_ok_def core_frames)
next
  case (matched m i)
  let ?p = "tc_pending c ! i"
  have b: "base_inv c" "ready_ok c" "\<not> tc_destroyed c" using assms(1) by (simp_all add: alive_inv_def)
  note r = removed_inv [OF b(1,2) matched(2), of "sm_transaction m"]
  have "pending_ok c ?p" using b(1) matched(2) by (auto simp: base_inv_def transactions_ok_def)
  then have "pn_authenticated ?p \<longrightarrow> auth_complete (remove_queued_transaction (sm_transaction m)
      (c\<lparr>tc_pending := remove_nth i (tc_pending c)\<rparr>))"
    by (auto simp: pending_ok_def auth_complete_def remove_queued_transaction_def)
  then show ?thesis
    unfolding matched(6) using r b(3) matched(3) attribute_length [OF matched(1)] assms(2)
    by (intro handle_response_alive) (auto intro: order_trans)
qed

section \<open>Polling\<close>

lemma start_alive:
  assumes "env_ok env" "base_inv c" "\<not> tc_destroyed c" "ready_except op c" "auth_complete c"
    and "start_operation env now op True 0 c = (e, c')"
  shows "e = None \<and> alive_inv c' \<and> tc_state c' = tc_state c \<and> auth_complete c'"
proof -
  have "small_auth c" using assms(2) by (simp add: base_inv_def auth_ok_def)
  then have e: "e = None" using start_operation_total [OF assms(1), of c True now op 0] assms(5,6) by simp
  note f = start_operation_frames [OF assms(6)]
  have "base_inv c'" by (rule base_start_operation [OF assms(2,3) _ _ assms(6)]) simp_all
  moreover have "ready_except op c'"
    using assms(4) by (rule ready_exceptI) (simp_all add: f(1-10) f(12))
  ultimately show ?thesis
    using e f assms(3,5) by (auto simp: alive_inv_def ready_ok_def ready_except_def auth_complete_def)
qed

definition maintained :: "core \<Rightarrow> core_error option \<times> core \<Rightarrow> bool" where
  "maintained c r \<longleftrightarrow> fst r = None \<and> alive_inv (snd r) \<and> tc_state (snd r) = tc_state c \<and> auth_complete (snd r)"

lemma poll_refresh_maintained:
  assumes "env_ok env" "alive_inv c" "auth_complete c"
  shows "maintained c (poll_refresh env now c)"
proof (cases "due now (tc_allocation_refresh c) \<and> \<not> has_operation Refresh c")
  case False
  then show ?thesis using assms by (auto simp: poll_refresh_def maintained_def)
next
  case True
  let ?c = "c\<lparr>tc_allocation_refresh := None\<rparr>"
  obtain e c' where s: "start_operation env now Refresh True 0 ?c = (e, c')" by fastforce
  have "base_inv ?c" "ready_except Refresh ?c" "\<not> tc_destroyed ?c" "auth_complete ?c"
    using assms(2,3) by (auto simp: alive_inv_def base_fields ready_ok_def ready_except_def auth_complete_def)
  then have "e = None \<and> alive_inv c' \<and> tc_state c' = tc_state ?c \<and> auth_complete c'"
    using start_alive [OF assms(1) _ _ _ _ s] by blast
  then show ?thesis using True s by (simp add: poll_refresh_def maintained_def)
qed

lemma poll_permission_maintained:
  assumes "env_ok env" "alive_inv c" "auth_complete c"
  shows "maintained c (poll_permission env now b c)"
proof (cases "b \<and> \<not> has_operation Permission c")
  case False
  then show ?thesis using assms by (auto simp: poll_permission_def maintained_def)
next
  case True
  let ?c = "c\<lparr>tc_permission_retry := None\<rparr>"
  obtain e c' where s: "start_operation env now Permission True 0 ?c = (e, c')" by fastforce
  have "base_inv ?c" "ready_except Permission ?c" "\<not> tc_destroyed ?c" "auth_complete ?c"
    using assms(2,3) by (auto simp: alive_inv_def base_fields ready_ok_def ready_except_def auth_complete_def has_operation_def)
  then have "e = None \<and> alive_inv c' \<and> tc_state c' = tc_state ?c \<and> auth_complete c'"
    using start_alive [OF assms(1) _ _ _ _ s] by blast
  then show ?thesis using True s by (simp add: poll_permission_def maintained_def)
qed

lemma poll_channel_maintained:
  assumes "env_ok env" "alive_inv c" "auth_complete c"
  shows "maintained c (poll_channel env now b c)"
proof (cases "b \<and> \<not> has_operation Channel c")
  case False
  then show ?thesis using assms by (auto simp: poll_channel_def maintained_def)
next
  case True
  let ?c = "c\<lparr>tc_channel_retry := None\<rparr>"
  obtain e c' where s: "start_operation env now Channel True 0 ?c = (e, c')" by fastforce
  have "base_inv ?c" "ready_except Channel ?c" "\<not> tc_destroyed ?c" "auth_complete ?c"
    using assms(2,3) by (auto simp: alive_inv_def base_fields ready_ok_def ready_except_def auth_complete_def has_operation_def)
  then have "e = None \<and> alive_inv c' \<and> tc_state c' = tc_state ?c \<and> auth_complete c'"
    using start_alive [OF assms(1) _ _ _ _ s] by blast
  then show ?thesis using True s by (simp add: poll_channel_def maintained_def)
qed

lemma alive_fields:
  assumes "alive_inv c"
  shows "alive_inv (c\<lparr>tc_maintenance_refresh := t\<rparr>)" "alive_inv (c\<lparr>tc_keepalive := t\<rparr>)"
  using assms by (auto simp: alive_inv_def base_fields ready_ok_def has_operation_def)

lemma alive_queue_packet: "alive_inv c \<Longrightarrow> alive_inv (queue_packet p c)"
  by (auto simp: alive_inv_def ready_ok_def core_simps has_operation_def intro: base_queue_packet)

lemma poll_keepalive_alive:
  assumes "alive_inv c"
  shows "alive_inv (poll_keepalive now c)" "tc_state (poll_keepalive now c) = tc_state c"
    "tc_pending (poll_keepalive now c) = tc_pending c"
  using alive_fields(2) [OF assms, THEN alive_queue_packet] alive_fields(2) [OF assms] assms
  by (auto simp: poll_keepalive_def queue_keepalive_def core_simps split: option.splits)

lemma poll_maintenance_alive:
  assumes "env_ok env" "alive_inv c" "tc_state c = STATE_READY"
  shows "fst (poll_maintenance env now c) = None \<and> alive_inv (snd (poll_maintenance env now c))"
proof -
  have auth: "auth_complete c" using assms(2,3) by (simp add: alive_inv_def base_inv_def auth_ok_def)
  obtain e1 c1 where p1: "poll_refresh env now c = (e1, c1)" by fastforce
  have m1: "e1 = None" "alive_inv c1" "auth_complete c1"
    using poll_refresh_maintained [OF assms(1,2) auth, of now] p1 by (simp_all add: maintained_def)
  define c1' where "c1' = (if due now (tc_maintenance_refresh c)
    then c1\<lparr>tc_maintenance_refresh := Some (now + pf_maintenance_refresh (tc_profile c1))\<rparr> else c1)"
  have m1': "alive_inv c1'" "auth_complete c1'"
    using m1 alive_fields by (auto simp: c1'_def auth_complete_def)
  obtain e2 c2 where p2: "poll_permission env now (due now (tc_maintenance_refresh c) \<or> due now (tc_permission_retry c)) c1' = (e2, c2)"
    by fastforce
  have m2: "e2 = None" "alive_inv c2" "auth_complete c2"
    using poll_permission_maintained [OF assms(1) m1', of now] p2 unfolding maintained_def by (metis fst_conv snd_conv)+
  obtain e3 c3 where p3: "poll_channel env now (due now (tc_maintenance_refresh c) \<or> due now (tc_channel_retry c)) c2 = (e3, c3)"
    by fastforce
  have m3: "e3 = None" "alive_inv c3"
    using poll_channel_maintained [OF assms(1) m2(2,3), of now] p3 unfolding maintained_def by (metis fst_conv snd_conv)+
  have "poll_maintenance env now c = (None, poll_keepalive now c3)"
    using p1 p2 p3 m1(1) m2(1) m3(1) by (simp add: poll_maintenance_def Let_def c1'_def)
  then show ?thesis using poll_keepalive_alive(1) [OF m3(2)] by simp
qed

lemma expire_allocation_alive: "alive_inv c \<Longrightarrow> alive_inv (expire_allocation now c)"
  by (auto simp: expire_allocation_def alive_inv_def [of c] intro: alive_destroy)

lemma poll_alive:
  assumes "env_ok env" "alive_inv c"
  shows "alive_inv (snd (poll env now c)) \<and> (\<exists>d. fst (poll env now c) = Inr d)"
proof -
  have "alive_inv (expire_transactions now 0 c)"
    using expire_transactions_inv [of c now 0] assms(2) by (simp add: alive_inv_def)
  then have x: "alive_inv (expire_allocation now (expire_transactions now 0 c))"
    by (rule expire_allocation_alive)
  have "\<not> tc_destroyed c" using assms(2) by (simp add: alive_inv_def)
  then show ?thesis
    using x poll_maintenance_alive [OF assms(1) x, of now]
    by (auto simp: poll_def Let_def split: prod.splits option.splits if_splits)
qed

section \<open>The other public methods\<close>

lemma start_allocation_alive:
  assumes "alive_inv c"
  shows "alive_inv (snd (start_allocation env now c))"
proof (cases "require_open c = None \<and> tc_state c = STATE_NULL")
  case False
  then show ?thesis using assms by (auto simp: start_allocation_def split: option.splits)
next
  case True
  let ?c = "set_state STATE_ALLOCATING c"
  obtain e c' where s: "start_operation env now Allocate False 0 ?c = (e, c')" by fastforce
  have "base_inv ?c" "\<not> tc_destroyed ?c" using assms
    by (auto simp: alive_inv_def core_simps state_defs intro: base_set_state)
  then have "base_inv c' \<and> \<not> tc_destroyed c' \<and> tc_state c' = STATE_ALLOCATING"
    using base_start_operation [OF _ _ _ _ s] start_operation_frames [OF s] by (simp add: core_simps)
  then have "alive_inv c'" by (simp add: alive_inv_def ready_ok_def state_defs)
  then show ?thesis using True s by (simp add: start_allocation_def)
qed

lemma start_ready_alive:
  assumes "alive_inv c" "tc_state c = STATE_READY"
  shows "alive_inv (snd (start_operation env now op True 0 c))"
proof -
  obtain e c' where s: "start_operation env now op True 0 c = (e, c')" by fastforce
  have b: "base_inv c" "\<not> tc_destroyed c" "ready_ok c" using assms by (simp_all add: alive_inv_def)
  have "base_inv c'" by (rule base_start_operation [OF b(1,2) _ _ s]) simp_all
  moreover note f = start_operation_frames [OF s]
  moreover have "ready_ok c'" using b(3) f(12) by (auto simp: ready_ok_def f(1-11))
  ultimately show ?thesis using s b(2) by (simp add: alive_inv_def)
qed

lemma start_channel_permission_alive:
  assumes "alive_inv c"
  shows "alive_inv (snd (start_channel env now c))" "alive_inv (snd (start_permission env now c))"
  using assms start_ready_alive [OF assms]
  by (auto simp: start_channel_def start_permission_def require_ready_def require_open_def)

lemma resync_alive: "alive_inv c \<Longrightarrow> alive_inv (snd (resync_after_suspend gap now c))"
proof -
  assume c: "alive_inv c"
  have probe: "alive_inv (d\<lparr>tc_allocation_refresh := Some now, tc_maintenance_refresh := Some now,
      tc_keepalive := Some now\<rparr>)" if "alive_inv d" for d
    using that by (auto simp: alive_inv_def base_fields ready_ok_def)
  have "alive_inv (c\<lparr>tc_allocation_expires_at := Some x\<rparr>)" if "tc_allocation_expires_at c \<noteq> None" for x
  proof -
    have "auth_complete c" using c that by (simp add: alive_inv_def base_inv_def auth_ok_def)
    then have "base_inv (c\<lparr>tc_allocation_expires_at := Some x\<rparr>)"
      using c by (intro base_fields) (simp_all add: alive_inv_def)
    then show ?thesis using c by (auto simp: alive_inv_def ready_ok_def has_operation_def)
  qed
  then show ?thesis
    using c probe alive_destroy [of c] by (auto simp: resync_after_suspend_def Let_def alive_inv_def [of c] split: option.splits)
qed

lemma pull_alive:
  "alive_inv c \<Longrightarrow> alive_inv (snd (pull_control c))" "alive_inv c \<Longrightarrow> alive_inv (snd (pull_event c))"
  by (auto simp: pull_control_def pull_event_def alive_inv_def ready_ok_def has_operation_def inv_defs
      pending_ok_def auth_complete_def small_auth_def split: list.splits)

lemma graceful_shutdown_alive:
  assumes "alive_inv c"
  shows "alive_inv (snd (graceful_shutdown env now c))"
proof -
  let ?c = "c\<lparr>tc_shutting_down := True, tc_channel := None, tc_maintenance_refresh := None,
    tc_permission_retry := None, tc_channel_retry := None, tc_keepalive := None, tc_controls := []\<rparr>"
  let ?d = "?c\<lparr>tc_pending := []\<rparr>"
  let ?s = "set_state STATE_DEALLOCATING ?d"
  have b: "base_inv c" "\<not> tc_destroyed c" "ready_ok c" using assms by (simp_all add: alive_inv_def)
  have c': "base_inv ?c" "base_inv ?d"
    using b(1) by (auto simp: inv_defs pending_ok_def auth_complete_def small_auth_def)
  obtain e c'' where s: "start_operation env now Deallocate True 0 ?s = (e, c'')" by fastforce
  have "base_inv ?s" using c'(2) b(2) by (intro base_set_state) (auto simp: state_defs)
  then have "base_inv c''" using b(2) by (intro base_start_operation [OF _ _ _ _ s]) (auto simp: core_simps)
  moreover note start_operation_frames [OF s]
  ultimately have "alive_inv c''" using b(2) by (simp add: alive_inv_def ready_ok_def core_simps state_defs)
  moreover have "alive_inv ?c" if "tc_state c \<noteq> STATE_READY"
    using that b c' by (simp add: alive_inv_def ready_ok_def)
  moreover have "alive_inv ?d" if "tc_state c \<noteq> STATE_READY"
    using that b c' by (simp add: alive_inv_def ready_ok_def)
  ultimately show ?thesis using s assms
    by (auto simp: graceful_shutdown_def Let_def state_defs)
qed

lemma force_destroy_inv:
  assumes "core_inv c"
  shows "core_inv (force_destroy status c)"
proof (cases "tc_destroyed c")
  case True
  then show ?thesis using assms by (simp add: force_destroy_def)
next
  case False
  have "queues_ok (force_destroy status c)"
    using assms False unfolding force_destroy_def set_state_def Let_def
    by (auto simp: core_inv_def queues_ok_def intro!: queues_push_event)
      (auto simp: core_inv_def queues_ok_def push_event_def EVENT_CAPACITY_def)
  then show ?thesis
    using assms False
    by (auto simp: core_inv_def force_destroy_def ready_ok_def transactions_ok_def destroyed_ok_def auth_ok_def
        core_simps state_defs Let_def auth_complete_def small_auth_def)
qed

text \<open>A destroyed core ignores every call; only its queues can still be emptied.\<close>

lemma destroyed_calls:
  assumes "core_inv c" "tc_destroyed c"
  shows "start_allocation env now c = (Some Closed, c)" "start_channel env now c = (Some Closed, c)"
    "start_permission env now c = (Some Closed, c)" "snd (input_stun env now packet c) = c"
    "poll env now c = (Inr None, c)" "resync_after_suspend gap now c = (False, c)"
    "pull_control c = (Inr None, c)" "graceful_shutdown env now c = (None, c)" "force_destroy status c = c"
proof -
  have d: "tc_pending c = []" "tc_controls c = []" using assms by (simp_all add: core_inv_def destroyed_ok_def)
  show "snd (input_stun env now packet c) = c"
    using d by (auto simp: input_stun_def Let_def split: option.splits sum.splits)
qed (use assms in \<open>auto simp: start_allocation_def start_channel_def start_permission_def require_ready_def
    require_open_def poll_def resync_after_suspend_def pull_control_def graceful_shutdown_def force_destroy_def
    core_inv_def destroyed_ok_def\<close>)

lemma pull_event_inv: "core_inv c \<Longrightarrow> core_inv (snd (pull_event c))"
  by (auto simp: pull_event_def core_inv_def ready_ok_def has_operation_def queues_ok_def transactions_ok_def
      destroyed_ok_def auth_ok_def pending_ok_def auth_complete_def small_auth_def split: list.splits)

section \<open>The step relation\<close>

datatype turn_call =
    Start_allocation | Start_channel | Start_permission
  | Input_stun bytes | Poll | Resync duration | Pull_control | Pull_event
  | Graceful_shutdown | Force_destroy int

inductive turn_step :: "turn_env \<Rightarrow> core \<Rightarrow> instant \<times> turn_call \<Rightarrow> core \<Rightarrow> bool" for env where
  "turn_step env c (now, Start_allocation) (snd (start_allocation env now c))"
| "turn_step env c (now, Start_channel) (snd (start_channel env now c))"
| "turn_step env c (now, Start_permission) (snd (start_permission env now c))"
| "length packet \<le> AUTH_LIMIT \<Longrightarrow> turn_step env c (now, Input_stun packet) (snd (input_stun env now packet c))"
| "turn_step env c (now, Poll) (snd (poll env now c))"
| "turn_step env c (now, Resync gap) (snd (resync_after_suspend gap now c))"
| "turn_step env c (now, Pull_control) (snd (pull_control c))"
| "turn_step env c (now, Pull_event) (snd (pull_event c))"
| "turn_step env c (now, Graceful_shutdown) (snd (graceful_shutdown env now c))"
| "turn_step env c (now, Force_destroy status) (force_destroy status c)"

code_pred turn_step .

lemma turn_step_inv:
  assumes "turn_step env c l c'" "env_ok env" "core_inv c"
  shows "core_inv c'"
proof (cases "tc_destroyed c")
  case True
  with assms show ?thesis
    by (cases rule: turn_step.cases) (auto simp: destroyed_calls pull_event_inv)
next
  case False
  then have "alive_inv c" using assms(3) by (simp add: alive_inv_core)
  note a = start_allocation_alive start_channel_permission_alive input_stun_alive poll_alive [THEN conjunct1]
    resync_alive pull_alive graceful_shutdown_alive
  from assms(1) show ?thesis
    by (cases rule: turn_step.cases)
      (auto simp: force_destroy_inv [OF assms(3)] pull_event_inv [OF assms(3)] \<open>alive_inv c\<close> assms(2)
        intro!: alive_core a)
qed

lemma destroyed_step:
  assumes "turn_step env c l c'" "core_inv c \<and> tc_destroyed c"
  shows "core_inv c' \<and> tc_destroyed c'"
proof -
  have "tc_destroyed (snd (pull_event c))" using assms(2) by (auto simp: pull_event_def split: list.splits)
  with assms(1) show ?thesis
    by (cases rule: turn_step.cases) (use assms(2) in \<open>auto simp: destroyed_calls pull_event_inv\<close>)
qed

interpretation turn: step_invariant "turn_step env" "\<lambda>c. env_ok env \<longrightarrow> core_inv c" for env
  by unfold_locales (blast intro: turn_step_inv)

interpretation destroyed_turn: step_invariant "turn_step env" "\<lambda>c. core_inv c \<and> tc_destroyed c" for env
  by unfold_locales (rule destroyed_step)

lemma create_inv:
  assumes "create server username password peer profile transport = Inr c"
  shows "core_inv c"
proof -
  have "c = new_core server username password peer profile transport" "length username \<le> 512"
    using assms by (auto simp: create_def split: if_splits)
  then show ?thesis
    by (simp add: core_inv_def new_core_def queues_ok_def transactions_ok_def auth_ok_def ready_ok_def
        destroyed_ok_def small_auth_def opt_bytes_def state_defs)
qed

lemma reachable_inv:
  assumes "create server username password peer profile transport = Inr c"
    and "steps (turn_step env) c ls c'" "env_ok env"
  shows "core_inv c'"
  using turn.steps_inv [OF assms(2)] create_inv [OF assms(1)] assms(3) by blast

section \<open>A poll leaves nothing overdue\<close>

definition waits :: "instant \<Rightarrow> core \<Rightarrow> bool" where
  "waits now c \<longleftrightarrow> (\<forall>p\<in>set (tc_pending c). now < pn_next_attempt p)"

lemma transaction_timeout_pos: "0 < transaction_timeout c"
  by (simp add: transaction_timeout_def INITIAL_RTO_def STREAM_TRANSACTION_TIMEOUT_def from_millis_def from_secs_def
      split: control_transport.split)

lemma waits_start:
  assumes "waits now c"
  shows "waits now (snd (start_operation env now op authenticated retries c))"
proof -
  obtain e c' where s: "start_operation env now op authenticated retries c = (e, c')" by fastforce
  from s have "waits now c'"
    by (cases rule: start_operation_cases) (use assms transaction_timeout_pos in \<open>auto simp: waits_def\<close>)
  with s show ?thesis by simp
qed

lemma waits_fields [simp]:
  "waits now (c\<lparr>tc_allocation_refresh := t\<rparr>) = waits now c"
  "waits now (c\<lparr>tc_maintenance_refresh := t\<rparr>) = waits now c"
  "waits now (c\<lparr>tc_permission_retry := t\<rparr>) = waits now c"
  "waits now (c\<lparr>tc_channel_retry := t\<rparr>) = waits now c"
  by (simp_all add: waits_def)

lemma waits_poll_parts:
  assumes "waits now c"
  shows "waits now (snd (poll_refresh env now c))" "waits now (snd (poll_permission env now b c))"
    "waits now (snd (poll_channel env now b c))"
  using assms by (auto simp: poll_refresh_def poll_permission_def poll_channel_def intro!: waits_start)

lemma waits_keepalive: "waits now c \<Longrightarrow> waits now (poll_keepalive now c)"
  by (simp add: poll_keepalive_def queue_keepalive_def waits_def split: option.splits)

lemma waits_poll_maintenance:
  assumes "waits now c"
  shows "waits now (snd (poll_maintenance env now c))"
proof -
  obtain e1 c1 where p1: "poll_refresh env now c = (e1, c1)" by fastforce
  then have w1: "waits now c1" using waits_poll_parts(1) [OF assms, of env] by simp
  define c1' where "c1' = (if due now (tc_maintenance_refresh c)
    then c1\<lparr>tc_maintenance_refresh := Some (now + pf_maintenance_refresh (tc_profile c1))\<rparr> else c1)"
  have w1': "waits now c1'" using w1 by (simp add: c1'_def)
  obtain e2 c2 where p2: "poll_permission env now (due now (tc_maintenance_refresh c) \<or> due now (tc_permission_retry c)) c1' = (e2, c2)"
    by fastforce
  then have w2: "waits now c2" using waits_poll_parts(2) [OF w1'] by (metis snd_conv)
  obtain e3 c3 where p3: "poll_channel env now (due now (tc_maintenance_refresh c) \<or> due now (tc_channel_retry c)) c2 = (e3, c3)"
    by fastforce
  then have w3: "waits now c3" using waits_poll_parts(3) [OF w2] by (metis snd_conv)
  have "poll_maintenance env now c = (case e1 of Some e \<Rightarrow> (Some e, c1) | None \<Rightarrow>
      (case e2 of Some e \<Rightarrow> (Some e, c2) | None \<Rightarrow>
        (case e3 of Some e \<Rightarrow> (Some e, c3) | None \<Rightarrow> (None, poll_keepalive now c3))))"
    unfolding poll_maintenance_def Let_def p1 prod.case c1'_def [symmetric] p2 p3 ..
  then show ?thesis
    using w1 w2 w3 waits_keepalive by (simp split: option.splits)
qed

lemma waits_poll:
  assumes "core_inv c"
  shows "waits now (snd (poll env now c))"
proof (cases "tc_destroyed c")
  case True
  then show ?thesis using assms by (simp add: poll_def waits_def core_inv_def destroyed_ok_def)
next
  case False
  have "\<forall>p\<in>set (tc_pending c). 0 < pn_rto p"
    using assms by (auto simp: core_inv_def transactions_ok_def pending_ok_def ladder_def INITIAL_RTO_def
        MAX_RTO_def from_millis_def)
  then have "waits now (expire_transactions now 0 c)"
    using expire_transactions_waits [of 0 c now] by (simp add: waits_def)
  then have "waits now (expire_allocation now (expire_transactions now 0 c))"
    by (auto simp: expire_allocation_def waits_def destroy_allocation_def core_simps Let_def)
  then show ?thesis
    using False waits_poll_maintenance by (auto simp: poll_def Let_def split: prod.splits option.splits)
      (metis snd_conv)+
qed

lemma fold_min_le: "fold min ds (d :: nat) \<le> d \<and> (\<forall>x\<in>set ds. fold min ds d \<le> x)"
proof (induction ds arbitrary: d)
  case (Cons a ds)
  then show ?case by (auto intro: order_trans [OF conjunct1 [OF Cons.IH]])
qed simp

lemma next_deadline_le:
  assumes "p \<in> set (tc_pending c)"
  shows "\<exists>d. next_deadline c = Some d \<and> d \<le> pn_next_attempt p"
proof (cases "tc_pending c")
  case (Cons q ps)
  let ?ts = "concat (map (\<lambda>d. case d of None \<Rightarrow> [] | Some t \<Rightarrow> [t])
     [tc_allocation_refresh c, tc_maintenance_refresh c, tc_permission_retry c, tc_channel_retry c, tc_keepalive c])"
  have "next_deadline c = Some (fold min (map pn_next_attempt ps @ ?ts) (pn_next_attempt q))"
    using Cons by (simp add: next_deadline_def)
  then show ?thesis
    using assms Cons fold_min_le [of "map pn_next_attempt ps @ ?ts" "pn_next_attempt q"] by auto
qed (use assms in simp)

lemma poll_delay:
  assumes "fst (poll env now c) = Inr d" "\<not> tc_destroyed c"
  shows "d = map_option (\<lambda>t. max (t - now) (from_millis 1)) (next_deadline (snd (poll env now c)))"
  using assms by (auto simp: poll_def Let_def split: prod.splits option.splits)

section \<open>Properties\<close>

text \<open>
  C2: Every TURN core reachable by public calls, in any order and with any packets and clock
  readings, keeps its queues within capacity, has at most one transaction per operation, and each
  transaction has been sent between one and seven times, with the retransmission timeout its
  ladder prescribes and its nonce retries within the profile's limit.
\<close>

theorem turn_core_bounded:
  assumes "create server username password peer profile transport = Inr c"
    and "steps (turn_step env) c ls c'" "env_ok env"
  shows "length (tc_controls c') \<le> 16 \<and> length (tc_events c') \<le> 64
    \<and> distinct (map pn_operation (tc_pending c'))
    \<and> list_all (\<lambda>p. 1 \<le> pn_transmissions p \<and> pn_transmissions p \<le> 7
        \<and> pn_rto p = min (from_millis 200 * 2 ^ (pn_transmissions p - 1)) (from_millis 1600)
        \<and> pn_nonce_retries p \<le> pf_max_nonce_retries (tc_profile c')) (tc_pending c')"
  using reachable_inv [OF assms]
  by (auto simp: core_inv_def queues_ok_def transactions_ok_def pending_ok_def list_all_iff ladder_def
      CONTROL_CAPACITY_def EVENT_CAPACITY_def MAX_TRANSMISSIONS_def INITIAL_RTO_def MAX_RTO_def)

definition fresh_core :: core where
  "fresh_core = new_core (example_addr 3478) [117] [112] (example_addr 9000) PJNATH_COMPAT Datagram"

lemma fresh_core_created:
  "create (example_addr 3478) [117] [112] (example_addr 9000) PJNATH_COMPAT Datagram = Inr fresh_core"
  by (simp add: create_def example_addr_def fresh_core_def)

lemma example_env_ok: "env_ok example_env"
  by (simp add: env_ok_def example_env_def)

lemma example_run:
  "steps (turn_step example_env) fresh_core [(0, Start_allocation), (from_millis 250, Poll)]
     (snd (poll example_env (from_millis 250) (snd (start_allocation example_env 0 fresh_core))))"
  by (rule steps_Cons, rule turn_step.intros, rule steps_Cons, rule turn_step.intros, rule steps_Nil)

lemma turn_core_bounded_witness:
  "length (tc_events (snd (poll example_env (from_millis 250) (snd (start_allocation example_env 0 fresh_core))))) \<le> 64"
  using turn_core_bounded [OF fresh_core_created example_run example_env_ok] by simp

text \<open>
  C5: Polling a reachable core never fails; afterwards no transaction is overdue, and while one is
  in flight the poll returns a delay of at least a millisecond that does not sleep past its next
  attempt.
\<close>

theorem poll_drives_retransmission:
  assumes "create server username password peer profile transport = Inr c"
    and "steps (turn_step env) c ls c'" "env_ok env"
  shows "\<exists>d. fst (poll env now c') = Inr d
    \<and> list_all (\<lambda>p. now < pn_next_attempt p
        \<and> (\<exists>delay. d = Some delay \<and> from_millis 1 \<le> delay \<and> delay \<le> max (pn_next_attempt p - now) (from_millis 1)))
      (tc_pending (snd (poll env now c')))"
proof -
  note inv = reachable_inv [OF assms]
  obtain d where d: "fst (poll env now c') = Inr d"
  proof (cases "tc_destroyed c'")
    case True
    then show ?thesis using that by (simp add: poll_def)
  next
    case False
    then show ?thesis using that poll_alive [OF assms(3), of c' now] inv by (auto simp: alive_inv_core)
  qed
  have "\<exists>delay. d = Some delay \<and> from_millis 1 \<le> delay \<and> delay \<le> max (pn_next_attempt p - now) (from_millis 1)"
    if p: "p \<in> set (tc_pending (snd (poll env now c')))" for p
  proof -
    have alive: "\<not> tc_destroyed c'"
      using p inv by (auto simp: poll_def core_inv_def destroyed_ok_def)
    from next_deadline_le [OF p] poll_delay [OF d alive] show ?thesis by fastforce
  qed
  then show ?thesis using d waits_poll [OF inv, of now env] by (auto simp: list_all_iff waits_def)
qed

lemma poll_drives_retransmission_witness:
  "\<exists>d. fst (poll example_env 7 (snd (poll example_env (from_millis 250) (snd (start_allocation example_env 0 fresh_core))))) = Inr d"
  using poll_drives_retransmission [OF fresh_core_created example_run example_env_ok, of 7] by blast

text \<open>
  Once destroyed, a core stays destroyed and silent: whatever is called afterwards, it holds no
  transaction and no packet to send.
\<close>

theorem destroyed_core_is_silent:
  assumes "create server username password peer profile transport = Inr c"
    and "steps (turn_step env) c ls c'" "env_ok env"
    and "steps (turn_step env) (force_destroy status c') ms c''"
  shows "tc_destroyed c'' \<and> tc_pending c'' = [] \<and> tc_controls c'' = [] \<and> tc_state c'' = STATE_DESTROYING"
proof -
  have "core_inv (force_destroy status c')" by (rule force_destroy_inv) (rule reachable_inv [OF assms(1-3)])
  moreover have "tc_destroyed (force_destroy status c')"
    by (simp add: force_destroy_def core_simps Let_def)
  ultimately have "core_inv c'' \<and> tc_destroyed c''" using destroyed_turn.steps_inv [OF assms(4)] by blast
  then show ?thesis by (auto simp: core_inv_def destroyed_ok_def)
qed

lemma destroyed_core_is_silent_witness:
  "tc_controls (snd (poll example_env 9 (force_destroy 0
     (snd (poll example_env (from_millis 250) (snd (start_allocation example_env 0 fresh_core))))))) = []"
proof -
  have "steps (turn_step example_env) (force_destroy 0
      (snd (poll example_env (from_millis 250) (snd (start_allocation example_env 0 fresh_core)))))
      [(9, Poll)] (snd (poll example_env 9 (force_destroy 0
     (snd (poll example_env (from_millis 250) (snd (start_allocation example_env 0 fresh_core)))))))"
    by (rule steps_Cons, rule turn_step.intros, rule steps_Nil)
  then show ?thesis
    using destroyed_core_is_silent [OF fresh_core_created example_run example_env_ok] by blast
qed



text \<open>The marker an overflow of the event queue leaves.\<close>

definition overflow_marker :: native_event where
  "overflow_marker = default_event\<lparr>ev_kind := EVENT_EVENT_OVERFLOW, ev_status := RESULT_BUFFER_TOO_SMALL, ev_dropped := 1\<rparr>"

lemma full_push: "length (tc_events c) = 64 \<Longrightarrow> push_event ev c = c\<lparr>tc_events := tl (tc_events c) @ [overflow_marker]\<rparr>"
  by (simp add: push_event_def overflow_marker_def EVENT_CAPACITY_def)

text \<open>
  Overflow of the event queue loses two events for each one it reports: \<open>n\<close> events pushed on a
  full queue remove its \<open>n\<close> oldest, are themselves lost, and leave \<open>n\<close> markers that
  report one dropped event each.
\<close>

theorem event_overflow_undercounts:
  assumes "length (tc_events c) = 64" "length evs \<le> 64"
  shows "tc_events (fold push_event evs c) = drop (length evs) (tc_events c) @ replicate (length evs) overflow_marker
    \<and> ev_dropped overflow_marker = 1"
  using assms
proof (induction evs arbitrary: c)
  case Nil
  then show ?case by (simp add: overflow_marker_def)
next
  case (Cons ev evs)
  let ?c = "c\<lparr>tc_events := tl (tc_events c) @ [overflow_marker]\<rparr>"
  have "length (tc_events ?c) = 64" using Cons.prems by simp
  with Cons.IH [of ?c] Cons.prems show ?case
    by (simp add: full_push drop_Suc replicate_append_same [symmetric])
qed

lemma event_overflow_undercounts_witness:
  "tc_events (fold push_event [default_event, default_event] (fresh_core\<lparr>tc_events := replicate 64 default_event\<rparr>))
     = replicate 62 default_event @ [overflow_marker, overflow_marker]"
  using event_overflow_undercounts [of "fresh_core\<lparr>tc_events := replicate 64 default_event\<rparr>" "[default_event, default_event]"]
  by (simp add: numeral_2_eq_2)

end
