(* ===== verification/Protocol.thy ===== *)
theory Protocol
  imports Interfaces
begin

text \<open>
  The control messages between client and server, \<open>protocol.rs\<close>: the text of GETCONF and
  DISCONNECT, the classification of the server's answers and the binary stream commands (repair
  and alive). Strings are their UTF-8 bytes; the protocol revision is the constant of
  \<open>shared/wire_protocol.rs\<close>. The texts of error messages are not modelled, the error cases are.
\<close>

section \<open>Text\<close>

text \<open>The standard library's UTF-8 check: well-formed sequences of RFC 3629.\<close>

definition cont_byte :: "u8 \<Rightarrow> bool" where
  "cont_byte b \<longleftrightarrow> 0x80 \<le> b \<and> b \<le> 0xbf"

fun is_utf8 :: "bytes \<Rightarrow> bool" where
  "is_utf8 [] = True"
| "is_utf8 (a # bs) =
     (if a \<le> 0x7f then is_utf8 bs
      else if 0xc2 \<le> a \<and> a \<le> 0xdf then
        (case bs of b # rest \<Rightarrow> cont_byte b \<and> is_utf8 rest | _ \<Rightarrow> False)
      else if 0xe0 \<le> a \<and> a \<le> 0xef then
        (case bs of b # c # rest \<Rightarrow>
            cont_byte b \<and> cont_byte c \<and> (a = 0xe0 \<longrightarrow> 0xa0 \<le> b) \<and> (a = 0xed \<longrightarrow> b \<le> 0x9f) \<and> is_utf8 rest
          | _ \<Rightarrow> False)
      else if 0xf0 \<le> a \<and> a \<le> 0xf4 then
        (case bs of b # c # d # rest \<Rightarrow>
            cont_byte b \<and> cont_byte c \<and> cont_byte d \<and> (a = 0xf0 \<longrightarrow> 0x90 \<le> b) \<and> (a = 0xf4 \<longrightarrow> b \<le> 0x8f)
            \<and> is_utf8 rest
          | _ \<Rightarrow> False)
      else False)"

text \<open>\<open>to_string\<close> of an unsigned number.\<close>

fun decimal :: "nat \<Rightarrow> bytes" where
  "decimal n = (if n < 10 then [word_of_nat (48 + n)] else decimal (n div 10) @ [word_of_nat (48 + n mod 10)])"

declare decimal.simps [simp del]

section \<open>Requests\<close>

definition WIRE_PROTOCOL_REVISION :: bytes where "WIRE_PROTOCOL_REVISION = ascii ''CSQTT-WIRE-3''"

definition config_request ::
  "bytes \<Rightarrow> bytes \<Rightarrow> bytes \<Rightarrow> u64 \<Rightarrow> bytes \<Rightarrow> nat \<Rightarrow> nat option \<Rightarrow> bytes" where
  "config_request local_port device_id password generation_id salt worker_id desired_count =
     (let bar = ascii ''|'';
          desired = (case desired_count of None \<Rightarrow> [] | Some value \<Rightarrow> decimal value)
      in ascii ''GETCONF:'' @ local_port @ bar @ device_id @ bar @ password @ bar
         @ decimal (unat generation_id) @ bar @ salt @ bar @ decimal worker_id @ bar @ desired @ bar @ WIRE_PROTOCOL_REVISION)"

definition disconnect_request :: "bytes \<Rightarrow> bytes \<Rightarrow> bytes" where
  "disconnect_request device_id salt = ascii ''DISCONNECT:'' @ device_id @ ascii ''|'' @ salt"

section \<open>Responses\<close>

definition PANEL_RESTART_NOTICE :: bytes where
  "PANEL_RESTART_NOTICE = [0xff] @ ascii ''CSQTT_PANEL_RESTART_V1'' @ [0, 0x91, 0x7d, 0x03, 0xa8]"

definition STREAM_REPAIR_PREFIX :: bytes where
  "STREAM_REPAIR_PREFIX = [0xff] @ ascii ''CSQTT_STREAM_REPAIR_V1''"

definition STREAM_ALIVE_PREFIX :: bytes where
  "STREAM_ALIVE_PREFIX = [0xff] @ ascii ''CSQTT_STREAM_ALIVE_V1''"

definition MAX_STREAM_WORKERS :: u16 where
  "MAX_STREAM_WORKERS = 126"

datatype config_response = Config bytes | No_config

datatype config_error =
    Not_utf8
  | Wrong_password
  | Expired
  | Device_mismatch
  | Protocol_fatal
  | Denied bytes
  | Unexpected_response

definition parse_config_response :: "bytes \<Rightarrow> config_error + config_response" where
  "parse_config_response response =
     (if \<not> is_utf8 response then Inl Not_utf8
      else if response = ascii ''NOCONF'' then Inr No_config
      else case strip_prefix response (ascii ''DENIED:'') of
             Some reason \<Rightarrow>
               Inl (if reason = ascii ''wrong_password'' then Wrong_password
                    else if reason = ascii ''expired'' then Expired
                    else if reason = ascii ''device_mismatch'' then Device_mismatch
                    else if reason = ascii ''protocol_mismatch'' \<or> reason = ascii ''invalid_worker_count'' then Protocol_fatal
                    else Denied reason)
           | None \<Rightarrow>
               if starts_with response (ascii ''TUNCONF:'') then Inr (Config response)
               else Inl Unexpected_response)"

definition is_config_response :: "bytes \<Rightarrow> bool" where
  "is_config_response response \<longleftrightarrow>
     list_ex (starts_with response) [ascii ''TUNCONF:'', ascii ''NOCONF'', ascii ''DENIED:'']"

definition is_panel_restart_notice :: "bytes \<Rightarrow> bool" where
  "is_panel_restart_notice response \<longleftrightarrow> response = PANEL_RESTART_NOTICE"

definition is_control_response :: "bytes \<Rightarrow> bool" where
  "is_control_response response \<longleftrightarrow> is_panel_restart_notice response
     \<or> list_ex (starts_with response)
         [ascii ''TUNCONF:'', ascii ''NOCONF'', ascii ''DENIED:'', ascii ''READY_OK'',
          ascii ''OK:disconnected'', STREAM_REPAIR_PREFIX, STREAM_ALIVE_PREFIX]"

section \<open>Stream commands\<close>

record stream_command =
  sc_sequence :: u64
  sc_desired_count :: u16
  sc_worker_ids :: "u16 list"

text \<open>The loop over \<open>chunks_exact(2)\<close>: \<open>None\<close> for an identifier out of range.\<close>

fun parse_ids :: "u16 \<Rightarrow> bytes \<Rightarrow> u16 list option" where
  "parse_ids desired (a # b # rest) =
     (let worker_id = from_be16 [a, b] in
      if worker_id = 0 \<or> worker_id > desired then None
      else map_option (\<lambda>ids. worker_id # ids) (parse_ids desired rest))"
| "parse_ids desired _ = Some []"

definition parse_stream_command :: "bytes \<Rightarrow> bytes \<Rightarrow> stream_command option" where
  "parse_stream_command payload prefix =
     (case strip_prefix payload prefix of
        None \<Rightarrow> None
      | Some rest \<Rightarrow>
          if length rest < 11 then None
          else
            let sequence = from_be64 (sub rest 0 8);
                desired_count = from_be16 (sub rest 8 10);
                count = unat (rest ! 10);
                ids = drop 11 rest
            in if sequence = 0 \<or> desired_count = 0 \<or> desired_count > MAX_STREAM_WORKERS \<or> length ids \<noteq> count * 2 then None
               else (case parse_ids desired_count ids of
                       None \<Rightarrow> None
                     | Some worker_ids \<Rightarrow>
                         if worker_ids = [] then None
                         else Some \<lparr>sc_sequence = sequence, sc_desired_count = desired_count, sc_worker_ids = worker_ids\<rparr>))"

definition parse_stream_repair :: "bytes \<Rightarrow> stream_command option" where
  "parse_stream_repair payload = parse_stream_command payload STREAM_REPAIR_PREFIX"

definition parse_stream_alive :: "bytes \<Rightarrow> stream_command option" where
  "parse_stream_alive payload = parse_stream_command payload STREAM_ALIVE_PREFIX"

section \<open>The format of a command\<close>

text \<open>What a server writes, and the commands it may write.\<close>

definition command_bytes :: "bytes \<Rightarrow> stream_command \<Rightarrow> bytes" where
  "command_bytes prefix c = prefix @ to_be64 (sc_sequence c) @ to_be16 (sc_desired_count c)
     @ [word_of_nat (length (sc_worker_ids c))] @ concat (map to_be16 (sc_worker_ids c))"

definition valid_command :: "stream_command \<Rightarrow> bool" where
  "valid_command c \<longleftrightarrow> sc_sequence c \<noteq> 0 \<and> sc_desired_count c \<noteq> 0 \<and> sc_desired_count c \<le> MAX_STREAM_WORKERS
     \<and> sc_worker_ids c \<noteq> [] \<and> length (sc_worker_ids c) < 256
     \<and> list_all (\<lambda>w. w \<noteq> 0 \<and> w \<le> sc_desired_count c) (sc_worker_ids c)"

lemma to_be16_two: "\<exists>a b. to_be16 w = [a, b]"
  by (rule length_2) simp

lemma length_ids [simp]: "length (concat (map to_be16 ids)) = 2 * length ids"
  by (induction ids) auto

lemma parse_ids_bytes:
  "parse_ids desired (concat (map to_be16 ids)) =
     (if list_all (\<lambda>w. w \<noteq> 0 \<and> w \<le> desired) ids then Some ids else None)"
proof (induction ids)
  case (Cons w ids)
  obtain a b where w: "to_be16 w = [a, b]" using to_be16_two by blast
  then have "from_be16 [a, b] = w" by (metis from_to_be16)
  with Cons w show ?case by (auto simp: Let_def not_le)
qed simp

lemma ids_of_bytes: "even (length bs) \<Longrightarrow> \<exists>ids. bs = concat (map to_be16 ids)"
proof (induction bs rule: induct_list012)
  case 1
  show ?case by (rule exI [of _ "[]"]) simp
next
  case (3 a b bs)
  then obtain ids where "bs = concat (map to_be16 ids)" by auto
  moreover have "to_be16 (from_be16 [a, b]) = [a, b]" by (rule to_from_be16) simp
  ultimately have "a # b # bs = concat (map to_be16 (from_be16 [a, b] # ids))" by simp
  then show ?case by blast
qed auto

lemma parse_command_parts:
  assumes "length a = 8" "length b = 2"
  shows "parse_stream_command (prefix @ a @ b @ [n] @ ids) prefix =
    (if from_be64 a = 0 \<or> from_be16 b = 0 \<or> from_be16 b > MAX_STREAM_WORKERS \<or> length ids \<noteq> unat n * 2 then None
     else (case parse_ids (from_be16 b) ids of
             None \<Rightarrow> None
           | Some worker_ids \<Rightarrow>
               if worker_ids = [] then None
               else Some \<lparr>sc_sequence = from_be64 a, sc_desired_count = from_be16 b, sc_worker_ids = worker_ids\<rparr>))"
proof -
  have "sub (a @ b @ [n] @ ids) 0 8 = a" "sub (a @ b @ [n] @ ids) 8 10 = b"
    "(a @ b @ [n] @ ids) ! 10 = n" "drop 11 (a @ b @ [n] @ ids) = ids"
    using assms by (auto simp: sub_def nth_append)
  then show ?thesis using assms by (simp add: parse_stream_command_def Let_def)
qed

text \<open>
  A stream command parses exactly when it is the encoding of a valid one: a nonzero sequence,
  at most 126 workers and every identifier between one and the desired count; and then it parses
  to that command.
\<close>

theorem stream_command_codec:
  "parse_stream_command payload prefix = Some c \<longleftrightarrow> valid_command c \<and> payload = command_bytes prefix c"
proof
  assume "valid_command c \<and> payload = command_bytes prefix c"
  moreover from this have "unat (word_of_nat (length (sc_worker_ids c)) :: u8) = length (sc_worker_ids c)"
    by (simp add: valid_command_def unat_of_nat)
  ultimately show "parse_stream_command payload prefix = Some c"
    using parse_command_parts [of "to_be64 (sc_sequence c)" "to_be16 (sc_desired_count c)" prefix
        "word_of_nat (length (sc_worker_ids c))" "concat (map to_be16 (sc_worker_ids c))"]
    by (auto simp: command_bytes_def valid_command_def parse_ids_bytes)
next
  assume p: "parse_stream_command payload prefix = Some c"
  then obtain rest where rest: "payload = prefix @ rest" "11 \<le> length rest"
    by (auto simp: parse_stream_command_def strip_prefix_Some Let_def split: option.splits if_splits)
  define a b n ids where "a = sub rest 0 8" and "b = sub rest 8 10" and "n = rest ! 10" and "ids = drop 11 rest"
  have "rest = take 10 rest @ rest ! 10 # drop 11 rest"
    using rest(2) id_take_nth_drop [of 10 rest] by simp
  moreover have "take 10 rest = a @ b"
    using take_add [of 8 2 rest] by (simp add: a_def b_def sub_def)
  ultimately have r: "rest = a @ b @ [n] @ ids" by (simp add: n_def ids_def)
  have len: "length a = 8" "length b = 2" using rest(2) by (simp_all add: a_def b_def)
  have ok: "from_be64 a \<noteq> 0" "from_be16 b \<noteq> 0" "from_be16 b \<le> MAX_STREAM_WORKERS" "length ids = unat n * 2"
    and c: "parse_ids (from_be16 b) ids = Some (sc_worker_ids c)" "sc_worker_ids c \<noteq> []"
      "sc_sequence c = from_be64 a" "sc_desired_count c = from_be16 b"
    using p unfolding rest(1) r parse_command_parts [OF len]
    by (auto split: if_splits option.splits)
  obtain ws where ws: "ids = concat (map to_be16 ws)" using ids_of_bytes [of ids] ok(4) by auto
  then have w: "sc_worker_ids c = ws" "list_all (\<lambda>w. w \<noteq> 0 \<and> w \<le> from_be16 b) ws"
    using c(1) by (auto simp: parse_ids_bytes split: if_splits)
  have n: "length ws = unat n" using ok(4) ws by simp
  have "valid_command c"
    using ok c w n unat_byte_less [of n] by (simp add: valid_command_def)
  moreover have "payload = command_bytes prefix c"
    using rest(1) r c w n ws len by (simp add: command_bytes_def to_from_be64 to_from_be16)
  ultimately show "valid_command c \<and> payload = command_bytes prefix c" ..
qed

text \<open>
  The kinds of message on the control channel are disjoint: an answer to GETCONF that parses is
  recognised as one and as control traffic, and is neither a panel notice nor a stream command.
\<close>

theorem config_answers_are_no_commands:
  assumes "parse_config_response response = Inr r"
  shows "is_config_response response \<and> is_control_response response \<and> \<not> is_panel_restart_notice response
    \<and> parse_stream_repair response = None \<and> parse_stream_alive response = None"
proof -
  have conf: "is_config_response response"
    using assms by (auto simp: parse_config_response_def is_config_response_def starts_with_def split: option.splits if_splits)
  have "is_utf8 response" using assms by (auto simp: parse_config_response_def split: if_splits)
  moreover have "\<not> is_utf8 (0xff # xs)" for xs by simp
  ultimately have "response \<noteq> 0xff # xs" for xs by auto
  then show ?thesis
    using conf by (auto simp: is_control_response_def is_config_response_def is_panel_restart_notice_def
        PANEL_RESTART_NOTICE_def parse_stream_repair_def parse_stream_alive_def parse_stream_command_def
        STREAM_REPAIR_PREFIX_def STREAM_ALIVE_PREFIX_def strip_prefix_Some split: option.splits)
qed

lemma config_answers_are_no_commands_witness: "is_control_response (ascii ''NOCONF'')"
  using config_answers_are_no_commands [of "ascii ''NOCONF''" No_config]
  by (simp add: parse_config_response_def ascii_def)

end
