(* ===== verification/Error_Text.thy ===== *)
theory Error_Text
  imports Turn_Core Protocol "HOL-Library.Sublist"
begin

text \<open>
  The errors of the engine as its code inspects them: an \<open>anyhow\<close> error is a chain of causes,
  each with its displayed text, and the retry logic of the workers reads both the typed causes and
  the texts. Texts are the UTF-8 bytes of the source's strings. The classifiers are those of
  \<open>turn.rs\<close>, \<open>session.rs\<close> and \<open>worker.rs\<close>.
\<close>

section \<open>Text\<close>

type_synonym message_text = bytes

definition lower_byte :: "u8 \<Rightarrow> u8" where
  "lower_byte c = (if 65 \<le> c \<and> c \<le> 90 then c + 32 else c)"

definition lowercase :: "message_text \<Rightarrow> message_text" where
  "lowercase s = map lower_byte s"

abbreviation contains :: "message_text \<Rightarrow> string \<Rightarrow> bool" where
  "contains hay needle \<equiv> sublist (ascii needle) hay"

definition show_int :: "int \<Rightarrow> message_text" where
  "show_int i = (if i < 0 then 45 # decimal (nat (- i)) else decimal (nat i))"

fun join :: "message_text \<Rightarrow> message_text list \<Rightarrow> message_text" where
  "join sep [] = []"
| "join sep [s] = s"
| "join sep (s # ss) = s @ sep @ join sep ss"

section \<open>Failures of a TURN request\<close>

definition RESULT_EMPTY :: int where "RESULT_EMPTY = -1"
definition RESULT_CLOSED :: int where "RESULT_CLOSED = -4"

lemmas result_defs = RESULT_EMPTY_def RESULT_BUFFER_TOO_SMALL_def RESULT_INVALID_ARGUMENT_def RESULT_CLOSED_def
  RESULT_NOT_CONTROL_def RESULT_TIMEOUT_def RESULT_AUTHENTICATION_def RESULT_PROTOCOL_def

definition METHOD_ALLOCATE :: u32 where "METHOD_ALLOCATE = 3"
definition METHOD_REFRESH :: u32 where "METHOD_REFRESH = 4"
definition METHOD_CREATE_PERMISSION :: u32 where "METHOD_CREATE_PERMISSION = 8"
definition METHOD_CHANNEL_BIND :: u32 where "METHOD_CHANNEL_BIND = 9"

lemmas method_defs = METHOD_ALLOCATE_def METHOD_REFRESH_def METHOD_CREATE_PERMISSION_def METHOD_CHANNEL_BIND_def

definition native_status_text :: "int \<Rightarrow> message_text" where
  "native_status_text status =
     (case map_of
        [(0, ascii ''success''), (RESULT_EMPTY, ascii ''empty''), (RESULT_BUFFER_TOO_SMALL, ascii ''buffer too small''),
         (RESULT_INVALID_ARGUMENT, ascii ''invalid argument''), (RESULT_CLOSED, ascii ''closed''),
         (RESULT_NOT_CONTROL, ascii ''not a TURN control response''), (RESULT_TIMEOUT, ascii ''request timeout''),
         (RESULT_AUTHENTICATION, ascii ''response authentication failed''), (RESULT_PROTOCOL, ascii ''TURN protocol error'')] status of
        Some text \<Rightarrow> text @ ascii '' ('' @ show_int status @ ascii '')''
      | None \<Rightarrow> ascii ''TURN status '' @ show_int status)"

definition method_name :: "u32 \<Rightarrow> message_text" where
  "method_name m =
     (if m = METHOD_ALLOCATE then ascii ''Allocate'' else if m = METHOD_REFRESH then ascii ''Refresh''
      else if m = METHOD_CREATE_PERMISSION then ascii ''CreatePermission''
      else if m = METHOD_CHANNEL_BIND then ascii ''ChannelBind'' else ascii ''request'')"

definition stun_suffix :: "int \<Rightarrow> message_text" where
  "stun_suffix stun_code = (if stun_code = 0 then [] else ascii ''; STUN error '' @ show_int stun_code)"

definition request_failed :: "u32 \<Rightarrow> int \<Rightarrow> int \<Rightarrow> message_text" where
  "request_failed m status stun_code =
     ascii ''TURN '' @ method_name m @ ascii '' failed: '' @ native_status_text status @ stun_suffix stun_code"

definition is_retryable_maintenance :: "u32 \<Rightarrow> bool" where
  "is_retryable_maintenance m \<longleftrightarrow> m \<in> {METHOD_CREATE_PERMISSION, METHOD_CHANNEL_BIND, METHOD_REFRESH}"

definition is_allocation_mismatch_stun :: "u32 \<Rightarrow> int \<Rightarrow> bool" where
  "is_allocation_mismatch_stun m stun_code \<longleftrightarrow> stun_code = 437 \<or> (m = METHOD_CHANNEL_BIND \<and> stun_code = 400)"

section \<open>Chains\<close>

text \<open>
  What \<open>downcast_ref\<close> finds behind a cause. The chain of a \<open>TurnAllocateError\<close> goes on with
  the error it wraps.
\<close>

datatype io_kind = Connection_reset | Connection_aborted | Broken_pipe | Other_kind

datatype cause_type =
    Plain
  | Turn_request u32 int int
  | Turn_allocate
  | Io_error "int option" io_kind

record cause =
  ca_text :: message_text
  ca_type :: cause_type

type_synonym error_chain = "cause list"

definition to_text :: "error_chain \<Rightarrow> message_text" where
  "to_text e = (case e of [] \<Rightarrow> [] | c # _ \<Rightarrow> ca_text c)"

definition alternate_text :: "error_chain \<Rightarrow> message_text" where
  "alternate_text e = join (ascii '': '') (map ca_text e)"

definition add_context :: "message_text \<Rightarrow> error_chain \<Rightarrow> error_chain" where
  "add_context s e = \<lparr>ca_text = s, ca_type = Plain\<rparr> # e"

definition error_is_allocation_mismatch :: "error_chain \<Rightarrow> bool" where
  "error_is_allocation_mismatch e =
     (let chain = lowercase (join [10] (map ca_text e))
      in contains chain ''stun error 437''
         \<or> (contains chain ''stun error 400'' \<and> contains chain ''channelbind''))"

fun turn_stun_code :: "error_chain \<Rightarrow> int option" where
  "turn_stun_code [] = None"
| "turn_stun_code (c # cs) = (case ca_type c of Turn_request m s code \<Rightarrow> Some code | _ \<Rightarrow> turn_stun_code cs)"

fun turn_allocate_stun_code :: "error_chain \<Rightarrow> int option" where
  "turn_allocate_stun_code [] = None"
| "turn_allocate_stun_code (c # cs) =
     (case (if ca_type c = Turn_allocate then turn_stun_code cs else None) of
        Some code \<Rightarrow> Some code
      | None \<Rightarrow> turn_allocate_stun_code cs)"

definition wrap_allocate_error :: "error_chain \<Rightarrow> error_chain" where
  "wrap_allocate_error e = \<lparr>ca_text = ascii ''TURN Allocate: '' @ alternate_text e, ca_type = Turn_allocate\<rparr> # e"

definition turn_request_error :: "u32 \<Rightarrow> int \<Rightarrow> int \<Rightarrow> error_chain" where
  "turn_request_error m status stun_code =
     [\<lparr>ca_text = request_failed m status stun_code, ca_type = Turn_request m status stun_code\<rparr>]"

section \<open>Text against structure\<close>

lemma decimal_3:
  assumes "100 \<le> n" "n < 1000"
  shows "decimal n = [word_of_nat (48 + n div 100), word_of_nat (48 + n div 10 mod 10), word_of_nat (48 + n mod 10)]"
proof -
  have "n div 10 div 10 = n div 100" by (simp flip: div_mult2_eq)
  moreover have "\<not> n < 10" "\<not> n div 10 < 10" "n div 100 < 10" using assms by linarith+
  ultimately show ?thesis
    by (simp add: decimal.simps [of n] decimal.simps [of "n div 10"] decimal.simps [of "n div 100"])
qed

lemma digit_eq: "a < 10 \<Longrightarrow> b < 10 \<Longrightarrow> (word_of_nat (48 + a) :: u8) = word_of_nat (48 + b) \<longleftrightarrow> a = b"
  by (auto simp: word_of_nat_eq_iff take_bit_nat_def)

lemma digit_literal:
  assumes "a < 10"
  shows "(word_of_nat (48 + a) :: u8) = 52 \<longleftrightarrow> a = 4" "(word_of_nat (48 + a) :: u8) = 51 \<longleftrightarrow> a = 3"
    "(word_of_nat (48 + a) :: u8) = 55 \<longleftrightarrow> a = 7" "(word_of_nat (48 + a) :: u8) = 48 \<longleftrightarrow> a = 0"
proof -
  have "52 = (word_of_nat (48 + 4) :: u8)" "51 = (word_of_nat (48 + 3) :: u8)"
    "55 = (word_of_nat (48 + 7) :: u8)" "48 = (word_of_nat (48 + 0) :: u8)" by simp_all
  then show "(word_of_nat (48 + a) :: u8) = 52 \<longleftrightarrow> a = 4" "(word_of_nat (48 + a) :: u8) = 51 \<longleftrightarrow> a = 3"
    "(word_of_nat (48 + a) :: u8) = 55 \<longleftrightarrow> a = 7" "(word_of_nat (48 + a) :: u8) = 48 \<longleftrightarrow> a = 0"
    using digit_eq [OF assms, of 4] digit_eq [OF assms, of 3] digit_eq [OF assms, of 7] digit_eq [OF assms, of 0]
    by (simp_all del: of_nat_add)
qed

lemma digit_bounds: "a < 10 \<Longrightarrow> 48 \<le> (word_of_nat (48 + a) :: u8) \<and> (word_of_nat (48 + a) :: u8) \<le> 57"
  by (simp add: word_le_nat_alt unat_of_nat del: of_nat_add)

lemma lower_digit: "c \<le> 57 \<Longrightarrow> lower_byte c = c"
  using order_trans [of 65 c 57] by (auto simp: lower_byte_def)

lemma lowercase_append [simp]: "lowercase (xs @ ys) = lowercase xs @ lowercase ys"
  by (simp add: lowercase_def)

lemma sublist_separator:
  assumes "s \<notin> set n"
  shows "sublist n (xs @ s # ys) \<longleftrightarrow> sublist n xs \<or> sublist n ys"
proof
  assume "sublist n (xs @ s # ys)"
  then consider "sublist n xs" | "sublist n (s # ys)"
    | n1 n2 where "n = n1 @ n2" "suffix n1 xs" "prefix n2 (s # ys)"
    by (auto simp: sublist_append)
  then show "sublist n xs \<or> sublist n ys"
  proof cases
    case 2
    then show ?thesis using assms by (cases n) (auto simp: sublist_Cons_right)
  next
    case 3
    then have "n2 = []" using assms by (cases n2) auto
    then show ?thesis using 3 by (simp add: suffix_imp_sublist)
  qed simp
next
  assume "sublist n xs \<or> sublist n ys"
  then show "sublist n (xs @ s # ys)"
    by (metis append_Cons sublist_appendI sublist_append_leftI sublist_append_rightI sublist_order.order_trans append_Nil append_assoc)
qed

lemmas text_simps = sublist_code prefix_code ascii_def lowercase_def lower_byte_def

lemma code_suffix:
  assumes "48 \<le> x" "x \<le> 57" "48 \<le> y" "y \<le> 57" "48 \<le> z" "z \<le> 57"
  shows "contains (lowercase (ascii '' STUN error '' @ [x, y, z])) ''stun error 437'' \<longleftrightarrow> x = 52 \<and> y = 51 \<and> z = 55"
    and "contains (lowercase (ascii '' STUN error '' @ [x, y, z])) ''stun error 400'' \<longleftrightarrow> x = 52 \<and> y = 48 \<and> z = 48"
    and "\<not> contains (lowercase (ascii '' STUN error '' @ [x, y, z])) ''channelbind''"
proof -
  have l: "lowercase (ascii '' STUN error '' @ [x, y, z]) = ascii '' stun error '' @ [x, y, z]"
    using assms by (simp add: lower_digit ascii_def lowercase_def) (simp add: lower_byte_def)
  show "contains (lowercase (ascii '' STUN error '' @ [x, y, z])) ''stun error 437'' \<longleftrightarrow> x = 52 \<and> y = 51 \<and> z = 55"
    and "contains (lowercase (ascii '' STUN error '' @ [x, y, z])) ''stun error 400'' \<longleftrightarrow> x = 52 \<and> y = 48 \<and> z = 48"
    and "\<not> contains (lowercase (ascii '' STUN error '' @ [x, y, z])) ''channelbind''"
    unfolding l using assms(1,3,5) by (auto simp: sublist_code prefix_code ascii_def)
qed

lemma method_text:
  "\<not> contains (lowercase (ascii ''TURN '' @ method_name m @ ascii '' failed'')) ''stun error 437''"
  "\<not> contains (lowercase (ascii ''TURN '' @ method_name m @ ascii '' failed'')) ''stun error 400''"
  "contains (lowercase (ascii ''TURN '' @ method_name m @ ascii '' failed'')) ''channelbind'' \<longleftrightarrow> m = METHOD_CHANNEL_BIND"
  by (simp_all add: method_name_def text_simps method_defs)

text \<open>The status values of the core.\<close>

definition native_statuses :: "int set" where
  "native_statuses = {0, RESULT_EMPTY, RESULT_BUFFER_TOO_SMALL, RESULT_INVALID_ARGUMENT, RESULT_CLOSED,
     RESULT_NOT_CONTROL, RESULT_TIMEOUT, RESULT_AUTHENTICATION, RESULT_PROTOCOL}"

lemma status_texts:
  "native_status_text 0 = ascii ''success (0)''"
  "native_status_text RESULT_EMPTY = ascii ''empty (-1)''"
  "native_status_text RESULT_BUFFER_TOO_SMALL = ascii ''buffer too small (-2)''"
  "native_status_text RESULT_INVALID_ARGUMENT = ascii ''invalid argument (-3)''"
  "native_status_text RESULT_CLOSED = ascii ''closed (-4)''"
  "native_status_text RESULT_NOT_CONTROL = ascii ''not a TURN control response (-5)''"
  "native_status_text RESULT_TIMEOUT = ascii ''request timeout (-6)''"
  "native_status_text RESULT_AUTHENTICATION = ascii ''response authentication failed (-7)''"
  "native_status_text RESULT_PROTOCOL = ascii ''TURN protocol error (-8)''"
  by (simp_all add: native_status_text_def result_defs ascii_def show_int_def decimal.simps)

lemma status_text:
  assumes "status \<in> native_statuses"
  shows "\<not> contains (lowercase (32 # native_status_text status)) ''stun error 437''"
    and "\<not> contains (lowercase (32 # native_status_text status)) ''stun error 400''"
    and "\<not> contains (lowercase (32 # native_status_text status)) ''channelbind''"
proof -
  have "\<not> contains (lowercase (32 # native_status_text status)) ''stun error 437''
    \<and> \<not> contains (lowercase (32 # native_status_text status)) ''stun error 400''
    \<and> \<not> contains (lowercase (32 # native_status_text status)) ''channelbind''"
    using assms unfolding native_statuses_def insert_iff empty_iff
    by (elim disjE) (simp_all add: status_texts text_simps)
  then show "\<not> contains (lowercase (32 # native_status_text status)) ''stun error 437''"
    and "\<not> contains (lowercase (32 # native_status_text status)) ''stun error 400''"
    and "\<not> contains (lowercase (32 # native_status_text status)) ''channelbind''" by blast+
qed

lemma no_separator:
  "58 \<notin> set (ascii ''stun error 437'')" "58 \<notin> set (ascii ''stun error 400'')" "58 \<notin> set (ascii ''channelbind'')"
  "59 \<notin> set (ascii ''stun error 437'')" "59 \<notin> set (ascii ''stun error 400'')" "59 \<notin> set (ascii ''channelbind'')"
  "10 \<notin> set (ascii ''stun error 437'')" "10 \<notin> set (ascii ''stun error 400'')" "10 \<notin> set (ascii ''channelbind'')"
  by (simp_all add: ascii_def)

lemma context_text:
  "\<not> contains (lowercase (ascii ''TURN allocation receive'')) ''stun error 437''"
  "\<not> contains (lowercase (ascii ''TURN allocation receive'')) ''stun error 400''"
  "\<not> contains (lowercase (ascii ''TURN allocation receive'')) ''channelbind''"
  by (simp_all add: text_simps)

lemma lowercase_Cons: "lowercase (s # ys) = lower_byte s # lowercase ys"
  by (simp add: lowercase_def)

lemma request_failed_parts:
  assumes "stun_code \<noteq> 0"
  shows "request_failed m status stun_code = (ascii ''TURN '' @ method_name m @ ascii '' failed'') @ 58
     # (32 # native_status_text status) @ 59 # ascii '' STUN error '' @ show_int stun_code"
  using assms by (simp add: request_failed_def stun_suffix_def ascii_def)

lemma mismatch_text:
  assumes m: "status \<in> native_statuses" and code: "100 \<le> stun_code" "stun_code < 1000"
  shows "error_is_allocation_mismatch (add_context (ascii ''TURN allocation receive'') (turn_request_error m status stun_code))
    \<longleftrightarrow> is_allocation_mismatch_stun m stun_code"
proof -
  define n where "n = nat stun_code"
  have n: "100 \<le> n" "n < 1000" "stun_code = int n" using code by (simp_all add: n_def)
  let ?x = "word_of_nat (48 + n div 100) :: u8" and ?y = "word_of_nat (48 + n div 10 mod 10) :: u8"
    and ?z = "word_of_nat (48 + n mod 10) :: u8"
  have d: "n div 100 < 10" "n div 10 mod 10 < 10" "n mod 10 < 10" using n(2) by (simp_all add: less_mult_imp_div_less)
  have s: "show_int stun_code = [?x, ?y, ?z]"
    using n decimal_3 [OF n(1,2)] by (simp add: show_int_def)
  note b = digit_bounds [OF d(1)] digit_bounds [OF d(2)] digit_bounds [OF d(3)]
  note suffix = code_suffix [OF b(1) [THEN conjunct1] b(1) [THEN conjunct2] b(2) [THEN conjunct1] b(2) [THEN conjunct2]
      b(3) [THEN conjunct1] b(3) [THEN conjunct2]]
  note eq = digit_literal [OF d(1)] digit_literal [OF d(2)] digit_literal [OF d(3)]
  have code: "stun_code = 437 \<longleftrightarrow> n div 100 = 4 \<and> n div 10 mod 10 = 3 \<and> n mod 10 = 7"
    "stun_code = 400 \<longleftrightarrow> n div 100 = 4 \<and> n div 10 mod 10 = 0 \<and> n mod 10 = 0"
  proof -
    have "n div 10 div 10 = n div 100" by (simp flip: div_mult2_eq)
    then have dec: "n = 10 * (10 * (n div 100) + n div 10 mod 10) + n mod 10"
      by (metis mult_div_mod_eq)
    show "stun_code = 437 \<longleftrightarrow> n div 100 = 4 \<and> n div 10 mod 10 = 3 \<and> n mod 10 = 7"
    proof
      assume "stun_code = 437"
      then have "n = 437" using n(3) by simp
      then show "n div 100 = 4 \<and> n div 10 mod 10 = 3 \<and> n mod 10 = 7" by simp
    next
      assume "n div 100 = 4 \<and> n div 10 mod 10 = 3 \<and> n mod 10 = 7"
      then have "n = 437" using dec by simp
      then show "stun_code = 437" using n(3) by simp
    qed
    show "stun_code = 400 \<longleftrightarrow> n div 100 = 4 \<and> n div 10 mod 10 = 0 \<and> n mod 10 = 0"
    proof
      assume "stun_code = 400"
      then have "n = 400" using n(3) by simp
      then show "n div 100 = 4 \<and> n div 10 mod 10 = 0 \<and> n mod 10 = 0" by simp
    next
      assume "n div 100 = 4 \<and> n div 10 mod 10 = 0 \<and> n mod 10 = 0"
      then have "n = 400" using dec by simp
      then show "stun_code = 400" using n(3) by simp
    qed
  qed
  let ?chain = "lowercase (ascii ''TURN allocation receive'') @ 10 # lowercase (ascii ''TURN '' @ method_name m @ ascii '' failed'')
      @ 58 # lowercase (32 # native_status_text status) @ 59 # lowercase (ascii '' STUN error '' @ [?x, ?y, ?z])"
  have chain: "lowercase (join [10] (map ca_text (add_context (ascii ''TURN allocation receive'') (turn_request_error m status stun_code)))) = ?chain"
  proof -
    have "stun_code \<noteq> 0" using n by simp
    then show ?thesis
      by (simp add: add_context_def turn_request_error_def request_failed_parts s lowercase_Cons lower_byte_def del: of_nat_add)
  qed
  show ?thesis
    unfolding error_is_allocation_mismatch_def Let_def chain is_allocation_mismatch_stun_def
    unfolding sublist_separator [OF no_separator(1)] sublist_separator [OF no_separator(2)] sublist_separator [OF no_separator(3)]
      sublist_separator [OF no_separator(4)] sublist_separator [OF no_separator(5)] sublist_separator [OF no_separator(6)]
      sublist_separator [OF no_separator(7)] sublist_separator [OF no_separator(8)] sublist_separator [OF no_separator(9)]
      suffix
    by (simp only: suffix(3) status_text [OF m] method_text context_text code eq simp_thms) blast
qed

text \<open>
  C19: The text of a failed request tells what its code tells: whatever the method, the status and the
  three-digit STUN code, the failure the session sees, its text under the context of the receive
  path, is recognised as an allocation mismatch exactly if method and code are one.
\<close>

theorem mismatch_text_tells_the_code:
  assumes "status \<in> native_statuses" "100 \<le> stun_code" "stun_code < 1000"
  shows "error_is_allocation_mismatch (add_context (ascii ''TURN allocation receive'') (turn_request_error m status stun_code))
    \<longleftrightarrow> is_allocation_mismatch_stun m stun_code"
  by (rule mismatch_text [OF assms])

lemma mismatch_text_tells_the_code_witness:
  "error_is_allocation_mismatch (add_context (ascii ''TURN allocation receive'') (turn_request_error METHOD_CHANNEL_BIND 0 400))
   \<and> \<not> error_is_allocation_mismatch (add_context (ascii ''TURN allocation receive'') (turn_request_error METHOD_ALLOCATE 0 400))"
  using mismatch_text_tells_the_code [of 0 400 METHOD_CHANNEL_BIND] mismatch_text_tells_the_code [of 0 400 METHOD_ALLOCATE]
  by (simp add: native_statuses_def is_allocation_mismatch_stun_def method_defs)

end
