(* ===== verification/Turn_Driver.thy ===== *)
theory Turn_Driver
  imports Error_Text Turn_Safety Striped_Scheduler Packet_Buf
begin

text \<open>
  The task that drives one TURN allocation (\<open>turn.rs\<close>): the state it shares with the session,
  the pump that moves control datagrams and events out of the core, the classification of incoming
  datagrams with the ChannelData codec, and the receiving end of the session. A \<open>send\<close> of the
  socket is one answer of \<open>io\<close>, asked with the number of datagrams sent before; the mpsc channel
  to the session is its queue of documented capacity.
\<close>

section \<open>Shared state\<close>

definition INCOMING_QUEUE_CAPACITY :: nat where "INCOMING_QUEUE_CAPACITY = PACKET_POOL_PER_WORKER"
definition PROTECTED_INCOMING :: nat where "PROTECTED_INCOMING = 32"
definition CLEANUP_TIMEOUT :: duration where "CLEANUP_TIMEOUT = from_secs 35"
definition READY_CLEANUP_TIMEOUT :: duration where "READY_CLEANUP_TIMEOUT = from_secs 12"
definition EVENT_DATA_REJECTED :: u32 where "EVENT_DATA_REJECTED = 6"

record completion =
  cm_sequence :: u64
  cm_status :: int
  cm_stun_code :: int

text \<open>Why the allocation failed: a text, or the text around the address the server confirmed.\<close>

datatype reason = Message message_text | Unexpected_peer sock_addr

record driver =
  dr_state :: u32
  dr_relay :: "sock_addr option"
  dr_bound :: "u16 option"
  dr_allocate :: completion
  dr_refresh :: completion
  dr_permission :: completion
  dr_channel_bind :: completion
  dr_terminal :: "reason option"
  dr_closing :: bool
  dr_control_sent :: bool
  dr_channel :: u16
  dr_full_drops :: u64
  dr_deficit_drops :: u64
  dr_protected :: "packet_buf list"
  dr_incoming :: "packet_buf list"
  dr_owner_closed :: bool
  dr_sent :: "bytes list"

definition new_completion :: completion where
  "new_completion = \<lparr>cm_sequence = 0, cm_status = 0, cm_stun_code = 0\<rparr>"

definition new_driver :: driver where
  "new_driver = \<lparr>dr_state = 0, dr_relay = None, dr_bound = None, dr_allocate = new_completion,
     dr_refresh = new_completion, dr_permission = new_completion, dr_channel_bind = new_completion,
     dr_terminal = None, dr_closing = False, dr_control_sent = False, dr_channel = 0, dr_full_drops = 0,
     dr_deficit_drops = 0, dr_protected = [], dr_incoming = [], dr_owner_closed = False, dr_sent = []\<rparr>"

definition get_completion :: "u32 \<Rightarrow> driver \<Rightarrow> completion" where
  "get_completion m d =
     (if m = METHOD_REFRESH then dr_refresh d
      else if m = METHOD_CREATE_PERMISSION then dr_permission d
      else if m = METHOD_CHANNEL_BIND then dr_channel_bind d
      else dr_allocate d)"

definition completion_mut :: "u32 \<Rightarrow> (completion \<Rightarrow> completion) \<Rightarrow> driver \<Rightarrow> driver" where
  "completion_mut m f d =
     (if m = METHOD_ALLOCATE then d\<lparr>dr_allocate := f (dr_allocate d)\<rparr>
      else if m = METHOD_REFRESH then d\<lparr>dr_refresh := f (dr_refresh d)\<rparr>
      else if m = METHOD_CREATE_PERMISSION then d\<lparr>dr_permission := f (dr_permission d)\<rparr>
      else if m = METHOD_CHANNEL_BIND then d\<lparr>dr_channel_bind := f (dr_channel_bind d)\<rparr>
      else d)"

text \<open>The first failure stays; none is noted once the session closes the allocation.\<close>

definition fail_driver :: "reason \<Rightarrow> driver \<Rightarrow> driver" where
  "fail_driver r d =
     (if dr_closing d then d
      else if dr_terminal d = None then d\<lparr>dr_terminal := Some r\<rparr> else d)"

definition fail_turn_request :: "u32 \<Rightarrow> int \<Rightarrow> int \<Rightarrow> driver \<Rightarrow> driver" where
  "fail_turn_request m status stun_code = fail_driver (Message (request_failed m status stun_code))"

definition request_cleanup :: "driver \<Rightarrow> driver" where
  "request_cleanup d = d\<lparr>dr_closing := True, dr_channel := 0\<rparr>"

definition stash_protected :: "packet_buf \<Rightarrow> driver \<Rightarrow> driver" where
  "stash_protected p d =
     (let queue = (if PROTECTED_INCOMING \<le> length (dr_protected d) then tl (dr_protected d) else dr_protected d)
      in d\<lparr>dr_protected := queue @ [p]\<rparr>)"

definition pop_protected :: "driver \<Rightarrow> packet_buf option \<times> driver" where
  "pop_protected d =
     (case dr_protected d of [] \<Rightarrow> (None, d) | p # ps \<Rightarrow> (Some p, d\<lparr>dr_protected := ps\<rparr>))"

section \<open>The pump\<close>

datatype driver_error =
    Core_failed core_error
  | Unexpected_destination sock_addr
  | Control_send_failed
  | Bad_event_address
  | Relay_mismatch

function pump_controls ::
  "(nat \<Rightarrow> bool) \<Rightarrow> sock_addr \<Rightarrow> core \<Rightarrow> driver \<Rightarrow> driver_error option \<times> core \<times> driver" where
  "pump_controls io server c d =
     (case pull_control c of
        (Inl e, c) \<Rightarrow> (Some (Core_failed e), c, d)
      | (Inr None, c) \<Rightarrow> (None, c, d)
      | (Inr (Some (packet, destination)), c) \<Rightarrow>
          if destination \<noteq> server then (Some (Unexpected_destination destination), c, d)
          else if \<not> io (length (dr_sent d)) then (Some Control_send_failed, c, d)
          else pump_controls io server c
            (d\<lparr>dr_sent := dr_sent d @ [packet], dr_control_sent := True\<rparr>))"
  by pat_completeness auto
termination
  by (relation "measure (\<lambda>(io, server, c, d). length (tc_controls c))")
    (auto simp: pull_control_def split: list.splits if_splits)

declare pump_controls.simps [simp del]

text \<open>Flags of a pump: an unexpected \<open>DESTROYING\<close>, and the end of the rebind ladder.\<close>

type_synonym pump_flags = "bool \<times> bool"

definition event_state :: "native_event \<Rightarrow> driver \<Rightarrow> pump_flags \<Rightarrow> driver \<times> pump_flags" where
  "event_state ev d = (\<lambda>(unexpected, exhausted).
     let st = ev_state ev;
         d = (if st \<noteq> STATE_READY then d\<lparr>dr_channel := 0\<rparr> else d);
         d = d\<lparr>dr_state := st\<rparr>;
         d = (if st \<noteq> STATE_READY then d\<lparr>dr_bound := None\<rparr> else d);
         d = (if st \<ge> STATE_DEALLOCATED then d\<lparr>dr_relay := None\<rparr> else d)
     in (d, unexpected \<or> (st = STATE_DESTROYING \<and> \<not> dr_closing d), exhausted))"

definition event_complete :: "native_event \<Rightarrow> driver \<Rightarrow> driver" where
  "event_complete ev d =
     (let d = completion_mut (ev_method ev) (\<lambda>cm. \<lparr>cm_sequence = cm_sequence cm + 1,
                cm_status = ev_status ev, cm_stun_code = ev_stun_code ev\<rparr>) d;
          mismatch = is_allocation_mismatch_stun (ev_method ev) (ev_stun_code ev)
      in if (ev_status ev \<noteq> 0 \<or> ev_stun_code ev \<noteq> 0) \<and> \<not> dr_closing d
            \<and> (\<not> is_retryable_maintenance (ev_method ev) \<or> mismatch)
         then fail_turn_request (ev_method ev) (ev_status ev) (ev_stun_code ev) d else d)"

definition event_response_error :: "native_event \<Rightarrow> driver \<Rightarrow> driver" where
  "event_response_error ev d =
     (if \<not> dr_closing d \<and> is_allocation_mismatch_stun (ev_method ev) (ev_stun_code ev)
      then fail_turn_request (ev_method ev) (ev_status ev) (ev_stun_code ev) d else d)"

definition event_bound :: "sock_addr \<Rightarrow> native_event \<Rightarrow> driver \<Rightarrow> driver_error option \<times> driver" where
  "event_bound peer ev d =
     (case to_socket_addr (ev_address ev) of
        None \<Rightarrow> (Some Bad_event_address, d)
      | Some event_peer \<Rightarrow>
          (None,
           if event_peer \<noteq> peer then fail_driver (Unexpected_peer event_peer) d
           else if \<not> (0x4000 \<le> ev_channel ev \<and> ev_channel ev \<le> 0x7fff) then
             fail_driver (Message (ascii ''TURN core returned invalid channel '' @ decimal (unat (ev_channel ev)))) d
           else d\<lparr>dr_channel := ev_channel ev, dr_bound := Some (ev_channel ev)\<rparr>))"

definition event_relay :: "core \<Rightarrow> native_event \<Rightarrow> driver \<Rightarrow> driver_error option \<times> driver" where
  "event_relay c ev d =
     (case to_socket_addr (ev_address ev) of
        None \<Rightarrow> (Some Bad_event_address, d)
      | Some relay \<Rightarrow>
          (case relay_address c of
             Inl e \<Rightarrow> (Some (Core_failed e), d)
           | Inr queried \<Rightarrow>
               if queried \<noteq> relay then (Some Relay_mismatch, d)
               else (None, d\<lparr>dr_relay := Some relay\<rparr>)))"

definition handle_event ::
  "sock_addr \<Rightarrow> core \<Rightarrow> native_event \<Rightarrow> driver \<Rightarrow> pump_flags \<Rightarrow> driver_error option \<times> driver \<times> pump_flags" where
  "handle_event peer c ev d flags =
     (if ev_kind ev = EVENT_STATE then (None, event_state ev d flags)
      else if ev_kind ev = EVENT_REQUEST_COMPLETE then (None, event_complete ev d, flags)
      else if ev_kind ev = EVENT_STUN_RESPONSE_ERROR then (None, event_response_error ev d, flags)
      else if ev_kind ev = EVENT_CHANNEL_BOUND then (let (e, d) = event_bound peer ev d in (e, d, flags))
      else if ev_kind ev = EVENT_RELAY_ADDRESS then (let (e, d) = event_relay c ev d in (e, d, flags))
      else if ev_kind ev = EVENT_CONTROL_OVERFLOW then
        (None, fail_driver (Message (ascii ''TURN control output ring overflow dropped ''
            @ decimal (unat (ev_dropped ev)) @ ascii '' datagrams'')) d, flags)
      else if ev_kind ev = EVENT_DATA_REJECTED then (None, d, flags)
      else if ev_kind ev = EVENT_FORCED_DESTROY then
        (None, if dr_closing d then d else fail_driver (Message (ascii ''TURN core was force-destroyed'')) d, flags)
      else if ev_kind ev = EVENT_CHANNEL_REBIND_EXHAUSTED then (None, d, fst flags, True)
      else if ev_kind ev = EVENT_EVENT_OVERFLOW then
        (None, fail_driver (Message (ascii ''TURN event ring overflow dropped ''
            @ decimal (unat (ev_dropped ev)) @ ascii '' events'')) d, flags)
      else (None, fail_driver (Message (ascii ''TURN core returned unknown event '' @ decimal (unat (ev_kind ev)))) d, flags))"

function pump_events ::
  "sock_addr \<Rightarrow> core \<Rightarrow> driver \<Rightarrow> pump_flags \<Rightarrow> driver_error option \<times> core \<times> driver \<times> pump_flags" where
  "pump_events peer c d flags =
     (case pull_event c of
        (None, c) \<Rightarrow> (None, c, d, flags)
      | (Some ev, c) \<Rightarrow>
          (case handle_event peer c ev d flags of
             (Some e, d, flags) \<Rightarrow> (Some e, c, d, flags)
           | (None, d, flags) \<Rightarrow> pump_events peer c d flags))"
  by pat_completeness auto
termination
  by (relation "measure (\<lambda>(peer, c, d, flags). length (tc_events c))")
    (auto simp: pull_event_def split: list.splits)

declare pump_events.simps [simp del]

definition pump_native ::
  "turn_env \<Rightarrow> instant \<Rightarrow> (nat \<Rightarrow> bool) \<Rightarrow> sock_addr \<Rightarrow> sock_addr \<Rightarrow> core \<Rightarrow> driver \<Rightarrow>
   (driver_error + duration option) \<times> core \<times> driver" where
  "pump_native env now io server peer c d =
     (case poll env now c of
        (Inl e, c) \<Rightarrow> (Inl (Core_failed e), c, d)
      | (Inr next_timer, c) \<Rightarrow>
        (case pump_controls io server c d of
           (Some e, c, d) \<Rightarrow> (Inl e, c, d)
         | (None, c, d) \<Rightarrow>
           (case pump_events peer c d (False, False) of
              (Some e, c, d, flags) \<Rightarrow> (Inl e, c, d)
            | (None, c, d, unexpected_destroy, channel_rebind_exhausted) \<Rightarrow>
                (Inr next_timer, c,
                 if unexpected_destroy \<and> dr_terminal d = None then
                   fail_driver (Message
                     (if channel_rebind_exhausted then ascii ''TURN channel rebind retry exhausted''
                      else ascii ''TURN allocation entered DESTROYING unexpectedly'')) d
                 else d))))"

section \<open>Datagrams\<close>

definition channel_data_header :: "bytes \<Rightarrow> (u16 \<times> nat) option" where
  "channel_data_header wire =
     (if length wire < 4 \<or> (wire ! 0) AND 0xc0 \<noteq> 0x40 then None
      else
        let channel = from_be16 [wire ! 0, wire ! 1];
            payload_length = unat (from_be16 [wire ! 2, wire ! 3])
        in if \<not> (0x4000 \<le> channel \<and> channel \<le> 0x7fff) then None
           else if payload_length > length wire - 4 then None
           else if length wire - 4 - payload_length > 3 then None
           else Some (channel, payload_length))"

definition is_stun :: "bytes \<Rightarrow> bool" where
  "is_stun wire \<longleftrightarrow> 20 \<le> length wire \<and> (wire ! 0) AND 0xc0 = 0 \<and> sub wire 4 8 = [0x21, 0x12, 0xa4, 0x42]"

datatype channel_error = Bad_channel | Payload_too_large | Channel_data_exceeds_buffer | Packet_failed packet_error

definition channel_data_padding :: "packet_buf \<Rightarrow> u16 \<Rightarrow> channel_error + nat" where
  "channel_data_padding p channel =
     (if \<not> (0x4000 \<le> channel \<and> channel \<le> 0x7fff) then Inl Bad_channel
      else if pb_len p > 2 ^ 16 - 1 then Inl Payload_too_large
      else
        let padding = (4 - pb_len p mod 4) mod 4
        in if pb_start p < 4 \<or> 2 ^ 64 \<le> pb_end p + padding \<or> pb_end p + padding > PACKET_CAPACITY
           then Inl Channel_data_exceeds_buffer else Inr padding)"

definition write_at :: "nat \<Rightarrow> bytes \<Rightarrow> packet_buf \<Rightarrow> packet_buf" where
  "write_at off bs p = p\<lparr>pb_storage := put off bs (pb_storage p)\<rparr>"

definition encode_channel_data :: "packet_buf \<Rightarrow> u16 \<Rightarrow> channel_error + packet_buf" where
  "encode_channel_data p channel =
     (case channel_data_padding p channel of
        Inl e \<Rightarrow> Inl e
      | Inr padding \<Rightarrow>
          let payload_length = pb_len p in
          (case extend_tail padding p of
             Inl e \<Rightarrow> Inl (Packet_failed e)
           | Inr q \<Rightarrow>
               let q = write_at (pb_end p) (replicate padding 0) q in
               (case prepend 4 q of
                  Inl e \<Rightarrow> Inl (Packet_failed e)
                | Inr q \<Rightarrow>
                    Inr (write_at (pb_start q)
                      (to_be16 channel @ to_be16 (word_of_nat payload_length)) q))))"

datatype packet_action = Wait | Pump | Owner_closed

definition process_packet ::
  "turn_env \<Rightarrow> instant \<Rightarrow> packet_buf \<Rightarrow> core \<Rightarrow> driver \<Rightarrow> packet_action \<times> core \<times> driver" where
  "process_packet env now p c d =
     (let wire = pb_slice p in
      case channel_data_header wire of
        Some (channel, payload_length) \<Rightarrow>
          if channel \<noteq> dr_channel d then (Wait, c, d)
          else
            (case (case trim_front 4 p of Inl e \<Rightarrow> Inl e | Inr q \<Rightarrow> pb_truncate payload_length q) of
               Inl _ \<Rightarrow> (Wait, c, d)
             | Inr q \<Rightarrow>
                 if dr_owner_closed d then (Owner_closed, c, d)
                 else if length (dr_incoming d) < INCOMING_QUEUE_CAPACITY then
                   (Wait, c, d\<lparr>dr_incoming := dr_incoming d @ [q]\<rparr>)
                 else if keep_under_pressure (pb_slice q) then (Wait, c, stash_protected q d)
                 else (Wait, c, d\<lparr>dr_full_drops := dr_full_drops d + 1\<rparr>))
      | None \<Rightarrow>
          if is_stun wire then (Pump, snd (input_stun env now wire c), d) else (Wait, c, d))"

definition process_deficit_packet ::
  "turn_env \<Rightarrow> instant \<Rightarrow> bytes \<Rightarrow> core \<Rightarrow> driver \<Rightarrow> packet_action \<times> core \<times> driver" where
  "process_deficit_packet env now wire c d =
     (case channel_data_header wire of
        Some (channel, _) \<Rightarrow>
          (Wait, c, if channel = dr_channel d then d\<lparr>dr_deficit_drops := dr_deficit_drops d + 1\<rparr> else d)
      | None \<Rightarrow>
          if is_stun wire then (Pump, snd (input_stun env now wire c), d) else (Wait, c, d))"

section \<open>The session's side\<close>

text \<open>One poll of \<open>recv\<close>: pending is \<open>None\<close>.\<close>

definition receiver_recv :: "driver \<Rightarrow> (reason + packet_buf) option \<times> driver" where
  "receiver_recv d =
     (case dr_terminal d of
        Some r \<Rightarrow> (Some (Inl r), d)
      | None \<Rightarrow>
          (case pop_protected d of
             (Some p, d) \<Rightarrow> (Some (Inr p), d)
           | (None, d) \<Rightarrow>
               (case dr_incoming d of
                  p # ps \<Rightarrow> (Some (Inr p), d\<lparr>dr_incoming := ps\<rparr>)
                | [] \<Rightarrow> (None, d))))"

definition ensure_open :: "driver \<Rightarrow> reason option" where
  "ensure_open d =
     (if dr_closing d then Some (Message (ascii ''TURN allocation closing'')) else dr_terminal d)"

text \<open>
  One look of \<open>wait_for_completion\<close> at the snapshot; \<open>None\<close> waits for the next change. How an
  address is displayed is the argument \<open>show_addr\<close>.
\<close>

definition reason_text :: "(sock_addr \<Rightarrow> message_text) \<Rightarrow> reason \<Rightarrow> message_text" where
  "reason_text show_addr r = (case r of Message s \<Rightarrow> s
     | Unexpected_peer a \<Rightarrow> ascii ''TURN ChannelBind confirmed unexpected peer '' @ show_addr a)"

definition check_completion :: "(sock_addr \<Rightarrow> message_text) \<Rightarrow> u32 \<Rightarrow> u64 \<Rightarrow> driver \<Rightarrow> (error_chain + unit) option" where
  "check_completion show_addr m baseline d =
     (let cm = get_completion m d in
      if cm_sequence cm > baseline then
        Some (if cm_status cm = 0 \<and> cm_stun_code cm = 0 then Inr ()
              else Inl (turn_request_error m (cm_status cm) (cm_stun_code cm)))
      else
        (case dr_terminal d of
           Some r \<Rightarrow> Some (Inl [\<lparr>ca_text = reason_text show_addr r, ca_type = Plain\<rparr>])
         | None \<Rightarrow> None))"

section \<open>Cleanup and wake-up\<close>

definition start_driver_cleanup ::
  "turn_env \<Rightarrow> instant \<Rightarrow> instant option \<Rightarrow> bool \<Rightarrow> u32 \<Rightarrow> core \<Rightarrow> (instant \<times> bool) \<times> (instant option \<times> bool \<times> core)" where
  "start_driver_cleanup env now cleanup_deadline shutdown_requested st c =
     (let timeout = (if st \<ge> STATE_READY then READY_CLEANUP_TIMEOUT else CLEANUP_TIMEOUT);
          proposed = now + timeout;
          deadline = (case cleanup_deadline of None \<Rightarrow> proposed | Some d \<Rightarrow> d);
          deadline = (if proposed < deadline then proposed else deadline)
      in ((deadline, \<not> shutdown_requested),
          (Some deadline, True, if shutdown_requested then c else snd (graceful_shutdown env now c))))"

definition observe_wake :: "u64 \<Rightarrow> duration \<Rightarrow> instant \<Rightarrow> u64 \<Rightarrow> core \<Rightarrow> bool \<times> u64 \<times> core" where
  "observe_wake current gap now seen_epoch c =
     (if current = seen_epoch then (False, seen_epoch, c)
      else (True, current, snd (resync_after_suspend gap now c)))"

text \<open>
  What the loops do around a pump: an error is noted as the failure and closes the allocation.
  \<open>describe\<close> is the alternate format of the error.
\<close>

definition driver_pump ::
  "(driver_error \<Rightarrow> message_text) \<Rightarrow> turn_env \<Rightarrow> instant \<Rightarrow> (nat \<Rightarrow> bool) \<Rightarrow> sock_addr \<Rightarrow> sock_addr \<Rightarrow>
   core \<Rightarrow> driver \<Rightarrow> core \<times> driver" where
  "driver_pump describe env now io server peer c d =
     (case pump_native env now io server peer c d of
        (Inr _, c, d) \<Rightarrow> (c, d)
      | (Inl e, c, d) \<Rightarrow> (c, request_cleanup (fail_driver (Message (describe e)) d)))"

section \<open>ChannelData\<close>

lemma channel_data_slice:
  assumes wf: "wf_packet p" and enc: "encode_channel_data p channel = Inr q"
  obtains padding where "pb_slice q = to_be16 channel @ to_be16 (word_of_nat (pb_len p)) @ pb_slice p @ replicate padding 0"
    "padding < 4" "0x4000 \<le> channel" "channel \<le> 0x7fff" "pb_len p < 2 ^ 16"
proof -
  let ?s = "pb_start p" and ?e = "pb_end p" and ?st = "pb_storage p"
  define n where "n = (4 - pb_len p mod 4) mod 4"
  have wf': "length ?st = PACKET_CAPACITY" "?s \<le> ?e" "?e \<le> PACKET_CAPACITY" using wf by (simp_all add: wf_packet_def)
  have pad: "channel_data_padding p channel = Inr n" and ch: "0x4000 \<le> channel" "channel \<le> 0x7fff" "pb_len p \<le> 2 ^ 16 - 1"
    and room: "4 \<le> ?s" "?e + n \<le> PACKET_CAPACITY"
    using enc by (auto simp: encode_channel_data_def channel_data_padding_def n_def Let_def split: if_splits)
  have cap: "?e + n < 2 ^ 64" using room(2) by (simp add: PACKET_CAPACITY_def)
  let ?h = "to_be16 channel @ to_be16 (word_of_nat (pb_len p))"
  define st where "st = put (?s - 4) ?h (put ?e (replicate n 0) ?st)"
  have q: "q = p\<lparr>pb_end := ?e + n, pb_start := ?s - 4, pb_storage := st\<rparr>"
    using enc pad room cap
    by (simp add: encode_channel_data_def extend_tail_def prepend_def write_at_def st_def Let_def)
  have split: "?st = take (?s - 4) ?st @ sub ?st (?s - 4) ?s @ sub ?st ?s ?e @ sub ?st ?e (?e + n) @ drop (?e + n) ?st"
    using wf' room by (simp add: sub_drop take_sub flip: append_assoc)
  let ?A = "take (?s - 4) ?st" and ?B = "sub ?st (?s - 4) ?s" and ?C = "sub ?st ?s ?e" and ?D = "drop (?e + n) ?st"
  have la: "length ?A = ?s - 4" "length ?B = 4" "length ?C = ?e - ?s" "length (sub ?st ?e (?e + n)) = n"
    using wf' room by simp_all
  have "put ?e (replicate n 0) ?st = (?A @ ?B @ ?C) @ replicate n 0 @ ?D"
    by (subst split, subst put_append [where xs = "?A @ ?B @ ?C" and ys = "sub ?st ?e (?e + n)" and zs = ?D, symmetric])
      (use la wf' room in simp_all)
  then have "st = ?A @ ?h @ (?C @ replicate n 0 @ ?D)"
    unfolding st_def using la
    by (simp only: append_assoc) (subst put_append [where xs = ?A and ys = ?B], simp_all)
  then have "sub st (?s - 4) (?e + n) = ?h @ ?C @ replicate n 0"
    using la wf'(2) room(1) sub_append [of "?s - 4" ?A "?e + n" "?h @ ?C @ replicate n 0" ?D] by simp
  then have "pb_slice q = to_be16 channel @ to_be16 (word_of_nat (pb_len p)) @ pb_slice p @ replicate n 0"
    by (simp add: q pb_slice_def)
  moreover have "n < 4" by (simp add: n_def)
  ultimately show ?thesis using that ch by simp
qed

lemma channel_top_bits:
  assumes "64 \<le> unat x" "unat x < 128"
  shows "(x :: u8) AND 0xc0 = 0x40"
proof -
  have "\<forall>n\<in>set [64..<128]. (word_of_nat n :: u8) AND 0xc0 = 0x40" by (simp add: upt_rec)
  moreover have "unat x \<in> set [64..<128]" using assms by (simp only: set_upt atLeastLessThan_iff)
  ultimately have "(word_of_nat (unat x) :: u8) AND 0xc0 = 0x40" by blast
  then show ?thesis by simp
qed

lemma channel_header_of:
  assumes "0x4000 \<le> channel" "channel \<le> 0x7fff" "length payload < 2 ^ 16" "padding < 4"
  shows "channel_data_header (to_be16 channel @ to_be16 (word_of_nat (length payload)) @ payload @ replicate padding 0)
    = Some (channel, length payload)"
proof -
  obtain a b where ab: "to_be16 channel = [a, b]" using length_2 length_to_be(1) by metis
  obtain x y where xy: "to_be16 (word_of_nat (length payload)) = [x, y]" using length_2 length_to_be(1) by metis
  have ch: "from_be16 [a, b] = channel" "from_be16 [x, y] = word_of_nat (length payload)" using ab xy by (metis from_to_be16)+
  have "unat channel = nat_of_be [a, b]"
    using ch(1) nat_of_be_bound [of "[a, b]"] by (auto simp: from_be16_def unat_of_nat)
  then have "unat channel = unat a * 256 + unat b" using nat_of_be_snoc [of "[a]" b] nat_of_be_snoc [of "[]" a] by simp
  moreover have "0x4000 \<le> unat channel" "unat channel \<le> 0x7fff" using assms(1,2) by (simp_all add: word_le_nat_alt)
  ultimately have "64 \<le> unat a" "unat a < 128" using unat_byte_less [of b] by linarith+
  then have "a AND 0xc0 = 0x40" by (rule channel_top_bits)
  moreover have "unat (word_of_nat (length payload) :: u16) = length payload" using assms(3) by (simp add: unat_of_nat)
  ultimately show ?thesis
    using assms ch by (simp add: channel_data_header_def ab xy Let_def)
qed

text \<open>
  What one end of a channel sends, the other end's driver hands on: the ChannelData message
  \<open>encode_channel_data\<close> makes of a packet, received into any buffer on the bound channel with room
  in the queue, is delivered to the session as the packet's bytes, without header and padding.
\<close>

theorem channel_data_is_delivered:
  assumes "wf_packet p" "encode_channel_data p channel = Inr q"
    and "wf_packet r" "pb_slice r = pb_slice q"
    and "dr_channel d = channel" "\<not> dr_owner_closed d" "length (dr_incoming d) < INCOMING_QUEUE_CAPACITY"
  shows "\<exists>u. process_packet env now r c d = (Wait, c, d\<lparr>dr_incoming := dr_incoming d @ [u]\<rparr>) \<and> pb_slice u = pb_slice p"
proof -
  obtain padding where q: "pb_slice q = to_be16 channel @ to_be16 (word_of_nat (pb_len p)) @ pb_slice p @ replicate padding 0"
    and b: "padding < 4" "0x4000 \<le> channel" "channel \<le> 0x7fff" "pb_len p < 2 ^ 16"
    by (rule channel_data_slice [OF assms(1,2)])
  have l: "length (pb_slice p) = pb_len p" "length (pb_slice r) = pb_len r"
    using assms(1,3) by (simp_all add: wf_packet_def pb_slice_def pb_len_def)
  have h: "channel_data_header (pb_slice r) = Some (channel, pb_len p)"
    using channel_header_of [of channel "pb_slice p" padding] b l(1) q assms(4) by simp
  have len: "pb_len r = 4 + pb_len p + padding" using l q assms(4) by simp
  obtain t where t: "trim_front 4 r = Inr t" using len by (simp add: trim_front_def)
  have ts: "pb_slice t = pb_slice p @ replicate padding 0"
    using trim_front_slice [OF t] q assms(4) by simp
  have "pb_len t = pb_len p + padding" using t len by (auto simp: trim_front_def pb_len_def split: if_splits)
  then obtain u where u: "pb_truncate (pb_len p) t = Inr u" by (simp add: pb_truncate_def)
  have "pb_slice u = pb_slice p" using truncate_slice [OF u] ts l(1) by simp
  then show ?thesis using h t u assms(5-7) by (intro exI [of _ u]) (simp add: process_packet_def Let_def)
qed

lemma channel_data_is_delivered_witness:
  "\<exists>q u. encode_channel_data \<lparr>pb_storage = replicate 2304 7, pb_start = 64, pb_end = 65\<rparr> 0x4000 = Inr q
     \<and> process_packet example_env 0 q fresh_core (new_driver\<lparr>dr_channel := 0x4000\<rparr>)
         = (Wait, fresh_core, (new_driver\<lparr>dr_channel := 0x4000\<rparr>)\<lparr>dr_incoming := [u]\<rparr>)
     \<and> pb_slice u = [7]"
proof -
  let ?p = "\<lparr>pb_storage = replicate 2304 7, pb_start = 64, pb_end = 65\<rparr>"
  have wf: "wf_packet ?p" by (simp add: wf_packet_def PACKET_CAPACITY_def)
  have slice: "pb_slice ?p = [7]" by (simp add: pb_slice_def sub_def numeral_eq_Suc)
  obtain q where q: "encode_channel_data ?p 0x4000 = Inr q" "wf_packet q"
    by (simp add: encode_channel_data_def channel_data_padding_def extend_tail_def prepend_def write_at_def
        wf_packet_def PACKET_CAPACITY_def pb_len_def Let_def)
  then show ?thesis
    using channel_data_is_delivered [OF wf q(1,2) refl, of "new_driver\<lparr>dr_channel := 0x4000\<rparr>" example_env 0 fresh_core] slice
    by (auto simp: new_driver_def INCOMING_QUEUE_CAPACITY_def PACKET_POOL_PER_WORKER_def)
qed

end
