(* ===== verification/Turn_Mirror.thy ===== *)
theory Turn_Mirror
  imports Turn_Driver
begin

text \<open>
  The driver's snapshot refines the state of the core: whatever calls the session, the datagrams and
  the driver make in whatever order, after a pump the snapshot shows the state the core is in, unless
  the allocation has failed or is closing.
\<close>

section \<open>The events in the queue\<close>

definition overflowed :: "native_event list \<Rightarrow> bool" where
  "overflowed evs \<longleftrightarrow> (\<exists>ev\<in>set evs. ev_kind ev = EVENT_EVENT_OVERFLOW)"

definition apply_state :: "native_event \<Rightarrow> u32 \<Rightarrow> u32" where
  "apply_state ev st = (if ev_kind ev = EVENT_STATE then ev_state ev else st)"

text \<open>From \<open>st\<close> the queued events lead to the state of the core, or one of them tells of a loss.\<close>

definition tracks :: "u32 \<Rightarrow> core \<Rightarrow> bool" where
  "tracks st c \<longleftrightarrow> overflowed (tc_events c) \<or> fold apply_state (tc_events c) st = tc_state c"

lemma tracks_fields [simp]:
  "tracks st (c\<lparr>tc_controls := a1\<rparr>) = tracks st c" "tracks st (c\<lparr>tc_pending := a2\<rparr>) = tracks st c"
  "tracks st (c\<lparr>tc_channel := a3\<rparr>) = tracks st c" "tracks st (c\<lparr>tc_allocation_refresh := a4\<rparr>) = tracks st c"
  "tracks st (c\<lparr>tc_allocation_expires_at := a5\<rparr>) = tracks st c" "tracks st (c\<lparr>tc_maintenance_refresh := a6\<rparr>) = tracks st c"
  "tracks st (c\<lparr>tc_permission_retry := a7\<rparr>) = tracks st c" "tracks st (c\<lparr>tc_channel_retry := a8\<rparr>) = tracks st c"
  "tracks st (c\<lparr>tc_keepalive := a9\<rparr>) = tracks st c" "tracks st (c\<lparr>tc_relay := b1\<rparr>) = tracks st c"
  "tracks st (c\<lparr>tc_refresh_failures := b2\<rparr>) = tracks st c" "tracks st (c\<lparr>tc_permission_failures := b3\<rparr>) = tracks st c"
  "tracks st (c\<lparr>tc_channel_failures := b4\<rparr>) = tracks st c" "tracks st (c\<lparr>tc_shutting_down := b5\<rparr>) = tracks st c"
  "tracks st (c\<lparr>tc_destroyed := b6\<rparr>) = tracks st c" "tracks st (c\<lparr>tc_draws := b7\<rparr>) = tracks st c"
  "tracks st (c\<lparr>tc_key := b8\<rparr>) = tracks st c" "tracks st (c\<lparr>tc_realm := b9\<rparr>) = tracks st c"
  "tracks st (c\<lparr>tc_nonce := d1\<rparr>) = tracks st c"
  by (simp_all add: tracks_def)

lemma tracks_push: "tracks st c \<Longrightarrow> ev_kind ev \<noteq> EVENT_STATE \<Longrightarrow> tracks st (push_event ev c)"
  by (auto simp: tracks_def overflowed_def push_event_def apply_state_def)

lemma tracks_set_state: "tracks st c \<Longrightarrow> tracks st (set_state s c)"
  by (auto simp: tracks_def overflowed_def set_state_def push_event_def apply_state_def default_event_def)

lemmas event_kind_defs = EVENT_STATE_def EVENT_REQUEST_COMPLETE_def EVENT_CHANNEL_BOUND_def EVENT_RELAY_ADDRESS_def
  EVENT_CONTROL_OVERFLOW_def EVENT_FORCED_DESTROY_def EVENT_EVENT_OVERFLOW_def EVENT_STUN_RESPONSE_ERROR_def
  EVENT_CHANNEL_REBIND_EXHAUSTED_def EVENT_DATA_REJECTED_def

lemmas tracks_elementary = tracks_push tracks_set_state

lemma tracks_queue: "tracks st c \<Longrightarrow> tracks st (queue_packet p c)"
  by (auto simp: queue_packet_def Let_def event_kind_defs intro!: tracks_push)

lemma tracks_keepalive: "tracks st c \<Longrightarrow> tracks st (queue_keepalive c)"
  by (auto simp: queue_keepalive_def tracks_queue split: option.splits)

lemma tracks_remove_queued: "tracks st c \<Longrightarrow> tracks st (remove_queued_transaction t c)"
  by (simp add: remove_queued_transaction_def)

lemma tracks_complete: "tracks st c \<Longrightarrow> tracks st (complete op s k c)"
  by (auto simp: complete_def event_kind_defs intro!: tracks_push)

lemma tracks_set_auth: "tracks st c \<Longrightarrow> tracks st (set_auth env realm nonce c)"
  by (simp add: set_auth_def)

lemma tracks_start: "tracks st c \<Longrightarrow> tracks st (snd (start_operation env now op a n c))"
  by (auto simp: start_operation_def Let_def tracks_queue split: option.splits sum.splits)

lemma tracks_destroy: "tracks st c \<Longrightarrow> tracks st (destroy_allocation op s k c)"
  by (auto simp: destroy_allocation_def Let_def intro!: tracks_set_state tracks_complete)

lemma tracks_exhausted: "tracks st c \<Longrightarrow> tracks st (destroy_after_channel_rebind_exhausted c)"
  by (auto simp: destroy_after_channel_rebind_exhausted_def Let_def event_kind_defs intro!: tracks_set_state tracks_push)

lemma tracks_schedule: "tracks st c \<Longrightarrow> tracks st (snd (schedule_maintenance_retry op now c))"
  by (simp add: schedule_maintenance_retry_def Let_def split: operation.splits)

lemma tracks_failure: "tracks st c \<Longrightarrow> tracks st (complete_failure op s k now c)"
  by (auto simp: complete_failure_def case_prod_unfold Let_def
      intro!: tracks_destroy tracks_exhausted tracks_schedule tracks_complete)

lemma tracks_granted: "tracks st c \<Longrightarrow> tracks st (snd (allocation_granted env relay rl l now c))"
  by (auto simp: allocation_granted_def Let_def event_kind_defs
      intro!: tracks_start tracks_set_state tracks_complete tracks_push)

lemma tracks_success: "tracks st c \<Longrightarrow> tracks st (snd (complete_success env op m now c))"
  by (auto simp: complete_success_def Let_def event_kind_defs
      intro!: tracks_granted tracks_set_state tracks_complete tracks_push split: operation.splits option.splits)

lemma tracks_response_error: "tracks st c \<Longrightarrow> tracks st (response_error_event m s k c)"
  by (auto simp: response_error_event_def event_kind_defs intro!: tracks_push)

lemma tracks_startD: "start_operation env now op a n c = (e, c') \<Longrightarrow> tracks st c \<Longrightarrow> tracks st c'"
  using tracks_start [of st c env now op a n] by simp

lemma tracks_handle_error: "tracks st c \<Longrightarrow> tracks st (snd (handle_error env now p m c))"
  by (auto simp: handle_error_def Let_def event_kind_defs split: option.splits prod.splits
      intro!: tracks_failure tracks_destroy tracks_response_error tracks_push tracks_set_auth elim!: tracks_startD)

lemma tracks_handle_response: "tracks st c \<Longrightarrow> tracks st (snd (handle_response env now p m c))"
  using tracks_success [of st c env "pn_operation p" m now]
  by (auto simp: handle_response_def split: option.splits prod.splits intro!: tracks_failure tracks_handle_error)

lemma tracks_input: "tracks st c \<Longrightarrow> tracks st (snd (input_stun env now packet c))"
  by (auto simp: input_stun_def Let_def split: option.splits sum.splits stun_class.splits
      intro!: tracks_response_error tracks_handle_response tracks_remove_queued)

section \<open>The calls\<close>

lemma tracks_retransmit: "tracks st c \<Longrightarrow> tracks st (retransmit now i c)"
  by (simp add: retransmit_def Let_def tracks_queue)

lemma tracks_drop: "tracks st c \<Longrightarrow> tracks st (drop_expired now i c)"
  by (auto simp: drop_expired_def Let_def intro!: tracks_failure tracks_remove_queued)

lemma tracks_expire_transactions: "tracks st c \<Longrightarrow> tracks st (expire_transactions now i c)"
proof (induction now i c rule: expire_transactions.induct)
  case (1 now i c)
  then show ?case
    by (subst expire_transactions.simps) (auto simp: tracks_retransmit tracks_drop Let_def)
qed

lemma tracks_poll_parts:
  "tracks st c \<Longrightarrow> tracks st (snd (poll_refresh env now c))"
  "tracks st c \<Longrightarrow> tracks st (snd (poll_permission env now due_now c))"
  "tracks st c \<Longrightarrow> tracks st (snd (poll_channel env now due_now c))"
  "tracks st c \<Longrightarrow> tracks st (poll_keepalive now c)"
  "tracks st c \<Longrightarrow> tracks st (expire_allocation now c)"
  by (auto simp: poll_refresh_def poll_permission_def poll_channel_def poll_keepalive_def expire_allocation_def
      intro!: tracks_start tracks_keepalive tracks_destroy)

lemma tracks_maintenance: "tracks st c \<Longrightarrow> tracks st (snd (poll_maintenance env now c))"
  using tracks_poll_parts(1) [of st c env now]
  by (auto simp: poll_maintenance_def Let_def split: prod.splits option.splits)
    (metis tracks_poll_parts(2-4) snd_conv tracks_fields(6))+

lemma tracks_poll:
  assumes "tracks st c"
  shows "tracks st (snd (poll env now c))"
proof -
  let ?c = "expire_allocation now (expire_transactions now 0 c)"
  have "tracks st ?c" using assms by (intro tracks_poll_parts tracks_expire_transactions)
  moreover have "tracks st (snd (poll_maintenance env now ?c))"
    using calculation by (rule tracks_maintenance)
  ultimately show ?thesis
    using assms by (auto simp: poll_def Let_def split: option.splits prod.splits)
qed

lemma tracks_calls:
  "tracks st c \<Longrightarrow> tracks st (snd (start_allocation env now c))"
  "tracks st c \<Longrightarrow> tracks st (snd (start_channel env now c))"
  "tracks st c \<Longrightarrow> tracks st (snd (start_permission env now c))"
  "tracks st c \<Longrightarrow> tracks st (snd (resync_after_suspend gap now c))"
  "tracks st c \<Longrightarrow> tracks st (snd (graceful_shutdown env now c))"
  "tracks st c \<Longrightarrow> tracks st (force_destroy status c)"
  "tracks st c \<Longrightarrow> tracks st (snd (pull_control c))"
  by (auto simp: start_allocation_def start_channel_def start_permission_def resync_after_suspend_def
      graceful_shutdown_def force_destroy_def pull_control_def Let_def event_kind_defs
      intro!: tracks_start tracks_set_state tracks_destroy tracks_push split: option.splits list.splits)

lemma tracks_step:
  assumes "turn_step env c (now, call) c'" "call \<noteq> Pull_event" "tracks st c"
  shows "tracks st c'"
  using assms
  by (cases rule: turn_step.cases) (auto intro: tracks_calls tracks_input tracks_poll)

section \<open>The pump\<close>

definition mirror :: "core \<Rightarrow> driver \<Rightarrow> bool" where
  "mirror c d \<longleftrightarrow> dr_closing d \<or> dr_terminal d \<noteq> None \<or> tracks (dr_state d) c"

lemma fail_driver_fields [simp]:
  "dr_state (fail_driver r d) = dr_state d" "dr_closing (fail_driver r d) = dr_closing d"
  "dr_channel (fail_driver r d) = dr_channel d" "dr_protected (fail_driver r d) = dr_protected d"
  "dr_incoming (fail_driver r d) = dr_incoming d"
  by (simp_all add: fail_driver_def)

lemma fail_driver_sticky: "dr_terminal d \<noteq> None \<Longrightarrow> dr_terminal (fail_driver r d) = dr_terminal d"
  by (auto simp: fail_driver_def)

lemma fail_driver_failed: "dr_closing d \<or> dr_terminal (fail_driver r d) \<noteq> None"
  by (simp add: fail_driver_def)

lemma completion_mut_fields [simp]:
  "dr_state (completion_mut m f d) = dr_state d" "dr_closing (completion_mut m f d) = dr_closing d"
  "dr_terminal (completion_mut m f d) = dr_terminal d" "dr_protected (completion_mut m f d) = dr_protected d"
  "dr_incoming (completion_mut m f d) = dr_incoming d"
  by (simp_all add: completion_mut_def)

lemma handle_event_effect:
  assumes "handle_event peer c ev d flags = (e, d', flags')"
  shows "dr_state d' = apply_state ev (dr_state d) \<and> dr_closing d' = dr_closing d
    \<and> (dr_terminal d \<noteq> None \<longrightarrow> dr_terminal d' = dr_terminal d)
    \<and> (ev_kind ev = EVENT_EVENT_OVERFLOW \<longrightarrow> dr_closing d' \<or> dr_terminal d' \<noteq> None)
    \<and> dr_protected d' = dr_protected d \<and> dr_incoming d' = dr_incoming d"
  using assms
  by (auto simp: handle_event_def apply_state_def event_kind_defs event_state_def event_complete_def
      event_response_error_def event_bound_def event_relay_def fail_turn_request_def Let_def
      fail_driver_sticky fail_driver_def
      split: if_splits option.splits sum.splits prod.splits)

lemma pull_event_cases:
  "pull_event c = (case tc_events c of [] \<Rightarrow> (None, c) | ev # evs \<Rightarrow> (Some ev, c\<lparr>tc_events := evs\<rparr>))"
  by (simp add: pull_event_def)

lemma pump_events_effect:
  "pump_events peer c d flags = (e, c', d', flags') \<Longrightarrow> mirror c d \<Longrightarrow>
     mirror c' d' \<and> tc_state c' = tc_state c \<and> dr_closing d' = dr_closing d
     \<and> (dr_terminal d \<noteq> None \<longrightarrow> dr_terminal d' = dr_terminal d)
     \<and> (e = None \<longrightarrow> tc_events c' = [])
     \<and> dr_protected d' = dr_protected d \<and> dr_incoming d' = dr_incoming d"
proof (induction peer c d flags rule: pump_events.induct)
  case (1 peer c d flags)
  show ?case
  proof (cases "tc_events c")
    case Nil
    then show ?thesis using 1(2,3)
      by (simp add: pump_events.simps [of peer c d flags] pull_event_def)
  next
    case (Cons ev evs)
    let ?c = "c\<lparr>tc_events := evs\<rparr>"
    obtain e1 d1 f1 where h: "handle_event peer ?c ev d flags = (e1, d1, f1)" by (metis prod_cases3)
    have pull: "pull_event c = (Some ev, ?c)" using Cons by (simp add: pull_event_def)
    note eff = handle_event_effect [OF h]
    have m: "mirror ?c d1"
      using 1(3) Cons eff by (auto simp: mirror_def tracks_def overflowed_def)
    show ?thesis
    proof (cases e1)
      case (Some x)
      then show ?thesis using 1(2) m eff
        by (auto simp: pump_events.simps [of peer c d flags] pull h)
    next
      case None
      then have "pump_events peer ?c d1 f1 = (e, c', d', flags')"
        using 1(2) by (simp add: pump_events.simps [of peer c d flags] pull h)
      from 1(1) [OF pull [symmetric] refl _ _ _ this m] None h eff show ?thesis by auto
    qed
  qed
qed

lemma pump_controls_effect:
  "pump_controls io server c d = (e, c', d') \<Longrightarrow>
     tc_events c' = tc_events c \<and> tc_state c' = tc_state c \<and> dr_state d' = dr_state d \<and> dr_closing d' = dr_closing d
     \<and> dr_terminal d' = dr_terminal d \<and> dr_protected d' = dr_protected d \<and> dr_incoming d' = dr_incoming d"
proof (induction io server c d rule: pump_controls.induct)
  case (1 io server c d)
  show ?case
  proof (cases "tc_controls c")
    case Nil
    then show ?thesis using 1(2) by (simp add: pump_controls.simps [of io server c d] pull_control_def)
  next
    case (Cons ct cts)
    let ?c = "c\<lparr>tc_controls := cts\<rparr>" and ?d = "d\<lparr>dr_sent := dr_sent d @ [ct_packet ct], dr_control_sent := True\<rparr>"
    show ?thesis
    proof (cases "length (ct_packet ct) > 1024 \<or> ct_destination ct \<noteq> server \<or> \<not> io (length (dr_sent d))")
      case True
      then show ?thesis using 1(2) Cons
        by (auto simp: pump_controls.simps [of io server c d] pull_control_def split: if_splits)
    next
      case False
      then have pull: "pull_control c = (Inr (Some (ct_packet ct, ct_destination ct)), ?c)"
        using Cons by (simp add: pull_control_def)
      have "pump_controls io server ?c ?d = (e, c', d')"
        using 1(2) False by (simp add: pump_controls.simps [of io server c d] pull)
      then show ?thesis
        using 1(1) [OF pull [symmetric] refl refl refl] False by simp
    qed
  qed
qed

lemma pump_native_effect:
  assumes "pump_native env now io server peer c d = (r, c', d')" "mirror c d"
  shows "mirror c' d' \<and> (dr_terminal d \<noteq> None \<longrightarrow> dr_terminal d' = dr_terminal d)
    \<and> dr_protected d' = dr_protected d \<and> dr_incoming d' = dr_incoming d
    \<and> (\<forall>t. r = Inr t \<longrightarrow> dr_closing d' \<or> dr_terminal d' \<noteq> None \<or> dr_state d' = tc_state c')"
proof -
  obtain r1 c1 where poll: "poll env now c = (r1, c1)" by fastforce
  have m1: "mirror c1 d"
    using assms(2) tracks_poll [of "dr_state d" c env now] poll by (auto simp: mirror_def)
  show ?thesis
  proof (cases r1)
    case (Inl e)
    then show ?thesis using assms(1) m1 by (auto simp: pump_native_def poll)
  next
    case (Inr t)
    obtain e2 c2 d2 where ctl: "pump_controls io server c1 d = (e2, c2, d2)" by (metis prod_cases3)
    note eff2 = pump_controls_effect [OF ctl]
    have m2: "mirror c2 d2" using m1 eff2 by (simp add: mirror_def tracks_def)
    show ?thesis
    proof (cases e2)
      case (Some e)
      then show ?thesis using assms(1) m2 eff2 by (auto simp: pump_native_def poll Inr ctl)
    next
      case None
      obtain e3 c3 d3 u x where ev: "pump_events peer c2 d2 (False, False) = (e3, c3, d3, u, x)" by (metis prod_cases5)
      note eff3 = pump_events_effect [OF ev m2]
      show ?thesis
      proof (cases e3)
        case (Some e)
        then show ?thesis using assms(1) eff2 eff3 by (auto simp: pump_native_def poll Inr ctl None ev)
      next
        case None
        then have "tc_events c3 = []" using eff3 by simp
        then have "dr_closing d3 \<or> dr_terminal d3 \<noteq> None \<or> dr_state d3 = tc_state c3"
          using eff3 by (auto simp: mirror_def tracks_def overflowed_def)
        then show ?thesis using assms(1) eff2 eff3 fail_driver_failed [of d3]
          by (auto simp: pump_native_def poll Inr ctl \<open>e2 = None\<close> ev None mirror_def)
      qed
    qed
  qed
qed

section \<open>The driver as a system\<close>

text \<open>A stream reader without a buffer skips the frame.\<close>

definition note_dropped :: "driver \<Rightarrow> driver" where
  "note_dropped d = d\<lparr>dr_deficit_drops := dr_deficit_drops d + 1\<rparr>"

datatype driver_label =
    Core_call turn_call
  | Round "nat \<Rightarrow> bool"
  | Datagram_in packet_buf
  | Deficit_in bytes
  | Close
  | Note reason
  | Receive
  | Data_dropped

text \<open>Events and control datagrams are pulled by the pump only.\<close>

inductive driver_step ::
  "(driver_error \<Rightarrow> message_text) \<Rightarrow> turn_env \<Rightarrow> sock_addr \<Rightarrow> sock_addr \<Rightarrow>
   core \<times> driver \<Rightarrow> instant \<times> driver_label \<Rightarrow> core \<times> driver \<Rightarrow> bool"
  for describe env server peer where
  "turn_step env c (now, call) c' \<Longrightarrow> call \<notin> {Pull_event, Pull_control} \<Longrightarrow>
     driver_step describe env server peer (c, d) (now, Core_call call) (c', d)"
| "driver_step describe env server peer (c, d) (now, Round io) (driver_pump describe env now io server peer c d)"
| "driver_step describe env server peer (c, d) (now, Datagram_in p) (snd (process_packet env now p c d))"
| "driver_step describe env server peer (c, d) (now, Deficit_in wire) (snd (process_deficit_packet env now wire c d))"
| "driver_step describe env server peer (c, d) (now, Close) (c, request_cleanup d)"
| "driver_step describe env server peer (c, d) (now, Note r) (c, fail_driver r d)"
| "driver_step describe env server peer (c, d) (now, Receive) (c, snd (receiver_recv d))"
| "driver_step describe env server peer (c, d) (now, Data_dropped) (c, note_dropped d)"

definition queues_bounded :: "driver \<Rightarrow> bool" where
  "queues_bounded d \<longleftrightarrow> length (dr_protected d) \<le> PROTECTED_INCOMING
     \<and> length (dr_incoming d) \<le> INCOMING_QUEUE_CAPACITY"

definition driver_inv :: "core \<times> driver \<Rightarrow> bool" where
  "driver_inv = (\<lambda>(c, d). mirror c d \<and> queues_bounded d)"

lemma stash_bounded: "queues_bounded d \<Longrightarrow> queues_bounded (stash_protected p d)"
  by (auto simp: queues_bounded_def stash_protected_def PROTECTED_INCOMING_def Let_def)

lemma process_packet_inv:
  assumes "driver_inv (c, d)" "process_packet env now p c d = (a, c', d')"
  shows "driver_inv (c', d')"
proof -
  have q: "dr_state d' = dr_state d \<and> dr_closing d' = dr_closing d \<and> dr_terminal d' = dr_terminal d
      \<and> (c' = c \<or> c' = snd (input_stun env now (pb_slice p) c))"
    using assms(2) by (auto simp: process_packet_def stash_protected_def Let_def split: option.splits sum.splits if_splits)
  then have "mirror c' d'"
    using assms(1) tracks_input [of "dr_state d" c env now "pb_slice p"] by (auto simp: driver_inv_def mirror_def)
  moreover have "queues_bounded d'"
    using assms stash_bounded [of d]
    by (auto simp: driver_inv_def process_packet_def queues_bounded_def Let_def split: option.splits sum.splits if_splits)
  ultimately show ?thesis by (simp add: driver_inv_def)
qed

lemma process_deficit_inv:
  assumes "driver_inv (c, d)" "process_deficit_packet env now wire c d = (a, c', d')"
  shows "driver_inv (c', d')"
  using assms tracks_input [of "dr_state d" c env now wire]
  by (auto simp: process_deficit_packet_def driver_inv_def mirror_def queues_bounded_def split: option.splits if_splits)

lemma driver_step_inv:
  assumes "driver_step describe env server peer s l s'" "driver_inv s"
  shows "driver_inv s'"
  using assms
proof (cases rule: driver_step.cases)
  case (1 c now call c' d)
  then show ?thesis using assms(2) tracks_step [of env c now call c' "dr_state d"]
    by (auto simp: driver_inv_def mirror_def)
next
  case (2 c d now io)
  obtain r c1 d1 where p: "pump_native env now io server peer c d = (r, c1, d1)" by (metis prod_cases3)
  then show ?thesis using 2 assms(2) pump_native_effect [OF p]
    by (auto simp: driver_inv_def driver_pump_def mirror_def request_cleanup_def queues_bounded_def split: sum.splits)
next
  case (3 c d now p)
  then show ?thesis using assms(2) process_packet_inv by (metis prod.collapse snd_conv)
next
  case (4 c d now wire)
  then show ?thesis using assms(2) process_deficit_inv by (metis prod.collapse snd_conv)
next
  case (7 c d now)
  then show ?thesis using assms(2)
    by (auto simp: driver_inv_def mirror_def queues_bounded_def receiver_recv_def pop_protected_def
        split: option.splits list.splits)
qed (auto simp: driver_inv_def mirror_def request_cleanup_def queues_bounded_def fail_driver_def note_dropped_def)

interpretation turn_driver: step_invariant "driver_step describe env server peer" driver_inv
  for describe env server peer
  by unfold_locales (rule driver_step_inv)

text \<open>
  C20: The driver's snapshot refines the core: whatever the session, the network and the clock do, and in
  whatever order, after a pump that succeeds the snapshot shows the very state the core is in, unless
  the allocation has been noted as failed or is closing; and a failure once noted is never replaced.
\<close>

theorem snapshot_refines_core:
  assumes "create server username password peer profile transport = Inr c"
    and "steps (driver_step describe env server peer) (c, new_driver) ls (c', d')"
    and "pump_native env now io server peer c' d' = (Inr timer, c'', d'')"
  shows "(dr_closing d'' \<or> dr_terminal d'' \<noteq> None \<or> dr_state d'' = tc_state c'')
    \<and> (dr_terminal d' \<noteq> None \<longrightarrow> dr_terminal d'' = dr_terminal d')"
proof -
  have "driver_inv (c, new_driver)"
    using assms(1) by (auto simp: driver_inv_def mirror_def tracks_def new_driver_def create_def new_core_def
        queues_bounded_def STATE_NULL_def split: if_splits)
  then have "driver_inv (c', d')" using turn_driver.steps_inv [OF assms(2)] by blast
  then show ?thesis
    using pump_native_effect [OF assms(3)] by (auto simp: driver_inv_def)
qed

lemma snapshot_refines_core_witness:
  "\<exists>d'. pump_native example_env 0 (\<lambda>_. True) (example_addr 3478) (example_addr 9000) (force_destroy 0 fresh_core) new_driver
       = (Inr None, (force_destroy 0 fresh_core)\<lparr>tc_events := []\<rparr>, d')
     \<and> (dr_closing d' \<or> dr_terminal d' \<noteq> None \<or> dr_state d' = tc_state (force_destroy 0 fresh_core))"
proof -
  let ?c = "force_destroy 0 fresh_core"
  have s: "steps (driver_step (\<lambda>_. []) example_env (example_addr 3478) (example_addr 9000)) (fresh_core, new_driver)
      [(0, Core_call (Force_destroy 0))] (?c, new_driver)"
    by (rule steps_Cons, rule driver_step.intros(1), rule turn_step.intros, simp, rule steps_Nil)
  obtain d' where p: "pump_native example_env 0 (\<lambda>_. True) (example_addr 3478) (example_addr 9000) ?c new_driver
      = (Inr None, ?c\<lparr>tc_events := []\<rparr>, d')"
    by (simp add: pump_native_def poll_def force_destroy_def fresh_core_def new_core_def set_state_def push_event_def
        pump_controls.simps pull_control_def pump_events.simps pull_event_def handle_event_def event_kind_defs
        default_event_def event_state_def state_defs new_driver_def EVENT_CAPACITY_def Let_def fail_driver_def)
  show ?thesis
    using snapshot_refines_core [OF fresh_core_created s p] p by (intro exI [of _ d'] conjI) simp_all
qed

end
