(* ===== verification/Turn_Stream.thy ===== *)
theory Turn_Stream
  imports Packet_Buf
begin

text \<open>
  TURN over TCP and TLS, the reader of \<open>turn_stream.rs\<close>: frames are cut out of a byte
  stream by the length fields of STUN messages and ChannelData headers (RFC 8656), whatever way
  the socket splits the stream. The socket is the list of what its reads return; the writer task
  is in \<open>Writer_Loops\<close>, the TLS handshake is the library's. Reads of the buffer stand behind its length tests.
\<close>

unbundle bit_operations_syntax

section \<open>Frames\<close>

definition MAX_CONTROL_FRAME_BYTES :: nat where "MAX_CONTROL_FRAME_BYTES = 4096"
definition MAX_DATA_FRAME_BYTES :: nat where "MAX_DATA_FRAME_BYTES = PACKET_CAPACITY - PACKET_HEADROOM"
definition STREAM_READ_BUFFER_BYTES :: nat where "STREAM_READ_BUFFER_BYTES = MAX_CONTROL_FRAME_BYTES"

datatype stream_error =
    Control_unaligned
  | Control_overflows
  | Control_exceeds_limit
  | Control_bad_cookie
  | Reserved_type
  | Channel_data_overflows
  | Channel_data_exceeds_capacity
  | Copy_failed packet_error
  | Buffer_hard_limit
  | Read_failed
  | Closed_by_peer

datatype stream_frame = Control_bytes bytes | Data_packet packet_buf | Data_dropped

datatype frame_kind = Control_kind nat | Channel_data_kind nat nat

datatype stream_decode = Decoded stream_frame | Need_more

definition frame_start :: "bytes \<Rightarrow> stream_error + frame_kind option" where
  "frame_start bs =
     (if length bs < 4 then Inr None
      else
        let declared = unat (from_be16 [bs ! 2, bs ! 3]) in
        if bs ! 0 AND 0xc0 = 0 then
          if declared mod 4 \<noteq> 0 then Inl Control_unaligned
          else if 2 ^ 64 \<le> 20 + declared then Inl Control_overflows
          else if 20 + declared > MAX_CONTROL_FRAME_BYTES then Inl Control_exceeds_limit
          else if length bs < 8 then Inr None
          else if sub bs 4 8 \<noteq> [0x21, 0x12, 0xa4, 0x42] then Inl Control_bad_cookie
          else Inr (Some (Control_kind (20 + declared)))
        else if bs ! 0 AND 0xc0 \<noteq> 0x40 then Inl Reserved_type
        else if 2 ^ 64 \<le> 4 + declared then Inl Channel_data_overflows
        else
          let padding = (4 - declared mod 4) mod 4 in
          if 4 + declared + padding > MAX_DATA_FRAME_BYTES then Inl Channel_data_exceeds_capacity
          else Inr (Some (Channel_data_kind (4 + declared) padding)))"

definition copy_channel_data ::
  "(bytes, 'q) queue_ops \<Rightarrow> bytes \<Rightarrow> bytes \<Rightarrow> 'q packet_pool \<Rightarrow> (stream_error + stream_frame) \<times> 'q packet_pool" where
  "copy_channel_data Q fresh wire po =
     (case try_acquire Q fresh po of
        (None, po) \<Rightarrow> (Inr Data_dropped, po)
      | (Some packet, po) \<Rightarrow>
          (case set_read_len (length wire) packet of
             Inl e \<Rightarrow> (Inl (Copy_failed e), drop_packet Q packet po)
           | Inr packet \<Rightarrow> (Inr (Data_packet (packet\<lparr>pb_storage := put (pb_start packet) wire (pb_storage packet)\<rparr>)), po)))"

text \<open>The buffer after the call comes second.\<close>

definition decode_frame ::
  "(bytes, 'q) queue_ops \<Rightarrow> bytes \<Rightarrow> bytes \<Rightarrow> 'q packet_pool \<Rightarrow> (stream_error + stream_decode) \<times> bytes \<times> 'q packet_pool" where
  "decode_frame Q fresh buffer po =
     (case frame_start buffer of
        Inl e \<Rightarrow> (Inl e, buffer, po)
      | Inr None \<Rightarrow> (Inr Need_more, buffer, po)
      | Inr (Some (Control_kind frame_bytes)) \<Rightarrow>
          if length buffer < frame_bytes then (Inr Need_more, buffer, po)
          else (Inr (Decoded (Control_bytes (take frame_bytes buffer))), drop frame_bytes buffer, po)
      | Inr (Some (Channel_data_kind frame_bytes padding)) \<Rightarrow>
          if length buffer < frame_bytes + padding then (Inr Need_more, buffer, po)
          else (case copy_channel_data Q fresh (take (frame_bytes + padding) buffer) po of
                  (Inl e, po) \<Rightarrow> (Inl e, drop (frame_bytes + padding) buffer, po)
                | (Inr f, po) \<Rightarrow> (Inr (Decoded f), drop (frame_bytes + padding) buffer, po)))"

definition take_frame ::
  "(bytes, 'q) queue_ops \<Rightarrow> bytes \<Rightarrow> bytes \<Rightarrow> 'q packet_pool \<Rightarrow> (stream_error + stream_frame option) \<times> bytes \<times> 'q packet_pool" where
  "take_frame Q fresh buffer po =
     (case decode_frame Q fresh buffer po of
        (Inl e, buffer, po) \<Rightarrow> (Inl e, buffer, po)
      | (Inr (Decoded f), buffer, po) \<Rightarrow> (Inr (Some f), buffer, po)
      | (Inr Need_more, buffer, po) \<Rightarrow> (Inr None, buffer, po))"

text \<open>One \<open>read_buf\<close> on the socket appends what it reads; zero bytes are the end of the stream.\<close>

datatype socket_read = Read_bytes bytes | Read_error

datatype read_outcome = Returned "stream_error + stream_frame" | Waiting

fun read_frame ::
  "(bytes, 'q) queue_ops \<Rightarrow> bytes \<Rightarrow> bytes \<Rightarrow> 'q packet_pool \<Rightarrow> socket_read list
     \<Rightarrow> read_outcome \<times> bytes \<times> 'q packet_pool \<times> socket_read list" where
  "read_frame Q fresh buffer po reads =
     (case take_frame Q fresh buffer po of
        (Inl e, buffer, po) \<Rightarrow> (Returned (Inl e), buffer, po, reads)
      | (Inr (Some f), buffer, po) \<Rightarrow> (Returned (Inr f), buffer, po, reads)
      | (Inr None, buffer, po) \<Rightarrow>
          if length buffer \<ge> STREAM_READ_BUFFER_BYTES then (Returned (Inl Buffer_hard_limit), buffer, po, reads)
          else
            (case reads of
               [] \<Rightarrow> (Waiting, buffer, po, [])
             | Read_error # reads \<Rightarrow> (Returned (Inl Read_failed), buffer, po, reads)
             | Read_bytes bs # reads \<Rightarrow>
                 if bs = [] then (Returned (Inl Closed_by_peer), buffer, po, reads)
                 else read_frame Q fresh (buffer @ bs) po reads))"

declare read_frame.simps [simp del]

section \<open>The cut of the stream\<close>

definition wire_len :: "frame_kind \<Rightarrow> nat" where
  "wire_len k = (case k of Control_kind n \<Rightarrow> n | Channel_data_kind n padding \<Rightarrow> n + padding)"

text \<open>Further bytes never change what the first ones say.\<close>

lemma frame_start_append:
  assumes "frame_start bs \<noteq> Inr None"
  shows "frame_start (bs @ ext) = frame_start bs"
proof -
  have len: "4 \<le> length bs" using assms by (auto simp: frame_start_def split: if_splits)
  then have n: "(bs @ ext) ! 0 = bs ! 0" "(bs @ ext) ! 2 = bs ! 2" "(bs @ ext) ! 3 = bs ! 3"
    by (simp_all only: nth_append) (auto split: if_splits)
  show ?thesis
  proof (cases "length bs < 8")
    case False
    then have "sub (bs @ ext) 4 8 = sub bs 4 8" by (simp add: sub_append_left)
    then show ?thesis using len False by (simp add: frame_start_def n Let_def)
  next
    case True
    then show ?thesis using len assms by (simp add: frame_start_def n Let_def split: if_splits)
  qed
qed

lemma frame_start_bounds:
  assumes "frame_start bs = Inr (Some k)"
  shows "4 \<le> wire_len k" "wire_len k \<le> MAX_CONTROL_FRAME_BYTES"
    "k = Control_kind n \<Longrightarrow> 20 \<le> n" "k = Channel_data_kind n padding \<Longrightarrow> n + padding \<le> MAX_DATA_FRAME_BYTES"
  using assms by (auto simp: frame_start_def wire_len_def Let_def MAX_DATA_FRAME_BYTES_def PACKET_CAPACITY_def
      PACKET_HEADROOM_def MAX_CONTROL_FRAME_BYTES_def split: if_splits)

lemma frame_start_enough:
  assumes "frame_start (bs @ ext) = Inr (Some k)" "wire_len k \<le> length bs"
  shows "frame_start bs = Inr (Some k)"
proof (cases "frame_start bs = Inr None")
  case False
  then show ?thesis using frame_start_append [OF False, of ext] assms(1) by simp
next
  case True
  have len: "4 \<le> length bs" using frame_start_bounds(1) [OF assms(1)] assms(2) by linarith
  then have zero: "(bs @ ext) ! 0 = bs ! 0" by (simp only: nth_append) auto
  moreover have "8 \<le> length bs" if "(bs @ ext) ! 0 AND 0xc0 = 0"
  proof -
    have "\<exists>n. k = Control_kind n" using assms(1) that len unfolding zero [symmetric]
      by (auto simp: frame_start_def Let_def split: if_splits)
    then show ?thesis using frame_start_bounds(3) [OF assms(1)] assms(2) by (auto simp: wire_len_def)
  qed
  ultimately have False
    using True len by (auto simp: frame_start_def Let_def split: if_splits)
  then show ?thesis ..
qed

text \<open>Without a frame the buffer is far below its hard limit.\<close>

lemma frame_start_None: "frame_start bs = Inr None \<Longrightarrow> length bs < 8"
  by (auto simp: frame_start_def Let_def split: if_splits)

lemma take_frame_None:
  assumes "take_frame Q fresh buffer po = (Inr None, buffer', po')"
  shows "buffer' = buffer" "po' = po" "length buffer < STREAM_READ_BUFFER_BYTES"
proof -
  have d: "decode_frame Q fresh buffer po = (Inr Need_more, buffer', po')"
    using assms by (auto simp: take_frame_def split: prod.splits sum.splits stream_decode.splits)
  have "buffer' = buffer \<and> po' = po \<and> (frame_start buffer = Inr None
      \<or> (\<exists>k. frame_start buffer = Inr (Some k) \<and> length buffer < wire_len k))"
    using d by (auto simp: decode_frame_def wire_len_def split: sum.splits option.splits frame_kind.splits if_splits prod.splits)
  then show "buffer' = buffer" "po' = po" "length buffer < STREAM_READ_BUFFER_BYTES"
    using frame_start_None [of buffer] frame_start_bounds(2) [of buffer]
    by (auto simp: STREAM_READ_BUFFER_BYTES_def MAX_CONTROL_FRAME_BYTES_def)
qed

lemma copy_channel_data_ok:
  assumes "length wire \<le> MAX_DATA_FRAME_BYTES"
  shows "\<exists>f. fst (copy_channel_data Q fresh wire po) = Inr f"
  using assms by (auto simp: copy_channel_data_def set_read_len_def MAX_DATA_FRAME_BYTES_def
      split: prod.splits option.splits sum.splits)

lemma take_frame_error:
  assumes "take_frame Q fresh buffer po = (Inl e, r)"
  shows "frame_start buffer = Inl e"
proof (cases "frame_start buffer")
  case (Inl e')
  then show ?thesis using assms by (simp add: take_frame_def decode_frame_def)
next
  case (Inr s)
  show ?thesis
  proof (cases s)
    case None
    then show ?thesis using assms Inr by (simp add: take_frame_def decode_frame_def)
  next
    case (Some k)
    have "copy_channel_data Q fresh (take (n + p) buffer) po \<noteq> (Inl e', b)"
      if "k = Channel_data_kind n p" for n p e' b
      using copy_channel_data_ok [of "take (n + p) buffer" Q fresh po] frame_start_bounds(4) [of buffer k n p]
        Inr Some that by (auto simp: min.coboundedI2)
    then show ?thesis using assms Inr Some
      by (cases k) (auto simp: take_frame_def decode_frame_def split: if_splits prod.splits sum.splits)
  qed
qed

lemma frame_start_error:
  "frame_start buffer = Inl e \<Longrightarrow> e \<noteq> Buffer_hard_limit \<and> (\<forall>x. e \<noteq> Copy_failed x)"
  by (auto simp: frame_start_def Let_def split: if_splits)

section \<open>Frames come out whole and in order\<close>

text \<open>What a reader hands out for the wire bytes of one frame.\<close>

definition frame_of :: "stream_frame \<Rightarrow> bytes \<Rightarrow> bool" where
  "frame_of f w \<longleftrightarrow> (case f of
       Control_bytes bs \<Rightarrow> bs = w \<and> hd w AND 0xc0 = 0
     | Data_packet p \<Rightarrow> pb_slice p = w \<and> hd w AND 0xc0 = 0x40
     | Data_dropped \<Rightarrow> hd w AND 0xc0 = 0x40)"

definition valid_wire :: "bytes \<Rightarrow> bool" where
  "valid_wire w \<longleftrightarrow> (\<exists>k. frame_start w = Inr (Some k) \<and> wire_len k = length w)"

lemma valid_wireE:
  assumes "valid_wire w"
  obtains k where "frame_start w = Inr (Some k)" "wire_len k = length w"
    "4 \<le> length w" "length w \<le> 4096"
    "k = Control_kind (length w) \<and> hd w AND 0xc0 = 0 \<or>
     (\<exists>n p. k = Channel_data_kind n p) \<and> hd w AND 0xc0 = 0x40 \<and> length w \<le> MAX_DATA_FRAME_BYTES"
proof -
  obtain k where k: "frame_start w = Inr (Some k)" "wire_len k = length w"
    using assms by (auto simp: valid_wire_def)
  have l: "4 \<le> length w" "length w \<le> 4096"
    using frame_start_bounds(1,2) [OF k(1)] k(2) by (simp_all add: MAX_CONTROL_FRAME_BYTES_def)
  then have "hd w = w ! 0" by (cases w) auto
  then show ?thesis
    using k l frame_start_bounds(4) [OF k(1)]
    by (intro that [of k]) (auto simp: frame_start_def wire_len_def Let_def split: if_splits)
qed

text \<open>Every storage the pool holds has the full capacity, and so has a fresh one.\<close>

definition pool_full :: "(bytes, 'q) queue_ops \<Rightarrow> bytes \<Rightarrow> 'q packet_pool \<Rightarrow> bool" where
  "pool_full Q fresh po \<longleftrightarrow> length fresh = PACKET_CAPACITY
     \<and> (\<forall>s\<in>set (q_items Q (po_queue po)). length s = PACKET_CAPACITY)"

lemma try_acquire_full:
  assumes "array_queue_ok Q" "pool_full Q fresh po" "try_acquire Q fresh po = (r, po')"
  shows "pool_full Q fresh po'" "r = Some p \<Longrightarrow> length (pb_storage p) = PACKET_CAPACITY"
  using assms(2,3) queue_pop_Some [OF assms(1), of "po_queue po"]
  by (auto simp: pool_full_def try_acquire_def pool_pop_def pool_reserve_def new_packet_def
      split: option.splits if_splits)

lemma copy_channel_data_frame:
  assumes "array_queue_ok Q" "pool_full Q fresh po" "length w \<le> MAX_DATA_FRAME_BYTES"
    and "hd w AND 0xc0 = 0x40"
  obtains f po' where "copy_channel_data Q fresh w po = (Inr f, po')" "pool_full Q fresh po'" "frame_of f w"
proof -
  obtain r po' where a: "try_acquire Q fresh po = (r, po')" by fastforce
  note t = try_acquire_full [OF assms(1,2) a]
  show ?thesis
  proof (cases r)
    case None
    then show ?thesis using that [of Data_dropped po'] a t(1) assms(4)
      by (simp add: copy_channel_data_def frame_of_def)
  next
    case (Some p)
    let ?p = "p\<lparr>pb_start := PACKET_HEADROOM, pb_end := PACKET_HEADROOM + length w,
      pb_storage := put PACKET_HEADROOM w (pb_storage p)\<rparr>"
    have "set_read_len (length w) p = Inr (p\<lparr>pb_start := PACKET_HEADROOM, pb_end := PACKET_HEADROOM + length w\<rparr>)"
      using assms(3) by (simp add: set_read_len_def MAX_DATA_FRAME_BYTES_def)
    then have c: "copy_channel_data Q fresh w po = (Inr (Data_packet ?p), po')"
      using a Some by (simp add: copy_channel_data_def)
    have "pb_slice ?p = w"
      using t(2) [OF Some] assms(3) sub_put_same [of PACKET_HEADROOM w "pb_storage p"]
      by (simp add: pb_slice_def MAX_DATA_FRAME_BYTES_def PACKET_CAPACITY_def PACKET_HEADROOM_def)
    then show ?thesis using that [OF c t(1)] assms(4) by (simp add: frame_of_def)
  qed
qed

lemma take_frame_whole:
  assumes "array_queue_ok Q" "pool_full Q fresh po" "valid_wire w"
  obtains f po' where "take_frame Q fresh (w @ rest) po = (Inr (Some f), rest, po')"
    "pool_full Q fresh po'" "frame_of f w"
proof -
  from assms(3) obtain k where k: "frame_start w = Inr (Some k)" "wire_len k = length w"
    "4 \<le> length w" "length w \<le> 4096"
    "k = Control_kind (length w) \<and> hd w AND 0xc0 = 0 \<or>
     (\<exists>n p. k = Channel_data_kind n p) \<and> hd w AND 0xc0 = 0x40 \<and> length w \<le> MAX_DATA_FRAME_BYTES"
    by (rule valid_wireE)
  have s: "frame_start (w @ rest) = Inr (Some k)"
    using frame_start_append [of w rest] k(1) by simp
  show ?thesis
  proof (cases "k = Control_kind (length w) \<and> hd w AND 0xc0 = 0")
    case True
    then show ?thesis using that [of "Control_bytes w" po] s assms(2)
      by (simp add: take_frame_def decode_frame_def frame_of_def)
  next
    case False
    then obtain n p where n: "k = Channel_data_kind n p" "hd w AND 0xc0 = 0x40" "length w \<le> MAX_DATA_FRAME_BYTES"
      using k(5) by auto
    then have np: "n + p = length w" using k(2) by (simp add: wire_len_def)
    obtain f po' where "copy_channel_data Q fresh w po = (Inr f, po')" "pool_full Q fresh po'" "frame_of f w"
      by (rule copy_channel_data_frame [OF assms(1,2) n(3,2)])
    then show ?thesis using that [of f po'] s n(1) np
      by (simp add: take_frame_def decode_frame_def)
  qed
qed

lemma take_frame_part:
  assumes "valid_wire w" "buffer @ ext = w @ rest" "length buffer < length w"
  shows "take_frame Q fresh buffer po = (Inr None, buffer, po)"
proof -
  from assms(1) obtain k where k: "frame_start w = Inr (Some k)" "wire_len k = length w" by (rule valid_wireE)
  have s: "frame_start (buffer @ ext) = Inr (Some k)"
    using frame_start_append [of w rest] k(1) assms(2) by simp
  have "frame_start buffer = Inr None \<or> frame_start buffer = Inr (Some k)"
    using frame_start_append [of buffer ext] s by metis
  then show ?thesis
    using k(2) assms(3) by (cases k) (auto simp: take_frame_def decode_frame_def wire_len_def)
qed

text \<open>What the socket still delivers.\<close>

fun delivered :: "socket_read list \<Rightarrow> bytes option" where
  "delivered [] = Some []"
| "delivered (Read_error # reads) = None"
| "delivered (Read_bytes bs # reads) = (if bs = [] then None else map_option (\<lambda>r. bs @ r) (delivered reads))"

lemma read_frame_whole:
  assumes "array_queue_ok Q" "pool_full Q fresh po" "valid_wire w"
    and "delivered reads = Some bs" "buffer @ bs = w @ rest"
  shows "\<exists>f buffer' po' reads' bs'. read_frame Q fresh buffer po reads = (Returned (Inr f), buffer', po', reads')
    \<and> frame_of f w \<and> pool_full Q fresh po' \<and> delivered reads' = Some bs' \<and> buffer' @ bs' = rest"
  using assms(4,5)
proof (induction reads arbitrary: buffer bs)
  case Nil
  then have "buffer = w @ rest" by simp
  moreover obtain f po' where "take_frame Q fresh (w @ rest) po = (Inr (Some f), rest, po')"
    "pool_full Q fresh po'" "frame_of f w" by (rule take_frame_whole [OF assms(1-3)])
  ultimately show ?case by (simp add: read_frame.simps)
next
  case (Cons r reads)
  show ?case
  proof (cases "length buffer < length w")
    case False
    then obtain b where b: "buffer = w @ b" "b @ bs = rest"
      using Cons.prems(2) by (auto simp: append_eq_append_conv2)
    moreover obtain f po' where "take_frame Q fresh (w @ b) po = (Inr (Some f), b, po')"
      "pool_full Q fresh po'" "frame_of f w" by (rule take_frame_whole [OF assms(1-3)])
    ultimately show ?thesis
      using Cons.prems(1) by (simp add: read_frame.simps [of Q fresh "w @ b" po "r # reads"])
  next
    case True
    obtain x bs' where r: "r = Read_bytes x" "x \<noteq> []" "delivered reads = Some bs'" "bs = x @ bs'"
      using Cons.prems(1) by (cases r) (auto split: if_splits)
    have t: "take_frame Q fresh buffer po = (Inr None, buffer, po)"
      by (rule take_frame_part [OF assms(3) Cons.prems(2) True])
    have "read_frame Q fresh buffer po (r # reads) = read_frame Q fresh (buffer @ x) po reads"
      using t r(2) take_frame_None(3) [OF t] unfolding r(1)
      by (simp add: read_frame.simps [of Q fresh buffer po "Read_bytes x # reads"])
    then show ?thesis using Cons.IH [OF r(3), of "buffer @ x"] Cons.prems(2) r(4) by simp
  qed
qed

text \<open>The session loop calls \<open>read_frame\<close> again and again.\<close>

fun read_frames ::
  "nat \<Rightarrow> (bytes, 'q) queue_ops \<Rightarrow> bytes \<Rightarrow> bytes \<Rightarrow> 'q packet_pool \<Rightarrow> socket_read list \<Rightarrow> stream_frame list" where
  "read_frames 0 Q fresh buffer po reads = []"
| "read_frames (Suc n) Q fresh buffer po reads =
     (case read_frame Q fresh buffer po reads of
        (Returned (Inr f), buffer, po, reads) \<Rightarrow> f # read_frames n Q fresh buffer po reads
      | _ \<Rightarrow> [])"

lemma read_frames_whole:
  assumes "array_queue_ok Q" "pool_full Q fresh po" "list_all valid_wire ws"
    and "delivered reads = Some bs" "buffer @ bs = concat ws @ rest"
  shows "list_all2 frame_of (read_frames (length ws) Q fresh buffer po reads) ws"
  using assms(2-5)
proof (induction ws arbitrary: buffer po reads bs)
  case Nil
  then show ?case by simp
next
  case (Cons w ws)
  then obtain f buffer' po' reads' bs' where
    "read_frame Q fresh buffer po reads = (Returned (Inr f), buffer', po', reads')"
    "frame_of f w" "pool_full Q fresh po'" "delivered reads' = Some bs'" "buffer' @ bs' = concat ws @ rest"
    using read_frame_whole [OF assms(1) Cons.prems(1), of w reads bs buffer "concat ws @ rest"] by auto
  with Cons.IH [of po' reads' bs' buffer'] Cons.prems(2) show ?case by simp
qed

text \<open>The cut as a self-delimiting code.\<close>

definition split_wire :: "bytes \<Rightarrow> (bytes \<times> bytes) option" where
  "split_wire bs = (case frame_start bs of
     Inr (Some k) \<Rightarrow> if wire_len k \<le> length bs then Some (take (wire_len k) bs, drop (wire_len k) bs) else None
   | _ \<Rightarrow> None)"

interpretation stream_wire: byte_codec "\<lambda>w. w" split_wire valid_wire
proof unfold_locales
  show "split_wire (w @ rest) = Some (w, rest)" if "valid_wire w" for w rest
    using that frame_start_append [of w rest] by (auto simp: valid_wire_def split_wire_def)
  show "valid_wire w \<and> bs = w @ rest" if s: "split_wire bs = Some (w, rest)" for bs w rest
  proof -
    obtain k where k: "frame_start bs = Inr (Some k)" "wire_len k \<le> length bs" "w = take (wire_len k) bs"
      "rest = drop (wire_len k) bs"
      using s by (auto simp: split_wire_def split: sum.splits option.splits if_splits)
    have "frame_start (w @ rest) = Inr (Some k)" using k by simp
    then have "frame_start w = Inr (Some k)" by (rule frame_start_enough) (use k in simp)
    then show ?thesis using k by (simp add: valid_wire_def)
  qed
qed



text \<open>
  The reader cannot wedge: the hard limit of its buffer is never reached and a frame is never
  too long for a packet, whatever the peer sends; a bad frame is reported as such.
\<close>

theorem stream_reader_never_wedges:
  "fst (read_frame Q fresh buffer po reads) \<noteq> Returned (Inl Buffer_hard_limit)
   \<and> fst (read_frame Q fresh buffer po reads) \<noteq> Returned (Inl (Copy_failed e))"
proof (induction Q fresh buffer po reads rule: read_frame.induct)
  case (1 Q fresh buffer po reads)
  obtain r b po' where t: "take_frame Q fresh buffer po = (r, b, po')" by (cases "take_frame Q fresh buffer po") auto
  show ?case
  proof (cases r)
    case (Inl e')
    then show ?thesis using take_frame_error [of Q fresh buffer po e'] t frame_start_error [of buffer e']
      by (auto simp: read_frame.simps [of Q fresh buffer po reads])
  next
    case (Inr f)
    show ?thesis
    proof (cases f)
      case (Some x)
      then show ?thesis using t Inr by (simp add: read_frame.simps [of Q fresh buffer po reads])
    next
      case None
      have t': "take_frame Q fresh buffer po = (Inr None, b, po')" using t Inr None by simp
      note n = take_frame_None [OF t']
      show ?thesis
      proof (cases reads)
        case Nil
        then show ?thesis using t' n(3) n(1) by (simp add: read_frame.simps [of Q fresh buffer po "[]"])
      next
        case (Cons x xs)
        have step: "read_frame Q fresh buffer po (x # xs) = (case x of
            Read_error \<Rightarrow> (Returned (Inl Read_failed), buffer, po, xs)
          | Read_bytes bs \<Rightarrow>
              if bs = [] then (Returned (Inl Closed_by_peer), buffer, po, xs)
              else read_frame Q fresh (buffer @ bs) po xs)"
          using t' n by (simp add: read_frame.simps [of Q fresh buffer po "x # xs"])
        show ?thesis
        proof (cases "\<exists>bs. x = Read_bytes bs \<and> bs \<noteq> []")
          case True
          then obtain bs where bs: "x = Read_bytes bs" "bs \<noteq> []" by blast
          show ?thesis unfolding Cons step
            using 1 [OF t [symmetric] Inr None refl _ Cons bs] n bs by simp
        next
          case False
          then show ?thesis unfolding Cons step by (cases x) auto
        qed
      qed
    qed
  qed
qed

end
