(* ===== verification/Recovery.thy ===== *)
theory Recovery
  imports Protocol
begin

text \<open>
  How the client notices that its paths are dead and makes the workers reconnect: the epoch of
  \<open>rebind.rs\<close> and its stall detector, the suspend detector of \<open>wake.rs\<close> and the
  repair commands of \<open>repair.rs\<close>. Epochs are atomics paired with a tokio \<open>Notify\<close>,
  whose two operations the engine uses are a parameter with their documented laws; the two ways
  the code waits for an epoch are step functions that other threads' steps interleave with.
\<close>

section \<open>Waiting for an epoch\<close>

text \<open>
  \<open>Notify\<close>: \<open>nt_notified\<close> creates a \<open>Notified\<close> future, \<open>nt_ready\<close> says
  whether it has been woken. The documentation promises that a future is woken by every
  \<open>notify_waiters\<close> after its creation and stays woken, and that \<open>notify_waiters\<close>
  stores nothing for futures created later.
\<close>

record ('n, 'f) notify_ops =
  nt_notified :: "'n \<Rightarrow> 'f"
  nt_notify_waiters :: "'n \<Rightarrow> 'n"
  nt_ready :: "'n \<Rightarrow> 'f \<Rightarrow> bool"

definition notify_ok :: "('n, 'f) notify_ops \<Rightarrow> bool" where
  "notify_ok N \<longleftrightarrow> (\<forall>n. \<not> nt_ready N n (nt_notified N n))
     \<and> (\<forall>n. nt_ready N (nt_notify_waiters N n) (nt_notified N n))
     \<and> (\<forall>n f. nt_ready N n f \<longrightarrow> nt_ready N (nt_notify_waiters N n) f)"

locale notify_laws =
  fixes N :: "('n, 'f) notify_ops"
  assumes ok: "notify_ok N"
begin

lemma fresh: "\<not> nt_ready N n (nt_notified N n)"
  using ok by (simp add: notify_ok_def)

lemma woken: "nt_ready N n f \<or> f = nt_notified N n \<Longrightarrow> nt_ready N (nt_notify_waiters N n) f"
  using ok by (auto simp: notify_ok_def)

end

text \<open>A notify of that kind counts its wake-ups.\<close>

definition counting_notify :: "(nat, nat) notify_ops" where
  "counting_notify = \<lparr>nt_notified = (\<lambda>n. n), nt_notify_waiters = Suc, nt_ready = (\<lambda>n f. f < n)\<rparr>"

interpretation counting_notify: notify_laws counting_notify
  by unfold_locales (auto simp: notify_ok_def counting_notify_def)

lemma counting_notify_ok: "notify_ok counting_notify"
  by (rule counting_notify.ok)

datatype 'f wait_pc = At_start | Checked | Holding 'f | Awaiting 'f | Resolved

text \<open>\<open>wt_owed\<close> counts the increments whose \<open>notify_waiters\<close> is still to come.\<close>

record ('n, 'f) wait_state =
  wt_epoch :: u64
  wt_notify :: 'n
  wt_owed :: nat
  wt_pc :: "'f wait_pc"

text \<open>\<open>rebind::requested\<close>: register, then check, then wait.\<close>

definition requested :: "('n, 'f) notify_ops \<Rightarrow> u64 \<Rightarrow> ('n, 'f) wait_state \<Rightarrow> ('n, 'f) wait_state option" where
  "requested N seen s =
     (case wt_pc s of
        At_start \<Rightarrow> Some (s\<lparr>wt_pc := Holding (nt_notified N (wt_notify s))\<rparr>)
      | Holding f \<Rightarrow> Some (s\<lparr>wt_pc := (if wt_epoch s \<noteq> seen then Resolved else Awaiting f)\<rparr>)
      | Awaiting f \<Rightarrow> if nt_ready N (wt_notify s) f then Some (s\<lparr>wt_pc := At_start\<rparr>) else None
      | _ \<Rightarrow> None)"

text \<open>\<open>RepairState::changed\<close>: check, then register, then wait.\<close>

definition changed :: "('n, 'f) notify_ops \<Rightarrow> u64 \<Rightarrow> ('n, 'f) wait_state \<Rightarrow> ('n, 'f) wait_state option" where
  "changed N observed s =
     (case wt_pc s of
        At_start \<Rightarrow> Some (s\<lparr>wt_pc := (if wt_epoch s \<noteq> observed then Resolved else Checked)\<rparr>)
      | Checked \<Rightarrow> Some (s\<lparr>wt_pc := Awaiting (nt_notified N (wt_notify s))\<rparr>)
      | Awaiting f \<Rightarrow> if nt_ready N (wt_notify s) f then Some (s\<lparr>wt_pc := At_start\<rparr>) else None
      | _ \<Rightarrow> None)"

datatype wait_label = L_wait | L_bump | L_wake

inductive wait_step ::
  "('n, 'f) notify_ops \<Rightarrow> (('n, 'f) wait_state \<Rightarrow> ('n, 'f) wait_state option)
     \<Rightarrow> ('n, 'f) wait_state \<Rightarrow> wait_label \<Rightarrow> ('n, 'f) wait_state \<Rightarrow> bool"
  for N waiter where
  wait_waiter: "waiter s = Some s' \<Longrightarrow> wait_step N waiter s L_wait s'"
| wait_bump: "wait_step N waiter s L_bump (s\<lparr>wt_epoch := wt_epoch s + 1, wt_owed := wt_owed s + 1\<rparr>)"
| wait_wake: "0 < wt_owed s \<Longrightarrow>
    wait_step N waiter s L_wake (s\<lparr>wt_notify := nt_notify_waiters N (wt_notify s), wt_owed := wt_owed s - 1\<rparr>)"

definition wait_start :: "u64 \<Rightarrow> 'n \<Rightarrow> ('n, 'f) wait_state" where
  "wait_start e n = \<lparr>wt_epoch = e, wt_notify = n, wt_owed = 0, wt_pc = At_start\<rparr>"

text \<open>A future in hand catches the wake-up of every increment it has not seen.\<close>

definition covered :: "('n, 'f) notify_ops \<Rightarrow> ('n, 'f) wait_state \<Rightarrow> 'f \<Rightarrow> bool" where
  "covered N s f \<longleftrightarrow> nt_ready N (wt_notify s) f \<or> f = nt_notified N (wt_notify s)"

definition wait_inv :: "('n, 'f) notify_ops \<Rightarrow> u64 \<Rightarrow> ('n, 'f) wait_state \<Rightarrow> bool" where
  "wait_inv N seen s \<longleftrightarrow>
     (case wt_pc s of
        Holding f \<Rightarrow> covered N s f
      | Awaiting f \<Rightarrow> covered N s f \<and> (wt_epoch s = seen \<or> nt_ready N (wt_notify s) f \<or> 0 < wt_owed s)
      | Checked \<Rightarrow> False
      | _ \<Rightarrow> True)"

context notify_laws
begin

lemma covered_wake: "covered N s f \<Longrightarrow> nt_ready N (nt_notify_waiters N (wt_notify s)) f"
  unfolding covered_def by (rule woken)

lemma wait_inv_step:
  assumes "wait_step N (requested N seen) s l s'" "wait_inv N seen s"
  shows "wait_inv N seen s'"
  using assms(1)
proof cases
  case wait_waiter
  then show ?thesis using assms(2)
    by (auto simp: requested_def wait_inv_def covered_def split: wait_pc.splits if_splits)
next
  case wait_bump
  then show ?thesis using assms(2)
    by (auto simp: wait_inv_def covered_def split: wait_pc.splits)
next
  case wait_wake
  then show ?thesis using assms(2) covered_wake
    by (auto simp: wait_inv_def covered_def split: wait_pc.splits)
qed

end

sublocale notify_laws \<subseteq> waiting: step_invariant "wait_step N (requested N seen)" "wait_inv N seen" for seen
  by unfold_locales (rule wait_inv_step)

lemma wait_inv_start: "wait_inv N seen (wait_start e n)"
  by (simp add: wait_inv_def wait_start_def)

context notify_laws
begin

lemma wait_inv_run:
  "steps (wait_step N (requested N seen)) (wait_start e n) ls s \<Longrightarrow> wait_inv N seen s"
  by (rule waiting.steps_inv) (assumption, rule wait_inv_start)

end

lemmas requested_run = notify_laws.wait_inv_run [OF notify_laws.intro]

fun run_waiter :: "nat \<Rightarrow> ('s \<Rightarrow> 's option) \<Rightarrow> 's \<Rightarrow> 's" where
  "run_waiter 0 waiter s = s"
| "run_waiter (Suc k) waiter s = (case waiter s of None \<Rightarrow> s | Some s' \<Rightarrow> run_waiter k waiter s')"

text \<open>With its epoch changed and no wake-up outstanding the waiter needs no help.\<close>

lemma requested_resolves:
  assumes inv: "wait_inv N seen s" and "wt_epoch s \<noteq> seen" "wt_owed s = 0"
  shows "wt_pc (run_waiter 3 (requested N seen) s) = Resolved"
  using assms by (cases "wt_pc s") (simp_all add: numeral_eq_Suc requested_def wait_inv_def)

text \<open>
  C14: A rebind request is never missed: under every interleaving with any number of requests, once
  the epoch differs from the one the session saw and no wake-up is outstanding, the waiting task
  resolves within three of its own steps.
\<close>

theorem rebind_request_is_noticed:
  assumes "notify_ok N" "steps (wait_step N (requested N seen)) (wait_start e n) ls s"
    and "wt_epoch s \<noteq> seen" "wt_owed s = 0"
  shows "wt_pc (run_waiter 3 (requested N seen) s) = Resolved"
  by (rule requested_resolves [OF requested_run [OF assms(1,2)] assms(3,4)])

lemma rebind_request_is_noticed_witness:
  "wt_pc (run_waiter 3 (requested counting_notify 0) \<lparr>wt_epoch = 1, wt_notify = 1, wt_owed = 0, wt_pc = Awaiting 0\<rparr>) = Resolved"
proof (rule rebind_request_is_noticed [OF counting_notify_ok])
  show "steps (wait_step counting_notify (requested counting_notify 0)) (wait_start 0 0)
      [L_wait, L_wait, L_bump, L_wake] \<lparr>wt_epoch = 1, wt_notify = 1, wt_owed = 0, wt_pc = Awaiting 0\<rparr>"
    by (rule steps_Cons, rule wait_waiter, simp add: requested_def wait_start_def,
        rule steps_Cons, rule wait_waiter, simp add: requested_def,
        rule steps_Cons, rule wait_bump, rule steps_Cons, rule wait_wake, simp)
      (simp add: counting_notify_def steps_Nil)
qed simp_all

text \<open>
  A repair can be missed: \<open>RepairState::changed\<close> reads the generation before it creates its
  future, so a repair applied in between wakes nobody: the task then waits with the generation
  changed, no wake-up outstanding, and no step of its own left.
\<close>

theorem repair_can_be_missed:
  assumes "notify_ok N"
  shows "\<exists>s f. steps (wait_step N (changed N observed)) (wait_start observed n) [L_wait, L_bump, L_wake, L_wait] s
    \<and> wt_epoch s \<noteq> observed \<and> wt_owed s = 0 \<and> wt_pc s = Awaiting f \<and> changed N observed s = None"
proof -
  let ?n = "nt_notify_waiters N n"
  let ?s = "\<lparr>wt_epoch = observed + 1, wt_notify = ?n, wt_owed = 0, wt_pc = Awaiting (nt_notified N ?n)\<rparr>"
  have "\<not> nt_ready N ?n (nt_notified N ?n)" using assms by (simp add: notify_ok_def)
  then have "changed N observed ?s = None" by (simp add: changed_def)
  moreover have "steps (wait_step N (changed N observed)) (wait_start observed n) [L_wait, L_bump, L_wake, L_wait] ?s"
    by (rule steps_Cons, rule wait_waiter, simp add: changed_def wait_start_def,
        rule steps_Cons, rule wait_bump, rule steps_Cons, rule wait_wake, simp,
        rule steps_Cons, rule wait_waiter, simp add: changed_def) (simp add: steps_Nil)
  ultimately show ?thesis by (intro exI [of _ ?s] exI [of _ "nt_notified N ?n"]) simp
qed

lemma repair_can_be_missed_witness:
  "\<exists>s f. steps (wait_step counting_notify (changed counting_notify 5)) (wait_start 5 0) [L_wait, L_bump, L_wake, L_wait] s
    \<and> wt_epoch s \<noteq> 5 \<and> wt_pc s = Awaiting f \<and> changed counting_notify 5 s = None"
  using repair_can_be_missed [OF counting_notify_ok, of 5 0] by blast

section \<open>The stall detector\<close>

text \<open>\<open>i64::saturating_sub\<close>.\<close>

definition sat_sub64 :: "int \<Rightarrow> int \<Rightarrow> int" where
  "sat_sub64 a b = max (- (2 ^ 63)) (min (2 ^ 63 - 1) (a - b))"

record stall_detector =
  sd_last_up :: int
  sd_last_down :: int
  sd_stalled_polls :: nat
  sd_last_probe :: "instant option"

definition STALL_POLLS :: nat where "STALL_POLLS = 3"
definition STALL_MIN_UPLINK_DELTA :: int where "STALL_MIN_UPLINK_DELTA = 4096"
definition PROBE_MIN_GAP :: duration where "PROBE_MIN_GAP = from_secs 20"

definition new_detector :: "int \<Rightarrow> int \<Rightarrow> stall_detector" where
  "new_detector up down = \<lparr>sd_last_up = up, sd_last_down = down, sd_stalled_polls = 0, sd_last_probe = None\<rparr>"

text \<open>\<open>duration_since\<close> saturates, like the subtraction of naturals.\<close>

definition observe :: "int \<Rightarrow> int \<Rightarrow> instant \<Rightarrow> stall_detector \<Rightarrow> bool \<times> stall_detector" where
  "observe up down now d =
     (let up_moved = sat_sub64 up (sd_last_up d) \<ge> STALL_MIN_UPLINK_DELTA;
          down_moved = (down \<noteq> sd_last_down d);
          d = d\<lparr>sd_last_up := up, sd_last_down := down\<rparr>
      in if down_moved \<or> \<not> up_moved then (False, d\<lparr>sd_stalled_polls := 0\<rparr>)
         else
           let d = d\<lparr>sd_stalled_polls := sd_stalled_polls d + 1\<rparr>
           in if sd_stalled_polls d < STALL_POLLS then (False, d)
              else if (case sd_last_probe d of None \<Rightarrow> False | Some previous \<Rightarrow> now - previous < PROBE_MIN_GAP) then (False, d)
              else (True, d\<lparr>sd_last_probe := Some now, sd_stalled_polls := 0\<rparr>))"

text \<open>A reading: the two counters and the time.\<close>

definition counters :: "int \<times> int \<times> instant \<Rightarrow> int \<times> int" where
  "counters r = (fst r, fst (snd r))"

definition read_time :: "int \<times> int \<times> instant \<Rightarrow> instant" where
  "read_time r = snd (snd r)"

lemma reading_parts [simp]: "counters (u, v, t) = (u, v)" "read_time (u, v, t) = t"
  by (simp_all add: counters_def read_time_def)

lemma last_sorted: "sorted (x # xs) \<Longrightarrow> (x :: nat) \<le> last (x # xs)"
  by (induction xs arbitrary: x rule: rev_induct) (auto simp: sorted_append)

text \<open>The monitor's loop over a list of readings; the answers come first.\<close>

fun observe_all :: "(int \<times> int \<times> instant) list \<Rightarrow> stall_detector \<Rightarrow> bool list \<times> stall_detector" where
  "observe_all [] d = ([], d)"
| "observe_all ((up, down, now) # rs) d =
     (let (b, d) = observe up down now d; (bs, d) = observe_all rs d in (b # bs, d))"

definition stalled_step :: "int \<times> int \<Rightarrow> int \<times> int \<Rightarrow> bool" where
  "stalled_step p q \<longleftrightarrow> sat_sub64 (fst q) (fst p) \<ge> STALL_MIN_UPLINK_DELTA \<and> snd q = snd p"

text \<open>The readings that stalled without a break, counted back from the latest, which comes first.\<close>

fun streak :: "(int \<times> int) list \<Rightarrow> nat" where
  "streak (q # p # ps) = (if stalled_step p q then Suc (streak (p # ps)) else 0)"
| "streak _ = 0"

definition tracks :: "(int \<times> int) list \<Rightarrow> stall_detector \<Rightarrow> bool" where
  "tracks ps d \<longleftrightarrow> (\<exists>qs. ps = (sd_last_up d, sd_last_down d) # qs) \<and> sd_stalled_polls d \<le> streak ps"

lemma observe_tracks:
  assumes "tracks ps d" "observe up down now d = (b, d')"
  shows "tracks ((up, down) # ps) d'" "b \<Longrightarrow> 3 \<le> streak ((up, down) # ps)"
  using assms
  by (auto simp: tracks_def observe_def stalled_step_def STALL_POLLS_def Let_def split: if_splits option.splits)

lemma observe_all_tracks:
  "tracks ps d \<Longrightarrow> tracks (rev (map counters rs) @ ps) (snd (observe_all rs d))"
proof (induction rs arbitrary: ps d)
  case (Cons r rs)
  obtain up down now where r: "r = (up, down, now)" by (cases r)
  obtain b d' where o: "observe up down now d = (b, d')" by fastforce
  show ?case using Cons.IH [OF observe_tracks(1) [OF Cons.prems o]] by (simp add: r o case_prod_unfold Let_def)
qed simp

text \<open>
  A probe has evidence: when the detector asks for one, each of the last three readings showed
  at least 4096 bytes of new uplink and no downlink.
\<close>

theorem stall_probe_has_evidence:
  assumes "fst (observe up down now (snd (observe_all rs (new_detector up0 down0))))"
  shows "3 \<le> streak ((up, down) # rev (map counters rs) @ [(up0, down0)])"
proof -
  have "tracks [(up0, down0)] (new_detector up0 down0)" by (simp add: tracks_def new_detector_def)
  then have t: "tracks (rev (map counters rs) @ [(up0, down0)]) (snd (observe_all rs (new_detector up0 down0)))"
    by (rule observe_all_tracks)
  obtain b d' where "observe up down now (snd (observe_all rs (new_detector up0 down0))) = (b, d')" by fastforce
  then show ?thesis using observe_tracks(2) [OF t] assms by simp
qed

lemma stall_probe_has_evidence_witness:
  "3 \<le> streak ((15000, 0) # rev (map counters [(5000, 0, 2), (10000, 0, 4)]) @ [(0, 0)])"
  by (rule stall_probe_has_evidence [where now = 6 and down = 0 and rs = "[(5000, 0, 2), (10000, 0, 4)]"])
    (simp add: observe_def new_detector_def sat_sub64_def STALL_MIN_UPLINK_DELTA_def STALL_POLLS_def Let_def)

lemma observe_probe:
  assumes "observe up down now d = (b, d')"
  shows "b \<Longrightarrow> sd_last_probe d' = Some now"
    "b \<Longrightarrow> sd_last_probe d = Some p \<Longrightarrow> p + PROBE_MIN_GAP \<le> now"
    "\<not> b \<Longrightarrow> sd_last_probe d' = sd_last_probe d"
  using assms by (auto simp: observe_def PROBE_MIN_GAP_def from_secs_def Let_def split: if_splits option.splits)

lemma probes_spaced:
  assumes "sd_last_probe d = Some p" "sorted (p # map read_time rs)"
  shows "length (filter (\<lambda>b. b) (fst (observe_all rs d))) * PROBE_MIN_GAP \<le> last (p # map read_time rs) - p"
  using assms
proof (induction rs arbitrary: d p)
  case Nil
  then show ?case by simp
next
  case (Cons r rs)
  obtain up down now where r: "r = (up, down, now)" by (cases r)
  obtain b d' where o: "observe up down now d = (b, d')" by fastforce
  let ?ts = "map read_time rs"
  have sorted: "sorted (now # ?ts)" "p \<le> now" using Cons.prems(2) by (auto simp: r)
  have last: "now \<le> last (now # ?ts)" using sorted(1) by (rule last_sorted)
  note ob = observe_probe [OF o]
  have fst: "fst (observe_all (r # rs) d) = b # fst (observe_all rs d')"
    by (simp add: r o case_prod_unfold Let_def)
  show ?case
  proof (cases b)
    case True
    have "length (filter (\<lambda>b. b) (fst (observe_all rs d'))) * PROBE_MIN_GAP \<le> last (now # ?ts) - now"
      by (rule Cons.IH [OF ob(1) [OF True] sorted(1)])
    moreover have "p + PROBE_MIN_GAP \<le> now" by (rule ob(2) [OF True Cons.prems(1)])
    ultimately show ?thesis unfolding fst using True last by (simp add: r split: if_splits)
  next
    case False
    have "sorted (p # ?ts)" using sorted by auto
    then have "length (filter (\<lambda>b. b) (fst (observe_all rs d'))) * PROBE_MIN_GAP \<le> last (p # ?ts) - p"
      using Cons.IH [of d' p] ob(3) [OF False] Cons.prems(1) by simp
    moreover have "last (p # ?ts) \<le> last (p # now # ?ts)" using sorted by simp
    ultimately show ?thesis unfolding fst using False by (simp add: r)
  qed
qed

text \<open>
  Probes are rare: over readings taken in order of time, the detector asks for at most one probe
  plus one for every 20 seconds between the first reading and the last.
\<close>

theorem stall_probe_rate:
  assumes "sorted (map read_time ((up, down, start) # rs))" "sd_last_probe d = None"
  shows "length (filter (\<lambda>b. b) (fst (observe_all ((up, down, start) # rs) d)))
    \<le> 1 + (last (map read_time ((up, down, start) # rs)) - start) div PROBE_MIN_GAP"
  using assms
proof (induction rs arbitrary: up down start d)
  case Nil
  then show ?case by (simp add: case_prod_unfold Let_def)
next
  case (Cons r rs)
  obtain u v t where r: "r = (u, v, t)" by (cases r)
  obtain b d' where o: "observe up down start d = (b, d')" by fastforce
  define L where "L = last (map read_time (r # rs))"
  have L: "last (map read_time ((up, down, start) # r # rs)) = L" "last (start # map read_time (r # rs)) = L"
    by (simp_all add: L_def)
  have fst: "fst (observe_all ((up, down, start) # r # rs) d) = b # fst (observe_all (r # rs) d')"
    by (simp add: o case_prod_unfold Let_def)
  show ?case
  proof (cases b)
    case True
    have "sorted (start # map read_time (r # rs))" using Cons.prems(1) by (simp only: list.map reading_parts)
    then have "length (filter (\<lambda>b. b) (fst (observe_all (r # rs) d'))) * PROBE_MIN_GAP \<le> L - start"
      using probes_spaced [OF observe_probe(1) [OF o True], of "r # rs"] unfolding L(2) by blast
    moreover have "0 < PROBE_MIN_GAP" by (simp add: PROBE_MIN_GAP_def from_secs_def)
    ultimately have "length (filter (\<lambda>b. b) (fst (observe_all (r # rs) d'))) \<le> (L - start) div PROBE_MIN_GAP"
      by (simp add: less_eq_div_iff_mult_less_eq)
    then show ?thesis unfolding fst L using True by simp
  next
    case False
    have "length (filter (\<lambda>b. b) (fst (observe_all (r # rs) d'))) \<le> 1 + (L - t) div PROBE_MIN_GAP"
      using Cons.IH [where up = u and down = v and start = t and d = d'] Cons.prems observe_probe(3) [OF o False] by (simp add: r L_def)
    moreover have "(L - t) div PROBE_MIN_GAP \<le> (L - start) div PROBE_MIN_GAP"
      using Cons.prems(1) by (intro div_le_mono diff_le_mono2) (simp add: r)
    ultimately show ?thesis unfolding fst L using False by simp
  qed
qed

lemma stall_probe_rate_witness:
  "length (filter (\<lambda>b. b) (fst (observe_all [(0, 0, 0), (5000, 0, 2)] (new_detector 0 0)))) \<le> 1"
  using stall_probe_rate [of 0 0 0 "[(5000, 0, 2)]" "new_detector 0 0"]
  by (simp add: new_detector_def PROBE_MIN_GAP_def from_secs_def)

section \<open>The suspend detector\<close>

definition SUSPEND_THRESHOLD :: duration where "SUSPEND_THRESHOLD = from_secs 20"

record wake_state =
  wk_epoch :: u64
  wk_last_gap_ms :: nat
  wk_mono :: instant
  wk_boot :: duration

definition wake_signal :: "duration \<Rightarrow> wake_state \<Rightarrow> wake_state" where
  "wake_signal gap w = w\<lparr>wk_last_gap_ms := min (as_millis gap) (2 ^ 64 - 1), wk_epoch := wk_epoch w + 1\<rparr>"

definition last_gap :: "wake_state \<Rightarrow> duration" where
  "last_gap w = from_millis (wk_last_gap_ms w)"

definition suspend_gap :: "duration \<Rightarrow> duration \<Rightarrow> duration" where
  "suspend_gap mono_elapsed boot_elapsed = boot_elapsed - mono_elapsed"

text \<open>One round of the monitor's loop, with the two clocks it reads.\<close>

definition monitor_round :: "instant \<Rightarrow> duration \<Rightarrow> wake_state \<Rightarrow> wake_state" where
  "monitor_round now_mono now_boot w =
     (let gap = suspend_gap (now_mono - wk_mono w) (now_boot - wk_boot w);
          w = w\<lparr>wk_mono := now_mono, wk_boot := now_boot\<rparr>
      in if gap \<ge> SUSPEND_THRESHOLD then wake_signal gap w else w)"

section \<open>Repair commands\<close>

record repair_slot =
  rs_restart_generation :: u64
  rs_credential_generation :: u64
  rs_last_sequence :: u64
  rs_ready_sequence :: u64

record repair_result =
  rr_restarts :: nat
  rr_credential_resets :: nat

definition new_slot :: repair_slot where
  "new_slot = \<lparr>rs_restart_generation = 0, rs_credential_generation = 0, rs_last_sequence = 0, rs_ready_sequence = 0\<rparr>"

definition new_repair :: "nat \<Rightarrow> repair_slot list" where
  "new_repair desired_count = replicate (desired_count + 1) new_slot"

definition has_slot :: "nat \<Rightarrow> repair_slot list \<Rightarrow> bool" where
  "has_slot worker_id slots \<longleftrightarrow> worker_id \<noteq> 0 \<and> worker_id < length slots"

definition restart_generation :: "nat \<Rightarrow> repair_slot list \<Rightarrow> u64" where
  "restart_generation worker_id slots =
     (if has_slot worker_id slots then rs_restart_generation (slots ! worker_id) else 0)"

definition credential_generation :: "nat \<Rightarrow> repair_slot list \<Rightarrow> u64" where
  "credential_generation worker_id slots =
     (if has_slot worker_id slots then rs_credential_generation (slots ! worker_id) else 0)"

definition mark_ready :: "nat \<Rightarrow> repair_slot list \<Rightarrow> repair_slot list" where
  "mark_ready worker_id slots =
     (if has_slot worker_id slots
      then slots[worker_id := (slots ! worker_id)\<lparr>rs_ready_sequence := rs_last_sequence (slots ! worker_id)\<rparr>]
      else slots)"

text \<open>
  The compare-and-exchange loop on one slot: it ends at the first value that is not below the
  command's sequence or that is exchanged, so it acts as one atomic step on the slot. The
  counters of the result are the slot's share.
\<close>

definition repair_slot_step :: "u64 \<Rightarrow> repair_slot \<Rightarrow> repair_result \<times> repair_slot" where
  "repair_slot_step sequence slot =
     (let previous = rs_last_sequence slot in
      if sequence \<le> previous then (\<lparr>rr_restarts = 0, rr_credential_resets = 0\<rparr>, slot)
      else
        let slot = slot\<lparr>rs_last_sequence := sequence\<rparr>;
            reset = (previous \<noteq> 0 \<and> rs_ready_sequence slot < previous);
            slot = (if reset then slot\<lparr>rs_credential_generation := rs_credential_generation slot + 1\<rparr> else slot)
        in (\<lparr>rr_restarts = 1, rr_credential_resets = (if reset then 1 else 0)\<rparr>,
            slot\<lparr>rs_restart_generation := rs_restart_generation slot + 1\<rparr>))"

fun apply_ids :: "u64 \<Rightarrow> u16 list \<Rightarrow> repair_slot list \<Rightarrow> repair_result \<times> repair_slot list" where
  "apply_ids sequence [] slots = (\<lparr>rr_restarts = 0, rr_credential_resets = 0\<rparr>, slots)"
| "apply_ids sequence (w # ws) slots =
     (let worker_id = unat w in
      if \<not> has_slot worker_id slots then apply_ids sequence ws slots
      else
        let (r, slot) = repair_slot_step sequence (slots ! worker_id);
            (rest, slots) = apply_ids sequence ws (slots[worker_id := slot])
        in (\<lparr>rr_restarts = rr_restarts r + rr_restarts rest,
             rr_credential_resets = rr_credential_resets r + rr_credential_resets rest\<rparr>, slots))"

definition apply_repair :: "stream_command \<Rightarrow> repair_slot list \<Rightarrow> repair_result \<times> repair_slot list" where
  "apply_repair command slots = apply_ids (sc_sequence command) (sc_worker_ids command) slots"

definition alive_id :: "u64 \<Rightarrow> u16 \<Rightarrow> nat \<times> repair_slot list \<Rightarrow> nat \<times> repair_slot list" where
  "alive_id sequence w = (\<lambda>(applied, slots).
     if has_slot (unat w) slots
     then (applied + 1, slots[unat w := (slots ! unat w)\<lparr>rs_ready_sequence := max (rs_ready_sequence (slots ! unat w)) sequence\<rparr>])
     else (applied, slots))"

definition apply_alive :: "stream_command \<Rightarrow> repair_slot list \<Rightarrow> nat \<times> repair_slot list" where
  "apply_alive command slots = fold (alive_id (sc_sequence command)) (sc_worker_ids command) (0, slots)"

text \<open>A slot that has seen a sequence ignores it.\<close>

lemma repair_slot_again: "repair_slot_step sequence (snd (repair_slot_step sequence slot)) =
    (\<lparr>rr_restarts = 0, rr_credential_resets = 0\<rparr>, snd (repair_slot_step sequence slot))"
  by (auto simp: repair_slot_step_def Let_def)

lemma repair_slot_step_fields:
  "rs_restart_generation (snd (repair_slot_step sequence slot)) =
     (if rs_last_sequence slot < sequence then rs_restart_generation slot + 1 else rs_restart_generation slot)"
  "rs_last_sequence (snd (repair_slot_step sequence slot)) =
     (if rs_last_sequence slot < sequence then sequence else rs_last_sequence slot)"
  by (auto simp: repair_slot_step_def word_gt_0 Let_def)

lemma apply_ids_length [simp]: "length (snd (apply_ids sequence ws slots)) = length slots"
  by (induction ws arbitrary: slots) (auto simp: Let_def case_prod_unfold)

lemma apply_ids_slot:
  assumes "has_slot w slots"
  shows "snd (apply_ids sequence ws slots) ! w =
    (if w \<in> unat ` set ws then snd (repair_slot_step sequence (slots ! w)) else slots ! w)"
  using assms
proof (induction ws arbitrary: slots)
  case (Cons x ws)
  show ?case
  proof (cases "has_slot (unat x) slots")
    case True
    let ?slots = "slots[unat x := snd (repair_slot_step sequence (slots ! unat x))]"
    have "has_slot w ?slots" using Cons.prems by (simp add: has_slot_def)
    from Cons.IH [OF this] show ?thesis
      using True Cons.prems repair_slot_again [of sequence "slots ! w"]
      by (cases "w = unat x") (auto simp: Let_def case_prod_unfold has_slot_def)
  next
    case False
    then show ?thesis using Cons.IH [OF Cons.prems] Cons.prems by (auto simp: Let_def)
  qed
qed simp

text \<open>A sequence above every earlier one is a record.\<close>

fun records :: "u64 \<Rightarrow> u64 list \<Rightarrow> nat" where
  "records m [] = 0"
| "records m (x # xs) = (if m < x then Suc (records x xs) else records m xs)"

definition sequences_for :: "nat \<Rightarrow> stream_command list \<Rightarrow> u64 list" where
  "sequences_for w commands = map sc_sequence (filter (\<lambda>c. w \<in> unat ` set (sc_worker_ids c)) commands)"

lemma repairs_slot:
  assumes "has_slot w slots"
  shows "rs_restart_generation (fold (\<lambda>c s. snd (apply_repair c s)) commands slots ! w) =
    rs_restart_generation (slots ! w) + word_of_nat (records (rs_last_sequence (slots ! w)) (sequences_for w commands))"
  using assms
proof (induction commands arbitrary: slots)
  case (Cons c commands)
  let ?slots = "snd (apply_repair c slots)"
  have slot: "?slots ! w = (if w \<in> unat ` set (sc_worker_ids c) then snd (repair_slot_step (sc_sequence c) (slots ! w)) else slots ! w)"
    unfolding apply_repair_def by (rule apply_ids_slot [OF Cons.prems])
  have "has_slot w ?slots" using Cons.prems by (simp add: has_slot_def apply_repair_def)
  from Cons.IH [OF this] show ?case
    by (cases "w \<in> unat ` set (sc_worker_ids c)") (simp_all add: slot sequences_for_def repair_slot_step_fields)
qed (simp add: sequences_for_def)

text \<open>
  C15: A worker restarts once per new repair sequence: after any commands, duplicated, reordered or
  naming a worker twice, its restart generation counts the sequences that exceeded every earlier
  one that named it.
\<close>

theorem repair_restarts_once_per_sequence:
  assumes "1 \<le> w" "w \<le> desired_count"
  shows "restart_generation w (fold (\<lambda>c s. snd (apply_repair c s)) commands (new_repair desired_count))
    = word_of_nat (records 0 (sequences_for w commands))"
proof -
  have h: "has_slot w (new_repair desired_count)" using assms by (simp add: has_slot_def new_repair_def)
  have "length (fold (\<lambda>c s. snd (apply_repair c s)) commands slots) = length slots" for slots
    by (induction commands arbitrary: slots) (simp_all add: apply_repair_def)
  then have "has_slot w (fold (\<lambda>c s. snd (apply_repair c s)) commands (new_repair desired_count))"
    using h by (simp add: has_slot_def)
  moreover have "new_repair desired_count ! w = new_slot"
    using assms unfolding new_repair_def by (intro nth_replicate) simp
  ultimately show ?thesis
    using repairs_slot [OF h, of commands] by (simp add: restart_generation_def new_slot_def)
qed

lemma repair_restarts_once_per_sequence_witness:
  "restart_generation 1 (fold (\<lambda>c s. snd (apply_repair c s))
     [\<lparr>sc_sequence = 7, sc_desired_count = 2, sc_worker_ids = [1, 1]\<rparr>,
      \<lparr>sc_sequence = 5, sc_desired_count = 2, sc_worker_ids = [1, 2]\<rparr>,
      \<lparr>sc_sequence = 7, sc_desired_count = 2, sc_worker_ids = [1]\<rparr>] (new_repair 2)) = 1"
  using repair_restarts_once_per_sequence [of 1 2
     "[\<lparr>sc_sequence = 7, sc_desired_count = 2, sc_worker_ids = [1, 1]\<rparr>,
      \<lparr>sc_sequence = 5, sc_desired_count = 2, sc_worker_ids = [1, 2]\<rparr>,
      \<lparr>sc_sequence = 7, sc_desired_count = 2, sc_worker_ids = [1]\<rparr>]"]
  by (simp add: sequences_for_def)

end
