(* ===== verification/Idle.thy ===== *)
theory Idle
  imports Interfaces
begin

unbundle bit_operations_syntax

text \<open>
  Idle scale-down, \<open>idle.rs\<close>: parking all but a few workers while the phone is silent and
  bringing them back on a burst of traffic. The state is a set of global atomics; each function
  is one step of the sequential model, and \<open>enter\<close> and \<open>exit\<close>, which several
  threads call, are also split into their atomic operations. Counters of type \<open>u64\<close> are
  naturals with saturation and wrap-around written out; clock readings are milliseconds since
  the start of the engine. The monitor's task and the waits for
  these flags are in \<open>Monitors\<close>; log lines are not modelled.
\<close>

section \<open>State\<close>

definition USIZE_MAX :: nat where "USIZE_MAX = 2 ^ 64 - 1"
definition ACTIVE_BYTES_PER_POLL :: int where "ACTIVE_BYTES_PER_POLL = 1400"
definition EXIT_PACKETS :: nat where "EXIT_PACKETS = 12"
definition EXIT_PACKETS_WINDOW_MS :: nat where "EXIT_PACKETS_WINDOW_MS = 1000"
definition EXIT_SYNS :: nat where "EXIT_SYNS = 3"
definition EXIT_SYNS_WINDOW_MS :: nat where "EXIT_SYNS_WINDOW_MS = 3000"
definition JOINED_SLOTS :: nat where "JOINED_SLOTS = 127"

record idle_state =
  id_limit :: nat
  id_active :: bool
  id_total :: nat
  id_declared :: nat
  id_gen_offset :: nat
  id_announce :: nat
  id_packet_start :: nat
  id_packet_count :: nat
  id_syn_start :: nat
  id_syn_count :: nat
  id_joined :: "nat list"

definition fetch_add64 :: "nat \<Rightarrow> nat" where
  "fetch_add64 n = (n + 1) mod 2 ^ 64"

definition saturating_inc64 :: "nat \<Rightarrow> nat" where
  "saturating_inc64 n = min (n + 1) (2 ^ 64 - 1)"

definition idle_reset :: "nat \<Rightarrow> idle_state \<Rightarrow> idle_state" where
  "idle_reset total_workers s = s\<lparr>id_total := total_workers, id_declared := total_workers,
     id_limit := USIZE_MAX, id_active := False, id_gen_offset := 0, id_announce := 0,
     id_joined := replicate JOINED_SLOTS 0\<rparr>"

definition allows :: "nat \<Rightarrow> idle_state \<Rightarrow> bool" where
  "allows worker_id s \<longleftrightarrow> worker_id \<le> id_limit s"

definition declared_count :: "idle_state \<Rightarrow> nat" where
  "declared_count s = (if id_declared s = 0 then id_total s else id_declared s)"

definition idle_generation :: "nat \<Rightarrow> idle_state \<Rightarrow> nat" where
  "idle_generation base s = min (base + id_gen_offset s) (2 ^ 64 - 1)"

section \<open>Paths joined and lost\<close>

definition note_path_joined :: "nat \<Rightarrow> nat \<Rightarrow> idle_state \<Rightarrow> idle_state" where
  "note_path_joined worker_id offset s =
     (if worker_id \<ge> length (id_joined s) then s
      else if worker_id = 0 then s
      else s\<lparr>id_joined := (id_joined s)[worker_id := saturating_inc64 offset]\<rparr>)"

definition note_path_lost :: "nat \<Rightarrow> idle_state \<Rightarrow> idle_state" where
  "note_path_lost worker_id s =
     (if \<not> allows worker_id s then s
      else if worker_id \<ge> length (id_joined s) then s
      else
        let joined = id_joined s ! worker_id in
        if joined = 0 then s
        else if joined - 1 \<noteq> id_gen_offset s then s
        else s\<lparr>id_gen_offset := saturating_inc64 (id_gen_offset s),
               id_joined := (id_joined s)[worker_id := 0],
               id_announce := fetch_add64 (id_announce s)\<rparr>)"

section \<open>Entering and leaving idle\<close>

text \<open>The stores that follow the swap of \<open>ACTIVE\<close>, one atomic operation each.\<close>

definition enter_stores :: "nat \<Rightarrow> (idle_state \<Rightarrow> idle_state) list" where
  "enter_stores keep =
     [\<lambda>s. s\<lparr>id_limit := keep\<rparr>, \<lambda>s. s\<lparr>id_declared := keep\<rparr>,
      \<lambda>s. s\<lparr>id_gen_offset := fetch_add64 (id_gen_offset s)\<rparr>,
      \<lambda>s. s\<lparr>id_announce := fetch_add64 (id_announce s)\<rparr>,
      \<lambda>s. s\<lparr>id_packet_count := 0\<rparr>, \<lambda>s. s\<lparr>id_syn_count := 0\<rparr>]"

definition exit_stores :: "(idle_state \<Rightarrow> idle_state) list" where
  "exit_stores =
     [\<lambda>s. s\<lparr>id_limit := USIZE_MAX\<rparr>, \<lambda>s. s\<lparr>id_declared := id_total s\<rparr>,
      \<lambda>s. s\<lparr>id_announce := fetch_add64 (id_announce s)\<rparr>]"

definition may_enter :: "nat \<Rightarrow> idle_state \<Rightarrow> bool" where
  "may_enter keep s \<longleftrightarrow> keep \<noteq> 0 \<and> id_total s \<noteq> 0 \<and> keep < id_total s"

definition idle_enter :: "nat \<Rightarrow> idle_state \<Rightarrow> idle_state" where
  "idle_enter keep s =
     (if \<not> may_enter keep s then s
      else if id_active s then s
      else fold (\<lambda>f. f) (enter_stores keep) (s\<lparr>id_active := True\<rparr>))"

definition idle_exit :: "idle_state \<Rightarrow> idle_state" where
  "idle_exit s =
     (if \<not> id_active s then s else fold (\<lambda>f. f) exit_stores (s\<lparr>id_active := False\<rparr>))"

section \<open>Traffic\<close>

definition idle_is_tcp_syn :: "bytes \<Rightarrow> bool" where
  "idle_is_tcp_syn packet =
     (if length packet < 20 \<or> drop_bit 4 (packet ! 0) \<noteq> 4 \<or> packet ! 9 \<noteq> 6 then False
      else
        let ihl = unat (packet ! 0 AND 0x0f) * 4 in
        if ihl < 20 \<or> length packet < ihl + 14 then False
        else
          let flags = packet ! (ihl + 13) in flags AND 0x02 \<noteq> 0 \<and> flags AND 0x10 = 0)"

text \<open>The counter: whether it hit, the new start and the new count.\<close>

definition window_hit :: "nat \<Rightarrow> nat \<Rightarrow> nat \<Rightarrow> nat \<Rightarrow> nat \<Rightarrow> bool \<times> nat \<times> nat" where
  "window_hit started cnt now_ms window_ms limit =
     (if now_ms - started > window_ms then (limit \<le> 1, now_ms, 1)
      else (cnt + 1 \<ge> limit, started, cnt + 1))"

definition note_uplink :: "bytes \<Rightarrow> nat \<Rightarrow> idle_state \<Rightarrow> idle_state" where
  "note_uplink packet now_ms s =
     (if \<not> id_active s then s
      else
        let (syn_hit, s) =
              (if idle_is_tcp_syn packet then
                 let (hit, start, cnt) = window_hit (id_syn_start s) (id_syn_count s) now_ms EXIT_SYNS_WINDOW_MS EXIT_SYNS
                 in (hit, s\<lparr>id_syn_start := start, id_syn_count := cnt\<rparr>)
               else (False, s))
        in if syn_hit then idle_exit s
           else
             let (hit, start, cnt) = window_hit (id_packet_start s) (id_packet_count s) now_ms EXIT_PACKETS_WINDOW_MS EXIT_PACKETS;
                 s = s\<lparr>id_packet_start := start, id_packet_count := cnt\<rparr>
             in if hit then idle_exit s else s)"

definition should_enter :: "duration \<Rightarrow> duration \<Rightarrow> bool \<Rightarrow> bool" where
  "should_enter quiet_for after active \<longleftrightarrow> \<not> active \<and> quiet_for \<ge> after"

text \<open>One round of the monitor's loop: the last byte count and the start of the quiet time.\<close>

definition idle_round ::
  "nat \<Rightarrow> duration \<Rightarrow> int \<Rightarrow> instant \<Rightarrow> int \<times> instant \<times> idle_state \<Rightarrow> int \<times> instant \<times> idle_state" where
  "idle_round keep after total_up now = (\<lambda>(last_bytes, quiet_since, s).
     if total_up - last_bytes > ACTIVE_BYTES_PER_POLL then (total_up, now, s)
     else if should_enter (now - quiet_since) after (id_active s) then (total_up, quiet_since, idle_enter keep s)
     else (total_up, quiet_since, s))"

section \<open>The declared workers are the allowed ones\<close>

datatype idle_call =
    Call_enter nat | Call_exit | Call_uplink bytes nat | Call_joined nat nat | Call_lost nat

definition idle_handle :: "idle_call \<Rightarrow> idle_state \<Rightarrow> idle_state" where
  "idle_handle call s =
     (case call of
        Call_enter keep \<Rightarrow> idle_enter keep s
      | Call_exit \<Rightarrow> idle_exit s
      | Call_uplink packet now \<Rightarrow> note_uplink packet now s
      | Call_joined w offset \<Rightarrow> note_path_joined w offset s
      | Call_lost w \<Rightarrow> note_path_lost w s)"

definition idle_inv :: "nat \<Rightarrow> idle_state \<Rightarrow> bool" where
  "idle_inv total_workers s \<longleftrightarrow> id_total s = total_workers \<and>
     (if id_active s then id_declared s = id_limit s \<and> 0 < id_limit s \<and> id_limit s < total_workers
      else id_declared s = total_workers \<and> id_limit s = USIZE_MAX)"

lemma idle_exit_inv: "idle_inv n s \<Longrightarrow> idle_inv n (idle_exit s)"
  by (auto simp: idle_inv_def idle_exit_def exit_stores_def)

lemma idle_counts_inv:
  "idle_inv n s \<Longrightarrow> idle_inv n (s\<lparr>id_syn_start := a, id_syn_count := b\<rparr>)"
  "idle_inv n s \<Longrightarrow> idle_inv n (s\<lparr>id_packet_start := a, id_packet_count := b\<rparr>)"
  by (auto simp: idle_inv_def)

lemma note_uplink_inv: "idle_inv n s \<Longrightarrow> idle_inv n (note_uplink packet now s)"
  using idle_counts_inv idle_exit_inv
  by (auto simp: note_uplink_def Let_def split: prod.splits)

lemma idle_handle_inv: "idle_inv n s \<Longrightarrow> idle_inv n (idle_handle call s)"
  by (cases call)
    (auto simp: idle_handle_def note_uplink_inv idle_exit_inv,
     auto simp: idle_inv_def idle_enter_def enter_stores_def may_enter_def note_path_joined_def note_path_lost_def Let_def)

interpretation idle: invariant_machine idle_handle "idle_inv n" for n
  by unfold_locales (rule idle_handle_inv)


definition idle_zero :: idle_state where
  "idle_zero = \<lparr>id_limit = USIZE_MAX, id_active = False, id_total = 0, id_declared = 0, id_gen_offset = 0,
     id_announce = 0, id_packet_start = 0, id_packet_count = 0, id_syn_start = 0, id_syn_count = 0,
     id_joined = replicate JOINED_SLOTS 0\<rparr>"


section \<open>Path losses\<close>

lemma note_path_lost_fresh:
  assumes "allows w s" "w < length (id_joined s)" "id_joined s ! w = id_gen_offset s + 1" "id_gen_offset s < 2 ^ 64 - 1"
  shows "note_path_lost w s = s\<lparr>id_gen_offset := id_gen_offset s + 1, id_joined := (id_joined s)[w := 0],
    id_announce := fetch_add64 (id_announce s)\<rparr>"
  using assms by (simp add: note_path_lost_def saturating_inc64_def Let_def)

text \<open>Workers of an older epoch change nothing.\<close>

lemma note_path_lost_stale:
  assumes "\<forall>w\<in>set ws. w < length (id_joined s) \<longrightarrow> id_joined s ! w \<le> id_gen_offset s"
  shows "fold note_path_lost ws s = s"
  using assms
proof (induction ws)
  case (Cons w ws)
  then have "note_path_lost w s = s" by (auto simp: note_path_lost_def Let_def)
  with Cons show ?case by simp
qed simp

text \<open>
  A burst of losses opens one epoch: when several workers that joined the current epoch die
  together, the generation and the announcements advance by exactly one.
\<close>

theorem path_loss_burst_is_one_epoch:
  assumes "list_all (\<lambda>w. allows w s \<and> w < length (id_joined s) \<and> id_joined s ! w = id_gen_offset s + 1) (w # ws)"
    and "id_gen_offset s < 2 ^ 64 - 1"
  shows "id_gen_offset (fold note_path_lost (w # ws) s) = id_gen_offset s + 1
    \<and> id_announce (fold note_path_lost (w # ws) s) = fetch_add64 (id_announce s)"
proof -
  let ?s = "s\<lparr>id_gen_offset := id_gen_offset s + 1, id_joined := (id_joined s)[w := 0],
    id_announce := fetch_add64 (id_announce s)\<rparr>"
  have "note_path_lost w s = ?s" using assms by (intro note_path_lost_fresh) auto
  moreover have "fold note_path_lost ws ?s = ?s"
    using assms by (intro note_path_lost_stale) (auto simp: list_all_iff nth_list_update)
  ultimately show ?thesis by simp
qed

lemma path_loss_burst_is_one_epoch_witness:
  "id_gen_offset (fold note_path_lost [1, 2, 1] (note_path_joined 2 0 (note_path_joined 1 0 (idle_reset 5 idle_zero)))) = 1"
proof -
  let ?s = "note_path_joined 2 0 (note_path_joined 1 0 (idle_reset 5 idle_zero))"
  have s: "?s = (idle_reset 5 idle_zero)\<lparr>id_joined := (replicate JOINED_SLOTS 0)[1 := 1, 2 := 1]\<rparr>"
    by (simp add: note_path_joined_def idle_reset_def JOINED_SLOTS_def saturating_inc64_def)
  have g: "id_gen_offset ?s = 0" "length (id_joined ?s) = 127" "id_limit ?s = USIZE_MAX"
    "id_joined ?s ! 1 = 1" "id_joined ?s ! 2 = 1"
    unfolding s by (simp_all add: idle_reset_def JOINED_SLOTS_def)
  then show ?thesis
    using path_loss_burst_is_one_epoch [of ?s 1 "[2, 1]"] by (simp add: allows_def USIZE_MAX_def)
qed

section \<open>Interleaved transitions\<close>

text \<open>
  \<open>enter\<close> runs on the monitor's thread, \<open>exit\<close> on the one that injects packets. Each
  is its swap of \<open>ACTIVE\<close> followed by its stores; the world keeps what each has left.
\<close>

record idle_world =
  iw_state :: idle_state
  iw_enter :: "(idle_state \<Rightarrow> idle_state) list"
  iw_exit :: "(idle_state \<Rightarrow> idle_state) list"

datatype idle_label = L_enter | L_enter_store | L_exit | L_exit_store

inductive idle_step :: "nat \<Rightarrow> idle_world \<Rightarrow> idle_label \<Rightarrow> idle_world \<Rightarrow> bool" for keep where
  step_enter: "iw_enter w = [] \<Longrightarrow> may_enter keep (iw_state w) \<Longrightarrow> \<not> id_active (iw_state w) \<Longrightarrow>
    idle_step keep w L_enter (w\<lparr>iw_state := (iw_state w)\<lparr>id_active := True\<rparr>, iw_enter := enter_stores keep\<rparr>)"
| step_enter_store: "iw_enter w = f # fs \<Longrightarrow>
    idle_step keep w L_enter_store (w\<lparr>iw_state := f (iw_state w), iw_enter := fs\<rparr>)"
| step_exit: "iw_exit w = [] \<Longrightarrow> id_active (iw_state w) \<Longrightarrow>
    idle_step keep w L_exit (w\<lparr>iw_state := (iw_state w)\<lparr>id_active := False\<rparr>, iw_exit := exit_stores\<rparr>)"
| step_exit_store: "iw_exit w = f # fs \<Longrightarrow>
    idle_step keep w L_exit_store (w\<lparr>iw_state := f (iw_state w), iw_exit := fs\<rparr>)"

lemma run_enter_stores:
  "steps (idle_step keep) w ls w' \<Longrightarrow> iw_enter w' = fs \<Longrightarrow>
     steps (idle_step keep) w (ls @ replicate (length fs) L_enter_store)
       (w'\<lparr>iw_state := fold (\<lambda>f. f) fs (iw_state w'), iw_enter := []\<rparr>)"
proof (induction fs arbitrary: ls w')
  case Nil
  then show ?case by (cases w') simp
next
  case (Cons f fs)
  let ?w = "w'\<lparr>iw_state := f (iw_state w'), iw_enter := fs\<rparr>"
  have "steps (idle_step keep) w' [L_enter_store] ?w"
    by (rule steps_Cons, rule step_enter_store [OF Cons.prems(2)], rule steps_Nil)
  from steps_append [OF Cons.prems(1) this] have "steps (idle_step keep) w (ls @ [L_enter_store]) ?w" .
  from Cons.IH [OF this] show ?case by simp
qed

lemma run_exit_stores:
  "steps (idle_step keep) w ls w' \<Longrightarrow> iw_exit w' = fs \<Longrightarrow>
     steps (idle_step keep) w (ls @ replicate (length fs) L_exit_store)
       (w'\<lparr>iw_state := fold (\<lambda>f. f) fs (iw_state w'), iw_exit := []\<rparr>)"
proof (induction fs arbitrary: ls w')
  case Nil
  then show ?case by (cases w') simp
next
  case (Cons f fs)
  let ?w = "w'\<lparr>iw_state := f (iw_state w'), iw_exit := fs\<rparr>"
  have "steps (idle_step keep) w' [L_exit_store] ?w"
    by (rule steps_Cons, rule step_exit_store [OF Cons.prems(2)], rule steps_Nil)
  from steps_append [OF Cons.prems(1) this] have "steps (idle_step keep) w (ls @ [L_exit_store]) ?w" .
  from Cons.IH [OF this] show ?case by simp
qed

text \<open>
  Idle can get stuck half-entered: when a burst calls \<open>exit\<close> between the swap of ACTIVE and the
  stores of \<open>enter\<close>, both calls end with the workers above \<open>keep\<close> parked and ACTIVE
  false, so that no traffic, however heavy, unparks them.
\<close>

theorem idle_exit_race_parks_workers:
  assumes "may_enter keep s" "\<not> id_active s"
  shows "\<exists>ls w. steps (idle_step keep) \<lparr>iw_state = s, iw_enter = [], iw_exit = []\<rparr> ls w
    \<and> iw_enter w = [] \<and> iw_exit w = [] \<and> id_limit (iw_state w) = keep \<and> id_total (iw_state w) = id_total s
    \<and> (\<forall>packets. fold (\<lambda>(p, now). note_uplink p now) packets (iw_state w) = iw_state w)"
proof -
  let ?w0 = "\<lparr>iw_state = s, iw_enter = [], iw_exit = []\<rparr>"
  let ?w1 = "\<lparr>iw_state = s\<lparr>id_active := True\<rparr>, iw_enter = enter_stores keep, iw_exit = []\<rparr>"
  let ?w2 = "\<lparr>iw_state = s\<lparr>id_active := False\<rparr>, iw_enter = enter_stores keep, iw_exit = exit_stores\<rparr>"
  have a: "idle_step keep ?w0 L_enter ?w1" using step_enter [of ?w0 keep] assms by simp
  have b: "idle_step keep ?w1 L_exit ?w2" using step_exit [of ?w1 keep] by simp
  have "steps (idle_step keep) ?w0 [L_enter, L_exit] ?w2" by (rule steps_Cons, rule a, rule steps_Cons, rule b, rule steps_Nil)
  note run = run_exit_stores [OF this refl]
  define w where "w = \<lparr>iw_state = fold (\<lambda>f. f) (enter_stores keep) (fold (\<lambda>f. f) exit_stores (s\<lparr>id_active := False\<rparr>)),
    iw_enter = [], iw_exit = []\<rparr>"
  obtain ls where w: "steps (idle_step keep) ?w0 ls w"
    using run_enter_stores [OF run, of "enter_stores keep"] by (auto simp: w_def)
  have st: "iw_enter w = []" "iw_exit w = []" "id_limit (iw_state w) = keep" "id_total (iw_state w) = id_total s"
    "\<not> id_active (iw_state w)"
    by (simp_all add: w_def enter_stores_def exit_stores_def)
  have "fold (\<lambda>(p, now). note_uplink p now) packets (iw_state w) = iw_state w" for packets
    using st(5) by (induction packets) (auto simp: note_uplink_def)
  with w st show ?thesis by blast
qed

lemma idle_exit_race_parks_workers_witness:
  "\<exists>ls w. steps (idle_step 2) \<lparr>iw_state = idle_reset 5 idle_zero, iw_enter = [], iw_exit = []\<rparr> ls w
    \<and> iw_enter w = [] \<and> iw_exit w = [] \<and> \<not> allows 3 (iw_state w)"
  using idle_exit_race_parks_workers [of 2 "idle_reset 5 idle_zero"]
  by (fastforce simp: may_enter_def idle_reset_def allows_def)

section \<open>The burst counter\<close>

text \<open>The counter over a list of event times: its last answer, start and count.\<close>

definition count_events :: "nat \<Rightarrow> nat \<Rightarrow> nat list \<Rightarrow> bool \<times> nat \<times> nat \<Rightarrow> bool \<times> nat \<times> nat" where
  "count_events window limit ts st = fold (\<lambda>t (_, started, cnt). window_hit started cnt t window limit) ts st"

definition counts_recent :: "nat \<Rightarrow> nat list \<Rightarrow> bool \<times> nat \<times> nat \<Rightarrow> bool" where
  "counts_recent window ts st \<longleftrightarrow> (case st of (hit, started, cnt) \<Rightarrow>
     cnt \<le> length ts \<and> (\<forall>t\<in>set ts. t < started \<longrightarrow> cnt < length ts)
     \<and> list_all (\<lambda>t. started \<le> t \<and> t \<le> started + window) (drop (length ts - cnt) ts))"

lemma count_events_recent:
  assumes "sorted (start # ts)"
  shows "counts_recent window ts (count_events window limit ts (False, start, 0))"
    and "fst (snd (count_events window limit ts (False, start, 0))) \<le> last (start # ts)"
  using assms
proof (induction ts rule: rev_induct)
  case Nil
  case 1
  show ?case by (simp add: counts_recent_def count_events_def)
  case 2
  show ?case by (simp add: count_events_def)
next
  case (snoc t ts)
  obtain hit started cnt where st: "count_events window limit ts (False, start, 0) = (hit, started, cnt)"
    by (cases "count_events window limit ts (False, start, 0)") auto
  have step: "count_events window limit (ts @ [t]) (False, start, 0) = window_hit started cnt t window limit"
    using st by (simp add: count_events_def)
  have both: "counts_recent window (ts @ [t]) (window_hit started cnt t window limit)
      \<and> fst (snd (window_hit started cnt t window limit)) \<le> t"
    if "sorted (start # ts @ [t])"
  proof -
    have s: "sorted (start # ts)" "last (start # ts) \<le> t" using that by (auto simp: sorted_append)
    have "counts_recent window ts (hit, started, cnt)" "started \<le> t"
      using snoc.IH [OF s(1)] st s(2) by auto
    then show ?thesis
      by (auto simp: counts_recent_def window_hit_def Suc_diff_le)
  qed
  case 1
  then show ?case unfolding step using both by blast
  case 2
  then show ?case unfolding step using both by simp
qed

text \<open>
  A burst is real: when the counter hits, the last \<open>limit\<close> events lie within one window, for
  event times in order and a counter cleared before them.
\<close>

theorem window_hit_is_a_burst:
  assumes "sorted (start # ts)" "count_events window limit ts (False, start, 0) = (True, r)"
    and "2 \<le> limit"
  shows "limit \<le> length ts \<and> last ts - ts ! (length ts - limit) \<le> window"
proof -
  obtain started cnt where r: "count_events window limit ts (False, start, 0) = (True, started, cnt)"
    using assms(2) by (cases r) auto
  note c = count_events_recent(1) [OF assms(1), of window limit, unfolded r]
  have "ts \<noteq> []" using r by (auto simp: count_events_def)
  then obtain us t where ts: "ts = us @ [t]" by (cases ts rule: rev_cases) auto
  obtain h s' n where "count_events window limit us (False, start, 0) = (h, s', n)"
    by (cases "count_events window limit us (False, start, 0)") auto
  then have "window_hit s' n t window limit = (True, started, cnt)" using r by (simp add: ts count_events_def)
  then have l: "limit \<le> cnt" using assms(3) by (auto simp: window_hit_def split: if_splits)
  have n: "cnt \<le> length ts" using c by (simp add: counts_recent_def)
  with l have len: "limit \<le> length ts" by simp
  have "length ts - cnt < length ts" using l assms(3) \<open>ts \<noteq> []\<close> by simp
  then have "last ts \<in> set (drop (length ts - cnt) ts)"
    by (metis drop_eq_Nil last_drop last_in_set not_le)
  moreover have "ts ! (length ts - limit) \<in> set (drop (length ts - cnt) ts)"
    using l n len assms(3) by (auto simp: set_conv_nth intro!: exI [of _ "cnt - limit"])
  ultimately have "last ts \<le> started + window" "started \<le> ts ! (length ts - limit)"
    using c by (auto simp: counts_recent_def list_all_iff)
  then show ?thesis using len by simp
qed

lemma window_hit_is_a_burst_witness: "last [100, 200, 300] - [100, 200, 300 :: nat] ! (3 - 3) \<le> 3000"
  using window_hit_is_a_burst [of 0 "[100, 200, 300]" 3000 3 "(0, 3)"]
  by (simp add: count_events_def window_hit_def)

text \<open>
  The window does not slide: 22 packets within 0.8 seconds, nearly twice the threshold of 12 in
  one second, do not hit when they straddle the end of a window.
\<close>

theorem burst_across_windows_is_missed:
  "fst (count_events EXIT_PACKETS_WINDOW_MS EXIT_PACKETS (replicate 11 600 @ replicate 11 1400) (False, 0, 0)) = False
   \<and> length (replicate 11 600 @ replicate 11 (1400 :: nat)) = 22 \<and> 1400 - 600 \<le> EXIT_PACKETS_WINDOW_MS"
  by (simp add: count_events_def window_hit_def EXIT_PACKETS_WINDOW_MS_def EXIT_PACKETS_def numeral_eq_Suc)

end
