(* ===== verification/Flow_Reassembler.thy ===== *)
theory Flow_Reassembler
  imports Flow_Frame
begin

text \<open>
  The receiving side of \<open>shared/flow_frame.rs\<close>: \<open>FlowReassembler\<close>. \<open>accept_at\<close> is the
  body of \<open>push_at\<close> on the flow's entry; \<open>push_at\<close> finds or creates that entry. The state
  of a call is the flow's entry, the reassembler's \<open>pending_total\<close> and the output queue.
\<close>

section \<open>State and operations\<close>

record reassembly_key =
  rk_sender :: u64
  rk_flow :: u64

record 'v pending_frame =
  pd_sequence :: u32
  pd_value :: 'v

record 'v flow_state =
  fl_expected :: u32
  fl_gap :: "u64 option"
  fl_pending :: "'v pending_frame list"

record 'v reassembler =
  ra_flows :: "(reassembly_key, 'v flow_state) hash_map"
  ra_pending_total :: nat

definition new_reassembler :: "'v reassembler" where
  "new_reassembler = \<lparr>ra_flows = [], ra_pending_total = 0\<rparr>"

definition new_flow_state :: "'v flow_state" where
  "new_flow_state = \<lparr>fl_expected = 0, fl_gap = None, fl_pending = []\<rparr>"

definition is_forward :: "u32 \<Rightarrow> u32 \<Rightarrow> bool" where
  "is_forward sequence expected \<longleftrightarrow> sequence \<noteq> expected \<and> sequence - expected < 0x80000000"

function drain_contiguous :: "'v flow_state \<Rightarrow> 'v list \<Rightarrow> 'v flow_state \<times> 'v list" where
  "drain_contiguous st out =
     (case position (\<lambda>p. pd_sequence p = fl_expected st) (fl_pending st) of
        None \<Rightarrow> (st, out)
      | Some i \<Rightarrow>
          drain_contiguous
            (st\<lparr>fl_pending := swap_remove i (fl_pending st), fl_expected := fl_expected st + 1\<rparr>)
            (out @ [pd_value (fl_pending st ! i)]))"
  by pat_completeness auto
termination
  by (relation "measure (\<lambda>(st, out). length (fl_pending st))")
     (auto dest!: position_Some)

declare drain_contiguous.simps [simp del]

text \<open>The \<open>filter_map\<close> over the enumerated pending frames: index and distance of the forward ones.\<close>

definition forward_candidates :: "'v flow_state \<Rightarrow> (nat \<times> u32) list" where
  "forward_candidates st =
     map (\<lambda>(i, p). (i, pd_sequence p - fl_expected st))
       (filter (\<lambda>(i, p). is_forward (pd_sequence p) (fl_expected st))
         (List.enumerate 0 (fl_pending st)))"

definition release_lowest :: "'v flow_state \<Rightarrow> u64 \<Rightarrow> 'v list \<Rightarrow> 'v flow_state \<times> 'v list" where
  "release_lowest st now_ms out =
     (case min_by_key snd (forward_candidates st) of
        None \<Rightarrow> (st\<lparr>fl_gap := None\<rparr>, out)
      | Some (i, _) \<Rightarrow>
          let p = fl_pending st ! i;
              st = st\<lparr>fl_pending := swap_remove i (fl_pending st),
                      fl_expected := pd_sequence p + 1, fl_gap := None\<rparr>;
              (st, out) = drain_contiguous st (out @ [pd_value p])
          in (if fl_pending st = [] then st else st\<lparr>fl_gap := Some now_ms\<rparr>, out))"

definition release_expired :: "'v flow_state \<Rightarrow> u64 \<Rightarrow> 'v list \<Rightarrow> 'v flow_state \<times> 'v list" where
  "release_expired st now_ms out =
     (if (case fl_gap st of None \<Rightarrow> False
          | Some started \<Rightarrow> GAP_RELEASE_AFTER_MS \<le> unat now_ms - unat started)
      then release_lowest st now_ms out else (st, out))"

text \<open>
  Each release is followed by the same adjustment of \<open>pending_total\<close>; both subtractions of
  the code saturate, as those of the naturals do.
\<close>

definition settle :: "nat \<Rightarrow> 'v flow_state \<Rightarrow> 'v flow_state \<Rightarrow> nat" where
  "settle pt before after = pt - (length (fl_pending before) - length (fl_pending after))"

text \<open>
  The body of \<open>push_at\<close> in three pieces: \<open>accept_queue\<close> from the statement that pushes
  the frame on, \<open>accept_forward\<close> from the test of the per-flow limit on, and
  \<open>accept_at\<close> the whole.
\<close>

definition accept_queue ::
  "u32 \<Rightarrow> 'v \<Rightarrow> u64 \<Rightarrow> 'v flow_state \<Rightarrow> nat \<Rightarrow> 'v list \<Rightarrow> 'v flow_state \<times> nat \<times> 'v list" where
  "accept_queue sequence value now_ms st3 pt3 out3 =
     (let st4 = st3\<lparr>fl_pending :=
            fl_pending st3 @ [\<lparr>pd_sequence = sequence, pd_value = value\<rparr>]\<rparr>;
          pt4 = pt3 + 1;
          (st5, out5) =
            (if MAX_PENDING_TOTAL < pt4 then release_lowest st4 now_ms out3 else (st4, out3));
          pt5 = settle pt4 st4 st5;
          st6 = (if fl_gap st5 = None then st5\<lparr>fl_gap := Some now_ms\<rparr> else st5);
          (st7, out7) = release_expired st6 now_ms out5
      in (st7, settle pt5 st6 st7, out7))"

definition accept_forward ::
  "u32 \<Rightarrow> 'v \<Rightarrow> u64 \<Rightarrow> 'v flow_state \<Rightarrow> nat \<Rightarrow> 'v list \<Rightarrow> 'v flow_state \<times> nat \<times> 'v list" where
  "accept_forward sequence value now_ms st1 pt1 out1 =
     (let (st2, out2) =
            (if length (fl_pending st1) = MAX_PENDING_PER_FLOW
             then release_lowest st1 now_ms out1 else (st1, out1));
          pt2 = settle pt1 st1 st2
      in if pt2 = MAX_PENDING_TOTAL \<and> fl_pending st2 = [] then
           (st2\<lparr>fl_expected := sequence + 1, fl_gap := None\<rparr>, pt2, out2 @ [value])
         else
           let (st3, out3) =
                 (if pt2 = MAX_PENDING_TOTAL
                  then release_lowest st2 now_ms out2 else (st2, out2));
               pt3 = settle pt2 st2 st3
           in accept_queue sequence value now_ms st3 pt3 out3)"

definition accept_at ::
  "u32 \<Rightarrow> 'v \<Rightarrow> u64 \<Rightarrow> 'v flow_state \<Rightarrow> nat \<Rightarrow> 'v list \<Rightarrow> 'v flow_state \<times> nat \<times> 'v list" where
  "accept_at sequence value now_ms st0 pt0 out0 =
     (let (st1, out1) = release_expired st0 now_ms out0; pt1 = settle pt0 st0 st1 in
      if sequence = fl_expected st1 then
        let st2 = st1\<lparr>fl_expected := fl_expected st1 + 1, fl_gap := None\<rparr>;
            (st3, out3) = drain_contiguous st2 (out1 @ [value])
        in (st3, settle pt1 st2 st3, out3)
      else if \<not> is_forward sequence (fl_expected st1)
           \<or> (\<exists>p\<in>set (fl_pending st1). pd_sequence p = sequence) then (st1, pt1, out1)
      else accept_forward sequence value now_ms st1 pt1 out1)"

definition push_at ::
  "frame_header \<Rightarrow> 'v \<Rightarrow> u64 \<Rightarrow> 'v reassembler \<Rightarrow> 'v list \<Rightarrow> 'v reassembler \<times> 'v list" where
  "push_at header value now_ms ra out =
     (let key = \<lparr>rk_sender = fh_sender header, rk_flow = fh_flow header\<rparr>;
          ra = (if length (ra_flows ra) = MAX_TRACKED_FLOWS \<and> map_of (ra_flows ra) key = None
                then \<lparr>ra_flows = [], ra_pending_total = 0\<rparr> else ra);
          st = (case map_of (ra_flows ra) key of None \<Rightarrow> new_flow_state | Some st \<Rightarrow> st);
          (st, pt, out) =
            accept_at (fh_sequence header) value now_ms st (ra_pending_total ra) out
      in (\<lparr>ra_flows = map_insert key st (ra_flows ra), ra_pending_total = pt\<rparr>, out))"

section \<open>Chains of sequence numbers\<close>

text \<open>
  \<open>chain e ss e'\<close>: starting from expected number \<open>e\<close>, releasing the sequence numbers
  \<open>ss\<close> in that order moves only forward (each is at most half the number space ahead of the
  one expected) and leaves \<open>e'\<close> expected.
\<close>

fun chain :: "u32 \<Rightarrow> u32 list \<Rightarrow> u32 \<Rightarrow> bool" where
  "chain e [] e' \<longleftrightarrow> e = e'"
| "chain e (s # ss) e' \<longleftrightarrow> s - e < 0x80000000 \<and> chain (s + 1) ss e'"

lemma chain_append: "chain e (ss @ ts) e'' \<longleftrightarrow> (\<exists>e'. chain e ss e' \<and> chain e' ts e'')"
  by (induction ss arbitrary: e) auto

lemma chain_snoc: "chain e ss s' \<Longrightarrow> s - s' < 0x80000000 \<Longrightarrow> chain e (ss @ [s]) (s + 1)"
  by (auto simp: chain_append)

lemma chain_trans: "chain e ss e' \<Longrightarrow> chain e' ts e'' \<Longrightarrow> chain e (ss @ ts) e''"
  by (auto simp: chain_append)

text \<open>
  \<open>step_ok\<close> is what every release guarantees: the values it appends to the output are those of
  frames taken from the pending ones, each once, and their sequence numbers form a chain. Nothing
  is lost: the frames released and the frames kept are the frames there were.
\<close>

definition step_ok :: "'v flow_state \<Rightarrow> 'v list \<Rightarrow> 'v flow_state \<Rightarrow> 'v list \<Rightarrow> bool" where
  "step_ok st out st' out' \<longleftrightarrow>
     (\<exists>rs. out' = out @ map pd_value rs
        \<and> chain (fl_expected st) (map pd_sequence rs) (fl_expected st')
        \<and> mset rs + mset (fl_pending st') = mset (fl_pending st))"

named_theorems step_intros "steps of a flow entry"

lemma step_okI:
  assumes "out' = out @ map pd_value rs"
    and "chain (fl_expected st) (map pd_sequence rs) (fl_expected st')"
    and "mset rs + mset (fl_pending st') = mset (fl_pending st)"
  shows "step_ok st out st' out'"
  using assms by (auto simp: step_ok_def)

lemma step_okE:
  assumes "step_ok st out st' out'"
  obtains rs where "out' = out @ map pd_value rs"
    "chain (fl_expected st) (map pd_sequence rs) (fl_expected st')"
    "mset rs + mset (fl_pending st') = mset (fl_pending st)"
  using assms by (auto simp: step_ok_def)

lemma step_ok_refl [step_intros]:
  "fl_expected st' = fl_expected st \<Longrightarrow> fl_pending st' = fl_pending st \<Longrightarrow> step_ok st out st' out"
  by (rule step_okI [where rs = "[]"]) auto

lemma step_ok_trans:
  assumes "step_ok a out b out'" "step_ok b out' c out''"
  shows "step_ok a out c out''"
proof -
  obtain rs where r: "out' = out @ map pd_value rs"
    "chain (fl_expected a) (map pd_sequence rs) (fl_expected b)"
    "mset rs + mset (fl_pending b) = mset (fl_pending a)"
    using assms(1) by (rule step_okE)
  obtain ts where t: "out'' = out' @ map pd_value ts"
    "chain (fl_expected b) (map pd_sequence ts) (fl_expected c)"
    "mset ts + mset (fl_pending c) = mset (fl_pending b)"
    using assms(2) by (rule step_okE)
  show ?thesis
  proof (rule step_okI [where rs = "rs @ ts"])
    show "mset (rs @ ts) + mset (fl_pending c) = mset (fl_pending a)"
      using r(3) t(3) by (simp add: union_assoc)
  qed (use r t in \<open>auto intro: chain_trans\<close>)
qed

lemma step_ok_length: "step_ok st out st' out' \<Longrightarrow> length (fl_pending st') \<le> length (fl_pending st)"
  by (erule step_okE) (metis mset_subset_eq_add_right size_mset size_mset_mono)

lemma step_ok_remove:
  assumes "i < length (fl_pending st)"
    and "pd_sequence (fl_pending st ! i) - fl_expected st < 0x80000000"
    and "fl_pending st' = swap_remove i (fl_pending st)"
    and "fl_expected st' = pd_sequence (fl_pending st ! i) + 1"
  shows "step_ok st out st' (out @ [pd_value (fl_pending st ! i)])"
  using assms mset_swap_remove [OF assms(1)]
  by (intro step_okI [where rs = "[fl_pending st ! i]"]) auto

lemma step_ok_drain: "drain_contiguous st out = (st', out') \<Longrightarrow> step_ok st out st' out'"
proof (induction st out rule: drain_contiguous.induct)
  case (1 st out)
  show ?case
  proof (cases "position (\<lambda>p. pd_sequence p = fl_expected st) (fl_pending st)")
    case None
    with 1(2) show ?thesis by (auto simp: drain_contiguous.simps [of st] intro: step_intros)
  next
    case (Some i)
    let ?st = "st\<lparr>fl_pending := swap_remove i (fl_pending st), fl_expected := fl_expected st + 1\<rparr>"
    note i = position_Some [OF Some]
    have "step_ok st out ?st (out @ [pd_value (fl_pending st ! i)])"
      using i by (intro step_ok_remove) auto
    moreover have "step_ok ?st (out @ [pd_value (fl_pending st ! i)]) st' out'"
      using 1(2) Some by (intro 1(1)) (simp_all add: drain_contiguous.simps [of st])
    ultimately show ?thesis by (rule step_ok_trans)
  qed
qed

lemma forward_candidates_in:
  "(i, d) \<in> set (forward_candidates st) \<Longrightarrow>
     i < length (fl_pending st) \<and> is_forward (pd_sequence (fl_pending st ! i)) (fl_expected st)
     \<and> d = pd_sequence (fl_pending st ! i) - fl_expected st"
  by (auto simp: forward_candidates_def in_set_enumerate_eq)

text \<open>A release either frees a frame or finds no forward one and leaves the entry as it was.\<close>

lemma release_lowest_cases:
  assumes "release_lowest st now out = (st', out')"
  obtains (frees) "step_ok st out st' out'" "length (fl_pending st') < length (fl_pending st)"
  | (idle) "fl_expected st' = fl_expected st" "fl_pending st' = fl_pending st" "out' = out"
      "forward_candidates st = []"
proof (cases "min_by_key snd (forward_candidates st)")
  case None
  with assms show ?thesis by (intro idle) (auto simp: release_lowest_def)
next
  case (Some c)
  obtain j d where jd: "c = (j, d)" by (cases c)
  have j: "j < length (fl_pending st)" "is_forward (pd_sequence (fl_pending st ! j)) (fl_expected st)"
    using min_by_key_Some [OF Some] jd by (auto dest: forward_candidates_in)
  let ?st = "st\<lparr>fl_pending := swap_remove j (fl_pending st),
    fl_expected := pd_sequence (fl_pending st ! j) + 1, fl_gap := None\<rparr>"
  obtain st2 out2 where d: "drain_contiguous ?st (out @ [pd_value (fl_pending st ! j)]) = (st2, out2)"
    by fastforce
  have a: "step_ok st out ?st (out @ [pd_value (fl_pending st ! j)])"
    using j by (intro step_ok_remove) (auto simp: is_forward_def)
  have b: "step_ok ?st (out @ [pd_value (fl_pending st ! j)]) st2 out2"
    using d by (rule step_ok_drain)
  have st': "out' = out2" "fl_pending st' = fl_pending st2" "fl_expected st' = fl_expected st2"
    using assms Some jd d by (auto simp: release_lowest_def Let_def split: if_splits)
  then have "step_ok st2 out2 st' out'" by (auto intro: step_intros)
  with a b have "step_ok st out st' out'" by (blast intro: step_ok_trans)
  moreover have "length (fl_pending st') < length (fl_pending st)"
    using step_ok_length [OF b] j st' by simp
  ultimately show ?thesis by (rule frees)
qed

lemma step_ok_release_lowest: "release_lowest st now out = (st', out') \<Longrightarrow> step_ok st out st' out'"
  by (erule release_lowest_cases) (auto intro: step_intros)

lemma step_ok_release_expired: "release_expired st now out = (st', out') \<Longrightarrow> step_ok st out st' out'"
  by (auto simp: release_expired_def intro: step_intros step_ok_release_lowest split: if_splits)

lemma forward_candidates_nonempty:
  assumes "p \<in> set (fl_pending st)" "is_forward (pd_sequence p) (fl_expected st)"
  shows "forward_candidates st \<noteq> []"
proof -
  obtain i where "i < length (fl_pending st)" "fl_pending st ! i = p"
    using assms(1) by (auto simp: in_set_conv_nth)
  then have "(i, pd_sequence p - fl_expected st) \<in> set (forward_candidates st)"
    using assms(2) by (force simp: forward_candidates_def in_set_enumerate_eq)
  then show ?thesis by auto
qed

lemma release_lowest_frees:
  assumes "p \<in> set (fl_pending st)" "is_forward (pd_sequence p) (fl_expected st)"
    and "release_lowest st now out = (st', out')"
  shows "length (fl_pending st') < length (fl_pending st)"
  using release_lowest_cases [OF assms(3)] forward_candidates_nonempty [OF assms(1,2)] by blast

text \<open>A release at a full buffer, or none: the forward frame at hand stays forward unless room is made.\<close>

lemma release_if_full:
  assumes "(if full then release_lowest st now out else (st, out)) = (st', out')"
  shows "step_ok st out st' out'"
    and "length (fl_pending st') < length (fl_pending st)
         \<or> fl_expected st' = fl_expected st \<and> fl_pending st' = fl_pending st"
proof -
  show "step_ok st out st' out'"
    using assms by (auto intro: step_intros step_ok_release_lowest split: if_splits)
  show "length (fl_pending st') < length (fl_pending st)
      \<or> fl_expected st' = fl_expected st \<and> fl_pending st' = fl_pending st"
  proof (cases full)
    case True
    with assms have "release_lowest st now out = (st', out')" by simp
    then show ?thesis by (rule release_lowest_cases) auto
  next
    case False
    with assms show ?thesis by simp
  qed
qed

text \<open>
  A release moves the total and the entry's own count by the same amount; \<open>rest\<close> counts the
  frames of the other flows.
\<close>

lemma settle_step:
  "step_ok st out st' out' \<Longrightarrow> settle (rest + length (fl_pending st)) st st' = rest + length (fl_pending st')"
  by (auto simp: settle_def dest: step_ok_length)

section \<open>One call\<close>

text \<open>
  What a call that brings \<open>frame\<close> guarantees: chained releases, the frames released and
  kept are those there were with or without the new one, and the total is exact and within its
  limit.
\<close>

definition accept_ok ::
  "'v pending_frame \<Rightarrow> nat \<Rightarrow> 'v flow_state \<Rightarrow> 'v list \<Rightarrow> 'v flow_state \<times> nat \<times> 'v list \<Rightarrow> bool" where
  "accept_ok frame rest st out r \<longleftrightarrow>
     (case r of (st', pt', out') \<Rightarrow>
        pt' = rest + length (fl_pending st') \<and> pt' \<le> MAX_PENDING_TOTAL
        \<and> (\<exists>rs. out' = out @ map pd_value rs
             \<and> chain (fl_expected st) (map pd_sequence rs) (fl_expected st')
             \<and> mset rs + mset (fl_pending st')
                 \<in> {mset (fl_pending st), add_mset frame (mset (fl_pending st))}))"

lemma accept_okI:
  assumes "pt' = rest + length (fl_pending st')" "pt' \<le> MAX_PENDING_TOTAL"
    and "out' = out @ map pd_value rs"
    and "chain (fl_expected st) (map pd_sequence rs) (fl_expected st')"
    and "mset rs + mset (fl_pending st') \<in> {mset (fl_pending st), add_mset frame (mset (fl_pending st))}"
  shows "accept_ok frame rest st out (st', pt', out')"
  using assms by (auto simp: accept_ok_def)

lemma accept_ok_after:
  assumes "step_ok st out st' out'" "accept_ok frame rest st' out' r"
  shows "accept_ok frame rest st out r"
proof -
  obtain st2 pt2 out2 where r: "r = (st2, pt2, out2)" by (cases r)
  obtain vs where v: "out' = out @ map pd_value vs"
    "chain (fl_expected st) (map pd_sequence vs) (fl_expected st')"
    "mset vs + mset (fl_pending st') = mset (fl_pending st)"
    using assms(1) by (rule step_okE)
  obtain ws where w: "out2 = out' @ map pd_value ws"
    "chain (fl_expected st') (map pd_sequence ws) (fl_expected st2)"
    "mset ws + mset (fl_pending st2) \<in> {mset (fl_pending st'), add_mset frame (mset (fl_pending st'))}"
    and pt: "pt2 = rest + length (fl_pending st2)" "pt2 \<le> MAX_PENDING_TOTAL"
    using assms(2) r by (auto simp: accept_ok_def)
  have "mset (vs @ ws) + mset (fl_pending st2)
      \<in> {mset (fl_pending st), add_mset frame (mset (fl_pending st))}"
    using w(3) v(3) by (auto simp: union_assoc)
  then show ?thesis unfolding r
    using pt v w by (intro accept_okI [where rs = "vs @ ws"]) (auto intro: chain_trans)
qed

lemma accept_queue_ok:
  assumes pt: "rest + length (fl_pending st3) \<le> MAX_PENDING_TOTAL"
    and fresh: "rest + length (fl_pending st3) = MAX_PENDING_TOTAL \<Longrightarrow> is_forward s (fl_expected st3)"
  shows "accept_ok \<lparr>pd_sequence = s, pd_value = v\<rparr> rest st3 out
           (accept_queue s v now st3 (rest + length (fl_pending st3)) out)"
proof -
  let ?frame = "\<lparr>pd_sequence = s, pd_value = v\<rparr>"
  define st4 where "st4 = st3\<lparr>fl_pending := fl_pending st3 @ [?frame]\<rparr>"
  let ?pt4 = "rest + length (fl_pending st3) + 1"
  obtain st5 out5 where five:
    "(if MAX_PENDING_TOTAL < ?pt4 then release_lowest st4 now out else (st4, out)) = (st5, out5)"
    by fastforce
  let ?st6 = "if fl_gap st5 = None then st5\<lparr>fl_gap := Some now\<rparr> else st5"
  obtain st7 out7 where seven: "release_expired ?st6 now out5 = (st7, out7)" by fastforce
  have s45: "step_ok st4 out st5 out5" using five by (rule release_if_full(1))
  have s56: "step_ok st4 out ?st6 out5"
    using s45 by (rule step_ok_trans) (auto intro: step_intros)
  have s67: "step_ok ?st6 out5 st7 out7" using seven by (rule step_ok_release_expired)
  have s47: "step_ok st4 out st7 out7" using s56 s67 by (rule step_ok_trans)
  have p5: "settle ?pt4 st4 st5 = rest + length (fl_pending st5)"
    using settle_step [OF s45, of rest] by (simp add: st4_def)
  have len6: "length (fl_pending ?st6) = length (fl_pending st5)" by simp
  have p7: "settle (settle ?pt4 st4 st5) ?st6 st7 = rest + length (fl_pending st7)"
    using settle_step [OF s67, of rest] by (simp only: p5 len6)
  have "rest + length (fl_pending st5) \<le> MAX_PENDING_TOTAL"
  proof (cases "MAX_PENDING_TOTAL < ?pt4")
    case True
    then have "is_forward s (fl_expected st3)" using pt fresh by simp
    then have "length (fl_pending st5) < length (fl_pending st4)"
      using five True
      by (intro release_lowest_frees [of ?frame st4 now out]) (auto simp: st4_def)
    with pt show ?thesis by (simp add: st4_def)
  next
    case False
    with five have "st5 = st4" by simp
    with False show ?thesis by (simp add: st4_def)
  qed
  moreover have "length (fl_pending st7) \<le> length (fl_pending st5)"
    using step_ok_length [OF s67] by (simp split: if_splits)
  ultimately have le: "rest + length (fl_pending st7) \<le> MAX_PENDING_TOTAL" by simp
  obtain rs where rs: "out7 = out @ map pd_value rs"
    "chain (fl_expected st4) (map pd_sequence rs) (fl_expected st7)"
    "mset rs + mset (fl_pending st7) = mset (fl_pending st4)"
    using s47 by (rule step_okE)
  then have "accept_ok ?frame rest st3 out (st7, rest + length (fl_pending st7), out7)"
    using le by (intro accept_okI [where rs = rs]) (simp_all add: st4_def)
  moreover have "accept_queue s v now st3 (rest + length (fl_pending st3)) out =
      (st7, settle (settle ?pt4 st4 st5) ?st6 st7, out7)"
    unfolding accept_queue_def Let_def st4_def [symmetric] five split seven by (rule refl)
  ultimately show ?thesis by (simp only: p7)
qed

lemma accept_forward_ok:
  assumes pt: "rest + length (fl_pending st1) \<le> MAX_PENDING_TOTAL"
    and fwd: "is_forward s (fl_expected st1)"
  shows "accept_ok \<lparr>pd_sequence = s, pd_value = v\<rparr> rest st1 out
           (accept_forward s v now st1 (rest + length (fl_pending st1)) out)"
proof -
  obtain st2 out2 where two: "(if length (fl_pending st1) = MAX_PENDING_PER_FLOW
      then release_lowest st1 now out else (st1, out)) = (st2, out2)" by fastforce
  note s12 = release_if_full [OF two]
  have p2: "settle (rest + length (fl_pending st1)) st1 st2 = rest + length (fl_pending st2)"
    using s12(1) by (rule settle_step)
  have le2: "rest + length (fl_pending st2) \<le> MAX_PENDING_TOTAL"
    using pt step_ok_length [OF s12(1)] by simp
  have fwd2: "is_forward s (fl_expected st2)"
    if "rest + length (fl_pending st2) = MAX_PENDING_TOTAL"
    using that s12(2) pt fwd by auto
  show ?thesis
  proof (cases "rest + length (fl_pending st2) = MAX_PENDING_TOTAL \<and> fl_pending st2 = []")
    case True
    have "accept_forward s v now st1 (rest + length (fl_pending st1)) out =
        (st2\<lparr>fl_expected := s + 1, fl_gap := None\<rparr>, rest + length (fl_pending st2), out2 @ [v])"
      unfolding accept_forward_def two Let_def split p2 using True by (rule if_P)
    moreover have "accept_ok \<lparr>pd_sequence = s, pd_value = v\<rparr> rest st2 out2
        (st2\<lparr>fl_expected := s + 1, fl_gap := None\<rparr>, rest + length (fl_pending st2), out2 @ [v])"
      using True fwd2 by (intro accept_okI [where rs = "[\<lparr>pd_sequence = s, pd_value = v\<rparr>]"])
        (auto simp: is_forward_def)
    ultimately show ?thesis by (simp only: accept_ok_after [OF s12(1)])
  next
    case False
    obtain st3 out3 where three: "(if rest + length (fl_pending st2) = MAX_PENDING_TOTAL
        then release_lowest st2 now out2 else (st2, out2)) = (st3, out3)" by fastforce
    note s23 = release_if_full [OF three]
    have p3: "settle (rest + length (fl_pending st2)) st2 st3 = rest + length (fl_pending st3)"
      using s23(1) by (rule settle_step)
    have "accept_forward s v now st1 (rest + length (fl_pending st1)) out =
        accept_queue s v now st3 (rest + length (fl_pending st3)) out3"
      unfolding accept_forward_def two Let_def split p2 three p3 using False by (rule if_not_P)
    moreover have "accept_ok \<lparr>pd_sequence = s, pd_value = v\<rparr> rest st3 out3
        (accept_queue s v now st3 (rest + length (fl_pending st3)) out3)"
      using le2 step_ok_length [OF s23(1)] s23(2) fwd2 by (intro accept_queue_ok) auto
    ultimately show ?thesis
      by (simp only: accept_ok_after [OF s12(1) accept_ok_after [OF s23(1)]])
  qed
qed

lemma accept_at_ok:
  assumes pt: "rest + length (fl_pending st0) \<le> MAX_PENDING_TOTAL"
  shows "accept_ok \<lparr>pd_sequence = s, pd_value = v\<rparr> rest st0 out0
           (accept_at s v now st0 (rest + length (fl_pending st0)) out0)"
    (is "accept_ok ?frame rest st0 out0 ?r")
proof -
  obtain st1 out1 where one: "release_expired st0 now out0 = (st1, out1)" by fastforce
  have s01: "step_ok st0 out0 st1 out1" using one by (rule step_ok_release_expired)
  have p1: "settle (rest + length (fl_pending st0)) st0 st1 = rest + length (fl_pending st1)"
    using s01 by (rule settle_step)
  have le1: "rest + length (fl_pending st1) \<le> MAX_PENDING_TOTAL"
    using pt step_ok_length [OF s01] by simp
  let ?drop = "\<not> is_forward s (fl_expected st1) \<or> (\<exists>p\<in>set (fl_pending st1). pd_sequence p = s)"
  consider (next_up) "s = fl_expected st1" | (drop) "s \<noteq> fl_expected st1" "?drop"
    | (forward) "s \<noteq> fl_expected st1" "\<not> ?drop" by blast
  then have "accept_ok ?frame rest st1 out1 ?r"
  proof cases
    case next_up
    let ?st2 = "st1\<lparr>fl_expected := fl_expected st1 + 1, fl_gap := None\<rparr>"
    obtain st3 out3 where d: "drain_contiguous ?st2 (out1 @ [v]) = (st3, out3)" by fastforce
    have s23: "step_ok ?st2 (out1 @ [v]) st3 out3" using d by (rule step_ok_drain)
    obtain rs where rs: "out3 = (out1 @ [v]) @ map pd_value rs"
      "chain (fl_expected ?st2) (map pd_sequence rs) (fl_expected st3)"
      "mset rs + mset (fl_pending st3) = mset (fl_pending ?st2)"
      using s23 by (rule step_okE)
    have "?r = (st3, rest + length (fl_pending st3), out3)"
      using next_up one d settle_step [OF s23, of rest] by (simp add: accept_at_def Let_def p1)
    moreover have "rest + length (fl_pending st3) \<le> MAX_PENDING_TOTAL"
      using le1 step_ok_length [OF s23] by simp
    ultimately show ?thesis
      using rs next_up by (simp only:) (intro accept_okI [where rs = "?frame # rs"], auto)
  next
    case drop
    then have "?r = (st1, rest + length (fl_pending st1), out1)"
      using one by (simp add: accept_at_def Let_def p1)
    then show ?thesis
      using le1 by (simp only:) (intro accept_okI [where rs = "[]"], auto)
  next
    case forward
    then have "?r = accept_forward s v now st1 (rest + length (fl_pending st1)) out1"
      using one by (simp add: accept_at_def Let_def p1)
    with forward show ?thesis
      using accept_forward_ok [OF le1] by simp
  qed
  then show ?thesis by (rule accept_ok_after [OF s01])
qed

section \<open>The whole reassembler\<close>

text \<open>
  \<open>pending_total\<close> is the number of frames held back over all flows, it never exceeds its
  limit, and the table of flows stays within its own.
\<close>

definition held :: "'v reassembler \<Rightarrow> nat" where
  "held ra = sum_list (map ((\<lambda>st. length (fl_pending st)) \<circ> snd) (ra_flows ra))"

definition wf_reassembler :: "'v reassembler \<Rightarrow> bool" where
  "wf_reassembler ra \<longleftrightarrow> wf_map (ra_flows ra) \<and> length (ra_flows ra) \<le> MAX_TRACKED_FLOWS
     \<and> ra_pending_total ra = held ra \<and> held ra \<le> MAX_PENDING_TOTAL"

definition key_of :: "frame_header \<Rightarrow> reassembly_key" where
  "key_of h = \<lparr>rk_sender = fh_sender h, rk_flow = fh_flow h\<rparr>"

text \<open>The table and the entry as a call for \<open>h\<close> sees them.\<close>

definition table_for :: "frame_header \<Rightarrow> 'v reassembler \<Rightarrow> 'v reassembler" where
  "table_for h ra =
     (if length (ra_flows ra) = MAX_TRACKED_FLOWS \<and> map_of (ra_flows ra) (key_of h) = None
      then new_reassembler else ra)"

definition entry_for :: "frame_header \<Rightarrow> 'v reassembler \<Rightarrow> 'v flow_state" where
  "entry_for h ra =
     (case map_of (ra_flows (table_for h ra)) (key_of h) of None \<Rightarrow> new_flow_state | Some st \<Rightarrow> st)"

lemma push_at_eq:
  "push_at h v now ra out =
     (let (st, pt, out) = accept_at (fh_sequence h) v now (entry_for h ra)
            (ra_pending_total (table_for h ra)) out
      in (\<lparr>ra_flows = map_insert (key_of h) st (ra_flows (table_for h ra)), ra_pending_total = pt\<rparr>, out))"
  by (simp add: push_at_def entry_for_def table_for_def key_of_def new_reassembler_def Let_def)

lemma wf_new_reassembler: "wf_reassembler new_reassembler"
  by (simp add: wf_reassembler_def new_reassembler_def held_def)

lemma wf_table_for: "wf_reassembler ra \<Longrightarrow> wf_reassembler (table_for h ra)"
  by (simp add: table_for_def wf_new_reassembler)

lemma table_for_room:
  "wf_reassembler ra \<Longrightarrow> map_of (ra_flows (table_for h ra)) (key_of h) = None \<Longrightarrow>
     length (ra_flows (table_for h ra)) < MAX_TRACKED_FLOWS"
  by (auto simp: table_for_def new_reassembler_def wf_reassembler_def MAX_TRACKED_FLOWS_def
      split: if_splits)

text \<open>The frames held for the other flows, and the accounting of one call.\<close>

lemma held_entry:
  assumes "wf_reassembler ra"
  obtains rest where "held (table_for h ra) = rest + length (fl_pending (entry_for h ra))"
    "\<And>st. held \<lparr>ra_flows = map_insert (key_of h) st (ra_flows (table_for h ra)), ra_pending_total = pt\<rparr>
       = rest + length (fl_pending st)"
proof -
  let ?len = "\<lambda>st :: 'a flow_state. length (fl_pending st)"
  let ?m = "ra_flows (table_for h ra)"
  have wf: "wf_map ?m" using wf_table_for [OF assms, of h] by (simp add: wf_reassembler_def)
  have le: "?len (entry_for h ra) \<le> held (table_for h ra)"
    using map_of_sum_le [of ?m "key_of h" _ ?len]
    by (auto simp: entry_for_def held_def new_flow_state_def split: option.splits)
  have sum: "sum_list (map (?len \<circ> snd) (map_insert (key_of h) st ?m)) + ?len (entry_for h ra)
      = sum_list (map (?len \<circ> snd) ?m) + ?len st" for st
    using sum_list_map_insert [OF wf, of ?len "key_of h" st]
    by (auto simp: entry_for_def new_flow_state_def split: option.splits)
  show ?thesis
  proof (rule that [of "held (table_for h ra) - ?len (entry_for h ra)"])
    show "held (table_for h ra) = held (table_for h ra) - ?len (entry_for h ra) + ?len (entry_for h ra)"
      using le by simp
    show "held \<lparr>ra_flows = map_insert (key_of h) st ?m, ra_pending_total = pt\<rparr>
        = held (table_for h ra) - ?len (entry_for h ra) + ?len st" for st
      using sum [of st] le by (simp add: held_def)
  qed
qed

definition push_ok ::
  "frame_header \<Rightarrow> 'v \<Rightarrow> 'v reassembler \<Rightarrow> 'v list \<Rightarrow> 'v reassembler \<times> 'v list \<Rightarrow> bool" where
  "push_ok h v ra out r \<longleftrightarrow>
     wf_reassembler (fst r)
     \<and> (\<exists>rs st. snd r = out @ map pd_value rs \<and> map_of (ra_flows (fst r)) (key_of h) = Some st
          \<and> chain (fl_expected (entry_for h ra)) (map pd_sequence rs) (fl_expected st)
          \<and> mset rs + mset (fl_pending st)
              \<in> {mset (fl_pending (entry_for h ra)),
                 add_mset \<lparr>pd_sequence = fh_sequence h, pd_value = v\<rparr> (mset (fl_pending (entry_for h ra)))})"

lemma push_at_ok:
  assumes "wf_reassembler ra"
  shows "push_ok h v ra out (push_at h v now ra out)"
proof -
  let ?tab = "table_for h ra" and ?st0 = "entry_for h ra"
  obtain st pt out' where acc:
    "accept_at (fh_sequence h) v now ?st0 (ra_pending_total ?tab) out = (st, pt, out')"
    by (cases "accept_at (fh_sequence h) v now ?st0 (ra_pending_total ?tab) out")
  obtain rest where rest: "held ?tab = rest + length (fl_pending ?st0)"
    "\<And>st. held \<lparr>ra_flows = map_insert (key_of h) st (ra_flows ?tab), ra_pending_total = pt\<rparr>
       = rest + length (fl_pending st)"
    using held_entry [OF assms, of h pt] by blast
  have wf: "wf_reassembler ?tab" using assms by (rule wf_table_for)
  then have pt0: "ra_pending_total ?tab = rest + length (fl_pending ?st0)"
    "rest + length (fl_pending ?st0) \<le> MAX_PENDING_TOTAL"
    using rest by (auto simp: wf_reassembler_def)
  have "accept_ok \<lparr>pd_sequence = fh_sequence h, pd_value = v\<rparr> rest ?st0 out (st, pt, out')"
    using accept_at_ok [OF pt0(2), of "fh_sequence h" v out now] acc pt0(1) by simp
  then have ok: "pt = rest + length (fl_pending st)" "pt \<le> MAX_PENDING_TOTAL"
    "\<exists>rs. out' = out @ map pd_value rs \<and> chain (fl_expected ?st0) (map pd_sequence rs) (fl_expected st)
      \<and> mset rs + mset (fl_pending st) \<in> {mset (fl_pending ?st0),
          add_mset \<lparr>pd_sequence = fh_sequence h, pd_value = v\<rparr> (mset (fl_pending ?st0))}"
    by (auto simp: accept_ok_def)
  have "length (map_insert (key_of h) st (ra_flows ?tab)) \<le> MAX_TRACKED_FLOWS"
    using wf table_for_room [OF assms, of h]
    by (auto simp: length_map_insert wf_reassembler_def map_of_None_key)
  then have "wf_reassembler \<lparr>ra_flows = map_insert (key_of h) st (ra_flows ?tab), ra_pending_total = pt\<rparr>"
    using wf ok rest(2) by (simp add: wf_reassembler_def)
  moreover have "push_at h v now ra out =
      (\<lparr>ra_flows = map_insert (key_of h) st (ra_flows ?tab), ra_pending_total = pt\<rparr>, out')"
    by (simp add: push_at_eq acc)
  ultimately show ?thesis using ok by (simp add: push_ok_def)
qed

section \<open>In-window reordering is undone\<close>

text \<open>
  Frames of one flow are numbered by naturals \<open>k\<close> with values \<open>f k\<close>. \<open>window f e L\<close>
  is the entry that expects number \<open>e\<close> and holds back the frames numbered in \<open>L\<close>.
\<close>

definition frame_at :: "(nat \<Rightarrow> 'v) \<Rightarrow> nat \<Rightarrow> 'v pending_frame" where
  "frame_at f k = \<lparr>pd_sequence = word_of_nat k, pd_value = f k\<rparr>"

definition window :: "(nat \<Rightarrow> 'v) \<Rightarrow> nat \<Rightarrow> nat list \<Rightarrow> 'v flow_state \<Rightarrow> bool" where
  "window f e L st \<longleftrightarrow> fl_expected st = word_of_nat e \<and> fl_pending st = map (frame_at f) L"

lemma frame_at_simps [simp]:
  "pd_sequence (frame_at f k) = word_of_nat k" "pd_value (frame_at f k) = f k"
  by (simp_all add: frame_at_def)

lemma word_of_nat_u32_eq:
  "a < 2 ^ 32 \<Longrightarrow> b < 2 ^ 32 \<Longrightarrow> (word_of_nat a :: u32) = word_of_nat b \<longleftrightarrow> a = b"
  by (auto simp: word_of_nat_eq_iff take_bit_nat_eq_self)

lemma is_forward_nat:
  assumes "e < k" "k < 2 ^ 31"
  shows "is_forward (word_of_nat k) (word_of_nat e)"
proof -
  have "(word_of_nat k :: u32) - word_of_nat e = word_of_nat (k - e)"
    using assms by (simp add: of_nat_diff)
  moreover have "unat (word_of_nat (k - e) :: u32) = k - e"
    using assms by (simp add: unat_of_nat del: of_nat_diff)
  then have "(word_of_nat (k - e) :: u32) < 0x80000000"
    using assms by (simp add: word_less_nat_alt del: of_nat_diff)
  moreover have "(word_of_nat k :: u32) \<noteq> word_of_nat e"
    using assms by (subst word_of_nat_u32_eq) auto
  ultimately show ?thesis by (simp add: is_forward_def)
qed

lemma drain_window:
  assumes "window f e L st" "distinct L" "\<forall>k\<in>set L. k < 2 ^ 31" "e + length L < 2 ^ 31"
  obtains e' L' st' where "drain_contiguous st out = (st', out @ map f [e..<e'])"
    "window f e' L' st'" "fl_gap st' = fl_gap st" "distinct L'" "e \<le> e'"
    "set L = set L' \<union> {e..<e'}" "set L' \<inter> {e..<e'} = {}" "e' \<notin> set L'"
  using assms
proof (induction "length L" arbitrary: e L st out thesis)
  case 0
  then show ?case
    by (intro 0(2) [of st e L]) (auto simp: window_def drain_contiguous.simps [of st])
next
  case (Suc n)
  note win = \<open>window f e L st\<close> and bounds = Suc.prems(3-5)
  have pos: "position (\<lambda>p. pd_sequence p = fl_expected st) (fl_pending st)
      = position (\<lambda>k. (word_of_nat k :: u32) = word_of_nat e) L"
    using win by (simp add: window_def position_map comp_def)
  show ?case
  proof (cases "e \<in> set L")
    case False
    have "k \<noteq> e \<and> k < 2 ^ 32 \<and> e < 2 ^ 32" if "k \<in> set L" for k
      using that False bounds by force
    then have "position (\<lambda>k. (word_of_nat k :: u32) = word_of_nat e) L = None"
      unfolding position_None using word_of_nat_u32_eq by metis
    then have "drain_contiguous st out = (st, out)"
      using pos by (simp add: drain_contiguous.simps [of st])
    with False win bounds show ?thesis
      by (intro Suc.prems(1) [of st e L]) auto
  next
    case True
    then obtain i where i: "position (\<lambda>k. (word_of_nat k :: u32) = word_of_nat e) L = Some i"
      using position_None [of "\<lambda>k. (word_of_nat k :: u32) = word_of_nat e" L]
      by (cases "position (\<lambda>k. (word_of_nat k :: u32) = word_of_nat e) L") auto
    note p = position_Some [OF i]
    then have "L ! i \<in> set L" by simp
    then have "L ! i < 2 ^ 31" using bounds by blast
    then have "L ! i < 2 ^ 32" "e < 2 ^ 32" using bounds by simp_all
    with p have Li: "L ! i = e" by (metis word_of_nat_u32_eq)
    let ?L = "swap_remove i L"
    let ?st = "st\<lparr>fl_pending := swap_remove i (fl_pending st), fl_expected := fl_expected st + 1\<rparr>"
    have L: "distinct ?L" "set ?L = set L - {e}" "length ?L = n"
      using distinct_swap_remove [OF bounds(1), of i] p Li Suc(2) by auto
    have win': "window f (Suc e) ?L ?st"
      using win p by (simp add: window_def swap_remove_map)
    obtain e' L' st' where r:
      "drain_contiguous ?st (out @ [f e]) = (st', (out @ [f e]) @ map f [Suc e..<e'])"
      "window f e' L' st'" "fl_gap st' = fl_gap ?st" "distinct L'" "Suc e \<le> e'"
      "set ?L = set L' \<union> {Suc e..<e'}" "set L' \<inter> {Suc e..<e'} = {}" "e' \<notin> set L'"
    proof (rule Suc(1) [of ?L ?st "out @ [f e]" "Suc e"])
      show "n = length ?L" using L by simp
      show "\<forall>k\<in>set ?L. k < 2 ^ 31" using L bounds by simp
      show "Suc e + length ?L < 2 ^ 31" using L bounds Suc(2) by simp
    qed (use win' L in auto)
    have "drain_contiguous st out = drain_contiguous ?st (out @ [f e])"
      using win pos i p Li by (simp add: drain_contiguous.simps [of st] window_def)
    moreover have "[e..<e'] = e # [Suc e..<e']" using r(5) by (simp add: upt_conv_Cons)
    ultimately have "drain_contiguous st out = (st', out @ map f [e..<e'])"
      using r(1) by simp
    moreover have ins: "{e..<e'} = insert e {Suc e..<e'}" using r(5) by auto
    have "set L = insert e (set ?L)" using L(2) True by auto
    then have "set L = set L' \<union> {e..<e'}" unfolding ins using r(6) by simp
    moreover have "e \<notin> set L'" using r(6) L(2) by auto
    then have "set L' \<inter> {e..<e'} = {}" unfolding ins using r(7) by simp
    ultimately show ?thesis
      using r by (intro Suc.prems(1) [of st' e' L']) auto
  qed
qed

text \<open>
  One arrival inside the window: \<open>S\<close> is what has arrived, \<open>e\<close> the first number missing,
  and no gap is old enough to be given up.
\<close>

definition in_window ::
  "(nat \<Rightarrow> 'v) \<Rightarrow> nat \<Rightarrow> nat set \<Rightarrow> nat \<Rightarrow> 'v flow_state \<Rightarrow> bool" where
  "in_window f since S e st \<longleftrightarrow>
     (\<exists>L. window f e L st \<and> distinct L \<and> S = set L \<union> {..<e} \<and> set L \<inter> {..e} = {})
     \<and> (case fl_gap st of None \<Rightarrow> True | Some g \<Rightarrow> since \<le> unat g)"

lemma no_release:
  assumes "case fl_gap st of None \<Rightarrow> True | Some g \<Rightarrow> since \<le> unat g"
    and "unat now < since + GAP_RELEASE_AFTER_MS"
  shows "release_expired st now out = (st, out)"
  using assms by (auto simp: release_expired_def GAP_RELEASE_AFTER_MS_def split: option.splits)

lemma settle_same [simp]: "settle pt st st = pt"
  by (simp add: settle_def)

lemma accept_in_window:
  assumes win: "in_window f since S e st" and S: "S \<subseteq> {..<n}" "k < n" "k \<notin> S"
    and n: "card S < MAX_PENDING_PER_FLOW" "rest + card S < MAX_PENDING_TOTAL" "n \<le> 2 ^ 30"
    and now: "since \<le> unat now" "unat now < since + GAP_RELEASE_AFTER_MS"
  obtains e' st' where
    "accept_at (word_of_nat k) (f k) now st (rest + length (fl_pending st)) (map f [0..<e]) =
       (st', rest + length (fl_pending st'), map f [0..<e'])"
    "in_window f since (insert k S) e' st'"
proof -
  obtain L where L: "window f e L st" "distinct L" "S = set L \<union> {..<e}" "set L \<inter> {..e} = {}"
    and gap: "case fl_gap st of None \<Rightarrow> True | Some g \<Rightarrow> since \<le> unat g"
    using win by (auto simp: in_window_def)
  have n': "n \<le> 1073741824" using n by simp
  have e: "e \<le> k" using S L by (auto simp: not_le [symmetric])
  have Ln: "set L \<subseteq> {Suc e..<n} - {k}"
  proof
    fix x assume x: "x \<in> set L"
    then have "x \<notin> {..e}" "x \<in> S" using L(3,4) by blast+
    then show "x \<in> {Suc e..<n} - {k}" using S by (auto simp: not_le)
  qed
  have finS: "finite S" using S(1) finite_subset by blast
  have lenL: "length L \<le> card S"
    using card_mono [OF finS, of "set L"] distinct_card [OF L(2)] L(3) by auto
  have expired: "release_expired st now out = (st, out)" for out
    using gap now(2) by (rule no_release)
  have exp: "fl_expected st = word_of_nat e" and pend: "fl_pending st = map (frame_at f) L"
    using L(1) by (auto simp: window_def)
  show ?thesis
  proof (cases "k = e")
    case True
    let ?st2 = "st\<lparr>fl_expected := fl_expected st + 1, fl_gap := None\<rparr>"
    have w2: "window f (Suc e) L ?st2" using L(1) by (simp add: window_def)
    obtain e' L' st' where d:
      "drain_contiguous ?st2 (map f [0..<e] @ [f e]) = (st', (map f [0..<e] @ [f e]) @ map f [Suc e..<e'])"
      "window f e' L' st'" "fl_gap st' = fl_gap ?st2" "distinct L'" "Suc e \<le> e'"
      "set L = set L' \<union> {Suc e..<e'}" "set L' \<inter> {Suc e..<e'} = {}" "e' \<notin> set L'"
    proof (rule drain_window [OF w2 L(2), of "map f [0..<e] @ [f e]"])
      show "\<forall>k\<in>set L. k < 2 ^ 31" using Ln n' by auto
      show "Suc e + length L < 2 ^ 31"
        using lenL n(1) n' e S(2) by (simp add: MAX_PENDING_PER_FLOW_def)
    qed auto
    have "map f [0..<e'] = (map f [0..<e] @ [f e]) @ map f [Suc e..<e']"
      using d(5) upt_add_eq_append [of 0 "Suc e" "e' - Suc e"] by simp
    moreover have "length (fl_pending st') \<le> length (fl_pending st)"
      using step_ok_length [OF step_ok_drain [OF d(1)]] by simp
    ultimately have "accept_at (word_of_nat k) (f k) now st (rest + length (fl_pending st)) (map f [0..<e]) =
        (st', rest + length (fl_pending st'), map f [0..<e'])"
      using True d(1) by (simp add: accept_at_def expired exp Let_def settle_def)
    moreover have "insert k S = set L' \<union> {..<e'}"
      using True L(3) d(5,6) by (auto simp: less_Suc_eq_le Suc_le_eq)
    moreover have "set L' \<inter> {..e'} = {}"
    proof (intro equals0I)
      fix x assume x: "x \<in> set L' \<inter> {..e'}"
      then have "x \<in> set L" "x \<noteq> e'" using d(6,8) by auto
      then have "Suc e \<le> x" "x < e'" using L(4) x by (auto simp: not_less_eq_eq)
      then show False using d(7) x by auto
    qed
    ultimately show ?thesis
      using d(2-4) by (intro that [of st' e']) (auto simp: in_window_def)
  next
    case False
    with e have ek: "e < k" by simp
    have fwd: "is_forward (word_of_nat k) (word_of_nat e)"
      using ek S n' by (intro is_forward_nat) auto
    have neq: "(word_of_nat k :: u32) \<noteq> word_of_nat e" using fwd by (simp add: is_forward_def)
    have fresh: "(word_of_nat j :: u32) \<noteq> word_of_nat k" if "j \<in> set L" for j
      using that Ln S n' by (subst word_of_nat_u32_eq) auto
    let ?st' = "st\<lparr>fl_pending := fl_pending st @ [frame_at f k],
      fl_gap := (case fl_gap st of None \<Rightarrow> Some now | Some g \<Rightarrow> Some g)\<rparr>"
    have gap': "case fl_gap ?st' of None \<Rightarrow> True | Some g \<Rightarrow> since \<le> unat g"
      using gap now(1) by (simp split: option.splits)
    have st6: "(if fl_gap st = None then st\<lparr>fl_pending := P, fl_gap := Some now\<rparr> else st\<lparr>fl_pending := P\<rparr>)
        = st\<lparr>fl_pending := P, fl_gap := (case fl_gap st of None \<Rightarrow> Some now | Some g \<Rightarrow> Some g)\<rparr>" for P
      by (cases st) (simp split: option.splits)
    have room: "\<not> MAX_PENDING_TOTAL < Suc (rest + length L)" "rest + length L \<noteq> MAX_PENDING_TOTAL"
      "length L \<noteq> MAX_PENDING_PER_FLOW"
      using lenL n by simp_all
    have q: "accept_queue (word_of_nat k) (f k) now st (rest + length L) (map f [0..<e])
        = (?st', rest + length L + 1, map f [0..<e])"
      using room no_release [OF gap' now(2)]
      by (simp add: accept_queue_def Let_def frame_at_def st6)
    have "accept_at (word_of_nat k) (f k) now st (rest + length (fl_pending st)) (map f [0..<e]) =
        (?st', rest + length (fl_pending ?st'), map f [0..<e])"
      using room fwd neq fresh q
      by (simp add: accept_at_def accept_forward_def expired exp pend Let_def)
    moreover have "in_window f since (insert k S) e ?st'"
      unfolding in_window_def using gap' L ek Ln
      by (intro conjI exI [of _ "L @ [k]"]) (auto simp: window_def)
    ultimately show ?thesis by (rule that)
  qed
qed

text \<open>Several arrivals, one after the other, on one flow.\<close>

fun push_all ::
  "(frame_header \<times> 'v \<times> u64) list \<Rightarrow> 'v reassembler \<Rightarrow> 'v list \<Rightarrow> 'v reassembler \<times> 'v list" where
  "push_all [] ra out = (ra, out)"
| "push_all ((h, v, now) # rest) ra out =
     (let (ra, out) = push_at h v now ra out in push_all rest ra out)"

lemma push_all_append:
  "push_all (xs @ ys) ra out = (let (ra, out) = push_all xs ra out in push_all ys ra out)"
  by (induction xs ra out rule: push_all.induct) (simp_all add: split_beta)

definition arrival :: "u64 \<Rightarrow> u64 \<Rightarrow> (nat \<Rightarrow> 'v) \<Rightarrow> nat \<times> u64 \<Rightarrow> frame_header \<times> 'v \<times> u64" where
  "arrival sender flow f a =
     (\<lparr>fh_sender = sender, fh_flow = flow, fh_sequence = word_of_nat (fst a)\<rparr>, f (fst a), snd a)"

definition flow_view ::
  "u64 \<Rightarrow> u64 \<Rightarrow> nat \<Rightarrow> 'v flow_state \<Rightarrow> 'v reassembler \<Rightarrow> bool" where
  "flow_view sender flow rest st ra \<longleftrightarrow>
     (\<forall>h. key_of h = \<lparr>rk_sender = sender, rk_flow = flow\<rparr> \<longrightarrow>
        table_for h ra = ra \<and> entry_for h ra = st)
     \<and> ra_pending_total ra = rest + length (fl_pending st)"

lemma flow_view_untracked:
  assumes "map_of (ra_flows ra) \<lparr>rk_sender = sender, rk_flow = flow\<rparr> = None"
    and "length (ra_flows ra) < MAX_TRACKED_FLOWS"
  shows "flow_view sender flow (ra_pending_total ra) new_flow_state ra"
  using assms by (auto simp: flow_view_def entry_for_def table_for_def new_flow_state_def)

lemma flow_view_push:
  assumes "flow_view sender flow rest st ra"
    and "accept_at (fh_sequence h) v now st (rest + length (fl_pending st)) out =
      (st', rest + length (fl_pending st'), out')"
    and "key_of h = \<lparr>rk_sender = sender, rk_flow = flow\<rparr>"
  obtains ra' where "push_at h v now ra out = (ra', out')" "flow_view sender flow rest st' ra'"
proof
  let ?ra = "\<lparr>ra_flows = map_insert (key_of h) st' (ra_flows ra),
    ra_pending_total = rest + length (fl_pending st')\<rparr>"
  show "push_at h v now ra out = (?ra, out')"
    using assms by (simp add: push_at_eq flow_view_def)
  show "flow_view sender flow rest st' ?ra"
    using assms(3) by (simp add: flow_view_def table_for_def entry_for_def map_of_insert)
qed

lemma arrivals_in_window:
  assumes "flow_view sender flow rest new_flow_state ra"
    and "distinct (map fst arr)" "length arr \<le> MAX_PENDING_PER_FLOW"
    and "rest + length arr \<le> MAX_PENDING_TOTAL"
    and "\<forall>a\<in>set arr. fst a < 2 ^ 30 \<and> since \<le> unat (snd a) \<and> unat (snd a) < since + GAP_RELEASE_AFTER_MS"
  shows "\<exists>ra' e st. push_all (map (arrival sender flow f) arr) ra [] = (ra', map f [0..<e])
    \<and> flow_view sender flow rest st ra' \<and> in_window f since (fst ` set arr) e st"
  using assms(2-)
proof (induction arr rule: rev_induct)
  case Nil
  have "in_window f since {} 0 new_flow_state"
    by (simp add: in_window_def window_def new_flow_state_def)
  with assms(1) show ?case by auto
next
  case (snoc a arr)
  then obtain ra' e st where IH: "push_all (map (arrival sender flow f) arr) ra [] = (ra', map f [0..<e])"
    "flow_view sender flow rest st ra'" "in_window f since (fst ` set arr) e st"
    by auto
  have card: "card (fst ` set arr) \<le> length arr"
    by (metis card_length length_map list.set_map)
  obtain e' st' where acc:
    "accept_at (word_of_nat (fst a)) (f (fst a)) (snd a) st (rest + length (fl_pending st)) (map f [0..<e]) =
       (st', rest + length (fl_pending st'), map f [0..<e'])"
    "in_window f since (insert (fst a) (fst ` set arr)) e' st'"
  proof (rule accept_in_window [OF IH(3), of "2 ^ 30" "fst a" rest "snd a"])
    show "fst ` set arr \<subseteq> {..<2 ^ 30}" using snoc.prems by auto
    show "fst a \<notin> fst ` set arr" using snoc.prems by auto
    show "card (fst ` set arr) < MAX_PENDING_PER_FLOW" using card snoc.prems by simp
    show "rest + card (fst ` set arr) < MAX_PENDING_TOTAL" using card snoc.prems by simp
  qed (use snoc.prems in auto)
  obtain ra'' where push: "push_at \<lparr>fh_sender = sender, fh_flow = flow, fh_sequence = word_of_nat (fst a)\<rparr>
      (f (fst a)) (snd a) ra' (map f [0..<e]) = (ra'', map f [0..<e'])"
    and view: "flow_view sender flow rest st' ra''"
    by (rule flow_view_push [OF IH(2),
        of "\<lparr>fh_sender = sender, fh_flow = flow, fh_sequence = word_of_nat (fst a)\<rparr>"])
      (use acc(1) in \<open>simp_all add: key_of_def\<close>)
  have "push_all (map (arrival sender flow f) (arr @ [a])) ra [] = (ra'', map f [0..<e'])"
    using IH(1) push by (simp add: push_all_append arrival_def)
  with view acc(2) show ?case by auto
qed

lemma in_window_next:
  assumes "in_window f since S e st"
  shows "{..<e} \<subseteq> S" "e \<notin> S"
  using assms by (auto simp: in_window_def)

section \<open>Giving up a gap\<close>

text \<open>A release on a window gives out its least number and everything contiguous with it.\<close>

lemma release_lowest_window:
  assumes win: "window f e L st" "distinct L" and m: "m \<in> set L" "\<forall>k\<in>set L. m \<le> k"
    and b: "\<forall>k\<in>set L. e < k \<and> k < 2 ^ 30" "length L < 2 ^ 30"
  obtains e' L' st' where "release_lowest st now out = (st', out @ map f [m..<e'])"
    "window f e' L' st'" "distinct L'" "m < e'" "set L = set L' \<union> {m..<e'}"
    "set L' \<inter> {m..<e'} = {}" "e' \<notin> set L'"
    "fl_gap st' = (if L' = [] then None else Some now)"
proof -
  have exp: "fl_expected st = word_of_nat e" and pend: "fl_pending st = map (frame_at f) L"
    using win(1) by (auto simp: window_def)
  have dist: "unat ((word_of_nat k :: u32) - word_of_nat e) = k - e" if "k \<in> set L" for k
  proof -
    have k: "e < k" "k < 1073741824" using b(1) that by auto
    then have "(word_of_nat k :: u32) - word_of_nat e = word_of_nat (k - e)"
      by (simp add: of_nat_diff)
    with k show ?thesis by (simp add: unat_of_nat del: of_nat_diff)
  qed
  obtain j where j: "j < length L" "L ! j = m" using m(1) by (auto simp: in_set_conv_nth)
  have fwd: "is_forward (word_of_nat k) (word_of_nat e)" if "k \<in> set L" for k
    using b(1) that by (intro is_forward_nat) auto
  have "(j, word_of_nat m - word_of_nat e) \<in> set (forward_candidates st)"
    using j fwd [OF m(1)] by (force simp: forward_candidates_def in_set_enumerate_eq exp pend)
  then obtain i d where least: "min_by_key snd (forward_candidates st) = Some (i, d)"
    "d \<le> word_of_nat m - word_of_nat e" "(i, d) \<in> set (forward_candidates st)"
    using min_by_key_Some [of snd "forward_candidates st"] min_by_key_None [of snd "forward_candidates st"]
    by (cases "min_by_key snd (forward_candidates st)") fastforce+
  have i: "i < length L" "d = word_of_nat (L ! i) - word_of_nat e"
    using forward_candidates_in [OF least(3)] by (auto simp: exp pend)
  then have "L ! i - e \<le> m - e"
    using least(2) dist [of "L ! i"] dist [OF m(1)] by (simp add: word_le_nat_alt)
  then have Li: "L ! i = m"
    using i(1) m b(1) by (metis diff_le_mono eq_diff_iff le_antisym less_imp_le nth_mem)
  let ?st = "st\<lparr>fl_pending := swap_remove i (fl_pending st), fl_expected := word_of_nat m + 1, fl_gap := None\<rparr>"
  have L: "distinct (swap_remove i L)" "set (swap_remove i L) = set L - {m}"
    using distinct_swap_remove [OF win(2) i(1)] Li by auto
  have w: "window f (Suc m) (swap_remove i L) ?st"
    using i(1) by (simp add: window_def pend swap_remove_map add.commute)
  obtain e' L' st' where d:
    "drain_contiguous ?st (out @ [f m]) = (st', (out @ [f m]) @ map f [Suc m..<e'])"
    "window f e' L' st'" "fl_gap st' = fl_gap ?st" "distinct L'" "Suc m \<le> e'"
    "set (swap_remove i L) = set L' \<union> {Suc m..<e'}" "set L' \<inter> {Suc m..<e'} = {}" "e' \<notin> set L'"
  proof (rule drain_window [OF w L(1), of "out @ [f m]"])
    show "\<forall>k\<in>set (swap_remove i L). k < 2 ^ 31" using L(2) b(1) by auto
    show "Suc m + length (swap_remove i L) < 2 ^ 31" using b m(1) i(1) by fastforce
  qed auto
  have ins: "{m..<e'} = insert m {Suc m..<e'}" and upt: "[m..<e'] = m # [Suc m..<e']"
    using d(5) by (auto simp: upt_conv_Cons)
  let ?st' = "if L' = [] then st' else st'\<lparr>fl_gap := Some now\<rparr>"
  have "fl_pending st' = [] \<longleftrightarrow> L' = []" using d(2) by (simp add: window_def)
  then have "release_lowest st now out = (?st', out @ map f [m..<e'])"
    using least(1) d(1) i(1) Li by (simp add: release_lowest_def pend upt)
  moreover have "window f e' L' ?st'" using d(2) by (simp add: window_def)
  moreover have "set L = insert m (set (swap_remove i L))" using L(2) m(1) by auto
  then have "set L = set L' \<union> {m..<e'}" unfolding ins d(6) by simp
  moreover have "m \<notin> set L'" using L(2) d(6) by auto
  then have "set L' \<inter> {m..<e'} = {}" unfolding ins using d(7) by simp
  ultimately show ?thesis
    using d by (intro that [of ?st' e' L']) auto
qed

text \<open>
  A frame that arrives at a full buffer and is older than everything in it: the release that
  makes room moves the expected number past it, and it is stored behind that number.
\<close>

lemma accept_full:
  assumes win: "window f e L st" "distinct L" "length L = MAX_PENDING_PER_FLOW"
    and m: "m \<in> set L" "\<forall>k\<in>set L. m \<le> k" and b: "\<forall>k\<in>set L. k < 2 ^ 30"
    and s: "e < s" "s < m"
    and rest: "rest + MAX_PENDING_PER_FLOW \<le> MAX_PENDING_TOTAL"
    and expired: "\<And>out. release_expired st now out = (st, out)"
  obtains e' L' st' where
    "accept_at (word_of_nat s) (f s) now st (rest + length (fl_pending st)) out =
      (st', rest + length (fl_pending st'), out @ map f [m..<e'])"
    "window f e' (L' @ [s]) st'" "m < e'" "set L = set L' \<union> {m..<e'}"
    "set L' \<inter> {m..<e'} = {}" "e' \<notin> set L'"
proof -
  have exp: "fl_expected st = word_of_nat e" and pend: "fl_pending st = map (frame_at f) L"
    using win(1) by (auto simp: window_def)
  have b': "\<forall>k\<in>set L. e < k \<and> k < 2 ^ 30" using m s b by fastforce
  have s30: "s < 2 ^ 30" using b m s by fastforce
  have fwd: "is_forward (word_of_nat s) (word_of_nat e)"
    using s s30 by (intro is_forward_nat) auto
  have fresh: "(word_of_nat k :: u32) \<noteq> word_of_nat s" if "k \<in> set L" for k
  proof -
    have "k \<noteq> s" "k < 2 ^ 32" "s < 2 ^ 32" using that b m s s30 by fastforce+
    then show ?thesis using word_of_nat_u32_eq by blast
  qed
  obtain e' L' st2 where r: "release_lowest st now out = (st2, out @ map f [m..<e'])"
    "window f e' L' st2" "distinct L'" "m < e'" "set L = set L' \<union> {m..<e'}"
    "set L' \<inter> {m..<e'} = {}" "e' \<notin> set L'" "fl_gap st2 = (if L' = [] then None else Some now)"
    by (rule release_lowest_window [OF win(1,2) m b', of now out])
      (use win(3) in \<open>auto simp: MAX_PENDING_PER_FLOW_def\<close>)
  have "m \<notin> set L'" using r(4,6) by auto
  then have "set L' \<subset> set L" using r(5) m(1) by auto
  then have "card (set L') < card (set L)" by (intro psubset_card_mono) auto
  then have L': "length L' < MAX_PENDING_PER_FLOW"
    using win(2,3) r(3) by (simp add: distinct_card)
  have len2: "length (fl_pending st2) = length L'" using r(2) by (simp add: window_def)
  have settled: "settle (rest + length L) st st2 = rest + length L'"
    using win(3) L' by (simp add: settle_def pend len2)
  have room: "rest + length L' < MAX_PENDING_TOTAL" using rest L' by simp
  let ?st3 = "st2\<lparr>fl_pending := fl_pending st2 @ [frame_at f s], fl_gap := Some now\<rparr>"
  have quiet: "release_expired ?st3 now out' = (?st3, out')" for out' :: "'a list"
    by (simp add: release_expired_def GAP_RELEASE_AFTER_MS_def)
  have gap3: "(if fl_gap st2 = None then st2\<lparr>fl_pending := P, fl_gap := Some now\<rparr>
      else st2\<lparr>fl_pending := P\<rparr>) = st2\<lparr>fl_pending := P, fl_gap := Some now\<rparr>" for P
    using r(8) by (cases st2) (simp split: if_splits)
  have "accept_queue (word_of_nat s) (f s) now st2 (rest + length L') (out @ map f [m..<e'])
      = (?st3, rest + length L' + 1, out @ map f [m..<e'])"
    using room quiet by (simp add: accept_queue_def Let_def gap3 frame_at_def)
  then have "accept_forward (word_of_nat s) (f s) now st (rest + length L) out
      = (?st3, rest + length L' + 1, out @ map f [m..<e'])"
    using win(3) r(1) room settled by (simp add: accept_forward_def pend Let_def)
  moreover have "accept_at (word_of_nat s) (f s) now st (rest + length L) out
      = accept_forward (word_of_nat s) (f s) now st (rest + length L) out"
    using fwd fresh expired [of out] by (simp add: accept_at_def exp pend Let_def is_forward_def)
  ultimately have "accept_at (word_of_nat s) (f s) now st (rest + length (fl_pending st)) out =
      (?st3, rest + length (fl_pending ?st3), out @ map f [m..<e'])"
    by (simp add: pend len2)
  then show ?thesis
    using r by (intro that [of ?st3 e' L']) (auto simp: window_def)
qed

section \<open>Properties\<close>

definition push_event :: "frame_header \<times> 'v \<times> u64 \<Rightarrow> 'v reassembler \<Rightarrow> 'v reassembler" where
  "push_event = (\<lambda>(h, v, now) ra. fst (push_at h v now ra []))"

interpretation reassembly: bounded_machine push_event wf_reassembler ra_pending_total MAX_PENDING_TOTAL
proof unfold_locales
  show "wf_reassembler (push_event i s)" if "wf_reassembler s" for i and s :: "'a reassembler"
    using push_at_ok [OF that] by (cases i) (simp add: push_event_def push_ok_def)
  show "ra_pending_total s \<le> MAX_PENDING_TOTAL" if "wf_reassembler s" for s :: "'a reassembler"
    using that by (simp add: wf_reassembler_def)
qed

text \<open>
  C7: Whatever arrives, the reassembler keeps its books: after any sequence of frames the counter
  \<open>pending_total\<close> equals the number of frames held back over all flows and is at most
  4096, and at most 4096 flows are tracked.
\<close>

theorem reassembler_books:
  fixes events :: "(frame_header \<times> 'v \<times> u64) list"
  defines "ra \<equiv> fold push_event events new_reassembler"
  shows "ra_pending_total ra = held ra \<and> held ra \<le> MAX_PENDING_TOTAL
    \<and> length (ra_flows ra) \<le> MAX_TRACKED_FLOWS"
  using reassembly.run_inv [OF wf_new_reassembler, of events]
  unfolding ra_def wf_reassembler_def by blast

text \<open>
  One call neither loses nor invents frames of its flow: the values it delivers are those of
  pending frames or of the arriving one, each once, the frames left pending are all the others,
  and the delivered sequence numbers only move forward from the number expected before the call
  to the one expected after it.
\<close>

theorem reassembler_delivers:
  assumes "wf_reassembler ra" "push_at h v now ra out = (ra', out')"
  shows "\<exists>rs st'. out' = out @ map pd_value rs
    \<and> map_of (ra_flows ra') (key_of h) = Some st'
    \<and> chain (fl_expected (entry_for h ra)) (map pd_sequence rs) (fl_expected st')
    \<and> (mset rs + mset (fl_pending st') = mset (fl_pending (entry_for h ra))
       \<or> mset rs + mset (fl_pending st') =
           add_mset \<lparr>pd_sequence = fh_sequence h, pd_value = v\<rparr> (mset (fl_pending (entry_for h ra))))"
  using push_at_ok [OF assms(1), of h v out now] unfolding push_ok_def assms(2) by auto

lemma entry_for_new [simp]: "entry_for h new_reassembler = new_flow_state"
  by (simp add: entry_for_def table_for_def new_reassembler_def)

lemma reassembler_delivers_witness:
  "\<exists>(rs :: char pending_frame list) (st' :: char flow_state).
    snd (push_at \<lparr>fh_sender = 1, fh_flow = 2, fh_sequence = 0\<rparr> CHR ''a'' 0 new_reassembler [])
      = [] @ map pd_value rs
    \<and> chain 0 (map pd_sequence rs) (fl_expected st')"
proof -
  let ?h = "\<lparr>fh_sender = 1, fh_flow = 2, fh_sequence = 0\<rparr>"
  obtain ra' out' where p: "push_at ?h CHR ''a'' 0 new_reassembler [] = (ra', out')"
    by fastforce
  obtain rs :: "char pending_frame list" and st' where "out' = [] @ map pd_value rs"
    "chain (fl_expected (entry_for ?h (new_reassembler :: char reassembler))) (map pd_sequence rs)
      (fl_expected (st' :: char flow_state))"
    using reassembler_delivers [OF wf_new_reassembler p] by (elim exE conjE) (rule that)
  then show ?thesis
    unfolding p by (intro exI [of _ rs] exI [of _ st']) (simp add: new_flow_state_def)
qed

text \<open>
  C3: Reordering within the window is undone. At most 96 frames of a flow that is not tracked yet
  arrive in any order, each once, all within 12 milliseconds: the output is the frames
  \<open>0, 1, ..., e - 1\<close> in order, where \<open>e\<close> is the first number that has not arrived.
\<close>

theorem reassembler_undoes_reordering:
  assumes "map_of (ra_flows ra) \<lparr>rk_sender = sender, rk_flow = flow\<rparr> = None"
    and "length (ra_flows ra) < MAX_TRACKED_FLOWS"
    and "distinct (map fst arr)" "length arr \<le> MAX_PENDING_PER_FLOW"
    and "ra_pending_total ra + length arr \<le> MAX_PENDING_TOTAL"
    and "\<forall>a\<in>set arr. fst a < 2 ^ 30 \<and> start \<le> unat (snd a) \<and> unat (snd a) < start + GAP_RELEASE_AFTER_MS"
  shows "\<exists>e. snd (push_all (map (arrival sender flow f) arr) ra []) = map f [0..<e]
    \<and> {..<e} \<subseteq> fst ` set arr \<and> e \<notin> fst ` set arr"
proof -
  obtain ra' e st where "push_all (map (arrival sender flow f) arr) ra [] = (ra', map f [0..<e])"
    and w: "in_window f start (fst ` set arr) e st"
    using arrivals_in_window [OF flow_view_untracked [OF assms(1,2)] assms(3-6)] by blast
  then show ?thesis using in_window_next [OF w] by (metis snd_conv)
qed

lemma reassembler_undoes_reordering_witness:
  "snd (push_all (map (arrival 1 2 (\<lambda>k. k)) [(2, 5), (0, 6), (1, 7)]) new_reassembler []) = [0, 1, 2]"
proof -
  have "\<exists>e. snd (push_all (map (arrival 1 2 (\<lambda>k. k)) [(2, 5), (0, 6), (1, 7)]) new_reassembler [])
      = map (\<lambda>k. k) [0..<e]
    \<and> {..<e} \<subseteq> fst ` set [(2, 5 :: u64), (0, 6), (1, 7)] \<and> e \<notin> fst ` set [(2, 5 :: u64), (0, 6), (1, 7)]"
    by (rule reassembler_undoes_reordering [where start = 5])
      (simp_all add: new_reassembler_def MAX_TRACKED_FLOWS_def MAX_PENDING_PER_FLOW_def
        MAX_PENDING_TOTAL_def GAP_RELEASE_AFTER_MS_def)
  then obtain e where e: "snd (push_all (map (arrival 1 2 (\<lambda>k. k)) [(2, 5), (0, 6), (1, 7)]) new_reassembler [])
      = map (\<lambda>k. k) [0..<e]" "{..<e} \<subseteq> {0, 1, 2}" "e \<notin> {0, 1, 2}" by auto
  have "e = 3"
  proof -
    have "e \<le> 3"
    proof (rule ccontr)
      assume "\<not> e \<le> 3"
      then have "3 \<in> {..<e}" by simp
      with e(2) show False by auto
    qed
    with e(3) show ?thesis by auto
  qed
  with e(1) show ?thesis by (simp add: upt_rec)
qed

text \<open>
  A late frame is stranded at a full buffer: with the frames 10 to 105 pending, frame 5
  forces a release of all of them and is then stored behind the expected number 106, where no
  later release or drain will look for it; it is neither delivered nor dropped.
\<close>

theorem full_flow_strands_late_frame:
  "\<exists>ra out ra' st.
     push_all (map (arrival sender flow f) (map (\<lambda>k. (k, 0)) [10..<106])) new_reassembler [] = (ra, out)
     \<and> push_at \<lparr>fh_sender = sender, fh_flow = flow, fh_sequence = 5\<rparr> (f 5) 0 ra out = (ra', out @ map f [10..<106])
     \<and> map_of (ra_flows ra') \<lparr>rk_sender = sender, rk_flow = flow\<rparr> = Some st
     \<and> fl_expected st = 106 \<and> fl_pending st = [\<lparr>pd_sequence = 5, pd_value = f 5\<rparr>]"
proof -
  let ?arr = "map (\<lambda>k. (k, 0 :: u64)) [10..<106]"
  let ?h = "\<lparr>fh_sender = sender, fh_flow = flow, fh_sequence = word_of_nat 5\<rparr>"
  have view: "flow_view sender flow 0 (new_flow_state :: 'a flow_state) new_reassembler"
    using flow_view_untracked [of "new_reassembler :: 'a reassembler"]
    by (simp add: new_reassembler_def MAX_TRACKED_FLOWS_def)
  have "\<exists>ra e st. push_all (map (arrival sender flow f) ?arr) new_reassembler [] = (ra, map f [0..<e])
      \<and> flow_view sender flow 0 st ra \<and> in_window f 0 (fst ` set ?arr) e st"
    by (rule arrivals_in_window [OF view])
      (auto simp: MAX_PENDING_PER_FLOW_def MAX_PENDING_TOTAL_def GAP_RELEASE_AFTER_MS_def comp_def)
  moreover have arr: "fst ` set ?arr = {10..<106}"
    by (simp only: set_map set_upt image_image fst_conv image_ident)
  ultimately obtain ra e st where
    run: "push_all (map (arrival sender flow f) ?arr) new_reassembler [] = (ra, map f [0..<e])"
    and v: "flow_view sender flow 0 st ra" and w: "in_window f 0 {10..<106} e st"
    by metis
  have e: "e = 0" using in_window_next [OF w] by (cases e) auto
  obtain L where L: "window f 0 L st" "distinct L" "set L = {10..<106}"
    using w by (auto simp: in_window_def e)
  have lenL: "length L = MAX_PENDING_PER_FLOW"
    using distinct_card [OF L(2)] L(3) by (simp add: MAX_PENDING_PER_FLOW_def)
  have quiet: "release_expired st 0 out = (st, out)" for out
    using w by (intro no_release [where since = 0]) (auto simp: in_window_def GAP_RELEASE_AFTER_MS_def)
  obtain e' L' st' where acc:
    "accept_at (word_of_nat 5) (f 5) 0 st (0 + length (fl_pending st)) [] =
      (st', 0 + length (fl_pending st'), [] @ map f [10..<e'])"
    "window f e' (L' @ [5]) st'" "10 < e'" "set L = set L' \<union> {10..<e'}"
    "set L' \<inter> {10..<e'} = {}" "e' \<notin> set L'"
    by (rule accept_full [OF L(1,2) lenL, of 10 5 0 0 "[]"])
      (use L(3) quiet in \<open>auto simp: MAX_PENDING_PER_FLOW_def MAX_PENDING_TOTAL_def\<close>)
  have e106: "e' = 106"
  proof -
    have "e' \<notin> {10..<106}" using acc(4-6) L(3) by auto
    moreover have "{10..<e'} \<subseteq> {10..<106}" using acc(4) L(3) by auto
    ultimately show ?thesis using acc(3) by (auto simp: ivl_subset)
  qed
  have "set L' \<subseteq> {10..<e'}" using acc(4) unfolding L(3) e106 by (metis Un_upper1)
  then have "set L' = {}" using acc(5) by (metis inf.absorb1)
  then have L': "L' = []" by simp
  obtain ra' where push: "push_at ?h (f 5) 0 ra [] = (ra', map f [10..<e'])"
    "flow_view sender flow 0 st' ra'"
    by (rule flow_view_push [OF v, of ?h]) (use acc(1) in \<open>simp_all add: key_of_def\<close>)
  moreover have "map_of (ra_flows ra') \<lparr>rk_sender = sender, rk_flow = flow\<rparr> = Some st'"
    using push(1) acc(1) v by (auto simp: push_at_eq key_of_def flow_view_def Let_def)
  ultimately show ?thesis
    using acc(2) run e e106 L' by (intro exI [of _ ra] exI [of _ "[]"] exI [of _ ra'] exI [of _ st'])
      (simp add: window_def frame_at_def)
qed

end
