(* ===== verification/Dispatcher.thy ===== *)
theory Dispatcher
  imports Flow_Reassembler Striped_Scheduler Packet_Buf "HOL-Library.List_Lexorder" "HOL-Library.Product_Lexorder"
begin

unbundle bit_operations_syntax

text \<open>
  The dispatcher between the packet sources and the workers, \<open>dispatcher.rs\<close>: the framing of
  outgoing packets and the reordering of returned ones, the round-robin scheduler, the epoch
  queues between tasks and the table of workers. The lock-free queue and its
  \<open>force_push\<close> are parameters with their documented laws; placing a packet is in
  \<open>Dispatch\<close>, the tasks that read and write in \<open>Dispatch_Loops\<close>.
\<close>

section \<open>Framing and reordering\<close>

text \<open>Whether the packet may be dispatched, the packet and the sequencer after it.\<close>

definition frame_outbound_packet :: "flow_sequencer \<Rightarrow> packet_buf \<Rightarrow> bool \<times> packet_buf \<times> flow_sequencer" where
  "frame_outbound_packet fs p =
     (case next_header fs (pb_slice p) of
        (None, fs) \<Rightarrow> (True, p, fs)
      | (Some header, fs) \<Rightarrow>
          (case prepend FRAME_LEN p of
             Inl _ \<Rightarrow> (False, p, fs)
           | Inr p \<Rightarrow>
               let (ok, prefix) = encode_header header (sub (pb_storage p) (pb_start p) (pb_start p + FRAME_LEN))
               in (ok, p\<lparr>pb_storage := put (pb_start p) prefix (pb_storage p)\<rparr>, fs)))"

record return_reorder =
  ro_reassembler :: "packet_buf reassembler"
  ro_ready :: "packet_buf list"

definition new_reorder :: return_reorder where
  "new_reorder = \<lparr>ro_reassembler = new_reassembler, ro_ready = []\<rparr>"

definition reorder_push :: "u64 \<Rightarrow> packet_buf \<Rightarrow> return_reorder \<Rightarrow> return_reorder" where
  "reorder_push now_ms p r =
     (case decode_header (pb_slice p) of
        Some (header, _) \<Rightarrow>
          (case trim_front FRAME_LEN p of
             Inl _ \<Rightarrow> r
           | Inr p \<Rightarrow>
               let (ra, ready) = push_at header p now_ms (ro_reassembler r) (ro_ready r)
               in r\<lparr>ro_reassembler := ra, ro_ready := ready\<rparr>)
      | None \<Rightarrow> r\<lparr>ro_ready := ro_ready r @ [p]\<rparr>)"

definition reorder_pop :: "return_reorder \<Rightarrow> packet_buf option \<times> return_reorder" where
  "reorder_pop r = (case ro_ready r of [] \<Rightarrow> (None, r) | p # ps \<Rightarrow> (Some p, r\<lparr>ro_ready := ps\<rparr>))"

section \<open>The round-robin scheduler\<close>

record cursor =
  cu_current_worker :: nat
  cu_remaining :: nat

definition default_cursor :: cursor where
  "default_cursor = \<lparr>cu_current_worker = 0, cu_remaining = 0\<rparr>"

text \<open>The three cursors are indexed by the class.\<close>

record scheduler =
  sc_worker_count :: nat
  sc_cursors :: "cursor list"

definition new_scheduler :: scheduler where
  "new_scheduler = \<lparr>sc_worker_count = 0, sc_cursors = replicate 3 default_cursor\<rparr>"

definition sync_worker_count :: "nat \<Rightarrow> scheduler \<Rightarrow> scheduler" where
  "sync_worker_count n s =
     (if sc_worker_count s \<noteq> n then \<lparr>sc_worker_count = n, sc_cursors = replicate 3 default_cursor\<rparr> else s)"

text \<open>A ticket is the start slot and the class.\<close>

definition begin_for_class :: "nat \<Rightarrow> packet_class \<Rightarrow> scheduler \<Rightarrow> (nat \<times> packet_class) option \<times> scheduler" where
  "begin_for_class worker_count class s =
     (if worker_count = 0 then (None, s)
      else
        let s = sync_worker_count worker_count s;
            cu = sc_cursors s ! class_index class;
            cu = (if cu_remaining cu = 0 then cu\<lparr>cu_remaining := stream_chunk class\<rparr> else cu);
            start_slot = cu_current_worker cu;
            cu = cu\<lparr>cu_remaining := cu_remaining cu - 1\<rparr>;
            cu = (if cu_remaining cu = 0 then
                    let c = cu_current_worker cu + 1 in cu\<lparr>cu_current_worker := (if c = worker_count then 0 else c)\<rparr>
                  else cu)
        in (Some (start_slot, class), s\<lparr>sc_cursors := (sc_cursors s)[class_index class := cu]\<rparr>))"

text \<open>\<open>begin\<close>: the worker list is reloaded, here its length, when a stripe of the class begins.\<close>

definition begin_dispatch :: "nat \<Rightarrow> bytes \<Rightarrow> scheduler \<Rightarrow> (nat \<times> packet_class) option \<times> scheduler" where
  "begin_dispatch source_len packet s =
     (let class = packet_class_of packet;
          s = (if cu_remaining (sc_cursors s ! class_index class) = 0 then sync_worker_count source_len s else s)
      in begin_for_class (sc_worker_count s) class s)"

section \<open>Queues with epochs\<close>

definition QUEUE_ACTIVE :: u64 where "QUEUE_ACTIVE = 1"

record queued_packet =
  qp_packet :: packet_buf
  qp_epoch :: u64

text \<open>\<open>pq_wakeups\<close> counts the calls of \<open>notify_one\<close>.\<close>

record 'q packet_queue =
  pq_queue :: 'q
  pq_state :: u64
  pq_senders :: nat
  pq_receiver_open :: bool
  pq_wakeups :: nat

definition packet_channel :: "(queued_packet, 'q) queue_ops \<Rightarrow> nat \<Rightarrow> bool \<Rightarrow> 'q packet_queue" where
  "packet_channel Q capacity active =
     \<lparr>pq_queue = q_new Q (max capacity 1), pq_state = (if active then QUEUE_ACTIVE else 0), pq_senders = 1,
      pq_receiver_open = True, pq_wakeups = 0\<rparr>"

text \<open>\<open>send_inner\<close> in its atomic steps: the checks, the push, the wake-up.\<close>

definition send_check :: "'q packet_queue \<Rightarrow> u64 option" where
  "send_check pq =
     (if \<not> pq_receiver_open pq then None
      else if pq_state pq AND QUEUE_ACTIVE = 0 then None
      else Some (drop_bit 1 (pq_state pq)))"

definition send_push :: "(queued_packet, 'q) queue_ops \<Rightarrow> packet_buf \<Rightarrow> u64 \<Rightarrow> 'q packet_queue \<Rightarrow> 'q packet_queue option" where
  "send_push Q packet epoch pq =
     map_option (\<lambda>q. pq\<lparr>pq_queue := q\<rparr>) (q_push Q \<lparr>qp_packet = packet, qp_epoch = epoch\<rparr> (pq_queue pq))"

definition send_wake :: "(queued_packet, 'q) queue_ops \<Rightarrow> 'q packet_queue \<Rightarrow> 'q packet_queue" where
  "send_wake Q pq =
     (if length (q_items Q (pq_queue pq)) = 1 then pq\<lparr>pq_wakeups := pq_wakeups pq + 1\<rparr> else pq)"

text \<open>\<open>force\<close> is the library's \<open>force_push\<close>: it drops the oldest element of a full queue.\<close>

definition send_inner ::
  "(queued_packet, 'q) queue_ops \<Rightarrow> (queued_packet \<Rightarrow> 'q \<Rightarrow> queued_packet option \<times> 'q)
     \<Rightarrow> packet_buf \<Rightarrow> bool \<Rightarrow> 'q packet_queue \<Rightarrow> (packet_buf + unit) \<times> 'q packet_queue" where
  "send_inner Q force_push packet force pq =
     (case send_check pq of
        None \<Rightarrow> (Inl packet, pq)
      | Some epoch \<Rightarrow>
          if force then
            (Inr (), pq\<lparr>pq_queue := snd (force_push \<lparr>qp_packet = packet, qp_epoch = epoch\<rparr> (pq_queue pq)),
                       pq_wakeups := pq_wakeups pq + 1\<rparr>)
          else (case send_push Q packet epoch pq of
                  None \<Rightarrow> (Inl packet, pq)
                | Some pq \<Rightarrow> (Inr (), send_wake Q pq)))"

definition is_congested :: "(queued_packet, 'q) queue_ops \<Rightarrow> 'q packet_queue \<Rightarrow> bool" where
  "is_congested Q pq \<longleftrightarrow>
     0 < q_capacity Q (pq_queue pq) \<and> q_capacity Q (pq_queue pq) \<le> length (q_items Q (pq_queue pq)) * 2"

text \<open>
  The receiving loops pop until the queue is empty or a packet fits; the bound is the number of
  elements at the start, which no other thread increases within one of the model's steps.
\<close>

primrec try_recv_loop :: "nat \<Rightarrow> (queued_packet, 'q) queue_ops \<Rightarrow> 'q packet_queue \<Rightarrow> packet_buf option \<times> 'q packet_queue" where
  "try_recv_loop 0 Q pq = (None, pq)"
| "try_recv_loop (Suc n) Q pq =
     (case q_pop Q (pq_queue pq) of
        None \<Rightarrow> (None, pq)
      | Some (queued, q) \<Rightarrow>
          let pq = pq\<lparr>pq_queue := q\<rparr> in
          if pq_state pq AND QUEUE_ACTIVE \<noteq> 0 \<and> qp_epoch queued = drop_bit 1 (pq_state pq)
          then (Some (qp_packet queued), pq)
          else try_recv_loop n Q pq)"

definition try_recv :: "(queued_packet, 'q) queue_ops \<Rightarrow> 'q packet_queue \<Rightarrow> packet_buf option \<times> 'q packet_queue" where
  "try_recv Q pq = try_recv_loop (length (q_items Q (pq_queue pq))) Q pq"

primrec steal_loop :: "nat \<Rightarrow> (queued_packet, 'q) queue_ops \<Rightarrow> 'q packet_queue \<Rightarrow> packet_buf list \<times> 'q packet_queue" where
  "steal_loop 0 Q pq = ([], pq)"
| "steal_loop (Suc n) Q pq =
     (case q_pop Q (pq_queue pq) of
        None \<Rightarrow> ([], pq)
      | Some (queued, q) \<Rightarrow>
          let (ps, pq) = steal_loop n Q (pq\<lparr>pq_queue := q\<rparr>) in (qp_packet queued # ps, pq))"

definition steal :: "(queued_packet, 'q) queue_ops \<Rightarrow> 'q packet_queue \<Rightarrow> packet_buf list \<times> 'q packet_queue" where
  "steal Q pq = steal_loop (length (q_items Q (pq_queue pq))) Q pq"

definition purge :: "(queued_packet, 'q) queue_ops \<Rightarrow> 'q packet_queue \<Rightarrow> 'q packet_queue" where
  "purge Q pq = snd (steal Q pq)"

definition resume :: "(queued_packet, 'q) queue_ops \<Rightarrow> 'q packet_queue \<Rightarrow> 'q packet_queue" where
  "resume Q pq =
     (let previous = drop_bit 1 (pq_state pq);
          epoch = sat_add64 previous 1;
          pq = purge Q (pq\<lparr>pq_state := push_bit 1 epoch\<rparr>)
      in pq\<lparr>pq_state := push_bit 1 epoch OR QUEUE_ACTIVE\<rparr>)"

definition queue_is_closed :: "(queued_packet, 'q) queue_ops \<Rightarrow> 'q packet_queue \<Rightarrow> bool" where
  "queue_is_closed Q pq \<longleftrightarrow> pq_senders pq = 0 \<and> q_items Q (pq_queue pq) = []"

definition has_queued_packet :: "(queued_packet, 'q) queue_ops \<Rightarrow> 'q packet_queue \<Rightarrow> bool" where
  "has_queued_packet Q pq \<longleftrightarrow> q_items Q (pq_queue pq) \<noteq> []"

definition next_return_packet ::
  "(queued_packet, 'q) queue_ops \<Rightarrow> 'q packet_queue \<times> 'q packet_queue \<times> 'q packet_queue
     \<Rightarrow> packet_buf option \<times> 'q packet_queue \<times> 'q packet_queue \<times> 'q packet_queue" where
  "next_return_packet Q = (\<lambda>(latency, priority, bulk).
     (case try_recv Q latency of
        (Some p, latency) \<Rightarrow> (Some p, latency, priority, bulk)
      | (None, latency) \<Rightarrow>
          (case try_recv Q priority of
             (Some p, priority) \<Rightarrow> (Some p, latency, priority, bulk)
           | (None, priority) \<Rightarrow>
               (case try_recv Q bulk of (r, bulk) \<Rightarrow> (r, latency, priority, bulk)))))"

section \<open>The table of workers\<close>

record worker =
  wk_id :: nat
  wk_incarnation :: u64
  wk_path :: bytes

definition add_to_groups :: "worker list list \<Rightarrow> worker \<Rightarrow> worker list list" where
  "add_to_groups groups w =
     (if groups \<noteq> [] \<and> (case last groups of [] \<Rightarrow> False | first # _ \<Rightarrow> wk_path first = wk_path w)
      then butlast groups @ [last groups @ [w]] else groups @ [[w]])"

definition round_at :: "nat \<Rightarrow> worker list list \<Rightarrow> worker list" where
  "round_at offset groups = concat (map (\<lambda>g. if offset < length g then [g ! offset] else []) groups)"

function rounds :: "nat \<Rightarrow> worker list list \<Rightarrow> worker list" where
  "rounds offset groups =
     (let r = round_at offset groups in if r = [] then [] else r @ rounds (offset + 1) groups)"
  by pat_completeness auto
termination
proof (relation "measure (\<lambda>(offset, groups). sum_list (map length groups) - offset)")
  fix offset groups r
  assume "r = round_at offset groups" "r \<noteq> []"
  then obtain g where g: "g \<in> set groups" "offset < length g"
    by (auto simp: round_at_def split: if_splits)
  then have "length g \<le> sum_list (map length groups)" by (intro member_le_sum_list) auto
  with g show "((offset + 1, groups), offset, groups) \<in> measure (\<lambda>(offset, groups). sum_list (map length groups) - offset)"
    by simp
qed simp

declare rounds.simps [simp del]

definition interleave_turn_paths :: "worker list \<Rightarrow> worker list" where
  "interleave_turn_paths workers =
     rounds 0 (foldl add_to_groups [] (sort_key (\<lambda>w. (wk_path w, wk_id w)) workers))"

definition register :: "worker \<Rightarrow> worker list \<Rightarrow> worker list" where
  "register channels workers =
     interleave_turn_paths (filter (\<lambda>w. wk_id w \<noteq> wk_id channels) workers @ [channels])"

definition unregister :: "nat \<Rightarrow> u64 \<Rightarrow> worker list \<Rightarrow> worker list" where
  "unregister i incarnation workers =
     interleave_turn_paths (filter (\<lambda>w. wk_id w \<noteq> i \<or> wk_incarnation w \<noteq> incarnation) workers)"

section \<open>The scheduler stripes\<close>

text \<open>The cursor of a class after \<open>k\<close> tickets over \<open>n\<close> workers.\<close>

definition cursor_at :: "nat \<Rightarrow> packet_class \<Rightarrow> nat \<Rightarrow> cursor" where
  "cursor_at n class k = \<lparr>cu_current_worker = (k div stream_chunk class) mod n,
     cu_remaining = (if k mod stream_chunk class = 0 then 0 else stream_chunk class - k mod stream_chunk class)\<rparr>"

definition scheduler_at :: "nat \<Rightarrow> (packet_class \<Rightarrow> nat) \<Rightarrow> scheduler \<Rightarrow> bool" where
  "scheduler_at n ks s \<longleftrightarrow> sc_worker_count s = n \<and> length (sc_cursors s) = 3
     \<and> (\<forall>class. sc_cursors s ! class_index class = cursor_at n class (ks class))"

lemma class_index_inj: "class_index a = class_index b \<longleftrightarrow> a = b"
  by (cases a; cases b) (simp_all add: class_index_def)

lemma class_index_less: "class_index c < 3"
  by (cases c) (simp_all add: class_index_def)

lemma stream_chunk_gt: "1 < stream_chunk c"
  by (cases c) (simp_all add: stream_chunk_def)

lemma next_slot: "0 < n \<Longrightarrow> (if a mod n + 1 = n then 0 else a mod n + 1) = (a + 1) mod n" for n :: nat
  using mod_Suc [of a n] by simp

lemma begin_for_class_step:
  assumes "0 < n" "scheduler_at n ks s"
  shows "fst (begin_for_class n class s) = Some ((ks class div stream_chunk class) mod n, class)"
    and "scheduler_at n (ks(class := ks class + 1)) (snd (begin_for_class n class s))"
proof -
  let ?m = "stream_chunk class" and ?k = "ks class"
  let ?cu = "cursor_at n class ?k"
  define cu where "cu = (if cu_remaining ?cu = 0 then ?cu\<lparr>cu_remaining := ?m\<rparr> else ?cu)"
  define cu' where "cu' = cu\<lparr>cu_remaining := cu_remaining cu - 1\<rparr>"
  define cu'' where "cu'' = (if cu_remaining cu' = 0 then
      let c = cu_current_worker cu' + 1 in cu'\<lparr>cu_current_worker := (if c = n then 0 else c)\<rparr> else cu')"
  have s: "sync_worker_count n s = s" using assms(2) by (simp add: sync_worker_count_def scheduler_at_def)
  have c: "sc_cursors s ! class_index class = ?cu" using assms(2) by (simp add: scheduler_at_def)
  have r: "begin_for_class n class s =
      (Some (cu_current_worker cu, class), s\<lparr>sc_cursors := (sc_cursors s)[class_index class := cu'']\<rparr>)"
    using assms(1) by (simp add: begin_for_class_def s c cu_def cu'_def cu''_def Let_def)
  have m: "1 < ?m" by (rule stream_chunk_gt)
  have rem: "?k mod ?m < ?m" using m by (intro mod_less_divisor) simp
  have cur: "cu_current_worker cu = (?k div ?m) mod n" by (simp add: cu_def cursor_at_def)
  then show "fst (begin_for_class n class s) = Some ((?k div ?m) mod n, class)" using r by simp
  have nle: "\<not> ?m \<le> ?k mod ?m" using rem by simp
  have cu': "cu' = \<lparr>cu_current_worker = (?k div ?m) mod n, cu_remaining = ?m - 1 - ?k mod ?m\<rparr>"
    using m by (auto simp: cu'_def cu_def cursor_at_def nle)
  have "cu'' = cursor_at n class (?k + 1)"
  proof (cases "?k mod ?m = ?m - 1")
    case True
    then have "(?k + 1) mod ?m = 0" "(?k + 1) div ?m = ?k div ?m + 1"
      using m mod_Suc [of ?k ?m] div_Suc [of ?k ?m] by simp_all
    then show ?thesis
      using True next_slot [OF assms(1), of "?k div ?m"]
      by (auto simp: cu''_def cursor_at_def cu' Let_def split: if_splits)
  next
    case False
    then have lt: "Suc (?k mod ?m) < ?m" using rem by linarith
    then have "(?k + 1) mod ?m = ?k mod ?m + 1" "(?k + 1) div ?m = ?k div ?m" "?m - 1 - ?k mod ?m \<noteq> 0"
      using mod_Suc [of ?k ?m] div_Suc [of ?k ?m] by simp_all
    then show ?thesis by (simp add: cu''_def cursor_at_def cu')
  qed
  then show "scheduler_at n (ks(class := ?k + 1)) (snd (begin_for_class n class s))"
    using r assms(2) class_index_less [of "class"]
    by (auto simp: scheduler_at_def nth_list_update class_index_inj)
qed

fun tickets :: "nat \<Rightarrow> packet_class list \<Rightarrow> scheduler \<Rightarrow> (nat \<times> packet_class) option list" where
  "tickets n [] s = []"
| "tickets n (c # cs) s = (let (t, s) = begin_for_class n c s in t # tickets n cs s)"

lemma tickets_at:
  assumes "0 < n" "scheduler_at n ks s" "i < length cs"
  shows "tickets n cs s ! i =
    Some (((ks (cs ! i) + length (filter (\<lambda>c. c = cs ! i) (take i cs))) div stream_chunk (cs ! i)) mod n, cs ! i)"
  using assms(2,3)
proof (induction cs arbitrary: i ks s)
  case (Cons c cs)
  note step = begin_for_class_step [OF assms(1) Cons.prems(1), of c]
  show ?case
  proof (cases i)
    case 0
    then show ?thesis using step(1) by (simp add: case_prod_unfold Let_def)
  next
    case (Suc j)
    then have "tickets n cs (snd (begin_for_class n c s)) ! j =
      Some ((((ks(c := ks c + 1)) (cs ! j) + length (filter (\<lambda>d. d = cs ! j) (take j cs))) div stream_chunk (cs ! j)) mod n, cs ! j)"
      using Cons.IH [OF step(2)] Cons.prems(2) by simp
    then show ?thesis using Suc by (simp add: case_prod_unfold Let_def)
  qed
qed simp

text \<open>
  The scheduler stripes each class evenly: over a constant set of workers, the packet that is
  the \<open>k\<close>-th of its class, whatever is sent between, starts at worker \<open>k\<close> divided by the chunk of
  the class, modulo the number of workers.
\<close>

theorem scheduler_stripes_each_class:
  assumes "0 < n" "i < length classes"
  shows "tickets n classes new_scheduler ! i =
    Some ((length (filter (\<lambda>c. c = classes ! i) (take i classes)) div stream_chunk (classes ! i)) mod n, classes ! i)"
proof -
  have d: "default_cursor = cursor_at n c 0" for c by (simp add: default_cursor_def cursor_at_def)
  have "scheduler_at n (\<lambda>_. 0) (sync_worker_count n new_scheduler)"
    using assms(1) class_index_less d by (auto simp: scheduler_at_def sync_worker_count_def new_scheduler_def)
  moreover have "begin_for_class n c (sync_worker_count n new_scheduler) = begin_for_class n c new_scheduler" for c
    using assms(1) by (simp add: begin_for_class_def sync_worker_count_def Let_def)
  then have "tickets n classes new_scheduler = tickets n classes (sync_worker_count n new_scheduler)"
    by (cases classes) simp_all
  ultimately show ?thesis using tickets_at [OF assms(1) _ assms(2), of "\<lambda>_. 0"] by simp
qed

lemma scheduler_stripes_each_class_witness:
  "tickets 2 [Small, Small, Bulk, Small, Small, Small] new_scheduler ! 5 = Some (1, Small)"
  using scheduler_stripes_each_class [of 2 5 "[Small, Small, Bulk, Small, Small, Small]"]
  by (simp add: stream_chunk_def)

section \<open>The table of workers is a map\<close>

lemma concat_add_to_groups: "concat (add_to_groups gs w) = concat gs @ [w]"
proof (cases gs rule: rev_cases)
  case (snoc gs' g)
  then show ?thesis by (auto simp: add_to_groups_def)
qed (simp add: add_to_groups_def)

lemma concat_groups: "concat (foldl add_to_groups gs ws) = concat gs @ ws"
  by (induction ws arbitrary: gs) (simp_all add: concat_add_to_groups)

lemma round_at_mset: "mset (round_at k gs) + mset (concat (map (drop (Suc k)) gs)) = mset (concat (map (drop k) gs))"
proof (induction gs)
  case (Cons g gs)
  have "drop k g = (if k < length g then [g ! k] else []) @ drop (Suc k) g"
    by (simp add: Cons_nth_drop_Suc)
  then have "mset (drop k g) = mset (if k < length g then [g ! k] else []) + mset (drop (Suc k) g)"
    by (metis mset_append)
  with Cons show ?case by (simp add: round_at_def ac_simps)
qed (simp add: round_at_def)

lemma round_at_Nil: "round_at k gs = [] \<Longrightarrow> concat (map (drop k) gs) = []"
  by (induction gs) (auto simp: round_at_def split: if_splits)

lemma mset_rounds: "mset (rounds k gs) = mset (concat (map (drop k) gs))"
proof (induction k gs rule: rounds.induct)
  case (1 k gs)
  then show ?case
    using round_at_mset [of k gs] round_at_Nil [of k gs]
    by (subst rounds.simps) (auto simp: Let_def)
qed

lemma mset_interleave [simp]: "mset (interleave_turn_paths ws) = mset ws"
  by (simp add: interleave_turn_paths_def mset_rounds concat_groups)

lemma set_interleave [simp]: "set (interleave_turn_paths ws) = set ws"
  by (rule mset_eq_setD) simp

lemma distinct_map_mset: "mset xs = mset ys \<Longrightarrow> distinct (map f xs) = distinct (map f ys)"
  by (metis mset_eq_imp_distinct_iff mset_map)

datatype table_call = Register worker | Unregister nat u64

definition table_step :: "table_call \<Rightarrow> worker list \<Rightarrow> worker list" where
  "table_step call ws = (case call of Register w \<Rightarrow> register w ws | Unregister i n \<Rightarrow> unregister i n ws)"

text \<open>The specification: a map from the identifier to the worker registered last.\<close>

definition map_step :: "table_call \<Rightarrow> (nat \<rightharpoonup> worker) \<Rightarrow> (nat \<rightharpoonup> worker)" where
  "map_step call m = (case call of
       Register w \<Rightarrow> m(wk_id w \<mapsto> w)
     | Unregister i n \<Rightarrow> (case m i of None \<Rightarrow> m | Some w \<Rightarrow> if wk_incarnation w = n then m(i := None) else m))"

definition table_of :: "worker list \<Rightarrow> (nat \<rightharpoonup> worker) \<Rightarrow> bool" where
  "table_of ws m \<longleftrightarrow> distinct (map wk_id ws) \<and> (\<forall>i w. m i = Some w \<longleftrightarrow> w \<in> set ws \<and> wk_id w = i)"

lemma table_step_refines:
  assumes "table_of ws m"
  shows "table_of (table_step call ws) (map_step call m)"
proof -
  have d: "distinct (map wk_id (filter P ws))" for P
    using assms by (simp add: table_of_def distinct_map_filter)
  have k: "m i = Some w \<longleftrightarrow> w \<in> set ws \<and> wk_id w = i" for i w
    using assms by (simp add: table_of_def)
  show ?thesis
  proof (cases call)
    case (Register v)
    have "distinct (map wk_id (register v ws))"
      unfolding register_def distinct_map_mset [OF mset_interleave] using d by auto
    then show ?thesis using Register k
      by (auto simp: table_of_def table_step_def map_step_def register_def)
  next
    case (Unregister j n)
    have "distinct (map wk_id (unregister j n ws))"
      unfolding unregister_def distinct_map_mset [OF mset_interleave] by (rule d)
    moreover have "map_step call m i = Some w \<longleftrightarrow> w \<in> set (unregister j n ws) \<and> wk_id w = i" for i w
    proof (cases "m j")
      case None
      then show ?thesis using k [of j] k [of i w] by (auto simp: Unregister map_step_def unregister_def)
    next
      case (Some v)
      have "w = v" if "w \<in> set ws" "wk_id w = j" using k [of j w] that Some by simp
      then show ?thesis using Some k [of j v] k [of i w]
        by (auto simp: Unregister map_step_def unregister_def)
    qed
    ultimately show ?thesis by (simp add: table_of_def table_step_def Unregister)
  qed
qed

text \<open>
  C17: The worker table implements a map: after any registrations and removals it holds exactly the
  last worker registered under each identifier and not since removed with its own incarnation,
  once each.
\<close>

theorem worker_table_is_a_map:
  "distinct (map wk_id (fold table_step calls []))
   \<and> set (fold table_step calls []) = ran (fold map_step calls Map.empty)"
proof -
  have "table_of (fold table_step calls ws) (fold map_step calls m)" if "table_of ws m" for ws m
    using that by (induction calls arbitrary: ws m) (auto intro: table_step_refines)
  from this [of "[]" Map.empty] show ?thesis
    by (auto simp: table_of_def ran_def)
qed

section \<open>Two senders\<close>

text \<open>
  The queue's senders are cloned, and each \<open>try_send\<close> is three atomic steps. A sender has
  loaded the state, pushed its packet, or is done.
\<close>

datatype sender_pc = Sending packet_buf | Loaded packet_buf u64 | Pushed | Sent | Refused

definition sender_step :: "(queued_packet, 'q) queue_ops \<Rightarrow> 'q packet_queue \<times> sender_pc \<Rightarrow> 'q packet_queue \<times> sender_pc" where
  "sender_step Q = (\<lambda>(pq, pc). case pc of
       Sending p \<Rightarrow> (case send_check pq of None \<Rightarrow> (pq, Refused) | Some epoch \<Rightarrow> (pq, Loaded p epoch))
     | Loaded p epoch \<Rightarrow> (case send_push Q p epoch pq of None \<Rightarrow> (pq, Refused) | Some pq \<Rightarrow> (pq, Pushed))
     | Pushed \<Rightarrow> (send_wake Q pq, Sent)
     | _ \<Rightarrow> (pq, pc))"

text \<open>The steps of one sender without interruption are the function.\<close>

lemma sender_alone:
  "(sender_step Q ^^ 3) (pq, Sending p) =
     (snd (send_inner Q f p False pq), case fst (send_inner Q f p False pq) of Inl _ \<Rightarrow> Refused | Inr _ \<Rightarrow> Sent)"
  by (simp add: numeral_3_eq_3 sender_step_def send_inner_def split: option.splits)

text \<open>Which of two senders moves next.\<close>

fun run_senders ::
  "(queued_packet, 'q) queue_ops \<Rightarrow> bool list \<Rightarrow> 'q packet_queue \<times> sender_pc \<times> sender_pc \<Rightarrow> 'q packet_queue \<times> sender_pc \<times> sender_pc" where
  "run_senders Q [] w = w"
| "run_senders Q (b # bs) (pq, a, c) =
     (if b then let (pq, a) = sender_step Q (pq, a) in run_senders Q bs (pq, a, c)
      else let (pq, c) = sender_step Q (pq, c) in run_senders Q bs (pq, a, c))"

text \<open>
  Two packets can sit in a queue that nobody was told of: when two tasks send on an empty active
  queue and both push before either looks at the length, both see two elements, neither wakes the
  receiver, and every later plain send sees more than one element as well.
\<close>

theorem two_senders_lose_the_wakeup:
  assumes "array_queue_ok Q" "q_items Q (pq_queue pq) = []" "2 \<le> q_capacity Q (pq_queue pq)"
    and "pq_receiver_open pq" "pq_state pq AND QUEUE_ACTIVE \<noteq> 0"
  shows "\<exists>pq'. run_senders Q [True, False, True, False, True, False] (pq, Sending p, Sending r) = (pq', Sent, Sent)
    \<and> map qp_packet (q_items Q (pq_queue pq')) = [p, r] \<and> pq_wakeups pq' = pq_wakeups pq
    \<and> (\<forall>s. pq_wakeups (snd (send_inner Q f s False pq')) = pq_wakeups pq)"
proof -
  let ?e = "drop_bit 1 (pq_state pq)"
  let ?a = "\<lparr>qp_packet = p, qp_epoch = ?e\<rparr>" and ?b = "\<lparr>qp_packet = r, qp_epoch = ?e\<rparr>"
  have check: "send_check (pq\<lparr>pq_queue := q\<rparr>) = Some ?e" for q using assms(4,5) by (simp add: send_check_def)
  have check0: "send_check pq = Some ?e" using assms(4,5) by (simp add: send_check_def)
  obtain q where q: "q_push Q ?a (pq_queue pq) = Some q"
    using queue_push_None [OF assms(1), of ?a "pq_queue pq"] assms(2,3) by (cases "q_push Q ?a (pq_queue pq)") auto
  note iq = queue_push_Some [OF assms(1) q]
  obtain q' where q': "q_push Q ?b q = Some q'"
    using queue_push_None [OF assms(1), of ?b q] iq assms(2,3) by (cases "q_push Q ?b q") auto
  note iq' = queue_push_Some [OF assms(1) q']
  let ?pq = "pq\<lparr>pq_queue := q'\<rparr>"
  have items: "q_items Q q' = [?a, ?b]" using iq iq' assms(2) by simp
  have "run_senders Q [True, False, True, False, True, False] (pq, Sending p, Sending r) = (?pq, Sent, Sent)"
    using q q' items by (simp add: sender_step_def check0 send_push_def send_wake_def)
  moreover have "pq_wakeups (snd (send_inner Q f s False ?pq)) = pq_wakeups pq" for s
  proof (cases "q_push Q \<lparr>qp_packet = s, qp_epoch = ?e\<rparr> q'")
    case None
    then show ?thesis by (simp add: send_inner_def check send_push_def)
  next
    case (Some q'')
    then show ?thesis using queue_push_Some(1) [OF assms(1) Some] items
      by (simp add: send_inner_def check send_push_def send_wake_def)
  qed
  ultimately show ?thesis using items by (intro exI [of _ ?pq]) simp
qed

lemma two_senders_lose_the_wakeup_witness:
  "\<exists>pq'. run_senders list_queue [True, False, True, False, True, False]
      (packet_channel list_queue 16 True, Sending (new_packet []), Sending (new_packet [])) = (pq', Sent, Sent)
    \<and> pq_wakeups pq' = 0"
  using two_senders_lose_the_wakeup [OF list_queue_ok, of "packet_channel list_queue 16 True" "new_packet []" "new_packet []"
      "\<lambda>x q. (None, q)"]
  by (fastforce simp: packet_channel_def list_queue_def QUEUE_ACTIVE_def)

section \<open>Resuming\<close>

text \<open>After a resume, a packet stamped before it is never received.\<close>

lemma try_recv_loop_epoch:
  "try_recv_loop n Q pq = (Some p, pq') \<Longrightarrow> array_queue_ok Q \<Longrightarrow>
     \<exists>qp\<in>set (q_items Q (pq_queue pq)). qp_packet qp = p \<and> qp_epoch qp = drop_bit 1 (pq_state pq)"
proof (induction n arbitrary: pq)
  case (Suc n)
  then obtain queued q where pop: "q_pop Q (pq_queue pq) = Some (queued, q)"
    by (auto split: option.splits)
  note items = queue_pop_Some(1) [OF Suc.prems(2) pop]
  show ?case
    using Suc.prems Suc.IH [of "pq\<lparr>pq_queue := q\<rparr>"] pop items
    by (auto simp: Let_def split: if_splits)
qed simp

end
