(* ===== verification/Credentials.thy ===== *)
theory Credentials
  imports Interfaces "HOL-Library.Multiset"
begin

text \<open>
  The credential cache of a cohort of workers, \<open>worker.rs\<close>: one TURN credential is handed out to
  at most eighteen workers, replaced when a relay refuses it, and not taken again while the service
  keeps answering with one that ran out of quota. Leases outlive the cache entry they came from, so
  every operation compares generations. Generations and counters are naturals with the saturation
  of the code written out; delays are milliseconds.
\<close>

section \<open>State\<close>

definition WORKERS_PER_GROUP :: nat where "WORKERS_PER_GROUP = 9"
definition GROUPS_PER_CREDENTIAL :: nat where "GROUPS_PER_CREDENTIAL = 2"
definition WORKERS_PER_CREDENTIAL :: nat where "WORKERS_PER_CREDENTIAL = WORKERS_PER_GROUP * GROUPS_PER_CREDENTIAL"
definition CREDENTIAL_POST_DELAY :: nat where "CREDENTIAL_POST_DELAY = 100"

lemmas credential_consts = WORKERS_PER_GROUP_def GROUPS_PER_CREDENTIAL_def WORKERS_PER_CREDENTIAL_def CREDENTIAL_POST_DELAY_def

definition sat_inc :: "nat \<Rightarrow> nat" where
  "sat_inc n = min (n + 1) (2 ^ 64 - 1)"

record turn_credentials =
  tc_username :: bytes
  tc_password :: bytes
  tc_server_addresses :: "bytes list"

record cached_credentials =
  cc_value :: turn_credentials
  cc_generation :: nat
  cc_attempts :: nat
  cc_mismatches :: nat

record credential_lease =
  le_value :: turn_credentials
  le_generation :: nat

record credential_cache =
  ch_current :: "cached_credentials option"
  ch_quota_blocked :: "turn_credentials option"
  ch_next_generation :: nat
  ch_quota_retries :: nat

datatype quota_rotation = Quota_rotated nat | Quota_replaced
datatype allocation_mismatch = Retry_current | Mismatch_rotated | Mismatch_replaced

definition new_cache :: credential_cache where
  "new_cache = \<lparr>ch_current = None, ch_quota_blocked = None, ch_next_generation = 0, ch_quota_retries = 0\<rparr>"

definition same_turn_credentials :: "turn_credentials \<Rightarrow> turn_credentials \<Rightarrow> bool" where
  "same_turn_credentials a b \<longleftrightarrow> tc_username a = tc_username b \<and> tc_password a = tc_password b
     \<and> tc_server_addresses a = tc_server_addresses b"

definition quota_rotation_delay :: "nat \<Rightarrow> nat" where
  "quota_rotation_delay attempt =
     (if attempt = 0 then 100 else if attempt = 1 then 300 else if attempt = 2 then 500
      else if attempt = 3 then 800 else 1500)"

section \<open>Operations\<close>

text \<open>The guard the operations on a lease share.\<close>

definition lease_is_current :: "credential_lease \<Rightarrow> credential_cache \<Rightarrow> bool" where
  "lease_is_current lease c =
     (case ch_current c of None \<Rightarrow> False
      | Some cached \<Rightarrow> cc_generation cached = le_generation lease
          \<and> same_turn_credentials (cc_value cached) (le_value lease))"

definition update_cached :: "(cached_credentials \<Rightarrow> cached_credentials) \<Rightarrow> credential_cache \<Rightarrow> credential_cache" where
  "update_cached f c = c\<lparr>ch_current := map_option f (ch_current c)\<rparr>"

definition cache_reserve :: "credential_cache \<Rightarrow> credential_lease option \<times> credential_cache" where
  "cache_reserve c =
     (let c = (case ch_current c of
                 Some cached \<Rightarrow> if cc_attempts cached \<ge> WORKERS_PER_CREDENTIAL then c\<lparr>ch_current := None\<rparr> else c
               | None \<Rightarrow> c)
      in case ch_current c of
           None \<Rightarrow> (None, c)
         | Some cached \<Rightarrow>
             (Some \<lparr>le_value = cc_value cached, le_generation = cc_generation cached\<rparr>,
              update_cached (\<lambda>x. x\<lparr>cc_attempts := sat_inc (cc_attempts x)\<rparr>) c))"

definition cache_store :: "turn_credentials \<Rightarrow> credential_cache \<Rightarrow> bool \<times> credential_cache" where
  "cache_store credentials c =
     (if (case ch_quota_blocked c of Some blocked \<Rightarrow> same_turn_credentials blocked credentials | None \<Rightarrow> False)
      then (False, c)
      else
        let g = max (sat_inc (ch_next_generation c)) 1
        in (True, c\<lparr>ch_current := Some \<lparr>cc_value = credentials, cc_generation = g, cc_attempts = 0, cc_mismatches = 0\<rparr>,
                    ch_quota_blocked := None, ch_next_generation := g\<rparr>))"

definition cache_record_allocation :: "credential_lease \<Rightarrow> credential_cache \<Rightarrow> credential_cache" where
  "cache_record_allocation lease c =
     (if lease_is_current lease c
      then (update_cached (\<lambda>x. x\<lparr>cc_mismatches := 0\<rparr>) c)\<lparr>ch_quota_retries := 0\<rparr> else c)"

definition cache_release :: "credential_lease \<Rightarrow> credential_cache \<Rightarrow> credential_cache" where
  "cache_release lease c =
     (if lease_is_current lease c then update_cached (\<lambda>x. x\<lparr>cc_attempts := cc_attempts x - 1\<rparr>) c else c)"

definition cache_invalidate :: "credential_lease \<Rightarrow> credential_cache \<Rightarrow> bool \<times> credential_cache" where
  "cache_invalidate lease c =
     (if lease_is_current lease c then (True, c\<lparr>ch_current := None\<rparr>) else (False, c))"

definition next_quota_delay :: "credential_cache \<Rightarrow> nat \<times> credential_cache" where
  "next_quota_delay c =
     (quota_rotation_delay (ch_quota_retries c), c\<lparr>ch_quota_retries := sat_inc (ch_quota_retries c)\<rparr>)"

definition rotate_after_quota :: "credential_lease \<Rightarrow> credential_cache \<Rightarrow> quota_rotation \<times> credential_cache" where
  "rotate_after_quota lease c =
     (case ch_current c of
        None \<Rightarrow> (Quota_replaced, c)
      | Some cached \<Rightarrow>
          if cc_generation cached \<noteq> le_generation lease \<or> \<not> same_turn_credentials (cc_value cached) (le_value lease)
          then (Quota_replaced, c)
          else (Quota_rotated (quota_rotation_delay (ch_quota_retries c)),
                c\<lparr>ch_current := None, ch_quota_blocked := Some (cc_value cached),
                  ch_quota_retries := sat_inc (ch_quota_retries c)\<rparr>))"

definition retry_after_mismatch :: "credential_lease \<Rightarrow> credential_cache \<Rightarrow> allocation_mismatch \<times> credential_cache" where
  "retry_after_mismatch lease c =
     (case ch_current c of
        None \<Rightarrow> (Mismatch_replaced, c)
      | Some cached \<Rightarrow>
          if cc_generation cached \<noteq> le_generation lease \<or> \<not> same_turn_credentials (cc_value cached) (le_value lease)
          then (Mismatch_replaced, c)
          else if cc_mismatches cached = 0
          then (Retry_current, update_cached (\<lambda>x. x\<lparr>cc_mismatches := 1\<rparr>) c)
          else (Mismatch_rotated, c\<lparr>ch_current := None\<rparr>))"

lemma same_turn_credentials_eq [simp]: "same_turn_credentials a b \<longleftrightarrow> a = b"
  by (auto simp: same_turn_credentials_def)

lemmas cache_ops = cache_reserve_def cache_store_def cache_record_allocation_def cache_release_def cache_invalidate_def
  next_quota_delay_def rotate_after_quota_def retry_after_mismatch_def lease_is_current_def update_cached_def

section \<open>Fetching a credential\<close>

text \<open>
  \<open>GroupCredentials::get\<close> with its surroundings as answers: whether the pacer's lock came before a
  cancellation, what the service answered, whether the sleeps were cut short. The random part of
  the back-off is an argument.
\<close>

datatype fetch_answer = Fetch_cancelled | Fetch_ok turn_credentials | Fetch_call_unavailable | Fetch_failed

record group_credentials =
  gc_cache :: credential_cache
  gc_failures :: nat
  gc_unavailable :: bool

record fetch_surroundings =
  fs_pacer :: bool
  fs_unavailable_after_pacer :: bool
  fs_answer :: fetch_answer
  fs_slept :: bool
  fs_jitter :: nat

definition fetch_backoff :: "nat \<Rightarrow> nat \<Rightarrow> nat" where
  "fetch_backoff failures jitter =
     min (CREDENTIAL_POST_DELAY * 2 ^ min failures 5) 3000 + jitter mod 100"

definition fetched :: "fetch_surroundings \<Rightarrow> turn_credentials \<Rightarrow> group_credentials
    \<Rightarrow> credential_lease option \<times> nat \<times> group_credentials" where
  "fetched e credentials g =
     (case cache_store credentials (gc_cache g) of
        (False, c) \<Rightarrow> (case next_quota_delay c of (delay, c) \<Rightarrow> (None, delay, g\<lparr>gc_cache := c\<rparr>))
      | (True, c) \<Rightarrow>
          if \<not> fs_slept e then (None, CREDENTIAL_POST_DELAY, g\<lparr>gc_cache := c, gc_failures := 0\<rparr>)
          else (case cache_reserve c of
                  (lease, c) \<Rightarrow> (lease, CREDENTIAL_POST_DELAY, g\<lparr>gc_cache := c, gc_failures := 0\<rparr>)))"

definition group_get :: "fetch_surroundings \<Rightarrow> group_credentials \<Rightarrow> credential_lease option \<times> nat \<times> group_credentials" where
  "group_get e g =
     (if gc_unavailable g then (None, 0, g)
      else case cache_reserve (gc_cache g) of
        (Some lease, c) \<Rightarrow> (Some lease, 0, g\<lparr>gc_cache := c\<rparr>)
      | (None, c) \<Rightarrow>
          let g = g\<lparr>gc_cache := c\<rparr> in
          if \<not> fs_pacer e \<or> fs_unavailable_after_pacer e then (None, 0, g)
          else case fs_answer e of
            Fetch_cancelled \<Rightarrow> (None, 0, g)
          | Fetch_ok credentials \<Rightarrow> fetched e credentials g
          | Fetch_call_unavailable \<Rightarrow> (None, 0, g\<lparr>gc_unavailable := True\<rparr>)
          | Fetch_failed \<Rightarrow>
              (None, fetch_backoff (gc_failures g) (fs_jitter e), g\<lparr>gc_failures := (gc_failures g + 1) mod 2 ^ 64\<rparr>))"

section \<open>The cohort\<close>

text \<open>
  The cache with the leases handed out and not given back. Every call of the workers carries a
  lease they hold; the services answer \<open>store\<close> as they like. A generation is never used twice as
  long as the counter does not saturate, which would take \<open>2 ^ 64\<close> fetches.
\<close>

record cohort =
  co_cache :: credential_cache
  co_held :: "credential_lease multiset"

datatype cohort_call =
    Call_reserve
  | Call_store turn_credentials
  | Call_record credential_lease
  | Call_release credential_lease
  | Call_invalidate credential_lease
  | Call_quota credential_lease
  | Call_quota_delay
  | Call_mismatch credential_lease

fun call_lease :: "cohort_call \<Rightarrow> credential_lease option" where
  "call_lease (Call_record l) = Some l"
| "call_lease (Call_release l) = Some l"
| "call_lease (Call_invalidate l) = Some l"
| "call_lease (Call_quota l) = Some l"
| "call_lease (Call_mismatch l) = Some l"
| "call_lease _ = None"

fun cohort_handle :: "cohort_call \<Rightarrow> cohort \<Rightarrow> cohort" where
  "cohort_handle Call_reserve s =
     (case cache_reserve (co_cache s) of
        (None, c) \<Rightarrow> s\<lparr>co_cache := c\<rparr>
      | (Some l, c) \<Rightarrow> \<lparr>co_cache = c, co_held = add_mset l (co_held s)\<rparr>)"
| "cohort_handle (Call_store v) s = s\<lparr>co_cache := snd (cache_store v (co_cache s))\<rparr>"
| "cohort_handle (Call_record l) s = s\<lparr>co_cache := cache_record_allocation l (co_cache s)\<rparr>"
| "cohort_handle (Call_release l) s = \<lparr>co_cache = cache_release l (co_cache s), co_held = co_held s - {#l#}\<rparr>"
| "cohort_handle (Call_invalidate l) s = s\<lparr>co_cache := snd (cache_invalidate l (co_cache s))\<rparr>"
| "cohort_handle (Call_quota l) s = s\<lparr>co_cache := snd (rotate_after_quota l (co_cache s))\<rparr>"
| "cohort_handle Call_quota_delay s = s\<lparr>co_cache := snd (next_quota_delay (co_cache s))\<rparr>"
| "cohort_handle (Call_mismatch l) s = s\<lparr>co_cache := snd (retry_after_mismatch l (co_cache s))\<rparr>"

inductive cohort_step :: "cohort \<Rightarrow> cohort_call \<Rightarrow> cohort \<Rightarrow> bool" where
  cohort_stepI: "\<lbrakk>\<forall>l. call_lease call = Some l \<longrightarrow> l \<in># co_held s; ch_next_generation (co_cache s) < 2 ^ 64 - 1\<rbrakk>
    \<Longrightarrow> cohort_step s call (cohort_handle call s)"

definition leases_of :: "nat \<Rightarrow> credential_lease multiset \<Rightarrow> credential_lease multiset" where
  "leases_of g held = filter_mset (\<lambda>l. le_generation l = g) held"

definition new_cohort :: cohort where
  "new_cohort = \<lparr>co_cache = new_cache, co_held = {#}\<rparr>"

text \<open>
  The invariant: generations are spent in order, all leases of a generation carry one credential, no
  generation has more than eighteen, the current entry counts exactly its own leases, and a
  credential out of quota is not current.
\<close>

definition held_ok :: "nat \<Rightarrow> credential_lease multiset \<Rightarrow> bool" where
  "held_ok generation held \<longleftrightarrow>
     (\<forall>l. l \<in># held \<longrightarrow> le_generation l \<le> generation)
     \<and> (\<forall>g. size (leases_of g held) \<le> WORKERS_PER_CREDENTIAL)
     \<and> (\<forall>l l'. l \<in># held \<longrightarrow> l' \<in># held \<longrightarrow> le_generation l = le_generation l' \<longrightarrow> le_value l = le_value l')"

definition entry_ok :: "nat \<Rightarrow> turn_credentials option \<Rightarrow> credential_lease multiset \<Rightarrow> cached_credentials \<Rightarrow> bool" where
  "entry_ok generation blocked held cached \<longleftrightarrow>
     cc_generation cached = generation \<and> blocked = None \<and> cc_mismatches cached \<le> 1
     \<and> (\<forall>l. l \<in># held \<longrightarrow> le_generation l = generation \<longrightarrow> le_value l = cc_value cached)
     \<and> cc_attempts cached = size (leases_of generation held)"

definition cache_ok :: "credential_lease multiset \<Rightarrow> credential_cache \<Rightarrow> bool" where
  "cache_ok held c \<longleftrightarrow> held_ok (ch_next_generation c) held
     \<and> (\<forall>cached. ch_current c = Some cached \<longrightarrow> entry_ok (ch_next_generation c) (ch_quota_blocked c) held cached)"

definition cohort_inv :: "cohort \<Rightarrow> bool" where
  "cohort_inv s \<longleftrightarrow> cache_ok (co_held s) (co_cache s)"

lemma leases_of_simps [simp]:
  "leases_of g {#} = {#}"
  "leases_of g (add_mset l held) = (if le_generation l = g then add_mset l (leases_of g held) else leases_of g held)"
  by (simp_all add: leases_of_def)

lemma leases_of_minus:
  "l \<in># held \<Longrightarrow> leases_of g (held - {#l#}) = (if le_generation l = g then leases_of g held - {#l#} else leases_of g held)"
  by (auto simp: leases_of_def)

lemma in_leases_of: "l \<in># leases_of g held \<longleftrightarrow> l \<in># held \<and> le_generation l = g"
  by (simp add: leases_of_def)

lemma lease_is_currentE:
  assumes "lease_is_current l c"
  obtains cached where "ch_current c = Some cached" "cc_generation cached = le_generation l" "cc_value cached = le_value l"
  using assms by (auto simp: lease_is_current_def split: option.splits)

lemma cache_ok_dropped: "cache_ok held c \<Longrightarrow> ch_current c' = None \<Longrightarrow> ch_next_generation c' = ch_next_generation c \<Longrightarrow> cache_ok held c'"
  by (simp add: cache_ok_def)

lemma cache_ok_update:
  assumes "cache_ok held c" "ch_next_generation c' = ch_next_generation c" "ch_quota_blocked c' = ch_quota_blocked c"
    "ch_current c' = map_option f (ch_current c)"
    "\<And>x. cc_generation (f x) = cc_generation x \<and> cc_value (f x) = cc_value x \<and> cc_attempts (f x) = cc_attempts x
      \<and> (cc_mismatches x \<le> 1 \<longrightarrow> cc_mismatches (f x) \<le> 1)"
  shows "cache_ok held c'"
  using assms by (auto simp: cache_ok_def entry_ok_def)

lemma held_ok_add:
  assumes "held_ok n held" "entry_ok n b held cached" "cc_attempts cached < WORKERS_PER_CREDENTIAL"
  shows "held_ok n (add_mset \<lparr>le_value = cc_value cached, le_generation = cc_generation cached\<rparr> held)"
proof -
  have e: "cc_generation cached = n" "cc_attempts cached = size (leases_of n held)"
    and v: "\<And>l. l \<in># held \<Longrightarrow> le_generation l = n \<Longrightarrow> le_value l = cc_value cached"
    using assms(2) by (simp_all add: entry_ok_def)
  have "size (leases_of g (add_mset \<lparr>le_value = cc_value cached, le_generation = cc_generation cached\<rparr> held)) \<le> WORKERS_PER_CREDENTIAL" for g
  proof (cases "g = n")
    case True
    then show ?thesis using assms(3) e by simp
  next
    case False
    then show ?thesis using assms(1) e(1) by (simp add: held_ok_def)
  qed
  moreover have "l \<in># held \<Longrightarrow> le_generation l \<le> n" for l
    using assms(1) by (simp add: held_ok_def)
  moreover have "le_value l = le_value l'"
    if "l \<in># add_mset \<lparr>le_value = cc_value cached, le_generation = cc_generation cached\<rparr> held"
      "l' \<in># add_mset \<lparr>le_value = cc_value cached, le_generation = cc_generation cached\<rparr> held"
      "le_generation l = le_generation l'" for l l'
  proof -
    have old: "x \<in># held \<Longrightarrow> y \<in># held \<Longrightarrow> le_generation x = le_generation y \<Longrightarrow> le_value x = le_value y" for x y
      using assms(1) unfolding held_ok_def by blast
    let ?new = "\<lparr>le_value = cc_value cached, le_generation = cc_generation cached\<rparr>"
    have now: "le_value x = cc_value cached" if "x \<in># add_mset ?new held" "le_generation x = n" for x
      using that v by (cases "x = ?new") auto
    have earlier: "x \<in># held" if "x \<in># add_mset ?new held" "le_generation x \<noteq> n" for x
      using that e(1) by (cases "x = ?new") auto
    show ?thesis
    proof (cases "le_generation l = n")
      case True
      then have "le_generation l' = n" using that(3) by metis
      with True show ?thesis using now [OF that(1)] now [OF that(2)] by metis
    next
      case False
      then have "le_generation l' \<noteq> n" using that(3) by metis
      then show ?thesis
        by (rule old [OF earlier [OF that(1) False] earlier [OF that(2)] that(3)])
    qed
  qed
  ultimately show ?thesis
    unfolding held_ok_def using e(1) by (metis credential_lease.select_convs(2) insert_iff order_refl set_mset_add_mset_insert)
qed

lemma entry_ok_add:
  "entry_ok n b held cached \<Longrightarrow> entry_ok n b (add_mset \<lparr>le_value = cc_value cached, le_generation = cc_generation cached\<rparr> held)
    (cached\<lparr>cc_attempts := Suc (cc_attempts cached)\<rparr>)"
  by (simp add: entry_ok_def)

lemma reserve_ok:
  assumes "cache_ok held c" "cache_reserve c = (r, c')"
  shows "cache_ok (case r of None \<Rightarrow> held | Some l \<Rightarrow> add_mset l held) c'"
proof (cases "ch_current c")
  case None
  then show ?thesis using assms by (simp add: cache_reserve_def)
next
  case (Some cached)
  show ?thesis
  proof (cases "cc_attempts cached \<ge> WORKERS_PER_CREDENTIAL")
    case True
    with Some assms(2) have "r = None" "c' = c\<lparr>ch_current := None\<rparr>"
      by (auto simp: cache_reserve_def)
    then show ?thesis using assms(1) cache_ok_dropped by simp
  next
    case False
    have inc: "sat_inc (cc_attempts cached) = Suc (cc_attempts cached)"
      using False by (simp add: sat_inc_def credential_consts)
    have "r = Some \<lparr>le_value = cc_value cached, le_generation = cc_generation cached\<rparr>"
      "c' = c\<lparr>ch_current := Some (cached\<lparr>cc_attempts := Suc (cc_attempts cached)\<rparr>)\<rparr>"
      using Some False inc assms(2) by (auto simp: cache_reserve_def update_cached_def)
    moreover have "entry_ok (ch_next_generation c) (ch_quota_blocked c) held cached" "held_ok (ch_next_generation c) held"
      using assms(1) Some by (simp_all add: cache_ok_def)
    ultimately show ?thesis
      using False by (simp add: cache_ok_def held_ok_add entry_ok_add)
  qed
qed

lemma store_ok:
  assumes "cache_ok held c" "ch_next_generation c < 2 ^ 64 - 1"
  shows "cache_ok held (snd (cache_store v c))"
proof -
  have g: "max (sat_inc (ch_next_generation c)) 1 = Suc (ch_next_generation c)"
    using assms(2) by (simp add: sat_inc_def)
  have old: "le_generation l \<le> ch_next_generation c" if "l \<in># held" for l
    using assms(1) that by (simp add: cache_ok_def held_ok_def)
  then have none: "leases_of (Suc (ch_next_generation c)) held = {#}"
    by (auto simp flip: set_mset_eq_empty_iff simp: leases_of_def dest: old)
  show ?thesis
  proof (cases "fst (cache_store v c)")
    case False
    then show ?thesis using assms(1) by (simp add: cache_store_def Let_def split: if_splits)
  next
    case True
    then have "snd (cache_store v c) = c\<lparr>ch_current := Some \<lparr>cc_value = v, cc_generation = Suc (ch_next_generation c),
        cc_attempts = 0, cc_mismatches = 0\<rparr>, ch_quota_blocked := None, ch_next_generation := Suc (ch_next_generation c)\<rparr>"
      unfolding cache_store_def Let_def g by (simp split: if_splits)
    moreover have "held_ok (Suc (ch_next_generation c)) held"
      using assms(1) unfolding cache_ok_def held_ok_def by (blast intro: le_SucI)
    moreover have "le_generation l \<noteq> Suc (ch_next_generation c)" if "l \<in># held" for l
      using old [OF that] by simp
    ultimately show ?thesis
      using none by (simp add: cache_ok_def entry_ok_def)
  qed
qed

lemma held_ok_minus:
  assumes "held_ok n held" "l \<in># held"
  shows "held_ok n (held - {#l#})"
proof -
  have "size (leases_of g (held - {#l#})) \<le> size (leases_of g held)" for g
    by (rule size_mset_mono) (simp add: leases_of_def multiset_filter_mono)
  then show ?thesis
    using assms(1) unfolding held_ok_def by (meson in_diffD le_trans)
qed

lemma release_ok:
  assumes "cache_ok held c" "l \<in># held"
  shows "cache_ok (held - {#l#}) (cache_release l c)"
proof (cases "lease_is_current l c")
  case True
  then obtain cached where c: "ch_current c = Some cached" "cc_generation cached = le_generation l"
    by (rule lease_is_currentE)
  have "l \<in># leases_of (le_generation l) held" using assms(2) by (simp add: in_leases_of)
  then have "size (leases_of (le_generation l) held - {#l#}) = size (leases_of (le_generation l) held) - 1"
    by (rule size_Diff_singleton)
  then show ?thesis
    using assms True c held_ok_minus
    by (auto simp: cache_release_def update_cached_def cache_ok_def entry_ok_def leases_of_minus dest: in_diffD)
next
  case False
  have "le_generation l \<noteq> ch_next_generation c" if "ch_current c = Some cached" for cached
    using assms that False by (auto simp: cache_ok_def entry_ok_def lease_is_current_def)
  then show ?thesis
    using assms False held_ok_minus
    by (auto simp: cache_release_def cache_ok_def entry_ok_def leases_of_minus dest: in_diffD)
qed

lemma lease_call_ok:
  assumes "cache_ok held c"
  shows "cache_ok held (cache_record_allocation l c)" "cache_ok held (snd (cache_invalidate l c))"
    "cache_ok held (snd (next_quota_delay c))" "cache_ok held (snd (rotate_after_quota l c))"
    "cache_ok held (snd (retry_after_mismatch l c))"
proof -
  show "cache_ok held (cache_record_allocation l c)"
    using assms by (auto simp: cache_record_allocation_def update_cached_def
        intro: cache_ok_update [where f = "\<lambda>x. x\<lparr>cc_mismatches := 0\<rparr>"])
  show "cache_ok held (snd (cache_invalidate l c))" "cache_ok held (snd (next_quota_delay c))"
    using assms by (auto simp: cache_invalidate_def next_quota_delay_def cache_ok_def)
  show "cache_ok held (snd (rotate_after_quota l c))"
    using assms by (auto simp: rotate_after_quota_def cache_ok_def split: option.splits)
  show "cache_ok held (snd (retry_after_mismatch l c))"
  proof (cases "fst (retry_after_mismatch l c) = Retry_current")
    case True
    then have "snd (retry_after_mismatch l c) = update_cached (\<lambda>x. x\<lparr>cc_mismatches := 1\<rparr>) c"
      by (cases "ch_current c") (simp_all add: retry_after_mismatch_def split: if_splits)
    then show ?thesis
      using assms by (auto simp: update_cached_def intro: cache_ok_update [where f = "\<lambda>x. x\<lparr>cc_mismatches := 1\<rparr>"])
  next
    case False
    then have "snd (retry_after_mismatch l c) = c \<or> snd (retry_after_mismatch l c) = c\<lparr>ch_current := None\<rparr>"
      by (cases "ch_current c") (auto simp: retry_after_mismatch_def split: if_splits)
    then show ?thesis using assms cache_ok_dropped by auto
  qed
qed

lemma cohort_step_inv:
  assumes "cohort_step s call s'" "cohort_inv s"
  shows "cohort_inv s'"
  using assms(1)
proof (cases rule: cohort_step.cases)
  case cohort_stepI
  note s' = cohort_stepI(1) and lease = cohort_stepI(2) and g = cohort_stepI(3)
  have ok: "cache_ok (co_held s) (co_cache s)" using assms(2) by (simp add: cohort_inv_def)
  show ?thesis
  proof (cases call)
    case Call_reserve
    obtain r c where r: "cache_reserve (co_cache s) = (r, c)" by fastforce
    show ?thesis using reserve_ok [OF ok r] r Call_reserve by (simp add: s' cohort_inv_def split: option.splits)
  next
    case (Call_release l)
    then show ?thesis using lease by (simp add: s' cohort_inv_def release_ok [OF ok])
  qed (use lease in \<open>simp_all add: s' cohort_inv_def lease_call_ok [OF ok] store_ok [OF ok g]\<close>)
qed

interpretation cohort: step_invariant cohort_step cohort_inv
  by unfold_locales (rule cohort_step_inv)

lemma new_cohort_inv: "cohort_inv new_cohort"
  by (simp add: cohort_inv_def cache_ok_def held_ok_def new_cohort_def new_cache_def)

text \<open>
  A credential is in the hands of at most eighteen workers: whatever the workers and the service do
  and in whatever order, at most \<open>WORKERS_PER_CREDENTIAL\<close> leases of one generation are out at a
  time, they all carry the same credential, and the cache never offers the one that ran out of quota.
\<close>

theorem credential_leases_bounded:
  assumes "steps cohort_step new_cohort calls s"
  shows "size (leases_of g (co_held s)) \<le> WORKERS_PER_CREDENTIAL
    \<and> (\<forall>l \<in># leases_of g (co_held s). \<forall>l' \<in># leases_of g (co_held s). le_value l = le_value l')
    \<and> (ch_quota_blocked (co_cache s) \<noteq> None \<longrightarrow> ch_current (co_cache s) = None)"
proof -
  have "cohort_inv s" using assms by (rule cohort.steps_inv) (rule new_cohort_inv)
  then show ?thesis
    by (cases "ch_current (co_cache s)") (auto simp: cohort_inv_def cache_ok_def held_ok_def entry_ok_def in_leases_of)
qed

text \<open>Two workers share the first credential, one gives it back, the next generation starts.\<close>

definition example_credentials :: turn_credentials where
  "example_credentials = \<lparr>tc_username = [1], tc_password = [2], tc_server_addresses = [[3]]\<rparr>"

definition example_lease :: "nat \<Rightarrow> credential_lease" where
  "example_lease g = \<lparr>le_value = example_credentials, le_generation = g\<rparr>"

lemma cohort_step_eq: "cohort_handle call s = s' \<Longrightarrow> \<forall>l. call_lease call = Some l \<longrightarrow> l \<in># co_held s \<Longrightarrow>
    ch_next_generation (co_cache s) < 2 ^ 64 - 1 \<Longrightarrow> cohort_step s call s'"
  using cohort_stepI [of call s] by simp

lemmas cohort_eval = cache_ops credential_consts sat_inc_def new_cohort_def new_cache_def example_lease_def example_credentials_def

lemma example_cohort_run:
  "\<exists>s. steps cohort_step new_cohort [Call_store example_credentials, Call_reserve, Call_reserve, Call_quota (example_lease 1)] s
    \<and> size (leases_of 1 (co_held s)) = 2 \<and> ch_quota_blocked (co_cache s) = Some example_credentials"
  apply (intro exI conjI)
    apply (rule steps_Cons, rule cohort_stepI; (simp add: cohort_eval)?)+
    apply (rule steps_Nil)
   apply (simp_all add: cohort_eval)
  done

lemma credential_leases_bounded_witness:
  "\<exists>s. steps cohort_step new_cohort [Call_store example_credentials, Call_reserve, Call_reserve, Call_quota (example_lease 1)] s
    \<and> size (leases_of 1 (co_held s)) = 2 \<and> 2 \<le> WORKERS_PER_CREDENTIAL \<and> ch_current (co_cache s) = None"
  using example_cohort_run credential_leases_bounded by (metis option.distinct(1))

section \<open>Requests of the workers\<close>

text \<open>\<open>group_get\<close> is made of calls of the cohort.\<close>

definition leased :: "credential_lease option \<Rightarrow> credential_lease multiset" where
  "leased r = (case r of None \<Rightarrow> {#} | Some l \<Rightarrow> {#l#})"

lemma steps_same: "s = s' \<Longrightarrow> steps step s [] s'"
  by (simp add: steps_Nil)

lemma reserve_step:
  assumes "cache_reserve c = (r, c')" "ch_next_generation c < 2 ^ 64 - 1"
  shows "cohort_step \<lparr>co_cache = c, co_held = H\<rparr> Call_reserve \<lparr>co_cache = c', co_held = H + leased r\<rparr>"
  by (rule cohort_step_eq) (use assms in \<open>auto simp: leased_def split: option.splits\<close>)

lemma reserve_generation: "cache_reserve c = (r, c') \<Longrightarrow> ch_next_generation c' = ch_next_generation c"
  by (auto simp: cache_reserve_def update_cached_def Let_def split: option.splits if_splits)

lemma store_generation:
  "cache_store v c = (b, c') \<Longrightarrow> ch_next_generation c < 2 ^ 64 - 2 \<Longrightarrow> ch_next_generation c' < 2 ^ 64 - 1"
  by (auto simp: cache_store_def Let_def sat_inc_def split: if_splits)

lemma fetched_steps:
  assumes "fetched e v g = (r, d, g')" "ch_next_generation (gc_cache g) < 2 ^ 64 - 2"
  shows "\<exists>calls. steps cohort_step \<lparr>co_cache = gc_cache g, co_held = H\<rparr> calls \<lparr>co_cache = gc_cache g', co_held = H + leased r\<rparr>
    \<and> (\<forall>w. Call_store w \<in> set calls \<longrightarrow> w = v)"
proof -
  obtain b c where store: "cache_store v (gc_cache g) = (b, c)" by fastforce
  have s1: "cohort_step \<lparr>co_cache = gc_cache g, co_held = H\<rparr> (Call_store v) \<lparr>co_cache = c, co_held = H\<rparr>"
    by (rule cohort_step_eq) (use store assms(2) in auto)
  have n: "ch_next_generation c < 2 ^ 64 - 1" using store_generation [OF store assms(2)] .
  show ?thesis
  proof (cases b)
    case False
    then have "steps cohort_step \<lparr>co_cache = gc_cache g, co_held = H\<rparr> [Call_store v, Call_quota_delay] \<lparr>co_cache = gc_cache g', co_held = H + leased r\<rparr>"
      using assms(1) store n
      by (intro steps_Cons [where step = cohort_step, OF s1] steps_Cons [where step = cohort_step, OF cohort_step_eq] steps_same) (auto simp: fetched_def next_quota_delay_def leased_def)
    then show ?thesis by (intro exI conjI) auto
  next
    case True
    show ?thesis
    proof (cases "fs_slept e")
      case False
      then have "steps cohort_step \<lparr>co_cache = gc_cache g, co_held = H\<rparr> [Call_store v] \<lparr>co_cache = gc_cache g', co_held = H + leased r\<rparr>"
        using assms(1) store True by (intro steps_Cons [where step = cohort_step, OF s1] steps_same) (auto simp: fetched_def leased_def)
      then show ?thesis by (intro exI conjI) auto
    next
      case slept: True
      obtain r' c' where res: "cache_reserve c = (r', c')" by fastforce
      have "r' = r" "c' = gc_cache g'" using assms(1) store True slept res by (auto simp: fetched_def)
      then have "steps cohort_step \<lparr>co_cache = gc_cache g, co_held = H\<rparr> [Call_store v, Call_reserve] \<lparr>co_cache = gc_cache g', co_held = H + leased r\<rparr>"
        using reserve_step [OF res n] by (intro steps_Cons [where step = cohort_step, OF s1] steps_Cons steps_same) simp_all
      then show ?thesis by (intro exI conjI) auto
    qed
  qed
qed

lemma group_get_steps:
  assumes "group_get e g = (r, d, g')" "ch_next_generation (gc_cache g) < 2 ^ 64 - 2"
  shows "\<exists>calls. steps cohort_step \<lparr>co_cache = gc_cache g, co_held = H\<rparr> calls \<lparr>co_cache = gc_cache g', co_held = H + leased r\<rparr>
    \<and> (\<forall>w. Call_store w \<in> set calls \<longrightarrow> fs_answer e = Fetch_ok w)"
proof (cases "gc_unavailable g")
  case True
  then show ?thesis using assms(1) by (auto simp: group_get_def leased_def intro!: exI [of _ "[]"] steps_same)
next
  case available: False
  obtain r0 c0 where res: "cache_reserve (gc_cache g) = (r0, c0)" by fastforce
  have s0: "cohort_step \<lparr>co_cache = gc_cache g, co_held = H\<rparr> Call_reserve \<lparr>co_cache = c0, co_held = H + leased r0\<rparr>"
    by (rule reserve_step [OF res]) (use assms(2) in simp)
  show ?thesis
  proof (cases r0)
    case (Some l)
    then have "r = Some l" "gc_cache g' = c0" using assms(1) available res by (auto simp: group_get_def)
    then show ?thesis using s0 Some
      by (intro exI [of _ "[Call_reserve]"] conjI steps_Cons [where step = cohort_step, OF s0] steps_same) auto
  next
    case None
    then have H: "H + leased r0 = H" by (simp add: leased_def)
    let ?g = "g\<lparr>gc_cache := c0\<rparr>"
    show ?thesis
    proof (cases "\<exists>v. fs_answer e = Fetch_ok v \<and> fs_pacer e \<and> \<not> fs_unavailable_after_pacer e")
      case True
      then obtain v where v: "fs_answer e = Fetch_ok v" "fs_pacer e" "\<not> fs_unavailable_after_pacer e" by blast
      then have "fetched e v ?g = (r, d, g')" using assms(1) available res None by (simp add: group_get_def)
      then obtain calls where calls: "steps cohort_step \<lparr>co_cache = c0, co_held = H\<rparr> calls \<lparr>co_cache = gc_cache g', co_held = H + leased r\<rparr>"
        "\<forall>w. Call_store w \<in> set calls \<longrightarrow> w = v"
        using fetched_steps [of e v ?g r d g' H] reserve_generation [OF res] assms(2) by auto
      have "steps cohort_step \<lparr>co_cache = gc_cache g, co_held = H\<rparr> (Call_reserve # calls) \<lparr>co_cache = gc_cache g', co_held = H + leased r\<rparr>"
        using s0 calls(1) unfolding H by (rule steps_Cons)
      then show ?thesis using calls(2) v(1) by (intro exI conjI) auto
    next
      case False
      then have "r = None" "gc_cache g' = c0"
        using assms(1) available res None by (auto simp: group_get_def Let_def split: if_splits fetch_answer.splits)
      then show ?thesis
        by (intro exI [of _ "[Call_reserve]"] conjI steps_Cons [where step = cohort_step, OF s0] steps_same) (auto simp: None leased_def)
    qed
  qed
qed

lemma same_blocked:
  assumes "steps cohort_step s calls s'" "ch_quota_blocked (co_cache s) = Some v" "ch_current (co_cache s) = None"
    "\<forall>w. Call_store w \<in> set calls \<longrightarrow> w = v"
  shows "ch_current (co_cache s') = None \<and> ch_quota_blocked (co_cache s') = Some v \<and> co_held s' \<subseteq># co_held s"
  using assms
proof (induction rule: steps.induct)
  case (steps_Cons s call s' calls s'')
  have call: "s' = cohort_handle call s" using steps_Cons.hyps(1) by (auto elim: cohort_step.cases)
  have "ch_current (co_cache s') = None \<and> ch_quota_blocked (co_cache s') = Some v \<and> co_held s' \<subseteq># co_held s"
    using steps_Cons.prems unfolding call by (cases call) (simp_all add: cache_ops)
  moreover have "\<forall>w. Call_store w \<in> set calls \<longrightarrow> w = v" using steps_Cons.prems(3) by simp
  ultimately show ?case using steps_Cons.IH by (meson subset_mset.order_trans)
qed simp

lemma rotated_blocks:
  assumes "rotate_after_quota l c = (Quota_rotated d, c')"
  shows "ch_current c' = None \<and> ch_quota_blocked c' = Some (le_value l)"
  using assms by (auto simp: rotate_after_quota_def split: option.splits if_splits)

text \<open>
  After the error 486 a credential is not used again: once a relay refused an allocation for the
  quota of the current credential, no request of any worker yields a lease, and none of the old
  leases is renewed, as long as the service answers with that credential only; every such answer costs
  a delay of 100 ms to 1.5 s, and a failure of the service 100 ms to 3.1 s.
\<close>

theorem exhausted_credential_is_not_leased:
  assumes "rotate_after_quota l (gc_cache g) = (Quota_rotated d, c)"
    and "steps cohort_step \<lparr>co_cache = c, co_held = H\<rparr> calls \<lparr>co_cache = gc_cache g', co_held = H'\<rparr>"
    and "\<forall>w. Call_store w \<in> set calls \<longrightarrow> w = le_value l"
    and "\<not> gc_unavailable g'" "fs_pacer e" "\<not> fs_unavailable_after_pacer e"
    and "fs_answer e = Fetch_ok (le_value l) \<or> fs_answer e = Fetch_failed"
  shows "H' \<subseteq># H \<and> fst (group_get e g') = None
    \<and> 100 \<le> fst (snd (group_get e g')) \<and> fst (snd (group_get e g')) < 3100"
proof -
  have q: "ch_current (gc_cache g') = None" "ch_quota_blocked (gc_cache g') = Some (le_value l)" "H' \<subseteq># H"
    using same_blocked [OF assms(2)] rotated_blocks [OF assms(1)] assms(3) by simp_all
  have "100 \<le> quota_rotation_delay n \<and> quota_rotation_delay n < 3100" for n
    by (simp add: quota_rotation_delay_def)
  moreover have "100 \<le> fetch_backoff n j \<and> fetch_backoff n j < 3100" for n j
  proof -
    have "100 * 1 \<le> 100 * (2::nat) ^ min n 5" by (intro mult_left_mono) simp_all
    moreover have "j mod 100 < 100" by simp
    ultimately show ?thesis unfolding fetch_backoff_def credential_consts by linarith
  qed
  ultimately show ?thesis
    using assms(4-7) q
    by (auto simp: group_get_def cache_reserve_def fetched_def cache_store_def next_quota_delay_def)
qed

definition example_group :: "credential_cache \<Rightarrow> group_credentials" where
  "example_group c = \<lparr>gc_cache = c, gc_failures = 0, gc_unavailable = False\<rparr>"

definition example_cached :: credential_cache where
  "example_cached = \<lparr>ch_current = Some \<lparr>cc_value = example_credentials, cc_generation = 1, cc_attempts = 2, cc_mismatches = 0\<rparr>,
     ch_quota_blocked = None, ch_next_generation = 1, ch_quota_retries = 0\<rparr>"

definition example_exhausted :: credential_cache where
  "example_exhausted = example_cached\<lparr>ch_current := None, ch_quota_blocked := Some example_credentials, ch_quota_retries := 1\<rparr>"

definition example_fetch :: fetch_surroundings where
  "example_fetch = \<lparr>fs_pacer = True, fs_unavailable_after_pacer = False, fs_answer = Fetch_ok example_credentials, fs_slept = True, fs_jitter = 0\<rparr>"

lemma exhausted_credential_is_not_leased_witness:
  "rotate_after_quota (example_lease 1) example_cached = (Quota_rotated 100, example_exhausted)
   \<and> fst (group_get example_fetch (example_group example_exhausted)) = None"
proof -
  have r: "rotate_after_quota (example_lease 1) (gc_cache (example_group example_cached)) = (Quota_rotated 100, example_exhausted)"
    by (simp add: rotate_after_quota_def example_group_def example_cached_def example_exhausted_def example_lease_def
        quota_rotation_delay_def sat_inc_def)
  have "steps cohort_step \<lparr>co_cache = example_exhausted, co_held = {#}\<rparr> []
      \<lparr>co_cache = gc_cache (example_group example_exhausted), co_held = {#}\<rparr>"
    by (rule steps_same) (simp add: example_group_def)
  then show ?thesis
    using exhausted_credential_is_not_leased [OF r, of "{#}" "[]" "example_group example_exhausted" "{#}" example_fetch] r
    by (simp add: example_group_def example_fetch_def example_lease_def)
qed

end
