(* ===== verification/Worker_Retry.thy ===== *)
theory Worker_Retry
  imports Error_Text Credentials
begin

text \<open>
  What a worker does after its session ended, \<open>worker_loop\<close> of \<open>worker.rs\<close> from the result of
  \<open>run_session\<close> to the next attempt: the classification of the failure by its typed causes and
  its text, what happens to the credential, and the delay. Random draws are arguments, numbered by
  the place they are drawn at; delays are milliseconds. Log lines are not modelled, the gates that
  thin them out are.
\<close>

section \<open>Thinning of log lines\<close>

definition RECOVERY_LOG_INTERVAL_MS :: nat where "RECOVERY_LOG_INTERVAL_MS = 10000"

record log_gate =
  lg_pending :: nat
  lg_next_report :: nat

definition new_gate :: log_gate where
  "new_gate = \<lparr>lg_pending = 0, lg_next_report = 0\<rparr>"

definition gate_observe :: "nat \<Rightarrow> log_gate \<Rightarrow> nat option \<times> log_gate" where
  "gate_observe now g =
     (let g = g\<lparr>lg_pending := (lg_pending g + 1) mod 2 ^ 64\<rparr>
      in if lg_next_report g \<noteq> 0 \<and> now < lg_next_report g then (None, g)
         else (Some (lg_pending g),
               g\<lparr>lg_pending := 0, lg_next_report := max (min (now + RECOVERY_LOG_INTERVAL_MS) (2 ^ 64 - 1)) 1\<rparr>))"

section \<open>Delays\<close>

definition worker_retry_delay_with_jitter :: "nat \<Rightarrow> nat \<Rightarrow> nat" where
  "worker_retry_delay_with_jitter attempt jitter_ms =
     (let shift = min (attempt - 1) 4; base_ms = min (250 * 2 ^ shift) 4000 in base_ms + min jitter_ms 250)"

definition worker_retry_delay :: "nat \<Rightarrow> nat \<Rightarrow> nat" where
  "worker_retry_delay attempt random = worker_retry_delay_with_jitter attempt (random mod 251)"

definition tcp_stream_retry_delay :: "nat \<Rightarrow> nat" where
  "tcp_stream_retry_delay attempt = quota_rotation_delay (attempt - 1)"

section \<open>Classification of failures\<close>

definition contains_any :: "message_text \<Rightarrow> string list \<Rightarrow> bool" where
  "contains_any message markers \<longleftrightarrow> list_ex (contains message) markers"

definition is_turn_allocation_quota :: "error_chain \<Rightarrow> message_text \<Rightarrow> bool" where
  "is_turn_allocation_quota error message \<longleftrightarrow>
     turn_allocate_stun_code error = Some 486
     \<or> (contains message ''turn allocate''
        \<and> contains_any message [''stun error 486'', ''allocation quota reached'', ''quota reached''])"

definition is_turn_allocation_mismatch :: "error_chain \<Rightarrow> message_text \<Rightarrow> bool" where
  "is_turn_allocation_mismatch error message \<longleftrightarrow>
     (if turn_stun_code error = Some 437 then True
      else if turn_stun_code error = Some 400 \<and> contains message ''channelbind'' then True
      else contains message ''stun error 437''
        \<or> (contains message ''stun error 400'' \<and> contains message ''channelbind'')
        \<or> error_is_allocation_mismatch error)"

definition should_invalidate_turn_credentials :: "error_chain \<Rightarrow> message_text \<Rightarrow> bool" where
  "should_invalidate_turn_credentials error message \<longleftrightarrow>
     (case turn_stun_code error of
        Some stun_code \<Rightarrow> stun_code \<in> {401, 438, 441}
      | None \<Rightarrow> contains message ''turn ''
          \<and> contains_any message [''stun error 401'', ''stun error 438'', ''stun error 441'', ''unauthorized'',
              ''wrong credential'', ''authentication failed''])"

definition is_ascii_digit :: "u8 \<Rightarrow> bool" where
  "is_ascii_digit c \<longleftrightarrow> 48 \<le> c \<and> c \<le> 57"

text \<open>The matches of a non-empty needle, left to right and without overlap.\<close>

fun matched_before_no_digit :: "bytes \<Rightarrow> message_text \<Rightarrow> bool" where
  "matched_before_no_digit needle [] \<longleftrightarrow> False"
| "matched_before_no_digit needle (c # message) \<longleftrightarrow>
     (case strip_prefix (c # message) needle of
        None \<Rightarrow> matched_before_no_digit needle message
      | Some rest \<Rightarrow>
          (case rest of [] \<Rightarrow> True | character # _ \<Rightarrow> \<not> is_ascii_digit character)
          \<or> matched_before_no_digit needle (drop (length needle - 1) message))"

definition contains_os_error_code :: "message_text \<Rightarrow> int \<Rightarrow> bool" where
  "contains_os_error_code message code = matched_before_no_digit (ascii ''os error '' @ show_int code) message"

definition network_down_codes :: "int list" where
  "network_down_codes = [100, 101, 113, 10050, 10051, 10065]"

definition is_local_network_down :: "error_chain \<Rightarrow> bool" where
  "is_local_network_down error \<longleftrightarrow>
     (\<exists>cause \<in> set error. case ca_type cause of
        Io_error (Some code) _ \<Rightarrow> code \<in> set network_down_codes
      | _ \<Rightarrow> False)
     \<or> (let message = lowercase (alternate_text error)
        in contains_any message [''network is unreachable'', ''network is down'', ''no route to host'',
             ''no route to network'', ''enetunreach'', ''enetdown'', ''ehostunreach'']
           \<or> list_ex (contains_os_error_code message) network_down_codes)"

definition is_remote_tcp_stream_reset :: "error_chain \<Rightarrow> message_text \<Rightarrow> bool" where
  "is_remote_tcp_stream_reset error message \<longleftrightarrow>
     (\<exists>cause \<in> set error. case ca_type cause of
        Io_error _ kind \<Rightarrow> kind = Connection_reset \<or> kind = Connection_aborted \<or> kind = Broken_pipe
      | _ \<Rightarrow> False)
     \<or> contains_any message [''connection reset by peer'', ''connection aborted'', ''broken pipe'']"

definition is_transport_timeout :: "message_text \<Rightarrow> bool" where
  "is_transport_timeout message =
     contains_any message [''transaction timeout'', ''request timeout'', ''i/o timeout'', ''timed out'', ''deadline has elapsed'']"

text \<open>The two words of the source's marker of a dead hash, in UTF-8.\<close>

definition dead_hash_text :: message_text where
  "dead_hash_text = [0xD1, 0x85, 0xD0, 0xB5, 0xD1, 0x88, 0x20, 0xD0, 0xBC, 0xD1, 0x91, 0xD1, 0x80, 0xD1, 0x82, 0xD0, 0xB2]"

definition is_fatal :: "message_text \<Rightarrow> bool" where
  "is_fatal message \<longleftrightarrow> contains_any message [''FATAL_AUTH'', ''FATAL_PROTOCOL'', ''FATAL_HANDSHAKE'']
     \<or> sublist dead_hash_text message"

section \<open>The decision\<close>

record retry_env =
  re_tcp :: bool
  re_lease :: credential_lease
  re_repair_moved :: bool
  re_now :: nat
  re_random :: "nat \<Rightarrow> nat"

record retry_state =
  rs_attempt :: nat
  rs_cache :: credential_cache
  rs_network_log :: log_gate
  rs_turn_timeout_log :: log_gate
  rs_wrap_timeout_log :: log_gate
  rs_getconf_timeout_log :: log_gate
  rs_network_timeouts :: nat

definition apply_cache :: "credential_cache \<Rightarrow> retry_state \<Rightarrow> retry_state" where
  "apply_cache c s = s\<lparr>rs_attempt := 0, rs_cache := c\<rparr>"

definition retry_quota :: "retry_env \<Rightarrow> retry_state \<Rightarrow> nat \<times> retry_state" where
  "retry_quota env s =
     (case rotate_after_quota (re_lease env) (rs_cache s) of
        (Quota_rotated quota_delay, c) \<Rightarrow> (quota_delay, apply_cache c s)
      | (Quota_replaced, c) \<Rightarrow> (50 + re_random env 3 mod 151, apply_cache c s))"

definition retry_mismatch :: "retry_env \<Rightarrow> retry_state \<Rightarrow> nat \<times> retry_state" where
  "retry_mismatch env s =
     (case retry_after_mismatch (re_lease env) (rs_cache s) of
        (Retry_current, c) \<Rightarrow> (50 + re_random env 3 mod 51, apply_cache c s)
      | (Mismatch_rotated, c) \<Rightarrow> (100 + re_random env 3 mod 51, apply_cache c s)
      | (Mismatch_replaced, c) \<Rightarrow> (50 + re_random env 3 mod 51, apply_cache c s))"

definition observe_logs :: "nat \<Rightarrow> message_text \<Rightarrow> retry_state \<Rightarrow> retry_state" where
  "observe_logs now lower s =
     (if contains lower ''wrap_auth_timeout'' then s\<lparr>rs_wrap_timeout_log := snd (gate_observe now (rs_wrap_timeout_log s))\<rparr>
      else if contains lower ''getconf'' \<and> contains lower ''timeout''
      then s\<lparr>rs_getconf_timeout_log := snd (gate_observe now (rs_getconf_timeout_log s))\<rparr>
      else if contains lower ''turn '' \<and> contains lower ''transaction timeout''
      then s\<lparr>rs_turn_timeout_log := snd (gate_observe now (rs_turn_timeout_log s))\<rparr>
      else s)"

definition retry_other :: "retry_env \<Rightarrow> message_text \<Rightarrow> message_text \<Rightarrow> nat \<Rightarrow> retry_state \<Rightarrow> nat \<times> retry_state" where
  "retry_other env message lower delay s =
     (let s = (if is_transport_timeout lower then s\<lparr>rs_network_timeouts := rs_network_timeouts s + 1\<rparr> else s);
          (delay, s) = (if is_fatal message then (1000 * (5 + re_random env 4 mod 6), s)
                        else (delay, observe_logs (re_now env) lower s));
          delay = (if contains lower ''getconf'' then min (worker_retry_delay (rs_attempt s) (re_random env 5)) 1000 else delay);
          delay = (if contains lower ''error 29'' \<or> contains lower ''cannot create socket''
                   then 1000 * (2 + re_random env 6 mod 3) else delay)
      in (delay, s))"

definition retry_failure :: "retry_env \<Rightarrow> error_chain \<Rightarrow> retry_state \<Rightarrow> nat \<times> retry_state" where
  "retry_failure env error s =
     (let message = to_text error; lower = lowercase message;
          tcp_stream_reset = (re_tcp env \<and> is_remote_tcp_stream_reset error lower);
          s = s\<lparr>rs_attempt := sat_inc (rs_attempt s)\<rparr>;
          delay = worker_retry_delay (rs_attempt s) (re_random env 1);
          credentials_invalid = should_invalidate_turn_credentials error lower;
          (delay, s) = (if credentials_invalid
                        then (100 + re_random env 2 mod 51, apply_cache (snd (cache_invalidate (re_lease env) (rs_cache s))) s)
                        else (delay, s))
      in if is_turn_allocation_quota error lower then retry_quota env s
         else if is_turn_allocation_mismatch error lower then retry_mismatch env s
         else if credentials_invalid then (delay, s)
         else if tcp_stream_reset then (tcp_stream_retry_delay (rs_attempt s), s)
         else if is_local_network_down error
         then (250 + re_random env 3 mod 751,
               s\<lparr>rs_network_log := snd (gate_observe (re_now env) (rs_network_log s)),
                 rs_network_timeouts := rs_network_timeouts s + 1\<rparr>)
         else retry_other env message lower delay s)"

text \<open>
  The branches that end in their own sleep and \<open>continue\<close> differ from the common path in the
  delay only.
\<close>

definition retry_error :: "retry_env \<Rightarrow> error_chain \<Rightarrow> retry_state \<Rightarrow> nat \<times> retry_state" where
  "retry_error env error s =
     (let lower = lowercase (to_text error)
      in if contains lower ''net_rebind'' then (20 + re_random env 1 mod 80, s\<lparr>rs_attempt := 0\<rparr>)
         else if contains lower ''target_repair''
         then (50 + re_random env 1 mod 151,
               s\<lparr>rs_attempt := 0,
                 rs_cache := if re_repair_moved env then snd (cache_invalidate (re_lease env) (rs_cache s)) else rs_cache s\<rparr>)
         else if contains lower ''turn channel rebind retry exhausted''
         then (50 + re_random env 1 mod 151, s\<lparr>rs_attempt := 0\<rparr>)
         else retry_failure env error s)"

text \<open>What the loop saw of the session, and what it does next.\<close>

record session_outcome =
  so_result :: "bool + error_chain"
  so_allocation_started :: bool
  so_was_ready :: bool
  so_cancelled :: bool
  so_unavailable :: bool
  so_allowed :: bool
  so_active_connections :: int

datatype worker_next = Worker_stops | Worker_goes_on | Worker_sleeps nat

definition should_refresh_configuration_after_full_outage :: "bool \<Rightarrow> bool \<Rightarrow> int \<Rightarrow> bool \<Rightarrow> bool" where
  "should_refresh_configuration_after_full_outage was_ready failed active_connections cancelled \<longleftrightarrow>
     was_ready \<and> failed \<and> active_connections = 0 \<and> \<not> cancelled"

definition is_parked :: "session_outcome \<Rightarrow> bool" where
  "is_parked o' \<longleftrightarrow> (case so_result o' of Inl _ \<Rightarrow> False | Inr error \<Rightarrow> contains (to_text error) ''IDLE_PARK'')"

definition finish_session :: "retry_env \<Rightarrow> session_outcome \<Rightarrow> bool \<Rightarrow> retry_state \<Rightarrow> retry_state \<times> bool" where
  "finish_session env o' config_sent s =
     (let s = (if so_allocation_started o' then s else s\<lparr>rs_cache := cache_release (re_lease env) (rs_cache s)\<rparr>);
          s = (if so_was_ready o' then s\<lparr>rs_attempt := 0\<rparr> else s);
          config_sent = (if should_refresh_configuration_after_full_outage (so_was_ready o')
                              (\<not> isl (so_result o')) (so_active_connections o') (so_cancelled o')
                         then False else config_sent)
      in (s, config_sent))"

definition after_session :: "retry_env \<Rightarrow> session_outcome \<Rightarrow> bool \<Rightarrow> retry_state \<Rightarrow> worker_next \<times> bool \<times> retry_state" where
  "after_session env o' config_sent s =
     (case finish_session env o' config_sent s of (s, config_sent) \<Rightarrow>
        if so_cancelled o' \<or> so_unavailable o' then (Worker_stops, config_sent, s)
        else if is_parked o' then
          (Worker_goes_on, config_sent,
           s\<lparr>rs_attempt := 0,
             rs_cache := if so_allocation_started o' then cache_release (re_lease env) (rs_cache s) else rs_cache s\<rparr>)
        else if \<not> so_allowed o' then (Worker_goes_on, config_sent, s)
        else case so_result o' of
          Inl _ \<Rightarrow> (Worker_sleeps (worker_retry_delay (max (rs_attempt s) 1) (re_random env 0)), config_sent, s)
        | Inr error \<Rightarrow> (case retry_error env error s of (delay, s) \<Rightarrow> (Worker_sleeps delay, config_sent, s)))"

section \<open>Delays are bounded\<close>

lemma mod_bound: "0 < (m::nat) \<Longrightarrow> k mod m \<le> m - 1"
  using mod_less_divisor [of m k] by linarith

lemma worker_retry_delay_bounds: "250 \<le> worker_retry_delay n r \<and> worker_retry_delay n r \<le> 4250"
proof -
  have "250 * 1 \<le> 250 * (2::nat) ^ min (n - 1) 4" by (intro mult_left_mono) simp_all
  then show ?thesis
    unfolding worker_retry_delay_def worker_retry_delay_with_jitter_def Let_def by linarith
qed

lemma quota_delay_bounds: "100 \<le> quota_rotation_delay n \<and> quota_rotation_delay n \<le> 1500"
  by (simp add: quota_rotation_delay_def)

definition delay_ok :: "nat \<Rightarrow> bool" where
  "delay_ok delay \<longleftrightarrow> 20 \<le> delay \<and> delay \<le> 10000"

lemma delay_ok_mod: "20 \<le> b \<Longrightarrow> 0 < m \<Longrightarrow> b + (m - 1) \<le> 10000 \<Longrightarrow> delay_ok (b + r mod m)"
  using mod_bound [of m r] unfolding delay_ok_def by linarith

lemma delay_ok_secs: "1 \<le> b \<Longrightarrow> 0 < m \<Longrightarrow> b + (m - 1) \<le> 10 \<Longrightarrow> delay_ok (1000 * b + 1000 * (r mod m))"
  using mod_bound [of m r] unfolding delay_ok_def by linarith

lemma delay_okI:
  "delay_ok (worker_retry_delay n r)" "delay_ok (quota_rotation_delay n)" "delay_ok (tcp_stream_retry_delay n)"
  "delay_ok (min (worker_retry_delay n r) 1000)"
  using worker_retry_delay_bounds [of n r] quota_delay_bounds [of n] quota_delay_bounds [of "n - 1"]
  by (simp_all add: delay_ok_def tcp_stream_retry_delay_def)

lemma delay_ok_random:
  "delay_ok (20 + r mod 80)" "delay_ok (50 + r mod 151)" "delay_ok (50 + r mod 51)" "delay_ok (100 + r mod 51)"
  "delay_ok (250 + r mod 751)" "delay_ok (5000 + 1000 * (r mod 6))" "delay_ok (2000 + 1000 * (r mod 3))"
  using delay_ok_mod [of 20 80 r] delay_ok_mod [of 50 151 r] delay_ok_mod [of 50 51 r] delay_ok_mod [of 100 51 r]
    delay_ok_mod [of 250 751 r] delay_ok_secs [of 5 6 r] delay_ok_secs [of 2 3 r]
  by simp_all

lemma retry_parts_delay:
  "delay_ok (fst (retry_quota env s))" "delay_ok (fst (retry_mismatch env s))"
  "delay_ok delay \<Longrightarrow> delay_ok (fst (retry_other env message lower delay s))"
  by (auto simp: retry_quota_def retry_mismatch_def retry_other_def Let_def delay_okI delay_ok_random rotate_after_quota_def
      split: quota_rotation.splits allocation_mismatch.splits prod.splits if_splits option.splits)

lemma retry_error_delay: "delay_ok (fst (retry_error env error s))"
  unfolding retry_error_def retry_failure_def Let_def
  by (simp add: delay_okI delay_ok_random retry_parts_delay split: prod.splits)

text \<open>
  C21: No failure makes a worker spin and none takes it out for long: whatever the session ended with,
  the worker stops, or goes on to a gate it waits at, or sleeps for at least 20 ms and at most 10 s.
\<close>

theorem worker_never_spins:
  "case fst (after_session env o' config_sent s) of
     Worker_stops \<Rightarrow> so_cancelled o' \<or> so_unavailable o'
   | Worker_goes_on \<Rightarrow> (if so_allowed o' then is_parked o' else True)
   | Worker_sleeps delay \<Rightarrow> 20 \<le> delay \<and> delay \<le> 10000"
  using retry_error_delay [of env] delay_okI(1)
  by (auto simp: after_session_def delay_ok_def split: prod.splits sum.splits)
    (metis fst_conv)+

section \<open>A refused allocation\<close>

text \<open>
  The text of a failed request under the prefix \<open>TurnAllocateError\<close> gives it falls into four parts
  at its colons and the semicolon; a marker without these is found in one of them.
\<close>

definition refused :: "u32 \<Rightarrow> int \<Rightarrow> int \<Rightarrow> error_chain" where
  "refused m status stun_code = wrap_allocate_error (turn_request_error m status stun_code)"

lemma lowercase_Nil: "lowercase [] = []"
  by (simp add: lowercase_def)

lemma lower_refused:
  assumes "stun_code \<noteq> 0"
  shows "lowercase (to_text (refused m status stun_code)) =
    ascii ''turn allocate'' @ 58 # lowercase (32 # ascii ''TURN '' @ method_name m @ ascii '' failed'')
    @ 58 # lowercase (32 # native_status_text status) @ 59 # lowercase (ascii '' STUN error '' @ show_int stun_code)"
proof -
  have "lowercase (ascii ''TURN Allocate: '') = ascii ''turn allocate'' @ [58] @ lowercase [32]"
    by (simp add: ascii_def lowercase_def lower_byte_def)
  then show ?thesis
    using assms by (simp add: refused_def wrap_allocate_error_def turn_request_error_def to_text_def alternate_text_def
        request_failed_parts lowercase_Cons lower_byte_def lowercase_Nil)
qed

lemma refused_contains:
  assumes "stun_code \<noteq> 0" "58 \<notin> set (ascii marker)" "59 \<notin> set (ascii marker)"
  shows "contains (lowercase (to_text (refused m status stun_code))) marker \<longleftrightarrow>
    contains (ascii ''turn allocate'') marker
    \<or> contains (lowercase (32 # ascii ''TURN '' @ method_name m @ ascii '' failed'')) marker
    \<or> contains (lowercase (32 # native_status_text status)) marker
    \<or> contains (lowercase (ascii '' STUN error '' @ show_int stun_code)) marker"
  unfolding lower_refused [OF assms(1)] by (simp only: sublist_separator [OF assms(2)] sublist_separator [OF assms(3)])

definition refused_markers :: "string list" where
  "refused_markers = [''net_rebind'', ''target_repair'', ''turn channel rebind retry exhausted'', ''channelbind'',
     ''stun error 437'', ''allocation quota reached'', ''quota reached'', ''stun error 486'',
     ''connection reset by peer'', ''connection aborted'', ''broken pipe'']"

lemma allocate_name: "method_name METHOD_ALLOCATE = ascii ''Allocate''"
  by (simp add: method_name_def)

lemma marker_parts:
  "list_all (\<lambda>marker. 58 \<notin> set (ascii marker) \<and> 59 \<notin> set (ascii marker)
     \<and> \<not> contains (ascii ''turn allocate'') marker
     \<and> \<not> contains (lowercase (32 # ascii ''TURN '' @ ascii ''Allocate'' @ ascii '' failed'')) marker) refused_markers"
  by (simp add: refused_markers_def text_simps)

lemma marker_status:
  assumes "status \<in> native_statuses"
  shows "list_all (\<lambda>marker. \<not> contains (lowercase (32 # native_status_text status)) marker) refused_markers"
  using assms unfolding native_statuses_def insert_iff empty_iff
  by (elim disjE) (simp_all add: status_texts text_simps refused_markers_def)

text \<open>The number is read off its digits.\<close>

lemma decimal_value: "foldl (\<lambda>a d. 10 * a + (unat d - 48)) 0 (decimal n) = n"
proof (induction n rule: decimal.induct)
  case (1 n)
  have d: "unat (word_of_nat (48 + k) :: u8) = 48 + k" if "k < 10" for k
    using that by (simp add: unat_of_nat take_bit_nat_def del: of_nat_add)
  show ?case
  proof (cases "n < 10")
    case True
    then show ?thesis by (simp add: decimal.simps [of n] d del: of_nat_add)
  next
    case False
    then show ?thesis using 1 by (simp add: decimal.simps [of n] d del: of_nat_add)
  qed
qed

lemma decimal_eq: "decimal m = decimal n \<longleftrightarrow> m = n"
  using decimal_value by metis

lemma show_int_code:
  assumes "100 \<le> stun_code" "stun_code < 1000"
  obtains x y z where "show_int stun_code = [x, y, z]" "48 \<le> x" "x \<le> 57" "48 \<le> y" "y \<le> 57" "48 \<le> z" "z \<le> 57"
    "[x, y, z] = [52, 51, 55] \<longleftrightarrow> stun_code = 437" "[x, y, z] = [52, 56, 54] \<longleftrightarrow> stun_code = 486"
proof -
  define n where "n = nat stun_code"
  have n: "100 \<le> n" "n < 1000" "stun_code = int n" using assms by (simp_all add: n_def)
  have s: "show_int stun_code = decimal n" using n by (simp add: show_int_def)
  have "decimal 437 = [52, 51, 55]" "decimal 486 = [52, 56, 54]" by (simp_all add: decimal.simps)
  then have eq: "decimal n = [52, 51, 55] \<longleftrightarrow> stun_code = 437" "decimal n = [52, 56, 54] \<longleftrightarrow> stun_code = 486"
    using decimal_eq [of n 437] decimal_eq [of n 486] n(3) by auto
  have d: "n div 100 < 10" "n div 10 mod 10 < 10" "n mod 10 < 10" using n(2) by (simp_all add: less_mult_imp_div_less)
  show thesis
    using that [OF _ conjunct1 [OF digit_bounds [OF d(1)]] conjunct2 [OF digit_bounds [OF d(1)]]
        conjunct1 [OF digit_bounds [OF d(2)]] conjunct2 [OF digit_bounds [OF d(2)]]
        conjunct1 [OF digit_bounds [OF d(3)]] conjunct2 [OF digit_bounds [OF d(3)]]] eq s
    by (simp only: decimal_3 [OF n(1,2)])
qed

lemma marker_code:
  assumes "48 \<le> x" "x \<le> 57" "48 \<le> y" "y \<le> 57" "48 \<le> z" "z \<le> 57"
  shows "list_all (\<lambda>marker. marker \<noteq> ''stun error 437'' \<longrightarrow> marker \<noteq> ''stun error 486''
       \<longrightarrow> \<not> contains (lowercase (ascii '' STUN error '' @ [x, y, z])) marker) refused_markers"
    and "contains (lowercase (ascii '' STUN error '' @ [x, y, z])) ''stun error 437'' \<longleftrightarrow> [x, y, z] = [52, 51, 55]"
    and "contains (lowercase (ascii '' STUN error '' @ [x, y, z])) ''stun error 486'' \<longleftrightarrow> [x, y, z] = [52, 56, 54]"
proof -
  have l: "lowercase (ascii '' STUN error '' @ [x, y, z]) = ascii '' stun error '' @ [x, y, z]"
    using assms by (simp add: lower_digit ascii_def lowercase_def) (simp add: lower_byte_def)
  have no: "\<And>c. c \<in> {x, y, z} \<Longrightarrow> c \<le> 57" using assms by auto
  show "list_all (\<lambda>marker. marker \<noteq> ''stun error 437'' \<longrightarrow> marker \<noteq> ''stun error 486''
       \<longrightarrow> \<not> contains (lowercase (ascii '' STUN error '' @ [x, y, z])) marker) refused_markers"
    unfolding l using assms by (simp add: refused_markers_def sublist_code prefix_code ascii_def)
  show "contains (lowercase (ascii '' STUN error '' @ [x, y, z])) ''stun error 437'' \<longleftrightarrow> [x, y, z] = [52, 51, 55]"
    and "contains (lowercase (ascii '' STUN error '' @ [x, y, z])) ''stun error 486'' \<longleftrightarrow> [x, y, z] = [52, 56, 54]"
    unfolding l using assms by (auto simp: sublist_code prefix_code ascii_def)
qed

lemma refused_text:
  assumes "status \<in> native_statuses" "100 \<le> stun_code" "stun_code < 1000" "marker \<in> set refused_markers"
  shows "contains (lowercase (to_text (refused METHOD_ALLOCATE status stun_code))) marker \<longleftrightarrow>
    (marker = ''stun error 437'' \<and> stun_code = 437) \<or> (marker = ''stun error 486'' \<and> stun_code = 486)"
proof -
  obtain x y z where xyz: "show_int stun_code = [x, y, z]" "48 \<le> x" "x \<le> 57" "48 \<le> y" "y \<le> 57" "48 \<le> z" "z \<le> 57"
    "[x, y, z] = [52, 51, 55] \<longleftrightarrow> stun_code = 437" "[x, y, z] = [52, 56, 54] \<longleftrightarrow> stun_code = 486"
    using show_int_code [OF assms(2,3)] .
  note code = marker_code [OF xyz(2-7), folded xyz(1)]
  have parts: "58 \<notin> set (ascii marker)" "59 \<notin> set (ascii marker)" "\<not> contains (ascii ''turn allocate'') marker"
    "\<not> contains (lowercase (32 # ascii ''TURN '' @ ascii ''Allocate'' @ ascii '' failed'')) marker"
    "\<not> contains (lowercase (32 # native_status_text status)) marker"
    using marker_parts marker_status [OF assms(1)] assms(4) unfolding list_all_iff by blast+
  have tail: "contains (lowercase (ascii '' STUN error '' @ show_int stun_code)) marker \<longleftrightarrow>
    (marker = ''stun error 437'' \<and> stun_code = 437) \<or> (marker = ''stun error 486'' \<and> stun_code = 486)"
  proof -
    have "marker \<noteq> ''stun error 437'' \<longrightarrow> marker \<noteq> ''stun error 486''
        \<longrightarrow> \<not> contains (lowercase (ascii '' STUN error '' @ show_int stun_code)) marker"
      using code(1) assms(4) unfolding list_all_iff by (rule bspec)
    then consider "marker = ''stun error 437''" | "marker = ''stun error 486''"
      | "marker \<noteq> ''stun error 437''" "marker \<noteq> ''stun error 486''"
        "\<not> contains (lowercase (ascii '' STUN error '' @ show_int stun_code)) marker" by argo
    then show ?thesis
    proof cases
      case 1
      then show ?thesis using code(2) xyz(1,8) by simp
    next
      case 2
      then show ?thesis using code(3) xyz(1,9) by simp
    next
      case 3
      then show ?thesis by (simp only: simp_thms)
    qed
  qed
  have "stun_code \<noteq> 0" using assms(2) by simp
  then show ?thesis
    using parts tail by (simp only: refused_contains allocate_name simp_thms)
qed

lemmas marker_in = refused_markers_def list.set insert_iff empty_iff

lemma refused_chain:
  "turn_stun_code (refused m status stun_code) = Some stun_code"
  "turn_allocate_stun_code (refused m status stun_code) = Some stun_code"
  by (simp_all add: refused_def wrap_allocate_error_def turn_request_error_def)

lemma refused_mismatch_text:
  assumes "status \<in> native_statuses" "100 \<le> stun_code" "stun_code < 1000"
  shows "error_is_allocation_mismatch (refused METHOD_ALLOCATE status stun_code) \<longleftrightarrow> stun_code = 437"
proof -
  let ?e = "turn_request_error METHOD_ALLOCATE status stun_code"
  have nz: "stun_code \<noteq> 0" using assms(2) by simp
  have sep: "10 \<notin> set (ascii ''stun error 437'')" "10 \<notin> set (ascii ''stun error 400'')" "10 \<notin> set (ascii ''channelbind'')"
    by (rule no_separator)+
  have twice: "lowercase (to_text (refused METHOD_ALLOCATE status stun_code)) = lowercase (ascii ''TURN Allocate: '') @ lowercase (to_text ?e)"
    by (simp add: refused_def wrap_allocate_error_def turn_request_error_def to_text_def alternate_text_def)
  have msg_text: "lowercase (join [10] (map ca_text (refused METHOD_ALLOCATE status stun_code)))
      = lowercase (to_text (refused METHOD_ALLOCATE status stun_code)) @ 10 # lowercase (to_text ?e)"
    by (simp add: refused_def wrap_allocate_error_def turn_request_error_def to_text_def lowercase_Cons lower_byte_def)
  have sub: "contains (lowercase (to_text ?e)) marker \<Longrightarrow> contains (lowercase (to_text (refused METHOD_ALLOCATE status stun_code))) marker" for marker
    unfolding twice by (simp add: sublist_append)
  have m: "contains (lowercase (to_text (refused METHOD_ALLOCATE status stun_code))) ''stun error 437'' \<longleftrightarrow> stun_code = 437"
    "\<not> contains (lowercase (to_text (refused METHOD_ALLOCATE status stun_code))) ''channelbind''"
    using refused_text [OF assms, of "''stun error 437''"] refused_text [OF assms, of "''channelbind''"] by (simp_all add: marker_in)
  show ?thesis
    unfolding error_is_allocation_mismatch_def Let_def msg_text
    using m sub by (simp only: sublist_separator [OF sep(1)] sublist_separator [OF sep(2)] sublist_separator [OF sep(3)]) blast
qed

lemma refused_classes:
  assumes "status \<in> native_statuses" "100 \<le> stun_code" "stun_code < 1000"
  defines "error \<equiv> refused METHOD_ALLOCATE status stun_code"
  defines "lower \<equiv> lowercase (to_text error)"
  shows "is_turn_allocation_quota error lower \<longleftrightarrow> stun_code = 486"
    "is_turn_allocation_mismatch error lower \<longleftrightarrow> stun_code = 437"
    "should_invalidate_turn_credentials error lower \<longleftrightarrow> stun_code \<in> {401, 438, 441}"
    "\<not> contains lower ''net_rebind''" "\<not> contains lower ''target_repair''"
    "\<not> contains lower ''turn channel rebind retry exhausted''"
proof -
  note msg_text = refused_text [OF assms(1-3), folded error_def, folded lower_def]
  have m: "contains lower ''stun error 486'' \<longleftrightarrow> stun_code = 486" "contains lower ''stun error 437'' \<longleftrightarrow> stun_code = 437"
    "\<not> contains lower ''allocation quota reached''" "\<not> contains lower ''quota reached''" "\<not> contains lower ''channelbind''"
    using msg_text [of "''stun error 486''"] msg_text [of "''stun error 437''"] msg_text [of "''allocation quota reached''"]
      msg_text [of "''quota reached''"] msg_text [of "''channelbind''"] by (simp_all add: marker_in)
  show "\<not> contains lower ''net_rebind''" "\<not> contains lower ''target_repair''"
    "\<not> contains lower ''turn channel rebind retry exhausted''"
    using msg_text [of "''net_rebind''"] msg_text [of "''target_repair''"] msg_text [of "''turn channel rebind retry exhausted''"]
    by (simp_all add: marker_in)
  show "is_turn_allocation_quota error lower \<longleftrightarrow> stun_code = 486"
    using m unfolding is_turn_allocation_quota_def contains_any_def error_def refused_chain by auto
  show "is_turn_allocation_mismatch error lower \<longleftrightarrow> stun_code = 437"
    using m refused_mismatch_text [OF assms(1-3)]
    unfolding is_turn_allocation_mismatch_def error_def refused_chain by auto
  show "should_invalidate_turn_credentials error lower \<longleftrightarrow> stun_code \<in> {401, 438, 441}"
    unfolding should_invalidate_turn_credentials_def error_def refused_chain by simp
qed

text \<open>
  C22: What a refused allocation does to the credential and the worker: error 486 drops the credential,
  blocks it and waits the quota delay; 437 keeps it for one more try; 401, 438 and 441 drop it;
  any other code keeps it and counts the attempt.
\<close>

theorem refused_allocation_outcome:
  assumes "status \<in> native_statuses" "100 \<le> stun_code" "stun_code < 1000" "lease_is_current (re_lease env) (rs_cache s)"
  shows "case retry_error env (refused METHOD_ALLOCATE status stun_code) s of (delay, s') \<Rightarrow>
      if stun_code = 486 then
        ch_current (rs_cache s') = None \<and> ch_quota_blocked (rs_cache s') = Some (le_value (re_lease env))
        \<and> delay = quota_rotation_delay (ch_quota_retries (rs_cache s)) \<and> rs_attempt s' = 0
      else if stun_code = 437 then
        rs_cache s' = snd (retry_after_mismatch (re_lease env) (rs_cache s)) \<and> rs_attempt s' = 0
      else if stun_code \<in> {401, 438, 441} then
        rs_cache s' = (rs_cache s)\<lparr>ch_current := None\<rparr> \<and> rs_attempt s' = 0
      else rs_cache s' = rs_cache s \<and> rs_attempt s' = sat_inc (rs_attempt s)"
proof -
  note class_simps = refused_classes [OF assms(1-3)]
  obtain cached where cached: "ch_current (rs_cache s) = Some cached" "cc_generation cached = le_generation (re_lease env)"
    "cc_value cached = le_value (re_lease env)"
    using assms(4) by (rule lease_is_currentE)
  consider "stun_code = 486" | "stun_code = 437" | "stun_code \<in> {401, 438, 441}" | "stun_code \<notin> {486, 437, 401, 438, 441}" by blast
  then show ?thesis
  proof cases
    case 1
    then show ?thesis
      using class_simps cached by (simp add: retry_error_def retry_failure_def Let_def retry_quota_def rotate_after_quota_def apply_cache_def)
  next
    case 2
    then show ?thesis
      using class_simps by (simp add: retry_error_def retry_failure_def Let_def retry_mismatch_def apply_cache_def
          split: prod.splits allocation_mismatch.splits)
  next
    case 3
    then show ?thesis
      using class_simps assms(4) by (auto simp: retry_error_def retry_failure_def Let_def cache_invalidate_def apply_cache_def)
  next
    case 4
    then show ?thesis
      using class_simps by (auto simp: retry_error_def retry_failure_def Let_def retry_other_def observe_logs_def split: prod.splits)
  qed
qed

definition example_retry :: "retry_env \<times> retry_state" where
  "example_retry =
     (\<lparr>re_tcp = False, re_lease = example_lease 1, re_repair_moved = False, re_now = 0, re_random = (\<lambda>_. 0)\<rparr>,
      \<lparr>rs_attempt = 2, rs_cache = example_cached, rs_network_log = new_gate, rs_turn_timeout_log = new_gate,
       rs_wrap_timeout_log = new_gate, rs_getconf_timeout_log = new_gate, rs_network_timeouts = 0\<rparr>)"

lemma refused_allocation_outcome_witness:
  "case retry_error (fst example_retry) (refused METHOD_ALLOCATE RESULT_PROTOCOL 486) (snd example_retry) of (delay, s') \<Rightarrow>
     ch_quota_blocked (rs_cache s') = Some example_credentials \<and> delay = 100 \<and> rs_attempt s' = 0"
proof -
  have "RESULT_PROTOCOL \<in> native_statuses" by (simp add: native_statuses_def)
  moreover have "lease_is_current (re_lease (fst example_retry)) (rs_cache (snd example_retry))"
    by (simp add: example_retry_def lease_is_current_def example_cached_def example_lease_def)
  ultimately show ?thesis
    using refused_allocation_outcome [of RESULT_PROTOCOL 486 "fst example_retry" "snd example_retry"]
    by (simp add: example_retry_def example_cached_def example_lease_def quota_rotation_delay_def split: prod.splits)
qed

section \<open>The exhausted channel\<close>

definition exhausted_channel :: error_chain where
  "exhausted_channel = [\<lparr>ca_text = ascii ''TURN channel rebind retry exhausted'', ca_type = Plain\<rparr>]"

definition received_exhausted_channel :: error_chain where
  "received_exhausted_channel = add_context (ascii ''TURN allocation receive'') exhausted_channel"

abbreviation receive_text :: message_text where
  "receive_text \<equiv> ascii ''turn allocation receive''"

lemma receive_text_lower: "lowercase (to_text received_exhausted_channel) = receive_text"
  by (simp add: received_exhausted_channel_def add_context_def to_text_def text_simps)

lemma receive_text_markers:
  "list_all (\<lambda>marker. \<not> contains receive_text marker)
     [''net_rebind'', ''target_repair'', ''turn channel rebind retry exhausted'', ''getconf'', ''error 29'', ''cannot create socket'',
      ''wrap_auth_timeout'', ''transaction timeout'', ''request timeout'', ''i/o timeout'', ''timed out'', ''deadline has elapsed'']"
  by (simp add: text_simps)

lemma receive_text_classes:
  "\<not> is_turn_allocation_quota received_exhausted_channel receive_text"
  "\<not> is_turn_allocation_mismatch received_exhausted_channel receive_text"
  "\<not> should_invalidate_turn_credentials received_exhausted_channel receive_text"
  "\<not> is_remote_tcp_stream_reset received_exhausted_channel receive_text"
  "\<not> is_local_network_down received_exhausted_channel"
  "\<not> is_transport_timeout receive_text"
  "\<not> is_fatal (to_text received_exhausted_channel)"
  by (simp_all add: is_turn_allocation_quota_def is_turn_allocation_mismatch_def should_invalidate_turn_credentials_def
      is_remote_tcp_stream_reset_def error_is_allocation_mismatch_def contains_any_def is_local_network_down_def alternate_text_def
      contains_os_error_code_def network_down_codes_def show_int_def decimal.simps strip_prefix_def starts_with_def
      is_transport_timeout_def is_fatal_def dead_hash_text_def to_text_def
      received_exhausted_channel_def exhausted_channel_def add_context_def text_simps)

text \<open>
  The branch for an exhausted channel is not taken for the error the session ends with: the receive
  path reports the driver's message under the context \<open>TURN allocation receive\<close>, and the branch looks
  at the outermost text only, so the worker counts an attempt and backs off up to 4.25 s instead of
  resetting the count and trying again within 200 ms, as it does for the bare message.
\<close>

theorem exhausted_channel_is_not_recognised:
  "retry_error env received_exhausted_channel s
     = (worker_retry_delay (sat_inc (rs_attempt s)) (re_random env 1), s\<lparr>rs_attempt := sat_inc (rs_attempt s)\<rparr>)
   \<and> retry_error env exhausted_channel s = (50 + re_random env 1 mod 151, s\<lparr>rs_attempt := 0\<rparr>)"
proof
  show "retry_error env received_exhausted_channel s
     = (worker_retry_delay (sat_inc (rs_attempt s)) (re_random env 1), s\<lparr>rs_attempt := sat_inc (rs_attempt s)\<rparr>)"
    using receive_text_markers receive_text_classes
    by (simp add: retry_error_def retry_failure_def retry_other_def observe_logs_def receive_text_lower Let_def)
  have "lowercase (to_text exhausted_channel) = ascii ''turn channel rebind retry exhausted''"
    by (simp add: exhausted_channel_def to_text_def text_simps)
  moreover have "\<not> contains (ascii ''turn channel rebind retry exhausted'') ''net_rebind''"
    "\<not> contains (ascii ''turn channel rebind retry exhausted'') ''target_repair''"
    by (simp_all add: text_simps)
  ultimately show "retry_error env exhausted_channel s = (50 + re_random env 1 mod 151, s\<lparr>rs_attempt := 0\<rparr>)"
    by (simp add: retry_error_def)
qed

end
