(* ===== verification/Chars.thy ===== *)
theory Chars
  imports Csqtt_Prelude
begin

text \<open>
  Texts as lists of Unicode code points, for the components that trim, split or parse what users,
  servers and configuration files write: the methods of Rust's \<open>str\<close> they call, on whole texts.
\<close>

section \<open>Texts\<close>

type_synonym chars = "nat list"

definition code_points :: "string \<Rightarrow> chars" where
  "code_points s = map of_char s"

definition is_whitespace :: "nat \<Rightarrow> bool" where
  "is_whitespace c \<longleftrightarrow> (9 \<le> c \<and> c \<le> 13) \<or> c \<in> {0x20, 0x85, 0xA0, 0x1680, 0x2028, 0x2029, 0x202F, 0x205F, 0x3000}
     \<or> (0x2000 \<le> c \<and> c \<le> 0x200A)"

definition trim_with :: "(nat \<Rightarrow> bool) \<Rightarrow> chars \<Rightarrow> chars" where
  "trim_with p s = rev (dropWhile p (rev (dropWhile p s)))"

definition to_ascii_lowercase :: "chars \<Rightarrow> chars" where
  "to_ascii_lowercase = map (\<lambda>c. if 65 \<le> c \<and> c \<le> 90 then c + 32 else c)"

text \<open>\<open>str::find\<close> of a text: the index of its first occurrence.\<close>

fun find_text :: "chars \<Rightarrow> chars \<Rightarrow> nat option" where
  "find_text needle [] = (if needle = [] then Some 0 else None)"
| "find_text needle (c # s) = (if starts_with (c # s) needle then Some 0 else map_option Suc (find_text needle s))"

definition truncate_at :: "(nat \<Rightarrow> bool) \<Rightarrow> chars \<Rightarrow> chars" where
  "truncate_at p s = takeWhile (\<lambda>c. \<not> p c) s"

fun split_at :: "(nat \<Rightarrow> bool) \<Rightarrow> chars \<Rightarrow> chars list" where
  "split_at p [] = [[]]"
| "split_at p (c # s) =
     (if p c then [] # split_at p s
      else case split_at p s of piece # pieces \<Rightarrow> (c # piece) # pieces | [] \<Rightarrow> [[c]])"

lemma set_trim_with: "set (trim_with p s) \<subseteq> set s"
  unfolding trim_with_def by (auto dest!: set_dropWhileD)

lemma set_split_at: "piece \<in> set (split_at p s) \<Longrightarrow> c \<in> set piece \<Longrightarrow> \<not> p c"
  by (induction s arbitrary: piece) (fastforce split: if_splits list.splits)+

section \<open>Splitting once\<close>

fun split_once :: "nat \<Rightarrow> chars \<Rightarrow> (chars \<times> chars) option" where
  "split_once d [] = None"
| "split_once d (c # s) = (if c = d then Some ([], s) else map_option (\<lambda>(a, b). (c # a, b)) (split_once d s))"

definition rsplit_once :: "nat \<Rightarrow> chars \<Rightarrow> (chars \<times> chars) option" where
  "rsplit_once d s = map_option (\<lambda>(a, b). (rev b, rev a)) (split_once d (rev s))"

text \<open>With a text as the separator.\<close>

definition split_once_text :: "chars \<Rightarrow> chars \<Rightarrow> (chars \<times> chars) option" where
  "split_once_text sep s = map_option (\<lambda>i. (take i s, drop (i + length sep) s)) (find_text sep s)"

lemma split_once_None: "split_once d s = None \<longleftrightarrow> d \<notin> set s"
  by (induction s) auto

lemma split_once_append: "d \<notin> set a \<Longrightarrow> split_once d (a @ d # b) = Some (a, b)"
  by (induction a) auto

lemma rsplit_once_None: "rsplit_once d s = None \<longleftrightarrow> d \<notin> set s"
  by (simp add: rsplit_once_def split_once_None)

lemma rsplit_once_append: "d \<notin> set b \<Longrightarrow> rsplit_once d (a @ d # b) = Some (a, b)"
  by (simp add: rsplit_once_def split_once_append)

section \<open>Numbers\<close>

text \<open>\<open>to_string\<close> of a number, and \<open>parse\<close> of one below the limit: a sign, then digits, at least one.\<close>

fun digits :: "nat \<Rightarrow> chars" where
  "digits n = (if n < 10 then [48 + n] else digits (n div 10) @ [48 + n mod 10])"

declare digits.simps [simp del]

definition is_digit :: "nat \<Rightarrow> bool" where
  "is_digit c \<longleftrightarrow> 48 \<le> c \<and> c \<le> 57"

definition digits_value :: "chars \<Rightarrow> nat" where
  "digits_value s = foldl (\<lambda>a c. 10 * a + (c - 48)) 0 s"

definition parse_unsigned :: "nat \<Rightarrow> chars \<Rightarrow> nat option" where
  "parse_unsigned limit s =
     (let s = (case s of [] \<Rightarrow> [] | c # rest \<Rightarrow> if c = 43 then rest else s) in
      if s \<noteq> [] \<and> list_all is_digit s \<and> digits_value s < limit then Some (digits_value s) else None)"

lemma is_digit_plus: "is_digit (48 + k) \<longleftrightarrow> k < 10"
  by (auto simp: is_digit_def)

lemma digits_all: "list_all is_digit (digits n)"
  by (induction n rule: digits.induct) (subst digits.simps, auto simp: is_digit_plus)

lemma digits_ne: "digits n \<noteq> []"
  by (subst digits.simps) simp

lemma digits_value_digits: "digits_value (digits n) = n"
proof (induction n rule: digits.induct)
  case (1 n)
  show ?case
  proof (cases "n < 10")
    case False
    then show ?thesis using 1 by (subst digits.simps) (simp add: digits_value_def)
  qed (subst digits.simps, simp add: digits_value_def)
qed

lemma digits_no_separator: "\<not> is_digit c \<Longrightarrow> c \<notin> set (digits n)"
  using digits_all [of n] by (auto simp: list_all_iff)

lemma parse_digits: "n < limit \<Longrightarrow> parse_unsigned limit (digits n) = Some n"
proof -
  assume n: "n < limit"
  obtain c rest where d: "digits n = c # rest" using digits_ne by (cases "digits n") auto
  then have "c \<noteq> 43" using digits_all [of n] by (auto simp: is_digit_def)
  then show ?thesis
    using n d digits_all [of n] digits_value_digits [of n] by (simp add: parse_unsigned_def)
qed

end
