(* ===== verification/Worker_Pool.thy ===== *)
theory Worker_Pool
  imports Credentials Idle Chars
begin

text \<open>
  How \<open>worker.rs\<close> lays the workers out: parsing of the list of call hashes, the groups of nine
  workers and the credential each group shares, the pacing of their starts and the gate that holds
  them back. Texts are lists of Unicode code points here, because trimming looks at white space.
\<close>

section \<open>Hashes\<close>

definition is_bracket :: "nat \<Rightarrow> bool" where "is_bracket c \<longleftrightarrow> c \<in> {0x3C, 0x3E, 0x22, 0x27}"
definition is_url_end :: "nat \<Rightarrow> bool" where "is_url_end c \<longleftrightarrow> c \<in> {0x3F, 0x23, 0x2F}"
definition is_separator :: "nat \<Rightarrow> bool" where "is_separator c \<longleftrightarrow> c \<in> {0x2C, 0x3B, 10, 13, 9, 0x20}"

definition call_join :: chars where "call_join = code_points ''/call/join/''"

definition normalize_hash :: "chars \<Rightarrow> chars option" where
  "normalize_hash input =
     (let value = trim_with is_bracket (trim_with is_whitespace input)
      in if value = [] then None
         else
           let lower = to_ascii_lowercase value;
               value' = (case find_text call_join lower of
                   Some index \<Rightarrow> Some (drop (index + length call_join) value)
                 | None \<Rightarrow>
                     if starts_with lower (code_points ''http://'') \<or> starts_with lower (code_points ''https://'')
                     then None else Some value)
           in case value' of
                None \<Rightarrow> None
              | Some value \<Rightarrow>
                  let value = truncate_at is_url_end value;
                      value = trim_with (\<lambda>c. c = 0x2F) (trim_with is_whitespace value)
                  in if value = [] then None else Some value)"

fun keep_new :: "chars list \<Rightarrow> chars list \<Rightarrow> chars list" where
  "keep_new seen [] = []"
| "keep_new seen (hash # hashes) = (if hash \<in> set seen then keep_new seen hashes else hash # keep_new (hash # seen) hashes)"

definition parse_hashes :: "chars \<Rightarrow> chars list" where
  "parse_hashes raw = keep_new [] (List.map_filter normalize_hash (split_at is_separator raw))"

section \<open>Groups\<close>

definition group_worker_ids :: "nat \<Rightarrow> nat list" where
  "group_worker_ids group_id =
     (let first = (group_id - 1) * WORKERS_PER_GROUP + 1 in [first ..< first + WORKERS_PER_GROUP])"

definition credential_stream_id :: "nat \<Rightarrow> nat" where
  "credential_stream_id credential_id = credential_id * 100"

definition group_hash_index :: "nat \<Rightarrow> nat \<Rightarrow> nat" where
  "group_hash_index group_index hash_count = group_index mod hash_count"

definition credential_cohort_index :: "nat \<Rightarrow> nat" where
  "credential_cohort_index group_index_for_hash = group_index_for_hash div GROUPS_PER_CREDENTIAL"

text \<open>The credentials of \<open>run_groups\<close> are their number and the index of their hash.\<close>

record group_layout =
  gl_groups_by_hash :: "nat list"
  gl_credentials_by_hash :: "(nat \<times> nat) list list"
  gl_next_credential_id :: nat
  gl_group_credentials :: "(nat \<times> nat) list"

definition layout_group :: "nat \<Rightarrow> nat \<Rightarrow> group_layout \<Rightarrow> group_layout" where
  "layout_group hash_count group_index l =
     (let h = group_hash_index group_index hash_count;
          group_index_for_hash = gl_groups_by_hash l ! h;
          l = l\<lparr>gl_groups_by_hash := (gl_groups_by_hash l)[h := group_index_for_hash + 1]\<rparr>;
          cohort = credential_cohort_index group_index_for_hash;
          l = (if length (gl_credentials_by_hash l ! h) \<le> cohort
               then l\<lparr>gl_credentials_by_hash := (gl_credentials_by_hash l)[h := gl_credentials_by_hash l ! h @ [(gl_next_credential_id l, h)]],
                      gl_next_credential_id := gl_next_credential_id l + 1\<rparr>
               else l)
      in l\<lparr>gl_group_credentials := gl_group_credentials l @ [gl_credentials_by_hash l ! h ! cohort]\<rparr>)"

definition run_groups :: "nat \<Rightarrow> nat \<Rightarrow> group_layout" where
  "run_groups groups hash_count =
     (let l = \<lparr>gl_groups_by_hash = replicate hash_count 0, gl_credentials_by_hash = replicate hash_count [],
               gl_next_credential_id = 1, gl_group_credentials = []\<rparr>
      in if hash_count = 0 then l else fold (layout_group hash_count) [0 ..< groups] l)"

text \<open>The credential a worker uses, and all workers that start.\<close>

definition worker_layout :: "nat \<Rightarrow> nat \<Rightarrow> (nat \<times> nat) list" where
  "worker_layout groups hash_count =
     concat (map (\<lambda>(group_index, credential). map (\<lambda>id. (id, fst credential)) (group_worker_ids (group_index + 1)))
       (enumerate 0 (gl_group_credentials (run_groups groups hash_count))))"

section \<open>Starts and pauses\<close>

definition WORKER_START_INTERVAL :: int where "WORKER_START_INTERVAL = 100"

text \<open>
  \<open>WorkerStartPacer::wait\<close> holds the lock across its sleep; a call that is cancelled leaves the
  pacer as it is. The answer is the time the worker starts at.
\<close>

definition pacer_wait :: "int \<Rightarrow> int \<Rightarrow> bool \<Rightarrow> int \<Rightarrow> int option \<times> int" where
  "pacer_wait interval now cancelled next =
     (let scheduled = max next now
      in if cancelled then (None, next) else (Some scheduled, scheduled + interval))"

definition gate_allows :: "nat \<Rightarrow> bool \<Rightarrow> idle_state \<Rightarrow> bool" where
  "gate_allows worker_id paused idle \<longleftrightarrow> \<not> paused \<and> allows worker_id idle"

section \<open>Parsed hashes\<close>

lemma normalize_hash_Some:
  assumes "normalize_hash s = Some v"
  shows "v \<noteq> [] \<and> (\<forall>c\<in>set v. \<not> is_url_end c) \<and> set v \<subseteq> set s"
proof -
  obtain w where v: "v = trim_with (\<lambda>c. c = 0x2F) (trim_with is_whitespace (truncate_at is_url_end w))" "v \<noteq> []"
    and v0: "set w \<subseteq> set (trim_with is_bracket (trim_with is_whitespace s))"
    using assms by (auto simp: normalize_hash_def Let_def split: if_splits option.splits dest: in_set_dropD)
  have sub: "set v \<subseteq> set (truncate_at is_url_end w)"
    unfolding v(1) by (rule order_trans [OF set_trim_with set_trim_with])
  have "c \<in> set w \<and> \<not> is_url_end c" if "c \<in> set v" for c
    using that sub by (auto simp: truncate_at_def dest!: set_takeWhileD)
  moreover have "set w \<subseteq> set s"
    using v0 set_trim_with by (meson order_trans)
  ultimately show ?thesis using v(2) by blast
qed

lemma keep_new: "distinct (keep_new seen hs) \<and> set (keep_new seen hs) = set hs - set seen"
  by (induction seen hs rule: keep_new.induct) auto

lemma set_parse_hashes:
  "h \<in> set (parse_hashes raw) \<longleftrightarrow> (\<exists>piece \<in> set (split_at is_separator raw). normalize_hash piece = Some h)"
  by (force simp: parse_hashes_def keep_new List.map_filter_def)

text \<open>
  The parsed hashes are well formed: whatever the text, they are different from each other, not
  empty, and free of the separators of the list and of the characters that end a hash in a link.
\<close>

theorem parsed_hashes_well_formed:
  "distinct (parse_hashes raw)
   \<and> list_all (\<lambda>hash. hash \<noteq> [] \<and> list_all (\<lambda>c. \<not> is_url_end c \<and> \<not> is_separator c) hash) (parse_hashes raw)"
proof -
  have "distinct (parse_hashes raw)" by (simp add: parse_hashes_def keep_new)
  moreover have "h \<noteq> [] \<and> (\<forall>c\<in>set h. \<not> is_url_end c \<and> \<not> is_separator c)" if hash: "h \<in> set (parse_hashes raw)" for h
  proof -
    obtain piece where p: "piece \<in> set (split_at is_separator raw)" "normalize_hash piece = Some h"
      using hash unfolding set_parse_hashes by blast
    then show ?thesis using normalize_hash_Some [OF p(2)] set_split_at [OF p(1)] by blast
  qed
  ultimately show ?thesis by (simp add: list_all_iff)
qed

section \<open>The layout\<close>

text \<open>The groups of a hash among the first \<open>n\<close>, and the state of \<open>run_groups\<close> after them.\<close>

definition groups_of_hash :: "nat \<Rightarrow> nat \<Rightarrow> nat \<Rightarrow> nat" where
  "groups_of_hash hash_count n h = n div hash_count + (if h < n mod hash_count then 1 else 0)"

definition group_credential :: "nat \<Rightarrow> nat \<Rightarrow> nat \<times> nat" where
  "group_credential hash_count g = (g div hash_count div 2 * hash_count + g mod hash_count + 1, g mod hash_count)"

definition layout_after :: "nat \<Rightarrow> nat \<Rightarrow> group_layout" where
  "layout_after H n =
     \<lparr>gl_groups_by_hash = map (groups_of_hash H n) [0 ..< H],
      gl_credentials_by_hash = map (\<lambda>h. map (\<lambda>k. (k * H + h + 1, h)) [0 ..< (groups_of_hash H n h + 1) div 2]) [0 ..< H],
      gl_next_credential_id = 1 + (if even (n div H) then n div H div 2 * H + n mod H else (n div H div 2 + 1) * H),
      gl_group_credentials = map (group_credential H) [0 ..< n]\<rparr>"

lemma update_map_upt: "h < H \<Longrightarrow> (map f [0 ..< H])[h := v] = map (\<lambda>i. if i = h then v else f i) [0 ..< H]"
  by (rule nth_equalityI) (simp_all add: nth_list_update)

lemma groups_of_hash_self: "groups_of_hash H n (n mod H) = n div H"
  by (simp add: groups_of_hash_def)

lemma groups_of_hash_Suc:
  assumes "h < H"
  shows "groups_of_hash H (Suc n) h = (if h = n mod H then n div H + 1 else groups_of_hash H n h)"
proof (cases "Suc (n mod H) = H")
  case True
  then have "Suc n div H = Suc (n div H)" "Suc n mod H = 0" by (simp_all add: div_Suc mod_Suc)
  then show ?thesis using assms True by (auto simp: groups_of_hash_def)
next
  case False
  then have "Suc n div H = n div H" "Suc n mod H = Suc (n mod H)" by (simp_all add: div_Suc mod_Suc)
  then show ?thesis by (auto simp: groups_of_hash_def)
qed

lemma next_id_Suc:
  assumes "0 < H"
  shows "(if even (Suc n div H) then Suc n div H div 2 * H + Suc n mod H else (Suc n div H div 2 + 1) * H)
    = (if even (n div H) then n div H div 2 * H + n mod H else (n div H div 2 + 1) * H) + (if even (n div H) then 1 else 0)"
proof (cases "Suc (n mod H) = H")
  case True
  then have "Suc n div H = Suc (n div H)" "Suc n mod H = 0" by (simp_all add: div_Suc mod_Suc)
  then show ?thesis using True by (auto elim!: evenE oddE)
next
  case False
  then have "Suc n div H = n div H" "Suc n mod H = Suc (n mod H)" by (simp_all add: div_Suc mod_Suc)
  then show ?thesis by auto
qed

lemma layout_step:
  assumes "0 < H"
  shows "layout_group H n (layout_after H n) = layout_after H (Suc n)"
proof -
  define h where "h = n mod H"
  have h: "h < H" using assms by (simp add: h_def)
  have cnt: "groups_of_hash H n h = n div H" by (simp add: h_def groups_of_hash_self)
  have Suc_cnt: "groups_of_hash H (Suc n) h' = (if h' = h then n div H + 1 else groups_of_hash H n h')" if "h' < H" for h'
    using groups_of_hash_Suc [OF that] by (simp add: h_def)
  have groups: "(map (groups_of_hash H n) [0 ..< H])[h := n div H + 1] = map (groups_of_hash H (Suc n)) [0 ..< H]"
    using h by (simp add: update_map_upt Suc_cnt)
  let ?l = "layout_after H n"
  let ?c = "\<lambda>m h'. map (\<lambda>k. (k * H + h' + 1, h')) [0 ..< (groups_of_hash H m h' + 1) div 2]"
  have l: "gl_groups_by_hash ?l ! h = n div H" "gl_credentials_by_hash ?l ! h = ?c n h"
    using h by (simp_all add: layout_after_def cnt)
  have len: "length (?c n h) = (n div H + 1) div 2" by (simp add: cnt)
  have k: "n div H div 2 < (n div H + 1 + 1) div 2" by linarith
  show ?thesis
  proof (cases "even (n div H)")
    case True
    then have q: "(n div H + 1) div 2 = n div H div 2" "(n div H + 1 + 1) div 2 = n div H div 2 + 1" by auto
    have id: "gl_next_credential_id ?l = n div H div 2 * H + h + 1"
      using True by (simp add: layout_after_def h_def)
    have step: "layout_group H n ?l =
      \<lparr>gl_groups_by_hash = (gl_groups_by_hash ?l)[h := n div H + 1],
       gl_credentials_by_hash = (gl_credentials_by_hash ?l)[h := ?c n h @ [(n div H div 2 * H + h + 1, h)]],
       gl_next_credential_id = gl_next_credential_id ?l + 1,
       gl_group_credentials = gl_group_credentials ?l @ [(n div H div 2 * H + h + 1, h)]\<rparr>"
    proof -
      have "length (gl_credentials_by_hash ?l) = H" by (simp add: layout_after_def)
      then show ?thesis
        using l len q(1) h id by (simp add: layout_group_def group_hash_index_def credential_cohort_index_def
            GROUPS_PER_CREDENTIAL_def h_def [symmetric] Let_def nth_append del: One_nat_def)
    qed
    have creds: "(map (?c n) [0 ..< H])[h := ?c n h @ [(n div H div 2 * H + h + 1, h)]] = map (?c (Suc n)) [0 ..< H]"
      using h q by (auto simp: update_map_upt Suc_cnt cnt)
    show ?thesis
      unfolding step using groups creds next_id_Suc [OF assms, of n] True
      by (simp add: layout_after_def group_credential_def h_def)
  next
    case False
    then have q: "(n div H + 1) div 2 = n div H div 2 + 1" "(n div H + 1 + 1) div 2 = n div H div 2 + 1"
      by (auto elim!: oddE)
    have step: "layout_group H n ?l =
      \<lparr>gl_groups_by_hash = (gl_groups_by_hash ?l)[h := n div H + 1],
       gl_credentials_by_hash = gl_credentials_by_hash ?l,
       gl_next_credential_id = gl_next_credential_id ?l,
       gl_group_credentials = gl_group_credentials ?l @ [(n div H div 2 * H + h + 1, h)]\<rparr>"
      using l len q(1) h by (simp add: layout_group_def group_hash_index_def credential_cohort_index_def
          GROUPS_PER_CREDENTIAL_def h_def [symmetric] Let_def cnt del: One_nat_def)
    have creds: "map (?c n) [0 ..< H] = map (?c (Suc n)) [0 ..< H]"
      using q by (auto simp: Suc_cnt cnt)
    show ?thesis
      unfolding step using groups creds next_id_Suc [OF assms, of n] False
      by (simp only: layout_after_def group_credential_def h_def group_layout.select_convs upt_Suc_append map_append) (simp add: group_credential_def)
  qed
qed

lemma layout_closed:
  assumes "0 < H"
  shows "run_groups n H = layout_after H n"
proof -
  have "fold (layout_group H) [0 ..< n] (layout_after H 0) = layout_after H n"
    by (induction n) (simp_all add: layout_step [OF assms])
  moreover have "layout_after H 0 = \<lparr>gl_groups_by_hash = replicate H 0, gl_credentials_by_hash = replicate H [],
      gl_next_credential_id = 1, gl_group_credentials = []\<rparr>"
    by (simp add: layout_after_def groups_of_hash_def list_eq_iff_nth_eq)
  ultimately show ?thesis using assms by (simp add: run_groups_def)
qed

lemma worker_layout_0: "worker_layout 0 H = []"
  by (simp add: worker_layout_def run_groups_def Let_def)

lemma worker_layout_Suc:
  assumes "0 < H"
  shows "worker_layout (Suc n) H = worker_layout n H @ map (\<lambda>id. (id, fst (group_credential H n))) (group_worker_ids (n + 1))"
  by (simp add: worker_layout_def layout_closed [OF assms] layout_after_def enumerate_append_eq)

lemma worker_ids: "0 < H \<Longrightarrow> map fst (worker_layout n H) = [1 ..< n * WORKERS_PER_GROUP + 1]"
proof (induction n)
  case (Suc n)
  have "[1 ..< n * WORKERS_PER_GROUP + 1] @ [n * WORKERS_PER_GROUP + 1 ..< n * WORKERS_PER_GROUP + 1 + WORKERS_PER_GROUP]
    = [1 ..< n * WORKERS_PER_GROUP + 1 + WORKERS_PER_GROUP]"
    by (rule upt_add_eq_append [symmetric]) simp
  then show ?case using Suc by (simp add: worker_layout_Suc group_worker_ids_def Let_def comp_def add_ac)
qed (simp add: worker_layout_0)

lemma group_of_credential:
  assumes "fst (group_credential H g) = c" "0 < H"
  shows "g \<in> {2 * ((c - 1) div H) * H + (c - 1) mod H, (2 * ((c - 1) div H) + 1) * H + (c - 1) mod H}"
proof -
  have c: "c - 1 = g div H div 2 * H + g mod H" using assms(1) by (simp add: group_credential_def)
  then have "(c - 1) div H = g div H div 2" "(c - 1) mod H = g mod H" using assms(2) by simp_all
  moreover have "g div H = 2 * (g div H div 2) \<or> g div H = 2 * (g div H div 2) + 1" by (cases "even (g div H)") auto
  ultimately show ?thesis by (metis div_mult_mod_eq insertCI)
qed

lemma groups_per_credential:
  assumes "0 < H"
  shows "length (filter (\<lambda>g. fst (group_credential H g) = c) [0 ..< n]) \<le> GROUPS_PER_CREDENTIAL"
proof -
  let ?gs = "filter (\<lambda>g. fst (group_credential H g) = c) [0 ..< n]"
  let ?two = "{2 * ((c - 1) div H) * H + (c - 1) mod H, (2 * ((c - 1) div H) + 1) * H + (c - 1) mod H}"
  have "set ?gs \<subseteq> ?two" using group_of_credential [OF _ assms] by auto
  then have "card (set ?gs) \<le> card ?two" by (intro card_mono) auto
  moreover have "card ?two \<le> 2" using card_insert_le_m1 [of 2] by (simp add: card_insert_if)
  moreover have "length ?gs = card (set ?gs)" by (rule distinct_card [symmetric]) simp
  ultimately show ?thesis by (simp add: GROUPS_PER_CREDENTIAL_def)
qed

lemma workers_of_credential:
  assumes "0 < H"
  shows "length (filter (\<lambda>w. snd w = c) (worker_layout n H))
    = WORKERS_PER_GROUP * length (filter (\<lambda>g. fst (group_credential H g) = c) [0 ..< n])"
proof (induction n)
  case (Suc n)
  have "length (filter (\<lambda>w. snd w = c) (map (\<lambda>id. (id, fst (group_credential H n))) (group_worker_ids (n + 1))))
    = (if fst (group_credential H n) = c then WORKERS_PER_GROUP else 0)"
    by (simp add: group_worker_ids_def Let_def filter_map comp_def)
  then show ?case using Suc by (simp add: worker_layout_Suc [OF assms])
qed (simp add: worker_layout_0)

text \<open>
  The layout of the workers: groups of nine get the identifiers from 1 on without a gap, group
  \<open>g\<close> uses the hash \<open>g mod hash_count\<close> with the credential of its pair of rounds, and so no
  credential is used by more workers than a credential may be leased to.
\<close>

theorem workers_share_credentials:
  assumes "0 < hash_count"
  shows "map fst (worker_layout groups hash_count) = [1 ..< groups * WORKERS_PER_GROUP + 1]
    \<and> gl_group_credentials (run_groups groups hash_count)
        = map (\<lambda>g. (g div hash_count div 2 * hash_count + g mod hash_count + 1, g mod hash_count)) [0 ..< groups]
    \<and> length (filter (\<lambda>w. snd w = credential) (worker_layout groups hash_count)) \<le> WORKERS_PER_CREDENTIAL"
proof -
  have "WORKERS_PER_GROUP * length (filter (\<lambda>g. fst (group_credential hash_count g) = credential) [0 ..< groups])
      \<le> WORKERS_PER_GROUP * GROUPS_PER_CREDENTIAL"
    by (rule mult_le_mono2) (rule groups_per_credential [OF assms])
  then show ?thesis
    using worker_ids [OF assms] workers_of_credential [OF assms]
    by (simp add: layout_closed [OF assms] layout_after_def group_credential_def WORKERS_PER_CREDENTIAL_def del: One_nat_def)
qed

lemma workers_share_credentials_witness:
  "gl_group_credentials (run_groups 5 2) = [(1, 0), (2, 1), (1, 0), (2, 1), (3, 0)]
   \<and> length (filter (\<lambda>w. snd w = 1) (worker_layout 5 2)) \<le> 18"
proof -
  have "[0 ..< 5] = [0, 1, 2, 3, 4::nat]" by (simp add: upt_rec)
  then show ?thesis
    using workers_share_credentials [of 2 5 1] by (simp add: credential_consts)
qed

section \<open>Starts\<close>

fun pacer_run :: "int \<Rightarrow> (int \<times> bool) list \<Rightarrow> int \<Rightarrow> int list" where
  "pacer_run interval [] next = []"
| "pacer_run interval ((now, cancelled) # calls) next =
     (case pacer_wait interval now cancelled next of
        (None, next) \<Rightarrow> pacer_run interval calls next
      | (Some start, next) \<Rightarrow> start # pacer_run interval calls next)"

lemma pacer_run_starts:
  "0 \<le> interval \<Longrightarrow> start \<in> set (pacer_run interval calls next) \<Longrightarrow> next \<le> start"
  by (induction interval calls "next" rule: pacer_run.induct) (fastforce simp: pacer_wait_def Let_def split: if_splits)+

lemma pacer_run_spaced:
  "0 \<le> interval \<Longrightarrow> sorted_wrt (\<lambda>a b. a + interval \<le> b) (pacer_run interval calls next)"
  by (induction interval calls "next" rule: pacer_run.induct)
    (auto simp: pacer_wait_def Let_def dest: pacer_run_starts split: if_splits)

end
