(* ===== verification/Handshake.thy ===== *)
theory Handshake
  imports Idle Error_Text
begin

text \<open>
  How a session asks the server for its configuration, \<open>session.rs\<close>: the registration payload, the
  three attempts of \<open>request_configuration\<close> with their deadlines, what each answer leads to, and the
  flags by which \<open>worker.rs\<close> makes one worker at a time ask on behalf of all. What the socket yields
  within an attempt is a list of events; the idle state the payload is built from is read again at
  every attempt.
\<close>

section \<open>Registration\<close>

definition CONFIG_RESPONSE_TIMEOUT_MS :: "nat list" where
  "CONFIG_RESPONSE_TIMEOUT_MS = [750, 1500, 3000]"

record session_config =
  cf_id :: nat
  cf_local_port :: bytes
  cf_device_id :: bytes
  cf_password :: bytes
  cf_generation :: u64
  cf_salt :: bytes
  cf_get_config :: bool

definition build_registration_payload :: "session_config \<Rightarrow> idle_state \<Rightarrow> bytes \<times> nat" where
  "build_registration_payload config idle =
     (config_request (cf_local_port config) (cf_device_id config) (cf_password config)
        (word_of_nat (idle_generation (unat (cf_generation config)) idle)) (cf_salt config) (cf_id config)
        (Some (max (declared_count idle) 1)),
      id_gen_offset idle)"

section \<open>Asking\<close>

datatype reader_event = Packet_in bytes | Read_failed error_chain | Deadline_passed

datatype handshake_error = Send_failed error_chain | Recv_failed error_chain | Rejected config_error | Handshake_timeout

text \<open>
  The effects of a run in order: requests sent, events for the host, the flag of the stream repair,
  the configuration handed on, the path joined.
\<close>

datatype handshake_effect =
    Sent bytes
  | Panel_restart
  | Error_event string
  | Stream_repair
  | Config_forwarded bytes
  | Path_joined nat nat

record handshake_env =
  he_config :: session_config
  he_forward :: bool
  he_idle :: "nat \<Rightarrow> idle_state"
  he_send :: "nat \<Rightarrow> error_chain option"

definition ends_with :: "bytes \<Rightarrow> bytes \<Rightarrow> bool" where
  "ends_with s t = starts_with (rev s) (rev t)"

text \<open>The texts of these errors begin with \<open>FATAL_\<close>.\<close>

fun is_fatal_answer :: "config_error \<Rightarrow> bool" where
  "is_fatal_answer Not_utf8 = False"
| "is_fatal_answer Unexpected_response = False"
| "is_fatal_answer _ = True"

definition handle_answer :: "handshake_env \<Rightarrow> nat \<Rightarrow> bytes \<Rightarrow> (handshake_error + bool) \<times> handshake_effect list" where
  "handle_answer env offset packet =
     (case parse_config_response packet of
        Inl e \<Rightarrow> (Inl (Rejected e),
          if cf_get_config (he_config env) \<and> is_fatal_answer e then [Error_event ''handshake_rejected''] else [])
      | Inr No_config \<Rightarrow> (Inr False, [])
      | Inr (Config text) \<Rightarrow>
          (Inr True,
           (if ends_with text (ascii '':stream-v1'') \<or> ends_with text (ascii '':stream-v2'') then [Stream_repair] else [])
           @ (if he_forward env then [Config_forwarded text] else [])
           @ [Path_joined (cf_id (he_config env)) offset]))"

text \<open>\<open>None\<close> while the answer is still to come.\<close>

fun await_answer :: "handshake_env \<Rightarrow> nat \<Rightarrow> nat \<Rightarrow> reader_event list
    \<Rightarrow> (handshake_error + bool) option \<times> handshake_effect list" where
  "await_answer env attempt offset [] = (None, [])"
| "await_answer env attempt offset (Read_failed e # events) = (Some (Inl (Recv_failed e)), [])"
| "await_answer env attempt offset (Packet_in packet # events) =
     (if is_panel_restart_notice packet then
        (case await_answer env attempt offset events of (r, effects) \<Rightarrow> (r, Panel_restart # effects))
      else if \<not> is_config_response packet then await_answer env attempt offset events
      else (case handle_answer env offset packet of (r, effects) \<Rightarrow> (Some r, effects)))"
| "await_answer env attempt offset (Deadline_passed # events) =
     (if attempt + 1 < length CONFIG_RESPONSE_TIMEOUT_MS then
        (case build_registration_payload (he_config env) (he_idle env (attempt + 1)) of
           (request, offset) \<Rightarrow>
             case he_send env (attempt + 1) of
               Some e \<Rightarrow> (Some (Inl (Send_failed e)), [])
             | None \<Rightarrow>
                 case await_answer env (attempt + 1) offset events of (r, effects) \<Rightarrow> (r, Sent request # effects))
      else (Some (Inl Handshake_timeout),
            if cf_get_config (he_config env) then [Error_event ''handshake_timeout''] else []))"

definition request_configuration ::
  "handshake_env \<Rightarrow> reader_event list \<Rightarrow> (handshake_error + bool) option \<times> handshake_effect list" where
  "request_configuration env events =
     (case build_registration_payload (he_config env) (he_idle env 0) of
        (request, offset) \<Rightarrow>
          case he_send env 0 of
            Some e \<Rightarrow> (Some (Inl (Send_failed e)), [])
          | None \<Rightarrow> case await_answer env 0 offset events of (r, effects) \<Rightarrow> (r, Sent request # effects))"

section \<open>It ends\<close>

definition deadlines :: "reader_event list \<Rightarrow> nat" where
  "deadlines events = length (filter (\<lambda>e. e = Deadline_passed) events)"

definition requests_sent :: "handshake_effect list \<Rightarrow> nat" where
  "requests_sent effects = length (filter (\<lambda>e. \<exists>b. e = Sent b) effects)"

lemma handle_answer_sends: "requests_sent (snd (handle_answer env offset packet)) = 0"
  by (auto simp: handle_answer_def requests_sent_def filter_empty_conv split: sum.splits config_response.splits)

lemma requests_sent_simps [simp]:
  "requests_sent [] = 0" "requests_sent (Sent b # effects) = Suc (requests_sent effects)"
  "requests_sent (Panel_restart # effects) = requests_sent effects" "requests_sent [Error_event s] = 0"
  by (simp_all add: requests_sent_def)

lemma await_answer_ends:
  assumes "attempt < 3"
  shows "(deadlines events \<ge> 3 - attempt \<longrightarrow> fst (await_answer env attempt offset events) \<noteq> None)
    \<and> requests_sent (snd (await_answer env attempt offset events)) \<le> 2 - attempt"
  using assms
proof (induction env attempt offset events rule: await_answer.induct)
  case (3 env attempt offset packet events)
  then show ?case
    using handle_answer_sends [of env offset packet]
    by (auto simp: deadlines_def split: prod.splits)
next
  case (4 env attempt offset events)
  show ?case
  proof (cases "attempt + 1 < 3")
    case True
    then show ?thesis
      using "4.IH" by (fastforce simp: deadlines_def CONFIG_RESPONSE_TIMEOUT_MS_def split: prod.splits option.splits)
  next
    case False
    then show ?thesis by (simp add: CONFIG_RESPONSE_TIMEOUT_MS_def)
  qed
qed (auto simp: deadlines_def)

text \<open>
  C23: Asking for the configuration terminates: whatever arrives, after three deadlines, 5.25 s in all, the
  request has a result, and at most three requests were sent.
\<close>

theorem handshake_terminates:
  assumes "deadlines events \<ge> length CONFIG_RESPONSE_TIMEOUT_MS"
  shows "fst (request_configuration env events) \<noteq> None
    \<and> requests_sent (snd (request_configuration env events)) \<le> length CONFIG_RESPONSE_TIMEOUT_MS
    \<and> sum_list CONFIG_RESPONSE_TIMEOUT_MS = 5250"
proof -
  have l: "length CONFIG_RESPONSE_TIMEOUT_MS = 3" "sum_list CONFIG_RESPONSE_TIMEOUT_MS = 5250"
    by (simp_all add: CONFIG_RESPONSE_TIMEOUT_MS_def)
  obtain request offset where p: "build_registration_payload (he_config env) (he_idle env 0) = (request, offset)"
    by fastforce
  obtain r effects where w: "await_answer env 0 offset events = (r, effects)" by fastforce
  show ?thesis
    using assms await_answer_ends [of 0 events env offset] unfolding l
    by (cases "he_send env 0") (auto simp: request_configuration_def p w)
qed

definition idle_at_rest :: idle_state where
  "idle_at_rest = \<lparr>id_limit = USIZE_MAX, id_active = False, id_total = 9, id_declared = 9, id_gen_offset = 0, id_announce = 0,
     id_packet_start = 0, id_packet_count = 0, id_syn_start = 0, id_syn_count = 0, id_joined = []\<rparr>"

definition silent_env :: handshake_env where
  "silent_env = \<lparr>he_config = \<lparr>cf_id = 1, cf_local_port = [], cf_device_id = [], cf_password = [],
       cf_generation = 0, cf_salt = [], cf_get_config = True\<rparr>, he_forward = True, he_idle = (\<lambda>_. idle_at_rest), he_send = (\<lambda>_. None)\<rparr>"

lemma handshake_terminates_witness:
  "fst (request_configuration silent_env (replicate 3 Deadline_passed)) \<noteq> None
   \<and> requests_sent (snd (request_configuration silent_env (replicate 3 Deadline_passed))) \<le> 3"
  using handshake_terminates [of "replicate 3 Deadline_passed" silent_env]
  by (simp add: CONFIG_RESPONSE_TIMEOUT_MS_def deadlines_def)

section \<open>One request at a time\<close>

text \<open>
  \<open>ConfigFlightGuard\<close> and \<open>ConfigDeliveryState\<close> on the two flags the workers share. A worker
  acquires when it sets up a session, the session completes the request, and the guard is dropped
  after the session ended.
\<close>

record config_flags =
  fl_sent :: bool
  fl_in_flight :: bool

definition flight_acquire :: "config_flags \<Rightarrow> bool \<times> config_flags" where
  "flight_acquire f = (if \<not> fl_sent f \<and> \<not> fl_in_flight f then (True, f\<lparr>fl_in_flight := True\<rparr>) else (False, f))"

definition flight_drop :: "bool \<Rightarrow> config_flags \<Rightarrow> config_flags" where
  "flight_drop acquired f = (if acquired then f\<lparr>fl_in_flight := False\<rparr> else f)"

definition delivery_complete :: "bool \<Rightarrow> config_flags \<Rightarrow> config_flags" where
  "delivery_complete delivered f =
     (let f = (if delivered then f\<lparr>fl_sent := True\<rparr> else f) in f\<lparr>fl_in_flight := False\<rparr>)"

text \<open>Where a worker is: without a guard, with its request in flight, with a guard whose request is complete.\<close>

datatype flight_pc = No_guard | Requesting | Completed

record flight_state =
  fs_flags :: config_flags
  fs_workers :: "nat \<Rightarrow> flight_pc"

datatype flight_label = L_acquire nat | L_complete nat bool | L_drop nat

inductive flight_step :: "flight_state \<Rightarrow> flight_label \<Rightarrow> flight_state \<Rightarrow> bool" where
  flight_acquired: "\<lbrakk>fs_workers s i = No_guard; flight_acquire (fs_flags s) = (True, f)\<rbrakk> \<Longrightarrow>
    flight_step s (L_acquire i) \<lparr>fs_flags = f, fs_workers = (fs_workers s)(i := Requesting)\<rparr>"
| flight_completed: "fs_workers s i = Requesting \<Longrightarrow>
    flight_step s (L_complete i delivered)
      \<lparr>fs_flags = delivery_complete delivered (fs_flags s), fs_workers = (fs_workers s)(i := Completed)\<rparr>"
| flight_dropped: "fs_workers s i \<noteq> No_guard \<Longrightarrow>
    flight_step s (L_drop i) \<lparr>fs_flags = flight_drop True (fs_flags s), fs_workers = (fs_workers s)(i := No_guard)\<rparr>"

definition flight_start :: flight_state where
  "flight_start = \<lparr>fs_flags = \<lparr>fl_sent = False, fl_in_flight = False\<rparr>, fs_workers = (\<lambda>_. No_guard)\<rparr>"

text \<open>
  Two workers can ask at the same time: the session of worker 1 completes its request without a
  configuration, worker 2 acquires the flag, worker 1 drops its guard and with it clears the flag of
  worker 2, and worker 3 acquires it while the request of worker 2 is in flight.
\<close>

theorem two_requests_in_flight:
  "\<exists>s. steps flight_step flight_start
      [L_acquire 1, L_complete 1 False, L_acquire 2, L_drop 1, L_acquire 3] s
    \<and> fs_workers s 2 = Requesting \<and> fs_workers s 3 = Requesting"
  apply (intro exI conjI)
    apply (rule steps_Cons, rule flight_acquired, simp add: flight_start_def, simp add: flight_start_def flight_acquire_def)
    apply (rule steps_Cons, rule flight_completed, simp add: flight_start_def)
    apply (rule steps_Cons, rule flight_acquired, simp add: flight_start_def, simp add: flight_acquire_def delivery_complete_def)
    apply (rule steps_Cons, rule flight_dropped, simp add: flight_start_def)
    apply (rule steps_Cons, rule flight_acquired, simp add: flight_start_def, simp add: flight_acquire_def delivery_complete_def flight_drop_def)
    apply (rule steps_Nil)
   apply (simp_all add: flight_start_def)
  done

end
