(* ===== verification/Shutdown.thy ===== *)
theory Shutdown
  imports Protocol "HOL-Library.Product_Lexorder"
begin

text \<open>
  Saying goodbye, \<open>ShutdownCoordinator\<close> of \<open>session.rs\<close>: the registered control streams, the one
  task that sends DISCONNECT over them, most recently active first, within its budget, and the
  flags of the host's stop call. Times are milliseconds. What a stream does with the command is an
  input: when the send returns, and when the server's answer comes after it.
\<close>

section \<open>State\<close>

definition DISCONNECT_BUDGET :: nat where "DISCONNECT_BUDGET = 700"
definition DISCONNECT_ATTEMPT :: nat where "DISCONNECT_ATTEMPT = 80"

lemmas disconnect_consts = DISCONNECT_BUDGET_def DISCONNECT_ATTEMPT_def

record control_stream =
  cs_incarnation :: nat
  cs_activity :: nat

record shutdown_state =
  sd_active :: bool
  sd_completed :: bool
  sd_streams :: "control_stream list"
  sd_next_activity :: nat

definition new_shutdown :: shutdown_state where
  "new_shutdown = \<lparr>sd_active = False, sd_completed = False, sd_streams = [], sd_next_activity = 1\<rparr>"

definition next_activity :: "shutdown_state \<Rightarrow> nat \<times> shutdown_state" where
  "next_activity s = (max (sd_next_activity s) 1, s\<lparr>sd_next_activity := (sd_next_activity s + 1) mod 2 ^ 64\<rparr>)"

definition shutdown_register :: "nat \<Rightarrow> shutdown_state \<Rightarrow> shutdown_state" where
  "shutdown_register incarnation s =
     (case next_activity s of
        (activity, s) \<Rightarrow>
          if sd_active s then s
          else s\<lparr>sd_streams := sd_streams s @ [\<lparr>cs_incarnation = incarnation, cs_activity = activity\<rparr>]\<rparr>)"

definition mark_activity :: "nat \<Rightarrow> shutdown_state \<Rightarrow> shutdown_state" where
  "mark_activity incarnation s =
     (case next_activity s of
        (activity, s) \<Rightarrow>
          s\<lparr>sd_streams := map (\<lambda>st. if cs_incarnation st = incarnation then st\<lparr>cs_activity := activity\<rparr> else st) (sd_streams s)\<rparr>)"

definition shutdown_unregister :: "nat \<Rightarrow> shutdown_state \<Rightarrow> shutdown_state" where
  "shutdown_unregister incarnation s = s\<lparr>sd_streams := filter (\<lambda>st. cs_incarnation st \<noteq> incarnation) (sd_streams s)\<rparr>"

text \<open>Descending by activity, then by incarnation.\<close>

definition control_streams :: "shutdown_state \<Rightarrow> nat list" where
  "control_streams s = map cs_incarnation (rev (sort_key (\<lambda>st. (cs_activity st, cs_incarnation st)) (sd_streams s)))"

definition observe_control_response :: "bytes \<Rightarrow> shutdown_state \<Rightarrow> bool \<times> shutdown_state" where
  "observe_control_response response s =
     (if response \<noteq> ascii ''OK:disconnected'' \<and> \<not> starts_with response (ascii ''DENIED:'') then (False, s)
      else if \<not> sd_active s \<or> sd_completed s then (False, s)
      else (True, s\<lparr>sd_completed := True\<rparr>))"

definition shutdown_complete :: "shutdown_state \<Rightarrow> shutdown_state" where
  "shutdown_complete s = (if sd_completed s then s else s\<lparr>sd_completed := True\<rparr>)"

text \<open>The first caller leads, the others wait.\<close>

definition elect_leader :: "shutdown_state \<Rightarrow> bool \<times> shutdown_state" where
  "elect_leader s =
     (if sd_active s then (False, s) else (True, s\<lparr>sd_active := True, sd_completed := False\<rparr>))"

section \<open>The leader\<close>

text \<open>
  A stream's send returns after \<open>st_after\<close> (\<open>None\<close>: never), with success or not, and the answer
  to a delivered command arrives \<open>st_answer\<close> later, if at all.
\<close>

record stream_behaviour =
  st_after :: "nat option"
  st_ok :: bool
  st_answer :: "nat option"

definition is_completed_at :: "nat option \<Rightarrow> nat \<Rightarrow> bool" where
  "is_completed_at answered now \<longleftrightarrow> (case answered of None \<Rightarrow> False | Some t \<Rightarrow> t \<le> now)"

definition earliest :: "nat option \<Rightarrow> nat option \<Rightarrow> nat option" where
  "earliest a b = (case (a, b) of (Some x, Some y) \<Rightarrow> Some (min x y) | (None, y) \<Rightarrow> y | (x, None) \<Rightarrow> x)"

definition send_within :: "nat \<Rightarrow> stream_behaviour \<Rightarrow> bool \<times> nat" where
  "send_within attempt b =
     (case st_after b of
        Some t \<Rightarrow> if t \<le> attempt then (st_ok b, t) else (False, attempt)
      | None \<Rightarrow> (False, attempt))"

text \<open>\<open>wait_until_completed\<close>: the time it returns and whether the state was complete then.\<close>

definition wait_until_completed :: "nat option \<Rightarrow> nat \<Rightarrow> nat \<Rightarrow> bool \<times> nat" where
  "wait_until_completed answered now timeout =
     (if is_completed_at answered now then (True, now)
      else if is_completed_at answered (now + timeout) then (True, the answered)
      else (False, now + timeout))"

text \<open>The loop; its result is the time it ends and the time of the first answer.\<close>

fun disconnect_loop :: "nat \<Rightarrow> stream_behaviour list \<Rightarrow> nat \<Rightarrow> nat option \<Rightarrow> nat \<times> nat option" where
  "disconnect_loop deadline [] now answered = (now, answered)"
| "disconnect_loop deadline (b # streams) now answered =
     (if is_completed_at answered now then (now, answered)
      else if deadline \<le> now then (now, answered)
      else
        case send_within (min DISCONNECT_ATTEMPT (deadline - now)) b of (delivered, t) \<Rightarrow>
          let now = now + t in
          if \<not> delivered then disconnect_loop deadline streams now answered
          else
            let answered = earliest answered (map_option ((+) now) (st_answer b)) in
            if deadline \<le> now then (now, answered)
            else case wait_until_completed answered now (min DISCONNECT_ATTEMPT (deadline - now)) of
              (True, now) \<Rightarrow> (now, answered)
            | (False, now) \<Rightarrow> disconnect_loop deadline streams now answered)"

definition request_disconnect :: "stream_behaviour list \<Rightarrow> nat \<Rightarrow> nat \<times> nat option" where
  "request_disconnect streams now = disconnect_loop (now + DISCONNECT_BUDGET) streams now None"

section \<open>The host's stop call\<close>

record stop_flags =
  sf_flag :: bool
  sf_done :: bool

definition signal_stop :: "stop_flags \<Rightarrow> stop_flags" where
  "signal_stop f = f\<lparr>sf_flag := True, sf_done := False\<rparr>"

definition stop_requested :: "stop_flags \<Rightarrow> bool \<times> stop_flags" where
  "stop_requested f = (sf_flag f, f\<lparr>sf_flag := False\<rparr>)"

definition stop_finished :: "stop_flags \<Rightarrow> stop_flags" where
  "stop_finished f = f\<lparr>sf_done := True\<rparr>"

section \<open>The budget is kept\<close>

lemma send_within_le: "send_within a b = (d, t) \<Longrightarrow> t \<le> a"
  by (auto simp: send_within_def split: option.splits if_splits)

lemma wait_until_completed_le: "wait_until_completed answered now timeout = (c, t) \<Longrightarrow> now \<le> t \<and> t \<le> now + timeout"
  by (auto simp: wait_until_completed_def is_completed_at_def split: if_splits option.splits)

lemma disconnect_loop_bounds:
  "now \<le> deadline \<Longrightarrow> fst (disconnect_loop deadline streams now answered) \<le> deadline"
proof (induction deadline streams now answered rule: disconnect_loop.induct)
  case (2 deadline b streams now answered)
  show ?case
  proof (cases "is_completed_at answered now \<or> deadline \<le> now")
    case True
    then show ?thesis using "2.prems" by auto
  next
    case False
    obtain delivered t where s: "send_within (min DISCONNECT_ATTEMPT (deadline - now)) b = (delivered, t)" by fastforce
    have t: "now + t \<le> deadline" using send_within_le [OF s] False by linarith
    show ?thesis
    proof (cases "delivered \<and> now + t < deadline")
      case True
      let ?a = "earliest answered (map_option ((+) (now + t)) (st_answer b))"
      obtain c u where w: "wait_until_completed ?a (now + t) (min DISCONNECT_ATTEMPT (deadline - (now + t))) = (c, u)" by fastforce
      have "now + t \<le> u \<and> u \<le> deadline" using wait_until_completed_le [OF w] True by linarith
      then show ?thesis using False True s w "2.IH"(2) by (cases c) (auto simp: Let_def)
    next
      case neither: False
      then show ?thesis using False s t "2.IH"(1) by (auto simp: Let_def)
    qed
  qed
qed simp

text \<open>A stream that delivers and is answered in time, reached with enough budget left, ends the loop in success.\<close>

definition prompt :: "stream_behaviour \<Rightarrow> bool" where
  "prompt b \<longleftrightarrow> st_ok b \<and> (\<exists>t a. st_after b = Some t \<and> t \<le> DISCONNECT_ATTEMPT \<and> st_answer b = Some a \<and> a \<le> DISCONNECT_ATTEMPT)"

definition answered_by :: "nat \<times> nat option \<Rightarrow> bool" where
  "answered_by r = is_completed_at (snd r) (fst r)"

lemma prompt_answered:
  assumes "prompt b" "now + 2 * DISCONNECT_ATTEMPT < deadline"
  shows "answered_by (disconnect_loop deadline (b # streams) now answered)"
proof -
  obtain t a where b: "st_ok b" "st_after b = Some t" "t \<le> DISCONNECT_ATTEMPT" "st_answer b = Some a" "a \<le> DISCONNECT_ATTEMPT"
    using assms(1) by (auto simp: prompt_def)
  have m: "min DISCONNECT_ATTEMPT (deadline - now) = DISCONNECT_ATTEMPT" "min DISCONNECT_ATTEMPT (deadline - (now + t)) = DISCONNECT_ATTEMPT"
    "\<not> deadline \<le> now" "\<not> deadline \<le> now + t"
    using assms(2) b(3) by simp_all
  let ?a = "earliest answered (Some (now + t + a))"
  have "is_completed_at ?a (now + t + DISCONNECT_ATTEMPT)"
    using b(5) by (auto simp: earliest_def is_completed_at_def split: option.splits)
  then obtain u where w: "wait_until_completed ?a (now + t) DISCONNECT_ATTEMPT = (True, u)" "is_completed_at ?a u"
    by (cases "is_completed_at ?a (now + t)")
      (auto simp: wait_until_completed_def is_completed_at_def split: option.splits)
  show ?thesis
    using b w m by (auto simp: answered_by_def send_within_def Let_def)
qed

lemma silent_streams_cost:
  assumes "prompt b" "now + 2 * DISCONNECT_ATTEMPT * length before + 2 * DISCONNECT_ATTEMPT < deadline"
  shows "answered_by (disconnect_loop deadline (before @ b # streams) now answered)"
  using assms(2)
proof (induction before arbitrary: now answered)
  case Nil
  then show ?case using prompt_answered [OF assms(1)] by simp
next
  case (Cons c before)
  show ?case
  proof (cases "is_completed_at answered now")
    case True
    then show ?thesis by (simp add: answered_by_def)
  next
    case False
    have now: "\<not> deadline \<le> now" using Cons.prems by simp
    obtain delivered t where s: "send_within (min DISCONNECT_ATTEMPT (deadline - now)) c = (delivered, t)" by fastforce
    have t: "t \<le> DISCONNECT_ATTEMPT" using send_within_le [OF s] by simp
    show ?thesis
    proof (cases delivered)
      case False
      have "now + t + 2 * DISCONNECT_ATTEMPT * length before + 2 * DISCONNECT_ATTEMPT < deadline" using Cons.prems t by simp
      then show ?thesis using Cons.IH \<open>\<not> is_completed_at answered now\<close> now s False by simp
    next
      case True
      let ?a = "earliest answered (map_option ((+) (now + t)) (st_answer c))"
      obtain e u where w: "wait_until_completed ?a (now + t) (min DISCONNECT_ATTEMPT (deadline - (now + t))) = (e, u)" by fastforce
      have u: "u + 2 * DISCONNECT_ATTEMPT * length before + 2 * DISCONNECT_ATTEMPT < deadline"
        using wait_until_completed_le [OF w] Cons.prems t by simp
      have d: "\<not> deadline \<le> now + t" using Cons.prems t by simp
      show ?thesis
      proof (cases e)
        case True
        then have "is_completed_at ?a u"
          using w by (auto simp: wait_until_completed_def is_completed_at_def split: if_splits option.splits)
        then show ?thesis using \<open>\<not> is_completed_at answered now\<close> now s \<open>delivered\<close> w d True by (simp add: answered_by_def Let_def)
      next
        case False
        then show ?thesis using Cons.IH [OF u] \<open>\<not> is_completed_at answered now\<close> now s \<open>delivered\<close> w d by (simp add: Let_def)
      qed
    qed
  qed
qed



end
