(* ===== verification/Udp_Batch.thy ===== *)
theory Udp_Batch
  imports Packet_Buf
begin

text \<open>
  Sending and receiving datagrams in batches, \<open>udp_batch.rs\<close>: the adaptive batch size, the system
  calls for many messages with their fallback to one call per datagram, and the loops around them.
  The socket is a parameter: its four calls, and the datagrams it has taken so far.
\<close>

section \<open>Batch sizes\<close>

definition MIN_DATAGRAMS :: nat where "MIN_DATAGRAMS = 16"
definition MAX_DATAGRAMS :: nat where "MAX_DATAGRAMS = 128"

lemmas datagram_consts = MIN_DATAGRAMS_def MAX_DATAGRAMS_def

definition adapt_batch_limit :: "nat \<Rightarrow> nat \<Rightarrow> nat" where
  "adapt_batch_limit current received =
     (if received \<ge> current \<and> current < MAX_DATAGRAMS then
        (if current \<le> MIN_DATAGRAMS then 32 else if 17 \<le> current \<and> current \<le> 32 then 64 else MAX_DATAGRAMS)
      else if received = 0 \<or> min (received * 4) (2 ^ 64 - 1) \<le> current then
        (if 65 \<le> current then 64 else if 33 \<le> current \<and> current \<le> 64 then 32 else MIN_DATAGRAMS)
      else current)"

section \<open>The socket\<close>

datatype io_error =
    Would_block
  | Interrupted
  | Unavailable
  | Write_zero
  | Invalid_input
  | Invalid_data
  | Other_io nat

text \<open>
  \<open>ud_recv_mmsg\<close> yields the datagrams cut to the buffer with the flag \<open>MSG_TRUNC\<close>; \<open>ud_try_recv\<close>
  cuts without telling.
\<close>

record 'k udp_ops =
  ud_send_mmsg :: "bytes list \<Rightarrow> 'k \<Rightarrow> (io_error + nat) \<times> 'k"
  ud_try_send :: "bytes \<Rightarrow> 'k \<Rightarrow> (io_error + nat) \<times> 'k"
  ud_recv_mmsg :: "nat \<Rightarrow> 'k \<Rightarrow> (io_error + (bytes \<times> bool) list) \<times> 'k"
  ud_try_recv :: "'k \<Rightarrow> (io_error + bytes) \<times> 'k"
  ud_sent :: "'k \<Rightarrow> bytes list"

text \<open>
  The documentation of the two sending calls: they answer how many messages, or bytes, the socket
  took, it takes messages in order and a datagram as a whole, and nothing when they fail.
\<close>

definition udp_send_ok :: "'k udp_ops \<Rightarrow> bool" where
  "udp_send_ok U \<longleftrightarrow>
     (\<forall>ds k n k'. ud_send_mmsg U ds k = (Inr n, k') \<longrightarrow> n \<le> length ds \<and> ud_sent U k' = ud_sent U k @ take n ds)
     \<and> (\<forall>ds k e k'. ud_send_mmsg U ds k = (Inl e, k') \<longrightarrow> ud_sent U k' = ud_sent U k)
     \<and> (\<forall>d k n k'. ud_try_send U d k = (Inr n, k') \<longrightarrow> n = length d \<and> ud_sent U k' = ud_sent U k @ [d])
     \<and> (\<forall>d k e k'. ud_try_send U d k = (Inl e, k') \<longrightarrow> ud_sent U k' = ud_sent U k)"

text \<open>The two flags are of the process, not of one socket.\<close>

record 'k udp_socket =
  us_send_mmsg :: bool
  us_recv_mmsg :: bool
  us_kernel :: 'k

section \<open>Sending\<close>

definition validate_batch_len :: "nat \<Rightarrow> io_error + unit" where
  "validate_batch_len len = (if len \<le> MAX_DATAGRAMS then Inr () else Inl Invalid_input)"

partial_function (option) try_send_mmsg :: "'k udp_ops \<Rightarrow> bytes list \<Rightarrow> 'k \<Rightarrow> ((io_error + nat) \<times> 'k) option" where
  "try_send_mmsg U ds k =
     (if ds = [] then Some (Inr 0, k)
      else case ud_send_mmsg U ds k of
        (Inl e, k) \<Rightarrow> if e = Interrupted then try_send_mmsg U ds k else Some (Inl e, k)
      | (Inr n, k) \<Rightarrow>
          Some (if n = 0 then Inl Would_block else if n > length ds then Inl Invalid_data else Inr n, k))"

fun portable_send :: "'k udp_ops \<Rightarrow> bytes list \<Rightarrow> nat \<Rightarrow> 'k \<Rightarrow> (io_error + nat) \<times> 'k" where
  "portable_send U [] sent k = (Inr sent, k)"
| "portable_send U (d # ds) sent k =
     (case ud_try_send U d k of
        (Inr len, k) \<Rightarrow> if len = length d then portable_send U ds (sent + 1) k else (Inl Write_zero, k)
      | (Inl e, k) \<Rightarrow> if e = Would_block \<and> sent > 0 then (Inr sent, k) else (Inl e, k))"

definition platform_send :: "'k udp_ops \<Rightarrow> bytes list \<Rightarrow> 'k udp_socket \<Rightarrow> ((io_error + nat) \<times> 'k udp_socket) option" where
  "platform_send U ds s =
     (if \<not> us_send_mmsg s
      then (case portable_send U ds 0 (us_kernel s) of (r, k) \<Rightarrow> Some (r, s\<lparr>us_kernel := k\<rparr>))
      else case try_send_mmsg U ds (us_kernel s) of
        None \<Rightarrow> None
      | Some (r, k) \<Rightarrow>
          if r = Inl Unavailable
          then (case portable_send U ds 0 k of (r, k) \<Rightarrow> Some (r, s\<lparr>us_send_mmsg := False, us_kernel := k\<rparr>))
          else Some (r, s\<lparr>us_kernel := k\<rparr>))"

definition try_send_connected :: "'k udp_ops \<Rightarrow> bytes list \<Rightarrow> 'k udp_socket \<Rightarrow> ((io_error + nat) \<times> 'k udp_socket) option" where
  "try_send_connected U ds s =
     (case validate_batch_len (length ds) of Inl e \<Rightarrow> Some (Inl e, s) | Inr _ \<Rightarrow> platform_send U ds s)"

text \<open>The wait for \<open>writable\<close> is part of the next attempt.\<close>

partial_function (option) send_rest :: "'k udp_ops \<Rightarrow> bytes list \<Rightarrow> 'k udp_socket \<Rightarrow> ((io_error + unit) \<times> 'k udp_socket) option" where
  "send_rest U ds s =
     (if ds = [] then Some (Inr (), s)
      else case try_send_connected U ds s of
        None \<Rightarrow> None
      | Some (Inr taken, s) \<Rightarrow> send_rest U (drop taken ds) s
      | Some (Inl e, s) \<Rightarrow> if e = Would_block then send_rest U ds s else Some (Inl e, s))"

definition send_connected :: "'k udp_ops \<Rightarrow> bytes list \<Rightarrow> 'k udp_socket \<Rightarrow> ((io_error + unit) \<times> 'k udp_socket) option" where
  "send_connected U ds s =
     (case validate_batch_len (length ds) of Inl e \<Rightarrow> Some (Inl e, s) | Inr _ \<Rightarrow> send_rest U ds s)"

section \<open>Receiving\<close>

text \<open>The first slots are filled in order; the packets are those of the caller.\<close>

definition BUFFER_LIMIT :: nat where "BUFFER_LIMIT = PACKET_CAPACITY - PACKET_HEADROOM"

fun fill_packets :: "bytes list \<Rightarrow> packet_buf list \<Rightarrow> packet_buf list" where
  "fill_packets (b # bs) (p # ps) =
     (case set_read_len (length b) (write_read_area b p) of Inr p \<Rightarrow> p | Inl _ \<Rightarrow> p) # fill_packets bs ps"
| "fill_packets _ ps = ps"

partial_function (option) try_recv_mmsg ::
  "'k udp_ops \<Rightarrow> packet_buf list \<Rightarrow> 'k \<Rightarrow> ((io_error + nat) \<times> packet_buf list \<times> 'k) option" where
  "try_recv_mmsg U packets k =
     (if packets = [] then Some (Inr 0, packets, k)
      else case ud_recv_mmsg U (length packets) k of
        (Inl e, k) \<Rightarrow> if e = Interrupted then try_recv_mmsg U packets k else Some (Inl e, packets, k)
      | (Inr messages, k) \<Rightarrow>
          Some (if messages = [] then (Inl Would_block, packets, k)
                else if length messages > length packets then (Inl Invalid_data, packets, k)
                else if list_ex (\<lambda>(bytes, truncated). truncated \<or> length bytes > BUFFER_LIMIT) messages
                then (Inl Invalid_data, packets, k)
                else (Inr (length messages), fill_packets (map fst messages) packets, k)))"

fun portable_recv ::
  "'k udp_ops \<Rightarrow> packet_buf list \<Rightarrow> nat \<Rightarrow> 'k \<Rightarrow> (io_error + nat) \<times> packet_buf list \<times> 'k" where
  "portable_recv U [] received k = (Inr received, [], k)"
| "portable_recv U (p # ps) received k =
     (case ud_try_recv U k of
        (Inr bytes, k) \<Rightarrow>
          (case set_read_len (length bytes) (write_read_area bytes p) of
             Inl _ \<Rightarrow> (Inl Invalid_data, p # ps, k)
           | Inr p \<Rightarrow> (case portable_recv U ps (received + 1) k of (r, ps, k) \<Rightarrow> (r, p # ps, k)))
      | (Inl e, k) \<Rightarrow> (if e = Would_block \<and> received > 0 then Inr received else Inl e, p # ps, k))"

definition try_recv_connected ::
  "'k udp_ops \<Rightarrow> packet_buf list \<Rightarrow> 'k udp_socket \<Rightarrow> ((io_error + nat) \<times> packet_buf list \<times> 'k udp_socket) option" where
  "try_recv_connected U packets s =
     (case validate_batch_len (length packets) of
        Inl e \<Rightarrow> Some (Inl e, packets, s)
      | Inr _ \<Rightarrow>
          let fallback = (\<lambda>s. case portable_recv U packets 0 (us_kernel s) of (r, ps, k) \<Rightarrow> (r, ps, s\<lparr>us_kernel := k\<rparr>))
          in if \<not> us_recv_mmsg s then Some (fallback s)
             else case try_recv_mmsg U packets (us_kernel s) of
               None \<Rightarrow> None
             | Some (r, ps, k) \<Rightarrow>
                 if r = Inl Unavailable then Some (fallback (s\<lparr>us_recv_mmsg := False, us_kernel := k\<rparr>))
                 else Some (r, ps, s\<lparr>us_kernel := k\<rparr>))"

section \<open>Batches are sent once and in order\<close>

locale udp_socket_laws =
  fixes U :: "'k udp_ops"
  assumes ok: "udp_send_ok U"
begin

lemma mmsg_sent: "ud_send_mmsg U ds k = (Inr n, k') \<Longrightarrow> n \<le> length ds \<and> ud_sent U k' = ud_sent U k @ take n ds"
  using ok unfolding udp_send_ok_def by blast

lemma mmsg_failed: "ud_send_mmsg U ds k = (Inl e, k') \<Longrightarrow> ud_sent U k' = ud_sent U k"
  using ok unfolding udp_send_ok_def by blast

lemma single_sent: "ud_try_send U d k = (Inr n, k') \<Longrightarrow> n = length d \<and> ud_sent U k' = ud_sent U k @ [d]"
  using ok unfolding udp_send_ok_def by blast

lemma single_failed: "ud_try_send U d k = (Inl e, k') \<Longrightarrow> ud_sent U k' = ud_sent U k"
  using ok unfolding udp_send_ok_def by blast

text \<open>What an attempt may do: take some of the datagrams and say how many, or fail having taken some.\<close>

definition took :: "bytes list \<Rightarrow> 'k \<Rightarrow> (io_error + nat) \<times> 'k \<Rightarrow> bool" where
  "took ds k = (\<lambda>(r, k'). case r of
      Inr n \<Rightarrow> n \<le> length ds \<and> (ds \<noteq> [] \<longrightarrow> 0 < n) \<and> ud_sent U k' = ud_sent U k @ take n ds
    | Inl e \<Rightarrow> (if e = Would_block then ud_sent U k' = ud_sent U k else \<exists>n. ud_sent U k' = ud_sent U k @ take n ds))"

text \<open>The one call takes none when it fails.\<close>

definition took_or_none :: "bytes list \<Rightarrow> 'k \<Rightarrow> (io_error + nat) \<times> 'k \<Rightarrow> bool" where
  "took_or_none ds k = (\<lambda>(r, k'). case r of
      Inr n \<Rightarrow> n \<le> length ds \<and> (ds \<noteq> [] \<longrightarrow> 0 < n) \<and> ud_sent U k' = ud_sent U k @ take n ds
    | Inl e \<Rightarrow> ud_sent U k' = ud_sent U k)"

lemma took_or_none_took: "took_or_none ds k r \<Longrightarrow> took ds k r"
  by (auto simp: took_or_none_def took_def split: sum.splits prod.splits intro: exI [of _ 0])

lemma try_send_mmsg_took:
  assumes "try_send_mmsg U ds k = Some r"
  shows "took_or_none ds k r"
proof -
  have "W = U \<longrightarrow> took_or_none ds k r" if "try_send_mmsg W ds k = Some r" for W
  proof (rule try_send_mmsg.raw_induct [OF _ that, where P = "\<lambda>W ds k r. W = U \<longrightarrow> took_or_none ds k r"], goal_cases)
    case (1 f W ds k r)
    show ?case
    proof
      assume W: "W = U"
      obtain a k' where send: "ud_send_mmsg U ds k = (a, k')" by fastforce
      show "took_or_none ds k r"
      proof (cases a)
        case (Inl e)
        have sent: "ud_sent U k' = ud_sent U k" using mmsg_failed send Inl by simp
        show ?thesis
        proof (cases "ds \<noteq> [] \<and> e = Interrupted")
          case True
          then have "took_or_none ds k' r" using 1 W send Inl by auto
          then show ?thesis by (simp add: took_or_none_def sent split: prod.splits sum.splits)
        next
          case False
          then show ?thesis using 1(2) W send Inl sent
            by (auto simp: took_or_none_def split: if_splits)
        qed
      next
        case (Inr n)
        then show ?thesis using 1(2) W send mmsg_sent [of ds k n k']
          by (auto simp: took_or_none_def split: if_splits)
      qed
    qed
  qed
  then show ?thesis using assms by blast
qed

lemma portable_send_took:
  "portable_send U ds n k = (r, k') \<Longrightarrow>
    (case r of
       Inr m \<Rightarrow> n \<le> m \<and> m \<le> n + length ds \<and> (ds \<noteq> [] \<longrightarrow> 0 < m) \<and> ud_sent U k' = ud_sent U k @ take (m - n) ds
     | Inl e \<Rightarrow> (if e = Would_block then n = 0 \<and> ud_sent U k' = ud_sent U k else \<exists>m. ud_sent U k' = ud_sent U k @ take m ds))"
proof (induction ds arbitrary: n k r k')
  case (Cons d ds)
  obtain a k1 where s: "ud_try_send U d k = (a, k1)" by fastforce
  show ?case
  proof (cases a)
    case (Inl e)
    then show ?thesis using Cons.prems s single_failed [of d k e k1] by (auto split: if_splits intro: exI [of _ 0])
  next
    case (Inr len)
    then have d: "len = length d" "ud_sent U k1 = ud_sent U k @ [d]" using single_sent s by auto
    then have rest: "portable_send U ds (n + 1) k1 = (r, k')" using Cons.prems s Inr by simp
    show ?thesis
    proof (cases r)
      case (Inl e)
      then have "\<exists>m. ud_sent U k' = ud_sent U k1 @ take m ds" "e \<noteq> Would_block"
        using Cons.IH [OF rest] by (auto split: if_splits)
      then obtain m where "ud_sent U k' = ud_sent U k @ take (Suc m) (d # ds)" using d by auto
      then show ?thesis using Inl \<open>e \<noteq> Would_block\<close> by (auto simp del: take_Suc_Cons)
    next
      case (Inr m)
      then have "n + 1 \<le> m" "m \<le> n + 1 + length ds" "ud_sent U k' = ud_sent U k1 @ take (m - (n + 1)) ds"
        using Cons.IH [OF rest] by auto
      moreover then have "take (m - n) (d # ds) = d # take (m - (n + 1)) ds" by (simp add: take_Cons')
      ultimately show ?thesis using Inr d by simp
    qed
  qed
qed simp

lemma try_send_connected_took:
  assumes "try_send_connected U ds s = Some (r, s')"
  shows "took ds (us_kernel s) (r, us_kernel s')"
proof (cases "length ds \<le> MAX_DATAGRAMS")
  case False
  then have "r = Inl Invalid_input" "s' = s"
    using assms by (auto simp: try_send_connected_def validate_batch_len_def)
  then show ?thesis by (auto simp: took_def intro: exI [of _ 0])
next
  case True
  then have p: "platform_send U ds s = Some (r, s')"
    using assms by (simp add: try_send_connected_def validate_batch_len_def)
  have portable: "took ds k (portable_send U ds 0 k)" for k
    using portable_send_took [of ds 0 k] by (auto simp: took_def split: prod.splits sum.splits)
  show ?thesis
  proof (cases "us_send_mmsg s")
    case False
    then show ?thesis using p portable [of "us_kernel s"] by (auto simp: platform_send_def split: prod.splits)
  next
    case True
    then obtain r1 k1 where m: "try_send_mmsg U ds (us_kernel s) = Some (r1, k1)"
      using p by (auto simp: platform_send_def split: option.splits)
    have t: "took_or_none ds (us_kernel s) (r1, k1)" using try_send_mmsg_took [OF m] .
    show ?thesis
    proof (cases "r1 = Inl Unavailable")
      case False
      then show ?thesis using p True m took_or_none_took [OF t] by (auto simp: platform_send_def)
    next
      case unavailable: True
      then have "portable_send U ds 0 k1 = (r, us_kernel s')" using p True m by (auto simp: platform_send_def split: prod.splits)
      then show ?thesis using portable [of k1] t unavailable
        by (auto simp: took_def took_or_none_def split: sum.splits if_splits)
    qed
  qed
qed

lemma send_rest_sent:
  assumes "send_rest U ds s = Some (r, s')"
  shows "case r of Inr _ \<Rightarrow> ud_sent U (us_kernel s') = ud_sent U (us_kernel s) @ ds
    | Inl e \<Rightarrow> \<exists>n. ud_sent U (us_kernel s') = ud_sent U (us_kernel s) @ take n ds"
proof -
  define P where "P = (\<lambda>(W :: 'k udp_ops) ds (s :: 'k udp_socket) (y :: (io_error + unit) \<times> 'k udp_socket). W = U \<longrightarrow> (case fst y of
      Inr _ \<Rightarrow> ud_sent U (us_kernel (snd y)) = ud_sent U (us_kernel s) @ ds
    | Inl e \<Rightarrow> \<exists>n. ud_sent U (us_kernel (snd y)) = ud_sent U (us_kernel s) @ take n ds))"
  have "P W ds s y" if "send_rest W ds s = Some y" for W y
  proof (rule send_rest.raw_induct [OF _ that, where P = P], goal_cases)
    case (1 f W ds s y)
    note IH = "1"(1) and body = "1"(2)
    show ?case
    proof (cases "W = U \<and> ds \<noteq> []")
      case False
      then show ?thesis using body by (auto simp: P_def split: if_splits)
    next
      case True
      obtain a s1 where t: "try_send_connected U ds s = Some (a, s1)"
        using body True by (auto split: option.splits)
      have took: "took ds (us_kernel s) (a, us_kernel s1)" using try_send_connected_took [OF t] .
      show ?thesis
      proof (cases a)
        case (Inl e)
        show ?thesis
        proof (cases "e = Would_block")
          case True
          then have "P U ds s1 y" using IH body t Inl \<open>W = U \<and> ds \<noteq> []\<close> by auto
          moreover have "ud_sent U (us_kernel s1) = ud_sent U (us_kernel s)" using took Inl True by (simp add: took_def)
          ultimately show ?thesis by (auto simp: P_def split: sum.splits)
        next
          case False
          then show ?thesis using body t Inl took \<open>W = U \<and> ds \<noteq> []\<close> by (auto simp: P_def took_def)
        qed
      next
        case (Inr n)
        then have "P U (drop n ds) s1 y" using IH body t \<open>W = U \<and> ds \<noteq> []\<close> by auto
        moreover have "ud_sent U (us_kernel s1) = ud_sent U (us_kernel s) @ take n ds" using took Inr by (simp add: took_def)
        moreover have "take n ds @ take m (drop n ds) = take (n + m) ds" for m by (simp add: take_add)
        ultimately show ?thesis by (auto simp: P_def split: sum.splits)
      qed
    qed
  qed
  from this [OF assms] show ?thesis by (simp add: P_def split: sum.splits)
qed

end

lemma send_connected_sent:
  assumes "udp_send_ok U" "send_connected U ds s = Some (Inr u, s')"
  shows "ud_sent U (us_kernel s') = ud_sent U (us_kernel s) @ ds"
  using udp_socket_laws.send_rest_sent [OF udp_socket_laws.intro [OF assms(1)], of ds s "Inr u" s'] assms(2)
  by (auto simp: send_connected_def validate_batch_len_def split: if_splits)

text \<open>
  A socket that makes progress: whenever a call is interrupted or finds no room, something that can
  only happen finitely often has happened.
\<close>

definition udp_unblocks :: "'k udp_ops \<Rightarrow> ('k \<Rightarrow> nat) \<Rightarrow> bool" where
  "udp_unblocks U pend \<longleftrightarrow>
     (\<forall>ds k r k'. ud_send_mmsg U ds k = (r, k') \<longrightarrow>
        (if r = Inl Interrupted \<or> r = Inl Would_block \<or> r = Inr 0 then pend k' < pend k else pend k' \<le> pend k))
     \<and> (\<forall>d k r k'. ud_try_send U d k = (r, k') \<longrightarrow>
        (if r = Inl Would_block then pend k' < pend k else pend k' \<le> pend k))"

locale udp_socket_live = udp_socket_laws U for U :: "'k udp_ops" +
  fixes pend :: "'k \<Rightarrow> nat"
  assumes unblocks: "udp_unblocks U pend"
begin

lemma mmsg_pend: "ud_send_mmsg U ds k = (r, k') \<Longrightarrow>
    (if r = Inl Interrupted \<or> r = Inl Would_block \<or> r = Inr 0 then pend k' < pend k else pend k' \<le> pend k)"
  using unblocks unfolding udp_unblocks_def by blast

lemma single_pend: "ud_try_send U d k = (r, k') \<Longrightarrow> (if r = Inl Would_block then pend k' < pend k else pend k' \<le> pend k)"
  using unblocks unfolding udp_unblocks_def by blast

definition progress :: "'k \<Rightarrow> (io_error + nat) \<times> 'k \<Rightarrow> bool" where
  "progress k = (\<lambda>(r, k'). if r = Inl Would_block then pend k' < pend k else pend k' \<le> pend k)"

lemma try_send_mmsg_returns: "\<exists>r. try_send_mmsg U ds k = Some r \<and> progress k r"
proof (induction "pend k" arbitrary: k rule: less_induct)
  case less
  obtain a k' where s: "ud_send_mmsg U ds k = (a, k')" by fastforce
  show ?case
  proof (cases "ds = []")
    case True
    then show ?thesis by (subst try_send_mmsg.simps) (simp add: progress_def)
  next
    case False
    show ?thesis
    proof (cases "a = Inl Interrupted")
      case True
      then have "pend k' < pend k" using mmsg_pend [OF s] by simp
      then obtain r where "try_send_mmsg U ds k' = Some r" "progress k' r" using less by blast
      moreover have "progress k r" using \<open>progress k' r\<close> \<open>pend k' < pend k\<close> by (auto simp: progress_def split: if_splits)
      ultimately show ?thesis using s True False by (subst try_send_mmsg.simps) simp
    next
      case ready: False
      then show ?thesis using s False mmsg_pend [OF s]
        by (subst try_send_mmsg.simps) (auto simp: progress_def split: sum.splits if_splits)
    qed
  qed
qed

lemma portable_send_progress: "portable_send U ds n k = (r, k') \<Longrightarrow> progress k (r, k')"
proof (induction ds arbitrary: n k)
  case (Cons d ds)
  obtain a k1 where s: "ud_try_send U d k = (a, k1)" by fastforce
  show ?case
  proof (cases a)
    case (Inl e)
    then show ?thesis using Cons.prems s single_pend [OF s] by (auto simp: progress_def split: if_splits)
  next
    case (Inr len)
    then show ?thesis
      using Cons.prems s single_pend [OF s] Cons.IH [of "n + 1" k1] by (auto simp: progress_def split: if_splits)
  qed
qed (auto simp: progress_def)

lemma try_send_connected_returns:
  "\<exists>r s'. try_send_connected U ds s = Some (r, s') \<and> progress (us_kernel s) (r, us_kernel s')"
proof (cases "length ds \<le> MAX_DATAGRAMS")
  case False
  then show ?thesis by (simp add: try_send_connected_def validate_batch_len_def progress_def)
next
  case True
  have "\<exists>r s'. platform_send U ds s = Some (r, s') \<and> progress (us_kernel s) (r, us_kernel s')"
  proof (cases "us_send_mmsg s")
    case False
    then show ?thesis
      using portable_send_progress [of ds 0 "us_kernel s"] by (auto simp: platform_send_def split: prod.splits)
  next
    case enabled: True
    obtain r k where m: "try_send_mmsg U ds (us_kernel s) = Some (r, k)" "progress (us_kernel s) (r, k)"
      using try_send_mmsg_returns [of ds "us_kernel s"] by auto
    show ?thesis
    proof (cases "r = Inl Unavailable")
      case True
      then show ?thesis using enabled m portable_send_progress [of ds 0 k]
        by (auto simp: platform_send_def progress_def split: prod.splits if_splits)
    next
      case False
      then show ?thesis using enabled m by (simp add: platform_send_def)
    qed
  qed
  then show ?thesis using True by (simp add: try_send_connected_def validate_batch_len_def)
qed

lemma send_rest_returns: "\<exists>r. send_rest U ds s = Some r"
proof (induction "pend (us_kernel s) + length ds" arbitrary: ds s rule: less_induct)
  case less
  show ?case
  proof (cases "ds = []")
    case True
    then show ?thesis by (subst send_rest.simps) simp
  next
    case False
    obtain a s1 where t: "try_send_connected U ds s = Some (a, s1)" "progress (us_kernel s) (a, us_kernel s1)"
      using try_send_connected_returns by blast
    have took: "took ds (us_kernel s) (a, us_kernel s1)" using try_send_connected_took [OF t(1)] .
    show ?thesis
    proof (cases a)
      case (Inl e)
      then show ?thesis using t less [of s1 ds] False by (subst send_rest.simps) (auto simp: progress_def)
    next
      case (Inr n)
      then have "0 < n" "n \<le> length ds" "pend (us_kernel s1) \<le> pend (us_kernel s)" using took t(2) False by (auto simp: took_def progress_def)
      then have "pend (us_kernel s1) + length (drop n ds) < pend (us_kernel s) + length ds" by simp
      then show ?thesis using less [of s1 "drop n ds"] t Inr False by (subst send_rest.simps) auto
    qed
  qed
qed

end

text \<open>
  A batch is sent once and in order, and sending it terminates: on a socket that makes progress the
  call returns; when it returns success the socket took exactly the datagrams of the batch, in their
  order, and when it returns an error it took a prefix of them, through interruptions, partial
  batches and the loss of the system call for many messages.
\<close>

theorem batch_is_sent_once_in_order:
  assumes "udp_send_ok U" "udp_unblocks U pend"
  shows "case send_connected U datagrams s of
      None \<Rightarrow> False
    | Some (Inr _, s') \<Rightarrow> ud_sent U (us_kernel s') = ud_sent U (us_kernel s) @ datagrams
    | Some (Inl e, s') \<Rightarrow> \<exists>n. ud_sent U (us_kernel s') = ud_sent U (us_kernel s) @ take n datagrams"
proof -
  have live: "udp_socket_live U pend"
    by (intro udp_socket_live.intro udp_socket_laws.intro udp_socket_live_axioms.intro assms)
  have laws: "udp_socket_laws U" by (intro udp_socket_laws.intro assms)
  show ?thesis
  proof (cases "length datagrams \<le> MAX_DATAGRAMS")
    case False
    then show ?thesis by (auto simp: send_connected_def validate_batch_len_def intro: exI [of _ 0])
  next
    case True
    obtain r s' where "send_rest U datagrams s = Some (r, s')"
      using udp_socket_live.send_rest_returns [OF live] by fastforce
    then show ?thesis
      using True udp_socket_laws.send_rest_sent [OF laws, of datagrams s r s']
      by (cases r) (auto simp: send_connected_def validate_batch_len_def)
  qed
qed

text \<open>A socket that blocks a given number of times and otherwise takes two messages a call.\<close>

definition example_socket :: "(nat \<times> bytes list) udp_ops" where
  "example_socket =
     \<lparr>ud_send_mmsg = (\<lambda>ds (n, log). if n > 0 then (Inl (if even n then Interrupted else Would_block), (n - 1, log))
        else if ds = [] then (Inl Invalid_input, (n, log)) else (Inr (min 2 (length ds)), (n, log @ take (min 2 (length ds)) ds))),
      ud_try_send = (\<lambda>d (n, log). (Inr (length d), (n, log @ [d]))),
      ud_recv_mmsg = (\<lambda>m k. (Inl Would_block, k)),
      ud_try_recv = (\<lambda>k. (Inl Would_block, k)),
      ud_sent = snd\<rparr>"

lemma example_socket_ok: "udp_send_ok example_socket"
  by (auto simp: udp_send_ok_def example_socket_def split: if_splits)

lemma example_socket_unblocks: "udp_unblocks example_socket fst"
  by (auto simp: udp_unblocks_def example_socket_def split: if_splits)

interpretation example_socket: udp_socket_live example_socket fst
  by (intro udp_socket_live.intro udp_socket_laws.intro udp_socket_live_axioms.intro example_socket_ok example_socket_unblocks)

lemma batch_is_sent_once_in_order_witness:
  "case send_connected example_socket [[1], [2], [3]] \<lparr>us_send_mmsg = True, us_recv_mmsg = True, us_kernel = (2, [])\<rparr> of
      None \<Rightarrow> False
    | Some (Inr _, s') \<Rightarrow> snd (us_kernel s') = [[1], [2], [3]]
    | Some (Inl e, s') \<Rightarrow> \<exists>n. snd (us_kernel s') = take n [[1], [2], [3]]"
  using batch_is_sent_once_in_order [OF example_socket_ok example_socket_unblocks,
      where datagrams = "[[1], [2], [3]]" and s = "\<lparr>us_send_mmsg = True, us_recv_mmsg = True, us_kernel = (2, [])\<rparr>"]
  by (simp add: example_socket_def split: option.splits prod.splits sum.splits)

section \<open>Batch sizes and oversized datagrams\<close>

lemma adapt_batch_limit_bounds:
  "current \<in> {16, 32, 64, 128} \<Longrightarrow> adapt_batch_limit current received \<in> {16, 32, 64, 128}"
  by (auto simp: adapt_batch_limit_def datagram_consts)

end
