(* ===== verification/Session_Writer.thy ===== *)
theory Session_Writer
  imports Turn_Driver Obfs Selective_Fec Udp_Batch Dispatcher
begin

text \<open>
  The sending side of a session: \<open>TransportWriter\<close> and the batches of \<open>writer_loop\<close> of \<open>session.rs\<close> on
  top of \<open>send_with_duplicate\<close> and \<open>send_data_batch\<close> of \<open>turn.rs\<close>. A packet is obfuscated, given its
  ChannelData header and sent, alone with its duplicate or as part of a batch. The socket and the
  stream writer are parameters; packets of other tasks that arrive while a batch is built are not
  modelled, the next batch takes them.
\<close>

section \<open>The allocation's sending calls\<close>

datatype writer_error =
    Not_open reason
  | No_channel
  | Encode_failed channel_error
  | Socket_failed io_error
  | Stream_closed
  | Wrap_failed obfs_error
  | Budget_exhausted
  | Payload_exceeds nat

datatype ('k, 'w) outbound = Udp_out "'k udp_socket" | Stream_out 'w

record ('r, 'k, 'w) writer_env =
  we_rng :: "'r rng_ops"
  we_cipher :: obfs_cipher
  we_config :: obfs_config
  we_udp :: "'k udp_ops"
  we_write_data :: "bytes \<Rightarrow> 'w \<Rightarrow> bool \<times> 'w"
  we_written :: "'w \<Rightarrow> bytes list"
  we_fec_enabled :: bool
  we_clock :: "nat \<Rightarrow> instant"

text \<open>Everything the relay has been sent, in order.\<close>

definition wire :: "('r, 'k, 'w) writer_env \<Rightarrow> ('k, 'w) outbound \<Rightarrow> bytes list" where
  "wire env ob = (case ob of Udp_out s \<Rightarrow> ud_sent (we_udp env) (us_kernel s) | Stream_out w \<Rightarrow> we_written env w)"

text \<open>The socket's \<open>send\<close> waits until it is writable.\<close>

partial_function (option) socket_send :: "'k udp_ops \<Rightarrow> bytes \<Rightarrow> 'k \<Rightarrow> ((io_error + nat) \<times> 'k) option" where
  "socket_send U d k =
     (case ud_try_send U d k of
        (r, k) \<Rightarrow> if r = Inl Would_block then socket_send U d k else Some (r, k))"

definition check_open :: "driver \<Rightarrow> writer_error + u16" where
  "check_open d =
     (case ensure_open d of
        Some r \<Rightarrow> Inl (Not_open r)
      | None \<Rightarrow> if dr_channel d = 0 then Inl No_channel else Inr (dr_channel d))"

definition send_with_duplicate :: "('r, 'k, 'w) writer_env \<Rightarrow> driver \<Rightarrow> packet_buf \<Rightarrow> bool \<Rightarrow> ('k, 'w) outbound
    \<Rightarrow> ((writer_error + unit) \<times> ('k, 'w) outbound) option" where
  "send_with_duplicate env d p duplicate ob =
     (case check_open d of
        Inl e \<Rightarrow> Some (Inl e, ob)
      | Inr channel \<Rightarrow>
          case encode_channel_data p channel of
            Inl e \<Rightarrow> Some (Inl (Encode_failed e), ob)
          | Inr p \<Rightarrow>
              case ob of
                Udp_out s \<Rightarrow>
                  (case socket_send (we_udp env) (pb_slice p) (us_kernel s) of
                     None \<Rightarrow> None
                   | Some (Inl e, k) \<Rightarrow> Some (Inl (Socket_failed e), Udp_out (s\<lparr>us_kernel := k\<rparr>))
                   | Some (Inr _, k) \<Rightarrow>
                       let k = (if duplicate then snd (ud_try_send (we_udp env) (pb_slice p) k) else k)
                       in Some (Inr (), Udp_out (s\<lparr>us_kernel := k\<rparr>)))
              | Stream_out w \<Rightarrow>
                  (case we_write_data env (pb_slice p) w of
                     (True, w) \<Rightarrow> Some (Inr (), Stream_out w)
                   | (False, w) \<Rightarrow> Some (Inl Stream_closed, Stream_out w)))"

text \<open>\<open>Inr\<close> the encoded packets, when all can be encoded.\<close>

fun encode_all :: "u16 \<Rightarrow> packet_buf list \<Rightarrow> channel_error + packet_buf list" where
  "encode_all channel [] = Inr []"
| "encode_all channel (p # ps) =
     (case encode_channel_data p channel of
        Inl e \<Rightarrow> Inl e
      | Inr q \<Rightarrow> (case encode_all channel ps of Inl e \<Rightarrow> Inl e | Inr qs \<Rightarrow> Inr (q # qs)))"

function send_chunks :: "'k udp_ops \<Rightarrow> bytes list \<Rightarrow> 'k udp_socket \<Rightarrow> ((io_error + unit) \<times> 'k udp_socket) option" where
  "send_chunks U ds s =
     (if ds = [] then Some (Inr (), s)
      else case send_connected U (take MAX_DATAGRAMS ds) s of
        None \<Rightarrow> None
      | Some (Inl e, s) \<Rightarrow> Some (Inl e, s)
      | Some (Inr _, s) \<Rightarrow> send_chunks U (drop MAX_DATAGRAMS ds) s)"
  by pat_completeness auto
termination
  by (relation "measure (\<lambda>(U, ds, s). length ds)") (auto simp: MAX_DATAGRAMS_def)

declare send_chunks.simps [simp del]

fun stream_all :: "('r, 'k, 'w) writer_env \<Rightarrow> bytes list \<Rightarrow> 'w \<Rightarrow> (writer_error + unit) \<times> 'w" where
  "stream_all env [] w = (Inr (), w)"
| "stream_all env (d # ds) w =
     (case we_write_data env d w of
        (True, w) \<Rightarrow> stream_all env ds w
      | (False, w) \<Rightarrow> (Inl Stream_closed, w))"

definition send_data_batch :: "('r, 'k, 'w) writer_env \<Rightarrow> driver \<Rightarrow> packet_buf list \<Rightarrow> ('k, 'w) outbound
    \<Rightarrow> ((writer_error + unit) \<times> ('k, 'w) outbound) option" where
  "send_data_batch env d packets ob =
     (if packets = [] then Some (Inr (), ob)
      else case check_open d of
        Inl e \<Rightarrow> Some (Inl e, ob)
      | Inr channel \<Rightarrow>
          case encode_all channel packets of
            Inl e \<Rightarrow> Some (Inl (Encode_failed e), ob)
          | Inr packets \<Rightarrow>
              case ob of
                Udp_out s \<Rightarrow>
                  (case send_chunks (we_udp env) (map pb_slice packets) s of
                     None \<Rightarrow> None
                   | Some (Inl e, s) \<Rightarrow> Some (Inl (Socket_failed e), Udp_out s)
                   | Some (Inr _, s) \<Rightarrow> Some (Inr (), Udp_out s))
              | Stream_out w \<Rightarrow>
                  (case stream_all env (map pb_slice packets) w of (r, w) \<Rightarrow> Some (r, Stream_out w)))"

section \<open>The transport writer\<close>

record ('r, 'k, 'w) transport_writer =
  tw_state :: "'r obfs_state"
  tw_budget :: budget
  tw_pending :: "packet_buf list"
  tw_mmsg :: "packet_buf list"
  tw_out :: "('k, 'w) outbound"
  tw_tick :: nat

definition prepare_packet :: "('r, 'k, 'w) writer_env \<Rightarrow> packet_buf \<Rightarrow> ('r, 'k, 'w) transport_writer
    \<Rightarrow> (writer_error + packet_buf \<times> bool) \<times> ('r, 'k, 'w) transport_writer" where
  "prepare_packet env p w =
     (let now = we_clock env (tw_tick w);
          (duplicate, budget) =
            (if we_fec_enabled env \<and> should_duplicate (pb_slice p) then allow now (tw_budget w) else (False, tw_budget w));
          w = w\<lparr>tw_budget := budget, tw_tick := tw_tick w + 1\<rparr>
      in case wrap (we_rng env) (we_cipher env) p (we_config env) now (tw_state w) of
           (Inl e, st) \<Rightarrow> (Inl (Wrap_failed e), w\<lparr>tw_state := st\<rparr>)
         | (Inr p, st) \<Rightarrow> (Inr (p, duplicate), w\<lparr>tw_state := st\<rparr>))"

definition send_packet :: "('r, 'k, 'w) writer_env \<Rightarrow> driver \<Rightarrow> packet_buf \<Rightarrow> ('r, 'k, 'w) transport_writer
    \<Rightarrow> ((writer_error + unit) \<times> ('r, 'k, 'w) transport_writer) option" where
  "send_packet env d p w =
     (case prepare_packet env p w of
        (Inl e, w) \<Rightarrow> Some (Inl e, w)
      | (Inr (p, duplicate), w) \<Rightarrow>
          map_option (\<lambda>(r, ob). (r, w\<lparr>tw_out := ob\<rparr>)) (send_with_duplicate env d p duplicate (tw_out w)))"

definition queue_data :: "packet_buf \<Rightarrow> ('r, 'k, 'w) transport_writer \<Rightarrow> ('r, 'k, 'w) transport_writer" where
  "queue_data p w = w\<lparr>tw_pending := tw_pending w @ [p]\<rparr>"

definition flush_mmsg_data :: "('r, 'k, 'w) writer_env \<Rightarrow> driver \<Rightarrow> ('r, 'k, 'w) transport_writer
    \<Rightarrow> ((writer_error + unit) \<times> ('r, 'k, 'w) transport_writer) option" where
  "flush_mmsg_data env d w =
     (if tw_mmsg w = [] then Some (Inr (), w)
      else case send_data_batch env d (tw_mmsg w) (tw_out w) of
        None \<Rightarrow> None
      | Some (Inl e, ob) \<Rightarrow> Some (Inl e, w\<lparr>tw_out := ob\<rparr>)
      | Some (Inr _, ob) \<Rightarrow> Some (Inr (), w\<lparr>tw_mmsg := [], tw_out := ob\<rparr>))"

text \<open>The loop over the queued packets.\<close>

function flush_loop :: "('r, 'k, 'w) writer_env \<Rightarrow> driver \<Rightarrow> packet_buf list \<Rightarrow> ('r, 'k, 'w) transport_writer
    \<Rightarrow> ((writer_error + unit) \<times> ('r, 'k, 'w) transport_writer) option" where
  "flush_loop env d [] w = flush_mmsg_data env d (w\<lparr>tw_pending := []\<rparr>)"
| "flush_loop env d (p # ps) w =
     (case prepare_packet env p (w\<lparr>tw_pending := ps\<rparr>) of
        (Inl e, w) \<Rightarrow> Some (Inl e, w)
      | (Inr (p, True), w) \<Rightarrow>
          (case flush_mmsg_data env d w of
             None \<Rightarrow> None
           | Some (Inl e, w) \<Rightarrow> Some (Inl e, w)
           | Some (Inr _, w) \<Rightarrow>
               (case send_with_duplicate env d p True (tw_out w) of
                  None \<Rightarrow> None
                | Some (Inl e, ob) \<Rightarrow> Some (Inl e, w\<lparr>tw_out := ob\<rparr>)
                | Some (Inr _, ob) \<Rightarrow> flush_loop env d ps (w\<lparr>tw_out := ob\<rparr>)))
      | (Inr (p, False), w) \<Rightarrow>
          let w = w\<lparr>tw_mmsg := tw_mmsg w @ [p]\<rparr> in
          if length (tw_mmsg w) = datagram_batch Bulk then
            (case flush_mmsg_data env d w of
               None \<Rightarrow> None
             | Some (Inl e, w) \<Rightarrow> Some (Inl e, w)
             | Some (Inr _, w) \<Rightarrow> flush_loop env d ps w)
          else flush_loop env d ps w)"
  by pat_completeness auto
termination
  by (relation "measure (\<lambda>(env, d, ps, w). length ps)") auto

definition flush_queued_data :: "('r, 'k, 'w) writer_env \<Rightarrow> driver \<Rightarrow> ('r, 'k, 'w) transport_writer
    \<Rightarrow> ((writer_error + unit) \<times> ('r, 'k, 'w) transport_writer) option" where
  "flush_queued_data env d w =
     (case tw_pending w of
        [p] \<Rightarrow> send_packet env d p (w\<lparr>tw_pending := []\<rparr>)
      | ps \<Rightarrow> flush_loop env d ps w)"

definition send_bytes :: "('r, 'k, 'w) writer_env \<Rightarrow> driver \<Rightarrow> packet_buf option \<Rightarrow> bytes \<Rightarrow> ('r, 'k, 'w) transport_writer
    \<Rightarrow> ((writer_error + unit) \<times> ('r, 'k, 'w) transport_writer) option" where
  "send_bytes env d acquired bs w =
     (case acquired of
        None \<Rightarrow> Some (Inl Budget_exhausted, w)
      | Some p \<Rightarrow>
          if length bs > read_area_len then Some (Inl (Payload_exceeds (length bs)), w)
          else case set_read_len (length bs) (write_read_area bs p) of
                 Inl _ \<Rightarrow> Some (Inl (Payload_exceeds (length bs)), w)
               | Inr p \<Rightarrow> send_packet env d p w)"

section \<open>Batches\<close>

definition writer_batch_can_extend :: "packet_class \<Rightarrow> bool \<Rightarrow> bool \<Rightarrow> bool" where
  "writer_batch_can_extend class latency_pending priority_pending =
     (case class of Small \<Rightarrow> True | Medium \<Rightarrow> \<not> latency_pending | Bulk \<Rightarrow> \<not> latency_pending \<and> \<not> priority_pending)"

type_synonym 'q writer_queues = "'q packet_queue \<times> 'q packet_queue \<times> 'q packet_queue"

definition class_try_recv :: "(queued_packet, 'q) queue_ops \<Rightarrow> packet_class \<Rightarrow> 'q writer_queues \<Rightarrow> packet_buf option \<times> 'q writer_queues" where
  "class_try_recv Q class = (\<lambda>(latency, priority, bulk).
     case class of
       Small \<Rightarrow> (case try_recv Q latency of (r, q) \<Rightarrow> (r, q, priority, bulk))
     | Medium \<Rightarrow> (case try_recv Q priority of (r, q) \<Rightarrow> (r, latency, q, bulk))
     | Bulk \<Rightarrow> (case try_recv Q bulk of (r, q) \<Rightarrow> (r, latency, priority, q)))"

primrec extend_batch :: "nat \<Rightarrow> (queued_packet, 'q) queue_ops \<Rightarrow> packet_class \<Rightarrow> 'q writer_queues \<Rightarrow> packet_buf list \<times> 'q writer_queues" where
  "extend_batch 0 Q class qs = ([], qs)"
| "extend_batch (Suc n) Q class qs =
     (if \<not> writer_batch_can_extend class (has_queued_packet Q (fst qs)) (has_queued_packet Q (fst (snd qs))) then ([], qs)
      else case class_try_recv Q class qs of
        (None, qs) \<Rightarrow> ([], qs)
      | (Some p, qs) \<Rightarrow> (case extend_batch n Q class qs of (ps, qs) \<Rightarrow> (p # ps, qs)))"

definition send_writer_batch :: "('r, 'k, 'w) writer_env \<Rightarrow> driver \<Rightarrow> (queued_packet, 'q) queue_ops
    \<Rightarrow> packet_buf \<Rightarrow> packet_class \<Rightarrow> 'q writer_queues \<Rightarrow> ('r, 'k, 'w) transport_writer
    \<Rightarrow> ((writer_error + nat) \<times> 'q writer_queues \<times> ('r, 'k, 'w) transport_writer) option" where
  "send_writer_batch env d Q first class qs w =
     (case extend_batch (datagram_batch class - 1) Q class qs of
        (others, qs) \<Rightarrow>
          (case flush_queued_data env d (fold queue_data others (queue_data first w)) of
             None \<Rightarrow> None
           | Some (Inl e, w) \<Rightarrow> Some (Inl e, qs, w)
           | Some (Inr _, w) \<Rightarrow> Some (Inr (length others + 1), qs, w)))"

definition next_writer_packet :: "(queued_packet, 'q) queue_ops \<Rightarrow> 'q writer_queues \<Rightarrow> (packet_buf \<times> packet_class) option \<times> 'q writer_queues" where
  "next_writer_packet Q qs =
     (case class_try_recv Q Small qs of
        (Some p, qs) \<Rightarrow> (Some (p, Small), qs)
      | (None, qs) \<Rightarrow>
          case class_try_recv Q Medium qs of
            (Some p, qs) \<Rightarrow> (Some (p, Medium), qs)
          | (None, qs) \<Rightarrow>
              case class_try_recv Q Bulk qs of
                (Some p, qs) \<Rightarrow> (Some (p, Bulk), qs)
              | (None, qs) \<Rightarrow> (None, qs))"

section \<open>Nothing is lost or reordered\<close>

definition writer_env_ok :: "('r, 'k, 'w) writer_env \<Rightarrow> bool" where
  "writer_env_ok env \<longleftrightarrow> udp_send_ok (we_udp env)
     \<and> (\<forall>d w w'. we_write_data env d w = (True, w') \<longrightarrow> we_written env w' = we_written env w @ [d])"

text \<open>A datagram that carries a wrapped packet, and the datagrams one queued packet becomes.\<close>

definition encoded :: "u16 \<Rightarrow> packet_buf \<Rightarrow> bytes \<Rightarrow> bool" where
  "encoded channel q f \<longleftrightarrow> (\<exists>r. encode_channel_data q channel = Inr r \<and> f = pb_slice r)"

definition carries :: "('r, 'k, 'w) writer_env \<Rightarrow> u16 \<Rightarrow> packet_buf \<Rightarrow> bytes \<Rightarrow> bool" where
  "carries env channel p f \<longleftrightarrow>
     (\<exists>now st q st'. wrap (we_rng env) (we_cipher env) p (we_config env) now st = (Inr q, st') \<and> encoded channel q f)"

definition sent_once_or_twice :: "('r, 'k, 'w) writer_env \<Rightarrow> u16 \<Rightarrow> packet_buf \<Rightarrow> bytes list \<Rightarrow> bool" where
  "sent_once_or_twice env channel p fs \<longleftrightarrow> (\<exists>f. carries env channel p f \<and> (fs = [f] \<or> fs = [f, f]))"

lemma socket_send_sent:
  assumes "udp_send_ok U" "socket_send U d k = Some (Inr n, k')"
  shows "ud_sent U k' = ud_sent U k @ [d]"
proof -
  define P where "P = (\<lambda>(W :: 'a udp_ops) d k (y :: (io_error + nat) \<times> 'a).
      W = U \<longrightarrow> (\<forall>n. fst y = Inr n \<longrightarrow> ud_sent U (snd y) = ud_sent U k @ [d]))"
  have "P U d k (Inr n, k')"
  proof (rule socket_send.raw_induct [OF _ assms(2), where P = P], goal_cases)
    case (1 f W d k y)
    obtain r k1 where s: "ud_try_send W d k = (r, k1)" by fastforce
    have single: "W = U \<Longrightarrow> (case r of Inr n \<Rightarrow> ud_sent U k1 = ud_sent U k @ [d] | Inl e \<Rightarrow> ud_sent U k1 = ud_sent U k)"
      using assms(1) s unfolding udp_send_ok_def by (cases r) fastforce+
    show ?case
    proof (cases "r = Inl Would_block")
      case True
      then have "P W d k1 y" using 1 s by simp
      then show ?thesis using single True by (simp add: P_def)
    next
      case False
      then show ?thesis using 1(2) s single by (auto simp: P_def)
    qed
  qed
  then show ?thesis by (simp add: P_def)
qed

lemma check_open_channel: "check_open d = Inr channel \<Longrightarrow> channel = dr_channel d"
  by (simp add: check_open_def split: option.splits if_splits)

lemma try_send_copy:
  assumes "udp_send_ok U"
  shows "ud_sent U (snd (ud_try_send U d k)) = ud_sent U k @ [d] \<or> ud_sent U (snd (ud_try_send U d k)) = ud_sent U k"
  using assms unfolding udp_send_ok_def by (cases "ud_try_send U d k"; cases "fst (ud_try_send U d k)") fastforce+

lemma send_with_duplicate_sent:
  assumes "writer_env_ok env" "send_with_duplicate env d p duplicate ob = Some (Inr (), ob')"
  shows "\<exists>f. encoded (dr_channel d) p f \<and> (wire env ob' = wire env ob @ [f] \<or> wire env ob' = wire env ob @ [f, f])"
proof -
  obtain q where q: "encode_channel_data p (dr_channel d) = Inr q"
    using assms(2) by (auto simp: send_with_duplicate_def dest: check_open_channel split: sum.splits)
  have enc: "encoded (dr_channel d) p (pb_slice q)" using q by (auto simp: encoded_def)
  have chan: "check_open d = Inr (dr_channel d)"
    using assms(2) by (auto simp: send_with_duplicate_def dest: check_open_channel split: sum.splits)
  show ?thesis
  proof (cases ob)
    case (Udp_out s)
    then obtain n k where k: "socket_send (we_udp env) (pb_slice q) (us_kernel s) = Some (Inr n, k)"
      "ob' = Udp_out (s\<lparr>us_kernel := if duplicate then snd (ud_try_send (we_udp env) (pb_slice q) k) else k\<rparr>)"
      using assms(2) chan q by (auto simp: send_with_duplicate_def Let_def split: option.splits sum.splits)
    have ok: "udp_send_ok (we_udp env)" using assms(1) by (simp add: writer_env_ok_def)
    have one: "ud_sent (we_udp env) k = ud_sent (we_udp env) (us_kernel s) @ [pb_slice q]" by (rule socket_send_sent [OF ok k(1)])
    show ?thesis
      using enc one try_send_copy [OF ok, of "pb_slice q" k] Udp_out k(2) by (cases duplicate) (auto simp: wire_def)
  next
    case (Stream_out w)
    then obtain w' where "we_write_data env (pb_slice q) w = (True, w')" "ob' = Stream_out w'"
      using assms(2) chan q by (auto simp: send_with_duplicate_def split: prod.splits bool.splits)
    then show ?thesis using enc assms(1) Stream_out by (auto simp: wire_def writer_env_ok_def)
  qed
qed

lemma send_chunks_sent:
  assumes "udp_send_ok U"
  shows "send_chunks U ds s = Some (Inr (), s') \<Longrightarrow> ud_sent U (us_kernel s') = ud_sent U (us_kernel s) @ ds"
proof (induction "length ds" arbitrary: ds s rule: less_induct)
  case less
  show ?case
  proof (cases "ds = []")
    case True
    then show ?thesis using less.prems by (simp add: send_chunks.simps [of U "[]"])
  next
    case False
    then obtain s1 where s1: "send_connected U (take MAX_DATAGRAMS ds) s = Some (Inr (), s1)"
      "send_chunks U (drop MAX_DATAGRAMS ds) s1 = Some (Inr (), s')"
      using less.prems by (subst (asm) send_chunks.simps) (auto split: option.splits sum.splits)
    have "length (drop MAX_DATAGRAMS ds) < length ds" using False by (simp add: MAX_DATAGRAMS_def)
    from less.hyps [OF this s1(2)] show ?thesis
      using send_connected_sent [OF assms s1(1)] by simp
  qed
qed

lemma stream_all_sent:
  assumes "writer_env_ok env"
  shows "stream_all env ds w = (Inr (), w') \<Longrightarrow> we_written env w' = we_written env w @ ds"
  using assms by (induction env ds w rule: stream_all.induct) (auto simp: writer_env_ok_def split: prod.splits bool.splits)

lemma encode_all_encoded:
  "encode_all channel ps = Inr qs \<Longrightarrow> list_all2 (encoded channel) ps (map pb_slice qs)"
  by (induction channel ps arbitrary: qs rule: encode_all.induct) (auto simp: encoded_def split: sum.splits)

lemma send_data_batch_sent:
  assumes "writer_env_ok env" "send_data_batch env d packets ob = Some (Inr (), ob')"
  shows "\<exists>fs. list_all2 (encoded (dr_channel d)) packets fs \<and> wire env ob' = wire env ob @ fs"
proof (cases "packets = []")
  case True
  then show ?thesis using assms(2) by (simp add: send_data_batch_def)
next
  case False
  then obtain qs where q: "check_open d = Inr (dr_channel d)" "encode_all (dr_channel d) packets = Inr qs"
    using assms(2) by (auto simp: send_data_batch_def dest: check_open_channel split: sum.splits)
  show ?thesis
  proof (cases ob)
    case (Udp_out s)
    then obtain s' where s': "send_chunks (we_udp env) (map pb_slice qs) s = Some (Inr (), s')" "ob' = Udp_out s'"
      using assms(2) False q by (auto simp: send_data_batch_def split: option.splits sum.splits)
    have "udp_send_ok (we_udp env)" using assms(1) by (simp add: writer_env_ok_def)
    from send_chunks_sent [OF this s'(1)] show ?thesis
      using encode_all_encoded [OF q(2)] Udp_out s'(2) by (auto simp: wire_def)
  next
    case (Stream_out w)
    then obtain w' where "stream_all env (map pb_slice qs) w = (Inr (), w')" "ob' = Stream_out w'"
      using assms(2) False q by (auto simp: send_data_batch_def split: prod.splits)
    then show ?thesis
      using encode_all_encoded [OF q(2)] Stream_out stream_all_sent [OF assms(1)] by (auto simp: wire_def)
  qed
qed

lemma flush_mmsg_sent:
  assumes "writer_env_ok env" "flush_mmsg_data env d w = Some (Inr (), w')"
  shows "\<exists>fs. list_all2 (encoded (dr_channel d)) (tw_mmsg w) fs \<and> wire env (tw_out w') = wire env (tw_out w) @ fs
    \<and> tw_mmsg w' = [] \<and> tw_pending w' = tw_pending w"
proof (cases "tw_mmsg w = []")
  case True
  then show ?thesis using assms(2) by (simp add: flush_mmsg_data_def)
next
  case False
  then obtain ob where "send_data_batch env d (tw_mmsg w) (tw_out w) = Some (Inr (), ob)" "w' = w\<lparr>tw_mmsg := [], tw_out := ob\<rparr>"
    using assms(2) by (auto simp: flush_mmsg_data_def split: option.splits sum.splits)
  then show ?thesis using send_data_batch_sent [OF assms(1)] by fastforce
qed

lemma prepare_packet_wrapped:
  assumes "prepare_packet env p w = (Inr (q, duplicate), w')"
  shows "\<exists>now st st'. wrap (we_rng env) (we_cipher env) p (we_config env) now st = (Inr q, st')"
    and "tw_mmsg w' = tw_mmsg w" "tw_out w' = tw_out w" "tw_pending w' = tw_pending w"
  using assms by (auto simp: prepare_packet_def Let_def split: prod.splits sum.splits)

lemma carriesI:
  "prepare_packet env p w = (Inr (q, duplicate), w') \<Longrightarrow> encoded channel q f \<Longrightarrow> carries env channel p f"
  using prepare_packet_wrapped(1) unfolding carries_def by blast

definition flushed :: "('r, 'k, 'w) writer_env \<Rightarrow> driver \<Rightarrow> packet_buf list \<Rightarrow> ('r, 'k, 'w) transport_writer \<Rightarrow> ('r, 'k, 'w) transport_writer \<Rightarrow> bool" where
  "flushed env d ps w w' \<longleftrightarrow>
     (\<exists>fs gs. list_all2 (encoded (dr_channel d)) (tw_mmsg w) fs \<and> list_all2 (sent_once_or_twice env (dr_channel d)) ps gs
        \<and> wire env (tw_out w') = wire env (tw_out w) @ fs @ concat gs)
     \<and> tw_mmsg w' = [] \<and> tw_pending w' = []"

lemma flush_loop_sent:
  assumes "writer_env_ok env"
  shows "flush_loop env d ps w = Some (Inr (), w') \<Longrightarrow> flushed env d ps w w'"
proof (induction ps arbitrary: w)
  case Nil
  then have "flush_mmsg_data env d (w\<lparr>tw_pending := []\<rparr>) = Some (Inr (), w')" by simp
  from flush_mmsg_sent [OF assms this] show ?case by (auto simp: flushed_def)
next
  case (Cons p ps)
  obtain r w1 where prep: "prepare_packet env p (w\<lparr>tw_pending := ps\<rparr>) = (r, w1)" by fastforce
  then obtain q duplicate where r: "r = Inr (q, duplicate)"
    using Cons.prems by (cases r) auto
  note w1 = prepare_packet_wrapped(2-4) [OF prep [unfolded r], simplified]
  show ?case
  proof (cases duplicate)
    case True
    then obtain w2 ob where w2: "flush_mmsg_data env d w1 = Some (Inr (), w2)"
      and ob: "send_with_duplicate env d q True (tw_out w2) = Some (Inr (), ob)"
      and rest: "flush_loop env d ps (w2\<lparr>tw_out := ob\<rparr>) = Some (Inr (), w')"
      using Cons.prems prep r by (auto split: option.splits sum.splits)
    obtain fs where fs: "list_all2 (encoded (dr_channel d)) (tw_mmsg w) fs" "wire env (tw_out w2) = wire env (tw_out w) @ fs" "tw_mmsg w2 = []"
      using flush_mmsg_sent [OF assms w2] w1 by auto
    obtain f where f: "encoded (dr_channel d) q f" "wire env ob = wire env (tw_out w2) @ [f] \<or> wire env ob = wire env (tw_out w2) @ [f, f]"
      using send_with_duplicate_sent [OF assms ob] by blast
    obtain gs where gs: "list_all2 (sent_once_or_twice env (dr_channel d)) ps gs" "wire env (tw_out w') = wire env ob @ concat gs"
      "tw_mmsg w' = []" "tw_pending w' = []"
      using Cons.IH [OF rest] fs(3) by (auto simp: flushed_def)
    have s: "sent_once_or_twice env (dr_channel d) p [f]" "sent_once_or_twice env (dr_channel d) p [f, f]"
      using carriesI [OF prep [unfolded r] f(1)] by (auto simp: sent_once_or_twice_def)
    from f(2) show ?thesis
    proof
      assume "wire env ob = wire env (tw_out w2) @ [f]"
      then show ?thesis unfolding flushed_def using fs gs s(1)
        by (intro conjI exI [of _ fs] exI [of _ "[f] # gs"]) simp_all
    next
      assume "wire env ob = wire env (tw_out w2) @ [f, f]"
      then show ?thesis unfolding flushed_def using fs gs s(2)
        by (intro conjI exI [of _ fs] exI [of _ "[f, f] # gs"]) simp_all
    qed
  next
    case False
    let ?w = "w1\<lparr>tw_mmsg := tw_mmsg w1 @ [q]\<rparr>"
    have split: "\<exists>hs f. list_all2 (encoded (dr_channel d)) (tw_mmsg w) hs \<and> encoded (dr_channel d) q f \<and> fs = hs @ [f]"
      if "list_all2 (encoded (dr_channel d)) (tw_mmsg ?w) fs" for fs
      using that w1 by (auto simp: list_all2_append1 list_all2_Cons1)
    have whole: "flushed env d (p # ps) w w'"
      if fs: "list_all2 (encoded (dr_channel d)) (tw_mmsg ?w) fs" and gs: "list_all2 (sent_once_or_twice env (dr_channel d)) ps gs"
        and w': "wire env (tw_out w') = wire env (tw_out w) @ fs @ concat gs" "tw_mmsg w' = []" "tw_pending w' = []" for fs gs
    proof -
      obtain hs f where h: "list_all2 (encoded (dr_channel d)) (tw_mmsg w) hs" "encoded (dr_channel d) q f" "fs = hs @ [f]"
        using split [OF fs] by blast
      have "sent_once_or_twice env (dr_channel d) p [f]" using carriesI [OF prep [unfolded r] h(2)] by (auto simp: sent_once_or_twice_def)
      then show ?thesis unfolding flushed_def using h(1,3) gs w'
        by (intro conjI exI [of _ hs] exI [of _ "[f] # gs"]) simp_all
    qed
    show ?thesis
    proof (cases "length (tw_mmsg ?w) = datagram_batch Bulk")
      case True
      then obtain w2 where w2: "flush_mmsg_data env d ?w = Some (Inr (), w2)" "flush_loop env d ps w2 = Some (Inr (), w')"
        using Cons.prems prep r False by (auto simp: Let_def split: option.splits sum.splits)
      obtain fs where fs: "list_all2 (encoded (dr_channel d)) (tw_mmsg ?w) fs" "wire env (tw_out w2) = wire env (tw_out w) @ fs" "tw_mmsg w2 = []"
        using flush_mmsg_sent [OF assms w2(1)] w1 by auto
      show ?thesis
        using Cons.IH [OF w2(2)] fs whole by (auto simp: flushed_def)
    next
      case full: False
      then have "flush_loop env d ps ?w = Some (Inr (), w')"
        using Cons.prems prep r False by (simp add: Let_def)
      from Cons.IH [OF this] show ?thesis using whole w1 by (auto simp: flushed_def)
    qed
  qed
qed

lemma send_packet_sent:
  assumes "writer_env_ok env" "send_packet env d p w = Some (Inr (), w')"
  shows "\<exists>fs. sent_once_or_twice env (dr_channel d) p fs \<and> wire env (tw_out w') = wire env (tw_out w) @ fs
    \<and> tw_mmsg w' = tw_mmsg w \<and> tw_pending w' = tw_pending w"
proof -
  obtain r w1 where prep: "prepare_packet env p w = (r, w1)" by fastforce
  then obtain q duplicate where r: "r = Inr (q, duplicate)"
    using assms(2) by (cases r) (auto simp: send_packet_def)
  obtain ob where ob: "send_with_duplicate env d q duplicate (tw_out w1) = Some (Inr (), ob)" "w' = w1\<lparr>tw_out := ob\<rparr>"
    using assms(2) prep r by (auto simp: send_packet_def)
  obtain f where "encoded (dr_channel d) q f" "wire env ob = wire env (tw_out w1) @ [f] \<or> wire env ob = wire env (tw_out w1) @ [f, f]"
    using send_with_duplicate_sent [OF assms(1) ob(1)] by blast
  moreover note prepare_packet_wrapped(2-4) [OF prep [unfolded r]] carriesI [OF prep [unfolded r]]
  ultimately show ?thesis using ob(2) by (auto simp: sent_once_or_twice_def)
qed

text \<open>
  C25: The writer neither loses nor reorders: when a flush of queued packets succeeds, the relay has been
  sent, after everything before and in the order of the queue, for each packet the ChannelData message
  around its obfuscated form, once or twice in a row, and nothing is left in the writer.
\<close>

theorem writer_keeps_order:
  assumes "writer_env_ok env" "tw_mmsg w = []" "flush_queued_data env d w = Some (Inr (), w')"
  shows "\<exists>gs. list_all2 (sent_once_or_twice env (dr_channel d)) (tw_pending w) gs
    \<and> wire env (tw_out w') = wire env (tw_out w) @ concat gs \<and> tw_mmsg w' = [] \<and> tw_pending w' = []"
proof (cases "\<exists>p. tw_pending w = [p]")
  case True
  then obtain p where p: "tw_pending w = [p]" by blast
  then have "send_packet env d p (w\<lparr>tw_pending := []\<rparr>) = Some (Inr (), w')"
    using assms(3) by (simp add: flush_queued_data_def)
  from send_packet_sent [OF assms(1) this] obtain fs where "sent_once_or_twice env (dr_channel d) p fs"
    "wire env (tw_out w') = wire env (tw_out w) @ fs" "tw_mmsg w' = []" "tw_pending w' = []"
    using assms(2) by auto
  then show ?thesis using p by (intro exI [of _ "[fs]"]) simp
next
  case False
  then have "flush_loop env d (tw_pending w) w = Some (Inr (), w')"
    using assms(3) by (auto simp: flush_queued_data_def split: list.splits)
  from flush_loop_sent [OF assms(1) this] show ?thesis using assms(2) by (auto simp: flushed_def)
qed

text \<open>One queued packet over a stream that records what it is given.\<close>

definition example_writer_env :: "(unit, nat \<times> bytes list, bytes list) writer_env" where
  "example_writer_env = \<lparr>we_rng = zero_rng, we_cipher = plain_cipher, we_config = new_config Video 1, we_udp = example_socket,
     we_write_data = (\<lambda>d w. (True, w @ [d])), we_written = (\<lambda>w. w), we_fec_enabled = False, we_clock = (\<lambda>_. 0)\<rparr>"

lemma example_writer_env_ok: "writer_env_ok example_writer_env"
  by (simp add: writer_env_ok_def example_writer_env_def example_socket_ok)

definition writer_packet :: packet_buf where
  "writer_packet = \<lparr>pb_storage = replicate 2304 7, pb_start = 64, pb_end = 66\<rparr>"

definition example_writer :: "(unit, nat \<times> bytes list, bytes list) transport_writer" where
  "example_writer = \<lparr>tw_state = new_obfs_state zero_rng 0 0 (), tw_budget = new_budget 0, tw_pending = [writer_packet],
     tw_mmsg = [], tw_out = Stream_out [], tw_tick = 0\<rparr>"

lemma example_flush:
  "\<exists>w'. flush_queued_data example_writer_env (new_driver\<lparr>dr_channel := 0x4000\<rparr>) example_writer = Some (Inr (), w')"
proof -
  obtain q st' where w: "wrap zero_rng plain_cipher writer_packet (new_config Video 1) 0 (new_obfs_state zero_rng 0 0 ()) = (Inr q, st')"
    "pb_start q = 40" "pb_end q = 77"
    by (simp add: wrap_def wrap_body_def next_count_def pb_is_empty_def new_config_def prepend_def writer_packet_def
        extend_tail_def zero_rng_def new_obfs_state_def PACKET_CAPACITY_def Let_def)
  have "\<exists>r. encode_channel_data q 0x4000 = Inr r"
    using w(2,3) by (simp add: encode_channel_data_def channel_data_padding_def extend_tail_def prepend_def PACKET_CAPACITY_def
        pb_len_def write_at_def Let_def)
  then show ?thesis
    using w(1) by (auto simp: flush_queued_data_def send_packet_def prepare_packet_def send_with_duplicate_def check_open_def
        ensure_open_def example_writer_def example_writer_env_def new_driver_def Let_def)
qed

lemma example_writer_idle:
  "tw_mmsg example_writer = []" "tw_pending example_writer = [writer_packet]"
  "wire example_writer_env (tw_out example_writer) = []" "dr_channel (new_driver\<lparr>dr_channel := 0x4000\<rparr>) = 0x4000"
  by (simp_all add: example_writer_def wire_def example_writer_env_def)

lemma writer_keeps_order_witness:
  "\<exists>w' fs. flush_queued_data example_writer_env (new_driver\<lparr>dr_channel := 0x4000\<rparr>) example_writer = Some (Inr (), w')
     \<and> sent_once_or_twice example_writer_env 0x4000 writer_packet fs \<and> wire example_writer_env (tw_out w') = fs"
proof -
  obtain w' where w: "flush_queued_data example_writer_env (new_driver\<lparr>dr_channel := 0x4000\<rparr>) example_writer = Some (Inr (), w')"
    using example_flush by blast
  from writer_keeps_order [OF example_writer_env_ok example_writer_idle(1) w]
  obtain gs where "list_all2 (sent_once_or_twice example_writer_env 0x4000) [writer_packet] gs"
    "wire example_writer_env (tw_out w') = concat gs"
    by (auto simp only: example_writer_idle append_Nil)
  then have "sent_once_or_twice example_writer_env 0x4000 writer_packet (wire example_writer_env (tw_out w'))"
    by (auto simp only: list_all2_Cons1 list_all2_Nil concat.simps append_Nil2)
  with w show ?thesis by blast
qed

section \<open>Batches respect the classes\<close>

lemma length_extend_batch: "extend_batch n Q class qs = (ps, qs') \<Longrightarrow> length ps \<le> n"
proof (induction n arbitrary: qs ps qs')
  case (Suc n)
  show ?case
  proof (cases "ps = []")
    case False
    then obtain r where "class_try_recv Q class qs = r" "fst r \<noteq> None" "ps = the (fst r) # fst (extend_batch n Q class (snd r))"
      using Suc.prems by (auto split: if_splits prod.splits option.splits)
    with Suc.IH [OF surjective_pairing] show ?thesis by simp
  qed simp
qed simp

end
