(* ===== verification/Dispatch.thy ===== *)
theory Dispatch
  imports Dispatcher Selective_Fec
begin

unbundle bit_operations_syntax

text \<open>
  Where an outgoing packet goes, the second half of \<open>dispatcher.rs\<close>: the choice of a worker and of one
  of its three lanes, the replacement of an old packet when all are full, the spare copy of short
  UDP and QUIC packets over a second worker, and the batches of returned packets. Workers are
  handles into a store, as the scheduler keeps a list of workers of its own which shares
  their queues with the table.
\<close>

section \<open>Lanes\<close>

record 'q channels = worker +
  wc_latency :: "'q packet_queue"
  wc_priority :: "'q packet_queue"
  wc_bulk :: "'q packet_queue"
  wc_healthy :: bool

type_synonym 'q store = "nat \<Rightarrow> 'q channels"

type_synonym 'q force = "queued_packet \<Rightarrow> 'q \<Rightarrow> queued_packet option \<times> 'q"

definition mark_unhealthy :: "'q channels \<Rightarrow> 'q channels" where
  "mark_unhealthy w = w\<lparr>wc_healthy := False\<rparr>"

definition drain_uplink :: "(queued_packet, 'q) queue_ops \<Rightarrow> 'q channels \<Rightarrow> packet_buf list \<times> 'q channels" where
  "drain_uplink Q w =
     (case steal Q (wc_latency w) of (ls, latency) \<Rightarrow>
      case steal Q (wc_priority w) of (ps, priority) \<Rightarrow>
      case steal Q (wc_bulk w) of (bs, bulk) \<Rightarrow>
        (ls @ ps @ bs, w\<lparr>wc_latency := latency, wc_priority := priority, wc_bulk := bulk\<rparr>))"

definition queue_for_class :: "packet_class \<Rightarrow> 'q channels \<Rightarrow> 'q packet_queue" where
  "queue_for_class class w = (case class of Small \<Rightarrow> wc_latency w | Medium \<Rightarrow> wc_priority w | Bulk \<Rightarrow> wc_bulk w)"

definition with_lane :: "packet_class \<Rightarrow> 'q packet_queue \<Rightarrow> 'q channels \<Rightarrow> 'q channels" where
  "with_lane class pq w =
     (case class of Small \<Rightarrow> w\<lparr>wc_latency := pq\<rparr> | Medium \<Rightarrow> w\<lparr>wc_priority := pq\<rparr> | Bulk \<Rightarrow> w\<lparr>wc_bulk := pq\<rparr>)"

definition set_lane :: "packet_class \<Rightarrow> nat \<Rightarrow> 'q packet_queue \<Rightarrow> 'q store \<Rightarrow> 'q store" where
  "set_lane class h pq st = st(h := with_lane class pq (st h))"

definition queued :: "(queued_packet, 'q) queue_ops \<Rightarrow> 'q packet_queue \<Rightarrow> nat" where
  "queued Q pq = length (q_items Q (pq_queue pq))"

section \<open>The choice of a worker\<close>

text \<open>One pass over the candidates, with or without the preference for lanes that are not congested.\<close>

fun try_candidates :: "(queued_packet, 'q) queue_ops \<Rightarrow> 'q force \<Rightarrow> packet_class \<Rightarrow> bool \<Rightarrow> nat list \<Rightarrow> packet_buf \<Rightarrow> 'q store
    \<Rightarrow> (packet_buf + unit) \<times> 'q store" where
  "try_candidates Q F class prefer_clear [] packet st = (Inl packet, st)"
| "try_candidates Q F class prefer_clear (h # hs) packet st =
     (if \<not> wc_healthy (st h) then try_candidates Q F class prefer_clear hs packet st
      else if prefer_clear \<and> is_congested Q (queue_for_class class (st h))
      then try_candidates Q F class prefer_clear hs packet st
      else case send_inner Q F packet False (queue_for_class class (st h)) of
        (Inr _, pq) \<Rightarrow> (Inr (), set_lane class h pq st)
      | (Inl packet, pq) \<Rightarrow> try_candidates Q F class prefer_clear hs packet (set_lane class h pq st))"

definition search_width :: "nat list \<Rightarrow> nat \<Rightarrow> 'q store \<Rightarrow> nat" where
  "search_width workers start st =
     (if start < length workers \<and> wc_healthy (st (workers ! start))
      then 1 + min 2 (length workers - 1) else length workers)"

definition candidates :: "nat list \<Rightarrow> nat \<Rightarrow> 'q store \<Rightarrow> nat list" where
  "candidates workers start st =
     map (\<lambda>offset. workers ! ((start + offset) mod length workers)) [0..<search_width workers start st]"

definition enqueue_selected_worker :: "(queued_packet, 'q) queue_ops \<Rightarrow> 'q force \<Rightarrow> nat list \<Rightarrow> nat \<times> packet_class
    \<Rightarrow> packet_buf \<Rightarrow> 'q store \<Rightarrow> (packet_buf + unit) \<times> 'q store" where
  "enqueue_selected_worker Q F workers ticket packet st =
     (if workers = [] then (Inl packet, st)
      else
        let cs = candidates workers (fst ticket) st in
        case try_candidates Q F (snd ticket) True cs packet st of
          (Inr _, st) \<Rightarrow> (Inr (), st)
        | (Inl packet, st) \<Rightarrow> try_candidates Q F (snd ticket) False cs packet st)"

definition replace_oldest_in_selected_queue :: "(queued_packet, 'q) queue_ops \<Rightarrow> 'q force \<Rightarrow> nat list \<Rightarrow> packet_class
    \<Rightarrow> packet_buf \<Rightarrow> 'q store \<Rightarrow> (packet_buf + unit) \<times> 'q store" where
  "replace_oldest_in_selected_queue Q F workers class packet st =
     (case min_by_key (\<lambda>h. queued Q (queue_for_class class (st h))) (filter (\<lambda>h. wc_healthy (st h)) workers) of
        None \<Rightarrow> (Inl packet, st)
      | Some h \<Rightarrow>
          case send_inner Q F packet True (queue_for_class class (st h)) of
            (r, pq) \<Rightarrow> (r, set_lane class h pq st))"

text \<open>The two calls together, as the dispatch of a packet and its redispatch make them.\<close>

definition place_packet :: "(queued_packet, 'q) queue_ops \<Rightarrow> 'q force \<Rightarrow> nat list \<Rightarrow> nat \<times> packet_class
    \<Rightarrow> packet_buf \<Rightarrow> 'q store \<Rightarrow> 'q store" where
  "place_packet Q F workers ticket packet st =
     (case enqueue_selected_worker Q F workers ticket packet st of
        (Inr _, st) \<Rightarrow> st
      | (Inl packet, st) \<Rightarrow> snd (replace_oldest_in_selected_queue Q F workers (snd ticket) packet st))"

definition redispatch :: "(queued_packet, 'q) queue_ops \<Rightarrow> 'q force \<Rightarrow> nat list \<Rightarrow> packet_buf \<Rightarrow> 'q store \<Rightarrow> 'q store" where
  "redispatch Q F workers packet st =
     (if workers = [] then st else place_packet Q F workers (0, packet_class_of (pb_slice packet)) packet st)"

definition redispatch_all :: "(queued_packet, 'q) queue_ops \<Rightarrow> 'q force \<Rightarrow> nat list \<Rightarrow> packet_buf list \<Rightarrow> 'q store \<Rightarrow> 'q store" where
  "redispatch_all Q F workers packets st = fold (redispatch Q F workers) packets st"

section \<open>Spare copies\<close>

definition QUIC_SPARE_PER_FLOW :: nat where "QUIC_SPARE_PER_FLOW = 2"
definition QUIC_SPARE_FLOW_CAP :: nat where "QUIC_SPARE_FLOW_CAP = 256"

lemmas quic_consts = QUIC_SPARE_PER_FLOW_def QUIC_SPARE_FLOW_CAP_def

definition ipv4_udp_flow_key :: "bytes \<Rightarrow> u64 option" where
  "ipv4_udp_flow_key packet =
     (if length packet < 28 \<or> drop_bit 4 (packet ! 0) \<noteq> 4 \<or> packet ! 9 \<noteq> 17 then None
      else
        let ihl = unat (packet ! 0 AND 0x0f) * 4 in
        if ihl < 20 \<or> length packet < ihl + 4 then None
        else Some (push_bit 32 (ucast (from_be32 (sub packet 12 16)))
          XOR push_bit 16 (ucast (from_be32 (sub packet 16 20)))
          XOR push_bit 8 (ucast (from_be16 (sub packet ihl (ihl + 2))))
          XOR ucast (from_be16 (sub packet (ihl + 2) (ihl + 4)))))"

type_synonym quic_tracker = "(u64, nat) hash_map"

definition quic_initial_spare_allow :: "bytes \<Rightarrow> quic_tracker \<Rightarrow> bool \<times> quic_tracker" where
  "quic_initial_spare_allow packet m =
     (case ipv4_udp_flow_key packet of
        None \<Rightarrow> (False, m)
      | Some key \<Rightarrow>
          let count = (case map_of m key of None \<Rightarrow> 0 | Some n \<Rightarrow> n) in
          if count \<ge> QUIC_SPARE_PER_FLOW then (False, map_insert key count m)
          else
            let m = map_insert key (min (count + 1) 255) m in
            if length m > QUIC_SPARE_FLOW_CAP then
              let m = filter (\<lambda>(_, n). n < QUIC_SPARE_PER_FLOW) m in
              (True, if length m > QUIC_SPARE_FLOW_CAP then [(key, 1)] else m)
            else (True, m))"

definition udp_spare :: "(bytes, 'p) queue_ops \<Rightarrow> bytes \<Rightarrow> packet_buf \<Rightarrow> 'p packet_pool \<times> quic_tracker
    \<Rightarrow> packet_buf option \<times> 'p packet_pool \<times> quic_tracker" where
  "udp_spare P fresh packet = (\<lambda>(pool, m).
     let bytes = pb_slice packet in
     if length bytes < 20 \<or> drop_bit 4 (bytes ! 0) \<noteq> 4 \<or> bytes ! 9 \<noteq> 17 then (None, pool, m)
     else if should_duplicate bytes then
       (case try_duplicate P fresh packet pool of (spare, pool) \<Rightarrow> (spare, pool, m))
     else if is_quic_initial_sized bytes then
       (case quic_initial_spare_allow bytes m of
          (True, m) \<Rightarrow> (case try_duplicate P fresh packet pool of (spare, pool) \<Rightarrow> (spare, pool, m))
        | (False, m) \<Rightarrow> (None, pool, m))
     else (None, pool, m))"

section \<open>Dispatching\<close>

record ('q, 'p) dispatch_state =
  ds_scheduler :: scheduler
  ds_workers :: "nat list"
  ds_store :: "'q store"
  ds_pool :: "'p packet_pool"
  ds_quic :: quic_tracker

text \<open>\<open>begin\<close> reloads the scheduler's list of workers when a stripe of the class begins.\<close>

definition scheduler_workers :: "nat list \<Rightarrow> bytes \<Rightarrow> scheduler \<Rightarrow> nat list \<Rightarrow> nat list" where
  "scheduler_workers source packet s workers =
     (if cu_remaining (sc_cursors s ! class_index (packet_class_of packet)) = 0 then source else workers)"

definition alternate_slot :: "nat \<Rightarrow> nat \<Rightarrow> nat" where
  "alternate_slot start worker_count = (start + worker_count div 2) mod worker_count"

definition place_spare :: "(queued_packet, 'q) queue_ops \<Rightarrow> 'q force \<Rightarrow> nat list \<Rightarrow> nat \<times> packet_class \<Rightarrow> packet_buf option
    \<Rightarrow> 'q store \<Rightarrow> 'q store" where
  "place_spare Q F workers ticket spare st =
     (case spare of
        None \<Rightarrow> st
      | Some spare \<Rightarrow>
          if length workers > 1
          then snd (enqueue_selected_worker Q F workers (alternate_slot (fst ticket) (length workers), snd ticket) spare st)
          else st)"

definition dispatch_now :: "(queued_packet, 'q) queue_ops \<Rightarrow> 'q force \<Rightarrow> (bytes, 'p) queue_ops \<Rightarrow> bytes \<Rightarrow> nat list
    \<Rightarrow> packet_buf \<Rightarrow> ('q, 'p) dispatch_state \<Rightarrow> ('q, 'p) dispatch_state" where
  "dispatch_now Q F P fresh source packet s =
     (let workers = scheduler_workers source (pb_slice packet) (ds_scheduler s) (ds_workers s) in
      case begin_dispatch (length source) (pb_slice packet) (ds_scheduler s) of
        (None, sc) \<Rightarrow> s\<lparr>ds_scheduler := sc, ds_workers := workers\<rparr>
      | (Some ticket, sc) \<Rightarrow>
          (case udp_spare P fresh packet (ds_pool s, ds_quic s) of
             (spare, pool, quic) \<Rightarrow>
               let st = place_packet Q F workers ticket packet (ds_store s)
               in s\<lparr>ds_scheduler := sc, ds_workers := workers, ds_pool := pool, ds_quic := quic,
                    ds_store := place_spare Q F workers ticket spare st\<rparr>))"

section \<open>No packet is lost while a lane has room\<close>

definition force_push_ok :: "(queued_packet, 'q) queue_ops \<Rightarrow> 'q force \<Rightarrow> bool" where
  "force_push_ok Q F \<longleftrightarrow>
     (\<forall>x q. 0 < q_capacity Q q \<longrightarrow>
        q_capacity Q (snd (F x q)) = q_capacity Q q
        \<and> q_items Q (snd (F x q)) =
            (if length (q_items Q q) < q_capacity Q q then q_items Q q @ [x] else tl (q_items Q q) @ [x]))"

text \<open>A lane that takes a packet, and the element it becomes there.\<close>

definition lane_open :: "'q packet_queue \<Rightarrow> bool" where
  "lane_open pq \<longleftrightarrow> send_check pq \<noteq> None"

definition stamped :: "packet_buf \<Rightarrow> 'q packet_queue \<Rightarrow> queued_packet" where
  "stamped packet pq = \<lparr>qp_packet = packet, qp_epoch = drop_bit 1 (pq_state pq)\<rparr>"

definition accepts :: "(queued_packet, 'q) queue_ops \<Rightarrow> packet_class \<Rightarrow> 'q channels \<Rightarrow> bool" where
  "accepts Q class w \<longleftrightarrow> wc_healthy w \<and> lane_open (queue_for_class class w)
     \<and> queued Q (queue_for_class class w) < q_capacity Q (pq_queue (queue_for_class class w))"

text \<open>The store after one lane has taken the packet at its end.\<close>

definition placed :: "(queued_packet, 'q) queue_ops \<Rightarrow> packet_class \<Rightarrow> nat \<Rightarrow> packet_buf \<Rightarrow> 'q store \<Rightarrow> 'q store \<Rightarrow> bool" where
  "placed Q class h packet st st' \<longleftrightarrow>
     (\<exists>pq. st' = set_lane class h pq st \<and> pq_state pq = pq_state (queue_for_class class (st h))
        \<and> q_items Q (pq_queue pq) = q_items Q (pq_queue (queue_for_class class (st h)))
            @ [stamped packet (queue_for_class class (st h))])"

lemma queue_with_lane [simp]:
  "queue_for_class c (with_lane c pq w) = pq" "c \<noteq> c' \<Longrightarrow> queue_for_class c' (with_lane c pq w) = queue_for_class c' w"
  "wc_healthy (with_lane c pq w) = wc_healthy w"
  by (auto simp: queue_for_class_def with_lane_def split: packet_class.splits)

lemma with_same_lane [simp]: "with_lane c (queue_for_class c w) w = w"
  by (simp add: queue_for_class_def with_lane_def split: packet_class.splits)

lemma set_same_lane [simp]: "set_lane c h (queue_for_class c (st h)) st = st"
  by (simp add: set_lane_def)

lemma send_check_Some: "send_check pq = Some e \<Longrightarrow> e = drop_bit 1 (pq_state pq)"
  by (simp add: send_check_def split: if_splits)

lemma send_inner_refused:
  assumes "array_queue_ok Q"
  shows "(\<not> lane_open pq \<or> q_capacity Q (pq_queue pq) \<le> queued Q pq) \<longleftrightarrow> send_inner Q F p False pq = (Inl p, pq)"
proof (cases "send_check pq")
  case (Some e)
  then show ?thesis
    using queue_push_None [OF assms, of "\<lparr>qp_packet = p, qp_epoch = e\<rparr>" "pq_queue pq"]
    by (cases "q_push Q \<lparr>qp_packet = p, qp_epoch = e\<rparr> (pq_queue pq)")
      (simp_all add: send_inner_def lane_open_def send_push_def queued_def)
qed (simp add: send_inner_def lane_open_def)

lemma send_inner_taken:
  assumes "array_queue_ok Q" "lane_open pq" "queued Q pq < q_capacity Q (pq_queue pq)"
  shows "\<exists>pq'. send_inner Q F p False pq = (Inr (), pq') \<and> pq_state pq' = pq_state pq
    \<and> q_items Q (pq_queue pq') = q_items Q (pq_queue pq) @ [stamped p pq]"
proof -
  obtain e where e: "send_check pq = Some e" using assms(2) by (auto simp: lane_open_def)
  obtain q where q: "q_push Q \<lparr>qp_packet = p, qp_epoch = e\<rparr> (pq_queue pq) = Some q"
    using queue_push_None [OF assms(1), of _ "pq_queue pq"] assms(3) by (fastforce simp: queued_def)
  show ?thesis
    using e q queue_push_Some(1) [OF assms(1) q] send_check_Some [OF e]
    by (simp add: send_inner_def send_push_def send_wake_def stamped_def)
qed

lemma try_candidates_ok:
  assumes "array_queue_ok Q"
  shows "case try_candidates Q F c clear_only hs p st of
      (Inr _, st') \<Rightarrow> \<exists>h\<in>set hs. accepts Q c (st h) \<and> placed Q c h p st st'
    | (Inl p', st') \<Rightarrow> p' = p \<and> st' = st
        \<and> (\<forall>h\<in>set hs. accepts Q c (st h) \<longrightarrow> clear_only \<and> is_congested Q (queue_for_class c (st h)))"
proof (induction hs)
  case (Cons h hs)
  let ?pq = "queue_for_class c (st h)"
  show ?case
  proof (cases "accepts Q c (st h) \<and> \<not> (clear_only \<and> is_congested Q ?pq)")
    case True
    then obtain pq' where "send_inner Q F p False ?pq = (Inr (), pq')" "pq_state pq' = pq_state ?pq"
      "q_items Q (pq_queue pq') = q_items Q (pq_queue ?pq) @ [stamped p ?pq]"
      using send_inner_taken [OF assms, of ?pq F p] by (auto simp: accepts_def)
    then show ?thesis using True by (auto simp: placed_def accepts_def)
  next
    case False
    then have "try_candidates Q F c clear_only (h # hs) p st = try_candidates Q F c clear_only hs p st"
      using send_inner_refused [OF assms, of ?pq F p] by (auto simp: accepts_def not_less)
    then show ?thesis using Cons.IH False by (auto split: prod.splits sum.splits)
  qed
qed simp

lemma enqueue_selected_ok:
  assumes "array_queue_ok Q" "workers \<noteq> []"
  shows "case enqueue_selected_worker Q F workers (start, c) p st of
      (Inr _, st') \<Rightarrow> \<exists>h\<in>set (candidates workers start st). accepts Q c (st h) \<and> placed Q c h p st st'
    | (Inl p', st') \<Rightarrow> p' = p \<and> st' = st \<and> (\<forall>h\<in>set (candidates workers start st). \<not> accepts Q c (st h))"
proof -
  let ?cs = "candidates workers start st"
  note first = try_candidates_ok [OF assms(1), where F = F and c = c and clear_only = True and hs = ?cs and p = p and st = st]
  note second = try_candidates_ok [OF assms(1), where F = F and c = c and clear_only = False and hs = ?cs and p = p and st = st]
  obtain r st1 where r: "try_candidates Q F c True ?cs p st = (r, st1)" by fastforce
  show ?thesis
  proof (cases r)
    case (Inl p1)
    then have "p1 = p" "st1 = st" using first r by auto
    then show ?thesis using second r Inl assms(2)
      by (auto simp: enqueue_selected_worker_def Let_def split: prod.splits sum.splits)
  next
    case (Inr u)
    then show ?thesis using first r assms(2) by (simp add: enqueue_selected_worker_def Let_def)
  qed
qed

lemma candidates_in: "workers \<noteq> [] \<Longrightarrow> set (candidates workers start st) \<subseteq> set workers"
  by (auto simp: candidates_def)

lemma replace_oldest_ok:
  assumes "force_push_ok Q F" "h0 \<in> set workers" "wc_healthy (st h0)"
    and lanes: "\<forall>h\<in>set workers. wc_healthy (st h) \<longrightarrow>
      lane_open (queue_for_class c (st h)) \<and> q_capacity Q (pq_queue (queue_for_class c (st h))) = n" and "0 < n"
  obtains h pq where "h \<in> set workers" "wc_healthy (st h)"
    "snd (replace_oldest_in_selected_queue Q F workers c p st) = set_lane c h pq st"
    "q_items Q (pq_queue pq) =
      (if \<exists>g\<in>set workers. accepts Q c (st g) then q_items Q (pq_queue (queue_for_class c (st h)))
       else tl (q_items Q (pq_queue (queue_for_class c (st h))))) @ [stamped p (queue_for_class c (st h))]"
proof -
  let ?key = "\<lambda>h. queued Q (queue_for_class c (st h))" and ?ws = "filter (\<lambda>h. wc_healthy (st h)) workers"
  obtain h where h: "min_by_key ?key ?ws = Some h"
    using min_by_key_None [of ?key ?ws] assms(2,3) by (cases "min_by_key ?key ?ws") (auto simp: filter_empty_conv)
  from min_by_key_Some [OF h] have in_h: "h \<in> set workers" "wc_healthy (st h)"
    and least: "\<forall>g\<in>set workers. wc_healthy (st g) \<longrightarrow> ?key h \<le> ?key g" by auto
  let ?pq = "queue_for_class c (st h)"
  have lane: "lane_open ?pq" "q_capacity Q (pq_queue ?pq) = n" using lanes in_h by auto
  then obtain e where e: "send_check ?pq = Some e" by (auto simp: lane_open_def)
  let ?x = "stamped p ?pq"
  have x: "\<lparr>qp_packet = p, qp_epoch = e\<rparr> = ?x" using send_check_Some [OF e] by (simp add: stamped_def)
  have room: "(\<exists>g\<in>set workers. accepts Q c (st g)) \<longleftrightarrow> ?key h < n"
    using least lanes in_h by (fastforce simp: accepts_def)
  have items: "q_items Q (snd (F ?x (pq_queue ?pq))) =
      (if ?key h < n then q_items Q (pq_queue ?pq) @ [?x] else tl (q_items Q (pq_queue ?pq)) @ [?x])"
    using assms(1,5) lane(2) by (auto simp: force_push_ok_def queued_def)
  have "snd (replace_oldest_in_selected_queue Q F workers c p st) = set_lane c h
      (?pq\<lparr>pq_queue := snd (F ?x (pq_queue ?pq)), pq_wakeups := pq_wakeups ?pq + 1\<rparr>) st"
    using h e x by (simp add: replace_oldest_in_selected_queue_def send_inner_def)
  moreover have "q_items Q (pq_queue (?pq\<lparr>pq_queue := snd (F ?x (pq_queue ?pq)), pq_wakeups := pq_wakeups ?pq + 1\<rparr>)) =
      (if \<exists>g\<in>set workers. accepts Q c (st g) then q_items Q (pq_queue ?pq) else tl (q_items Q (pq_queue ?pq))) @ [?x]"
    using items by (simp add: room)
  ultimately show thesis using that in_h by blast
qed


text \<open>Queues as lists.\<close>

definition list_force :: "(nat \<times> queued_packet list) force" where
  "list_force x = (\<lambda>(n, xs). if length xs < n then (None, n, xs @ [x]) else (Some (hd xs), n, tl xs @ [x]))"

lemma list_force_ok: "force_push_ok list_queue list_force"
  by (simp add: force_push_ok_def list_queue_def list_force_def split: prod.splits)

definition example_channels :: "nat \<Rightarrow> (nat \<times> queued_packet list) channels" where
  "example_channels i = \<lparr>wk_id = i, wk_incarnation = 1, wk_path = [], wc_latency = packet_channel list_queue 4 True,
     wc_priority = packet_channel list_queue 4 True, wc_bulk = packet_channel list_queue 4 True, wc_healthy = True\<rparr>"

lemma example_channels_open:
  "wc_healthy (example_channels i)" "queue_for_class c (example_channels i) = packet_channel list_queue 4 True"
  "lane_open (packet_channel list_queue 4 True)" "q_capacity list_queue (pq_queue (packet_channel list_queue 4 True)) = 4"
  "queued list_queue (packet_channel list_queue 4 True) = 0"
  by (simp_all add: example_channels_def queue_for_class_def packet_channel_def lane_open_def send_check_def list_queue_def
      QUEUE_ACTIVE_def queued_def split: packet_class.splits)


section \<open>The spare takes another path\<close>

lemma first_candidate:
  "start < length workers \<Longrightarrow> \<exists>cs. candidates workers start st = workers ! start # cs"
proof -
  assume start: "start < length workers"
  then have "search_width workers start st = Suc (search_width workers start st - 1)"
    by (auto simp: search_width_def)
  then show ?thesis
    using start by (metis (no_types, lifting) Nat.add_0_right candidates_def list.simps(9) mod_less upt_conv_Cons zero_less_Suc)
qed

lemma clear_start_taken:
  assumes "array_queue_ok Q" "start < length workers" "accepts Q c (st (workers ! start))"
    and "\<not> is_congested Q (queue_for_class c (st (workers ! start)))"
  shows "\<exists>st'. enqueue_selected_worker Q F workers (start, c) p st = (Inr (), st') \<and> placed Q c (workers ! start) p st st'"
proof -
  let ?h = "workers ! start" and ?pq = "queue_for_class c (st (workers ! start))"
  obtain cs where cs: "candidates workers start st = ?h # cs" using first_candidate [OF assms(2)] by blast
  obtain pq' where "send_inner Q F p False ?pq = (Inr (), pq')" "pq_state pq' = pq_state ?pq"
    "q_items Q (pq_queue pq') = q_items Q (pq_queue ?pq) @ [stamped p ?pq]"
    using send_inner_taken [OF assms(1), of ?pq F p] assms(3) by (auto simp: accepts_def)
  then show ?thesis
    using assms(2-4) cs by (auto simp: enqueue_selected_worker_def placed_def accepts_def)
qed

lemma alternate_slot_differs:
  assumes "start < n" "1 < n"
  shows "alternate_slot start n < n \<and> alternate_slot start n \<noteq> start"
proof -
  have d: "0 < n div 2" "n div 2 < n" using assms(2) by (simp_all add: div_less_dividend div_greater_zero_iff)
  have "(start + n div 2) mod n \<noteq> start"
  proof (cases "start + n div 2 < n")
    case False
    then have "(start + n div 2) mod n = start + n div 2 - n"
      using assms(1) d by (simp add: mod_if)
    with d False show ?thesis by linarith
  qed (use d in simp)
  then show ?thesis using assms by (simp add: alternate_slot_def)
qed

lemma placed_elsewhere: "placed Q c h p st st' \<Longrightarrow> h \<noteq> g \<Longrightarrow> st' g = st g"
  by (auto simp: placed_def set_lane_def)

text \<open>
  The spare copy travels over another worker: when the lanes at the start slot and half-way round are
  open and not congested, the packet goes to the first and its copy to the second, and these are
  different workers.
\<close>

theorem spare_takes_another_path:
  assumes "array_queue_ok Q" "distinct workers" "1 < length workers" "start < length workers"
    and "\<forall>h\<in>{workers ! start, workers ! alternate_slot start (length workers)}.
      accepts Q c (st h) \<and> \<not> is_congested Q (queue_for_class c (st h))"
  shows "workers ! start \<noteq> workers ! alternate_slot start (length workers)
    \<and> (\<exists>st'. placed Q c (workers ! start) p st st'
      \<and> placed Q c (workers ! alternate_slot start (length workers)) spare st'
          (place_spare Q F workers (start, c) (Some spare) (place_packet Q F workers (start, c) p st)))"
proof -
  let ?alt = "alternate_slot start (length workers)"
  note alt = alternate_slot_differs [OF assms(4,3)]
  have ne: "workers ! start \<noteq> workers ! ?alt"
    using alt nth_eq_iff_index_eq [OF assms(2,4), of ?alt] by auto
  obtain st' where st': "enqueue_selected_worker Q F workers (start, c) p st = (Inr (), st')" "placed Q c (workers ! start) p st st'"
    using clear_start_taken [OF assms(1,4), of c st F p] assms(5) by blast
  then have "place_packet Q F workers (start, c) p st = st'" by (simp add: place_packet_def)
  moreover have "st' (workers ! ?alt) = st (workers ! ?alt)" using placed_elsewhere [OF st'(2) ne] .
  then obtain st'' where "enqueue_selected_worker Q F workers (?alt, c) spare st' = (Inr (), st'')" "placed Q c (workers ! ?alt) spare st' st''"
    using clear_start_taken [OF assms(1), of ?alt workers c st' F spare] alt assms(5) by auto
  ultimately show ?thesis using ne st'(2) assms(3) by (auto simp: place_spare_def)
qed

lemma spare_takes_another_path_witness:
  "\<exists>st'. placed list_queue Small 7 (new_packet []) example_channels st'
    \<and> placed list_queue Small 8 (new_packet [1]) st'
        (place_spare list_queue list_force [7, 8] (0, Small) (Some (new_packet [1]))
          (place_packet list_queue list_force [7, 8] (0, Small) (new_packet []) example_channels))"
proof -
  have "accepts list_queue Small (example_channels h) \<and> \<not> is_congested list_queue (queue_for_class Small (example_channels h))" for h
    using example_channels_open by (auto simp: accepts_def is_congested_def queued_def)
  note clear = this
  have alt: "[7, 8::nat] ! alternate_slot 0 (length [7, 8::nat]) = 8" "[7, 8::nat] ! 0 = 7" by (simp_all add: alternate_slot_def)
  show ?thesis
    by (rule spare_takes_another_path [OF list_queue_ok, of "[7, 8]" 0, unfolded alt, THEN conjunct2])
      (simp, simp, simp, use clear in blast)
qed

section \<open>The tracker of QUIC flows\<close>

definition tracker_ok :: "quic_tracker \<Rightarrow> bool" where
  "tracker_ok m \<longleftrightarrow> wf_map m \<and> length m \<le> QUIC_SPARE_FLOW_CAP \<and> (\<forall>k n. (k, n) \<in> set m \<longrightarrow> n \<le> QUIC_SPARE_PER_FLOW)"

lemma filter_ok: "tracker_ok m \<Longrightarrow> tracker_ok (filter P m)"
  by (auto simp: tracker_ok_def wf_map_def distinct_map_filter intro: le_trans [OF length_filter_le])

lemma quic_allow_ok:
  assumes "tracker_ok m"
  shows "tracker_ok (snd (quic_initial_spare_allow packet m))"
proof (cases "ipv4_udp_flow_key packet")
  case None
  then show ?thesis using assms by (simp add: quic_initial_spare_allow_def)
next
  case (Some key)
  define count where "count = (case map_of m key of None \<Rightarrow> 0 | Some n \<Rightarrow> n)"
  note m = assms [unfolded tracker_ok_def]
  show ?thesis
  proof (cases "count \<ge> QUIC_SPARE_PER_FLOW")
    case True
    then have "map_of m key = Some count" by (auto simp: count_def quic_consts split: option.splits)
    then have "key \<in> fst ` set m" "(key, count) \<in> set m" by (auto dest: map_of_SomeD intro: rev_image_eqI)
    then have "tracker_ok (map_insert key count m)"
      using m by (auto simp: tracker_ok_def length_map_insert map_insert_set split: if_splits)
    then show ?thesis using Some True by (simp add: quic_initial_spare_allow_def count_def)
  next
    case False
    let ?m = "map_insert key (min (count + 1) 255) m"
    have small: "\<forall>k n. (k, n) \<in> set ?m \<longrightarrow> n \<le> QUIC_SPARE_PER_FLOW" "wf_map ?m"
      using m False by (auto simp: map_insert_set quic_consts split: if_splits)
    show ?thesis
      using Some False small
      by (auto simp: quic_initial_spare_allow_def count_def [symmetric] tracker_ok_def wf_map_def Let_def quic_consts distinct_map_filter)
  qed
qed

interpretation quic_tracker: bounded_machine "\<lambda>packet m. snd (quic_initial_spare_allow packet m)" tracker_ok length QUIC_SPARE_FLOW_CAP
  by (unfold_locales, erule quic_allow_ok, simp add: tracker_ok_def)

lemma quic_tracker_bounded:
  "length (fold (\<lambda>packet m. snd (quic_initial_spare_allow packet m)) packets []) \<le> QUIC_SPARE_FLOW_CAP"
  by (rule quic_tracker.run_bounded) (simp add: tracker_ok_def)

text \<open>The key folds the four parts of a flow into each other, so different flows share an entry.\<close>

definition udp_header :: "u32 \<Rightarrow> u32 \<Rightarrow> u16 \<Rightarrow> u16 \<Rightarrow> bytes" where
  "udp_header src dst source_port destination_port =
     [0x45, 0, 0, 28, 0, 0, 0, 0, 64, 17, 0, 0] @ to_be32 src @ to_be32 dst @ to_be16 source_port @ to_be16 destination_port @ [0, 8, 0, 0]"

lemma flow_key_of_header:
  "ipv4_udp_flow_key (udp_header src dst sp dp) =
     Some (push_bit 32 (ucast src) XOR push_bit 16 (ucast dst) XOR push_bit 8 (ucast sp) XOR ucast dp)"
proof -
  have l: "length (to_be32 w) = 4" "length (to_be16 v) = 2" for w :: u32 and v :: u16
    by (simp_all add: to_be32_def to_be16_def)
  have parts: "sub (udp_header src dst sp dp) 12 16 = to_be32 src" "sub (udp_header src dst sp dp) 16 20 = to_be32 dst"
    "sub (udp_header src dst sp dp) 20 22 = to_be16 sp" "sub (udp_header src dst sp dp) 22 24 = to_be16 dp"
    by (simp_all add: udp_header_def sub_def l)
  have head: "length (udp_header src dst sp dp) = 28" "udp_header src dst sp dp ! 0 = 0x45" "udp_header src dst sp dp ! 9 = 17"
    by (simp_all add: udp_header_def l)
  have "unat (0x45 AND 0x0f :: u8) * 4 = 20" "drop_bit 4 (0x45 :: u8) = 4" by simp_all
  then show ?thesis
    by (simp only: ipv4_udp_flow_key_def head Let_def) (simp add: parts)
qed

lemma flow_key_collides:
  "ipv4_udp_flow_key (udp_header src (dst XOR 1) (sp XOR 0x100) dp) = ipv4_udp_flow_key (udp_header src dst sp dp)"
proof -
  have "push_bit 16 (ucast (dst XOR 1) :: u64) = push_bit 16 (ucast dst) XOR 0x10000"
    "push_bit 8 (ucast (sp XOR 0x100) :: u64) = push_bit 8 (ucast sp) XOR 0x10000"
    by (simp_all add: unsigned_xor_eq push_bit_xor)
  then show ?thesis
    by (simp add: flow_key_of_header xor.assoc xor.commute xor.left_commute)
qed

section \<open>Returned packets\<close>

text \<open>
  The loop takes one packet off the lanes at a time; the bound is the number of packets in them.
  \<open>clock\<close> gives the time of each call of the reassembler.
\<close>

type_synonym 'q lanes = "'q packet_queue \<times> 'q packet_queue \<times> 'q packet_queue"

definition lane_items :: "(queued_packet, 'q) queue_ops \<Rightarrow> 'q lanes \<Rightarrow> nat" where
  "lane_items Q = (\<lambda>(latency, priority, bulk). queued Q latency + queued Q priority + queued Q bulk)"

primrec ordered_loop :: "nat \<Rightarrow> (queued_packet, 'q) queue_ops \<Rightarrow> (nat \<Rightarrow> u64) \<Rightarrow> return_reorder \<Rightarrow> 'q lanes
    \<Rightarrow> packet_buf option \<times> return_reorder \<times> 'q lanes" where
  "ordered_loop 0 Q clock r lanes = (case reorder_pop r of (p, r) \<Rightarrow> (p, r, lanes))"
| "ordered_loop (Suc n) Q clock r lanes =
     (case reorder_pop r of
        (Some p, r) \<Rightarrow> (Some p, r, lanes)
      | (None, r) \<Rightarrow>
          case next_return_packet Q lanes of
            (None, lanes) \<Rightarrow> (None, r, lanes)
          | (Some p, lanes) \<Rightarrow> ordered_loop n Q clock (reorder_push (clock n) p r) lanes)"

definition next_ordered_return_packet :: "(queued_packet, 'q) queue_ops \<Rightarrow> (nat \<Rightarrow> u64) \<Rightarrow> return_reorder \<Rightarrow> 'q lanes
    \<Rightarrow> packet_buf option \<times> return_reorder \<times> 'q lanes" where
  "next_ordered_return_packet Q clock r lanes = ordered_loop (lane_items Q lanes) Q clock r lanes"

definition higher_priority_waiting :: "(queued_packet, 'q) queue_ops \<Rightarrow> packet_class \<Rightarrow> 'q lanes \<Rightarrow> bool" where
  "higher_priority_waiting Q class = (\<lambda>(latency, priority, bulk).
     case class of
       Small \<Rightarrow> False
     | Medium \<Rightarrow> has_queued_packet Q latency
     | Bulk \<Rightarrow> has_queued_packet Q latency \<or> has_queued_packet Q priority)"

text \<open>The rest of a batch of the class: what \<open>write_bridge\<close> and \<open>write_udp\<close> collect after the first packet.\<close>

primrec collect_batch :: "nat \<Rightarrow> (queued_packet, 'q) queue_ops \<Rightarrow> (nat \<Rightarrow> u64) \<Rightarrow> packet_class \<Rightarrow> return_reorder \<Rightarrow> 'q lanes
    \<Rightarrow> packet_buf list \<times> return_reorder \<times> 'q lanes" where
  "collect_batch 0 Q clock class r lanes = ([], r, lanes)"
| "collect_batch (Suc n) Q clock class r lanes =
     (if higher_priority_waiting Q class lanes then ([], r, lanes)
      else case next_ordered_return_packet Q clock r lanes of
        (None, r, lanes) \<Rightarrow> ([], r, lanes)
      | (Some p, r, lanes) \<Rightarrow>
          if packet_class_of (pb_slice p) \<noteq> class then ([], r\<lparr>ro_ready := p # ro_ready r\<rparr>, lanes)
          else case collect_batch n Q clock class r lanes of (ps, r, lanes) \<Rightarrow> (p # ps, r, lanes))"

definition return_batch :: "(queued_packet, 'q) queue_ops \<Rightarrow> (nat \<Rightarrow> u64) \<Rightarrow> return_reorder \<Rightarrow> 'q lanes
    \<Rightarrow> packet_buf list \<times> return_reorder \<times> 'q lanes" where
  "return_batch Q clock r lanes =
     (case next_ordered_return_packet Q clock r lanes of
        (None, r, lanes) \<Rightarrow> ([], r, lanes)
      | (Some p, r, lanes) \<Rightarrow>
          let class = packet_class_of (pb_slice p) in
          case collect_batch (datagram_batch class - 1) Q clock class r lanes of
            (ps, r, lanes) \<Rightarrow> (p # ps, r, lanes))"

definition return_packet :: "(queued_packet, 'q) queue_ops \<Rightarrow> 'q force \<Rightarrow> packet_buf \<Rightarrow> 'q lanes \<Rightarrow> 'q lanes" where
  "return_packet Q F packet = (\<lambda>(latency, priority, bulk).
     case packet_class_of (pb_slice packet) of
       Small \<Rightarrow> (snd (send_inner Q F packet True latency), priority, bulk)
     | Medium \<Rightarrow> (latency, snd (send_inner Q F packet True priority), bulk)
     | Bulk \<Rightarrow> (latency, priority, snd (send_inner Q F packet True bulk)))"

lemma try_recv_loop_items:
  assumes "array_queue_ok Q"
  shows "length (q_items Q (pq_queue pq)) \<le> n \<Longrightarrow> try_recv_loop n Q pq = (r, pq') \<Longrightarrow>
    (case r of None \<Rightarrow> queued Q pq' = 0 | Some p \<Rightarrow> queued Q pq' < queued Q pq)"
proof (induction n arbitrary: pq)
  case (Suc n)
  show ?case
  proof (cases "q_pop Q (pq_queue pq)")
    case None
    then show ?thesis using Suc.prems queue_pop_None [OF assms, of "pq_queue pq"] by (auto simp: queued_def)
  next
    case (Some x)
    obtain e q where x: "x = (e, q)" by fastforce
    note items = queue_pop_Some(1) [OF assms Some [unfolded x]]
    show ?thesis
    proof (cases "pq_state pq AND QUEUE_ACTIVE \<noteq> 0 \<and> qp_epoch e = drop_bit 1 (pq_state pq)")
      case True
      then show ?thesis using Suc.prems Some x items by (auto simp: queued_def Let_def)
    next
      case False
      then have "try_recv_loop n Q (pq\<lparr>pq_queue := q\<rparr>) = (r, pq')" using Suc.prems Some x by (auto simp: Let_def split: if_splits)
      then show ?thesis using Suc.IH [of "pq\<lparr>pq_queue := q\<rparr>"] Suc.prems items
        by (cases r) (auto simp: queued_def)
    qed
  qed
qed (auto simp: queued_def)

lemma try_recv_items:
  assumes "array_queue_ok Q" "try_recv Q pq = (r, pq')"
  shows "r = None \<Longrightarrow> queued Q pq' = 0" "r = Some p \<Longrightarrow> queued Q pq' < queued Q pq"
  using try_recv_loop_items [OF assms(1) order_refl, of pq r pq'] assms(2) by (auto simp: try_recv_def)

lemma next_return_items:
  assumes "array_queue_ok Q" "next_return_packet Q lanes = (r, lanes')"
  shows "r = None \<Longrightarrow> lane_items Q lanes' = 0" "r = Some p \<Longrightarrow> lane_items Q lanes' < lane_items Q lanes"
proof -
  obtain l m b where lanes: "lanes = (l, m, b)" by (cases lanes)
  obtain r1 l' where l: "try_recv Q l = (r1, l')" by fastforce
  obtain r2 m' where m: "try_recv Q m = (r2, m')" by fastforce
  obtain r3 b' where b: "try_recv Q b = (r3, b')" by fastforce
  note li = try_recv_items [OF assms(1) l] and mi = try_recv_items [OF assms(1) m] and bi = try_recv_items [OF assms(1) b]
  have n: "next_return_packet Q lanes =
      (case r1 of Some p \<Rightarrow> (Some p, l', m, b)
       | None \<Rightarrow> (case r2 of Some p \<Rightarrow> (Some p, l', m', b) | None \<Rightarrow> (r3, l', m', b')))"
    using l m b by (simp add: next_return_packet_def lanes split: option.splits)
  show "r = None \<Longrightarrow> lane_items Q lanes' = 0"
    using assms(2) li(1) mi(1) bi(1) by (simp add: n lane_items_def split: option.splits) auto
  show "r = Some p \<Longrightarrow> lane_items Q lanes' < lane_items Q lanes"
  proof -
    assume r: "r = Some p"
    consider p where "r1 = Some p" "lanes' = (l', m, b)" | p where "r1 = None" "r2 = Some p" "lanes' = (l', m', b)"
      | "r1 = None" "r2 = None" "r3 = Some p" "lanes' = (l', m', b')"
      using assms(2) r by (auto simp: n split: option.splits)
    then show ?thesis
      using li mi bi by cases (simp_all add: lane_items_def lanes)
  qed
qed

definition drained :: "(queued_packet, 'q) queue_ops \<Rightarrow> return_reorder \<Rightarrow> 'q lanes \<Rightarrow> bool" where
  "drained Q r lanes \<longleftrightarrow> ro_ready r = [] \<and> lane_items Q lanes = 0"

lemma ordered_loop_None:
  assumes "array_queue_ok Q"
  shows "lane_items Q lanes \<le> n \<Longrightarrow> ordered_loop n Q clock r lanes = (None, r', lanes') \<Longrightarrow> drained Q r' lanes'"
proof (induction n arbitrary: r lanes)
  case 0
  then show ?case by (auto simp: drained_def reorder_pop_def split: list.splits)
next
  case (Suc n)
  show ?case
  proof (cases "ro_ready r")
    case Nil
    obtain a lanes1 where a: "next_return_packet Q lanes = (a, lanes1)" by (metis surj_pair)
    show ?thesis
    proof (cases a)
      case None
      then show ?thesis using Suc.prems Nil a next_return_items(1) [OF assms a]
        by (auto simp: drained_def reorder_pop_def)
    next
      case (Some p)
      then have "lane_items Q lanes1 \<le> n" using Suc.prems(1) next_return_items(2) [OF assms a Some] by simp
      then show ?thesis using Suc.IH Suc.prems(2) Nil a Some by (simp add: reorder_pop_def)
    qed
  next
    case (Cons p ps)
    then show ?thesis using Suc.prems(2) by (simp add: reorder_pop_def)
  qed
qed

lemma next_ordered_None:
  "array_queue_ok Q \<Longrightarrow> next_ordered_return_packet Q clock r lanes = (None, r', lanes') \<Longrightarrow> drained Q r' lanes'"
  unfolding next_ordered_return_packet_def by (rule ordered_loop_None) auto

lemma next_ordered_drained: "drained Q r lanes \<Longrightarrow> next_ordered_return_packet Q clock r lanes = (None, r, lanes)"
  by (simp add: drained_def next_ordered_return_packet_def reorder_pop_def)

lemma next_ordered_ready:
  "next_ordered_return_packet Q clock (r\<lparr>ro_ready := p # ps\<rparr>) lanes = (Some p, r\<lparr>ro_ready := ps\<rparr>, lanes)"
  by (cases "lane_items Q lanes") (simp_all add: next_ordered_return_packet_def reorder_pop_def)

text \<open>The packets that come out one by one.\<close>

primrec take_returned :: "nat \<Rightarrow> (queued_packet, 'q) queue_ops \<Rightarrow> (nat \<Rightarrow> u64) \<Rightarrow> return_reorder \<Rightarrow> 'q lanes \<Rightarrow> packet_buf list" where
  "take_returned 0 Q clock r lanes = []"
| "take_returned (Suc m) Q clock r lanes =
     (case next_ordered_return_packet Q clock r lanes of
        (None, _) \<Rightarrow> []
      | (Some p, r, lanes) \<Rightarrow> p # take_returned m Q clock r lanes)"

lemma take_returned_drained: "drained Q r lanes \<Longrightarrow> take_returned m Q clock r lanes = []"
  by (cases m) (simp_all add: next_ordered_drained)

lemma collect_batch_order:
  assumes "array_queue_ok Q"
  shows "collect_batch n Q clock c r lanes = (ps, r', lanes') \<Longrightarrow>
    length ps \<le> n \<and> (\<forall>p\<in>set ps. packet_class_of (pb_slice p) = c)
    \<and> (\<forall>m. take_returned (length ps + m) Q clock r lanes = ps @ take_returned m Q clock r' lanes')"
proof (induction n arbitrary: r lanes ps)
  case (Suc n)
  obtain a r1 lanes1 where a: "next_ordered_return_packet Q clock r lanes = (a, r1, lanes1)" by (metis prod_cases3)
  show ?case
  proof (cases "higher_priority_waiting Q c lanes")
    case True
    then show ?thesis using Suc.prems by simp
  next
    case False
    show ?thesis
    proof (cases a)
      case None
      then have ps: "ps = []" "r' = r1" "lanes' = lanes1" using Suc.prems False a by auto
      have "take_returned m Q clock r lanes = []" for m using a None by (cases m) simp_all
      then show ?thesis using ps take_returned_drained [OF next_ordered_None [OF assms a [unfolded None]]] by simp
    next
      case (Some p)
      show ?thesis
      proof (cases "packet_class_of (pb_slice p) = c")
        case True
        then obtain qs where qs: "collect_batch n Q clock c r1 lanes1 = (qs, r', lanes')" "ps = p # qs"
          using Suc.prems False a Some by (auto split: prod.splits)
        then show ?thesis using Suc.IH [OF qs(1)] True a Some by auto
      next
        case other: False
        then have ps: "ps = []" "r' = r1\<lparr>ro_ready := p # ro_ready r1\<rparr>" "lanes' = lanes1"
          using Suc.prems False a Some by auto
        have "take_returned m Q clock r lanes = take_returned m Q clock r' lanes'" for m
          using a Some by (cases m) (simp_all add: ps next_ordered_ready)
        then show ?thesis using ps by simp
      qed
    qed
  qed
qed simp

text \<open>
  Batching returned packets changes neither their order nor their number: a batch holds packets of one
  class, at most as many as the class allows, and it followed by what comes out afterwards is what
  would have come out one by one.
\<close>

theorem return_batches_keep_order:
  assumes "array_queue_ok Q" "return_batch Q clock r lanes = (p # ps, r', lanes')"
  shows "length (p # ps) \<le> datagram_batch (packet_class_of (pb_slice p))
    \<and> (\<forall>q\<in>set ps. packet_class_of (pb_slice q) = packet_class_of (pb_slice p))
    \<and> (\<forall>m. take_returned (length (p # ps) + m) Q clock r lanes = (p # ps) @ take_returned m Q clock r' lanes')"
proof -
  let ?c = "packet_class_of (pb_slice p)"
  obtain r1 lanes1 where n: "next_ordered_return_packet Q clock r lanes = (Some p, r1, lanes1)"
    "collect_batch (datagram_batch ?c - 1) Q clock ?c r1 lanes1 = (ps, r', lanes')"
    using assms(2) by (auto simp: return_batch_def Let_def split: prod.splits option.splits)
  moreover have "0 < datagram_batch ?c" by (cases ?c) (simp_all add: datagram_batch_def)
  ultimately show ?thesis using collect_batch_order [OF assms(1) n(2)] by auto
qed

lemma return_batches_keep_order_witness:
  "\<exists>ps r' lanes'. return_batch list_queue (\<lambda>_. 0) (new_reorder\<lparr>ro_ready := [new_packet [], new_packet [1]]\<rparr>)
      (packet_channel list_queue 4 True, packet_channel list_queue 4 True, packet_channel list_queue 4 True) = (new_packet [] # ps, r', lanes')
    \<and> length (new_packet [] # ps) \<le> datagram_batch (packet_class_of (pb_slice (new_packet [])))"
proof -
  let ?r = "new_reorder\<lparr>ro_ready := [new_packet [], new_packet [1]]\<rparr>"
    and ?lanes = "(packet_channel list_queue 4 True, packet_channel list_queue 4 True, packet_channel list_queue 4 True)"
  have "\<exists>ps r' lanes'. return_batch list_queue (\<lambda>_. 0) ?r ?lanes = (new_packet [] # ps, r', lanes')"
    unfolding return_batch_def next_ordered_ready Let_def by (simp split: prod.splits)
  then show ?thesis using return_batches_keep_order [OF list_queue_ok] by blast
qed

section \<open>The TUN device\<close>

text \<open>Errors of system calls by their Linux number; \<open>EINTR\<close> and \<open>EAGAIN\<close> are the two kinds the code tests.\<close>

definition is_closed_tun_error :: "nat \<Rightarrow> bool" where
  "is_closed_tun_error code \<longleftrightarrow> code = 5 \<or> code = 9 \<or> code = 19"

definition is_retryable_tun_error :: "nat \<Rightarrow> bool" where
  "is_retryable_tun_error code \<longleftrightarrow> code = 4 \<or> code = 11 \<or> code = 105 \<or> code = 12"

datatype 'a io_result = Sys_ok 'a | Sys_error nat | Sys_not_ready

datatype tun_write_state = Tw_complete | Tw_continue | Tw_wait | Tw_backoff | Tw_yield | Tw_closed | Tw_failed

text \<open>The result, how much of the packet is written, and the bytes counted.\<close>

definition try_write_tun_packet :: "nat io_result \<Rightarrow> packet_buf \<Rightarrow> nat \<Rightarrow> tun_write_state \<times> nat \<times> nat" where
  "try_write_tun_packet result packet written =
     (case result of
        Sys_ok len \<Rightarrow>
          if len = 0 then (Tw_failed, written, 0)
          else if written + len = pb_len packet then (Tw_complete, written + len, pb_len packet)
          else (Tw_continue, written + len, 0)
      | Sys_error code \<Rightarrow>
          (if is_retryable_tun_error code then (if code = 105 \<or> code = 12 then Tw_backoff else Tw_yield)
           else if is_closed_tun_error code then Tw_closed
           else Tw_failed, written, 0)
      | Sys_not_ready \<Rightarrow> (Tw_wait, written, 0))"

text \<open>
  The inner loop of \<open>write_tun\<close> over the results of the writes, the last of which the device was not
  ready for: why it ended, the packet still to write, the reordering, the lanes and the bytes counted.
\<close>

fun write_tun_burst :: "(queued_packet, 'q) queue_ops \<Rightarrow> (nat \<Rightarrow> u64) \<Rightarrow> nat \<Rightarrow> nat io_result list \<Rightarrow> packet_buf \<Rightarrow> nat
    \<Rightarrow> return_reorder \<Rightarrow> 'q lanes \<Rightarrow> nat \<Rightarrow> tun_write_state \<times> (packet_buf \<times> nat) option \<times> return_reorder \<times> 'q lanes \<times> nat" where
  "write_tun_burst Q clock burst [] packet written r lanes down = (Tw_wait, Some (packet, written), r, lanes, down)"
| "write_tun_burst Q clock burst (result # results) packet written r lanes down =
     (case try_write_tun_packet result packet written of (state, written, counted) \<Rightarrow>
        let down = down + counted in
        case state of
          Tw_complete \<Rightarrow>
            if burst + 1 = 64 then (Tw_complete, None, r, lanes, down)
            else (case next_ordered_return_packet Q clock r lanes of
                    (None, r, lanes) \<Rightarrow> (Tw_complete, None, r, lanes, down)
                  | (Some packet, r, lanes) \<Rightarrow> write_tun_burst Q clock (burst + 1) results packet 0 r lanes down)
        | Tw_continue \<Rightarrow> write_tun_burst Q clock burst results packet written r lanes down
        | _ \<Rightarrow> (state, Some (packet, written), r, lanes, down))"

section \<open>The sources\<close>

text \<open>Storages that dropped packets give back to the pool are not counted here.\<close>

record ('q, 'p) uplink_state =
  up_sequences :: flow_sequencer
  up_dispatch :: "('q, 'p) dispatch_state"
  up_bytes :: nat

definition accept_uplink :: "(queued_packet, 'q) queue_ops \<Rightarrow> 'q force \<Rightarrow> (bytes, 'p) queue_ops \<Rightarrow> bytes \<Rightarrow> nat list
    \<Rightarrow> nat option \<Rightarrow> packet_buf \<Rightarrow> ('q, 'p) uplink_state \<Rightarrow> ('q, 'p) uplink_state" where
  "accept_uplink Q F P fresh source tun_length packet s =
     (case frame_outbound_packet (up_sequences s) packet of
        (False, _, sequences) \<Rightarrow> s\<lparr>up_sequences := sequences\<rparr>
      | (True, packet, sequences) \<Rightarrow>
          s\<lparr>up_sequences := sequences,
            up_bytes := up_bytes s + (case tun_length of Some len \<Rightarrow> len | None \<Rightarrow> pb_len packet),
            up_dispatch := dispatch_now Q F P fresh source packet (up_dispatch s)\<rparr>)"

text \<open>\<open>read_bridge\<close> between two waits: the latency queue first, until both are empty.\<close>

primrec read_bridge :: "nat \<Rightarrow> (packet_buf, 'u) queue_ops \<Rightarrow> (queued_packet, 'q) queue_ops \<Rightarrow> 'q force \<Rightarrow> (bytes, 'p) queue_ops
    \<Rightarrow> bytes \<Rightarrow> nat list \<Rightarrow> 'u \<times> 'u \<Rightarrow> ('q, 'p) uplink_state \<Rightarrow> ('u \<times> 'u) \<times> ('q, 'p) uplink_state" where
  "read_bridge 0 U Q F P fresh source qs s = (qs, s)"
| "read_bridge (Suc n) U Q F P fresh source qs s =
     (case q_pop U (fst qs) of
        Some (packet, latency) \<Rightarrow>
          read_bridge n U Q F P fresh source (latency, snd qs) (accept_uplink Q F P fresh source None packet s)
      | None \<Rightarrow>
          case q_pop U (snd qs) of
            Some (packet, queue) \<Rightarrow>
              read_bridge n U Q F P fresh source (fst qs, queue) (accept_uplink Q F P fresh source None packet s)
          | None \<Rightarrow> (qs, s))"

text \<open>
  \<open>read_tun\<close> after the device became readable: at most 32 packets, one buffer and one read each. The
  result tells whether the task goes on.
\<close>

fun read_tun_burst :: "(queued_packet, 'q) queue_ops \<Rightarrow> 'q force \<Rightarrow> (bytes, 'p) queue_ops \<Rightarrow> bytes \<Rightarrow> nat list
    \<Rightarrow> nat \<Rightarrow> bytes io_result list \<Rightarrow> ('q, 'p) uplink_state \<Rightarrow> bool \<times> ('q, 'p) uplink_state" where
  "read_tun_burst Q F P fresh source burst [] s = (True, s)"
| "read_tun_burst Q F P fresh source burst (result # results) s =
     (if 32 \<le> burst then (True, s)
      else case try_acquire P fresh (ds_pool (up_dispatch s)) of
        (None, pool) \<Rightarrow> (True, s\<lparr>up_dispatch := (up_dispatch s)\<lparr>ds_pool := pool\<rparr>\<rparr>)
      | (Some packet, pool) \<Rightarrow>
          let s = s\<lparr>up_dispatch := (up_dispatch s)\<lparr>ds_pool := pool\<rparr>\<rparr> in
          case result of
            Sys_ok bytes \<Rightarrow>
              if bytes = [] then (False, s)
              else (case set_read_len (length bytes) (write_read_area bytes packet) of
                      Inl _ \<Rightarrow> (False, s)
                    | Inr packet \<Rightarrow>
                        read_tun_burst Q F P fresh source (burst + 1) results
                          (accept_uplink Q F P fresh source (Some (length bytes)) packet s))
          | Sys_error code \<Rightarrow> (is_retryable_tun_error code, s)
          | Sys_not_ready \<Rightarrow> (True, s))"

text \<open>The batches of \<open>read_udp\<close>: the last sender becomes the client the packets return to.\<close>

definition read_udp_batch :: "(queued_packet, 'q) queue_ops \<Rightarrow> 'q force \<Rightarrow> (bytes, 'p) queue_ops \<Rightarrow> bytes \<Rightarrow> nat list
    \<Rightarrow> (packet_buf \<times> 'a) list \<Rightarrow> 'a option \<times> ('q, 'p) uplink_state \<Rightarrow> 'a option \<times> ('q, 'p) uplink_state" where
  "read_udp_batch Q F P fresh source received =
     fold (\<lambda>(packet, address) (client, s). (Some address, accept_uplink Q F P fresh source None packet s)) received"

lemma write_tun_packet_whole:
  assumes "written + len \<le> pb_len packet"
  shows "fst (try_write_tun_packet (Sys_ok len) packet written) = Tw_complete \<longleftrightarrow> 0 < len \<and> written + len = pb_len packet"
  using assms by (auto simp: try_write_tun_packet_def)

end
