(* ===== verification/Packet_Bridge.thy ===== *)
theory Packet_Bridge
  imports Packet_Buf Striped_Scheduler Idle
begin

text \<open>
  The in-process way in and out of the tunnel, \<open>packet_bridge.rs\<close>: packets the host injects are
  copied into pooled buffers and queued for the reader, short queries in a queue of their own
  that keeps the newest; returned packets go to the callbacks the host registered.
\<close>

section \<open>Injecting\<close>

record ('p, 'u) uplink_bridge =
  ub_pool :: "'p packet_pool"
  ub_queue :: 'u
  ub_latency :: 'u
  ub_wakeups :: nat
  ub_cancelled :: bool

text \<open>A full latency queue gives up its oldest packet; a dropped packet gives its storage back to the pool.\<close>

definition drop_in :: "(bytes, 'p) queue_ops \<Rightarrow> packet_buf \<Rightarrow> ('p, 'u) uplink_bridge \<Rightarrow> ('p, 'u) uplink_bridge" where
  "drop_in P packet b = b\<lparr>ub_pool := drop_packet P packet (ub_pool b)\<rparr>"

definition enqueue_uplink :: "(bytes, 'p) queue_ops \<Rightarrow> (packet_buf, 'u) queue_ops \<Rightarrow> packet_buf \<Rightarrow> ('p, 'u) uplink_bridge
    \<Rightarrow> bool \<times> ('p, 'u) uplink_bridge" where
  "enqueue_uplink P U packet b =
     (if keep_under_pressure (pb_slice packet) then
        (case q_push U packet (ub_latency b) of
           Some q \<Rightarrow> (True, b\<lparr>ub_latency := q\<rparr>)
         | None \<Rightarrow>
             let b = (case q_pop U (ub_latency b) of None \<Rightarrow> b | Some (old, q) \<Rightarrow> drop_in P old (b\<lparr>ub_latency := q\<rparr>)) in
             case q_push U packet (ub_latency b) of
               Some q \<Rightarrow> (True, b\<lparr>ub_latency := q\<rparr>)
             | None \<Rightarrow> (False, drop_in P packet b))
      else
        (case q_push U packet (ub_queue b) of
           Some q \<Rightarrow> (True, b\<lparr>ub_queue := q\<rparr>)
         | None \<Rightarrow> (False, drop_in P packet b)))"

text \<open>
  What both ways of injecting do with the bytes of one packet: a buffer, the copy, the queue. The
  result is 0, -2 or -3 as for a single packet.
\<close>

definition copy_in :: "(bytes, 'p) queue_ops \<Rightarrow> (packet_buf, 'u) queue_ops \<Rightarrow> bytes \<Rightarrow> bytes \<Rightarrow> ('p, 'u) uplink_bridge
    \<Rightarrow> int \<times> ('p, 'u) uplink_bridge" where
  "copy_in P U fresh data b =
     (case try_acquire P fresh (ub_pool b) of
        (None, pool) \<Rightarrow> (-2, b\<lparr>ub_pool := pool\<rparr>)
      | (Some packet, pool) \<Rightarrow>
          let b = b\<lparr>ub_pool := pool\<rparr> in
          if length data > read_area_len then (-3, drop_in P packet b)
          else (case set_read_len (length data) (write_read_area data packet) of
                  Inl _ \<Rightarrow> (-3, drop_in P packet b)
                | Inr packet \<Rightarrow>
                    (case enqueue_uplink P U packet b of (ok, b) \<Rightarrow> (if ok then 0 else -2, b))))"

definition notify_reader :: "('p, 'u) uplink_bridge \<Rightarrow> ('p, 'u) uplink_bridge" where
  "notify_reader b = b\<lparr>ub_wakeups := ub_wakeups b + 1\<rparr>"

definition inject_packet :: "(bytes, 'p) queue_ops \<Rightarrow> (packet_buf, 'u) queue_ops \<Rightarrow> bytes \<Rightarrow> nat \<Rightarrow> bytes
    \<Rightarrow> ('p, 'u) uplink_bridge option \<times> idle_state \<Rightarrow> int \<times> ('p, 'u) uplink_bridge option \<times> idle_state" where
  "inject_packet P U fresh now_ms data = (\<lambda>(slot, idle).
     if data = [] \<or> length data > PACKET_CAPACITY - PACKET_HEADROOM then (-3, slot, idle)
     else case slot of
       None \<Rightarrow> (-1, slot, idle)
     | Some b \<Rightarrow>
         if ub_cancelled b then (-1, slot, idle)
         else
           let idle = note_uplink data now_ms idle in
           case copy_in P U fresh data b of
             (code, b) \<Rightarrow>
               (code,
                Some (if code = 0 \<and> length (q_items U (ub_latency b)) + length (q_items U (ub_queue b)) = 1
                      then notify_reader b else b), idle))"

fun inject_each :: "(bytes, 'p) queue_ops \<Rightarrow> (packet_buf, 'u) queue_ops \<Rightarrow> bytes \<Rightarrow> nat \<Rightarrow> bytes list
    \<Rightarrow> nat \<times> nat \<Rightarrow> ('p, 'u) uplink_bridge \<Rightarrow> idle_state \<Rightarrow> (nat \<times> nat) \<times> ('p, 'u) uplink_bridge \<times> idle_state" where
  "inject_each P U fresh now_ms [] counts b idle = (counts, b, idle)"
| "inject_each P U fresh now_ms (data # packets) (queued, failed) b idle =
     (if data = [] then inject_each P U fresh now_ms packets (queued, failed) b idle
      else
        let idle = note_uplink data now_ms idle in
        case copy_in P U fresh data b of
          (code, b) \<Rightarrow>
            inject_each P U fresh now_ms packets (if code = 0 then (queued + 1, failed) else (queued, failed + 1)) b idle)"

definition inject_packets :: "(bytes, 'p) queue_ops \<Rightarrow> (packet_buf, 'u) queue_ops \<Rightarrow> bytes \<Rightarrow> nat \<Rightarrow> bytes list
    \<Rightarrow> ('p, 'u) uplink_bridge option \<times> idle_state \<Rightarrow> int \<times> ('p, 'u) uplink_bridge option \<times> idle_state" where
  "inject_packets P U fresh now_ms packets = (\<lambda>(slot, idle).
     if packets = [] then (0, slot, idle)
     else case slot of
       None \<Rightarrow> (-1, slot, idle)
     | Some b \<Rightarrow>
         if ub_cancelled b then (-1, slot, idle)
         else case inject_each P U fresh now_ms packets (0, 0) b idle of
           ((queued, failed), b, idle) \<Rightarrow>
             if queued > 0 then (0, Some (notify_reader b), idle)
             else (if failed > 0 then -2 else 0, Some b, idle))"

section \<open>Delivering\<close>

text \<open>The calls of the host's callbacks, each with the packets handed over.\<close>

datatype callbacks = No_callback | Single_callback | Batch_callback

definition deliver_downlink :: "callbacks \<Rightarrow> bytes \<Rightarrow> bytes list list" where
  "deliver_downlink cb packet = (if packet = [] then [] else case cb of No_callback \<Rightarrow> [] | _ \<Rightarrow> [[packet]])"

definition deliver_downlink_batch :: "callbacks \<Rightarrow> packet_buf list \<Rightarrow> bytes list list" where
  "deliver_downlink_batch cb packets =
     (if packets = [] then []
      else if cb = Batch_callback then
        (let filled = filter (\<lambda>p. p \<noteq> []) (map pb_slice (take 128 packets)) in if filled = [] then [] else [filled])
      else concat (map (\<lambda>p. deliver_downlink cb (pb_slice p)) packets))"

section \<open>What an injected packet becomes\<close>

definition bridge_items :: "(packet_buf, 'u) queue_ops \<Rightarrow> ('p, 'u) uplink_bridge \<Rightarrow> packet_buf list \<times> packet_buf list" where
  "bridge_items U b = (q_items U (ub_latency b), q_items U (ub_queue b))"

lemma bridge_items_drop [simp]: "bridge_items U (drop_in P p b) = bridge_items U b"
  "bridge_items U (b\<lparr>ub_pool := po\<rparr>) = bridge_items U b" "bridge_items U (notify_reader b) = bridge_items U b"
  by (simp_all add: bridge_items_def drop_in_def notify_reader_def)

text \<open>The queues after the packet \<open>p\<close> was taken in: at the end of its queue, for it perhaps the oldest short packet gone.\<close>

definition taken_in :: "packet_buf \<Rightarrow> packet_buf list \<times> packet_buf list \<Rightarrow> packet_buf list \<times> packet_buf list \<Rightarrow> bool" where
  "taken_in p = (\<lambda>(latency, queue) items'.
     if keep_under_pressure (pb_slice p) then items' = (latency @ [p], queue) \<or> items' = (tl latency @ [p], queue)
     else items' = (latency, queue @ [p]))"

lemma enqueue_uplink_ok:
  assumes "array_queue_ok U" "enqueue_uplink P U p b = (ok, b')"
    and "length (q_items U (ub_latency b)) \<le> q_capacity U (ub_latency b)"
  shows "if ok then taken_in p (bridge_items U b) (bridge_items U b') else bridge_items U b' = bridge_items U b"
proof (cases "keep_under_pressure (pb_slice p)")
  case False
  then show ?thesis
    using assms(2) queue_push_Some(1) [OF assms(1), of p "ub_queue b"]
    by (auto simp: enqueue_uplink_def taken_in_def bridge_items_def drop_in_def split: option.splits)
next
  case True
  show ?thesis
  proof (cases "q_push U p (ub_latency b)")
    case (Some q)
    then show ?thesis using assms(2) True queue_push_Some(1) [OF assms(1) Some]
      by (auto simp: enqueue_uplink_def taken_in_def bridge_items_def)
  next
    case None
    show ?thesis
    proof (cases "q_pop U (ub_latency b)")
      case pop: None
      then show ?thesis using assms(2) True None
        by (auto simp: enqueue_uplink_def Let_def)
    next
      case (Some x)
      obtain old q where x: "x = (old, q)" by fastforce
      note pop = queue_pop_Some [OF assms(1) Some [unfolded x]]
      then have "length (q_items U q) < q_capacity U q" using assms(3) by simp
      then obtain q' where q': "q_push U p q = Some q'"
        using queue_push_None [OF assms(1), of p q] by (cases "q_push U p q") auto
      then show ?thesis
        using assms(2) True None Some x queue_push_Some(1) [OF assms(1) q'] pop(1)
        by (auto simp: enqueue_uplink_def taken_in_def bridge_items_def drop_in_def)
    qed
  qed
qed

lemma new_packet_wf: "length s = PACKET_CAPACITY \<Longrightarrow> wf_packet (new_packet s)"
  by (simp add: wf_packet_def new_packet_def PACKET_CAPACITY_def PACKET_HEADROOM_def)

definition bridge_ok :: "(bytes, 'p) queue_ops \<Rightarrow> (packet_buf, 'u) queue_ops \<Rightarrow> bytes \<Rightarrow> ('p, 'u) uplink_bridge \<Rightarrow> bool" where
  "bridge_ok P U fresh b \<longleftrightarrow> array_queue_ok U \<and> array_queue_ok P
     \<and> length (q_items U (ub_latency b)) \<le> q_capacity U (ub_latency b)
     \<and> (\<forall>storage\<in>set (fresh # q_items P (po_queue (ub_pool b))). length storage = PACKET_CAPACITY)"

lemma copy_in_ok:
  assumes ok: "bridge_ok P U fresh b" and copy: "copy_in P U fresh data b = (code, b')"
  shows "if code = 0 then \<exists>p. pb_slice p = data \<and> taken_in p (bridge_items U b) (bridge_items U b')
    else (code = -2 \<or> code = -3) \<and> bridge_items U b' = bridge_items U b"
proof -
  note U = ok [unfolded bridge_ok_def, THEN conjunct1] and P = ok [unfolded bridge_ok_def, THEN conjunct2, THEN conjunct1]
  obtain a pool where a: "try_acquire P fresh (ub_pool b) = (a, pool)" by fastforce
  show ?thesis
  proof (cases a)
    case None
    then show ?thesis using copy a by (auto simp: copy_in_def)
  next
    case (Some p)
    have wf: "wf_packet p"
    proof -
      have "p = new_packet (pb_storage p) \<and> pb_storage p \<in> set (fresh # q_items P (po_queue (ub_pool b)))"
        using a Some queue_pop_Some(1) [OF P]
        by (fastforce simp: try_acquire_def pool_pop_def new_packet_def split: option.splits)
      then show ?thesis using ok new_packet_wf unfolding bridge_ok_def by metis
    qed
    show ?thesis
    proof (cases "length data \<le> read_area_len")
      case False
      then show ?thesis using copy a Some by (auto simp: copy_in_def Let_def)
    next
      case True
      then obtain q where q: "set_read_len (length data) (write_read_area data p) = Inr q"
        by (auto simp: set_read_len_def read_area_len_def)
      obtain ok b1 where e: "enqueue_uplink P U q (b\<lparr>ub_pool := pool\<rparr>) = (ok, b1)" by fastforce
      have "code = (if ok then 0 else -2)" "b' = b1" using copy a Some True q e by (auto simp: copy_in_def Let_def)
      then show ?thesis
        using enqueue_uplink_ok [OF U e] ok [unfolded bridge_ok_def] read_slice [OF wf True q] by (auto split: if_splits)
    qed
  qed
qed

text \<open>
  An injected packet is queued whole or not at all: code 0 means a buffer with exactly its bytes
  stands at the end of its queue, for it at most the oldest short packet was given up, and every
  other code leaves both queues as they were.
\<close>

theorem injected_packet_is_queued:
  assumes "bridge_ok P U fresh b"
  shows "case inject_packet P U fresh now_ms data (Some b, idle) of
    (code, slot, _) \<Rightarrow> \<exists>b'. slot = Some b' \<and>
      (if code = 0 then \<exists>p. pb_slice p = data \<and> taken_in p (bridge_items U b) (bridge_items U b')
       else code \<in> {-1, -2, -3} \<and> bridge_items U b' = bridge_items U b)"
proof -
  obtain code b' where c: "copy_in P U fresh data b = (code, b')" by fastforce
  show ?thesis
    using copy_in_ok [OF assms c] c by (auto simp: inject_packet_def Let_def)
qed

definition example_bridge :: "(nat \<times> bytes list, nat \<times> packet_buf list) uplink_bridge" where
  "example_bridge = \<lparr>ub_pool = new_pool list_queue 8, ub_queue = q_new list_queue 4, ub_latency = q_new list_queue 4,
     ub_wakeups = 0, ub_cancelled = False\<rparr>"

lemma injected_packet_is_queued_witness:
  "\<forall>idle. case inject_packet list_queue list_queue (replicate PACKET_CAPACITY 0) 0 [1, 2, 3] (Some example_bridge, idle) of
    (code, slot, _) \<Rightarrow> \<exists>b'. slot = Some b' \<and>
      (if code = 0 then \<exists>p. pb_slice p = [1, 2, 3] \<and> taken_in p (bridge_items list_queue example_bridge) (bridge_items list_queue b')
       else code \<in> {-1, -2, -3} \<and> bridge_items list_queue b' = bridge_items list_queue example_bridge)"
  by (rule allI, rule injected_packet_is_queued)
    (simp add: bridge_ok_def list_queue_ok example_bridge_def new_pool_def Let_def, simp add: list_queue_def)

text \<open>A batch hands over every packet that is not empty, in order; batches of returned packets have at most 128.\<close>

lemma delivered_batch:
  assumes "length packets \<le> 128" "cb \<noteq> No_callback"
  shows "concat (deliver_downlink_batch cb packets) = filter (\<lambda>p. p \<noteq> []) (map pb_slice packets)"
proof -
  have "concat (concat (map (\<lambda>p. deliver_downlink Single_callback (pb_slice p)) packets)) = filter (\<lambda>p. p \<noteq> []) (map pb_slice packets)"
    by (induction packets) (auto simp: deliver_downlink_def)
  then show ?thesis
    using assms by (cases cb) (auto simp: deliver_downlink_batch_def Let_def)
qed

end
