(* ===== verification/Turn_Endpoint.thy ===== *)
theory Turn_Endpoint
  imports Chars
begin

text \<open>
  The addresses of TURN relays, \<open>turn_endpoint.rs\<close>: parsing of \<open>turn:\<close> and \<open>turns:\<close> URIs and of bare
  authorities, the overrides of host and port, and the transports each mode admits.
\<close>

section \<open>Types\<close>

datatype transport_mode = Mode_udp | Mode_tcp_tls

datatype wire_transport = Wire_udp | Wire_tcp | Wire_tls

datatype turn_scheme = Scheme_turn | Scheme_turns | Scheme_bare

datatype uri_transport = Uri_udp | Uri_tcp

datatype endpoint_error =
    Unsupported_mode
  | Endpoint_empty
  | Authority_empty
  | Unsupported_transport
  | Duplicate_transport
  | Turns_over_udp
  | Address_malformed
  | Address_unbracketed
  | Turn_host_empty
  | Port_invalid
  | Mode_mismatch

record turn_endpoint =
  te_host :: chars
  te_port :: nat
  te_transport :: wire_transport

definition parse_mode :: "chars \<Rightarrow> endpoint_error + transport_mode" where
  "parse_mode value =
     (let value = to_ascii_lowercase (trim_with is_whitespace value) in
      if value = code_points ''udp'' then Inr Mode_udp
      else if value \<in> {code_points ''tcp'', code_points ''tcp_tls'', code_points ''tcp-tls'', code_points ''tcp/tls''}
      then Inr Mode_tcp_tls
      else Inl Unsupported_mode)"

definition socket_authority :: "turn_endpoint \<Rightarrow> chars" where
  "socket_authority e =
     (if 58 \<in> set (te_host e) then [91] @ te_host e @ [93, 58] @ digits (te_port e)
      else te_host e @ [58] @ digits (te_port e))"

section \<open>Parsing\<close>

definition parse_transport :: "chars \<Rightarrow> endpoint_error + uri_transport" where
  "parse_transport value =
     (let value = to_ascii_lowercase value in
      if value = code_points ''udp'' then Inr Uri_udp
      else if value = code_points ''tcp'' then Inr Uri_tcp
      else Inl Unsupported_transport)"

fun parse_parameters :: "chars list \<Rightarrow> uri_transport option \<Rightarrow> endpoint_error + uri_transport option" where
  "parse_parameters [] found = Inr found"
| "parse_parameters (parameter # parameters) found =
     (let (key, value) = (case split_once 61 parameter of None \<Rightarrow> (parameter, []) | Some kv \<Rightarrow> kv) in
      if to_ascii_lowercase key = code_points ''transport'' then
        (case parse_transport value of
           Inl e \<Rightarrow> Inl e
         | Inr t \<Rightarrow> if found \<noteq> None then Inl Duplicate_transport else parse_parameters parameters (Some t))
      else parse_parameters parameters found)"

definition split_scheme :: "chars \<Rightarrow> turn_scheme \<times> chars" where
  "split_scheme value =
     (let lower = to_ascii_lowercase value in
      if starts_with lower (code_points ''turns:'') then (Scheme_turns, drop 6 value)
      else if starts_with lower (code_points ''turn:'') then (Scheme_turn, drop 5 value)
      else (Scheme_bare, value))"

definition parse_turn_uri :: "chars \<Rightarrow> endpoint_error + (turn_scheme \<times> chars \<times> uri_transport option)" where
  "parse_turn_uri value =
     (let value = trim_with is_whitespace value in
      if value = [] then Inl Endpoint_empty
      else
        let (scheme, value) = split_scheme value;
            (authority, query) = (case split_once 63 value of None \<Rightarrow> (value, []) | Some aq \<Rightarrow> aq)
        in if authority = [] then Inl Authority_empty
           else case parse_parameters (filter (\<lambda>p. p \<noteq> []) (split_at (\<lambda>c. c = 38) query)) None of
             Inl e \<Rightarrow> Inl e
           | Inr transport \<Rightarrow>
               if scheme = Scheme_turns \<and> transport = Some Uri_udp then Inl Turns_over_udp
               else Inr (scheme, authority, transport))"

definition is_supported_turn_uri :: "chars \<Rightarrow> bool" where
  "is_supported_turn_uri value \<longleftrightarrow> (case parse_turn_uri value of Inl _ \<Rightarrow> False | Inr _ \<Rightarrow> True)"

definition default_port :: "turn_scheme \<Rightarrow> nat" where
  "default_port scheme = (case scheme of Scheme_turns \<Rightarrow> 5349 | _ \<Rightarrow> 3478)"

definition parse_port :: "chars \<Rightarrow> endpoint_error + nat" where
  "parse_port s = (case parse_unsigned 65536 s of None \<Rightarrow> Inl Port_invalid | Some n \<Rightarrow> Inr n)"

definition parse_authority :: "chars \<Rightarrow> turn_scheme \<Rightarrow> endpoint_error + (chars \<times> nat)" where
  "parse_authority value scheme =
     (case strip_prefix value [91] of
        Some rest \<Rightarrow>
          (case split_once_text [93, 58] rest of
             None \<Rightarrow>
               if rest \<noteq> [] \<and> last rest = 93 then Inr (butlast rest, default_port scheme) else Inl Address_malformed
           | Some (host, port) \<Rightarrow> map_sum id (\<lambda>n. (host, n)) (parse_port port))
      | None \<Rightarrow>
          if length (filter (\<lambda>c. c = 58) value) > 1 then Inl Address_unbracketed
          else case rsplit_once 58 value of
            Some (host, port) \<Rightarrow>
              if host = [] then Inl Turn_host_empty else map_sum id (\<lambda>n. (host, n)) (parse_port port)
          | None \<Rightarrow> Inr (value, default_port scheme))"

section \<open>Resolving\<close>

definition override :: "chars option \<Rightarrow> chars option" where
  "override value =
     (case value of
        None \<Rightarrow> None
      | Some v \<Rightarrow> let v = trim_with is_whitespace v in if v = [] then None else Some v)"

definition transports_for :: "transport_mode \<Rightarrow> turn_scheme \<Rightarrow> uri_transport option \<Rightarrow> endpoint_error + wire_transport list" where
  "transports_for mode scheme transport =
     (case mode of
        Mode_udp \<Rightarrow>
          if scheme = Scheme_turns \<or> transport = Some Uri_tcp then Inl Mode_mismatch else Inr [Wire_udp]
      | Mode_tcp_tls \<Rightarrow>
          if transport = Some Uri_udp then Inl Mode_mismatch
          else if scheme = Scheme_turns then Inr [Wire_tls]
          else Inr [Wire_tcp])"

definition resolve_turn_endpoints ::
  "chars \<Rightarrow> chars option \<Rightarrow> chars option \<Rightarrow> transport_mode \<Rightarrow> endpoint_error + turn_endpoint list" where
  "resolve_turn_endpoints value override_host override_port mode =
     (case parse_turn_uri value of
        Inl e \<Rightarrow> Inl e
      | Inr (scheme, authority, transport) \<Rightarrow>
          case parse_authority authority scheme of
            Inl e \<Rightarrow> Inl e
          | Inr (original_host, original_port) \<Rightarrow>
              let host = (case override override_host of None \<Rightarrow> original_host | Some h \<Rightarrow> h) in
              case (case override override_port of None \<Rightarrow> Inr original_port | Some p \<Rightarrow> parse_port p) of
                Inl e \<Rightarrow> Inl e
              | Inr port \<Rightarrow>
                  if host = [] then Inl Turn_host_empty
                  else map_sum id (map (\<lambda>t. \<lparr>te_host = host, te_port = port, te_transport = t\<rparr>)) (transports_for mode scheme transport))"

section \<open>Printing and parsing agree\<close>

text \<open>Hosts that can be told from a port: no bracket at the start, and no closing bracket before a colon.\<close>

definition plain_host :: "chars \<Rightarrow> bool" where
  "plain_host h \<longleftrightarrow> h \<noteq> [] \<and> hd h \<noteq> 91 \<and> 93 \<notin> set h"

lemma find_text_append:
  assumes "93 \<notin> set a"
  shows "find_text [93, 58] (a @ 93 # 58 # b) = Some (length a)"
  using assms by (induction a) (auto simp: starts_with_def)

lemma parse_socket_authority:
  assumes "plain_host (te_host e)" "te_port e < 65536"
  shows "parse_authority (socket_authority e) scheme = Inr (te_host e, te_port e)"
proof -
  have port: "parse_port (digits (te_port e)) = Inr (te_port e)"
    using parse_digits [OF assms(2)] by (simp add: parse_port_def)
  have nc: "58 \<notin> set (digits (te_port e))" by (rule digits_no_separator) (simp add: is_digit_def)
  show ?thesis
  proof (cases "58 \<in> set (te_host e)")
    case True
    have "split_once_text [93, 58] (te_host e @ [93, 58] @ digits (te_port e)) = Some (te_host e, digits (te_port e))"
      using find_text_append assms(1) by (simp add: split_once_text_def plain_host_def)
    then show ?thesis
      using True port by (simp add: socket_authority_def parse_authority_def strip_prefix_def starts_with_def)
  next
    case False
    obtain c h where h: "te_host e = c # h" "c \<noteq> 91" using assms(1) by (cases "te_host e") (auto simp: plain_host_def)
    have "rsplit_once 58 (te_host e @ 58 # digits (te_port e)) = Some (te_host e, digits (te_port e))"
      by (rule rsplit_once_append [OF nc])
    moreover have "filter (\<lambda>c. c = 58) (te_host e) = []" "filter (\<lambda>c. c = 58) (digits (te_port e)) = []"
      using False nc by (auto simp: filter_empty_conv)
    ultimately show ?thesis
      using False port h by (simp add: socket_authority_def parse_authority_def strip_prefix_def starts_with_def)
  qed
qed

text \<open>
  The address a relay is connected to is the one it was configured with: what \<open>socket_authority\<close>
  prints of an endpoint with a proper host and port is resolved again, without overrides, to that
  host and port, and in the mode of its transport to one endpoint with it.
\<close>

theorem authority_roundtrip:
  assumes "plain_host (te_host e)" "te_port e < 65536"
  shows "parse_authority (socket_authority e) scheme = Inr (te_host e, te_port e)
    \<and> transports_for (if te_transport e = Wire_udp then Mode_udp else Mode_tcp_tls)
        (if te_transport e = Wire_tls then Scheme_turns else Scheme_turn) None = Inr [te_transport e]"
  using parse_socket_authority [OF assms] by (cases "te_transport e") (simp_all add: transports_for_def)

lemma authority_roundtrip_witness:
  "parse_authority (socket_authority \<lparr>te_host = [58, 58, 49], te_port = 3478, te_transport = Wire_tls\<rparr>) Scheme_turns = Inr ([58, 58, 49], 3478)"
  using authority_roundtrip [of "\<lparr>te_host = [58, 58, 49], te_port = 3478, te_transport = Wire_tls\<rparr>" Scheme_turns]
  by (simp add: plain_host_def)

text \<open>
  An endpoint never leaves the mode it was resolved for, nor the encryption its URI asks for: there is
  exactly one endpoint per resolved URI, its host is not empty and its port fits 16 bits, in UDP mode
  it is UDP, in the other mode it is not, and a \<open>turns:\<close> URI always gives TLS.
\<close>

theorem resolved_endpoint_fits_mode:
  "case resolve_turn_endpoints value override_host override_port mode of
     Inl _ \<Rightarrow> True
   | Inr endpoints \<Rightarrow> \<exists>e. endpoints = [e] \<and> te_host e \<noteq> [] \<and> te_port e < 65536
       \<and> (te_transport e = Wire_udp) = (mode = Mode_udp)
       \<and> (te_transport e = Wire_tls) = (fst (split_scheme (trim_with is_whitespace value)) = Scheme_turns)"
proof -
  have port: "n < 65536" if "parse_port s = Inr n" for s n
    using that by (auto simp: parse_port_def parse_unsigned_def Let_def split: option.splits if_splits)
  have authority: "n < 65536" if "parse_authority v scheme = Inr (h, n)" for v scheme h n
    using that port
    by (auto simp: parse_authority_def default_port_def map_sum_def split: option.splits if_splits sum.splits turn_scheme.splits)
  have scheme: "scheme = fst (split_scheme (trim_with is_whitespace value))" if "parse_turn_uri value = Inr (scheme, a, t)" for scheme a t
    using that by (auto simp: parse_turn_uri_def Let_def split: if_splits prod.splits option.splits sum.splits)
  show ?thesis
    by (auto simp: resolve_turn_endpoints_def Let_def transports_for_def dest: scheme authority port
        split: sum.splits prod.splits option.splits transport_mode.splits if_splits)
qed

section \<open>Seeds\<close>

text \<open>Credentials the host installs for a call hash, \<open>turn_seed.rs\<close>.\<close>

record seed =
  se_username :: chars
  se_password :: chars
  se_addresses :: "chars list"

type_synonym seeds = "(chars, seed) hash_map"

definition clear_seeds :: "seeds \<Rightarrow> seeds" where
  "clear_seeds m = []"

definition install_seed :: "chars \<Rightarrow> chars \<Rightarrow> chars \<Rightarrow> chars list \<Rightarrow> seeds \<Rightarrow> seeds" where
  "install_seed hash username password urls m =
     (let hash = trim_with is_whitespace hash in
      if hash = [] \<or> username = [] \<or> password = [] \<or> urls = [] then m
      else map_insert hash \<lparr>se_username = username, se_password = password, se_addresses = urls\<rparr> m)"

definition lookup_seed :: "chars \<Rightarrow> seeds \<Rightarrow> seed option" where
  "lookup_seed hash m = map_of m (trim_with is_whitespace hash)"

lemma lookup_install:
  assumes "trim_with is_whitespace hash \<noteq> []" "username \<noteq> []" "password \<noteq> []" "urls \<noteq> []"
  shows "lookup_seed other (install_seed hash username password urls m) =
    (if trim_with is_whitespace other = trim_with is_whitespace hash
     then Some \<lparr>se_username = username, se_password = password, se_addresses = urls\<rparr> else lookup_seed other m)"
  using assms by (simp add: lookup_seed_def install_seed_def Let_def)

end
