(* ===== verification/Dns.thy ===== *)
theory Dns
  imports Interfaces
begin

unbundle bit_operations_syntax

text \<open>
  The resolver of \<open>dns.rs\<close>: the query it sends, the parser of the answers, and the cache of 64 names
  that also serves old answers when a query fails. Names are UTF-8 bytes; the sockets and the
  system's resolver are inputs. A result \<open>None\<close> of the parser would be a panic of the code.
\<close>

section \<open>Messages\<close>

definition DNS_A_RECORD :: u16 where "DNS_A_RECORD = 1"
definition DNS_AAAA_RECORD :: u16 where "DNS_AAAA_RECORD = 28"

datatype dns_error =
    Bad_name
  | Bad_label
  | Header_truncated
  | Short_response
  | Foreign_id
  | Not_a_response
  | Wants_tcp
  | Dns_status nat
  | Name_broken
  | Pointer_broken
  | Name_invalid
  | Name_truncated
  | Question_broken
  | Answer_broken
  | Record_broken

datatype ip_address = V4 bytes | V6 bytes

text \<open>The pieces of a text between the separators.\<close>

fun split_bytes :: "u8 \<Rightarrow> bytes \<Rightarrow> bytes list" where
  "split_bytes d [] = [[]]"
| "split_bytes d (c # s) =
     (if c = d then [] # split_bytes d s
      else case split_bytes d s of piece # pieces \<Rightarrow> (c # piece) # pieces | [] \<Rightarrow> [[c]])"

definition trim_end_matches :: "u8 \<Rightarrow> bytes \<Rightarrow> bytes" where
  "trim_end_matches c s = rev (dropWhile (\<lambda>x. x = c) (rev s))"

definition label_ok :: "bytes \<Rightarrow> bool" where
  "label_ok l \<longleftrightarrow> l \<noteq> [] \<and> length l \<le> 63 \<and> list_all (\<lambda>c. c < 128) l"

definition name_bytes :: "bytes list \<Rightarrow> bytes" where
  "name_bytes labels = concat (map (\<lambda>l. word_of_nat (length l) # l) labels) @ [0]"

definition build_query :: "bytes \<Rightarrow> u16 \<Rightarrow> u16 \<Rightarrow> dns_error + bytes" where
  "build_query host query_id record_type =
     (let host = trim_end_matches 46 host in
      if host = [] \<or> length host > 253 then Inl Bad_name
      else if \<not> list_all label_ok (split_bytes 46 host) then Inl Bad_label
      else Inr (to_be16 query_id @ to_be16 0x0100 @ to_be16 1 @ to_be16 0 @ to_be16 0 @ to_be16 0
        @ name_bytes (split_bytes 46 host) @ to_be16 record_type @ to_be16 1))"

definition read_u16 :: "bytes \<Rightarrow> nat \<Rightarrow> dns_error + u16" where
  "read_u16 message offset =
     (case slice message offset (offset + 2) of None \<Rightarrow> Inl Header_truncated | Some bs \<Rightarrow> Inr (from_be16 bs))"

function skip_name :: "bytes \<Rightarrow> nat \<Rightarrow> dns_error + nat" where
  "skip_name message offset =
     (case idx message offset of
        None \<Rightarrow> Inl Name_broken
      | Some len \<Rightarrow>
          if len AND 0xc0 = 0xc0 then
            (if offset + 2 \<le> length message then Inr (offset + 2) else Inl Pointer_broken)
          else if len AND 0xc0 \<noteq> 0 then Inl Name_invalid
          else if len = 0 then Inr (offset + 1)
          else if offset + 1 + unat len \<le> length message then skip_name message (offset + 1 + unat len)
          else Inl Name_truncated)"
  by pat_completeness auto
termination
  by (relation "measure (\<lambda>(message, offset). length message - offset)")
    (auto simp: idx_def split: if_splits)

declare skip_name.simps [simp del]

primrec skip_questions :: "nat \<Rightarrow> bytes \<Rightarrow> nat \<Rightarrow> dns_error + nat" where
  "skip_questions 0 response offset = Inr offset"
| "skip_questions (Suc n) response offset =
     (case skip_name response offset of
        Inl e \<Rightarrow> Inl e
      | Inr offset \<Rightarrow>
          if offset + 4 \<le> length response then skip_questions n response (offset + 4) else Inl Question_broken)"

definition keep_address :: "ip_address \<Rightarrow> ip_address list \<Rightarrow> ip_address list" where
  "keep_address a addresses = (if a \<in> set addresses then addresses else addresses @ [a])"

text \<open>The four reads of an IPv4 address and the slice of an IPv6 address are indexed without a test.\<close>

definition record_addresses :: "bytes \<Rightarrow> u16 \<Rightarrow> u16 \<Rightarrow> nat \<Rightarrow> nat \<Rightarrow> ip_address list \<Rightarrow> ip_address list option" where
  "record_addresses response record_type record_class data_offset data_length addresses =
     (if record_class = 1 \<and> record_type = DNS_A_RECORD \<and> data_length = 4 then
        (case (idx response data_offset, idx response (data_offset + 1), idx response (data_offset + 2), idx response (data_offset + 3)) of
           (Some a, Some b, Some c, Some d) \<Rightarrow> Some (keep_address (V4 [a, b, c, d]) addresses)
         | _ \<Rightarrow> None)
      else if record_class = 1 \<and> record_type = DNS_AAAA_RECORD \<and> data_length = 16 then
        (case slice response data_offset (data_offset + data_length) of
           Some bs \<Rightarrow> Some (keep_address (V6 bs) addresses)
         | None \<Rightarrow> None)
      else Some addresses)"

primrec read_answers :: "nat \<Rightarrow> bytes \<Rightarrow> nat \<Rightarrow> ip_address list \<Rightarrow> (dns_error + ip_address list) option" where
  "read_answers 0 response offset addresses = Some (Inr addresses)"
| "read_answers (Suc n) response offset addresses =
     (case skip_name response offset of
        Inl e \<Rightarrow> Some (Inl e)
      | Inr offset \<Rightarrow>
     (case read_u16 response offset of
        Inl e \<Rightarrow> Some (Inl e)
      | Inr record_type \<Rightarrow>
     (case read_u16 response (offset + 2) of
        Inl e \<Rightarrow> Some (Inl e)
      | Inr record_class \<Rightarrow>
     (case read_u16 response (offset + 8) of
        Inl e \<Rightarrow> Some (Inl e)
      | Inr data_length \<Rightarrow>
          let data_offset = offset + 10 in
          if length response < data_offset then Some (Inl Answer_broken)
          else if length response < data_offset + unat data_length then Some (Inl Record_broken)
          else (case record_addresses response record_type record_class data_offset (unat data_length) addresses of
                  None \<Rightarrow> None
                | Some addresses \<Rightarrow> read_answers n response (data_offset + unat data_length) addresses)))))"

definition parse_response :: "bytes \<Rightarrow> u16 \<Rightarrow> (dns_error + ip_address list) option" where
  "parse_response response query_id =
     (if length response < 12 then Some (Inl Short_response)
      else case read_u16 response 0 of
        Inl e \<Rightarrow> Some (Inl e)
      | Inr i \<Rightarrow>
          if i \<noteq> query_id then Some (Inl Foreign_id)
          else case read_u16 response 2 of
            Inl e \<Rightarrow> Some (Inl e)
          | Inr flags \<Rightarrow>
              if flags AND 0x8000 = 0 then Some (Inl Not_a_response)
              else if flags AND 0x0200 \<noteq> 0 then Some (Inl Wants_tcp)
              else if flags AND 0x000f \<noteq> 0 then Some (Inl (Dns_status (unat (flags AND 0x000f))))
              else case (read_u16 response 4, read_u16 response 6) of
                (Inr questions, Inr answers) \<Rightarrow>
                  (case skip_questions (unat questions) response 12 of
                     Inl e \<Rightarrow> Some (Inl e)
                   | Inr offset \<Rightarrow> read_answers (unat answers) response offset [])
              | (Inl e, _) \<Rightarrow> Some (Inl e)
              | (_, Inl e) \<Rightarrow> Some (Inl e))"

section \<open>The parser never panics\<close>

lemma record_addresses_total:
  "record_addresses response t c data_offset data_length addresses = None \<Longrightarrow> length response < data_offset + data_length"
  by (rule ccontr) (auto simp: record_addresses_def not_less split: if_splits)

lemma read_answers_total: "read_answers n response offset addresses \<noteq> None"
proof (induction n arbitrary: offset addresses)
  case (Suc n)
  then show ?case
    by (auto simp: Let_def not_less split: sum.splits option.splits dest: record_addresses_total)
qed simp

lemma parse_response_total: "parse_response response query_id \<noteq> None"
  using read_answers_total by (auto simp: parse_response_def split: sum.splits)

section \<open>Answers arrive\<close>

text \<open>The answers of a server: the name is a pointer to the question, the lifetime any four bytes.\<close>

definition answer_type :: "ip_address \<Rightarrow> u16" where
  "answer_type a = (case a of V4 _ \<Rightarrow> DNS_A_RECORD | V6 _ \<Rightarrow> DNS_AAAA_RECORD)"

definition answer_data :: "ip_address \<Rightarrow> bytes" where
  "answer_data a = (case a of V4 bs \<Rightarrow> bs | V6 bs \<Rightarrow> bs)"

definition answer_bytes :: "bytes \<Rightarrow> ip_address \<Rightarrow> bytes" where
  "answer_bytes ttl a = [0xc0, 0x0c] @ to_be16 (answer_type a) @ to_be16 1 @ ttl
     @ to_be16 (word_of_nat (length (answer_data a))) @ answer_data a"

definition address_ok :: "ip_address \<Rightarrow> bool" where
  "address_ok a = (case a of V4 bs \<Rightarrow> length bs = 4 | V6 bs \<Rightarrow> length bs = 16)"

text \<open>A reply to a query repeats its question.\<close>

definition reply :: "bytes \<Rightarrow> u16 \<Rightarrow> bytes \<Rightarrow> ip_address list \<Rightarrow> bytes" where
  "reply query query_id ttl addresses =
     to_be16 query_id @ to_be16 0x8180 @ to_be16 1 @ to_be16 (word_of_nat (length addresses)) @ to_be16 0 @ to_be16 0
       @ drop 12 query @ concat (map (answer_bytes ttl) addresses)"

lemma length_be16: "length (to_be16 w) = 2"
  by (simp add: to_be16_def)

lemma short_label: "n \<le> 63 \<Longrightarrow> (word_of_nat n :: u8) AND 0xc0 = 0"
proof -
  assume "n \<le> 63"
  then have "take_bit 6 (word_of_nat n :: u8) = word_of_nat n"
    by (simp add: take_bit_of_nat take_bit_nat_eq_self)
  then have "(word_of_nat n :: u8) AND 0xc0 = (word_of_nat n AND mask 6) AND 0xc0" by (simp add: take_bit_eq_mask)
  also have "\<dots> = word_of_nat n AND (mask 6 AND 0xc0)" by (simp only: and.assoc)
  also have "(mask 6 AND 0xc0 :: u8) = 0" by (simp add: mask_eq_exp_minus_1)
  finally show ?thesis by simp
qed

lemma skip_name_at:
  assumes "list_all label_ok labels"
  shows "skip_name (pre @ name_bytes labels @ post) (length pre) = Inr (length pre + length (name_bytes labels))"
  using assms
proof (induction labels arbitrary: pre)
  case Nil
  then show ?case by (subst skip_name.simps) (simp add: name_bytes_def idx_def)
next
  case (Cons l labels)
  then have l: "l \<noteq> []" "length l \<le> 63" by (simp_all add: label_ok_def)
  have w: "(word_of_nat (length l) :: u8) \<noteq> 0" "unat (word_of_nat (length l) :: u8) = length l"
    using l by (auto simp: unat_of_nat word_of_nat_eq_0_iff dest: dvd_imp_le)
  let ?pre = "pre @ word_of_nat (length l) # l"
  have e: "pre @ name_bytes (l # labels) @ post = ?pre @ name_bytes labels @ post"
    by (simp add: name_bytes_def)
  have "skip_name (?pre @ name_bytes labels @ post) (length pre) = skip_name (?pre @ name_bytes labels @ post) (length ?pre)"
    using w short_label [OF l(2)] by (subst skip_name.simps) (simp add: idx_def nth_append)
  then show ?case
    using Cons.IH [of ?pre] Cons.prems by (simp add: e name_bytes_def)
qed

lemma read_u16_at: "m = x @ to_be16 w @ y \<Longrightarrow> i = length x \<Longrightarrow> read_u16 m i = Inr w"
  using length_be16 [of w] by (simp add: read_u16_def sub_append)

lemma skip_pointer: "skip_name (pre @ 0xc0 # c # post) (length pre) = Inr (length pre + 2)"
  by (subst skip_name.simps) (simp add: idx_def)

lemma record_addresses_data:
  assumes "address_ok a" "m = x @ answer_data a @ y" "off = length x"
  shows "record_addresses m (answer_type a) 1 off (length (answer_data a)) addresses = Some (keep_address a addresses)"
proof (cases a)
  case (V4 bs)
  then obtain b c d e where "bs = [b, c, d, e]" using assms(1) by (auto simp: address_ok_def length_Suc_conv numeral_eq_Suc)
  then show ?thesis using assms V4 by (simp add: record_addresses_def answer_type_def answer_data_def idx_def nth_append)
next
  case (V6 bs)
  then show ?thesis using assms
    by (simp add: record_addresses_def answer_type_def answer_data_def address_ok_def sub_append DNS_A_RECORD_def DNS_AAAA_RECORD_def)
qed

lemma answer_read:
  assumes "address_ok a" "length ttl = 4"
  shows "read_answers (Suc n) (pre @ answer_bytes ttl a @ post) (length pre) addresses
    = read_answers n (pre @ answer_bytes ttl a @ post) (length (pre @ answer_bytes ttl a)) (keep_address a addresses)"
proof -
  let ?d = "answer_data a"
  let ?len = "word_of_nat (length ?d) :: u16"
  define m where "m = pre @ answer_bytes ttl a @ post"
  have l: "unat ?len = length ?d"
    using assms(1) by (simp add: address_ok_def answer_data_def unat_of_nat split: ip_address.splits)
  have skip: "skip_name m (length pre) = Inr (length pre + 2)"
    unfolding m_def answer_bytes_def using skip_pointer by simp
  have t: "read_u16 m (length pre + 2) = Inr (answer_type a)"
    by (rule read_u16_at [of _ "pre @ [0xc0, 0x0c]"]) (simp_all add: m_def answer_bytes_def)
  have c: "read_u16 m (length pre + 2 + 2) = Inr 1"
    by (rule read_u16_at [of _ "pre @ [0xc0, 0x0c] @ to_be16 (answer_type a)"]) (simp_all add: m_def answer_bytes_def length_be16)
  have len: "read_u16 m (length pre + 2 + 8) = Inr ?len"
    by (rule read_u16_at [of _ "pre @ [0xc0, 0x0c] @ to_be16 (answer_type a) @ to_be16 1 @ ttl"])
      (simp_all add: m_def answer_bytes_def length_be16 assms(2))
  have r: "record_addresses m (answer_type a) 1 (length pre + 2 + 10) (length ?d) addresses = Some (keep_address a addresses)"
    by (rule record_addresses_data [OF assms(1), of _ "pre @ [0xc0, 0x0c] @ to_be16 (answer_type a) @ to_be16 1 @ ttl @ to_be16 ?len"])
      (simp_all add: m_def answer_bytes_def length_be16 assms(2))
  have "length m = length pre + 2 + 10 + length ?d + length post"
    "length (pre @ answer_bytes ttl a) = length pre + 2 + 10 + length ?d"
    by (simp_all add: m_def answer_bytes_def length_be16 assms(2))
  then show ?thesis
    unfolding m_def [symmetric] by (simp only: read_answers.simps skip t c len sum.case Let_def l r option.case) simp
qed

lemma answers_read:
  assumes "\<forall>a\<in>set as. address_ok a" "length ttl = 4" "distinct (addresses @ as)"
  shows "read_answers (length as) (pre @ concat (map (answer_bytes ttl) as)) (length pre) addresses = Some (Inr (addresses @ as))"
  using assms
proof (induction as arbitrary: pre addresses)
  case (Cons a as)
  then have "keep_address a addresses = addresses @ [a]" by (auto simp: keep_address_def)
  then show ?case
    using Cons.prems answer_read [of a ttl "length as" pre "concat (map (answer_bytes ttl) as)" addresses]
      Cons.IH [of "addresses @ [a]" "pre @ answer_bytes ttl a"] by simp
qed simp

text \<open>
  C27: Parsing a DNS answer never panics, on any bytes, and a server's answer is understood: the reply to
  a query this code built, with up to 65535 distinct addresses, is read as exactly these addresses.
\<close>

theorem dns_answer_is_understood:
  assumes "build_query host query_id record_type = Inr query" "length ttl = 4"
    and "\<forall>a\<in>set addresses. address_ok a" "distinct addresses" "length addresses < 65536"
  shows "parse_response (reply query query_id ttl addresses) query_id = Some (Inr addresses)
    \<and> (\<forall>response i. parse_response response i \<noteq> None)"
proof -
  define labels where "labels = split_bytes 46 (trim_end_matches 46 host)"
  let ?tail = "to_be16 record_type @ to_be16 1"
  let ?head = "to_be16 query_id @ to_be16 0x8180 @ to_be16 1 @ to_be16 (word_of_nat (length addresses)) @ to_be16 0 @ to_be16 0"
  let ?answers = "concat (map (answer_bytes ttl) addresses)"
  have labels: "list_all label_ok labels" and query: "drop 12 query = name_bytes labels @ ?tail"
    using assms(1) by (auto simp: build_query_def Let_def labels_def length_be16 split: if_splits)
  define m where "m = reply query query_id ttl addresses"
  have m: "m = ?head @ name_bytes labels @ ?tail @ ?answers"
    by (simp add: m_def reply_def query)
  have lh: "length ?head = 12" by (simp add: length_be16)
  have r0: "read_u16 m 0 = Inr query_id" by (rule read_u16_at [of _ "[]"]) (simp_all add: m)
  have r2: "read_u16 m 2 = Inr 0x8180" by (rule read_u16_at [of _ "to_be16 query_id"]) (simp_all add: m length_be16)
  have r4: "read_u16 m 4 = Inr 1" by (rule read_u16_at [of _ "to_be16 query_id @ to_be16 0x8180"]) (simp_all add: m length_be16)
  have r6: "read_u16 m 6 = Inr (word_of_nat (length addresses))"
    by (rule read_u16_at [of _ "to_be16 query_id @ to_be16 0x8180 @ to_be16 1"]) (simp_all add: m length_be16)
  have skip: "skip_name m 12 = Inr (12 + length (name_bytes labels))"
    using skip_name_at [OF labels, of ?head "?tail @ ?answers"] lh by (simp add: m)
  have lm: "length m = 12 + length (name_bytes labels) + 4 + length ?answers"
    by (simp add: m length_be16)
  have q: "skip_questions 1 m 12 = Inr (12 + length (name_bytes labels) + 4)"
    using skip lm by simp
  have a: "read_answers (length addresses) m (12 + length (name_bytes labels) + 4) [] = Some (Inr addresses)"
    using answers_read [of addresses ttl "[]" "?head @ name_bytes labels @ ?tail"] assms(2-4) by (simp add: m length_be16)
  have "unat (word_of_nat (length addresses) :: u16) = length addresses" using assms(5) by (simp add: unat_of_nat)
  then have "parse_response m query_id = Some (Inr addresses)"
    using q a lm by (simp add: parse_response_def r0 r2 r4 r6)
  then show ?thesis using parse_response_total by (simp add: m_def)
qed

lemma dns_answer_is_understood_witness:
  "\<exists>query. build_query [118, 107, 46, 114, 117] 7 1 = Inr query
    \<and> parse_response (reply query 7 [0, 0, 0, 60] [V4 [10, 0, 0, 1], V4 [10, 0, 0, 2]]) 7 = Some (Inr [V4 [10, 0, 0, 1], V4 [10, 0, 0, 2]])"
proof -
  obtain query where q: "build_query [118, 107, 46, 114, 117] 7 1 = Inr query"
    by (simp add: build_query_def trim_end_matches_def label_ok_def)
  then show ?thesis
    using dns_answer_is_understood [OF q, of "[0, 0, 0, 60]" "[V4 [10, 0, 0, 1], V4 [10, 0, 0, 2]]"] by (simp add: address_ok_def)
qed

section \<open>The cache\<close>

definition DNS_CACHE_FRESH :: duration where "DNS_CACHE_FRESH = from_secs 60"
definition DNS_CACHE_STALE_MAX :: duration where "DNS_CACHE_STALE_MAX = from_secs (6 * 60 * 60)"
definition DNS_CACHE_MAX :: nat where "DNS_CACHE_MAX = 64"

record cache_entry =
  ce_addresses :: "ip_address list"
  ce_resolved_at :: instant

type_synonym dns_cache = "(bytes, cache_entry) hash_map"

definition dns_cached :: "bytes \<Rightarrow> duration \<Rightarrow> instant \<Rightarrow> dns_cache \<Rightarrow> ip_address list option" where
  "dns_cached host max_age now m =
     (case map_of m host of
        None \<Rightarrow> None
      | Some entry \<Rightarrow> if now - ce_resolved_at entry \<le> max_age then Some (ce_addresses entry) else None)"

definition dns_remember :: "bytes \<Rightarrow> ip_address list \<Rightarrow> instant \<Rightarrow> dns_cache \<Rightarrow> dns_cache" where
  "dns_remember host addresses now m =
     (let m = (if length m \<ge> DNS_CACHE_MAX \<and> map_of m host = None then
                 (case min_by_key (\<lambda>(_, entry). ce_resolved_at entry) m of
                    None \<Rightarrow> m
                  | Some (key, _) \<Rightarrow> filter (\<lambda>(k, _). k \<noteq> key) m)
               else m)
      in map_insert host \<lparr>ce_addresses = addresses, ce_resolved_at = now\<rparr> m)"

text \<open>
  What the query for a name yields: the answers of the two servers or the time-out, for both record
  types, and the answer of the system's resolver.
\<close>

datatype 'e yandex = Answers "ip_address list" | Timed_out | Query_failed 'e

text \<open>The first answer that is not an error counts; two errors are one, and silence of one server is waited for.\<close>

definition query_yandex :: "('e + ip_address list) option \<Rightarrow> ('e + ip_address list) option \<Rightarrow> ('e \<times> 'e) yandex" where
  "query_yandex first second =
     (case first of
        None \<Rightarrow> Timed_out
      | Some (Inr addresses) \<Rightarrow> Answers addresses
      | Some (Inl e) \<Rightarrow>
          (case second of None \<Rightarrow> Timed_out | Some (Inr addresses) \<Rightarrow> Answers addresses | Some (Inl e') \<Rightarrow> Query_failed (e, e')))"

definition yandex_lookup :: "'e yandex \<Rightarrow> 'e yandex \<Rightarrow> 'e yandex" where
  "yandex_lookup a aaaa = (case a of Answers (x # xs) \<Rightarrow> Answers (x # xs) | Answers [] \<Rightarrow> aaaa | r \<Rightarrow> r)"

definition lookup_uncached :: "'e yandex \<Rightarrow> bool \<Rightarrow> ip_address list option \<Rightarrow> ip_address list option" where
  "lookup_uncached yandex tunnel_active system =
     (case yandex of
        Answers [] \<Rightarrow> None
      | Answers addresses \<Rightarrow> Some addresses
      | Timed_out \<Rightarrow> if tunnel_active then None else system
      | Query_failed _ \<Rightarrow> None)"

definition dns_lookup :: "bytes \<Rightarrow> ip_address option \<Rightarrow> ip_address list option \<Rightarrow> instant \<Rightarrow> dns_cache
    \<Rightarrow> ip_address list option \<times> dns_cache" where
  "dns_lookup host literal uncached now m =
     (case literal of
        Some address \<Rightarrow> (Some [address], m)
      | None \<Rightarrow>
          case dns_cached host DNS_CACHE_FRESH now m of
            Some addresses \<Rightarrow> (Some addresses, m)
          | None \<Rightarrow>
              case uncached of
                Some addresses \<Rightarrow> (Some addresses, dns_remember host addresses now m)
              | None \<Rightarrow> (dns_cached host DNS_CACHE_STALE_MAX now m, m))"

definition cache_inv :: "dns_cache \<Rightarrow> bool" where
  "cache_inv m \<longleftrightarrow> wf_map m \<and> length m \<le> DNS_CACHE_MAX"

lemma remember_inv: "cache_inv m \<Longrightarrow> cache_inv (dns_remember host addresses now m)"
proof -
  assume m: "cache_inv m"
  have known: "host \<in> fst ` set m" if "map_of m host \<noteq> None" using that by (simp add: map_of_eq_None_iff)
  show ?thesis
  proof (cases "length m \<ge> DNS_CACHE_MAX \<and> map_of m host = None")
    case False
    then show ?thesis using m known
      by (auto simp: cache_inv_def dns_remember_def length_map_insert)
  next
    case True
    then have "m \<noteq> []" by (auto simp: DNS_CACHE_MAX_def)
    then obtain key entry where oldest: "min_by_key (\<lambda>(_, entry). ce_resolved_at entry) m = Some (key, entry)"
      using min_by_key_None [of "\<lambda>(_, entry). ce_resolved_at entry" m] by (cases "min_by_key (\<lambda>(_, entry). ce_resolved_at entry) m") auto
    let ?m = "filter (\<lambda>(k, _). k \<noteq> key) m"
    have "(key, entry) \<in> set m" using min_by_key_Some [OF oldest] by simp
    then have "length ?m < length m" by (intro length_filter_less [of "(key, entry)"]) auto
    moreover have "wf_map ?m" using m by (simp add: cache_inv_def wf_map_def distinct_map_filter)
    ultimately show ?thesis
      using True m oldest by (auto simp: cache_inv_def dns_remember_def length_map_insert)
  qed
qed

lemma lookup_inv: "cache_inv m \<Longrightarrow> cache_inv (snd (dns_lookup host literal uncached now m))"
  by (auto simp: dns_lookup_def remember_inv split: option.splits)

text \<open>A lookup: name, parsed literal, the result of a query, the time.\<close>

interpretation dns_cache: bounded_machine "\<lambda>(host, literal, uncached, now) m. snd (dns_lookup host literal uncached now m)"
  cache_inv length DNS_CACHE_MAX
  by unfold_locales (auto simp: lookup_inv, simp add: cache_inv_def)

lemma dns_cache_bounded:
  "length (fold (\<lambda>(host, literal, uncached, now) m. snd (dns_lookup host literal uncached now m)) calls []) \<le> DNS_CACHE_MAX"
  by (rule dns_cache.run_bounded) (simp add: cache_inv_def DNS_CACHE_MAX_def)

text \<open>No answer is older than six hours, and a name resolved within the last minute is not queried.\<close>

lemma dns_lookup_age:
  assumes "dns_lookup host None uncached now m = (Some addresses, m')"
  shows "uncached = Some addresses \<or> (\<exists>entry. map_of m host = Some entry \<and> ce_addresses entry = addresses
    \<and> now - ce_resolved_at entry \<le> DNS_CACHE_STALE_MAX)"
  using assms
  by (auto simp: dns_lookup_def dns_cached_def DNS_CACHE_FRESH_def DNS_CACHE_STALE_MAX_def from_secs_def
      split: option.splits if_splits)

section \<open>Asking a server, the system, and for a socket\<close>

type_synonym ip_socket = "ip_address \<times> u16"

definition YANDEX_DNS_SERVERS :: "ip_socket list" where
  "YANDEX_DNS_SERVERS = [(V4 [77, 88, 8, 8], 53), (V4 [77, 88, 8, 1], 53)]"

datatype query_error = Socket_refused | Query_not_sent | Receive_failed | Bad_reply dns_error

text \<open>
  What arrives at the socket: an error, or a datagram with its source. \<open>None\<close>: the query is still waiting
  when the list ends, until the time-out of \<open>query_yandex\<close>.
\<close>

primrec await_reply :: "ip_socket \<Rightarrow> u16 \<Rightarrow> (bytes \<times> ip_socket) option list \<Rightarrow> (query_error + ip_address list) option" where
  "await_reply server query_id [] = None"
| "await_reply server query_id (arrival # arrivals) =
     (case arrival of
        None \<Rightarrow> Some (Inl Receive_failed)
      | Some (datagram, source) \<Rightarrow>
          if source \<noteq> server then await_reply server query_id arrivals
          else (case parse_response (take 1500 datagram) query_id of
                  None \<Rightarrow> None
                | Some (Inl e) \<Rightarrow> Some (Inl (Bad_reply e))
                | Some (Inr addresses) \<Rightarrow> Some (Inr addresses)))"

definition query_dns_server ::
  "bool \<Rightarrow> bool \<Rightarrow> ip_socket \<Rightarrow> u16 \<Rightarrow> (bytes \<times> ip_socket) option list \<Rightarrow> (query_error + ip_address list) option" where
  "query_dns_server bound_ok sent_ok server query_id arrivals =
     (if \<not> bound_ok then Some (Inl Socket_refused)
      else if \<not> sent_ok then Some (Inl Query_not_sent)
      else await_reply server query_id arrivals)"

text \<open>The system's resolver: its answers with their ports, without repetitions.\<close>

definition system_lookup :: "ip_socket list option \<Rightarrow> ip_address list option" where
  "system_lookup answers =
     (case answers of
        None \<Rightarrow> None
      | Some sockets \<Rightarrow>
          let addresses = fold (\<lambda>(a, _). keep_address a) sockets []
          in if addresses = [] then None else Some addresses)"

definition resolve_name :: "ip_address list option \<Rightarrow> ip_socket list option" where
  "resolve_name answer = map_option (map (\<lambda>a. (a, 0))) answer"

datatype resolve_error = Bad_address | No_host | No_port | Lookup_failed | Nothing_found

text \<open>
  \<open>literal\<close> is the address when the text is one, \<open>url\<close> what the \<open>url\<close> library makes of it: its host and its
  port, either of which may be missing.
\<close>

definition resolve_socket ::
  "ip_socket option \<Rightarrow> (bytes option \<times> u16 option) option \<Rightarrow> (bytes \<Rightarrow> ip_address list option) \<Rightarrow> resolve_error + ip_socket" where
  "resolve_socket literal url lookup_host =
     (case literal of
        Some address \<Rightarrow> Inr address
      | None \<Rightarrow>
          case url of
            None \<Rightarrow> Inl Bad_address
          | Some (None, _) \<Rightarrow> Inl No_host
          | Some (Some host, None) \<Rightarrow> Inl No_port
          | Some (Some host, Some port) \<Rightarrow>
              case lookup_host host of
                None \<Rightarrow> Inl Lookup_failed
              | Some [] \<Rightarrow> Inl Nothing_found
              | Some (ip # _) \<Rightarrow> Inr (ip, port))"

text \<open>Datagrams from anywhere but the server do not matter.\<close>

lemma other_sources_are_ignored:
  "await_reply server query_id (filter (\<lambda>a. case a of None \<Rightarrow> True | Some (_, source) \<Rightarrow> source = server) arrivals)
   = await_reply server query_id arrivals"
  by (induction arrivals) (auto split: option.splits)

text \<open>
  But the first datagram that carries the server's address decides, whatever its identifier: a reply with
  a foreign one ends the query, and a right reply after it is not read.
\<close>

theorem foreign_identifier_ends_the_query:
  assumes "12 \<le> length datagram" "length datagram \<le> 1500" "read_u16 datagram 0 = Inr i" "i \<noteq> query_id"
  shows "query_dns_server True True server query_id (Some (datagram, server) # arrivals) = Some (Inl (Bad_reply Foreign_id))"
  using assms by (simp add: query_dns_server_def parse_response_def)

text \<open>The addresses of the system come once each, in the order of its answer.\<close>

lemma keep_addresses:
  "distinct acc \<Longrightarrow> distinct (fold (\<lambda>(a, _). keep_address a) sockets acc)
     \<and> set (fold (\<lambda>(a, _). keep_address a) sockets acc) = set acc \<union> fst ` set sockets"
proof (induction sockets arbitrary: acc)
  case Nil
  then show ?case by simp
next
  case (Cons s sockets)
  obtain a port where s: "s = (a, port)" by (cases s)
  have "distinct (keep_address a acc)" "set (keep_address a acc) = insert a (set acc)"
    using Cons.prems by (auto simp: keep_address_def)
  then show ?case using Cons.IH [of "keep_address a acc"] by (simp add: s)
qed

theorem system_addresses:
  "system_lookup answers = Some addresses \<Longrightarrow> distinct addresses \<and> addresses \<noteq> [] \<and> set addresses = fst ` set (the answers)"
  using keep_addresses [of "[]"] by (auto simp: system_lookup_def Let_def split: option.splits if_splits)

end
