(* ===== verification/Session.thy ===== *)
theory Session
  imports Handshake Shutdown Recovery Replay_Window Turn_Endpoint Dispatch Worker_Retry
begin

text \<open>
  A session of a worker, the rest of \<open>session.rs\<close>: the choice of the relay, the phases of
  \<open>run_session\<close> around the allocation, the loop that waits for whatever ends the session first and what it leaves
  behind, and the reader that tells control messages from packets. The waiting itself is the
  runtime's; which of the awaited things are ready when the task runs is an input.
\<close>

section \<open>The relay\<close>

record relay_choice =
  rc_id :: nat
  rc_cursor :: nat
  rc_turn_host :: "chars option"
  rc_turn_port :: "chars option"
  rc_turn_transport :: transport_mode

definition turn_endpoint_index :: "nat \<Rightarrow> nat \<Rightarrow> nat \<Rightarrow> nat" where
  "turn_endpoint_index i cursor endpoint_count = (i mod endpoint_count + cursor mod endpoint_count) mod endpoint_count"

definition endpoints_of :: "relay_choice \<Rightarrow> chars \<Rightarrow> endpoint_error + turn_endpoint list" where
  "endpoints_of rc address = resolve_turn_endpoints address (rc_turn_host rc) (rc_turn_port rc) (rc_turn_transport rc)"

text \<open>\<open>None\<close> when no address suits the transport.\<close>

definition select_turn_address :: "chars list \<Rightarrow> relay_choice \<Rightarrow> chars option" where
  "select_turn_address addresses rc =
     (let n = length addresses;
          start = turn_endpoint_index (rc_id rc) (rc_cursor rc) n
      in find (\<lambda>address. \<not> isl (endpoints_of rc address)) (map (\<lambda>offset. addresses ! ((start + offset) mod n)) [0..<n]))"

definition turn_path_key :: "chars \<Rightarrow> relay_choice \<Rightarrow> endpoint_error option + chars" where
  "turn_path_key address rc =
     (case endpoints_of rc address of
        Inl e \<Rightarrow> Inl (Some e)
      | Inr [] \<Rightarrow> Inl None
      | Inr (endpoint # _) \<Rightarrow> Inr (socket_authority endpoint))"

section \<open>The reader\<close>

datatype inbound = Received packet_buf | Receive_failed error_chain

text \<open>
  \<open>TransportReader::recv\<close> over what the allocation yields: \<open>None\<close> inside while it still waits. The outer
  \<open>None\<close> is the panic of \<open>unwrap\<close>.
\<close>

fun transport_recv :: "obfs_cipher \<Rightarrow> obfs_config \<Rightarrow> inbound list \<Rightarrow> replay_window
    \<Rightarrow> ((error_chain + packet_buf) option \<times> inbound list \<times> replay_window) option" where
  "transport_recv C config [] w = Some (None, [], w)"
| "transport_recv C config (Receive_failed e # es) w = Some (Some (Inl (add_context (ascii ''TURN allocation receive'') e)), es, w)"
| "transport_recv C config (Received p # es) w =
     (case authenticate_inbound C config w p of
        None \<Rightarrow> None
      | Some (Some q, w) \<Rightarrow> Some (Some (Inr q), es, w)
      | Some (None, w) \<Rightarrow> transport_recv C config es w)"

record 'q reader_state =
  rd_repair :: "repair_slot list"
  rd_idle :: idle_state
  rd_shutdown :: shutdown_state
  rd_configs :: "bytes list"
  rd_config_capacity :: nat
  rd_panel_restarts :: nat
  rd_lanes :: "'q lanes"

definition forward_config :: "bytes \<Rightarrow> 'q reader_state \<Rightarrow> 'q reader_state" where
  "forward_config config s =
     (if length (rd_configs s) < rd_config_capacity s then s\<lparr>rd_configs := rd_configs s @ [config]\<rparr> else s)"

text \<open>Identifiers of parked workers are struck off a repair command.\<close>

definition unparked :: "idle_state \<Rightarrow> stream_command \<Rightarrow> stream_command" where
  "unparked idle command = command\<lparr>sc_worker_ids := filter (\<lambda>w. allows (unat w) idle) (sc_worker_ids command)\<rparr>"

text \<open>What the reader does with an authentic packet.\<close>

definition reader_packet :: "(queued_packet, 'q) queue_ops \<Rightarrow> 'q force \<Rightarrow> packet_buf \<Rightarrow> 'q reader_state \<Rightarrow> 'q reader_state" where
  "reader_packet Q F packet s =
     (let bytes = pb_slice packet in
      if is_panel_restart_notice bytes then s\<lparr>rd_panel_restarts := rd_panel_restarts s + 1\<rparr>
      else case parse_stream_repair bytes of
        Some command \<Rightarrow> s\<lparr>rd_repair := snd (apply_repair (unparked (rd_idle s) command) (rd_repair s))\<rparr>
      | None \<Rightarrow>
      (case parse_stream_alive bytes of
        Some command \<Rightarrow> s\<lparr>rd_repair := snd (apply_alive command (rd_repair s))\<rparr>
      | None \<Rightarrow>
          let (observed, shutdown) = observe_control_response bytes (rd_shutdown s) in
          if observed then s\<lparr>rd_shutdown := shutdown\<rparr>
          else if starts_with bytes (ascii ''TUNCONF:'') then
            (case parse_config_response bytes of Inr (Config config) \<Rightarrow> forward_config config s | _ \<Rightarrow> s)
          else if is_control_response bytes then s
          else s\<lparr>rd_lanes := return_packet Q F packet (rd_lanes s)\<rparr>))"

lemma transport_recv_shorter:
  "transport_recv C config es w = Some (Some r, es', w') \<Longrightarrow> length es' < length es"
proof (induction es arbitrary: w)
  case (Cons e es)
  then show ?case by (cases e) (fastforce split: option.splits intro: less_SucI)+
qed simp

text \<open>The error the loop ends with, or nothing while it waits for more; a cancellation ends it there without an error.\<close>

function reader_loop :: "obfs_cipher \<Rightarrow> obfs_config \<Rightarrow> (queued_packet, 'q) queue_ops \<Rightarrow> 'q force \<Rightarrow> inbound list \<Rightarrow> replay_window
    \<Rightarrow> 'q reader_state \<Rightarrow> (error_chain option \<times> replay_window \<times> 'q reader_state) option" where
  "reader_loop C config Q F es w s =
     (case transport_recv C config es w of
        None \<Rightarrow> None
      | Some (None, _, w) \<Rightarrow> Some (None, w, s)
      | Some (Some (Inl e), _, w) \<Rightarrow> Some (Some e, w, s)
      | Some (Some (Inr p), es, w) \<Rightarrow> reader_loop C config Q F es w (reader_packet Q F p s))"
  by pat_completeness auto
termination
  by (relation "measure (\<lambda>(C, config, Q, F, es, w, s). length es)") (auto dest: transport_recv_shorter)

declare reader_loop.simps [simp del]

section \<open>What ends a session\<close>

text \<open>What is ready when the loop looks; the texts of the three planned endings.\<close>

record session_ready =
  sr_cancelled :: bool
  sr_rebind :: bool
  sr_parked :: bool
  sr_announced :: bool
  sr_repair :: bool
  sr_writer :: "(error_chain option) option"
  sr_reader :: "(error_chain option) option"

datatype session_branch =
    Br_cancelled
  | Br_rebind
  | Br_parked
  | Br_announce
  | Br_repair
  | Br_writer "error_chain option"
  | Br_reader "error_chain option"

definition plain_error :: "string \<Rightarrow> error_chain" where
  "plain_error s = [\<lparr>ca_text = ascii s, ca_type = Plain\<rparr>]"

text \<open>The biased \<open>select!\<close>: the first branch that is ready.\<close>

definition select_branch :: "session_ready \<Rightarrow> session_branch option" where
  "select_branch r =
     (if sr_cancelled r then Some Br_cancelled
      else if sr_rebind r then Some Br_rebind
      else if sr_parked r then Some Br_parked
      else if sr_announced r then Some Br_announce
      else if sr_repair r then Some Br_repair
      else case sr_writer r of Some result \<Rightarrow> Some (Br_writer result)
      | None \<Rightarrow> map_option Br_reader (sr_reader r))"

text \<open>The result the loop breaks with and the number of the task that has completed; none for an announcement.\<close>

definition branch_result :: "session_branch \<Rightarrow> (error_chain option \<times> nat) option" where
  "branch_result b =
     (case b of
        Br_cancelled \<Rightarrow> Some (None, 0)
      | Br_rebind \<Rightarrow> Some (Some (plain_error ''NET_REBIND''), 0)
      | Br_parked \<Rightarrow> Some (Some (plain_error ''IDLE_PARK''), 0)
      | Br_announce \<Rightarrow> None
      | Br_repair \<Rightarrow> Some (Some (plain_error ''TARGET_REPAIR''), 0)
      | Br_writer result \<Rightarrow> Some (result, 1)
      | Br_reader result \<Rightarrow> Some (result, 2))"

text \<open>
  An announcement sends the registration again; when the writer took it, the path has joined with the
  offset that was sent.
\<close>

definition announce_again :: "session_config \<Rightarrow> bool \<Rightarrow> idle_state \<Rightarrow> bytes \<times> idle_state" where
  "announce_again config sent idle =
     (case build_registration_payload config idle of
        (payload, offset) \<Rightarrow> (payload, if sent then note_path_joined (cf_id config) offset idle else idle))"

text \<open>
  The loop over the moments it looks at, each with the idle state and whether a registration would be
  sent: the requests sent again and the result, \<open>None\<close> while the session goes on.
\<close>

fun session_loop :: "session_config \<Rightarrow> (session_ready \<times> bool) list \<Rightarrow> idle_state
    \<Rightarrow> bytes list \<times> idle_state \<times> (error_chain option \<times> nat) option" where
  "session_loop config [] idle = ([], idle, None)"
| "session_loop config ((r, sent) # rs) idle =
     (case select_branch r of
        None \<Rightarrow> session_loop config rs idle
      | Some b \<Rightarrow>
          (case branch_result b of
             Some result \<Rightarrow> ([], idle, Some result)
           | None \<Rightarrow>
               (case announce_again config sent idle of
                  (payload, idle) \<Rightarrow>
                    (case session_loop config rs idle of (payloads, idle, result) \<Rightarrow> (payload # payloads, idle, result)))))"

definition should_note_path_lost :: "error_chain \<Rightarrow> bool" where
  "should_note_path_lost error \<longleftrightarrow>
     (let text = to_text error in
      if contains text ''IDLE_PARK'' \<or> contains text ''NET_REBIND'' \<or> contains text ''TARGET_REPAIR'' then False
      else \<not> error_is_allocation_mismatch error)"

definition note_session_end :: "nat \<Rightarrow> error_chain option \<Rightarrow> idle_state \<Rightarrow> idle_state" where
  "note_session_end worker result idle =
     (case result of
        Some e \<Rightarrow> if should_note_path_lost e then note_path_lost worker idle else idle
      | None \<Rightarrow> idle)"

text \<open>The tasks aborted, by the number of the completed one: 1 is the writer, 2 the reader.\<close>

definition stop_session_tasks :: "nat \<Rightarrow> nat set" where
  "stop_session_tasks completed = (if completed = 0 then {1, 2} else if completed = 1 then {2} else {1})"

text \<open>What the session leaves in its lanes goes to other workers; its own lanes are shut for new packets first.\<close>

definition leave_packets :: "(queued_packet, 'q) queue_ops \<Rightarrow> 'q force \<Rightarrow> nat list \<Rightarrow> nat \<Rightarrow> 'q store \<Rightarrow> 'q store" where
  "leave_packets Q F workers self st =
     (let st = st(self := mark_unhealthy (st self)) in
      case drain_uplink Q (st self) of
        (packets, w) \<Rightarrow> redispatch_all Q F workers packets (st(self := w)))"

section \<open>Active connections\<close>

text \<open>The count of the statistics, the count of paths, and the events of the last one gone.\<close>

record active_counts =
  ac_connections :: int
  ac_paths :: int
  ac_zero_events :: nat

definition connection_new :: "active_counts \<Rightarrow> active_counts" where
  "connection_new s = s\<lparr>ac_connections := ac_connections s + 1, ac_paths := ac_paths s + 1\<rparr>"

definition connection_drop :: "active_counts \<Rightarrow> active_counts" where
  "connection_drop s =
     s\<lparr>ac_paths := ac_paths s - 1, ac_connections := ac_connections s - 1,
       ac_zero_events := ac_zero_events s + (if ac_connections s = 1 then 1 else 0)\<rparr>"

section \<open>The phases around the allocation\<close>

text \<open>
  What happened in each phase. A cancellation while connecting waits one more second for the allocation,
  to give it back.
\<close>

datatype connect_phase =
    Connect_done
  | Connect_failed error_chain
  | Connect_cancelled bool
  | Connect_rebind

datatype channel_phase = Channel_ready | Channel_failed error_chain | Channel_cancelled

datatype phase_effect = Allocation_started | Allocation_ready | Deallocated | Dropped

text \<open>The texts of the source, in UTF-8.\<close>

definition no_turn_url_text :: message_text where
  "no_turn_url_text = [0xD0, 0xBD, 0xD0, 0xB5, 0xD1, 0x82] @ ascii '' TURN URL '' @ [0xD0, 0xB2, 0x20, 0xD1, 0x83, 0xD1, 0x87, 0xD1, 0x91, 0xD1, 0x82, 0xD0, 0xBD, 0xD1, 0x8B, 0xD1, 0x85, 0x20, 0xD0, 0xB4, 0xD0, 0xB0, 0xD0, 0xBD, 0xD0, 0xBD, 0xD1, 0x8B, 0xD1, 0x85]"

definition no_turn_endpoint_text :: message_text where
  "no_turn_endpoint_text = [0xD0, 0x9D, 0xD0, 0xB5, 0xD1, 0x82] @ ascii '' TURN endpoint '' @ [0xD0, 0xB4, 0xD0, 0xBB, 0xD1, 0x8F, 0x20, 0xD0, 0xB2, 0xD1, 0x8B, 0xD0, 0xB1, 0xD1, 0x80, 0xD0, 0xB0, 0xD0, 0xBD, 0xD0, 0xBD, 0xD0, 0xBE, 0xD0, 0xB3, 0xD0, 0xBE, 0x20, 0xD1, 0x82, 0xD1, 0x80, 0xD0, 0xB0, 0xD0, 0xBD, 0xD1, 0x81, 0xD0, 0xBF, 0xD0, 0xBE, 0xD1, 0x80, 0xD1, 0x82, 0xD0, 0xB0]"

definition channel_required_text :: message_text where
  "channel_required_text = ascii ''TURN ChannelBind '' @ [0xD0, 0xBE, 0xD0, 0xB1, 0xD1, 0x8F, 0xD0, 0xB7, 0xD0, 0xB0, 0xD1, 0x82, 0xD0, 0xB5, 0xD0, 0xBB, 0xD0, 0xB5, 0xD0, 0xBD]"

text \<open>\<open>explain\<close> is the chain of an endpoint's own error.\<close>

definition run_session :: "(endpoint_error \<Rightarrow> error_chain) \<Rightarrow> chars list \<Rightarrow> relay_choice \<Rightarrow> connect_phase \<Rightarrow> channel_phase \<Rightarrow> (error_chain + bool)
    \<Rightarrow> (error_chain + bool) \<times> phase_effect list" where
  "run_session explain addresses rc connect channel session =
     (if addresses = [] then (Inl [\<lparr>ca_text = no_turn_url_text, ca_type = Plain\<rparr>], [])
      else case select_turn_address addresses rc of
        None \<Rightarrow> (Inl [\<lparr>ca_text = no_turn_endpoint_text, ca_type = Plain\<rparr>], [])
      | Some address \<Rightarrow>
          case turn_path_key address rc of
            Inl None \<Rightarrow> (Inl (plain_error ''TURN endpoint list is empty''), [])
          | Inl (Some e) \<Rightarrow> (Inl (add_context (ascii ''TURN endpoint is invalid'') (explain e)), [])
          | Inr _ \<Rightarrow>
          (case connect of
            Connect_failed e \<Rightarrow> (Inl (wrap_allocate_error e), [Allocation_started])
          | Connect_cancelled finished \<Rightarrow> (Inr False, Allocation_started # (if finished then [Deallocated] else []))
          | Connect_rebind \<Rightarrow> (Inl (plain_error ''NET_REBIND''), [Allocation_started])
          | Connect_done \<Rightarrow>
              (case channel of
                 Channel_cancelled \<Rightarrow> (Inr False, [Allocation_started, Allocation_ready, Deallocated])
               | Channel_failed e \<Rightarrow>
                   (Inl (add_context channel_required_text e), [Allocation_started, Allocation_ready, Deallocated])
               | Channel_ready \<Rightarrow>
                   (session,
                    [Allocation_started, Allocation_ready,
                     if (case session of Inl e \<Rightarrow> contains (to_text e) ''NET_REBIND'' | Inr _ \<Rightarrow> False) then Dropped else Deallocated]))))"

text \<open>How the task of the session ended: with its result, by a panic or otherwise, each with the text of the cause.\<close>

datatype task_end = Task_returned "error_chain + bool" | Task_panicked message_text | Task_stopped message_text

definition isolated_panic_text :: message_text where
  "isolated_panic_text = [0xD0, 0xBF, 0xD0, 0xB0, 0xD0, 0xBD, 0xD0, 0xB8, 0xD0, 0xBA, 0xD0, 0xB0, 0x20, 0xD1, 0x81, 0xD0, 0xB5, 0xD1, 0x81, 0xD1, 0x81, 0xD0, 0xB8, 0xD0, 0xB8, 0x20, 0xD0, 0xB8, 0xD0, 0xB7, 0xD0, 0xBE, 0xD0, 0xBB, 0xD0, 0xB8, 0xD1, 0x80, 0xD0, 0xBE, 0xD0, 0xB2, 0xD0, 0xB0, 0xD0, 0xBD, 0xD0, 0xB0, 0x3A, 0x20]"

definition crashed_task_text :: message_text where
  "crashed_task_text = [0xD0, 0xB7, 0xD0, 0xB0, 0xD0, 0xB4, 0xD0, 0xB0, 0xD1, 0x87, 0xD0, 0xB0, 0x20, 0xD1, 0x81, 0xD0, 0xB5, 0xD1, 0x81, 0xD1, 0x81, 0xD0, 0xB8, 0xD0, 0xB8, 0x20, 0xD0, 0xB7, 0xD0, 0xB0, 0xD0, 0xB2, 0xD0, 0xB5, 0xD1, 0x80, 0xD1, 0x88, 0xD0, 0xB5, 0xD0, 0xBD, 0xD0, 0xB0, 0x20, 0xD0, 0xB0, 0xD0, 0xB2, 0xD0, 0xB0, 0xD1, 0x80, 0xD0, 0xB8, 0xD0, 0xB9, 0xD0, 0xBD, 0xD0, 0xBE, 0x3A, 0x20]"

text \<open>
  The task is awaited; after a cancellation it has \<open>SESSION_SHUTDOWN_GRACE\<close> more, and is aborted
  if it does not use it (the second \<open>None\<close>).
\<close>

definition await_session_task :: "task_end option \<Rightarrow> task_end option \<Rightarrow> error_chain + bool" where
  "await_session_task before_cancel in_grace =
     (case before_cancel of
        Some (Task_returned r) \<Rightarrow> r
      | Some (Task_panicked e) \<Rightarrow> Inl [\<lparr>ca_text = isolated_panic_text @ e, ca_type = Plain\<rparr>]
      | Some (Task_stopped e) \<Rightarrow> Inl [\<lparr>ca_text = crashed_task_text @ e, ca_type = Plain\<rparr>]
      | None \<Rightarrow>
          (case in_grace of
             Some (Task_returned r) \<Rightarrow> r
           | Some (Task_panicked e) \<Rightarrow> Inl [\<lparr>ca_text = ascii ''session panicked during graceful shutdown: '' @ e, ca_type = Plain\<rparr>]
           | Some (Task_stopped e) \<Rightarrow> Inl [\<lparr>ca_text = ascii ''session stopped during graceful shutdown: '' @ e, ca_type = Plain\<rparr>]
           | None \<Rightarrow> Inr False))"

section \<open>The life of a session\<close>

text \<open>
  The state the sessions share. The lanes of a worker are those of its incarnation, the handle of the
  store.
\<close>

record 'q shared_parts =
  sp_workers :: "worker list"
  sp_shutdown :: shutdown_state
  sp_repair :: "repair_slot list"
  sp_counts :: active_counts
  sp_idle :: idle_state
  sp_flags :: config_flags
  sp_store :: "'q store"
  sp_next_incarnation :: u64

definition WORKER_LATENCY_CAPACITY :: nat where "WORKER_LATENCY_CAPACITY = datagram_batch Small"
definition WORKER_PRIORITY_CAPACITY :: nat where "WORKER_PRIORITY_CAPACITY = datagram_batch Medium"
definition WORKER_BULK_CAPACITY :: nat where "WORKER_BULK_CAPACITY = datagram_batch Bulk"

definition new_channels :: "(queued_packet, 'q) queue_ops \<Rightarrow> worker \<Rightarrow> 'q channels" where
  "new_channels Q w =
     \<lparr>wk_id = wk_id w, wk_incarnation = wk_incarnation w, wk_path = wk_path w,
      wc_latency = packet_channel Q WORKER_LATENCY_CAPACITY True, wc_priority = packet_channel Q WORKER_PRIORITY_CAPACITY True,
      wc_bulk = packet_channel Q WORKER_BULK_CAPACITY True, wc_healthy = True\<rparr>"

definition next_incarnation :: "'q shared_parts \<Rightarrow> u64 \<times> 'q shared_parts" where
  "next_incarnation s = (max (sp_next_incarnation s) 1, s\<lparr>sp_next_incarnation := sp_next_incarnation s + 1\<rparr>)"

definition session_joins :: "(queued_packet, 'q) queue_ops \<Rightarrow> worker \<Rightarrow> 'q shared_parts \<Rightarrow> 'q shared_parts" where
  "session_joins Q w s =
     s\<lparr>sp_store := (sp_store s)(unat (wk_incarnation w) := new_channels Q w),
       sp_shutdown := shutdown_register (unat (wk_incarnation w)) (sp_shutdown s),
       sp_workers := register w (sp_workers s),
       sp_repair := mark_ready (wk_id w) (sp_repair s),
       sp_counts := connection_new (sp_counts s)\<rparr>"

definition session_leaves :: "(queued_packet, 'q) queue_ops \<Rightarrow> 'q force \<Rightarrow> worker \<Rightarrow> error_chain option \<Rightarrow> 'q shared_parts \<Rightarrow> 'q shared_parts" where
  "session_leaves Q F w result s =
     s\<lparr>sp_idle := note_session_end (wk_id w) result (sp_idle s),
       sp_store := leave_packets Q F (map (\<lambda>v. unat (wk_incarnation v)) (sp_workers s)) (unat (wk_incarnation w)) (sp_store s),
       sp_counts := connection_drop (sp_counts s),
       sp_workers := unregister (wk_id w) (wk_incarnation w) (sp_workers s),
       sp_shutdown := shutdown_unregister (unat (wk_incarnation w)) (sp_shutdown s)\<rparr>"

definition complete_delivery :: "bool \<Rightarrow> bool \<Rightarrow> 'q shared_parts \<Rightarrow> 'q shared_parts" where
  "complete_delivery has_delivery delivered s =
     (if has_delivery then s\<lparr>sp_flags := delivery_complete delivered (sp_flags s)\<rparr> else s)"

text \<open>
  \<open>life\<close> is what happens between the two: everything the other tasks do to the shared state while the
  loop waits, and the result the loop breaks with.
\<close>

definition run_allocated_session :: "(queued_packet, 'q) queue_ops \<Rightarrow> 'q force \<Rightarrow> session_config \<Rightarrow> bytes \<Rightarrow> bool
    \<Rightarrow> (error_chain + bool) \<Rightarrow> (worker \<Rightarrow> 'q shared_parts \<Rightarrow> error_chain option \<times> 'q shared_parts) \<Rightarrow> 'q shared_parts
    \<Rightarrow> (error_chain + bool) \<times> 'q shared_parts" where
  "run_allocated_session Q F config turn_path has_delivery handshake life s =
     (case next_incarnation s of (incarnation, s) \<Rightarrow>
        case handshake of
          Inl e \<Rightarrow> (Inl e, complete_delivery has_delivery False s)
        | Inr delivered \<Rightarrow>
            let delivered = cf_get_config config \<and> delivered;
                w = \<lparr>wk_id = cf_id config, wk_incarnation = incarnation, wk_path = turn_path\<rparr>
            in case life w (session_joins Q w (complete_delivery has_delivery delivered s)) of
                 (result, s) \<Rightarrow>
                   (case result of Some e \<Rightarrow> Inl e | None \<Rightarrow> Inr delivered, session_leaves Q F w result s))"

section \<open>The chosen relay can be used\<close>

text \<open>
  The session connects to a relay its transport can use whenever there is one: the chosen address is
  one of the credential's and resolves to one endpoint, whose authority is the key of the path; none
  is chosen only if no address resolves.
\<close>

theorem selected_address_resolves:
  "case select_turn_address addresses rc of
     Some address \<Rightarrow> address \<in> set addresses
       \<and> (\<exists>e. endpoints_of rc address = Inr [e] \<and> turn_path_key address rc = Inr (socket_authority e))
   | None \<Rightarrow> list_all (\<lambda>address. isl (endpoints_of rc address)) addresses"
proof -
  let ?n = "length addresses"
  let ?start = "turn_endpoint_index (rc_id rc) (rc_cursor rc) ?n"
  let ?turned = "map (\<lambda>offset. addresses ! ((?start + offset) mod ?n)) [0..<?n]"
  have "?turned = rotate ?start addresses"
    by (rule nth_equalityI) (simp_all add: nth_rotate)
  then have turned: "set ?turned = set addresses" by simp
  have one: "\<exists>e. es = [e]" if "resolve_turn_endpoints address h p m = Inr es" for address h p m es
    using that by (auto simp: resolve_turn_endpoints_def transports_for_def Let_def split: sum.splits prod.splits option.splits if_splits transport_mode.splits)
  show ?thesis
  proof (cases "select_turn_address addresses rc")
    case None
    then have "find (\<lambda>a. \<not> isl (endpoints_of rc a)) ?turned = None"
      by (simp only: select_turn_address_def Let_def)
    then have "\<forall>a\<in>set ?turned. isl (endpoints_of rc a)"
      unfolding find_None_iff by blast
    then have "\<forall>a\<in>set addresses. isl (endpoints_of rc a)" unfolding turned .
    then show ?thesis by (simp only: None option.case list_all_iff)
  next
    case (Some a)
    then have a: "a \<in> set ?turned" "\<not> isl (endpoints_of rc a)"
      by (auto simp: select_turn_address_def Let_def find_Some_iff)
    then obtain es where es: "endpoints_of rc a = Inr es" by (cases "endpoints_of rc a") auto
    obtain e where "es = [e]" using one [OF es [unfolded endpoints_of_def]] by blast
    then show ?thesis using Some a turned es by (simp add: turn_path_key_def)
  qed
qed

section \<open>Planned ends are no failures\<close>

lemma planned_texts:
  "contains (ascii ''NET_REBIND'') ''IDLE_PARK'' = False" "contains (ascii ''TARGET_REPAIR'') ''IDLE_PARK'' = False"
  "contains (lowercase (ascii ''NET_REBIND'')) ''net_rebind''" "contains (lowercase (ascii ''TARGET_REPAIR'')) ''net_rebind'' = False"
  "contains (lowercase (ascii ''TARGET_REPAIR'')) ''target_repair''"
  "contains (ascii ''IDLE_PARK'') ''IDLE_PARK''" "contains (ascii ''NET_REBIND'') ''NET_REBIND''"
  "contains (ascii ''TARGET_REPAIR'') ''TARGET_REPAIR''"
  by (simp_all add: contains_def ascii_def lowercase_def lower_byte_def sublist_Cons_right)

lemmas planned_defs = plain_error_def note_session_end_def should_note_path_lost_def to_text_def Let_def

lemmas planned_outcome_defs = after_session_def finish_session_def is_parked_def retry_error_def

text \<open>
  A session the client itself ends costs the worker nothing: after a change of the network, a
  park of the worker or a repair order no lost path is announced, the attempts start from nothing, the
  worker is back within 200 ms, a park gives its lease back and the credential is dropped only for a
  repair order that has moved.
\<close>

theorem planned_ends_are_not_failures:
  assumes "b \<in> {Br_rebind, Br_parked, Br_repair}" "branch_result b = Some (Some error, completed)"
    and "so_result o' = Inr error" "so_allocation_started o'" "\<not> so_cancelled o'" "\<not> so_unavailable o'" "so_allowed o'"
  shows "note_session_end worker (Some error) idle = idle
    \<and> (case after_session env o' config_sent s of
         (next, _, s') \<Rightarrow>
           rs_attempt s' = 0
           \<and> (case next of Worker_goes_on \<Rightarrow> b = Br_parked | Worker_sleeps delay \<Rightarrow> b \<noteq> Br_parked \<and> delay \<le> 200 | Worker_stops \<Rightarrow> False)
           \<and> rs_cache s' =
               (if b = Br_parked then cache_release (re_lease env) (rs_cache s)
                else if b = Br_repair \<and> re_repair_moved env then snd (cache_invalidate (re_lease env) (rs_cache s))
                else rs_cache s))"
proof -
  have short: "re_random env 1 mod 80 \<le> 80" "re_random env 1 mod 151 \<le> 150" by (simp_all add: less_imp_le mod_bound)
  consider "b = Br_rebind" "error = plain_error ''NET_REBIND''" | "b = Br_parked" "error = plain_error ''IDLE_PARK''"
    | "b = Br_repair" "error = plain_error ''TARGET_REPAIR''"
    using assms(1,2) by (auto simp: branch_result_def)
  then show ?thesis
  proof cases
    case 1
    then show ?thesis using assms(3-) short planned_texts
      by (simp add: planned_defs planned_outcome_defs case_prod_unfold)
  next
    case 2
    then show ?thesis using assms(3-) planned_texts
      by (simp add: planned_defs planned_outcome_defs case_prod_unfold)
  next
    case 3
    then show ?thesis using assms(3-) short planned_texts
      by (simp add: planned_defs planned_outcome_defs case_prod_unfold)
  qed
qed

lemma planned_ends_are_not_failures_witness:
  "case after_session (fst example_retry)
      \<lparr>so_result = Inr (plain_error ''NET_REBIND''), so_allocation_started = True, so_was_ready = True, so_cancelled = False,
       so_unavailable = False, so_allowed = True, so_active_connections = 1\<rparr> True (snd example_retry) of
     (next, _, s') \<Rightarrow> rs_attempt s' = 0 \<and> rs_cache s' = example_cached"
  using planned_ends_are_not_failures [where b = Br_rebind and error = "plain_error ''NET_REBIND''" and completed = 0
      and o' = "\<lparr>so_result = Inr (plain_error ''NET_REBIND''), so_allocation_started = True, so_was_ready = True, so_cancelled = False,
        so_unavailable = False, so_allowed = True, so_active_connections = 1\<rparr>"
      and env = "fst example_retry" and config_sent = True and s = "snd example_retry"]
  by (auto simp: branch_result_def example_retry_def split: prod.splits)

section \<open>A repair does not wake a parked worker\<close>

lemma apply_ids_untouched: "i \<notin> unat ` set ws \<Longrightarrow> snd (apply_ids sequence ws slots) ! i = slots ! i"
  by (induction ws arbitrary: slots) (auto simp: Let_def case_prod_unfold)

lemma alive_id_generation: "rs_restart_generation (snd (alive_id sequence w r) ! i) = rs_restart_generation (snd r ! i)"
  by (cases r) (auto simp: alive_id_def nth_list_update has_slot_def)

lemma apply_alive_generation: "rs_restart_generation (snd (apply_alive command slots) ! i) = rs_restart_generation (slots ! i)"
proof -
  have "rs_restart_generation (snd (fold (alive_id sequence) ws r) ! i) = rs_restart_generation (snd r ! i)" for sequence ws r
    by (induction ws arbitrary: r) (simp_all add: alive_id_generation)
  from this [of "sc_sequence command" "sc_worker_ids command" "(0, slots)"] show ?thesis by (simp add: apply_alive_def)
qed

lemma alive_length [simp]: "length (snd (apply_alive command slots)) = length slots"
proof -
  have "length (snd (fold (alive_id sequence) ws r)) = length (snd r)" for sequence ws r
    by (induction ws arbitrary: r) (auto simp: alive_id_def split: prod.splits)
  from this [of "sc_sequence command" "sc_worker_ids command" "(0, slots)"] show ?thesis by (simp add: apply_alive_def)
qed

lemma reader_packet_parked:
  "rd_idle (reader_packet Q F p s) = rd_idle s
   \<and> (\<not> allows i (rd_idle s) \<longrightarrow> rs_restart_generation (rd_repair (reader_packet Q F p s) ! i) = rs_restart_generation (rd_repair s ! i))"
  by (auto simp: reader_packet_def forward_config_def unparked_def apply_repair_def Let_def apply_alive_generation
      intro!: arg_cong [where f = rs_restart_generation] apply_ids_untouched
      split: option.splits prod.splits sum.splits config_response.splits)

lemma reader_packet_length: "length (rd_repair (reader_packet Q F p s)) = length (rd_repair s)"
  by (auto simp: reader_packet_def forward_config_def apply_repair_def Let_def
      split: option.splits prod.splits sum.splits config_response.splits)

text \<open>
  A server cannot wake a parked worker: whatever packets the reader of a session handles, and
  whatever repair orders they carry, no restart is ordered for a worker the idle state does not allow,
  and the reader leaves the idle state alone.
\<close>

theorem repair_spares_parked_workers:
  "case reader_loop C config Q F es w s of
     None \<Rightarrow> True
   | Some (_, _, s') \<Rightarrow>
       rd_idle s' = rd_idle s
       \<and> (\<forall>i. if allows i (rd_idle s) then True
              else restart_generation i (rd_repair s') = restart_generation i (rd_repair s))"
proof (induction C config Q F es w s rule: reader_loop.induct)
  case (1 C config Q F es w s)
  show ?case
  proof (cases "transport_recv C config es w")
    case None
    then show ?thesis by (simp add: reader_loop.simps)
  next
    case (Some r)
    obtain out es' w' where r: "r = (out, es', w')" by (metis surj_pair)
    show ?thesis
    proof (cases out)
      case None
      then show ?thesis using Some r by (simp add: reader_loop.simps)
    next
      case out: (Some res)
      show ?thesis
      proof (cases res)
        case (Inl e)
        then show ?thesis using Some r out by (simp add: reader_loop.simps)
      next
        case (Inr p)
        have "reader_loop C config Q F es w s = reader_loop C config Q F es' w' (reader_packet Q F p s)"
          using Some r out Inr by (simp add: reader_loop.simps [of C config Q F es w s])
        moreover note 1 [OF Some r [symmetric] out Inr refl]
        ultimately show ?thesis using reader_packet_parked [of Q F p s] reader_packet_length [of Q F p s]
          by (auto simp: restart_generation_def has_slot_def split: option.splits prod.splits if_splits)
      qed
    qed
  qed
qed

section \<open>What a session leaves\<close>

text \<open>No step of a dispatch touches the lanes of a worker that is not healthy.\<close>

lemma try_candidates_unhealthy:
  "\<not> wc_healthy (st i) \<Longrightarrow> snd (try_candidates Q F c clear hs p st) i = st i"
  by (induction Q F c clear hs p st rule: try_candidates.induct)
    (auto simp: set_lane_def split: prod.splits sum.splits)

lemma place_packet_unhealthy:
  assumes "\<not> wc_healthy (st i)"
  shows "place_packet Q F workers ticket p st i = st i"
proof -
  have enqueue: "snd (enqueue_selected_worker Q F workers ticket p st) i = st i"
  proof -
    obtain r1 st1 where r1: "try_candidates Q F (snd ticket) True (candidates workers (fst ticket) st) p st = (r1, st1)" by fastforce
    then have "st1 i = st i" using try_candidates_unhealthy [where st = st and i = i, OF assms] by (metis snd_conv)
    moreover have "snd (try_candidates Q F (snd ticket) False (candidates workers (fst ticket) st) p1 st1) i = st1 i" for p1
      using assms calculation by (intro try_candidates_unhealthy) simp
    ultimately show ?thesis using r1 by (auto simp: enqueue_selected_worker_def Let_def split: sum.splits)
  qed
  have replace: "snd (replace_oldest_in_selected_queue Q F workers c p1 st1) i = st1 i" if "\<not> wc_healthy (st1 i)" for c p1 st1
    using that by (auto simp: replace_oldest_in_selected_queue_def set_lane_def split: option.splits prod.splits
        dest: min_by_key_Some)
  obtain r st1 where r: "enqueue_selected_worker Q F workers ticket p st = (r, st1)" by fastforce
  then have "st1 i = st i" using enqueue by simp
  then show ?thesis using r assms replace [of st1] by (auto simp: place_packet_def split: sum.splits)
qed

lemma redispatch_all_unhealthy: "\<not> wc_healthy (st i) \<Longrightarrow> redispatch_all Q F workers packets st i = st i"
  unfolding redispatch_all_def
  by (induction packets arbitrary: st) (simp_all add: redispatch_def place_packet_unhealthy)

lemma steal_loop_all:
  assumes "array_queue_ok Q"
  shows "length (q_items Q (pq_queue pq)) \<le> n \<Longrightarrow>
    fst (steal_loop n Q pq) = map qp_packet (q_items Q (pq_queue pq)) \<and> q_items Q (pq_queue (snd (steal_loop n Q pq))) = []"
proof (induction n arbitrary: pq)
  case (Suc n)
  show ?case
  proof (cases "q_pop Q (pq_queue pq)")
    case None
    then show ?thesis using queue_pop_None [OF assms, of "pq_queue pq"] by simp
  next
    case (Some x)
    obtain e q where x: "x = (e, q)" by fastforce
    have "q_items Q (pq_queue pq) = e # q_items Q q" using queue_pop_Some(1) [OF assms Some [unfolded x]] .
    then show ?thesis using Some x Suc.prems Suc.IH [of "pq\<lparr>pq_queue := q\<rparr>"] by (simp add: case_prod_unfold)
  qed
qed simp

lemma steal_all:
  assumes "array_queue_ok Q"
  shows "fst (steal Q pq) = map qp_packet (q_items Q (pq_queue pq))" "q_items Q (pq_queue (snd (steal Q pq))) = []"
  using steal_loop_all [OF assms order_refl] by (simp_all add: steal_def)

definition lane_packets :: "(queued_packet, 'q) queue_ops \<Rightarrow> packet_class \<Rightarrow> 'q channels \<Rightarrow> packet_buf list" where
  "lane_packets Q c w = map qp_packet (q_items Q (pq_queue (queue_for_class c w)))"

lemma closed_lanes:
  assumes "array_queue_ok Q"
  shows "(\<forall>c. lane_packets Q c (leave_packets Q F workers self st self) = [])
    \<and> (\<exists>st'. leave_packets Q F workers self st
          = redispatch_all Q F workers (lane_packets Q Small (st self) @ lane_packets Q Medium (st self) @ lane_packets Q Bulk (st self)) st'
        \<and> \<not> wc_healthy (st' self) \<and> (\<forall>i. if i = self then True else st' i = st i))"
proof -
  let ?w = "snd (drain_uplink Q (mark_unhealthy (st self)))"
  have drain: "fst (drain_uplink Q (mark_unhealthy (st self)))
      = lane_packets Q Small (st self) @ lane_packets Q Medium (st self) @ lane_packets Q Bulk (st self)"
    "\<not> wc_healthy ?w" "lane_packets Q c ?w = []" for c
    by (cases c; simp add: drain_uplink_def mark_unhealthy_def lane_packets_def queue_for_class_def steal_all [OF assms] case_prod_unfold)+
  have leave: "leave_packets Q F workers self st
      = redispatch_all Q F workers (fst (drain_uplink Q (mark_unhealthy (st self)))) (st(self := ?w))"
    by (simp add: leave_packets_def case_prod_unfold)
  show ?thesis
    using drain redispatch_all_unhealthy [of "st(self := ?w)" self Q F workers] by (auto simp: leave intro!: exI [of _ "st(self := ?w)"])
qed

text \<open>
  C28: A session that ends leaves nothing of itself: every packet of its three lanes is handed to
  the dispatch again, latency first, and since the worker was marked unhealthy before, none comes
  back; its worker has left the table, its stream the shutdown coordinator, and the count of
  connections is what it was before it.
\<close>

theorem session_leaves_nothing:
  assumes "array_queue_ok Q"
  shows "let s' = session_leaves Q F w result s; h = unat (wk_incarnation w); st = sp_store s in
      (\<forall>c. lane_packets Q c (sp_store s' h) = [])
      \<and> (\<exists>st'. sp_store s' = redispatch_all Q F (map (\<lambda>v. unat (wk_incarnation v)) (sp_workers s))
              (lane_packets Q Small (st h) @ lane_packets Q Medium (st h) @ lane_packets Q Bulk (st h)) st'
            \<and> (\<forall>i. if i = h then \<not> wc_healthy (st' i) else st' i = st i))
      \<and> set (sp_workers s') = set (sp_workers s) - {v. wk_id v = wk_id w \<and> wk_incarnation v = wk_incarnation w}
      \<and> cs_incarnation ` set (sd_streams (sp_shutdown s')) = cs_incarnation ` set (sd_streams (sp_shutdown s)) - {h}
      \<and> ac_connections (sp_counts s') = ac_connections (sp_counts s) - 1"
proof -
  let ?hs = "map (\<lambda>v. unat (wk_incarnation v)) (sp_workers s)" and ?h = "unat (wk_incarnation w)"
  have store: "sp_store (session_leaves Q F w result s) = leave_packets Q F ?hs ?h (sp_store s)"
    by (simp add: session_leaves_def)
  have rest: "set (sp_workers (session_leaves Q F w result s)) = set (sp_workers s) - {v. wk_id v = wk_id w \<and> wk_incarnation v = wk_incarnation w}"
    "cs_incarnation ` set (sd_streams (sp_shutdown (session_leaves Q F w result s))) = cs_incarnation ` set (sd_streams (sp_shutdown s)) - {?h}"
    "ac_connections (sp_counts (session_leaves Q F w result s)) = ac_connections (sp_counts s) - 1"
    by (auto simp: session_leaves_def unregister_def shutdown_unregister_def connection_drop_def)
  obtain st' where "leave_packets Q F ?hs ?h (sp_store s) = redispatch_all Q F ?hs
      (lane_packets Q Small (sp_store s ?h) @ lane_packets Q Medium (sp_store s ?h) @ lane_packets Q Bulk (sp_store s ?h)) st'"
    "\<not> wc_healthy (st' ?h)" "\<forall>i. if i = ?h then True else st' i = sp_store s i"
    using closed_lanes [OF assms, of F ?hs ?h "sp_store s"] by blast
  then have "\<exists>st'. leave_packets Q F ?hs ?h (sp_store s) = redispatch_all Q F ?hs
      (lane_packets Q Small (sp_store s ?h) @ lane_packets Q Medium (sp_store s ?h) @ lane_packets Q Bulk (sp_store s ?h)) st'
      \<and> (\<forall>i. if i = ?h then \<not> wc_healthy (st' i) else st' i = sp_store s i)"
    by (intro exI [of _ st']) simp
  moreover have "\<forall>c. lane_packets Q c (leave_packets Q F ?hs ?h (sp_store s) ?h) = []"
    using closed_lanes [OF assms, of F ?hs ?h "sp_store s"] by blast
  ultimately show ?thesis unfolding Let_def store using rest by blast
qed

definition example_parts :: "(nat \<times> queued_packet list) shared_parts" where
  "example_parts =
     \<lparr>sp_workers = [\<lparr>wk_id = 2, wk_incarnation = 8, wk_path = []\<rparr>], sp_shutdown = new_shutdown, sp_repair = new_repair 2,
      sp_counts = \<lparr>ac_connections = 1, ac_paths = 1, ac_zero_events = 0\<rparr>, sp_idle = idle_at_rest,
      sp_flags = \<lparr>fl_sent = True, fl_in_flight = False\<rparr>, sp_store = example_channels, sp_next_incarnation = 9\<rparr>"

lemma session_leaves_nothing_witness:
  "let w = \<lparr>wk_id = 1, wk_incarnation = 9, wk_path = []\<rparr>
   in set (sp_workers (session_leaves list_queue list_force w None (session_joins list_queue w example_parts)))
      = {\<lparr>wk_id = 2, wk_incarnation = 8, wk_path = []\<rparr>}"
proof -
  let ?w = "\<lparr>wk_id = 1, wk_incarnation = 9, wk_path = []\<rparr>"
  have "set (sp_workers (session_leaves list_queue list_force ?w None (session_joins list_queue ?w example_parts)))
      = set (sp_workers (session_joins list_queue ?w example_parts)) - {v. wk_id v = wk_id ?w \<and> wk_incarnation v = wk_incarnation ?w}"
    using session_leaves_nothing [OF list_queue_ok, of list_force ?w None "session_joins list_queue ?w example_parts"]
    unfolding Let_def by (elim conjE) assumption
  moreover have "set (sp_workers (session_joins list_queue ?w example_parts)) = {?w, \<lparr>wk_id = 2, wk_incarnation = 8, wk_path = []\<rparr>}"
    by (auto simp: session_joins_def example_parts_def register_def)
  moreover have "{?w, \<lparr>wk_id = 2, wk_incarnation = 8, wk_path = []\<rparr>} - {v. wk_id v = wk_id ?w \<and> wk_incarnation v = wk_incarnation ?w}
      = {\<lparr>wk_id = 2, wk_incarnation = 8, wk_path = []\<rparr>}"
    by auto
  ultimately show ?thesis unfolding Let_def by argo
qed

end
