(* ===== verification/Logging.thy ===== *)
theory Logging
  imports Csqtt_Prelude Interfaces
begin

text \<open>
  The logger, \<open>logging.rs\<close>: the line that stops at its limit, the sink that gives up at its first
  failure, and the two bounded queues between the producers and the one writer. Producers and writer
  are interleaved step by step, a step being one access to a shared atomic or queue. The condition
  variables only shorten the waiting, which is in \<open>Log_Wait\<close>: here the writer may look again at any time.
\<close>

unbundle bit_operations_syntax

section \<open>Bounded lines\<close>

definition MAX_LINE_BYTES :: nat where "MAX_LINE_BYTES = 4096"
definition PROTOCOL_BURST :: nat where "PROTOCOL_BURST = 32"
definition COALESCE_BATCH :: nat where "COALESCE_BATCH = 64"

record bounded_line =
  bl_value :: bytes
  bl_full :: bool

definition new_line :: bounded_line where
  "new_line = \<lparr>bl_value = [], bl_full = False\<rparr>"

text \<open>Text is UTF-8: a byte that continues a character has the top bits 10.\<close>

definition is_char_boundary :: "bytes \<Rightarrow> nat \<Rightarrow> bool" where
  "is_char_boundary bs i \<longleftrightarrow> i = 0 \<or> i = length bs \<or> (i < length bs \<and> bs ! i AND 0xC0 \<noteq> 0x80)"

fun boundary_below :: "bytes \<Rightarrow> nat \<Rightarrow> nat" where
  "boundary_below bs 0 = 0"
| "boundary_below bs (Suc n) = (if is_char_boundary bs (Suc n) then Suc n else boundary_below bs n)"

definition write_str :: "bytes \<Rightarrow> bounded_line \<Rightarrow> bounded_line" where
  "write_str value l =
     (if bl_full l then l
      else
        let remaining = MAX_LINE_BYTES - length (bl_value l) in
        if length value \<le> remaining then l\<lparr>bl_value := bl_value l @ value\<rparr>
        else \<lparr>bl_value = bl_value l @ take (boundary_below value (min remaining (length value))) value, bl_full = True\<rparr>)"

definition format_line :: "bytes list \<Rightarrow> bytes" where
  "format_line parts = bl_value (fold write_str parts new_line)"

lemma boundary_below: "boundary_below bs n \<le> n \<and> is_char_boundary bs (boundary_below bs n)"
  by (induction n) (auto simp: is_char_boundary_def)

lemma write_str_length: "length (bl_value (write_str p l)) \<le> max (length (bl_value l)) MAX_LINE_BYTES"
  using boundary_below [of p "min (MAX_LINE_BYTES - length (bl_value l)) (length p)"] by (auto simp: write_str_def Let_def)

lemma format_line_length: "length (bl_value (fold write_str parts l)) \<le> max (length (bl_value l)) MAX_LINE_BYTES"
proof (induction parts arbitrary: l)
  case (Cons p parts)
  have "length (bl_value (fold write_str parts (write_str p l))) \<le> max (length (bl_value (write_str p l))) MAX_LINE_BYTES"
    by (rule Cons.IH)
  then show ?case using write_str_length [of p l] by simp
qed simp

lemma format_line_full: "bl_full l \<Longrightarrow> fold write_str parts l = l"
  by (induction parts) (simp_all add: write_str_def)

lemma format_line_prefix: "\<exists>rest. bl_value l @ concat parts = bl_value (fold write_str parts l) @ rest"
proof (induction parts arbitrary: l)
  case (Cons p parts)
  show ?case
  proof (cases "bl_full (write_str p l)")
    case False
    then have "bl_value (write_str p l) = bl_value l @ p" by (auto simp: write_str_def Let_def split: if_splits)
    then show ?thesis using Cons.IH [of "write_str p l"] by simp
  next
    case True
    then have "fold write_str (p # parts) l = write_str p l" by (simp add: format_line_full)
    moreover have "\<exists>n. bl_value (write_str p l) = bl_value l @ take n p"
      by (auto simp: write_str_def Let_def intro: exI [of _ "0::nat"] exI [of _ "length p"])
    moreover have "p = take n p @ drop n p" for n by simp
    ultimately show ?thesis by (metis append.assoc concat.simps(2))
  qed
qed simp

lemma format_line_fits:
  "\<not> bl_full l \<Longrightarrow> length (bl_value l @ concat parts) \<le> MAX_LINE_BYTES \<Longrightarrow> bl_value (fold write_str parts l) = bl_value l @ concat parts"
proof (induction parts arbitrary: l)
  case (Cons p parts)
  have w: "write_str p l = l\<lparr>bl_value := bl_value l @ p\<rparr>" using Cons.prems by (simp add: write_str_def Let_def)
  show ?case using Cons.IH [of "write_str p l"] Cons.prems by (simp add: w)
qed simp

text \<open>
  A log line is cut, never split: it has at most 4096 bytes, is the beginning of what was to be
  written, and is all of it when that fits.
\<close>

theorem log_line_is_a_prefix:
  "length (format_line parts) \<le> MAX_LINE_BYTES
   \<and> (\<exists>rest. concat parts = format_line parts @ rest)
   \<and> (if length (concat parts) \<le> MAX_LINE_BYTES then format_line parts = concat parts else True)"
  using format_line_length [of parts new_line] format_line_prefix [of new_line parts] format_line_fits [of new_line parts]
  by (simp add: format_line_def new_line_def)

section \<open>The sink\<close>

text \<open>A writer: what it has taken, and whether it takes the next bytes (\<open>False\<close>: an error or a panic).\<close>

record sink =
  sk_taken :: bytes
  sk_disabled :: bool

fun write_parts :: "(bytes \<Rightarrow> bool) \<Rightarrow> bytes list \<Rightarrow> bytes \<Rightarrow> bool \<times> bytes" where
  "write_parts takes [] taken = (True, taken)"
| "write_parts takes (p # ps) taken = (if takes (taken @ p) then write_parts takes ps (taken @ p) else (False, taken))"

definition write_line :: "(nat \<Rightarrow> bytes) \<Rightarrow> (bytes \<Rightarrow> bool) \<Rightarrow> bytes \<Rightarrow> nat \<Rightarrow> sink \<Rightarrow> sink" where
  "write_line show_count takes value repetitions s =
     (if sk_disabled s then s
      else case write_parts takes ([value] @ (if 1 < repetitions then [ascii '' (x'' @ show_count repetitions @ ascii '')''] else []) @ [[10]])
                  (sk_taken s) of
        (ok, taken) \<Rightarrow> \<lparr>sk_taken = taken, sk_disabled = \<not> ok\<rparr>)"

definition sink_flush :: "bool \<Rightarrow> sink \<Rightarrow> sink" where
  "sink_flush ok s = (if sk_disabled s then s else s\<lparr>sk_disabled := \<not> ok\<rparr>)"

section \<open>Producers and writer\<close>

datatype log_channel = Protocol_line | Diagnostic_line

text \<open>
  A producer: it has seen that lines are accepted, has counted itself, is to enter its line, tries to
  push it with some attempts left, makes room, has made room, or is to leave.
\<close>

datatype producer_pc =
    Outside
  | Admitted log_channel "bytes option"
  | Counted log_channel "bytes option"
  | Entering log_channel bytes
  | Pushing log_channel bytes nat
  | Evicting log_channel bytes nat
  | Evicted log_channel bytes nat
  | Leaving

text \<open>
  The writer: at the top of its loop with the length of its burst and the diagnostic line it has
  already taken, with a protocol line in hand, to look for a diagnostic line, with equal lines being merged,
  one more merged, ready to write them, to try the protocol queue once more, in its three reads of
  \<open>idle\<close>, after them, after the flush, waiting, returned.
\<close>

datatype writer_pc =
    W_loop nat "bytes option"
  | W_protocol bytes nat "bytes option"
  | W_diagnostic nat "bytes option"
  | W_merge bytes nat
  | W_merged bytes nat
  | W_emit bytes nat "bytes option"
  | W_again nat
  | W_check nat
  | W_check_diagnostic nat
  | W_check_producers nat
  | W_idle nat
  | W_flushed nat
  | W_wait nat
  | W_returned

record 'q logger =
  lg_queue :: "log_channel \<Rightarrow> 'q"
  lg_outstanding :: "log_channel \<Rightarrow> nat"
  lg_dropped :: "log_channel \<Rightarrow> nat"
  lg_producers :: nat
  lg_accepting :: bool
  lg_shutdown :: bool
  lg_flush_requested :: nat
  lg_flush_completed :: nat
  lg_threads :: "producer_pc list"
  lg_writer :: writer_pc
  lg_written :: "(log_channel \<times> bytes \<times> nat) list"
  lg_entered :: "log_channel \<Rightarrow> nat"

definition new_logger :: "(bytes, 'q) queue_ops \<Rightarrow> nat \<Rightarrow> nat \<Rightarrow> nat \<Rightarrow> 'q logger" where
  "new_logger Q protocol_capacity diagnostic_capacity threads =
     \<lparr>lg_queue = (\<lambda>c. q_new Q (max (case c of Protocol_line \<Rightarrow> protocol_capacity | Diagnostic_line \<Rightarrow> diagnostic_capacity) 1)),
      lg_outstanding = (\<lambda>_. 0), lg_dropped = (\<lambda>_. 0), lg_producers = 0, lg_accepting = True, lg_shutdown = False,
      lg_flush_requested = 0, lg_flush_completed = 0, lg_threads = replicate threads Outside, lg_writer = W_loop 0 None,
      lg_written = [], lg_entered = (\<lambda>_. 0)\<rparr>"

definition set_thread :: "nat \<Rightarrow> producer_pc \<Rightarrow> 'q logger \<Rightarrow> 'q logger" where
  "set_thread i pc s = s\<lparr>lg_threads := (lg_threads s)[i := pc]\<rparr>"

definition forget_line :: "log_channel \<Rightarrow> 'q logger \<Rightarrow> 'q logger" where
  "forget_line c s = s\<lparr>lg_outstanding := (lg_outstanding s)(c := lg_outstanding s c - 1),
                       lg_dropped := (lg_dropped s)(c := lg_dropped s c + 1)\<rparr>"

text \<open>One step of a producer.\<close>

definition producer_move :: "(bytes, 'q) queue_ops \<Rightarrow> nat \<Rightarrow> 'q logger \<Rightarrow> 'q logger" where
  "producer_move Q i s =
     (case lg_threads s ! i of
        Outside \<Rightarrow> s
      | Admitted c line \<Rightarrow> set_thread i (Counted c line) (s\<lparr>lg_producers := lg_producers s + 1\<rparr>)
      | Counted c line \<Rightarrow>
          set_thread i (if lg_accepting s then case line of None \<Rightarrow> Leaving | Some l \<Rightarrow> Entering c l else Leaving) s
      | Entering c l \<Rightarrow>
          set_thread i (Pushing c l 4)
            (s\<lparr>lg_outstanding := (lg_outstanding s)(c := lg_outstanding s c + 1), lg_entered := (lg_entered s)(c := lg_entered s c + 1)\<rparr>)
      | Pushing c l 0 \<Rightarrow> set_thread i Leaving (forget_line c s)
      | Pushing c l (Suc n) \<Rightarrow>
          (case q_push Q l (lg_queue s c) of
             Some q \<Rightarrow> set_thread i Leaving (s\<lparr>lg_queue := (lg_queue s)(c := q)\<rparr>)
           | None \<Rightarrow> set_thread i (Evicting c l n) s)
      | Evicting c l n \<Rightarrow>
          (case q_pop Q (lg_queue s c) of
             Some (_, q) \<Rightarrow> set_thread i (Evicted c l n) (s\<lparr>lg_queue := (lg_queue s)(c := q)\<rparr>)
           | None \<Rightarrow> set_thread i (Pushing c l n) s)
      | Evicted c l n \<Rightarrow> set_thread i (Pushing c l n) (forget_line c s)
      | Leaving \<Rightarrow> set_thread i Outside (s\<lparr>lg_producers := lg_producers s - 1\<rparr>))"

definition set_writer :: "writer_pc \<Rightarrow> 'q logger \<Rightarrow> 'q logger" where
  "set_writer pc s = s\<lparr>lg_writer := pc\<rparr>"

definition settle :: "log_channel \<Rightarrow> 'q logger \<Rightarrow> 'q logger" where
  "settle c s = s\<lparr>lg_outstanding := (lg_outstanding s)(c := lg_outstanding s c - 1)\<rparr>"

definition write_out :: "log_channel \<Rightarrow> bytes \<Rightarrow> nat \<Rightarrow> 'q logger \<Rightarrow> 'q logger" where
  "write_out c line n s = s\<lparr>lg_written := lg_written s @ [(c, line, n)]\<rparr>"

definition take_line :: "(bytes, 'q) queue_ops \<Rightarrow> log_channel \<Rightarrow> (bytes \<Rightarrow> writer_pc) \<Rightarrow> writer_pc \<Rightarrow> 'q logger \<Rightarrow> 'q logger" where
  "take_line Q c found missing s =
     (case q_pop Q (lg_queue s c) of
        Some (line, q) \<Rightarrow> set_writer (found line) (s\<lparr>lg_queue := (lg_queue s)(c := q)\<rparr>)
      | None \<Rightarrow> set_writer missing s)"

text \<open>One step of the writer.\<close>

definition writer_move :: "(bytes, 'q) queue_ops \<Rightarrow> 'q logger \<Rightarrow> 'q logger" where
  "writer_move Q s =
     (case lg_writer s of
        W_loop burst pending \<Rightarrow>
          if burst < PROTOCOL_BURST
          then take_line Q Protocol_line (\<lambda>line. W_protocol line burst pending) (W_diagnostic burst pending) s
          else set_writer (W_diagnostic burst pending) s
      | W_protocol line burst pending \<Rightarrow>
          set_writer (W_loop (burst + 1) pending) (settle Protocol_line (write_out Protocol_line line 1 s))
      | W_diagnostic burst (Some line) \<Rightarrow> set_writer (W_merge line 1) s
      | W_diagnostic burst None \<Rightarrow> take_line Q Diagnostic_line (\<lambda>line. W_merge line 1) (W_again burst) s
      | W_merge line n \<Rightarrow>
          if n < COALESCE_BATCH
          then take_line Q Diagnostic_line (\<lambda>next. if next = line then W_merged line n else W_emit line n (Some next)) (W_emit line n None) s
          else set_writer (W_emit line n None) s
      | W_merged line n \<Rightarrow> set_writer (W_merge line (n + 1)) (settle Diagnostic_line s)
      | W_emit line n pending \<Rightarrow> set_writer (W_loop 0 pending) (settle Diagnostic_line (write_out Diagnostic_line line n s))
      | W_again burst \<Rightarrow> take_line Q Protocol_line (\<lambda>line. W_protocol line 0 None) (W_check burst) s
      | W_check burst \<Rightarrow> set_writer (if lg_outstanding s Protocol_line = 0 then W_check_diagnostic burst else W_wait burst) s
      | W_check_diagnostic burst \<Rightarrow>
          set_writer (if lg_outstanding s Diagnostic_line = 0 then W_check_producers burst else W_wait burst) s
      | W_check_producers burst \<Rightarrow> set_writer (if lg_producers s = 0 then W_idle burst else W_wait burst) s
      | W_idle burst \<Rightarrow> set_writer (W_flushed burst) (s\<lparr>lg_flush_completed := max (lg_flush_completed s) (lg_flush_requested s)\<rparr>)
      | W_flushed burst \<Rightarrow> set_writer (if lg_shutdown s then W_returned else W_wait burst) s
      | W_wait burst \<Rightarrow> set_writer (W_loop burst None) s
      | W_returned \<Rightarrow> s)"

text \<open>A call of a producer with its channel and its line, if it can be formatted; the two stores of a shutdown.\<close>

datatype log_label =
    L_log nat log_channel "bytes option"
  | L_producer nat
  | L_writer
  | L_flush
  | L_refuse
  | L_shut

inductive log_step :: "(bytes, 'q) queue_ops \<Rightarrow> 'q logger \<Rightarrow> log_label \<Rightarrow> 'q logger \<Rightarrow> bool" for Q where
  log_call: "\<lbrakk>i < length (lg_threads s); lg_threads s ! i = Outside\<rbrakk> \<Longrightarrow>
    log_step Q s (L_log i c line) (if lg_accepting s then set_thread i (Admitted c line) s else s)"
| log_producer: "\<lbrakk>i < length (lg_threads s)\<rbrakk> \<Longrightarrow> log_step Q s (L_producer i) (producer_move Q i s)"
| log_writer: "log_step Q s L_writer (writer_move Q s)"
| log_flush: "log_step Q s L_flush (s\<lparr>lg_flush_requested := lg_flush_requested s + 1\<rparr>)"
| log_refuse: "log_step Q s L_refuse (s\<lparr>lg_accepting := False\<rparr>)"
| log_shut: "\<not> lg_accepting s \<Longrightarrow> log_step Q s L_shut (s\<lparr>lg_shutdown := True\<rparr>)"

inductive_cases log_stepE: "log_step Q s l s'"

section \<open>The books\<close>

text \<open>What a thread holds of a channel's outstanding lines, whether it is counted, and what the writer holds or has merged.\<close>

fun thread_holds :: "log_channel \<Rightarrow> producer_pc \<Rightarrow> nat" where
  "thread_holds c (Pushing c' l n) = (if c' = c then 1 else 0)"
| "thread_holds c (Evicting c' l n) = (if c' = c then 1 else 0)"
| "thread_holds c (Evicted c' l n) = (if c' = c then 2 else 0)"
| "thread_holds c pc = 0"

fun is_counted :: "producer_pc \<Rightarrow> bool" where
  "is_counted Outside = False"
| "is_counted (Admitted c l) = False"
| "is_counted pc = True"

definition some_line :: "bytes option \<Rightarrow> nat" where
  "some_line pending = (case pending of None \<Rightarrow> 0 | Some _ \<Rightarrow> 1)"

fun writer_holds :: "log_channel \<Rightarrow> writer_pc \<Rightarrow> nat" where
  "writer_holds c (W_loop b p) = (if c = Diagnostic_line then some_line p else 0)"
| "writer_holds c (W_protocol l b p) = (if c = Diagnostic_line then some_line p else 1)"
| "writer_holds c (W_diagnostic b p) = (if c = Diagnostic_line then some_line p else 0)"
| "writer_holds c (W_merge l n) = (if c = Diagnostic_line then 1 else 0)"
| "writer_holds c (W_merged l n) = (if c = Diagnostic_line then 2 else 0)"
| "writer_holds c (W_emit l n p) = (if c = Diagnostic_line then 1 + some_line p else 0)"
| "writer_holds c pc = 0"

fun writer_merged :: "writer_pc \<Rightarrow> nat" where
  "writer_merged (W_merge l n) = n - 1"
| "writer_merged (W_merged l n) = n - 1"
| "writer_merged (W_emit l n p) = n - 1"
| "writer_merged pc = 0"

fun merging_ok :: "writer_pc \<Rightarrow> bool" where
  "merging_ok (W_merge l n) = (1 \<le> n)"
| "merging_ok (W_merged l n) = (1 \<le> n)"
| "merging_ok (W_emit l n p) = (1 \<le> n)"
| "merging_ok pc = True"

definition written :: "log_channel \<Rightarrow> 'q logger \<Rightarrow> nat" where
  "written c s = sum_list (map (\<lambda>(c', _, n). if c' = c then n else 0) (lg_written s))"

definition queued_lines :: "(bytes, 'q) queue_ops \<Rightarrow> log_channel \<Rightarrow> 'q logger \<Rightarrow> nat" where
  "queued_lines Q c s = length (q_items Q (lg_queue s c))"

definition books_ok :: "(bytes, 'q) queue_ops \<Rightarrow> 'q logger \<Rightarrow> bool" where
  "books_ok Q s \<longleftrightarrow>
     (\<forall>c. lg_outstanding s c = queued_lines Q c s + sum_list (map (thread_holds c) (lg_threads s)) + writer_holds c (lg_writer s)
        \<and> lg_entered s c = written c s + (if c = Diagnostic_line then writer_merged (lg_writer s) else 0) + lg_dropped s c + lg_outstanding s c)
     \<and> lg_producers s = length (filter is_counted (lg_threads s))
     \<and> merging_ok (lg_writer s)
     \<and> (if lg_shutdown s then \<not> lg_accepting s else True)"

lemma sum_list_set:
  assumes "i < length xs"
  shows "sum_list (map f (xs[i := x])) + f (xs ! i) = sum_list (map f xs) + (f x :: nat)"
  using assms by (induction xs arbitrary: i) (auto split: nat.splits)

lemma count_set:
  assumes "i < length xs"
  shows "length (filter P (xs[i := x])) + (if P (xs ! i) then 1 else 0) = length (filter P xs) + (if P x then 1 else 0)"
proof -
  have "length (filter P ys) = sum_list (map (\<lambda>y. if P y then 1 else 0) ys)" for ys by (induction ys) simp_all
  then show ?thesis using sum_list_set [OF assms, of "\<lambda>y. if P y then 1 else 0" x] by simp
qed

lemma books_holds:
  assumes "books_ok Q s"
  shows "i < length (lg_threads s) \<Longrightarrow> thread_holds c (lg_threads s ! i) \<le> lg_outstanding s c"
    "writer_holds c (lg_writer s) \<le> lg_outstanding s c"
    "i < length (lg_threads s) \<Longrightarrow> is_counted (lg_threads s ! i) \<Longrightarrow> 0 < lg_producers s"
proof -
  have o: "lg_outstanding s c = queued_lines Q c s + sum_list (map (thread_holds c) (lg_threads s)) + writer_holds c (lg_writer s)"
    using assms by (simp add: books_ok_def)
  then show "writer_holds c (lg_writer s) \<le> lg_outstanding s c" by simp
  assume i: "i < length (lg_threads s)"
  have "thread_holds c (lg_threads s ! i) \<le> sum_list (map (thread_holds c) (lg_threads s))"
    using i by (intro member_le_sum_list) auto
  then show "thread_holds c (lg_threads s ! i) \<le> lg_outstanding s c" using o by simp
  assume "is_counted (lg_threads s ! i)"
  then have "filter is_counted (lg_threads s) \<noteq> []" using i by (auto simp: filter_empty_conv)
  then show "0 < lg_producers s" using assms by (simp add: books_ok_def)
qed

lemma books_thread_move:
  assumes "books_ok Q s" "i < length (lg_threads s)" "lg_threads s' = (lg_threads s)[i := t]"
    and "lg_writer s' = lg_writer s" "lg_written s' = lg_written s" "lg_shutdown s' = lg_shutdown s" "lg_accepting s' = lg_accepting s"
    and lines: "\<And>c. lg_outstanding s' c + queued_lines Q c s + thread_holds c (lg_threads s ! i)
        = lg_outstanding s c + queued_lines Q c s' + thread_holds c t"
    and entered: "\<And>c. lg_entered s' c + lg_dropped s c + lg_outstanding s c = lg_entered s c + lg_dropped s' c + lg_outstanding s' c"
    and counted: "lg_producers s' + (if is_counted (lg_threads s ! i) then 1 else 0) = lg_producers s + (if is_counted t then 1 else 0)"
  shows "books_ok Q s'"
proof -
  have books: "lg_outstanding s c = queued_lines Q c s + sum_list (map (thread_holds c) (lg_threads s)) + writer_holds c (lg_writer s)"
    "lg_entered s c = written c s + (if c = Diagnostic_line then writer_merged (lg_writer s) else 0) + lg_dropped s c + lg_outstanding s c" for c
    using assms(1) by (auto simp: books_ok_def)
  have "lg_outstanding s' c = queued_lines Q c s' + sum_list (map (thread_holds c) (lg_threads s')) + writer_holds c (lg_writer s')" for c
    using lines [of c] books(1) [of c] sum_list_set [OF assms(2), of "thread_holds c" t] unfolding assms(3,4) by linarith
  moreover have "written c s' = written c s" for c by (simp add: written_def assms(5))
  then have "lg_entered s' c = written c s' + (if c = Diagnostic_line then writer_merged (lg_writer s') else 0) + lg_dropped s' c + lg_outstanding s' c" for c
    using entered [of c] books(2) [of c] unfolding assms(4) by (cases c) simp_all
  moreover have "lg_producers s' = length (filter is_counted (lg_threads s'))"
    using counted count_set [OF assms(2), of is_counted t] assms(1) unfolding assms(3) books_ok_def by linarith
  ultimately show ?thesis using assms(1,4,6,7) by (simp add: books_ok_def)
qed

lemma books_writer_move:
  assumes "books_ok Q s" "lg_threads s' = lg_threads s" "lg_producers s' = lg_producers s"
    and "lg_shutdown s' = lg_shutdown s" "lg_accepting s' = lg_accepting s" "lg_entered s' = lg_entered s" "lg_dropped s' = lg_dropped s"
    and "merging_ok (lg_writer s')"
    and lines: "\<And>c. lg_outstanding s' c + queued_lines Q c s + writer_holds c (lg_writer s)
        = lg_outstanding s c + queued_lines Q c s' + writer_holds c (lg_writer s')"
    and entered: "\<And>c. written c s' + (if c = Diagnostic_line then writer_merged (lg_writer s') else 0) + lg_outstanding s' c
        = written c s + (if c = Diagnostic_line then writer_merged (lg_writer s) else 0) + lg_outstanding s c"
  shows "books_ok Q s'"
proof -
  have books: "lg_outstanding s c = queued_lines Q c s + sum_list (map (thread_holds c) (lg_threads s)) + writer_holds c (lg_writer s)"
    "lg_entered s c = written c s + (if c = Diagnostic_line then writer_merged (lg_writer s) else 0) + lg_dropped s c + lg_outstanding s c" for c
    using assms(1) by (auto simp: books_ok_def)
  have "lg_outstanding s' c = queued_lines Q c s' + sum_list (map (thread_holds c) (lg_threads s')) + writer_holds c (lg_writer s')" for c
    using lines [of c] books(1) [of c] unfolding assms(2) by linarith
  moreover have "lg_entered s' c = written c s' + (if c = Diagnostic_line then writer_merged (lg_writer s') else 0) + lg_dropped s' c + lg_outstanding s' c" for c
    using entered [of c] books(2) [of c] unfolding assms(6,7) by linarith
  ultimately show ?thesis using assms(1-5,8) by (simp add: books_ok_def)
qed

lemma not_protocol [simp]: "c \<noteq> Protocol_line \<longleftrightarrow> c = Diagnostic_line"
  by (cases c) simp_all

lemmas logger_fields = set_thread_def set_writer_def settle_def write_out_def forget_line_def queued_lines_def

lemma written_snoc: "written c (write_out c' line n s) = written c s + (if c' = c then n else 0)"
  by (simp add: written_def write_out_def)

lemma producer_books:
  assumes Q: "array_queue_ok Q" and books: "books_ok Q s" and i: "i < length (lg_threads s)"
  shows "books_ok Q (producer_move Q i s)"
proof (cases "lg_threads s ! i")
  case Outside
  then show ?thesis using books by (simp add: producer_move_def)
next
  case (Admitted c line)
  then show ?thesis
    by (intro books_thread_move [OF books i, of _ "Counted c line"]) (simp_all add: producer_move_def logger_fields)
next
  case (Counted c line)
  then show ?thesis
    by (intro books_thread_move [OF books i, of _ "if lg_accepting s then case line of None \<Rightarrow> Leaving | Some l \<Rightarrow> Entering c l else Leaving"])
      (auto simp: producer_move_def logger_fields split: option.splits)
next
  case (Entering c l)
  then show ?thesis
    by (intro books_thread_move [OF books i, of _ "Pushing c l 4"]) (auto simp: producer_move_def logger_fields)
next
  case (Pushing c l n)
  show ?thesis
  proof (cases n)
    case 0
    then show ?thesis
      using Pushing books_holds(1) [OF books i, of c]
      by (intro books_thread_move [OF books i, of _ Leaving]) (auto simp: producer_move_def logger_fields)
  next
    case (Suc m)
    show ?thesis
    proof (cases "q_push Q l (lg_queue s c)")
      case None
      then show ?thesis using Pushing Suc
        by (intro books_thread_move [OF books i, of _ "Evicting c l m"]) (auto simp: producer_move_def logger_fields)
    next
      case (Some q)
      then show ?thesis using Pushing Suc queue_push_Some(1) [OF Q Some]
        by (intro books_thread_move [OF books i, of _ Leaving]) (auto simp: producer_move_def logger_fields)
    qed
  qed
next
  case (Evicting c l n)
  show ?thesis
  proof (cases "q_pop Q (lg_queue s c)")
    case None
    then show ?thesis using Evicting
      by (intro books_thread_move [OF books i, of _ "Pushing c l n"]) (auto simp: producer_move_def logger_fields)
  next
    case (Some x)
    obtain e q where x: "x = (e, q)" by fastforce
    show ?thesis using Evicting Some x queue_pop_Some(1) [OF Q Some [unfolded x]]
      by (intro books_thread_move [OF books i, of _ "Evicted c l n"]) (auto simp: producer_move_def logger_fields)
  qed
next
  case (Evicted c l n)
  then show ?thesis
    using books_holds(1) [OF books i, of c]
    by (intro books_thread_move [OF books i, of _ "Pushing c l n"]) (auto simp: producer_move_def logger_fields)
next
  case Leaving
  then show ?thesis
    using books_holds(3) [OF books i]
    by (intro books_thread_move [OF books i, of _ Outside]) (simp_all add: producer_move_def logger_fields)
qed

lemma take_line_books:
  assumes Q: "array_queue_ok Q" and books: "books_ok Q s"
    and missing: "merging_ok missing" "\<And>c. writer_holds c missing = writer_holds c (lg_writer s)" "writer_merged missing = writer_merged (lg_writer s)"
    and found: "\<And>line. merging_ok (found line)" "\<And>c' line. writer_holds c' (found line) = writer_holds c' (lg_writer s) + (if c' = c then 1 else 0)"
      "\<And>line. writer_merged (found line) = writer_merged (lg_writer s)"
  shows "books_ok Q (take_line Q c found missing s)"
proof (cases "q_pop Q (lg_queue s c)")
  case None
  then show ?thesis using missing
    by (intro books_writer_move [OF books]) (simp_all add: take_line_def logger_fields written_def)
next
  case (Some x)
  obtain e q where x: "x = (e, q)" by fastforce
  show ?thesis using Some x found queue_pop_Some(1) [OF Q Some [unfolded x]]
    by (intro books_writer_move [OF books]) (simp_all add: take_line_def logger_fields written_def)
qed

lemma writer_books:
  assumes Q: "array_queue_ok Q" and books: "books_ok Q s"
  shows "books_ok Q (writer_move Q s)"
proof -
  have holds: "writer_holds c (lg_writer s) \<le> lg_outstanding s c" for c by (rule books_holds(2) [OF books])
  have merging: "merging_ok (lg_writer s)" using books by (simp add: books_ok_def)
  note step = books_writer_move [OF books] and taken = take_line_books [OF Q books]
  show ?thesis
  proof (cases "lg_writer s")
    case (W_loop burst pending)
    show ?thesis
    proof (cases "burst < PROTOCOL_BURST")
      case True
      then show ?thesis using W_loop by (simp add: writer_move_def) (intro taken; auto)
    next
      case False
      then show ?thesis using W_loop by (simp add: writer_move_def) (intro step; auto simp: logger_fields written_def)
    qed
  next
    case (W_protocol line burst pending)
    then show ?thesis using holds [of Protocol_line]
      by (intro step) (auto simp: writer_move_def logger_fields written_def)
  next
    case (W_diagnostic burst pending)
    show ?thesis
    proof (cases pending)
      case None
      then show ?thesis using W_diagnostic by (simp add: writer_move_def) (intro taken; auto simp: some_line_def)
    next
      case (Some line)
      then show ?thesis using W_diagnostic by (intro step) (auto simp: writer_move_def logger_fields written_def some_line_def)
    qed
  next
    case (W_merge line n)
    show ?thesis
    proof (cases "n < COALESCE_BATCH")
      case True
      then show ?thesis using W_merge merging by (simp add: writer_move_def) (intro taken; auto simp: some_line_def)
    next
      case False
      then show ?thesis using W_merge merging by (simp add: writer_move_def) (intro step; auto simp: logger_fields written_def some_line_def)
    qed
  next
    case (W_merged line n)
    then show ?thesis using holds [of Diagnostic_line] merging
      by (intro step) (auto simp: writer_move_def logger_fields written_def)
  next
    case (W_emit line n pending)
    then show ?thesis using holds [of Diagnostic_line] merging
      by (intro step) (auto simp: writer_move_def logger_fields written_def)
  next
    case (W_again burst)
    then show ?thesis by (simp add: writer_move_def) (intro taken; auto simp: some_line_def)
  qed (use books in \<open>auto intro!: step simp: writer_move_def logger_fields written_def some_line_def\<close>)
qed

lemma log_step_books:
  assumes "array_queue_ok Q" "log_step Q s l s'" "books_ok Q s"
  shows "books_ok Q s'"
  using assms(2)
proof cases
  case (log_call i c line)
  show ?thesis
  proof (cases "lg_accepting s")
    case True
    then show ?thesis using log_call
      by (intro books_thread_move [OF assms(3), of i _ "Admitted c line"]) (simp_all add: logger_fields)
  qed (use log_call assms(3) in simp)
next
  case (log_producer i)
  then show ?thesis using producer_books [OF assms(1,3)] by simp
next
  case log_writer
  then show ?thesis using writer_books [OF assms(1,3)] by simp
qed (use assms(3) in \<open>simp_all add: books_ok_def written_def queued_lines_def\<close>)

interpretation log_steps: step_invariant "log_step Q" "\<lambda>s. array_queue_ok Q \<and> books_ok Q s" for Q :: "(bytes, 'q) queue_ops"
  by unfold_locales (auto intro: log_step_books)

lemma new_logger_books: "array_queue_ok Q \<Longrightarrow> books_ok Q (new_logger Q p d n)"
proof -
  assume Q: "array_queue_ok Q"
  have "sum_list (map (thread_holds c) (replicate n Outside)) = 0" for c by (induction n) simp_all
  moreover have "filter is_counted (replicate n Outside) = []" by (simp add: filter_empty_conv)
  ultimately show ?thesis
    by (simp add: books_ok_def new_logger_def queued_lines_def queue_new [OF Q] written_def some_line_def)
qed

text \<open>The run of a list of labels as a function: the state each enabled step leads to.\<close>

definition log_next :: "(bytes, 'q) queue_ops \<Rightarrow> log_label \<Rightarrow> 'q logger \<Rightarrow> 'q logger" where
  "log_next Q l s =
     (case l of
        L_log i c line \<Rightarrow> if lg_accepting s then set_thread i (Admitted c line) s else s
      | L_producer i \<Rightarrow> producer_move Q i s
      | L_writer \<Rightarrow> writer_move Q s
      | L_flush \<Rightarrow> s\<lparr>lg_flush_requested := lg_flush_requested s + 1\<rparr>
      | L_refuse \<Rightarrow> s\<lparr>lg_accepting := False\<rparr>
      | L_shut \<Rightarrow> s\<lparr>lg_shutdown := True\<rparr>)"

definition log_enabled :: "log_label \<Rightarrow> 'q logger \<Rightarrow> bool" where
  "log_enabled l s =
     (case l of
        L_log i c line \<Rightarrow> i < length (lg_threads s) \<and> lg_threads s ! i = Outside
      | L_producer i \<Rightarrow> i < length (lg_threads s)
      | L_shut \<Rightarrow> \<not> lg_accepting s
      | _ \<Rightarrow> True)"

fun log_run :: "(bytes, 'q) queue_ops \<Rightarrow> log_label list \<Rightarrow> 'q logger \<Rightarrow> 'q logger option" where
  "log_run Q [] s = Some s"
| "log_run Q (l # ls) s = (if log_enabled l s then log_run Q ls (log_next Q l s) else None)"

lemma log_next_step: "log_enabled l s \<Longrightarrow> log_step Q s l (log_next Q l s)"
proof (cases l)
  case (L_log i c line)
  assume "log_enabled l s"
  then show ?thesis using log_call [of i s Q c line] L_log by (simp add: log_enabled_def log_next_def)
next
  case L_flush
  then show ?thesis using log_flush [of Q s] by (simp add: log_next_def)
qed (auto simp: log_enabled_def log_next_def intro: log_step.intros)

lemma log_run_steps: "log_run Q ls s = Some s' \<Longrightarrow> steps (log_step Q) s ls s'"
  by (induction ls arbitrary: s) (auto split: if_splits intro: steps_Nil steps_Cons log_next_step)

lemmas log_run_simps = log_enabled_def log_next_def new_logger_def list_queue_def set_thread_def producer_move_def writer_move_def
  take_line_def set_writer_def settle_def write_out_def PROTOCOL_BURST_def queued_lines_def written_def eval_nat_numeral

text \<open>
  C29: No log line is unaccounted for: whatever the interleaving of the producers, the writer and a
  shutdown, the lines entered on a channel are those written, merged into the line being written,
  dropped and outstanding, and the outstanding ones are those in the queue and in the hands of a
  thread; so no counter falls below zero.
\<close>

theorem log_lines_are_accounted:
  assumes "array_queue_ok Q" "steps (log_step Q) (new_logger Q p d n) ls s"
  shows "lg_outstanding s c = queued_lines Q c s + sum_list (map (thread_holds c) (lg_threads s)) + writer_holds c (lg_writer s)
    \<and> lg_entered s c = written c s + (if c = Diagnostic_line then writer_merged (lg_writer s) else 0) + lg_dropped s c + lg_outstanding s c
    \<and> lg_producers s = length (filter is_counted (lg_threads s))"
proof -
  have "books_ok Q s" using log_steps.steps_inv [OF assms(2)] assms(1) new_logger_books by blast
  then show ?thesis unfolding books_ok_def by blast
qed

text \<open>One line entered and written, and all the rest of a shutdown.\<close>

definition one_line_run :: "log_label list" where
  "one_line_run = [L_log 0 Protocol_line (Some [65]), L_producer 0, L_producer 0, L_producer 0, L_producer 0, L_producer 0, L_refuse]"

definition last_run :: "log_label list" where
  "last_run = L_shut # replicate 10 L_writer"

lemma one_line_steps:
  "\<exists>s. steps (log_step list_queue) (new_logger list_queue 128 512 1) one_line_run s
    \<and> lg_threads s = [Outside] \<and> lg_writer s = W_loop 0 None \<and> \<not> lg_accepting s \<and> lg_entered s Protocol_line = 1
    \<and> (\<exists>s'. steps (log_step list_queue) s last_run s' \<and> lg_writer s' = W_returned \<and> lg_entered s' Protocol_line = 1)"
proof -
  have "\<exists>s. log_run list_queue one_line_run (new_logger list_queue 128 512 1) = Some s
    \<and> lg_threads s = [Outside] \<and> lg_writer s = W_loop 0 None \<and> \<not> lg_accepting s \<and> lg_entered s Protocol_line = 1
    \<and> (\<exists>s'. log_run list_queue last_run s = Some s' \<and> lg_writer s' = W_returned \<and> lg_entered s' Protocol_line = 1)"
    by (simp add: one_line_run_def last_run_def log_run_simps)
  then show ?thesis using log_run_steps by blast
qed

lemma log_lines_are_accounted_witness:
  "\<exists>s. steps (log_step list_queue) (new_logger list_queue 128 512 1) one_line_run s
    \<and> written Protocol_line s + lg_dropped s Protocol_line + lg_outstanding s Protocol_line = 1"
proof -
  obtain s where s: "steps (log_step list_queue) (new_logger list_queue 128 512 1) one_line_run s" "lg_entered s Protocol_line = 1"
    using one_line_steps by blast
  then show ?thesis using log_lines_are_accounted [OF list_queue_ok s(1), of Protocol_line] by auto
qed

section \<open>Shutting down\<close>

text \<open>
  Closed: no line is accepted and no producer is inside; and what the writer has seen in its check.
\<close>

fun check_ok :: "'q logger \<Rightarrow> writer_pc \<Rightarrow> bool" where
  "check_ok s (W_check_diagnostic b) = (lg_outstanding s Protocol_line = 0)"
| "check_ok s (W_check_producers b) = (lg_outstanding s Protocol_line = 0 \<and> lg_outstanding s Diagnostic_line = 0)"
| "check_ok s (W_idle b) = (lg_outstanding s Protocol_line = 0 \<and> lg_outstanding s Diagnostic_line = 0)"
| "check_ok s (W_flushed b) = (lg_outstanding s Protocol_line = 0 \<and> lg_outstanding s Diagnostic_line = 0)"
| "check_ok s W_returned = (lg_outstanding s Protocol_line = 0 \<and> lg_outstanding s Diagnostic_line = 0)"
| "check_ok s pc = True"

fun is_outside :: "producer_pc \<Rightarrow> bool" where
  "is_outside Outside = True"
| "is_outside (Admitted c l) = True"
| "is_outside (Counted c l) = True"
| "is_outside Leaving = True"
| "is_outside pc = False"

definition closed_logger :: "'q logger \<Rightarrow> bool" where
  "closed_logger s \<longleftrightarrow> \<not> lg_accepting s \<and> list_all is_outside (lg_threads s) \<and> check_ok s (lg_writer s)"

lemma list_all_set: "list_all P xs \<Longrightarrow> P x \<Longrightarrow> list_all P (xs[i := x])"
  by (simp add: list_all_iff) (metis insert_iff set_update_subset_insert subset_iff)

lemma check_ok_cong: "lg_outstanding s' = lg_outstanding s \<Longrightarrow> check_ok s' pc = check_ok s pc"
  by (cases pc) simp_all

lemma closed_take_line:
  fixes s :: "'q logger"
  assumes "closed_logger s" "\<And>(t :: 'q logger) line. check_ok t (found line)" "\<And>(t :: 'q logger). check_ok t missing"
  shows "closed_logger (take_line Q c found missing s)"
  using assms by (simp add: closed_logger_def take_line_def set_writer_def split: option.splits)

lemma closed_set_writer: "closed_logger s \<Longrightarrow> check_ok s pc \<Longrightarrow> closed_logger (set_writer pc s)"
  using check_ok_cong [of "set_writer pc s" s pc] by (simp add: closed_logger_def set_writer_def)

lemma closed_writer:
  assumes "closed_logger s"
  shows "closed_logger (writer_move Q s)"
proof (cases "lg_writer s")
  case (W_loop b p)
  show ?thesis using W_loop
    by (cases "b < PROTOCOL_BURST")
      (simp_all add: writer_move_def, (rule closed_take_line [OF assms] closed_set_writer [OF assms]; simp)+)
next
  case (W_diagnostic b p)
  show ?thesis using W_diagnostic
    by (cases p) (simp_all add: writer_move_def, (rule closed_take_line [OF assms] closed_set_writer [OF assms]; simp)+)
next
  case (W_merge l n)
  show ?thesis using W_merge
    by (cases "n < COALESCE_BATCH")
      (simp_all add: writer_move_def, (rule closed_take_line [OF assms] closed_set_writer [OF assms]; simp)+)
next
  case (W_again b)
  show ?thesis using W_again by (simp add: writer_move_def) (rule closed_take_line [OF assms]; simp)
qed (use assms in \<open>simp_all add: writer_move_def closed_logger_def set_writer_def settle_def write_out_def\<close>)

lemma closed_step:
  assumes "log_step Q s l s'" "closed_logger s"
  shows "closed_logger s'"
  using assms(1)
proof cases
  case (log_call i c line)
  then show ?thesis using assms(2) by (simp add: closed_logger_def)
next
  case (log_producer i)
  have o: "is_outside (lg_threads s ! i)" using assms(2) log_producer by (simp add: closed_logger_def list_all_length)
  have "\<not> lg_accepting (producer_move Q i s)" "list_all is_outside (lg_threads (producer_move Q i s))"
    "lg_writer (producer_move Q i s) = lg_writer s" "lg_outstanding (producer_move Q i s) = lg_outstanding s"
    using assms(2) o by (cases "lg_threads s ! i"; simp add: closed_logger_def producer_move_def set_thread_def list_all_set)+
  then show ?thesis using assms(2) log_producer check_ok_cong [of "producer_move Q i s" s "lg_writer s"] by (simp add: closed_logger_def)
next
  case log_writer
  then show ?thesis using closed_writer [OF assms(2)] by simp
next
  case log_flush
  then show ?thesis using assms(2) check_ok_cong [of s' s "lg_writer s"] by (simp add: closed_logger_def)
next
  case log_refuse
  then show ?thesis using assms(2) check_ok_cong [of s' s "lg_writer s"] by (simp add: closed_logger_def)
next
  case log_shut
  then show ?thesis using assms(2) check_ok_cong [of s' s "lg_writer s"] by (simp add: closed_logger_def)
qed

interpretation log_closed: step_invariant "log_step Q" closed_logger for Q :: "(bytes, 'q) queue_ops"
  by unfold_locales (rule closed_step)

text \<open>
  A shutdown that finds no producer inside loses no line: from a moment at which no line is accepted
  any more, no producer is pushing and the writer is not in the middle of its check, the writer
  returns only with both queues empty, and every line ever entered was written or counted as dropped.
\<close>

theorem shutdown_writes_every_line:
  assumes "array_queue_ok Q" "steps (log_step Q) (new_logger Q p d n) before s"
    and "\<not> lg_accepting s" "list_all is_outside (lg_threads s)" "lg_writer s = W_loop burst pending"
    and "steps (log_step Q) s after s'" "lg_writer s' = W_returned"
  shows "queued_lines Q c s' = 0 \<and> lg_entered s' c = written c s' + lg_dropped s' c"
proof -
  have "closed_logger s'" using log_closed.steps_inv [OF assms(6)] assms(3-5) by (simp add: closed_logger_def)
  then have "lg_outstanding s' c = 0" using assms(7) by (cases c) (simp_all add: closed_logger_def)
  moreover have "books_ok Q s'"
    using log_steps.steps_inv [OF assms(2)] log_steps.steps_inv [OF assms(6)] assms(1) new_logger_books by blast
  then have "lg_outstanding s' c = queued_lines Q c s' + sum_list (map (thread_holds c) (lg_threads s')) + writer_holds c (lg_writer s')"
    "lg_entered s' c = written c s' + (if c = Diagnostic_line then writer_merged (lg_writer s') else 0) + lg_dropped s' c + lg_outstanding s' c"
    by (auto simp: books_ok_def)
  ultimately show ?thesis using assms(7) by simp
qed

lemma shutdown_writes_every_line_witness:
  "\<exists>s. steps (log_step list_queue) (new_logger list_queue 128 512 1) (one_line_run @ last_run) s
    \<and> lg_writer s = W_returned \<and> written Protocol_line s + lg_dropped s Protocol_line = 1"
proof -
  obtain s s' where s: "steps (log_step list_queue) (new_logger list_queue 128 512 1) one_line_run s"
    "lg_threads s = [Outside]" "lg_writer s = W_loop 0 None" "\<not> lg_accepting s"
    "steps (log_step list_queue) s last_run s'" "lg_writer s' = W_returned" "lg_entered s' Protocol_line = 1"
    using one_line_steps by blast
  moreover have "written Protocol_line s' + lg_dropped s' Protocol_line = 1"
    using shutdown_writes_every_line [OF list_queue_ok s(1,4) _ s(3,5,6), of Protocol_line] s(2,7) by simp
  ultimately show ?thesis using steps_append [OF s(1,5)] by blast
qed

section \<open>A line can be lost\<close>

text \<open>
  The three reads of \<open>idle\<close> are not one: the writer reads that no protocol line is outstanding, a
  producer that was inside enters one, pushes it and leaves, the writer reads the rest, sees the
  shutdown and returns with the line in its queue.
\<close>

definition late_line_run :: "log_label list" where
  "late_line_run = [L_log 0 Protocol_line (Some [65]), L_producer 0, L_producer 0, L_refuse, L_shut,
     L_writer, L_writer, L_writer, L_writer, L_producer 0, L_producer 0, L_producer 0, L_writer, L_writer, L_writer, L_writer]"

theorem late_line_is_lost:
  "\<exists>s. steps (log_step list_queue) (new_logger list_queue 128 512 1) late_line_run s
    \<and> lg_writer s = W_returned \<and> queued_lines list_queue Protocol_line s = 1
    \<and> lg_entered s Protocol_line = 1 \<and> written Protocol_line s = 0 \<and> lg_dropped s Protocol_line = 0"
proof -
  have "\<exists>s. log_run list_queue late_line_run (new_logger list_queue 128 512 1) = Some s
    \<and> lg_writer s = W_returned \<and> queued_lines list_queue Protocol_line s = 1
    \<and> lg_entered s Protocol_line = 1 \<and> written Protocol_line s = 0 \<and> lg_dropped s Protocol_line = 0"
    by (simp add: late_line_run_def log_run_simps)
  then show ?thesis using log_run_steps by blast
qed

end
