(* ===== verification/Turn_Loop.thy ===== *)
theory Turn_Loop
  imports Turn_Mirror Turn_Endpoint Udp_Batch
begin

text \<open>
  The task of one allocation and the calls the session makes on it, the rest of \<open>turn.rs\<close>: the
  rounds of the two driver loops around the pump, and connecting, binding the channel and
  deallocating. What is ready when the task looks, the readings of the clock within a round, what
  the socket yields and which buffers the pool has are inputs.
\<close>

section \<open>The head of a round\<close>

definition CONTROL_TIMEOUT :: duration where "CONTROL_TIMEOUT = from_secs 12"
definition ALLOCATION_TIMEOUT :: duration where "ALLOCATION_TIMEOUT = from_secs 25"

record driver_loop =
  lo_core :: core
  lo_driver :: driver
  lo_deadline :: "instant option"
  lo_permit :: bool
  lo_shutdown :: bool
  lo_native :: instant
  lo_pump :: bool
  lo_limit :: nat
  lo_epoch :: u64

definition new_loop :: "instant \<Rightarrow> u64 \<Rightarrow> core \<Rightarrow> driver \<Rightarrow> driver_loop" where
  "new_loop now epoch c d =
     \<lparr>lo_core = c, lo_driver = d, lo_deadline = None, lo_permit = False, lo_shutdown = False, lo_native = now,
      lo_pump = True, lo_limit = MIN_DATAGRAMS, lo_epoch = epoch\<rparr>"

text \<open>The wake epoch with the last gap, whether a permit is free, the answers of the socket, the readings of the clock in order.\<close>

record head_input =
  hi_epoch :: u64
  hi_gap :: duration
  hi_permit_free :: bool
  hi_io :: "nat \<Rightarrow> bool"
  hi_clock :: "nat \<Rightarrow> instant"

record loop_env =
  le_describe :: "driver_error \<Rightarrow> message_text"
  le_turn :: turn_env
  le_server :: sock_addr
  le_peer :: sock_addr

definition wake_head :: "head_input \<Rightarrow> driver_loop \<Rightarrow> driver_loop" where
  "wake_head i s =
     (case observe_wake (hi_epoch i) (hi_gap i) (hi_clock i 0) (lo_epoch s) (lo_core s) of
        (moved, epoch, c) \<Rightarrow> s\<lparr>lo_epoch := epoch, lo_core := c, lo_pump := lo_pump s \<or> moved\<rparr>)"

text \<open>True leaves the loop.\<close>

definition cleanup_head :: "loop_env \<Rightarrow> head_input \<Rightarrow> driver_loop \<Rightarrow> bool \<times> driver_loop" where
  "cleanup_head env i s =
     (if \<not> dr_closing (lo_driver s) then (False, s)
      else if \<not> dr_control_sent (lo_driver s) then (True, s)
      else if \<not> lo_permit s \<and> \<not> hi_permit_free i then (True, s)
      else
        let st = dr_state (lo_driver s) in
        case start_driver_cleanup (le_turn env) (hi_clock i 1) (lo_deadline s) (lo_shutdown s) st (lo_core s) of
          ((deadline, started), (cleanup_deadline, shutdown_requested, c)) \<Rightarrow>
            (st \<ge> STATE_DEALLOCATED \<or> deadline \<le> hi_clock i 2,
             s\<lparr>lo_permit := True, lo_deadline := cleanup_deadline, lo_shutdown := shutdown_requested, lo_core := c,
               lo_pump := lo_pump s \<or> started\<rparr>))"

datatype head_next = Leaves driver_loop | Again driver_loop | Waits driver_loop duration

definition pump_head :: "loop_env \<Rightarrow> head_input \<Rightarrow> driver_loop \<Rightarrow> head_next" where
  "pump_head env i s =
     (if lo_pump s \<or> lo_native s \<le> hi_clock i 3 then
        (case pump_native (le_turn env) (hi_clock i 4) (hi_io i) (le_server env) (le_peer env) (lo_core s) (lo_driver s) of
           (Inr delay, c, d) \<Rightarrow>
             Again (s\<lparr>lo_core := c, lo_driver := d, lo_pump := False,
                      lo_native := hi_clock i 5 + (case delay of None \<Rightarrow> from_secs (24 * 60 * 60) | Some t \<Rightarrow> t)\<rparr>)
         | (Inl e, c, d) \<Rightarrow>
             let d = request_cleanup (fail_driver (Message (le_describe env e)) d);
                 s = s\<lparr>lo_core := c, lo_driver := d\<rparr>
             in if \<not> dr_control_sent d then Leaves s
                else case lo_deadline s of
                  Some t \<Rightarrow> if t \<le> hi_clock i 5 then Leaves s else Again (s\<lparr>lo_pump := True\<rparr>)
                | None \<Rightarrow> Again (s\<lparr>lo_pump := True\<rparr>))
      else
        let wait_deadline = (case lo_deadline s of None \<Rightarrow> lo_native s | Some t \<Rightarrow> min t (lo_native s));
            wait = wait_deadline - hi_clock i 4
        in Waits s (if wait = 0 then from_millis 1 else wait))"

definition loop_head :: "loop_env \<Rightarrow> head_input \<Rightarrow> driver_loop \<Rightarrow> head_next" where
  "loop_head env i s =
     (case cleanup_head env i (wake_head i s) of
        (True, s) \<Rightarrow> Leaves s
      | (False, s) \<Rightarrow> pump_head env i s)"

definition note_failure :: "message_text \<Rightarrow> driver_loop \<Rightarrow> driver_loop" where
  "note_failure text s = s\<lparr>lo_driver := fail_driver (Message text) (lo_driver s)\<rparr>"

definition close_loop :: "driver_loop \<Rightarrow> driver_loop" where
  "close_loop s = s\<lparr>lo_driver := request_cleanup (lo_driver s)\<rparr>"

definition needs_pump :: "driver_loop \<Rightarrow> driver_loop" where
  "needs_pump s = s\<lparr>lo_pump := True\<rparr>"

definition take_deficit :: "loop_env \<Rightarrow> instant \<Rightarrow> bytes \<Rightarrow> driver_loop \<Rightarrow> packet_action \<times> driver_loop" where
  "take_deficit env now wire s =
     (case process_deficit_packet (le_turn env) now wire (lo_core s) (lo_driver s) of
        (a, c, d) \<Rightarrow> (a, s\<lparr>lo_core := c, lo_driver := d\<rparr>))"

definition take_packet :: "loop_env \<Rightarrow> instant \<Rightarrow> packet_buf \<Rightarrow> driver_loop \<Rightarrow> packet_action \<times> driver_loop" where
  "take_packet env now p s =
     (case process_packet (le_turn env) now p (lo_core s) (lo_driver s) of
        (a, c, d) \<Rightarrow> (a, s\<lparr>lo_core := c, lo_driver := d\<rparr>))"

section \<open>The UDP driver\<close>

datatype udp_event =
    Ue_wake
  | Ue_timer
  | Ue_packet bytes
  | Ue_packet_failed message_text
  | Ue_readable
  | Ue_readable_failed message_text
  | Ue_owner_closed

text \<open>While closing: the datagrams that are there without waiting, then one event.\<close>

definition drain_closing :: "loop_env \<Rightarrow> instant \<Rightarrow> bytes list \<Rightarrow> driver_loop \<Rightarrow> driver_loop" where
  "drain_closing env now wires s =
     fold (\<lambda>wire s. case take_deficit env now wire s of (a, s) \<Rightarrow> if a = Pump then needs_pump s else s) wires s"

definition closing_event :: "loop_env \<Rightarrow> instant \<Rightarrow> udp_event \<Rightarrow> driver_loop \<Rightarrow> driver_loop" where
  "closing_event env now e s =
     (case e of
        Ue_wake \<Rightarrow> needs_pump s
      | Ue_timer \<Rightarrow> needs_pump s
      | Ue_packet wire \<Rightarrow> (case take_deficit env now wire s of (a, s) \<Rightarrow> s\<lparr>lo_pump := (a = Pump)\<rparr>)
      | Ue_packet_failed text \<Rightarrow> needs_pump (note_failure (ascii ''TURN UDP receive failed: '' @ text) s)
      | _ \<Rightarrow> s)"

text \<open>What one nonblocking receive yields; packets beyond the slots offered are the count that cannot be.\<close>

datatype recv_answer = Got "packet_buf list" | Got_wire bytes | Would_block_now | Recv_error message_text

fun take_packets :: "loop_env \<Rightarrow> instant \<Rightarrow> packet_buf list \<Rightarrow> driver_loop \<Rightarrow> bool \<times> driver_loop" where
  "take_packets env now [] s = (False, s)"
| "take_packets env now (p # ps) s =
     (case take_packet env now p s of
        (Owner_closed, s) \<Rightarrow> (True, s)
      | (Pump, s) \<Rightarrow> take_packets env now ps (needs_pump s)
      | (Wait, s) \<Rightarrow> take_packets env now ps s)"

text \<open>
  The burst, over the receives with the buffers the pool can give each: the number of datagrams and
  whether the socket was found empty. A list that ends is a socket with nothing more.
\<close>

definition adapt_limit :: "nat \<Rightarrow> driver_loop \<Rightarrow> driver_loop" where
  "adapt_limit received s = s\<lparr>lo_limit := adapt_batch_limit (lo_limit s) received\<rparr>"

fun burst :: "loop_env \<Rightarrow> instant \<Rightarrow> (nat \<times> recv_answer) list \<Rightarrow> nat \<Rightarrow> driver_loop \<Rightarrow> nat \<times> bool \<times> driver_loop" where
  "burst env now [] n s = (n, n < MAX_DATAGRAMS, if n < MAX_DATAGRAMS then adapt_limit 0 s else s)"
| "burst env now ((free, answer) # answers) n s =
     (if MAX_DATAGRAMS \<le> n then (n, False, s)
      else
        let slots = min (min (MAX_DATAGRAMS - n) (lo_limit s)) free in
        if slots = 0 then
          (case answer of
             Got_wire wire \<Rightarrow>
               (case take_deficit env now wire s of
                  (a, s) \<Rightarrow> burst env now answers (n + 1) (if a = Pump then needs_pump s else s))
           | Recv_error text \<Rightarrow>
               (n, False, needs_pump (close_loop (note_failure (ascii ''TURN UDP receive failed: '' @ text) s)))
           | _ \<Rightarrow> (n, True, s))
        else
          (case answer of
             Got ps \<Rightarrow>
               if ps = [] then (n, True, adapt_limit 0 s)
               else if slots < length ps then
                 (n, False, needs_pump (close_loop (note_failure (ascii ''TURN UDP batch receive returned an invalid count'') s)))
               else
                 let s = (if slots = lo_limit s then adapt_limit (length ps) s else s) in
                 (case take_packets env now ps s of
                    (True, s) \<Rightarrow> (n + length ps, False, close_loop s)
                  | (False, s) \<Rightarrow> burst env now answers (n + length ps) s)
           | Recv_error text \<Rightarrow>
               (n, False, needs_pump (close_loop (note_failure (ascii ''TURN UDP receive failed: '' @ text) s)))
           | _ \<Rightarrow> (n, True, adapt_limit 0 s)))"

definition open_event :: "udp_event \<Rightarrow> driver_loop \<Rightarrow> driver_loop" where
  "open_event e s =
     (case e of
        Ue_wake \<Rightarrow> needs_pump s
      | Ue_timer \<Rightarrow> needs_pump s
      | Ue_owner_closed \<Rightarrow> close_loop s
      | Ue_readable_failed text \<Rightarrow> needs_pump (close_loop (note_failure (ascii ''TURN UDP readiness failed: '' @ text) s))
      | _ \<Rightarrow> s)"

record udp_input =
  ui_head :: head_input
  ui_now :: instant
  ui_drained :: "bytes list"
  ui_answers :: "(nat \<times> recv_answer) list"
  ui_event :: udp_event

definition udp_round :: "loop_env \<Rightarrow> udp_input \<Rightarrow> driver_loop \<Rightarrow> bool \<times> driver_loop" where
  "udp_round env i s =
     (case loop_head env (ui_head i) s of
        Leaves s \<Rightarrow> (True, s)
      | Again s \<Rightarrow> (False, s)
      | Waits s wait \<Rightarrow>
          if dr_closing (lo_driver s)
          then (False, closing_event env (ui_now i) (ui_event i) (drain_closing env (ui_now i) (ui_drained i) s))
          else (case burst env (ui_now i) (ui_answers i) 0 s of
                  (n, nothing, s) \<Rightarrow>
                    (False, if lo_pump s \<or> (0 < n \<and> \<not> nothing) then s else open_event (ui_event i) s)))"

section \<open>The stream driver\<close>

datatype stream_event =
    Se_wake
  | Se_timer
  | Se_owner_closed
  | Se_write_failure "message_text option"
  | Se_write_closed
  | Se_control bytes
  | Se_data packet_buf
  | Se_data_dropped
  | Se_failed message_text

definition stream_event_step :: "loop_env \<Rightarrow> instant \<Rightarrow> stream_event \<Rightarrow> driver_loop \<Rightarrow> driver_loop" where
  "stream_event_step env now e s =
     (case e of
        Se_wake \<Rightarrow> needs_pump s
      | Se_timer \<Rightarrow> needs_pump s
      | Se_owner_closed \<Rightarrow> close_loop s
      | Se_write_failure (Some reason) \<Rightarrow>
          if dr_closing (lo_driver s) then s
          else needs_pump (close_loop (note_failure (ascii ''TURN stream transmit failed: '' @ reason) s))
      | Se_write_failure None \<Rightarrow> s
      | Se_write_closed \<Rightarrow> s
      | Se_control frame \<Rightarrow> (case take_deficit env now frame s of (a, s) \<Rightarrow> if a = Pump then needs_pump s else s)
      | Se_data p \<Rightarrow>
          (case take_packet env now p s of
             (Wait, s) \<Rightarrow> s
           | (Pump, s) \<Rightarrow> needs_pump s
           | (Owner_closed, s) \<Rightarrow> close_loop s)
      | Se_data_dropped \<Rightarrow> s\<lparr>lo_driver := note_dropped (lo_driver s)\<rparr>
      | Se_failed text \<Rightarrow>
          needs_pump (close_loop (if dr_closing (lo_driver s) then s else note_failure (ascii ''TURN stream receive failed: '' @ text) s)))"

record stream_input =
  si_head :: head_input
  si_now :: instant
  si_event :: stream_event

definition stream_round :: "loop_env \<Rightarrow> stream_input \<Rightarrow> driver_loop \<Rightarrow> bool \<times> driver_loop" where
  "stream_round env i s =
     (case loop_head env (si_head i) s of
        Leaves s \<Rightarrow> (True, s)
      | Again s \<Rightarrow> (False, s)
      | Waits s wait \<Rightarrow> (False, stream_event_step env (si_now i) (si_event i) s))"

text \<open>Either loop over its rounds; leaving it destroys the core.\<close>

fun driver_rounds :: "('i \<Rightarrow> driver_loop \<Rightarrow> bool \<times> driver_loop) \<Rightarrow> 'i list \<Rightarrow> driver_loop \<Rightarrow> bool \<times> driver_loop" where
  "driver_rounds round [] s = (False, s)"
| "driver_rounds round (i # rs) s =
     (case round i s of
        (True, s) \<Rightarrow> (True, s\<lparr>lo_core := force_destroy 0 (lo_core s)\<rparr>)
      | (False, s) \<Rightarrow> driver_rounds round rs s)"

section \<open>The loops are runs of the driver\<close>

definition reaches :: "loop_env \<Rightarrow> driver_loop \<Rightarrow> driver_loop \<Rightarrow> bool" where
  "reaches env s s' \<longleftrightarrow>
     (\<exists>ls. steps (driver_step (le_describe env) (le_turn env) (le_server env) (le_peer env))
        (lo_core s, lo_driver s) ls (lo_core s', lo_driver s'))"

lemma reaches_same: "lo_core s' = lo_core s \<Longrightarrow> lo_driver s' = lo_driver s \<Longrightarrow> reaches env s s'"
  unfolding reaches_def by (auto intro: steps_Nil)

lemma reaches_trans: "reaches env s s' \<Longrightarrow> reaches env s' s'' \<Longrightarrow> reaches env s s''"
  unfolding reaches_def by (blast intro: steps_append)

lemma reaches_step:
  assumes "driver_step (le_describe env) (le_turn env) (le_server env) (le_peer env) (lo_core s, lo_driver s) l (lo_core s', lo_driver s')"
  shows "reaches env s s'"
  unfolding reaches_def
  by (rule exI [of _ "[l]"], rule steps_Cons [where step = "driver_step (le_describe env) (le_turn env) (le_server env) (le_peer env)", OF assms steps_Nil])

lemma reaches_call:
  assumes "turn_step (le_turn env) (lo_core s) (now, call) c" "call \<notin> {Pull_event, Pull_control}" "lo_core s' = c" "lo_driver s' = lo_driver s"
  shows "reaches env s s'"
  by (rule reaches_step [where l = "(now, Core_call call)"]) (use assms driver_step.intros(1) in simp)

lemma reaches_wake: "reaches env s (wake_head i s)"
proof (cases "hi_epoch i = lo_epoch s")
  case True
  then show ?thesis by (intro reaches_same) (simp_all add: wake_head_def observe_wake_def)
next
  case False
  then show ?thesis
    by (intro reaches_call [OF turn_step.intros(6) [where now = "hi_clock i 0" and gap = "hi_gap i"]])
      (simp_all add: wake_head_def observe_wake_def)
qed

lemma reaches_cleanup:
  assumes "cleanup_head env i s = (b, s')"
  shows "reaches env s s'"
proof (cases "lo_core s' = lo_core s")
  case True
  then show ?thesis using assms
    by (intro reaches_same) (auto simp: cleanup_head_def start_driver_cleanup_def Let_def split: if_splits)
next
  case False
  then have "lo_core s' = snd (graceful_shutdown (le_turn env) (hi_clock i 1) (lo_core s))" "lo_driver s' = lo_driver s"
    using assms by (auto simp: cleanup_head_def start_driver_cleanup_def Let_def split: if_splits)
  then show ?thesis by (intro reaches_call [OF turn_step.intros(9) [where now = "hi_clock i 1"]]) simp_all
qed

definition head_state :: "head_next \<Rightarrow> driver_loop" where
  "head_state n = (case n of Leaves s \<Rightarrow> s | Again s \<Rightarrow> s | Waits s _ \<Rightarrow> s)"

lemma reaches_pump: "reaches env s (head_state (pump_head env i s))"
proof (cases "lo_pump s \<or> lo_native s \<le> hi_clock i 3")
  case True
  obtain r c d where p: "pump_native (le_turn env) (hi_clock i 4) (hi_io i) (le_server env) (le_peer env) (lo_core s) (lo_driver s) = (r, c, d)"
    by (metis prod_cases3)
  have "(lo_core (head_state (pump_head env i s)), lo_driver (head_state (pump_head env i s)))
      = driver_pump (le_describe env) (le_turn env) (hi_clock i 4) (hi_io i) (le_server env) (le_peer env) (lo_core s) (lo_driver s)"
    using True by (cases r) (auto simp: pump_head_def head_state_def driver_pump_def p Let_def split: option.splits)
  then show ?thesis by (intro reaches_step [where l = "(hi_clock i 4, Round (hi_io i))"]) (simp add: driver_step.intros)
next
  case False
  then show ?thesis by (intro reaches_same) (simp_all add: pump_head_def head_state_def Let_def)
qed

lemma reaches_head: "reaches env s (head_state (loop_head env i s))"
proof -
  obtain b s1 where c: "cleanup_head env i (wake_head i s) = (b, s1)" by fastforce
  have s1: "reaches env s s1" by (rule reaches_trans [OF reaches_wake reaches_cleanup [OF c]])
  show ?thesis
  proof (cases b)
    case True
    then show ?thesis using s1 c by (simp add: loop_head_def head_state_def)
  next
    case False
    then show ?thesis using reaches_trans [OF s1 reaches_pump] c by (simp add: loop_head_def)
  qed
qed

lemma reaches_pump_flag: "reaches env s (s\<lparr>lo_pump := b\<rparr>)" "reaches env s (needs_pump s)" "reaches env s (adapt_limit n s)"
  by (rule reaches_same; simp add: needs_pump_def adapt_limit_def)+

lemma reaches_failure: "reaches env s (note_failure text s)"
  by (rule reaches_step [where l = "(0, Note (Message text))"]) (simp add: note_failure_def driver_step.intros)

lemma reaches_close: "reaches env s (close_loop s)"
  by (rule reaches_step [where l = "(0, Close)"]) (simp add: close_loop_def driver_step.intros)

lemma reaches_dropped: "reaches env s (s\<lparr>lo_driver := note_dropped (lo_driver s)\<rparr>)"
  by (rule reaches_step [where l = "(0, Data_dropped)"]) (simp add: driver_step.intros)

lemma reaches_failed: "reaches env s (needs_pump (close_loop (note_failure text s)))"
  by (rule reaches_trans [OF reaches_trans [OF reaches_failure reaches_close] reaches_pump_flag(2)])

lemma reaches_deficit:
  assumes "take_deficit env now wire s = (a, s')"
  shows "reaches env s s'"
proof -
  have "(lo_core s', lo_driver s') = snd (process_deficit_packet (le_turn env) now wire (lo_core s) (lo_driver s))"
    using assms by (auto simp: take_deficit_def split: prod.splits)
  then show ?thesis by (intro reaches_step [where l = "(now, Deficit_in wire)"]) (simp add: driver_step.intros)
qed

lemma reaches_packet:
  assumes "take_packet env now p s = (a, s')"
  shows "reaches env s s'"
proof -
  have "(lo_core s', lo_driver s') = snd (process_packet (le_turn env) now p (lo_core s) (lo_driver s))"
    using assms by (auto simp: take_packet_def split: prod.splits)
  then show ?thesis by (intro reaches_step [where l = "(now, Datagram_in p)"]) (simp add: driver_step.intros)
qed

lemma reaches_packets: "reaches env s (snd (take_packets env now ps s))"
proof (induction ps arbitrary: s)
  case (Cons p ps)
  obtain a s1 where t: "take_packet env now p s = (a, s1)" by fastforce
  note s1 = reaches_packet [OF t]
  show ?case
    using reaches_trans [OF s1 Cons.IH] reaches_trans [OF reaches_trans [OF s1 reaches_pump_flag(2)] Cons.IH] s1
    by (cases a) (simp_all add: t)
qed (simp add: reaches_same)

lemma reaches_deficit_pump:
  assumes "take_deficit env now wire s = (a, s')"
  shows "reaches env s (if a = Pump then needs_pump s' else s')"
  using reaches_deficit [OF assms] reaches_trans [OF reaches_deficit [OF assms] reaches_pump_flag(2)] by simp

lemma reaches_drain: "reaches env s (drain_closing env now wires s)"
  unfolding drain_closing_def
proof (induction wires arbitrary: s)
  case (Cons wire wires)
  obtain a s1 where t: "take_deficit env now wire s = (a, s1)" by fastforce
  show ?case using reaches_trans [OF reaches_deficit_pump [OF t] Cons.IH] by (simp add: t)
qed (simp add: reaches_same)

lemma reaches_burst: "reaches env s (snd (snd (burst env now answers n s)))"
proof (induction answers arbitrary: n s)
  case Nil
  then show ?case by (simp add: reaches_same adapt_limit_def)
next
  case (Cons x answers)
  obtain free answer where x: "x = (free, answer)" by fastforce
  let ?slots = "min (min (MAX_DATAGRAMS - n) (lo_limit s)) free"
  show ?case
  proof (cases "MAX_DATAGRAMS \<le> n")
    case True
    then show ?thesis by (simp add: x reaches_same)
  next
    case more: False
    show ?thesis
    proof (cases answer)
      case (Got ps)
      let ?s = "if ?slots = lo_limit s then adapt_limit (length ps) s else s"
      have s: "reaches env s ?s" by (auto intro: reaches_pump_flag reaches_same)
      obtain b s1 where t: "take_packets env now ps ?s = (b, s1)" by fastforce
      have s1: "reaches env s s1" using reaches_trans [OF s reaches_packets, of now ps] t by simp
      show ?thesis
        using more Got t reaches_trans [OF s1 Cons.IH] reaches_trans [OF s1 reaches_close] reaches_pump_flag(3) reaches_failed
        by (cases b) (auto simp: x Let_def reaches_same)
    next
      case (Got_wire wire)
      obtain a s1 where t: "take_deficit env now wire s = (a, s1)" by fastforce
      show ?thesis using more Got_wire t reaches_trans [OF reaches_deficit_pump [OF t] Cons.IH] reaches_pump_flag(3)
        by (auto simp: x Let_def)
    next
      case Would_block_now
      then show ?thesis using more reaches_pump_flag(3) by (auto simp: x Let_def reaches_same)
    next
      case (Recv_error msg)
      then show ?thesis using more reaches_failed by (auto simp: x Let_def)
    qed
  qed
qed

lemma reaches_udp_round: "reaches env s (snd (udp_round env i s))"
proof -
  note head = reaches_head [of env s "ui_head i"]
  show ?thesis
proof (cases "loop_head env (ui_head i) s")
  case (Waits s1 wait)
  have s1: "reaches env s s1" using reaches_head [of env s "ui_head i"] Waits by (simp add: head_state_def)
  show ?thesis
  proof (cases "dr_closing (lo_driver s1)")
    case True
    let ?s = "drain_closing env (ui_now i) (ui_drained i) s1"
    have "reaches env ?s (closing_event env (ui_now i) (ui_event i) ?s)"
    proof (cases "ui_event i")
      case (Ue_packet wire)
      obtain a s2 where t: "take_deficit env (ui_now i) wire ?s = (a, s2)" by fastforce
      show ?thesis using reaches_trans [OF reaches_deficit [OF t] reaches_pump_flag(1)] Ue_packet t by (simp add: closing_event_def)
    qed (auto simp: closing_event_def reaches_same intro: reaches_pump_flag reaches_trans [OF reaches_failure reaches_pump_flag(2)])
    then show ?thesis using Waits True reaches_trans [OF reaches_trans [OF s1 reaches_drain]] by (simp add: udp_round_def)
  next
    case False
    obtain n nothing s2 where b: "burst env (ui_now i) (ui_answers i) 0 s1 = (n, nothing, s2)" by (metis prod_cases3)
    have s2: "reaches env s s2" using reaches_trans [OF s1 reaches_burst, of "ui_now i" "ui_answers i" 0] b by simp
    have "reaches env s2 (open_event (ui_event i) s2)"
      by (cases "ui_event i") (simp_all add: open_event_def reaches_same reaches_pump_flag reaches_close reaches_failed)
    then show ?thesis using Waits False b s2 reaches_trans [OF s2] by (simp add: udp_round_def)
  qed
qed (use head in \<open>simp_all add: udp_round_def head_state_def\<close>)
qed

lemma reaches_stream_event: "reaches env s (stream_event_step env now e s)"
proof (cases e)
  case (Se_control frame)
  obtain a s1 where t: "take_deficit env now frame s = (a, s1)" by fastforce
  show ?thesis using reaches_deficit_pump [OF t] Se_control t by (simp add: stream_event_step_def)
next
  case (Se_data p)
  obtain a s1 where t: "take_packet env now p s = (a, s1)" by fastforce
  note s1 = reaches_packet [OF t]
  show ?thesis using Se_data t s1 reaches_trans [OF s1 reaches_pump_flag(2)] reaches_trans [OF s1 reaches_close]
    by (cases a) (simp_all add: stream_event_step_def)
next
  case (Se_write_failure r)
  then show ?thesis by (cases r) (simp_all add: stream_event_step_def reaches_same reaches_failed)
next
  case (Se_failed msg)
  have "reaches env s (needs_pump (close_loop s))" by (rule reaches_trans [OF reaches_close reaches_pump_flag(2)])
  then show ?thesis using Se_failed reaches_failed by (simp add: stream_event_step_def)
qed (simp_all add: stream_event_step_def reaches_same reaches_pump_flag reaches_close reaches_dropped)

lemma reaches_stream_round: "reaches env s (snd (stream_round env i s))"
proof -
  note head = reaches_head [of env s "si_head i"]
  show ?thesis
proof (cases "loop_head env (si_head i) s")
  case (Waits s1 wait)
  have s1: "reaches env s s1" using reaches_head [of env s "si_head i"] Waits by (simp add: head_state_def)
  show ?thesis using Waits reaches_trans [OF s1 reaches_stream_event] by (simp add: stream_round_def)
qed (use head in \<open>simp_all add: stream_round_def head_state_def\<close>)
qed

lemma reaches_destroyed: "reaches env s (s\<lparr>lo_core := force_destroy 0 (lo_core s)\<rparr>)"
  by (rule reaches_call [OF turn_step.intros(10) [where now = 0 and status = 0]]) simp_all

lemma reaches_rounds:
  assumes "\<And>i s. reaches env s (snd (round i s))"
  shows "reaches env s (snd (driver_rounds round rs s))"
proof (induction rs arbitrary: s)
  case (Cons i rs)
  obtain b s1 where r: "round i s = (b, s1)" by fastforce
  have s1: "reaches env s s1" using assms [of s i] r by simp
  show ?case using r reaches_trans [OF s1 reaches_destroyed] reaches_trans [OF s1 Cons.IH] by (cases b) simp_all
qed (simp add: reaches_same)


section \<open>A closing driver ends\<close>

lemma pump_events_closing:
  "pump_events peer c d flags = (e, c', d', flags') \<Longrightarrow> dr_closing d' = dr_closing d"
proof (induction peer c d flags rule: pump_events.induct)
  case (1 peer c d flags)
  show ?case
  proof (cases "pull_event c")
    case (Pair ev c1)
    show ?thesis
    proof (cases ev)
      case None
      then show ?thesis using 1(2) Pair by (simp add: pump_events.simps [of peer c d flags])
    next
      case (Some v)
      obtain e1 d1 fl1 where h: "handle_event peer c1 v d flags = (e1, d1, fl1)" by (metis prod_cases3)
      show ?thesis
        using 1(1) [OF Pair [symmetric] Some h [symmetric] _ refl] 1(2) Pair Some h handle_event_effect [OF h]
        by (cases e1) (auto simp: pump_events.simps [of peer c d flags])
    qed
  qed
qed

lemma pump_native_closing:
  assumes "pump_native env now io server peer c d = (r, c', d')"
  shows "dr_closing d' = dr_closing d"
proof -
  obtain r1 c1 where poll: "poll env now c = (r1, c1)" by fastforce
  obtain e2 c2 d2 where ctl: "pump_controls io server c1 d = (e2, c2, d2)" by (metis prod_cases3)
  obtain e3 c3 d3 u x where ev: "pump_events peer c2 d2 (False, False) = (e3, c3, d3, u, x)" by (metis prod_cases5)
  have "dr_closing d2 = dr_closing d" using pump_controls_effect [OF ctl] by simp
  moreover have "dr_closing d3 = dr_closing d2" using pump_events_closing [OF ev] .
  ultimately show ?thesis using assms
    by (auto simp: pump_native_def poll ctl ev split: sum.splits option.splits if_splits)
qed

lemma steps_closing:
  assumes "steps (driver_step describe env server peer) cd ls cd'" "dr_closing (snd cd)"
  shows "dr_closing (snd cd')"
  using assms
proof (induction rule: steps.induct)
  case (steps_Cons cd l cd1 ls cd2)
  have "dr_closing (snd cd1)"
    using steps_Cons(1)
  proof (cases rule: driver_step.cases)
    case (2 c d now io)
    obtain r c1 d1 where p: "pump_native env now io server peer c d = (r, c1, d1)" by (metis prod_cases3)
    then show ?thesis using 2 steps_Cons(4) pump_native_closing [OF p]
      by (auto simp: driver_pump_def request_cleanup_def split: sum.splits)
  qed (use steps_Cons(4) in \<open>auto simp: process_packet_def process_deficit_packet_def stash_protected_def request_cleanup_def
      fail_driver_def receiver_recv_def pop_protected_def note_dropped_def Let_def split: option.splits sum.splits if_splits list.splits\<close>)
  then show ?case by (rule steps_Cons(3))
qed simp

lemma reaches_closing: "reaches env s s' \<Longrightarrow> dr_closing (lo_driver s) \<Longrightarrow> dr_closing (lo_driver s')"
  unfolding reaches_def using steps_closing by fastforce

text \<open>What a closing driver that goes on has: a deadline that is not over, not later than the one it had.\<close>

definition has_deadline :: "head_input \<Rightarrow> driver_loop \<Rightarrow> driver_loop \<Rightarrow> bool" where
  "has_deadline i s s' \<longleftrightarrow>
     (\<exists>d. lo_deadline s' = Some d \<and> hi_clock i 2 < d \<and> d \<le> hi_clock i 1 + CLEANUP_TIMEOUT
        \<and> (case lo_deadline s of None \<Rightarrow> True | Some d0 \<Rightarrow> d \<le> d0))"

lemma timeouts: "READY_CLEANUP_TIMEOUT \<le> CLEANUP_TIMEOUT"
  by (simp add: READY_CLEANUP_TIMEOUT_def CLEANUP_TIMEOUT_def from_secs_def)

lemma head_deadline:
  assumes "dr_closing (lo_driver s)" "loop_head env i s = n" "\<nexists>s'. n = Leaves s'"
  shows "has_deadline i s (head_state n)"
proof -
  let ?w = "wake_head i s"
  have w: "lo_driver ?w = lo_driver s" "lo_deadline ?w = lo_deadline s" by (simp_all add: wake_head_def split: prod.splits)
  obtain b s1 where c: "cleanup_head env i ?w = (b, s1)" by fastforce
  have b: "\<not> b"
  proof
    assume b
    then have "n = Leaves s1" using assms(2) c by (simp add: loop_head_def)
    then show False using assms(3) by blast
  qed
  have "has_deadline i s s1"
    using c b assms(1) timeouts
    by (auto simp: cleanup_head_def w start_driver_cleanup_def Let_def has_deadline_def min_def split: if_splits option.splits)
  moreover have "lo_deadline (head_state n) = lo_deadline s1"
    using assms(2,3) c b by (auto simp: loop_head_def pump_head_def head_state_def Let_def split: prod.splits sum.splits option.splits if_splits)
  ultimately show ?thesis by (simp add: has_deadline_def)
qed

lemma deadline_simps [simp]:
  "lo_deadline (needs_pump s) = lo_deadline s" "lo_deadline (close_loop s) = lo_deadline s"
  "lo_deadline (note_failure text s) = lo_deadline s" "lo_deadline (adapt_limit n s) = lo_deadline s"
  by (simp_all add: needs_pump_def close_loop_def note_failure_def adapt_limit_def)

lemma deadline_take:
  "take_deficit env now wire s = (a, s') \<Longrightarrow> lo_deadline s' = lo_deadline s"
  "take_packet env now p s = (a, s') \<Longrightarrow> lo_deadline s' = lo_deadline s"
  by (auto simp: take_deficit_def take_packet_def split: prod.splits)

lemma deadline_packets: "lo_deadline (snd (take_packets env now ps s)) = lo_deadline s"
  by (induction ps arbitrary: s) (auto split: prod.splits packet_action.splits dest: deadline_take)

lemma deadline_drain [simp]: "lo_deadline (drain_closing env now wires s) = lo_deadline s"
  unfolding drain_closing_def
  by (induction wires arbitrary: s) (auto split: prod.splits dest: deadline_take)

lemma deadline_events [simp]:
  "lo_deadline (closing_event env now e s) = lo_deadline s" "lo_deadline (open_event e s) = lo_deadline s"
  "lo_deadline (stream_event_step env now e' s) = lo_deadline s"
  by (auto simp: closing_event_def open_event_def stream_event_step_def dest: deadline_take
      split: udp_event.splits stream_event.splits prod.splits option.splits packet_action.splits)

lemma deadline_burst: "lo_deadline (snd (snd (burst env now answers n s))) = lo_deadline s"
proof (induction answers arbitrary: n s)
  case (Cons x answers)
  obtain free answer where x: "x = (free, answer)" by fastforce
  let ?slots = "min (min (MAX_DATAGRAMS - n) (lo_limit s)) free"
  show ?case
  proof (cases answer)
    case (Got ps)
    let ?s = "if ?slots = lo_limit s then adapt_limit (length ps) s else s"
    obtain b s1 where t: "take_packets env now ps ?s = (b, s1)" by fastforce
    have s1: "lo_deadline s1 = lo_deadline s" using deadline_packets [of env now ps ?s] t by simp
    show ?thesis using Got t s1 Cons.IH [of "n + length ps" s1] by (cases b) (simp_all add: x Let_def)
  next
    case (Got_wire wire)
    obtain a s1 where t: "take_deficit env now wire s = (a, s1)" by fastforce
    show ?thesis using Got_wire t deadline_take(1) [OF t] Cons.IH [of "n + 1"] by (simp add: x Let_def)
  qed (simp_all add: x Let_def)
qed simp

lemma udp_round_deadline:
  assumes "udp_round env i s = (False, s')" "dr_closing (lo_driver s)"
  shows "has_deadline (ui_head i) s s' \<and> dr_closing (lo_driver s')"
proof -
  obtain n where n: "loop_head env (ui_head i) s = n" by blast
  have "\<nexists>s1. n = Leaves s1" using assms(1) n by (auto simp: udp_round_def)
  then have "has_deadline (ui_head i) s (head_state n)" by (rule head_deadline [OF assms(2) n])
  moreover have "lo_deadline s' = lo_deadline (head_state n)"
    using assms(1) n deadline_burst [of env "ui_now i" "ui_answers i" 0 "head_state n"]
    by (auto simp: udp_round_def head_state_def split: head_next.splits if_splits prod.splits)
  moreover have "dr_closing (lo_driver s')"
    using reaches_closing [OF reaches_udp_round [where env = env and i = i] assms(2)] assms(1) by simp
  ultimately show ?thesis by (simp add: has_deadline_def)
qed

lemma stream_round_deadline:
  assumes "stream_round env i s = (False, s')" "dr_closing (lo_driver s)"
  shows "has_deadline (si_head i) s s' \<and> dr_closing (lo_driver s')"
proof -
  obtain n where n: "loop_head env (si_head i) s = n" by blast
  have "\<nexists>s1. n = Leaves s1" using assms(1) n by (auto simp: stream_round_def)
  then have "has_deadline (si_head i) s (head_state n)" by (rule head_deadline [OF assms(2) n])
  moreover have "lo_deadline s' = lo_deadline (head_state n)"
    using assms(1) n by (auto simp: stream_round_def head_state_def split: head_next.splits)
  moreover have "dr_closing (lo_driver s')"
    using reaches_closing [OF reaches_stream_round [where env = env and i = i] assms(2)] assms(1) by simp
  ultimately show ?thesis by (simp add: has_deadline_def)
qed

text \<open>A loop that has not ended is before the first deadline it got.\<close>

lemma rounds_before_deadline:
  assumes round: "\<And>i s s'. round i s = (False, s') \<Longrightarrow> dr_closing (lo_driver s) \<Longrightarrow>
      has_deadline (head_of i) s s' \<and> dr_closing (lo_driver s')"
    and "driver_rounds round rs s = (False, s')" "dr_closing (lo_driver s)" "lo_deadline s = Some d" "i \<in> set rs"
  shows "hi_clock (head_of i) 2 < d"
  using assms(2-5)
proof (induction rs arbitrary: s d)
  case (Cons j rs)
  obtain b s1 where r: "round j s = (b, s1)" by fastforce
  have b: "\<not> b" using Cons.prems(1) r by (cases b) simp_all
  then have s1: "has_deadline (head_of j) s s1" "dr_closing (lo_driver s1)" using round [of j s s1] r b Cons.prems(2) by simp_all
  then obtain d1 where d1: "lo_deadline s1 = Some d1" "hi_clock (head_of j) 2 < d1" "d1 \<le> d"
    using Cons.prems(3) by (auto simp: has_deadline_def)
  have rest: "driver_rounds round rs s1 = (False, s')" using Cons.prems(1) r b by simp
  show ?case using Cons.IH [OF rest s1(2) d1(1)] Cons.prems(4) d1(2,3) by auto
qed simp

lemma closing_rounds_end:
  assumes round: "\<And>i s s'. round i s = (False, s') \<Longrightarrow> dr_closing (lo_driver s) \<Longrightarrow>
      has_deadline (head_of i) s s' \<and> dr_closing (lo_driver s')"
    and "dr_closing (lo_driver s)" "j \<in> set (i # rs)" "hi_clock (head_of i) 1 + CLEANUP_TIMEOUT \<le> hi_clock (head_of j) 2"
  shows "fst (driver_rounds round (i # rs) s) \<and> tc_destroyed (lo_core (snd (driver_rounds round (i # rs) s)))"
proof -
  have destroyed: "fst (driver_rounds round rs s) \<Longrightarrow> tc_destroyed (lo_core (snd (driver_rounds round rs s)))" for rs s
    by (induction rs arbitrary: s) (auto simp: force_destroy_def set_state_def split: prod.splits bool.splits)
  have "fst (driver_rounds round (i # rs) s)"
  proof (rule ccontr)
    assume "\<not> fst (driver_rounds round (i # rs) s)"
    then obtain s' where run: "driver_rounds round (i # rs) s = (False, s')" by (metis (full_types) prod.collapse)
    obtain b s1 where r: "round i s = (b, s1)" by fastforce
    have b: "\<not> b" using run r by (cases b) simp_all
    then have s1: "has_deadline (head_of i) s s1" "dr_closing (lo_driver s1)" using round [of i s s1] r b assms(2) by simp_all
    then obtain d where d: "lo_deadline s1 = Some d" "hi_clock (head_of i) 2 < d" "d \<le> hi_clock (head_of i) 1 + CLEANUP_TIMEOUT"
      by (auto simp: has_deadline_def)
    have "driver_rounds round rs s1 = (False, s')" using run r b by simp
    then have "hi_clock (head_of j) 2 < d"
      using rounds_before_deadline [of round head_of, OF round _ s1(2) d(1)] assms(3) d(2) by auto
    then show False using assms(4) d(3) by linarith
  qed
  then show ?thesis using destroyed by blast
qed

text \<open>
  C31: A closing allocation is gone within 35 seconds: once the session closes it, both loops leave at
  the latest in the first round that looks at the clock that long after the round in which they saw
  it, and the core is destroyed then.
\<close>

theorem closing_driver_ends:
  assumes "dr_closing (lo_driver s)"
  shows "(j \<in> set (i # rs) \<longrightarrow> hi_clock (ui_head i) 1 + CLEANUP_TIMEOUT \<le> hi_clock (ui_head j) 2 \<longrightarrow>
      (case driver_rounds (udp_round env) (i # rs) s of (ended, s') \<Rightarrow> ended \<and> tc_destroyed (lo_core s')))
    \<and> (l \<in> set (k # ks) \<longrightarrow> hi_clock (si_head k) 1 + CLEANUP_TIMEOUT \<le> hi_clock (si_head l) 2 \<longrightarrow>
      (case driver_rounds (stream_round env) (k # ks) s of (ended, s') \<Rightarrow> ended \<and> tc_destroyed (lo_core s')))"
  using closing_rounds_end [where round = "udp_round env" and head_of = ui_head, OF udp_round_deadline assms, of _ j i rs]
    closing_rounds_end [where round = "stream_round env" and head_of = si_head, OF stream_round_deadline assms, of _ l k ks]
  by (simp add: case_prod_unfold)

definition example_head :: "instant \<Rightarrow> head_input" where
  "example_head t = \<lparr>hi_epoch = 0, hi_gap = 0, hi_permit_free = True, hi_io = (\<lambda>_. True), hi_clock = (\<lambda>_. t)\<rparr>"

definition example_loop_env :: loop_env where
  "example_loop_env = \<lparr>le_describe = (\<lambda>_. []), le_turn = example_env, le_server = example_addr 3478, le_peer = example_addr 9000\<rparr>"

definition example_round :: "instant \<Rightarrow> stream_input" where
  "example_round t = \<lparr>si_head = example_head t, si_now = t, si_event = Se_timer\<rparr>"

lemma closing_driver_ends_witness:
  "case driver_rounds (stream_round example_loop_env) [example_round 0, example_round (from_secs 1), example_round (from_secs 35)]
      (new_loop 0 0 fresh_core (request_cleanup (new_driver\<lparr>dr_control_sent := True\<rparr>))) of
     (ended, s') \<Rightarrow> ended \<and> tc_destroyed (lo_core s')"
proof -
  have "dr_closing (lo_driver (new_loop 0 0 fresh_core (request_cleanup (new_driver\<lparr>dr_control_sent := True\<rparr>))))"
    by (simp add: new_loop_def request_cleanup_def)
  then show ?thesis
    using closing_driver_ends [of _ undefined undefined undefined example_loop_env "example_round (from_secs 35)" "example_round 0"
        "[example_round (from_secs 1), example_round (from_secs 35)]"]
    by (simp add: example_round_def example_head_def CLEANUP_TIMEOUT_def)
qed

section \<open>Waiting for the core\<close>

text \<open>
  The waits look at the snapshots the driver publishes until their timeout: the list is what they see
  before it.
\<close>

definition elapsed_error :: error_chain where
  "elapsed_error = [\<lparr>ca_text = ascii ''deadline has elapsed'', ca_type = Plain\<rparr>]"

fun wait_for_completion :: "(sock_addr \<Rightarrow> message_text) \<Rightarrow> u32 \<Rightarrow> u64 \<Rightarrow> driver list \<Rightarrow> error_chain + unit" where
  "wait_for_completion show_addr m baseline [] =
     Inl (add_context (ascii ''TURN '' @ method_name m @ ascii '' hard timeout'') elapsed_error)"
| "wait_for_completion show_addr m baseline (d # ds) =
     (case check_completion show_addr m baseline d of
        Some r \<Rightarrow> r
      | None \<Rightarrow> wait_for_completion show_addr m baseline ds)"

text \<open>\<open>None\<close>: still waiting when the caller's timeout is over.\<close>

fun wait_until_ready :: "(sock_addr \<Rightarrow> message_text) \<Rightarrow> driver list \<Rightarrow> (error_chain + sock_addr) option" where
  "wait_until_ready show_addr [] = None"
| "wait_until_ready show_addr (d # ds) =
     (case dr_terminal d of
        Some r \<Rightarrow> Some (Inl [\<lparr>ca_text = reason_text show_addr r, ca_type = Plain\<rparr>])
      | None \<Rightarrow>
          (case dr_relay d of
             Some relay \<Rightarrow> if dr_state d = STATE_READY then Some (Inr relay) else wait_until_ready show_addr ds
           | None \<Rightarrow> wait_until_ready show_addr ds))"

fun wait_for_allocation :: "(sock_addr \<Rightarrow> message_text) \<Rightarrow> u64 \<Rightarrow> driver list \<Rightarrow> (error_chain + sock_addr) option" where
  "wait_for_allocation show_addr baseline [] = None"
| "wait_for_allocation show_addr baseline (d # ds) =
     (case check_completion show_addr METHOD_ALLOCATE baseline d of
        Some (Inl e) \<Rightarrow> Some (Inl e)
      | Some (Inr _) \<Rightarrow> wait_until_ready show_addr (d # ds)
      | None \<Rightarrow> wait_for_allocation show_addr baseline ds)"

fun wait_until_bound :: "(sock_addr \<Rightarrow> message_text) \<Rightarrow> driver list \<Rightarrow> error_chain + unit" where
  "wait_until_bound show_addr [] = Inl (add_context (ascii ''TURN ChannelBind confirmation timeout'') elapsed_error)"
| "wait_until_bound show_addr (d # ds) =
     (case dr_terminal d of
        Some r \<Rightarrow> Inl [\<lparr>ca_text = reason_text show_addr r, ca_type = Plain\<rparr>]
      | None \<Rightarrow> if dr_bound d \<noteq> None then Inr () else wait_until_bound show_addr ds)"

section \<open>Connecting, binding, deallocating\<close>

definition too_long_text :: "string \<Rightarrow> message_text" where
  "too_long_text what = ascii ''TURN '' @ ascii what
     @ [0x20, 0xD0, 0xBF, 0xD1, 0x80, 0xD0, 0xB5, 0xD0, 0xB2, 0xD1, 0x8B, 0xD1, 0x88, 0xD0, 0xB0, 0xD0, 0xB5, 0xD1, 0x82, 0x20]
     @ ascii ''512 '' @ [0xD0, 0xB1, 0xD0, 0xB0, 0xD0, 0xB9, 0xD1, 0x82]"

definition allocate_deadline_text :: message_text where
  "allocate_deadline_text = ascii ''TURN Allocate exceeded the hard safety deadline''"

record connect_target =
  ct_address :: chars
  ct_host :: "chars option"
  ct_port :: "chars option"
  ct_mode :: transport_mode

text \<open>
  The world of a connection: \<open>ce_transport\<close> connects a socket to one of the endpoints and yields the
  server's address, \<open>ce_core_error\<close> and \<open>ce_endpoint_error\<close> are the chains of errors of other
  parts, \<open>ce_snapshots\<close> what the driver publishes within the timeout.
\<close>

record connect_env =
  ce_transport :: "turn_endpoint list \<Rightarrow> error_chain + (sock_addr \<times> wire_transport)"
  ce_core_error :: "core_error \<Rightarrow> error_chain"
  ce_endpoint_error :: "endpoint_error \<Rightarrow> error_chain"
  ce_show_addr :: "sock_addr \<Rightarrow> message_text"
  ce_turn :: turn_env
  ce_now :: instant
  ce_snapshots :: "core \<Rightarrow> driver list"

text \<open>The result with the core and the driver's state, if there are any.\<close>

definition allocate :: "connect_env \<Rightarrow> core \<Rightarrow> driver \<Rightarrow> (error_chain + sock_addr) \<times> core \<times> driver" where
  "allocate env c d =
     (case start_allocation (ce_turn env) (ce_now env) c of
        (Some e, c) \<Rightarrow> (Inl (ce_core_error env e), c, fail_driver (Message (alternate_text (ce_core_error env e))) d)
      | (None, c) \<Rightarrow>
          (case wait_for_allocation (ce_show_addr env) (cm_sequence (get_completion METHOD_ALLOCATE d)) (ce_snapshots env c) of
             Some r \<Rightarrow> (r, c, d)
           | None \<Rightarrow> (Inl [\<lparr>ca_text = allocate_deadline_text, ca_type = Plain\<rparr>], c, fail_driver (Message allocate_deadline_text) d)))"

definition turn_connect :: "connect_env \<Rightarrow> connect_target \<Rightarrow> bytes \<Rightarrow> bytes \<Rightarrow> sock_addr
    \<Rightarrow> (error_chain + sock_addr) \<times> (core \<times> driver) option" where
  "turn_connect env t username password peer =
     (if 512 < length username then (Inl [\<lparr>ca_text = too_long_text ''username'', ca_type = Plain\<rparr>], None)
      else if 512 < length password then (Inl [\<lparr>ca_text = too_long_text ''password'', ca_type = Plain\<rparr>], None)
      else case resolve_turn_endpoints (ct_address t) (ct_host t) (ct_port t) (ct_mode t) of
        Inl e \<Rightarrow> (Inl (ce_endpoint_error env e), None)
      | Inr endpoints \<Rightarrow>
      (case ce_transport env endpoints of
        Inl e \<Rightarrow> (Inl e, None)
      | Inr (server, transport) \<Rightarrow>
      (case create server username password peer PJNATH_COMPAT (if transport = Wire_udp then Datagram else Stream) of
        Inl e \<Rightarrow> (Inl (ce_core_error env e), None)
      | Inr c \<Rightarrow> (case allocate env c new_driver of (r, cd) \<Rightarrow> (r, Some cd)))))"

text \<open>
  The endpoints are tried in order; \<open>attempt\<close> is what one of them gives. The failures are joined
  under their transports.
\<close>

definition wire_name :: "wire_transport \<Rightarrow> message_text" where
  "wire_name w = (case w of Wire_udp \<Rightarrow> ascii ''UDP'' | Wire_tcp \<Rightarrow> ascii ''TCP'' | Wire_tls \<Rightarrow> ascii ''TLS'')"

fun connect_transport :: "(turn_endpoint \<Rightarrow> error_chain + sock_addr) \<Rightarrow> turn_endpoint list \<Rightarrow> message_text list
    \<Rightarrow> error_chain + (sock_addr \<times> wire_transport)" where
  "connect_transport attempt [] failures =
     Inl [\<lparr>ca_text = ascii ''TURN transport endpoints are unavailable: '' @ join (ascii '' | '') failures, ca_type = Plain\<rparr>]"
| "connect_transport attempt (e # es) failures =
     (case attempt e of
        Inr server \<Rightarrow> Inr (server, te_transport e)
      | Inl error \<Rightarrow> connect_transport attempt es (failures @ [wire_name (te_transport e) @ ascii '': '' @ alternate_text error]))"

definition bind_channel :: "connect_env \<Rightarrow> driver list \<Rightarrow> driver list \<Rightarrow> core \<Rightarrow> driver \<Rightarrow> (error_chain + unit) \<times> core \<times> driver" where
  "bind_channel env completing confirming c d =
     (case start_permission (ce_turn env) (ce_now env) c of
        (Some e, c) \<Rightarrow> (Inl (ce_core_error env e), c, fail_driver (Message (alternate_text (ce_core_error env e))) d)
      | (None, c) \<Rightarrow>
      (case start_channel (ce_turn env) (ce_now env) c of
        (Some e, c) \<Rightarrow> (Inl (ce_core_error env e), c, fail_driver (Message (alternate_text (ce_core_error env e))) d)
      | (None, c) \<Rightarrow>
      (case wait_for_completion (ce_show_addr env) METHOD_CHANNEL_BIND (cm_sequence (get_completion METHOD_CHANNEL_BIND d)) completing of
        Inl e \<Rightarrow> (Inl e, c, d)
      | Inr _ \<Rightarrow> (wait_until_bound (ce_show_addr env) confirming, c, d))))"

definition prepare_channel :: "connect_env \<Rightarrow> driver list \<Rightarrow> driver list \<Rightarrow> core \<Rightarrow> driver \<Rightarrow> (error_chain + unit) \<times> core \<times> driver" where
  "prepare_channel env completing confirming c d =
     (case ensure_open d of
        Some r \<Rightarrow> (Inl [\<lparr>ca_text = reason_text (ce_show_addr env) r, ca_type = Plain\<rparr>], c, d)
      | None \<Rightarrow> if dr_channel d \<noteq> 0 then (Inr (), c, d) else bind_channel env completing confirming c d)"

text \<open>Only the first call acts. \<open>in_time\<close>: the driver task ended within its cleanup timeout and a second.\<close>

definition deallocate :: "turn_env \<Rightarrow> instant \<Rightarrow> bool \<Rightarrow> bool \<times> core \<times> driver \<Rightarrow> bool \<times> core \<times> driver" where
  "deallocate env now in_time = (\<lambda>(deallocated, c, d).
     if deallocated then (True, c, d)
     else
       let d = request_cleanup d; c = snd (graceful_shutdown env now c)
       in (True, if in_time then c else force_destroy 0 c, d))"

definition drop_allocation :: "turn_env \<Rightarrow> instant \<Rightarrow> core \<times> driver \<Rightarrow> core \<times> driver" where
  "drop_allocation env now = (\<lambda>(c, d). (snd (graceful_shutdown env now c), request_cleanup d))"

text \<open>A connection that is reported was granted: the relay is that of a snapshot in which the allocation was ready and not failed.\<close>

lemma wait_until_ready_Some:
  "wait_until_ready show_addr ds = Some (Inr relay) \<Longrightarrow> \<exists>d\<in>set ds. dr_state d = STATE_READY \<and> dr_relay d = Some relay \<and> dr_terminal d = None"
  by (induction ds) (auto split: option.splits if_splits)

lemma wait_for_allocation_Some:
  "wait_for_allocation show_addr baseline ds = Some (Inr relay) \<Longrightarrow>
     \<exists>d\<in>set ds. dr_state d = STATE_READY \<and> dr_relay d = Some relay \<and> dr_terminal d = None"
proof (induction ds)
  case (Cons d ds)
  show ?case
  proof (cases "check_completion show_addr METHOD_ALLOCATE baseline d")
    case None
    then show ?thesis using Cons by auto
  next
    case (Some r)
    then have "wait_until_ready show_addr (d # ds) = Some (Inr relay)" using Cons.prems by (cases r) simp_all
    then show ?thesis by (rule wait_until_ready_Some)
  qed
qed simp

theorem connected_allocation_is_ready:
  assumes "turn_connect env t username password peer = (Inr relay, Some (c, d))"
  shows "\<exists>d'\<in>set (ce_snapshots env c). dr_state d' = STATE_READY \<and> dr_relay d' = Some relay \<and> dr_terminal d' = None"
  using assms wait_for_allocation_Some
  by (auto simp: turn_connect_def allocate_def split: if_splits sum.splits prod.splits option.splits)

end
