(* ===== verification/Worker_Loop.thy ===== *)
theory Worker_Loop
  imports Worker_Retry Worker_Pool Handshake Recovery
begin

text \<open>
  The life of the workers of a credential, \<open>worker.rs\<close>: the gate that holds them back while the engine
  is paused or the idle state has parked them (\<open>PauseGate\<close>), the loop around a session
  (\<open>worker_loop\<close>) from the lease to the next attempt, and the supervisor that starts it again after a
  panic (\<open>supervise_worker\<close>). The gate is a step function over the wake-ups of two \<open>Notify\<close>s; the
  workers of a cohort run interleaved, one awaited thing per step, over the cache, the flags of the
  configuration request and the log gates they share. What the awaited things yield is carried by the
  labels of the steps. \<open>ready_credential_tx\<close> is not modelled: it is always absent, as
  \<open>should_leave_js_creator\<close> answers false.
\<close>

section \<open>The pause gate\<close>

datatype 'f gate_pc =
    Gate_start
  | Gate_registered 'f
  | Gate_both 'f 'f
  | Gate_resumed 'f 'f
  | Gate_waiting 'f 'f
  | Gate_sleeping 'f
  | Gate_open
  | Gate_cancelled

text \<open>
  \<open>gs_owed\<close> and \<open>gs_idle_owed\<close> count the changes of the two flags whose \<open>notify_waiters\<close> is still to
  come; \<open>gs_parked\<close> is the negated answer of \<open>idle::allows\<close> for this worker.
\<close>

record ('n, 'f) gate_state =
  gs_paused :: bool
  gs_parked :: bool
  gs_cancelled :: bool
  gs_changed :: 'n
  gs_idle :: 'n
  gs_owed :: nat
  gs_idle_owed :: nat
  gs_pc :: "'f gate_pc"

definition new_pause_gate :: "'n \<Rightarrow> 'n \<Rightarrow> ('n, 'f) gate_state" where
  "new_pause_gate c idle =
     \<lparr>gs_paused = False, gs_parked = False, gs_cancelled = False, gs_changed = c, gs_idle = idle,
      gs_owed = 0, gs_idle_owed = 0, gs_pc = Gate_start\<rparr>"

definition set_paused :: "bool \<Rightarrow> ('n, 'f) gate_state \<Rightarrow> ('n, 'f) gate_state" where
  "set_paused paused s =
     (if gs_paused s \<noteq> paused then s\<lparr>gs_paused := paused, gs_owed := gs_owed s + 1\<rparr> else s)"

definition wait_until_resumed :: "('n, 'f) notify_ops \<Rightarrow> ('n, 'f) gate_state \<Rightarrow> ('n, 'f) gate_state option" where
  "wait_until_resumed N s =
     (case gs_pc s of
        Gate_start \<Rightarrow> Some (s\<lparr>gs_pc := Gate_registered (nt_notified N (gs_changed s))\<rparr>)
      | Gate_registered f \<Rightarrow> Some (s\<lparr>gs_pc := (if gs_paused s then Gate_sleeping f else Gate_open)\<rparr>)
      | Gate_sleeping f \<Rightarrow>
          if gs_cancelled s then Some (s\<lparr>gs_pc := Gate_cancelled\<rparr>)
          else if nt_ready N (gs_changed s) f then Some (s\<lparr>gs_pc := Gate_start\<rparr>) else None
      | _ \<Rightarrow> None)"

definition wait_until_allowed :: "('n, 'f) notify_ops \<Rightarrow> ('n, 'f) gate_state \<Rightarrow> ('n, 'f) gate_state option" where
  "wait_until_allowed N s =
     (case gs_pc s of
        Gate_start \<Rightarrow> Some (s\<lparr>gs_pc := Gate_registered (nt_notified N (gs_changed s))\<rparr>)
      | Gate_registered f \<Rightarrow> Some (s\<lparr>gs_pc := Gate_both f (nt_notified N (gs_idle s))\<rparr>)
      | Gate_both f g \<Rightarrow> Some (s\<lparr>gs_pc := (if gs_paused s then Gate_waiting f g else Gate_resumed f g)\<rparr>)
      | Gate_resumed f g \<Rightarrow> Some (s\<lparr>gs_pc := (if gs_parked s then Gate_waiting f g else Gate_open)\<rparr>)
      | Gate_waiting f g \<Rightarrow>
          if gs_cancelled s then Some (s\<lparr>gs_pc := Gate_cancelled\<rparr>)
          else if nt_ready N (gs_changed s) f \<or> nt_ready N (gs_idle s) g then Some (s\<lparr>gs_pc := Gate_start\<rparr>)
          else None
      | _ \<Rightarrow> None)"

datatype gate_label = G_wait | G_pause bool | G_park bool | G_wake | G_idle_wake | G_cancel

inductive gate_step ::
  "('n, 'f) notify_ops \<Rightarrow> (('n, 'f) gate_state \<Rightarrow> ('n, 'f) gate_state option)
     \<Rightarrow> ('n, 'f) gate_state \<Rightarrow> gate_label \<Rightarrow> ('n, 'f) gate_state \<Rightarrow> bool"
  for N waiter where
  gate_waiter: "waiter s = Some s' \<Longrightarrow> gate_step N waiter s G_wait s'"
| gate_pause: "gate_step N waiter s (G_pause paused) (set_paused paused s)"
| gate_park: "gate_step N waiter s (G_park parked) (s\<lparr>gs_parked := parked, gs_idle_owed := gs_idle_owed s + 1\<rparr>)"
| gate_wake: "0 < gs_owed s \<Longrightarrow>
    gate_step N waiter s G_wake (s\<lparr>gs_changed := nt_notify_waiters N (gs_changed s), gs_owed := gs_owed s - 1\<rparr>)"
| gate_idle_wake: "0 < gs_idle_owed s \<Longrightarrow>
    gate_step N waiter s G_idle_wake (s\<lparr>gs_idle := nt_notify_waiters N (gs_idle s), gs_idle_owed := gs_idle_owed s - 1\<rparr>)"
| gate_cancel: "gate_step N waiter s G_cancel (s\<lparr>gs_cancelled := True\<rparr>)"

text \<open>A future in hand catches the wake-up of every change its owner has not seen.\<close>

definition covers :: "('n, 'f) notify_ops \<Rightarrow> 'n \<Rightarrow> 'f \<Rightarrow> bool" where
  "covers N n f \<longleftrightarrow> nt_ready N n f \<or> f = nt_notified N n"

definition gate_inv :: "('n, 'f) notify_ops \<Rightarrow> ('n, 'f) gate_state \<Rightarrow> bool" where
  "gate_inv N s \<longleftrightarrow>
     (case gs_pc s of
        Gate_registered f \<Rightarrow> covers N (gs_changed s) f
      | Gate_both f g \<Rightarrow> covers N (gs_changed s) f \<and> covers N (gs_idle s) g
      | Gate_resumed f g \<Rightarrow> covers N (gs_changed s) f \<and> covers N (gs_idle s) g
      | Gate_waiting f g \<Rightarrow> covers N (gs_changed s) f \<and> covers N (gs_idle s) g
          \<and> (gs_paused s \<or> gs_parked s \<or> nt_ready N (gs_changed s) f \<or> nt_ready N (gs_idle s) g
             \<or> 0 < gs_owed s \<or> 0 < gs_idle_owed s)
      | Gate_sleeping f \<Rightarrow> covers N (gs_changed s) f
          \<and> (gs_paused s \<or> nt_ready N (gs_changed s) f \<or> 0 < gs_owed s)
      | Gate_cancelled \<Rightarrow> gs_cancelled s
      | _ \<Rightarrow> True)"

context notify_laws
begin

lemma covers_wake: "covers N n f \<Longrightarrow> nt_ready N (nt_notify_waiters N n) f"
  unfolding covers_def by (rule woken)

lemma fresh_covers: "covers N n (nt_notified N n)"
  by (simp add: covers_def)

lemma gate_inv_allowed:
  assumes "wait_until_allowed N s = Some s'" "gate_inv N s"
  shows "gate_inv N s'"
proof (cases "gs_pc s")
  case (Gate_waiting f g)
  then show ?thesis using assms by (auto simp: wait_until_allowed_def gate_inv_def fresh_covers split: if_splits)
qed (use assms fresh_covers in \<open>simp_all add: wait_until_allowed_def gate_inv_def split: if_splits, auto\<close>)

lemma gate_inv_resumed:
  assumes "wait_until_resumed N s = Some s'" "gate_inv N s"
  shows "gate_inv N s'"
proof (cases "gs_pc s")
  case (Gate_sleeping f)
  then show ?thesis using assms by (auto simp: wait_until_resumed_def gate_inv_def fresh_covers split: if_splits)
qed (use assms fresh_covers in \<open>simp_all add: wait_until_resumed_def gate_inv_def split: if_splits, auto\<close>)

lemma gate_inv_step:
  assumes "gate_step N waiter s l s'" "gate_inv N s" "waiter = wait_until_allowed N \<or> waiter = wait_until_resumed N"
  shows "gate_inv N s'"
  using assms(1)
proof cases
  case gate_waiter
  then show ?thesis using assms(2,3) gate_inv_allowed gate_inv_resumed by blast
next
  case gate_wake
  then show ?thesis using assms(2) covers_wake
    by (auto simp: gate_inv_def covers_def split: gate_pc.splits)
next
  case gate_idle_wake
  then show ?thesis using assms(2) covers_wake
    by (auto simp: gate_inv_def covers_def split: gate_pc.splits)
qed (use assms(2) in \<open>auto simp: gate_inv_def set_paused_def split: gate_pc.splits\<close>)

end

sublocale notify_laws \<subseteq> allowing: step_invariant "gate_step N (wait_until_allowed N)" "gate_inv N"
  by unfold_locales (erule gate_inv_step, assumption, simp)

sublocale notify_laws \<subseteq> resuming: step_invariant "gate_step N (wait_until_resumed N)" "gate_inv N"
  by unfold_locales (erule gate_inv_step, assumption, simp)

lemma gate_inv_start: "gate_inv N (new_pause_gate n i)"
  by (simp add: gate_inv_def new_pause_gate_def)

context notify_laws
begin

lemma allowed_run: "steps (gate_step N (wait_until_allowed N)) (new_pause_gate n i) ls s \<Longrightarrow> gate_inv N s"
  by (rule allowing.steps_inv) (assumption, rule gate_inv_start)

lemma resumed_run: "steps (gate_step N (wait_until_resumed N)) (new_pause_gate n i) ls s \<Longrightarrow> gate_inv N s"
  by (rule resuming.steps_inv) (assumption, rule gate_inv_start)

end

text \<open>
  A worker that may work is let through: under every interleaving with any number of pauses, resumes,
  parkings and their wake-ups, once the engine is not paused, the worker is not parked and no wake-up is
  outstanding, the waiting task opens the gate within five steps of its own, unless it was cancelled.
\<close>

theorem allowed_worker_passes_the_gate:
  assumes "notify_ok N" "steps (gate_step N (wait_until_allowed N)) (new_pause_gate n i) ls s"
    and "\<not> gs_paused s" "\<not> gs_parked s" "\<not> gs_cancelled s" "gs_owed s = 0" "gs_idle_owed s = 0"
  shows "gs_pc (run_waiter 5 (wait_until_allowed N) s) = Gate_open"
proof -
  have inv: "gate_inv N s" by (rule notify_laws.allowed_run [OF notify_laws.intro [OF assms(1)] assms(2)])
  have no_sleep: "gs_pc t \<noteq> Gate_sleeping f" if "steps (gate_step N (wait_until_allowed N)) t0 ks t" "gs_pc t0 \<noteq> Gate_sleeping f" for t0 ks t f
    using that
  proof (induction rule: steps.induct)
    case (steps_Cons t0 l t1 ls t2)
    then show ?case by (auto elim!: gate_step.cases simp: wait_until_allowed_def set_paused_def split: gate_pc.splits if_splits)
  qed simp
  then have "gs_pc s \<noteq> Gate_sleeping f" for f using assms(2) by (auto simp: new_pause_gate_def)
  then show ?thesis
    using inv assms(3-) by (cases "gs_pc s") (auto simp: numeral_eq_Suc wait_until_allowed_def gate_inv_def)
qed

lemma example_gate_run:
  "steps (gate_step counting_notify (wait_until_allowed counting_notify)) (new_pause_gate 0 0)
     [G_pause True, G_wait, G_wait, G_wait, G_wake, G_pause False, G_wake]
     \<lparr>gs_paused = False, gs_parked = False, gs_cancelled = False, gs_changed = 2, gs_idle = 0, gs_owed = 0,
      gs_idle_owed = 0, gs_pc = Gate_waiting 0 0\<rparr>"
  by (rule steps_Cons, rule gate_pause, rule steps_Cons, rule gate_waiter, simp add: wait_until_allowed_def new_pause_gate_def set_paused_def,
      rule steps_Cons, rule gate_waiter, simp add: wait_until_allowed_def, rule steps_Cons, rule gate_waiter, simp add: wait_until_allowed_def,
      rule steps_Cons, rule gate_wake, simp, rule steps_Cons, rule gate_pause, rule steps_Cons, rule gate_wake, simp add: set_paused_def)
    (simp add: set_paused_def counting_notify_def steps_Nil eval_nat_numeral)

lemma allowed_worker_passes_the_gate_witness:
  "gs_pc (run_waiter 5 (wait_until_allowed counting_notify)
     \<lparr>gs_paused = False, gs_parked = False, gs_cancelled = False, gs_changed = 2, gs_idle = 0, gs_owed = 0,
      gs_idle_owed = 0, gs_pc = Gate_waiting 0 0\<rparr>) = Gate_open"
  by (rule allowed_worker_passes_the_gate [OF counting_notify_ok example_gate_run]) simp_all

lemma resumed_worker_passes_the_gate:
  assumes "notify_ok N" "steps (gate_step N (wait_until_resumed N)) (new_pause_gate n i) ls s"
    and "\<not> gs_paused s" "\<not> gs_cancelled s" "gs_owed s = 0" "gs_pc s = Gate_sleeping f"
  shows "gs_pc (run_waiter 3 (wait_until_resumed N) s) = Gate_open"
  using notify_laws.resumed_run [OF notify_laws.intro [OF assms(1)] assms(2)] assms(3-)
  by (simp add: numeral_eq_Suc wait_until_resumed_def gate_inv_def)

section \<open>The loop around a session\<close>

text \<open>What a worker holds while its session runs: the two signals are those the loop has seen so far.\<close>

record running_session =
  se_lease :: credential_lease
  se_guard :: bool
  se_cursor :: nat
  se_generation :: u64
  se_started :: "bool option"
  se_allocated :: "bool option"

datatype worker_pc =
    At_gate
  | Seeking
  | Pacing credential_lease
  | Second_gate credential_lease
  | In_session running_session
  | Sleeping nat
  | Restarting
  | Retired

record crew_worker =
  cw_id :: nat
  cw_pc :: worker_pc
  cw_attempt :: nat
  cw_cursor :: nat

text \<open>
  The workers of one cohort and what they share. The last two fields belong to the proof: the leases whose
  sessions ended after their allocation had started, and those that went down with a panic.
\<close>

record crew =
  cr_group :: group_credentials
  cr_flags :: config_flags
  cr_repair :: "repair_slot list"
  cr_logs :: retry_state
  cr_workers :: "crew_worker list"
  cr_spent :: "credential_lease multiset"
  cr_lost :: "credential_lease multiset"

definition new_group :: group_credentials where
  "new_group = \<lparr>gc_cache = new_cache, gc_failures = 0, gc_unavailable = False\<rparr>"

definition new_logs :: retry_state where
  "new_logs = \<lparr>rs_attempt = 0, rs_cache = new_cache, rs_network_log = new_gate, rs_turn_timeout_log = new_gate,
     rs_wrap_timeout_log = new_gate, rs_getconf_timeout_log = new_gate, rs_network_timeouts = 0\<rparr>"

definition new_crew :: "nat list \<Rightarrow> repair_slot list \<Rightarrow> crew" where
  "new_crew ids slots =
     \<lparr>cr_group = new_group, cr_flags = \<lparr>fl_sent = False, fl_in_flight = False\<rparr>, cr_repair = slots, cr_logs = new_logs,
      cr_workers = map (\<lambda>id. \<lparr>cw_id = id, cw_pc = At_gate, cw_attempt = 0, cw_cursor = 0\<rparr>) ids,
      cr_spent = {#}, cr_lost = {#}\<rparr>"

text \<open>
  What the awaited thing of a step yields. \<open>Gate_answer\<close>, \<open>Pacer_answer\<close> and \<open>Sleep_over\<close> carry false when
  the engine was cancelled; \<open>Fetch\<close> and \<open>Panicked\<close> say whether it is by then.
\<close>

datatype worker_event =
    Gate_answer bool
  | Fetch fetch_surroundings bool
  | Pacer_answer bool
  | Signal_started bool
  | Signal_allocated bool
  | Session_over retry_env session_outcome
  | Sleep_over bool
  | Panicked bool

definition on_cache :: "(credential_cache \<Rightarrow> credential_cache) \<Rightarrow> crew \<Rightarrow> crew" where
  "on_cache f s = s\<lparr>cr_group := (cr_group s)\<lparr>gc_cache := f (gc_cache (cr_group s))\<rparr>\<rparr>"

definition give_back :: "credential_lease \<Rightarrow> crew_worker \<Rightarrow> crew \<Rightarrow> crew_worker \<times> crew" where
  "give_back lease w s = (w\<lparr>cw_pc := Retired\<rparr>, on_cache (cache_release lease) s)"

definition begin_session :: "credential_lease \<Rightarrow> crew_worker \<Rightarrow> crew \<Rightarrow> crew_worker \<times> crew" where
  "begin_session lease w s =
     (case flight_acquire (cr_flags s) of (acquired, flags) \<Rightarrow>
        (w\<lparr>cw_pc := In_session \<lparr>se_lease = lease, se_guard = acquired, se_cursor = cw_cursor w,
             se_generation = credential_generation (cw_id w) (cr_repair s), se_started = None, se_allocated = None\<rparr>,
           cw_cursor := (cw_cursor w + 1) mod 2 ^ 64\<rparr>,
         s\<lparr>cr_flags := flags\<rparr>))"

definition seek_lease :: "fetch_surroundings \<Rightarrow> bool \<Rightarrow> crew_worker \<Rightarrow> crew \<Rightarrow> crew_worker \<times> crew" where
  "seek_lease e cancelled w s =
     (if gc_unavailable (cr_group s) then (w\<lparr>cw_pc := Retired\<rparr>, s)
      else case group_get e (cr_group s) of
        (Some lease, _, g) \<Rightarrow> (w\<lparr>cw_pc := Pacing lease\<rparr>, s\<lparr>cr_group := g\<rparr>)
      | (None, _, g) \<Rightarrow>
          (w\<lparr>cw_pc := if cancelled \<or> gc_unavailable g then Retired else Seeking\<rparr>, s\<lparr>cr_group := g\<rparr>))"

definition observe_started :: "bool \<Rightarrow> running_session \<Rightarrow> crew_worker \<Rightarrow> crew \<Rightarrow> crew_worker \<times> crew" where
  "observe_started sent r w s = (w\<lparr>cw_pc := In_session (r\<lparr>se_started := Some sent\<rparr>)\<rparr>, s)"

definition observe_allocated :: "bool \<Rightarrow> running_session \<Rightarrow> crew_worker \<Rightarrow> crew \<Rightarrow> crew_worker \<times> crew" where
  "observe_allocated sent r w s =
     (w\<lparr>cw_pc := In_session (r\<lparr>se_allocated := Some sent\<rparr>)\<rparr>,
      if sent then on_cache (cache_record_allocation (se_lease r)) s else s)"

fun after_pc :: "worker_next \<Rightarrow> worker_pc" where
  "after_pc Worker_stops = Retired"
| "after_pc Worker_goes_on = At_gate"
| "after_pc (Worker_sleeps delay) = Sleeping delay"

text \<open>Whether an ended session leaves its lease counted.\<close>

definition keeps_count :: "session_outcome \<Rightarrow> bool" where
  "keeps_count o' \<longleftrightarrow> so_allocation_started o' \<and> \<not> (is_parked o' \<and> \<not> so_cancelled o' \<and> \<not> so_unavailable o')"

definition end_session :: "retry_env \<Rightarrow> session_outcome \<Rightarrow> running_session \<Rightarrow> crew_worker \<Rightarrow> crew \<Rightarrow> crew_worker \<times> crew" where
  "end_session e o' r w s =
     (let e = e\<lparr>re_lease := se_lease r, re_repair_moved := se_generation r < credential_generation (cw_id w) (cr_repair s)\<rparr>;
          o' = o'\<lparr>so_allocation_started := (se_started r = Some True), so_unavailable := gc_unavailable (cr_group s)\<rparr>;
          flags = flight_drop (se_guard r) (cr_flags s)
      in case after_session e o' (fl_sent flags)
                ((cr_logs s)\<lparr>rs_attempt := cw_attempt w, rs_cache := gc_cache (cr_group s)\<rparr>) of
           (then', sent, rs) \<Rightarrow>
             (w\<lparr>cw_pc := after_pc then', cw_attempt := rs_attempt rs\<rparr>,
              (on_cache (\<lambda>_. rs_cache rs) s)\<lparr>cr_flags := flags\<lparr>fl_sent := sent\<rparr>, cr_logs := rs,
                cr_spent := (if keeps_count o' then add_mset (se_lease r) (cr_spent s) else cr_spent s)\<rparr>))"

text \<open>The leases a worker holds, and the guard that is dropped when its task unwinds.\<close>

fun pc_leases :: "worker_pc \<Rightarrow> credential_lease multiset" where
  "pc_leases (Pacing lease) = {#lease#}"
| "pc_leases (Second_gate lease) = {#lease#}"
| "pc_leases (In_session r) = {#se_lease r#}"
| "pc_leases _ = {#}"

fun pc_guard :: "worker_pc \<Rightarrow> bool" where
  "pc_guard (In_session r) = se_guard r"
| "pc_guard _ = False"

text \<open>\<open>supervise_worker\<close>: a panic restarts the loop after a second, unless the engine is cancelled.\<close>

definition supervise_panic :: "bool \<Rightarrow> crew_worker \<Rightarrow> crew \<Rightarrow> crew_worker \<times> crew" where
  "supervise_panic cancelled w s =
     (w\<lparr>cw_pc := if cancelled then Retired else Restarting, cw_attempt := 0\<rparr>,
      s\<lparr>cr_flags := flight_drop (pc_guard (cw_pc w)) (cr_flags s), cr_lost := cr_lost s + pc_leases (cw_pc w)\<rparr>)"

definition work :: "worker_event \<Rightarrow> crew_worker \<Rightarrow> crew \<Rightarrow> (crew_worker \<times> crew) option" where
  "work event w s =
     (case (cw_pc w, event) of
        (At_gate, Gate_answer allowed) \<Rightarrow> Some (w\<lparr>cw_pc := if allowed then Seeking else Retired\<rparr>, s)
      | (Seeking, Fetch e cancelled) \<Rightarrow> Some (seek_lease e cancelled w s)
      | (Pacing lease, Pacer_answer started) \<Rightarrow>
          Some (if started then (w\<lparr>cw_pc := Second_gate lease\<rparr>, s) else give_back lease w s)
      | (Second_gate lease, Gate_answer allowed) \<Rightarrow>
          Some (if allowed then begin_session lease w s else give_back lease w s)
      | (In_session r, Signal_started sent) \<Rightarrow>
          if se_started r = None then Some (observe_started sent r w s) else None
      | (In_session r, Signal_allocated sent) \<Rightarrow>
          if se_allocated r = None then Some (observe_allocated sent r w s) else None
      | (In_session r, Session_over e o') \<Rightarrow> Some (end_session e o' r w s)
      | (Sleeping _, Sleep_over slept) \<Rightarrow> Some (w\<lparr>cw_pc := if slept then At_gate else Retired\<rparr>, s)
      | (Restarting, Sleep_over slept) \<Rightarrow> Some (w\<lparr>cw_pc := if slept then At_gate else Retired\<rparr>, s)
      | (Retired, _) \<Rightarrow> None
      | (Restarting, _) \<Rightarrow> None
      | (_, Panicked cancelled) \<Rightarrow> Some (supervise_panic cancelled w s)
      | _ \<Rightarrow> None)"

text \<open>
  Besides the workers, the rest of the engine changes what they share: sessions complete configuration
  requests, repair orders arrive, other cohorts use the log gates and may find the call of the hash dead.
\<close>

datatype crew_label = By_worker nat worker_event | Outside config_flags "repair_slot list" retry_state bool

inductive crew_step :: "crew \<Rightarrow> crew_label \<Rightarrow> crew \<Rightarrow> bool" where
  crew_work: "\<lbrakk>i < length (cr_workers s); work event (cr_workers s ! i) s = Some (w, s');
      ch_next_generation (gc_cache (cr_group s)) < 2 ^ 64 - 2\<rbrakk>
    \<Longrightarrow> crew_step s (By_worker i event) (s'\<lparr>cr_workers := (cr_workers s)[i := w]\<rparr>)"
| crew_outside: "crew_step s (Outside flags slots logs dead)
    (s\<lparr>cr_flags := flags, cr_repair := slots, cr_logs := logs,
       cr_group := (cr_group s)\<lparr>gc_unavailable := gc_unavailable (cr_group s) \<or> dead\<rparr>\<rparr>)"

section \<open>No lease is lost count of\<close>

definition crew_leases :: "crew \<Rightarrow> credential_lease multiset" where
  "crew_leases s = (\<Sum>w\<leftarrow>cr_workers s. pc_leases (cw_pc w))"

definition counted :: "crew \<Rightarrow> credential_lease multiset" where
  "counted s = crew_leases s + cr_spent s + cr_lost s"

definition crew_inv :: "crew \<Rightarrow> bool" where
  "crew_inv s \<longleftrightarrow> cache_ok (counted s) (gc_cache (cr_group s))"

lemma leases_replace:
  assumes "i < length ws"
  obtains K where "\<And>w. (\<Sum>x\<leftarrow>ws[i := w]. pc_leases (cw_pc x)) = pc_leases (cw_pc w) + K"
    "(\<Sum>x\<leftarrow>ws. pc_leases (cw_pc x)) = pc_leases (cw_pc (ws ! i)) + K"
proof
  let ?K = "(\<Sum>x\<leftarrow>take i ws. pc_leases (cw_pc x)) + (\<Sum>x\<leftarrow>drop (Suc i) ws. pc_leases (cw_pc x))"
  show new: "(\<Sum>x\<leftarrow>ws[i := w]. pc_leases (cw_pc x)) = pc_leases (cw_pc w) + ?K" for w
    using assms by (simp add: upd_conv_take_nth_drop ac_simps)
  show "(\<Sum>x\<leftarrow>ws. pc_leases (cw_pc x)) = pc_leases (cw_pc (ws ! i)) + ?K"
    using new [of "ws ! i"] by simp
qed

lemma retry_parts_cache:
  assumes "cache_ok held (rs_cache s)"
  shows "cache_ok held (rs_cache (snd (retry_quota env s)))" "cache_ok held (rs_cache (snd (retry_mismatch env s)))"
    "rs_cache (snd (retry_other env message lower delay s)) = rs_cache s"
proof -
  show "cache_ok held (rs_cache (snd (retry_quota env s)))"
    using lease_call_ok(4) [OF assms, of "re_lease env"]
    by (auto simp: retry_quota_def apply_cache_def split: prod.split quota_rotation.split)
  show "cache_ok held (rs_cache (snd (retry_mismatch env s)))"
    using lease_call_ok(5) [OF assms, of "re_lease env"]
    by (auto simp: retry_mismatch_def apply_cache_def split: prod.split allocation_mismatch.split)
  show "rs_cache (snd (retry_other env message lower delay s)) = rs_cache s"
    by (simp add: retry_other_def observe_logs_def Let_def)
qed

lemma retry_error_cache:
  assumes "cache_ok held (rs_cache s)"
  shows "cache_ok held (rs_cache (snd (retry_error env error s)))"
  using assms lease_call_ok(2) [OF assms, of "re_lease env"]
  by (simp add: retry_error_def retry_failure_def Let_def apply_cache_def retry_parts_cache split: prod.split)

lemma after_session_cache:
  assumes "cache_ok (add_mset (re_lease env) held) (rs_cache s)"
    and "after_session env o' sent s = (then', sent', s')"
  shows "cache_ok (if keeps_count o' then add_mset (re_lease env) held else held) (rs_cache s')"
proof -
  obtain t sent1 where fin: "finish_session env o' sent s = (t, sent1)" by fastforce
  have rel: "cache_ok held (cache_release (re_lease env) (rs_cache s))"
    using release_ok [OF assms(1), of "re_lease env"] by simp
  have t: "cache_ok (if so_allocation_started o' then add_mset (re_lease env) held else held) (rs_cache t)"
    and started: "so_allocation_started o' \<Longrightarrow> rs_cache t = rs_cache s"
    using fin assms(1) rel by (auto simp: finish_session_def Let_def split: if_splits)
  show ?thesis
  proof (cases "so_cancelled o' \<or> so_unavailable o'")
    case True
    then show ?thesis using assms(2) fin t by (auto simp: after_session_def keeps_count_def)
  next
    case going: False
    show ?thesis
    proof (cases "is_parked o'")
      case True
      then show ?thesis using assms(2) fin t rel started going by (auto simp: after_session_def keeps_count_def)
    next
      case False
      have k: "keeps_count o' = so_allocation_started o'" using False going by (simp add: keeps_count_def)
      have c: "cache_ok held' (rs_cache t')" if "cache_ok held' (rs_cache t)" "retry_error env e t = (d, t')" for held' e d t'
        using retry_error_cache [OF that(1), of env e] that(2) by simp
      show ?thesis unfolding k
        using assms(2) fin t c False going by (auto simp: after_session_def split: prod.splits sum.splits if_splits)
    qed
  qed
qed

lemma flags_on_cache [simp]:
  "gc_cache (cr_group (on_cache f s)) = f (gc_cache (cr_group s))" "cr_workers (on_cache f s) = cr_workers s"
  "cr_spent (on_cache f s) = cr_spent s" "cr_lost (on_cache f s) = cr_lost s"
  "gc_unavailable (cr_group (on_cache f s)) = gc_unavailable (cr_group s)"
  by (simp_all add: on_cache_def)

lemma end_session_inv:
  assumes "end_session e o' r w s = (w', s')" "cache_ok (add_mset (se_lease r) held + cr_spent s + cr_lost s) (gc_cache (cr_group s))"
  shows "cache_ok (pc_leases (cw_pc w') + held + cr_spent s' + cr_lost s') (gc_cache (cr_group s')) \<and> cr_workers s' = cr_workers s"
proof -
  define e1 where "e1 = e\<lparr>re_lease := se_lease r, re_repair_moved := se_generation r < credential_generation (cw_id w) (cr_repair s)\<rparr>"
  define o1 where "o1 = o'\<lparr>so_allocation_started := (se_started r = Some True), so_unavailable := gc_unavailable (cr_group s)\<rparr>"
  define rs0 where "rs0 = (cr_logs s)\<lparr>rs_attempt := cw_attempt w, rs_cache := gc_cache (cr_group s)\<rparr>"
  obtain t sent rs where a: "after_session e1 o1 (fl_sent (flight_drop (se_guard r) (cr_flags s))) rs0 = (t, sent, rs)"
    by (metis prod_cases3)
  have eq: "(w', s') = (w\<lparr>cw_pc := after_pc t, cw_attempt := rs_attempt rs\<rparr>,
      (on_cache (\<lambda>_. rs_cache rs) s)\<lparr>cr_flags := (flight_drop (se_guard r) (cr_flags s))\<lparr>fl_sent := sent\<rparr>, cr_logs := rs,
        cr_spent := (if keeps_count o1 then add_mset (se_lease r) (cr_spent s) else cr_spent s)\<rparr>)"
    using assms(1) a unfolding end_session_def Let_def e1_def [symmetric] o1_def [symmetric] rs0_def [symmetric] by simp
  have "cache_ok (add_mset (re_lease e1) (held + cr_spent s + cr_lost s)) (rs_cache rs0)"
    using assms(2) by (simp add: e1_def rs0_def)
  moreover have "re_lease e1 = se_lease r" by (simp add: e1_def)
  ultimately have "cache_ok (if keeps_count o1 then add_mset (se_lease r) (held + cr_spent s + cr_lost s) else held + cr_spent s + cr_lost s) (rs_cache rs)"
    using after_session_cache [OF _ a] by metis
  moreover have "pc_leases (after_pc t) = {#}" by (cases t) simp_all
  ultimately show ?thesis using eq by (simp split: if_splits)
qed

lemma seek_lease_inv:
  assumes "seek_lease e cancelled w s = (w', s')" "cache_ok (held + cr_spent s + cr_lost s) (gc_cache (cr_group s))"
    and "ch_next_generation (gc_cache (cr_group s)) < 2 ^ 64 - 2"
  shows "cache_ok (pc_leases (cw_pc w') + held + cr_spent s' + cr_lost s') (gc_cache (cr_group s')) \<and> cr_workers s' = cr_workers s"
proof (cases "gc_unavailable (cr_group s)")
  case True
  then show ?thesis using assms(1,2) by (auto simp: seek_lease_def)
next
  case False
  obtain r d g where get: "group_get e (cr_group s) = (r, d, g)" by (metis prod_cases3)
  let ?H = "held + cr_spent s + cr_lost s"
  obtain calls where "steps cohort_step \<lparr>co_cache = gc_cache (cr_group s), co_held = ?H\<rparr> calls \<lparr>co_cache = gc_cache g, co_held = ?H + leased r\<rparr>"
    using group_get_steps [OF get assms(3)] by blast
  then have "cache_ok (?H + leased r) (gc_cache g)"
    using cohort.steps_inv assms(2) by (fastforce simp: cohort_inv_def)
  then show ?thesis using assms(1) get False
    by (cases r) (auto simp: seek_lease_def leased_def ac_simps)
qed

lemma work_inv:
  assumes "work event w s = Some (w', s')" "cache_ok (pc_leases (cw_pc w) + held + cr_spent s + cr_lost s) (gc_cache (cr_group s))"
    and "ch_next_generation (gc_cache (cr_group s)) < 2 ^ 64 - 2"
  shows "cache_ok (pc_leases (cw_pc w') + held + cr_spent s' + cr_lost s') (gc_cache (cr_group s')) \<and> cr_workers s' = cr_workers s"
proof -
  have returned: "cache_ok (held + cr_spent s + cr_lost s) (cache_release l (gc_cache (cr_group s)))"
    if "cw_pc w = Pacing l \<or> cw_pc w = Second_gate l" for l
    using release_ok [OF assms(2), of l] that by (elim disjE) simp_all
  show ?thesis
  proof (cases "event = Panicked False \<or> event = Panicked True")
    case True
    then show ?thesis using assms(1,2)
      by (elim disjE) (auto simp: work_def supervise_panic_def ac_simps split: worker_pc.splits)
  next
    case False
    show ?thesis
    proof (cases "cw_pc w")
      case Seeking
      then show ?thesis using assms False by (auto simp: work_def split: worker_event.splits elim!: seek_lease_inv)
    next
      case (In_session r)
      show ?thesis
      proof (cases event)
        case (Session_over e o')
        then show ?thesis using assms(1,2) In_session by (auto simp: work_def intro!: end_session_inv)
      next
        case (Signal_allocated sent)
        then show ?thesis using assms(1,2) In_session lease_call_ok(1)
          by (auto simp: work_def observe_allocated_def split: if_splits)
      qed (use assms(1,2) In_session False in \<open>auto simp: work_def observe_started_def split: if_splits\<close>)
    qed (use assms(1,2) False returned in \<open>auto simp: work_def give_back_def begin_session_def flight_acquire_def split: worker_event.splits if_splits\<close>)
  qed
qed

lemma crew_step_inv:
  assumes "crew_step s l s'" "crew_inv s"
  shows "crew_inv s'"
  using assms(1)
proof cases
  case (crew_work i event w t)
  obtain K where K: "\<And>x. (\<Sum>y\<leftarrow>(cr_workers s)[i := x]. pc_leases (cw_pc y)) = pc_leases (cw_pc x) + K"
    "(\<Sum>y\<leftarrow>cr_workers s. pc_leases (cw_pc y)) = pc_leases (cw_pc (cr_workers s ! i)) + K"
    using leases_replace [OF crew_work(3)] by metis
  have "cache_ok (pc_leases (cw_pc (cr_workers s ! i)) + K + cr_spent s + cr_lost s) (gc_cache (cr_group s))"
    using assms(2) K(2) by (simp add: crew_inv_def counted_def crew_leases_def)
  from work_inv [OF crew_work(4) this crew_work(5)] show ?thesis
    using crew_work(2) K(1) by (simp add: crew_inv_def counted_def crew_leases_def)
next
  case crew_outside
  then show ?thesis using assms(2) by (simp add: crew_inv_def counted_def crew_leases_def)
qed

interpretation crew: step_invariant crew_step crew_inv
  by unfold_locales (rule crew_step_inv)

lemma new_crew_inv: "crew_inv (new_crew ids slots)"
proof -
  have "crew_leases (new_crew ids slots) = {#}"
    by (induction ids) (simp_all add: crew_leases_def new_crew_def)
  then show ?thesis
    using new_cohort_inv by (simp add: crew_inv_def counted_def cohort_inv_def new_cohort_def new_crew_def new_group_def)
qed

text \<open>Only a panic loses a lease.\<close>

definition no_panic :: "crew_label \<Rightarrow> bool" where
  "no_panic l \<longleftrightarrow> (case l of By_worker _ (Panicked _) \<Rightarrow> False | _ \<Rightarrow> True)"

lemma work_lost:
  assumes "work event w s = Some (w', s')" "no_panic (By_worker i event)"
  shows "cr_lost s' = cr_lost s"
  using assms by (cases "cw_pc w"; cases event)
    (auto simp: work_def no_panic_def seek_lease_def give_back_def begin_session_def observe_started_def observe_allocated_def
      end_session_def Let_def split: prod.splits option.splits if_splits)

lemma crew_lost:
  assumes "steps crew_step s ls s'" "list_all no_panic ls"
  shows "cr_lost s' = cr_lost s"
  using assms
proof (induction rule: steps.induct)
  case (steps_Cons s l s' ls s'')
  from steps_Cons.hyps(1) have "cr_lost s' = cr_lost s"
    using steps_Cons.prems by cases (auto dest: work_lost)
  then show ?case using steps_Cons by simp
qed simp

text \<open>
  C32: The cache of a cohort counts exactly the allocations made with its credential: under every
  interleaving of the workers with each other and with the rest of the engine, the count of the current
  credential is the number of its leases that are with a worker between the cache and the end of its
  session, or belong to a session that ended after its allocation had started, or went down in a panic;
  it never exceeds eighteen, and without panics nothing is lost.
\<close>

theorem workers_account_for_leases:
  assumes "steps crew_step (new_crew ids slots) ls s"
  shows "(case ch_current (gc_cache (cr_group s)) of
      None \<Rightarrow> True
    | Some cached \<Rightarrow>
        cc_attempts cached = size (leases_of (cc_generation cached) (crew_leases s + cr_spent s + cr_lost s))
        \<and> cc_attempts cached \<le> WORKERS_PER_CREDENTIAL)
    \<and> (if list_all no_panic ls then cr_lost s = {#} else True)"
proof
  have "crew_inv s" using assms by (rule crew.steps_inv) (rule new_crew_inv)
  then show "case ch_current (gc_cache (cr_group s)) of
      None \<Rightarrow> True
    | Some cached \<Rightarrow>
        cc_attempts cached = size (leases_of (cc_generation cached) (crew_leases s + cr_spent s + cr_lost s))
        \<and> cc_attempts cached \<le> WORKERS_PER_CREDENTIAL"
    by (simp add: crew_inv_def counted_def cache_ok_def entry_ok_def held_ok_def split: option.split)
  have "list_all no_panic ls \<Longrightarrow> cr_lost s = {#}"
    using crew_lost [OF assms] by (simp add: new_crew_def)
  then show "if list_all no_panic ls then cr_lost s = {#} else True" by simp
qed

text \<open>A run: a worker takes the first credential, passes the pacer and both gates, and its task panics in the session.\<close>

definition example_fetch :: fetch_surroundings where
  "example_fetch = \<lparr>fs_pacer = True, fs_unavailable_after_pacer = False, fs_answer = Fetch_ok example_credentials,
     fs_slept = True, fs_jitter = 0\<rparr>"

definition example_labels :: "crew_label list" where
  "example_labels = [By_worker 0 (Gate_answer True), By_worker 0 (Fetch example_fetch False), By_worker 0 (Pacer_answer True),
     By_worker 0 (Gate_answer True), By_worker 0 (Panicked False)]"

definition counted_once :: cached_credentials where
  "counted_once = \<lparr>cc_value = example_credentials, cc_generation = 1, cc_attempts = 1, cc_mismatches = 0\<rparr>"

definition example_crew :: "nat \<Rightarrow> worker_pc \<Rightarrow> credential_lease multiset \<Rightarrow> crew" where
  "example_crew cursor pc lost = \<lparr>cr_group = \<lparr>gc_cache = \<lparr>ch_current = Some counted_once, ch_quota_blocked = None,
       ch_next_generation = 1, ch_quota_retries = 0\<rparr>, gc_failures = 0, gc_unavailable = False\<rparr>,
     cr_flags = \<lparr>fl_sent = False, fl_in_flight = (case pc of In_session _ \<Rightarrow> True | _ \<Rightarrow> False)\<rparr>, cr_repair = [], cr_logs = new_logs,
     cr_workers = [\<lparr>cw_id = 1, cw_pc = pc, cw_attempt = 0, cw_cursor = cursor\<rparr>], cr_spent = {#}, cr_lost = lost\<rparr>"

lemma crew_work_eq:
  assumes "i < length (cr_workers s)" "work event (cr_workers s ! i) s = Some (w, t)"
    "ch_next_generation (gc_cache (cr_group s)) < 2 ^ 64 - 2" "s' = t\<lparr>cr_workers := (cr_workers s)[i := w]\<rparr>"
  shows "crew_step s (By_worker i event) s'"
  using crew_work [OF assms(1-3)] assms(4) by simp

lemma example_group_get:
  "group_get example_fetch new_group = (Some (example_lease 1), 100,
     \<lparr>gc_cache = \<lparr>ch_current = Some counted_once, ch_quota_blocked = None, ch_next_generation = 1, ch_quota_retries = 0\<rparr>,
      gc_failures = 0, gc_unavailable = False\<rparr>)"
  by (simp add: group_get_def fetched_def example_fetch_def new_group_def counted_once_def cohort_eval)

lemma example_crew_run:
  "steps crew_step (new_crew [1] []) example_labels (example_crew 1 Restarting {#example_lease 1#})"
proof -
  let ?session = "In_session \<lparr>se_lease = example_lease 1, se_guard = True, se_cursor = 0, se_generation = 0,
    se_started = None, se_allocated = None\<rparr>"
  let ?seeking = "(new_crew [1] [])\<lparr>cr_workers := [\<lparr>cw_id = 1, cw_pc = Seeking, cw_attempt = 0, cw_cursor = 0\<rparr>]\<rparr>"
  have a: "crew_step (new_crew [1] []) (By_worker 0 (Gate_answer True)) ?seeking"
    by (rule crew_work_eq) (simp_all add: new_crew_def work_def new_group_def new_cache_def, (rule crew.equality, simp_all)?)
  have b: "crew_step ?seeking (By_worker 0 (Fetch example_fetch False)) (example_crew 0 (Pacing (example_lease 1)) {#})"
    by (rule crew_work_eq)
      (simp_all add: new_crew_def work_def seek_lease_def example_group_get example_crew_def, simp_all add: new_group_def new_cache_def, (rule crew.equality, simp_all)?)
  have c: "crew_step (example_crew 0 (Pacing (example_lease 1)) {#}) (By_worker 0 (Pacer_answer True))
      (example_crew 0 (Second_gate (example_lease 1)) {#})"
    by (rule crew_work_eq) (simp_all add: work_def example_crew_def, (rule crew.equality, simp_all)?)
  have d: "crew_step (example_crew 0 (Second_gate (example_lease 1)) {#}) (By_worker 0 (Gate_answer True)) (example_crew 1 ?session {#})"
    by (rule crew_work_eq)
      (simp_all add: work_def example_crew_def begin_session_def flight_acquire_def credential_generation_def has_slot_def, (rule crew.equality, simp_all)?)
  have e: "crew_step (example_crew 1 ?session {#}) (By_worker 0 (Panicked False)) (example_crew 1 Restarting {#example_lease 1#})"
    by (rule crew_work_eq) (simp_all add: work_def example_crew_def supervise_panic_def flight_drop_def, (rule crew.equality, simp_all)?)
  show ?thesis unfolding example_labels_def
    by (rule steps_Cons [where step = crew_step, OF a] steps_Cons [where step = crew_step, OF b]
        steps_Cons [where step = crew_step, OF c] steps_Cons [where step = crew_step, OF d]
        steps_Cons [where step = crew_step, OF e] steps_Nil)+
qed

lemma workers_account_for_leases_witness:
  "ch_current (gc_cache (cr_group (example_crew 1 Restarting {#example_lease 1#}))) = Some counted_once
   \<and> cc_attempts counted_once
       = size (leases_of 1 (crew_leases (example_crew 1 Restarting {#example_lease 1#}) + {#example_lease 1#}))"
  using workers_account_for_leases [OF example_crew_run]
  by (simp add: example_crew_def counted_once_def)

text \<open>
  A panic takes the lease with it: after the run above no worker holds a lease and no allocation was
  started, and the credential is still counted as used once.
\<close>

theorem panic_keeps_the_count:
  "\<exists>ls s. steps crew_step (new_crew [1] []) ls s \<and> crew_leases s = {#} \<and> cr_spent s = {#}
     \<and> map_option cc_attempts (ch_current (gc_cache (cr_group s))) = Some 1"
  by (intro exI conjI, rule example_crew_run) (simp_all add: crew_leases_def example_crew_def counted_once_def)

section \<open>No worker gives up\<close>

definition cancels :: "crew_label \<Rightarrow> bool" where
  "cancels l \<longleftrightarrow>
     (case l of
        By_worker _ (Gate_answer allowed) \<Rightarrow> \<not> allowed
      | By_worker _ (Fetch _ cancelled) \<Rightarrow> cancelled
      | By_worker _ (Pacer_answer started) \<Rightarrow> \<not> started
      | By_worker _ (Session_over _ o') \<Rightarrow> so_cancelled o'
      | By_worker _ (Sleep_over slept) \<Rightarrow> \<not> slept
      | By_worker _ (Panicked cancelled) \<Rightarrow> cancelled
      | _ \<Rightarrow> False)"

lemma group_get_unavailable: "gc_unavailable g \<Longrightarrow> group_get e g = (None, 0, g)"
  by (simp add: group_get_def)

lemma after_session_stops:
  "after_session env o' sent s = (Worker_stops, sent', s') \<Longrightarrow> so_cancelled o' \<or> so_unavailable o'"
  by (auto simp: after_session_def split: prod.splits sum.splits if_splits)

lemma work_unavailable:
  assumes "work event w s = Some (w', s')" "gc_unavailable (cr_group s)"
  shows "gc_unavailable (cr_group s')"
  using assms by (cases "cw_pc w"; cases event)
    (auto simp: work_def seek_lease_def give_back_def begin_session_def observe_started_def observe_allocated_def
      end_session_def supervise_panic_def Let_def split: prod.splits if_splits)

lemma end_session_stops:
  assumes "end_session e o' r w s = (w', s')" "\<not> so_cancelled o'" "\<not> gc_unavailable (cr_group s)"
  shows "cw_pc w' \<noteq> Retired"
proof -
  have "t \<noteq> Worker_stops" if "after_session env (o'\<lparr>so_allocation_started := x, so_unavailable := gc_unavailable (cr_group s)\<rparr>) y z = (t, sent, rs)" for env x y z t sent rs
    using after_session_stops [of env _ y z sent rs] that assms(2,3) by fastforce
  moreover have "after_pc t = Retired \<longleftrightarrow> t = Worker_stops" for t by (cases t) simp_all
  ultimately show ?thesis using assms(1) by (auto simp: end_session_def Let_def split: prod.splits)
qed

lemma work_survives:
  assumes "work event w s = Some (w', s')" "\<not> cancels (By_worker i event)" "\<not> gc_unavailable (cr_group s')" "cw_pc w \<noteq> Retired"
  shows "cw_pc w' \<noteq> Retired"
proof (cases "\<exists>r e o'. cw_pc w = In_session r \<and> event = Session_over e o'")
  case True
  then obtain r e o' where r: "cw_pc w = In_session r" "event = Session_over e o'" by blast
  have "\<not> gc_unavailable (cr_group s)" using work_unavailable [OF assms(1)] assms(3) by blast
  then show ?thesis using assms(1,2) r end_session_stops by (simp add: work_def cancels_def)
next
  case other: False
  show ?thesis
  proof (cases "cw_pc w")
    case Seeking
    then show ?thesis using assms
      by (auto simp: work_def cancels_def seek_lease_def supervise_panic_def split: worker_event.splits prod.splits option.splits if_splits)
  next
    case (In_session r)
    then show ?thesis using assms(1,2) other
      by (cases event) (auto simp: work_def cancels_def observe_started_def observe_allocated_def supervise_panic_def split: if_splits)
  qed (use assms(1,2,4) in \<open>auto simp: work_def cancels_def give_back_def begin_session_def supervise_panic_def flight_acquire_def
      split: worker_event.splits if_splits\<close>)
qed

lemma steps_unavailable: "steps crew_step s ls s' \<Longrightarrow> gc_unavailable (cr_group s) \<Longrightarrow> gc_unavailable (cr_group s')"
proof (induction rule: steps.induct)
  case (steps_Cons s l s' ls s'')
  from steps_Cons.hyps(1) have "gc_unavailable (cr_group s')"
    using steps_Cons.prems by cases (auto dest: work_unavailable)
  then show ?case by (rule steps_Cons.IH)
qed

lemma crew_survives:
  assumes "steps crew_step s ls s'" "list_all (\<lambda>l. \<not> cancels l) ls" "\<not> gc_unavailable (cr_group s')"
    and "list_all (\<lambda>w. cw_pc w \<noteq> Retired) (cr_workers s)"
  shows "list_all (\<lambda>w. cw_pc w \<noteq> Retired) (cr_workers s')"
  using assms
proof (induction rule: steps.induct)
  case (steps_Cons s l s' ls s'')
  have now: "\<not> gc_unavailable (cr_group s')"
    using steps_unavailable [OF steps_Cons.hyps(2)] steps_Cons.prems(2) by blast
  from steps_Cons.hyps(1) have "list_all (\<lambda>w. cw_pc w \<noteq> Retired) (cr_workers s')"
  proof cases
    case (crew_work i event w t)
    have "\<not> cancels (By_worker i event)" using steps_Cons.prems(1) crew_work(1) by simp
    moreover have "\<not> gc_unavailable (cr_group t)" "cw_pc (cr_workers s ! i) \<noteq> Retired"
      using steps_Cons.prems(3) now crew_work(2,3) by (simp_all add: list_all_length)
    ultimately have "cw_pc w \<noteq> Retired" by (rule work_survives [OF crew_work(4)])
    then show ?thesis using steps_Cons.prems(3) crew_work(2)
      by (auto simp: list_all_iff dest!: set_update_subset_insert [THEN subsetD])
  qed (use steps_Cons.prems(3) in simp)
  then show ?case using steps_Cons by simp
qed simp

text \<open>
  C33: No worker gives up: however its sessions fail, panics included, the task of a worker ends only
  after a cancellation of the engine, or when the call of its hash was found dead.
\<close>

theorem workers_never_give_up:
  assumes "steps crew_step (new_crew ids slots) ls s" "list_all (\<lambda>l. \<not> cancels l) ls" "\<not> gc_unavailable (cr_group s)"
  shows "length (cr_workers s) = length ids \<and> list_all (\<lambda>w. cw_pc w \<noteq> Retired) (cr_workers s)"
proof
  have "length (cr_workers s') = length (cr_workers t)" if "steps crew_step t ks s'" for t ks s'
    using that
  proof (induction rule: steps.induct)
    case (steps_Cons t l t' ls t'')
    then show ?case by (auto elim!: crew_step.cases)
  qed simp
  then show "length (cr_workers s) = length ids" using assms(1) by (simp add: new_crew_def)
  show "list_all (\<lambda>w. cw_pc w \<noteq> Retired) (cr_workers s)"
    by (rule crew_survives [OF assms]) (simp add: new_crew_def list_all_iff)
qed

lemma workers_never_give_up_witness:
  "list_all (\<lambda>w. cw_pc w \<noteq> Retired) (cr_workers (example_crew 1 Restarting {#example_lease 1#}))"
  using workers_never_give_up [OF example_crew_run]
  by (simp add: example_labels_def cancels_def) (simp add: example_crew_def)

end
