(* ===== verification/Auth.thy ===== *)
theory Auth
  imports Turn_Endpoint Worker_Loop
begin

text \<open>
  Where TURN credentials come from, \<open>auth.rs\<close>: the order in which the sources are asked, the steps of the
  two ways to the service with the checks of its answers, and what a dead call looks like in them. An
  answer of the service is a JSON value or the text of an error of the transport; which answers come is
  an input, as are the clock, the random waits and the solving of challenges (\<open>captcha.rs\<close>). The texts of
  the requests are not modelled, except for the escaping of their parameters.
\<close>

section \<open>JSON\<close>

text \<open>
  \<open>serde_json::Value\<close>. A number is a \<open>u64\<close>, a negative \<open>i64\<close> or a float; of a float only the saturating
  conversion to \<open>i64\<close> is ever read, and is what \<open>Float_number\<close> carries.
\<close>

datatype json_number = Unsigned_number nat | Negative_number int | Float_number int

datatype json =
    J_null
  | J_bool bool
  | J_number json_number
  | J_text chars
  | J_array "json list"
  | J_object "(chars \<times> json) list"

fun json_get :: "string \<Rightarrow> json \<Rightarrow> json option" where
  "json_get key (J_object members) = map_of members (code_points key)"
| "json_get key _ = None"

fun as_text :: "json \<Rightarrow> chars option" where
  "as_text (J_text s) = Some s"
| "as_text _ = None"

fun as_array :: "json \<Rightarrow> json list option" where
  "as_array (J_array xs) = Some xs"
| "as_array _ = None"

fun is_number :: "json \<Rightarrow> bool" where
  "is_number (J_number _) = True"
| "is_number _ = False"

fun is_object :: "json \<Rightarrow> bool" where
  "is_object (J_object _) = True"
| "is_object _ = False"

definition has_text :: "string \<Rightarrow> chars \<Rightarrow> bool" where
  "has_text needle s \<longleftrightarrow> find_text (code_points needle) s \<noteq> None"

section \<open>Errors\<close>

datatype auth_error =
    Call_unavailable int chars
  | Captcha_challenge json
  | Both_failed auth_error auth_error
  | Other_error chars

abbreviation other :: "string \<Rightarrow> auth_error" where
  "other s \<equiv> Other_error (code_points s)"

fun is_call_unavailable :: "auth_error \<Rightarrow> bool" where
  "is_call_unavailable (Call_unavailable _ _) = True"
| "is_call_unavailable _ = False"

text \<open>The only test of a displayed text is made on errors that are not of the other kinds.\<close>

fun asks_to_wait :: "auth_error \<Rightarrow> bool" where
  "asks_to_wait (Other_error message) = has_text ''CAPTCHA_WAIT_REQUIRED'' message"
| "asks_to_wait _ = False"

fun json_path :: "string list \<Rightarrow> json \<Rightarrow> auth_error + json" where
  "json_path [] value = Inr value"
| "json_path (key # path) value =
     (case json_get key value of
        None \<Rightarrow> Inl (Other_error (code_points ''missing key '' @ code_points key))
      | Some current \<Rightarrow> json_path path current)"

definition json_string :: "string list \<Rightarrow> json \<Rightarrow> auth_error + chars" where
  "json_string path value =
     (case json_path path value of
        Inl e \<Rightarrow> Inl e
      | Inr current \<Rightarrow> (case as_text current of None \<Rightarrow> Inl (other ''expected string'') | Some s \<Rightarrow> Inr s))"

definition json_number :: "string list \<Rightarrow> json \<Rightarrow> auth_error + json" where
  "json_number path value =
     (case json_path path value of
        Inl e \<Rightarrow> Inl e
      | Inr current \<Rightarrow> if is_number current then Inr current else Inl (other ''expected number''))"

definition I64_MAX :: int where "I64_MAX = 2 ^ 63 - 1"

text \<open>\<open>str::parse\<close> of an \<open>i64\<close>.\<close>

definition parse_i64 :: "chars \<Rightarrow> int option" where
  "parse_i64 s =
     (case s of
        [] \<Rightarrow> None
      | c # rest \<Rightarrow>
          if c = 45
          then (if rest \<noteq> [] \<and> list_all is_digit rest \<and> digits_value rest \<le> 2 ^ 63 then Some (- int (digits_value rest)) else None)
          else map_option int (parse_unsigned (2 ^ 63) s))"

fun number_code :: "json_number \<Rightarrow> int" where
  "number_code (Unsigned_number n) = min (int n) I64_MAX"
| "number_code (Negative_number i) = i"
| "number_code (Float_number i) = i"

definition error_code :: "json option \<Rightarrow> int" where
  "error_code value =
     (case value of
        Some (J_number number) \<Rightarrow> number_code number
      | Some (J_text s) \<Rightarrow> (case parse_i64 s of Some i \<Rightarrow> i | None \<Rightarrow> 0)
      | _ \<Rightarrow> 0)"

definition is_fatal_call_code :: "int \<Rightarrow> bool" where
  "is_fatal_call_code code \<longleftrightarrow> code = 951 \<or> code = 954 \<or> (9000 \<le> code \<and> code \<le> 9999)"

definition is_fatal_call_error :: "int \<Rightarrow> chars \<Rightarrow> bool" where
  "is_fatal_call_error code message \<longleftrightarrow>
     (let normalized = to_ascii_lowercase (trim_with is_whitespace message)
      in is_fatal_call_code code \<or> has_text ''call not found'' normalized \<or> has_text ''invalid call join link'' normalized)"

definition vk_error_message :: "json \<Rightarrow> chars" where
  "vk_error_message error =
     (case (case json_get ''error_msg'' error of None \<Rightarrow> json_get ''message'' error | m \<Rightarrow> m) of
        None \<Rightarrow> []
      | Some m \<Rightarrow> (case as_text m of None \<Rightarrow> [] | Some s \<Rightarrow> s))"

definition show_code :: "int \<Rightarrow> chars" where
  "show_code i = (if i < 0 then 45 # digits (nat (- i)) else digits (nat i))"

definition check_fatal_call :: "json \<Rightarrow> auth_error option" where
  "check_fatal_call response =
     (case json_get ''error'' response of
        None \<Rightarrow> None
      | Some error \<Rightarrow>
          let code = error_code (json_get ''error_code'' error); message = vk_error_message error
          in if is_fatal_call_error code message then Some (Call_unavailable code message) else None)"

definition invalid_captcha :: "(json \<Rightarrow> chars) \<Rightarrow> json \<Rightarrow> auth_error" where
  "invalid_captcha show' error = Other_error (code_points ''invalid VK captcha response: '' @ show' error)"

definition check_vk_error :: "(json \<Rightarrow> chars) \<Rightarrow> json \<Rightarrow> auth_error option" where
  "check_vk_error show' response =
     (case json_get ''error'' response of
        None \<Rightarrow> None
      | Some error \<Rightarrow>
          case check_fatal_call response of
            Some e \<Rightarrow> Some e
          | None \<Rightarrow>
              let code = error_code (json_get ''error_code'' error) in
              if code = 14 then Some (if is_object error then Captcha_challenge error else invalid_captcha show' error)
              else Some (Other_error (code_points ''VK API error: error_code='' @ show_code code @ [32]
                @ (case Option.bind (json_get ''error_msg'' error) as_text of None \<Rightarrow> [] | Some s \<Rightarrow> s))))"

definition check_ok_error :: "json \<Rightarrow> auth_error option" where
  "check_ok_error response =
     (let code = error_code (json_get ''error_code'' response); message = vk_error_message response
      in if code = 0 then None
         else if is_fatal_call_error code message then Some (Call_unavailable code message)
         else Some (Other_error (code_points ''OK CDN API error: error_code='' @ show_code code @ [32] @ message)))"

datatype hash_check = Hash_valid | Hash_invalid int chars | Hash_unavailable chars

definition classify_vk_hash_error :: "json \<Rightarrow> auth_error + hash_check option" where
  "classify_vk_hash_error response =
     (case json_get ''error'' response of
        None \<Rightarrow> Inr None
      | Some error \<Rightarrow>
          let code = error_code (json_get ''error_code'' error); message = vk_error_message error
          in if is_fatal_call_error code message then Inr (Some (Hash_invalid code message))
             else if code = 14 then Inr (Some Hash_valid)
             else Inl (Other_error (code_points ''VK API error: error_code='' @ show_code code @ [32] @ message)))"

section \<open>The credentials in an answer\<close>

definition parse_turn_credentials :: "json \<Rightarrow> auth_error + seed" where
  "parse_turn_credentials response =
     (case json_get ''turn_server'' response of
        None \<Rightarrow> Inl (other ''missing turn_server in response'')
      | Some turn \<Rightarrow>
          case Option.bind (json_get ''username'' turn) as_text of
            None \<Rightarrow> Inl (other ''missing username in turn_server'')
          | Some username \<Rightarrow>
              case Option.bind (json_get ''credential'' turn) as_text of
                None \<Rightarrow> Inl (other ''missing credential in turn_server'')
              | Some password \<Rightarrow>
                  case Option.bind (json_get ''urls'' turn) as_array of
                    None \<Rightarrow> Inl (other ''missing or empty urls in turn_server'')
                  | Some urls \<Rightarrow>
                      let addresses = filter is_supported_turn_uri (map (trim_with is_whitespace) (List.map_filter as_text urls))
                      in if addresses = [] then Inl (other ''no valid TURN addresses found'')
                         else Inr \<lparr>se_username = username, se_password = password, se_addresses = addresses\<rparr>)"

section \<open>Escaping\<close>

definition hex_digit :: "u8 \<Rightarrow> u8" where
  "hex_digit k = (if k < 10 then 48 + k else 55 + k)"

definition is_unreserved :: "u8 \<Rightarrow> bool" where
  "is_unreserved c \<longleftrightarrow> (97 \<le> c \<and> c \<le> 122) \<or> (65 \<le> c \<and> c \<le> 90) \<or> (48 \<le> c \<and> c \<le> 57) \<or> c \<in> {45, 95, 46, 126}"

definition escape_byte :: "u8 \<Rightarrow> bytes" where
  "escape_byte c =
     (if c = 32 then [43]
      else if is_unreserved c then [c]
      else [37, hex_digit (drop_bit 4 c), hex_digit (and c 15)])"

definition query_escape :: "bytes \<Rightarrow> bytes" where
  "query_escape s = concat (map escape_byte s)"

section \<open>The two ways to the service\<close>

text \<open>
  An answer to a request: the text of an error of the transport or the decoder, or a value. The steps of
  \<open>vk_calls_path\<close> are numbered from 1 as in the source; step 0 is what comes before them, the switch of
  the environment and the set-up of the client.
\<close>

type_synonym answer = "chars + json"

definition answered :: "answer \<Rightarrow> (json \<Rightarrow> auth_error + 'a) \<Rightarrow> auth_error + 'a" where
  "answered a k = (case a of Inl e \<Rightarrow> Inl (Other_error e) | Inr response \<Rightarrow> k response)"

definition checked :: "auth_error option \<Rightarrow> (auth_error + 'a) \<Rightarrow> auth_error + 'a" where
  "checked e r = (case e of Some e \<Rightarrow> Inl e | None \<Rightarrow> r)"

definition found :: "(auth_error + 'b) \<Rightarrow> (auth_error + 'a) \<Rightarrow> auth_error + 'a" where
  "found x r = (case x of Inl e \<Rightarrow> Inl e | Inr _ \<Rightarrow> r)"

definition vk_calls_path :: "(json \<Rightarrow> chars) \<Rightarrow> chars option \<Rightarrow> (nat \<Rightarrow> answer) \<Rightarrow> auth_error + seed" where
  "vk_calls_path show' preflight a =
     checked (map_option Other_error preflight) (
     answered (a 1) (\<lambda>response1. found (json_string [''response'', ''token''] response1) (
     answered (a 2) (\<lambda>response2. checked (check_vk_error show' response2) (
       found (json_number [''response'', ''user_id''] response2) (
       found (json_string [''response'', ''secret''] response2) (
     answered (a 3) (\<lambda>response3. checked (check_vk_error show' response3) (
       found (json_string [''response'', ''token''] response3) (
     answered (a 4) (\<lambda>response4. found (json_string [''session_key''] response4) (
     answered (a 5) (\<lambda>response5. checked (check_ok_error response5) (parse_turn_credentials response5))))))))))))))"

text \<open>
  A challenge can be tried when it carries the address and the token that the \<open>url\<close> library finds in it;
  \<open>solve\<close> is the answer of the solver, \<open>None\<close> for success.
\<close>

definition challenge_error :: "(json \<Rightarrow> chars) \<Rightarrow> (json \<Rightarrow> bool) \<Rightarrow> nat \<Rightarrow> chars option \<Rightarrow> json \<Rightarrow> auth_error option" where
  "challenge_error show' usable captcha_attempts solve error =
     (if \<not> is_object error then Some (invalid_captcha show' error)
      else if \<not> usable error then Some (Other_error (code_points ''VK API error: '' @ show' error))
      else if captcha_attempts \<ge> 3 then Some (other ''CAPTCHA_WAIT_REQUIRED'')
      else map_option (\<lambda>e. Other_error (code_points ''CAPTCHA_WAIT_REQUIRED: '' @ e)) solve)"

function token_loop :: "(json \<Rightarrow> chars) \<Rightarrow> (json \<Rightarrow> bool) \<Rightarrow> (nat \<Rightarrow> answer) \<Rightarrow> (nat \<Rightarrow> chars option) \<Rightarrow> nat
    \<Rightarrow> auth_error + chars" where
  "token_loop show' usable a solve captcha_attempts =
     (case a captcha_attempts of
        Inl e \<Rightarrow> Inl (Other_error e)
      | Inr response \<Rightarrow>
          case json_get ''error'' response of
            None \<Rightarrow> json_string [''response'', ''token''] response
          | Some error \<Rightarrow>
              case check_fatal_call response of
                Some e \<Rightarrow> Inl e
              | None \<Rightarrow>
                  case challenge_error show' usable captcha_attempts (solve captcha_attempts) error of
                    Some e \<Rightarrow> Inl e
                  | None \<Rightarrow> token_loop show' usable a solve (captcha_attempts + 1))"
  by pat_completeness auto
termination
  by (relation "measure (\<lambda>(_, _, _, _, n). 4 - n)") (auto simp: challenge_error_def split: if_splits)

declare token_loop.simps [simp del]

record legacy_answers =
  la_token :: answer
  la_preview :: answer
  la_anonymous :: "nat \<Rightarrow> answer"
  la_solve :: "nat \<Rightarrow> chars option"
  la_login :: answer
  la_join :: answer

definition legacy_path :: "(json \<Rightarrow> chars) \<Rightarrow> (json \<Rightarrow> bool) \<Rightarrow> legacy_answers \<Rightarrow> auth_error + seed" where
  "legacy_path show' usable a =
     answered (la_token a) (\<lambda>response. found (json_string [''data'', ''access_token''] response) (
     checked (case la_preview a of Inl _ \<Rightarrow> None | Inr v \<Rightarrow> check_fatal_call v) (
     found (token_loop show' usable (la_anonymous a) (la_solve a) 0) (
     answered (la_login a) (\<lambda>login. found (json_string [''session_key''] login) (
     answered (la_join a) parse_turn_credentials))))))"

section \<open>The order of the sources\<close>

datatype auth_mode = Auth_auto_js | Auth_legacy | Auth_vkcalls

definition parse_auth_mode :: "chars \<Rightarrow> auth_mode" where
  "parse_auth_mode mode =
     (let mode = to_ascii_lowercase mode
      in if mode = code_points ''auto_js'' then Auth_auto_js
         else if mode = code_points ''legacy'' then Auth_legacy
         else Auth_vkcalls)"

text \<open>Both return the result and the number of attempts made.\<close>

definition vk_calls_with_retries :: "(nat \<Rightarrow> auth_error + seed) \<Rightarrow> (auth_error + seed) \<times> nat" where
  "vk_calls_with_retries path =
     (case path 1 of
        Inr c \<Rightarrow> (Inr c, 1)
      | Inl e \<Rightarrow> if is_call_unavailable e then (Inl e, 1) else (path 2, 2))"

datatype legacy_try = Client_failed chars | Tried "auth_error + seed"

fun legacy_attempts :: "nat \<Rightarrow> (nat \<Rightarrow> legacy_try) \<Rightarrow> (nat \<Rightarrow> int) \<Rightarrow> nat \<Rightarrow> nat \<Rightarrow> auth_error option \<Rightarrow> int
    \<Rightarrow> (auth_error + seed) \<times> int \<times> nat" where
  "legacy_attempts clients path now 0 attempt last_error lockout =
     (Inl (case last_error of Some e \<Rightarrow> e | None \<Rightarrow> other ''all VK credentials failed''), lockout, attempt)"
| "legacy_attempts clients path now (Suc remaining) attempt last_error lockout =
     (if clients = 0
      then (Inl (case last_error of Some e \<Rightarrow> e | None \<Rightarrow> other ''all VK credentials failed''), lockout, attempt)
      else case path attempt of
        Client_failed e \<Rightarrow> (Inl (Other_error e), lockout, attempt + 1)
      | Tried (Inr c) \<Rightarrow> (Inr c, lockout, attempt + 1)
      | Tried (Inl e) \<Rightarrow>
          if is_call_unavailable e then (Inl e, lockout, attempt + 1)
          else if asks_to_wait e then (Inl e, now attempt + 60, attempt + 1)
          else legacy_attempts clients path now remaining (attempt + 1) (Some e) lockout)"

record auth_inputs =
  ai_seed :: "seed option"
  ai_broker :: "(chars + seed) option"
  ai_calls :: "nat \<Rightarrow> auth_error + seed"
  ai_legacy :: "nat \<Rightarrow> legacy_try"
  ai_clients :: nat
  ai_now :: int
  ai_failed_at :: "nat \<Rightarrow> int"

text \<open>The result, the time until which everybody waits, and the attempts made on each way.\<close>

definition no_broker_text :: chars where
  "no_broker_text = code_points ''Auto JS credential broker '' @ [0x43E, 0x442, 0x441, 0x443, 0x442, 0x441, 0x442, 0x432, 0x443, 0x435, 0x442]"

definition get_credentials :: "auth_mode \<Rightarrow> auth_inputs \<Rightarrow> int \<Rightarrow> (auth_error + seed) \<times> int \<times> nat \<times> nat" where
  "get_credentials mode i lockout =
     (case ai_seed i of
        Some seeded \<Rightarrow> (Inr seeded, lockout, 0, 0)
      | None \<Rightarrow>
          if mode = Auth_auto_js then
            (case (case ai_broker i of None \<Rightarrow> Inl no_broker_text | Some r \<Rightarrow> r) of
               Inr c \<Rightarrow> (Inr c, lockout, 0, 0)
             | Inl auto_js_error \<Rightarrow>
                 case vk_calls_with_retries (ai_calls i) of
                   (Inr c, n) \<Rightarrow> (Inr c, lockout, n, 0)
                 | (Inl auto_error, n) \<Rightarrow> (Inl (Both_failed (Other_error auto_js_error) auto_error), lockout, n, 0))
          else if ai_now i < lockout then (Inl (other ''CAPTCHA_WAIT_REQUIRED: global lockout active''), lockout, 0, 0)
          else
            case (if mode = Auth_vkcalls then map_prod Some id (vk_calls_with_retries (ai_calls i)) else (None, 0)) of
              (Some (Inr c), n) \<Rightarrow> (Inr c, lockout, n, 0)
            | (Some (Inl e), n) \<Rightarrow>
                if is_call_unavailable e then (Inl e, lockout, n, 0)
                else (case legacy_attempts (ai_clients i) (ai_legacy i) (ai_failed_at i) 4 0 None lockout of
                        (r, lockout, k) \<Rightarrow> (r, lockout, n, k))
            | (None, n) \<Rightarrow>
                (case legacy_attempts (ai_clients i) (ai_legacy i) (ai_failed_at i) 4 0 None lockout of
                   (r, lockout, k) \<Rightarrow> (r, lockout, n, k)))"

section \<open>Checking hashes\<close>

text \<open>\<open>check_vk_hash_attempt\<close> on its two answers, and \<open>check_vk_hash\<close> on two attempts.\<close>

definition check_vk_hash_attempt :: "chars option \<Rightarrow> answer \<Rightarrow> answer \<Rightarrow> auth_error + hash_check" where
  "check_vk_hash_attempt client token preview =
     checked (map_option Other_error client) (
     answered token (\<lambda>token_response.
       case classify_vk_hash_error token_response of
         Inl e \<Rightarrow> Inl e
       | Inr (Some r) \<Rightarrow> Inr r
       | Inr None \<Rightarrow> found (json_string [''response'', ''token''] token_response) (
     answered preview (\<lambda>preview_response.
       case classify_vk_hash_error preview_response of
         Inl e \<Rightarrow> Inl e
       | Inr (Some r) \<Rightarrow> Inr r
       | Inr None \<Rightarrow> found (json_number [''response'', ''user_id''] preview_response) (
           found (json_string [''response'', ''secret''] preview_response) (Inr Hash_valid))))))"

definition check_vk_hash :: "(auth_error \<Rightarrow> chars) \<Rightarrow> auth_error + hash_check \<Rightarrow> auth_error + hash_check \<Rightarrow> hash_check" where
  "check_vk_hash explain first second =
     (case first of
        Inr r \<Rightarrow> r
      | Inl _ \<Rightarrow> (case second of Inr r \<Rightarrow> r | Inl e \<Rightarrow> Hash_unavailable (explain e)))"

text \<open>The clients the service knows; \<open>known\<close> and \<open>defaults\<close> are the tables of the source.\<close>

definition load_credentials :: "(chars \<Rightarrow> chars option) \<Rightarrow> (chars \<times> chars) list \<Rightarrow> chars option \<Rightarrow> chars list \<Rightarrow> (chars \<times> chars) list" where
  "load_credentials known defaults environment client_ids =
     (let trim = trim_with is_whitespace;
          from_ids = List.map_filter (\<lambda>id. map_option (Pair (trim id)) (known (trim id))) client_ids;
          parsed = (case environment of
              None \<Rightarrow> []
            | Some value \<Rightarrow>
                map (\<lambda>(id, secret). (trim id, trim secret))
                  (filter (\<lambda>(id, secret). trim id \<noteq> [] \<and> trim secret \<noteq> [])
                    (List.map_filter (\<lambda>pair. split_once 58 (trim pair)) (split_at (\<lambda>c. c = 44) value))))
      in if from_ids \<noteq> [] then from_ids else if parsed \<noteq> [] then parsed else defaults)"

section \<open>Escaping can be undone\<close>

text \<open>The reading of a form field, as the service does it.\<close>

definition hex_value :: "u8 \<Rightarrow> u8" where
  "hex_value c = (if c \<le> 57 then c - 48 else c - 55)"

fun query_unescape :: "bytes \<Rightarrow> bytes" where
  "query_unescape [] = []"
| "query_unescape (c # s) =
     (if c = 43 then 32 # query_unescape s
      else if c = 37 then
        (case s of
           h # l # rest \<Rightarrow> (16 * hex_value h + hex_value l) # query_unescape rest
         | _ \<Rightarrow> c # s)
      else c # query_unescape s)"

lemma nibble_cases:
  assumes "k < (16 :: u8)"
  shows "k \<in> {0, 1, 2, 3, 4, 5, 6, 7, 8, 9, 10, 11, 12, 13, 14, 15}"
proof -
  have "unat k \<in> {..<16}" using assms by (simp add: word_less_nat_alt)
  then have "word_of_nat (unat k) \<in> (word_of_nat :: nat \<Rightarrow> u8) ` {..<16}" by (rule imageI)
  then show ?thesis by (simp add: lessThan_nat_numeral lessThan_Suc insert_commute)
qed

lemma hex_value_digit: "k < 16 \<Longrightarrow> hex_value (hex_digit k) = k"
  by (drule nibble_cases) (auto simp: hex_value_def hex_digit_def)

lemma hex_digit_plain: "k < 16 \<Longrightarrow> is_unreserved (hex_digit k)"
  by (drule nibble_cases) (auto simp: is_unreserved_def hex_digit_def)

lemma nibbles:
  fixes c :: u8
  shows "drop_bit 4 c < 16" "and c 15 < 16" "16 * drop_bit 4 c + and c 15 = c"
proof -
  have m: "and c 15 = c mod 16"
    using take_bit_eq_mask [of 4 c] take_bit_eq_mod [of 4 c] by (simp add: mask_eq_exp_minus_1)
  have d: "drop_bit 4 c = c div 16" using drop_bit_eq_div [of 4 c] by simp
  show "drop_bit 4 c < 16"
    using unat_byte_less [of c] by (simp add: word_less_nat_alt d unat_div less_mult_imp_div_less)
  show "and c 15 < 16" by (simp add: m word_less_nat_alt unat_mod)
  show "16 * drop_bit 4 c + and c 15 = c" unfolding m d by (metis mult.commute div_mult_mod_eq)
qed

definition is_plain :: "u8 \<Rightarrow> bool" where
  "is_plain c \<longleftrightarrow> is_unreserved c \<or> c = 37 \<or> c = 43"

lemma escape_byte_plain: "list_all is_plain (escape_byte c)"
  using nibbles [of c] by (simp add: escape_byte_def is_plain_def hex_digit_plain)

lemma unescape_escape_byte: "query_unescape (escape_byte c @ s) = c # query_unescape s"
proof -
  have "is_unreserved c \<Longrightarrow> c \<noteq> 43 \<and> c \<noteq> 37" by (auto simp: is_unreserved_def)
  then show ?thesis using nibbles [of c] by (auto simp: escape_byte_def hex_value_digit)
qed

text \<open>
  A parameter reaches the service as it was: reading back an escaped text gives the text, whatever
  bytes it has, and an escaped text consists of letters, digits, the four unreserved marks, plus and
  percent signs only, so that no parameter can end or add another.
\<close>

theorem query_escape_roundtrip:
  "query_unescape (query_escape s) = s \<and> list_all is_plain (query_escape s)"
proof
  show "query_unescape (query_escape s) = s"
    by (induction s) (simp_all add: query_escape_def unescape_escape_byte)
  show "list_all is_plain (query_escape s)"
    using escape_byte_plain by (induction s) (simp_all add: query_escape_def)
qed

section \<open>What the sources yield\<close>

text \<open>The attempts of a request, made of the answers of the service.\<close>

definition calls_from :: "(json \<Rightarrow> chars) \<Rightarrow> (nat \<Rightarrow> chars option) \<Rightarrow> (nat \<Rightarrow> nat \<Rightarrow> answer) \<Rightarrow> nat \<Rightarrow> auth_error + seed" where
  "calls_from show' preflight answers k = vk_calls_path show' (preflight k) (answers k)"

definition legacy_from :: "(json \<Rightarrow> chars) \<Rightarrow> (json \<Rightarrow> bool) \<Rightarrow> (nat \<Rightarrow> chars option) \<Rightarrow> (nat \<Rightarrow> legacy_answers) \<Rightarrow> nat \<Rightarrow> legacy_try" where
  "legacy_from show' usable client answers k =
     (case client k of Some e \<Rightarrow> Client_failed e | None \<Rightarrow> Tried (legacy_path show' usable (answers k)))"

definition has_relays :: "seed \<Rightarrow> bool" where
  "has_relays c \<longleftrightarrow> se_addresses c \<noteq> [] \<and> list_all is_supported_turn_uri (se_addresses c)"

lemma map_prod_Some: "map_prod Some id p = (q, n) \<longleftrightarrow> (\<exists>r. q = Some r \<and> p = (r, n))"
  by (cases p) auto

lemma combinators:
  "answered a k = Inr x \<longleftrightarrow> (\<exists>v. a = Inr v \<and> k v = Inr x)"
  "checked e r = Inr x \<longleftrightarrow> e = None \<and> r = Inr x"
  "found y r = Inr x \<longleftrightarrow> (\<exists>v. y = Inr v) \<and> r = Inr x"
  by (auto simp: answered_def checked_def found_def split: sum.splits option.splits)

lemma parse_relays: "parse_turn_credentials response = Inr c \<Longrightarrow> has_relays c"
  by (auto simp: parse_turn_credentials_def has_relays_def Let_def list_all_iff split: option.splits if_splits)

lemma path_relays:
  "vk_calls_path show' preflight a = Inr c \<Longrightarrow> has_relays c"
  "legacy_path show' usable l = Inr c \<Longrightarrow> has_relays c"
  by (auto simp: vk_calls_path_def legacy_path_def combinators intro: parse_relays)

lemma retries_relays: "vk_calls_with_retries (calls_from show' preflight a) = (Inr c, n) \<Longrightarrow> has_relays c"
  by (auto simp: vk_calls_with_retries_def calls_from_def split: sum.splits if_splits intro: path_relays)

lemma legacy_relays:
  "legacy_attempts clients (legacy_from show' usable client l) now remaining attempt last_error lockout = (Inr c, lockout', k)
   \<Longrightarrow> has_relays c"
  by (induction clients "legacy_from show' usable client l" now remaining attempt last_error lockout rule: legacy_attempts.induct)
    (auto split: if_splits legacy_try.splits sum.splits simp: legacy_from_def intro: path_relays split: option.splits)

text \<open>
  C34: Credentials come with relays: whatever the service answers, credentials that were neither installed by
  the host nor handed over by the account have at least one address, and every address is a TURN URI the
  engine can parse.
\<close>

theorem fetched_credentials_have_relays:
  assumes "get_credentials mode i lockout = (Inr c, rest)"
    and "ai_calls i = calls_from show' preflight answers" "ai_legacy i = legacy_from show' usable client legacy"
  shows "ai_seed i = Some c \<or> ai_broker i = Some (Inr c) \<or> (se_addresses c \<noteq> [] \<and> list_all is_supported_turn_uri (se_addresses c))"
proof -
  have "ai_seed i = Some c \<or> ai_broker i = Some (Inr c) \<or> has_relays c"
    using assms
    by (auto simp: get_credentials_def map_prod_Some split: option.splits if_splits sum.splits prod.splits intro: retries_relays legacy_relays)
  then show ?thesis by (simp add: has_relays_def)
qed

text \<open>At most two attempts on the first way and four on the second, with at most four requests for a token each.\<close>

lemma legacy_attempts_bounded:
  "legacy_attempts clients path now remaining attempt last_error lockout = (r, lockout', k) \<Longrightarrow> k \<le> attempt + remaining"
  by (induction clients path now remaining attempt last_error lockout rule: legacy_attempts.induct)
    (auto split: if_splits legacy_try.splits sum.splits)

lemma search_is_bounded:
  assumes "get_credentials mode i lockout = (r, lockout', n, k)"
  shows "n \<le> 2 \<and> k \<le> 4"
proof -
  have calls: "n' \<le> 2" if "vk_calls_with_retries p = (r', n')" for p r' n'
    using that by (auto simp: vk_calls_with_retries_def split: sum.splits if_splits)
  have tries: "k' \<le> 4" if "legacy_attempts c p t 4 0 e l = (r', l', k')" for c p t e l r' l' k'
    using legacy_attempts_bounded [OF that] by simp
  show ?thesis using assms
    by (auto simp: get_credentials_def map_prod_Some split: option.splits if_splits sum.splits prod.splits dest: calls tries)
qed

section \<open>Dead calls\<close>

text \<open>What the cohort gets to see of a request, \<open>GroupCredentials::get\<close>; texts are kept in UTF-8.\<close>

definition fetch_answer_of :: "(chars \<Rightarrow> bytes) \<Rightarrow> auth_error + seed \<Rightarrow> fetch_answer" where
  "fetch_answer_of as_bytes r =
     (case r of
        Inr c \<Rightarrow> Fetch_ok \<lparr>tc_username = as_bytes (se_username c), tc_password = as_bytes (se_password c),
                   tc_server_addresses = map as_bytes (se_addresses c)\<rparr>
      | Inl e \<Rightarrow> if is_call_unavailable e then Fetch_call_unavailable else Fetch_failed)"

definition dead_call_answer :: "json \<Rightarrow> json \<Rightarrow> bool" where
  "dead_call_answer response error \<longleftrightarrow>
     json_get ''error'' response = Some error \<and> is_fatal_call_code (error_code (json_get ''error_code'' error))"

lemma dead_call_found:
  assumes "dead_call_answer response error"
  shows "check_vk_error show' response
    = Some (Call_unavailable (error_code (json_get ''error_code'' error)) (vk_error_message error))"
  using assms by (simp add: dead_call_answer_def check_vk_error_def check_fatal_call_def is_fatal_call_error_def Let_def)

lemma dead_call_path:
  assumes "a 1 = Inr first" "json_string [''response'', ''token''] first = Inr token" "a 2 = Inr response"
    "dead_call_answer response error"
  shows "vk_calls_path show' None a
    = Inl (Call_unavailable (error_code (json_get ''error_code'' error)) (vk_error_message error))"
  using assms by (simp add: vk_calls_path_def answered_def checked_def found_def dead_call_found)


text \<open>
  Two ways on which a dead call is not recognised: with the account's credentials the fallback wraps the
  error into a text, and the older way does not look at the error of its last answer.
\<close>

theorem auto_js_hides_a_dead_call:
  "fetch_answer_of as_bytes (fst (get_credentials Auth_auto_js
     \<lparr>ai_seed = None, ai_broker = Some (Inl e), ai_calls = (\<lambda>_. Inl (Call_unavailable 9001 m)), ai_legacy = l, ai_clients = n,
      ai_now = t, ai_failed_at = f\<rparr> lockout)) = Fetch_failed"
  by (simp add: get_credentials_def vk_calls_with_retries_def fetch_answer_of_def)

definition text_field :: "string \<Rightarrow> string \<Rightarrow> chars \<times> json" where
  "text_field key s = (code_points key, J_text (code_points s))"

definition dead_call_json :: json where
  "dead_call_json = J_object [(code_points ''error_code'', J_number (Unsigned_number 9001))]"

definition dead_join_answers :: legacy_answers where
  "dead_join_answers =
     \<lparr>la_token = Inr (J_object [(code_points ''data'', J_object [text_field ''access_token'' ''t''])]),
      la_preview = Inr (J_object []),
      la_anonymous = (\<lambda>_. Inr (J_object [(code_points ''response'', J_object [text_field ''token'' ''t''])])),
      la_solve = (\<lambda>_. None), la_login = Inr (J_object [text_field ''session_key'' ''k'']), la_join = Inr dead_call_json\<rparr>"

lemmas auth_eval = code_points_def text_field_def json_string_def json_number_def error_code_def

theorem legacy_join_hides_a_dead_call:
  "legacy_path show' usable dead_join_answers = Inl (other ''missing turn_server in response'')
   \<and> check_ok_error dead_call_json = Some (Call_unavailable 9001 [])"
  by (simp add: legacy_path_def dead_join_answers_def answered_def checked_def found_def check_fatal_call_def token_loop.simps
      parse_turn_credentials_def check_ok_error_def dead_call_json_def vk_error_message_def is_fatal_call_error_def
      is_fatal_call_code_def I64_MAX_def auth_eval)

text \<open>The preview of a call that was ended.\<close>

definition example_answers :: "nat \<Rightarrow> answer" where
  "example_answers step =
     (if step = 1 then Inr (J_object [(code_points ''response'', J_object [text_field ''token'' ''t''])])
      else Inr (J_object [(code_points ''error'', dead_call_json)]))"

definition example_inputs :: auth_inputs where
  "example_inputs = \<lparr>ai_seed = None, ai_broker = None, ai_calls = calls_from (\<lambda>_. []) (\<lambda>_. None) (\<lambda>_. example_answers),
     ai_legacy = (\<lambda>_. Client_failed []), ai_clients = 1, ai_now = 0, ai_failed_at = (\<lambda>_. 0)\<rparr>"

definition example_dead_fetch :: fetch_surroundings where
  "example_dead_fetch = \<lparr>fs_pacer = True, fs_unavailable_after_pacer = False,
     fs_answer = fetch_answer_of (\<lambda>_. []) (fst (get_credentials Auth_vkcalls example_inputs 0)), fs_slept = True, fs_jitter = 0\<rparr>"


text \<open>A service that answers all five steps.\<close>

definition good_answers :: "nat \<Rightarrow> answer" where
  "good_answers step =
     (if step = 5 then Inr (J_object [(code_points ''turn_server'', J_object [text_field ''username'' ''u'', text_field ''credential'' ''p'',
          (code_points ''urls'', J_array [J_text [32, 114], J_null])])])
      else Inr (J_object [text_field ''session_key'' ''k'', (code_points ''response'', J_object [text_field ''token'' ''t'',
          text_field ''secret'' ''s'', (code_points ''user_id'', J_number (Unsigned_number 7))])]))"

definition good_inputs :: auth_inputs where
  "good_inputs = example_inputs\<lparr>ai_calls := calls_from (\<lambda>_. []) (\<lambda>_. None) (\<lambda>_. good_answers),
     ai_legacy := legacy_from (\<lambda>_. []) (\<lambda>_. False) (\<lambda>_. None) (\<lambda>_. dead_join_answers)\<rparr>"

lemma fetched_credentials_have_relays_witness:
  "\<exists>c rest. get_credentials Auth_vkcalls good_inputs 0 = (Inr c, rest)
     \<and> (ai_seed good_inputs = Some c \<or> ai_broker good_inputs = Some (Inr c)
        \<or> (se_addresses c \<noteq> [] \<and> list_all is_supported_turn_uri (se_addresses c)))"
proof -
  let ?c = "\<lparr>se_username = code_points ''u'', se_password = code_points ''p'', se_addresses = [[114]]\<rparr>"
  have uri: "is_supported_turn_uri [114]" "trim_with is_whitespace [32, 114] = [114]"
    by (simp_all add: is_supported_turn_uri_def parse_turn_uri_def split_scheme_def trim_with_def is_whitespace_def
        to_ascii_lowercase_def starts_with_def code_points_def)
  have "vk_calls_path (\<lambda>_. []) None good_answers = Inr ?c"
    using uri by (simp add: vk_calls_path_def good_answers_def answered_def checked_def found_def check_vk_error_def
        check_ok_error_def parse_turn_credentials_def map_filter_simps auth_eval) 
  then have got: "get_credentials Auth_vkcalls good_inputs 0 = (Inr ?c, 0, 1, 0)"
    by (simp add: get_credentials_def good_inputs_def example_inputs_def vk_calls_with_retries_def calls_from_def)
  have "ai_calls good_inputs = calls_from (\<lambda>_. []) (\<lambda>_. None) (\<lambda>_. good_answers)"
    "ai_legacy good_inputs = legacy_from (\<lambda>_. []) (\<lambda>_. False) (\<lambda>_. None) (\<lambda>_. dead_join_answers)"
    by (simp_all add: good_inputs_def)
  from fetched_credentials_have_relays [OF got this] got show ?thesis by blast
qed

end
