(* ===== verification/Engine.thy ===== *)
theory Engine
  imports Auth Obfs Protocol Packet_Buf
begin

text \<open>
  The engine around its components, \<open>lib.rs\<close>, and the interface of the host to it, \<open>ffi.rs\<close>: arguments and
  configuration with every guard, the number of workers, the address of the peer, the control channel, the
  configurations the server sends, and the calls of the host with the state they share. Where \<open>run\<close>
  awaits something of another component, its outcome is an input. Error texts are constructors.
\<close>

section \<open>How many workers\<close>

definition GROUPS_PER_VK_HASH :: nat where "GROUPS_PER_VK_HASH = 3"
definition MAX_VK_HASHES :: nat where "MAX_VK_HASHES = 6"
definition MAX_WORKERS :: nat where "MAX_WORKERS = 126"
definition STREAMS_PER_RUNTIME_WORKER :: nat where "STREAMS_PER_RUNTIME_WORKER = 12"
definition MAX_RUNTIME_WORKER_THREADS :: nat where "MAX_RUNTIME_WORKER_THREADS = 4"

lemmas engine_consts = GROUPS_PER_VK_HASH_def MAX_VK_HASHES_def MAX_WORKERS_def STREAMS_PER_RUNTIME_WORKER_def
  MAX_RUNTIME_WORKER_THREADS_def

definition clamp :: "nat \<Rightarrow> nat \<Rightarrow> nat \<Rightarrow> nat" where
  "clamp lo hi n = max lo (min hi n)"

definition div_ceil :: "nat \<Rightarrow> nat \<Rightarrow> nat" where
  "div_ceil n d = (n + d - 1) div d"

definition normalize_worker_count :: "nat \<Rightarrow> nat" where
  "normalize_worker_count wanted = clamp WORKERS_PER_GROUP MAX_WORKERS wanted div WORKERS_PER_GROUP * WORKERS_PER_GROUP"

definition normalize_worker_count_for_hashes :: "nat \<Rightarrow> nat \<Rightarrow> bool \<Rightarrow> nat" where
  "normalize_worker_count_for_hashes wanted hash_count allow_hash_redistribution =
     (if allow_hash_redistribution then normalize_worker_count wanted
      else min (normalize_worker_count wanted)
             (clamp 1 MAX_VK_HASHES hash_count * GROUPS_PER_VK_HASH * WORKERS_PER_GROUP))"

definition runtime_worker_threads :: "nat \<Rightarrow> nat" where
  "runtime_worker_threads requested_workers =
     clamp 1 MAX_RUNTIME_WORKER_THREADS (div_ceil (normalize_worker_count requested_workers) STREAMS_PER_RUNTIME_WORKER)"

definition required_js_ready_bots :: "nat \<Rightarrow> nat" where
  "required_js_ready_bots groups = clamp 1 2 (div_ceil groups GROUPS_PER_CREDENTIAL)"

definition should_leave_js_creator :: "bool \<Rightarrow> bool \<Rightarrow> bool" where
  "should_leave_js_creator js_hash_mode js_auth_mode = False"

text \<open>
  The credentials that report ready, until enough different ones have; a received \<open>None\<close> is the closed
  channel. The answer is \<open>None\<close> while the task waits.
\<close>

fun wait_for_js_credential_readiness :: "nat \<Rightarrow> nat list \<Rightarrow> (bool \<times> nat option) list \<Rightarrow> bool option" where
  "wait_for_js_credential_readiness expected ready events =
     (if expected \<le> length ready then Some (length ready = expected)
      else case events of
        [] \<Rightarrow> None
      | (cancelled, received) # events \<Rightarrow>
          if cancelled then Some (length ready = expected)
          else case received of
            None \<Rightarrow> Some (length ready = expected)
          | Some credential \<Rightarrow> wait_for_js_credential_readiness expected (List.insert credential ready) events)"

declare wait_for_js_credential_readiness.simps [simp del]

section \<open>Arguments\<close>

record arguments =
  ar_turn :: chars
  ar_port :: chars
  ar_listen :: chars
  ar_vk :: chars
  ar_vk_hash_mode :: chars
  ar_vk_js_token :: chars
  ar_peer :: chars
  ar_workers :: nat
  ar_allow_hash_redistribution :: bool
  ar_device_id :: chars
  ar_password :: chars
  ar_vk_auth_mode :: chars
  ar_captcha_mode :: chars
  ar_fingerprint :: chars
  ar_client_ids :: chars
  ar_obfs :: chars
  ar_turn_transport :: chars
  ar_generation :: nat
  ar_salt :: chars
  ar_tun_uds :: chars
  ar_packet_bridge :: bool
  ar_validate_vk_hashes :: bool
  ar_http_proxy :: chars
  ar_idle_workers :: nat
  ar_idle_after_secs :: nat
  ar_fec_duplicate :: bool

definition cli_flags :: "string list" where
  "cli_flags = [''turn'', ''port'', ''listen'', ''vk'', ''vk-hash-mode'', ''peer'', ''device-id'', ''password'', ''vk-auth-mode'',
     ''captcha-mode'', ''fingerprint'', ''client-ids'', ''obfs'', ''turn-transport'', ''gen'', ''salt'', ''tun-uds'',
     ''allow-hash-redistribution'', ''validate-vk-hashes'']"

definition normalize_cli_argument :: "chars \<Rightarrow> chars" where
  "normalize_cli_argument argument =
     (case argument of
        c # value \<Rightarrow>
          if c = 45 \<and> \<not> starts_with value [45] \<and> truncate_at (\<lambda>c. c = 61) value \<in> set (map code_points cli_flags)
          then 45 # argument else argument
      | [] \<Rightarrow> argument)"

section \<open>The address of the peer\<close>

text \<open>
  At most fifteen lookups, a second apart; \<open>answer\<close> gives their results. The cache holds the last peer that
  was resolved and its address. The count of lookups made is returned with the result.
\<close>

type_synonym 'a peer_cache = "(chars \<times> 'a) option"

definition cached_peer :: "chars \<Rightarrow> 'a peer_cache \<Rightarrow> 'a option" where
  "cached_peer peer cache = (case cache of Some (p, a) \<Rightarrow> if p = peer then Some a else None | None \<Rightarrow> None)"

fun resolve_attempts :: "chars \<Rightarrow> (nat \<Rightarrow> 'e + 'a) \<Rightarrow> nat \<Rightarrow> nat \<Rightarrow> 'a peer_cache \<Rightarrow> ('e option + 'a) \<times> 'a peer_cache \<times> nat" where
  "resolve_attempts peer answer 0 attempt cache =
     (case cached_peer peer cache of
        Some a \<Rightarrow> (Inr a, cache, attempt)
      | None \<Rightarrow> (Inl (if attempt = 0 then None else (case answer (attempt - 1) of Inl e \<Rightarrow> Some e | Inr _ \<Rightarrow> None)), cache, attempt))"
| "resolve_attempts peer answer (Suc remaining) attempt cache =
     (case answer attempt of
        Inr a \<Rightarrow> (Inr a, Some (peer, a), attempt + 1)
      | Inl e \<Rightarrow>
          (case (if attempt \<ge> 1 then cached_peer peer cache else None) of
             Some a \<Rightarrow> (Inr a, cache, attempt + 1)
           | None \<Rightarrow> resolve_attempts peer answer remaining (attempt + 1) cache))"

definition resolve_peer :: "chars \<Rightarrow> (nat \<Rightarrow> 'e + 'a) \<Rightarrow> 'a peer_cache \<Rightarrow> ('e option + 'a) \<times> 'a peer_cache \<times> nat" where
  "resolve_peer peer answer cache = resolve_attempts peer answer 15 0 cache"

section \<open>Starting\<close>

text \<open>
  What \<open>run\<close> awaits before it starts the workers: the lookups of the peer, the key (the HKDF of a library),
  the bootstrap of the account mode and the hashes of its calls, the start of the dispatcher.
\<close>

datatype ('e, 'a) run_error =
    Js_auth_without_js_hashes
  | Peer_or_hashes_missing
  | Password_missing
  | Peer_unresolved "'e option"
  | Bad_obfs
  | Bad_transport endpoint_error
  | Bad_key 'e
  | Bad_bootstrap 'e
  | No_hashes
  | No_hashes_to_check
  | Bad_dispatcher 'e

record ('e, 'a) run_inputs =
  ri_lookup :: "nat \<Rightarrow> 'e + 'a"
  ri_key :: "'e option"
  ri_bootstrap :: "'e option"
  ri_js_hashes :: "'e + chars list"
  ri_dispatcher :: "'e option"

record 'a run_plan =
  rp_peer :: 'a
  rp_mode :: obfs_mode
  rp_transport :: transport_mode
  rp_hashes :: "chars list"
  rp_workers :: nat
  rp_groups :: nat
  rp_client_ids :: "chars list"
  rp_pool_size :: nat
  rp_turn_host :: "chars option"
  rp_turn_port :: "chars option"
  rp_idle_keep :: nat
  rp_idle_after_secs :: nat

definition given :: "chars \<Rightarrow> chars option" where
  "given s = (if s = [] then None else Some s)"

text \<open>\<open>Vec::join\<close> with commas.\<close>

fun join_commas :: "chars list \<Rightarrow> chars" where
  "join_commas [] = []"
| "join_commas [s] = s"
| "join_commas (s # ss) = s @ 44 # join_commas ss"

definition mode_named :: "chars \<Rightarrow> obfs_mode option" where
  "mode_named value =
     (case find (\<lambda>name. code_points name = value) [''audio'', ''video''] of
        None \<Rightarrow> None
      | Some name \<Rightarrow> Obfs.parse_mode name)"

definition split_client_ids :: "chars \<Rightarrow> chars list" where
  "split_client_ids s = filter (\<lambda>v. v \<noteq> []) (map (trim_with is_whitespace) (split_at (\<lambda>c. c = 44) s))"

definition hash_source :: "arguments \<Rightarrow> ('e, 'a) run_inputs \<Rightarrow> ('e, 'a) run_error + chars" where
  "hash_source a i =
     (if ar_vk_hash_mode a = code_points ''auto_js'' then
        (case (if trim_with is_whitespace (ar_vk_js_token a) \<noteq> [] then None else ri_bootstrap i) of
           Some e \<Rightarrow> Inl (Bad_bootstrap e)
         | None \<Rightarrow> (case ri_js_hashes i of Inl e \<Rightarrow> Inl (Bad_bootstrap e) | Inr hashes \<Rightarrow> Inr (join_commas hashes)))
      else Inr (ar_vk a))"

definition make_plan :: "arguments \<Rightarrow> 'a \<Rightarrow> obfs_mode \<Rightarrow> transport_mode \<Rightarrow> chars list \<Rightarrow> 'a run_plan" where
  "make_plan a peer mode transport hashes =
     (let js = (ar_vk_hash_mode a = code_points ''auto_js'');
          workers = normalize_worker_count_for_hashes (ar_workers a) (length hashes) (ar_allow_hash_redistribution a \<or> js)
      in \<lparr>rp_peer = peer, rp_mode = mode, rp_transport = transport, rp_hashes = hashes, rp_workers = workers,
          rp_groups = workers div WORKERS_PER_GROUP, rp_client_ids = split_client_ids (ar_client_ids a),
          rp_pool_size = packet_pool_size workers, rp_turn_host = given (ar_turn a), rp_turn_port = given (ar_port a),
          rp_idle_keep = ar_idle_workers a, rp_idle_after_secs = max (ar_idle_after_secs a) 30\<rparr>)"

definition run_guards :: "arguments \<Rightarrow> ('e, 'a) run_error option" where
  "run_guards a =
     (let js_hash_mode = (ar_vk_hash_mode a = code_points ''auto_js''); js_auth_mode = (ar_vk_auth_mode a = code_points ''auto_js'')
      in if js_auth_mode \<and> \<not> js_hash_mode then Some Js_auth_without_js_hashes
         else if ar_peer a = [] \<or> (\<not> js_hash_mode \<and> ar_vk a = []) then Some Peer_or_hashes_missing
         else if ar_password a = [] then Some Password_missing
         else None)"

definition run_setup :: "arguments \<Rightarrow> ('e, 'a) run_inputs \<Rightarrow> 'a peer_cache \<Rightarrow> (('e, 'a) run_error + 'a run_plan) \<times> 'a peer_cache" where
  "run_setup a i cache =
     (case run_guards a of
        Some e \<Rightarrow> (Inl e, cache)
      | None \<Rightarrow>
          case resolve_peer (ar_peer a) (ri_lookup i) cache of
            (Inl e, cache, _) \<Rightarrow> (Inl (Peer_unresolved e), cache)
          | (Inr peer, cache, _) \<Rightarrow>
              (case mode_named (ar_obfs a) of
                 None \<Rightarrow> Inl Bad_obfs
               | Some mode \<Rightarrow>
              case Turn_Endpoint.parse_mode (ar_turn_transport a) of
                 Inl e \<Rightarrow> Inl (Bad_transport e)
               | Inr transport \<Rightarrow>
              case ri_key i of
                 Some e \<Rightarrow> Inl (Bad_key e)
               | None \<Rightarrow>
              case hash_source a i of
                 Inl e \<Rightarrow> Inl e
               | Inr source \<Rightarrow>
                  let hashes = take MAX_VK_HASHES (parse_hashes source) in
                  if hashes = [] then Inl No_hashes
                  else case ri_dispatcher i of
                    Some e \<Rightarrow> Inl (Bad_dispatcher e)
                  | None \<Rightarrow> Inr (make_plan a peer mode transport hashes), cache))"

text \<open>\<open>run_vk_hash_validation\<close>: the hashes that are checked, each with its result.\<close>

definition run_vk_hash_validation :: "arguments \<Rightarrow> (chars \<Rightarrow> hash_check) \<Rightarrow> ('e, 'a) run_error + (chars \<times> hash_check) list" where
  "run_vk_hash_validation a check =
     (let hashes = take MAX_VK_HASHES (parse_hashes (ar_vk a))
      in if hashes = [] then Inl No_hashes_to_check else Inr (map (\<lambda>hash. (hash, check hash)) hashes))"

section \<open>The control channel\<close>

datatype control_input = Control_line chars | Control_closed | Control_error | Control_cancelled

record control_state =
  ct_paused :: bool
  ct_cancelled :: bool
  ct_finish_js_calls :: bool
  ct_results :: "chars list"

text \<open>
  The task reads lines until it returns; \<open>control_required\<close> is whether events are enabled. \<open>submit\<close> is the
  channel to the solver, which takes one result at a time. The flag says whether the task goes on.
\<close>

definition control_line :: "(chars list \<Rightarrow> bool) \<Rightarrow> chars \<Rightarrow> control_state \<Rightarrow> bool \<times> control_state" where
  "control_line accepts line s =
     (let line = trim_with is_whitespace line
      in if line = code_points ''PAUSE'' then (True, s\<lparr>ct_paused := True\<rparr>)
         else if line = code_points ''RESUME'' then (True, s\<lparr>ct_paused := False\<rparr>)
         else if line = code_points ''FINISH_VK_CALLS'' then (True, s\<lparr>ct_finish_js_calls := True\<rparr>)
         else if line = code_points ''STOP'' then (False, s\<lparr>ct_cancelled := True\<rparr>)
         else case strip_prefix line (code_points ''CAPTCHA_RESULT|'') of
           None \<Rightarrow> (True, s)
         | Some result \<Rightarrow> (True, if accepts (ct_results s) then s\<lparr>ct_results := ct_results s @ [result]\<rparr> else s))"

fun control_loop :: "bool \<Rightarrow> (chars list \<Rightarrow> bool) \<Rightarrow> control_input list \<Rightarrow> control_state \<Rightarrow> control_state" where
  "control_loop control_required accepts [] s = s"
| "control_loop control_required accepts (Control_cancelled # inputs) s = s"
| "control_loop control_required accepts (Control_closed # inputs) s = (if control_required then s\<lparr>ct_cancelled := True\<rparr> else s)"
| "control_loop control_required accepts (Control_error # inputs) s = (if control_required then s\<lparr>ct_cancelled := True\<rparr> else s)"
| "control_loop control_required accepts (Control_line line # inputs) s =
     (case control_line accepts line s of
        (True, s) \<Rightarrow> control_loop control_required accepts inputs s
      | (False, s) \<Rightarrow> s)"

text \<open>The task that watches the parent process: the identifiers it reads every two seconds, until it is cancelled.\<close>

fun parent_monitor :: "nat \<Rightarrow> nat list \<Rightarrow> bool" where
  "parent_monitor parent [] = False"
| "parent_monitor parent (read # reads) = (read \<noteq> parent \<or> parent_monitor parent reads)"

section \<open>Configurations\<close>

text \<open>What the task that receives configurations keeps and announces; \<open>cf_woken\<close> counts its wake-ups of the ready notify.\<close>

record config_state =
  cf_last :: "chars option"
  cf_tunnel_active :: bool
  cf_ip :: chars
  cf_dns :: chars
  cf_woken :: nat
  cf_events :: "chars list"

text \<open>\<open>splitn(3, ':')\<close>: the first two fields, empty when there is none.\<close>

definition first_fields :: "chars \<Rightarrow> chars \<times> chars" where
  "first_fields value =
     (case split_once 58 value of
        None \<Rightarrow> (value, [])
      | Some (ip, rest) \<Rightarrow> (ip, case split_once 58 rest of None \<Rightarrow> rest | Some (dns, _) \<Rightarrow> dns))"

definition receive_config :: "chars \<Rightarrow> config_state \<Rightarrow> config_state" where
  "receive_config config s =
     (if cf_last s = Some config then s
      else
        let s = (case strip_prefix config (code_points ''TUNCONF:'') of
              None \<Rightarrow> s
            | Some value \<Rightarrow>
                (case first_fields value of
                   (ip, dns) \<Rightarrow> s\<lparr>cf_tunnel_active := True, cf_ip := ip, cf_dns := dns, cf_woken := cf_woken s + 1\<rparr>))
        in s\<lparr>cf_events := cf_events s @ [config], cf_last := Some config\<rparr>)"

definition new_config_state :: config_state where
  "new_config_state = \<lparr>cf_last = None, cf_tunnel_active = False, cf_ip = [], cf_dns = [], cf_woken = 0, cf_events = []\<rparr>"

section \<open>The configuration of the host\<close>

record seed_json =
  sj_hash :: chars
  sj_username :: chars
  sj_password :: chars
  sj_server_addrs :: "chars list"

record engine_json =
  ej_peer :: chars
  ej_password :: chars
  ej_hashes :: chars
  ej_vk_hash_mode :: chars
  ej_vk_js_token :: chars
  ej_workers :: nat
  ej_device_id :: chars
  ej_captcha_mode :: chars
  ej_vk_auth_mode :: chars
  ej_obfs :: chars
  ej_turn_transport :: chars
  ej_fingerprint :: chars
  ej_allow_hash_redistribution :: bool
  ej_generation :: nat
  ej_salt :: chars
  ej_http_proxy :: chars
  ej_packet_bridge :: bool
  ej_idle_workers :: "nat option"
  ej_idle_after_secs :: "nat option"
  ej_fec_duplicate :: bool
  ej_turn_seed :: "seed_json list"

datatype host_error = Config_unreadable | Peer_and_password_required | Js_token_required | Vk_hashes_required

definition or_default :: "chars \<Rightarrow> string \<Rightarrow> chars" where
  "or_default s d = (if s = [] then code_points d else s)"

definition json_hash_mode :: "engine_json \<Rightarrow> chars" where
  "json_hash_mode cfg =
     (if trim_with is_whitespace (ej_vk_hash_mode cfg) = []
      then (if trim_with is_whitespace (ej_hashes cfg) = [] then code_points ''auto_js'' else code_points ''manual'')
      else to_ascii_lowercase (trim_with is_whitespace (ej_vk_hash_mode cfg)))"

definition install_seeds :: "seed_json list \<Rightarrow> seeds \<Rightarrow> seeds" where
  "install_seeds = fold (\<lambda>j. install_seed (sj_hash j) (sj_username j) (sj_password j) (sj_server_addrs j))"

text \<open>The decoded configuration, \<open>None\<close> for text that is no such JSON; the answer comes with the seeds installed.\<close>

definition arguments_from_json :: "engine_json option \<Rightarrow> seeds \<Rightarrow> (host_error + arguments) \<times> seeds" where
  "arguments_from_json json s =
     (case json of
        None \<Rightarrow> (Inl Config_unreadable, s)
      | Some cfg \<Rightarrow>
          if trim_with is_whitespace (ej_peer cfg) = [] \<or> trim_with is_whitespace (ej_password cfg) = []
          then (Inl Peer_and_password_required, s)
          else let hash_mode = json_hash_mode cfg in
            if hash_mode = code_points ''auto_js'' \<and> trim_with is_whitespace (ej_vk_js_token cfg) = [] then (Inl Js_token_required, s)
            else if hash_mode \<noteq> code_points ''auto_js'' \<and> trim_with is_whitespace (ej_hashes cfg) = [] then (Inl Vk_hashes_required, s)
            else
              (Inr \<lparr>ar_turn = [], ar_port = [], ar_listen = code_points ''127.0.0.1:0'', ar_vk = ej_hashes cfg,
                 ar_vk_hash_mode = hash_mode, ar_vk_js_token = ej_vk_js_token cfg, ar_peer = ej_peer cfg,
                 ar_workers = (if ej_workers cfg = 0 then 18 else ej_workers cfg),
                 ar_allow_hash_redistribution = (hash_mode = code_points ''auto_js'' \<or> ej_allow_hash_redistribution cfg),
                 ar_device_id = or_default (ej_device_id cfg) ''antinet'', ar_password = ej_password cfg,
                 ar_vk_auth_mode = or_default (ej_vk_auth_mode cfg) ''vkcalls'',
                 ar_captcha_mode = or_default (ej_captcha_mode cfg) ''auto'',
                 ar_fingerprint = or_default (ej_fingerprint cfg) ''firefox'', ar_client_ids = code_points ''8202606,6287487'',
                 ar_obfs = or_default (ej_obfs cfg) ''video'', ar_turn_transport = or_default (ej_turn_transport cfg) ''udp'',
                 ar_generation = ej_generation cfg, ar_salt = ej_salt cfg, ar_tun_uds = [], ar_packet_bridge = ej_packet_bridge cfg,
                 ar_validate_vk_hashes = False, ar_http_proxy = ej_http_proxy cfg,
                 ar_idle_workers = (case ej_idle_workers cfg of None \<Rightarrow> 2 | Some n \<Rightarrow> n),
                 ar_idle_after_secs = (case ej_idle_after_secs cfg of None \<Rightarrow> 180 | Some n \<Rightarrow> n),
                 ar_fec_duplicate = ej_fec_duplicate cfg\<rparr>,
               install_seeds (ej_turn_seed cfg) (clear_seeds s)))"

section \<open>The calls of the host\<close>

text \<open>
  A string into a buffer of \<open>n\<close> bytes, with its final zero: the answer and what the buffer holds then at its
  start. A null pointer is \<open>None\<close>.
\<close>

definition write_cstr :: "bytes \<Rightarrow> bool \<Rightarrow> int \<Rightarrow> int \<times> bytes" where
  "write_cstr src is_null n =
     (if is_null \<or> n \<le> 0 then (-1, [])
      else if 0 \<in> set src then (-1, [])
      else if int (length src) + 1 > n then (-1, [])
      else (0, src @ [0]))"

text \<open>
  The state the calls share with the running engine. A cancellation token is a number; \<open>eg_tokens\<close> holds the
  cancelled ones.
\<close>

record engine_globals =
  eg_cancel :: "nat option"
  eg_cancelled :: "nat set"
  eg_pause :: "bool option"
  eg_port :: nat
  eg_bridge :: bool
  eg_tun_ip :: chars
  eg_tun_dns :: chars
  eg_starts :: nat

text \<open>A text that cannot be read at all, a null pointer or not UTF-8, is the outer \<open>None\<close>.\<close>

definition engine_start :: "engine_json option option \<Rightarrow> seeds \<Rightarrow> engine_globals \<Rightarrow> int \<times> seeds \<times> engine_globals" where
  "engine_start raw seeds g =
     (case raw of None \<Rightarrow> (-1, seeds, g) | Some json \<Rightarrow>
      case arguments_from_json json seeds of
        (Inl _, seeds) \<Rightarrow> (-2, seeds, g)
      | (Inr _, seeds) \<Rightarrow>
          (0, seeds, g\<lparr>eg_port := 0, eg_bridge := False, eg_tun_ip := [], eg_tun_dns := [], eg_starts := eg_starts g + 1\<rparr>))"

text \<open>\<open>run\<close> enters its token and its gate when it has its hashes, and takes the gate out when it ends.\<close>

definition publish_token :: "nat \<Rightarrow> engine_globals \<Rightarrow> engine_globals" where
  "publish_token token g = g\<lparr>eg_cancel := Some token\<rparr>"

definition publish_gate :: "engine_globals \<Rightarrow> engine_globals" where
  "publish_gate g = g\<lparr>eg_pause := Some False\<rparr>"

definition engine_stop :: "engine_globals \<Rightarrow> engine_globals" where
  "engine_stop g =
     g\<lparr>eg_pause := None, eg_cancelled := (case eg_cancel g of None \<Rightarrow> eg_cancelled g | Some t \<Rightarrow> insert t (eg_cancelled g)),
       eg_bridge := False\<rparr>"

definition engine_set_paused :: "int \<Rightarrow> engine_globals \<Rightarrow> engine_globals" where
  "engine_set_paused paused g = g\<lparr>eg_pause := map_option (\<lambda>_. paused \<noteq> 0) (eg_pause g)\<rparr>"

definition engine_ready :: "engine_globals \<Rightarrow> bool" where
  "engine_ready g \<longleftrightarrow> eg_tun_ip g \<noteq> [] \<and> (eg_port g \<noteq> 0 \<or> eg_bridge g)"

text \<open>\<open>wait_ready\<close> on what it reads at its polls before the deadline, and after it.\<close>

definition engine_wait_ready :: "engine_globals list \<Rightarrow> engine_globals \<Rightarrow> int" where
  "engine_wait_ready polls final = (if list_ex engine_ready polls \<or> engine_ready final then 0 else -1)"

text \<open>The packets of a burst that are handed on: a pointer and a length each, \<open>None\<close> a null pointer.\<close>

definition batch_packets :: "(bytes option \<times> int) list \<Rightarrow> bytes list" where
  "batch_packets entries =
     List.map_filter (\<lambda>(p, len). case p of None \<Rightarrow> None | Some bs \<Rightarrow> if len \<le> 0 then None else Some (take (nat len) bs)) entries"

section \<open>Worker counts fit\<close>

lemma normalize_worker_count_eq:
  "\<exists>k. normalize_worker_count wanted = k * WORKERS_PER_GROUP \<and> 1 \<le> k \<and> k \<le> 14"
proof -
  let ?k = "clamp WORKERS_PER_GROUP MAX_WORKERS wanted div WORKERS_PER_GROUP"
  have "9 div 9 \<le> clamp 9 126 wanted div (9::nat)" "clamp 9 126 wanted div 9 \<le> 126 div (9::nat)"
    by (rule div_le_mono, simp add: clamp_def)+
  then show ?thesis
    by (intro exI [of _ ?k]) (simp add: normalize_worker_count_def credential_consts MAX_WORKERS_def)
qed

lemma worker_count_for_hashes_eq:
  "\<exists>k. normalize_worker_count_for_hashes wanted hash_count allow = k * WORKERS_PER_GROUP \<and> 1 \<le> k \<and> k \<le> 14"
proof -
  obtain k where k: "normalize_worker_count wanted = k * WORKERS_PER_GROUP" "1 \<le> k" "k \<le> 14"
    using normalize_worker_count_eq by blast
  have "min (k * WORKERS_PER_GROUP) (c * 3 * WORKERS_PER_GROUP) = min k (c * 3) * WORKERS_PER_GROUP" for c
    by (simp add: credential_consts min_def)
  then show ?thesis using k
    by (cases allow) (auto simp: normalize_worker_count_for_hashes_def engine_consts clamp_def intro!: exI [of _ "min k (_ * 3)"])
qed

text \<open>
  Whatever number of workers is asked for, whole groups start and the rest of the engine can name and
  serve them: between one group and 126 workers, no more than the server's messages can name, without
  redistribution at most three groups for each of one to six hashes; their identifiers are exactly the
  numbers from one on, and no credential serves more than eighteen.
\<close>

theorem started_workers_fit:
  "let n = normalize_worker_count_for_hashes wanted hash_count allow;
       layout = worker_layout (n div WORKERS_PER_GROUP) (Suc hash_index)
   in WORKERS_PER_GROUP \<le> n \<and> n \<le> MAX_WORKERS \<and> n mod WORKERS_PER_GROUP = 0 \<and> n \<le> unat MAX_STREAM_WORKERS
     \<and> (if allow then n = normalize_worker_count wanted else n \<le> 27 * clamp 1 6 hash_count)
     \<and> map fst layout = [1 ..< n + 1]
     \<and> length (filter (\<lambda>w. snd w = credential) layout) \<le> WORKERS_PER_CREDENTIAL"
proof -
  let ?n = "normalize_worker_count_for_hashes wanted hash_count allow"
  obtain k where k: "?n = k * WORKERS_PER_GROUP" "1 \<le> k" "k \<le> 14" using worker_count_for_hashes_eq by blast
  have d: "?n div WORKERS_PER_GROUP = k" using k(1) by (simp add: credential_consts)
  have ids: "map fst (worker_layout k (Suc hash_index)) = [1 ..< k * WORKERS_PER_GROUP + 1]" by (rule worker_ids) simp
  have credential: "length (filter (\<lambda>w. snd w = credential) (worker_layout k (Suc hash_index))) \<le> WORKERS_PER_CREDENTIAL"
    using workers_of_credential [of "Suc hash_index" credential k] groups_per_credential [of "Suc hash_index" credential k]
    by (simp add: credential_consts)
  have count: "if allow then ?n = normalize_worker_count wanted else ?n \<le> 27 * clamp 1 6 hash_count"
    by (simp add: normalize_worker_count_for_hashes_def engine_consts credential_consts clamp_def)
  have size: "WORKERS_PER_GROUP \<le> ?n" "?n \<le> MAX_WORKERS" "?n mod WORKERS_PER_GROUP = 0" "?n \<le> unat MAX_STREAM_WORKERS"
    using k by (simp_all add: credential_consts MAX_WORKERS_def MAX_STREAM_WORKERS_def)
  show ?thesis unfolding Let_def d using size count ids credential k(1) by simp
qed

section \<open>Where the peer's address comes from\<close>

text \<open>
  The address of the peer is current or known: it is the answer of the last lookup made, which is then
  remembered, or, after exactly two failed lookups, the remembered address of the same peer; without
  one, all fifteen lookups fail before the start does.
\<close>

lemma resolve_attempts_outcome:
  assumes "resolve_attempts peer answer remaining attempt cache = (r, cache', n)"
    and "cached_peer peer cache \<noteq> None \<Longrightarrow> attempt \<le> 1 \<and> 2 \<le> attempt + remaining"
    and "list_all (\<lambda>k. isl (answer k)) [0 ..< attempt]"
  shows "case r of
      Inr a \<Rightarrow> list_all (\<lambda>k. isl (answer k)) [0 ..< n - 1] \<and> n \<le> attempt + remaining
        \<and> ((answer (n - 1) = Inr a \<and> cache' = Some (peer, a))
           \<or> (isl (answer (n - 1)) \<and> cached_peer peer cache = Some a \<and> cache' = cache \<and> n = 2))
    | Inl _ \<Rightarrow> list_all (\<lambda>k. isl (answer k)) [0 ..< n] \<and> cached_peer peer cache = None \<and> cache' = cache \<and> n = attempt + remaining"
  using assms
proof (induction peer answer remaining attempt cache rule: resolve_attempts.induct)
  case (1 peer answer attempt cache)
  then show ?case by (cases "cached_peer peer cache") auto
next
  case (2 peer answer remaining attempt cache)
  show ?case
  proof (cases "answer attempt")
    case (Inr a)
    then show ?thesis using 2 by auto
  next
    case (Inl e)
    have here: "list_all (\<lambda>k. isl (answer k)) [0 ..< attempt + 1]" using 2(4) Inl by simp
    show ?thesis
    proof (cases "attempt \<ge> 1 \<and> cached_peer peer cache \<noteq> None")
      case True
      then have "attempt = 1" using 2(3) by auto
      then show ?thesis using 2(2,4) Inl True by (auto split: if_splits)
    next
      case False
      then have "resolve_attempts peer answer remaining (attempt + 1) cache = (r, cache', n)"
        using 2(2) Inl by (auto split: if_splits option.splits)
      moreover have "(if attempt \<ge> 1 then cached_peer peer cache else None) = None" using False by auto
      ultimately have "case r of
          Inr a \<Rightarrow> list_all (\<lambda>k. isl (answer k)) [0 ..< n - 1] \<and> n \<le> attempt + 1 + remaining
            \<and> ((answer (n - 1) = Inr a \<and> cache' = Some (peer, a))
               \<or> (isl (answer (n - 1)) \<and> cached_peer peer cache = Some a \<and> cache' = cache \<and> n = 2))
        | Inl _ \<Rightarrow> list_all (\<lambda>k. isl (answer k)) [0 ..< n] \<and> cached_peer peer cache = None \<and> cache' = cache
            \<and> n = attempt + 1 + remaining"
        using 2(3) False by (intro 2(1) [OF Inl _ _ _ here]) auto
      moreover have "attempt + 1 + remaining = attempt + Suc remaining" by simp
      ultimately show ?thesis by metis
    qed
  qed
qed

theorem peer_is_current_or_known:
  "case resolve_peer peer answer cache of
     (Inr a, cache', n) \<Rightarrow> list_all (\<lambda>k. isl (answer k)) [0 ..< n - 1] \<and> n \<le> 15
       \<and> ((answer (n - 1) = Inr a \<and> cache' = Some (peer, a))
          \<or> (isl (answer (n - 1)) \<and> cached_peer peer cache = Some a \<and> cache' = cache \<and> n = 2))
   | (Inl _, cache', n) \<Rightarrow> list_all (\<lambda>k. isl (answer k)) [0 ..< n] \<and> cached_peer peer cache = None \<and> cache' = cache \<and> n = 15"
proof -
  obtain r cache' n where r: "resolve_attempts peer answer 15 0 cache = (r, cache', n)" by (metis prod_cases3)
  show ?thesis
    using resolve_attempts_outcome [OF r] r by (cases r) (auto simp: resolve_peer_def)
qed

section \<open>Configurations are announced once\<close>

definition tunnel_fields :: "chars \<Rightarrow> (chars \<times> chars) option" where
  "tunnel_fields config = map_option first_fields (strip_prefix config (code_points ''TUNCONF:''))"

definition last_tunnel :: "chars list \<Rightarrow> chars \<times> chars" where
  "last_tunnel configs = (case List.map_filter tunnel_fields (rev configs) of [] \<Rightarrow> ([], []) | f # _ \<Rightarrow> f)"

lemma receive_configs:
  "(let s = fold receive_config configs new_config_state
    in cf_events s = remdups_adj configs \<and> (cf_ip s, cf_dns s) = last_tunnel configs
       \<and> cf_last s = (if configs = [] then None else Some (last configs)))"
proof (induction configs rule: rev_induct)
  case Nil
  then show ?case by (simp add: new_config_state_def last_tunnel_def List.map_filter_def)
next
  case (snoc c cs)
  have dup: "remdups_adj (cs @ [c]) = (if cs \<noteq> [] \<and> last cs = c then remdups_adj cs else remdups_adj cs @ [c])"
    by (cases cs rule: rev_cases) (simp_all add: remdups_adj_append_two)
  have same: "last_tunnel (cs @ [c]) = last_tunnel cs" if "cs \<noteq> []" "last cs = c"
  proof -
    have "cs = butlast cs @ [c]" using append_butlast_last_id [OF that(1)] that(2) by simp
    then obtain ds where "cs = ds @ [c]" by blast
    then show ?thesis by (cases "tunnel_fields c") (simp_all add: last_tunnel_def List.map_filter_def)
  qed
  have tunnel: "last_tunnel (cs @ [c]) = (case tunnel_fields c of None \<Rightarrow> last_tunnel cs | Some f \<Rightarrow> f)"
    by (cases "tunnel_fields c") (simp_all add: last_tunnel_def List.map_filter_def)
  show ?case
  proof (cases "cs \<noteq> [] \<and> last cs = c")
    case True
    then show ?thesis using snoc dup same by (simp add: Let_def receive_config_def)
  next
    case False
    then have "cf_last (fold receive_config cs new_config_state) \<noteq> Some c" using snoc by (auto simp: Let_def)
    then have now: "receive_config c (fold receive_config cs new_config_state) =
      (let s = (case strip_prefix c (code_points ''TUNCONF:'') of None \<Rightarrow> fold receive_config cs new_config_state
         | Some value \<Rightarrow> (case first_fields value of (ip, dns) \<Rightarrow> (fold receive_config cs new_config_state)
             \<lparr>cf_tunnel_active := True, cf_ip := ip, cf_dns := dns, cf_woken := cf_woken (fold receive_config cs new_config_state) + 1\<rparr>))
       in s\<lparr>cf_events := cf_events s @ [c], cf_last := Some c\<rparr>)"
      by (simp add: receive_config_def)
    show ?thesis
    proof (cases "strip_prefix c (code_points ''TUNCONF:'')")
      case None
      then show ?thesis using snoc dup False tunnel now by (simp add: Let_def tunnel_fields_def)
    next
      case (Some v)
      then show ?thesis using snoc dup False tunnel now
        by (cases "first_fields v") (simp add: Let_def tunnel_fields_def)
    qed
  qed
qed

text \<open>
  The host hears of every change of the configuration once: the configurations announced are those
  received without the immediate repetitions that several workers and the handshake's repeats bring, in
  order, and the address and the name server it reads are those of the last tunnel configuration.
\<close>

theorem configurations_are_announced_once:
  "let s = fold receive_config configs new_config_state
   in cf_events s = remdups_adj configs
     \<and> (cf_ip s, cf_dns s)
         = (case List.map_filter (\<lambda>config. map_option first_fields (strip_prefix config (code_points ''TUNCONF:''))) (rev configs) of
              [] \<Rightarrow> ([], []) | f # _ \<Rightarrow> f)"
proof -
  have "tunnel_fields = (\<lambda>config. map_option first_fields (strip_prefix config (code_points ''TUNCONF:'')))"
    by (rule ext) (rule tunnel_fields_def)
  then show ?thesis using receive_configs [of configs] by (simp add: Let_def last_tunnel_def)
qed

section \<open>Accepted configurations\<close>

text \<open>
  A configuration the host call accepts passes the guards of \<open>run\<close>, but for one: the account mode of the
  authorization without the account mode of the hashes is refused only after the call has answered
  success.
\<close>

theorem accepted_configuration_passes_the_guards:
  assumes "arguments_from_json (Some cfg) s = (Inr a, s')"
  shows "run_guards a =
    (if ej_vk_auth_mode cfg = code_points ''auto_js'' \<and> json_hash_mode cfg \<noteq> code_points ''auto_js''
     then Some Js_auth_without_js_hashes else None)"
proof -
  have d: "or_default m ''vkcalls'' = code_points ''auto_js'' \<longleftrightarrow> m = code_points ''auto_js''" for m
    by (simp add: or_default_def code_points_def)
  have nil: "trim_with is_whitespace [] = []" by (simp add: trim_with_def)
  have ok: "ej_peer cfg \<noteq> []" "ej_password cfg \<noteq> []" "json_hash_mode cfg \<noteq> code_points ''auto_js'' \<Longrightarrow> ej_hashes cfg \<noteq> []"
    using assms nil by (auto simp: arguments_from_json_def Let_def split: if_splits)
  have "ar_peer a = ej_peer cfg" "ar_password a = ej_password cfg" "ar_vk a = ej_hashes cfg"
    "ar_vk_hash_mode a = json_hash_mode cfg" "ar_vk_auth_mode a = or_default (ej_vk_auth_mode cfg) ''vkcalls''"
    using assms by (auto simp: arguments_from_json_def Let_def split: if_splits)
  then show ?thesis using ok by (auto simp: run_guards_def Let_def d)
qed

lemma accepted_configuration_witness:
  "fst (engine_start (Some (Some \<lparr>ej_peer = [112], ej_password = [112], ej_hashes = [104], ej_vk_hash_mode = [], ej_vk_js_token = [],
     ej_workers = 0, ej_device_id = [], ej_captcha_mode = [], ej_vk_auth_mode = code_points ''auto_js'', ej_obfs = [],
     ej_turn_transport = [], ej_fingerprint = [], ej_allow_hash_redistribution = False, ej_generation = 0, ej_salt = [],
     ej_http_proxy = [], ej_packet_bridge = True, ej_idle_workers = None, ej_idle_after_secs = None, ej_fec_duplicate = True,
     ej_turn_seed = []\<rparr>)) [] g) = 0"
  by (simp add: engine_start_def arguments_from_json_def json_hash_mode_def trim_with_def is_whitespace_def code_points_def)

text \<open>
  The guard compares the mode exactly, the authorization ignores case: with \<open>AUTO_JS\<close> and hashes of
  one's own the guard is passed and the account mode is used without an account.
\<close>

theorem auth_mode_passes_in_capitals:
  assumes "ar_vk_auth_mode a = code_points ''AUTO_JS''" "ar_vk a \<noteq> []" "ar_peer a \<noteq> []" "ar_password a \<noteq> []"
  shows "run_guards a = None \<and> parse_auth_mode (ar_vk_auth_mode a) = Auth_auto_js"
  using assms by (simp add: run_guards_def parse_auth_mode_def code_points_def to_ascii_lowercase_def)

text \<open>A stop that comes before \<open>run\<close> has entered its token does not stop it.\<close>

theorem early_stop_is_lost:
  assumes "eg_cancel g \<noteq> Some token" "token \<notin> eg_cancelled g"
  shows "eg_cancel (publish_token token (engine_stop g)) = Some token
    \<and> token \<notin> eg_cancelled (publish_token token (engine_stop g))"
  using assms by (auto simp: publish_token_def engine_stop_def split: option.splits)

end
