(* ===== verification/Event_Log.thy ===== *)
theory Event_Log
  imports Chars "HOL-Library.Sublist"
begin

text \<open>
  The events the engine reports to its host on the log, \<open>events.rs\<close>, and the statistics it reports among
  them, \<open>stats.rs\<close>: the lines with their JSON payload, the flags that keep an event from being repeated,
  and the detector of bursts of network timeouts. Every operation returns the lines it emits. Instants
  are nanoseconds; the counters of a detector call are changed under its lock, in one step.
\<close>

section \<open>Lines\<close>

datatype payload_value = P_number int | P_text chars | P_bool bool

text \<open>What \<open>serde_json\<close> writes: the members of an object in the order of their keys, texts with their escapes.\<close>

definition hex_char :: "nat \<Rightarrow> nat" where
  "hex_char k = (if k < 10 then 48 + k else 87 + k)"

definition json_escape :: "nat \<Rightarrow> chars" where
  "json_escape c =
     (if c = 34 then [92, 34] else if c = 92 then [92, 92]
      else if c = 8 then [92, 98] else if c = 9 then [92, 116] else if c = 10 then [92, 110]
      else if c = 12 then [92, 102] else if c = 13 then [92, 114]
      else if c < 32 then [92, 117, 48, 48, hex_char (c div 16), hex_char (c mod 16)]
      else [c])"

definition json_text :: "chars \<Rightarrow> chars" where
  "json_text s = 34 # concat (map json_escape s) @ [34]"

definition number_text :: "int \<Rightarrow> chars" where
  "number_text i = (if i < 0 then 45 # digits (nat (- i)) else digits (nat i))"

fun value_text :: "payload_value \<Rightarrow> chars" where
  "value_text (P_number i) = number_text i"
| "value_text (P_text s) = json_text s"
| "value_text (P_bool b) = (if b then code_points ''true'' else code_points ''false'')"

fun members_text :: "(string \<times> payload_value) list \<Rightarrow> chars" where
  "members_text [] = []"
| "members_text [(k, v)] = json_text (code_points k) @ 58 # value_text v"
| "members_text ((k, v) # ms) = json_text (code_points k) @ 58 # value_text v @ 44 # members_text ms"

definition EVENT_PREFIX :: chars where
  "EVENT_PREFIX = code_points ''__CSQTT_EVENT__|''"

definition encode_event :: "string \<Rightarrow> (string \<times> payload_value) list \<Rightarrow> chars" where
  "encode_event kind payload = EVENT_PREFIX @ code_points kind @ 124 # 123 # members_text payload @ [125]"

section \<open>Events\<close>

definition NETWORK_TIMEOUT_BURST_WINDOW :: duration where
  "NETWORK_TIMEOUT_BURST_WINDOW = from_secs 15"

record events =
  ev_enabled :: bool
  ev_panel_restart_emitted :: bool
  ev_network_suspect_emitted :: bool
  ev_network_timeouts :: nat
  ev_window :: "instant option"
  ev_unavailable :: "chars list"

definition new_events :: "bool \<Rightarrow> events" where
  "new_events enabled = \<lparr>ev_enabled = enabled, ev_panel_restart_emitted = False, ev_network_suspect_emitted = False,
     ev_network_timeouts = 0, ev_window = None, ev_unavailable = []\<rparr>"

definition emit :: "string \<Rightarrow> (string \<times> payload_value) list \<Rightarrow> events \<Rightarrow> chars list" where
  "emit kind payload e = (if ev_enabled e then [encode_event kind payload] else [])"

definition emit_ready :: "nat \<Rightarrow> events \<Rightarrow> chars list" where
  "emit_ready worker = emit ''READY'' [(''worker'', P_number (int worker))]"

definition emit_stopped :: "events \<Rightarrow> chars list" where
  "emit_stopped = emit ''STOPPED'' []"

definition emit_process :: "nat \<Rightarrow> events \<Rightarrow> chars list" where
  "emit_process pid = emit ''PROCESS'' [(''pid'', P_number (int pid))]"

definition emit_config :: "chars \<Rightarrow> events \<Rightarrow> chars list" where
  "emit_config config = emit ''CONFIG'' [(''config'', P_text config)]"

definition emit_error :: "chars \<Rightarrow> chars \<Rightarrow> bool \<Rightarrow> events \<Rightarrow> chars list" where
  "emit_error code message fatal =
     emit ''ERROR'' [(''code'', P_text code), (''fatal'', P_bool fatal), (''message'', P_text message)]"

definition emit_stats :: "int \<Rightarrow> int \<Rightarrow> int \<Rightarrow> events \<Rightarrow> chars list" where
  "emit_stats active up down =
     emit ''STATS'' [(''active'', P_number active), (''bytes_down'', P_number down), (''bytes_up'', P_number up)]"

definition emit_active_zero :: "events \<Rightarrow> chars list" where
  "emit_active_zero = emit ''ACTIVE_ZERO'' []"

definition emit_progress :: "chars \<Rightarrow> events \<Rightarrow> chars list" where
  "emit_progress kind = emit ''PROGRESS'' [(''kind'', P_text kind)]"

definition panel_restart :: "events \<Rightarrow> chars list \<times> events" where
  "panel_restart e =
     (if ev_panel_restart_emitted e then [] else emit ''SERVER_RESTART'' [(''source'', P_text (code_points ''panel''))] e,
      e\<lparr>ev_panel_restart_emitted := True\<rparr>)"

definition restart_window :: "instant \<Rightarrow> events \<Rightarrow> events" where
  "restart_window now e =
     (if (case ev_window e of None \<Rightarrow> True | Some started \<Rightarrow> now - started > NETWORK_TIMEOUT_BURST_WINDOW)
      then e\<lparr>ev_window := Some now, ev_network_timeouts := 0, ev_network_suspect_emitted := False\<rparr>
      else e)"

definition network_timeout :: "instant \<Rightarrow> events \<Rightarrow> chars list \<times> events" where
  "network_timeout now e =
     (let e = restart_window now e;
          timeouts = (ev_network_timeouts e + 1) mod 2 ^ 64;
          e = e\<lparr>ev_network_timeouts := timeouts\<rparr>;
          enough = (timeouts \<ge> 6);
          should_emit = (enough \<and> \<not> ev_network_suspect_emitted e)
      in (if should_emit then emit ''NETWORK_SUSPECT'' [] e else [],
          if enough then e\<lparr>ev_network_suspect_emitted := True\<rparr> else e))"

definition network_recovered :: "events \<Rightarrow> events" where
  "network_recovered e = e\<lparr>ev_network_timeouts := 0, ev_network_suspect_emitted := False, ev_window := None\<rparr>"

definition call_unavailable :: "chars \<Rightarrow> int \<Rightarrow> events \<Rightarrow> chars list \<times> events" where
  "call_unavailable hash code e =
     (if hash \<in> set (ev_unavailable e) then ([], e)
      else (emit ''CALL_UNAVAILABLE'' [(''code'', P_number code), (''hash'', P_text hash)] e,
            e\<lparr>ev_unavailable := hash # ev_unavailable e\<rparr>))"

section \<open>Statistics\<close>

record stats_state =
  st_last_up :: int
  st_last_down :: int
  st_last_active :: int
  st_quiet_ticks :: nat

definition new_stats :: stats_state where
  "new_stats = \<lparr>st_last_up = 0, st_last_down = 0, st_last_active = 0, st_quiet_ticks = 0\<rparr>"

definition stats_tick :: "events \<Rightarrow> int \<times> int \<times> int \<Rightarrow> stats_state \<Rightarrow> chars list \<times> stats_state" where
  "stats_tick e counters s =
     (case counters of (active, up, down) \<Rightarrow>
        let unchanged = (active = st_last_active s \<and> up = st_last_up s \<and> down = st_last_down s);
            quiet = (if unchanged \<and> active = 0 then min (st_quiet_ticks s + 1) (2 ^ 32 - 1) else 0);
            s = \<lparr>st_last_up = up, st_last_down = down, st_last_active = active, st_quiet_ticks = quiet\<rparr>
        in (if unchanged \<and> active = 0 \<and> quiet mod 10 \<noteq> 0 then [] else emit_stats active up down e, s))"

section \<open>One line per event\<close>

lemma json_text_printable: "list_all (\<lambda>c. 32 \<le> c) (json_text s)"
proof -
  have "list_all (\<lambda>c. 32 \<le> c) (json_escape c)" for c by (simp add: json_escape_def hex_char_def)
  then show ?thesis by (induction s) (simp_all add: json_text_def)
qed

text \<open>The reading of a JSON text after its opening quotation mark.\<close>

definition unhex :: "nat \<Rightarrow> nat" where
  "unhex c = (if c < 58 then c - 48 else c - 87)"

fun read_text :: "chars \<Rightarrow> (chars \<times> chars) option" where
  "read_text [] = None"
| "read_text (c # s) =
     (if c = 34 then Some ([], s)
      else if c \<noteq> 92 then map_option (\<lambda>(t, rest). (c # t, rest)) (read_text s)
      else case s of
        [] \<Rightarrow> None
      | e # s \<Rightarrow>
          if e = 117 then
            (case s of
               a # b # h # l # s \<Rightarrow>
                 map_option (\<lambda>(t, rest). ((4096 * unhex a + 256 * unhex b + 16 * unhex h + unhex l) # t, rest)) (read_text s)
             | _ \<Rightarrow> None)
          else
            map_option (\<lambda>(t, rest).
              ((if e = 98 then 8 else if e = 116 then 9 else if e = 110 then 10 else if e = 102 then 12
                else if e = 114 then 13 else e) # t, rest)) (read_text s))"

lemma unhex_char: "k < 16 \<Longrightarrow> unhex (hex_char k) = k"
  by (simp add: unhex_def hex_char_def)

lemma read_escape: "read_text (json_escape c @ s) = map_option (\<lambda>(t, rest). (c # t, rest)) (read_text s)"
proof -
  have "16 * (c div 16) + c mod 16 = c" "c < 32 \<Longrightarrow> c div 16 < 16" by simp_all
  then show ?thesis by (auto simp: json_escape_def unhex_char unhex_def [of 48])
qed

lemma read_json_text: "read_text (concat (map json_escape s) @ 34 # rest) = Some (s, rest)"
  by (induction s) (simp_all add: read_escape)

text \<open>
  An event is one line the host can read back: whatever the configuration holds, quotation marks, line
  ends and control characters included, the line of its event has no character below the space, starts
  with the prefix of the events, and reading its text gives the configuration.
\<close>

theorem event_line_carries_its_text:
  "case emit_config config (new_events True) of
     [line] \<Rightarrow> list_all (\<lambda>c. 32 \<le> c) line
       \<and> (\<exists>head rest. line = EVENT_PREFIX @ head @ 34 # rest \<and> read_text rest = Some (config, [125]))
   | _ \<Rightarrow> False"
proof -
  let ?line = "encode_event ''CONFIG'' [(''config'', P_text config)]"
  have line: "emit_config config (new_events True) = [?line]"
    by (simp add: emit_config_def emit_def new_events_def)
  have plain: "list_all (\<lambda>c. 32 \<le> c) ?line"
    using json_text_printable by (simp add: encode_event_def EVENT_PREFIX_def code_points_def)
  have "?line = EVENT_PREFIX @ (code_points ''CONFIG'' @ 124 # 123 # json_text (code_points ''config'') @ [58])
      @ 34 # (concat (map json_escape config) @ 34 # [125])"
    by (simp add: encode_event_def json_text_def)
  moreover have "read_text (concat (map json_escape config) @ 34 # [125]) = Some (config, [125])"
    by (rule read_json_text)
  ultimately have "\<exists>head rest. ?line = EVENT_PREFIX @ head @ 34 # rest \<and> read_text rest = Some (config, [125])"
    by blast
  with plain show ?thesis unfolding line list.case by (rule conjI)
qed

section \<open>Bursts of timeouts\<close>

datatype network_call = Timed_out_at instant | Network_recovered

fun network_step :: "network_call \<Rightarrow> events \<Rightarrow> chars list \<times> events" where
  "network_step (Timed_out_at now) e = network_timeout now e"
| "network_step Network_recovered e = ([], network_recovered e)"

definition network_run :: "network_call list \<Rightarrow> events \<Rightarrow> events" where
  "network_run calls e = fold (\<lambda>c e. snd (network_step c e)) calls e"

text \<open>The timeouts since the last recovery that are at most the window older than the given instant, last first.\<close>

definition recent_timeouts :: "instant \<Rightarrow> network_call list \<Rightarrow> nat" where
  "recent_timeouts now calls =
     length (takeWhile (\<lambda>c. case c of Timed_out_at t \<Rightarrow> now - t \<le> NETWORK_TIMEOUT_BURST_WINDOW | Network_recovered \<Rightarrow> False) (rev calls))"

fun call_times :: "network_call list \<Rightarrow> instant list" where
  "call_times [] = []"
| "call_times (Timed_out_at t # calls) = t # call_times calls"
| "call_times (Network_recovered # calls) = call_times calls"

lemma call_times_append: "call_times (as @ bs) = call_times as @ call_times bs"
  by (induction as rule: call_times.induct) simp_all

text \<open>The counter counts the last calls, all of them timeouts since the start of the window.\<close>

definition counts_since :: "network_call list \<Rightarrow> events \<Rightarrow> bool" where
  "counts_since calls e \<longleftrightarrow>
     (case ev_window e of
        None \<Rightarrow> ev_network_timeouts e = 0
      | Some w \<Rightarrow> w \<in> set (call_times calls)
          \<and> (\<exists>before ts. calls = before @ map Timed_out_at ts \<and> ev_network_timeouts e \<le> length ts \<and> (\<forall>t\<in>set ts. w \<le> t)))"

lemma network_timeout_fields:
  "ev_window (snd (network_timeout now e)) = ev_window (restart_window now e)"
  "ev_network_timeouts (snd (network_timeout now e)) = (ev_network_timeouts (restart_window now e) + 1) mod 2 ^ 64"
  by (simp_all add: network_timeout_def Let_def)

lemma counts_step:
  assumes "counts_since calls e" "sorted (call_times (calls @ [c]))"
  shows "counts_since (calls @ [c]) (snd (network_step c e))"
proof (cases c)
  case Network_recovered
  then show ?thesis by (simp add: network_recovered_def counts_since_def)
next
  case (Timed_out_at now)
  show ?thesis
  proof (cases "case ev_window e of None \<Rightarrow> True | Some started \<Rightarrow> now - started > NETWORK_TIMEOUT_BURST_WINDOW")
    case True
    then have "ev_window (restart_window now e) = Some now" "ev_network_timeouts (restart_window now e) = 0"
      by (simp_all add: restart_window_def)
    then have "ev_window (snd (network_timeout now e)) = Some now" "ev_network_timeouts (snd (network_timeout now e)) = 1"
      unfolding network_timeout_fields by simp_all
    then show ?thesis using Timed_out_at
      by (auto simp: counts_since_def call_times_append intro!: exI [of _ calls] exI [of _ "[now]"])
  next
    case False
    then have same: "restart_window now e = e" by (simp add: restart_window_def)
    obtain w where w: "ev_window e = Some w" using False by (cases "ev_window e") simp_all
    then obtain before ts where ts: "w \<in> set (call_times calls)" "calls = before @ map Timed_out_at ts"
      "ev_network_timeouts e \<le> length ts" "\<forall>t\<in>set ts. w \<le> t"
      using assms(1) by (auto simp: counts_since_def)
    have "w \<le> now" using assms(2) ts(1) Timed_out_at by (simp add: call_times_append sorted_append)
    moreover have "ev_window (snd (network_timeout now e)) = Some w"
      unfolding network_timeout_fields same by (rule w)
    moreover have "ev_network_timeouts (snd (network_timeout now e)) \<le> ev_network_timeouts e + 1"
      unfolding network_timeout_fields same by (rule mod_less_eq_dividend)
    then have "ev_network_timeouts (snd (network_timeout now e)) \<le> length (ts @ [now])"
      using ts(3) by simp
    ultimately show ?thesis using ts Timed_out_at
      by (auto simp: counts_since_def call_times_append intro!: exI [of _ before] exI [of _ "ts @ [now]"])
  qed
qed

lemma counts_run: "sorted (call_times calls) \<Longrightarrow> counts_since calls (network_run calls (new_events enabled))"
proof (induction calls rule: rev_induct)
  case Nil
  then show ?case by (simp add: network_run_def counts_since_def new_events_def)
next
  case (snoc c cs)
  then have "sorted (call_times cs)" by (simp add: call_times_append sorted_append)
  then show ?case using counts_step [OF snoc.IH snoc.prems] by (simp add: network_run_def)
qed

lemma recent_all:
  assumes "\<forall>t\<in>set ts. now - t \<le> NETWORK_TIMEOUT_BURST_WINDOW"
  shows "length ts \<le> recent_timeouts now (before @ map Timed_out_at ts)"
proof -
  have "length xs \<le> length (takeWhile P (xs @ ys))" if "\<forall>x\<in>set xs. P x" for P :: "network_call \<Rightarrow> bool" and xs ys
    using that by (simp add: takeWhile_append2)
  from this [of "rev (map Timed_out_at ts)"] show ?thesis
    using assms by (simp add: recent_timeouts_def)
qed

text \<open>
  The network is suspected for a burst only: whenever a timeout makes the engine report the network as
  suspect, that timeout and at least five before it came in a row, without a recovery between them,
  within fifteen seconds.
\<close>

theorem suspicion_needs_a_burst:
  assumes "sorted (call_times (calls @ [Timed_out_at now]))"
    and "fst (network_timeout now (network_run calls (new_events enabled))) \<noteq> []"
  shows "6 \<le> recent_timeouts now (calls @ [Timed_out_at now])"
proof -
  define e where "e = network_run calls (new_events enabled)"
  have counts: "counts_since calls e"
    unfolding e_def by (rule counts_run) (use assms(1) in \<open>simp add: call_times_append sorted_append\<close>)
  have six: "6 \<le> (ev_network_timeouts (restart_window now e) + 1) mod 2 ^ 64"
    using assms(2) by (auto simp: e_def network_timeout_def Let_def split: if_splits)
  then have "ev_network_timeouts (restart_window now e) \<noteq> 0" by auto
  then obtain w where w: "restart_window now e = e" "ev_window e = Some w" "now - w \<le> NETWORK_TIMEOUT_BURST_WINDOW"
    using counts by (cases "ev_window e") (auto simp: restart_window_def counts_since_def split: if_splits)
  then obtain before ts where ts: "calls = before @ map Timed_out_at ts" "ev_network_timeouts e \<le> length ts" "\<forall>t\<in>set ts. w \<le> t"
    using counts by (auto simp: counts_since_def)
  have "\<forall>t\<in>set (ts @ [now]). now - t \<le> NETWORK_TIMEOUT_BURST_WINDOW"
    using ts(3) w(3) by (auto intro: diff_le_mono2 [THEN le_trans])
  from recent_all [OF this, of before] have "length ts + 1 \<le> recent_timeouts now (calls @ [Timed_out_at now])"
    using ts(1) by simp
  moreover have "6 \<le> length ts + 1"
    using six [unfolded w(1)] ts(2) mod_less_eq_dividend [of "ev_network_timeouts e + 1" "2 ^ 64"] by linarith
  ultimately show ?thesis by linarith
qed

lemma suspicion_needs_a_burst_witness:
  "6 \<le> recent_timeouts 5 (map Timed_out_at [0, 1, 2, 3, 4] @ [Timed_out_at 5])"
  by (rule suspicion_needs_a_burst [where enabled = True])
    (simp_all add: network_run_def new_events_def network_timeout_def restart_window_def NETWORK_TIMEOUT_BURST_WINDOW_def
      from_secs_def emit_def)

text \<open>A burst across the end of a window is split: ten timeouts within eleven seconds are not reported.\<close>

definition seconds :: "nat list \<Rightarrow> network_call list" where
  "seconds = map (\<lambda>n. Timed_out_at (from_secs n))"

theorem burst_across_windows_is_not_reported:
  "ev_network_suspect_emitted (network_run (seconds [0, 11, 12, 13, 14, 16, 17, 18, 19, 20]) (new_events True)) = False
   \<and> recent_timeouts (from_secs 20) (seconds [0, 11, 12, 13, 14, 16, 17, 18, 19, 20]) = 9"
  by (simp add: seconds_def network_run_def new_events_def network_timeout_def restart_window_def recent_timeouts_def
      NETWORK_TIMEOUT_BURST_WINDOW_def from_secs_def)

section \<open>Statistics while nothing happens\<close>

lemma quiet_statistics:
  assumes "st_last_active s = 0" "counters = (0, st_last_up s, st_last_down s)"
  shows "fst (stats_tick e counters s) \<noteq> [] \<longleftrightarrow> ev_enabled e \<and> min (st_quiet_ticks s + 1) (2 ^ 32 - 1) mod 10 = 0"
  using assms by (simp add: stats_tick_def Let_def emit_stats_def emit_def)

end
