(* ===== verification/Vk_Calls.thy ===== *)
theory Vk_Calls
  imports Auth
begin

text \<open>
  The calls made with the account of the user, \<open>vk_js_calls.rs\<close>: opening a session, starting a call,
  asking for relay credentials on behalf of a worker, and leaving or ending the call. The requests are
  recorded in the order in which they are posted; what the service replies to each is an input that may
  depend on all requests so far. The \<open>url\<close>, \<open>serde_json\<close> and \<open>sha2\<close> libraries are parameters, and so are
  the random identifiers.
\<close>

section \<open>Requests\<close>

datatype request_site = Site_vk | Site_ok

record vk_request =
  vq_endpoint :: chars
  vq_fields :: "(string \<times> chars) list"
  vq_site :: request_site

text \<open>A reply is an error of the transport, or a status with a body: its length and, when it parses, its value.\<close>

datatype vk_reply = Reply_lost | Reply_cut | Reply nat nat "json option"

datatype calls_error =
    Send_failed
  | Read_failed
  | Too_large
  | Http_status nat
  | Bad_json
  | Api_error chars chars
  | No_field string
  | No_response
  | Bad_url
  | Insecure_url chars chars
  | No_access_token
  | No_server_time
  | No_join_link
  | Not_run
  | Id_out_of_range nat
  | Repeated_credentials nat
  | Bad_credentials auth_error
  | While string calls_error
  | While_session string nat calls_error

record wire =
  wi_sent :: "vk_request list"
  wi_slept :: "nat list"

type_synonym service = "vk_request list \<Rightarrow> vk_reply"
type_synonym 'a call = "wire \<Rightarrow> (calls_error + 'a) \<times> wire"

definition call_of :: "calls_error + 'a \<Rightarrow> 'a call" where
  "call_of r w = (r, w)"

definition and_then :: "'a call \<Rightarrow> ('a \<Rightarrow> 'b call) \<Rightarrow> 'b call" where
  "and_then m k w = (case m w of (Inl e, w) \<Rightarrow> (Inl e, w) | (Inr x, w) \<Rightarrow> k x w)"

definition while_doing :: "(calls_error \<Rightarrow> calls_error) \<Rightarrow> 'a call \<Rightarrow> 'a call" where
  "while_doing f m w = (case m w of (Inl e, w) \<Rightarrow> (Inl (f e), w) | (Inr x, w) \<Rightarrow> (Inr x, w))"

definition MAX_RESPONSE_BYTES :: nat where "MAX_RESPONSE_BYTES = 512 * 1024"
definition MAX_ACCOUNT_CREDENTIALS :: nat where "MAX_ACCOUNT_CREDENTIALS = 9"

definition post_form :: "service \<Rightarrow> chars \<Rightarrow> (string \<times> chars) list \<Rightarrow> request_site \<Rightarrow> json call" where
  "post_form service endpoint form site w =
     (let sent = wi_sent w @ [\<lparr>vq_endpoint = endpoint, vq_fields = form, vq_site = site\<rparr>];
          w = w\<lparr>wi_sent := sent\<rparr>
      in case service sent of
           Reply_lost \<Rightarrow> (Inl Send_failed, w)
         | Reply_cut \<Rightarrow> (Inl Read_failed, w)
         | Reply status len body \<Rightarrow>
             if len > MAX_RESPONSE_BYTES then (Inl Too_large, w)
             else if \<not> (200 \<le> status \<and> status < 300) then (Inl (Http_status status), w)
             else (case body of None \<Rightarrow> (Inl Bad_json, w) | Some value \<Rightarrow> (Inr value, w)))"

fun retry_loop :: "nat \<Rightarrow> nat \<Rightarrow> calls_error option \<Rightarrow> json call \<Rightarrow> json call" where
  "retry_loop 0 attempt last_error request w =
     (Inl (case last_error of Some e \<Rightarrow> e | None \<Rightarrow> Not_run), w)"
| "retry_loop (Suc remaining) attempt last_error request w =
     (case request w of
        (Inr value, w) \<Rightarrow> (Inr value, w)
      | (Inl e, w) \<Rightarrow>
          retry_loop remaining (attempt + 1) (Some e) request
            (if remaining > 0 then w\<lparr>wi_slept := wi_slept w @ [250 * (attempt + 1)]\<rparr> else w))"

definition retry :: "nat \<Rightarrow> json call \<Rightarrow> json call" where
  "retry attempts request = retry_loop attempts 0 None request"

section \<open>Reading the answers\<close>

fun json_scalar_string :: "json \<Rightarrow> chars option" where
  "json_scalar_string (J_text s) = Some s"
| "json_scalar_string (J_number (Unsigned_number n)) = Some (digits n)"
| "json_scalar_string (J_number (Negative_number i)) = Some (show_code i)"
| "json_scalar_string _ = None"

definition either_key :: "string \<Rightarrow> string \<Rightarrow> json \<Rightarrow> json option" where
  "either_key key key' value = (case json_get key value of None \<Rightarrow> json_get key' value | v \<Rightarrow> v)"

definition text_or :: "chars \<Rightarrow> json option \<Rightarrow> chars" where
  "text_or fallback value = (case Option.bind value as_text of None \<Rightarrow> fallback | Some s \<Rightarrow> s)"

definition check_api_error :: "json \<Rightarrow> unit call" where
  "check_api_error value =
     (let top = (case Option.bind (json_get ''error_code'' value) json_scalar_string of
            None \<Rightarrow> Inr ()
          | Some code \<Rightarrow>
              if code = code_points ''0'' then Inr ()
              else Inl (Api_error code (text_or (code_points ''API error'') (json_get ''error_msg'' value))))
      in call_of (case json_get ''error'' value of
           None \<Rightarrow> top
         | Some error \<Rightarrow>
             if error = J_null \<or> error = J_bool False then top
             else Inl (Api_error
               (case Option.bind (either_key ''error_code'' ''code'' error) json_scalar_string of
                  None \<Rightarrow> code_points ''unknown'' | Some code \<Rightarrow> code)
               (text_or (code_points ''API error'') (either_key ''error_msg'' ''message'' error)))))"

definition required_string :: "json \<Rightarrow> string \<Rightarrow> chars call" where
  "required_string value key =
     call_of (case Option.bind (json_get key value) as_text of
       None \<Rightarrow> Inl (No_field key)
     | Some s \<Rightarrow> if s = [] then Inl (No_field key) else Inr s)"

text \<open>The parts of an address that the \<open>url\<close> library finds.\<close>

record parsed_url =
  ur_scheme :: chars
  ur_username :: chars
  ur_password :: "chars option"
  ur_host :: "chars option"
  ur_port :: "nat option"
  ur_path :: chars
  ur_query :: "chars option"
  ur_fragment :: "chars option"

record calls_library =
  cl_parse_url :: "chars \<Rightarrow> parsed_url option"
  cl_show_url :: "parsed_url \<Rightarrow> chars"
  cl_show_json :: "json \<Rightarrow> chars"
  cl_sha256 :: "bytes \<Rightarrow> bytes"

definition ends_with :: "chars \<Rightarrow> chars \<Rightarrow> bool" where
  "ends_with s ending \<longleftrightarrow> starts_with (rev s) (rev ending)"

definition validated_api_url :: "calls_library \<Rightarrow> chars \<Rightarrow> chars call" where
  "validated_api_url lib value =
     call_of (case cl_parse_url lib value of
       None \<Rightarrow> Inl Bad_url
     | Some parsed \<Rightarrow>
         let host = (case ur_host parsed of None \<Rightarrow> [] | Some h \<Rightarrow> h);
             allowed_host = (host = code_points ''api.ok.ru'' \<or> host = code_points ''okcdn.ru''
               \<or> ends_with host (code_points ''.okcdn.ru''));
             allowed_path = (ur_path parsed \<in> {[], code_points ''/'', code_points ''/fb.do''})
         in if ur_scheme parsed \<noteq> code_points ''https'' \<or> \<not> allowed_host \<or> \<not> allowed_path
               \<or> ur_username parsed \<noteq> [] \<or> ur_password parsed \<noteq> None \<or> ur_port parsed \<noteq> Some 443
               \<or> ur_fragment parsed \<noteq> None \<or> ur_query parsed \<noteq> None
            then Inl (Insecure_url host (ur_path parsed))
            else Inr (cl_show_url lib (parsed\<lparr>ur_path := code_points ''/fb.do''\<rparr>)))"

text \<open>\<open>rsplit('/').next()\<close> is what follows the last slash.\<close>

definition join_hash :: "chars \<Rightarrow> chars option" where
  "join_hash value =
     (let trimmed = rev (dropWhile (\<lambda>c. c = 47) (rev (trim_with is_whitespace value)))
      in if trimmed = [] then None
         else Some (case rsplit_once 47 trimmed of None \<Rightarrow> trimmed | Some (_, hash) \<Rightarrow> hash))"

section \<open>Sessions\<close>

record api_session =
  as_api_url :: chars
  as_session_key :: chars

definition TOKEN_URL :: chars where
  "TOKEN_URL = code_points ''https://api.vk.ru/method/messages.getCallToken?v=5.285&client_id=6287487''"

definition FINISH_URL :: chars where
  "FINISH_URL = code_points ''https://api.vk.ru/method/calls.forceFinish?v=5.285&client_id=6287487''"

definition DEFAULT_OK_API :: chars where
  "DEFAULT_OK_API = code_points ''https://calls.okcdn.ru/fb.do''"

definition OK_APPLICATION_KEY :: chars where
  "OK_APPLICATION_KEY = code_points ''CGMMEJLGDIHBABABA''"

definition ok_fields :: "string \<Rightarrow> (string \<times> chars) list" where
  "ok_fields called = [(''method'', code_points called), (''format'', code_points ''JSON''),
     (''application_key'', OK_APPLICATION_KEY)]"

definition session_data :: "chars \<Rightarrow> chars \<Rightarrow> json" where
  "session_data call_token device = J_object
     [(code_points ''auth_token'', J_text call_token), (code_points ''version'', J_number (Unsigned_number 3)),
      (code_points ''device_id'', J_text device), text_field ''client_version'' ''1.0.1'']"

definition open_account_session :: "calls_library \<Rightarrow> service \<Rightarrow> chars \<Rightarrow> chars \<Rightarrow> api_session call" where
  "open_account_session lib service access_token device =
     and_then (while_doing (While ''messages.getCallToken'') (retry 3 (post_form service TOKEN_URL
       [(''env'', code_points ''production''), (''access_token'', access_token)] Site_vk))) (\<lambda>token_response.
     and_then (check_api_error token_response) (\<lambda>_.
     and_then (call_of (case json_get ''response'' token_response of None \<Rightarrow> Inl No_response | Some r \<Rightarrow> Inr r)) (\<lambda>response.
     and_then (required_string response ''token'') (\<lambda>call_token.
     and_then (validated_api_url lib (text_or DEFAULT_OK_API (json_get ''api_base_url'' response))) (\<lambda>api_url.
     and_then (while_doing (While ''auth.anonymLogin'') (retry 3 (post_form service api_url
       ([(''session_data'', cl_show_json lib (session_data call_token device)), (''device_id'', device),
         (''verification_supported'', code_points ''true''), (''verification_supported_v'', code_points ''1''),
         (''client'', code_points ''test''), (''gen_token'', code_points ''true'')] @ ok_fields ''auth.anonymLogin'') Site_ok))) (\<lambda>login.
     and_then (check_api_error login) (\<lambda>_.
     and_then (required_string login ''session_key'') (\<lambda>session_key.
       call_of (Inr \<lparr>as_api_url = api_url, as_session_key = session_key\<rparr>)))))))))"

section \<open>Credentials of the account\<close>

record credential_broker =
  cb_access_token :: chars
  cb_conversation :: chars

text \<open>UTF-8.\<close>

definition utf8_char :: "nat \<Rightarrow> bytes" where
  "utf8_char c =
     map word_of_nat
      (if c < 0x80 then [c]
       else if c < 0x800 then [0xC0 + c div 64, 0x80 + c mod 64]
       else if c < 0x10000 then [0xE0 + c div 4096, 0x80 + c div 64 mod 64, 0x80 + c mod 64]
       else [0xF0 + c div 262144, 0x80 + c div 4096 mod 64, 0x80 + c div 64 mod 64, 0x80 + c mod 64])"

definition as_bytes :: "chars \<Rightarrow> bytes" where
  "as_bytes s = concat (map utf8_char s)"

definition credential_fingerprint :: "calls_library \<Rightarrow> seed \<Rightarrow> bytes" where
  "credential_fingerprint lib c =
     cl_sha256 lib (as_bytes (se_username c) @ [0] @ as_bytes (se_password c)
       @ concat (map (\<lambda>address. 0 # as_bytes address) (se_addresses c)))"

definition conversation_params_fields :: "chars \<Rightarrow> chars \<Rightarrow> (string \<times> chars) list" where
  "conversation_params_fields conversation session_key =
     [(''conversationId'', conversation)] @ ok_fields ''vchat.getConversationParams'' @ [(''session_key'', session_key)]"

definition checked_post :: "service \<Rightarrow> chars \<Rightarrow> (string \<times> chars) list \<Rightarrow> request_site \<Rightarrow> json call" where
  "checked_post service endpoint form site =
     and_then (post_form service endpoint form site) (\<lambda>value.
     and_then (check_api_error value) (\<lambda>_. call_of (Inr value)))"

text \<open>All but the last step; the answer is the credentials found.\<close>

definition account_credentials :: "calls_library \<Rightarrow> service \<Rightarrow> credential_broker \<Rightarrow> nat \<Rightarrow> chars \<Rightarrow> seed call" where
  "account_credentials lib service broker credential_id device =
     (if \<not> (1 \<le> credential_id \<and> credential_id \<le> MAX_ACCOUNT_CREDENTIALS) then call_of (Inl (Id_out_of_range credential_id))
      else
        and_then (while_doing (While_session ''Auto JS session'' credential_id)
          (open_account_session lib service (cb_access_token broker) device)) (\<lambda>session.
        and_then (while_doing (While_session ''vchat.getConversationParams'' credential_id)
          (retry 3 (checked_post service (as_api_url session)
            (conversation_params_fields (cb_conversation broker) (as_session_key session)) Site_ok))) (\<lambda>params.
        call_of (case parse_turn_credentials params of Inl e \<Rightarrow> Inl (Bad_credentials e) | Inr c \<Rightarrow> Inr c))))"

text \<open>The last step is made under the lock of the set of fingerprints.\<close>

definition issue_once :: "calls_library \<Rightarrow> nat \<Rightarrow> calls_error + seed \<Rightarrow> bytes list \<Rightarrow> (calls_error + seed) \<times> bytes list" where
  "issue_once lib credential_id r issued =
     (case r of
        Inl e \<Rightarrow> (Inl e, issued)
      | Inr c \<Rightarrow>
          if credential_fingerprint lib c \<in> set issued then (Inl (Repeated_credentials credential_id), issued)
          else (Inr c, credential_fingerprint lib c # issued))"

definition broker_credentials :: "calls_library \<Rightarrow> service \<Rightarrow> credential_broker \<Rightarrow> nat \<Rightarrow> chars \<Rightarrow> wire \<Rightarrow> bytes list
    \<Rightarrow> (calls_error + seed) \<times> wire \<times> bytes list" where
  "broker_credentials lib service broker credential_id device w issued =
     (case account_credentials lib service broker credential_id device w of
        (r, w) \<Rightarrow> (case issue_once lib credential_id r issued of (r, issued) \<Rightarrow> (r, w, issued)))"

section \<open>The call\<close>

record active_calls =
  ac_api_url :: chars
  ac_access_token :: chars
  ac_session_key :: chars
  ac_conversations :: "chars list"

text \<open>
  One task for each call; they run side by side, but there is one call only. A task that is cut off by the
  time limit around it has posted the first of its requests only.
\<close>

fun count_finished :: "(chars \<Rightarrow> json call) \<Rightarrow> chars list \<Rightarrow> nat \<Rightarrow> wire \<Rightarrow> nat \<times> wire" where
  "count_finished task [] finished w = (finished, w)"
| "count_finished task (c # cs) finished w =
     (case task c w of (Inr _, w) \<Rightarrow> count_finished task cs (finished + 1) w | (Inl _, w) \<Rightarrow> count_finished task cs finished w)"

definition leave_creator :: "service \<Rightarrow> active_calls \<Rightarrow> wire \<Rightarrow> nat \<times> wire" where
  "leave_creator service active =
     count_finished (\<lambda>conversation. retry 3 (checked_post service (ac_api_url active)
       ([(''conversationId'', conversation), (''reason'', code_points ''HUNGUP'')] @ ok_fields ''vchat.hangupConversation''
         @ [(''session_key'', ac_session_key active)]) Site_ok)) (ac_conversations active) 0"

definition cut_off :: "nat \<Rightarrow> nat \<Rightarrow> wire \<Rightarrow> wire \<Rightarrow> wire" where
  "cut_off requests pauses before after =
     \<lparr>wi_sent = take (length (wi_sent before) + requests) (wi_sent after),
      wi_slept = take (length (wi_slept before) + pauses) (wi_slept after)\<rparr>"

text \<open>\<open>limit\<close> is how far the task got when the time ran out, if it did.\<close>

definition finish_calls :: "service \<Rightarrow> active_calls \<Rightarrow> (nat \<times> nat) option \<Rightarrow> wire \<Rightarrow> nat \<times> wire" where
  "finish_calls service active limit w =
     (case count_finished (\<lambda>conversation. retry 3 (checked_post service FINISH_URL
        [(''call_id'', conversation), (''access_token'', ac_access_token active)] Site_vk)) (ac_conversations active) 0 w of
        (finished, w') \<Rightarrow>
          (case limit of None \<Rightarrow> (finished, w') | Some (requests, pauses) \<Rightarrow> (0, cut_off requests pauses w w')))"

record started_calls =
  sc_hashes :: "chars list"
  sc_active :: active_calls
  sc_broker :: credential_broker

definition call_payload :: json where
  "call_payload = J_object
     [(code_points ''is_video'', J_bool True), (code_points ''with_join_link'', J_bool True),
      (code_points ''join_by_link'', J_bool True), (code_points ''community_user_id'', J_number (Unsigned_number 0)),
      (code_points ''caller_app_id'', J_number (Unsigned_number 6287487))]"

definition start_fields :: "calls_library \<Rightarrow> bool \<Rightarrow> chars \<Rightarrow> chars \<Rightarrow> (string \<times> chars) list" where
  "start_fields lib multiple_devices conversation session_key =
     [(''conversationId'', conversation), (''isVideo'', code_points ''true''),
      (''protocolVersion'', code_points (if multiple_devices then ''6'' else ''5'')),
      (''createJoinLink'', code_points ''true''), (''payload'', cl_show_json lib call_payload),
      (''onlyAdminCanShareMovie'', code_points ''false''), (''externalIds'', [])]
     @ ok_fields ''vchat.startConversation'' @ [(''session_key'', session_key)]"

text \<open>The hash of the answer to \<open>vchat.startConversation\<close>.\<close>

definition call_hash :: "json \<Rightarrow> chars call" where
  "call_hash call =
     and_then (check_api_error call) (\<lambda>_.
       call_of (case Option.bind (Option.bind (json_get ''join_link'' call) as_text) join_hash of
         None \<Rightarrow> Inl No_join_link | Some hash \<Rightarrow> Inr hash))"

definition conversation_hash :: "calls_library \<Rightarrow> service \<Rightarrow> bool \<Rightarrow> chars \<Rightarrow> api_session \<Rightarrow> chars call" where
  "conversation_hash lib service multiple_devices conversation session =
     and_then (retry 3 (post_form service (as_api_url session)
       (start_fields lib multiple_devices conversation (as_session_key session)) Site_ok)) call_hash"

definition start_session :: "calls_library \<Rightarrow> service \<Rightarrow> chars \<Rightarrow> chars \<Rightarrow> api_session call" where
  "start_session lib service access_token device =
     (if trim_with is_whitespace access_token = [] then call_of (Inl No_access_token)
      else and_then (open_account_session lib service access_token device) (\<lambda>session.
        and_then (while_doing (While ''system.getInfo'') (post_form service (as_api_url session)
          (ok_fields ''system.getInfo'' @ [(''session_key'', as_session_key session)]) Site_ok)) (\<lambda>info.
        and_then (check_api_error info) (\<lambda>_.
          call_of (if json_get ''serverTime'' info = None then Inl No_server_time else Inr session)))))"

definition start_calls :: "calls_library \<Rightarrow> service \<Rightarrow> chars \<Rightarrow> chars \<Rightarrow> bool \<Rightarrow> chars \<Rightarrow> (nat \<times> nat) option \<Rightarrow> started_calls call" where
  "start_calls lib service access_token device multiple_devices conversation limit =
     and_then (start_session lib service access_token device) (\<lambda>session w.
       case conversation_hash lib service multiple_devices conversation session w of
         (hash, w) \<Rightarrow>
           (let active = \<lparr>ac_api_url = as_api_url session, ac_access_token = access_token,
                  ac_session_key = as_session_key session, ac_conversations = [conversation]\<rparr>
            in case hash of
                 Inr hash \<Rightarrow>
                   (Inr \<lparr>sc_hashes = [hash], sc_active = active,
                         sc_broker = \<lparr>cb_access_token = access_token, cb_conversation = conversation\<rparr>\<rparr>, w)
               | Inl e \<Rightarrow>
                   (case leave_creator service active w of
                      (_, w') \<Rightarrow> (Inl (While ''vchat.startConversation'' e),
                        case limit of None \<Rightarrow> w' | Some (requests, pauses) \<Rightarrow> cut_off requests pauses w w'))))"

text \<open>
  What the engine does with a started call: workers ask for credentials, and at the end the engine leaves
  the call or ends it.
\<close>

datatype account_op = Ask nat chars | Leave_calls | Finish_calls "(nat \<times> nat) option"

fun account_run :: "calls_library \<Rightarrow> service \<Rightarrow> started_calls \<Rightarrow> account_op list \<Rightarrow> wire \<Rightarrow> bytes list
    \<Rightarrow> (nat \<times> seed) list \<times> wire \<times> bytes list" where
  "account_run lib service started [] w issued = ([], w, issued)"
| "account_run lib service started (Ask credential_id device # ops) w issued =
     (case broker_credentials lib service (sc_broker started) credential_id device w issued of
        (r, w, issued) \<Rightarrow>
          (case account_run lib service started ops w issued of
             (got, rest) \<Rightarrow> (case r of Inl _ \<Rightarrow> got | Inr c \<Rightarrow> (credential_id, c) # got, rest)))"
| "account_run lib service started (Leave_calls # ops) w issued =
     account_run lib service started ops (snd (leave_creator service (sc_active started) w)) issued"
| "account_run lib service started (Finish_calls limit # ops) w issued =
     account_run lib service started ops (snd (finish_calls service (sc_active started) limit w)) issued"

section \<open>Retries\<close>

lemma retry_loop_slept:
  assumes "\<And>w. wi_slept (snd (request w)) = wi_slept w"
  shows "\<exists>n \<le> remaining - 1. wi_slept (snd (retry_loop remaining attempt e request w))
    = wi_slept w @ map (\<lambda>k. 250 * (k + 1)) [attempt..<attempt + n]"
proof (induction remaining arbitrary: attempt e w)
  case 0
  then show ?case by simp
next
  case (Suc remaining)
  obtain r w' where r: "request w = (r, w')" by (cases "request w") auto
  have same: "wi_slept w' = wi_slept w" using assms [of w] by (simp add: r)
  show ?case
  proof (cases r)
    case (Inr v)
    then show ?thesis using same by (auto simp: r intro: exI [of _ 0])
  next
    case (Inl e')
    let ?w = "if remaining > 0 then w'\<lparr>wi_slept := wi_slept w' @ [250 * (attempt + 1)]\<rparr> else w'"
    obtain n where n: "n \<le> remaining - 1" "wi_slept (snd (retry_loop remaining (attempt + 1) (Some e') request ?w))
        = wi_slept ?w @ map (\<lambda>k. 250 * (k + 1)) [attempt + 1..<attempt + 1 + n]"
      using Suc.IH [of "attempt + 1" "Some e'" ?w] by blast
    show ?thesis
    proof (cases "remaining = 0")
      case True
      then show ?thesis using same by (auto simp: r Inl)
    next
      case False
      then have "Suc n \<le> Suc remaining - 1" using n(1) by simp
      moreover have "wi_slept (snd (retry_loop (Suc remaining) attempt e request w))
          = wi_slept w @ map (\<lambda>k. 250 * (k + 1)) [attempt..<attempt + Suc n]"
        using n(2) False same by (simp add: r Inl upt_conv_Cons)
      ultimately show ?thesis by blast
    qed
  qed
qed

lemma post_form_slept: "wi_slept (snd (post_form service endpoint form site w)) = wi_slept w"
  by (auto simp: post_form_def Let_def split: vk_reply.split option.split)

text \<open>A request is made at most three times, with pauses of a quarter and half a second in between.\<close>

lemma retry_pauses:
  "wi_slept (snd (retry 3 (post_form service endpoint form site) w))
   \<in> {wi_slept w, wi_slept w @ [250], wi_slept w @ [250, 500]}"
proof -
  obtain n where "n \<le> 2" "wi_slept (snd (retry 3 (post_form service endpoint form site) w))
      = wi_slept w @ map (\<lambda>k. 250 * (k + 1)) [0..<n]"
    using retry_loop_slept [of "post_form service endpoint form site" 3 0 None w] post_form_slept by (auto simp: retry_def)
  then show ?thesis by (cases n; cases "n - 1") (auto simp: le_Suc_eq numeral_2_eq_2)
qed

section \<open>Where the secrets of the account go\<close>

text \<open>
  The addresses of the calls service: over TLS on its port, on one of its hosts, without credentials, query
  or fragment, and with its one path.
\<close>

definition service_host :: "chars \<Rightarrow> bool" where
  "service_host host \<longleftrightarrow> host = code_points ''api.ok.ru'' \<or> host = code_points ''okcdn.ru''
     \<or> (\<exists>name. host = name @ code_points ''.okcdn.ru'')"

definition service_url :: "calls_library \<Rightarrow> chars \<Rightarrow> bool" where
  "service_url lib endpoint \<longleftrightarrow>
     (\<exists>host. service_host host \<and> endpoint = cl_show_url lib
        \<lparr>ur_scheme = code_points ''https'', ur_username = [], ur_password = None, ur_host = Some host, ur_port = Some 443,
         ur_path = code_points ''/fb.do'', ur_query = None, ur_fragment = None\<rparr>)"

text \<open>
  The access token of the user is sent to the two methods of the social network only, the key of a session
  to the calls service only, and nothing is sent elsewhere.
\<close>

definition keeps_secrets :: "calls_library \<Rightarrow> vk_request \<Rightarrow> bool" where
  "keeps_secrets lib r \<longleftrightarrow>
     (case vq_site r of
        Site_vk \<Rightarrow> vq_endpoint r \<in> {TOKEN_URL, FINISH_URL} \<and> ''session_key'' \<notin> fst ` set (vq_fields r)
      | Site_ok \<Rightarrow> service_url lib (vq_endpoint r) \<and> ''access_token'' \<notin> fst ` set (vq_fields r))"

definition only_sends :: "(vk_request \<Rightarrow> bool) \<Rightarrow> 'a call \<Rightarrow> bool" where
  "only_sends P m \<longleftrightarrow> (\<forall>w. list_all P (wi_sent w) \<longrightarrow> list_all P (wi_sent (snd (m w))))"

definition yields :: "'a call \<Rightarrow> 'a \<Rightarrow> bool" where
  "yields m x \<longleftrightarrow> (\<exists>w w'. m w = (Inr x, w'))"

named_theorems sends_intro

lemma only_sends_call_of [sends_intro]: "only_sends P (call_of r)"
  by (simp add: only_sends_def call_of_def)

lemma only_sends_and_then [sends_intro]:
  assumes "only_sends P m" "\<And>x. yields m x \<Longrightarrow> only_sends P (k x)"
  shows "only_sends P (and_then m k)"
  unfolding only_sends_def
proof (intro allI impI)
  fix w :: wire assume w: "list_all P (wi_sent w)"
  obtain r w' where m: "m w = (r, w')" by (cases "m w") auto
  have sent: "list_all P (wi_sent w')" using assms(1) w m by (metis only_sends_def snd_conv)
  show "list_all P (wi_sent (snd (and_then m k w)))"
  proof (cases r)
    case (Inl e)
    then show ?thesis using sent m by (simp add: and_then_def)
  next
    case (Inr x)
    then have "only_sends P (k x)" using assms(2) m by (auto simp: yields_def)
    then show ?thesis using sent m Inr by (simp add: and_then_def only_sends_def)
  qed
qed

lemma only_sends_while [sends_intro]: "only_sends P m \<Longrightarrow> only_sends P (while_doing f m)"
  unfolding only_sends_def while_doing_def by (fastforce split: prod.splits sum.splits)

lemma only_sends_post [sends_intro]:
  "P \<lparr>vq_endpoint = endpoint, vq_fields = form, vq_site = site\<rparr> \<Longrightarrow> only_sends P (post_form service endpoint form site)"
  by (auto simp: only_sends_def post_form_def Let_def split: vk_reply.split option.split)

lemma only_sends_retry_loop: "only_sends P request \<Longrightarrow> only_sends P (retry_loop remaining attempt e request)"
proof (induction remaining arbitrary: attempt e)
  case 0
  then show ?case by (simp add: only_sends_def)
next
  case (Suc remaining)
  have step: "list_all P (wi_sent (snd (retry_loop remaining (Suc attempt) (Some e') request w)))"
    if "list_all P (wi_sent w)" for w e'
    using Suc that by (simp add: only_sends_def)
  show ?case unfolding only_sends_def
  proof (intro allI impI)
    fix w :: wire assume w: "list_all P (wi_sent w)"
    obtain r w' where m: "request w = (r, w')" by (cases "request w") auto
    have sent: "list_all P (wi_sent w')" using Suc.prems w m by (metis only_sends_def snd_conv)
    show "list_all P (wi_sent (snd (retry_loop (Suc remaining) attempt e request w)))"
      using sent step [of w'] step [of "w'\<lparr>wi_slept := wi_slept w' @ [250 * (attempt + 1)]\<rparr>"]
      by (cases r) (auto simp: m simp del: retry_loop.simps(1))
  qed
qed

lemma only_sends_retry [sends_intro]: "only_sends P request \<Longrightarrow> only_sends P (retry attempts request)"
  unfolding retry_def by (rule only_sends_retry_loop)

lemma only_sends_check [sends_intro]: "only_sends P (check_api_error value)" "only_sends P (required_string value key)"
    "only_sends P (validated_api_url lib address)"
  by (simp_all add: check_api_error_def required_string_def validated_api_url_def Let_def only_sends_call_of)

lemma only_sends_checked_post [sends_intro]:
  "P \<lparr>vq_endpoint = endpoint, vq_fields = form, vq_site = site\<rparr> \<Longrightarrow> only_sends P (checked_post service endpoint form site)"
  unfolding checked_post_def by (intro sends_intro)

lemma ends_with_append: "ends_with s ending \<longleftrightarrow> (\<exists>name. s = name @ ending)"
proof
  assume "ends_with s ending"
  then have "take (length ending) (rev s) = rev ending" by (simp add: ends_with_def starts_with_def)
  then have "rev s = rev ending @ drop (length ending) (rev s)"
    using append_take_drop_id [of "length ending" "rev s"] by simp
  then have "rev (rev s) = rev (rev ending @ drop (length ending) (rev s))" by (rule arg_cong)
  then have "s = rev (drop (length ending) (rev s)) @ ending" by (simp only: rev_append rev_rev_ident)
  then show "\<exists>name. s = name @ ending" ..
next
  assume "\<exists>name. s = name @ ending"
  then show "ends_with s ending" by (auto simp: ends_with_def)
qed

lemma yields_call_of: "yields (call_of r) x \<longleftrightarrow> r = Inr x"
  by (auto simp: yields_def call_of_def)

lemma yields_and_then: "yields (and_then m k) y \<Longrightarrow> \<exists>x. yields m x \<and> yields (k x) y"
proof -
  assume "yields (and_then m k) y"
  then obtain w w' where run: "and_then m k w = (Inr y, w')" unfolding yields_def by blast
  obtain r v where m: "m w = (r, v)" by (cases "m w") auto
  with run obtain x where "r = Inr x" "k x v = (Inr y, w')" by (cases r) (simp_all add: and_then_def)
  with m show ?thesis unfolding yields_def by blast
qed

lemma yields_while: "yields (while_doing f m) x \<Longrightarrow> yields m x"
proof -
  assume "yields (while_doing f m) x"
  then obtain w w' where run: "while_doing f m w = (Inr x, w')" unfolding yields_def by blast
  obtain r v where m: "m w = (r, v)" by (cases "m w") auto
  with run have "r = Inr x" by (cases r) (simp_all add: while_doing_def)
  with m show ?thesis unfolding yields_def by blast
qed

lemma validated_service_url: "yields (validated_api_url lib value) endpoint \<Longrightarrow> service_url lib endpoint"
proof -
  assume "yields (validated_api_url lib value) endpoint"
  then obtain parsed where p: "ur_scheme parsed = code_points ''https''" "ur_username parsed = []" "ur_password parsed = None"
      "ur_port parsed = Some 443" "ur_fragment parsed = None" "ur_query parsed = None"
      "service_host (case ur_host parsed of None \<Rightarrow> [] | Some h \<Rightarrow> h)"
      "endpoint = cl_show_url lib (parsed\<lparr>ur_path := code_points ''/fb.do''\<rparr>)"
    by (auto simp: validated_api_url_def yields_call_of Let_def service_host_def ends_with_append split: option.splits if_splits)
  then obtain host where "ur_host parsed = Some host" "service_host host"
    by (cases "ur_host parsed") (auto simp: service_host_def code_points_def)
  then show ?thesis using p by (auto simp: service_url_def intro!: exI [of _ host] arg_cong [of _ _ "cl_show_url lib"])
qed

lemma ok_post_keeps: "service_url lib endpoint \<Longrightarrow> ''access_token'' \<notin> fst ` set form
    \<Longrightarrow> keeps_secrets lib \<lparr>vq_endpoint = endpoint, vq_fields = form, vq_site = Site_ok\<rparr>"
  by (simp add: keeps_secrets_def)

lemma session_sends: "only_sends (keeps_secrets lib) (open_account_session lib service access_token device)"
  unfolding open_account_session_def
  by (intro sends_intro ok_post_keeps validated_service_url) (simp_all add: keeps_secrets_def ok_fields_def)

lemma session_url: "yields (open_account_session lib service access_token device) session \<Longrightarrow> service_url lib (as_api_url session)"
  unfolding open_account_session_def
  by (auto dest!: yields_and_then validated_service_url simp: yields_call_of)

lemma start_session_sends: "only_sends (keeps_secrets lib) (start_session lib service access_token device)"
  unfolding start_session_def
  by (cases "trim_with is_whitespace access_token = []")
    (simp_all add: only_sends_call_of, intro sends_intro session_sends ok_post_keeps session_url, simp_all add: ok_fields_def)

lemma start_session_url: "yields (start_session lib service access_token device) session \<Longrightarrow> service_url lib (as_api_url session)"
  unfolding start_session_def
  by (auto dest!: yields_and_then session_url simp: yields_call_of split: if_splits)

lemma broker_sends: "only_sends (keeps_secrets lib) (account_credentials lib service broker credential_id device)"
  unfolding account_credentials_def
  by (cases "1 \<le> credential_id \<and> credential_id \<le> MAX_ACCOUNT_CREDENTIALS")
    (simp_all add: only_sends_call_of,
      intro sends_intro session_sends ok_post_keeps,
      (erule yields_while [THEN session_url] | simp add: conversation_params_fields_def ok_fields_def)+)

lemma count_finished_sends:
  assumes "\<And>conversation. only_sends P (task conversation)" "list_all P (wi_sent w)"
  shows "list_all P (wi_sent (snd (count_finished task conversations finished w)))"
  using assms(2)
proof (induction conversations arbitrary: finished w)
  case Nil
  then show ?case by simp
next
  case (Cons c cs)
  obtain r w' where m: "task c w = (r, w')" by (cases "task c w") auto
  have "list_all P (wi_sent w')" using assms(1) [of c] Cons.prems m by (metis only_sends_def snd_conv)
  then show ?case using Cons.IH by (cases r) (simp_all add: m)
qed

lemma leave_sends:
  assumes "service_url lib (ac_api_url active)" "list_all (keeps_secrets lib) (wi_sent w)"
  shows "list_all (keeps_secrets lib) (wi_sent (snd (leave_creator service active w)))"
  unfolding leave_creator_def
  by (rule count_finished_sends [OF _ assms(2)], intro sends_intro ok_post_keeps assms(1)) (simp add: ok_fields_def)

lemma list_all_take: "list_all P xs \<Longrightarrow> list_all P (take n xs)"
  by (auto simp: list_all_iff dest: in_set_takeD)

lemma finish_sends: "list_all (keeps_secrets lib) (wi_sent w)
    \<Longrightarrow> list_all (keeps_secrets lib) (wi_sent (snd (finish_calls service active limit w)))"
proof -
  assume w: "list_all (keeps_secrets lib) (wi_sent w)"
  let ?task = "\<lambda>conversation. retry 3 (checked_post service FINISH_URL
        [(''call_id'', conversation), (''access_token'', ac_access_token active)] Site_vk)"
  have "only_sends (keeps_secrets lib) (?task conversation)" for conversation
    by (intro sends_intro) (simp add: keeps_secrets_def)
  then have "list_all (keeps_secrets lib) (wi_sent (snd (count_finished ?task (ac_conversations active) 0 w)))"
    using w by (rule count_finished_sends)
  then show ?thesis by (auto simp: finish_calls_def cut_off_def list_all_take split: prod.split option.split)
qed

lemma run_sends:
  assumes "service_url lib (ac_api_url (sc_active started))"
  shows "list_all (keeps_secrets lib) (wi_sent w)
    \<Longrightarrow> list_all (keeps_secrets lib) (wi_sent (fst (snd (account_run lib service started ops w issued))))"
proof (induction ops arbitrary: w issued)
  case Nil
  then show ?case by simp
next
  case (Cons op ops)
  show ?case
  proof (cases op)
    case (Ask credential_id device)
    have "list_all (keeps_secrets lib) (wi_sent (snd (account_credentials lib service (sc_broker started) credential_id device w)))"
      using broker_sends Cons.prems by (simp add: only_sends_def)
    moreover obtain r v where ask: "account_credentials lib service (sc_broker started) credential_id device w = (r, v)" by fastforce
    moreover obtain r' issued1 where issue: "issue_once lib credential_id r issued = (r', issued1)" by fastforce
    ultimately show ?thesis using Cons.IH [of v issued1]
      by (cases "account_run lib service started ops v issued1") (simp add: Ask broker_credentials_def)
  qed (simp_all add: Cons.IH Cons.prems leave_sends assms finish_sends)
qed

text \<open>
  The texts of a session: what is started and, if it started, what follows, from an empty wire on.
\<close>

definition account_session :: "calls_library \<Rightarrow> service \<Rightarrow> chars \<Rightarrow> chars \<Rightarrow> bool \<Rightarrow> chars \<Rightarrow> (nat \<times> nat) option
    \<Rightarrow> account_op list \<Rightarrow> (nat \<times> seed) list \<times> wire \<times> bytes list" where
  "account_session lib service access_token device multiple_devices conversation limit ops =
     (case start_calls lib service access_token device multiple_devices conversation limit \<lparr>wi_sent = [], wi_slept = []\<rparr> of
        (Inl _, w) \<Rightarrow> ([], w, [])
      | (Inr started, w) \<Rightarrow> account_run lib service started ops w [])"

lemma start_sends:
  assumes "start_calls lib service access_token device multiple_devices conversation limit \<lparr>wi_sent = [], wi_slept = []\<rparr> = (r, w)"
  shows "list_all (keeps_secrets lib) (wi_sent w)"
    and "r = Inr started \<Longrightarrow> service_url lib (ac_api_url (sc_active started))"
proof -
  let ?opening = "start_session lib service access_token device"
  let ?hash = "conversation_hash lib service multiple_devices conversation"
  obtain r0 w0 where opened: "?opening \<lparr>wi_sent = [], wi_slept = []\<rparr> = (r0, w0)" by (cases "?opening \<lparr>wi_sent = [], wi_slept = []\<rparr>") auto
  have sent0: "list_all (keeps_secrets lib) (wi_sent w0)"
    using start_session_sends [of lib service access_token device] opened
    by (auto simp: only_sends_def dest!: spec [of _ "\<lparr>wi_sent = [], wi_slept = []\<rparr>"])
  have both: "list_all (keeps_secrets lib) (wi_sent w) \<and> (r = Inr started \<longrightarrow> service_url lib (ac_api_url (sc_active started)))"
  proof (cases r0)
    case (Inl e)
    then show ?thesis using assms opened sent0 by (auto simp: start_calls_def and_then_def)
  next
    case (Inr session)
    have url: "service_url lib (as_api_url session)"
      using opened unfolding Inr
      by (intro start_session_url [of lib service access_token device]) (auto simp: yields_def)
    obtain hash w1 where hash: "?hash session w0 = (hash, w1)" by (cases "?hash session w0") auto
    have "only_sends (keeps_secrets lib) (?hash session)"
      unfolding conversation_hash_def call_hash_def by (intro sends_intro ok_post_keeps url) (simp add: start_fields_def ok_fields_def)
    then have sent1: "list_all (keeps_secrets lib) (wi_sent w1)"
      using sent0 hash by (metis only_sends_def snd_conv)
    let ?active = "\<lparr>ac_api_url = as_api_url session, ac_access_token = access_token,
                  ac_session_key = as_session_key session, ac_conversations = [conversation]\<rparr>"
    obtain n w2 where leave: "leave_creator service ?active w1 = (n, w2)" by (cases "leave_creator service ?active w1") auto
    have sent2: "list_all (keeps_secrets lib) (wi_sent w2)"
      using leave_sends [of lib ?active w1 service] url sent1 leave by simp
    have result: "(r, w) = (case hash of
          Inr h \<Rightarrow> (Inr \<lparr>sc_hashes = [h], sc_active = ?active,
              sc_broker = \<lparr>cb_access_token = access_token, cb_conversation = conversation\<rparr>\<rparr>, w1)
        | Inl e \<Rightarrow> (Inl (While ''vchat.startConversation'' e),
             case limit of None \<Rightarrow> w2 | Some (requests, pauses) \<Rightarrow> cut_off requests pauses w1 w2))"
      using assms by (auto simp: start_calls_def and_then_def opened hash leave Inr Let_def split: sum.splits)
    show ?thesis using result sent1 sent2 url
      by (auto simp: cut_off_def list_all_take split: sum.splits option.splits prod.splits)
  qed
  then show "list_all (keeps_secrets lib) (wi_sent w)" "r = Inr started \<Longrightarrow> service_url lib (ac_api_url (sc_active started))"
    by blast+
qed


section \<open>No credentials twice\<close>

lemma issue_once_fresh:
  assumes "issue_once lib n r issued = (r', issued')"
  shows "case r' of Inl _ \<Rightarrow> issued' = issued
    | Inr c \<Rightarrow> r = Inr c \<and> credential_fingerprint lib c \<notin> set issued \<and> issued' = credential_fingerprint lib c # issued"
  using assms by (auto simp: issue_once_def split: sum.splits if_splits)

lemma account_relays:
  "account_credentials lib service broker n device w = (Inr c, w') \<Longrightarrow> has_relays c \<and> 1 \<le> n \<and> n \<le> MAX_ACCOUNT_CREDENTIALS"
  by (auto simp: account_credentials_def call_of_def and_then_def split: if_splits prod.splits sum.splits intro: parse_relays)

lemma run_fresh:
  assumes "account_run lib service started ops w issued = (got, w', issued')"
  shows "set (map (\<lambda>p. credential_fingerprint lib (snd p)) got) \<inter> set issued = {} \<and> distinct (map (\<lambda>p. credential_fingerprint lib (snd p)) got)
    \<and> list_all (\<lambda>(n, c). 1 \<le> n \<and> n \<le> MAX_ACCOUNT_CREDENTIALS \<and> has_relays c) got"
  using assms
proof (induction ops arbitrary: w issued got)
  case Nil
  then show ?case by simp
next
  case (Cons op ops)
  show ?case
  proof (cases op)
    case (Ask n device)
    obtain r v where ask: "account_credentials lib service (sc_broker started) n device w = (r, v)" by fastforce
    obtain r' issued1 where issue: "issue_once lib n r issued = (r', issued1)" by fastforce
    obtain got1 rest where run: "account_run lib service started ops v issued1 = (got1, rest)"
      by (cases "account_run lib service started ops v issued1") auto
    have got: "got = (case r' of Inl _ \<Rightarrow> got1 | Inr c \<Rightarrow> (n, c) # got1)"
      using Cons.prems by (simp add: Ask broker_credentials_def ask issue run)
    have later: "set (map (\<lambda>p. credential_fingerprint lib (snd p)) got1) \<inter> set issued1 = {}
        \<and> distinct (map (\<lambda>p. credential_fingerprint lib (snd p)) got1)
        \<and> list_all (\<lambda>(n, c). 1 \<le> n \<and> n \<le> MAX_ACCOUNT_CREDENTIALS \<and> has_relays c) got1"
      using Cons.IH [of v issued1 got1] Cons.prems run by (cases rest) (simp add: Ask broker_credentials_def ask issue)
    show ?thesis
    proof (cases r')
      case (Inl e)
      then show ?thesis using later issue_once_fresh [OF issue] got by simp
    next
      case (Inr c)
      then show ?thesis
        using later issue_once_fresh [OF issue] got account_relays [of lib service _ n device w c v] ask by auto
    qed
  qed (use Cons in auto)
qed

text \<open>
  C37: No two workers of an account share credentials: over a whole call, the credentials that are handed
  out are pairwise different, whatever the digest and the answers of the service are, each of them has
  at least one relay the engine can use, and only the nine sessions of the account are asked.
\<close>

theorem account_credentials_are_never_shared:
  "case account_session lib service access_token device multiple_devices conversation limit ops of (got, _) \<Rightarrow>
     distinct (map snd got)
     \<and> list_all (\<lambda>(n, c). 1 \<le> n \<and> n \<le> 9 \<and> se_addresses c \<noteq> [] \<and> list_all is_supported_turn_uri (se_addresses c)) got"
proof -
  obtain got w issued where session:
    "account_session lib service access_token device multiple_devices conversation limit ops = (got, w, issued)"
    by (rule prod_cases3)
  then have "distinct (map (\<lambda>p. credential_fingerprint lib (snd p)) got)
      \<and> list_all (\<lambda>(n, c). 1 \<le> n \<and> n \<le> MAX_ACCOUNT_CREDENTIALS \<and> has_relays c) got"
    using run_fresh [of lib service _ ops _ "[]" got w issued]
    by (auto simp: account_session_def split: prod.splits sum.splits)
  then show ?thesis
    by (auto simp: session MAX_ACCOUNT_CREDENTIALS_def has_relays_def distinct_map list_all_iff inj_on_def)
qed

text \<open>
  A service that answers every request with all that can be asked for. It names the same relay credentials
  to everybody, or, if \<open>varied\<close>, others with every request.
\<close>

definition generous_answer :: "bool \<Rightarrow> nat \<Rightarrow> json" where
  "generous_answer varied n = J_object
     [(code_points ''response'', J_object [text_field ''token'' ''t'']), text_field ''session_key'' ''k'', text_field ''serverTime'' ''0'',
      text_field ''join_link'' ''https://vk.ru/call/join/h/'',
      (code_points ''turn_server'', J_object
        [(code_points ''username'', J_text (if varied then [n] else [117])), text_field ''credential'' ''p'',
         (code_points ''urls'', J_array [J_text [114]])])]"

definition generous_service :: "bool \<Rightarrow> service" where
  "generous_service varied sent = Reply 200 100 (Some (generous_answer varied (length sent)))"

definition example_library :: calls_library where
  "example_library = \<lparr>
     cl_parse_url = (\<lambda>_. Some \<lparr>ur_scheme = code_points ''https'', ur_username = [], ur_password = None,
       ur_host = Some (code_points ''calls.okcdn.ru''), ur_port = Some 443, ur_path = code_points ''/fb.do'', ur_query = None,
       ur_fragment = None\<rparr>),
     cl_show_url = (\<lambda>_. DEFAULT_OK_API), cl_show_json = (\<lambda>_. []), cl_sha256 = id\<rparr>"

definition example_session :: "bool \<Rightarrow> (nat \<times> seed) list \<times> wire \<times> bytes list" where
  "example_session varied = account_session example_library (generous_service varied) [116] [100] False [99] None
     [Ask 1 [100], Ask 2 [100], Leave_calls]"

lemma generous_answers:
  "check_api_error (generous_answer varied n) = call_of (Inr ())"
  "json_get ''response'' (generous_answer varied n) = Some (J_object [text_field ''token'' ''t''])"
  "required_string (J_object [text_field ''token'' ''t'']) ''token'' = call_of (Inr (code_points ''t''))"
  "json_get ''api_base_url'' (J_object [text_field ''token'' ''t'']) = None"
  "required_string (generous_answer varied n) ''session_key'' = call_of (Inr (code_points ''k''))"
  "json_get ''serverTime'' (generous_answer varied n) = Some (J_text (code_points ''0''))"
  "call_hash (generous_answer varied n) = call_of (Inr (code_points ''h''))"
  "parse_turn_credentials (generous_answer varied n) = Inr \<lparr>se_username = (if varied then [n] else [117]),
     se_password = code_points ''p'', se_addresses = [[114]]\<rparr>"
  by (simp_all add: generous_answer_def check_api_error_def required_string_def call_hash_def join_hash_def rsplit_once_def
      trim_with_def is_whitespace_def parse_turn_credentials_def is_supported_turn_uri_def parse_turn_uri_def split_scheme_def
      to_ascii_lowercase_def starts_with_def map_filter_simps and_then_def call_of_def auth_eval fun_eq_iff)

lemma generous_url: "validated_api_url example_library address = call_of (Inr DEFAULT_OK_API)"
  by (simp add: validated_api_url_def example_library_def ends_with_def starts_with_def code_points_def)

lemma generous_posts:
  "post_form (generous_service varied) endpoint form site w = (Inr (generous_answer varied (Suc (length (wi_sent w)))),
     w\<lparr>wi_sent := wi_sent w @ [\<lparr>vq_endpoint = endpoint, vq_fields = form, vq_site = site\<rparr>]\<rparr>)"
  by (simp add: post_form_def generous_service_def MAX_RESPONSE_BYTES_def)

lemma first_try: "request w = (Inr v, w') \<Longrightarrow> retry 3 request w = (Inr v, w')"
  by (simp add: retry_def numeral_3_eq_3)

lemmas generous_eval = generous_answers generous_url generous_posts first_try checked_post_def and_then_def while_doing_def call_of_def

text \<open>With other credentials every time both workers get theirs; with the same the second gets none.\<close>

lemma generous_service_shares_nothing:
  "map fst (fst (example_session True)) = [1, 2]" "map fst (fst (example_session False)) = [1]"
  by (simp_all add: example_session_def account_session_def start_calls_def start_session_def open_account_session_def
      conversation_hash_def broker_credentials_def account_credentials_def issue_once_def credential_fingerprint_def
      example_library_def [THEN arg_cong, of cl_sha256] as_bytes_def utf8_char_def MAX_ACCOUNT_CREDENTIALS_def trim_with_def is_whitespace_def
      leave_creator_def code_points_def generous_eval)

end
