(* ===== verification/Disguise.thy ===== *)
theory Disguise
  imports Auth
begin

text \<open>
  What the engine passes for towards the service: the browser and system it imitates, \<open>profiles.rs\<close>, and
  the name a guest joins a call under, \<open>namegen.rs\<close>. The random numbers are inputs.
\<close>

section \<open>Browsers\<close>

datatype browser =
    Chrome | ChromeV144 | ChromeV145 | ChromeV146 | ChromeV147 | ChromeV148
  | FirefoxV140 | FirefoxV146 | FirefoxV147 | FirefoxV148
  | SafariV18_5 | SafariV26 | SafariV26_3
  | EdgeV144 | EdgeV145 | EdgeV146 | EdgeV147 | EdgeV148
  | OperaV126 | OperaV127 | OperaV128 | OperaV129 | OperaV130 | OperaV131

datatype browser_os = Android | Windows | MacOS | Linux | IOS

record profile =
  pf_impersonate :: browser
  pf_os :: browser_os
  pf_user_agent :: chars
  pf_sec_ch_ua :: chars
  pf_sec_ch_ua_mobile :: chars
  pf_sec_ch_ua_platform :: chars

definition profile_of :: "browser \<times> browser_os \<Rightarrow> profile" where
  "profile_of p = \<lparr>pf_impersonate = fst p, pf_os = snd p, pf_user_agent = [], pf_sec_ch_ua = [], pf_sec_ch_ua_mobile = [],
     pf_sec_ch_ua_platform = []\<rparr>"

definition default_profile :: profile where
  "default_profile = profile_of (Chrome, Windows)"

record saved_profile =
  sp_user_agent :: chars
  sp_device_json :: chars
  sp_browser_fp :: chars

text \<open>\<open>data\<close> is the file if it can be read and parses; a field that is missing is empty, one of another kind an error.\<close>

definition text_field_of :: "string \<Rightarrow> json \<Rightarrow> chars option" where
  "text_field_of key value = (case json_get key value of None \<Rightarrow> Some [] | Some field \<Rightarrow> as_text field)"

definition load_saved_profile :: "json option \<Rightarrow> saved_profile option" where
  "load_saved_profile data =
     (case data of
        Some (J_object members) \<Rightarrow>
          (case (text_field_of ''user_agent'' (J_object members), text_field_of ''device_json'' (J_object members),
                 text_field_of ''browser_fp'' (J_object members)) of
             (Some agent, Some device, Some fp) \<Rightarrow> Some \<lparr>sp_user_agent = agent, sp_device_json = device, sp_browser_fp = fp\<rparr>
           | _ \<Rightarrow> None)
      | _ \<Rightarrow> None)"

type_synonym weighted = "(browser \<times> browser_os) \<times> nat"

fun roll_through :: "('a \<times> nat) list \<Rightarrow> nat \<Rightarrow> 'a option" where
  "roll_through [] roll = None"
| "roll_through ((entry, weight) # pool) roll = (if roll < weight then Some entry else roll_through pool (roll - weight))"

text \<open>\<open>roll\<close> is drawn below the sum of the weights; with an empty pool there is nothing to draw from, a panic.\<close>

definition pick_weighted :: "('a \<times> nat) list \<Rightarrow> nat \<Rightarrow> 'a option" where
  "pick_weighted pool roll =
     (if sum_list (map snd pool) = 0 then None
      else case roll_through pool roll of Some entry \<Rightarrow> Some entry | None \<Rightarrow> Some (fst (last pool)))"

definition weighted_browser_pool :: "(browser \<times> nat) list \<Rightarrow> (browser_os \<times> nat) list \<Rightarrow> weighted list" where
  "weighted_browser_pool versions systems =
     concat (map (\<lambda>(browser, version_weight). map (\<lambda>(os, os_weight). ((browser, os), version_weight * os_weight)) systems) versions)"

definition chrome_pool :: "weighted list" where
  "chrome_pool = weighted_browser_pool
     [(ChromeV148, 35), (ChromeV147, 25), (ChromeV146, 18), (ChromeV145, 12), (ChromeV144, 10)]
     [(Android, 55), (Windows, 20), (MacOS, 10), (Linux, 10), (IOS, 5)]"

definition firefox_pool :: "weighted list" where
  "firefox_pool = weighted_browser_pool
     [(FirefoxV148, 40), (FirefoxV147, 28), (FirefoxV146, 20), (FirefoxV140, 12)]
     [(Android, 55), (Windows, 20), (MacOS, 10), (Linux, 10), (IOS, 5)]"

definition safari_pool :: "weighted list" where
  "safari_pool = weighted_browser_pool
     [(SafariV26_3, 40), (SafariV26, 35), (SafariV18_5, 25)]
     [(IOS, 70), (MacOS, 30)]"

definition edge_pool :: "weighted list" where
  "edge_pool = weighted_browser_pool
     [(EdgeV148, 35), (EdgeV147, 25), (EdgeV146, 18), (EdgeV145, 12), (EdgeV144, 10)]
     [(Android, 60), (Windows, 20), (MacOS, 8), (Linux, 7), (IOS, 5)]"

definition opera_pool :: "weighted list" where
  "opera_pool = weighted_browser_pool
     [(OperaV131, 30), (OperaV130, 24), (OperaV129, 18), (OperaV128, 13), (OperaV127, 9), (OperaV126, 6)]
     [(Android, 60), (Windows, 20), (MacOS, 8), (Linux, 7), (IOS, 5)]"

definition pool_named :: "chars \<Rightarrow> weighted list" where
  "pool_named fingerprint =
     (if fingerprint = code_points ''safari'' then safari_pool
      else if fingerprint = code_points ''firefox'' then firefox_pool
      else if fingerprint = code_points ''edge'' then edge_pool
      else if fingerprint = code_points ''opera'' then opera_pool
      else chrome_pool)"

definition random_profile :: "chars \<Rightarrow> nat \<Rightarrow> profile option" where
  "random_profile fingerprint roll = map_option profile_of (pick_weighted (pool_named fingerprint) roll)"

lemmas pool_defs = chrome_pool_def firefox_pool_def safari_pool_def edge_pool_def opera_pool_def weighted_browser_pool_def

text \<open>The weights of a pool add up to ten thousand, far below the limit of a \<open>u32\<close>.\<close>

lemma pool_total: "sum_list (map snd (pool_named fingerprint)) = 10000"
  by (simp add: pool_named_def pool_defs)

lemma weighted_pool_distinct:
  assumes "distinct (map fst versions)" "distinct (map fst systems)"
  shows "distinct (map fst (weighted_browser_pool versions systems))"
proof -
  have "map fst (weighted_browser_pool versions systems) = List.product (map fst versions) (map fst systems)"
    by (induction versions) (auto simp: weighted_browser_pool_def case_prod_beta)
  then show ?thesis using assms by (simp add: distinct_product)
qed

lemma distinct_chrome: "distinct (map fst chrome_pool)"
  unfolding chrome_pool_def by (rule weighted_pool_distinct) simp_all

lemma distinct_firefox: "distinct (map fst firefox_pool)"
  unfolding firefox_pool_def by (rule weighted_pool_distinct) simp_all

lemma distinct_safari: "distinct (map fst safari_pool)"
  unfolding safari_pool_def by (rule weighted_pool_distinct) simp_all

lemma distinct_edge: "distinct (map fst edge_pool)"
  unfolding edge_pool_def by (rule weighted_pool_distinct) simp_all

lemma distinct_opera: "distinct (map fst opera_pool)"
  unfolding opera_pool_def by (rule weighted_pool_distinct) simp_all

lemma pool_distinct: "distinct (map fst (pool_named fingerprint))"
proof -
  have "pool_named fingerprint \<in> {safari_pool, firefox_pool, edge_pool, opera_pool, chrome_pool}" by (simp add: pool_named_def)
  then show ?thesis using distinct_chrome distinct_firefox distinct_safari distinct_edge distinct_opera by (elim insertE) simp_all
qed

lemma roll_through_within: "roll < sum_list (map snd pool) \<Longrightarrow> \<exists>entry. roll_through pool roll = Some entry"
  by (induction pool roll rule: roll_through.induct) auto

lemma roll_through_entry: "roll_through pool roll = Some entry \<Longrightarrow> entry \<in> fst ` set pool"
  by (induction pool roll rule: roll_through.induct) (auto split: if_splits)

text \<open>How many of the rolls choose an entry.\<close>

definition rolls_for :: "('a \<times> nat) list \<Rightarrow> 'a \<Rightarrow> nat" where
  "rolls_for pool entry = length (filter (\<lambda>roll. roll_through pool roll = Some entry) [0..<sum_list (map snd pool)])"

lemma rolls_for_Cons:
  "rolls_for ((entry, weight) # pool) wanted = (if entry = wanted then weight else 0) + rolls_for pool wanted"
proof -
  let ?n = "sum_list (map snd pool)" and ?hit = "\<lambda>roll. roll_through ((entry, weight) # pool) roll = Some wanted"
  have rolls: "[0..<weight + ?n] = [0..<weight] @ map (\<lambda>roll. roll + weight) [0..<?n]"
    unfolding map_add_upt using upt_add_eq_append [of 0 weight ?n] by (simp only: le0 add_0 add.commute [of ?n])
  have "filter ?hit [0..<weight] = (if entry = wanted then [0..<weight] else [])"
    by (cases "entry = wanted") (simp_all add: filter_empty_conv filter_id_conv)
  moreover have "length (filter ?hit (map (\<lambda>roll. roll + weight) [0..<?n])) = rolls_for pool wanted"
    by (simp add: rolls_for_def filter_map o_def)
  ultimately show ?thesis by (simp add: rolls_for_def rolls del: roll_through.simps)
qed

lemma rolls_for_weight: "rolls_for pool wanted = sum_list (map snd (filter (\<lambda>p. fst p = wanted) pool))"
proof (induction pool)
  case Nil
  then show ?case by (simp add: rolls_for_def)
next
  case (Cons p pool)
  then show ?case by (cases p) (simp add: rolls_for_Cons)
qed

text \<open>
  A profile is drawn as its weight says: of the ten thousand rolls, each combination of a version and a
  system gets as many as the product of their weights, and the last entry is never chosen for want of another.
\<close>

lemma profiles_follow_their_weights:
  assumes "(choice, weight) \<in> set (pool_named fingerprint)"
  shows "length (filter (\<lambda>roll. random_profile fingerprint roll = Some (profile_of choice)) [0..<10000]) = weight"
proof -
  let ?pool = "pool_named fingerprint"
  have inj: "profile_of a = profile_of b \<longleftrightarrow> a = b" for a b by (cases a; cases b) (simp add: profile_of_def)
  have "random_profile fingerprint roll = Some (profile_of choice) \<longleftrightarrow> roll_through ?pool roll = Some choice"
    if "roll < 10000" for roll
    using roll_through_within [of roll ?pool] that
    by (auto simp: random_profile_def pick_weighted_def pool_total inj)
  then have "length (filter (\<lambda>roll. random_profile fingerprint roll = Some (profile_of choice)) [0..<10000]) = rolls_for ?pool choice"
    unfolding rolls_for_def pool_total by (intro arg_cong [of _ _ length] filter_cong) simp_all
  also have "\<dots> = weight"
  proof -
    have "distinct (map fst ps) \<Longrightarrow> (choice, weight) \<in> set ps \<Longrightarrow> sum_list (map snd (filter (\<lambda>p. fst p = choice) ps)) = weight"
      for ps :: "weighted list"
    proof (induction ps)
      case (Cons p ps)
      show ?case
      proof (cases "fst p = choice")
        case True
        then have "choice \<notin> fst ` set ps" using Cons.prems(1) by auto
        then have "filter (\<lambda>p. fst p = choice) ps = []" "(choice, weight) \<notin> set ps" by (auto simp: filter_empty_conv image_iff)
        moreover have "p = (choice, weight)" using calculation(2) Cons.prems(2) by simp
        ultimately show ?thesis by simp
      next
        case False
        then show ?thesis using Cons by auto
      qed
    qed simp
    then show ?thesis using assms pool_distinct by (simp add: rolls_for_weight)
  qed
  finally show ?thesis .
qed

section \<open>Names\<close>

text \<open>The names of the source as code points.\<close>

definition MALE :: "chars list" where
  "MALE =
     [[0x410, 0x43B, 0x435, 0x43A, 0x441, 0x430, 0x43D, 0x434, 0x440],
      [0x410, 0x43B, 0x435, 0x43A, 0x441, 0x435, 0x439],
      [0x410, 0x43D, 0x434, 0x440, 0x435, 0x439],
      [0x410, 0x43D, 0x442, 0x43E, 0x43D],
      [0x410, 0x440, 0x441, 0x435, 0x43D, 0x438, 0x439],
      [0x410, 0x440, 0x442, 0x443, 0x440],
      [0x410, 0x440, 0x442, 0x451, 0x43C],
      [0x411, 0x43E, 0x433, 0x434, 0x430, 0x43D],
      [0x412, 0x430, 0x43B, 0x435, 0x440, 0x438, 0x439],
      [0x412, 0x430, 0x441, 0x438, 0x43B, 0x438, 0x439],
      [0x412, 0x438, 0x43A, 0x442, 0x43E, 0x440],
      [0x412, 0x43B, 0x430, 0x434, 0x438, 0x441, 0x43B, 0x430, 0x432],
      [0x413, 0x43B, 0x435, 0x431],
      [0x413, 0x440, 0x438, 0x433, 0x43E, 0x440, 0x438, 0x439],
      [0x414, 0x430, 0x43D, 0x438, 0x438, 0x43B],
      [0x414, 0x435, 0x43D, 0x438, 0x441],
      [0x414, 0x43C, 0x438, 0x442, 0x440, 0x438, 0x439],
      [0x415, 0x432, 0x433, 0x435, 0x43D, 0x438, 0x439],
      [0x415, 0x433, 0x43E, 0x440],
      [0x418, 0x432, 0x430, 0x43D],
      [0x418, 0x433, 0x43E, 0x440, 0x44C],
      [0x418, 0x43B, 0x44C, 0x44F],
      [0x41A, 0x438, 0x440, 0x438, 0x43B, 0x43B],
      [0x41B, 0x435, 0x43E, 0x43D, 0x438, 0x434],
      [0x41C, 0x430, 0x43A, 0x441, 0x438, 0x43C],
      [0x41C, 0x430, 0x440, 0x43A],
      [0x41C, 0x430, 0x442, 0x432, 0x435, 0x439],
      [0x41C, 0x438, 0x445, 0x430, 0x438, 0x43B],
      [0x41D, 0x438, 0x43A, 0x438, 0x442, 0x430],
      [0x41D, 0x438, 0x43A, 0x43E, 0x43B, 0x430, 0x439],
      [0x41E, 0x43B, 0x435, 0x433],
      [0x41F, 0x430, 0x432, 0x435, 0x43B],
      [0x41F, 0x451, 0x442, 0x440],
      [0x420, 0x43E, 0x43C, 0x430, 0x43D],
      [0x420, 0x443, 0x441, 0x43B, 0x430, 0x43D],
      [0x421, 0x435, 0x440, 0x433, 0x435, 0x439],
      [0x421, 0x442, 0x430, 0x43D, 0x438, 0x441, 0x43B, 0x430, 0x432],
      [0x422, 0x438, 0x43C, 0x43E, 0x444, 0x435, 0x439],
      [0x424, 0x451, 0x434, 0x43E, 0x440]]"

definition FEMALE :: "chars list" where
  "FEMALE =
     [[0x410, 0x43B, 0x438, 0x43D, 0x430],
      [0x410, 0x43B, 0x451, 0x43D, 0x430],
      [0x410, 0x43D, 0x430, 0x441, 0x442, 0x430, 0x441, 0x438, 0x44F],
      [0x410, 0x43D, 0x433, 0x435, 0x43B, 0x438, 0x43D, 0x430],
      [0x410, 0x43D, 0x43D, 0x430],
      [0x412, 0x435, 0x440, 0x430],
      [0x412, 0x435, 0x440, 0x43E, 0x43D, 0x438, 0x43A, 0x430],
      [0x412, 0x438, 0x43A, 0x442, 0x43E, 0x440, 0x438, 0x44F],
      [0x414, 0x430, 0x440, 0x44C, 0x44F],
      [0x415, 0x432, 0x430],
      [0x415, 0x43A, 0x430, 0x442, 0x435, 0x440, 0x438, 0x43D, 0x430],
      [0x415, 0x43B, 0x435, 0x43D, 0x430],
      [0x415, 0x43B, 0x438, 0x437, 0x430, 0x432, 0x435, 0x442, 0x430],
      [0x418, 0x440, 0x438, 0x43D, 0x430],
      [0x41A, 0x438, 0x440, 0x430],
      [0x41A, 0x440, 0x438, 0x441, 0x442, 0x438, 0x43D, 0x430],
      [0x41A, 0x441, 0x435, 0x43D, 0x438, 0x44F],
      [0x41B, 0x44E, 0x431, 0x43E, 0x432, 0x44C],
      [0x41C, 0x430, 0x440, 0x433, 0x430, 0x440, 0x438, 0x442, 0x430],
      [0x41C, 0x430, 0x440, 0x438, 0x43D, 0x430],
      [0x41C, 0x430, 0x440, 0x438, 0x44F],
      [0x41C, 0x438, 0x43B, 0x430, 0x43D, 0x430],
      [0x41D, 0x430, 0x434, 0x435, 0x436, 0x434, 0x430],
      [0x41D, 0x430, 0x442, 0x430, 0x43B, 0x44C, 0x44F],
      [0x41E, 0x43B, 0x44C, 0x433, 0x430],
      [0x41F, 0x43E, 0x43B, 0x438, 0x43D, 0x430],
      [0x421, 0x432, 0x435, 0x442, 0x43B, 0x430, 0x43D, 0x430],
      [0x421, 0x43E, 0x444, 0x438, 0x44F],
      [0x422, 0x430, 0x442, 0x44C, 0x44F, 0x43D, 0x430],
      [0x42E, 0x43B, 0x438, 0x44F],
      [0x42F, 0x43D, 0x430]]"

definition LAST_NAMES :: "chars list" where
  "LAST_NAMES =
     [[0x410, 0x43B, 0x435, 0x43A, 0x441, 0x435, 0x435, 0x432],
      [0x410, 0x43D, 0x434, 0x440, 0x435, 0x435, 0x432],
      [0x410, 0x43D, 0x442, 0x43E, 0x43D, 0x43E, 0x432],
      [0x411, 0x430, 0x440, 0x430, 0x43D, 0x43E, 0x432],
      [0x411, 0x435, 0x43B, 0x43E, 0x432],
      [0x411, 0x435, 0x43B, 0x44B, 0x439],
      [0x411, 0x435, 0x43B, 0x44C, 0x441, 0x43A, 0x438, 0x439],
      [0x411, 0x435, 0x43B, 0x44F, 0x435, 0x432],
      [0x411, 0x43E, 0x440, 0x438, 0x441, 0x43E, 0x432],
      [0x412, 0x430, 0x441, 0x438, 0x43B, 0x44C, 0x435, 0x432],
      [0x412, 0x435, 0x43B, 0x438, 0x43A, 0x438, 0x439],
      [0x412, 0x43E, 0x43B, 0x43A, 0x43E, 0x432],
      [0x412, 0x43E, 0x440, 0x43E, 0x431, 0x44C, 0x451, 0x432],
      [0x413, 0x440, 0x438, 0x433, 0x43E, 0x440, 0x44C, 0x435, 0x432],
      [0x414, 0x430, 0x432, 0x44B, 0x434, 0x43E, 0x432],
      [0x415, 0x433, 0x43E, 0x440, 0x43E, 0x432],
      [0x416, 0x443, 0x43A, 0x43E, 0x432],
      [0x417, 0x430, 0x439, 0x446, 0x435, 0x432],
      [0x417, 0x430, 0x445, 0x430, 0x440, 0x43E, 0x432],
      [0x418, 0x432, 0x430, 0x43D, 0x43E, 0x432],
      [0x41A, 0x430, 0x43B, 0x438, 0x43D, 0x438, 0x43D],
      [0x41A, 0x43E, 0x432, 0x430, 0x43B, 0x451, 0x432],
      [0x41A, 0x43E, 0x437, 0x43B, 0x43E, 0x432],
      [0x41A, 0x43E, 0x43C, 0x430, 0x440, 0x43E, 0x432],
      [0x41A, 0x440, 0x430, 0x43C, 0x441, 0x43A, 0x43E, 0x439],
      [0x41A, 0x443, 0x437, 0x43D, 0x435, 0x446, 0x43E, 0x432],
      [0x41A, 0x443, 0x437, 0x44C, 0x43C, 0x438, 0x43D],
      [0x41B, 0x435, 0x431, 0x435, 0x434, 0x435, 0x432],
      [0x41C, 0x430, 0x43A, 0x430, 0x440, 0x43E, 0x432],
      [0x41C, 0x435, 0x434, 0x432, 0x435, 0x434, 0x435, 0x432],
      [0x41C, 0x438, 0x445, 0x430, 0x439, 0x43B, 0x43E, 0x432],
      [0x41C, 0x43E, 0x440, 0x43E, 0x437, 0x43E, 0x432],
      [0x41D, 0x438, 0x43A, 0x438, 0x442, 0x438, 0x43D],
      [0x41D, 0x438, 0x43A, 0x43E, 0x43B, 0x430, 0x435, 0x432],
      [0x41D, 0x43E, 0x432, 0x438, 0x43A, 0x43E, 0x432],
      [0x41E, 0x440, 0x43B, 0x43E, 0x432],
      [0x41E, 0x441, 0x442, 0x440, 0x43E, 0x432, 0x441, 0x43A, 0x438, 0x439],
      [0x41F, 0x430, 0x432, 0x43B, 0x43E, 0x432],
      [0x41F, 0x435, 0x442, 0x440, 0x43E, 0x432],
      [0x41F, 0x43E, 0x43A, 0x440, 0x43E, 0x432, 0x441, 0x43A, 0x438, 0x439],
      [0x41F, 0x43E, 0x43F, 0x43E, 0x432],
      [0x420, 0x430, 0x435, 0x432, 0x441, 0x43A, 0x438, 0x439],
      [0x420, 0x43E, 0x43C, 0x430, 0x43D, 0x43E, 0x432],
      [0x421, 0x435, 0x43C, 0x451, 0x43D, 0x43E, 0x432],
      [0x421, 0x435, 0x440, 0x433, 0x435, 0x435, 0x432],
      [0x421, 0x43C, 0x438, 0x440, 0x43D, 0x43E, 0x432],
      [0x421, 0x43E, 0x43A, 0x43E, 0x43B, 0x43E, 0x432],
      [0x421, 0x43E, 0x43B, 0x43E, 0x432, 0x44C, 0x451, 0x432],
      [0x421, 0x442, 0x435, 0x43F, 0x430, 0x43D, 0x43E, 0x432],
      [0x422, 0x430, 0x440, 0x430, 0x441, 0x43E, 0x432],
      [0x422, 0x438, 0x442, 0x43E, 0x432],
      [0x422, 0x43E, 0x43B, 0x441, 0x442, 0x43E, 0x439],
      [0x422, 0x440, 0x443, 0x431, 0x435, 0x446, 0x43A, 0x43E, 0x439],
      [0x424, 0x438, 0x43B, 0x438, 0x43F, 0x43F, 0x43E, 0x432],
      [0x424, 0x440, 0x43E, 0x43B, 0x43E, 0x432],
      [0x424, 0x451, 0x434, 0x43E, 0x440, 0x43E, 0x432],
      [0x427, 0x430, 0x439, 0x43A, 0x43E, 0x432, 0x441, 0x43A, 0x438, 0x439],
      [0x427, 0x435, 0x440, 0x43D, 0x44B, 0x439],
      [0x42F, 0x43A, 0x43E, 0x432, 0x43B, 0x435, 0x432]]"

definition strip_ending :: "chars \<Rightarrow> chars \<Rightarrow> chars option" where
  "strip_ending ending s = map_option rev (strip_prefix (rev s) (rev ending))"

text \<open>Adjectives change their ending, names on -ov, -ev, -in, -yn and -yov get one, others stay.\<close>

definition ADJECTIVES :: "chars list" where
  "ADJECTIVES = [[0x438, 0x439], [0x44B, 0x439], [0x43E, 0x439]]"

definition POSSESSIVES :: "chars list" where
  "POSSESSIVES = [[0x43E, 0x432], [0x435, 0x432], [0x438, 0x43D], [0x44B, 0x43D], [0x451, 0x432]]"

definition female_surname :: "chars \<Rightarrow> chars" where
  "female_surname value =
     (case List.map_filter (\<lambda>ending. strip_ending ending value) ADJECTIVES of
        stem # _ \<Rightarrow> stem @ [0x430, 0x44F]
      | [] \<Rightarrow> if list_ex (\<lambda>ending. strip_ending ending value \<noteq> None) POSSESSIVES then value @ [0x430] else value)"

text \<open>The draws: whether female, the index of the first name, whether it stands alone, the index of the last name.\<close>

definition generate_name :: "bool \<Rightarrow> nat \<Rightarrow> bool \<Rightarrow> nat \<Rightarrow> chars option" where
  "generate_name female i alone j =
     Option.bind (idx (if female then FEMALE else MALE) i) (\<lambda>first.
       if alone then Some first
       else map_option (\<lambda>surname. first @ [32] @ (if female then female_surname surname else surname)) (idx LAST_NAMES j))"

text \<open>Every surname of the list has a female form of its own, which ends in -a or -aya.\<close>

lemma surnames_have_female_forms:
  "list_all (\<lambda>s. female_surname s \<noteq> s \<and> last (female_surname s) \<in> {0x430, 0x44F}) LAST_NAMES"
  by (simp add: LAST_NAMES_def female_surname_def ADJECTIVES_def POSSESSIVES_def strip_ending_def strip_prefix_def starts_with_def
      map_filter_simps)

lemma names_are_drawn:
  assumes "i < (if female then 31 else 39)" "j < 59"
  shows "generate_name female i alone j \<noteq> None"
  using assms by (auto simp: generate_name_def idx_def MALE_def FEMALE_def LAST_NAMES_def)

end
