(* ===== verification/Sockets.thy ===== *)
theory Sockets
  imports Chars
begin

text \<open>
  The sockets that must not run through the tunnel itself: \<open>protect.rs\<close>, which hands every descriptor to
  the host before it is used, \<open>tun.rs\<close>, which receives the descriptor of the tunnel, and \<open>cpu_task.rs\<close>,
  which runs a computation on a thread of its own. What the system calls answer is an input; the calls
  made are recorded in their order.
\<close>

section \<open>The hooks of the host\<close>

text \<open>Both cells can be filled once only; a callback is identified by a number.\<close>

record host_hooks =
  hk_callback :: "nat option"
  hk_proxy :: "chars option"

definition fill_once :: "'a \<Rightarrow> 'a option \<Rightarrow> 'a option" where
  "fill_once x cell = (case cell of None \<Rightarrow> Some x | Some y \<Rightarrow> Some y)"

definition set_protect :: "nat \<Rightarrow> host_hooks \<Rightarrow> host_hooks" where
  "set_protect cb h = h\<lparr>hk_callback := fill_once cb (hk_callback h)\<rparr>"

definition set_http_proxy :: "chars \<Rightarrow> host_hooks \<Rightarrow> host_hooks" where
  "set_http_proxy url h = (if url = [] then h else h\<lparr>hk_proxy := fill_once url (hk_proxy h)\<rparr>)"

text \<open>\<open>parse_proxy\<close> is the library's; a proxy it does not understand is left out.\<close>

definition with_http_proxy :: "(chars \<Rightarrow> 'p option) \<Rightarrow> host_hooks \<Rightarrow> 'p option" where
  "with_http_proxy parse_proxy h = Option.bind (hk_proxy h) parse_proxy"

section \<open>Connecting over TCP\<close>

datatype socket_domain = Domain_ipv4 | Domain_ipv6

datatype system_call =
    Open_socket socket_domain
  | Set_nonblocking
  | Protect nat
  | Connect
  | Wait_writable
  | Take_error

datatype host_platform = Unix | Win | Other_platform
datatype error_kind = Kind_would_block | Kind_interrupted | Kind_other

record os_error =
  io_kind :: error_kind
  io_raw :: "int option"

definition EINPROGRESS :: int where "EINPROGRESS = 115"

definition would_block :: "host_platform \<Rightarrow> os_error \<Rightarrow> bool" where
  "would_block platform error \<longleftrightarrow>
     io_kind error \<in> {Kind_would_block, Kind_interrupted} \<or>
     (case platform of
        Unix \<Rightarrow> io_raw error = Some EINPROGRESS
      | Win \<Rightarrow> io_raw error = Some 10035 \<or> io_raw error = Some 10036
      | Other_platform \<Rightarrow> False)"

text \<open>The answers of the system; \<open>None\<close> is success.\<close>

record tcp_answers =
  ta_socket :: "os_error option"
  ta_nonblocking :: "os_error option"
  ta_connect :: "os_error option"
  ta_register :: "os_error option"
  ta_writable :: "os_error option"
  ta_take_error :: "os_error option"
  ta_socket_error :: "os_error option"

definition protect_socket :: "host_platform \<Rightarrow> host_hooks \<Rightarrow> system_call list" where
  "protect_socket platform h =
     (case hk_callback h of None \<Rightarrow> [] | Some cb \<Rightarrow> if platform = Other_platform then [] else [Protect cb])"

definition connect_tcp :: "host_platform \<Rightarrow> host_hooks \<Rightarrow> bool \<Rightarrow> tcp_answers \<Rightarrow> os_error option \<times> system_call list" where
  "connect_tcp platform h server_is_ipv4 a =
     (let opened = [Open_socket (if server_is_ipv4 then Domain_ipv4 else Domain_ipv6)]
      in case ta_socket a of Some e \<Rightarrow> (Some e, opened) | None \<Rightarrow>
      let polled = opened @ [Set_nonblocking]
      in case ta_nonblocking a of Some e \<Rightarrow> (Some e, polled) | None \<Rightarrow>
      let connecting = polled @ protect_socket platform h @ [Connect]
      in case (case ta_connect a of None \<Rightarrow> None | Some e \<Rightarrow> if would_block platform e then None else Some e) of
           Some e \<Rightarrow> (Some e, connecting)
         | None \<Rightarrow>
      case ta_register a of Some e \<Rightarrow> (Some e, connecting) | None \<Rightarrow>
      let waiting = connecting @ [Wait_writable]
      in case ta_writable a of Some e \<Rightarrow> (Some e, waiting) | None \<Rightarrow>
      let checking = waiting @ [Take_error]
      in case ta_take_error a of Some e \<Rightarrow> (Some e, checking) | None \<Rightarrow> (ta_socket_error a, checking))"

text \<open>
  With a callback, no socket connects before the host has seen its descriptor, and no error is swallowed
  but the one that says the connection is still being made.
\<close>

lemma protected_before_connecting:
  assumes "hk_callback h = Some cb" "platform \<noteq> Other_platform" "connect_tcp platform h v4 a = (r, calls)"
    and "i < length calls" "calls ! i = Connect"
  shows "0 < i \<and> calls ! (i - 1) = Protect cb"
  using assms by (auto simp: connect_tcp_def protect_socket_def Let_def nth_append nth_Cons' split: option.splits if_splits)

lemma connected_without_errors:
  assumes "connect_tcp platform h v4 a = (None, calls)"
  shows "ta_socket a = None \<and> ta_nonblocking a = None \<and> ta_register a = None \<and> ta_writable a = None \<and> ta_take_error a = None
    \<and> ta_socket_error a = None \<and> (case ta_connect a of None \<Rightarrow> True | Some e \<Rightarrow> would_block platform e)"
  using assms by (auto simp: connect_tcp_def Let_def split: option.splits if_splits)

text \<open>A second callback or proxy is ignored: the first one stays for the life of the process.\<close>

lemma first_hook_stays:
  "set_protect b (set_protect a h) = set_protect a h"
  "url \<noteq> [] \<Longrightarrow> set_http_proxy url' (set_http_proxy url h) = set_http_proxy url h"
  by (auto simp: set_protect_def set_http_proxy_def fill_once_def split: option.splits)

section \<open>The descriptor of the tunnel\<close>

text \<open>
  Two loops wait for the listener and for the connection to become readable. An event is the branch of
  the \<open>select\<close> that was taken, with the answer of the system call it makes; a descriptor is a number.
\<close>

datatype tun_error =
    Wait_cancelled
  | Receive_cancelled
  | Not_registered
  | Not_configured
  | Connection_closed
  | No_descriptor
  | Bad_control
  | System_error int

definition EAGAIN :: int where "EAGAIN = 11"

datatype accept_event = Accept_cancelled | Accept_failed int | Accept_answer "int + nat"

text \<open>A message has a number of bytes, and control messages that could be read, of which only descriptors matter.\<close>

datatype control_message = Scm_rights "nat list" | Other_control

datatype receive_event =
    Receive_cancelled_event
  | Receive_failed int
  | Receive_answer "int + (nat \<times> control_message list option)"

text \<open>\<open>None\<close>: none of the events ends the loop, it goes on waiting.\<close>

fun accept_loop :: "(nat \<Rightarrow> bool) \<Rightarrow> accept_event list \<Rightarrow> (tun_error + nat) option" where
  "accept_loop configures [] = None"
| "accept_loop configures (Accept_cancelled # events) = Some (Inl Wait_cancelled)"
| "accept_loop configures (Accept_failed errno # events) = Some (Inl (System_error errno))"
| "accept_loop configures (Accept_answer (Inr descriptor) # events) =
     Some (if configures descriptor then Inr descriptor else Inl Not_configured)"
| "accept_loop configures (Accept_answer (Inl errno) # events) =
     (if errno = EAGAIN then accept_loop configures events else Some (Inl (System_error errno)))"

text \<open>The first descriptor of the first message that carries any; a message that cannot be made nonblocking is an error.\<close>

fun first_descriptor :: "control_message list \<Rightarrow> nat option" where
  "first_descriptor [] = None"
| "first_descriptor (Scm_rights (descriptor # rest) # messages) = Some descriptor"
| "first_descriptor (_ # messages) = first_descriptor messages"

text \<open>The result, and whether the sender gets its acknowledgement.\<close>

definition read_message :: "(nat \<Rightarrow> bool) \<Rightarrow> nat \<times> control_message list option \<Rightarrow> (tun_error + nat) \<times> bool" where
  "read_message configures message =
     (case message of (len, controls) \<Rightarrow>
        if len = 0 then (Inl Connection_closed, False)
        else case controls of
          None \<Rightarrow> (Inl Bad_control, False)
        | Some controls \<Rightarrow>
            (case first_descriptor controls of
               None \<Rightarrow> (Inl No_descriptor, False)
             | Some file \<Rightarrow> if configures file then (Inr file, True) else (Inl Not_configured, False)))"

fun receive_events :: "(nat \<Rightarrow> bool) \<Rightarrow> receive_event list \<Rightarrow> ((tun_error + nat) \<times> bool) option" where
  "receive_events configures [] = None"
| "receive_events configures (Receive_cancelled_event # events) = Some (Inl Receive_cancelled, False)"
| "receive_events configures (Receive_failed errno # events) = Some (Inl (System_error errno), False)"
| "receive_events configures (Receive_answer (Inr message) # events) = Some (read_message configures message)"
| "receive_events configures (Receive_answer (Inl errno) # events) =
     (if errno = EAGAIN then receive_events configures events else Some (Inl (System_error errno), False))"

definition receive_descriptor :: "(nat \<Rightarrow> bool) \<Rightarrow> bool \<Rightarrow> accept_event list \<Rightarrow> receive_event list
    \<Rightarrow> ((tun_error + nat) \<times> bool) option" where
  "receive_descriptor configures registers accepts receives =
     (case accept_loop configures accepts of
        None \<Rightarrow> None
      | Some (Inl e) \<Rightarrow> Some (Inl e, False)
      | Some (Inr _) \<Rightarrow> if registers then receive_events configures receives else Some (Inl Not_registered, False))"

text \<open>\<open>configure_nonblocking\<close> on the answers of its three calls to \<open>fcntl\<close>.\<close>

definition configure_nonblocking :: "int \<Rightarrow> int \<Rightarrow> int \<Rightarrow> bool" where
  "configure_nonblocking status set_flags set_fd \<longleftrightarrow> \<not> (status = -1 \<or> set_flags = -1 \<or> set_fd = -1)"

text \<open>
  The sender is told of a success exactly if there is one, and then the descriptor is nonblocking and came
  with a message; a cancellation ends both loops at once.
\<close>

lemma receive_events_acknowledged:
  "receive_events configures events = Some (r, acknowledged) \<Longrightarrow>
     (acknowledged \<longleftrightarrow> (\<exists>file. r = Inr file)) \<and> (case r of Inr file \<Rightarrow> configures file | Inl _ \<Rightarrow> True)"
  by (induction configures events rule: receive_events.induct)
    (auto simp: read_message_def split: if_splits option.splits prod.splits)

lemma acknowledged_descriptor:
  assumes "receive_descriptor configures registers accepts receives = Some (r, acknowledged)"
  shows "(acknowledged \<longleftrightarrow> (\<exists>file. r = Inr file)) \<and> (case r of Inr file \<Rightarrow> configures file | Inl _ \<Rightarrow> True)"
  using assms
  by (auto simp: receive_descriptor_def dest!: receive_events_acknowledged split: option.splits sum.splits if_splits)

lemma cancelled_descriptor:
  "receive_descriptor configures registers (Accept_cancelled # accepts) receives = Some (Inl Wait_cancelled, False)"
  "configures descriptor \<Longrightarrow> receive_descriptor configures True (Accept_answer (Inr descriptor) # accepts)
     (Receive_cancelled_event # receives) = Some (Inl Receive_cancelled, False)"
  by (simp_all add: receive_descriptor_def)

text \<open>
  Descriptors after the first are neither used nor closed. A message of control data with room for one
  descriptor has room for two on a machine with eight-byte alignment.
\<close>

lemma second_descriptor_is_dropped:
  "first_descriptor (Scm_rights [a, b] # messages) = first_descriptor (Scm_rights [a] # messages)"
  by simp

section \<open>Computations on their own thread\<close>

text \<open>The thread may fail to start, and a task that panics drops its end of the channel.\<close>

datatype 'a thread_outcome = Not_started chars | Died | Finished "chars + 'a"

definition cpu_task_run :: "chars \<Rightarrow> 'a thread_outcome \<Rightarrow> chars + 'a" where
  "cpu_task_run name outcome =
     (case outcome of
        Not_started _ \<Rightarrow> Inl (code_points ''start '' @ name)
      | Died \<Rightarrow> Inl (code_points ''cpu task exited'')
      | Finished r \<Rightarrow> r)"

end
