(* ===== verification/Dispatch_Loops.thy ===== *)
theory Dispatch_Loops
  imports Dispatch Packet_Bridge Udp_Batch Chars "HOL-Library.Sublist"
begin

text \<open>
  The tasks of \<open>dispatcher.rs\<close>: waiting for returned packets, the loops that write them to the bridge, the
  local UDP socket or the TUN device, the loops that read from there, the replacement of a TUN descriptor,
  and the start of a dispatcher. A task is a function of what happens around it, one entry for each of
  its waits: the packets that have been returned meanwhile, a cancellation, and the answers of the system.
\<close>

section \<open>Still_waiting for a returned packet\<close>

datatype 'a waited = Got 'a | Over | Still_waiting

text \<open>
  \<open>PacketReceiver::recv\<close>: a round has what other threads do to the queue before each of the two looks,
  the two flags of cancellation and the senders each look finds.
\<close>

record 'q recv_round =
  rr_cancelled :: bool
  rr_before :: "'q packet_queue \<Rightarrow> 'q packet_queue"
  rr_between :: "'q packet_queue \<Rightarrow> 'q packet_queue"
  rr_cancelled_waiting :: bool

fun queue_recv :: "(queued_packet, 'q) queue_ops \<Rightarrow> 'q recv_round list \<Rightarrow> 'q packet_queue \<Rightarrow> packet_buf waited \<times> 'q packet_queue" where
  "queue_recv Q [] pq = (Still_waiting, pq)"
| "queue_recv Q (look # looks) pq =
     (if rr_cancelled look then (Over, pq)
      else case try_recv Q (rr_before look pq) of
        (Some p, pq) \<Rightarrow> (Got p, pq)
      | (None, pq) \<Rightarrow>
          if pq_senders pq = 0 then (Over, pq)
          else case try_recv Q (rr_between look pq) of
            (Some p, pq) \<Rightarrow> (Got p, pq)
          | (None, pq) \<Rightarrow>
              if pq_senders pq = 0 \<or> rr_cancelled_waiting look then (Over, pq) else queue_recv Q looks pq)"

text \<open>
  \<open>recv_return_packet\<close>: an entry has the packets returned since the last look and whether the wait after
  this look is cancelled. The three receivers polled in that wait look at the lanes in the same order, so
  that waking up is another look.
\<close>

type_synonym lane_wait = "packet_buf list \<times> bool"

definition lanes_closed :: "(queued_packet, 'q) queue_ops \<Rightarrow> 'q lanes \<Rightarrow> bool" where
  "lanes_closed Q = (\<lambda>(latency, priority, bulk). queue_is_closed Q latency \<and> queue_is_closed Q priority \<and> queue_is_closed Q bulk)"

definition return_all :: "(queued_packet, 'q) queue_ops \<Rightarrow> 'q force \<Rightarrow> packet_buf list \<Rightarrow> 'q lanes \<Rightarrow> 'q lanes" where
  "return_all Q F packets lanes = fold (return_packet Q F) packets lanes"

fun recv_return_packet :: "(queued_packet, 'q) queue_ops \<Rightarrow> 'q force \<Rightarrow> lane_wait list \<Rightarrow> 'q lanes
    \<Rightarrow> packet_buf waited \<times> lane_wait list \<times> 'q lanes" where
  "recv_return_packet Q F [] lanes = (Still_waiting, [], lanes)"
| "recv_return_packet Q F ((arrived, cancelled) # waits) lanes =
     (case next_return_packet Q (return_all Q F arrived lanes) of
        (Some p, lanes) \<Rightarrow> (Got p, waits, lanes)
      | (None, lanes) \<Rightarrow>
          if lanes_closed Q lanes \<or> cancelled then (Over, waits, lanes) else recv_return_packet Q F waits lanes)"

lemma recv_return_shorter:
  "recv_return_packet Q F waits lanes = (Got p, waits', lanes') \<Longrightarrow> length waits' < length waits"
  by (induction Q F waits lanes rule: recv_return_packet.induct) (fastforce split: prod.splits option.splits if_splits)+

function recv_ordered :: "(queued_packet, 'q) queue_ops \<Rightarrow> 'q force \<Rightarrow> (nat \<Rightarrow> u64) \<Rightarrow> lane_wait list \<Rightarrow> return_reorder \<Rightarrow> 'q lanes
    \<Rightarrow> packet_buf waited \<times> lane_wait list \<times> return_reorder \<times> 'q lanes" where
  "recv_ordered Q F clock waits r lanes =
     (case reorder_pop r of
        (Some p, r) \<Rightarrow> (Got p, waits, r, lanes)
      | (None, r) \<Rightarrow>
          case recv_return_packet Q F waits lanes of
            (Got p, waits, lanes) \<Rightarrow> recv_ordered Q F clock waits (reorder_push (clock (length waits)) p r) lanes
          | (Over, waits, lanes) \<Rightarrow> (Over, waits, r, lanes)
          | (Still_waiting, waits, lanes) \<Rightarrow> (Still_waiting, waits, r, lanes))"
  by pat_completeness auto
termination
  by (relation "measure (\<lambda>(Q, F, clock, waits, r, lanes). length waits)") (auto dest: recv_return_shorter [OF sym])

declare recv_ordered.simps [simp del]

section \<open>Writing batches\<close>

text \<open>
  What \<open>write_bridge\<close> and \<open>write_udp\<close> have in common: a packet that is waited for, and the batch after it.
  \<open>clock\<close> gives the times of the reassembler while the batch is collected.
\<close>

definition next_batch :: "(queued_packet, 'q) queue_ops \<Rightarrow> 'q force \<Rightarrow> (nat \<Rightarrow> u64) \<Rightarrow> lane_wait list \<Rightarrow> return_reorder \<Rightarrow> 'q lanes
    \<Rightarrow> packet_buf list waited \<times> lane_wait list \<times> return_reorder \<times> 'q lanes" where
  "next_batch Q F clock waits r lanes =
     (case recv_ordered Q F clock waits r lanes of
        (Got p, waits, r, lanes) \<Rightarrow>
          (let class = packet_class_of (pb_slice p) in
           case collect_batch (datagram_batch class - 1) Q clock class r lanes of
             (ps, r, lanes) \<Rightarrow> (Got (p # ps), waits, r, lanes))
      | (Over, rest) \<Rightarrow> (Over, rest)
      | (Still_waiting, rest) \<Rightarrow> (Still_waiting, rest))"

text \<open>The bridge: \<open>n\<close> batches, the bursts handed to the host and the bytes counted.\<close>

fun write_bridge :: "nat \<Rightarrow> (queued_packet, 'q) queue_ops \<Rightarrow> 'q force \<Rightarrow> (nat \<Rightarrow> u64) \<Rightarrow> callbacks \<Rightarrow> lane_wait list
    \<Rightarrow> return_reorder \<Rightarrow> 'q lanes \<Rightarrow> packet_buf list list \<times> bytes list list \<times> nat \<times> return_reorder \<times> 'q lanes" where
  "write_bridge 0 Q F clock cb waits r lanes = ([], [], 0, r, lanes)"
| "write_bridge (Suc n) Q F clock cb waits r lanes =
     (case next_batch Q F clock waits r lanes of
        (Got batch, waits, r, lanes) \<Rightarrow>
          (case write_bridge n Q F clock cb waits r lanes of
             (batches, bursts, down, rest) \<Rightarrow>
               (batch # batches, deliver_downlink_batch cb batch @ bursts, sum_list (map pb_len batch) + down, rest))
      | (_, _, r, lanes) \<Rightarrow> ([], [], 0, r, lanes))"

text \<open>
  \<open>write_udp_batch\<close>: each entry is one round of its loop. The number the kernel reports cannot be trusted
  to fit, and a larger one is a panic at the slice of the packets.
\<close>

datatype send_event = Send_cancelled | Writable_failed | Send_answer "nat io_result"

datatype send_end = Sent_all | Send_stopped | Send_panicked | Send_waiting

fun write_udp_batch :: "send_event list \<Rightarrow> packet_buf list \<Rightarrow> nat \<Rightarrow> nat \<Rightarrow> send_end \<times> nat \<times> nat" where
  "write_udp_batch events packets sent down =
     (if length packets \<le> sent then (Sent_all, sent, down)
      else case events of
        [] \<Rightarrow> (Send_waiting, sent, down)
      | Send_cancelled # _ \<Rightarrow> (Send_stopped, sent, down)
      | Writable_failed # _ \<Rightarrow> (Send_stopped, sent, down)
      | Send_answer (Sys_ok n) # events \<Rightarrow>
          (case slice packets sent (sent + n) of
             None \<Rightarrow> (Send_panicked, sent, down)
           | Some part \<Rightarrow> write_udp_batch events packets (sent + n) (down + sum_list (map pb_len part)))
      | Send_answer Sys_not_ready # events \<Rightarrow> write_udp_batch events packets sent down
      | Send_answer (Sys_error _) # _ \<Rightarrow> (Send_stopped, sent, down))"

text \<open>\<open>write_udp\<close>: each batch with the address known then and the rounds of its sending.\<close>

fun write_udp :: "(queued_packet, 'q) queue_ops \<Rightarrow> 'q force \<Rightarrow> (nat \<Rightarrow> u64) \<Rightarrow> ('a option \<times> send_event list) list \<Rightarrow> lane_wait list
    \<Rightarrow> return_reorder \<Rightarrow> 'q lanes \<Rightarrow> packet_buf list list \<times> ('a \<times> packet_buf) list \<times> nat \<times> return_reorder \<times> 'q lanes" where
  "write_udp Q F clock [] waits r lanes = ([], [], 0, r, lanes)"
| "write_udp Q F clock ((address, events) # batches) waits r lanes =
     (case next_batch Q F clock waits r lanes of
        (Got batch, waits, r, lanes) \<Rightarrow>
          (let (sent, down) = (case address of None \<Rightarrow> (0, 0) | Some _ \<Rightarrow> snd (write_udp_batch events batch 0 0));
               datagrams = (case address of None \<Rightarrow> [] | Some a \<Rightarrow> map (Pair a) (take sent batch))
           in case write_udp Q F clock batches waits r lanes of
                (taken, sent_later, down_later, rest) \<Rightarrow>
                  (batch # taken, datagrams @ sent_later, down + down_later, rest))
      | (_, _, r, lanes) \<Rightarrow> ([], [], 0, r, lanes))"

section \<open>What a writer delivers\<close>

text \<open>The lanes as the writer sees them: packets arrive, and looks at them find one or none.\<close>

datatype lane_label = Arrived packet_buf | Popped u64 packet_buf | Found_none

inductive lane_step :: "(queued_packet, 'q) queue_ops \<Rightarrow> 'q force \<Rightarrow> 'q lanes \<Rightarrow> lane_label \<Rightarrow> 'q lanes \<Rightarrow> bool" for Q F where
  "lane_step Q F lanes (Arrived p) (return_packet Q F p lanes)"
| "next_return_packet Q lanes = (Some p, lanes') \<Longrightarrow> lane_step Q F lanes (Popped t p) lanes'"
| "next_return_packet Q lanes = (None, lanes') \<Longrightarrow> lane_step Q F lanes Found_none lanes'"

fun popped :: "lane_label list \<Rightarrow> (u64 \<times> packet_buf) list" where
  "popped [] = []"
| "popped (Popped t p # ls) = (t, p) # popped ls"
| "popped (_ # ls) = popped ls"

definition reassembled :: "(u64 \<times> packet_buf) list \<Rightarrow> return_reorder \<Rightarrow> return_reorder" where
  "reassembled packets r = fold (\<lambda>(t, p). reorder_push t p) packets r"

text \<open>\<open>emits packets r out r'\<close>: the packets pushed into \<open>r\<close> make \<open>out\<close> come out first and leave \<open>r'\<close>.\<close>

definition emits :: "(u64 \<times> packet_buf) list \<Rightarrow> return_reorder \<Rightarrow> packet_buf list \<Rightarrow> return_reorder \<Rightarrow> bool" where
  "emits packets r out r' \<longleftrightarrow>
     ro_reassembler (reassembled packets r) = ro_reassembler r' \<and> ro_ready (reassembled packets r) = out @ ro_ready r'"

subsection \<open>The reassembler only appends\<close>

lemma drain_appends: "drain_contiguous st (a @ b) = map_prod id ((@) a) (drain_contiguous st b)"
proof (induction st b rule: drain_contiguous.induct)
  case (1 st b)
  then show ?case
    by (cases "position (\<lambda>p. pd_sequence p = fl_expected st) (fl_pending st)") (simp_all add: drain_contiguous.simps [of st])
qed

lemma release_lowest_appends: "release_lowest st now (a @ b) = map_prod id ((@) a) (release_lowest st now b)"
  using drain_appends [of _ a "b @ [_]"]
  by (auto simp: release_lowest_def Let_def drain_appends split: option.splits prod.splits)

lemma release_expired_appends: "release_expired st now (a @ b) = map_prod id ((@) a) (release_expired st now b)"
  by (simp add: release_expired_def release_lowest_appends)

definition appends :: "'v list \<Rightarrow> 's \<times> nat \<times> 'v list \<Rightarrow> 's \<times> nat \<times> 'v list" where
  "appends a = map_prod id (map_prod id ((@) a))"

lemma appends_simps: "appends a (st, pt, out) = (st, pt, a @ out)"
  by (simp add: appends_def)

lemma accept_queue_appends: "accept_queue s v now st pt (a @ b) = appends a (accept_queue s v now st pt b)"
  by (auto simp: accept_queue_def Let_def release_lowest_appends release_expired_appends appends_def split_def)

lemma accept_forward_appends: "accept_forward s v now st pt (a @ b) = appends a (accept_forward s v now st pt b)"
  by (auto simp: accept_forward_def Let_def release_lowest_appends accept_queue_appends appends_def split_def)

lemma accept_at_appends: "accept_at s v now st pt (a @ b) = appends a (accept_at s v now st pt b)"
  using drain_appends [of _ a "_ @ [v]"]
  by (auto simp: accept_at_def Let_def release_expired_appends accept_forward_appends appends_def split_def)

lemma push_at_appends: "push_at h v now ra (a @ b) = map_prod id ((@) a) (push_at h v now ra b)"
  by (simp add: push_at_eq Let_def accept_at_appends split_def appends_def)

lemma reorder_push_ready:
  "ro_reassembler (reorder_push t p (r\<lparr>ro_ready := a @ ro_ready r\<rparr>)) = ro_reassembler (reorder_push t p r)"
  "ro_ready (reorder_push t p (r\<lparr>ro_ready := a @ ro_ready r\<rparr>)) = a @ ro_ready (reorder_push t p r)"
  by (auto simp: reorder_push_def push_at_appends Let_def split_def split: option.splits sum.splits)

subsection \<open>Every writer\<close>

lemma popped_append: "popped (ls @ ms) = popped ls @ popped ms"
  by (induction ls rule: popped.induct) simp_all

lemma reassembled_ready:
  "ro_reassembler (reassembled packets (r\<lparr>ro_ready := a @ ro_ready r\<rparr>)) = ro_reassembler (reassembled packets r)
   \<and> ro_ready (reassembled packets (r\<lparr>ro_ready := a @ ro_ready r\<rparr>)) = a @ ro_ready (reassembled packets r)"
proof (induction packets arbitrary: r)
  case Nil
  then show ?case by (simp add: reassembled_def)
next
  case (Cons tp packets)
  obtain t p where tp: "tp = (t, p)" by (cases tp)
  have "reorder_push t p (r\<lparr>ro_ready := a @ ro_ready r\<rparr>) = (reorder_push t p r)\<lparr>ro_ready := a @ ro_ready (reorder_push t p r)\<rparr>"
    using reorder_push_ready [where t = t and p = p and r = r and a = a] by (intro return_reorder.equality) simp_all
  then show ?case using Cons.IH [of "reorder_push t p r"] by (simp add: reassembled_def tp)
qed

lemma emits_none: "emits [] r [] r"
  by (simp add: emits_def reassembled_def)

lemma emits_pop: "reorder_pop r = (Some p, r') \<Longrightarrow> emits [] r [p] r'"
  by (auto simp: emits_def reassembled_def reorder_pop_def split: list.splits)

lemma emits_trans:
  assumes "emits xs r a r1" "emits ys r1 b r2"
  shows "emits (xs @ ys) r (a @ b) r2"
proof -
  have first: "reassembled xs r = r1\<lparr>ro_ready := a @ ro_ready r1\<rparr>"
    using assms(1) by (intro return_reorder.equality) (simp_all add: emits_def)
  then have "reassembled (xs @ ys) r = reassembled ys (r1\<lparr>ro_ready := a @ ro_ready r1\<rparr>)"
    by (simp add: reassembled_def)
  then show ?thesis using reassembled_ready [where packets = ys and r = r1 and a = a] assms(2) by (simp add: emits_def)
qed

lemma emits_push: "emits [(t, p)] r [] (reorder_push t p r)"
  by (simp add: emits_def reassembled_def)

text \<open>What a run of a writer does: the steps of the lanes, and the packets that come out for those it took.\<close>

definition carries :: "(queued_packet, 'q) queue_ops \<Rightarrow> 'q force \<Rightarrow> return_reorder \<Rightarrow> 'q lanes \<Rightarrow> packet_buf list
    \<Rightarrow> return_reorder \<Rightarrow> 'q lanes \<Rightarrow> bool" where
  "carries Q F r lanes out r' lanes' \<longleftrightarrow> (\<exists>ls. steps (lane_step Q F) lanes ls lanes' \<and> emits (popped ls) r out r')"

lemma carries_refl: "carries Q F r lanes [] r lanes"
  unfolding carries_def by (rule exI [of _ "[]"]) (simp add: steps_Nil emits_none)

lemma carries_trans:
  "carries Q F r lanes a r1 lanes1 \<Longrightarrow> carries Q F r1 lanes1 b r2 lanes2 \<Longrightarrow> carries Q F r lanes (a @ b) r2 lanes2"
  unfolding carries_def by (metis steps_append popped_append emits_trans)

lemma carries_step: "lane_step Q F lanes l lanes' \<Longrightarrow> popped [l] = [] \<Longrightarrow> carries Q F r lanes [] r lanes'"
  unfolding carries_def by (rule exI [of _ "[l]"]) (auto intro: steps_Cons steps_Nil emits_none)

lemma carries_arrivals: "carries Q F r lanes [] r (return_all Q F packets lanes)"
proof (induction packets arbitrary: lanes)
  case Nil
  then show ?case by (simp add: return_all_def carries_refl)
next
  case (Cons p packets)
  have "carries Q F r lanes [] r (return_packet Q F p lanes)" by (rule carries_step) (auto intro: lane_step.intros)
  from carries_trans [OF this Cons.IH] show ?case by (simp add: return_all_def)
qed

lemma carries_push:
  assumes "next_return_packet Q lanes = (Some p, lanes')"
  shows "carries Q F r lanes [] (reorder_push t p r) lanes'"
  unfolding carries_def using assms
  by (intro exI [of _ "[Popped t p]"]) (auto intro: steps_Cons steps_Nil lane_step.intros emits_push)

lemma carries_pop: "reorder_pop r = (Some p, r') \<Longrightarrow> carries Q F r lanes [p] r' lanes"
  unfolding carries_def by (rule exI [of _ "[]"]) (auto intro: steps_Nil emits_pop)

lemma carries_look: "next_return_packet Q lanes = (None, lanes') \<Longrightarrow> carries Q F r lanes [] r lanes'"
  by (rule carries_step) (auto intro: lane_step.intros)

fun got :: "'a waited \<Rightarrow> 'a list" where
  "got (Got x) = [x]"
| "got _ = []"

lemma reorder_pop_None: "reorder_pop r = (None, r') \<Longrightarrow> r' = r"
  by (auto simp: reorder_pop_def split: list.splits)

lemma recv_return_carries:
  "recv_return_packet Q F waits lanes = (res, waits', lanes') \<Longrightarrow>
     (case res of Got p \<Rightarrow> carries Q F r lanes [] (reorder_push t p r) lanes' | _ \<Rightarrow> carries Q F r lanes [] r lanes')"
proof (induction Q F waits lanes rule: recv_return_packet.induct)
  case (1 Q F lanes)
  then show ?case by (auto simp: carries_refl)
next
  case (2 Q F arrived cancelled waits lanes)
  let ?lanes = "return_all Q F arrived lanes"
  have arrive: "carries Q F r lanes [] r ?lanes" by (rule carries_arrivals)
  obtain a l where look: "next_return_packet Q ?lanes = (a, l)" by (metis surj_pair)
  show ?case
  proof (cases a)
    case (Some p)
    then have "res = Got p" "lanes' = l" using 2(2) look by auto
    then show ?thesis using carries_trans [OF arrive carries_push] look Some by fastforce
  next
    case None
    have to_l: "carries Q F r lanes [] r l" using carries_trans [OF arrive carries_look] look None by fastforce
    show ?thesis
    proof (cases "lanes_closed Q l \<or> cancelled")
      case True
      then show ?thesis using 2(2) look None to_l by auto
    next
      case False
      then have "recv_return_packet Q F waits l = (res, waits', lanes')" using 2(2) look None by simp
      then have "case res of Got p \<Rightarrow> carries Q F r l [] (reorder_push t p r) lanes' | _ \<Rightarrow> carries Q F r l [] r lanes'"
        using 2(1) [OF look [symmetric] None False] by blast
      then show ?thesis using carries_trans [OF to_l] by (cases res) fastforce+
    qed
  qed
qed

lemma recv_ordered_carries:
  "recv_ordered Q F clock waits r lanes = (res, waits', r', lanes') \<Longrightarrow> carries Q F r lanes (got res) r' lanes'"
proof (induction Q F clock waits r lanes rule: recv_ordered.induct)
  case (1 Q F clock waits r lanes)
  obtain a r1 where pop: "reorder_pop r = (a, r1)" by fastforce
  show ?case
  proof (cases a)
    case (Some p)
    then show ?thesis using 1(2) pop by (auto simp: recv_ordered.simps [of _ _ _ _ r] carries_pop)
  next
    case None
    then have r1: "r1 = r" using pop reorder_pop_None by blast
    obtain b waits1 lanes1 where wait: "recv_return_packet Q F waits lanes = (b, waits1, lanes1)" by (metis prod_cases3)
    note w = recv_return_carries [OF wait, of r "clock (length waits1)"]
    show ?thesis
    proof (cases b)
      case (Got p)
      then have "recv_ordered Q F clock waits1 (reorder_push (clock (length waits1)) p r) lanes1 = (res, waits', r', lanes')"
        using 1(2) pop None r1 wait by (simp add: recv_ordered.simps [of _ _ _ _ r])
      then have "carries Q F (reorder_push (clock (length waits1)) p r) lanes1 (got res) r' lanes'"
        using 1(1) [OF pop [symmetric] None wait [symmetric] Got refl] r1 by blast
      then show ?thesis using carries_trans [of Q F r lanes "[]"] w Got by fastforce
    qed (use 1(2) pop None r1 wait w in \<open>auto simp: recv_ordered.simps [of _ _ _ _ r]\<close>)
  qed
qed

lemma ordered_loop_carries:
  "ordered_loop n Q clock r lanes = (res, r', lanes') \<Longrightarrow>
     carries Q F r lanes (case res of Some p \<Rightarrow> [p] | None \<Rightarrow> []) r' lanes'"
proof (induction n arbitrary: r lanes)
  case 0
  then show ?case
    by (cases "reorder_pop r") (auto dest: reorder_pop_None simp: carries_refl carries_pop split: option.split)
next
  case (Suc n)
  obtain a r1 where pop: "reorder_pop r = (a, r1)" by fastforce
  show ?case
  proof (cases a)
    case (Some p)
    then show ?thesis using Suc.prems pop by (auto simp: carries_pop)
  next
    case None
    then have r1: "r1 = r" using pop reorder_pop_None by blast
    obtain b lanes1 where look: "next_return_packet Q lanes = (b, lanes1)" by (metis surj_pair)
    show ?thesis
    proof (cases b)
      case None
      then show ?thesis using Suc.prems pop \<open>a = None\<close> r1 look by (auto simp: carries_look)
    next
      case (Some p)
      then have "ordered_loop n Q clock (reorder_push (clock n) p r) lanes1 = (res, r', lanes')"
        using Suc.prems pop None r1 look by simp
      from carries_trans [OF carries_push [OF look [unfolded Some]] Suc.IH [OF this]] show ?thesis by simp
    qed
  qed
qed

lemma collect_batch_carries:
  "collect_batch n Q clock c r lanes = (ps, r', lanes') \<Longrightarrow> carries Q F r lanes ps r' lanes'"
proof (induction n arbitrary: r lanes ps)
  case 0
  then show ?case by (simp add: carries_refl)
next
  case (Suc n)
  obtain a r1 lanes1 where next': "next_ordered_return_packet Q clock r lanes = (a, r1, lanes1)" by (metis prod_cases3)
  then have first: "carries Q F r lanes (case a of Some p \<Rightarrow> [p] | None \<Rightarrow> []) r1 lanes1"
    unfolding next_ordered_return_packet_def by (rule ordered_loop_carries)
  show ?case
  proof (cases "higher_priority_waiting Q c lanes")
    case True
    then show ?thesis using Suc.prems by (simp add: carries_refl)
  next
    case False
    show ?thesis
    proof (cases a)
      case None
      then show ?thesis using Suc.prems False next' first by auto
    next
      case (Some p)
      show ?thesis
      proof (cases "packet_class_of (pb_slice p) = c")
        case True
        then obtain qs where "collect_batch n Q clock c r1 lanes1 = (qs, r', lanes')" "ps = p # qs"
          using Suc.prems False next' Some by (auto split: prod.splits)
        then show ?thesis using carries_trans [OF first] Suc.IH Some by fastforce
      next
        case other: False
        then have "ps = []" "r' = r1\<lparr>ro_ready := p # ro_ready r1\<rparr>" "lanes' = lanes1"
          using Suc.prems False next' Some by auto
        then show ?thesis using first Some by (auto simp: carries_def emits_def)
      qed
    qed
  qed
qed

lemma next_batch_carries:
  assumes "next_batch Q F clock waits r lanes = (res, waits', r', lanes')"
  shows "carries Q F r lanes (concat (got res)) r' lanes'"
proof -
  obtain a waits1 r1 lanes1 where first: "recv_ordered Q F clock waits r lanes = (a, waits1, r1, lanes1)" by (metis prod_cases4)
  note one = recv_ordered_carries [OF first]
  show ?thesis
  proof (cases a)
    case (Got p)
    let ?c = "packet_class_of (pb_slice p)"
    obtain ps r2 lanes2 where rest: "collect_batch (datagram_batch ?c - 1) Q clock ?c r1 lanes1 = (ps, r2, lanes2)" by (metis prod_cases3)
    have "res = Got (p # ps)" "r' = r2" "lanes' = lanes2"
      using assms first Got rest by (auto simp: next_batch_def Let_def)
    then show ?thesis using carries_trans [OF one collect_batch_carries [OF rest]] Got by simp
  qed (use assms first one in \<open>auto simp: next_batch_def\<close>)
qed

lemma write_bridge_carries:
  "write_bridge n Q F clock cb waits r lanes = (batches, bursts, down, r', lanes') \<Longrightarrow>
     carries Q F r lanes (concat batches) r' lanes' \<and> down = sum_list (map pb_len (concat batches))
     \<and> bursts = concat (map (deliver_downlink_batch cb) batches)"
proof (induction n arbitrary: waits r lanes batches bursts down r' lanes')
  case 0
  then show ?case by (auto simp: carries_refl)
next
  case (Suc n)
  obtain a waits1 r1 lanes1 where batch: "next_batch Q F clock waits r lanes = (a, waits1, r1, lanes1)" by (metis prod_cases4)
  note one = next_batch_carries [OF batch]
  show ?case
  proof (cases a)
    case (Got b)
    obtain bs us d r2 lanes2 where rest: "write_bridge n Q F clock cb waits1 r1 lanes1 = (bs, us, d, r2, lanes2)" by (metis prod_cases5)
    have "carries Q F r lanes (concat (got a) @ concat bs) r2 lanes2" using carries_trans [OF one] Suc.IH [OF rest] by blast
    then show ?thesis using Suc.IH [OF rest] Suc.prems batch rest Got by auto
  qed (use Suc.prems batch one in auto)
qed

lemma write_udp_batch_sent:
  "write_udp_batch events packets sent down = (e, sent', down') \<Longrightarrow> sent \<le> length packets \<Longrightarrow>
     sent \<le> sent' \<and> sent' \<le> length packets \<and> down' = down + sum_list (map pb_len (sub packets sent sent'))
     \<and> (e = Sent_all \<longrightarrow> sent' = length packets)"
proof (induction events packets sent down rule: write_udp_batch.induct)
  case (1 events packets sent down)
  show ?case
  proof (cases "length packets \<le> sent")
    case True
    then show ?thesis using 1(3,4) by (auto simp: sub_empty)
  next
    case False
    show ?thesis
    proof (cases events)
      case Nil
      then show ?thesis using 1(3,4) False by (auto simp: sub_empty)
    next
      case (Cons ev events')
      show ?thesis
      proof (cases ev)
        case (Send_answer answer)
        show ?thesis
        proof (cases answer)
          case (Sys_ok n)
          show ?thesis
          proof (cases "slice packets sent (sent + n)")
            case None
            then show ?thesis using 1(3,4) False Cons Send_answer Sys_ok by (auto simp: sub_empty)
          next
            case (Some part)
            then have part: "part = sub packets sent (sent + n)" "sent + n \<le> length packets"
              by (auto simp: slice_def split: if_splits)
            have rest: "write_udp_batch events' packets (sent + n) (down + sum_list (map pb_len part)) = (e, sent', down')"
              using 1(3) False Cons Send_answer Sys_ok Some by simp
            from 1(1) [OF False Cons Send_answer Sys_ok Some rest part(2)]
            have IH: "sent + n \<le> sent'" "sent' \<le> length packets" "e = Sent_all \<longrightarrow> sent' = length packets"
              "down' = down + sum_list (map pb_len part) + sum_list (map pb_len (sub packets (sent + n) sent'))" by auto
            have "sub packets sent sent' = part @ sub packets (sent + n) sent'"
              using sub_split [of sent "sent + n" sent' packets] IH(1,2) part by simp
            then show ?thesis using IH by simp
          qed
        next
          case (Sys_error c)
          then show ?thesis using 1(3,4) False Cons Send_answer by (auto simp: sub_empty)
        next
          case Sys_not_ready
          then have "write_udp_batch events' packets sent down = (e, sent', down')" using 1(3) False Cons Send_answer by simp
          from 1(2) [OF False Cons Send_answer Sys_not_ready this 1(4)] show ?thesis .
        qed
      qed (use 1(3,4) False Cons in \<open>auto simp: sub_empty\<close>)
    qed
  qed
qed

lemma write_udp_carries:
  "write_udp Q F clock batches waits r lanes = (taken, sent, down, r', lanes') \<Longrightarrow>
     carries Q F r lanes (concat taken) r' lanes' \<and> subseq (map snd sent) (concat taken)
     \<and> down = sum_list (map (\<lambda>d. pb_len (snd d)) sent)"
proof (induction batches arbitrary: waits r lanes taken sent down r' lanes')
  case Nil
  then show ?case by (auto simp: carries_refl)
next
  case (Cons ae batches)
  obtain address events where ae: "ae = (address, events)" by (cases ae)
  obtain a waits1 r1 lanes1 where batch: "next_batch Q F clock waits r lanes = (a, waits1, r1, lanes1)" by (metis prod_cases4)
  note one = next_batch_carries [OF batch]
  show ?case
  proof (cases a)
    case (Got b)
    obtain tk st dn r2 lanes2 where rest: "write_udp Q F clock batches waits1 r1 lanes1 = (tk, st, dn, r2, lanes2)" by (metis prod_cases5)
    obtain k d where kd: "(case address of None \<Rightarrow> (0, 0) | Some _ \<Rightarrow> snd (write_udp_batch events b 0 0)) = (k, d)" by fastforce
    let ?now = "case address of None \<Rightarrow> [] | Some a \<Rightarrow> map (Pair a) (take k b)"
    have d: "d = sum_list (map (\<lambda>x. pb_len (snd x)) ?now)"
    proof (cases address)
      case None
      then show ?thesis using kd by simp
    next
      case (Some x)
      obtain e where "write_udp_batch events b 0 0 = (e, k, d)" using kd Some by (cases "write_udp_batch events b 0 0") auto
      from write_udp_batch_sent [OF this] show ?thesis by (simp add: Some o_def sub_0)
    qed
    have eq: "taken = b # tk" "sent = ?now @ st" "down = d + dn" "r' = r2" "lanes' = lanes2"
      using Cons.prems batch Got rest kd by (simp_all add: ae Let_def)
    have "subseq (map snd ?now) b" by (cases address) (simp_all add: o_def prefix_imp_subseq take_is_prefix)
    moreover have "carries Q F r lanes (concat (got a) @ concat tk) r2 lanes2" using carries_trans [OF one] Cons.IH [OF rest] by blast
    ultimately show ?thesis using Cons.IH [OF rest] Got d by (simp add: eq list_emb_append_mono)
  qed (use Cons.prems batch one in \<open>auto simp: ae\<close>)
qed

text \<open>
  C38: Returned packets reach the host in the order the reassembler gives them: over any number of batches
  of both writers, with packets arriving in between at will, what a writer takes out is exactly what comes
  out of the reassembler for the packets popped from the three lanes in that order; the bridge hands all of
  them to the host, the socket sends some of them without changing their order, and the bytes counted
  are those of the packets delivered.
\<close>

theorem returned_packets_keep_their_order:
  "(case write_bridge n Q F clock cb waits r lanes of (batches, bursts, down, r', lanes') \<Rightarrow>
      carries Q F r lanes (concat batches) r' lanes' \<and> bursts = concat (map (deliver_downlink_batch cb) batches)
      \<and> down = sum_list (map pb_len (concat batches)))
   \<and> (case write_udp Q F clock addressed waits r lanes of (taken, sent, down, r', lanes') \<Rightarrow>
      carries Q F r lanes (concat taken) r' lanes' \<and> subseq (map snd sent) (concat taken)
      \<and> down = sum_list (map (\<lambda>d. pb_len (snd d)) sent))"
  by (auto dest!: write_bridge_carries write_udp_carries split: prod.splits)

section \<open>Writing to the TUN device\<close>

text \<open>
  A round of \<open>write_tun\<close>: the waits for a packet if none is pending, whether the wait for the device was
  cancelled or failed, the results of the writes, and whether the pause after a full device was cancelled.
\<close>

record tun_round =
  tr_waits :: "lane_wait list"
  tr_cancelled :: bool
  tr_failed :: bool
  tr_results :: "nat io_result list"
  tr_pause_cancelled :: bool

datatype task_end = Task_goes_on | Task_ended

fun write_tun_round :: "(queued_packet, 'q) queue_ops \<Rightarrow> 'q force \<Rightarrow> (nat \<Rightarrow> u64) \<Rightarrow> tun_round
    \<Rightarrow> (packet_buf \<times> nat) option \<times> return_reorder \<times> 'q lanes
    \<Rightarrow> task_end \<times> ((packet_buf \<times> nat) option \<times> return_reorder \<times> 'q lanes) \<times> nat" where
  "write_tun_round Q F clock turn (pending, r, lanes) =
     (case (case pending of
              Some x \<Rightarrow> (Got x, r, lanes)
            | None \<Rightarrow> (case recv_ordered Q F clock (tr_waits turn) r lanes of
                 (Got p, _, r, lanes) \<Rightarrow> (Got (p, 0), r, lanes)
               | (Over, _, r, lanes) \<Rightarrow> (Over, r, lanes)
               | (Still_waiting, _, r, lanes) \<Rightarrow> (Still_waiting, r, lanes))) of
        (Over, r, lanes) \<Rightarrow> (Task_ended, (None, r, lanes), 0)
      | (Still_waiting, r, lanes) \<Rightarrow> (Task_goes_on, (None, r, lanes), 0)
      | (Got (packet, written), r, lanes) \<Rightarrow>
          if tr_cancelled turn \<or> tr_failed turn then (Task_ended, (Some (packet, written), r, lanes), 0)
          else case write_tun_burst Q clock 0 (tr_results turn) packet written r lanes 0 of
            (state, pending, r, lanes, down) \<Rightarrow>
              ((case state of
                  Tw_backoff \<Rightarrow> if tr_pause_cancelled turn then Task_ended else Task_goes_on
                | Tw_closed \<Rightarrow> Task_ended
                | Tw_failed \<Rightarrow> Task_ended
                | _ \<Rightarrow> Task_goes_on), (pending, r, lanes), down))"

fun write_tun :: "(queued_packet, 'q) queue_ops \<Rightarrow> 'q force \<Rightarrow> (nat \<Rightarrow> u64) \<Rightarrow> tun_round list
    \<Rightarrow> (packet_buf \<times> nat) option \<times> return_reorder \<times> 'q lanes
    \<Rightarrow> task_end \<times> ((packet_buf \<times> nat) option \<times> return_reorder \<times> 'q lanes) \<times> nat" where
  "write_tun Q F clock [] s = (Task_goes_on, s, 0)"
| "write_tun Q F clock (turn # turns) s =
     (case write_tun_round Q F clock turn s of
        (Task_ended, s, down) \<Rightarrow> (Task_ended, s, down)
      | (Task_goes_on, s, down) \<Rightarrow> (case write_tun Q F clock turns s of (e, s, later) \<Rightarrow> (e, s, down + later)))"

text \<open>Reading: the readiness and, if it came, the results of the reads.\<close>

datatype 'r readiness = Ready_cancelled | Ready_failed | Ready_for 'r

fun read_tun :: "(queued_packet, 'q) queue_ops \<Rightarrow> 'q force \<Rightarrow> (bytes, 'p) queue_ops \<Rightarrow> bytes \<Rightarrow> nat list
    \<Rightarrow> bytes io_result list readiness list \<Rightarrow> ('q, 'p) uplink_state \<Rightarrow> task_end \<times> ('q, 'p) uplink_state" where
  "read_tun Q F P fresh source [] s = (Task_goes_on, s)"
| "read_tun Q F P fresh source (Ready_cancelled # _) s = (Task_ended, s)"
| "read_tun Q F P fresh source (Ready_failed # _) s = (Task_ended, s)"
| "read_tun Q F P fresh source (Ready_for results # turns) s =
     (case read_tun_burst Q F P fresh source 0 results s of
        (True, s) \<Rightarrow> read_tun Q F P fresh source turns s
      | (False, s) \<Rightarrow> (Task_ended, s))"

section \<open>The local UDP socket\<close>

text \<open>
  A round of \<open>read_udp\<close>. A batch is as large as the pool allows; the datagrams fill its first packets, the
  others go back. An empty batch and an error are followed by a pause, which a cancellation ends.
\<close>

fun acquire_batch :: "nat \<Rightarrow> (bytes, 'p) queue_ops \<Rightarrow> bytes \<Rightarrow> 'p packet_pool \<Rightarrow> packet_buf list \<times> 'p packet_pool" where
  "acquire_batch 0 P fresh pool = ([], pool)"
| "acquire_batch (Suc n) P fresh pool =
     (case try_acquire P fresh pool of
        (None, pool) \<Rightarrow> ([], pool)
      | (Some packet, pool) \<Rightarrow> (case acquire_batch n P fresh pool of (packets, pool) \<Rightarrow> (packet # packets, pool)))"

datatype 'a udp_answer =
    Datagrams "(bytes \<times> 'a) list"
  | Udp_would_block
  | Udp_failed

text \<open>\<open>fill\<close> is what the receive call does to the packets: it writes each datagram and sets its length.\<close>

definition fill :: "packet_buf list \<Rightarrow> (bytes \<times> 'a) list \<Rightarrow> (packet_buf \<times> 'a) list" where
  "fill packets datagrams =
     map (\<lambda>(packet, (d, address)).
        ((case set_read_len (length d) (write_read_area d packet) of Inl _ \<Rightarrow> packet | Inr p \<Rightarrow> p), address))
       (zip packets datagrams)"

definition read_udp_round :: "(queued_packet, 'q) queue_ops \<Rightarrow> 'q force \<Rightarrow> (bytes, 'p) queue_ops \<Rightarrow> bytes \<Rightarrow> nat list
    \<Rightarrow> 'a udp_answer readiness \<Rightarrow> bool \<Rightarrow> 'a option \<times> ('q, 'p) uplink_state \<Rightarrow> task_end \<times> 'a option \<times> ('q, 'p) uplink_state" where
  "read_udp_round Q F P fresh source ready pause_cancelled cs =
     (let paused = (if pause_cancelled then Task_ended else Task_goes_on) in
      case ready of
        Ready_cancelled \<Rightarrow> (Task_ended, cs)
      | Ready_failed \<Rightarrow> (paused, cs)
      | Ready_for answer \<Rightarrow>
          (case cs of (client, s) \<Rightarrow>
           case acquire_batch MAX_DATAGRAMS P fresh (ds_pool (up_dispatch s)) of (packets, pool) \<Rightarrow>
           let s = s\<lparr>up_dispatch := (up_dispatch s)\<lparr>ds_pool := pool\<rparr>\<rparr>;
               given_back = (\<lambda>n s. s\<lparr>up_dispatch := (up_dispatch s)\<lparr>ds_pool :=
                  fold (\<lambda>packet pool. release P (pb_storage packet) pool) (drop n packets) (ds_pool (up_dispatch s))\<rparr>\<rparr>) in
           if packets = [] then (paused, client, s)
           else case answer of
             Datagrams datagrams \<Rightarrow>
               (case read_udp_batch Q F P fresh source (fill packets datagrams) (client, s) of
                  (client, s) \<Rightarrow> (Task_goes_on, client, given_back (length datagrams) s))
           | Udp_would_block \<Rightarrow> (Task_goes_on, client, given_back 0 s)
           | Udp_failed \<Rightarrow> (paused, client, given_back 0 s)))"

section \<open>The start of a dispatcher\<close>

definition RETURN_CAPACITY :: nat where "RETURN_CAPACITY = 1024"
definition RETURN_LATENCY_CAPACITY :: nat where "RETURN_LATENCY_CAPACITY = 128"
definition RETURN_PRIORITY_CAPACITY :: nat where "RETURN_PRIORITY_CAPACITY = 384"
definition RETURN_BULK_CAPACITY :: nat where
  "RETURN_BULK_CAPACITY = RETURN_CAPACITY - RETURN_LATENCY_CAPACITY - RETURN_PRIORITY_CAPACITY"

datatype dispatch_mode = Serve_tun | Serve_bridge | Serve_udp

definition dispatch_mode_of :: "bool \<Rightarrow> bool \<Rightarrow> dispatch_mode" where
  "dispatch_mode_of tun_uds packet_bridge = (if tun_uds then Serve_tun else if packet_bridge then Serve_bridge else Serve_udp)"

definition return_lanes :: "(queued_packet, 'q) queue_ops \<Rightarrow> dispatch_mode \<Rightarrow> 'q lanes" where
  "return_lanes Q mode =
     (packet_channel Q RETURN_LATENCY_CAPACITY (mode \<noteq> Serve_tun), packet_channel Q RETURN_PRIORITY_CAPACITY (mode \<noteq> Serve_tun),
      packet_channel Q RETURN_BULK_CAPACITY (mode \<noteq> Serve_tun))"

text \<open>The tasks started and the port to report; \<open>bound\<close> is the port of the socket, or the error of binding it.\<close>

datatype dispatch_task = Tun_receiver | Tun_dispatcher | Bridge_reader | Bridge_writer | Udp_reader | Udp_writer

definition start_dispatcher :: "(queued_packet, 'q) queue_ops \<Rightarrow> bool \<Rightarrow> bool \<Rightarrow> 'e option \<Rightarrow> 'e + nat
    \<Rightarrow> 'e + (dispatch_task list \<times> 'q lanes \<times> chars)" where
  "start_dispatcher Q tun_uds packet_bridge listener bound =
     (let mode = dispatch_mode_of tun_uds packet_bridge; lanes = return_lanes Q mode in
      case mode of
        Serve_tun \<Rightarrow> (case listener of Some e \<Rightarrow> Inl e | None \<Rightarrow> Inr ([Tun_dispatcher, Tun_receiver], lanes, code_points ''0''))
      | Serve_bridge \<Rightarrow> Inr ([Bridge_reader, Bridge_writer], lanes, code_points ''0'')
      | Serve_udp \<Rightarrow> (case bound of Inl e \<Rightarrow> Inl e | Inr port \<Rightarrow> Inr ([Udp_reader, Udp_writer], lanes, digits port)))"

text \<open>A task of its own that panics takes the others down with it.\<close>

definition spawn_critical :: "bool \<Rightarrow> bool \<Rightarrow> bool" where
  "spawn_critical panicked cancelled \<longleftrightarrow> cancelled \<or> panicked"

section \<open>The TUN descriptor\<close>

text \<open>
  The task of the TUN device, with \<open>run_tun\<close> inside: waiting for the first descriptor, serving one, or
  without one because its reader or writer ended. A descriptor that cannot be registered leads back to the
  first wait. The writer keeps the packet it is at and its reassembler as long as it serves one descriptor.
\<close>

datatype tun_mode = Tun_idle | Tun_serving nat | Tun_without | Tun_over

record 'q tun_task =
  tt_mode :: tun_mode
  tt_pending :: "(packet_buf \<times> nat) option"
  tt_reorder :: return_reorder
  tt_lanes :: "'q lanes"

datatype tun_event =
    Tun_file nat
  | Tun_files_over
  | Tun_cancelled
  | Tun_returned packet_buf
  | Tun_written tun_round
  | Tun_reader_ended

definition new_tun_task :: "(queued_packet, 'q) queue_ops \<Rightarrow> 'q tun_task" where
  "new_tun_task Q = \<lparr>tt_mode = Tun_idle, tt_pending = None, tt_reorder = new_reorder, tt_lanes = return_lanes Q Serve_tun\<rparr>"

definition resume_lanes :: "(queued_packet, 'q) queue_ops \<Rightarrow> 'q lanes \<Rightarrow> 'q lanes" where
  "resume_lanes Q = (\<lambda>(latency, priority, bulk). (resume Q latency, resume Q priority, resume Q bulk))"

definition serve :: "(nat \<Rightarrow> bool) \<Rightarrow> nat \<Rightarrow> 'q tun_task \<Rightarrow> 'q tun_task" where
  "serve registers file s =
     s\<lparr>tt_mode := (if registers file then Tun_serving file else Tun_idle), tt_pending := None, tt_reorder := new_reorder\<rparr>"

definition without_device :: "tun_mode \<Rightarrow> 'q tun_task \<Rightarrow> 'q tun_task" where
  "without_device mode s = s\<lparr>tt_mode := mode, tt_pending := None, tt_reorder := new_reorder\<rparr>"

definition tun_step :: "(queued_packet, 'q) queue_ops \<Rightarrow> 'q force \<Rightarrow> (nat \<Rightarrow> u64) \<Rightarrow> (nat \<Rightarrow> bool) \<Rightarrow> tun_event
    \<Rightarrow> 'q tun_task \<Rightarrow> 'q tun_task" where
  "tun_step Q F clock registers event s =
     (case event of
        Tun_returned p \<Rightarrow> s\<lparr>tt_lanes := return_packet Q F p (tt_lanes s)\<rparr>
      | Tun_cancelled \<Rightarrow> without_device Tun_over s
      | Tun_files_over \<Rightarrow> without_device Tun_over s
      | Tun_file file \<Rightarrow>
          (case tt_mode s of
             Tun_over \<Rightarrow> s
           | Tun_idle \<Rightarrow> serve registers file (s\<lparr>tt_lanes := resume_lanes Q (tt_lanes s)\<rparr>)
           | _ \<Rightarrow> serve registers file s)
      | Tun_reader_ended \<Rightarrow> (case tt_mode s of Tun_serving _ \<Rightarrow> without_device Tun_without s | _ \<Rightarrow> s)
      | Tun_written turn \<Rightarrow>
          (case tt_mode s of
             Tun_serving _ \<Rightarrow>
               (case write_tun_round Q F clock turn (tt_pending s, tt_reorder s, tt_lanes s) of
                  (e, (pending, r, lanes), _) \<Rightarrow>
                    (let s = s\<lparr>tt_pending := pending, tt_reorder := r, tt_lanes := lanes\<rparr>
                     in case e of Task_goes_on \<Rightarrow> s | Task_ended \<Rightarrow> without_device Tun_without s))
           | _ \<Rightarrow> s))"

text \<open>
  Before the first descriptor nothing is kept for the device: packets that return are refused, so that none
  of an earlier life of the tunnel reaches the new one.
\<close>

definition lane_idle :: "(queued_packet, 'q) queue_ops \<Rightarrow> 'q packet_queue \<Rightarrow> bool" where
  "lane_idle Q pq \<longleftrightarrow> pq_state pq = 0 \<and> q_items Q (pq_queue pq) = []"

definition lanes_idle :: "(queued_packet, 'q) queue_ops \<Rightarrow> 'q lanes \<Rightarrow> bool" where
  "lanes_idle Q = (\<lambda>(latency, priority, bulk). lane_idle Q latency \<and> lane_idle Q priority \<and> lane_idle Q bulk)"

fun brings_file :: "tun_event \<Rightarrow> bool" where
  "brings_file (Tun_file _) = True"
| "brings_file _ = False"

lemma idle_refuses: "lane_idle Q pq \<Longrightarrow> send_inner Q F p force pq = (Inl p, pq)"
  by (simp add: lane_idle_def send_inner_def send_check_def)

lemma lanes_idle_return: "lanes_idle Q lanes \<Longrightarrow> return_packet Q F p lanes = lanes"
  by (auto simp: lanes_idle_def return_packet_def idle_refuses split: packet_class.split)

lemma tun_idle_step:
  assumes "lanes_idle Q (tt_lanes s)" "tt_mode s \<in> {Tun_idle, Tun_over}" "\<not> brings_file event"
  shows "lanes_idle Q (tt_lanes (tun_step Q F clock registers event s))
    \<and> tt_mode (tun_step Q F clock registers event s) \<in> {Tun_idle, Tun_over}"
  using assms by (cases event; cases "tt_mode s") (auto simp: tun_step_def without_device_def lanes_idle_return)

lemma nothing_kept_before_the_first_file:
  assumes "array_queue_ok Q" "list_all (\<lambda>e. \<not> brings_file e) events"
  shows "lanes_idle Q (tt_lanes (fold (tun_step Q F clock registers) events (new_tun_task Q)))"
proof -
  have "lanes_idle Q (tt_lanes (fold (tun_step Q F clock registers) events s)) \<and> tt_mode (fold (tun_step Q F clock registers) events s) \<in> {Tun_idle, Tun_over}"
    if "lanes_idle Q (tt_lanes s)" "tt_mode s \<in> {Tun_idle, Tun_over}" for s
    using assms(2) that
  proof (induction events arbitrary: s)
    case (Cons e es)
    have e: "\<not> brings_file e" and es: "list_all (\<lambda>e. \<not> brings_file e) es" using Cons.prems(1) by simp_all
    have "lanes_idle Q (tt_lanes (tun_step Q F clock registers e s))" "tt_mode (tun_step Q F clock registers e s) \<in> {Tun_idle, Tun_over}"
      using tun_idle_step [OF Cons.prems(2,3) e] by blast+
    from Cons.IH [OF es this] show ?case by simp
  qed simp
  moreover have "lanes_idle Q (tt_lanes (new_tun_task Q))"
    using queue_new [OF assms(1)] by (simp add: lanes_idle_def lane_idle_def new_tun_task_def return_lanes_def packet_channel_def)
  ultimately show ?thesis by (simp add: new_tun_task_def)
qed

text \<open>
  A descriptor that replaces a served one takes over the lanes as they are. What the writer held for the old
  one is gone: the packet it was writing, those that were ready, and those that waited for a gap.
\<close>

lemma replacement_drops_what_the_writer_holds:
  assumes "tt_mode s = Tun_serving old" "registers file"
  shows "tun_step Q F clock registers (Tun_file file) s
    = s\<lparr>tt_mode := Tun_serving file, tt_pending := None, tt_reorder := new_reorder\<rparr>"
  using assms by (simp add: tun_step_def serve_def)

end
