(* ===== verification/Writer_Loops.thy ===== *)
theory Writer_Loops
  imports Session_Writer Turn_Stream Turn_Endpoint Sockets
begin

text \<open>
  The two loops that write towards a relay: \<open>writer_loop\<close> of \<open>session.rs\<close>, which takes commands and packets
  and hands them to the transport, and \<open>writer_loop\<close> of \<open>turn_stream.rs\<close>, which writes the frames of a TURN
  stream to its TCP or TLS connection, with the opening of that connection.
\<close>

section \<open>Opening a TURN stream\<close>

datatype stream_connect_error =
    Tcp_failed os_error
  | Nodelay_failed
  | Not_tls
  | Name_is_address
  | Name_invalid
  | Tls_failed
  | Udp_endpoint

text \<open>\<open>is_address\<close> is the standard library's parser of IP addresses.\<close>

definition tls_server_name :: "(chars \<Rightarrow> bool) \<Rightarrow> turn_endpoint \<Rightarrow> stream_connect_error + chars" where
  "tls_server_name is_address e =
     (if te_transport e \<noteq> Wire_tls then Inl Not_tls
      else if is_address (te_host e) then Inl Name_is_address
      else Inr (te_host e))"

text \<open>
  The answers of the system and the TLS library: the TCP connection, the option, whether the name is one
  that TLS accepts, and the handshake. The result names what the stream is over.
\<close>

record stream_answers =
  sa_tcp :: "os_error option"
  sa_nodelay :: bool
  sa_valid_name :: "chars \<Rightarrow> bool"
  sa_handshake :: bool

definition stream_connect :: "(chars \<Rightarrow> bool) \<Rightarrow> turn_endpoint \<Rightarrow> stream_answers \<Rightarrow> stream_connect_error + chars option" where
  "stream_connect is_address e a =
     (case sa_tcp a of Some error \<Rightarrow> Inl (Tcp_failed error) | None \<Rightarrow>
      if \<not> sa_nodelay a then Inl Nodelay_failed
      else case te_transport e of
        Wire_tcp \<Rightarrow> Inr None
      | Wire_tls \<Rightarrow>
          (case tls_server_name is_address e of
             Inl error \<Rightarrow> Inl error
           | Inr name \<Rightarrow>
               if \<not> sa_valid_name a name then Inl Name_invalid
               else if \<not> sa_handshake a then Inl Tls_failed
               else Inr (Some name))
      | Wire_udp \<Rightarrow> Inl Udp_endpoint)"

text \<open>A relay that asks for TLS is never talked to in the clear, nor under a name other than the one it was given.\<close>

lemma tls_endpoint_is_encrypted:
  assumes "te_transport e = Wire_tls" "stream_connect is_address e a = Inr over"
  shows "over = Some (te_host e) \<and> \<not> is_address (te_host e) \<and> sa_handshake a"
  using assms by (auto simp: stream_connect_def tls_server_name_def split: option.splits if_splits)

section \<open>The writer of a TURN stream\<close>

definition CONTROL_QUEUE_CAPACITY :: nat where "CONTROL_QUEUE_CAPACITY = 16"
definition DATA_QUEUE_CAPACITY :: nat where "DATA_QUEUE_CAPACITY = 32"

datatype outbound_frame = Out_control bytes | Out_data packet_buf

text \<open>
  The two bounded channels, whether the sending half was dropped, and how the loop ended, if it did; the
  failure is what the watch channel shows.
\<close>

datatype stream_end = Stream_drained | Stream_write_failed

record stream_writer =
  st_control :: "bytes list"
  st_data :: "packet_buf list"
  st_dropped :: bool
  st_ended :: "stream_end option"

definition new_stream_writer :: stream_writer where
  "new_stream_writer = \<lparr>st_control = [], st_data = [], st_dropped = False, st_ended = None\<rparr>"

text \<open>A send into a full channel waits; one into a channel whose receiver is gone fails.\<close>

datatype send_outcome = Send_accepted | Send_blocked | Send_closed

definition write_control :: "bytes \<Rightarrow> stream_writer \<Rightarrow> send_outcome \<times> stream_writer" where
  "write_control bs s =
     (if st_ended s \<noteq> None then (Send_closed, s)
      else if length (st_control s) \<ge> CONTROL_QUEUE_CAPACITY then (Send_blocked, s)
      else (Send_accepted, s\<lparr>st_control := st_control s @ [bs]\<rparr>))"

definition write_data :: "packet_buf \<Rightarrow> stream_writer \<Rightarrow> send_outcome \<times> stream_writer" where
  "write_data p s =
     (if st_ended s \<noteq> None then (Send_closed, s)
      else if length (st_data s) \<ge> DATA_QUEUE_CAPACITY then (Send_blocked, s)
      else (Send_accepted, s\<lparr>st_data := st_data s @ [p]\<rparr>))"

text \<open>
  One turn of the loop: what it takes, control frames first, and whether the connection took it. With
  nothing to take it waits, or ends when the sending half is gone.
\<close>

definition next_outbound :: "stream_writer \<Rightarrow> outbound_frame option \<times> stream_writer" where
  "next_outbound s =
     (case st_control s of
        c # cs \<Rightarrow> (Some (Out_control c), s\<lparr>st_control := cs\<rparr>)
      | [] \<Rightarrow>
          case st_data s of
            p # ps \<Rightarrow> (Some (Out_data p), s\<lparr>st_data := ps\<rparr>)
          | [] \<Rightarrow> (None, if st_dropped s then s\<lparr>st_ended := Some Stream_drained\<rparr> else s))"

definition stream_turn :: "bool \<Rightarrow> stream_writer \<Rightarrow> outbound_frame option \<times> stream_writer" where
  "stream_turn written s =
     (if st_ended s \<noteq> None then (None, s)
      else case next_outbound s of
        (None, s) \<Rightarrow> (None, s)
      | (Some frame, s) \<Rightarrow> (Some frame, if written then s else s\<lparr>st_ended := Some Stream_write_failed\<rparr>))"

text \<open>Everything that happens to a writer. A dropped sending half sends nothing more.\<close>

datatype stream_event = Ask_control bytes | Ask_data packet_buf | Drop_writer | Turn bool

fun stream_event_step :: "stream_event \<Rightarrow> stream_writer \<Rightarrow> outbound_frame list \<times> outbound_frame list \<times> stream_writer" where
  "stream_event_step (Ask_control bs) s =
     (if st_dropped s then ([], [], s)
      else case write_control bs s of (r, s) \<Rightarrow> ((if r = Send_accepted then [Out_control bs] else []), [], s))"
| "stream_event_step (Ask_data p) s =
     (if st_dropped s then ([], [], s)
      else case write_data p s of (r, s) \<Rightarrow> ((if r = Send_accepted then [Out_data p] else []), [], s))"
| "stream_event_step Drop_writer s = ([], [], s\<lparr>st_dropped := True\<rparr>)"
| "stream_event_step (Turn written) s =
     (case stream_turn written s of (frame, s) \<Rightarrow> ([], (case frame of None \<Rightarrow> [] | Some f \<Rightarrow> [f]), s))"

text \<open>The frames accepted and the frames handed to the connection, each in order.\<close>

fun stream_run :: "stream_event list \<Rightarrow> stream_writer \<Rightarrow> outbound_frame list \<times> outbound_frame list \<times> stream_writer" where
  "stream_run [] s = ([], [], s)"
| "stream_run (e # es) s =
     (case stream_event_step e s of (accepted, handed, s) \<Rightarrow>
      case stream_run es s of (accepted', handed', s) \<Rightarrow> (accepted @ accepted', handed @ handed', s))"

fun is_control_frame :: "outbound_frame \<Rightarrow> bool" where
  "is_control_frame (Out_control _) = True"
| "is_control_frame (Out_data _) = False"

fun is_data_frame :: "outbound_frame \<Rightarrow> bool" where
  "is_data_frame (Out_control _) = False"
| "is_data_frame (Out_data _) = True"

definition stream_wf :: "stream_writer \<Rightarrow> bool" where
  "stream_wf s \<longleftrightarrow> length (st_control s) \<le> CONTROL_QUEUE_CAPACITY \<and> length (st_data s) \<le> DATA_QUEUE_CAPACITY
     \<and> (st_ended s = Some Stream_drained \<longrightarrow> st_dropped s \<and> st_control s = [] \<and> st_data s = [])"

lemma stream_event_wf: "stream_event_step e s = (a, h, s') \<Longrightarrow> stream_wf s \<Longrightarrow> stream_wf s'"
  by (cases e) (auto simp: stream_wf_def write_control_def write_data_def stream_turn_def next_outbound_def
      split: if_splits list.splits option.splits prod.splits)

lemma stream_event_books:
  assumes "stream_event_step e s = (a, h, s')"
  shows "map Out_control (st_control s) @ filter is_control_frame a = filter is_control_frame h @ map Out_control (st_control s')"
    "map Out_data (st_data s) @ filter is_data_frame a = filter is_data_frame h @ map Out_data (st_data s')"
  using assms by (cases e; auto simp: write_control_def write_data_def stream_turn_def next_outbound_def
      split: if_splits list.splits option.splits prod.splits)+

lemma stream_run_books:
  "stream_run es s = (a, h, s') \<Longrightarrow> stream_wf s \<Longrightarrow>
     map Out_control (st_control s) @ filter is_control_frame a = filter is_control_frame h @ map Out_control (st_control s')
     \<and> map Out_data (st_data s) @ filter is_data_frame a = filter is_data_frame h @ map Out_data (st_data s')
     \<and> stream_wf s'"
proof (induction es arbitrary: s a h)
  case Nil
  then show ?case by simp
next
  case (Cons e es)
  obtain a1 h1 s1 where one: "stream_event_step e s = (a1, h1, s1)" by (metis prod_cases3)
  obtain a2 h2 s2 where rest: "stream_run es s1 = (a2, h2, s2)" by (metis prod_cases3)
  have eq: "a = a1 @ a2" "h = h1 @ h2" "s' = s2" using Cons.prems one rest by auto
  note b = stream_event_books [OF one] and IH = Cons.IH [OF rest [folded eq(3)] stream_event_wf [OF one Cons.prems(2)]]
  have "map Out_control (st_control s) @ filter is_control_frame a = filter is_control_frame h1 @ map Out_control (st_control s1) @ filter is_control_frame a2"
    using b(1) by (simp add: eq)
  moreover have "map Out_data (st_data s) @ filter is_data_frame a
      = filter is_data_frame h1 @ map Out_data (st_data s1) @ filter is_data_frame a2"
    using b(2) by (simp add: eq)
  ultimately show ?case using IH by (simp add: eq)
qed

text \<open>
  C39: The writer of a TURN stream keeps what it accepts: however sends, writes and the drop of its sending
  half interleave, the control frames handed to the connection followed by those still queued are the ones
  accepted, in their order, and so are the data frames; no more than sixteen and thirty-two wait; and
  when it ends without a failed write, nothing accepted is left.
\<close>

theorem stream_writer_keeps_frames:
  "case stream_run events new_stream_writer of (accepted, handed, s) \<Rightarrow>
     filter is_control_frame accepted = filter is_control_frame handed @ map Out_control (st_control s)
     \<and> filter is_data_frame accepted = filter is_data_frame handed @ map Out_data (st_data s)
     \<and> length (st_control s) \<le> 16 \<and> length (st_data s) \<le> 32
     \<and> (if st_ended s = Some Stream_drained then mset handed = mset accepted else True)"
proof -
  obtain a h s where run: "stream_run events new_stream_writer = (a, h, s)" by (metis prod_cases3)
  have "stream_wf new_stream_writer" by (simp add: stream_wf_def new_stream_writer_def)
  from stream_run_books [OF run this] have books:
    "filter is_control_frame a = filter is_control_frame h @ map Out_control (st_control s)"
    "filter is_data_frame a = filter is_data_frame h @ map Out_data (st_data s)" "stream_wf s"
    by (simp_all add: new_stream_writer_def)
  have parts: "mset (filter is_control_frame xs) + mset (filter is_data_frame xs) = mset xs" for xs
  proof (induction xs)
    case (Cons x xs)
    then show ?case by (cases x) auto
  qed simp
  have "mset h = mset a" if "st_ended s = Some Stream_drained"
    using books that parts [of a] parts [of h] by (simp add: stream_wf_def)
  then show ?thesis using books by (auto simp: run stream_wf_def CONTROL_QUEUE_CAPACITY_def DATA_QUEUE_CAPACITY_def)
qed

text \<open>A data frame is handed over only when no control frame waits.\<close>

lemma control_goes_first:
  "stream_turn written s = (Some (Out_data p), s') \<Longrightarrow> st_control s = []"
  by (auto simp: stream_turn_def next_outbound_def split: if_splits list.splits prod.splits option.splits)

section \<open>The writer of a session\<close>

text \<open>
  A command is the bytes to send with the buffer that the pool has for them; its completion gets the
  result. The packets of a session come over its three lanes.
\<close>

type_synonym writer_command = "bytes \<times> packet_buf option"

datatype writer_progress =
    Command_done "writer_error + unit"
  | Batch_sent nat
  | Writer_waits
  | Writer_ended
  | Writer_failed writer_error

definition WRITER_COMMAND_CAPACITY :: nat where "WRITER_COMMAND_CAPACITY = 16"

text \<open>A full channel refuses the command, with the text of a closed one.\<close>

definition send_writer_bytes :: "writer_command \<Rightarrow> writer_command list \<Rightarrow> bool \<times> writer_command list" where
  "send_writer_bytes c commands = (if length commands < WRITER_COMMAND_CAPACITY then (True, commands @ [c]) else (False, commands))"

definition handle_writer_command :: "('r, 'k, 'w) writer_env \<Rightarrow> driver \<Rightarrow> writer_command \<Rightarrow> ('r, 'k, 'w) transport_writer
    \<Rightarrow> ((writer_error + unit) \<times> ('r, 'k, 'w) transport_writer) option" where
  "handle_writer_command env d c w = (case c of (bs, acquired) \<Rightarrow> send_bytes env d acquired bs w)"

definition queues_closed :: "(queued_packet, 'q) queue_ops \<Rightarrow> 'q writer_queues \<Rightarrow> bool" where
  "queues_closed Q = (\<lambda>(latency, priority, bulk). queue_is_closed Q latency \<and> queue_is_closed Q priority \<and> queue_is_closed Q bulk)"

text \<open>
  One turn: a command if there is one, else the packets, else the wait, which a cancellation ends. What
  the wait yields, a command or a packet of the first lane that has one, the next turn takes in the same
  order.
\<close>

definition session_writer_turn :: "('r, 'k, 'w) writer_env \<Rightarrow> driver \<Rightarrow> (queued_packet, 'q) queue_ops \<Rightarrow> bool
    \<Rightarrow> writer_command list \<Rightarrow> 'q writer_queues \<Rightarrow> ('r, 'k, 'w) transport_writer
    \<Rightarrow> (writer_progress \<times> writer_command list \<times> 'q writer_queues \<times> ('r, 'k, 'w) transport_writer) option" where
  "session_writer_turn env d Q cancelled commands qs w =
     (case commands of
        c # commands \<Rightarrow> map_option (\<lambda>(r, w). (Command_done r, commands, qs, w)) (handle_writer_command env d c w)
      | [] \<Rightarrow>
          case next_writer_packet Q qs of
            (Some (p, class), qs) \<Rightarrow>
              map_option (\<lambda>(r, qs, w). (case r of Inl e \<Rightarrow> Writer_failed e | Inr n \<Rightarrow> Batch_sent n, [], qs, w))
                (send_writer_batch env d Q p class qs w)
          | (None, qs) \<Rightarrow> Some (if queues_closed Q qs \<or> cancelled then Writer_ended else Writer_waits, [], qs, w))"

text \<open>Between two turns the other tasks add packets and commands; a batch that was sent marks the session as active.\<close>

record 'q between_turns =
  bt_queues :: "'q writer_queues \<Rightarrow> 'q writer_queues"
  bt_commands :: "writer_command list"
  bt_cancelled :: bool

fun session_writer_loop :: "('r, 'k, 'w) writer_env \<Rightarrow> driver \<Rightarrow> (queued_packet, 'q) queue_ops \<Rightarrow> 'q between_turns list
    \<Rightarrow> writer_command list \<Rightarrow> 'q writer_queues \<Rightarrow> ('r, 'k, 'w) transport_writer
    \<Rightarrow> (writer_progress list \<times> nat \<times> ('r, 'k, 'w) transport_writer) option" where
  "session_writer_loop env d Q [] commands qs w = Some ([], 0, w)"
| "session_writer_loop env d Q (b # bs) commands qs w =
     (let commands = foldl (\<lambda>cs c. snd (send_writer_bytes c cs)) commands (bt_commands b) in
      case session_writer_turn env d Q (bt_cancelled b) commands (bt_queues b qs) w of
        None \<Rightarrow> None
      | Some (Writer_ended, commands, qs, w) \<Rightarrow> Some ([Writer_ended], 0, w)
      | Some (Writer_failed e, commands, qs, w) \<Rightarrow> Some ([Writer_failed e], 0, w)
      | Some (progress, commands, qs, w) \<Rightarrow>
          map_option (\<lambda>(later, activity, w). (progress # later,
              (case progress of Batch_sent n \<Rightarrow> if n \<noteq> 0 then activity + 1 else activity | _ \<Rightarrow> activity), w))
            (session_writer_loop env d Q bs commands qs w))"

lemma extend_batch_sent: "send_writer_batch env d Q p class qs w = Some (Inr n, qs', w') \<Longrightarrow> 0 < n"
  by (auto simp: send_writer_batch_def split: prod.splits option.splits sum.splits)

text \<open>Every batch counts as activity of the session: the goodbye looks for a stream that is alive by it.\<close>

lemma turn_batch_sent:
  assumes "session_writer_turn env d Q cancelled commands qs w = Some (Batch_sent n, rest)"
  shows "n \<noteq> 0"
proof (cases commands)
  case (Cons c cs)
  then show ?thesis using assms by (auto simp: session_writer_turn_def)
next
  case Nil
  obtain a qs1 where next': "next_writer_packet Q qs = (a, qs1)" by (cases "next_writer_packet Q qs") auto
  show ?thesis
  proof (cases a)
    case None
    then show ?thesis using assms Nil next' by (auto simp: session_writer_turn_def split: if_splits)
  next
    case (Some x)
    obtain p c where x: "x = (p, c)" by fastforce
    obtain r qs2 w2 where "send_writer_batch env d Q p c qs1 w = Some (r, qs2, w2)"
      and "Batch_sent n = (case r of Inl e \<Rightarrow> Writer_failed e | Inr n \<Rightarrow> Batch_sent n)"
      using assms Nil next' Some x by (auto simp: session_writer_turn_def)
    then show ?thesis by (cases r) (auto dest: extend_batch_sent)
  qed
qed

definition counts_as_activity :: "writer_progress \<Rightarrow> bool" where
  "counts_as_activity p = (case p of Batch_sent _ \<Rightarrow> True | _ \<Rightarrow> False)"

lemma activity_counts_batches:
  "session_writer_loop env d Q bs commands qs w = Some (progress, activity, w') \<Longrightarrow>
     activity = length (filter counts_as_activity progress)"
proof (induction bs arbitrary: commands qs w progress activity)
  case Nil
  then show ?case by simp
next
  case (Cons b bs)
  let ?commands = "foldl (\<lambda>cs c. snd (send_writer_bytes c cs)) commands (bt_commands b)"
  show ?case
  proof (cases "session_writer_turn env d Q (bt_cancelled b) ?commands (bt_queues b qs) w")
    case None
    then show ?thesis using Cons.prems by (simp add: Let_def)
  next
    case (Some x)
    obtain pr cs qs1 w1 where x: "x = (pr, cs, qs1, w1)" by (metis prod_cases4)
    note turn = Some [unfolded x]
    have batch: "n \<noteq> 0" if "pr = Batch_sent n" for n
      using turn unfolding that by (rule turn_batch_sent)
    show ?thesis
    proof (cases "pr = Writer_ended \<or> (\<exists>e. pr = Writer_failed e)")
      case True
      then show ?thesis using Cons.prems turn by (auto simp: Let_def counts_as_activity_def)
    next
      case False
      then obtain later act where rest: "session_writer_loop env d Q bs cs qs1 w1 = Some (later, act, w')"
        and progress: "progress = pr # later" "activity = (case pr of Batch_sent n \<Rightarrow> if n \<noteq> 0 then act + 1 else act | _ \<Rightarrow> act)"
        using Cons.prems turn by (cases pr) (auto simp: Let_def)
      show ?thesis using Cons.IH [OF rest] batch progress by (cases pr) (simp_all add: counts_as_activity_def)
    qed
  qed
qed

end
