(* ===== verification/Udp_From.thy ===== *)
theory Udp_From
  imports Udp_Batch
begin

text \<open>
  The half of \<open>udp_batch.rs\<close> for a socket that is not connected: datagrams to an address, and datagrams with
  the address they came from. Sending is the sending of \<open>Udp_Batch\<close> with the address in every call.
\<close>

section \<open>Sending\<close>

type_synonym ('a, 'k) addressed_ops = "'a \<Rightarrow> 'k udp_ops"

definition try_sendto_mmsg :: "('a, 'k) addressed_ops \<Rightarrow> 'a \<Rightarrow> bytes list \<Rightarrow> 'k \<Rightarrow> ((io_error + nat) \<times> 'k) option" where
  "try_sendto_mmsg A destination ds k = try_send_mmsg (A destination) ds k"

definition portable_send_to :: "('a, 'k) addressed_ops \<Rightarrow> 'a \<Rightarrow> bytes list \<Rightarrow> 'k \<Rightarrow> (io_error + nat) \<times> 'k" where
  "portable_send_to A destination ds k = portable_send (A destination) ds 0 k"

text \<open>The flags of an unconnected socket are others than those of a connected one.\<close>

record 'k open_socket =
  os_send_to_mmsg :: bool
  os_recv_from_mmsg :: bool
  os_kernel :: 'k

definition try_send_to :: "('a, 'k) addressed_ops \<Rightarrow> 'a \<Rightarrow> bytes list \<Rightarrow> 'k open_socket \<Rightarrow> ((io_error + nat) \<times> 'k open_socket) option" where
  "try_send_to A destination ds s =
     (case validate_batch_len (length ds) of
        Inl e \<Rightarrow> Some (Inl e, s)
      | Inr _ \<Rightarrow>
          if \<not> os_send_to_mmsg s
          then (case portable_send_to A destination ds (os_kernel s) of (r, k) \<Rightarrow> Some (r, s\<lparr>os_kernel := k\<rparr>))
          else case try_sendto_mmsg A destination ds (os_kernel s) of
            None \<Rightarrow> None
          | Some (r, k) \<Rightarrow>
              if r = Inl Unavailable
              then (case portable_send_to A destination ds k of
                      (r, k) \<Rightarrow> Some (r, s\<lparr>os_send_to_mmsg := False, os_kernel := k\<rparr>))
              else Some (r, s\<lparr>os_kernel := k\<rparr>))"

partial_function (option) send_to :: "('a, 'k) addressed_ops \<Rightarrow> 'a \<Rightarrow> bytes list \<Rightarrow> 'k open_socket \<Rightarrow> ((io_error + unit) \<times> 'k open_socket) option" where
  "send_to A destination ds s =
     (if ds = [] then Some (Inr (), s)
      else case try_send_to A destination ds s of
        None \<Rightarrow> None
      | Some (Inr taken, s) \<Rightarrow> send_to A destination (drop taken ds) s
      | Some (Inl e, s) \<Rightarrow> if e = Would_block then send_to A destination ds s else Some (Inl e, s))"

text \<open>Seen as the socket of a peer, an unconnected socket sends the same datagrams.\<close>

definition as_connected :: "'k open_socket \<Rightarrow> 'k udp_socket" where
  "as_connected s = \<lparr>us_send_mmsg = os_send_to_mmsg s, us_recv_mmsg = os_recv_from_mmsg s, us_kernel = os_kernel s\<rparr>"

lemma try_send_to_connected:
  "map_option (\<lambda>(r, s). (r, as_connected s)) (try_send_to A destination ds s) = try_send_connected (A destination) ds (as_connected s)"
  by (auto simp: try_send_to_def try_send_connected_def platform_send_def try_sendto_mmsg_def portable_send_to_def as_connected_def
      split: sum.splits option.splits prod.splits)

section \<open>Receiving\<close>

text \<open>
  What the kernel stores for a source: the length it reports, the address family, and the address that
  \<open>socket2\<close> reads from it, if any.
\<close>

record 'a raw_source =
  rs_length :: nat
  rs_family :: nat
  rs_socket :: "'a option"

definition SOURCE_STORAGE :: nat where "SOURCE_STORAGE = 128"
definition AF_INET :: nat where "AF_INET = 2"
definition AF_INET6 :: nat where "AF_INET6 = 10"

definition minimum_length :: "nat \<Rightarrow> nat option" where
  "minimum_length family = (if family = AF_INET then Some 16 else if family = AF_INET6 then Some 28 else None)"

definition socket_addr_from_storage :: "'a raw_source \<Rightarrow> io_error + 'a" where
  "socket_addr_from_storage s =
     (if rs_length s < 2 \<or> SOURCE_STORAGE < rs_length s then Inl Invalid_data
      else case minimum_length (rs_family s) of
        None \<Rightarrow> Inl Invalid_data
      | Some n \<Rightarrow>
          if rs_length s < n then Inl Invalid_data
          else case rs_socket s of None \<Rightarrow> Inl Invalid_data | Some address \<Rightarrow> Inr address)"

text \<open>Both receiving calls: many messages with the flag \<open>MSG_TRUNC\<close>, or one at a time.\<close>

record ('a, 'k) recv_from_ops =
  rf_recv_mmsg :: "nat \<Rightarrow> 'k \<Rightarrow> (io_error + (bytes \<times> bool \<times> 'a raw_source) list) \<times> 'k"
  rf_try_recv :: "'k \<Rightarrow> (io_error + bytes \<times> 'a) \<times> 'k"

definition validate_receive_batch :: "nat \<Rightarrow> nat \<Rightarrow> io_error + unit" where
  "validate_receive_batch packets sources =
     (case validate_batch_len packets of
        Inl e \<Rightarrow> Inl e
      | Inr _ \<Rightarrow> if packets = sources then Inr () else Inl Invalid_input)"

text \<open>All messages are checked before the first packet is touched.\<close>

fun checked_sources :: "(bytes \<times> bool \<times> 'a raw_source) list \<Rightarrow> io_error + 'a list" where
  "checked_sources [] = Inr []"
| "checked_sources ((bytes, truncated, source) # messages) =
     (if truncated \<or> length bytes > BUFFER_LIMIT then Inl Invalid_data
      else case socket_addr_from_storage source of
        Inl e \<Rightarrow> Inl e
      | Inr address \<Rightarrow> (case checked_sources messages of Inl e \<Rightarrow> Inl e | Inr addresses \<Rightarrow> Inr (address # addresses)))"

partial_function (option) try_recvfrom_mmsg :: "('a, 'k) recv_from_ops \<Rightarrow> packet_buf list \<Rightarrow> 'a list \<Rightarrow> 'k
    \<Rightarrow> ((io_error + nat) \<times> packet_buf list \<times> 'a list \<times> 'k) option" where
  "try_recvfrom_mmsg R packets sources k =
     (if packets = [] then Some (Inr 0, packets, sources, k)
      else case rf_recv_mmsg R (length packets) k of
        (Inl e, k) \<Rightarrow> if e = Interrupted then try_recvfrom_mmsg R packets sources k else Some (Inl e, packets, sources, k)
      | (Inr messages, k) \<Rightarrow>
          Some (if messages = [] then (Inl Would_block, packets, sources, k)
                else if length messages > length packets then (Inl Invalid_data, packets, sources, k)
                else case checked_sources messages of
                  Inl e \<Rightarrow> (Inl e, packets, sources, k)
                | Inr addresses \<Rightarrow>
                    (Inr (length messages), fill_packets (map fst messages) packets,
                     addresses @ drop (length addresses) sources, k)))"

fun portable_recv_from :: "('a, 'k) recv_from_ops \<Rightarrow> packet_buf list \<Rightarrow> 'a list \<Rightarrow> nat \<Rightarrow> 'k
    \<Rightarrow> (io_error + nat) \<times> packet_buf list \<times> 'a list \<times> 'k" where
  "portable_recv_from R (p # ps) (a # as) received k =
     (case rf_try_recv R k of
        (Inr (bytes, address), k) \<Rightarrow>
          (case set_read_len (length bytes) (write_read_area bytes p) of
             Inl _ \<Rightarrow> (Inl Invalid_data, p # ps, a # as, k)
           | Inr p \<Rightarrow>
               (case portable_recv_from R ps as (received + 1) k of
                  (r, ps, as, k) \<Rightarrow> (r, p # ps, address # as, k)))
      | (Inl e, k) \<Rightarrow> (if e = Would_block \<and> received > 0 then Inr received else Inl e, p # ps, a # as, k))"
| "portable_recv_from R ps as received k = (Inr received, ps, as, k)"

definition try_recv_from :: "('a, 'k) recv_from_ops \<Rightarrow> packet_buf list \<Rightarrow> 'a list \<Rightarrow> 'k open_socket
    \<Rightarrow> ((io_error + nat) \<times> packet_buf list \<times> 'a list \<times> 'k open_socket) option" where
  "try_recv_from R packets sources s =
     (case validate_receive_batch (length packets) (length sources) of
        Inl e \<Rightarrow> Some (Inl e, packets, sources, s)
      | Inr _ \<Rightarrow>
          let fallback = (\<lambda>s. case portable_recv_from R packets sources 0 (os_kernel s) of
                 (r, ps, as, k) \<Rightarrow> (r, ps, as, s\<lparr>os_kernel := k\<rparr>))
          in if \<not> os_recv_from_mmsg s then Some (fallback s)
             else case try_recvfrom_mmsg R packets sources (os_kernel s) of
               None \<Rightarrow> None
             | Some (r, ps, as, k) \<Rightarrow>
                 if r = Inl Unavailable then Some (fallback (s\<lparr>os_recv_from_mmsg := False, os_kernel := k\<rparr>))
                 else Some (r, ps, as, s\<lparr>os_kernel := k\<rparr>))"

section \<open>Every packet comes with its own source\<close>

lemma checked_sources_all:
  "checked_sources messages = Inr addresses \<Longrightarrow>
     list_all2 (\<lambda>(bytes, truncated, source) address. \<not> truncated \<and> length bytes \<le> BUFFER_LIMIT
        \<and> socket_addr_from_storage source = Inr address) messages addresses"
  by (induction messages arbitrary: addresses rule: checked_sources.induct) (auto split: if_splits sum.splits)

lemma accepted_source_is_ip:
  "socket_addr_from_storage s = Inr a \<Longrightarrow>
     rs_socket s = Some a \<and> rs_family s \<in> {AF_INET, AF_INET6} \<and> 16 \<le> rs_length s \<and> rs_length s \<le> SOURCE_STORAGE"
  by (auto simp: socket_addr_from_storage_def minimum_length_def split: if_splits option.splits)

text \<open>
  One datagram that is too long, or whose source is no IP address, costs the whole batch: the kernel has
  handed all of its datagrams over, and none is delivered.
\<close>

lemma bad_datagram_costs_the_batch:
  assumes "length messages < length packets" "messages \<noteq> []" "\<exists>m\<in>set messages. fst (snd m)"
    and "rf_recv_mmsg R (length packets) k = (Inr messages, k')"
  shows "\<exists>e. try_recvfrom_mmsg R packets sources k = Some (Inl e, packets, sources, k')"
proof -
  have "\<exists>e. checked_sources messages = Inl e"
  proof (cases "checked_sources messages")
    case (Inr addresses)
    obtain i where "i < length messages" "fst (snd (messages ! i))" using assms(3) by (auto simp: in_set_conv_nth)
    then show ?thesis using checked_sources_all [OF Inr] by (auto simp: list_all2_conv_all_nth split_beta)
  qed simp
  then show ?thesis using assms(1,2,4) by (subst try_recvfrom_mmsg.simps) auto
qed

end
