(* ===== verification/Engine_Run.thy ===== *)
theory Engine_Run
  imports Engine Vk_Calls
begin

text \<open>
  The life of \<open>run\<close> in \<open>lib.rs\<close> around the workers: how it gets the token of the account, what it starts, the
  wait for the end, and the order in which everything is taken down; and \<open>cli_main\<close> around it.
\<close>

section \<open>The token of the account\<close>

text \<open>
  What is read from the standard input: a time-out, an error, or the bytes read up to and with the first
  line, with those after it that the buffered reader has taken too and that are lost to the control channel. \<open>decode\<close> is the Base64 library,
  \<open>parse\<close> reads the JSON object with its one field.
\<close>

datatype bootstrap_error =
    Bootstrap_timeout
  | Bootstrap_unreadable
  | Bootstrap_format
  | Bootstrap_too_large
  | Bootstrap_damaged
  | Bootstrap_invalid

datatype bootstrap_input = Input_timeout | Input_error | Input_line chars chars

definition utf8_length :: "chars \<Rightarrow> nat" where
  "utf8_length s = length (as_bytes s)"

definition read_vk_js_bootstrap :: "(chars \<Rightarrow> bytes option) \<Rightarrow> (bytes \<Rightarrow> chars option) \<Rightarrow> bootstrap_input \<Rightarrow> bootstrap_error + chars" where
  "read_vk_js_bootstrap decode parse input =
     (case input of
        Input_timeout \<Rightarrow> Inl Bootstrap_timeout
      | Input_error \<Rightarrow> Inl Bootstrap_unreadable
      | Input_line line _ \<Rightarrow>
          (case strip_prefix (trim_with is_whitespace line) (code_points ''VK_JS_BOOTSTRAP:'') of
             None \<Rightarrow> Inl Bootstrap_format
           | Some encoded \<Rightarrow>
               if utf8_length encoded > 32 * 1024 then Inl Bootstrap_too_large
               else case decode encoded of
                 None \<Rightarrow> Inl Bootstrap_damaged
               | Some decoded \<Rightarrow> (case parse decoded of None \<Rightarrow> Inl Bootstrap_invalid | Some token \<Rightarrow> Inr token)))"

definition account_token :: "chars \<Rightarrow> bootstrap_error + chars \<Rightarrow> bootstrap_error + chars" where
  "account_token argument from_input =
     (let token = trim_with is_whitespace argument in if token \<noteq> [] then Inr token else from_input)"

section \<open>Starting\<close>

record idle_config_of =
  ic_keep :: nat
  ic_after_secs :: nat

definition idle_config :: "arguments \<Rightarrow> idle_config_of" where
  "idle_config a = \<lparr>ic_keep = ar_idle_workers a, ic_after_secs = max (ar_idle_after_secs a) 30\<rparr>"

text \<open>The port a local socket got, \<open>0\<close> for the other ways of feeding packets.\<close>

definition packet_port :: "chars \<Rightarrow> nat \<Rightarrow> nat" where
  "packet_port local_port before = (case parse_unsigned 65535 local_port of Some port \<Rightarrow> port | None \<Rightarrow> before)"

section \<open>The wait for the end\<close>

datatype run_event = Groups_ended | Ctrl_c | Token_cancelled | Disconnect_asked

text \<open>Whether the groups have ended of their own, whether the token was cancelled here, and how often the disconnect was run; \<open>None\<close> while it waits.\<close>

fun run_wait :: "run_event list \<Rightarrow> nat \<Rightarrow> (bool \<times> nat) option" where
  "run_wait [] disconnects = None"
| "run_wait (Groups_ended # _) disconnects = Some (True, disconnects)"
| "run_wait (Ctrl_c # _) disconnects = Some (False, disconnects)"
| "run_wait (Token_cancelled # _) disconnects = Some (False, disconnects)"
| "run_wait (Disconnect_asked # events) disconnects = run_wait events (disconnects + 1)"

section \<open>Taking it down\<close>

datatype background = Stats_task | Wake_task | Idle_task | Stall_task | Config_task | Control_task | Parent_task

datatype run_effect =
    Cancel
  | Forget_pause_gate
  | Await_groups
  | Shut_dispatcher
  | Abort background
  | Await background
  | Await_creator
  | Abort_creator
  | Finish_calls_now
  | Leave_calls_now
  | Say_stopped
  | Flush_log

definition background_tasks :: "background list" where
  "background_tasks = [Stats_task, Wake_task, Idle_task, Stall_task, Config_task, Control_task, Parent_task]"

text \<open>\<open>creator\<close> tells of the task that lets the creator leave: whether there is one and it ends within nine seconds.\<close>

definition run_end :: "bool \<Rightarrow> bool option \<Rightarrow> bool \<Rightarrow> bool \<Rightarrow> run_effect list" where
  "run_end groups_completed creator has_calls ask_finish =
     [Cancel, Forget_pause_gate] @ (if groups_completed then [] else [Await_groups]) @ [Shut_dispatcher]
     @ map Abort background_tasks @ map Await background_tasks
     @ (case creator of None \<Rightarrow> [] | Some in_time \<Rightarrow> if in_time then [Await_creator] else [Await_creator, Abort_creator])
     @ (if has_calls then [if ask_finish then Finish_calls_now else Leave_calls_now] else [])
     @ [Say_stopped, Flush_log]"

text \<open>
  A dispatcher that cannot start: the call is left, but the tasks of the control channel and of the parent
  process go on, and the pause gate and the token stay where the host finds them.
\<close>

definition dispatcher_failed :: "bool \<Rightarrow> run_effect list" where
  "dispatcher_failed has_calls = (if has_calls then [Leave_calls_now] else [])"

definition creator_leaves :: "bool option \<Rightarrow> nat" where
  "creator_leaves creator = (case creator of None \<Rightarrow> 0 | Some _ \<Rightarrow> 1)"

text \<open>The process of the command line: its exit code, and whether the failure was logged.\<close>

datatype run_result = Run_ok | Run_error | Run_panic

definition cli_main :: "bool \<Rightarrow> run_result \<Rightarrow> nat \<times> bool" where
  "cli_main runtime result =
     (if \<not> runtime then (1, False)
      else case result of Run_ok \<Rightarrow> (0, False) | _ \<Rightarrow> (1, True))"

section \<open>What holds of it\<close>

text \<open>
  The end waits for the workers on every way: nothing of what they use is taken down before they are through,
  the account's call is given up once, after the dispatcher is shut, and the host hears last of the end.
\<close>

lemma filter_map_other: "(\<And>x. \<not> P (f x)) \<Longrightarrow> filter P (map f xs) = []"
  by (induction xs) auto

definition gives_up_call :: "run_effect \<Rightarrow> bool" where
  "gives_up_call e \<longleftrightarrow> e = Finish_calls_now \<or> e = Leave_calls_now"

lemma run_end_order:
  "\<exists>before after. run_end groups_completed creator has_calls ask_finish = before @ Shut_dispatcher # after
     \<and> set before \<subseteq> {Cancel, Forget_pause_gate, Await_groups} \<and> (groups_completed \<or> Await_groups \<in> set before)
     \<and> filter gives_up_call after = (if has_calls then [if ask_finish then Finish_calls_now else Leave_calls_now] else [])
     \<and> last after = Flush_log \<and> last (butlast after) = Say_stopped"
proof (intro exI conjI)
  let ?before = "[Cancel, Forget_pause_gate] @ (if groups_completed then [] else [Await_groups])"
  let ?after = "map Abort background_tasks @ map Await background_tasks
     @ (case creator of None \<Rightarrow> [] | Some in_time \<Rightarrow> if in_time then [Await_creator] else [Await_creator, Abort_creator])
     @ (if has_calls then [if ask_finish then Finish_calls_now else Leave_calls_now] else [])
     @ [Say_stopped, Flush_log]"
  show "run_end groups_completed creator has_calls ask_finish = ?before @ Shut_dispatcher # ?after" by (simp add: run_end_def)
  show "filter gives_up_call ?after = (if has_calls then [if ask_finish then Finish_calls_now else Leave_calls_now] else [])"
    by (simp add: gives_up_call_def filter_map_other split: option.split)
qed (simp_all add: butlast_append)

text \<open>
  In the mode in which the creator leaves once the workers are ready, its call is left a second time at the
  end: the calls stay with \<open>run\<close> when a copy of them goes to the task that leaves.
\<close>

lemma creator_leaves_twice:
  "creator_leaves (Some in_time) + length (filter gives_up_call (run_end groups_completed (Some in_time) True False)) = 2"
  by (simp add: creator_leaves_def gives_up_call_def run_end_def filter_map_other)

lemma run_waits_through_disconnects:
  "run_wait (replicate n Disconnect_asked @ Groups_ended # events) k = Some (True, k + n)"
  by (induction n arbitrary: k) simp_all

end
