(* ===== verification/Monitors.thy ===== *)
theory Monitors
  imports Worker_Loop Turn_Driver Idle
begin

text \<open>
  The tasks that watch the tunnel: \<open>stall_monitor\<close> of \<open>rebind.rs\<close>, the two \<open>monitor\<close>s of \<open>wake.rs\<close> and
  \<open>idle.rs\<close>, and the waits of other tasks for what the idle state announces. A monitor is a fold over its
  polls, each with the counters and clocks it reads; a cancellation ends the list. What other threads do to
  the idle state between two polls is part of the list.
\<close>

section \<open>The stall monitor\<close>

definition STALL_POLL :: duration where "STALL_POLL = from_secs 2"

text \<open>One poll: the number of active paths, the two counters and the time.\<close>

definition stall_round ::
  "int \<times> int \<times> int \<times> instant \<Rightarrow> stall_detector \<times> wake_state \<Rightarrow> stall_detector \<times> wake_state" where
  "stall_round = (\<lambda>(paths, up, down, now) (d, w).
     if paths \<le> 0 then (d, w)
     else let (probe, d) = observe up down now d in (d, if probe then wake_signal 0 w else w))"

definition stall_monitor ::
  "int \<Rightarrow> int \<Rightarrow> (int \<times> int \<times> int \<times> instant) list \<Rightarrow> wake_state \<Rightarrow> stall_detector \<times> wake_state" where
  "stall_monitor up down polls w = fold stall_round polls (new_detector up down, w)"

definition with_paths :: "(int \<times> int \<times> int \<times> instant) list \<Rightarrow> (int \<times> int \<times> instant) list" where
  "with_paths polls = map snd (filter (\<lambda>p. 0 < fst p) polls)"

lemma stall_rounds_observe:
  "fst (fold stall_round polls (d, w)) = snd (observe_all (with_paths polls) d)
   \<and> wk_epoch (snd (fold stall_round polls (d, w)))
      = wk_epoch w + of_nat (length (filter (\<lambda>b. b) (fst (observe_all (with_paths polls) d))))"
proof (induction polls arbitrary: d w)
  case Nil
  then show ?case by (simp add: with_paths_def)
next
  case (Cons p polls)
  obtain paths up down now where p: "p = (paths, up, down, now)" by (metis prod_cases4)
  obtain b d' where o: "observe up down now d = (b, d')" by fastforce
  have round: "stall_round p (d, w) = (if paths \<le> 0 then (d, w) else (d', if b then wake_signal 0 w else w))"
    by (simp add: p o stall_round_def)
  show ?case
  proof (cases "paths \<le> 0")
    case True
    then show ?thesis using Cons.IH [of d w] by (simp add: round) (simp add: p with_paths_def)
  next
    case False
    then have "with_paths (p # polls) = (up, down, now) # with_paths polls" by (simp add: p with_paths_def)
    then show ?thesis
      using False Cons.IH [of d' "if b then wake_signal 0 w else w"]
      by (cases b) (simp_all add: round o case_prod_unfold Let_def, simp_all add: wake_signal_def)
  qed
qed

text \<open>
  The drivers are asked to probe their paths at most once, and once more for every twenty seconds, however
  long the tunnel stalls and however often its paths come and go.
\<close>

theorem stall_monitor_probe_rate:
  assumes "with_paths polls = (u, v, start) # rs" "sorted (map read_time (with_paths polls))"
  shows "\<exists>n \<le> 1 + (last (map read_time (with_paths polls)) - start) div PROBE_MIN_GAP.
     wk_epoch (snd (stall_monitor up down polls w)) = wk_epoch w + of_nat n"
  using stall_probe_rate [of u v start rs "new_detector up down"] assms stall_rounds_observe [of polls "new_detector up down" w]
  by (auto simp: stall_monitor_def new_detector_def)

lemma stall_monitor_probe_rate_witness:
  "\<exists>n \<le> 1 + (last (map read_time (with_paths [(1, 5000, 0, 2), (0, 5000, 0, 4), (1, 9999, 0, 6)])) - 2) div PROBE_MIN_GAP.
     wk_epoch (snd (stall_monitor 0 0 [(1, 5000, 0, 2), (0, 5000, 0, 4), (1, 9999, 0, 6)] w)) = wk_epoch w + of_nat n"
  by (rule stall_monitor_probe_rate) (simp_all add: with_paths_def)

text \<open>
  The polls that count need not be consecutive: polls without a path neither end a streak nor move the
  readings, so that two silent polls, an outage of any length and the first poll after it make a probe.
\<close>

theorem outage_keeps_the_streak:
  "wk_epoch (snd (stall_monitor 0 0
     ([(1, 4096, 0, from_secs 2), (1, 8192, 0, from_secs 4)] @ replicate n (0, 8192, 0, from_secs 6) @ [(1, 12288, 0, from_secs 8)]) w))
   = wk_epoch w + 1"
proof -
  have idle: "fold stall_round (replicate n (0, 8192, 0, t)) s = s" for t s
    by (induction n) (cases s, simp_all add: stall_round_def)
  show ?thesis
    by (simp add: stall_monitor_def idle stall_round_def new_detector_def observe_def sat_sub64_def STALL_POLLS_def
        STALL_MIN_UPLINK_DELTA_def wake_signal_def Let_def)
qed

section \<open>The suspend monitor\<close>

text \<open>The clocks read at the start, and those read at each poll.\<close>

definition wake_monitor :: "instant \<Rightarrow> duration \<Rightarrow> (instant \<times> duration) list \<Rightarrow> wake_state \<Rightarrow> wake_state" where
  "wake_monitor mono0 boot0 samples w =
     fold (\<lambda>(now_mono, now_boot). monitor_round now_mono now_boot) samples (w\<lparr>wk_mono := mono0, wk_boot := boot0\<rparr>)"

text \<open>How long the process was suspended before each poll.\<close>

fun gaps :: "instant \<Rightarrow> duration \<Rightarrow> (instant \<times> duration) list \<Rightarrow> duration list" where
  "gaps mono0 boot0 [] = []"
| "gaps mono0 boot0 ((m, b) # samples) = suspend_gap (m - mono0) (b - boot0) # gaps m b samples"

lemma monitor_rounds_count:
  "wk_epoch (fold (\<lambda>(m, b). monitor_round m b) samples w)
   = wk_epoch w + of_nat (length (filter (\<lambda>gap. SUSPEND_THRESHOLD \<le> gap) (gaps (wk_mono w) (wk_boot w) samples)))"
proof (induction samples arbitrary: w)
  case Nil
  then show ?case by simp
next
  case (Cons s samples)
  obtain m b where s: "s = (m, b)" by (cases s)
  show ?case using Cons.IH [of "monitor_round m b w"] by (simp add: s monitor_round_def wake_signal_def Let_def)
qed

theorem wakes_are_suspensions:
  "wk_epoch (wake_monitor mono0 boot0 samples w)
   = wk_epoch w + of_nat (length (filter (\<lambda>gap. SUSPEND_THRESHOLD \<le> gap) (gaps mono0 boot0 samples)))"
  using monitor_rounds_count [of samples "w\<lparr>wk_mono := mono0, wk_boot := boot0\<rparr>"] by (simp add: wake_monitor_def)

text \<open>
  The duration of a suspension can be lost: a nudge of the host or a probe of the stall monitor stores its
  own gap of zero. A driver that has not looked in between keeps an allocation which ran out while
  the phone slept, and only probes it; without the nudge it gives the allocation up.
\<close>

theorem nudge_hides_a_suspension:
  assumes ready: "\<not> tc_destroyed c" "\<not> tc_shutting_down c" "tc_state c = STATE_READY" "tc_allocation_expires_at c = Some expires"
    and late: "now < expires" "expires \<le> now + from_millis ms" and ms: "ms < 2 ^ 64"
  shows "let asleep = wake_signal (from_millis ms) w; nudged = wake_signal 0 asleep
         in (\<exists>e c'. observe_wake (wk_epoch asleep) (last_gap asleep) now (wk_epoch w) c = (True, e, c') \<and> tc_state c' \<noteq> STATE_READY)
            \<and> (\<exists>e c'. observe_wake (wk_epoch nudged) (last_gap nudged) now (wk_epoch w) c = (True, e, c')
                 \<and> tc_state c' = STATE_READY \<and> tc_allocation_expires_at c' = Some expires)"
proof -
  define asleep where "asleep = wake_signal (from_millis ms) w"
  have gap: "last_gap asleep = from_millis ms" using ms by (simp add: asleep_def last_gap_def wake_signal_def)
  have nudged: "last_gap (wake_signal 0 asleep) = 0" "wk_epoch asleep = wk_epoch w + 1" "wk_epoch (wake_signal 0 asleep) = wk_epoch w + 2"
    by (simp_all add: asleep_def last_gap_def wake_signal_def as_millis_def from_millis_def)
  have "tc_state (snd (resync_after_suspend (from_millis ms) now c)) \<noteq> STATE_READY"
    using ready late by (auto simp: resync_after_suspend_def destroy_allocation_def set_state_def push_event_def STATE_READY_def STATE_DESTROYING_def Let_def)
  moreover have "tc_state (snd (resync_after_suspend 0 now c)) = STATE_READY"
      "tc_allocation_expires_at (snd (resync_after_suspend 0 now c)) = Some expires"
    using ready late by (simp_all add: resync_after_suspend_def)
  moreover have "wk_epoch w + 1 \<noteq> wk_epoch w" "wk_epoch w + 2 \<noteq> wk_epoch w" by simp_all
  ultimately show ?thesis
    unfolding asleep_def [symmetric] Let_def by (simp add: observe_wake_def gap nudged)
qed

section \<open>The idle monitor\<close>

text \<open>A poll reads the bytes sent so far and the clock; between polls other threads use the idle state.\<close>

datatype idle_event = Poll int instant | Meanwhile idle_call

fun idle_events :: "nat \<Rightarrow> duration \<Rightarrow> idle_event list \<Rightarrow> int \<times> instant \<times> idle_state \<Rightarrow> int \<times> instant \<times> idle_state" where
  "idle_events keep after [] m = m"
| "idle_events keep after (Poll up now # es) m = idle_events keep after es (idle_round keep after up now m)"
| "idle_events keep after (Meanwhile call # es) (b, q, s) = idle_events keep after es (b, q, idle_handle call s)"

definition idle_monitor :: "nat \<Rightarrow> duration \<Rightarrow> int \<Rightarrow> instant \<Rightarrow> idle_event list \<Rightarrow> idle_state \<Rightarrow> idle_state" where
  "idle_monitor keep after up start es s = (if keep = 0 then s else snd (snd (idle_events keep after es (up, start, s))))"

lemma idle_events_append: "idle_events keep after (es @ fs) m = idle_events keep after fs (idle_events keep after es m)"
  by (induction keep after es m rule: idle_events.induct) simp_all

text \<open>The polls of a run: the count before, the count read, and the time.\<close>

fun poll_readings :: "int \<Rightarrow> idle_event list \<Rightarrow> (int \<times> int \<times> instant) list" where
  "poll_readings b [] = []"
| "poll_readings b (Poll up now # es) = (b, up, now) # poll_readings up es"
| "poll_readings b (Meanwhile call # es) = poll_readings b es"

definition poll_time :: "int \<times> int \<times> instant \<Rightarrow> instant" where
  "poll_time p = snd (snd p)"

lemma poll_time_triple [simp]: "poll_time (b, up, now) = now"
  by (simp add: poll_time_def)

definition quiet_poll :: "int \<times> int \<times> instant \<Rightarrow> bool" where
  "quiet_poll = (\<lambda>(b, up, now). up - b \<le> ACTIVE_BYTES_PER_POLL)"

lemma poll_times_append:
  "map poll_time (poll_readings b (es @ [Poll up now])) = map poll_time (poll_readings b es) @ [now]"
  by (induction b es rule: poll_readings.induct) simp_all

text \<open>\<open>quiet_since\<close> is not before any poll with traffic.\<close>

lemma idle_events_quiet:
  assumes "idle_events keep after es (b, q, s) = (b', q', s')" "sorted (q # map poll_time (poll_readings b es))"
  shows "q \<le> q' \<and> q' \<le> last (q # map poll_time (poll_readings b es))
    \<and> list_all (\<lambda>p. quiet_poll p \<or> poll_time p \<le> q') (poll_readings b es)
    \<and> (\<forall>up now. poll_readings b (es @ [Poll up now]) = poll_readings b es @ [(b', up, now)])"
  using assms
proof (induction es arbitrary: b q s)
  case Nil
  then show ?case by simp
next
  case (Cons e es)
  show ?case
  proof (cases e)
    case (Meanwhile call)
    then show ?thesis using Cons by simp
  next
    case (Poll up now)
    define q1 where "q1 = (if up - b > ACTIVE_BYTES_PER_POLL then now else q)"
    have "q \<le> now" using Cons.prems(2) by (simp add: Poll)
    then have q1: "q \<le> q1" "q1 \<le> now" by (simp_all add: q1_def)
    obtain s1 where "idle_round keep after up now (b, q, s) = (up, q1, s1)"
      by (cases "up - b > ACTIVE_BYTES_PER_POLL"; cases "should_enter (now - q) after (id_active s)") (simp_all add: idle_round_def q1_def)
    then have run: "idle_events keep after es (up, q1, s1) = (b', q', s')" using Cons.prems(1) by (simp add: Poll)
    have later: "sorted (now # map poll_time (poll_readings up es))"
      using Cons.prems(2) by (simp add: Poll)
    then have "sorted (q1 # map poll_time (poll_readings up es))" using q1 by force
    note IH = Cons.IH [OF run this]
    have "last (q1 # map poll_time (poll_readings up es)) \<le> last (now # map poll_time (poll_readings up es))"
      using q1 by simp
    moreover have "quiet_poll (b, up, now) \<or> now \<le> q'"
      using IH by (auto simp: quiet_poll_def q1_def split: if_splits)
    ultimately show ?thesis using IH q1 by (auto simp: Poll)
  qed
qed

text \<open>
  C40: The engine parks its workers only after silence: if a poll of the monitor makes the idle state active,
  then the monitor has run for the configured time, and within that time no poll saw more than the few
  bytes that do not count as traffic; whatever packets, path losses and exits happened in between.
\<close>

theorem engine_idles_after_silence:
  assumes "sorted (start # map poll_time (poll_readings up (es @ [Poll newest now])))"
    and "\<not> id_active (idle_monitor keep after up start es s)"
    and "id_active (idle_monitor keep after up start (es @ [Poll newest now]) s)"
  shows "start + after \<le> now
    \<and> list_all (\<lambda>p. quiet_poll p \<or> poll_time p + after \<le> now) (poll_readings up (es @ [Poll newest now]))"
proof -
  obtain b q s' where m: "idle_events keep after es (up, start, s) = (b, q, s')" by (metis prod_cases3)
  have keep: "keep \<noteq> 0" using assms(2,3) by (auto simp: idle_monitor_def split: if_splits)
  have off: "\<not> id_active s'" using assms(2) keep by (simp add: idle_monitor_def m)
  have on: "id_active (snd (snd (idle_round keep after newest now (b, q, s'))))"
    using assms(3) keep by (simp add: idle_monitor_def idle_events_append m)
  have "newest - b \<le> ACTIVE_BYTES_PER_POLL" "after \<le> now - q"
    using on off by (auto simp: idle_round_def should_enter_def split: if_splits)
  have times: "map poll_time (poll_readings up (es @ [Poll newest now])) = map poll_time (poll_readings up es) @ [now]"
    by (rule poll_times_append)
  then have "sorted (start # map poll_time (poll_readings up es))" "last (start # map poll_time (poll_readings up es)) \<le> now"
    using assms(1) by (auto simp: sorted_append last_map split: if_splits)
  note quiet = idle_events_quiet [OF m this(1)] and this(2)
  then have bounds: "start \<le> q" "q \<le> now" and past: "list_all (\<lambda>p. quiet_poll p \<or> poll_time p \<le> q) (poll_readings up es)"
    and readings: "poll_readings up (es @ [Poll newest now]) = poll_readings up es @ [(b, newest, now)]"
    by (blast intro: order_trans)+
  have "list_all (\<lambda>p. quiet_poll p \<or> poll_time p + after \<le> now) (poll_readings up es)"
    using past by (rule list.pred_mono_strong) (use \<open>after \<le> now - q\<close> bounds in auto)
  then show ?thesis
    using \<open>newest - b \<le> ACTIVE_BYTES_PER_POLL\<close> \<open>after \<le> now - q\<close> bounds by (simp add: readings quiet_poll_def)
qed

lemma engine_idles_after_silence_witness:
  "(0 :: instant) + from_secs 60 \<le> from_secs 70
    \<and> list_all (\<lambda>p. quiet_poll p \<or> poll_time p + from_secs 60 \<le> from_secs 70)
        (poll_readings 0 ([Poll 9000 (from_secs 5), Meanwhile (Call_lost 1), Poll 9100 (from_secs 30)] @ [Poll 9100 (from_secs 70)]))"
  by (rule engine_idles_after_silence [where keep = 2 and s = "idle_zero\<lparr>id_total := 9\<rparr>"])
    (simp_all add: idle_monitor_def idle_round_def should_enter_def idle_handle_def note_path_lost_def idle_zero_def idle_enter_def
      may_enter_def enter_stores_def ACTIVE_BYTES_PER_POLL_def from_secs_def)

section \<open>Waiting for the idle state\<close>

text \<open>
  \<open>announce_changed\<close> has the loop of \<open>rebind::requested\<close> over the announcements; \<open>parked\<close> registers, then asks
  \<open>allows\<close>, then waits. The flag \<open>gs_parked\<close> is the negated answer of \<open>allows\<close>, \<open>gs_idle_owed\<close> counts
  the changes whose wake-up is still to come.
\<close>

definition announce_changed :: "('n, 'f) notify_ops \<Rightarrow> u64 \<Rightarrow> ('n, 'f) wait_state \<Rightarrow> ('n, 'f) wait_state option" where
  "announce_changed N seen s = requested N seen s"

definition wait_until_parked :: "('n, 'f) notify_ops \<Rightarrow> ('n, 'f) gate_state \<Rightarrow> ('n, 'f) gate_state option" where
  "wait_until_parked N s =
     (case gs_pc s of
        Gate_start \<Rightarrow> Some (s\<lparr>gs_pc := Gate_registered (nt_notified N (gs_idle s))\<rparr>)
      | Gate_registered g \<Rightarrow> Some (s\<lparr>gs_pc := (if gs_parked s then Gate_open else Gate_sleeping g)\<rparr>)
      | Gate_sleeping g \<Rightarrow> if nt_ready N (gs_idle s) g then Some (s\<lparr>gs_pc := Gate_start\<rparr>) else None
      | _ \<Rightarrow> None)"

definition parked_inv :: "('n, 'f) notify_ops \<Rightarrow> ('n, 'f) gate_state \<Rightarrow> bool" where
  "parked_inv N s \<longleftrightarrow>
     (case gs_pc s of
        Gate_start \<Rightarrow> True
      | Gate_registered g \<Rightarrow> covers N (gs_idle s) g
      | Gate_sleeping g \<Rightarrow> covers N (gs_idle s) g \<and> (\<not> gs_parked s \<or> nt_ready N (gs_idle s) g \<or> 0 < gs_idle_owed s)
      | Gate_open \<Rightarrow> True
      | _ \<Rightarrow> False)"

context notify_laws
begin

lemma parked_inv_step:
  assumes "gate_step N (wait_until_parked N) s l s'" "parked_inv N s"
  shows "parked_inv N s'"
  using assms(1)
proof cases
  case gate_waiter
  then show ?thesis using assms(2) fresh_covers
    by (cases "gs_pc s") (auto simp: wait_until_parked_def parked_inv_def split: if_splits)
next
  case gate_idle_wake
  then show ?thesis using assms(2) covers_wake
    by (auto simp: parked_inv_def covers_def split: gate_pc.splits)
qed (use assms(2) in \<open>auto simp: parked_inv_def set_paused_def split: gate_pc.splits\<close>)

end

sublocale notify_laws \<subseteq> parking: step_invariant "gate_step N (wait_until_parked N)" "parked_inv N"
  by unfold_locales (rule parked_inv_step)

lemma parked_inv_start: "parked_inv N (new_pause_gate n i)"
  by (simp add: parked_inv_def new_pause_gate_def)

context notify_laws
begin

lemma parked_run: "steps (gate_step N (wait_until_parked N)) (new_pause_gate n i) ls s \<Longrightarrow> parked_inv N s"
  by (rule parking.steps_inv) (assumption, rule parked_inv_start)

end

text \<open>
  A session learns that its worker has been parked: under every interleaving, once the worker is parked and no
  wake-up is outstanding, the wait ends within three steps of its own.
\<close>

theorem parked_worker_is_told:
  assumes "notify_ok N" "steps (gate_step N (wait_until_parked N)) (new_pause_gate n i) ls s"
    and "gs_parked s" "gs_idle_owed s = 0"
  shows "gs_pc (run_waiter 3 (wait_until_parked N) s) = Gate_open"
  using notify_laws.parked_run [OF notify_laws.intro [OF assms(1)] assms(2)] assms(3-)
  by (cases "gs_pc s") (simp_all add: numeral_eq_Suc wait_until_parked_def parked_inv_def)

lemma announcement_is_noticed:
  assumes "notify_ok N" "steps (wait_step N (announce_changed N seen)) (wait_start e n) ls s"
    and "wt_epoch s \<noteq> seen" "wt_owed s = 0"
  shows "wt_pc (run_waiter 3 (announce_changed N seen) s) = Resolved"
proof -
  have same: "announce_changed N seen = requested N seen" by (rule ext) (simp add: announce_changed_def)
  then show ?thesis
    using requested_resolves [OF requested_run [OF assms(1) assms(2) [unfolded same]] assms(3,4)] by simp
qed

end
