(* ===== verification/Requests.thy ===== *)
theory Requests
  imports Disguise Vk_Calls Sockets
begin

text \<open>
  The requests the engine makes as a browser: the settings of the HTTP client, the headers of every request
  and the reading of its answer, in \<open>auth.rs\<close> and \<open>vk_js_calls.rs\<close>, and the check of a list of calls. The
  HTTP library is a parameter: which header values it accepts, which proxies and which JSON it understands,
  and what comes back. What the library adds for the browser it imitates is its own affair.
\<close>

section \<open>The client\<close>

text \<open>The settings handed to the library; the order is that of the pseudo headers and of the headers.\<close>

record 'p client_settings =
  cs_proxy :: "'p option"
  cs_browser :: browser
  cs_os :: browser_os
  cs_timeout :: duration
  cs_redirects :: nat
  cs_order :: "(string list \<times> string list) option"

definition captcha_headers :: "string list" where
  "captcha_headers =
     [''host'', ''content-length'', ''sec-ch-ua-platform'', ''accept-language'', ''sec-ch-ua'', ''content-type'',
      ''sec-ch-ua-mobile'', ''user-agent'', ''accept'', ''origin'', ''sec-fetch-site'', ''sec-fetch-mode'',
      ''sec-fetch-dest'', ''referer'', ''accept-encoding'', ''priority'']"

definition build_browser_client ::
  "(chars \<Rightarrow> 'p option) \<Rightarrow> host_hooks \<Rightarrow> browser \<Rightarrow> browser_os \<Rightarrow> bool \<Rightarrow> 'p client_settings" where
  "build_browser_client parse_proxy hooks browser os captcha_order =
     \<lparr>cs_proxy = with_http_proxy parse_proxy hooks, cs_browser = browser, cs_os = os, cs_timeout = from_secs 20, cs_redirects = 10,
      cs_order = (if captcha_order then Some ([''method'', ''path'', ''authority'', ''scheme''], captcha_headers) else None)\<rparr>"

definition browser_client_for_profile :: "(chars \<Rightarrow> 'p option) \<Rightarrow> host_hooks \<Rightarrow> profile \<Rightarrow> 'p client_settings" where
  "browser_client_for_profile parse_proxy hooks p = build_browser_client parse_proxy hooks (pf_impersonate p) (pf_os p) False"

definition custom_order :: "browser \<Rightarrow> bool" where
  "custom_order b \<longleftrightarrow> b \<in> {ChromeV144, ChromeV145, ChromeV146, ChromeV147, ChromeV148, Chrome}"

definition captcha_client_for_profile :: "(chars \<Rightarrow> 'p option) \<Rightarrow> host_hooks \<Rightarrow> profile \<Rightarrow> 'p client_settings" where
  "captcha_client_for_profile parse_proxy hooks p =
     build_browser_client parse_proxy hooks (pf_impersonate p) (pf_os p) (custom_order (pf_impersonate p))"

section \<open>Headers\<close>

type_synonym header = "string \<times> chars"

text \<open>A field of the profile, unless it is empty; \<open>None\<close>: the library refuses the value. All names differ.\<close>

definition profile_header :: "(chars \<Rightarrow> bool) \<Rightarrow> string \<Rightarrow> chars \<Rightarrow> header list \<Rightarrow> header list option" where
  "profile_header accepts name field hs =
     (if field = [] then Some hs else if accepts field then Some (hs @ [(name, field)]) else None)"

definition static :: "string \<times> string \<Rightarrow> header" where
  "static h = (fst h, code_points (snd h))"

definition browser_headers :: "(chars \<Rightarrow> bool) \<Rightarrow> profile \<Rightarrow> header list option" where
  "browser_headers accepts p =
     map_option (\<lambda>hs. hs @ map static
         [(''accept'', ''*/*''), (''accept-language'', ''ru-RU,ru;q=0.9,en-US;q=0.8,en;q=0.7''), (''dnt'', ''1'')])
       (Option.bind (profile_header accepts ''user-agent'' (pf_user_agent p) [])
         (\<lambda>hs. Option.bind (profile_header accepts ''sec-ch-ua'' (pf_sec_ch_ua p) hs)
         (\<lambda>hs. Option.bind (profile_header accepts ''sec-ch-ua-mobile'' (pf_sec_ch_ua_mobile p) hs)
         (profile_header accepts ''sec-ch-ua-platform'' (pf_sec_ch_ua_platform p)))))"

definition empty_request_headers :: "(chars \<Rightarrow> bool) \<Rightarrow> profile \<Rightarrow> header list option" where
  "empty_request_headers accepts p =
     map_option (\<lambda>hs. hs @ map static
         [(''accept'', ''*/*''), (''accept-encoding'', ''gzip, deflate, br, zstd''), (''accept-language'', ''en-GB,en;q=0.9'')])
       (profile_header accepts ''user-agent'' (pf_user_agent p) [])"

definition form_request_headers :: "(chars \<Rightarrow> bool) \<Rightarrow> profile \<Rightarrow> header list option" where
  "form_request_headers accepts p =
     map_option (\<lambda>hs. hs @ map static
         [(''content-type'', ''application/x-www-form-urlencoded''), (''origin'', ''https://vk.ru''), (''referer'', ''https://vk.ru/''),
          (''sec-fetch-site'', ''same-site''), (''sec-fetch-mode'', ''cors''), (''sec-fetch-dest'', ''empty''), (''priority'', ''u=1, i'')])
       (browser_headers accepts p)"

text \<open>The headers of the requests on the account.\<close>

definition account_headers :: "request_site \<Rightarrow> header list" where
  "account_headers site =
     map static
       [(''accept'', ''*/*''), (''accept-encoding'', ''gzip, deflate, br, zstd''),
        (''accept-language'', ''ru,en;q=0.9,en-GB;q=0.8,en-US;q=0.7''), (''content-type'', ''application/x-www-form-urlencoded''),
        (''origin'', ''https://vk.ru''), (''referer'', ''https://vk.ru/''), (''sec-fetch-mode'', ''cors''), (''sec-fetch-dest'', ''empty''),
        (''priority'', ''u=1, i''),
        (''sec-fetch-site'', (case site of Site_vk \<Rightarrow> ''same-site'' | Site_ok \<Rightarrow> ''cross-site''))]"

section \<open>A request\<close>

datatype http_answer = Not_sent | No_body | Body bytes

datatype http_error = Header_refused | Transport_failed | Body_failed | Not_json bytes

text \<open>What is posted, and what comes of it: the status is not looked at, an error keeps two hundred bytes of the body.\<close>

definition read_answer :: "(bytes \<Rightarrow> json option) \<Rightarrow> http_answer \<Rightarrow> http_error + json" where
  "read_answer parse answer =
     (case answer of
        Not_sent \<Rightarrow> Inl Transport_failed
      | No_body \<Rightarrow> Inl Body_failed
      | Body body \<Rightarrow> (case parse body of None \<Rightarrow> Inl (Not_json (take 200 body)) | Some value \<Rightarrow> Inr value))"

type_synonym posted = "(chars \<times> header list \<times> chars option) list"

definition guest_post_empty ::
  "(chars \<Rightarrow> bool) \<Rightarrow> (bytes \<Rightarrow> json option) \<Rightarrow> chars \<Rightarrow> profile \<Rightarrow> http_answer \<Rightarrow> posted \<times> (http_error + json)" where
  "guest_post_empty accepts parse endpoint p answer =
     (case empty_request_headers accepts p of
        None \<Rightarrow> ([], Inl Header_refused)
      | Some hs \<Rightarrow> ([(endpoint, hs, None)], read_answer parse answer))"

definition guest_post_form ::
  "(chars \<Rightarrow> bool) \<Rightarrow> (bytes \<Rightarrow> json option) \<Rightarrow> chars \<Rightarrow> chars \<Rightarrow> profile \<Rightarrow> http_answer \<Rightarrow> posted \<times> (http_error + json)" where
  "guest_post_form accepts parse endpoint fields_text p answer =
     (case form_request_headers accepts p of
        None \<Rightarrow> ([], Inl Header_refused)
      | Some hs \<Rightarrow> ([(endpoint, hs, Some fields_text)], read_answer parse answer))"

section \<open>Checking the calls of a list\<close>

text \<open>Every call in its order, all under one profile, with a pause between two.\<close>

primrec check_vk_hashes :: "('h \<Rightarrow> hash_check) \<Rightarrow> 'h list \<Rightarrow> ('h \<times> hash_check) list \<times> nat" where
  "check_vk_hashes check [] = ([], 0)"
| "check_vk_hashes check (h # hs) =
     (let (results, pauses) = check_vk_hashes check hs
      in ((h, check h) # results, if hs = [] then 0 else pauses + 1))"

fun join_with :: "chars \<Rightarrow> chars list \<Rightarrow> chars" where
  "join_with separator [] = []"
| "join_with separator [s] = s"
| "join_with separator (s # t # ss) = s @ separator @ join_with separator (t # ss)"

definition client_ids :: "(chars \<times> chars) list \<Rightarrow> chars" where
  "client_ids credentials = join_with (code_points '', '') (map fst credentials)"

lemma hashes_are_checked_in_order:
  "check_vk_hashes check hs = (map (\<lambda>h. (h, check h)) hs, length hs - 1)"
proof (induction hs)
  case (Cons h hs)
  then show ?case by (cases hs) simp_all
qed simp

section \<open>A drawn profile\<close>

lemma drawn_profile:
  "random_profile fingerprint roll = Some p \<Longrightarrow> \<exists>choice \<in> fst ` set (pool_named fingerprint). p = profile_of choice"
proof -
  assume "random_profile fingerprint roll = Some p"
  then obtain choice where c: "pick_weighted (pool_named fingerprint) roll = Some choice" "p = profile_of choice"
    by (auto simp: random_profile_def)
  moreover have "pool_named fingerprint \<noteq> []" using pool_total [of fingerprint] by auto
  ultimately have "choice \<in> fst ` set (pool_named fingerprint)"
    by (auto simp: pick_weighted_def pool_total split: option.splits dest: roll_through_entry)
  then show ?thesis using c(2) by blast
qed

text \<open>
  The requests of a drawn profile never fail for their headers, whatever the library accepts, and none of the
  headers the engine sets names a browser or a system: those are left to the library, which knows the one
  to imitate.
\<close>

theorem drawn_profile_keeps_quiet:
  assumes "random_profile fingerprint roll = Some p"
  shows "\<exists>empty filled. empty_request_headers accepts p = Some empty \<and> form_request_headers accepts p = Some filled
    \<and> {''user-agent'', ''sec-ch-ua'', ''sec-ch-ua-mobile'', ''sec-ch-ua-platform''} \<inter> fst ` set (empty @ filled) = {}
    \<and> distinct (map fst empty) \<and> distinct (map fst filled)"
proof -
  obtain choice where "p = profile_of choice" using drawn_profile [OF assms] by blast
  then show ?thesis
    by (simp add: profile_of_def empty_request_headers_def form_request_headers_def browser_headers_def profile_header_def static_def)
qed

text \<open>The client for challenges orders its headers itself exactly when the profile passes for Chrome.\<close>

theorem only_chrome_orders_its_headers:
  assumes "random_profile fingerprint roll = Some p"
  shows "cs_order (captcha_client_for_profile parse_proxy hooks p) \<noteq> None
    \<longleftrightarrow> fingerprint \<notin> code_points ` {''safari'', ''firefox'', ''edge'', ''opera''}"
proof -
  obtain choice where choice: "choice \<in> fst ` set (pool_named fingerprint)" and p: "p = profile_of choice"
    using drawn_profile [OF assms] by blast
  have order: "cs_order (captcha_client_for_profile parse_proxy hooks p) \<noteq> None \<longleftrightarrow> custom_order (fst choice)"
    by (simp add: p profile_of_def captcha_client_for_profile_def build_browser_client_def)
  have "custom_order (fst choice) \<longleftrightarrow> fingerprint \<notin> code_points ` {''safari'', ''firefox'', ''edge'', ''opera''}"
    using choice
    by (simp add: pool_named_def pool_defs split: if_splits; elim disjE; simp add: custom_order_def)
  then show ?thesis using order by simp
qed

end
