(* ===== verification/Log_Wait.thy ===== *)
theory Log_Wait
  imports Logging
begin

text \<open>
  Waiting in the logger, \<open>logging.rs\<close>: the writer's wait for lines, the wait of a flush or a shutdown for the
  writer with its timeout, and starting and stopping the writer's thread. The writer's condition variable is
  notified without its lock, the other one under it; a critical section of a lock is one step.
\<close>

section \<open>The writer waits for lines\<close>

text \<open>
  \<open>ww_work\<close>: there is a line or a shutdown. \<open>Ready_to_wait\<close>: the writer has found nothing and goes to sleep next;
  the notifications still to come are counted, first those before their increment of \<open>wake_generation\<close>,
  then those before their \<open>notify_one\<close>.
\<close>

datatype writer_wait_pc = Working | Has_observed u64 | Ready_to_wait | Asleep

record writer_wait =
  ww_generation :: u64
  ww_work :: bool
  ww_unannounced :: nat
  ww_unnotified :: nat
  ww_pc :: writer_wait_pc

datatype writer_wait_label = Ww_writer | Ww_work | Ww_announce | Ww_notify | Ww_timeout

text \<open>The end of \<open>writer_loop\<close>, \<open>notify_writer\<close> in its two operations, and what precedes it; \<open>None\<close>: no such step.\<close>

definition writer_wait_step :: "writer_wait_label \<Rightarrow> writer_wait \<Rightarrow> writer_wait option" where
  "writer_wait_step l s =
     (case l of
        Ww_writer \<Rightarrow>
          (case ww_pc s of
             Working \<Rightarrow> if ww_work s then None else Some (s\<lparr>ww_pc := Has_observed (ww_generation s)\<rparr>)
           | Has_observed g \<Rightarrow>
               Some (s\<lparr>ww_pc := (if ww_generation s = g \<and> \<not> ww_work s then Ready_to_wait else Working)\<rparr>)
           | Ready_to_wait \<Rightarrow> Some (s\<lparr>ww_pc := Asleep\<rparr>)
           | Asleep \<Rightarrow> None)
      | Ww_work \<Rightarrow> Some (s\<lparr>ww_work := True, ww_unannounced := ww_unannounced s + 1\<rparr>)
      | Ww_announce \<Rightarrow>
          if ww_unannounced s = 0 then None
          else Some (s\<lparr>ww_generation := ww_generation s + 1, ww_unannounced := ww_unannounced s - 1,
                       ww_unnotified := ww_unnotified s + 1\<rparr>)
      | Ww_notify \<Rightarrow>
          if ww_unnotified s = 0 then None
          else Some (s\<lparr>ww_unnotified := ww_unnotified s - 1, ww_pc := (if ww_pc s = Asleep then Working else ww_pc s)\<rparr>)
      | Ww_timeout \<Rightarrow> if ww_pc s = Asleep then Some (s\<lparr>ww_pc := Working\<rparr>) else None)"

fun writer_wait_run :: "writer_wait_label list \<Rightarrow> writer_wait \<Rightarrow> writer_wait option" where
  "writer_wait_run [] s = Some s"
| "writer_wait_run (l # ls) s = Option.bind (writer_wait_step l s) (writer_wait_run ls)"

text \<open>
  A notification can be lost: when it comes between the writer's last look and its sleep, nobody is asleep
  yet. The line stays where it is with no notification outstanding, and only the timeout of a tenth of a
  second wakes the writer.
\<close>

theorem line_waits_for_the_timeout:
  assumes "ww_pc s = Working" "\<not> ww_work s" "ww_unannounced s = 0" "ww_unnotified s = 0"
  shows "\<exists>t. writer_wait_run [Ww_writer, Ww_writer, Ww_work, Ww_announce, Ww_notify, Ww_writer] s = Some t
    \<and> ww_work t \<and> ww_pc t = Asleep \<and> ww_unannounced t = 0 \<and> ww_unnotified t = 0
    \<and> list_all (\<lambda>l. writer_wait_step l t = None) [Ww_writer, Ww_announce, Ww_notify]
    \<and> map_option ww_pc (writer_wait_step Ww_timeout t) = Some Working"
  using assms by (simp add: writer_wait_step_def)

section \<open>Others wait for the writer\<close>

text \<open>
  \<open>wait_until\<close> round by round: whether the condition holds, the clock, and, when it sleeps, whether the
  wait timed out and whether the condition holds then. \<open>None\<close>: it waits still when the list ends.
\<close>

fun wait_until :: "instant \<Rightarrow> (bool \<times> instant \<times> bool \<times> bool) list \<Rightarrow> bool option" where
  "wait_until deadline [] = None"
| "wait_until deadline ((holds, now, timed_out, holds_then) # rounds) =
     (if holds then Some True
      else if deadline \<le> now then Some False
      else if timed_out \<and> \<not> holds_then then Some False
      else wait_until deadline rounds)"

text \<open>The wait is true exactly when a round before its end saw the condition, and it ends by its deadline.\<close>

lemma wait_until_saw:
  "wait_until deadline rounds = Some True \<Longrightarrow> \<exists>r \<in> set rounds. fst r"
  by (induction rounds rule: wait_until.induct) (auto split: if_splits)

lemma wait_until_ends:
  "list_ex (\<lambda>(holds, now, _). holds \<or> deadline \<le> now) rounds \<Longrightarrow> wait_until deadline rounds \<noteq> None"
  by (induction rounds rule: wait_until.induct) auto

lemma wait_until_false:
  "wait_until deadline rounds = Some False \<Longrightarrow> \<exists>r \<in> set rounds. \<not> fst r \<and> (deadline \<le> fst (snd r) \<or> fst (snd (snd r)))"
  by (induction rounds rule: wait_until.induct) (auto split: if_splits)

section \<open>The life of the writer's thread\<close>

text \<open>\<open>lt_handle\<close>: the handle of the thread, until it is joined.\<close>

record logger_life =
  lt_accepting :: bool
  lt_shutdown :: bool
  lt_stopped :: bool
  lt_flush_requested :: nat
  lt_flush_completed :: nat
  lt_handle :: bool

definition with_writers :: "bool \<Rightarrow> logger_life" where
  "with_writers spawned =
     \<lparr>lt_accepting = spawned, lt_shutdown = False, lt_stopped = \<not> spawned, lt_flush_requested = 0, lt_flush_completed = 0,
      lt_handle = spawned\<rparr>"

text \<open>What the thread does once its loop has returned, or panicked.\<close>

definition thread_ends :: "bool \<Rightarrow> logger_life \<Rightarrow> logger_life" where
  "thread_ends panicked s = (if panicked then s\<lparr>lt_accepting := False\<rparr> else s)\<lparr>lt_stopped := True\<rparr>"

definition complete_flush :: "nat \<Rightarrow> logger_life \<Rightarrow> logger_life" where
  "complete_flush generation s = s\<lparr>lt_flush_completed := generation\<rparr>"

text \<open>\<open>waited\<close> is what \<open>wait_until\<close> gives.\<close>

definition request_shutdown :: "logger_life \<Rightarrow> logger_life" where
  "request_shutdown s = s\<lparr>lt_accepting := False, lt_shutdown := True\<rparr>"

definition after_shutdown_wait :: "bool \<Rightarrow> logger_life \<Rightarrow> bool \<times> logger_life" where
  "after_shutdown_wait waited s = (waited, if waited then s\<lparr>lt_handle := False\<rparr> else s)"

definition request_flush :: "logger_life \<Rightarrow> nat \<times> logger_life" where
  "request_flush s = (lt_flush_requested s + 1, s\<lparr>lt_flush_requested := lt_flush_requested s + 1\<rparr>)"

definition flush_condition :: "nat \<Rightarrow> logger_life \<Rightarrow> bool" where
  "flush_condition generation s \<longleftrightarrow> generation \<le> lt_flush_completed s \<or> lt_stopped s"

text \<open>The writer's thread, and any number of callers.\<close>

datatype life_label = Life_flush | Life_complete nat | Life_shutdown | Life_waited | Life_ends bool

inductive life_step :: "logger_life \<Rightarrow> life_label \<Rightarrow> logger_life \<Rightarrow> bool" where
  life_flush: "life_step s Life_flush (snd (request_flush s))"
| life_complete: "\<not> lt_stopped s \<Longrightarrow> g \<le> lt_flush_requested s \<Longrightarrow> life_step s (Life_complete g) (complete_flush g s)"
| life_shutdown: "life_step s Life_shutdown (request_shutdown s)"
| life_waited: "lt_stopped s \<Longrightarrow> lt_shutdown s \<Longrightarrow> life_step s Life_waited (snd (after_shutdown_wait True s))"
| life_ends: "\<not> lt_stopped s \<Longrightarrow> lt_shutdown s \<or> panicked \<Longrightarrow> life_step s (Life_ends panicked) (thread_ends panicked s)"

definition life_inv :: "logger_life \<Rightarrow> bool" where
  "life_inv s \<longleftrightarrow> (if lt_stopped s then \<not> lt_accepting s else lt_handle s)
     \<and> (if lt_shutdown s then \<not> lt_accepting s else True) \<and> lt_flush_completed s \<le> lt_flush_requested s"

interpretation logger_life: step_invariant life_step life_inv
  by unfold_locales (auto elim!: life_step.cases simp: life_inv_def request_flush_def complete_flush_def request_shutdown_def
      after_shutdown_wait_def thread_ends_def split: if_splits)

text \<open>
  However flushes, shutdowns and the end of the thread are interleaved: once the thread has stopped, the logger
  accepts no line; while it runs, its handle is kept for a later shutdown; and no flush is completed
  that was not asked for, so that a caller waits for its own.
\<close>

lemma logger_life_run:
  assumes "steps life_step (with_writers spawned) ls s"
  shows "(lt_stopped s \<longrightarrow> \<not> lt_accepting s) \<and> (\<not> lt_stopped s \<longrightarrow> lt_handle s)
    \<and> (\<not> lt_stopped s \<longrightarrow> \<not> flush_condition (fst (request_flush s)) s)"
proof -
  have "life_inv s" by (rule logger_life.steps_inv [OF assms]) (simp add: life_inv_def with_writers_def)
  then show ?thesis by (simp add: life_inv_def flush_condition_def request_flush_def split: if_splits)
qed

end
