(* ===== verification/Keys.thy ===== *)
theory Keys
  imports Obfs
begin

unbundle bit_operations_syntax

text \<open>
  The keys of the disguise and the seed of its random numbers: \<open>wrap.rs\<close>, which derives the key from the
  password, and the parts of \<open>obfs.rs\<close> that split it among the ciphers and seed the generator when the
  system has no randomness. HKDF-SHA256 is the library's: a parameter over salt, secret and info.
\<close>

section \<open>Keys\<close>

definition WRAP_KEY_LEN :: nat where "WRAP_KEY_LEN = 32"

definition WRAP_SALT_BYTES :: bytes where "WRAP_SALT_BYTES = ascii ''CSQTT-WRAP-v1''"

definition WRAP_INFO :: bytes where "WRAP_INFO = ascii ''rtp-obfs/chacha20poly1305''"

datatype key_error = Empty_password | Derivation_failed

definition derive_wrap_key :: "(bytes \<Rightarrow> bytes \<Rightarrow> bytes \<Rightarrow> nat \<Rightarrow> bytes option) \<Rightarrow> bytes \<Rightarrow> key_error + bytes" where
  "derive_wrap_key hkdf password =
     (if password = [] then Inl Empty_password
      else case hkdf WRAP_SALT_BYTES password WRAP_INFO WRAP_KEY_LEN of
             None \<Rightarrow> Inl Derivation_failed
           | Some key \<Rightarrow> Inr key)"

text \<open>\<open>ObfsCipher::new\<close>: the key of AES-128, that of HMAC-SHA1 and that of ChaCha20-Poly1305.\<close>

definition cipher_keys :: "bytes \<Rightarrow> bytes \<times> bytes \<times> bytes" where
  "cipher_keys key = (take 16 key, drop 16 key, key)"

section \<open>Seeds\<close>

text \<open>\<open>to_le_bytes\<close> and \<open>rotate_left\<close> of \<open>u64\<close>.\<close>

definition to_le64 :: "u64 \<Rightarrow> bytes" where
  "to_le64 w = rev (to_be64 w)"

definition fallback_base :: "u64 \<Rightarrow> u64 \<Rightarrow> u32 \<Rightarrow> u64" where
  "fallback_base time sequence_number pid = time XOR word_rotl 17 sequence_number XOR ucast pid"

definition fallback_chunk :: "u64 \<Rightarrow> nat \<Rightarrow> u64" where
  "fallback_chunk base i = word_rotl (i * 13) (base + word_of_nat i * 0x9e3779b97f4a7c15)"

definition fallback_seed :: "u64 \<Rightarrow> u64 \<Rightarrow> u32 \<Rightarrow> bytes" where
  "fallback_seed time sequence_number pid =
     concat (map (\<lambda>i. to_le64 (fallback_chunk (fallback_base time sequence_number pid) i)) [0..<4])"

text \<open>
  \<open>system\<close> is what \<open>getrandom\<close> gives; the counter of the seeds made without it is drawn from only then.
\<close>

definition seeded_rng :: "bytes option \<Rightarrow> u64 \<Rightarrow> u32 \<Rightarrow> u64 \<Rightarrow> bytes \<times> u64" where
  "seeded_rng system time pid fallback_sequence =
     (case system of
        Some seed \<Rightarrow> (seed, fallback_sequence)
      | None \<Rightarrow> (fallback_seed time fallback_sequence pid, fallback_sequence + 1))"

lemma length_fallback_seed: "length (fallback_seed time sequence_number pid) = 32"
  by (simp add: fallback_seed_def to_le64_def upt_conv_Cons)

lemma word_rotl_inj: "word_rotl n a = word_rotl n b \<longleftrightarrow> a = b"
  by (metis word_rot_gal)

lemma word_rotl_none: "word_rotl 0 (w :: u64) = w"
  by (rule bit_word_eqI) (simp add: bit_word_rotl_iff)

lemma fallback_seed_base:
  "fallback_seed t s p = fallback_seed t' s' p' \<Longrightarrow> fallback_base t s p = fallback_base t' s' p'"
proof -
  have "take 8 (fallback_seed t s p) = to_le64 (fallback_base t s p)" for t s p
    by (simp add: fallback_seed_def to_le64_def upt_conv_Cons fallback_chunk_def word_rotl_none)
  moreover assume "fallback_seed t s p = fallback_seed t' s' p'"
  ultimately have "to_le64 (fallback_base t s p) = to_le64 (fallback_base t' s' p')" by metis
  then show ?thesis by (simp add: to_le64_def)
qed

text \<open>
  Without randomness of the system two senders of one process never share a seed by starting in the same
  nanosecond: the counter keeps their seeds apart.
\<close>

theorem fallback_seeds_differ:
  assumes "s \<noteq> s'"
  shows "fallback_seed time s pid \<noteq> fallback_seed time s' pid"
proof
  assume "fallback_seed time s pid = fallback_seed time s' pid"
  then have "fallback_base time s pid = fallback_base time s' pid" by (rule fallback_seed_base)
  moreover have "word_rotl 17 r = time XOR fallback_base time r pid XOR ucast pid" for r
    by (simp add: fallback_base_def bit_eq_iff bit_xor_iff) blast
  ultimately have "word_rotl 17 s = word_rotl 17 s'" by metis
  then show False using assms by (simp add: word_rotl_inj)
qed

text \<open>But a later moment can undo the counter: time and counter are only combined, so that seeds can repeat.\<close>

theorem fallback_seeds_repeat:
  "fallback_seed (time XOR word_rotl 17 s XOR word_rotl 17 s') s' pid = fallback_seed time s pid"
proof -
  have "fallback_base (time XOR word_rotl 17 s XOR word_rotl 17 s') s' pid = fallback_base time s pid"
    by (simp add: fallback_base_def bit_eq_iff bit_xor_iff) blast
  then show ?thesis by (simp add: fallback_seed_def)
qed

end
