(* ===== verification/Host_Calls.thy ===== *)
theory Host_Calls
  imports Engine Packet_Bridge Monitors Shutdown
begin

text \<open>
  The calls of the host that hand on to a component, \<open>ffi.rs\<close>: strings and packets behind pointers, the nudge
  and the change of the network, and the goodbye; and the listening socket of \<open>tun.rs\<close>. A pointer is the bytes
  behind it, or \<open>None\<close> when it is null.
\<close>

section \<open>Strings and packets\<close>

datatype c_error = Null_pointer | Not_utf8

text \<open>A C string ends at its first zero.\<close>

definition c_str :: "bytes option \<Rightarrow> c_error + bytes" where
  "c_str p =
     (case p of
        None \<Rightarrow> Inl Null_pointer
      | Some memory \<Rightarrow> let s = takeWhile (\<lambda>b. b \<noteq> 0) memory in if is_utf8 s then Inr s else Inl Not_utf8)"

definition engine_packet_port :: "engine_globals \<Rightarrow> int" where
  "engine_packet_port g = int (eg_port g)"

definition engine_tun_ip :: "engine_globals \<Rightarrow> chars" where
  "engine_tun_ip g = eg_tun_ip g"

definition engine_inject_packet :: "(bytes, 'p) queue_ops \<Rightarrow> (packet_buf, 'u) queue_ops \<Rightarrow> bytes \<Rightarrow> nat \<Rightarrow> bytes option \<Rightarrow> int
    \<Rightarrow> ('p, 'u) uplink_bridge option \<times> idle_state \<Rightarrow> int \<times> ('p, 'u) uplink_bridge option \<times> idle_state" where
  "engine_inject_packet P U fresh now_ms data n =
     (case data of
        None \<Rightarrow> Pair (-3)
      | Some memory \<Rightarrow> if n \<le> 0 then Pair (-3) else inject_packet P U fresh now_ms (take (nat n) memory))"

text \<open>The answer is the same whatever the bridge is when there is nothing to send or too much.\<close>

lemma injected_lengths:
  "n \<le> 0 \<or> data = None \<or> (int PACKET_CAPACITY - int PACKET_HEADROOM < n \<and> nat n \<le> length (the data))
    \<Longrightarrow> engine_inject_packet P U fresh now_ms data n s = (-3, s)"
  by (cases s; cases data) (auto simp: engine_inject_packet_def inject_packet_def PACKET_CAPACITY_def PACKET_HEADROOM_def)

section \<open>Nudge, network change and goodbye\<close>

definition engine_nudge :: "wake_state \<Rightarrow> wake_state" where
  "engine_nudge w = wake_signal 0 w"

text \<open>\<open>rebind::request\<close>: the epoch moves, then everybody who waits is woken.\<close>

definition engine_rebind :: "('n, 'f) notify_ops \<Rightarrow> ('n, 'f) wait_state \<Rightarrow> ('n, 'f) wait_state" where
  "engine_rebind N s = s\<lparr>wt_epoch := wt_epoch s + 1, wt_notify := nt_notify_waiters N (wt_notify s)\<rparr>"

definition engine_disconnect :: "stop_flags \<Rightarrow> stop_flags" where
  "engine_disconnect f = signal_stop f"

text \<open>
  After a nudge every driver that looks asks its core to check the path at once, with no time taken off
  the life of its allocation.
\<close>

theorem nudge_reaches_every_driver:
  assumes "wk_epoch w = seen"
  shows "observe_wake (wk_epoch (engine_nudge w)) (last_gap (engine_nudge w)) now seen c
    = (True, seen + 1, snd (resync_after_suspend 0 now c))"
  using assms by (simp add: engine_nudge_def wake_signal_def last_gap_def observe_wake_def as_millis_def from_millis_def)

context notify_laws
begin

lemma rebind_resolves:
  assumes "wait_inv N seen s" "wt_epoch s + 1 \<noteq> seen"
  shows "wt_pc (run_waiter 3 (requested N seen) (engine_rebind N s)) = Resolved"
proof (cases "wt_pc s")
  case (Awaiting f)
  then have "nt_ready N (nt_notify_waiters N (wt_notify s)) f"
    using assms(1) by (intro covered_wake) (simp add: wait_inv_def)
  then show ?thesis using Awaiting assms(2) by (simp add: numeral_eq_Suc requested_def engine_rebind_def)
qed (use assms in \<open>simp_all add: numeral_eq_Suc requested_def engine_rebind_def wait_inv_def\<close>)

end

text \<open>
  A change of the network announced by the host ends every session of the time before: in whatever state
  its waiting task is, between any number of other announcements and wake-ups, once the call has returned
  the task resolves within three steps of its own.
\<close>

theorem host_rebind_reaches_every_session:
  assumes "notify_ok N" "steps (wait_step N (requested N seen)) (wait_start e n) ls s" "wt_epoch s + 1 \<noteq> seen"
  shows "wt_pc (run_waiter 3 (requested N seen) (engine_rebind N s)) = Resolved"
  by (rule notify_laws.rebind_resolves [OF notify_laws.intro [OF assms(1)] requested_run [OF assms(1,2)] assms(3)])

lemma host_rebind_reaches_every_session_witness:
  "wt_pc (run_waiter 3 (requested counting_notify 0)
     (engine_rebind counting_notify \<lparr>wt_epoch = 0, wt_notify = 0, wt_owed = 0, wt_pc = Awaiting 0\<rparr>)) = Resolved"
proof (rule host_rebind_reaches_every_session [OF counting_notify_ok])
  show "steps (wait_step counting_notify (requested counting_notify 0)) (wait_start 0 0)
      [L_wait, L_wait] \<lparr>wt_epoch = 0, wt_notify = 0, wt_owed = 0, wt_pc = Awaiting 0\<rparr>"
    by (rule steps_Cons, rule wait_waiter, simp add: requested_def wait_start_def,
        rule steps_Cons, rule wait_waiter, simp add: requested_def)
      (simp add: counting_notify_def steps_Nil)
qed simp

section \<open>The listening socket\<close>

datatype listener_call = Unix_socket | Bind_abstract bytes | Listen nat

text \<open>
  The calls made, and the error that ends them; an abstract name has at most 107 bytes. \<open>answer\<close> is the error
  of the call with that number.
\<close>

datatype 'e bind_error = Name_too_long | Call_failed 'e

definition bind_listener :: "(nat \<Rightarrow> 'e option) \<Rightarrow> bytes \<Rightarrow> listener_call list \<times> ('e bind_error + unit)" where
  "bind_listener answer name =
     (case answer 0 of
        Some e \<Rightarrow> ([Unix_socket], Inl (Call_failed e))
      | None \<Rightarrow>
          if 107 < length name then ([Unix_socket], Inl Name_too_long)
          else case answer 1 of
            Some e \<Rightarrow> ([Unix_socket, Bind_abstract name], Inl (Call_failed e))
          | None \<Rightarrow>
              ([Unix_socket, Bind_abstract name, Listen 4], case answer 2 of Some e \<Rightarrow> Inl (Call_failed e) | None \<Rightarrow> Inr ()))"

lemma listener_is_bound:
  "bind_listener answer name = (calls, Inr ()) \<Longrightarrow> calls = [Unix_socket, Bind_abstract name, Listen 4] \<and> length name \<le> 107"
  by (auto simp: bind_listener_def split: option.splits if_splits)

end
