(* ===== verification/Tunnel.thy ===== *)
theory Tunnel
  imports Dispatch_Loops Replay_Window
begin

text \<open>
  The way of a packet from the peer to the host across the components: a datagram is authenticated, checked
  against replays (\<open>Replay_Window\<close>), and what passes goes into the reassembler (\<open>Dispatcher\<close>,
  \<open>Flow_Reassembler\<close>). The queue between the two hands packets on in their order.
\<close>

text \<open>The arrivals of one session, each with the clock reading at which the reassembler gets it.\<close>

fun receive_all :: "obfs_cipher \<Rightarrow> obfs_config \<Rightarrow> (packet_buf \<times> u64) list \<Rightarrow> replay_window \<Rightarrow> return_reorder
    \<Rightarrow> (replay_window \<times> return_reorder) option" where
  "receive_all C config [] w r = Some (w, r)"
| "receive_all C config ((q, now) # arrivals) w r = do {
     (u, w) \<leftarrow> authenticate_inbound C config w q;
     receive_all C config arrivals w (case u of None \<Rightarrow> r | Some u \<Rightarrow> reorder_push now u r)
   }"

section \<open>What passes the window\<close>

definition kept :: "'a list \<Rightarrow> bool list \<Rightarrow> 'a list" where
  "kept xs bs = map fst (filter snd (zip xs bs))"

lemma kept_simps [simp]:
  "kept [] bs = []" "kept (x # xs) (b # bs) = (if b then x # kept xs bs else kept xs bs)"
  by (simp_all add: kept_def)

lemma kept_map: "kept (map f xs) bs = map f (kept xs bs)"
  by (simp add: kept_def zip_map1 filter_map o_def case_prod_beta)

lemma received_packets:
  assumes "cipher_ok C" "rng_ok R" "list_all2 (sent_as R C (oc_mode config)) xs qs" "length ts = length xs"
  shows "\<exists>us w'. receive_all C config (zip qs ts) w r = Some (w', reassembled us r)
    \<and> map (\<lambda>(t, u). (t, pb_slice u)) us
      = kept (zip ts (map snd xs)) (accept_run accept_rtp (map (\<lambda>x. word_of_nat (fst x)) xs) w)"
  using assms(3,4)
proof (induction xs qs arbitrary: ts w r rule: list_all2_induct)
  case Nil
  then show ?case by (simp add: reassembled_def)
next
  case (Cons x xs q qs)
  obtain t ts' where ts: "ts = t # ts'" "length ts' = length xs" using Cons.prems by (cases ts) auto
  obtain b w1 where acc: "accept_rtp (word_of_nat (fst x)) w = (b, w1)" by fastforce
  obtain u where u: "authenticate_inbound C config w q = Some (if b then Some u else None, w1)" "pb_slice u = snd x"
    using authenticate_sent [OF assms(1,2), of config "fst x" "snd x" q w] Cons.hyps(1) by (auto simp: acc)
  obtain us w' where rest: "receive_all C config (zip qs ts') w1 (if b then reorder_push t u r else r)
        = Some (w', reassembled us (if b then reorder_push t u r else r))"
    and us: "map (\<lambda>(t, u). (t, pb_slice u)) us
        = kept (zip ts' (map snd xs)) (accept_run accept_rtp (map (\<lambda>x. word_of_nat (fst x)) xs) w1)"
    using Cons.IH [OF ts(2), of w1 "if b then reorder_push t u r else r"] by blast
  show ?case
    using rest us
    by (intro exI [of _ "if b then (t, u) # us else us"] exI [of _ w'])
      (cases b, simp_all add: ts u acc reassembled_def)
qed

text \<open>Within sixteen thousand counters of each other, exactly the first arrivals are fresh.\<close>

lemma reach_of_close:
  "base \<le> h \<Longrightarrow> h < base + 2 ^ 14 \<Longrightarrow> base + 2 ^ 14 \<le> 2 ^ 16 \<Longrightarrow> list_all (\<lambda>n. base \<le> n \<and> n < base + 2 ^ 14) ns
    \<Longrightarrow> in_reach h ns"
  by (induction ns arbitrary: h) (auto simp: max_def)

lemma fresh_of_close:
  assumes "list_all (\<lambda>n. base \<le> n \<and> n < base + 2 ^ 14) ns" "i < length ns"
  shows "fresh_at ns i \<longleftrightarrow> ns ! i \<notin> set (take i ns)"
proof -
  have "m < ns ! i + 16384" if "m \<in> set (take i ns)" for m
  proof -
    have "m \<in> set ns" using that by (rule in_set_takeD)
    then have "m < base + 2 ^ 14" "base \<le> ns ! i" using assms by (simp_all add: list_all_iff)
    then show ?thesis by simp
  qed
  then show ?thesis by (auto simp: fresh_at_def)
qed

lemma close_run:
  assumes "list_all (\<lambda>n. base \<le> n \<and> n < base + 2 ^ 14) ns" "base + 2 ^ 14 \<le> 2 ^ 16"
  shows "accept_run accept_rtp (map word_of_nat ns) new_window = map (\<lambda>i. ns ! i \<notin> set (take i ns)) [0..<length ns]"
proof (cases ns)
  case (Cons n rest)
  then have "accept_run accept_rtp (map word_of_nat ns) new_window = map (fresh_at ns) [0..<length ns]"
    using assms by (simp only: Cons) (intro fresh_run reach_of_close, auto)
  also have "\<dots> = map (\<lambda>i. ns ! i \<notin> set (take i ns)) [0..<length ns]"
    using fresh_of_close [OF assms(1)] by simp
  finally show ?thesis .
qed simp

text \<open>The first arrivals of every key: each key once, and all of them.\<close>

definition first_arrivals :: "('a \<Rightarrow> 'b) \<Rightarrow> 'a list \<Rightarrow> 'a list" where
  "first_arrivals f xs = kept xs (map (\<lambda>i. f (xs ! i) \<notin> f ` set (take i xs)) [0..<length xs])"

lemma first_arrivals_snoc:
  "first_arrivals f (xs @ [x]) = first_arrivals f xs @ (if f x \<in> f ` set xs then [] else [x])"
proof -
  have "map (\<lambda>i. f ((xs @ [x]) ! i) \<notin> f ` set (take i (xs @ [x]))) [0..<length (xs @ [x])]
      = map (\<lambda>i. f (xs ! i) \<notin> f ` set (take i xs)) [0..<length xs] @ [f x \<notin> f ` set xs]"
    by (simp add: nth_append)
  then show ?thesis unfolding first_arrivals_def by (simp only:) (simp add: kept_def)
qed

lemma first_arrivals_keys:
  "f ` set (first_arrivals f xs) = f ` set xs \<and> distinct (map f (first_arrivals f xs)) \<and> set (first_arrivals f xs) \<subseteq> set xs"
proof (induction xs rule: rev_induct)
  case Nil
  then show ?case by (simp add: first_arrivals_def)
next
  case (snoc x xs)
  then show ?case by (auto simp: first_arrivals_snoc)
qed

section \<open>What the reassembler makes of it\<close>

lemma pushed_frames:
  assumes "list_all2 (\<lambda>a (t, u). t = snd a \<and> trim_front FRAME_LEN u = Inr (g (fst a))
      \<and> (\<exists>rest. pb_slice u = header_bytes \<lparr>fh_sender = sender, fh_flow = flow, fh_sequence = word_of_nat (fst a)\<rparr> @ rest)) arr us"
  shows "reassembled us r = (let (ra, ready) = push_all (map (arrival sender flow g) arr) (ro_reassembler r) (ro_ready r)
     in r\<lparr>ro_reassembler := ra, ro_ready := ready\<rparr>)"
  using assms
proof (induction arr us arbitrary: r rule: list_all2_induct)
  case Nil
  then show ?case by (simp add: reassembled_def)
next
  case (Cons a arr tu us)
  let ?h = "\<lparr>fh_sender = sender, fh_flow = flow, fh_sequence = word_of_nat (fst a)\<rparr>"
  obtain u rest where tu: "tu = (snd a, u)" "trim_front FRAME_LEN u = Inr (g (fst a))" "pb_slice u = header_bytes ?h @ rest"
    using Cons.hyps(1) by (cases tu) auto
  obtain ra ready where p: "push_at ?h (g (fst a)) (snd a) (ro_reassembler r) (ro_ready r) = (ra, ready)" by fastforce
  have "reorder_push (snd a) u r = r\<lparr>ro_reassembler := ra, ro_ready := ready\<rparr>"
    by (simp add: reorder_push_def tu p frame_codec.decode_encode)
  then show ?case
    using Cons.IH [of "r\<lparr>ro_reassembler := ra, ro_ready := ready\<rparr>"] p
    by (simp add: reassembled_def tu(1) arrival_def case_prod_unfold Let_def)
qed

lemma trim_front_longer: "n \<le> length (pb_slice u) \<Longrightarrow> trim_front n u = Inr (u\<lparr>pb_start := pb_start u + n\<rparr>)"
  by (simp add: trim_front_def pb_slice_def sub_def pb_len_def)

lemma payload_of_frames:
  assumes us: "map (\<lambda>(t, u). (t, pb_slice u)) us
      = map (\<lambda>a. (snd a, header_bytes \<lparr>fh_sender = sender, fh_flow = flow, fh_sequence = word_of_nat (fst a)\<rparr> @ pkt (fst a))) arr"
    and keys: "distinct (map fst arr)"
  obtains g where "list_all2 (\<lambda>a (t, u). t = snd a \<and> trim_front FRAME_LEN u = Inr (g (fst a))
      \<and> (\<exists>rest. pb_slice u = header_bytes \<lparr>fh_sender = sender, fh_flow = flow, fh_sequence = word_of_nat (fst a)\<rparr> @ rest)) arr us"
    "\<forall>k \<in> fst ` set arr. pb_slice (g k) = pkt k"
proof
  define cut where "cut = map (\<lambda>(t, u). u\<lparr>pb_start := pb_start u + FRAME_LEN\<rparr>) us"
  define g where "g k = the (map_of (zip (map fst arr) cut) k)" for k
  have len: "length us = length arr" using arg_cong [OF us, of length] by simp
  have nth: "(case us ! i of (t, u) \<Rightarrow> t = snd (arr ! i) \<and> g (fst (arr ! i)) = u\<lparr>pb_start := pb_start u + FRAME_LEN\<rparr>
      \<and> pb_slice u = header_bytes \<lparr>fh_sender = sender, fh_flow = flow, fh_sequence = word_of_nat (fst (arr ! i))\<rparr> @ pkt (fst (arr ! i)))"
    if i: "i < length arr" for i
  proof -
    have "map_of (zip (map fst arr) cut) (map fst arr ! i) = Some (cut ! i)"
      using keys len i by (intro map_of_zip_nth) (simp_all add: cut_def)
    moreover have "map (\<lambda>(t, u). (t, pb_slice u)) us ! i = map (\<lambda>a. (snd a,
        header_bytes \<lparr>fh_sender = sender, fh_flow = flow, fh_sequence = word_of_nat (fst a)\<rparr> @ pkt (fst a))) arr ! i"
      by (simp only: us)
    ultimately show ?thesis using i len by (cases "us ! i") (simp add: g_def cut_def)
  qed
  have long: "FRAME_LEN \<le> length (header_bytes h @ rest)" for h rest by (simp add: length_header_bytes FRAME_LEN_def)
  have trimmed: "(case us ! i of (t, u) \<Rightarrow> trim_front FRAME_LEN u = Inr (g (fst (arr ! i))) \<and> pb_slice (g (fst (arr ! i))) = pkt (fst (arr ! i)))"
    if i: "i < length arr" for i
  proof -
    obtain t u where tu: "us ! i = (t, u)" by fastforce
    have n: "g (fst (arr ! i)) = u\<lparr>pb_start := pb_start u + FRAME_LEN\<rparr>"
      "pb_slice u = header_bytes \<lparr>fh_sender = sender, fh_flow = flow, fh_sequence = word_of_nat (fst (arr ! i))\<rparr> @ pkt (fst (arr ! i))"
      using nth [OF i] by (simp_all add: tu)
    have "trim_front FRAME_LEN u = Inr (g (fst (arr ! i)))"
      using trim_front_longer [of FRAME_LEN u] long by (simp add: n)
    moreover from trim_front_slice [OF this] have "pb_slice (g (fst (arr ! i))) = pkt (fst (arr ! i))"
      by (simp add: n(2) length_header_bytes FRAME_LEN_def)
    ultimately show ?thesis by (simp add: tu)
  qed
  show "list_all2 (\<lambda>a (t, u). t = snd a \<and> trim_front FRAME_LEN u = Inr (g (fst a))
      \<and> (\<exists>rest. pb_slice u = header_bytes \<lparr>fh_sender = sender, fh_flow = flow, fh_sequence = word_of_nat (fst a)\<rparr> @ rest)) arr us"
    unfolding list_all2_conv_all_nth
  proof (intro conjI allI impI)
    fix i assume "i < length arr"
    then show "case us ! i of (t, u) \<Rightarrow> t = snd (arr ! i) \<and> trim_front FRAME_LEN u = Inr (g (fst (arr ! i)))
        \<and> (\<exists>rest. pb_slice u = header_bytes \<lparr>fh_sender = sender, fh_flow = flow, fh_sequence = word_of_nat (fst (arr ! i))\<rparr> @ rest)"
      using nth trimmed by (cases "us ! i") force
  qed (simp add: len)
  show "\<forall>k \<in> fst ` set arr. pb_slice (g k) = pkt k"
  proof
    fix k assume "k \<in> fst ` set arr"
    then obtain i where "i < length arr" "k = fst (arr ! i)" by (auto simp: in_set_conv_nth)
    then show "pb_slice (g k) = pkt k" using trimmed [of i] by (cases "us ! i") simp
  qed
qed

section \<open>Both together\<close>

definition framed_as :: "u64 \<Rightarrow> u64 \<Rightarrow> (nat \<Rightarrow> bytes) \<Rightarrow> nat \<Rightarrow> bytes" where
  "framed_as sender flow pkt k = header_bytes \<lparr>fh_sender = sender, fh_flow = flow, fh_sequence = word_of_nat k\<rparr> @ pkt k"

lemma received_first_arrivals:
  assumes "cipher_ok C" "rng_ok R" "list_all2 (sent_as R C (oc_mode config)) (map (\<lambda>a. (c (fst a), payload (fst a))) arr) qs"
    and "inj_on c (fst ` set arr)" "\<forall>a\<in>set arr. base \<le> c (fst a) \<and> c (fst a) < base + 2 ^ 14" "base + 2 ^ 14 \<le> 2 ^ 16"
  shows "\<exists>us w. receive_all C config (zip qs (map snd arr)) new_window r = Some (w, reassembled us r)
    \<and> map (\<lambda>(t, u). (t, pb_slice u)) us = map (\<lambda>a. (snd a, payload (fst a))) (first_arrivals fst arr)"
proof -
  let ?xs = "map (\<lambda>a. (c (fst a), payload (fst a))) arr" and ?ns = "map (\<lambda>a. c (fst a)) arr"
  have run: "accept_run accept_rtp (map word_of_nat ?ns) new_window = map (\<lambda>i. ?ns ! i \<notin> set (take i ?ns)) [0..<length ?ns]"
    by (rule close_run [OF _ assms(6)]) (use assms(5) in \<open>simp add: list_all_iff\<close>)
  have first: "?ns ! i \<notin> set (take i ?ns) \<longleftrightarrow> fst (arr ! i) \<notin> fst ` set (take i arr)" if i: "i < length arr" for i
  proof -
    have "set (take i arr) \<subseteq> set arr" by (rule set_take_subset)
    then have "c (fst (arr ! i)) \<in> c ` fst ` set (take i arr) \<longleftrightarrow> fst (arr ! i) \<in> fst ` set (take i arr)"
      using i by (intro inj_on_image_mem_iff [OF assms(4)]) auto
    moreover have "set (take i ?ns) = c ` fst ` set (take i arr)" by (simp add: take_map image_image)
    ultimately show ?thesis using i by simp
  qed
  have bits: "accept_run accept_rtp (map (\<lambda>x. word_of_nat (fst x)) ?xs) new_window
      = map (\<lambda>i. fst (arr ! i) \<notin> fst ` set (take i arr)) [0..<length arr]"
    using run first by (simp add: o_def cong: map_cong)
  have pairs: "zip (map snd arr) (map snd ?xs) = map (\<lambda>a. (snd a, payload (fst a))) arr"
    by (simp add: zip_map_map zip_same_conv_map)
  show ?thesis
    using received_packets [OF assms(1-3), of "map snd arr" new_window r]
    unfolding bits pairs first_arrivals_def kept_map by simp
qed

lemma ucast_word_of_nat16: "(ucast (word_of_nat n :: u64) :: u16) = word_of_nat n"
  by (rule bit_word_eqI) (simp add: bit_simps)

text \<open>Any payload of a packet's size can be sent under any counter.\<close>

lemma example_sent:
  assumes "payload \<noteq> []" "length payload \<le> 2000"
  shows "\<exists>q. sent_as zero_rng plain_cipher Video (n, payload) q"
proof -
  let ?p = "\<lparr>pb_storage = replicate 64 0 @ payload @ replicate (2240 - length payload) 0, pb_start = 64, pb_end = 64 + length payload\<rparr>"
  let ?st = "(new_obfs_state zero_rng 0 0 ())\<lparr>os_count := word_of_nat n\<rparr>"
  have "pb_slice ?p = payload" by (simp add: pb_slice_def sub_def)
  moreover have "wf_packet ?p" using assms by (simp add: wf_packet_def PACKET_CAPACITY_def)
  moreover obtain q st' where "wrap zero_rng plain_cipher ?p (new_config Video 1) 0 ?st = (Inr q, st')"
    using assms
    by (simp add: wrap_def wrap_body_def next_count_def pb_is_empty_def new_config_def prepend_def
        extend_tail_def zero_rng_def new_obfs_state_def PACKET_CAPACITY_def Let_def)
  moreover have "initial_sequence ?st (os_count ?st) = word_of_nat n"
    by (simp add: initial_sequence_def new_obfs_state_def zero_rng_def ucast_word_of_nat16)
  ultimately show ?thesis unfolding sent_as_def prod.case by blast
qed

end
