(* ===== verification/Spec2Isabelle.thy ===== *)
theory Spec2Isabelle
  imports Selective_Fec Obfs Replay_Window Turn_Safety Turn_Mirror Turn_Stream Recovery Idle Dispatcher Worker_Retry Worker_Pool
    Handshake Shutdown Udp_Batch Session_Writer Dispatch Packet_Bridge Turn_Endpoint Dns Session Logging Turn_Loop Worker_Loop Auth Engine Event_Log
    Vk_Calls Disguise Sockets Dispatch_Loops Writer_Loops Udp_From Engine_Run Monitors Requests Log_Wait Keys Host_Calls Tunnel
begin

text \<open>
  The CSQTT engine, \<open>src/examples/modulecsqtt/native/csqtt-engine\<close>, carries the packets of a TUN device, of a
  local UDP socket or of an in-process bridge to a peer, over many TURN relays at once, each packet disguised
  as RTP. This development models the engine's own Rust code and proves what makes its parts correct. File
  names below are relative to that directory. The names of the definitions are those of the source, with a
  word added where HOL has the name already.

  \<^bold>\<open>The program and its parts.\<close> The host starts the engine through \<open>ffi.rs\<close>; \<open>lib.rs\<close> checks the configuration,
  starts the dispatcher, the monitors and the workers, and takes everything down in order. \<open>auth.rs\<close>,
  \<open>vk_js_calls.rs\<close>, \<open>profiles.rs\<close> and \<open>namegen.rs\<close> obtain TURN credentials, \<open>dns.rs\<close> and \<open>turn_endpoint.rs\<close> the
  addresses of relays. \<open>worker.rs\<close> shares a credential among eighteen workers; each worker runs one session after
  another (\<open>session.rs\<close>), and a session allocates at a relay (\<open>turn.rs\<close> around the sans-IO core \<open>turn_core.rs\<close>
  with its codec \<open>stun_codec.rs\<close>), asks the server for its configuration (\<open>protocol.rs\<close>) and then moves packets.
  Outgoing packets are framed and numbered per flow (\<open>shared/flow_frame.rs\<close>), classified
  (\<open>shared/striped_scheduler.rs\<close>), given to the worker whose turn it is (\<open>dispatcher.rs\<close>), disguised (\<open>obfs.rs\<close>) and
  sent, alone, twice (\<open>shared/selective_fec.rs\<close>) or in batches (\<open>udp_batch.rs\<close>, \<open>turn_stream.rs\<close>). Incoming ones
  are authenticated, checked against replays and put back in order. \<open>rebind.rs\<close>, \<open>wake.rs\<close>, \<open>repair.rs\<close> and
  \<open>idle.rs\<close> notice dead paths, suspensions, orders of the server and silence; \<open>packet.rs\<close> has the buffers,
  \<open>logging.rs\<close> and \<open>events.rs\<close> report.

  \<^bold>\<open>The theories, from the leaves to the root.\<close>

  \<^item> \<open>Csqtt_Prelude\<close> has machine words, big-endian codecs, checked reads and slices, hash maps as association lists,
    clocks, and the lemmas the components share. \<open>Chars\<close> has texts as code points with the methods of \<open>str\<close> in use.
  \<^item> \<open>Interfaces\<close> has the contracts as locales: \<open>byte_codec\<close> (interpreted by the frame header in \<open>Flow_Frame\<close> and
    the stream framing in \<open>Turn_Stream\<close>), \<open>invariant_machine\<close> and \<open>bounded_machine\<close> (\<open>Idle\<close>, the reassembler, the
    tracker of QUIC flows in \<open>Dispatch\<close>, the cache of \<open>Dns\<close>), \<open>step_invariant\<close> for interleaved steps (the pool, the
    TURN core and its driver, the credential cache, the logger, the waits on a \<open>Notify\<close>, the workers of a cohort) and
    \<open>array_queue\<close>, the laws of crossbeam's \<open>ArrayQueue\<close>. The laws of a \<open>Notify\<close> are the locale \<open>notify_laws\<close> in
    \<open>Recovery\<close>, those of a socket \<open>udp_socket_laws\<close> and \<open>udp_socket_live\<close> in \<open>Udp_Batch\<close>; they are third-party code and are
    interpreted by an instance that shows they can hold.
  \<^item> Framing and classes. \<open>Flow_Frame\<close> (header, flow identifiers, sequencer), \<open>Flow_Reassembler\<close> (\<open>push_at\<close>: it
    undoes any reordering within its limits, never emits out of order and its books are balanced),
    \<open>Striped_Scheduler\<close> (the walk over IP headers), \<open>Selective_Fec\<close> (which packets are sent twice, and how often).
  \<^item> Buffers and disguise. \<open>Packet_Buf\<close> (every operation with its error; the pool under interleaving never exceeds
    its limit), \<open>Obfs\<close> (unwrapping undoes wrapping, is safe on hostile bytes, nonces are fresh), \<open>Keys\<close> (the derivation
    of the key, the seed without randomness), \<open>Replay_Window\<close> (the bitmap refines the set of the accepted counters).
  \<^item> TURN. \<open>Stun_Codec\<close> and \<open>Stun_Message\<close> (decoder, builder, integrity), \<open>Turn_Core\<close> (the state machine, one function
    per method of \<open>NativeCore\<close>), \<open>Turn_Request\<close> (what is sent passes the client's own checks), \<open>Turn_Invariants\<close> and
    \<open>Turn_Safety\<close> (the invariant of every reachable core, unverified answers are refused, a poll leaves nothing
    overdue), \<open>Turn_Driver\<close> and \<open>Turn_Mirror\<close> (the task around the core; its snapshot refines the core),
    \<open>Turn_Loop\<close> (the select loops refine the steps of the driver, and a closing driver ends), \<open>Turn_Stream\<close>
    (frames survive any fragmentation), \<open>Turn_Endpoint\<close>.
  \<^item> Sessions. \<open>Protocol\<close> (control messages), \<open>Handshake\<close> (asking for the configuration), \<open>Session_Writer\<close> and
    \<open>Writer_Loops\<close> (packets leave once each and in order), \<open>Session\<close> (the life of a session; it takes out what it
    entered), \<open>Shutdown\<close> (the goodbye reaches a live path within its budget), \<open>Udp_Batch\<close> and \<open>Udp_From\<close>.
  \<^item> Dispatching. \<open>Dispatcher\<close> (reordering of returned packets, the scheduler, the queues with their epochs, the table
    of workers, which refines a map), \<open>Dispatch\<close> (a dispatched packet is placed once or given back),
    \<open>Dispatch_Loops\<close> (the tasks that read and write; returned packets keep their order), \<open>Packet_Bridge\<close>.
  \<^item> \<open>Tunnel\<close> composes the way in: datagrams, the replay window, the reassembler. The property at the end of this
    theory states what it comes to: a flow comes out whole and in order.
  \<^item> Workers. \<open>Error_Text\<close> (errors as chains of causes and texts, and the classifiers over them), \<open>Credentials\<close> (the
    cache and its leases), \<open>Worker_Retry\<close> (the decision after a session), \<open>Worker_Pool\<close> (layout and pacing),
    \<open>Worker_Loop\<close> (the gate, and all workers of a cohort interleaved: leases are accounted for, no worker gives up).
  \<^item> Watching. \<open>Recovery\<close> (epochs and their waiters, the stall detector, repair orders), \<open>Idle\<close> (parking workers),
    \<open>Monitors\<close> (the monitors over their polls).
  \<^item> The service. \<open>Auth\<close> (where credentials come from and what an answer has to carry), \<open>Requests\<close> (clients, headers),
    \<open>Vk_Calls\<close> (the calls of the account: its secrets go to the service only, credentials are never shared),
    \<open>Disguise\<close> (profiles and names), \<open>Dns\<close>.
  \<^item> The engine. \<open>Engine\<close>, \<open>Engine_Run\<close> and \<open>Host_Calls\<close> (\<open>lib.rs\<close>, \<open>ffi.rs\<close>), \<open>Sockets\<close> (\<open>protect.rs\<close>, \<open>tun.rs\<close>, \<open>cpu_task.rs\<close>),
    \<open>Event_Log\<close> (\<open>events.rs\<close>, \<open>stats.rs\<close>), \<open>Logging\<close> and \<open>Log_Wait\<close>.

  \<^bold>\<open>How code becomes definitions.\<close> A struct is a record, an enum a datatype, a \<open>Result\<close> a sum with the error on
  the left. Where untrusted bytes are read, an outer \<open>None\<close> is a panic of the code, and lemmas show that it does not
  occur. Words are words where they wrap; counters are naturals with the saturation or the wrap-around of the
  source written out. A \<open>HashMap\<close> is an association list with distinct keys, and nothing depends on its order except
  where the code breaks a tie by it. A mutex makes a method one step; an atomic is one step of its own, and
  tasks that share atomics or queues are step relations with every interleaving of their steps. An async
  function is the list of its rounds: what each await yields, which branch of a \<open>select!\<close> is ready, what the clock
  reads and what the random generator draws are inputs, so that a theorem over all inputs holds for
  every schedule.

  \<^bold>\<open>Parameters.\<close> Third-party code is an argument with its documented laws as a named hypothesis: AES-CTR, HMAC-SHA1 and
  ChaCha20-Poly1305 (\<open>cipher_ok\<close>), the random generator (\<open>rng_ok\<close>), MD5, CRC-32 and the transaction identifiers
  (\<open>turn_env\<close>), HKDF, \<open>ArrayQueue\<close> (\<open>array_queue_ok\<close>), \<open>Notify\<close> (\<open>notify_ok\<close>), the socket calls, the libraries for URLs,
  JSON, digests and HTTP, and the answers of the kernel. Each hypothesis has an instance in the witnesses.

  \<^bold>\<open>Termination, fuel and bounds.\<close> Loops over a list of inputs are structural. \<open>skip_name\<close> of \<open>Dns\<close>, the walks over
  attributes, frames and extension headers and the draining loops of the reassembler end by the measure of the
  bytes or entries left. The loops of \<open>Udp_Batch\<close>, \<open>Udp_From\<close> and \<open>Session_Writer\<close> that ask a socket until it takes a
  datagram may run for ever: they are partial functions into \<open>option\<close>, and under the law that a socket blocks only
  finitely often they are proved to return. Where a loop of the code has a bound of its own, the model
  has it: four rounds of \<open>replace_oldest\<close>, the drains of the driver (\<open>Turn_Loop\<close>), the attempts of the handshake
  and of the authorization, the seven transmissions of a transaction. \<open>run_waiter\<close> counts the steps a waiting task
  takes itself; three or five are enough, as the theorems say. Loops that wait for the outside end only when their
  inputs end, and theorems that they end name the input that makes them: a deadline, a cancellation, an answer.

  \<^bold>\<open>What the lemmas show that the code does not intend.\<close> Next to the properties stand theorems that exhibit a run in
  which the code misses its aim, each under its own name: for example \<open>full_flow_strands_late_frame\<close>,
  \<open>repair_can_be_missed\<close>, \<open>idle_exit_race_parks_workers\<close>, \<open>two_senders_lose_the_wakeup\<close>, \<open>old_packet_is_accepted_again\<close>,
  \<open>late_line_is_lost\<close>, \<open>nudge_hides_a_suspension\<close>, \<open>foreign_identifier_ends_the_query\<close>, \<open>auto_js_hides_a_dead_call\<close>.

  \<^bold>\<open>Not modelled, and why.\<close>

  \<^item> \<open>captcha.rs\<close> and \<open>captcha_slider.rs\<close>: they answer the challenges of a third party with scraped pages, decoded images and
    floating-point scores, which have no contract in this repository to verify against; \<open>Auth\<close> takes what solving
    yields as an input.
  \<^item> \<open>client_perf.rs\<close> (measurement hooks without effect), \<open>main.rs\<close> (it only calls
    \<open>cli_main\<close>), the command line parser and the printing of the configuration in \<open>lib.rs\<close>, the message headers
    handed to the kernel in \<open>udp_batch.rs\<close>, option calls of sockets, TLS.
  \<^item> The executor: fairness, memory reclamation and the weak memory orders. Atomic accesses are sequentially
    consistent here.
  \<^item> Log texts, except where other code parses them (\<open>Error_Text\<close>, \<open>Event_Log\<close>).
  \<^item> \<open>vendor/primp\<close>, a vendored HTTP client, the tests and soak tests, the build scripts, and the Go programs under
    \<open>src/examples/moduledual\<close> and \<open>src/shared\<close>, which are separate programs in another language.
\<close>

section \<open>Across the components\<close>

text \<open>
  C1: A flow of the peer comes out whole: its packets, numbered and framed, disguised and sent under counters of
  their own, arrive in any order, any number of times each, within the window of one session and twelve
  milliseconds. Whatever the network does to them within that, the host gets the packets \<open>0, 1, ..., e - 1\<close>, once
  each, in their order and byte for byte, where \<open>e\<close> is the first packet that has not arrived.
\<close>

theorem tunnel_restores_a_flow:
  assumes "cipher_ok C" "rng_ok R"
    and "list_all2 (sent_as R C (oc_mode config)) (map (\<lambda>a. (c (fst a), framed_as sender flow pkt (fst a))) arr) qs"
    and "inj_on c (fst ` set arr)" "\<forall>a\<in>set arr. base \<le> c (fst a) \<and> c (fst a) < base + 2 ^ 14" "base + 2 ^ 14 \<le> 2 ^ 16"
    and few: "card (fst ` set arr) \<le> MAX_PENDING_PER_FLOW"
    and soon: "\<forall>a\<in>set arr. fst a < 2 ^ 30 \<and> start \<le> unat (snd a) \<and> unat (snd a) < start + GAP_RELEASE_AFTER_MS"
  shows "\<exists>w r e. receive_all C config (zip qs (map snd arr)) new_window new_reorder = Some (w, r)
    \<and> map pb_slice (ro_ready r) = map pkt [0..<e] \<and> {..<e} \<subseteq> fst ` set arr \<and> e \<notin> fst ` set arr"
proof -
  let ?arr = "first_arrivals fst arr"
  have keys: "fst ` set ?arr = fst ` set arr" "distinct (map fst ?arr)" "set ?arr \<subseteq> set arr"
    using first_arrivals_keys [of fst arr] by simp_all
  obtain us w where got: "receive_all C config (zip qs (map snd arr)) new_window new_reorder = Some (w, reassembled us new_reorder)"
    and us: "map (\<lambda>(t, u). (t, pb_slice u)) us = map (\<lambda>a. (snd a, framed_as sender flow pkt (fst a))) ?arr"
    using received_first_arrivals [OF assms(1-6), of new_reorder] by blast
  obtain g where g: "list_all2 (\<lambda>a (t, u). t = snd a \<and> trim_front FRAME_LEN u = Inr (g (fst a))
      \<and> (\<exists>rest. pb_slice u = header_bytes \<lparr>fh_sender = sender, fh_flow = flow, fh_sequence = word_of_nat (fst a)\<rparr> @ rest)) ?arr us"
    and pkt: "\<forall>k \<in> fst ` set ?arr. pb_slice (g k) = pkt k"
    using payload_of_frames [OF us [unfolded framed_as_def] keys(2)] by blast
  have "length ?arr = card (fst ` set arr)" using distinct_card [OF keys(2)] keys(1) by simp
  then have len: "length ?arr \<le> MAX_PENDING_PER_FLOW" "0 + length ?arr \<le> MAX_PENDING_TOTAL"
    using few by (simp_all add: MAX_PENDING_PER_FLOW_def MAX_PENDING_TOTAL_def)
  have view: "flow_view sender flow 0 new_flow_state (new_reassembler :: packet_buf reassembler)"
    using flow_view_untracked [of "new_reassembler :: packet_buf reassembler" sender flow]
    by (simp add: new_reassembler_def MAX_TRACKED_FLOWS_def)
  obtain ra' e st where push: "push_all (map (arrival sender flow g) ?arr) new_reassembler [] = (ra', map g [0..<e])"
    and win: "in_window g start (fst ` set ?arr) e st"
    using arrivals_in_window [OF view keys(2) len, of start g] soon keys(3) by blast
  have ready: "ro_ready (reassembled us new_reorder) = map g [0..<e]"
    unfolding pushed_frames [OF g] by (simp add: new_reorder_def push)
  have range: "{..<e} \<subseteq> fst ` set arr" "e \<notin> fst ` set arr" using in_window_next [OF win] keys(1) by simp_all
  then have "map pb_slice (ro_ready (reassembled us new_reorder)) = map pkt [0..<e]"
    unfolding ready using pkt keys(1) by (auto simp: subset_iff)
  then show ?thesis using got range by blast
qed

lemma tunnel_restores_a_flow_witness:
  "\<exists>qs w r. receive_all plain_cipher (new_config Video 1) (zip qs [5, 6, 7, 8]) new_window new_reorder = Some (w, r)
     \<and> map pb_slice (ro_ready r) = map (\<lambda>k. [7, word_of_nat k]) [0..<2]"
proof -
  let ?arr = "[(1, 5), (0, 6), (1, 7), (5, 8)] :: (nat \<times> u64) list" and ?pkt = "\<lambda>k. [7, word_of_nat k] :: bytes"
  let ?sent = "sent_as zero_rng plain_cipher (oc_mode (new_config Video 1))"
  have "\<exists>q. ?sent (k, framed_as 1 2 ?pkt k) q" for k
    using example_sent [of "framed_as 1 2 ?pkt k" k] by (simp add: framed_as_def new_config_def header_bytes_def FRAME_MAGIC_def)
  then obtain f where f: "\<And>k. ?sent (k, framed_as 1 2 ?pkt k) (f k)" by metis
  let ?qs = "map (\<lambda>a. f (fst a)) ?arr"
  have "\<exists>w r e. receive_all plain_cipher (new_config Video 1) (zip ?qs (map snd ?arr)) new_window new_reorder = Some (w, r)
      \<and> map pb_slice (ro_ready r) = map ?pkt [0..<e] \<and> {..<e} \<subseteq> fst ` set ?arr \<and> e \<notin> fst ` set ?arr"
    by (rule tunnel_restores_a_flow [OF plain_cipher_ok zero_rng_ok, where c = "\<lambda>k. k" and sender = 1 and flow = 2 and base = 0 and start = 5])
      (use f in \<open>simp_all add: MAX_PENDING_PER_FLOW_def GAP_RELEASE_AFTER_MS_def card_insert_if\<close>)
  then obtain w r e where r: "receive_all plain_cipher (new_config Video 1) (zip ?qs [5, 6, 7, 8]) new_window new_reorder = Some (w, r)"
    "map pb_slice (ro_ready r) = map ?pkt [0..<e]" "{..<e} \<subseteq> {0, 1, 5}" "e \<notin> {0, 1, 5}"
    by auto
  have "e = 2"
  proof -
    have "\<not> 2 < e" using r(3) by (auto dest: subsetD [of _ _ 2])
    then show ?thesis using r(4) by (cases "e = 0"; cases "e = 1") auto
  qed
  then show ?thesis using r by blast
qed

end
